(* ===== verification/Kernel_Prelude.thy ===== *)
theory Kernel_Prelude
  imports Main "HOL-Library.Word"
begin

text \<open>
  Shared vocabulary of the R-OS kernel development: the integer types of
  \<^verbatim>\<open>Include/rosval.h\<close>, the page constants of \<^verbatim>\<open>kernel/mm/mm.hpp\<close>, a fallible
  counting loop, and the lemmas on words, lists and options that several components use.
  Where C++ would be undefined (an access outside an array, a null dereference, a write past
  a fixed buffer) the models return \<^const>\<open>None\<close>; a theorem that an operation is defined is
  therefore a memory-safety theorem.
\<close>

unbundle bit_operations_syntax

type_synonym u8 = "8 word"
type_synonym u16 = "16 word"
type_synonym u32 = "32 word"
type_synonym u64 = "64 word"

named_theorems kernel_defs \<open>definitions that component proofs unfold\<close>
named_theorems frame_simps \<open>what an operation leaves unchanged\<close>

abbreviation PAGE_SIZE :: u64 where
  "PAGE_SIZE \<equiv> 4096"

text \<open>
  \<open>for_range f b i k\<close> is \<^verbatim>\<open>for (j = i; j < i + k; ++j) f(j)\<close> over a state \<open>b\<close>; it stops with
  \<^const>\<open>None\<close> as soon as one iteration is undefined.
\<close>

fun for_range :: "('b \<Rightarrow> nat \<Rightarrow> 'b option) \<Rightarrow> 'b \<Rightarrow> nat \<Rightarrow> nat \<Rightarrow> 'b option" where
  "for_range f b i 0 = Some b"
| "for_range f b i (Suc k) =
     (case f b i of None \<Rightarrow> None | Some b' \<Rightarrow> for_range f b' (Suc i) k)"

text \<open>
  The first-fit scan both physical allocators and several table lookups share: the start of
  the first run of \<open>count\<close> consecutive indices in \<open>[i, n)\<close> on which \<open>used\<close> is false, where
  \<open>run\<close> unused indices directly before \<open>i\<close> have been seen.
\<close>

function first_fit :: "(nat \<Rightarrow> bool) \<Rightarrow> nat \<Rightarrow> nat \<Rightarrow> nat \<Rightarrow> nat \<Rightarrow> nat option" where
  "first_fit used n count i run =
     (if i < n then
        if \<not> used i then
          if run + 1 = count then Some (i + 1 - count)
          else first_fit used n count (i + 1) (run + 1)
        else first_fit used n count (i + 1) 0
      else None)"
  by pat_completeness auto
termination
  by (relation "measure (\<lambda>(used, n, count, i, run). n - i)") auto

declare first_fit.simps [simp del]

text \<open>\<open>find_index P xs\<close>: the index the loop \<^verbatim>\<open>for (i = 0; i < n; i++) if (P(xs[i])) break;\<close>
  stops at, if any.\<close>

fun find_index :: "('a \<Rightarrow> bool) \<Rightarrow> 'a list \<Rightarrow> nat option" where
  "find_index P [] = None"
| "find_index P (x # xs) = (if P x then Some 0 else map_option Suc (find_index P xs))"

subsection \<open>Loops\<close>

lemma for_range_add:
  "for_range f b i (j + k) =
     (case for_range f b i j of None \<Rightarrow> None | Some b' \<Rightarrow> for_range f b' (i + j) k)"
  by (induction f b i j rule: for_range.induct) (auto split: option.split)

lemma for_range_None_at:
  assumes "for_range f b i k = None"
  shows "\<exists>j b'. j < k \<and> for_range f b i j = Some b' \<and> f b' (i + j) = None"
  using assms
proof (induction f b i k rule: for_range.induct)
  case (1 f b i)
  then show ?case by simp
next
  case (2 f b i k)
  show ?case
  proof (cases "f b i")
    case None
    then show ?thesis by (intro exI [of _ 0] exI [of _ b]) simp
  next
    case (Some c)
    with "2.prems" "2.IH" obtain j b' where
      "j < k" "for_range f c (Suc i) j = Some b'" "f b' (Suc i + j) = None"
      by auto
    with Some show ?thesis by (intro exI [of _ "Suc j"] exI [of _ b']) simp
  qed
qed

text \<open>
  The scan invariant: the \<open>run\<close> indices before \<open>i\<close> are unused, and no run of \<open>count\<close> unused
  indices starts before them.
\<close>

definition scan_inv :: "(nat \<Rightarrow> bool) \<Rightarrow> nat \<Rightarrow> nat \<Rightarrow> nat \<Rightarrow> bool" where
  "scan_inv used count i run \<longleftrightarrow> run \<le> i \<and> run < count \<and>
     (\<forall>k. i - run \<le> k \<and> k < i \<longrightarrow> \<not> used k) \<and>
     (\<forall>s < i - run. \<exists>k. s \<le> k \<and> k < s + count \<and> used k)"

lemma scan_inv_start: "0 < count \<Longrightarrow> scan_inv used count 0 0"
  by (simp add: scan_inv_def)

lemma scan_inv_grow:
  "scan_inv used count i run \<Longrightarrow> \<not> used i \<Longrightarrow> run + 1 \<noteq> count \<Longrightarrow> scan_inv used count (i + 1) (run + 1)"
  by (auto simp: scan_inv_def less_Suc_eq)

lemma scan_inv_reset:
  assumes "scan_inv used count i run" and "used i"
  shows "scan_inv used count (i + 1) 0"
proof -
  have "\<exists>k. s \<le> k \<and> k < s + count \<and> used k" if "s < i + 1" for s
  proof (cases "s < i - run")
    case True
    with assms(1) show ?thesis by (auto simp: scan_inv_def)
  next
    case False
    with that assms show ?thesis by (intro exI [of _ i]) (auto simp: scan_inv_def)
  qed
  with assms(1) show ?thesis by (auto simp: scan_inv_def)
qed

text \<open>The result is the lowest fitting start, and there is none only when nothing fits.\<close>

lemma first_fit_spec:
  assumes "scan_inv used count i run"
  shows "case first_fit used n count i run of
      Some s \<Rightarrow> s + count \<le> n \<and> (\<forall>k. s \<le> k \<and> k < s + count \<longrightarrow> \<not> used k) \<and>
        (\<forall>s' < s. \<exists>k. s' \<le> k \<and> k < s' + count \<and> used k)
    | None \<Rightarrow> \<forall>s. i \<le> n \<longrightarrow> s + count \<le> n \<longrightarrow> (\<exists>k. s \<le> k \<and> k < s + count \<and> used k)"
  using assms
proof (induction used n count i run rule: first_fit.induct)
  case (1 used n count i run)
  note unfold = first_fit.simps [of used n count i run]
  consider (stop) "\<not> i < n" | (hit) "i < n" "\<not> used i" "run + 1 = count"
    | (grow) "i < n" "\<not> used i" "run + 1 \<noteq> count" | (reset) "i < n" "used i"
    by blast
  then show ?case
  proof cases
    case stop
    with "1.prems" show ?thesis by (auto simp: unfold scan_inv_def)
  next
    case hit
    with "1.prems" show ?thesis by (auto simp: unfold scan_inv_def less_Suc_eq)
  next
    case grow
    with "1.IH"(1) [OF grow scan_inv_grow [OF "1.prems" grow(2,3)]] show ?thesis
      by (simp add: unfold split: option.splits)
  next
    case reset
    with "1.IH"(2) [OF reset(1) _ scan_inv_reset [OF "1.prems" reset(2)]] show ?thesis
      by (simp add: unfold split: option.splits)
  qed
qed

lemma first_fit_SomeD:
  assumes "first_fit used n count 0 0 = Some s" and "0 < count"
  shows "s + count \<le> n" and "\<And>k. s \<le> k \<Longrightarrow> k < s + count \<Longrightarrow> \<not> used k"
    and "\<And>s'. s' < s \<Longrightarrow> \<exists>k. s' \<le> k \<and> k < s' + count \<and> used k"
  using first_fit_spec [OF scan_inv_start [OF assms(2), of used], of n] assms(1) by auto

lemma first_fit_NoneD:
  assumes "first_fit used n count 0 0 = None" and "0 < count" and "s + count \<le> n"
  shows "\<exists>k. s \<le> k \<and> k < s + count \<and> used k"
  using first_fit_spec [OF scan_inv_start [OF assms(2), of used], of n] assms by auto

lemma first_fit_Some_iff:
  assumes "0 < count"
  shows "first_fit used n count 0 0 = Some s \<longleftrightarrow>
    s + count \<le> n \<and> (\<forall>k. s \<le> k \<and> k < s + count \<longrightarrow> \<not> used k) \<and>
    (\<forall>s' < s. \<exists>k. s' \<le> k \<and> k < s' + count \<and> used k)" (is "?L \<longleftrightarrow> ?R s")
proof
  assume ?L
  then show "?R s" using first_fit_SomeD [OF _ assms, of used n s] by blast
next
  assume R: "?R s"
  then obtain s' where s': "first_fit used n count 0 0 = Some s'"
    using first_fit_NoneD [OF _ assms] by (cases "first_fit used n count 0 0") auto
  have "\<not> s < s'" using first_fit_SomeD(3) [OF s' assms, of s] R by blast
  moreover have "\<not> s' < s" using first_fit_SomeD(2) [OF s' assms] R by blast
  ultimately show ?L using s' by simp
qed

subsection \<open>Lists\<close>

lemma find_index_SomeD:
  "find_index P xs = Some i \<Longrightarrow> i < length xs \<and> P (xs ! i) \<and> (\<forall>j < i. \<not> P (xs ! j))"
proof (induction xs arbitrary: i)
  case Nil
  then show ?case by simp
next
  case (Cons x xs)
  then show ?case by (auto simp: less_Suc_eq_0_disj nth_Cons split: if_splits nat.splits)
qed

lemma find_index_None_iff: "find_index P xs = None \<longleftrightarrow> (\<forall>x \<in> set xs. \<not> P x)"
  by (induction xs) auto

lemma find_index_None_nth: "find_index P xs = None \<longleftrightarrow> (\<forall>i < length xs. \<not> P (xs ! i))"
  by (simp add: find_index_None_iff all_set_conv_all_nth)

lemma find_index_unique:
  assumes "i < length xs" and "P (xs ! i)" and "\<And>j. j < length xs \<Longrightarrow> P (xs ! j) \<Longrightarrow> j = i"
  shows "find_index P xs = Some i"
proof (cases "find_index P xs")
  case None
  with assms(1,2) show ?thesis by (simp add: find_index_None_nth)
next
  case (Some j)
  with find_index_SomeD [OF Some] assms(3) show ?thesis by blast
qed

subsection \<open>Words\<close>

lemma unat_and_not_mask: "unat (x AND NOT (mask n) :: 'a::len word) = unat x div 2 ^ n * 2 ^ n"
proof -
  have "x AND NOT (mask n) = push_bit n (drop_bit n x)"
    by (rule bit_word_eqI) (auto simp: bit_simps)
  moreover have "unat (push_bit n (drop_bit n x)) = push_bit n (drop_bit n (unat x))"
    by (rule bit_eqI) (auto simp: bit_simps dest: bit_imp_le_length)
  ultimately show ?thesis by (simp add: push_bit_eq_mult drop_bit_eq_div)
qed

lemma unat_and_mask: "unat (x AND mask n :: 'a::len word) = unat x mod 2 ^ n"
proof -
  have "unat (x AND mask n) = take_bit n (unat x)"
    by (rule bit_eqI) (auto simp: bit_simps dest: bit_imp_le_length)
  then show ?thesis by (simp add: take_bit_eq_mod)
qed

text \<open>Rounding to pages, as the memory code writes it: \<^verbatim>\<open>x & ~(PAGE_SIZE - 1)\<close>.\<close>

definition page_floor :: "u64 \<Rightarrow> u64" where
  "page_floor x = x AND NOT (PAGE_SIZE - 1)"

definition page_ceil :: "u64 \<Rightarrow> u64" where
  "page_ceil x = (x + PAGE_SIZE - 1) AND NOT (PAGE_SIZE - 1)"

lemma page_mask: "PAGE_SIZE - 1 = mask 12"
  by (simp add: mask_eq_exp_minus_1)

lemma unat_page_floor: "unat (page_floor x) = unat x div 4096 * 4096"
  using unat_and_not_mask [of x 12] by (simp add: page_floor_def mask_eq_exp_minus_1)

lemma unat_page_ceil:
  assumes "unat x + 4095 < 2 ^ 64"
  shows "unat (page_ceil x) = (unat x + 4095) div 4096 * 4096"
proof -
  have "unat (x + PAGE_SIZE - 1) = unat x + 4095"
  proof -
    have "x + PAGE_SIZE - 1 = x + 4095" by simp
    with assms show ?thesis by (simp add: unat_word_ariths)
  qed
  then show ?thesis
    using unat_and_not_mask [of "x + PAGE_SIZE - 1" 12] by (simp add: page_ceil_def mask_eq_exp_minus_1)
qed

lemma word_unat_eqI: "unat x = unat y \<Longrightarrow> x = (y :: 'a::len word)"
  by (simp add: word_unat_eq_iff)

lemma unat_add_no_wrap: "unat x + unat y < 2 ^ 64 \<Longrightarrow> unat (x + y :: u64) = unat x + unat y"
  by (simp add: unat_word_ariths)

lemma unat_mult_no_wrap: "unat x * unat y < 2 ^ 64 \<Longrightarrow> unat (x * y :: u64) = unat x * unat y"
  by (simp add: unat_word_ariths)

lemma unat_diff_no_wrap: "y \<le> x \<Longrightarrow> unat (x - y :: u64) = unat x - unat y"
  by (simp add: unat_sub)

lemma unat_of_nat_u64: "n < 2 ^ 64 \<Longrightarrow> unat (of_nat n :: u64) = n"
  by (simp add: unat_of_nat take_bit_nat_eq_self)

end
