(* ===== verification/Frame_Source.thy ===== *)
theory Frame_Source
  imports Kernel_Prelude
begin

text \<open>
  The interface through which the rest of the kernel uses the physical frame allocator: runs of
  4096-byte frames are taken and given back. A client that keeps several runs, indexed by \<open>'i\<close>,
  relies on two consequences proved here once: a new run overlaps none of the runs it holds, and
  giving one back leaves the others untouched.
\<close>

text \<open>The frames of a run, and the runs the allocator manages.\<close>

definition frames :: "u64 \<Rightarrow> u64 \<Rightarrow> nat set" where
  "frames a n = {unat a div 4096 ..< unat a div 4096 + unat n}"

definition managed :: "u64 \<Rightarrow> u64 \<Rightarrow> bool" where
  "managed a n \<longleftrightarrow> n \<noteq> 0 \<and> unat a mod 4096 = 0 \<and> 256 \<le> unat a div 4096 \<and> unat a div 4096 + unat n \<le> 262400"

text \<open>The runs \<open>H\<close> are managed, their frames are used, and no two of them overlap.\<close>

definition holds_runs :: "(nat \<Rightarrow> bool) \<Rightarrow> ('i \<Rightarrow> (u64 \<times> u64) option) \<Rightarrow> bool" where
  "holds_runs used H \<longleftrightarrow>
     (\<forall>i a n. H i = Some (a, n) \<longrightarrow> managed a n \<and> (\<forall>f \<in> frames a n. used f))
     \<and> (\<forall>i j a n b m. i \<noteq> j \<longrightarrow> H i = Some (a, n) \<longrightarrow> H j = Some (b, m) \<longrightarrow> frames a n \<inter> frames b m = {})"

lemma holds_runsI:
  assumes "\<And>i a n. H i = Some (a, n) \<Longrightarrow> managed a n \<and> (\<forall>f \<in> frames a n. used f)"
    and "\<And>i j a n b m. i \<noteq> j \<Longrightarrow> H i = Some (a, n) \<Longrightarrow> H j = Some (b, m) \<Longrightarrow> frames a n \<inter> frames b m = {}"
  shows "holds_runs used H"
  using assms unfolding holds_runs_def by blast

lemma holds_runsD:
  assumes "holds_runs used H" and "H i = Some (a, n)"
  shows "managed a n" and "f \<in> frames a n \<Longrightarrow> used f"
    and "i \<noteq> j \<Longrightarrow> H j = Some (b, m) \<Longrightarrow> frames a n \<inter> frames b m = {}"
  using assms unfolding holds_runs_def by blast+

locale frame_source =
  fixes wf :: "'s \<Rightarrow> bool" and used :: "'s \<Rightarrow> nat \<Rightarrow> bool"
    and alloc :: "u64 \<Rightarrow> 's \<Rightarrow> (u64 \<times> 's) option" and free :: "u64 \<Rightarrow> u64 \<Rightarrow> 's \<Rightarrow> 's option"
  assumes alloc_total: "wf s \<Longrightarrow> \<exists>a s'. alloc n s = Some (a, s')"
    and alloc_fails: "wf s \<Longrightarrow> alloc n s = Some (0, s') \<Longrightarrow> s' = s"
    and alloc_run: "wf s \<Longrightarrow> alloc n s = Some (a, s') \<Longrightarrow> a \<noteq> 0 \<Longrightarrow>
      wf s' \<and> managed a n \<and> (\<forall>f \<in> frames a n. \<not> used s f) \<and> (\<forall>f. used s' f \<longleftrightarrow> f \<in> frames a n \<or> used s f)"
    and free_frees: "wf s \<Longrightarrow> managed a n \<Longrightarrow>
      \<exists>s'. free a n s = Some s' \<and> wf s' \<and> (\<forall>f. used s' f \<longleftrightarrow> f \<notin> frames a n \<and> used s f)"
begin

lemma take_run:
  assumes "wf s" and "holds_runs (used s) H" and "H i = None" and "alloc n s = Some (a, s')" and "a \<noteq> 0"
  shows "wf s' \<and> holds_runs (used s') (H(i := Some (a, n)))"
proof -
  note run = alloc_run [OF assms(1,4,5)]
  have new: "frames a n \<inter> frames b m = {}" if "H j = Some (b, m)" for j b m
    using holds_runsD(2) [OF assms(2) that] run by auto
  have "holds_runs (used s') (H(i := Some (a, n)))"
  proof (rule holds_runsI)
    fix j b m assume "(H(i := Some (a, n))) j = Some (b, m)"
    then show "managed b m \<and> (\<forall>f \<in> frames b m. used s' f)"
      using run holds_runsD(1,2) [OF assms(2)] by (auto split: if_splits)
  next
    fix j k b m c l
    assume "j \<noteq> k" "(H(i := Some (a, n))) j = Some (b, m)" "(H(i := Some (a, n))) k = Some (c, l)"
    then show "frames b m \<inter> frames c l = {}"
      using new holds_runsD(3) [OF assms(2)] by (auto split: if_splits)
  qed
  with run show ?thesis by blast
qed

lemma give_back:
  assumes "wf s" and "holds_runs (used s) H" and "H i = Some (a, n)"
  shows "\<exists>s'. free a n s = Some s' \<and> wf s' \<and> holds_runs (used s') (H(i := None))
    \<and> (\<forall>f. used s' f \<longleftrightarrow> f \<notin> frames a n \<and> used s f)"
proof -
  obtain s' where s': "free a n s = Some s'" "wf s'" "\<forall>f. used s' f \<longleftrightarrow> f \<notin> frames a n \<and> used s f"
    using free_frees [OF assms(1) holds_runsD(1) [OF assms(2,3)]] by blast
  have "holds_runs (used s') (H(i := None))"
  proof (rule holds_runsI)
    fix j b m assume j: "(H(i := None)) j = Some (b, m)"
    then have "frames a n \<inter> frames b m = {}" using holds_runsD(3) [OF assms(2,3), of j] by (auto split: if_splits)
    then show "managed b m \<and> (\<forall>f \<in> frames b m. used s' f)"
      using j s'(3) holds_runsD(1,2) [OF assms(2)] by (auto split: if_splits)
  next
    fix j k b m c l
    assume "j \<noteq> k" "(H(i := None)) j = Some (b, m)" "(H(i := None)) k = Some (c, l)"
    then show "frames b m \<inter> frames c l = {}" using holds_runsD(3) [OF assms(2)] by (auto split: if_splits)
  qed
  with s' show ?thesis by blast
qed

end

end
