(* ===== verification/Phys_Alloc.thy ===== *)
theory Phys_Alloc
  imports Frame_Source
begin

text \<open>
  The bitmap-backed physical frame allocator, \<^verbatim>\<open>kernel/mm/physicalalloc.cpp\<close>: the two
  bitmaps (frames below and above 1 MiB), the start-up scan of the E820 map, and the
  allocate, free and reserve operations. Every operation returns an option; \<^const>\<open>None\<close> is a
  byte access outside the bitmap array. Interrupts are disabled around each operation in the
  code, so each is one atomic step here.
\<close>

section \<open>Model\<close>

abbreviation PHYS_BASE :: u64 where
  "PHYS_BASE \<equiv> 0x100000"

abbreviation PHYS_FRAMES :: u64 where
  "PHYS_FRAMES \<equiv> 262144"

abbreviation LOW_FRAMES :: u64 where
  "LOW_FRAMES \<equiv> 256"

record phys_state =
  phys_bitmap :: "u8 list"
  low_phys_bitmap :: "u8 list"

text \<open>One bitmap byte array and its three accessors: \<^verbatim>\<open>map[idx >> 3]\<close>, bit \<^verbatim>\<open>idx & 7\<close>.\<close>

definition bitmap_set :: "u8 list \<Rightarrow> nat \<Rightarrow> u8 list option" where
  "bitmap_set bm idx =
     (if idx div 8 < length bm
      then Some (bm[idx div 8 := bm ! (idx div 8) OR push_bit (idx mod 8) 1])
      else None)"

definition bitmap_clear :: "u8 list \<Rightarrow> nat \<Rightarrow> u8 list option" where
  "bitmap_clear bm idx =
     (if idx div 8 < length bm
      then Some (bm[idx div 8 := bm ! (idx div 8) AND NOT (push_bit (idx mod 8) 1)])
      else None)"

definition bitmap_test :: "u8 list \<Rightarrow> nat \<Rightarrow> bool" where
  "bitmap_test bm idx \<longleftrightarrow> drop_bit (idx mod 8) (bm ! (idx div 8)) AND 1 \<noteq> 0"

subsection \<open>Boot information and start-up\<close>

record mem_region =
  base :: u64
  length_of :: u64
  type_of :: u32

record boot_info =
  has_memmap :: bool
  regions :: "mem_region list"
  has_framebuffer :: bool
  fb_address :: u64
  fb_pitch :: u32
  fb_height :: u32

text \<open>The part of the region loop that frees whole frames at or above \<^verbatim>\<open>PHYS_BASE\<close>.\<close>

definition free_high_region :: "mem_region \<Rightarrow> u8 list \<Rightarrow> u8 list option" where
  "free_high_region r bm =
     (let start = base r; end = base r + length_of r in
      if PHYS_BASE < end then
        let s = (if start < PHYS_BASE then PHYS_BASE else start);
            managed_end = PHYS_BASE + PHYS_FRAMES * PAGE_SIZE in
        if s < managed_end then
          let e = (if managed_end < end then managed_end else end);
              s = page_ceil s; e = page_floor e in
          if s < e then
            let first = (s - PHYS_BASE) div PAGE_SIZE; last = (e - PHYS_BASE) div PAGE_SIZE in
            for_range bitmap_clear bm (unat first) (unat last - unat first)
          else Some bm
        else Some bm
      else Some bm)"

text \<open>The part that frees whole frames below \<^verbatim>\<open>PHYS_BASE\<close>.\<close>

definition free_low_region :: "mem_region \<Rightarrow> u8 list \<Rightarrow> u8 list option" where
  "free_low_region r bm =
     (let start = base r; end = base r + length_of r in
      if start < PHYS_BASE then
        let hi = (if PHYS_BASE < end then PHYS_BASE else end);
            lo = page_ceil start; hi = page_floor hi in
        if lo < hi then
          let first = lo div PAGE_SIZE; last = hi div PAGE_SIZE in
          for_range bitmap_clear bm (unat first) (min (unat last) (unat LOW_FRAMES) - unat first)
        else Some bm
      else Some bm)"

fun scan_regions :: "mem_region list \<Rightarrow> phys_state \<Rightarrow> phys_state option" where
  "scan_regions [] s = Some s"
| "scan_regions (r # rs) s =
     (if type_of r \<noteq> 1 \<or> length_of r = 0 then scan_regions rs s
      else case free_high_region r (phys_bitmap s) of
        None \<Rightarrow> None
      | Some bm \<Rightarrow>
          (case free_low_region r (low_phys_bitmap s) of
             None \<Rightarrow> None
           | Some lbm \<Rightarrow> scan_regions rs (s\<lparr>phys_bitmap := bm, low_phys_bitmap := lbm\<rparr>)))"

definition reserve_framebuffer :: "boot_info \<Rightarrow> phys_state \<Rightarrow> phys_state option" where
  "reserve_framebuffer bi s =
     (let fb = fb_address bi; fb_size = ucast (fb_pitch bi) * ucast (fb_height bi);
          fb_lo = page_floor fb; fb_hi = page_ceil (fb + fb_size);
          managed_end = PHYS_BASE + PHYS_FRAMES * PAGE_SIZE in
      if fb_lo < managed_end \<and> PHYS_BASE < fb_hi then
        let fb_lo = (if fb_lo < PHYS_BASE then PHYS_BASE else fb_lo);
            fb_hi = (if managed_end < fb_hi then managed_end else fb_hi);
            first = (fb_lo - PHYS_BASE) div PAGE_SIZE; last = (fb_hi - PHYS_BASE) div PAGE_SIZE in
        map_option (\<lambda>bm. s\<lparr>phys_bitmap := bm\<rparr>)
          (for_range bitmap_set (phys_bitmap s) (unat first) (unat last - unat first))
      else Some s)"

text \<open>\<^verbatim>\<open>PageAlloc::Physical\<close>; \<^const>\<open>None\<close> as the argument is a null \<^verbatim>\<open>BootInfo\<close> pointer.\<close>

definition Physical :: "boot_info option \<Rightarrow> phys_state option" where
  "Physical obi =
     (let s = \<lparr>phys_bitmap = replicate 32768 0xFF, low_phys_bitmap = replicate 32 0xFF\<rparr>;
          s1 = (case obi of
                  Some bi \<Rightarrow> (if has_memmap bi then scan_regions (regions bi) s
                             else Some (s\<lparr>phys_bitmap := replicate 32768 0\<rparr>))
                | None \<Rightarrow> Some (s\<lparr>phys_bitmap := replicate 32768 0\<rparr>))
      in case s1 of
           None \<Rightarrow> None
         | Some s1 \<Rightarrow>
             (case obi of
                Some bi \<Rightarrow> (if has_framebuffer bi then reserve_framebuffer bi s1 else Some s1)
              | None \<Rightarrow> Some s1))"

subsection \<open>Allocation, freeing and reservation\<close>

definition PhysicalAllocLowPages :: "u64 \<Rightarrow> phys_state \<Rightarrow> (u64 \<times> phys_state) option" where
  "PhysicalAllocLowPages count s =
     (if count = 0 \<or> LOW_FRAMES < count then Some (0, s)
      else case first_fit (bitmap_test (low_phys_bitmap s)) (unat LOW_FRAMES) (unat count) 0 0 of
        None \<Rightarrow> Some (0, s)
      | Some start \<Rightarrow>
          map_option (\<lambda>bm. (of_nat start * PAGE_SIZE, s\<lparr>low_phys_bitmap := bm\<rparr>))
            (for_range bitmap_set (low_phys_bitmap s) start (unat count)))"

definition PhysicalFreeLowPages :: "u64 \<Rightarrow> u64 \<Rightarrow> phys_state \<Rightarrow> phys_state option" where
  "PhysicalFreeLowPages addr count s =
     (if addr = 0 \<or> count = 0 then Some s
      else if PHYS_BASE \<le> addr then Some s
      else let idx = addr div PAGE_SIZE in
        if LOW_FRAMES < idx + count then Some s
        else map_option (\<lambda>bm. s\<lparr>low_phys_bitmap := bm\<rparr>)
          (for_range bitmap_clear (low_phys_bitmap s) (unat idx) (unat count)))"

definition PhysicalReserveLow :: "u64 \<Rightarrow> u64 \<Rightarrow> phys_state \<Rightarrow> phys_state option" where
  "PhysicalReserveLow addr count s =
     (if addr = 0 \<or> count = 0 then Some s
      else if PHYS_BASE \<le> addr then Some s
      else let idx = addr div PAGE_SIZE in
        if LOW_FRAMES < idx + count then Some s
        else map_option (\<lambda>bm. s\<lparr>low_phys_bitmap := bm\<rparr>)
          (for_range bitmap_set (low_phys_bitmap s) (unat idx) (unat count)))"

definition PhysicalAllocPages :: "u64 \<Rightarrow> phys_state \<Rightarrow> (u64 \<times> phys_state) option" where
  "PhysicalAllocPages count s =
     (if count = 0 \<or> PHYS_FRAMES < count then Some (0, s)
      else case first_fit (bitmap_test (phys_bitmap s)) (unat PHYS_FRAMES) (unat count) 0 0 of
        None \<Rightarrow> Some (0, s)
      | Some start \<Rightarrow>
          map_option (\<lambda>bm. (PHYS_BASE + of_nat start * PAGE_SIZE, s\<lparr>phys_bitmap := bm\<rparr>))
            (for_range bitmap_set (phys_bitmap s) start (unat count)))"

definition PhysicalFreePages :: "u64 \<Rightarrow> u64 \<Rightarrow> phys_state \<Rightarrow> phys_state option" where
  "PhysicalFreePages addr count s =
     (if addr = 0 \<or> count = 0 then Some s
      else if addr < PHYS_BASE then PhysicalFreeLowPages addr count s
      else let idx = (addr - PHYS_BASE) div PAGE_SIZE in
        if PHYS_FRAMES < idx + count then Some s
        else map_option (\<lambda>bm. s\<lparr>phys_bitmap := bm\<rparr>)
          (for_range bitmap_clear (phys_bitmap s) (unat idx) (unat count)))"

definition reserve_high :: "u64 \<Rightarrow> u64 \<Rightarrow> phys_state \<Rightarrow> phys_state option" where
  "reserve_high addr count s =
     (let idx = (addr - PHYS_BASE) div PAGE_SIZE in
      if PHYS_FRAMES < idx + count then Some s
      else map_option (\<lambda>bm. s\<lparr>phys_bitmap := bm\<rparr>)
        (for_range bitmap_set (phys_bitmap s) (unat idx) (unat count)))"

definition PhysicalReserve :: "u64 \<Rightarrow> u64 \<Rightarrow> phys_state \<Rightarrow> phys_state option" where
  "PhysicalReserve addr count s =
     (if addr = 0 \<or> count = 0 then Some s
      else if addr < PHYS_BASE then
        let end = addr + count * PAGE_SIZE in
        if end \<le> PHYS_BASE then PhysicalReserveLow addr count s
        else let low_count = (PHYS_BASE - addr) div PAGE_SIZE in
          (case PhysicalReserveLow addr low_count s of
             None \<Rightarrow> None
           | Some s' \<Rightarrow> reserve_high PHYS_BASE (count - low_count) s')
      else reserve_high addr count s)"

section \<open>The bitmap interface\<close>

text \<open>
  What the allocator relies on: a fixed number of slots, total accessors inside the range, and
  set and clear that change exactly one slot. The lemmas on runs of slots are proved here once
  and used for both bitmaps.
\<close>

locale slot_bitmap =
  fixes slots :: "'b \<Rightarrow> nat"
    and test :: "'b \<Rightarrow> nat \<Rightarrow> bool"
    and mark :: "'b \<Rightarrow> nat \<Rightarrow> 'b option"
    and unmark :: "'b \<Rightarrow> nat \<Rightarrow> 'b option"
  assumes mark_defined: "mark b i \<noteq> None \<longleftrightarrow> i < slots b"
    and mark_slots: "mark b i = Some b' \<Longrightarrow> slots b' = slots b"
    and mark_test: "mark b i = Some b' \<Longrightarrow> j < slots b \<Longrightarrow> test b' j \<longleftrightarrow> j = i \<or> test b j"
    and unmark_defined: "unmark b i \<noteq> None \<longleftrightarrow> i < slots b"
    and unmark_slots: "unmark b i = Some b' \<Longrightarrow> slots b' = slots b"
    and unmark_test: "unmark b i = Some b' \<Longrightarrow> j < slots b \<Longrightarrow> test b' j \<longleftrightarrow> j \<noteq> i \<and> test b j"
    and slots_ext: "slots b = slots b' \<Longrightarrow> (\<And>j. j < slots b \<Longrightarrow> test b j = test b' j) \<Longrightarrow> b = b'"
begin

lemma mark_range:
  "i + k \<le> slots b \<Longrightarrow> \<exists>b'. for_range mark b i k = Some b' \<and> slots b' = slots b \<and>
     (\<forall>j < slots b. test b' j \<longleftrightarrow> (i \<le> j \<and> j < i + k) \<or> test b j)"
proof (induction k arbitrary: b i)
  case 0
  then show ?case by auto
next
  case (Suc k)
  then obtain c where c: "mark b i = Some c" using mark_defined [of b i] by auto
  from Suc.IH [of "Suc i" c] Suc.prems mark_slots [OF c] obtain b' where
    "for_range mark c (Suc i) k = Some b'" "slots b' = slots c"
    "\<forall>j < slots c. test b' j \<longleftrightarrow> (Suc i \<le> j \<and> j < Suc i + k) \<or> test c j"
    by auto
  with c mark_slots [OF c] mark_test [OF c] show ?case by auto
qed

lemma unmark_range:
  "i + k \<le> slots b \<Longrightarrow> \<exists>b'. for_range unmark b i k = Some b' \<and> slots b' = slots b \<and>
     (\<forall>j < slots b. test b' j \<longleftrightarrow> \<not> (i \<le> j \<and> j < i + k) \<and> test b j)"
proof (induction k arbitrary: b i)
  case 0
  then show ?case by simp
next
  case (Suc k)
  then obtain c where c: "unmark b i = Some c" using unmark_defined [of b i] by auto
  from Suc.IH [of "Suc i" c] Suc.prems unmark_slots [OF c] obtain b' where
    "for_range unmark c (Suc i) k = Some b'" "slots b' = slots c"
    "\<forall>j < slots c. test b' j \<longleftrightarrow> \<not> (Suc i \<le> j \<and> j < Suc i + k) \<and> test c j"
    by auto
  with c unmark_slots [OF c] unmark_test [OF c] show ?case by auto
qed

lemma unmark_range_undefined:
  "slots b < i + k \<Longrightarrow> 0 < k \<Longrightarrow> for_range unmark b i k = None"
proof (induction k arbitrary: b i)
  case 0
  then show ?case by simp
next
  case (Suc k)
  show ?case
  proof (cases "unmark b i")
    case None
    then show ?thesis by simp
  next
    case (Some c)
    then have "i < slots b" using unmark_defined [of b i] by simp
    with Suc.prems have "0 < k" by simp
    with Suc Some unmark_slots [OF Some] show ?thesis by simp
  qed
qed

lemma mark_then_unmark:
  assumes "i + k \<le> slots b" and "\<And>j. i \<le> j \<Longrightarrow> j < i + k \<Longrightarrow> \<not> test b j"
    and "for_range mark b i k = Some b'"
  shows "for_range unmark b' i k = Some b"
proof -
  from mark_range [OF assms(1)] assms(3) have b': "slots b' = slots b"
    "\<forall>j < slots b. test b' j \<longleftrightarrow> (i \<le> j \<and> j < i + k) \<or> test b j" by auto
  with assms(1) unmark_range [of i k b'] obtain c where c: "for_range unmark b' i k = Some c"
    "slots c = slots b'" "\<forall>j < slots b'. test c j \<longleftrightarrow> \<not> (i \<le> j \<and> j < i + k) \<and> test b' j"
    by auto
  have "c = b" by (rule slots_ext) (use assms(2) b' c in auto)
  with c show ?thesis by simp
qed

end

lemma bitmap_test_bit: "bitmap_test bm i \<longleftrightarrow> bit (bm ! (i div 8)) (i mod 8)"
  by (simp add: bitmap_test_def bit_iff_odd_drop_bit and_one_eq odd_iff_mod_2_eq_one)

lemma div8_eq: "(i :: nat) div 8 = j div 8 \<Longrightarrow> i mod 8 = j mod 8 \<Longrightarrow> i = j"
  by (metis div_mult_mod_eq)

lemma div8_less: "(i :: nat) div 8 < n \<longleftrightarrow> i < 8 * n"
  by auto

interpretation bm: slot_bitmap "\<lambda>b. 8 * length b" bitmap_test bitmap_set bitmap_clear
proof
  fix b b' :: "u8 list" and i j :: nat
  show "(bitmap_set b i \<noteq> None) = (i < 8 * length b)" "(bitmap_clear b i \<noteq> None) = (i < 8 * length b)"
    by (auto simp: bitmap_set_def bitmap_clear_def div8_less)
  show "bitmap_set b i = Some b' \<Longrightarrow> 8 * length b' = 8 * length b"
    "bitmap_clear b i = Some b' \<Longrightarrow> 8 * length b' = 8 * length b"
    by (auto simp: bitmap_set_def bitmap_clear_def split: if_splits)
  show "bitmap_set b i = Some b' \<Longrightarrow> j < 8 * length b \<Longrightarrow> bitmap_test b' j = (j = i \<or> bitmap_test b j)"
    by (auto simp: bitmap_set_def bitmap_test_bit nth_list_update bit_simps div8_less
        dest: div8_eq div8_eq [OF _ sym] split: if_splits)
  show "bitmap_clear b i = Some b' \<Longrightarrow> j < 8 * length b \<Longrightarrow> bitmap_test b' j = (j \<noteq> i \<and> bitmap_test b j)"
    by (auto simp: bitmap_clear_def bitmap_test_bit nth_list_update bit_simps div8_less
        dest: div8_eq div8_eq [OF _ sym] split: if_splits)
  assume len: "8 * length b = 8 * length b'"
    and same: "\<And>j. j < 8 * length b \<Longrightarrow> bitmap_test b j = bitmap_test b' j"
  show "b = b'"
  proof (rule nth_equalityI)
    show "length b = length b'" using len by simp
    fix k assume k: "k < length b"
    show "b ! k = b' ! k"
    proof (rule bit_word_eqI)
      fix n assume "n < LENGTH(8)"
      then show "bit (b ! k) n = bit (b' ! k) n"
        using same [of "8 * k + n"] k by (simp add: bitmap_test_bit)
    qed
  qed
qed

section \<open>Invariant and abstraction\<close>

text \<open>The bitmaps keep their sizes; \<open>frame_used s f\<close> reads frame number \<open>f\<close> (address divided by
  4096) over both of them. Frames outside the managed range count as used.\<close>

definition wf_phys :: "phys_state \<Rightarrow> bool" where
  "wf_phys s \<longleftrightarrow> length (phys_bitmap s) = 32768 \<and> length (low_phys_bitmap s) = 32"

definition frame_used :: "phys_state \<Rightarrow> nat \<Rightarrow> bool" where
  "frame_used s f \<longleftrightarrow>
     (if f < 256 then bitmap_test (low_phys_bitmap s) f
      else if f < 262400 then bitmap_test (phys_bitmap s) (f - 256) else True)"

lemma wf_phys_update [simp]:
  "wf_phys s \<Longrightarrow> length bm = 32768 \<Longrightarrow> wf_phys (s\<lparr>phys_bitmap := bm\<rparr>)"
  "wf_phys s \<Longrightarrow> length bm = 32 \<Longrightarrow> wf_phys (s\<lparr>low_phys_bitmap := bm\<rparr>)"
  by (auto simp: wf_phys_def)

text \<open>Setting and clearing a run of the two bitmaps, read through the abstraction.\<close>

lemma high_mark:
  assumes "wf_phys s" and "i + k \<le> 262144"
  shows "\<exists>bm. for_range bitmap_set (phys_bitmap s) i k = Some bm \<and> wf_phys (s\<lparr>phys_bitmap := bm\<rparr>) \<and>
    (\<forall>f. frame_used (s\<lparr>phys_bitmap := bm\<rparr>) f \<longleftrightarrow> (256 + i \<le> f \<and> f < 256 + i + k) \<or> frame_used s f)"
  using bm.mark_range [of i k "phys_bitmap s"] assms by (fastforce simp: wf_phys_def frame_used_def)

lemma high_unmark:
  assumes "wf_phys s" and "i + k \<le> 262144"
  shows "\<exists>bm. for_range bitmap_clear (phys_bitmap s) i k = Some bm \<and> wf_phys (s\<lparr>phys_bitmap := bm\<rparr>) \<and>
    (\<forall>f. frame_used (s\<lparr>phys_bitmap := bm\<rparr>) f \<longleftrightarrow> \<not> (256 + i \<le> f \<and> f < 256 + i + k) \<and> frame_used s f)"
  using bm.unmark_range [of i k "phys_bitmap s"] assms by (fastforce simp: wf_phys_def frame_used_def)

lemma low_mark:
  assumes "wf_phys s" and "i + k \<le> 256"
  shows "\<exists>bm. for_range bitmap_set (low_phys_bitmap s) i k = Some bm \<and> wf_phys (s\<lparr>low_phys_bitmap := bm\<rparr>) \<and>
    (\<forall>f. frame_used (s\<lparr>low_phys_bitmap := bm\<rparr>) f \<longleftrightarrow> (i \<le> f \<and> f < i + k) \<or> frame_used s f)"
  using bm.mark_range [of i k "low_phys_bitmap s"] assms by (fastforce simp: wf_phys_def frame_used_def)

lemma low_unmark:
  assumes "wf_phys s" and "i + k \<le> 256"
  shows "\<exists>bm. for_range bitmap_clear (low_phys_bitmap s) i k = Some bm \<and> wf_phys (s\<lparr>low_phys_bitmap := bm\<rparr>) \<and>
    (\<forall>f. frame_used (s\<lparr>low_phys_bitmap := bm\<rparr>) f \<longleftrightarrow> \<not> (i \<le> f \<and> f < i + k) \<and> frame_used s f)"
  using bm.unmark_range [of i k "low_phys_bitmap s"] assms by (fastforce simp: wf_phys_def frame_used_def)

section \<open>Allocation\<close>

definition free_run :: "phys_state \<Rightarrow> nat \<Rightarrow> nat \<Rightarrow> bool" where
  "free_run s f n \<longleftrightarrow> (\<forall>g. f \<le> g \<and> g < f + n \<longrightarrow> \<not> frame_used s g)"

lemma unat_frame_addr: "start < 262144 \<Longrightarrow> unat (PHYS_BASE + of_nat start * PAGE_SIZE) = (256 + start) * 4096"
  by (simp add: unat_word_ariths unat_of_nat_u64)

lemma frame_addr_nonzero: "start < 262144 \<Longrightarrow> PHYS_BASE + of_nat start * PAGE_SIZE \<noteq> (0 :: u64)"
  using unat_frame_addr [of start] by (metis add_is_0 mult_is_0 unat_0 zero_neq_numeral)

lemma high_free_run:
  "i + n \<le> 262144 \<Longrightarrow> free_run s (256 + i) n \<longleftrightarrow> (\<forall>k. i \<le> k \<and> k < i + n \<longrightarrow> \<not> bitmap_test (phys_bitmap s) k)"
proof (intro iffI allI impI)
  fix k
  assume "i + n \<le> 262144" and "free_run s (256 + i) n" and "i \<le> k \<and> k < i + n"
  then have "\<not> frame_used s (256 + k)" by (simp add: free_run_def)
  with \<open>i + n \<le> 262144\<close> \<open>i \<le> k \<and> k < i + n\<close> show "\<not> bitmap_test (phys_bitmap s) k"
    by (simp add: frame_used_def)
next
  assume "i + n \<le> 262144" and "\<forall>k. i \<le> k \<and> k < i + n \<longrightarrow> \<not> bitmap_test (phys_bitmap s) k"
  then have "\<not> frame_used s g" if "256 + i \<le> g \<and> g < 256 + i + n" for g
    using that by (auto simp: frame_used_def dest!: spec [of _ "g - 256"])
  then show "free_run s (256 + i) n" by (auto simp: free_run_def)
qed

text \<open>The three outcomes of \<^const>\<open>PhysicalAllocPages\<close>: a request it refuses, no room, or a run.\<close>

lemma alloc_pages_cases:
  assumes "wf_phys s"
  obtains (refused) "count = 0 \<or> PHYS_FRAMES < count" "PhysicalAllocPages count s = Some (0, s)"
  | (full) "0 < unat count" "unat count \<le> 262144" "PhysicalAllocPages count s = Some (0, s)"
      "\<And>f. 256 \<le> f \<Longrightarrow> f + unat count \<le> 262400 \<Longrightarrow> \<not> free_run s f (unat count)"
  | (found) i s' where "0 < unat count" "i + unat count \<le> 262144"
      "PhysicalAllocPages count s = Some (PHYS_BASE + of_nat i * PAGE_SIZE, s')"
      "free_run s (256 + i) (unat count)" "wf_phys s'"
      "\<And>f. frame_used s' f \<longleftrightarrow> (256 + i \<le> f \<and> f < 256 + i + unat count) \<or> frame_used s f"
      "low_phys_bitmap s' = low_phys_bitmap s"
      "for_range bitmap_set (phys_bitmap s) i (unat count) = Some (phys_bitmap s')"
      "\<And>f. 256 \<le> f \<Longrightarrow> f < 256 + i \<Longrightarrow> \<not> free_run s f (unat count)"
proof -
  let ?ff = "first_fit (bitmap_test (phys_bitmap s)) 262144 (unat count) 0 0"
  show ?thesis
  proof (cases "count = 0 \<or> PHYS_FRAMES < count")
    case True
    then show ?thesis using refused by (simp add: PhysicalAllocPages_def)
  next
    case False
    then have c: "0 < unat count" "unat count \<le> 262144"
      by (auto simp: word_le_nat_alt word_less_nat_alt unat_gt_0)
    show ?thesis
    proof (cases ?ff)
      case None
      have "\<not> free_run s f (unat count)" if "256 \<le> f" "f + unat count \<le> 262400" for f
        using first_fit_NoneD [OF None c(1), of "f - 256"] that high_free_run [of "f - 256" "unat count" s]
        by auto
      with None False c show ?thesis using full by (simp add: PhysicalAllocPages_def)
    next
      case (Some i)
      note ff = first_fit_SomeD [OF Some c(1)]
      obtain bm where bm: "for_range bitmap_set (phys_bitmap s) i (unat count) = Some bm"
        "wf_phys (s\<lparr>phys_bitmap := bm\<rparr>)"
        "\<forall>f. frame_used (s\<lparr>phys_bitmap := bm\<rparr>) f \<longleftrightarrow>
           (256 + i \<le> f \<and> f < 256 + i + unat count) \<or> frame_used s f"
        using high_mark [OF assms ff(1)] by blast
      have least: "\<not> free_run s f (unat count)" if "256 \<le> f" "f < 256 + i" for f
        using ff(3) [of "f - 256"] ff(1) that high_free_run [of "f - 256" "unat count" s] by auto
      show ?thesis
        by (rule found [of i "s\<lparr>phys_bitmap := bm\<rparr>"])
          (use Some False c ff bm least high_free_run [of i "unat count" s]
            in \<open>auto simp: PhysicalAllocPages_def\<close>)
    qed
  qed
qed

text \<open>C40. A successful \<^verbatim>\<open>PhysicalAllocPages\<close> returns the address of a run of \<open>count\<close> frames inside
  the managed gigabyte, all of which were free; afterwards exactly those frames are also used, and
  no lower run would have fitted (first fit).\<close>

theorem PhysicalAllocPages_sound:
  assumes "wf_phys s" and "PhysicalAllocPages count s = Some (addr, s')" and "addr \<noteq> 0"
  shows "\<exists>f. unat addr = f * 4096 \<and> 256 \<le> f \<and> f + unat count \<le> 262400 \<and>
    free_run s f (unat count) \<and> wf_phys s' \<and>
    (\<forall>g. frame_used s' g \<longleftrightarrow> (f \<le> g \<and> g < f + unat count) \<or> frame_used s g) \<and>
    (\<forall>g. 256 \<le> g \<and> g < f \<longrightarrow> \<not> free_run s g (unat count))"
using assms(1)
proof (cases rule: alloc_pages_cases [where count = count])
  case refused
  with assms show ?thesis by simp
next
  case full
  with assms show ?thesis by simp
next
  case (found i t)
  with assms unat_frame_addr [of i] show ?thesis by (intro exI [of _ "256 + i"]) auto
qed

text \<open>\<^verbatim>\<open>PhysicalAllocPages\<close> never accesses the bitmap out of range, and it reports failure
  (address 0, state unchanged) exactly when the request is empty or no run of \<open>count\<close> free frames exists.\<close>

theorem PhysicalAllocPages_complete:
  assumes "wf_phys s"
  shows "\<exists>addr s'. PhysicalAllocPages count s = Some (addr, s') \<and>
    (addr = 0 \<longleftrightarrow> count = 0 \<or> \<not> (\<exists>f. 256 \<le> f \<and> f + unat count \<le> 262400 \<and> free_run s f (unat count))) \<and>
    (addr = 0 \<longrightarrow> s' = s)"
using assms
proof (cases rule: alloc_pages_cases [where count = count])
  case refused
  then show ?thesis by (auto simp: word_less_nat_alt)
next
  case full
  then show ?thesis by auto
next
  case (found i t)
  then have "PHYS_BASE + of_nat i * PAGE_SIZE \<noteq> (0 :: u64)"
    using frame_addr_nonzero [of i] by linarith
  with found show ?thesis by (intro exI conjI) (auto intro: exI [of _ "256 + i"])
qed

text \<open>Freeing what \<^verbatim>\<open>PhysicalAllocPages\<close> returned, with the same count, restores the allocator
  state exactly.\<close>

theorem alloc_free_roundtrip:
  assumes "wf_phys s" and "PhysicalAllocPages count s = Some (addr, s')" and "addr \<noteq> 0"
  shows "PhysicalFreePages addr count s' = Some s"
using assms(1)
proof (cases rule: alloc_pages_cases [where count = count])
  case refused
  with assms show ?thesis by simp
next
  case full
  with assms show ?thesis by simp
next
  case (found i t)
  have i: "i < 262144" using found by linarith
  have addr: "addr = PHYS_BASE + of_nat i * PAGE_SIZE" and t: "s' = t" using found assms by auto
  have ua: "unat addr = (256 + i) * 4096" using unat_frame_addr [OF i] addr by simp
  have nlow: "\<not> addr < PHYS_BASE" using ua by (simp add: word_less_nat_alt)
  have idx: "(addr - PHYS_BASE) div PAGE_SIZE = of_nat i"
    by (rule word_unat_eqI) (use i in \<open>simp add: addr unat_div unat_of_nat_u64 unat_word_ariths\<close>)
  have fits: "\<not> PHYS_FRAMES < of_nat i + count"
    using found i by (simp add: word_less_nat_alt unat_word_ariths unat_of_nat_u64)
  have "for_range bitmap_clear (phys_bitmap s') i (unat count) = Some (phys_bitmap s)"
    by (rule bm.mark_then_unmark)
      (use found t assms(1) high_free_run [of i "unat count" s] in \<open>auto simp: wf_phys_def\<close>)
  moreover have "s'\<lparr>phys_bitmap := phys_bitmap s\<rparr> = s"
    using found(7) t by (cases s, cases s') simp
  ultimately show ?thesis
    using assms(3) found(1) nlow fits i
    by (auto simp: PhysicalFreePages_def idx unat_of_nat_u64 unat_gt_0)
qed

section \<open>Start-up\<close>

text \<open>\<open>covers r f\<close>: the whole frame \<open>f\<close> lies in region \<open>r\<close>.\<close>

definition covers :: "mem_region \<Rightarrow> nat \<Rightarrow> bool" where
  "covers r f \<longleftrightarrow> unat (base r) \<le> f * 4096 \<and> (f + 1) * 4096 \<le> unat (base r) + unat (length_of r)"

lemma frame_ceil_le: "(x + 4095) div 4096 \<le> f \<longleftrightarrow> x \<le> f * 4096" for x f :: nat
proof -
  have "(x + 4095) div 4096 \<le> f \<longleftrightarrow> (x + 4095) div 4096 < f + 1" by linarith
  also have "\<dots> \<longleftrightarrow> x + 4095 < (f + 1) * 4096" by (simp only: div_less_iff_less_mult zero_less_numeral)
  finally show ?thesis by (simp add: less_Suc_eq_le)
qed

lemma frame_less_floor: "f < x div 4096 \<longleftrightarrow> (f + 1) * 4096 \<le> x" for x f :: nat
proof -
  have "f < x div 4096 \<longleftrightarrow> f + 1 \<le> x div 4096" by linarith
  also have "\<dots> \<longleftrightarrow> (f + 1) * 4096 \<le> x" by (simp only: less_eq_div_iff_mult_less_eq zero_less_numeral)
  finally show ?thesis .
qed

lemma unat_page_frame: "PHYS_BASE \<le> x \<Longrightarrow> unat ((x - PHYS_BASE) div PAGE_SIZE) = unat x div 4096 - 256" for x
proof -
  assume "PHYS_BASE \<le> x"
  then have "unat (x - PHYS_BASE) = unat x - 256 * 4096" by (simp add: unat_diff_no_wrap)
  then show ?thesis by (simp add: unat_div)
qed

lemma free_high_region_eq:
  assumes "unat (base r) + unat (length_of r) < 2 ^ 64"
  defines "S \<equiv> max (unat (base r)) (256 * 4096)"
    and "T \<equiv> min (unat (base r) + unat (length_of r)) (262400 * 4096)"
  shows "free_high_region r bm =
    (if (S + 4095) div 4096 < T div 4096
     then for_range bitmap_clear bm ((S + 4095) div 4096 - 256) (T div 4096 - (S + 4095) div 4096) else Some bm)"
proof -
  let ?lim = "base r + length_of r"
  let ?m = "PHYS_BASE + PHYS_FRAMES * PAGE_SIZE"
  define x where "x = (if base r < PHYS_BASE then PHYS_BASE else base r)"
  define e where "e = (if ?m < ?lim then ?m else ?lim)"
  have unf: "free_high_region r bm = (if PHYS_BASE < ?lim then if x < ?m then
      if page_ceil x < page_floor e then for_range bitmap_clear bm
        (unat ((page_ceil x - PHYS_BASE) div PAGE_SIZE))
        (unat ((page_floor e - PHYS_BASE) div PAGE_SIZE) - unat ((page_ceil x - PHYS_BASE) div PAGE_SIZE))
      else Some bm else Some bm else Some bm)"
    by (simp only: free_high_region_def Let_def x_def e_def)
  have uend: "unat ?lim = unat (base r) + unat (length_of r)" by (rule unat_add_no_wrap [OF assms(1)])
  have us: "unat x = S" by (auto simp: S_def x_def word_less_nat_alt)
  have ue: "unat e = T" using uend by (auto simp: T_def e_def word_less_nat_alt min_def)
  have um: "unat ?m = 262400 * 4096" by simp
  show ?thesis
  proof (cases "PHYS_BASE < ?lim \<and> x < ?m")
    case False
    then have "T \<le> S"
      using us uend um by (auto simp: word_less_nat_alt T_def S_def)
    then have "\<not> (S + 4095) div 4096 < T div 4096"
      using div_le_mono [of T "S + 4095" 4096] by simp
    with False show ?thesis by (auto simp: unf)
  next
    case True
    then have Sm: "S < 262400 * 4096" using us um by (simp add: word_less_nat_alt)
    have uc: "unat (page_ceil x) = (S + 4095) div 4096 * 4096"
      using unat_page_ceil [of x] us Sm by simp
    have uf: "unat (page_floor e) = T div 4096 * 4096"
      using unat_page_floor [of e] ue by simp
    have lt: "page_ceil x < page_floor e \<longleftrightarrow> (S + 4095) div 4096 < T div 4096"
      unfolding word_less_nat_alt [of "page_ceil x" "page_floor e"] uc uf by simp
    have ge: "256 \<le> (S + 4095) div 4096" using div_le_mono [of "256*4096" "S+4095" 4096] by (simp add: S_def)
    then have gb: "PHYS_BASE \<le> page_ceil x" unfolding word_le_nat_alt uc by simp
    show ?thesis
    proof (cases "page_ceil x < page_floor e")
      case lt': True
      then have "PHYS_BASE \<le> page_floor e" using gb by simp
      then have "unat ((page_floor e - PHYS_BASE) div PAGE_SIZE) = T div 4096 - 256"
        using unat_page_frame [of "page_floor e"] uf by simp
      moreover have "unat ((page_ceil x - PHYS_BASE) div PAGE_SIZE) = (S + 4095) div 4096 - 256"
        using unat_page_frame [OF gb] uc by simp
      ultimately show ?thesis using True lt lt' ge by (simp add: unf)
    next
      case False
      with True lt show ?thesis by (simp add: unf)
    qed
  qed
qed



lemma free_high_region_spec:
  assumes "wf_phys s" and "unat (base r) + unat (length_of r) < 2 ^ 64"
  shows "\<exists>bm. free_high_region r (phys_bitmap s) = Some bm \<and> wf_phys (s\<lparr>phys_bitmap := bm\<rparr>) \<and>
    (\<forall>f. frame_used (s\<lparr>phys_bitmap := bm\<rparr>) f \<longleftrightarrow> \<not> (256 \<le> f \<and> f < 262400 \<and> covers r f) \<and> frame_used s f)"
proof -
  define S where "S = max (unat (base r)) (256 * 4096)"
  define T where "T = min (unat (base r) + unat (length_of r)) (262400 * 4096)"
  define i where "i = (S + 4095) div 4096"
  define j where "j = T div 4096"
  have cov: "(i \<le> f \<and> f < j) \<longleftrightarrow> 256 \<le> f \<and> f < 262400 \<and> covers r f" for f
    unfolding covers_def i_def j_def frame_ceil_le frame_less_floor S_def T_def by auto
  have eq: "free_high_region r (phys_bitmap s) =
     (if i < j then for_range bitmap_clear (phys_bitmap s) (i - 256) (j - i) else Some (phys_bitmap s))"
    using free_high_region_eq [OF assms(2)] by (simp add: i_def j_def S_def T_def)
  show ?thesis
  proof (cases "i < j")
    case True
    then have "256 \<le> i" "j \<le> 262400" using cov [of i] cov [of "j - 1"] by auto
    with True high_unmark [OF assms(1), of "i - 256" "j - i"] cov eq show ?thesis by auto
  next
    case False
    then have "\<not> (256 \<le> f \<and> f < 262400 \<and> covers r f)" for f using cov [of f] by linarith
    with False eq assms(1) show ?thesis by auto
  qed
qed

lemma free_low_region_spec:
  assumes "wf_phys s" and "unat (base r) + unat (length_of r) < 2 ^ 64"
  shows "\<exists>bm. free_low_region r (low_phys_bitmap s) = Some bm \<and> wf_phys (s\<lparr>low_phys_bitmap := bm\<rparr>) \<and>
    (\<forall>f. frame_used (s\<lparr>low_phys_bitmap := bm\<rparr>) f \<longleftrightarrow> \<not> (f < 256 \<and> covers r f) \<and> frame_used s f)"
proof -
  define S where "S = unat (base r)"
  define T where "T = min (S + unat (length_of r)) (256 * 4096)"
  define i where "i = (S + 4095) div 4096"
  define j where "j = T div 4096"
  have cov: "(i \<le> f \<and> f < j) \<longleftrightarrow> f < 256 \<and> covers r f" for f
    unfolding covers_def i_def j_def frame_ceil_le frame_less_floor S_def T_def by auto
  have j: "j \<le> 256" using cov [of "j - 1"] div_le_mono [of T "256 * 4096" 4096] by (simp add: j_def T_def)
  have uend: "unat (base r + length_of r) = S + unat (length_of r)"
    using unat_add_no_wrap [OF assms(2)] by (simp add: S_def)
  have uf: "unat (page_floor (if PHYS_BASE < base r + length_of r then PHYS_BASE else base r + length_of r)) = j * 4096"
    by (simp add: unat_page_floor j_def T_def word_less_nat_alt uend min_def)
  have eq: "free_low_region r (low_phys_bitmap s) =
     (if i < j then for_range bitmap_clear (low_phys_bitmap s) i (j - i) else Some (low_phys_bitmap s))"
  proof (cases "base r < PHYS_BASE")
    case True
    then have uc: "unat (page_ceil (base r)) = i * 4096"
      by (simp add: unat_page_ceil i_def S_def word_less_nat_alt)
    show ?thesis using True j
      by (simp add: free_low_region_def Let_def word_less_nat_alt [of "page_ceil _"] uc uf unat_div min_def)
  next
    case False
    then have "256 \<le> i" using cov [of i] frame_less_floor by (simp add: i_def S_def word_less_nat_alt)
    with False j show ?thesis by (simp add: free_low_region_def Let_def)
  qed
  show ?thesis
  proof (cases "i < j")
    case True
    with j low_unmark [OF assms(1), of i "j - i"] cov eq show ?thesis by auto
  next
    case False
    then have "\<not> (f < 256 \<and> covers r f)" for f using cov [of f] by linarith
    with False eq assms(1) show ?thesis by auto
  qed
qed

lemma scan_regions_spec:
  assumes "wf_phys s" and "\<forall>r \<in> set rs. unat (base r) + unat (length_of r) < 2 ^ 64"
  shows "\<exists>s'. scan_regions rs s = Some s' \<and> wf_phys s' \<and>
    (\<forall>f. frame_used s' f \<longleftrightarrow> \<not> (f < 262400 \<and> (\<exists>r \<in> set rs. type_of r = 1 \<and> covers r f)) \<and> frame_used s f)"
  using assms
proof (induction rs arbitrary: s)
  case Nil
  then show ?case by simp
next
  case (Cons r rs)
  show ?case
  proof (cases "type_of r \<noteq> 1 \<or> length_of r = 0")
    case True
    then have "\<not> (type_of r = 1 \<and> covers r f)" for f by (auto simp: covers_def)
    with True Cons show ?thesis by simp
  next
    case False
    obtain bm where bm: "free_high_region r (phys_bitmap s) = Some bm" "wf_phys (s\<lparr>phys_bitmap := bm\<rparr>)"
      "\<forall>f. frame_used (s\<lparr>phys_bitmap := bm\<rparr>) f \<longleftrightarrow> \<not> (256 \<le> f \<and> f < 262400 \<and> covers r f) \<and> frame_used s f"
      using free_high_region_spec [OF Cons.prems(1), of r] Cons.prems(2) by auto
    obtain lbm where lbm: "free_low_region r (low_phys_bitmap s) = Some lbm"
      "wf_phys (s\<lparr>phys_bitmap := bm, low_phys_bitmap := lbm\<rparr>)"
      "\<forall>f. frame_used (s\<lparr>phys_bitmap := bm, low_phys_bitmap := lbm\<rparr>) f \<longleftrightarrow>
         \<not> (f < 256 \<and> covers r f) \<and> frame_used (s\<lparr>phys_bitmap := bm\<rparr>) f"
      using free_low_region_spec [OF bm(2), of r] Cons.prems(2) by auto
    from Cons.IH [OF lbm(2)] Cons.prems(2) obtain s' where
      "scan_regions rs (s\<lparr>phys_bitmap := bm, low_phys_bitmap := lbm\<rparr>) = Some s'" "wf_phys s'"
      "\<forall>f. frame_used s' f \<longleftrightarrow> \<not> (f < 262400 \<and> (\<exists>r \<in> set rs. type_of r = 1 \<and> covers r f)) \<and>
         frame_used (s\<lparr>phys_bitmap := bm, low_phys_bitmap := lbm\<rparr>) f" by auto
    with False bm(1,3) lbm(1,3) show ?thesis by (auto simp: not_less)
  qed
qed


definition overlaps_fb :: "boot_info \<Rightarrow> nat \<Rightarrow> bool" where
  "overlaps_fb bi f \<longleftrightarrow> f * 4096 < unat (fb_address bi) + unat (fb_pitch bi) * unat (fb_height bi) \<and>
     unat (fb_address bi) < (f + 1) * 4096"

lemma unat_ucast_u32: "unat (ucast (p :: u32) :: u64) = unat p"
  by (rule bit_eqI) (auto simp: bit_simps dest: bit_imp_le_length)

lemma fb_size_unat: "unat (ucast (p :: u32) * ucast (h :: u32) :: u64) = unat p * unat h"
proof -
  have "unat p * unat h < 2 ^ 32 * 2 ^ 32"
    using unsigned_less [of p] unsigned_less [of h] by (intro mult_strict_mono) auto
  then show ?thesis by (simp add: unat_mult_no_wrap unat_ucast_u32)
qed

lemma frame_floor_le: "x div 4096 \<le> f \<longleftrightarrow> x < (f + 1) * 4096" for x f :: nat
  using frame_less_floor [of f x] by linarith

lemma frame_less_ceil: "f < (x + 4095) div 4096 \<longleftrightarrow> f * 4096 < x" for x f :: nat
  using frame_ceil_le [of x f] by linarith

lemma reserve_framebuffer_spec:
  assumes "wf_phys s"
    and "unat (fb_address bi) + unat (fb_pitch bi) * unat (fb_height bi) + 4095 < 2 ^ 64"
  shows "\<exists>s'. reserve_framebuffer bi s = Some s' \<and> wf_phys s' \<and>
    (\<forall>f. frame_used s' f \<longleftrightarrow>
       (256 \<le> f \<and> (f + 1) * 4096 > unat (fb_address bi) \<and>
        f * 4096 < unat (fb_address bi) + unat (fb_pitch bi) * unat (fb_height bi) \<and> f < 262400) \<or> frame_used s f)"
proof -
  define lo where "lo = unat (fb_address bi) div 4096"
  define hi where "hi = (unat (fb_address bi) + unat (fb_pitch bi) * unat (fb_height bi) + 4095) div 4096"
  define i where "i = max lo 256"
  define j where "j = min hi 262400"
  let ?fb = "fb_address bi"
  let ?sz = "ucast (fb_pitch bi) * ucast (fb_height bi) :: u64"
  have usum: "unat (?fb + ?sz) = unat ?fb + unat (fb_pitch bi) * unat (fb_height bi)"
    using assms(2) by (simp add: unat_add_no_wrap fb_size_unat)
  have ulo: "unat (page_floor ?fb) = lo * 4096" by (simp add: unat_page_floor lo_def)
  have uhi: "unat (page_ceil (?fb + ?sz)) = hi * 4096"
    using unat_page_ceil [of "?fb + ?sz"] usum assms(2) by (simp add: hi_def)
  have range: "(i \<le> f \<and> f < j) \<longleftrightarrow> (256 \<le> f \<and> (f + 1) * 4096 > unat ?fb \<and>
      f * 4096 < unat ?fb + unat (fb_pitch bi) * unat (fb_height bi) \<and> f < 262400)" for f
    by (auto simp: i_def j_def lo_def hi_def frame_floor_le frame_less_ceil)
  define x where "x = (if page_floor ?fb < PHYS_BASE then PHYS_BASE else page_floor ?fb)"
  define y where "y = (if PHYS_BASE + PHYS_FRAMES * PAGE_SIZE < page_ceil (?fb + ?sz)
     then PHYS_BASE + PHYS_FRAMES * PAGE_SIZE else page_ceil (?fb + ?sz))"
  have unf: "reserve_framebuffer bi s = (if lo < 262400 \<and> 256 < hi then
      map_option (\<lambda>bm. s\<lparr>phys_bitmap := bm\<rparr>) (for_range bitmap_set (phys_bitmap s)
        (unat ((x - PHYS_BASE) div PAGE_SIZE))
        (unat ((y - PHYS_BASE) div PAGE_SIZE) - unat ((x - PHYS_BASE) div PAGE_SIZE))) else Some s)"
    by (simp add: reserve_framebuffer_def Let_def x_def y_def word_less_nat_alt ulo uhi)
  have ux: "unat x = i * 4096" and uy: "unat y = j * 4096"
    using ulo uhi by (auto simp: x_def y_def i_def j_def word_less_nat_alt max_def min_def)
  show ?thesis
  proof (cases "lo < 262400 \<and> 256 < hi")
    case True
    then have ge: "256 \<le> i" "256 \<le> j" "j \<le> 262400" by (auto simp: i_def j_def)
    then have "PHYS_BASE \<le> x" "PHYS_BASE \<le> y" by (simp_all add: word_le_nat_alt ux uy)
    then have "reserve_framebuffer bi s =
        map_option (\<lambda>bm. s\<lparr>phys_bitmap := bm\<rparr>) (for_range bitmap_set (phys_bitmap s) (i - 256) (j - i))"
      using unf True ge by (simp add: unat_page_frame ux uy)
    moreover have ij: "i \<le> j" using True div_le_mono [of "unat ?fb"] by (auto simp: i_def j_def lo_def hi_def)
    moreover have "i - 256 + (j - i) \<le> 262144" using ge ij by auto
    ultimately show ?thesis
      using high_mark [OF assms(1), of "i - 256" "j - i"] range ge by auto
  next
    case False
    then have "\<not> (i \<le> f \<and> f < j)" for f by (auto simp: i_def j_def)
    with False unf assms(1) show ?thesis using range by auto
  qed
qed

lemma frame_used_init:
  "frame_used \<lparr>phys_bitmap = replicate 32768 0xFF, low_phys_bitmap = replicate 32 0xFF\<rparr> f"
proof -
  have "bit (0xFF :: u8) k" if "k < 8" for k
    using that by (auto simp: bit_simps less_Suc_eq numeral_eq_Suc)
  then show ?thesis by (auto simp: frame_used_def bitmap_test_bit)
qed

text \<open>After \<^verbatim>\<open>PageAlloc::Physical\<close> with an E820 map whose regions do not wrap, a frame is free
  exactly when it lies wholly inside a usable region and, at or above 1 MiB, does not overlap the
  framebuffer; the scan never writes outside the bitmaps.\<close>

theorem Physical_frees_usable_only:
  assumes "has_memmap bi"
    and "\<forall>r \<in> set (regions bi). unat (base r) + unat (length_of r) < 2 ^ 64"
    and "unat (fb_address bi) + unat (fb_pitch bi) * unat (fb_height bi) + 4095 < 2 ^ 64"
  shows "\<exists>s. Physical (Some bi) = Some s \<and> wf_phys s \<and>
    (\<forall>f. \<not> frame_used s f \<longleftrightarrow> f < 262400 \<and> (\<exists>r \<in> set (regions bi). type_of r = 1 \<and> covers r f) \<and>
       \<not> (has_framebuffer bi \<and> 256 \<le> f \<and> overlaps_fb bi f))"
proof -
  let ?s0 = "\<lparr>phys_bitmap = replicate 32768 0xFF, low_phys_bitmap = replicate 32 0xFF :: u8 list\<rparr>"
  have "wf_phys ?s0" by (simp add: wf_phys_def)
  from scan_regions_spec [OF this assms(2)] obtain s1 where s1: "scan_regions (regions bi) ?s0 = Some s1"
    "wf_phys s1" "\<forall>f. frame_used s1 f \<longleftrightarrow>
       \<not> (f < 262400 \<and> (\<exists>r \<in> set (regions bi). type_of r = 1 \<and> covers r f))"
    using frame_used_init by auto
  show ?thesis
  proof (cases "has_framebuffer bi")
    case True
    obtain s2 where "reserve_framebuffer bi s1 = Some s2" "wf_phys s2"
      "\<forall>f. frame_used s2 f \<longleftrightarrow>
       (256 \<le> f \<and> (f + 1) * 4096 > unat (fb_address bi) \<and>
        f * 4096 < unat (fb_address bi) + unat (fb_pitch bi) * unat (fb_height bi) \<and> f < 262400) \<or> frame_used s1 f"
      using reserve_framebuffer_spec [OF s1(2) assms(3)] by auto
    with s1 True assms(1) show ?thesis
      by (intro exI [of _ s2]) (auto simp: Physical_def Let_def overlaps_fb_def)
  next
    case False
    with s1 assms(1) show ?thesis by (auto simp: Physical_def Let_def)
  qed
qed


section \<open>Reservation\<close>

lemma reserve_high_spec:
  assumes "wf_phys s" and "PHYS_BASE \<le> b" and "unat b div 4096 + unat c \<le> 262400"
  shows "\<exists>s'. reserve_high b c s = Some s' \<and> wf_phys s' \<and>
      (\<forall>f. frame_used s' f \<longleftrightarrow> (unat b div 4096 \<le> f \<and> f < unat b div 4096 + unat c) \<or> frame_used s f)"
proof -
  have ub: "256 \<le> unat b div 4096"
    using assms(2) div_le_mono [of "256 * 4096" "unat b" 4096] by (simp add: word_le_nat_alt)
  have idx: "unat ((b - PHYS_BASE) div PAGE_SIZE) = unat b div 4096 - 256" by (rule unat_page_frame [OF assms(2)])
  have "unat ((b - PHYS_BASE) div PAGE_SIZE + c) = unat b div 4096 - 256 + unat c"
    using idx assms(3) by (simp add: unat_add_no_wrap)
  then have fits: "\<not> PHYS_FRAMES < (b - PHYS_BASE) div PAGE_SIZE + c"
    using assms(3) ub by (simp add: word_less_nat_alt)
  have "unat b div 4096 - 256 + unat c \<le> 262144" using assms(3) ub by simp
  from high_mark [OF assms(1) this] fits ub idx show ?thesis by (auto simp: reserve_high_def)
qed

lemma reserve_low_spec:
  assumes "wf_phys s" and "addr \<noteq> 0" and "addr < PHYS_BASE" and "unat addr div 4096 + unat c \<le> 256"
  shows "\<exists>s'. PhysicalReserveLow addr c s = Some s' \<and> wf_phys s' \<and>
      (\<forall>f. frame_used s' f \<longleftrightarrow> (unat addr div 4096 \<le> f \<and> f < unat addr div 4096 + unat c) \<or> frame_used s f)"
proof (cases "c = 0")
  case True
  with assms(1) show ?thesis by (auto simp: PhysicalReserveLow_def)
next
  case False
  have idx: "unat (addr div PAGE_SIZE) = unat addr div 4096" by (simp add: unat_div)
  have "unat (addr div PAGE_SIZE + c) = unat addr div 4096 + unat c" using idx assms(4) by (simp add: unat_add_no_wrap)
  then have "\<not> LOW_FRAMES < addr div PAGE_SIZE + c" using assms(4) by (simp add: word_less_nat_alt)
  with False assms(2,3) low_mark [OF assms(1,4)] idx show ?thesis
    by (auto simp: PhysicalReserveLow_def not_le)
qed

lemma reserve_cross_spec:
  assumes "wf_phys s" and "unat addr = a * 4096" and "addr \<noteq> 0" and "a + unat count \<le> 262400"
    and "count \<noteq> 0" and "addr < PHYS_BASE" and "256 < a + unat count"
  shows "\<exists>s'. PhysicalReserve addr count s = Some s' \<and> wf_phys s' \<and>
    (\<forall>f. frame_used s' f \<longleftrightarrow> (a \<le> f \<and> f < a + unat count) \<or> frame_used s f)"
proof -
  have a: "unat addr div 4096 = a" using assms(2) by simp
  have a256: "a < 256" using assms(6) assms(2) by (simp add: word_less_nat_alt)
  have "unat (addr + count * PAGE_SIZE) = (a + unat count) * 4096"
    using assms(4) by (simp add: unat_word_ariths assms(2))
  with assms(7) have nofit: "\<not> addr + count * PAGE_SIZE \<le> PHYS_BASE" by (simp add: word_le_nat_alt)
  let ?lc = "(PHYS_BASE - addr) div PAGE_SIZE"
  have "unat (PHYS_BASE - addr) = (256 - a) * 4096"
    using assms(6) assms(2) by (simp add: unat_diff_no_wrap)
  then have ulc: "unat ?lc = 256 - a" by (simp add: unat_div)
  obtain s1 where s1: "PhysicalReserveLow addr ?lc s = Some s1" "wf_phys s1"
    "\<forall>f. frame_used s1 f \<longleftrightarrow> (a \<le> f \<and> f < 256) \<or> frame_used s f"
    using reserve_low_spec [OF assms(1,3) assms(6), of ?lc] ulc a256 a by auto
  have "?lc \<le> count" using ulc assms(7) by (simp add: word_le_nat_alt)
  then have "unat (count - ?lc) = a + unat count - 256"
    using ulc a256 assms(7) by (simp add: unat_diff_no_wrap)
  moreover have "a + unat count - 256 \<le> 262144" using assms(4) assms(7) by simp
  ultimately obtain s2 where
    "reserve_high PHYS_BASE (count - ?lc) s1 = Some s2" "wf_phys s2"
    "\<forall>f. frame_used s2 f \<longleftrightarrow> (256 \<le> f \<and> f < 256 + (a + unat count - 256)) \<or> frame_used s1 f"
    using reserve_high_spec [OF s1(2), of PHYS_BASE "count - ?lc"] by auto
  moreover from this(3) s1(3) assms(7) a256 have
    "frame_used s2 f \<longleftrightarrow> (a \<le> f \<and> f < a + unat count) \<or> frame_used s f" for f
    by (cases "f < 256") auto
  moreover have "PhysicalReserve addr count s = reserve_high PHYS_BASE (count - ?lc) s1"
    using s1(1) nofit assms(5,6) assms(3) by (simp add: PhysicalReserve_def Let_def)
  ultimately show ?thesis by metis
qed

text \<open>Reserving \<open>count\<close> frames from a page-aligned, non-null address that stays inside the managed
  memory marks exactly those frames as used, across the boundary between the two bitmaps too.\<close>

theorem PhysicalReserve_exact:
  assumes "wf_phys s" and "unat addr = a * 4096" and "addr \<noteq> 0" and "a + unat count \<le> 262400"
  shows "\<exists>s'. PhysicalReserve addr count s = Some s' \<and> wf_phys s' \<and>
    (\<forall>f. frame_used s' f \<longleftrightarrow> (a \<le> f \<and> f < a + unat count) \<or> frame_used s f)"
proof -
  have a: "unat addr div 4096 = a" using assms(2) by simp
  consider (none) "count = 0" | (high) "count \<noteq> 0" "PHYS_BASE \<le> addr"
    | (low) "count \<noteq> 0" "addr < PHYS_BASE" "a + unat count \<le> 256"
    | (cross) "count \<noteq> 0" "addr < PHYS_BASE" "256 < a + unat count"
    by force
  then show ?thesis
  proof cases
    case none
    with assms show ?thesis by (auto simp: PhysicalReserve_def)
  next
    case high
    then have "\<not> addr < PHYS_BASE" by simp
    with high reserve_high_spec [OF assms(1) high(2), of count] assms(3,4) a show ?thesis
      by (simp add: PhysicalReserve_def)
  next
    case low
    have "unat (addr + count * PAGE_SIZE) = (a + unat count) * 4096"
      using low(3) by (simp add: unat_word_ariths assms(2))
    with low(3) have "addr + count * PAGE_SIZE \<le> PHYS_BASE" by (simp add: word_le_nat_alt)
    with reserve_low_spec [OF assms(1,3) low(2), of count] low assms(3) a show ?thesis
      by (simp add: PhysicalReserve_def)
  next
    case cross
    with reserve_cross_spec [OF assms] show ?thesis by blast
  qed
qed

section \<open>Two defects\<close>

text \<open>Frame 0 of low memory has address 0, which \<^verbatim>\<open>PhysicalAllocLowPages\<close> also uses for
  failure: when frame 0 is free, a request for one page marks it used and returns 0, so the caller
  sees a failure and the frame is lost.\<close>

theorem low_alloc_loses_frame_zero:
  assumes "wf_phys s" and "\<not> frame_used s 0"
  shows "\<exists>s'. PhysicalAllocLowPages 1 s = Some (0, s') \<and> frame_used s' 0"
proof -
  have "first_fit (bitmap_test (low_phys_bitmap s)) 256 1 0 0 = Some 0"
    using assms(2) by (simp add: first_fit_Some_iff frame_used_def)
  with low_mark [OF assms(1), of 0 1] show ?thesis
    by (auto simp: PhysicalAllocLowPages_def simp del: for_range.simps)
qed

text \<open>The range check of \<^verbatim>\<open>PhysicalFreePages\<close> adds the frame index and the count modulo
  \<open>2 ^ 64\<close>: a count near the top wraps below \<^verbatim>\<open>PHYS_FRAMES\<close>, and the clearing loop leaves the
  bitmap array.\<close>

theorem free_count_overflow_undefined:
  assumes "wf_phys s"
  shows "PhysicalFreePages (PHYS_BASE + PAGE_SIZE) 0xFFFFFFFFFFFFFFFF s = None"
proof -
  have "for_range bitmap_clear (phys_bitmap s) 1 0xFFFFFFFFFFFFFFFF = None"
    using assms by (intro bm.unmark_range_undefined) (auto simp: wf_phys_def)
  then show ?thesis by (simp add: PhysicalFreePages_def del: for_range.simps)
qed

section \<open>The interface to the rest of the kernel\<close>

lemma alloc_pages_run:
  assumes "wf_phys s" and "PhysicalAllocPages n s = Some (a, s')" and "a \<noteq> 0"
  shows "wf_phys s' \<and> managed a n \<and> (\<forall>f \<in> frames a n. \<not> frame_used s f)
    \<and> (\<forall>f. frame_used s' f \<longleftrightarrow> f \<in> frames a n \<or> frame_used s f)"
  using assms(1)
proof (cases rule: alloc_pages_cases [where count = n])
  case refused
  with assms show ?thesis by simp
next
  case full
  with assms show ?thesis by simp
next
  case (found i t)
  have i: "i < 262144" using found by linarith
  have ua: "unat a = (256 + i) * 4096" using unat_frame_addr [OF i] found assms by simp
  then have "unat a div 4096 = 256 + i" "unat a mod 4096 = 0" by simp_all
  with found assms show ?thesis by (auto simp: managed_def frames_def free_run_def)
qed

lemma free_pages_run:
  assumes "wf_phys s" and "managed a n"
  shows "\<exists>s'. PhysicalFreePages a n s = Some s' \<and> wf_phys s'
    \<and> (\<forall>f. frame_used s' f \<longleftrightarrow> f \<notin> frames a n \<and> frame_used s f)"
proof -
  have m: "n \<noteq> 0" "256 \<le> unat a div 4096" "unat a div 4096 + unat n \<le> 262400" using assms(2) by (auto simp: managed_def)
  have "256 * 4096 \<le> unat a" using m(2) by (simp add: less_eq_div_iff_mult_less_eq)
  then have a: "PHYS_BASE \<le> a" "a \<noteq> 0" by (auto simp: word_le_nat_alt)
  have idx: "unat ((a - PHYS_BASE) div PAGE_SIZE) = unat a div 4096 - 256" by (rule unat_page_frame [OF a(1)])
  have "unat ((a - PHYS_BASE) div PAGE_SIZE + n) = unat a div 4096 - 256 + unat n"
    using idx m(3) by (simp add: unat_add_no_wrap)
  then have fits: "\<not> PHYS_FRAMES < (a - PHYS_BASE) div PAGE_SIZE + n"
    using m by (simp add: word_less_nat_alt)
  have "unat a div 4096 - 256 + unat n \<le> 262144" using m by simp
  from high_unmark [OF assms(1) this] fits m a idx show ?thesis
    by (auto simp: PhysicalFreePages_def frames_def)
qed

interpretation pa: frame_source wf_phys frame_used PhysicalAllocPages PhysicalFreePages
proof
  fix s n
  assume wf: "wf_phys s"
  show "\<exists>a s'. PhysicalAllocPages n s = Some (a, s')"
    by (rule alloc_pages_cases [OF wf, of n]) auto
  show "s' = s" if "PhysicalAllocPages n s = Some (0, s')" for s'
    using wf
  proof (cases rule: alloc_pages_cases [where count = n])
    case (found i t)
    then have "i < 262144" by linarith
    with found that frame_addr_nonzero [of i] show ?thesis by simp
  qed (use that in auto)
qed (use alloc_pages_run free_pages_run in blast)+

section \<open>Witnesses\<close>

definition all_free :: phys_state where
  "all_free = \<lparr>phys_bitmap = replicate 32768 0, low_phys_bitmap = replicate 32 0\<rparr>"

lemma all_free_wf: "wf_phys all_free"
  by (simp add: all_free_def wf_phys_def)

lemma all_free_frame: "f < 262400 \<Longrightarrow> \<not> frame_used all_free f"
  by (simp add: all_free_def frame_used_def bitmap_test_bit)

lemma all_free_run: "free_run all_free 256 4"
  unfolding free_run_def using all_free_frame by simp

lemma all_free_alloc: "\<exists>s'. PhysicalAllocPages 4 all_free = Some (PHYS_BASE, s')"
  using all_free_wf
proof (cases rule: alloc_pages_cases [where count = 4])
  case refused
  then show ?thesis by simp
next
  case full
  from full(4) [of 256] all_free_run show ?thesis by simp
next
  case (found i s')
  from found(9) [of 256] all_free_run have "i = 0" by (cases "i = 0") simp_all
  with found show ?thesis by auto
qed

lemma PhysicalAllocPages_sound_witness:
  "\<exists>s' f. PhysicalAllocPages 4 all_free = Some (PHYS_BASE, s') \<and> unat PHYS_BASE = f * 4096 \<and>
     free_run all_free f 4 \<and> frame_used s' 256 \<and> \<not> frame_used s' 260"
proof -
  obtain s' where s': "PhysicalAllocPages 4 all_free = Some (PHYS_BASE, s')" using all_free_alloc by blast
  from PhysicalAllocPages_sound [OF all_free_wf s'] obtain f where
    f: "unat PHYS_BASE = f * 4096" "free_run all_free f (unat (4 :: u64))"
      "\<forall>g. frame_used s' g \<longleftrightarrow> (f \<le> g \<and> g < f + unat (4 :: u64)) \<or> frame_used all_free g" by auto
  then have "f = 256" by simp
  with f(2,3) have "free_run all_free 256 4" "frame_used s' 256" "\<not> frame_used s' 260"
    using all_free_frame [of 260] by simp_all
  with s' f(1) \<open>f = 256\<close> show ?thesis by blast
qed

lemma PhysicalAllocPages_complete_witness:
  "wf_phys all_free \<and> (\<exists>s'. PhysicalAllocPages 0 all_free = Some (0, s'))"
  using PhysicalAllocPages_complete [OF all_free_wf, of 0] all_free_wf by auto

lemma alloc_free_roundtrip_witness:
  "\<exists>s'. PhysicalAllocPages 4 all_free = Some (PHYS_BASE, s') \<and> PhysicalFreePages PHYS_BASE 4 s' = Some all_free"
proof -
  obtain s' where s': "PhysicalAllocPages 4 all_free = Some (PHYS_BASE, s')" using all_free_alloc by blast
  from alloc_free_roundtrip [OF all_free_wf s'] s' show ?thesis by auto
qed

definition boot_example :: boot_info where
  "boot_example = \<lparr>has_memmap = True,
     regions = [\<lparr>base = 0, length_of = 0x9FC00, type_of = 1\<rparr>, \<lparr>base = 0x100000, length_of = 0x3FF00000, type_of = 1\<rparr>,
                \<lparr>base = 0xFEC00000, length_of = 0x1000, type_of = 2\<rparr>],
     has_framebuffer = True, fb_address = 0xFD000000, fb_pitch = 4096, fb_height = 768\<rparr>"

lemma Physical_frees_usable_only_witness:
  "\<exists>s. Physical (Some boot_example) = Some s \<and> \<not> frame_used s 0x9E \<and> frame_used s 0x9F \<and> \<not> frame_used s 0x100"
proof -
  have "\<exists>s. Physical (Some boot_example) = Some s \<and> wf_phys s \<and>
    (\<forall>f. \<not> frame_used s f \<longleftrightarrow> f < 262400 \<and> (\<exists>r \<in> set (regions boot_example). type_of r = 1 \<and> covers r f) \<and>
       \<not> (has_framebuffer boot_example \<and> 256 \<le> f \<and> overlaps_fb boot_example f))"
    by (rule Physical_frees_usable_only) (simp_all add: boot_example_def)
  then obtain s where s: "Physical (Some boot_example) = Some s" and
    iff: "\<And>f. \<not> frame_used s f \<longleftrightarrow> f < 262400 \<and> (\<exists>r \<in> set (regions boot_example). type_of r = 1 \<and> covers r f) \<and>
       \<not> (has_framebuffer boot_example \<and> 256 \<le> f \<and> overlaps_fb boot_example f)" by auto
  have "\<not> frame_used s 0x9E" "frame_used s 0x9F" "\<not> frame_used s 0x100"
    using iff [of "0x9E"] iff [of "0x9F"] iff [of "0x100"]
    by (auto simp: boot_example_def covers_def overlaps_fb_def)
  with s show ?thesis by blast
qed

lemma PhysicalReserve_exact_witness:
  "\<exists>s'. PhysicalReserve 0xFF000 2 all_free = Some s' \<and> frame_used s' 0xFF \<and> frame_used s' 0x100 \<and> \<not> frame_used s' 0x101"
  using PhysicalReserve_exact [OF all_free_wf, of "0xFF000" "0xFF" 2] all_free_frame [of "0x101"] by auto

lemma low_alloc_loses_frame_zero_witness:
  "\<not> frame_used all_free 0 \<and> (\<exists>s'. PhysicalAllocLowPages 1 all_free = Some (0, s') \<and> frame_used s' 0)"
  using low_alloc_loses_frame_zero [OF all_free_wf] all_free_frame [of 0] by auto

lemma free_count_overflow_undefined_witness:
  "wf_phys all_free \<and> PhysicalFreePages (PHYS_BASE + PAGE_SIZE) 0xFFFFFFFFFFFFFFFF all_free = None"
  using free_count_overflow_undefined [OF all_free_wf] all_free_wf by blast

end
