(* ===== verification/Virt_Alloc.thy ===== *)
theory Virt_Alloc
  imports Phys_Alloc
begin

text \<open>
  The kernel virtual address allocator, \<^verbatim>\<open>kernel/mm/virtualalloc.cpp\<close>: a free list of page
  ranges kept in ascending order, whose nodes come from a pool of 4096. The singly linked list is
  a HOL list (its nodes have no other references) and the list of spare nodes is its length.
\<close>

section \<open>Model\<close>

abbreviation (input) MAX_VMA_NODES :: nat where
  "MAX_VMA_NODES \<equiv> 4096"

record vma_region =
  StartPage :: u64
  Count :: u64

record virt_state =
  free_nodes :: nat
  free_vma_list :: "vma_region list"
  g_pool_base :: u64

definition AllocNode :: "virt_state \<Rightarrow> virt_state option" where
  "AllocNode s = (if free_nodes s = 0 then None else Some (s\<lparr>free_nodes := free_nodes s - 1\<rparr>))"

definition FreeNode :: "virt_state \<Rightarrow> virt_state" where
  "FreeNode s = s\<lparr>free_nodes := free_nodes s + 1\<rparr>"

text \<open>\<^verbatim>\<open>PageAlloc::Virtual\<close>: the end of the kernel image comes from the linker script.\<close>

fun highest_end :: "mem_region list \<Rightarrow> u64 \<Rightarrow> u64" where
  "highest_end [] h = h"
| "highest_end (r # rs) h =
     (let region_end = base r + length_of r in
      highest_end rs (if h < region_end then region_end else h))"

definition Virtual :: "u64 \<Rightarrow> boot_info option \<Rightarrow> virt_state" where
  "Virtual kernel_virt_end boot =
     (let pool_base = (kernel_virt_end + (0x200000 - 1)) AND NOT (0x200000 - 1);
          total_virtual_pages =
            (case boot of
               Some b \<Rightarrow> (if has_memmap b
                         then (highest_end (regions b) 0 + 0x100000000) div PAGE_SIZE else 65536)
             | None \<Rightarrow> 65536)
      in \<lparr>free_nodes = MAX_VMA_NODES - 1,
          free_vma_list = [\<lparr>StartPage = pool_base div PAGE_SIZE, Count = total_virtual_pages\<rparr>],
          g_pool_base = pool_base\<rparr>)"

text \<open>The walk of \<^verbatim>\<open>VirtualAllocPages\<close>: the start page it takes, the list afterwards, and
  whether a node was unlinked.\<close>

fun take_first :: "u64 \<Rightarrow> vma_region list \<Rightarrow> (u64 \<times> vma_region list \<times> bool) option" where
  "take_first count [] = None"
| "take_first count (cur # rest) =
     (if count \<le> Count cur then
        if Count cur = count then Some (StartPage cur, rest, True)
        else Some (StartPage cur,
                   cur\<lparr>StartPage := StartPage cur + count, Count := Count cur - count\<rparr> # rest, False)
      else map_option (\<lambda>(p, rest', unlinked). (p, cur # rest', unlinked)) (take_first count rest))"

definition VirtualAllocPages :: "u64 \<Rightarrow> virt_state \<Rightarrow> u64 \<times> virt_state" where
  "VirtualAllocPages count s =
     (if count = 0 then (0, s)
      else case take_first count (free_vma_list s) of
        None \<Rightarrow> (0, s)
      | Some (start, l, unlinked) \<Rightarrow>
          let s' = s\<lparr>free_vma_list := l\<rparr> in
          (start * PAGE_SIZE, if unlinked then FreeNode s' else s'))"

text \<open>
  \<^verbatim>\<open>VirtualFreePages\<close>: \<open>before\<close> ends with the node \<^verbatim>\<open>prev\<close>, \<open>after\<close> starts with \<^verbatim>\<open>curr\<close>. Both
  branches finish by swallowing \<^verbatim>\<open>curr\<close> when the grown node touches it, which is \<open>absorb_next\<close>.
\<close>

definition absorb_next :: "vma_region \<Rightarrow> vma_region list \<Rightarrow> vma_region list \<times> bool" where
  "absorb_next r after =
     (case after of
        cur # rest \<Rightarrow>
          if StartPage r + Count r = StartPage cur then (r\<lparr>Count := Count r + Count cur\<rparr> # rest, True)
          else (r # after, False)
      | [] \<Rightarrow> ([r], False))"

definition put_back :: "vma_region list \<Rightarrow> vma_region list \<times> bool \<Rightarrow> virt_state \<Rightarrow> virt_state" where
  "put_back before tail s =
     (let s' = s\<lparr>free_vma_list := before @ fst tail\<rparr> in if snd tail then FreeNode s' else s')"

definition VirtualFreePages :: "u64 \<Rightarrow> u64 \<Rightarrow> virt_state \<Rightarrow> virt_state" where
  "VirtualFreePages addr count s =
     (if addr = 0 \<or> count = 0 then s
      else let start_page = addr div PAGE_SIZE;
               before = takeWhile (\<lambda>r. StartPage r < start_page) (free_vma_list s);
               after = dropWhile (\<lambda>r. StartPage r < start_page) (free_vma_list s) in
      if before \<noteq> [] \<and> StartPage (last before) + Count (last before) = start_page then
        let prev = (last before)\<lparr>Count := Count (last before) + count\<rparr> in
        put_back (butlast before) (absorb_next prev after) s
      else case AllocNode s of
        None \<Rightarrow> s
      | Some s' \<Rightarrow> put_back before (absorb_next \<lparr>StartPage = start_page, Count = count\<rparr> after) s')"

section \<open>Invariant\<close>

text \<open>Ranges are non-empty, inside the 52-bit page space, ascending, and separated by at least
  one page (fully coalesced); pool nodes are never lost.\<close>

abbreviation region_start :: "vma_region \<Rightarrow> nat" where
  "region_start r \<equiv> unat (StartPage r)"

abbreviation region_stop :: "vma_region \<Rightarrow> nat" where
  "region_stop r \<equiv> unat (StartPage r) + unat (Count r)"

fun wf_regions :: "nat \<Rightarrow> vma_region list \<Rightarrow> bool" where
  "wf_regions b [] \<longleftrightarrow> True"
| "wf_regions b (r # rs) \<longleftrightarrow> b \<le> region_start r \<and> 0 < unat (Count r) \<and> region_stop r \<le> 2 ^ 52 \<and>
     wf_regions (region_stop r + 1) rs"

definition wf_virt :: "virt_state \<Rightarrow> bool" where
  "wf_virt s \<longleftrightarrow> wf_regions 0 (free_vma_list s) \<and> length (free_vma_list s) + free_nodes s = MAX_VMA_NODES"

definition region_pages :: "vma_region list \<Rightarrow> nat set" where
  "region_pages rs = (\<Union>r \<in> set rs. {region_start r ..< region_stop r})"

definition free_pages :: "virt_state \<Rightarrow> nat set" where
  "free_pages s = region_pages (free_vma_list s)"

lemma region_pages_simps [simp]:
  "region_pages [] = {}"
  "region_pages (r # rs) = {region_start r ..< region_stop r} \<union> region_pages rs"
  "region_pages (xs @ ys) = region_pages xs \<union> region_pages ys"
  by (auto simp: region_pages_def)

lemma wf_regions_mono: "wf_regions b rs \<Longrightarrow> b' \<le> b \<Longrightarrow> wf_regions b' rs"
  by (cases rs) auto

definition next_bound :: "nat \<Rightarrow> vma_region list \<Rightarrow> nat" where
  "next_bound b rs = (if rs = [] then b else region_stop (last rs) + 1)"

lemma wf_regions_append:
  "wf_regions b (xs @ ys) \<longleftrightarrow> wf_regions b xs \<and> wf_regions (next_bound b xs) ys"
proof (induction xs arbitrary: b)
  case Nil
  then show ?case by (simp add: next_bound_def)
next
  case (Cons x xs)
  then show ?case by (cases xs) (auto simp: next_bound_def)
qed

lemma wf_regions_bound: "wf_regions b rs \<Longrightarrow> p \<in> region_pages rs \<Longrightarrow> b \<le> p \<and> p < 2 ^ 52"
  by (induction rs arbitrary: b) force+

section \<open>Allocation\<close>

lemma take_first_Some:
  assumes "wf_regions b rs" and "0 < unat count" and "take_first count rs = Some (p, rs', u)"
  shows "wf_regions b rs' \<and> {unat p ..< unat p + unat count} \<subseteq> region_pages rs \<and>
    region_pages rs' = region_pages rs - {unat p ..< unat p + unat count} \<and>
    length rs' = length rs - (if u then 1 else 0) \<and> unat p + unat count \<le> 2 ^ 52"
  using assms
proof (induction count rs arbitrary: b p rs' u rule: take_first.induct)
  case (1 count)
  then show ?case by simp
next
  case (2 count r rs)
  have above: "region_stop r < q" if "q \<in> region_pages rs" for q
    using wf_regions_bound [of "region_stop r + 1" rs q] "2.prems"(1) that by auto
  consider (all) "Count r = count" | (part) "count < Count r" | (skip) "Count r < count"
    by fastforce
  then show ?case
  proof cases
    case all
    then have eqs: "p = StartPage r" "rs' = rs" "u" "unat count = unat (Count r)" using "2.prems"(3) by auto
    have "region_pages rs = {region_start r ..< region_stop r} \<union> region_pages rs - {region_start r ..< region_stop r}"
      by (auto dest: above)
    moreover have "wf_regions b rs" by (rule wf_regions_mono) (use "2.prems"(1) in auto)
    ultimately show ?thesis using eqs "2.prems"(1) by simp
  next
    case part
    then have c: "unat count < unat (Count r)" and neq: "Count r \<noteq> count" "count \<le> Count r"
      by (auto simp: word_less_nat_alt word_le_nat_alt)
    have eqs: "p = StartPage r" "\<not> u"
      "rs' = r\<lparr>StartPage := StartPage r + count, Count := Count r - count\<rparr> # rs" using neq "2.prems"(3) by auto
    have un: "unat (StartPage r + count) = region_start r + unat count" "unat (Count r - count) = unat (Count r) - unat count"
      using "2.prems"(1) c part by (simp_all add: unat_add_no_wrap unat_diff_no_wrap)
    have "{region_start r + unat count ..< region_stop r} \<union> region_pages rs =
        {region_start r ..< region_stop r} \<union> region_pages rs - {region_start r ..< region_start r + unat count}"
      using c by (auto dest: above)
    moreover have "{region_start r ..< region_start r + unat count} \<subseteq> {region_start r ..< region_stop r} \<union> region_pages rs"
      using c by auto
    ultimately show ?thesis using eqs un c "2.prems"(1) by simp
  next
    case skip
    then have n: "\<not> count \<le> Count r" by simp
    then obtain rs'' where rs'': "take_first count rs = Some (p, rs'', u)" "rs' = r # rs''"
      using "2.prems"(3) by auto
    have len: "length rs > 0" using rs''(1) by (cases rs) auto
    have IH: "wf_regions (region_stop r + 1) rs'' \<and> {unat p ..< unat p + unat count} \<subseteq> region_pages rs \<and>
      region_pages rs'' = region_pages rs - {unat p ..< unat p + unat count} \<and>
      length rs'' = length rs - (if u then 1 else 0) \<and> unat p + unat count \<le> 2 ^ 52"
      by (rule "2.IH") (use n "2.prems" rs'' in auto)
    then have "{unat p ..< unat p + unat count} \<inter> {region_start r ..< region_stop r} = {}"
      by (fastforce dest: above)
    then have "{region_start r ..< region_stop r} \<union> (region_pages rs - {unat p ..< unat p + unat count}) =
      {region_start r ..< region_stop r} \<union> region_pages rs - {unat p ..< unat p + unat count}" by auto
    with IH rs''(2) len "2.prems"(1) show ?thesis by auto
  qed
qed

lemma take_first_None: "take_first count rs = None \<longleftrightarrow> (\<forall>r \<in> set rs. Count r < count)"
  by (induction count rs rule: take_first.induct) auto

text \<open>A coalesced list of ranges all shorter than \<open>n\<close> contains no run of \<open>n\<close> pages.\<close>

lemma short_regions_no_run:
  assumes "wf_regions b rs" and "\<forall>r \<in> set rs. Count r < count" and "0 < unat count"
  shows "\<not> {p ..< p + unat count} \<subseteq> region_pages rs"
  using assms
proof (induction rs arbitrary: b)
  case Nil
  then show ?case by auto
next
  case (Cons r rs)
  show ?case
  proof
    assume sub: "{p ..< p + unat count} \<subseteq> region_pages (r # rs)"
    have c: "unat (Count r) < unat count" using Cons.prems(2) by (simp add: word_less_nat_alt)
    have gap: "region_stop r \<notin> region_pages (r # rs)"
      using wf_regions_bound [of "region_stop r + 1" rs "region_stop r"] Cons.prems(1) by auto
    have "p \<notin> {region_start r ..< region_stop r}"
    proof
      assume "p \<in> {region_start r ..< region_stop r}"
      then have "region_stop r \<in> {p ..< p + unat count}" using c by auto
      with sub gap show False by blast
    qed
    moreover have "p \<in> region_pages (r # rs)" using sub Cons.prems(3) by (meson atLeastLessThan_iff le_refl less_add_same_cancel1 subsetD)
    ultimately have "p \<in> region_pages rs" by auto
    then have "region_stop r < p"
      using wf_regions_bound [of "region_stop r + 1" rs p] Cons.prems(1) by simp
    then have "{p ..< p + unat count} \<subseteq> region_pages rs" using sub by auto
    with Cons.IH [of "region_stop r + 1"] Cons.prems show False by auto
  qed
qed

lemma alloc_takes_free:
  assumes "wf_virt s" and "VirtualAllocPages count s = (addr, s')"
  obtains (none) "addr = 0" "s' = s"
  | (some) p where "unat addr = p * 4096" "{p ..< p + unat count} \<subseteq> free_pages s"
      "free_pages s' = free_pages s - {p ..< p + unat count}" "wf_virt s'" "p + unat count \<le> 2 ^ 52"
proof (cases "count = 0 \<or> take_first count (free_vma_list s) = None")
  case True
  then show thesis using assms(2) none by (auto simp: VirtualAllocPages_def split: if_splits)
next
  case False
  then have nz: "0 < unat count" by (simp add: unat_gt_0)
  obtain q rs' u where tf: "take_first count (free_vma_list s) = Some (q, rs', u)" using False by auto
  from take_first_Some [OF _ nz tf, of 0] assms(1) have
    r: "wf_regions 0 rs'" "{unat q ..< unat q + unat count} \<subseteq> region_pages (free_vma_list s)"
      "region_pages rs' = region_pages (free_vma_list s) - {unat q ..< unat q + unat count}"
      "length rs' = length (free_vma_list s) - (if u then 1 else 0)" "unat q + unat count \<le> 2 ^ 52"
    by (auto simp: wf_virt_def)
  have addr: "addr = q * PAGE_SIZE"
    and s': "s' = (if u then FreeNode (s\<lparr>free_vma_list := rs'\<rparr>) else s\<lparr>free_vma_list := rs'\<rparr>)"
    using assms(2) False tf by (auto simp: VirtualAllocPages_def Let_def)
  have "unat addr = unat q * 4096" using addr r(5) nz by (simp add: unat_mult_no_wrap)
  moreover have "free_vma_list s \<noteq> []" using tf by auto
  ultimately show thesis
    using r s' assms(1) by (intro some [of "unat q"]) (cases "free_vma_list s"; auto simp: wf_virt_def free_pages_def FreeNode_def)+
qed

text \<open>\<^verbatim>\<open>VirtualAllocPages\<close> returns a page range that was entirely free and removes exactly it
  from the free pages, keeping the list sorted, coalesced and its nodes accounted for.\<close>

theorem VirtualAllocPages_sound:
  assumes "wf_virt s" and "VirtualAllocPages count s = (addr, s')" and "addr \<noteq> 0"
  shows "\<exists>p. unat addr = p * 4096 \<and> {p ..< p + unat count} \<subseteq> free_pages s \<and>
    free_pages s' = free_pages s - {p ..< p + unat count} \<and> wf_virt s'"
  using assms(3) alloc_takes_free [OF assms(1,2)] by metis

text \<open>A three-range state used by the witnesses below.\<close>

definition sample_virt :: virt_state where
  "sample_virt = \<lparr>free_nodes = 4094, free_vma_list = [\<lparr>StartPage = 100, Count = 4\<rparr>, \<lparr>StartPage = 200, Count = 10\<rparr>],
     g_pool_base = 409600\<rparr>"

lemma VirtualAllocPages_sound_witness:
  "\<exists>p. unat (819200 :: u64) = p * 4096 \<and> {p ..< p + unat (6 :: u64)} \<subseteq> free_pages sample_virt \<and>
    free_pages (snd (VirtualAllocPages 6 sample_virt)) = free_pages sample_virt - {p ..< p + unat (6 :: u64)} \<and>
    wf_virt (snd (VirtualAllocPages 6 sample_virt))"
  by (rule VirtualAllocPages_sound) (simp_all add: sample_virt_def wf_virt_def VirtualAllocPages_def)

text \<open>\<^verbatim>\<open>VirtualAllocPages\<close> fails only when no free range is long enough (and leaves the state
  unchanged then): first fit over a coalesced list misses nothing.\<close>

theorem VirtualAllocPages_fails_only_when_full:
  assumes "wf_virt s" and "0 < unat count" and "VirtualAllocPages count s = (0, s')"
    and "\<forall>r \<in> set (free_vma_list s). 0 < region_start r"
  shows "s' = s \<and> (\<forall>p. \<not> {p ..< p + unat count} \<subseteq> free_pages s)"
proof -
  have c: "count \<noteq> 0" using assms(2) by auto
  have "take_first count (free_vma_list s) = None"
  proof (rule ccontr)
    assume "take_first count (free_vma_list s) \<noteq> None"
    then obtain q rs' u where tf: "take_first count (free_vma_list s) = Some (q, rs', u)" by auto
    from take_first_Some [OF _ assms(2) tf, of 0] assms(1)
    have r: "{unat q ..< unat q + unat count} \<subseteq> region_pages (free_vma_list s)" "unat q + unat count \<le> 2 ^ 52"
      by (auto simp: wf_virt_def)
    then have "unat q \<in> region_pages (free_vma_list s)" using assms(2) by auto
    then have "0 < unat q" using assms(4) by (auto simp: region_pages_def)
    moreover have "q * PAGE_SIZE = 0" using c assms(3) tf by (auto simp: VirtualAllocPages_def Let_def)
    ultimately show False using r(2) assms(2) unat_mult_no_wrap [of q PAGE_SIZE] by simp
  qed
  then have small: "\<forall>r \<in> set (free_vma_list s). Count r < count" by (simp add: take_first_None)
  have "\<not> {p ..< p + unat count} \<subseteq> free_pages s" for p
    unfolding free_pages_def by (rule short_regions_no_run) (use assms(1,2) small in \<open>auto simp: wf_virt_def\<close>)
  moreover have "s' = s"
    using assms(3) small take_first_None [of count "free_vma_list s"] by (auto simp: VirtualAllocPages_def split: if_splits)
  ultimately show ?thesis by simp
qed

lemma VirtualAllocPages_fails_only_when_full_witness:
  "sample_virt = sample_virt \<and> (\<forall>p. \<not> {p ..< p + unat (11 :: u64)} \<subseteq> free_pages sample_virt)"
  by (rule VirtualAllocPages_fails_only_when_full) (simp_all add: sample_virt_def wf_virt_def VirtualAllocPages_def)

section \<open>Freeing\<close>

lemma split_regions:
  assumes "wf_regions b rs" and "\<forall>r \<in> set rs. unat start \<noteq> region_start r"
  defines "before \<equiv> takeWhile (\<lambda>r. StartPage r < start) rs"
    and "after \<equiv> dropWhile (\<lambda>r. StartPage r < start) rs"
  shows "rs = before @ after" "\<forall>r \<in> set before. region_start r < unat start"
    "\<forall>r \<in> set after. unat start < region_start r"
proof -
  show "rs = before @ after" by (simp add: before_def after_def)
  show "\<forall>r \<in> set before. region_start r < unat start"
    using set_takeWhileD by (fastforce simp: before_def word_less_nat_alt)
  show "\<forall>r \<in> set after. unat start < region_start r"
    unfolding after_def using assms(1,2)
  proof (induction rs arbitrary: b)
    case Nil
    then show ?case by simp
  next
    case (Cons r rs)
    have "\<forall>r' \<in> set rs. region_start r < region_start r'"
    proof
      fix r' assume "r' \<in> set rs"
      moreover have "\<forall>q \<in> set rs. b' \<le> region_start q" if "wf_regions b' rs" for b'
        using that by (induction rs arbitrary: b') fastforce+
      ultimately show "region_start r < region_start r'" using Cons.prems(1) by fastforce
    qed
    with Cons show ?case by (auto simp: word_less_nat_alt)
  qed
qed

lemma region_nonwrap: "region_stop r \<le> 2 ^ 52 \<Longrightarrow> StartPage r + Count r = x \<longleftrightarrow> region_stop r = unat x"
  by (simp add: word_unat_eq_iff unat_add_no_wrap)

lemma free_neighbours:
  assumes "wf_regions 0 (bs @ as)" and "\<forall>r \<in> set bs. region_start r < p" and "\<forall>r \<in> set as. p < region_start r"
    and "{p ..< p + c} \<inter> region_pages (bs @ as) = {}" and "0 < c"
  shows "bs \<noteq> [] \<Longrightarrow> region_stop (last bs) \<le> p" and "as \<noteq> [] \<Longrightarrow> p + c \<le> region_start (hd as)"
proof -
  assume "bs \<noteq> []"
  then have "last bs \<in> set bs" by simp
  then have "{region_start (last bs) ..< region_stop (last bs)} \<subseteq> region_pages (bs @ as)"
    by (auto simp: region_pages_def)
  moreover have "p \<in> {p ..< p + c}" using assms(5) by simp
  ultimately have "p \<notin> {region_start (last bs) ..< region_stop (last bs)}" using assms(4) by blast
  with assms(2) \<open>last bs \<in> set bs\<close> show "region_stop (last bs) \<le> p" by force
next
  assume "as \<noteq> []"
  then obtain r rs where as: "as = r # rs" by (cases as) auto
  then have "region_start r \<in> region_pages (bs @ as)" using assms(1) by (auto simp: wf_regions_append)
  then have "region_start r \<notin> {p ..< p + c}" using assms(4) by blast
  with assms(3) as show "p + c \<le> region_start (hd as)" by force
qed

lemma wf_regions_memD: "wf_regions b rs \<Longrightarrow> r \<in> set rs \<Longrightarrow> 0 < unat (Count r) \<and> region_stop r \<le> 2 ^ 52"
  by (induction rs arbitrary: b) auto

text \<open>Absorbing the next range coalesces: the input list may touch \<open>r\<close>, the output may not.\<close>

lemma absorb_next_spec:
  assumes "wf_regions 0 bs" and "next_bound 0 bs \<le> region_start r" and "0 < unat (Count r)"
    and "region_stop r \<le> 2 ^ 52" and "wf_regions (region_stop r) as"
  shows "wf_regions 0 (bs @ fst (absorb_next r as)) \<and>
    region_pages (fst (absorb_next r as)) = {region_start r ..< region_stop r} \<union> region_pages as \<and>
    length (fst (absorb_next r as)) + (if snd (absorb_next r as) then 1 else 0) = Suc (length as)"
proof (cases as)
  case Nil
  with assms show ?thesis by (simp add: absorb_next_def wf_regions_append)
next
  case (Cons cur rest)
  show ?thesis
  proof (cases "StartPage r + Count r = StartPage cur")
    case True
    then have stop: "region_stop r = region_start cur" using assms(4) by (simp add: region_nonwrap)
    have "unat (Count r + Count cur) = unat (Count r) + unat (Count cur)"
      using assms(5) Cons stop by (simp add: unat_add_no_wrap)
    then have cnt: "region_start r + unat (Count r + Count cur) = region_stop cur" using stop by simp
    have "{region_start r ..< region_stop cur} = {region_start r ..< region_stop r} \<union> {region_start cur ..< region_stop cur}"
      using stop by auto
    moreover have "wf_regions 0 (bs @ r\<lparr>Count := Count r + Count cur\<rparr> # rest)"
      using Cons assms(1-3,5) cnt stop by (simp add: wf_regions_append)
    ultimately show ?thesis using True Cons cnt by (simp add: absorb_next_def Un_assoc)
  next
    case False
    then have "region_stop r \<noteq> region_start cur" using assms(4) by (simp add: region_nonwrap)
    with False Cons assms show ?thesis by (auto simp: absorb_next_def wf_regions_append)
  qed
qed

lemma wf_put_back:
  assumes "wf_regions 0 bs" and "next_bound 0 bs \<le> region_start r" and "0 < unat (Count r)"
    and "region_stop r \<le> 2 ^ 52" and "wf_regions (region_stop r) as"
    and "length bs + Suc (length as) + free_nodes s = MAX_VMA_NODES"
  shows "wf_virt (put_back bs (absorb_next r as) s) \<and>
    free_pages (put_back bs (absorb_next r as) s) =
      region_pages bs \<union> {region_start r ..< region_stop r} \<union> region_pages as"
  using absorb_next_spec [OF assms(1-5)] assms(6)
  by (simp add: put_back_def wf_virt_def free_pages_def FreeNode_def Let_def Un_assoc split: if_splits)

text \<open>The freed range continues the last range before it.\<close>

lemma extend_last:
  assumes "wf_regions 0 (bs0 @ r # as)" and "wf_regions (p + unat count) as" and "region_stop r = p"
    and "p + unat count \<le> 2 ^ 52" and "length (bs0 @ r # as) + free_nodes s = MAX_VMA_NODES"
    and "free_pages s = region_pages (bs0 @ r # as)"
  defines "s' \<equiv> put_back bs0 (absorb_next (r\<lparr>Count := Count r + count\<rparr>) as) s"
  shows "wf_virt s' \<and> free_pages s' = free_pages s \<union> {p ..< p + unat count}"
proof -
  have cnt: "unat (Count r + count) = unat (Count r) + unat count"
    using assms(3,4) by (simp add: unat_add_no_wrap)
  have "free_pages s = region_pages bs0 \<union> {region_start r ..< p} \<union> region_pages as"
    using assms(3,6) by (simp add: Un_assoc)
  moreover have "{region_start r ..< p + unat count} = {region_start r ..< p} \<union> {p ..< p + unat count}"
    using assms(3) by auto
  moreover have "wf_virt s' \<and> free_pages s' = region_pages bs0 \<union> {region_start r ..< p + unat count} \<union> region_pages as"
    using wf_put_back [of bs0 "r\<lparr>Count := Count r + count\<rparr>" as s] assms(1-5) cnt
    unfolding s'_def by (simp add: wf_regions_append add.assoc [symmetric])
  ultimately show ?thesis by (simp only: ) blast
qed

text \<open>Freeing a range of pages that is disjoint from the free pages, with a spare node in the
  pool, adds exactly those pages; the list stays sorted and fully coalesced and no node is lost.\<close>

theorem VirtualFreePages_sound:
  assumes "wf_virt s" and "addr \<noteq> 0" and "count \<noteq> 0" and "unat addr div 4096 = p"
    and "p + unat count \<le> 2 ^ 52" and "{p ..< p + unat count} \<inter> free_pages s = {}" and "0 < free_nodes s"
  shows "wf_virt (VirtualFreePages addr count s) \<and>
    free_pages (VirtualFreePages addr count s) = free_pages s \<union> {p ..< p + unat count}"
proof -
  define start where "start = addr div PAGE_SIZE"
  define bs where "bs = takeWhile (\<lambda>r. StartPage r < start) (free_vma_list s)"
  define as where "as = dropWhile (\<lambda>r. StartPage r < start) (free_vma_list s)"
  have us: "unat start = p" using assms(4) by (simp add: start_def unat_div)
  have c: "0 < unat count" using assms(3) by (simp add: unat_gt_0)
  have wf: "wf_regions 0 (free_vma_list s)" "length (free_vma_list s) + free_nodes s = 4096"
    using assms(1) by (auto simp: wf_virt_def)
  have "\<forall>r \<in> set (free_vma_list s). unat start \<noteq> region_start r"
  proof
    fix r assume r: "r \<in> set (free_vma_list s)"
    then have "region_start r \<in> free_pages s"
      using wf_regions_memD [OF wf(1)] by (fastforce simp: free_pages_def region_pages_def)
    moreover from c have "p \<in> {p ..< p + unat count}" by simp
    ultimately have "region_start r \<noteq> p" using assms(6) by (metis disjoint_iff)
    then show "unat start \<noteq> region_start r" using us by simp
  qed
  note split = split_regions [OF wf(1) this, folded bs_def as_def]
  have wfs: "wf_regions 0 (bs @ as)" using wf(1) split(1) by simp
  have disj: "{p ..< p + unat count} \<inter> region_pages (bs @ as) = {}"
    using assms(6) split(1) by (simp add: free_pages_def)
  note nb = free_neighbours [OF wfs split(2,3) [unfolded us] disj c]
  have after: "wf_regions (p + unat count) as"
    using wfs nb(2) by (cases as) (auto simp: wf_regions_append)
  show ?thesis
  proof (cases "bs \<noteq> [] \<and> StartPage (last bs) + Count (last bs) = start")
    case True
    then obtain bs0 r where bs: "bs = bs0 @ [r]" by (cases bs rule: rev_cases) auto
    have rle: "region_stop r \<le> 2 ^ 52" using wf_regions_memD [OF wfs, of r] bs by simp
    then have stop: "region_stop r = p" using True bs us by (simp add: region_nonwrap)
    have eq: "VirtualFreePages addr count s = put_back bs0 (absorb_next (r\<lparr>Count := Count r + count\<rparr>) as) s"
      using True bs assms(2,3) by (simp add: VirtualFreePages_def Let_def flip: start_def bs_def as_def)
    show ?thesis unfolding eq
      by (rule extend_last) (use wfs bs after stop assms(5) wf(2) split(1) in \<open>simp_all add: free_pages_def\<close>)
  next
    case False
    have gap: "next_bound 0 bs \<le> p"
      using False nb(1) us wf_regions_memD [OF wfs, of "last bs"]
      by (cases "bs = []") (auto simp: region_nonwrap next_bound_def)
    have eq: "VirtualFreePages addr count s = put_back bs (absorb_next \<lparr>StartPage = start, Count = count\<rparr> as)
        (s\<lparr>free_nodes := free_nodes s - 1\<rparr>)"
      using False assms(2,3,7) by (auto simp: VirtualFreePages_def AllocNode_def Let_def simp flip: start_def bs_def as_def)
    have "free_pages s = region_pages bs \<union> region_pages as" using split(1) by (simp add: free_pages_def)
    then show ?thesis unfolding eq
      using wf_put_back [of bs "\<lparr>StartPage = start, Count = count\<rparr>" as "s\<lparr>free_nodes := free_nodes s - 1\<rparr>"]
        wfs gap us c after assms(5,7) wf(2) split(1)
      by (auto simp: wf_regions_append)
  qed
qed

lemma VirtualFreePages_sound_witness:
  "wf_virt (VirtualFreePages 0x68000 96 sample_virt) \<and>
    free_pages (VirtualFreePages 0x68000 96 sample_virt) = free_pages sample_virt \<union> {104 ..< 104 + unat (96 :: u64)}"
  by (rule VirtualFreePages_sound) (auto simp: sample_virt_def wf_virt_def free_pages_def)

text \<open>The free list covers no address below it, but \<^verbatim>\<open>VirtualFreePages\<close> does not check that the
  range belongs to the pool: an aligned range below every free range (a user mapping, say) that is
  freed becomes the next range \<^verbatim>\<open>VirtualAllocPages\<close> hands out.\<close>

theorem freed_foreign_range_is_handed_out:
  assumes "wf_virt s" and "addr \<noteq> 0" and "count \<noteq> 0" and "4096 dvd unat addr" and "0 < free_nodes s"
    and "\<forall>r \<in> set (free_vma_list s). unat addr div 4096 + unat count \<le> region_start r"
    and "unat addr div 4096 + unat count \<le> 2 ^ 52"
  shows "fst (VirtualAllocPages count (VirtualFreePages addr count s)) = addr"
proof -
  define start where "start = addr div PAGE_SIZE"
  have us: "unat start = unat addr div 4096" by (simp add: start_def unat_div)
  have lt: "unat addr < 2 ^ 64" using unsigned_less [of addr, where ?'a = nat] by simp
  have addr_eq: "start * PAGE_SIZE = addr"
    by (rule word_unat_eqI) (use us assms(4) lt in \<open>simp add: unat_mult_no_wrap\<close>)
  have c: "0 < unat count" using assms(3) by (simp add: unat_gt_0)
  have none: "takeWhile (\<lambda>r. StartPage r < start) (free_vma_list s) = []"
    using assms(6) us by (cases "free_vma_list s") (auto simp: word_less_nat_alt)
  then have all: "dropWhile (\<lambda>r. StartPage r < start) (free_vma_list s) = free_vma_list s"
    by (metis append_Nil takeWhile_dropWhile_id)
  have "count \<le> Count cur + count" if "cur \<in> set (free_vma_list s)" "start + count = StartPage cur" for cur
  proof -
    have "region_stop cur \<le> 2 ^ 52" using assms(1) wf_regions_memD that(1) by (auto simp: wf_virt_def)
    moreover have "region_start cur = unat start + unat count"
      using assms(7) us that(2) by (simp add: unat_add_no_wrap flip: that(2))
    ultimately show ?thesis by (simp add: word_le_nat_alt unat_add_no_wrap)
  qed
  then show ?thesis
    using none all assms(2,3,5) addr_eq
    by (cases "free_vma_list s")
      (auto simp: VirtualFreePages_def Let_def AllocNode_def put_back_def absorb_next_def VirtualAllocPages_def
        FreeNode_def add.commute simp flip: start_def)
qed

lemma freed_foreign_range_is_handed_out_witness:
  "fst (VirtualAllocPages 2 (VirtualFreePages 0x10000 2 sample_virt)) = 0x10000"
  by (rule freed_foreign_range_is_handed_out) (auto simp: sample_virt_def wf_virt_def)

end
