(* ===== verification/Phys_Memory.thy ===== *)
theory Phys_Memory
  imports Kernel_Prelude
begin

text \<open>
  Physical memory as the kernel sees it through the higher-half direct map: one byte per
  physical address, and the little-endian 64-bit accesses of the page-table code. A pointer
  \<^verbatim>\<open>HHDM_PhysToVirt(p)\<close> is represented by the physical address \<open>p\<close> itself.
\<close>

type_synonym ram = "u64 \<Rightarrow> u8"

definition load64 :: "ram \<Rightarrow> u64 \<Rightarrow> u64" where
  "load64 m a =
     ucast (m a) OR push_bit 8 (ucast (m (a + 1))) OR push_bit 16 (ucast (m (a + 2))) OR
     push_bit 24 (ucast (m (a + 3))) OR push_bit 32 (ucast (m (a + 4))) OR
     push_bit 40 (ucast (m (a + 5))) OR push_bit 48 (ucast (m (a + 6))) OR
     push_bit 56 (ucast (m (a + 7)))"

definition store64 :: "ram \<Rightarrow> u64 \<Rightarrow> u64 \<Rightarrow> ram" where
  "store64 m a v = (\<lambda>x. if x - a < 8 then ucast (drop_bit (8 * unat (x - a)) v) else m x)"

text \<open>\<^verbatim>\<open>Memset\<close> of one page frame to zero.\<close>

definition zero_page :: "ram \<Rightarrow> u64 \<Rightarrow> ram" where
  "zero_page m p = (\<lambda>x. if x - p < PAGE_SIZE then 0 else m x)"

lemma bit_push_byte: "bit (push_bit (8 * k) (ucast (b :: u8)) :: u64) n \<longleftrightarrow> n < 64 \<and> n div 8 = k \<and> bit b (n mod 8)"
proof -
  have "n - 8 * k = n mod 8" if "n div 8 = k" using that minus_mult_div_eq_mod [of n 8] by simp
  moreover have "n div 8 = k" if "8 * k \<le> n" "n - 8 * k < 8" using that by (intro div_nat_eqI) auto
  moreover have "n - 8 * k < 8" if "bit b (n - 8 * k)" using bit_imp_le_length [OF that] by simp
  ultimately show ?thesis by (auto simp: bit_simps)
qed

lemma bit_load64: "bit (load64 m a) n \<longleftrightarrow> n < 64 \<and> bit (m (a + of_nat (n div 8))) (n mod 8)"
proof (cases "n < 64")
  case True
  note byte = bit_push_byte [of 0, simplified] bit_push_byte [of 1, simplified] bit_push_byte [of 2, simplified]
    bit_push_byte [of 3, simplified] bit_push_byte [of 4, simplified] bit_push_byte [of 5, simplified]
    bit_push_byte [of 6, simplified] bit_push_byte [of 7, simplified]
  define k where "k = n div 8"
  have "k < 8" using True by (simp add: k_def)
  then consider "k = 0" | "k = 1" | "k = 2" | "k = 3" | "k = 4" | "k = 5" | "k = 6" | "k = 7" by linarith
  then show ?thesis
    by cases (simp_all only: load64_def bit_or_iff byte k_def [symmetric], simp_all add: True)
next
  case False
  then show ?thesis by (auto dest: bit_imp_le_length)
qed

lemma load64_store64_same [simp]: "load64 (store64 m a v) a = v"
proof (rule bit_word_eqI)
  fix n assume "n < LENGTH(64)"
  then have n: "n div 8 < 8" "n < 64" by auto
  then have "unat (of_nat (n div 8) :: u64) = n div 8" by (simp add: unat_of_nat_u64)
  with n show "bit (load64 (store64 m a v) a) n = bit v n"
    by (simp add: bit_load64 store64_def word_less_nat_alt bit_simps)
qed

lemma load64_cong: "(\<And>k. k < 8 \<Longrightarrow> m (a + k) = m' (a + k)) \<Longrightarrow> load64 m a = load64 m' a"
  by (rule bit_word_eqI) (simp add: bit_load64 word_less_nat_alt unat_of_nat_u64)

text \<open>Two different 8-byte aligned words do not overlap.\<close>

definition aligned :: "nat \<Rightarrow> u64 \<Rightarrow> bool" where
  "aligned n a \<longleftrightarrow> n dvd unat a"

lemma unat_lt_2_64: "unat (x :: u64) < 2 ^ 64"
  using unsigned_less [of x, where ?'a = nat] by simp

lemma aligned8_block:
  assumes "aligned 8 a" and "k < 8" and "aligned 8 b" and "b + k - a < 8"
  shows "a = b"
proof -
  define d where "d = b - a"
  have "d + k = b + k - a" by (simp add: d_def)
  then have "d + k < 8" using assms(4) by (simp only:)
  then have d: "unat (d + k) < 8" by (simp only: word_less_nat_alt) simp
  have k: "unat k < 8" using assms(2) by (simp add: word_less_nat_alt)
  have "unat d mod 8 = 0"
  proof -
    have "8 dvd unat b + 2 ^ 64" "8 dvd unat a" "8 dvd unat b" using assms(1,3) by (auto simp: aligned_def)
    then show ?thesis by (simp add: d_def unat_sub_if_size word_size mod_eq_0_iff_dvd)
  qed
  moreover have "unat (d + k) = (unat d + unat k) mod 2 ^ 64" by (simp add: unat_word_ariths)
  moreover have "unat d + unat k < 2 ^ 64"
    using \<open>unat d mod 8 = 0\<close> k unat_lt_2_64 [of d] by auto
  ultimately have "unat d + unat k < 8" using d by simp
  then have "unat d = 0" using \<open>unat d mod 8 = 0\<close> by auto
  then have "d = 0" by (simp only: unat_eq_0)
  then show ?thesis by (simp add: d_def)
qed

lemma load64_store64_other:
  assumes "aligned 8 a" and "aligned 8 b" and "a \<noteq> b"
  shows "load64 (store64 m a v) b = load64 m b"
  using aligned8_block [OF assms(1) _ assms(2)] assms(3) by (intro load64_cong) (auto simp: store64_def)

section \<open>Page-table entries\<close>

text \<open>\<^verbatim>\<open>&Table[i]\<close> for a table in the frame at \<open>t\<close>.\<close>

definition entry_addr :: "u64 \<Rightarrow> nat \<Rightarrow> u64" where
  "entry_addr t i = t + of_nat (8 * i)"

lemma unat_entry_addr:
  assumes "aligned 4096 t" and "i < 512"
  shows "unat (entry_addr t i) = unat t + 8 * i"
proof -
  obtain q where q: "unat t = 4096 * q" using assms(1) by (auto simp: aligned_def)
  have "unat t < 2 ^ 64" by (rule unat_lt_2_64)
  then have "q < 2 ^ 52" using q by simp
  then have "unat t + 8 * i < 2 ^ 64" using q assms(2) by simp
  then show ?thesis using assms(2) by (simp add: entry_addr_def unat_word_ariths unat_of_nat take_bit_nat_eq_self)
qed

lemma entry_addr_aligned: "aligned 4096 t \<Longrightarrow> i < 512 \<Longrightarrow> aligned 8 (entry_addr t i)"
  by (auto simp: aligned_def unat_entry_addr [unfolded aligned_def] intro: dvd_trans [of 8 4096])

lemma entry_addr_inject:
  assumes "aligned 4096 t" "i < 512" "aligned 4096 t'" "i' < 512"
  shows "entry_addr t i = entry_addr t' i' \<longleftrightarrow> t = t' \<and> i = i'"
proof
  assume "entry_addr t i = entry_addr t' i'"
  then have eq: "unat t + 8 * i = unat t' + 8 * i'" using assms by (metis unat_entry_addr)
  obtain q where q: "unat t = 4096 * q" using assms(1) by (auto simp: aligned_def)
  moreover obtain q' where q': "unat t' = 4096 * q'" using assms(3) by (auto simp: aligned_def)
  ultimately have "4096 * q + 8 * i = 4096 * q' + 8 * i'" using eq by simp
  then have "(4096 * q + 8 * i) div 4096 = (4096 * q' + 8 * i') div 4096" by simp
  then have "q = q'" using assms(2,4) by simp
  then show "t = t' \<and> i = i'" using eq q q' by (auto intro: word_unat_eqI)
qed simp

definition load_entry :: "ram \<Rightarrow> u64 \<Rightarrow> nat \<Rightarrow> u64" where
  "load_entry m t i = load64 m (entry_addr t i)"

definition store_entry :: "ram \<Rightarrow> u64 \<Rightarrow> nat \<Rightarrow> u64 \<Rightarrow> ram" where
  "store_entry m t i v = store64 m (entry_addr t i) v"

lemma load_store_entry:
  assumes "aligned 4096 t" "i < 512" "aligned 4096 t'" "i' < 512"
  shows "load_entry (store_entry m t i v) t' i' = (if t = t' \<and> i = i' then v else load_entry m t' i')"
  using assms entry_addr_inject [OF assms] load64_store64_other [of "entry_addr t i" "entry_addr t' i'"]
  by (auto simp: load_entry_def store_entry_def entry_addr_aligned)

lemma page_offset_iff:
  assumes "aligned 4096 p" and "aligned 4096 t" and "unat x = unat t + k" and "k < 4096"
  shows "x - p < PAGE_SIZE \<longleftrightarrow> t = p"
proof
  obtain a where a: "unat t = 4096 * a" using assms(2) by (auto simp: aligned_def)
  obtain b where b: "unat p = 4096 * b" using assms(1) by (auto simp: aligned_def)
  assume lt: "x - p < PAGE_SIZE"
  have "unat p \<le> unat x"
  proof (rule ccontr)
    assume less: "\<not> unat p \<le> unat x"
    then have "unat (x - p) = 2 ^ 64 + unat x - unat p"
      by (simp only: unat_sub_if_size word_size if_False) simp
    moreover have "unat (x - p) < 4096" using lt by (simp add: word_less_nat_alt)
    moreover have "unat p + 4096 \<le> 2 ^ 64" using unat_lt_2_64 [of p] b by simp
    ultimately show False by linarith
  qed
  then have "unat (x - p) = unat x - unat p" by (simp add: unat_sub word_le_nat_alt)
  then have "unat x - unat p < 4096" using lt by (simp add: word_less_nat_alt)
  then have "4096 * b \<le> 4096 * a + k" "4096 * a + k < 4096 * b + 4096"
    using a b assms(3) \<open>unat p \<le> unat x\<close> by linarith+
  then have "a = b" using assms(4) by linarith
  then show "t = p" using a b by (auto intro: word_unat_eqI)
next
  assume "t = p"
  then have "unat (x - p) = k" using assms(3) by (simp add: unat_sub word_le_nat_alt)
  then show "x - p < PAGE_SIZE" using assms(4) by (simp add: word_less_nat_alt)
qed

lemma load_zero_page:
  assumes "aligned 4096 p" "aligned 4096 t" "i < 512"
  shows "load_entry (zero_page m p) t i = (if t = p then 0 else load_entry m t i)"
proof -
  have "entry_addr t i + of_nat k - p < PAGE_SIZE \<longleftrightarrow> t = p" if "k < 8" for k
  proof (rule page_offset_iff [OF assms(1,2), of _ "8 * i + k"])
    have "unat (entry_addr t i) + k < 2 ^ 64"
    proof -
      obtain q where q: "unat t = 4096 * q" using assms(2) by (auto simp: aligned_def)
      have "q < 2 ^ 52" using unat_lt_2_64 [of t] q by simp
      then show ?thesis using q assms that by (simp add: unat_entry_addr)
    qed
    then show "unat (entry_addr t i + of_nat k) = unat t + (8 * i + k)"
      using assms that by (simp add: unat_word_ariths unat_of_nat take_bit_nat_eq_self unat_entry_addr)
  qed (use assms that in simp)
  then have "bit (load_entry (zero_page m p) t i) n = bit (if t = p then 0 else load_entry m t i) n" if "n < 64" for n
    using that by (simp add: load_entry_def bit_load64 zero_page_def)
  then show ?thesis by (intro bit_word_eqI) simp
qed

end
