(* ===== verification/Paging_Tables.thy ===== *)
theory Paging_Tables
  imports Virt_Alloc Phys_Memory
begin

text \<open>
  The four-level page tables, \<^verbatim>\<open>kernel/mm/mappage.cpp\<close>, over the byte memory of
  \<^theory_text>\<open>Phys_Memory\<close>: mapping, unmapping with the release of empty tables, translation and the
  two flag updates, composed with the frame allocator and the virtual allocator they call.
  A \<^verbatim>\<open>PML4Virt\<close> pointer is the physical address of its frame. The interrupt flag is part of the
  state because every function saves and restores it; TLB flushes have no effect on the tables.
\<close>

section \<open>Model\<close>

abbreviation PAGE_PRESENT :: u64 where "PAGE_PRESENT \<equiv> 0x1"
abbreviation PAGE_RW :: u64 where "PAGE_RW \<equiv> 0x2"
abbreviation PAGE_USER :: u64 where "PAGE_USER \<equiv> 0x4"
abbreviation PAGE_PS :: u64 where "PAGE_PS \<equiv> 0x80"
abbreviation PAGE_ADDR_MASK :: u64 where "PAGE_ADDR_MASK \<equiv> 0x000FFFFFFFFFF000"

record mm_state =
  mem :: ram
  frames :: phys_state
  pool :: virt_state
  interrupts :: bool

text \<open>The index of the table entry for \<open>va\<close> at depth 0 (PML4) to 3 (PT).\<close>

definition pt_index :: "nat \<Rightarrow> u64 \<Rightarrow> nat" where
  "pt_index d va = unat (drop_bit (39 - 9 * d) va AND 0x1FF)"

definition present :: "u64 \<Rightarrow> bool" where
  "present e \<longleftrightarrow> e AND PAGE_PRESENT \<noteq> 0"

definition huge :: "u64 \<Rightarrow> bool" where
  "huge e \<longleftrightarrow> e AND PAGE_PS \<noteq> 0"

text \<open>One level of the descent in \<^verbatim>\<open>MapPages\<close>: create the next table, refuse a huge page, or
  make the entry writable and follow it.\<close>

datatype table_result = Table u64 | NoFrame | HugeEntry

definition ensure_table :: "bool \<Rightarrow> u64 \<Rightarrow> nat \<Rightarrow> mm_state \<Rightarrow> (table_result \<times> mm_state) option" where
  "ensure_table check_ps t i s =
     (let e = load_entry (mem s) t i in
      if \<not> present e then
        (case PhysicalAllocPages 1 (frames s) of
           None \<Rightarrow> None
         | Some (f, fr) \<Rightarrow>
             let s' = s\<lparr>frames := fr\<rparr> in
             if f = 0 then Some (NoFrame, s')
             else Some (Table f, s'\<lparr>mem := store_entry (zero_page (mem s) f) t i
                                     (f OR PAGE_PRESENT OR PAGE_RW OR PAGE_USER)\<rparr>))
      else if check_ps \<and> huge e then Some (HugeEntry, s)
      else let s' = (if e AND PAGE_RW = 0 then s\<lparr>mem := store_entry (mem s) t i (e OR PAGE_RW)\<rparr> else s) in
        Some (Table (e AND PAGE_ADDR_MASK), s'))"

text \<open>The body of the loop of \<^verbatim>\<open>MapPages\<close>; \<open>Locked\<close> is the return that does not restore the
  interrupt flag (a 1 GiB page in the way).\<close>

datatype map_outcome = Mapped | Refused | Locked

definition map_page :: "u64 \<Rightarrow> u64 \<Rightarrow> u64 \<Rightarrow> u64 \<Rightarrow> mm_state \<Rightarrow> (map_outcome \<times> mm_state) option" where
  "map_page pml4 phys virt flags s =
     (case ensure_table False pml4 (pt_index 0 virt) s of
        None \<Rightarrow> None
      | Some (Table pdpt, s) \<Rightarrow>
          (case ensure_table True pdpt (pt_index 1 virt) s of
             None \<Rightarrow> None
           | Some (Table pd, s) \<Rightarrow>
               (case ensure_table True pd (pt_index 2 virt) s of
                  None \<Rightarrow> None
                | Some (Table pt, s) \<Rightarrow>
                    Some (Mapped, s\<lparr>mem := store_entry (mem s) pt (pt_index 3 virt) (phys OR flags)\<rparr>)
                | Some (_, s) \<Rightarrow> Some (Refused, s))
           | Some (HugeEntry, s) \<Rightarrow> Some (Locked, s)
           | Some (_, s) \<Rightarrow> Some (Refused, s))
      | Some (_, s) \<Rightarrow> Some (Refused, s))"

primrec map_loop :: "nat \<Rightarrow> u64 \<Rightarrow> u64 \<Rightarrow> u64 \<Rightarrow> u64 \<Rightarrow> u64 \<Rightarrow> mm_state \<Rightarrow> (map_outcome \<times> mm_state) option" where
  "map_loop 0 pml4 phys virt flags I s = Some (Mapped, s)"
| "map_loop (Suc n) pml4 phys virt flags I s =
     (case map_page pml4 (phys + I * PAGE_SIZE) (virt + I * PAGE_SIZE) flags s of
        Some (Mapped, s') \<Rightarrow> map_loop n pml4 phys virt flags (I + 1) s'
      | r \<Rightarrow> r)"

definition MapPages :: "u64 \<Rightarrow> u64 \<Rightarrow> u64 \<Rightarrow> u64 \<Rightarrow> u64 \<Rightarrow> mm_state \<Rightarrow> (bool \<times> mm_state) option" where
  "MapPages pml4 phys virt count flags s =
     (let irq = interrupts s in
      map_option (\<lambda>(outcome, s'). case outcome of
          Mapped \<Rightarrow> (True, s'\<lparr>interrupts := irq\<rparr>)
        | Refused \<Rightarrow> (False, s'\<lparr>interrupts := irq\<rparr>)
        | Locked \<Rightarrow> (False, s'))
       (map_loop (unat count) pml4 phys virt flags 0 (s\<lparr>interrupts := False\<rparr>)))"

text \<open>The lookup of \<^verbatim>\<open>UnmapPage\<close> and \<^verbatim>\<open>SetFlags\<close>: the PDPT, PD and PT of a 4 KiB mapping.\<close>

definition find_tables :: "ram \<Rightarrow> u64 \<Rightarrow> u64 \<Rightarrow> (u64 \<times> u64 \<times> u64) option" where
  "find_tables m pml4 va =
     (let e0 = load_entry m pml4 (pt_index 0 va) in
      if \<not> present e0 then None
      else let pdpt = e0 AND PAGE_ADDR_MASK; e1 = load_entry m pdpt (pt_index 1 va) in
      if \<not> present e1 \<or> huge e1 then None
      else let pd = e1 AND PAGE_ADDR_MASK; e2 = load_entry m pd (pt_index 2 va) in
      if \<not> present e2 \<or> huge e2 then None
      else let pt = e2 AND PAGE_ADDR_MASK; e3 = load_entry m pt (pt_index 3 va) in
      if \<not> present e3 then None else Some (pdpt, pd, pt))"

definition table_empty :: "ram \<Rightarrow> u64 \<Rightarrow> bool" where
  "table_empty m t \<longleftrightarrow> list_all (\<lambda>i. \<not> present (load_entry m t i)) [0..<512]"

text \<open>Release the table \<open>child\<close>, which entry \<open>i\<close> of \<open>parent\<close> points to, when it is empty.\<close>

definition release_empty :: "u64 \<Rightarrow> u64 \<Rightarrow> nat \<Rightarrow> mm_state \<Rightarrow> mm_state option" where
  "release_empty child parent i s =
     (if table_empty (mem s) child then
        let f = load_entry (mem s) parent i AND PAGE_ADDR_MASK;
            s' = s\<lparr>mem := store_entry (mem s) parent i 0\<rparr> in
        map_option (\<lambda>fr. s'\<lparr>frames := fr\<rparr>) (PhysicalFreePages f 1 (frames s'))
      else Some s)"

definition UnmapPage :: "u64 \<Rightarrow> u64 \<Rightarrow> mm_state \<Rightarrow> (bool \<times> mm_state) option" where
  "UnmapPage pml4 va s =
     (case find_tables (mem s) pml4 va of
        None \<Rightarrow> Some (False, s)
      | Some (pdpt, pd, pt) \<Rightarrow>
          let s = s\<lparr>mem := store_entry (mem s) pt (pt_index 3 va) 0\<rparr> in
          Option.bind (release_empty pt pd (pt_index 2 va) s) (\<lambda>s.
          Option.bind (release_empty pd pdpt (pt_index 1 va) s) (\<lambda>s.
          Option.bind (release_empty pdpt pml4 (pt_index 0 va) s) (\<lambda>s.
          Some (True, s\<lparr>pool := VirtualFreePages va 1 (pool s)\<rparr>)))))"

definition GetPhysicalAddress :: "ram \<Rightarrow> u64 \<Rightarrow> u64 \<Rightarrow> u64" where
  "GetPhysicalAddress m pml4 va =
     (let e0 = load_entry m pml4 (pt_index 0 va) in
      if \<not> present e0 then 0
      else let e1 = load_entry m (e0 AND PAGE_ADDR_MASK) (pt_index 1 va) in
      if \<not> present e1 then 0
      else if huge e1 then (e1 AND PAGE_ADDR_MASK) + (va AND (push_bit 30 1 - 1))
      else let e2 = load_entry m (e1 AND PAGE_ADDR_MASK) (pt_index 2 va) in
      if \<not> present e2 then 0
      else if huge e2 then (e2 AND PAGE_ADDR_MASK) + (va AND (push_bit 21 1 - 1))
      else let e3 = load_entry m (e2 AND PAGE_ADDR_MASK) (pt_index 3 va) in
      if \<not> present e3 then 0
      else (e3 AND PAGE_ADDR_MASK) + (va AND (PAGE_SIZE - 1)))"

definition SetFlags :: "u64 \<Rightarrow> u64 \<Rightarrow> u64 \<Rightarrow> mm_state \<Rightarrow> bool \<times> mm_state" where
  "SetFlags pml4 va flags s =
     (case find_tables (mem s) pml4 va of
        None \<Rightarrow> (False, s)
      | Some (pdpt, pd, pt) \<Rightarrow>
          let i = pt_index 3 va; phys = load_entry (mem s) pt i AND PAGE_ADDR_MASK in
          (True, s\<lparr>mem := store_entry (mem s) pt i (phys OR flags)\<rparr>))"

text \<open>\<^verbatim>\<open>SetRegionFlags\<close>: both bounds are multiples of the page size after rounding, so the loop
  \<^verbatim>\<open>for (addr = Start; addr < End; addr += 4096)\<close> makes \<^verbatim>\<open>(End - Start) / 4096\<close> turns.\<close>

primrec set_region :: "nat \<Rightarrow> u64 \<Rightarrow> u64 \<Rightarrow> u64 \<Rightarrow> mm_state \<Rightarrow> bool \<times> mm_state" where
  "set_region 0 pml4 addr flags s = (True, s)"
| "set_region (Suc n) pml4 addr flags s =
     (case SetFlags pml4 addr flags s of
        (False, s') \<Rightarrow> (False, s')
      | (True, s') \<Rightarrow> set_region n pml4 (addr + PAGE_SIZE) flags s')"

definition SetRegionFlags :: "u64 \<Rightarrow> u64 \<Rightarrow> u64 \<Rightarrow> u64 \<Rightarrow> mm_state \<Rightarrow> bool \<times> mm_state" where
  "SetRegionFlags pml4 StartAddr EndAddr flags s =
     (let StartAddr = StartAddr AND NOT 0xFFF; EndAddr = (EndAddr + 0xFFF) AND NOT 0xFFF in
      if StartAddr < EndAddr then set_region (unat (EndAddr - StartAddr) div 4096) pml4 StartAddr flags s
      else (True, s))"

section \<open>The table tree\<close>

text \<open>The table the hardware walk for \<open>va\<close> reaches at depth \<open>d\<close>.\<close>

primrec walk :: "ram \<Rightarrow> u64 \<Rightarrow> nat \<Rightarrow> u64 \<Rightarrow> u64 option" where
  "walk m r 0 va = Some r"
| "walk m r (Suc d) va =
     (case walk m r d va of
        None \<Rightarrow> None
      | Some t \<Rightarrow>
          let e = load_entry m t (pt_index d va) in
          if present e \<and> (d = 0 \<or> \<not> huge e) then Some (e AND PAGE_ADDR_MASK) else None)"

definition same_prefix :: "nat \<Rightarrow> u64 \<Rightarrow> u64 \<Rightarrow> bool" where
  "same_prefix d va va' \<longleftrightarrow> (\<forall>j < d. pt_index j va = pt_index j va')"

text \<open>Every table has one parent entry, and no table frame is a free frame of the allocator.\<close>

definition pt_tree :: "ram \<Rightarrow> u64 \<Rightarrow> bool" where
  "pt_tree m r \<longleftrightarrow> aligned 4096 r \<and>
     (\<forall>d d' va va' t. d \<le> 3 \<and> d' \<le> 3 \<and> walk m r d va = Some t \<and> walk m r d' va' = Some t \<longrightarrow>
        d = d' \<and> same_prefix d va va')"

definition tables_owned :: "mm_state \<Rightarrow> u64 \<Rightarrow> bool" where
  "tables_owned s r \<longleftrightarrow> (\<forall>d va t. d \<le> 3 \<and> walk (mem s) r d va = Some t \<longrightarrow> frame_used (frames s) (unat t div 4096))"

definition wf_paging :: "mm_state \<Rightarrow> u64 \<Rightarrow> bool" where
  "wf_paging s r \<longleftrightarrow> wf_phys (frames s) \<and> pt_tree (mem s) r \<and> tables_owned s r"

lemma pt_index_less [simp]: "pt_index d va < 512"
proof -
  have "unat (drop_bit (39 - 9 * d) va AND mask 9) < 512" by (simp add: unat_and_mask)
  then show ?thesis by (simp add: pt_index_def mask_eq_exp_minus_1)
qed

lemma addr_mask_aligned [simp]: "aligned 4096 (e AND PAGE_ADDR_MASK)"
proof -
  have "e AND PAGE_ADDR_MASK = (e AND mask 52) AND NOT (mask 12)"
    by (simp add: mask_eq_exp_minus_1 and.assoc)
  then show ?thesis by (simp add: aligned_def unat_and_not_mask)
qed

lemma walk_aligned: "aligned 4096 r \<Longrightarrow> walk m r d va = Some t \<Longrightarrow> aligned 4096 t"
  by (cases d) (auto simp: Let_def split: option.splits if_splits)

lemma same_prefix_Suc: "same_prefix (Suc d) va va' \<longleftrightarrow> same_prefix d va va' \<and> pt_index d va = pt_index d va'"
  by (auto simp: same_prefix_def less_Suc_eq)

lemma same_prefix_refl [simp]: "same_prefix d va va"
  by (simp add: same_prefix_def)

lemma walk_prefix: "same_prefix d va va' \<Longrightarrow> walk m r d va = walk m r d va'"
  by (induction d) (auto simp: same_prefix_Suc split: option.splits)

lemma pt_tree_aligned: "pt_tree m r \<Longrightarrow> aligned 4096 r"
  by (simp add: pt_tree_def)

lemma walk_tree_unique:
  "pt_tree m r \<Longrightarrow> d \<le> 3 \<Longrightarrow> d' \<le> 3 \<Longrightarrow> walk m r d va = Some t \<Longrightarrow> walk m r d' va' = Some t \<Longrightarrow>
    d = d' \<and> same_prefix d va va'"
  unfolding pt_tree_def by blast

text \<open>Two memories that agree, for every table on the path of \<open>va\<close>, on what the walk reads.\<close>

definition same_view :: "u64 \<Rightarrow> u64 \<Rightarrow> bool" where
  "same_view e e' \<longleftrightarrow> present e = present e' \<and> huge e = huge e' \<and> e AND PAGE_ADDR_MASK = e' AND PAGE_ADDR_MASK"

lemma same_view_refl [simp]: "same_view e e"
  by (simp add: same_view_def)

lemma walk_cong:
  assumes "\<And>d' t. d' < d \<Longrightarrow> walk m r d' va = Some t \<Longrightarrow>
    same_view (load_entry m t (pt_index d' va)) (load_entry m' t (pt_index d' va))"
  shows "walk m' r d va = walk m r d va"
  using assms by (induction d) (auto simp: same_view_def Let_def split: option.splits)

text \<open>Translation as a recursion over the remaining levels, started at any table of the path.\<close>

primrec translate_from :: "ram \<Rightarrow> nat \<Rightarrow> u64 \<Rightarrow> u64 \<Rightarrow> u64" where
  "translate_from m 0 t va = 0"
| "translate_from m (Suc n) t va =
     (let d = 3 - n; e = load_entry m t (pt_index d va) in
      if \<not> present e then 0
      else if n = 0 \<or> d \<noteq> 0 \<and> huge e then (e AND PAGE_ADDR_MASK) + (va AND mask (12 + 9 * n))
      else translate_from m n (e AND PAGE_ADDR_MASK) va)"

lemma GetPhysicalAddress_rec: "GetPhysicalAddress m r va = translate_from m 4 r va"
  by (simp add: GetPhysicalAddress_def numeral_eq_Suc mask_eq_exp_minus_1 Let_def)

lemma translate_at:
  assumes "walk m r d va = Some t" and "d \<le> 3"
  shows "GetPhysicalAddress m r va = translate_from m (4 - d) t va"
  using assms
proof (induction d arbitrary: t)
  case 0
  then show ?case by (simp add: GetPhysicalAddress_rec)
next
  case (Suc d)
  then obtain t' where t': "walk m r d va = Some t'" "present (load_entry m t' (pt_index d va))"
    "d = 0 \<or> \<not> huge (load_entry m t' (pt_index d va))" "t = load_entry m t' (pt_index d va) AND PAGE_ADDR_MASK"
    by (auto simp: Let_def split: option.splits if_splits)
  moreover have "4 - d = Suc (4 - Suc d)" "3 - (4 - Suc d) = d" "4 - Suc d \<noteq> 0" using Suc.prems(2) by auto
  ultimately show ?case using Suc by (auto simp: Let_def)
qed

lemma translate_absent:
  assumes "walk m r d va = Some t" and "d \<le> 3" and "\<not> present (load_entry m t (pt_index d va))"
  shows "GetPhysicalAddress m r va = 0"
proof -
  have "4 - d = Suc (3 - d)" "3 - (3 - d) = d" using assms(2) by auto
  with translate_at [OF assms(1,2)] assms(3) show ?thesis by (simp add: Let_def)
qed

lemma translate_cong:
  assumes "\<And>d t. d \<le> 3 \<Longrightarrow> walk m r d va = Some t \<Longrightarrow>
    same_view (load_entry m t (pt_index d va)) (load_entry m' t (pt_index d va))"
  shows "GetPhysicalAddress m' r va = GetPhysicalAddress m r va"
proof -
  have "translate_from m' n t va = translate_from m n t va" if "n \<le> 4" "n \<noteq> 0 \<Longrightarrow> walk m r (4 - n) va = Some t" for n t
    using that
  proof (induction n arbitrary: t)
    case 0
    then show ?case by simp
  next
    case (Suc n)
    define e where "e = load_entry m t (pt_index (3 - n) va)"
    have w: "walk m r (3 - n) va = Some t" using Suc.prems by simp
    have v: "same_view e (load_entry m' t (pt_index (3 - n) va))"
      unfolding e_def by (rule assms) (use w in auto)
    have "translate_from m' n (e AND PAGE_ADDR_MASK) va = translate_from m n (e AND PAGE_ADDR_MASK) va"
      if "present e" "n \<noteq> 0" "3 - n = 0 \<or> \<not> huge e"
    proof (rule Suc.IH)
      have "4 - n = Suc (3 - n)" using Suc.prems(1) by simp
      with that w show "walk m r (4 - n) va = Some (e AND PAGE_ADDR_MASK)" by (simp add: e_def Let_def)
    qed (use Suc.prems in simp)
    with v show ?case by (auto simp: e_def [symmetric] same_view_def Let_def)
  qed
  from this [of 4 r] show ?thesis by (simp add: GetPhysicalAddress_rec)
qed

section \<open>Entries\<close>

lemma present_bit: "present e \<longleftrightarrow> bit e 0"
  by (simp add: present_def bit_iff_and_push_bit_not_eq_0)

lemma huge_bit: "huge e \<longleftrightarrow> bit e 7"
  by (simp add: huge_def bit_iff_and_push_bit_not_eq_0)

lemma bit_addr_mask: "bit PAGE_ADDR_MASK n \<longleftrightarrow> 12 \<le> n \<and> n < 52"
proof -
  have "PAGE_ADDR_MASK = mask 52 AND NOT (mask 12)" by (simp add: mask_eq_exp_minus_1)
  then show ?thesis by (auto simp only: bit_simps) auto
qed

lemma same_view_rw [simp]: "same_view e (e OR PAGE_RW)"
proof -
  have rw: "bit PAGE_RW n \<longleftrightarrow> n = 1" for n using bit_exp_iff [of 1 n, where ?'a = "64 word"] by auto
  have "e AND PAGE_ADDR_MASK = (e OR PAGE_RW) AND PAGE_ADDR_MASK"
    by (rule bit_word_eqI) (auto simp only: bit_and_iff bit_or_iff bit_addr_mask rw)
  then show ?thesis by (simp only: same_view_def present_bit huge_bit bit_or_iff rw) simp
qed

lemma aligned_low_bits: "aligned 4096 p \<Longrightarrow> n < 12 \<Longrightarrow> \<not> bit p n"
proof -
  assume "aligned 4096 p" and "n < 12"
  then have "unat p = unat p div 2 ^ 12 * 2 ^ 12" by (auto simp: aligned_def)
  then have "p AND NOT (mask 12) = p" by (metis unat_and_not_mask word_unat_eqI)
  moreover have "\<not> bit (p AND NOT (mask 12)) n" using \<open>n < 12\<close> by (simp add: bit_simps)
  ultimately show ?thesis by metis
qed

lemma small_high_bits: "unat p < 2 ^ 52 \<Longrightarrow> bit p n \<Longrightarrow> n < 52" for p :: u64
proof (rule ccontr)
  assume "unat p < 2 ^ 52" and "bit p n" and "\<not> n < 52"
  then have "p = p AND mask 52" by (intro word_unat_eqI) (simp add: unat_and_mask)
  then have "bit (p AND mask 52) n" using \<open>bit p n\<close> by metis
  with \<open>\<not> n < 52\<close> show False by (simp add: bit_and_iff bit_mask_iff)
qed

text \<open>A frame address combined with flag bits outside the address field.\<close>

lemma entry_fields:
  assumes "aligned 4096 p" and "unat p < 2 ^ 52" and "flags AND PAGE_ADDR_MASK = 0"
  shows "(p OR flags) AND PAGE_ADDR_MASK = p" "present (p OR flags) = present flags" "huge (p OR flags) = huge flags"
proof -
  have fl: "\<not> bit flags n" if "12 \<le> n" "n < 52" for n
  proof -
    have "bit (flags AND PAGE_ADDR_MASK) n = False" using assms(3) by simp
    with that show ?thesis by (simp only: bit_and_iff bit_addr_mask) simp
  qed
  show "(p OR flags) AND PAGE_ADDR_MASK = p"
  proof (rule bit_word_eqI)
    fix n
    have "bit p n \<Longrightarrow> 12 \<le> n \<and> n < 52"
      using aligned_low_bits [OF assms(1), of n] small_high_bits [OF assms(2), of n] by linarith
    then show "bit ((p OR flags) AND PAGE_ADDR_MASK) n = bit p n"
      using fl [of n] by (simp only: bit_and_iff bit_or_iff bit_addr_mask) blast
  qed
  show "present (p OR flags) = present flags" "huge (p OR flags) = huge flags"
    using aligned_low_bits [OF assms(1)] by (simp_all add: present_bit huge_bit bit_simps)
qed

section \<open>Creating a table\<close>

lemma alloc_frame_cases:
  assumes "wf_phys fr"
  obtains (full) "PhysicalAllocPages 1 fr = Some (0, fr)"
  | (found) f fr' where "PhysicalAllocPages 1 fr = Some (f, fr')" "f \<noteq> 0" "aligned 4096 f" "unat f < 2 ^ 52"
      "\<not> frame_used fr (unat f div 4096)" "wf_phys fr'"
      "\<And>g. frame_used fr' g \<longleftrightarrow> g = unat f div 4096 \<or> frame_used fr g"
  using assms
proof (cases rule: alloc_pages_cases [where count = 1])
  case refused
  then show thesis using full by simp
next
  case full
  then show thesis using that(1) by simp
next
  case (found i s')
  then have u: "unat (PHYS_BASE + of_nat i * PAGE_SIZE) = (256 + i) * 4096"
    by (intro unat_frame_addr) simp
  have "\<not> frame_used fr (256 + i)" using found(4) by (simp add: free_run_def)
  moreover have "frame_used s' g \<longleftrightarrow> g = 256 + i \<or> frame_used fr g" for g using found(6) [of g] by auto
  ultimately show thesis using that(2) [OF found(3) frame_addr_nonzero] found u
    by (simp add: aligned_def)
qed

lemma pt_tree_cong: "(\<And>d va. d \<le> 3 \<Longrightarrow> walk m' r d va = walk m r d va) \<Longrightarrow> pt_tree m r \<Longrightarrow> pt_tree m' r"
  unfolding pt_tree_def by (metis (full_types))

lemma wf_paging_cong:
  "(\<And>d va. d \<le> 3 \<Longrightarrow> walk (mem s') r d va = walk (mem s) r d va) \<Longrightarrow> frames s' = frames s \<Longrightarrow>
   wf_paging s r \<Longrightarrow> wf_paging s' r"
  using pt_tree_cong [of "mem s'" r "mem s"] by (auto simp: wf_paging_def tables_owned_def)

text \<open>Linking a fresh zeroed frame below a non-present entry: only walks through that entry change,
  and they find an empty table.\<close>

lemma link_table:
  assumes tree: "pt_tree m r" and w: "walk m r d va0 = Some t" and d: "d < 3"
    and np: "\<not> present (load_entry m t (pt_index d va0))"
    and f: "aligned 4096 f" "unat f < 2 ^ 52" and fresh: "\<And>d va. d \<le> 3 \<Longrightarrow> walk m r d va \<noteq> Some f"
  defines "m' \<equiv> store_entry (zero_page m f) t (pt_index d va0) (f OR PAGE_PRESENT OR PAGE_RW OR PAGE_USER)"
  shows "walk m' r (Suc d) va0 = Some f"
    and "\<And>d' va. d' \<le> 3 \<Longrightarrow> walk m' r d' va =
      (if d < d' \<and> same_prefix (Suc d) va0 va then (if d' = Suc d then Some f else None) else walk m r d' va)"
    and "\<And>va. GetPhysicalAddress m' r va = GetPhysicalAddress m r va"
proof -
  have r: "aligned 4096 r" using tree by (simp add: pt_tree_def)
  have ta: "aligned 4096 t" by (rule walk_aligned [OF r w])
  have tf: "t \<noteq> f" using fresh [of d va0] w d by auto
  have load: "load_entry m' t' i = (if t' = t \<and> i = pt_index d va0 then f OR PAGE_PRESENT OR PAGE_RW OR PAGE_USER
      else if t' = f then 0 else load_entry m t' i)" if "aligned 4096 t'" "i < 512" for t' i
    using that ta f(1) by (auto simp: m'_def load_store_entry load_zero_page)
  have e: "(f OR PAGE_PRESENT OR PAGE_RW OR PAGE_USER) AND PAGE_ADDR_MASK = f"
    "present (f OR PAGE_PRESENT OR PAGE_RW OR PAGE_USER)" "\<not> huge (f OR PAGE_PRESENT OR PAGE_RW OR PAGE_USER)"
    using entry_fields [OF f, of "PAGE_PRESENT OR PAGE_RW OR PAGE_USER"] by (simp_all add: present_def huge_def)
  have same: "load_entry m' t' (pt_index d' va) = load_entry m t' (pt_index d' va)"
    if "d' \<le> 3" "walk m r d' va = Some t'" "d' \<noteq> d \<or> \<not> same_prefix (Suc d) va0 va" for d' va t'
  proof -
    have "t' \<noteq> f" "aligned 4096 t'" using fresh [OF that(1), of va] that(2) walk_aligned [OF r that(2)] by auto
    moreover have "\<not> (t' = t \<and> pt_index d' va = pt_index d va0)"
      using walk_tree_unique [OF tree _ that(1) w, of va] that d by (auto simp: same_prefix_Suc)
    ultimately show ?thesis by (auto simp: load)
  qed
  have off: "walk m' r d' va = walk m r d' va" if "d' \<le> 3" "d' \<le> d \<or> \<not> same_prefix (Suc d) va0 va" for d' va
    by (rule walk_cong) (use that same in auto)
  have hit: "walk m' r (Suc d) va = Some f" if "same_prefix (Suc d) va0 va" for va
  proof -
    have "walk m' r d va = Some t" using off [of d va] walk_prefix [of d va0 va m r] that w d by (simp add: same_prefix_Suc)
    moreover have "load_entry m' t (pt_index d va) = f OR PAGE_PRESENT OR PAGE_RW OR PAGE_USER"
      using that load [OF ta, of "pt_index d va0"] by (simp add: same_prefix_Suc)
    ultimately show ?thesis using e by (simp add: Let_def)
  qed
  then show "walk m' r (Suc d) va0 = Some f" by simp
  have empty: "\<not> present (load_entry m' f i)" if "i < 512" for i
    using load [OF f(1) that] tf by (auto simp: present_def)
  have below: "walk m' r (Suc (Suc d)) va = None" if "same_prefix (Suc d) va0 va" for va
    using hit [OF that] empty [of "pt_index (Suc d) va"] by (simp add: Let_def)
  show "walk m' r d' va =
      (if d < d' \<and> same_prefix (Suc d) va0 va then (if d' = Suc d then Some f else None) else walk m r d' va)"
    if "d' \<le> 3" for d' va
  proof (cases "d < d' \<and> same_prefix (Suc d) va0 va")
    case False
    then show ?thesis using off [OF that] by auto
  next
    case True
    have "walk m' r (Suc (Suc d) + k) va = None" for k using below True by (induction k) auto
    then have "walk m' r d' va = None" if "Suc d < d'" using that by (metis Suc_leI le_iff_add)
    with True hit show ?thesis by (cases "d' = Suc d") auto
  qed
  show "GetPhysicalAddress m' r va = GetPhysicalAddress m r va" for va
  proof (cases "same_prefix (Suc d) va0 va")
    case False
    show ?thesis by (rule translate_cong) (use False same in auto)
  next
    case True
    then have "walk m r d va = Some t" "pt_index d va = pt_index d va0"
      using w walk_prefix [of d va0 va] by (auto simp: same_prefix_Suc)
    then have "GetPhysicalAddress m r va = 0"
      using translate_absent [of m r d va t] np d by simp
    moreover have "GetPhysicalAddress m' r va = 0"
      using translate_absent [OF hit [OF True]] empty [of "pt_index (Suc d) va"] d by simp
    ultimately show ?thesis by simp
  qed
qed

lemma link_table_tree:
  assumes "pt_tree m r" and "walk m r d va0 = Some t" and "d < 3"
    and "\<not> present (load_entry m t (pt_index d va0))"
    and "aligned 4096 f" "unat f < 2 ^ 52" and "\<And>d va. d \<le> 3 \<Longrightarrow> walk m r d va \<noteq> Some f"
  shows "pt_tree (store_entry (zero_page m f) t (pt_index d va0) (f OR PAGE_PRESENT OR PAGE_RW OR PAGE_USER)) r"
    (is "pt_tree ?m' r")
proof -
  note w = link_table(2) [OF assms]
  have "d1 = d2 \<and> same_prefix d1 v1 v2"
    if "d1 \<le> 3" "d2 \<le> 3" "walk ?m' r d1 v1 = Some t'" "walk ?m' r d2 v2 = Some t'" for d1 d2 v1 v2 t'
  proof (cases "t' = f")
    case True
    with that w [of d1 v1] w [of d2 v2] assms(7) have
      "d1 = Suc d" "d2 = Suc d" "same_prefix (Suc d) va0 v1" "same_prefix (Suc d) va0 v2"
      by (auto split: if_splits)
    then show ?thesis by (auto simp: same_prefix_def)
  next
    case False
    with that w have "walk m r d1 v1 = Some t'" "walk m r d2 v2 = Some t'" by (auto split: if_splits)
    with walk_tree_unique [OF assms(1) that(1,2)] show ?thesis by blast
  qed
  then show ?thesis using assms(1) unfolding pt_tree_def by blast
qed

lemma load_store_rw:
  assumes "aligned 4096 r" and "walk m r d va = Some t" and "aligned 4096 t'" and "i < 512"
  shows "same_view (load_entry m t' i)
    (load_entry (store_entry m t (pt_index d va) (load_entry m t (pt_index d va) OR PAGE_RW)) t' i)"
  using walk_aligned [OF assms(1,2)] assms(3,4) by (auto simp: load_store_entry)

lemma ensure_table_spec:
  assumes wf: "wf_paging s r" and w: "walk (mem s) r d va = Some t" and d: "d < 3"
  shows "\<exists>out s'. ensure_table (d \<noteq> 0) t (pt_index d va) s = Some (out, s') \<and> wf_paging s' r \<and>
    (\<forall>v. GetPhysicalAddress (mem s') r v = GetPhysicalAddress (mem s) r v) \<and>
    interrupts s' = interrupts s \<and> pool s' = pool s \<and>
    (\<forall>t'. out = Table t' \<longrightarrow> walk (mem s') r (Suc d) va = Some t') \<and> (out = HugeEntry \<longrightarrow> d \<noteq> 0)"
proof -
  define e where "e = load_entry (mem s) t (pt_index d va)"
  have r: "aligned 4096 r" and tree: "pt_tree (mem s) r" and ph: "wf_phys (frames s)"
    and own: "\<And>d v t. d \<le> 3 \<Longrightarrow> walk (mem s) r d v = Some t \<Longrightarrow> frame_used (frames s) (unat t div 4096)"
    using wf by (auto simp: wf_paging_def tables_owned_def dest: pt_tree_aligned)
  consider (new) "\<not> present e" | (ps) "present e" "d \<noteq> 0" "huge e" | (rw) "present e" "d = 0 \<or> \<not> huge e" by fastforce
  then show ?thesis
  proof cases
    case new
    from ph show ?thesis
    proof (cases rule: alloc_frame_cases)
      case full
      with new wf show ?thesis by (simp add: ensure_table_def e_def Let_def)
    next
      case (found f fr)
      have fresh: "walk (mem s) r d' v \<noteq> Some f" if "d' \<le> 3" for d' v using own [OF that, of v f] found(5) by auto
      note lt = link_table [OF tree w d new [unfolded e_def] found(3,4) fresh]
        and lt_tree = link_table_tree [OF tree w d new [unfolded e_def] found(3,4) fresh]
      let ?m' = "store_entry (zero_page (mem s) f) t (pt_index d va) (f OR PAGE_PRESENT OR PAGE_RW OR PAGE_USER)"
      have "wf_paging (s\<lparr>frames := fr, mem := ?m'\<rparr>) r"
        using lt(2) lt_tree own found(6,7) by (auto simp: wf_paging_def tables_owned_def split: if_splits)
      with new found(1,2) lt(1,3) show ?thesis by (simp add: ensure_table_def e_def Let_def del: walk.simps)
    qed
  next
    case ps
    with wf show ?thesis by (simp add: ensure_table_def e_def Let_def)
  next
    case rw
    define s' where "s' = (if e AND PAGE_RW = 0 then s\<lparr>mem := store_entry (mem s) t (pt_index d va) (e OR PAGE_RW)\<rparr> else s)"
    have view: "same_view (load_entry (mem s) t' i) (load_entry (mem s') t' i)" if "aligned 4096 t'" "i < 512" for t' i
      using load_store_rw [OF r w that] by (simp add: s'_def e_def)
    have walks: "walk (mem s') r d' v = walk (mem s) r d' v" for d' v
      by (rule walk_cong) (use view walk_aligned [OF r] in auto)
    have "GetPhysicalAddress (mem s') r v = GetPhysicalAddress (mem s) r v" for v
      by (rule translate_cong) (use view walk_aligned [OF r] in auto)
    moreover have "wf_paging s' r" by (rule wf_paging_cong [OF _ _ wf]) (use walks in \<open>auto simp: s'_def\<close>)
    moreover have "walk (mem s) r (Suc d) va = Some (e AND PAGE_ADDR_MASK)" using rw w by (simp add: e_def Let_def)
    moreover have "ensure_table (d \<noteq> 0) t (pt_index d va) s = Some (Table (e AND PAGE_ADDR_MASK), s')"
      using rw by (auto simp: ensure_table_def e_def s'_def Let_def)
    moreover have "interrupts s' = interrupts s" "pool s' = pool s" by (auto simp: s'_def)
    ultimately show ?thesis using walks
      by (intro exI [of _ s'] exI [of _ "Table (e AND PAGE_ADDR_MASK)"]) (simp del: walk.simps)
  qed
qed

section \<open>Mapping\<close>

text \<open>Addresses whose four table indices agree: the same page of the 48-bit space.\<close>

definition same_page :: "u64 \<Rightarrow> u64 \<Rightarrow> bool" where
  "same_page va v \<longleftrightarrow> unat va mod 2 ^ 48 div 4096 = unat v mod 2 ^ 48 div 4096"

definition page_number :: "u64 \<Rightarrow> nat" where
  "page_number va = unat va mod 2 ^ 48 div 4096"

lemma pt_index_digit: "d \<le> 3 \<Longrightarrow> pt_index d va = page_number va div 512 ^ (3 - d) mod 512"
proof -
  assume d: "d \<le> 3"
  have "pt_index d va = unat (drop_bit (39 - 9 * d) va AND mask 9)" by (simp add: pt_index_def mask_eq_exp_minus_1)
  also have "\<dots> = take_bit 9 (drop_bit (39 - 9 * d) (unat va))"
    by (simp add: unat_and_mask unat_drop_bit_eq take_bit_eq_mod)
  also have "\<dots> = take_bit 9 (drop_bit (9 * (3 - d)) (drop_bit 12 (take_bit 48 (unat va))))"
    using d by (intro bit_eqI) (auto simp: bit_simps algebra_simps)
  finally show ?thesis
    by (simp add: page_number_def take_bit_eq_mod drop_bit_eq_div power_mult)
qed

lemma base512_digits:
  assumes "q < (2 :: nat) ^ 36" "q' < 2 ^ 36" and "q mod 512 = q' mod 512" "q div 512 mod 512 = q' div 512 mod 512"
    "q div 262144 mod 512 = q' div 262144 mod 512" "q div 134217728 mod 512 = q' div 134217728 mod 512"
  shows "q = q'"
proof -
  have up: "a = b" if "a div 512 = b div 512" "a mod 512 = b mod 512" for a b :: nat
    using that by (metis div_mult_mod_eq)
  have "q div 134217728 < 512" "q' div 134217728 < 512" using assms(1,2) by (auto intro: less_mult_imp_div_less)
  then have "q div 134217728 = q' div 134217728" using assms(6) by (simp only: mod_less)
  moreover have "x div 262144 div 512 = x div 134217728" "x div 512 div 512 = x div 262144" for x :: nat
    by (simp_all add: div_mult2_eq [symmetric])
  ultimately have "q div 512 div 512 = q' div 512 div 512" using up [OF _ assms(5)] by metis
  from up [OF up [OF this assms(4)] assms(3)] show ?thesis .
qed

lemma same_page_prefix: "same_page va v \<longleftrightarrow> same_prefix 4 va v"
proof
  assume "same_page va v"
  then show "same_prefix 4 va v" by (simp add: same_prefix_def same_page_def pt_index_digit page_number_def)
next
  assume "same_prefix 4 va v"
  then have "pt_index 0 va = pt_index 0 v" "pt_index 1 va = pt_index 1 v" "pt_index 2 va = pt_index 2 v"
    "pt_index 3 va = pt_index 3 v" by (auto simp: same_prefix_def)
  then have "page_number va div 134217728 mod 512 = page_number v div 134217728 mod 512"
    "page_number va div 262144 mod 512 = page_number v div 262144 mod 512"
    "page_number va div 512 mod 512 = page_number v div 512 mod 512" "page_number va mod 512 = page_number v mod 512"
    by (auto simp: pt_index_digit)
  moreover have "page_number x < 2 ^ 36" for x unfolding page_number_def by (rule less_mult_imp_div_less) simp
  ultimately have "page_number va = page_number v" by (metis base512_digits)
  then show "same_page va v" by (simp add: same_page_def page_number_def)
qed

text \<open>Writing the last-level entry of \<open>va\<close>.\<close>

lemma store_leaf:
  fixes e :: u64
  assumes tree: "pt_tree m r" and w: "walk m r 3 va = Some pt"
  defines "m' \<equiv> store_entry m pt (pt_index 3 va) e"
  shows "\<And>d v. d \<le> 3 \<Longrightarrow> walk m' r d v = walk m r d v"
    and "\<And>v. \<not> same_prefix 4 va v \<Longrightarrow> GetPhysicalAddress m' r v = GetPhysicalAddress m r v"
    and "\<And>v. same_prefix 4 va v \<Longrightarrow> GetPhysicalAddress m' r v =
      (if present e then (e AND PAGE_ADDR_MASK) + (v AND (PAGE_SIZE - 1)) else 0)"
proof -
  note r = pt_tree_aligned [OF tree]
  have pa: "aligned 4096 pt" by (rule walk_aligned [OF r w])
  have load: "load_entry m' t (pt_index d v) = (if t = pt \<and> pt_index d v = pt_index 3 va then e else load_entry m t (pt_index d v))"
    if "walk m r d v = Some t" for t d v
    using pa walk_aligned [OF r that] by (auto simp: m'_def load_store_entry)
  have same: "load_entry m' t (pt_index d v) = load_entry m t (pt_index d v)"
    if "d \<le> 3" "walk m r d v = Some t" "d < 3 \<or> \<not> same_prefix 4 va v" for d v t
    using load [OF that(2)] walk_tree_unique [OF tree _ that(1) w, of v] that
    by (auto simp: same_prefix_Suc numeral_eq_Suc)
  show walks: "walk m' r d v = walk m r d v" if "d \<le> 3" for d v
    by (rule walk_cong) (use that same in auto)
  show "GetPhysicalAddress m' r v = GetPhysicalAddress m r v" if "\<not> same_prefix 4 va v" for v
    by (rule translate_cong) (use that same in auto)
  show "GetPhysicalAddress m' r v = (if present e then (e AND PAGE_ADDR_MASK) + (v AND (PAGE_SIZE - 1)) else 0)"
    if "same_prefix 4 va v" for v
  proof -
    have p: "same_prefix 3 va v" "pt_index 3 v = pt_index 3 va"
      using that by (auto simp: same_prefix_Suc numeral_eq_Suc)
    then have "walk m r 3 v = Some pt" using w walk_prefix by metis
    moreover from this have "load_entry m' pt (pt_index 3 v) = e" using load [of 3 v pt] p(2) by simp
    ultimately show ?thesis using translate_at [of m' r 3 v pt] walks by (simp add: Let_def mask_eq_exp_minus_1)
  qed
qed

lemma map_page_spec:
  assumes wf: "wf_paging s r"
  shows "\<exists>out s'. map_page r phys va flags s = Some (out, s') \<and> wf_paging s' r \<and>
    interrupts s' = interrupts s \<and> pool s' = pool s \<and>
    (\<forall>v. GetPhysicalAddress (mem s') r v =
      (if out = Mapped \<and> same_page va v
       then if present (phys OR flags) then ((phys OR flags) AND PAGE_ADDR_MASK) + (v AND (PAGE_SIZE - 1)) else 0
       else GetPhysicalAddress (mem s) r v))"
proof -
  from ensure_table_spec [OF wf, of 0 va] obtain o0 s0 where
    e0: "ensure_table False r (pt_index 0 va) s = Some (o0, s0)" and wf0: "wf_paging s0 r"
    and tr0: "\<And>v. GetPhysicalAddress (mem s0) r v = GetPhysicalAddress (mem s) r v"
    and fr0: "interrupts s0 = interrupts s" "pool s0 = pool s" "o0 \<noteq> HugeEntry"
    and w0: "\<And>t. o0 = Table t \<Longrightarrow> walk (mem s0) r 1 va = Some t"
    by (auto simp del: walk.simps(2))
  show ?thesis
  proof (cases o0)
    case (Table pdpt)
    from ensure_table_spec [OF wf0 w0 [OF Table]] obtain o1 s1 where
      e1: "ensure_table True pdpt (pt_index 1 va) s0 = Some (o1, s1)" and wf1: "wf_paging s1 r"
      and tr1: "\<And>v. GetPhysicalAddress (mem s1) r v = GetPhysicalAddress (mem s0) r v"
      and fr1: "interrupts s1 = interrupts s0" "pool s1 = pool s0"
      and w1: "\<And>t. o1 = Table t \<Longrightarrow> walk (mem s1) r 2 va = Some t"
      by (auto simp: numeral_2_eq_2 simp del: walk.simps(2))
    show ?thesis
    proof (cases o1)
      case T1: (Table pd)
      from ensure_table_spec [OF wf1 w1 [OF T1]] obtain o2 s2 where
        e2: "ensure_table True pd (pt_index 2 va) s1 = Some (o2, s2)" and wf2: "wf_paging s2 r"
        and tr2: "\<And>v. GetPhysicalAddress (mem s2) r v = GetPhysicalAddress (mem s1) r v"
        and fr2: "interrupts s2 = interrupts s1" "pool s2 = pool s1"
        and w2: "\<And>t. o2 = Table t \<Longrightarrow> walk (mem s2) r 3 va = Some t"
        by (auto simp: numeral_3_eq_3 numeral_2_eq_2 simp del: walk.simps(2))
      show ?thesis
      proof (cases o2)
        case T2: (Table pt)
        define s3 where "s3 = s2\<lparr>mem := store_entry (mem s2) pt (pt_index 3 va) (phys OR flags)\<rparr>"
        have tree: "pt_tree (mem s2) r" using wf2 by (simp add: wf_paging_def)
        note leaf = store_leaf [OF tree w2 [OF T2], where e = "phys OR flags", folded same_page_prefix]
        have "wf_paging s3 r" by (rule wf_paging_cong [OF _ _ wf2]) (use leaf(1) in \<open>auto simp: s3_def\<close>)
        moreover have "map_page r phys va flags s = Some (Mapped, s3)"
          using e0 e1 e2 Table T1 T2 by (simp add: map_page_def s3_def)
        ultimately show ?thesis using leaf(2,3) tr0 tr1 tr2 fr0 fr1 fr2
          by (intro exI [of _ Mapped] exI [of _ s3]) (simp add: s3_def)
      qed (use e0 e1 e2 Table T1 wf2 tr0 tr1 tr2 fr0 fr1 fr2 in \<open>simp_all add: map_page_def\<close>)
    qed (use e0 e1 Table wf1 tr0 tr1 fr0 fr1 in \<open>simp_all add: map_page_def\<close>)
  qed (use e0 wf0 tr0 fr0 in \<open>simp_all add: map_page_def\<close>)
qed

lemma map_loop_spec:
  assumes "wf_paging s r"
  shows "\<exists>out s'. map_loop n r phys virt flags I s = Some (out, s') \<and> wf_paging s' r \<and>
    interrupts s' = interrupts s \<and> pool s' = pool s \<and>
    (\<forall>v. (\<forall>j < n. \<not> same_page (virt + (I + of_nat j) * PAGE_SIZE) v) \<longrightarrow>
      GetPhysicalAddress (mem s') r v = GetPhysicalAddress (mem s) r v) \<and>
    (out = Mapped \<longrightarrow> present flags \<longrightarrow> (\<forall>j < n. \<forall>v. same_page (virt + (I + of_nat j) * PAGE_SIZE) v \<longrightarrow>
      (\<forall>k < n. same_page (virt + (I + of_nat k) * PAGE_SIZE) v \<longrightarrow> k = j) \<longrightarrow>
      GetPhysicalAddress (mem s') r v =
        (((phys + (I + of_nat j) * PAGE_SIZE) OR flags) AND PAGE_ADDR_MASK) + (v AND (PAGE_SIZE - 1))))"
  using assms
proof (induction n arbitrary: I s)
  case 0
  then show ?case by simp
next
  case (Suc n)
  define va where "va = virt + I * PAGE_SIZE"
  define e where "e = (phys + I * PAGE_SIZE) OR flags"
  obtain out s1 where mp: "map_page r (phys + I * PAGE_SIZE) va flags s = Some (out, s1)" "wf_paging s1 r"
    "interrupts s1 = interrupts s" "pool s1 = pool s"
    and tr: "\<And>v. GetPhysicalAddress (mem s1) r v = (if out = Mapped \<and> same_page va v
       then if present e then (e AND PAGE_ADDR_MASK) + (v AND (PAGE_SIZE - 1)) else 0
       else GetPhysicalAddress (mem s) r v)"
    using map_page_spec [OF Suc.prems, of "phys + I * PAGE_SIZE" va flags] by (auto simp: e_def)
  show ?case
  proof (cases "out = Mapped")
    case False
    then have "map_loop (Suc n) r phys virt flags I s = Some (out, s1)"
      unfolding map_loop.simps va_def [symmetric] mp(1) by (cases out) simp_all
    moreover have "GetPhysicalAddress (mem s1) r v = GetPhysicalAddress (mem s) r v" for v using tr [of v] False by simp
    ultimately show ?thesis using False mp(2-4) by blast
  next
    case True
    have shift: "I + 1 + of_nat j = I + of_nat (Suc j)" for j by simp
    from Suc.IH [OF mp(2), of "I + 1", unfolded shift] obtain out' s2 where
      IH: "map_loop n r phys virt flags (I + 1) s1 = Some (out', s2)" "wf_paging s2 r" "interrupts s2 = interrupts s1"
      "pool s2 = pool s1"
      and keep: "\<And>v. (\<And>j. j < n \<Longrightarrow> \<not> same_page (virt + (I + of_nat (Suc j)) * PAGE_SIZE) v) \<Longrightarrow>
        GetPhysicalAddress (mem s2) r v = GetPhysicalAddress (mem s1) r v"
      and new: "\<And>j v. out' = Mapped \<Longrightarrow> present flags \<Longrightarrow> j < n \<Longrightarrow> same_page (virt + (I + of_nat (Suc j)) * PAGE_SIZE) v \<Longrightarrow>
        (\<And>k. k < n \<Longrightarrow> same_page (virt + (I + of_nat (Suc k)) * PAGE_SIZE) v \<Longrightarrow> k = j) \<Longrightarrow>
        GetPhysicalAddress (mem s2) r v =
          (((phys + (I + of_nat (Suc j)) * PAGE_SIZE) OR flags) AND PAGE_ADDR_MASK) + (v AND (PAGE_SIZE - 1))"
      by blast
    have run: "map_loop (Suc n) r phys virt flags I s = Some (out', s2)"
      unfolding map_loop.simps va_def [symmetric] mp(1) True using IH(1) by simp
    have 1: "GetPhysicalAddress (mem s2) r v = GetPhysicalAddress (mem s) r v"
      if "\<forall>j < Suc n. \<not> same_page (virt + (I + of_nat j) * PAGE_SIZE) v" for v
    proof -
      have "\<not> same_page va v" using that [rule_format, of 0] by (simp add: va_def)
      moreover have "GetPhysicalAddress (mem s2) r v = GetPhysicalAddress (mem s1) r v"
        by (rule keep) (use that Suc_mono in blast)
      ultimately show ?thesis using tr [of v] by simp
    qed
    have 2: "GetPhysicalAddress (mem s2) r v =
        (((phys + (I + of_nat j) * PAGE_SIZE) OR flags) AND PAGE_ADDR_MASK) + (v AND (PAGE_SIZE - 1))"
      if "out' = Mapped" "present flags" "j < Suc n" "same_page (virt + (I + of_nat j) * PAGE_SIZE) v"
        "\<forall>k < Suc n. same_page (virt + (I + of_nat k) * PAGE_SIZE) v \<longrightarrow> k = j" for j v
    proof (cases j)
      case 0
      have "GetPhysicalAddress (mem s2) r v = GetPhysicalAddress (mem s1) r v"
        by (rule keep) (use that(5) 0 Suc_mono in blast)
      moreover have "present e" using that(2) by (simp add: e_def present_bit bit_or_iff)
      moreover have "same_page va v" using that(4) 0 by (simp add: va_def)
      ultimately show ?thesis using tr [of v] True 0 by (simp add: e_def)
    next
      case (Suc i)
      show ?thesis unfolding Suc
        by (rule new [OF that(1,2)]) (use that(3-5) Suc Suc_mono in blast)+
    qed
    have "interrupts s2 = interrupts s" "pool s2 = pool s" using IH(3,4) mp(3,4) by simp_all
    with run IH(2) 1 2 show ?thesis by blast
  qed
qed

lemma page_split: "off < 4096 \<Longrightarrow> (4096 * q + off) mod 4096 = off" for q off :: nat
  by (metis add.commute mod_less mod_mult_self2)

text \<open>Page \<open>i\<close> of a run that starts at an aligned address.\<close>

lemma run_page_number:
  assumes "aligned 4096 virt" and "off < 4096"
  shows "page_number (virt + of_nat i * PAGE_SIZE + of_nat off) = (unat virt div 4096 + i) mod 2 ^ 36"
proof -
  obtain q where q: "unat virt = 4096 * q" using assms(1) by (auto simp: aligned_def)
  have "unat (virt + of_nat i * PAGE_SIZE + of_nat off) = (unat virt + i * 4096 + off) mod 2 ^ 64"
    by (simp add: unat_word_ariths unat_of_nat take_bit_eq_mod mod_simps)
  then have "unat (virt + of_nat i * PAGE_SIZE + of_nat off) mod 2 ^ 48 = (4096 * (q + i) + off) mod 2 ^ 48"
    using q by (simp add: mod_mod_cancel algebra_simps)
  also have "\<dots> = 4096 * ((q + i) mod 2 ^ 36) + off"
  proof -
    have "(4096 * (q + i) + off) div 4096 = q + i" "(4096 * (q + i) + off) mod 4096 = off"
      using assms(2) page_split [of off "q + i"] by auto
    with mod_mult2_eq [of "4096 * (q + i) + off" 4096 "2 ^ 36"] show ?thesis by simp
  qed
  finally show ?thesis using assms(2) q by (simp add: page_number_def)
qed

lemma run_same_page:
  assumes "aligned 4096 virt" and "off < 4096" and "i < n" and "j < n" and "n \<le> 2 ^ 36"
  shows "same_page (virt + of_nat j * PAGE_SIZE) (virt + of_nat i * PAGE_SIZE + of_nat off) \<longleftrightarrow> j = i"
proof -
  have "same_page (virt + of_nat j * PAGE_SIZE) (virt + of_nat i * PAGE_SIZE + of_nat off) \<longleftrightarrow>
      (unat virt div 4096 + j) mod 2 ^ 36 = (unat virt div 4096 + i) mod 2 ^ 36"
    using run_page_number [OF assms(1,2), of i] run_page_number [OF assms(1), of 0 j]
    by (simp add: same_page_def page_number_def)
  also have "\<dots> \<longleftrightarrow> j mod 2 ^ 36 = i mod 2 ^ 36" unfolding nat_mod_eq_iff by simp
  finally show ?thesis using assms(3-5) by simp
qed

lemma wf_paging_interrupts: "wf_paging (s\<lparr>interrupts := b\<rparr>) r \<longleftrightarrow> wf_paging s r"
  by (simp add: wf_paging_def tables_owned_def)

lemma phys_page:
  assumes "aligned 4096 phys" and "unat phys + n * 4096 \<le> 2 ^ 52" and "i < n"
  shows "unat (phys + of_nat i * PAGE_SIZE) = unat phys + i * 4096 \<and> aligned 4096 (phys + of_nat i * PAGE_SIZE)"
proof -
  have "unat (of_nat i * PAGE_SIZE :: u64) = i * 4096"
    using assms(2,3) by (simp add: unat_mult_no_wrap unat_of_nat_u64)
  then have "unat (phys + of_nat i * PAGE_SIZE) = unat phys + i * 4096"
    using assms(2,3) by (simp add: unat_add_no_wrap)
  with assms(1) show ?thesis by (simp add: aligned_def)
qed

lemma run_offset:
  assumes "aligned 4096 virt" and "off < 4096"
  shows "(virt + of_nat i * PAGE_SIZE + of_nat off) AND (PAGE_SIZE - 1) = of_nat off"
proof (rule word_unat_eqI)
  obtain q where q: "unat virt = 4096 * q" using assms(1) by (auto simp: aligned_def)
  have "unat (virt + of_nat i * PAGE_SIZE + of_nat off) = (unat virt + i * 4096 + off) mod 2 ^ 64"
    by (simp add: unat_word_ariths unat_of_nat take_bit_eq_mod mod_simps)
  then have "unat (virt + of_nat i * PAGE_SIZE + of_nat off) mod 4096 = (4096 * (q + i) + off) mod 4096"
    using q by (simp add: mod_mod_cancel algebra_simps)
  then show "unat ((virt + of_nat i * PAGE_SIZE + of_nat off) AND (PAGE_SIZE - 1)) = unat (of_nat off :: u64)"
    using assms(2) page_split [OF assms(2), of "q + i"]
    by (simp only: page_mask unat_and_mask) (simp add: unat_of_nat_u64)
qed

text \<open>C21. Whenever \<^verbatim>\<open>MapPages\<close> reports success, every byte of the mapped range translates to the
  corresponding byte of the physical range, whatever was mapped before and however many tables had
  to be created.\<close>

theorem MapPages_translates:
  assumes "wf_paging s r" and "MapPages r phys virt count flags s = Some (True, s')"
    and "aligned 4096 virt" and "aligned 4096 phys" and "unat phys + unat count * 4096 \<le> 2 ^ 52"
    and "unat count \<le> 2 ^ 36" and "present flags" and "flags AND PAGE_ADDR_MASK = 0"
    and "i < unat count" and "off < 4096"
  shows "GetPhysicalAddress (mem s') r (virt + of_nat i * PAGE_SIZE + of_nat off) = phys + of_nat i * PAGE_SIZE + of_nat off"
proof -
  define v where "v = virt + of_nat i * PAGE_SIZE + of_nat off"
  obtain out s1 where run: "map_loop (unat count) r phys virt flags 0 (s\<lparr>interrupts := False\<rparr>) = Some (out, s1)"
    and tr: "out = Mapped \<Longrightarrow> j < unat count \<Longrightarrow> same_page (virt + of_nat j * PAGE_SIZE) v \<Longrightarrow>
      (\<forall>k < unat count. same_page (virt + of_nat k * PAGE_SIZE) v \<longrightarrow> k = j) \<Longrightarrow>
      GetPhysicalAddress (mem s1) r v =
        (((phys + of_nat j * PAGE_SIZE) OR flags) AND PAGE_ADDR_MASK) + (v AND (PAGE_SIZE - 1))" for j
    using map_loop_spec [of "s\<lparr>interrupts := False\<rparr>" r "unat count" phys virt flags 0] assms(1,7)
    unfolding wf_paging_interrupts add_0 by blast
  have out: "out = Mapped" "mem s' = mem s1"
    using assms(2) run by (auto simp: MapPages_def Let_def split: map_outcome.splits)
  have page: "unat (phys + of_nat i * PAGE_SIZE) = unat phys + i * 4096" "aligned 4096 (phys + of_nat i * PAGE_SIZE)"
    using phys_page [OF assms(4,5,9)] by auto
  have "((phys + of_nat i * PAGE_SIZE) OR flags) AND PAGE_ADDR_MASK = phys + of_nat i * PAGE_SIZE"
    using page assms(5,9) by (intro entry_fields(1) [OF _ _ assms(8)]) auto
  moreover have "v AND (PAGE_SIZE - 1) = of_nat off" unfolding v_def by (rule run_offset [OF assms(3,10)])
  moreover have "same_page (virt + of_nat i * PAGE_SIZE) v" "\<forall>k < unat count. same_page (virt + of_nat k * PAGE_SIZE) v \<longrightarrow> k = i"
    using run_same_page [OF assms(3,10,9) _ assms(6)] assms(9) unfolding v_def by blast+
  ultimately have "GetPhysicalAddress (mem s1) r v = phys + of_nat i * PAGE_SIZE + of_nat off"
    using tr [OF out(1) assms(9)] by simp
  then show ?thesis using out(2) by (simp only: v_def)
qed

lemma MapPages_defined:
  assumes "wf_paging s r"
  shows "\<exists>ok s'. MapPages r phys virt count flags s = Some (ok, s') \<and> wf_paging s' r \<and> pool s' = pool s"
proof -
  obtain out s1 where run: "map_loop (unat count) r phys virt flags 0 (s\<lparr>interrupts := False\<rparr>) = Some (out, s1)"
    and wf: "wf_paging s1 r" and po: "pool s1 = pool (s\<lparr>interrupts := False\<rparr>)"
    using map_loop_spec [of "s\<lparr>interrupts := False\<rparr>" r "unat count" phys virt flags 0] assms
    unfolding wf_paging_interrupts add_0 by blast
  show ?thesis by (cases out) (use run wf po in \<open>simp_all add: MapPages_def wf_paging_interrupts Let_def\<close>, blast+)
qed

text \<open>C23. \<^verbatim>\<open>MapPages\<close> never leaves its arrays, and whether it succeeds or fails it keeps the table
  tree and the frame ownership well formed and changes the translation of no page outside the
  requested range.\<close>

theorem MapPages_frame:
  assumes "wf_paging s r"
  shows "\<exists>ok s'. MapPages r phys virt count flags s = Some (ok, s') \<and> wf_paging s' r \<and>
    (ok \<longrightarrow> interrupts s' = interrupts s) \<and>
    (\<forall>v. (\<forall>i < unat count. \<not> same_page (virt + of_nat i * PAGE_SIZE) v) \<longrightarrow>
      GetPhysicalAddress (mem s') r v = GetPhysicalAddress (mem s) r v)"
proof -
  obtain out s1 where run: "map_loop (unat count) r phys virt flags 0 (s\<lparr>interrupts := False\<rparr>) = Some (out, s1)"
    and wf: "wf_paging s1 r"
    and tr: "\<And>v. (\<forall>i < unat count. \<not> same_page (virt + of_nat i * PAGE_SIZE) v) \<Longrightarrow>
      GetPhysicalAddress (mem s1) r v = GetPhysicalAddress (mem (s\<lparr>interrupts := False\<rparr>)) r v"
    using map_loop_spec [of "s\<lparr>interrupts := False\<rparr>" r "unat count" phys virt flags 0] assms
    unfolding wf_paging_interrupts add_0 by blast
  show ?thesis
    by (cases out) (use run wf tr in \<open>simp_all add: MapPages_def wf_paging_interrupts Let_def\<close>, blast+)
qed

text \<open>When the PDPT entry on the path is a 1 GiB page, \<^verbatim>\<open>MapPages\<close> refuses but returns with
  interrupts still disabled: that return skips \<^verbatim>\<open>Arch::RestoreInterrupts\<close>.\<close>

theorem MapPages_huge_leaves_interrupts_off:
  assumes "present (load_entry (mem s) r (pt_index 0 virt))" and "count \<noteq> 0" and "interrupts s"
    and "load_entry (mem s) r (pt_index 0 virt) AND PAGE_RW \<noteq> 0"
    and "load_entry (mem s) (load_entry (mem s) r (pt_index 0 virt) AND PAGE_ADDR_MASK) (pt_index 1 virt) = e"
    and "present e" and "huge e"
  shows "\<exists>s'. MapPages r phys virt count flags s = Some (False, s') \<and> \<not> interrupts s'"
proof -
  obtain n where n: "unat count = Suc n" using assms(2) by (metis not0_implies_Suc unat_eq_0)
  have "ensure_table False r (pt_index 0 virt) (s\<lparr>interrupts := False\<rparr>) =
      Some (Table (load_entry (mem s) r (pt_index 0 virt) AND PAGE_ADDR_MASK), s\<lparr>interrupts := False\<rparr>)"
    using assms(1,4) by (simp add: ensure_table_def Let_def)
  moreover have "ensure_table True (load_entry (mem s) r (pt_index 0 virt) AND PAGE_ADDR_MASK) (pt_index 1 virt)
      (s\<lparr>interrupts := False\<rparr>) = Some (HugeEntry, s\<lparr>interrupts := False\<rparr>)"
    using assms(5-7) by (simp add: ensure_table_def Let_def)
  ultimately have "map_page r phys virt flags (s\<lparr>interrupts := False\<rparr>) = Some (Locked, s\<lparr>interrupts := False\<rparr>)"
    by (simp add: map_page_def)
  then show ?thesis by (simp add: MapPages_def n Let_def)
qed

section \<open>Unmapping and flag changes\<close>

lemma find_tables_walk:
  "find_tables m r va = Some (pdpt, pd, pt) \<longleftrightarrow>
    walk m r 1 va = Some pdpt \<and> walk m r 2 va = Some pd \<and> walk m r 3 va = Some pt \<and>
    present (load_entry m pt (pt_index 3 va))"
  by (auto simp: find_tables_def Let_def numeral_3_eq_3 numeral_2_eq_2 split: if_splits option.splits)

text \<open>\<^verbatim>\<open>SetFlags\<close> changes no translation when the new flags keep the page present: it preserves
  the physical address, whatever the other flags are.\<close>

theorem SetFlags_keeps_translation:
  assumes "wf_paging s r" and "SetFlags r va flags s = (ok, s')" and "present flags" and "flags AND PAGE_ADDR_MASK = 0"
  shows "wf_paging s' r \<and> GetPhysicalAddress (mem s') r v = GetPhysicalAddress (mem s) r v \<and>
    (ok \<longleftrightarrow> (\<exists>pdpt pd pt. find_tables (mem s) r va = Some (pdpt, pd, pt)))"
proof (cases "find_tables (mem s) r va")
  case None
  with assms show ?thesis by (simp add: SetFlags_def)
next
  case (Some tabs)
  obtain pdpt pd pt where tabs: "tabs = (pdpt, pd, pt)" by (cases tabs)
  with Some have w: "walk (mem s) r 3 va = Some pt" and p: "present (load_entry (mem s) pt (pt_index 3 va))"
    using find_tables_walk by auto
  define e where "e = load_entry (mem s) pt (pt_index 3 va) AND PAGE_ADDR_MASK"
  have tree: "pt_tree (mem s) r" using assms(1) by (simp add: wf_paging_def)
  note leaf = store_leaf [OF tree w, where e = "e OR flags"]
  have s': "ok" "s' = s\<lparr>mem := store_entry (mem s) pt (pt_index 3 va) (e OR flags)\<rparr>"
    using assms(2) Some tabs by (auto simp: SetFlags_def e_def Let_def)
  have "wf_paging s' r" by (rule wf_paging_cong [OF _ _ assms(1)]) (use leaf(1) s' in auto)
  moreover have "unat e < 2 ^ 52"
  proof -
    have "e = (load_entry (mem s) pt (pt_index 3 va) AND NOT (mask 12)) AND mask 52"
      by (simp add: e_def mask_eq_exp_minus_1 and.assoc)
    then show ?thesis by (simp add: unat_and_mask)
  qed
  then have e: "(e OR flags) AND PAGE_ADDR_MASK = e" "present (e OR flags)"
    using entry_fields [OF _ _ assms(4), of e] assms(3) by (auto simp: e_def)
  have "GetPhysicalAddress (mem s') r v = GetPhysicalAddress (mem s) r v"
  proof (cases "same_prefix 4 va v")
    case True
    then have "walk (mem s) r 3 v = Some pt" "pt_index 3 v = pt_index 3 va"
      using w walk_prefix [of 3 va v "mem s" r] by (auto simp: same_prefix_Suc numeral_eq_Suc simp del: walk.simps)
    then have "GetPhysicalAddress (mem s) r v = e + (v AND (PAGE_SIZE - 1))"
      using translate_at [of "mem s" r 3 v pt] p by (simp add: e_def Let_def mask_eq_exp_minus_1)
    with leaf(3) [OF True] e s'(2) show ?thesis by simp
  next
    case False
    with leaf(2) s'(2) show ?thesis by simp
  qed
  ultimately show ?thesis using s'(1) Some tabs by auto
qed

lemma table_empty_iff: "table_empty m t \<longleftrightarrow> (\<forall>i < 512. \<not> present (load_entry m t i))"
  by (auto simp: table_empty_def list_all_iff)

lemma free_frame_spec:
  assumes "wf_phys fr"
  shows "\<exists>fr'. PhysicalFreePages f 1 fr = Some fr' \<and> wf_phys fr' \<and>
    (\<forall>g. g \<noteq> unat f div 4096 \<longrightarrow> frame_used fr' g = frame_used fr g)"
proof -
  consider (zero) "f = 0" | (low) "f \<noteq> 0" "f < PHYS_BASE" | (high) "f \<noteq> 0" "PHYS_BASE \<le> f" by fastforce
  then show ?thesis
  proof cases
    case zero
    with assms show ?thesis by (simp add: PhysicalFreePages_def)
  next
    case low
    then have idx: "unat (f div PAGE_SIZE) = unat f div 4096" "unat f div 4096 < 256"
      by (auto simp: unat_div word_less_nat_alt)
    then have "\<not> LOW_FRAMES < f div PAGE_SIZE + 1" by (simp add: word_less_nat_alt unat_add_no_wrap)
    with low_unmark [OF assms, of "unat f div 4096" 1] idx low show ?thesis
      by (auto simp: PhysicalFreePages_def PhysicalFreeLowPages_def Let_def)
  next
    case high
    have idx: "unat ((f - PHYS_BASE) div PAGE_SIZE) = unat f div 4096 - 256" "256 \<le> unat f div 4096"
      using high(2) by (auto simp: unat_page_frame word_le_nat_alt)
    have nl: "\<not> f < PHYS_BASE" using high(2) by simp
    show ?thesis
    proof (cases "PHYS_FRAMES < (f - PHYS_BASE) div PAGE_SIZE + 1")
      case True
      with high nl assms show ?thesis by (auto simp: PhysicalFreePages_def Let_def)
    next
      case False
      have "unat f div 4096 < 2 ^ 52" using unat_lt_2_64 [of f] by simp
      then have "unat f div 4096 - 256 + 1 \<le> 262144" using False idx by (simp add: word_less_nat_alt unat_add_no_wrap)
      with high_unmark [OF assms, of "unat f div 4096 - 256" 1] idx high nl False show ?thesis
        by (auto simp: PhysicalFreePages_def Let_def)
    qed
  qed
qed

lemma clear_entry:
  assumes tree: "pt_tree m r" and d: "d < 3" and w: "walk m r d va0 = Some t"
    and c: "walk m r (Suc d) va0 = Some c" and empty: "table_empty m c"
  defines "m' \<equiv> store_entry m t (pt_index d va0) 0"
  shows "\<And>d' va. d' \<le> 3 \<Longrightarrow> walk m' r d' va = (if d < d' \<and> same_prefix (Suc d) va0 va then None else walk m r d' va)"
    and "\<And>va. GetPhysicalAddress m' r va = GetPhysicalAddress m r va"
proof -
  note r = pt_tree_aligned [OF tree]
  have ta: "aligned 4096 t" by (rule walk_aligned [OF r w])
  have same: "load_entry m' t' (pt_index d' va) = load_entry m t' (pt_index d' va)"
    if "d' \<le> 3" "walk m r d' va = Some t'" "d' \<noteq> d \<or> \<not> same_prefix (Suc d) va0 va" for d' va t'
    using walk_tree_unique [OF tree _ that(1) w, of va] that d ta walk_aligned [OF r that(2)]
    by (auto simp: same_prefix_Suc m'_def load_store_entry)
  have off: "walk m' r d' va = walk m r d' va" if "d' \<le> 3" "d' \<le> d \<or> \<not> same_prefix (Suc d) va0 va" for d' va
    by (rule walk_cong) (use that same in auto)
  have zero: "walk m' r d va = Some t \<and> \<not> present (load_entry m' t (pt_index d va))" if "same_prefix (Suc d) va0 va" for va
    using off [of d va] walk_prefix [of d va0 va m r] that w d ta
    by (auto simp: same_prefix_Suc m'_def load_store_entry present_def)
  show "walk m' r d' va = (if d < d' \<and> same_prefix (Suc d) va0 va then None else walk m r d' va)" if "d' \<le> 3" for d' va
  proof (cases "d < d' \<and> same_prefix (Suc d) va0 va")
    case True
    have "walk m' r (Suc d + k) va = None" for k using zero [of va] True by (induction k) (auto simp: Let_def)
    then show ?thesis using True by (metis Suc_leI le_iff_add)
  next
    case False
    with off [OF that, of va] show ?thesis by auto
  qed
  show "GetPhysicalAddress m' r va = GetPhysicalAddress m r va" for va
  proof (cases "same_prefix (Suc d) va0 va")
    case True
    have "walk m r (Suc d) va = Some c" using c walk_prefix [OF True, of m r] by simp
    from translate_absent [OF this] empty d have "GetPhysicalAddress m r va = 0" by (simp add: table_empty_iff)
    moreover have "GetPhysicalAddress m' r va = 0" using zero [OF True] d by (intro translate_absent [of m' r d]) auto
    ultimately show ?thesis by simp
  next
    case False
    show ?thesis by (rule translate_cong) (use False same in auto)
  qed
qed

lemma aligned_frame_inject: "aligned 4096 a \<Longrightarrow> aligned 4096 b \<Longrightarrow> unat a div 4096 = unat b div 4096 \<Longrightarrow> a = b"
  unfolding aligned_def by (metis dvd_div_mult_self word_unat_eqI)

lemma release_empty_spec:
  assumes wf: "wf_paging s r" and d: "d < 3" and w: "walk (mem s) r d va = Some t" and c: "walk (mem s) r (Suc d) va = Some c"
  shows "\<exists>s'. release_empty c t (pt_index d va) s = Some s' \<and> wf_paging s' r \<and> pool s' = pool s \<and>
    interrupts s' = interrupts s \<and> (\<forall>d' \<le> d. walk (mem s') r d' va = walk (mem s) r d' va) \<and>
    (\<forall>v. GetPhysicalAddress (mem s') r v = GetPhysicalAddress (mem s) r v)"
proof (cases "table_empty (mem s) c")
  case False
  with wf show ?thesis by (simp add: release_empty_def)
next
  case True
  have tree: "pt_tree (mem s) r" and ph: "wf_phys (frames s)"
    and own: "\<And>d v t. d \<le> 3 \<Longrightarrow> walk (mem s) r d v = Some t \<Longrightarrow> frame_used (frames s) (unat t div 4096)"
    using wf by (auto simp: wf_paging_def tables_owned_def)
  note ce = clear_entry [OF tree d w c True]
  define m' where "m' = store_entry (mem s) t (pt_index d va) 0"
  have child: "load_entry (mem s) t (pt_index d va) AND PAGE_ADDR_MASK = c"
    using c w by (auto simp: Let_def split: if_splits)
  from free_frame_spec [OF ph, of c] obtain fr where fr: "PhysicalFreePages c 1 (frames s) = Some fr" "wf_phys fr"
    "\<And>g. g \<noteq> unat c div 4096 \<Longrightarrow> frame_used fr g = frame_used (frames s) g" by auto
  have sub: "walk (mem s) r d' v = Some t' \<and> t' \<noteq> c" if "d' \<le> 3" "walk m' r d' v = Some t'" for d' v t'
    using ce(1) [OF that(1), of v] that walk_tree_unique [OF tree _ that(1) c, of v] d
    by (auto simp: m'_def simp del: walk.simps split: if_splits)
  have "frame_used fr (unat t' div 4096)" if "d' \<le> 3" "walk m' r d' v = Some t'" for d' v t'
  proof -
    have "aligned 4096 t'" "aligned 4096 c" using sub [OF that] walk_aligned [OF pt_tree_aligned [OF tree]] c by blast+
    then have "unat t' div 4096 \<noteq> unat c div 4096" using sub [OF that] aligned_frame_inject by blast
    then show ?thesis using fr(3) own sub [OF that] that(1) by blast
  qed
  moreover have "pt_tree m' r" unfolding pt_tree_def
  proof (intro conjI allI impI)
    show "aligned 4096 r" by (rule pt_tree_aligned [OF tree])
    fix d1 d2 v1 v2 t'
    assume a: "d1 \<le> 3 \<and> d2 \<le> 3 \<and> walk m' r d1 v1 = Some t' \<and> walk m' r d2 v2 = Some t'"
    with walk_tree_unique [OF tree, of d1 d2 v1 t' v2] sub show "d1 = d2" "same_prefix d1 v1 v2" by blast+
  qed
  ultimately have "wf_paging (s\<lparr>mem := m', frames := fr\<rparr>) r"
    using fr(2) by (auto simp: wf_paging_def tables_owned_def)
  moreover have "release_empty c t (pt_index d va) s = Some (s\<lparr>mem := m', frames := fr\<rparr>)"
    using True child fr(1) by (simp add: release_empty_def m'_def Let_def)
  moreover have "\<forall>d' \<le> d. walk m' r d' va = walk (mem s) r d' va" using ce(1) d by (auto simp: m'_def)
  moreover have "\<forall>v. GetPhysicalAddress m' r v = GetPhysicalAddress (mem s) r v" using ce(2) by (auto simp: m'_def)
  ultimately show ?thesis by (intro exI [of _ "s\<lparr>mem := m', frames := fr\<rparr>"]) simp
qed

text \<open>C22. \<^verbatim>\<open>UnmapPage\<close> on a mapped 4 KiB page succeeds and removes exactly that page from the address
  space: it translates to 0 afterwards, every other page keeps its translation although empty
  tables are released on the way, and the tree stays well formed.\<close>

theorem UnmapPage_exact:
  assumes "wf_paging s r" and "find_tables (mem s) r va = Some tabs"
  shows "\<exists>s'. UnmapPage r va s = Some (True, s') \<and> wf_paging s' r \<and> interrupts s' = interrupts s \<and>
    (\<forall>v. GetPhysicalAddress (mem s') r v = (if same_page va v then 0 else GetPhysicalAddress (mem s) r v))"
proof -
  obtain pdpt pd pt where tabs: "tabs = (pdpt, pd, pt)" by (cases tabs)
  have w: "walk (mem s) r 1 va = Some pdpt" "walk (mem s) r 2 va = Some pd" "walk (mem s) r 3 va = Some pt"
    using assms(2) tabs find_tables_walk by auto
  define s0 where "s0 = s\<lparr>mem := store_entry (mem s) pt (pt_index 3 va) 0\<rparr>"
  have tree: "pt_tree (mem s) r" using assms(1) by (simp add: wf_paging_def)
  note leaf = store_leaf [OF tree w(3), where e = 0, folded same_page_prefix]
  have wf0: "wf_paging s0 r" by (rule wf_paging_cong [OF _ _ assms(1)]) (use leaf(1) in \<open>auto simp: s0_def\<close>)
  have w0: "walk (mem s0) r d va = walk (mem s) r d va" if "d \<le> 3" for d using leaf(1) [OF that] by (simp add: s0_def)
  have tr0: "GetPhysicalAddress (mem s0) r v = (if same_page va v then 0 else GetPhysicalAddress (mem s) r v)" for v
    using leaf(2,3) by (simp add: s0_def present_def)
  from release_empty_spec [OF wf0, of 2 va pd pt] w w0 obtain s1 where
    s1: "release_empty pt pd (pt_index 2 va) s0 = Some s1" "wf_paging s1 r" "interrupts s1 = interrupts s0"
    and w1: "\<And>d. d \<le> 2 \<Longrightarrow> walk (mem s1) r d va = walk (mem s) r d va"
    and tr1: "\<And>v. GetPhysicalAddress (mem s1) r v = GetPhysicalAddress (mem s0) r v"
    by (auto simp: numeral_3_eq_3 simp del: walk.simps)
  from release_empty_spec [OF s1(2), of 1 va pdpt pd] w w1 obtain s2 where
    s2: "release_empty pd pdpt (pt_index 1 va) s1 = Some s2" "wf_paging s2 r" "interrupts s2 = interrupts s1"
    and w2: "\<And>d. d \<le> 1 \<Longrightarrow> walk (mem s2) r d va = walk (mem s) r d va"
    and tr2: "\<And>v. GetPhysicalAddress (mem s2) r v = GetPhysicalAddress (mem s1) r v"
    by (auto simp: numeral_2_eq_2 simp del: walk.simps)
  from release_empty_spec [OF s2(2), of 0 va r pdpt] w(1) w2 [of 1] obtain s3 where
    s3: "release_empty pdpt r (pt_index 0 va) s2 = Some s3" "wf_paging s3 r" "interrupts s3 = interrupts s2"
    and tr3: "\<And>v. GetPhysicalAddress (mem s3) r v = GetPhysicalAddress (mem s2) r v"
    by (auto simp del: walk.simps(2))
  have "UnmapPage r va s = Some (True, s3\<lparr>pool := VirtualFreePages va 1 (pool s3)\<rparr>)"
    using assms(2) tabs s1(1) s2(1) s3(1) by (simp add: UnmapPage_def s0_def)
  moreover have "wf_paging (s3\<lparr>pool := p\<rparr>) r" for p using s3(2) by (simp add: wf_paging_def tables_owned_def)
  moreover have "interrupts s3 = interrupts s" using s1(3) s2(3) s3(3) by (simp add: s0_def)
  ultimately show ?thesis using tr0 tr1 tr2 tr3 by simp
qed

section \<open>Concrete address spaces\<close>

text \<open>Four tables in consecutive frames above the managed range, mapping page 7.\<close>

definition sample_ram :: ram where
  "sample_ram =
     store_entry (store_entry (store_entry (store_entry (\<lambda>_. 0) 0x80000000 0 0x80001007) 0x80001000 0 0x80002007)
       0x80002000 0 0x80003007) 0x80003000 7 0x200003"

definition sample_mm :: mm_state where
  "sample_mm = \<lparr>mem = sample_ram, frames = all_free, pool = sample_virt, interrupts = True\<rparr>"

lemma sample_aligned: "aligned 4096 0x80000000" "aligned 4096 0x80001000" "aligned 4096 0x80002000" "aligned 4096 0x80003000"
  by (simp_all add: aligned_def)

lemma load_sample_ram:
  assumes "aligned 4096 t" and "i < 512"
  shows "load_entry sample_ram t i =
    (if t = 0x80003000 \<and> i = 7 then 0x200003 else if t = 0x80002000 \<and> i = 0 then 0x80003007
     else if t = 0x80001000 \<and> i = 0 then 0x80002007 else if t = 0x80000000 \<and> i = 0 then 0x80001007 else 0)"
proof -
  have "load_entry (\<lambda>_. 0) t i = 0" by (simp add: load_entry_def load64_def)
  moreover have "aligned 4096 0x80000000" "aligned 4096 0x80001000" "aligned 4096 0x80002000" "aligned 4096 0x80003000"
    by (simp_all add: aligned_def)
  ultimately show ?thesis using assms by (auto simp: sample_ram_def load_store_entry)
qed

lemma sample_walk:
  "d \<le> 3 \<Longrightarrow> walk sample_ram 0x80000000 d va =
    (if \<forall>j < d. pt_index j va = 0 then Some (0x80000000 + of_nat d * 0x1000) else None)"
proof (induction d)
  case 0
  then show ?case by simp
next
  case (Suc d)
  then consider "d = 0" | "d = 1" | "d = 2" by linarith
  then show ?case using Suc unfolding walk.simps(2) All_less_Suc
    by cases (simp_all add: Let_def load_sample_ram aligned_def present_def huge_def)
qed

lemma sample_mm_wf: "wf_paging sample_mm 0x80000000"
proof -
  have small: "unat (0x80000000 + of_nat d * 0x1000 :: u64) = 0x80000000 + d * 0x1000" if "d \<le> 3" for d
    using that by (simp add: unat_word_ariths unat_of_nat_u64)
  have uniq: "d = d'" if "d \<le> 3" "d' \<le> 3" "(0x80000000 + of_nat d * 0x1000 :: u64) = 0x80000000 + of_nat d' * 0x1000" for d d'
  proof -
    have "0x80000000 + d * 0x1000 = 0x80000000 + d' * (0x1000 :: nat)" using small that by metis
    then show ?thesis by simp
  qed
  have reach: "(\<forall>j < d. pt_index j va = 0) \<and> t = 0x80000000 + of_nat d * 0x1000"
    if "d \<le> 3" "walk sample_ram 0x80000000 d va = Some t" for d va t
    using that(2) unfolding sample_walk [OF that(1)] by (simp split: if_splits)
  have "d = d' \<and> same_prefix d va va'"
    if "d \<le> 3" "d' \<le> 3" "walk sample_ram 0x80000000 d va = Some t" "walk sample_ram 0x80000000 d' va' = Some t" for d d' va va' t
  proof -
    note 1 = reach [OF that(1,3)] and 2 = reach [OF that(2,4)]
    have "d = d'" by (rule uniq [OF that(1,2)]) (use 1 2 in \<open>simp only:\<close>)
    with 1 2 show ?thesis by (simp only: same_prefix_def) simp
  qed
  then have "pt_tree sample_ram 0x80000000" unfolding pt_tree_def using sample_aligned(1) by blast
  moreover have "tables_owned sample_mm 0x80000000"
    by (auto simp: tables_owned_def sample_mm_def sample_walk small frame_used_def split: if_splits)
  ultimately show ?thesis using all_free_wf by (simp add: wf_paging_def sample_mm_def)
qed

lemma sample_index: "pt_index 0 0x5000 = 0" "pt_index (Suc 0) 0x5000 = 0" "pt_index 2 0x5000 = 0" "pt_index 3 0x5000 = 5"
  "pt_index 0 0x7000 = 0" "pt_index (Suc 0) 0x7000 = 0" "pt_index 2 0x7000 = 0" "pt_index 3 0x7000 = 7"
  by (simp_all add: pt_index_def drop_bit_eq_div)

lemmas sample_eval = sample_index load_sample_ram [OF sample_aligned(1)] load_sample_ram [OF sample_aligned(2)]
  load_sample_ram [OF sample_aligned(3)] load_sample_ram [OF sample_aligned(4)] present_def huge_def Let_def

lemma sample_map: "\<exists>s'. MapPages 0x80000000 0x300000 0x5000 1 3 sample_mm = Some (True, s')"
  by (simp add: MapPages_def map_page_def ensure_table_def sample_mm_def sample_eval)

lemma MapPages_translates_witness:
  "\<exists>s'. MapPages 0x80000000 0x300000 0x5000 1 3 sample_mm = Some (True, s') \<and>
    GetPhysicalAddress (mem s') 0x80000000 (0x5000 + of_nat 0 * PAGE_SIZE + of_nat 5) = 0x300000 + of_nat 0 * PAGE_SIZE + of_nat 5"
proof -
  from sample_map obtain s' where s': "MapPages 0x80000000 0x300000 0x5000 1 3 sample_mm = Some (True, s')" ..
  have "GetPhysicalAddress (mem s') 0x80000000 (0x5000 + of_nat 0 * PAGE_SIZE + of_nat 5) = 0x300000 + of_nat 0 * PAGE_SIZE + of_nat 5"
    by (rule MapPages_translates [OF sample_mm_wf s']) (simp_all add: aligned_def present_def)
  with s' show ?thesis by blast
qed

lemma MapPages_frame_witness:
  "\<exists>ok s'. MapPages 0x80000000 0x300000 0x5000 1 3 sample_mm = Some (ok, s') \<and> wf_paging s' 0x80000000 \<and>
    (ok \<longrightarrow> interrupts s' = interrupts sample_mm) \<and>
    (\<forall>v. (\<forall>i < unat (1 :: u64). \<not> same_page (0x5000 + of_nat i * PAGE_SIZE) v) \<longrightarrow>
      GetPhysicalAddress (mem s') 0x80000000 v = GetPhysicalAddress (mem sample_mm) 0x80000000 v)"
  by (rule MapPages_frame [OF sample_mm_wf])

lemma sample_tables: "find_tables sample_ram 0x80000000 0x7000 = Some (0x80001000, 0x80002000, 0x80003000)"
  by (simp add: find_tables_def sample_eval)

lemma SetFlags_keeps_translation_witness:
  "wf_paging (snd (SetFlags 0x80000000 0x7000 5 sample_mm)) 0x80000000 \<and>
   GetPhysicalAddress (mem (snd (SetFlags 0x80000000 0x7000 5 sample_mm))) 0x80000000 0x7123 =
     GetPhysicalAddress (mem sample_mm) 0x80000000 0x7123 \<and>
   (fst (SetFlags 0x80000000 0x7000 5 sample_mm) \<longleftrightarrow>
     (\<exists>pdpt pd pt. find_tables (mem sample_mm) 0x80000000 0x7000 = Some (pdpt, pd, pt)))"
  by (rule SetFlags_keeps_translation [OF sample_mm_wf, where flags = 5]) (simp_all add: present_def)

lemma UnmapPage_exact_witness:
  "\<exists>s'. UnmapPage 0x80000000 0x7000 sample_mm = Some (True, s') \<and> wf_paging s' 0x80000000 \<and>
    interrupts s' = interrupts sample_mm \<and>
    (\<forall>v. GetPhysicalAddress (mem s') 0x80000000 v =
      (if same_page 0x7000 v then 0 else GetPhysicalAddress (mem sample_mm) 0x80000000 v))"
  by (rule UnmapPage_exact [OF sample_mm_wf]) (simp add: sample_mm_def sample_tables)

definition huge_ram :: ram where
  "huge_ram = store_entry (store_entry (\<lambda>_. 0) 0x80000000 0 0x80001007) 0x80001000 0 0x40000083"

lemma MapPages_huge_leaves_interrupts_off_witness:
  "\<exists>s'. MapPages 0x80000000 0x300000 0x5000 1 3 (sample_mm\<lparr>mem := huge_ram\<rparr>) = Some (False, s') \<and> \<not> interrupts s'"
  by (rule MapPages_huge_leaves_interrupts_off [where e = "0x40000083"])
    (simp_all add: huge_ram_def load_store_entry sample_aligned sample_index present_def huge_def sample_mm_def)

end
