(* ===== verification/User_Copy.thy ===== *)
theory User_Copy
  imports Paging_Tables
begin

text \<open>
  Copies between user and kernel space, \<^verbatim>\<open>kernel/mm/usercopy.cpp\<close>. The page tables and the bytes
  they map live in the same physical memory. A kernel buffer is the list of its bytes.
\<close>

section \<open>Model\<close>

definition user_ok :: "u64 \<Rightarrow> bool" where
  "user_ok e \<longleftrightarrow> present e \<and> e AND PAGE_USER \<noteq> 0"

text \<open>\<^verbatim>\<open>vaddr_to_phys_page\<close>: the physical address of the byte, the page size and the last entry.\<close>

definition vaddr_to_phys_page :: "ram \<Rightarrow> u64 \<Rightarrow> u64 \<Rightarrow> (u64 \<times> u64 \<times> u64) option" where
  "vaddr_to_phys_page m pml4 vaddr =
     (let pml4e = load_entry m pml4 (pt_index 0 vaddr) in
      if \<not> user_ok pml4e then None
      else let pdpte = load_entry m (pml4e AND PAGE_ADDR_MASK) (pt_index 1 vaddr) in
      if \<not> user_ok pdpte then None
      else if huge pdpte then Some ((pdpte AND PAGE_ADDR_MASK) + (vaddr AND 0x3FFFFFFF), 0x40000000, pdpte)
      else let pde = load_entry m (pdpte AND PAGE_ADDR_MASK) (pt_index 2 vaddr) in
      if \<not> user_ok pde then None
      else if huge pde then Some ((pde AND PAGE_ADDR_MASK) + (vaddr AND 0x1FFFFF), 0x200000, pde)
      else let pte = load_entry m (pde AND PAGE_ADDR_MASK) (pt_index 3 vaddr) in
      if \<not> user_ok pte then None
      else Some ((pte AND PAGE_ADDR_MASK) + (vaddr AND (PAGE_SIZE - 1)), PAGE_SIZE, pte))"

text \<open>The diagnostics: the value \<^verbatim>\<open>DumpVaddrMapping\<close> returns (its output is dropped), a null PML4
  pointer being address 0, and the range check built on it. The loop of the range check may run
  for ever when its bound is in the last page of the address space.\<close>

definition DumpVaddrMapping :: "ram \<Rightarrow> u64 \<Rightarrow> u64 \<Rightarrow> bool" where
  "DumpVaddrMapping m pml4 vaddr =
     (if pml4 = 0 then False
      else let pml4e = load_entry m pml4 (pt_index 0 vaddr) in
      if \<not> present pml4e then False
      else if pml4e AND PAGE_USER = 0 then False
      else let pdpte = load_entry m (pml4e AND PAGE_ADDR_MASK) (pt_index 1 vaddr) in
      if \<not> present pdpte then False
      else if pdpte AND PAGE_USER = 0 then False
      else if huge pdpte then True
      else let pde = load_entry m (pdpte AND PAGE_ADDR_MASK) (pt_index 2 vaddr) in
      if \<not> present pde then False
      else if pde AND PAGE_USER = 0 then False
      else if huge pde then True
      else let pte = load_entry m (pde AND PAGE_ADDR_MASK) (pt_index 3 vaddr) in
      if \<not> present pte then False
      else if pte AND PAGE_USER = 0 then False
      else True)"

partial_function (option) dump_range :: "ram \<Rightarrow> u64 \<Rightarrow> u64 \<Rightarrow> u64 \<Rightarrow> bool option" where
  "dump_range m pml4 a stop =
     (if a < stop then
        if vaddr_to_phys_page m pml4 a = None then Some False
        else dump_range m pml4 (a + PAGE_SIZE) stop
      else Some True)"

definition DumpVaddrRange :: "ram \<Rightarrow> u64 \<Rightarrow> u64 \<Rightarrow> u64 \<Rightarrow> bool option" where
  "DumpVaddrRange m pml4 vaddr len =
     (if pml4 = 0 then Some False
      else if len = 0 then Some True
      else dump_range m pml4 (vaddr AND NOT (PAGE_SIZE - 1)) (vaddr + len))"

text \<open>The number of bytes one turn of the copy loops handles.\<close>

definition chunk_size :: "u64 \<Rightarrow> u64 \<Rightarrow> u64 \<Rightarrow> u64" where
  "chunk_size addr page_size remaining =
     (let page_start = addr AND NOT (page_size - 1);
          offset_in_page = addr - page_start;
          avail = page_size - offset_in_page
      in if avail < remaining then avail else remaining)"

definition read_bytes :: "ram \<Rightarrow> u64 \<Rightarrow> nat \<Rightarrow> u8 list" where
  "read_bytes m p n = map (\<lambda>k. m (p + of_nat k)) [0..<n]"

definition write_bytes :: "ram \<Rightarrow> u64 \<Rightarrow> u8 list \<Rightarrow> ram" where
  "write_bytes m p bs = (\<lambda>x. if unat (x - p) < length bs then bs ! unat (x - p) else m x)"

text \<open>The three page sizes, as powers of two.\<close>

definition page_bits :: "u64 \<Rightarrow> nat \<Rightarrow> bool" where
  "page_bits sz n \<longleftrightarrow> sz = 0x1000 \<and> n = 12 \<or> sz = 0x200000 \<and> n = 21 \<or> sz = 0x40000000 \<and> n = 30"

lemma page_bitsD: "page_bits sz n \<Longrightarrow> sz - 1 = mask n \<and> unat sz = 2 ^ n \<and> n \<le> 30"
  by (auto simp: page_bits_def mask_eq_exp_minus_1)

lemma page_size_cases:
  assumes "vaddr_to_phys_page m r va = Some (p, sz, e)"
  obtains n where "page_bits sz n"
proof -
  have "sz = 0x1000 \<or> sz = 0x200000 \<or> sz = 0x40000000"
    using assms by (auto simp: vaddr_to_phys_page_def Let_def split: if_splits)
  then have "page_bits sz 12 \<or> page_bits sz 21 \<or> page_bits sz 30"
    by (auto simp: page_bits_def)
  then show ?thesis using that by blast
qed

lemma unat_page_offset: "unat (a - (a AND NOT (mask n))) = unat a mod 2 ^ n" for a :: u64
proof -
  have "a AND NOT (mask n) \<le> a" by (simp add: word_le_nat_alt unat_and_not_mask)
  then have "unat (a - (a AND NOT (mask n))) = unat a - unat (a AND NOT (mask n))" by (simp add: unat_sub)
  then show ?thesis by (simp add: unat_and_not_mask minus_div_mult_eq_mod)
qed

lemma unat_chunk_size:
  assumes "page_bits sz n"
  shows "unat (chunk_size a sz rem) = min (2 ^ n - unat a mod 2 ^ n) (unat rem)"
proof -
  define off where "off = a - (a AND NOT (sz - 1))"
  have sz: "unat sz = 2 ^ n" using page_bitsD [OF assms] by simp
  have off: "unat off = unat a mod 2 ^ n" using page_bitsD [OF assms] unat_page_offset by (simp add: off_def)
  then have "unat off < unat sz" using sz by simp
  then have "unat (sz - off) = 2 ^ n - unat a mod 2 ^ n" using off sz by (simp add: unat_sub word_le_nat_alt)
  then show ?thesis by (simp add: chunk_size_def off_def [symmetric] Let_def word_less_nat_alt min_def)
qed

lemma chunk_bounds:
  assumes "vaddr_to_phys_page m r va = Some (p, sz, e)" and "rem \<noteq> 0"
  shows "0 < unat (chunk_size va sz rem)" "unat (chunk_size va sz rem) \<le> unat rem"
proof -
  obtain n where "page_bits sz n" using page_size_cases [OF assms(1)] .
  then show "0 < unat (chunk_size va sz rem)" "unat (chunk_size va sz rem) \<le> unat rem"
    using assms(2) by (auto simp: unat_chunk_size unat_gt_0)
qed

lemma chunk_decreases:
  assumes "vaddr_to_phys_page m r va = Some (p, sz, e)" and "rem \<noteq> 0"
  shows "unat (rem - chunk_size va sz rem) = unat rem - unat (chunk_size va sz rem)"
    "unat (rem - chunk_size va sz rem) < unat rem"
proof -
  show "unat (rem - chunk_size va sz rem) = unat rem - unat (chunk_size va sz rem)"
    using chunk_bounds(2) [OF assms] by (simp add: unat_sub word_le_nat_alt)
  then show "unat (rem - chunk_size va sz rem) < unat rem"
    using chunk_bounds(1) [OF assms] assms(2) by (simp add: unat_gt_0)
qed

function copy_from :: "ram \<Rightarrow> u64 \<Rightarrow> u64 \<Rightarrow> u64 \<Rightarrow> bool \<times> u8 list" where
  "copy_from m pml4 src remaining =
     (if remaining = 0 then (True, [])
      else case vaddr_to_phys_page m pml4 src of
        None \<Rightarrow> (False, [])
      | Some (phys_base, page_size, _) \<Rightarrow>
          let chunk = chunk_size src page_size remaining;
              (ok, rest) = copy_from m pml4 (src + chunk) (remaining - chunk)
          in (ok, read_bytes m phys_base (unat chunk) @ rest))"
  by pat_completeness auto
termination
  by (relation "measure (\<lambda>(m, pml4, src, remaining). unat remaining)") (auto dest: chunk_decreases(2))

declare copy_from.simps [simp del]

text \<open>\<^verbatim>\<open>CopyFromUser\<close>: whether it succeeds, and the bytes it has stored into the kernel buffer.\<close>

definition CopyFromUser :: "ram \<Rightarrow> u64 \<Rightarrow> u64 \<Rightarrow> u64 \<Rightarrow> u64 \<Rightarrow> bool \<times> u8 list" where
  "CopyFromUser m pml4 dstKernel srcUser len =
     (if len = 0 then (True, [])
      else if pml4 = 0 \<or> dstKernel = 0 \<or> srcUser = 0 then (False, [])
      else copy_from m pml4 srcUser len)"

text \<open>\<^verbatim>\<open>CopyToUser\<close>: the kernel buffer holds at least \<open>len\<close> bytes; the tables are walked again in the
  memory each chunk has left.\<close>

function copy_to :: "u64 \<Rightarrow> u64 \<Rightarrow> u64 \<Rightarrow> u8 list \<Rightarrow> ram \<Rightarrow> bool \<times> ram" where
  "copy_to pml4 dst remaining src m =
     (if remaining = 0 then (True, m)
      else case vaddr_to_phys_page m pml4 dst of
        None \<Rightarrow> (False, m)
      | Some (phys_base, page_size, _) \<Rightarrow>
          let chunk = chunk_size dst page_size remaining in
          copy_to pml4 (dst + chunk) (remaining - chunk) (drop (unat chunk) src)
            (write_bytes m phys_base (take (unat chunk) src)))"
  by pat_completeness auto
termination
  by (relation "measure (\<lambda>(pml4, dst, remaining, src, m). unat remaining)") (auto dest: chunk_decreases(2))

declare copy_to.simps [simp del]

definition CopyToUser :: "u64 \<Rightarrow> u64 \<Rightarrow> u64 \<Rightarrow> u8 list \<Rightarrow> u64 \<Rightarrow> ram \<Rightarrow> bool \<times> ram" where
  "CopyToUser pml4 dstUser srcKernel src len m =
     (if len = 0 then (True, m)
      else if pml4 = 0 \<or> dstUser = 0 \<or> srcKernel = 0 then (False, m)
      else copy_to pml4 dstUser len src m)"

section \<open>Translation\<close>

text \<open>The byte-wise view the copies implement: where a user byte lives, if it is accessible.\<close>

definition user_phys :: "ram \<Rightarrow> u64 \<Rightarrow> u64 \<Rightarrow> u64 option" where
  "user_phys m r va = map_option fst (vaddr_to_phys_page m r va)"


lemma pt_index_nat: "d \<le> 3 \<Longrightarrow> pt_index d va = unat va div 2 ^ (39 - 9 * d) mod 512"
proof -
  have "pt_index d va = unat (drop_bit (39 - 9 * d) va AND mask 9)" by (simp add: pt_index_def mask_eq_exp_minus_1)
  also have "\<dots> = drop_bit (39 - 9 * d) (unat va) mod 2 ^ 9" by (simp only: unat_and_mask unat_drop_bit_eq)
  finally show ?thesis by (simp add: drop_bit_eq_div)
qed

text \<open>Moving by \<open>k\<close> bytes without leaving the \<open>2 ^ n\<close>-byte page.\<close>

lemma inside_page:
  fixes va :: u64
  assumes "n \<le> 30" and "k < 2 ^ n - unat va mod 2 ^ n"
  shows "unat (va + of_nat k) = unat va + k" and "n \<le> j \<Longrightarrow> unat (va + of_nat k) div 2 ^ j = unat va div 2 ^ j"
    and "(va + of_nat k) AND mask n = (va AND mask n) + of_nat k"
proof -
  define q where "q = unat va div 2 ^ n"
  define x where "x = unat va mod 2 ^ n"
  have va: "unat va = q * 2 ^ n + x" by (simp only: q_def x_def div_mult_mod_eq)
  have k: "x + k < 2 ^ n" using assms(2) by (simp add: x_def)
  have "q * 2 ^ n < 2 ^ (64 - n) * 2 ^ n" using va unat_lt_2_64 [of va] assms(1) by (simp flip: power_add)
  then have "(q + 1) * 2 ^ n \<le> 2 ^ (64 - n) * 2 ^ n" by (intro mult_le_mono1) simp
  then have "unat va + k < 2 ^ 64" using va k assms(1) by (simp flip: power_add)
  then show eq: "unat (va + of_nat k) = unat va + k" by (simp add: unat_add_no_wrap unat_of_nat_u64)
  have split: "unat va + k = q * 2 ^ n + (x + k)" using va by simp
  have dn: "(unat va + k) div 2 ^ n = q" unfolding split using k by simp
  show "unat (va + of_nat k) div 2 ^ j = unat va div 2 ^ j" if "n \<le> j"
  proof -
    have "y div 2 ^ j = y div 2 ^ n div 2 ^ (j - n)" for y :: nat
      using that by (simp add: div_mult2_eq [symmetric] flip: power_add)
    then show ?thesis using dn eq by (simp add: q_def)
  qed
  have "(unat va + k) mod 2 ^ n = x + k" unfolding split using k by simp
  moreover have "unat ((va AND mask n) + of_nat k) = x + k"
  proof -
    have "x + k < 2 ^ 64" using k power_increasing [of n 64 "2 :: nat"] assms(1) by simp
    then show ?thesis by (simp add: unat_add_no_wrap unat_and_mask unat_of_nat_u64 flip: x_def)
  qed
  ultimately show "(va + of_nat k) AND mask n = (va AND mask n) + of_nat k"
    by (intro word_unat_eqI) (simp add: unat_and_mask eq)
qed

lemma same_walk_inside:
  assumes "vaddr_to_phys_page m r va = Some (p, sz, e)" and "page_bits sz n" and "k < 2 ^ n - unat va mod 2 ^ n"
  shows "vaddr_to_phys_page m r (va + of_nat k) = Some (p + of_nat k, sz, e)"
proof -
  have n: "n \<le> 30" using page_bitsD [OF assms(2)] by simp
  have idx: "pt_index d (va + of_nat k) = pt_index d va" if "n \<le> 39 - 9 * d" "d \<le> 3" for d
    using inside_page(2) [OF n assms(3) that(1)] that(2) by (simp add: pt_index_nat)
  have masks: "0xFFF = (mask 12 :: u64)" "0x1FFFFF = (mask 21 :: u64)" "0x3FFFFFFF = (mask 30 :: u64)"
    by (simp_all add: mask_eq_exp_minus_1)
  note off = inside_page(3) [OF n assms(3)]
  from assms(2) consider "n = 12" "sz = 0x1000" | "n = 21" "sz = 0x200000" | "n = 30" "sz = 0x40000000"
    by (auto simp: page_bits_def)
  then show ?thesis
  proof cases
    case 1
    have "pt_index 0 (va + of_nat k) = pt_index 0 va" "pt_index 1 (va + of_nat k) = pt_index 1 va"
      "pt_index 2 (va + of_nat k) = pt_index 2 va" "pt_index 3 (va + of_nat k) = pt_index 3 va"
      using 1 by (simp_all add: idx)
    with assms(1) 1 off show ?thesis
      by (auto simp: vaddr_to_phys_page_def Let_def masks add.assoc split: if_splits)
  next
    case 2
    have "pt_index 0 (va + of_nat k) = pt_index 0 va" "pt_index 1 (va + of_nat k) = pt_index 1 va"
      "pt_index 2 (va + of_nat k) = pt_index 2 va"
      using 2 by (simp_all add: idx)
    with assms(1) 2 off show ?thesis
      by (auto simp: vaddr_to_phys_page_def Let_def masks add.assoc split: if_splits)
  next
    case 3
    have "pt_index 0 (va + of_nat k) = pt_index 0 va" "pt_index 1 (va + of_nat k) = pt_index 1 va"
      using 3 by (simp_all add: idx)
    with assms(1) 3 off show ?thesis
      by (auto simp: vaddr_to_phys_page_def Let_def masks add.assoc split: if_splits)
  qed
qed

section \<open>Copying from user space\<close>

lemma user_phys_chunk:
  assumes "vaddr_to_phys_page m r va = Some (p, sz, e)" and "k < unat (chunk_size va sz rem)"
  shows "user_phys m r (va + of_nat k) = Some (p + of_nat k)"
proof -
  obtain n where n: "page_bits sz n" using page_size_cases [OF assms(1)] .
  then have "k < 2 ^ n - unat va mod 2 ^ n" using assms(2) by (simp add: unat_chunk_size)
  with same_walk_inside [OF assms(1) n] show ?thesis by (simp add: user_phys_def)
qed

text \<open>The specification: the longest accessible prefix, byte by byte.\<close>

definition user_bytes :: "ram \<Rightarrow> u64 \<Rightarrow> u64 \<Rightarrow> nat \<Rightarrow> u8 list" where
  "user_bytes m r va n = map (\<lambda>i. m (the (user_phys m r (va + of_nat i)))) [0..<n]"

lemma user_bytes_add: "user_bytes m r va (a + b) = user_bytes m r va a @ user_bytes m r (va + of_nat a) b"
  by (induction b) (simp_all add: user_bytes_def add.assoc)

lemma copy_from_spec:
  "copy_from m r va rem = (ok, bs) \<Longrightarrow>
    (if ok then length bs = unat rem
     else length bs < unat rem \<and> user_phys m r (va + of_nat (length bs)) = None) \<and>
    bs = user_bytes m r va (length bs) \<and> (\<forall>i < length bs. user_phys m r (va + of_nat i) \<noteq> None)"
proof (induction m r va rem arbitrary: ok bs rule: copy_from.induct)
  case (1 m r va rem)
  show ?case
  proof (cases "rem = 0")
    case True
    with "1.prems" show ?thesis by (simp add: copy_from.simps user_bytes_def)
  next
    case nz: False
    show ?thesis
    proof (cases "vaddr_to_phys_page m r va")
      case None
      with nz "1.prems" show ?thesis by (simp add: copy_from.simps user_bytes_def user_phys_def unat_gt_0)
    next
      case (Some res)
      obtain p sz e where res: "res = (p, sz, e)" by (cases res)
      with Some have v: "vaddr_to_phys_page m r va = Some (p, sz, e)" by simp
      define chunk where "chunk = chunk_size va sz rem"
      define c where "c = unat chunk"
      obtain ok' rest where cf: "copy_from m r (va + chunk) (rem - chunk) = (ok', rest)" by fastforce
      have "copy_from m r va rem = (ok', read_bytes m p c @ rest)"
        unfolding copy_from.simps [of m r va rem] using nz v cf by (simp add: chunk_def [symmetric] c_def Let_def)
      then have rest: "copy_from m r (va + chunk) (rem - chunk) = (ok, rest)" "bs = read_bytes m p c @ rest"
        using "1.prems" cf by auto
      have cc: "chunk = of_nat c" by (simp add: c_def)
      have here: "user_phys m r (va + of_nat k) = Some (p + of_nat k)" if "k < c" for k
        using user_phys_chunk [OF v] that by (simp add: c_def chunk_def)
      then have rb: "read_bytes m p c = user_bytes m r va c" by (simp add: read_bytes_def user_bytes_def)
      have IH: "(if ok then length rest = unat (rem - chunk)
          else length rest < unat (rem - chunk) \<and> user_phys m r (va + chunk + of_nat (length rest)) = None) \<and>
        rest = user_bytes m r (va + chunk) (length rest) \<and>
        (\<forall>i < length rest. user_phys m r (va + chunk + of_nat i) \<noteq> None)"
        by (rule "1.IH" [OF nz v refl refl chunk_def rest(1)])
      have len: "length bs = c + length rest" using rest(2) by (simp add: read_bytes_def)
      have "unat (rem - chunk) = unat rem - c" "c \<le> unat rem"
        using chunk_decreases(1) [OF v nz] chunk_bounds(2) [OF v nz] by (simp_all add: chunk_def c_def)
      moreover have "bs = user_bytes m r va (length bs)" using rest(2) rb IH len cc by (simp add: user_bytes_add)
      moreover have "user_phys m r (va + of_nat i) \<noteq> None" if "i < length bs" for i
      proof (cases "i < c")
        case False
        then obtain j where j: "i = c + j" by (metis le_add_diff_inverse not_less)
        then have "va + of_nat i = va + chunk + of_nat j" "j < length rest" using cc that len by simp_all
        moreover have "user_phys m r (va + chunk + of_nat j) \<noteq> None" using IH calculation(2) by blast
        ultimately show ?thesis by (simp only: not_False_eq_True)
      qed (simp add: here)
      ultimately show ?thesis using IH len cc by (auto simp: add.assoc)
    qed
  qed
qed


section \<open>Copying to user space\<close>

text \<open>A memory write that hits no page-table frame on the path of \<open>va\<close> leaves its translation alone.\<close>

definition path_frame :: "ram \<Rightarrow> u64 \<Rightarrow> u64 \<Rightarrow> bool" where
  "path_frame m r a \<longleftrightarrow> (\<exists>d va t. d \<le> 3 \<and> walk m r d va = Some t \<and> a - t < PAGE_SIZE)"

lemma load_entry_frame:
  assumes "aligned 4096 t" and "i < 512" and "\<And>a. a - t < PAGE_SIZE \<Longrightarrow> m' a = m a"
  shows "load_entry m' t i = load_entry m t i"
proof -
  have "m' (entry_addr t i + k) = m (entry_addr t i + k)" if "k < 8" for k
  proof (rule assms(3))
    have k: "unat k < 8" using that by (simp add: word_less_nat_alt)
    have "entry_addr t i + k - t = of_nat (8 * i) + k" by (simp add: entry_addr_def)
    moreover have "unat (of_nat (8 * i) :: u64) = 8 * i" using assms(2) by (intro unat_of_nat_u64) simp
    ultimately have "unat (entry_addr t i + k - t) = 8 * i + unat k"
      using assms(2) k by (simp only: unat_add_no_wrap) (simp add: unat_add_no_wrap del: of_nat_mult)
    then show "entry_addr t i + k - t < PAGE_SIZE" using assms(2) k by (simp add: word_less_nat_alt)
  qed
  then show ?thesis unfolding load_entry_def by (intro load64_cong)
qed

lemma vaddr_to_phys_page_cong:
  assumes "\<And>d t. d \<le> 3 \<Longrightarrow> walk m r d va = Some t \<Longrightarrow> load_entry m' t (pt_index d va) = load_entry m t (pt_index d va)"
  shows "vaddr_to_phys_page m' r va = vaddr_to_phys_page m r va"
proof -
  have 0: "load_entry m' r (pt_index 0 va) = load_entry m r (pt_index 0 va)" using assms [of 0 r] by simp
  have 1: "load_entry m' t (pt_index 1 va) = load_entry m t (pt_index 1 va)" if "walk m r 1 va = Some t" for t
    using assms [of 1 t] that by simp
  have 2: "load_entry m' t (pt_index 2 va) = load_entry m t (pt_index 2 va)" if "walk m r 2 va = Some t" for t
    using assms [of 2 t] that by simp
  have 3: "load_entry m' t (pt_index 3 va) = load_entry m t (pt_index 3 va)" if "walk m r 3 va = Some t" for t
    using assms [of 3 t] that by simp
  define e0 where "e0 = load_entry m r (pt_index 0 va)"
  define e1 where "e1 = load_entry m (e0 AND PAGE_ADDR_MASK) (pt_index (Suc 0) va)"
  define e2 where "e2 = load_entry m (e1 AND PAGE_ADDR_MASK) (pt_index 2 va)"
  have "load_entry m' (e0 AND PAGE_ADDR_MASK) (pt_index 1 va) = e1" if "user_ok e0"
    using 1 that by (simp add: e0_def e1_def user_ok_def)
  moreover have "load_entry m' (e1 AND PAGE_ADDR_MASK) (pt_index 2 va) = e2" if "user_ok e0" "user_ok e1" "\<not> huge e1"
    using 2 that by (simp add: e0_def e1_def e2_def user_ok_def numeral_2_eq_2)
  moreover have "load_entry m' (e2 AND PAGE_ADDR_MASK) (pt_index 3 va) = load_entry m (e2 AND PAGE_ADDR_MASK) (pt_index 3 va)"
    if "user_ok e0" "user_ok e1" "\<not> huge e1" "user_ok e2" "\<not> huge e2"
    using 3 that by (simp add: e0_def e1_def e2_def user_ok_def numeral_2_eq_2 numeral_3_eq_3)
  ultimately show ?thesis
    by (simp add: vaddr_to_phys_page_def 0 Let_def e2_def [symmetric] e1_def [symmetric] e0_def [symmetric])
qed

definition isolated :: "ram \<Rightarrow> u64 \<Rightarrow> bool" where
  "isolated m r \<longleftrightarrow> aligned 4096 r \<and> (\<forall>va p. user_phys m r va = Some p \<longrightarrow> \<not> path_frame m r p)"

lemma isolated_write:
  assumes iso: "isolated m r" and only: "\<And>x. m' x \<noteq> m x \<Longrightarrow> \<exists>va. user_phys m r va = Some x"
  shows "vaddr_to_phys_page m' r va = vaddr_to_phys_page m r va" and "user_phys m' r va = user_phys m r va"
    and "isolated m' r"
proof -
  have r: "aligned 4096 r" using iso by (simp add: isolated_def)
  have load: "load_entry m' t (pt_index d v) = load_entry m t (pt_index d v)" if "d \<le> 3" "walk m r d v = Some t" for d v t
  proof (rule load_entry_frame [OF walk_aligned [OF r that(2)]])
    fix a assume "a - t < PAGE_SIZE"
    then have "path_frame m r a" using that unfolding path_frame_def by blast
    then show "m' a = m a" using only iso unfolding isolated_def by blast
  qed simp
  have v: "vaddr_to_phys_page m' r v = vaddr_to_phys_page m r v" for v
    by (rule vaddr_to_phys_page_cong) (use load in auto)
  then show "vaddr_to_phys_page m' r va = vaddr_to_phys_page m r va" "user_phys m' r va = user_phys m r va"
    by (simp_all add: user_phys_def)
  have "walk m' r d v = walk m r d v" if "d \<le> 3" for d v by (rule walk_cong) (use load that in auto)
  then have "path_frame m' r a = path_frame m r a" for a unfolding path_frame_def by metis
  then show "isolated m' r" using iso v by (simp add: isolated_def user_phys_def)
qed

lemma write_bytes_other: "(\<And>k. k < length bs \<Longrightarrow> x \<noteq> p + of_nat k) \<Longrightarrow> write_bytes m p bs x = m x"
proof -
  assume a: "\<And>k. k < length bs \<Longrightarrow> x \<noteq> p + of_nat k"
  have "x = p + of_nat (unat (x - p))" by simp
  with a [of "unat (x - p)"] show ?thesis by (auto simp: write_bytes_def)
qed

lemma write_bytes_at: "k < length bs \<Longrightarrow> length bs < 2 ^ 64 \<Longrightarrow> write_bytes m p bs (p + of_nat k) = bs ! k"
  by (simp add: write_bytes_def unat_of_nat_u64)

definition targets :: "ram \<Rightarrow> u64 \<Rightarrow> u64 \<Rightarrow> nat \<Rightarrow> u64 set" where
  "targets m r va n = {p. \<exists>i < n. user_phys m r (va + of_nat i) = Some p}"

definition copied :: "u64 \<Rightarrow> u64 \<Rightarrow> nat \<Rightarrow> u8 list \<Rightarrow> ram \<Rightarrow> ram \<Rightarrow> bool" where
  "copied r va n src m m' \<longleftrightarrow> n \<le> length src \<longrightarrow> inj_on (\<lambda>i. user_phys m r (va + of_nat i)) {..<n} \<longrightarrow>
     (\<forall>i < n. m' (the (user_phys m r (va + of_nat i))) = src ! i)"

lemma copied_step:
  assumes here: "\<And>k. k < c \<Longrightarrow> user_phys m r (va + of_nat k) = Some (p + of_nat k)"
    and shift: "\<And>j. user_phys m r (va + of_nat (c + j)) = user_phys m1 r (va + of_nat c + of_nat j)"
    and m1: "m1 = write_bytes m p (take c src)" and c: "c < 2 ^ 64"
    and keep: "\<forall>x. x \<notin> targets m1 r (va + of_nat c) n \<longrightarrow> m' x = m1 x"
    and rest: "copied r (va + of_nat c) n (drop c src) m1 m'"
  shows "copied r va (c + n) src m m'"
  unfolding copied_def
proof (intro impI allI)
  fix i assume len: "c + n \<le> length src" and inj: "inj_on (\<lambda>i. user_phys m r (va + of_nat i)) {..<c + n}" and i: "i < c + n"
  show "m' (the (user_phys m r (va + of_nat i))) = src ! i"
  proof (cases "i < c")
    case True
    have "p + of_nat i \<notin> targets m1 r (va + of_nat c) n"
    proof
      assume "p + of_nat i \<in> targets m1 r (va + of_nat c) n"
      then obtain j where "j < n" "user_phys m r (va + of_nat (c + j)) = user_phys m r (va + of_nat i)"
        unfolding targets_def using here [OF True] shift by auto
      with inj i have "c + j = i" by (intro inj_onD [OF inj]) (simp_all only: lessThan_iff add_less_cancel_left)
      with True show False by simp
    qed
    with keep have "m' (p + of_nat i) = m1 (p + of_nat i)" by blast
    then show ?thesis using True here [OF True] len c write_bytes_at [of i "take c src" m p] by (simp add: m1)
  next
    case False
    then obtain j where j: "i = c + j" "j < n" using i by (metis add_less_cancel_left le_add_diff_inverse not_less)
    have "inj_on (\<lambda>j. user_phys m1 r (va + of_nat c + of_nat j)) {..<n}"
    proof (rule inj_onI)
      fix a b assume ab: "a \<in> {..<n}" "b \<in> {..<n}"
        and eq: "user_phys m1 r (va + of_nat c + of_nat a) = user_phys m1 r (va + of_nat c + of_nat b)"
      have "c + a = c + b" by (rule inj_onD [OF inj]) (use ab eq shift [of a] shift [of b] in simp_all)
      then show "a = b" by simp
    qed
    with rest len j(2) have "m' (the (user_phys m1 r (va + of_nat c + of_nat j))) = drop c src ! j"
      unfolding copied_def by simp
    with len j shift [of j] show ?thesis by simp
  qed
qed

lemma copy_to_spec:
  "copy_to r va rem src m = (ok, m') \<Longrightarrow> isolated m r \<Longrightarrow>
    (\<forall>x. x \<notin> targets m r va (unat rem) \<longrightarrow> m' x = m x) \<and>
    (ok \<longleftrightarrow> (\<forall>i < unat rem. user_phys m r (va + of_nat i) \<noteq> None)) \<and> (ok \<longrightarrow> copied r va (unat rem) src m m')"
proof (induction r va rem src m arbitrary: ok m' rule: copy_to.induct)
  case (1 r va rem src m)
  show ?case
  proof (cases "rem = 0")
    case True
    with "1.prems" show ?thesis by (simp add: copy_to.simps copied_def)
  next
    case nz: False
    show ?thesis
    proof (cases "vaddr_to_phys_page m r va")
      case None
      then have "user_phys m r (va + of_nat 0) = None" by (simp add: user_phys_def)
      with None nz "1.prems" show ?thesis by (auto simp: copy_to.simps unat_gt_0 intro!: exI [of _ 0])
    next
      case (Some res)
      obtain p sz e where res: "res = (p, sz, e)" by (cases res)
      with Some have v: "vaddr_to_phys_page m r va = Some (p, sz, e)" by simp
      define chunk where "chunk = chunk_size va sz rem"
      define c where "c = unat chunk"
      define m1 where "m1 = write_bytes m p (take c src)"
      have cc: "chunk = of_nat c" by (simp add: c_def)
      have rem: "unat (rem - chunk) = unat rem - c" "c \<le> unat rem"
        using chunk_decreases(1) [OF v nz] chunk_bounds(2) [OF v nz] by (simp_all add: chunk_def c_def)
      have run: "copy_to r (va + chunk) (rem - chunk) (drop c src) m1 = (ok, m')"
        using "1.prems"(1) nz v unfolding copy_to.simps [of r va rem src m]
        by (simp add: chunk_def [symmetric] c_def [symmetric] m1_def Let_def)
      have here: "user_phys m r (va + of_nat k) = Some (p + of_nat k)" if "k < c" for k
        using user_phys_chunk [OF v] that by (simp add: c_def chunk_def)
      have only: "\<exists>k < c. x = p + of_nat k" if "m1 x \<noteq> m x" for x
        using write_bytes_other [of "take c src" x p m] that by (auto simp: m1_def)
      have wr: "\<exists>va. user_phys m r va = Some x" if "m1 x \<noteq> m x" for x
        using only [OF that] here by blast
      have iso: "user_phys m1 r v = user_phys m r v" "isolated m1 r" for v
        using isolated_write(2,3) [OF "1.prems"(2), of m1] wr by blast+
      have IH: "(\<forall>x. x \<notin> targets m1 r (va + chunk) (unat (rem - chunk)) \<longrightarrow> m' x = m1 x) \<and>
        (ok \<longleftrightarrow> (\<forall>i < unat (rem - chunk). user_phys m1 r (va + chunk + of_nat i) \<noteq> None)) \<and>
        (ok \<longrightarrow> copied r (va + chunk) (unat (rem - chunk)) (drop c src) m1 m')"
        using "1.IH" [OF nz v refl refl chunk_def] run iso(2) by (simp add: c_def [symmetric] m1_def [symmetric])
      have shift: "user_phys m r (va + of_nat (c + j)) = user_phys m1 r (va + chunk + of_nat j)" for j
        unfolding iso(1) cc by (simp only: of_nat_add add.assoc)
      have split: "i < c \<or> (\<exists>j. i = c + j \<and> j < unat (rem - chunk))" if "i < unat rem" for i
        using that rem by (metis add_less_cancel_left le_add_diff_inverse not_less)
      have "m' x = m x" if x: "x \<notin> targets m r va (unat rem)" for x
      proof -
        have "user_phys m1 r (va + chunk + of_nat j) \<noteq> Some x" if "j < unat (rem - chunk)" for j
          using x that rem shift [of j] unfolding targets_def by (auto dest!: spec [of _ "c + j"])
        then have "m' x = m1 x" using IH unfolding targets_def by blast
        moreover have "x \<noteq> p + of_nat k" if "k < c" for k using x that rem(2) here [OF that] unfolding targets_def by auto
        ultimately show ?thesis using only [of x] by metis
      qed
      moreover have "ok \<longleftrightarrow> (\<forall>i < unat rem. user_phys m r (va + of_nat i) \<noteq> None)"
      proof
        assume ok
        then show "\<forall>i < unat rem. user_phys m r (va + of_nat i) \<noteq> None"
          using split here shift IH by (metis option.distinct(1))
      next
        assume all: "\<forall>i < unat rem. user_phys m r (va + of_nat i) \<noteq> None"
        have "c + j < unat rem" if "j < unat (rem - chunk)" for j using that rem by simp
        then show ok using all shift IH by metis
      qed
      moreover have "copied r va (unat rem) src m m'" if ok
      proof -
        have "c < 2 ^ 64" unfolding c_def by (rule unat_lt_2_64)
        moreover have "\<forall>x. x \<notin> targets m1 r (va + of_nat c) (unat rem - c) \<longrightarrow> m' x = m1 x"
          "copied r (va + of_nat c) (unat rem - c) (drop c src) m1 m'" using IH that rem(1) cc by auto
        ultimately have "copied r va (c + (unat rem - c)) src m m'"
          by (intro copied_step [OF here shift [unfolded cc] m1_def])
        with rem(2) show ?thesis by simp
      qed
      ultimately show ?thesis by blast
    qed
  qed
qed


section \<open>A concrete user page\<close>

definition user_ram :: ram where
  "user_ram = store_entry sample_ram 0x80003000 7 0x200007"

lemma load_user_ram:
  assumes "aligned 4096 t" and "i < 512"
  shows "load_entry user_ram t i = (if t = 0x80003000 \<and> i = 7 then 0x200007 else load_entry sample_ram t i)"
  using assms sample_aligned(4) by (auto simp: user_ram_def load_store_entry)

lemma user_ram_page:
  "vaddr_to_phys_page user_ram 0x80000000 va =
    (if pt_index 0 va = 0 \<and> pt_index 1 va = 0 \<and> pt_index 2 va = 0 \<and> pt_index 3 va = 7
     then Some (0x200000 + (va AND 0xFFF), PAGE_SIZE, 0x200007) else None)"
proof -
  have z: "load_entry sample_ram 0 i = 0" if "i < 512" for i using load_sample_ram [of 0 i] that by (simp add: aligned_def)
  show ?thesis
    by (simp add: vaddr_to_phys_page_def user_ok_def Let_def load_user_ram load_sample_ram sample_aligned present_def
        huge_def)
qed

lemma user_ram_phys:
  assumes "user_phys user_ram 0x80000000 va = Some p"
  shows "unat p < 0x201000"
proof -
  have p: "p = 0x200000 + (va AND 0xFFF)"
    using assms by (auto simp: user_phys_def user_ram_page split: if_splits)
  have "unat (va AND 0xFFF) < 4096" using unat_and_mask [of va 12] by (simp add: mask_eq_exp_minus_1)
  then show ?thesis unfolding p by (simp add: unat_add_no_wrap)
qed

lemma user_ram_walk: "walk user_ram 0x80000000 d va = walk sample_ram 0x80000000 d va"
proof (rule walk_cong)
  fix d' t assume "walk sample_ram 0x80000000 d' va = Some t"
  then have "aligned 4096 t" using walk_aligned sample_aligned(1) by blast
  then show "same_view (load_entry sample_ram t (pt_index d' va)) (load_entry user_ram t (pt_index d' va))"
    by (simp add: load_user_ram load_sample_ram same_view_def present_def huge_def)
qed

lemma user_ram_isolated: "isolated user_ram 0x80000000"
proof -
  have "\<not> p - t < PAGE_SIZE" if u: "unat p < 0x201000" and d: "d \<le> 3" and t: "t = 0x80000000 + of_nat d * 0x1000" for p t d
  proof -
    have "unat t = 0x80000000 + d * 0x1000" using d by (simp add: t unat_word_ariths unat_of_nat_u64)
    then have "unat (p - t) = unat p + 2 ^ 64 - unat t" using u by (simp only: unat_sub_if_size word_size) simp
    then show ?thesis using u d \<open>unat t = _\<close> by (simp add: word_less_nat_alt)
  qed
  then have "\<not> path_frame user_ram 0x80000000 p" if "user_phys user_ram 0x80000000 va = Some p" for va p
    using user_ram_phys [OF that] unfolding path_frame_def user_ram_walk
    by (auto simp: sample_walk split: if_splits)
  then show ?thesis using sample_aligned(1) by (simp add: isolated_def)
qed




end
