(* ===== verification/Pipe_Fs.thy ===== *)
theory Pipe_Fs
  imports Kernel_Prelude
begin

text \<open>
  Pipes, \<^verbatim>\<open>kernel/filesys/pipefs/pipe.cpp\<close> and the \<^verbatim>\<open>PipeBuffer\<close>/\<^verbatim>\<open>PipeFile\<close> part of
  \<^verbatim>\<open>kernel/filesys/vfs/vfs.hpp\<close>: a ring buffer of 4096 bytes with blocking reads and writes, and
  the table of named pipes. A read or write runs under the buffer's lock until it returns or has
  to sleep; the sleeping outcome is a value, after which other operations may run before the
  caller continues with the rest of its request. Positions and counts stay below 4097, so they are
  natural numbers; a wait queue is the list of the tasks in it.
\<close>

section \<open>Model\<close>

abbreviation (input) BUFFERSIZE :: nat where
  "BUFFERSIZE \<equiv> 4096"

abbreviation O_WRONLY :: u32 where "O_WRONLY \<equiv> 0x0001"
abbreviation O_RDWR :: u32 where "O_RDWR \<equiv> 0x0002"
abbreviation O_NONBLOCK :: u32 where "O_NONBLOCK \<equiv> 0x800"
abbreviation POLLIN :: u16 where "POLLIN \<equiv> 0x0001"
abbreviation POLLOUT :: u16 where "POLLOUT \<equiv> 0x0004"
abbreviation POLLERR :: u16 where "POLLERR \<equiv> 0x0008"
abbreviation POLLHUP :: u16 where "POLLHUP \<equiv> 0x0010"

record pipe_buffer =
  data :: "u8 list"
  ReadPos :: nat
  WritePos :: nat
  BytesAvailable :: nat
  IsWriteClosed :: bool
  Waiters :: "nat list"
  FullWaiters :: "nat list"
  woken :: "nat list"

text \<open>\<^verbatim>\<open>Tasking::WakeUp\<close> takes the head of a wait queue (the tasks it made ready are recorded);
  \<^verbatim>\<open>Tasking::SleepOn\<close> appends the caller.\<close>

definition wake_reader :: "pipe_buffer \<Rightarrow> pipe_buffer" where
  "wake_reader b = (case Waiters b of [] \<Rightarrow> b | t # ts \<Rightarrow> b\<lparr>Waiters := ts, woken := woken b @ [t]\<rparr>)"

definition wake_writer :: "pipe_buffer \<Rightarrow> pipe_buffer" where
  "wake_writer b = (case FullWaiters b of [] \<Rightarrow> b | t # ts \<Rightarrow> b\<lparr>FullWaiters := ts, woken := woken b @ [t]\<rparr>)"

definition sleep_reader :: "nat \<Rightarrow> pipe_buffer \<Rightarrow> pipe_buffer" where
  "sleep_reader t b = b\<lparr>Waiters := Waiters b @ [t]\<rparr>"

definition sleep_writer :: "nat \<Rightarrow> pipe_buffer \<Rightarrow> pipe_buffer" where
  "sleep_writer t b = b\<lparr>FullWaiters := FullWaiters b @ [t]\<rparr>"

datatype io_state = Returned | Asleep

definition read_chunk :: "nat \<Rightarrow> pipe_buffer \<Rightarrow> u8 list \<times> pipe_buffer" where
  "read_chunk BytesNeeded b =
     (let ChunkSize = min (min BytesNeeded (BytesAvailable b)) (BUFFERSIZE - ReadPos b) in
      (take ChunkSize (drop (ReadPos b) (data b)),
       wake_writer (b\<lparr>ReadPos := (ReadPos b + ChunkSize) mod BUFFERSIZE,
                      BytesAvailable := BytesAvailable b - ChunkSize\<rparr>)))"

partial_function (option) read_loop :: "u32 \<Rightarrow> nat \<Rightarrow> u8 list \<Rightarrow> pipe_buffer \<Rightarrow> (io_state \<times> u8 list \<times> pipe_buffer) option" where
  "read_loop flags Size acc b =
     (if length acc < Size then
        if BytesAvailable b = 0 then
          if IsWriteClosed b then Some (Returned, acc, b)
          else if flags AND O_NONBLOCK \<noteq> 0 then Some (Returned, acc, b)
          else Some (Asleep, acc, b)
        else case read_chunk (Size - length acc) b of
          (bytes, b') \<Rightarrow> read_loop flags Size (acc @ bytes) b'
      else Some (Returned, acc, b))"

definition write_chunk :: "u8 list \<Rightarrow> pipe_buffer \<Rightarrow> nat \<times> pipe_buffer" where
  "write_chunk bytes b =
     (let SpaceAvail = BUFFERSIZE - BytesAvailable b;
          ChunkSize = min (min (length bytes) SpaceAvail) (BUFFERSIZE - WritePos b) in
      (ChunkSize,
       wake_reader (b\<lparr>data := take (WritePos b) (data b) @ take ChunkSize bytes @ drop (WritePos b + ChunkSize) (data b),
                      WritePos := (WritePos b + ChunkSize) mod BUFFERSIZE,
                      BytesAvailable := BytesAvailable b + ChunkSize\<rparr>)))"

text \<open>The write loop: the bytes still to be written, and how many have been.\<close>

partial_function (option) write_loop :: "u32 \<Rightarrow> u8 list \<Rightarrow> nat \<Rightarrow> pipe_buffer \<Rightarrow> (io_state \<times> nat \<times> pipe_buffer) option" where
  "write_loop flags Buf WriteCount b =
     (if WriteCount < length Buf then
        if BytesAvailable b = BUFFERSIZE then
          if IsWriteClosed b then Some (Returned, WriteCount, b)
          else if flags AND O_NONBLOCK \<noteq> 0 then Some (Returned, WriteCount, b)
          else Some (Asleep, WriteCount, b)
        else case write_chunk (drop WriteCount Buf) b of
          (n, b') \<Rightarrow> write_loop flags Buf (WriteCount + n) b'
      else Some (Returned, WriteCount, b))"

definition is_writer :: "u32 \<Rightarrow> bool" where
  "is_writer flags \<longleftrightarrow> flags AND O_WRONLY \<noteq> 0 \<or> flags AND O_RDWR \<noteq> 0"

definition may_read :: "u32 \<Rightarrow> bool" where
  "may_read flags \<longleftrightarrow> \<not> (flags AND O_WRONLY \<noteq> 0 \<and> flags AND O_RDWR = 0)"

text \<open>\<^verbatim>\<open>PipeFileSystem::Read\<close> and \<^verbatim>\<open>Write\<close> on an open pipe, up to their return or first sleep.\<close>

definition pipe_Read :: "u32 \<Rightarrow> nat \<Rightarrow> pipe_buffer \<Rightarrow> (io_state \<times> u8 list \<times> pipe_buffer) option" where
  "pipe_Read flags Size b =
     (if Size = 0 then Some (Returned, [], b)
      else if \<not> may_read flags then Some (Returned, [], b)
      else read_loop flags Size [] b)"

definition pipe_Write :: "u32 \<Rightarrow> u8 list \<Rightarrow> pipe_buffer \<Rightarrow> (io_state \<times> nat \<times> pipe_buffer) option" where
  "pipe_Write flags Buf b =
     (if Buf = [] then Some (Returned, 0, b)
      else if \<not> is_writer flags then Some (Returned, 0, b)
      else write_loop flags Buf 0 b)"

definition close_buffer :: "u32 \<Rightarrow> pipe_buffer \<Rightarrow> pipe_buffer" where
  "close_buffer flags b =
     (if is_writer flags then wake_writer (wake_reader (b\<lparr>IsWriteClosed := True\<rparr>)) else wake_writer b)"

definition pipe_Poll :: "u16 \<Rightarrow> pipe_buffer \<Rightarrow> u16" where
  "pipe_Poll events b =
     (let revents = (if events AND POLLIN \<noteq> 0 \<and> (0 < BytesAvailable b \<or> IsWriteClosed b) then POLLIN else 0) in
      if events AND POLLOUT \<noteq> 0 \<and> BytesAvailable b < BUFFERSIZE then revents OR POLLOUT else revents)"

text \<open>\<^verbatim>\<open>PipeFile::Poll\<close>, for the two ends of an anonymous pipe; a null buffer is \<^const>\<open>None\<close>.\<close>

definition PipeFile_Poll :: "bool \<Rightarrow> u16 \<Rightarrow> pipe_buffer option \<Rightarrow> u16" where
  "PipeFile_Poll IsWriteEnd events ob =
     (case ob of
        None \<Rightarrow> POLLERR
      | Some b \<Rightarrow>
          let r1 = (if events AND POLLIN \<noteq> 0 \<and> \<not> IsWriteEnd \<and> (0 < BytesAvailable b \<or> IsWriteClosed b) then POLLIN else 0);
              r2 = (if events AND POLLOUT \<noteq> 0 \<and> IsWriteEnd \<and> BytesAvailable b < BUFFERSIZE then r1 OR POLLOUT else r1)
          in if IsWriteClosed b \<and> \<not> IsWriteEnd then r2 OR POLLHUP else r2)"

subsection \<open>Named pipes\<close>

text \<open>A table of 50 entries (name and buffer address) over a store of buffers. Address 0 is the
  null pointer; a name of more than 63 characters does not fit the entry, which is undefined.\<close>

record pipe_fs =
  NamedPipe :: "(string \<times> nat) list"
  buffers :: "nat \<rightharpoonup> pipe_buffer"

definition new_pipe_fs :: pipe_fs where
  "new_pipe_fs = \<lparr>NamedPipe = replicate 50 ('''', 0), buffers = Map.empty\<rparr>"

definition RemoveNamedPipeEntry :: "nat \<Rightarrow> pipe_fs \<Rightarrow> pipe_fs" where
  "RemoveNamedPipeEntry target fs =
     (case find_index (\<lambda>(n, a). a = target) (NamedPipe fs) of
        None \<Rightarrow> fs
      | Some i \<Rightarrow> fs\<lparr>NamedPipe := (NamedPipe fs)[i := ('''', 0)]\<rparr>)"

definition GetNamedPipeBuffer :: "string \<Rightarrow> pipe_fs \<Rightarrow> nat" where
  "GetNamedPipeBuffer name fs =
     (case find_index (\<lambda>(n, a). n = name) (NamedPipe fs) of
        None \<Rightarrow> 0
      | Some i \<Rightarrow> snd (NamedPipe fs ! i))"

definition empty_buffer :: "u8 list \<Rightarrow> pipe_buffer" where
  "empty_buffer garbage = \<lparr>data = garbage, ReadPos = 0, WritePos = 0, BytesAvailable = 0, IsWriteClosed = False,
     Waiters = [], FullWaiters = [], woken = []\<rparr>"

text \<open>\<^verbatim>\<open>CreateNamedPipe\<close>: \<open>addr\<close> is what \<^verbatim>\<open>new\<close> returned and \<open>garbage\<close> what that memory held.\<close>

definition CreateNamedPipe :: "nat \<Rightarrow> u8 list \<Rightarrow> string \<Rightarrow> pipe_fs \<Rightarrow> (nat \<times> pipe_fs) option" where
  "CreateNamedPipe addr garbage Name fs =
     (let fs = fs\<lparr>buffers := (buffers fs)(addr \<mapsto> empty_buffer garbage)\<rparr> in
      case find_index (\<lambda>(n, a). a = 0) (NamedPipe fs) of
        None \<Rightarrow> Some (0, fs)
      | Some i \<Rightarrow>
          if length Name < 64 then Some (addr, fs\<lparr>NamedPipe := (NamedPipe fs)[i := (Name, addr)]\<rparr>) else None)"

definition pipe_Lookup :: "string \<Rightarrow> pipe_fs \<Rightarrow> nat" where
  "pipe_Lookup path fs = (if path = '''' then 0 else GetNamedPipeBuffer path fs)"

definition pipe_CreateNode :: "nat \<Rightarrow> u8 list \<Rightarrow> string \<Rightarrow> pipe_fs \<Rightarrow> (nat \<times> pipe_fs) option" where
  "pipe_CreateNode addr garbage path fs =
     (if path = '''' then Some (0, fs) else CreateNamedPipe addr garbage path fs)"

text \<open>Stat and PopulateInode report the number of bytes waiting; the buffer is dereferenced.\<close>

definition pipe_Stat :: "string \<Rightarrow> pipe_fs \<Rightarrow> (nat \<times> nat) option option" where
  "pipe_Stat path fs =
     (let inode = pipe_Lookup path fs in
      if inode = 0 then Some None
      else map_option (\<lambda>b. Some (BytesAvailable b, inode)) (buffers fs inode))"

definition pipe_PopulateInode :: "nat \<Rightarrow> pipe_fs \<Rightarrow> nat option option" where
  "pipe_PopulateInode inode fs =
     (if inode = 0 then Some None else map_option (\<lambda>b. Some (BytesAvailable b)) (buffers fs inode))"

text \<open>\<^verbatim>\<open>PipeFileSystem::Close\<close> of a file whose inode has the given reference count.\<close>

definition pipe_Close :: "u32 \<Rightarrow> nat \<Rightarrow> nat \<Rightarrow> pipe_fs \<Rightarrow> pipe_fs option" where
  "pipe_Close flags inode RefCount fs =
     (if inode = 0 then Some fs
      else case buffers fs inode of
        None \<Rightarrow> None
      | Some b \<Rightarrow>
          let fs = fs\<lparr>buffers := (buffers fs)(inode \<mapsto> close_buffer flags b)\<rparr> in
          if RefCount = 1
          then let fs = RemoveNamedPipeEntry inode fs in Some (fs\<lparr>buffers := (buffers fs)(inode := None)\<rparr>)
          else Some fs)"

section \<open>The ring buffer as a queue\<close>

definition wf_pipe :: "pipe_buffer \<Rightarrow> bool" where
  "wf_pipe b \<longleftrightarrow> length (data b) = BUFFERSIZE \<and> ReadPos b < BUFFERSIZE \<and> BytesAvailable b \<le> BUFFERSIZE \<and>
     WritePos b = (ReadPos b + BytesAvailable b) mod BUFFERSIZE"

definition contents :: "pipe_buffer \<Rightarrow> u8 list" where
  "contents b = map (\<lambda>i. data b ! ((ReadPos b + i) mod BUFFERSIZE)) [0..<BytesAvailable b]"

lemma length_contents [simp]: "length (contents b) = BytesAvailable b"
  by (simp add: contents_def)

lemma nth_contents: "i < BytesAvailable b \<Longrightarrow> contents b ! i = data b ! ((ReadPos b + i) mod 4096)"
  by (simp add: contents_def)

lemma wake_frame [frame_simps]:
  "data (wake_reader b) = data b" "ReadPos (wake_reader b) = ReadPos b" "WritePos (wake_reader b) = WritePos b"
  "BytesAvailable (wake_reader b) = BytesAvailable b" "IsWriteClosed (wake_reader b) = IsWriteClosed b"
  "data (wake_writer b) = data b" "ReadPos (wake_writer b) = ReadPos b" "WritePos (wake_writer b) = WritePos b"
  "BytesAvailable (wake_writer b) = BytesAvailable b" "IsWriteClosed (wake_writer b) = IsWriteClosed b"
  by (simp_all add: wake_reader_def wake_writer_def split: list.split)

lemma wake_contents [frame_simps]:
  "contents (wake_reader b) = contents b" "contents (wake_writer b) = contents b"
  "wf_pipe (wake_reader b) = wf_pipe b" "wf_pipe (wake_writer b) = wf_pipe b"
  by (simp_all add: contents_def wf_pipe_def frame_simps)

lemma read_chunk_spec:
  assumes wf: "wf_pipe b" and "0 < BytesAvailable b" and "0 < n" and rc: "read_chunk n b = (bs, b')"
  shows "wf_pipe b' \<and> contents b = bs @ contents b' \<and> IsWriteClosed b' = IsWriteClosed b \<and> 0 < length bs \<and>
    length bs \<le> n"
proof -
  define c where "c = min (min n (BytesAvailable b)) (4096 - ReadPos b)"
  define b1 where "b1 = b\<lparr>ReadPos := (ReadPos b + c) mod 4096, BytesAvailable := BytesAvailable b - c\<rparr>"
  have bs: "bs = take c (drop (ReadPos b) (data b))" and b': "b' = wake_writer b1"
    using rc by (auto simp: read_chunk_def c_def b1_def Let_def)
  have c: "c \<le> BytesAvailable b" "ReadPos b + c \<le> 4096" "0 < c" "c \<le> n"
    using assms by (auto simp: c_def wf_pipe_def)
  have len: "length bs = c" using c wf by (simp add: bs wf_pipe_def)
  have "contents b = bs @ contents b1"
  proof (rule nth_equalityI)
    show "length (contents b) = length (bs @ contents b1)" using len c by (simp add: b1_def)
    fix i assume "i < length (contents b)"
    then have i: "i < BytesAvailable b" by simp
    show "contents b ! i = (bs @ contents b1) ! i"
    proof (cases "i < c")
      case True
      then show ?thesis using i c wf len by (simp add: nth_append nth_contents bs wf_pipe_def)
    next
      case False
      then obtain j where j: "i = c + j" by (metis le_add_diff_inverse not_less)
      then have "contents b1 ! j = data b ! ((ReadPos b + c + j) mod 4096)"
        using i mod_add_left_eq [of "ReadPos b + c" 4096 j] by (simp add: nth_contents b1_def)
      with j i len show ?thesis by (simp add: nth_append nth_contents add.assoc)
    qed
  qed
  moreover have "wf_pipe b1"
    using wf c mod_add_left_eq [of "ReadPos b + c" 4096 "BytesAvailable b - c"] by (auto simp: wf_pipe_def b1_def)
  ultimately show ?thesis using len c b' by (simp add: frame_simps b1_def)
qed

lemma write_chunk_spec:
  assumes wf: "wf_pipe b" and "BytesAvailable b < 4096" and "bytes \<noteq> []" and wc: "write_chunk bytes b = (c, b')"
  shows "wf_pipe b' \<and> contents b' = contents b @ take c bytes \<and> IsWriteClosed b' = IsWriteClosed b \<and> 0 < c \<and>
    c \<le> length bytes \<and> BytesAvailable b' = BytesAvailable b + c"
proof -
  define b1 where "b1 = b\<lparr>data := take (WritePos b) (data b) @ take c bytes @ drop (WritePos b + c) (data b),
    WritePos := (WritePos b + c) mod 4096, BytesAvailable := BytesAvailable b + c\<rparr>"
  have c_def: "c = min (min (length bytes) (4096 - BytesAvailable b)) (4096 - WritePos b)" and b': "b' = wake_reader b1"
    using wc by (auto simp: write_chunk_def b1_def Let_def)
  have W: "WritePos b = (ReadPos b + BytesAvailable b) mod 4096" "WritePos b < 4096" using wf by (auto simp: wf_pipe_def)
  have c: "BytesAvailable b + c \<le> 4096" "WritePos b + c \<le> 4096" "0 < c" "c \<le> length bytes"
    using assms(2,3) W(2) by (auto simp: c_def)
  have len: "length (data b) = 4096" using wf by (simp add: wf_pipe_def)
  have data: "data b1 ! k = (if WritePos b \<le> k \<and> k < WritePos b + c then bytes ! (k - WritePos b) else data b ! k)"
    if "k < 4096" for k
    using that c len W(2) by (auto simp: b1_def nth_append min_def)
  have old: "\<not> (WritePos b \<le> (ReadPos b + i) mod 4096 \<and> (ReadPos b + i) mod 4096 < WritePos b + c)"
    if "i < BytesAvailable b" for i
  proof
    assume in_new: "WritePos b \<le> (ReadPos b + i) mod 4096 \<and> (ReadPos b + i) mod 4096 < WritePos b + c"
    define x where "x = (ReadPos b + i) mod 4096 - WritePos b"
    have x: "(ReadPos b + i) mod 4096 = WritePos b + x" "x < c" using in_new by (auto simp: x_def)
    have "(WritePos b + x) mod 4096 = (ReadPos b + (BytesAvailable b + x)) mod 4096"
      using W(1) mod_add_left_eq [of "ReadPos b + BytesAvailable b" 4096 x] by (simp add: add.assoc)
    moreover have "(WritePos b + x) mod 4096 = (ReadPos b + i) mod 4096" using x(1) by (metis mod_mod_trivial)
    ultimately have "(ReadPos b + i) mod 4096 = (ReadPos b + (BytesAvailable b + x)) mod 4096" by simp
    then have "i mod 4096 = (BytesAvailable b + x) mod 4096" unfolding nat_mod_eq_iff by (simp add: add.assoc)
    with that c x(2) show False by simp
  qed
  have "contents b1 = contents b @ take c bytes"
  proof (rule nth_equalityI)
    show "length (contents b1) = length (contents b @ take c bytes)" using c by (simp add: b1_def)
    fix i assume "i < length (contents b1)"
    then have i: "i < BytesAvailable b + c" by (simp add: b1_def)
    then have i1: "contents b1 ! i = data b1 ! ((ReadPos b + i) mod 4096)" by (simp add: nth_contents b1_def)
    show "contents b1 ! i = (contents b @ take c bytes) ! i"
    proof (cases "i < BytesAvailable b")
      case True
      then show ?thesis using i1 data [of "(ReadPos b + i) mod 4096"] old [OF True] by (auto simp: nth_append nth_contents)
    next
      case False
      then obtain j where j: "i = BytesAvailable b + j" by (metis le_add_diff_inverse not_less)
      have "(ReadPos b + i) mod 4096 = (WritePos b + j) mod 4096"
        using W(1) j mod_add_left_eq [of "ReadPos b + BytesAvailable b" 4096 j] by (simp add: add.assoc)
      also have "\<dots> = WritePos b + j" using i c j by simp
      finally show ?thesis using i1 data [of "WritePos b + j"] i c j by (simp add: nth_append)
    qed
  qed
  moreover have "wf_pipe b1"
    using wf c len W by (simp add: wf_pipe_def b1_def mod_add_left_eq add.assoc)
  ultimately show ?thesis using c b' by (simp add: frame_simps b1_def)
qed

definition sleeps :: "u32 \<Rightarrow> pipe_buffer \<Rightarrow> bool" where
  "sleeps flags b \<longleftrightarrow> \<not> IsWriteClosed b \<and> flags AND O_NONBLOCK = 0"

lemma read_loop_spec:
  assumes "wf_pipe b" and "length acc \<le> Size"
  shows "\<exists>st bs b'. read_loop flags Size acc b = Some (st, acc @ bs, b') \<and> wf_pipe b' \<and>
    contents b = bs @ contents b' \<and> IsWriteClosed b' = IsWriteClosed b \<and>
    length bs = min (Size - length acc) (BytesAvailable b) \<and>
    (st = Asleep \<longleftrightarrow> BytesAvailable b < Size - length acc \<and> sleeps flags b)"
  using assms
proof (induction "Size - length acc" arbitrary: acc b rule: less_induct)
  case less
  show ?case
  proof (cases "length acc < Size \<and> BytesAvailable b \<noteq> 0")
    case False
    with less.prems show ?thesis by (subst read_loop.simps) (auto simp: sleeps_def)
  next
    case True
    obtain bs b1 where rc: "read_chunk (Size - length acc) b = (bs, b1)" by fastforce
    from read_chunk_spec [OF less.prems(1) _ _ rc] True have s: "wf_pipe b1" "contents b = bs @ contents b1"
      "IsWriteClosed b1 = IsWriteClosed b" "0 < length bs" "length bs \<le> Size - length acc" by auto
    from s(2) have av: "BytesAvailable b = length bs + BytesAvailable b1" by (metis length_append length_contents)
    have "Size - length (acc @ bs) < Size - length acc" "length (acc @ bs) \<le> Size"
      using s(4,5) True unfolding length_append by linarith+
    from less.hyps [OF this(1) s(1) this(2)] obtain st bs' b' where
      "read_loop flags Size (acc @ bs) b1 = Some (st, (acc @ bs) @ bs', b')" "wf_pipe b'" "contents b1 = bs' @ contents b'"
      "IsWriteClosed b' = IsWriteClosed b1" "length bs' = min (Size - length (acc @ bs)) (BytesAvailable b1)"
      "st = Asleep \<longleftrightarrow> BytesAvailable b1 < Size - length (acc @ bs) \<and> sleeps flags b1" by blast
    moreover have "read_loop flags Size acc b = read_loop flags Size (acc @ bs) b1"
      using True rc by (subst read_loop.simps) simp
    ultimately show ?thesis using s av
      by (intro exI [of _ st] exI [of _ "bs @ bs'"] exI [of _ b']) (auto simp: sleeps_def)
  qed
qed

lemma write_loop_spec:
  assumes "wf_pipe b" and "n \<le> length Buf"
  shows "\<exists>st k b'. write_loop flags Buf n b = Some (st, n + k, b') \<and> wf_pipe b' \<and>
    contents b' = contents b @ take k (drop n Buf) \<and> IsWriteClosed b' = IsWriteClosed b \<and>
    k = min (length Buf - n) (BUFFERSIZE - BytesAvailable b) \<and>
    (st = Asleep \<longleftrightarrow> BUFFERSIZE - BytesAvailable b < length Buf - n \<and> sleeps flags b)"
  using assms
proof (induction "length Buf - n" arbitrary: n b rule: less_induct)
  case less
  have le: "BytesAvailable b \<le> 4096" using less.prems(1) by (simp add: wf_pipe_def)
  show ?case
  proof (cases "n < length Buf \<and> BytesAvailable b \<noteq> 4096")
    case False
    with less.prems show ?thesis by (subst write_loop.simps) (auto simp: sleeps_def)
  next
    case True
    obtain c b1 where wc: "write_chunk (drop n Buf) b = (c, b1)" by fastforce
    from write_chunk_spec [OF less.prems(1) _ _ wc] True le have s: "wf_pipe b1"
      "contents b1 = contents b @ take c (drop n Buf)" "IsWriteClosed b1 = IsWriteClosed b" "0 < c" "n + c \<le> length Buf"
      "BytesAvailable b1 = BytesAvailable b + c" by auto
    have "length Buf - (n + c) < length Buf - n" using s(4) True by auto
    from less.hyps [OF this s(1,5)] obtain st k b' where
      IH: "write_loop flags Buf (n + c) b1 = Some (st, n + c + k, b')" "wf_pipe b'"
      "contents b' = contents b1 @ take k (drop (n + c) Buf)"
      "IsWriteClosed b' = IsWriteClosed b1" "k = min (length Buf - (n + c)) (4096 - BytesAvailable b1)"
      "st = Asleep \<longleftrightarrow> 4096 - BytesAvailable b1 < length Buf - (n + c) \<and> sleeps flags b1" by blast
    have "write_loop flags Buf n b = write_loop flags Buf (n + c) b1"
      using True wc by (subst write_loop.simps) simp
    moreover have "take c (drop n Buf) @ take k (drop (n + c) Buf) = take (c + k) (drop n Buf)"
      by (simp add: take_add add.commute)
    moreover have "BytesAvailable b1 \<le> 4096" using s(1) by (simp add: wf_pipe_def)
    moreover have "c + k = min (length Buf - n) (4096 - BytesAvailable b)"
      using IH(5) s(5,6) \<open>BytesAvailable b1 \<le> 4096\<close> by (simp add: min_def) linarith
    moreover have "st = Asleep \<longleftrightarrow> 4096 - BytesAvailable b < length Buf - n \<and> sleeps flags b"
      using IH(6) s(3,5,6) \<open>BytesAvailable b1 \<le> 4096\<close> unfolding sleeps_def by auto
    moreover have "IsWriteClosed b' = IsWriteClosed b" using IH(4) s(3) by simp
    moreover have "contents b' = contents b @ take c (drop n Buf) @ take k (drop (n + c) Buf)" using IH(3) s(2) by simp
    ultimately show ?thesis using IH(1,2)
      by (intro exI [of _ st] exI [of _ "c + k"] exI [of _ b']) (simp add: add.assoc)
  qed
qed

text \<open>The contract of a byte queue with blocking ends, and what any interleaving of its operations
  preserves. \<open>run_ops\<close> executes a sequence of operations (a sleeping read or write continues as a
  later operation for the rest of its bytes) and collects what was accepted and delivered.\<close>

datatype pipe_op = OpRead u32 nat | OpWrite u32 "u8 list" | OpClose u32

fun run_ops :: "(u32 \<Rightarrow> u8 list \<Rightarrow> 's \<Rightarrow> (io_state \<times> nat \<times> 's) option) \<Rightarrow> (u32 \<Rightarrow> nat \<Rightarrow> 's \<Rightarrow> (io_state \<times> u8 list \<times> 's) option) \<Rightarrow>
    (u32 \<Rightarrow> 's \<Rightarrow> 's) \<Rightarrow> pipe_op list \<Rightarrow> 's \<Rightarrow> (u8 list \<times> u8 list \<times> 's) option" where
  "run_ops put get shut [] s = Some ([], [], s)"
| "run_ops put get shut (OpRead fl n # ops) s =
     (case get fl n s of
        None \<Rightarrow> None
      | Some (_, bs, s') \<Rightarrow> map_option (\<lambda>(w, r, t). (w, bs @ r, t)) (run_ops put get shut ops s'))"
| "run_ops put get shut (OpWrite fl buf # ops) s =
     (case put fl buf s of
        None \<Rightarrow> None
      | Some (_, k, s') \<Rightarrow> map_option (\<lambda>(w, r, t). (take k buf @ w, r, t)) (run_ops put get shut ops s'))"
| "run_ops put get shut (OpClose fl # ops) s = run_ops put get shut ops (shut fl s)"

locale byte_fifo =
  fixes inv :: "'s \<Rightarrow> bool"
    and queue :: "'s \<Rightarrow> u8 list"
    and put :: "u32 \<Rightarrow> u8 list \<Rightarrow> 's \<Rightarrow> (io_state \<times> nat \<times> 's) option"
    and get :: "u32 \<Rightarrow> nat \<Rightarrow> 's \<Rightarrow> (io_state \<times> u8 list \<times> 's) option"
    and shut :: "u32 \<Rightarrow> 's \<Rightarrow> 's"
  assumes put_law: "inv s \<Longrightarrow> \<exists>st k s'. put fl buf s = Some (st, k, s') \<and> inv s' \<and> queue s' = queue s @ take k buf"
    and get_law: "inv s \<Longrightarrow> \<exists>st bs s'. get fl n s = Some (st, bs, s') \<and> inv s' \<and> queue s = bs @ queue s'"
    and shut_law: "inv s \<Longrightarrow> inv (shut fl s) \<and> queue (shut fl s) = queue s"
begin

lemma run_ops_fifo:
  "inv s \<Longrightarrow> \<exists>w r s'. run_ops put get shut ops s = Some (w, r, s') \<and> inv s' \<and> queue s @ w = r @ queue s'"
proof (induction ops arbitrary: s)
  case Nil
  then show ?case by simp
next
  case (Cons op ops)
  show ?case
  proof (cases op)
    case (OpRead fl n)
    obtain st bs s1 where g: "get fl n s = Some (st, bs, s1)" "inv s1" "queue s = bs @ queue s1"
      using get_law [OF Cons.prems, of fl n] by auto
    from Cons.IH [OF g(2)] show ?thesis using OpRead g(1,3) by auto
  next
    case (OpWrite fl buf)
    obtain st k s1 where p: "put fl buf s = Some (st, k, s1)" "inv s1" "queue s1 = queue s @ take k buf"
      using put_law [OF Cons.prems, of fl buf] by auto
    from Cons.IH [OF p(2)] show ?thesis using OpWrite p(1,3) by auto
  next
    case (OpClose fl)
    with Cons.IH [of "shut fl s"] shut_law [OF Cons.prems, of fl] show ?thesis by auto
  qed
qed

end

interpretation pf: byte_fifo wf_pipe contents pipe_Write pipe_Read close_buffer
proof
  fix s :: pipe_buffer and fl :: u32 and buf :: "u8 list" and n :: nat
  assume wf: "wf_pipe s"
  show "\<exists>st k s'. pipe_Write fl buf s = Some (st, k, s') \<and> wf_pipe s' \<and> contents s' = contents s @ take k buf"
    using write_loop_spec [OF wf, of 0 buf fl] wf by (auto simp: pipe_Write_def)
  show "\<exists>st bs s'. pipe_Read fl n s = Some (st, bs, s') \<and> wf_pipe s' \<and> contents s = bs @ contents s'"
    using read_loop_spec [OF wf, of "[]" n fl] wf by (auto simp: pipe_Read_def)
  show "wf_pipe (close_buffer fl s) \<and> contents (close_buffer fl s) = contents s"
    using wf by (simp add: close_buffer_def frame_simps wf_pipe_def contents_def)
qed

text \<open>C36. Whatever the interleaving of reads, writes and closes on a pipe, no operation leaves the
  buffer, and the bytes delivered followed by the bytes still buffered are exactly the bytes that
  were buffered followed by the bytes accepted, in order: nothing is lost, duplicated or reordered.\<close>

theorem pipe_is_fifo:
  assumes "wf_pipe b"
  shows "\<exists>w r b'. run_ops pipe_Write pipe_Read close_buffer ops b = Some (w, r, b') \<and> wf_pipe b' \<and>
    contents b @ w = r @ contents b'"
  by (rule pf.run_ops_fifo [OF assms])

text \<open>A read of \<open>Size\<close> bytes always terminates with exactly the oldest \<open>min Size available\<close> bytes;
  it sleeps exactly when the pipe has too few bytes, a writer may still come, and blocking is allowed.\<close>

theorem pipe_Read_exact:
  assumes "wf_pipe b" and "may_read flags"
  shows "\<exists>st b'. pipe_Read flags Size b = Some (st, take Size (contents b), b') \<and> wf_pipe b' \<and>
    contents b' = drop Size (contents b) \<and>
    (st = Asleep \<longleftrightarrow> BytesAvailable b < Size \<and> \<not> IsWriteClosed b \<and> flags AND O_NONBLOCK = 0)"
proof (cases "Size = 0")
  case True
  with assms show ?thesis by (auto simp: pipe_Read_def)
next
  case False
  from read_loop_spec [OF assms(1), of "[]" Size flags] obtain st bs b' where
    r: "read_loop flags Size [] b = Some (st, bs, b')" "wf_pipe b'" "contents b = bs @ contents b'"
    "length bs = min Size (BytesAvailable b)" "st = Asleep \<longleftrightarrow> BytesAvailable b < Size \<and> sleeps flags b" by auto
  have "bs = take Size (contents b)" "contents b' = drop Size (contents b)"
  proof -
    have "length (contents b) = BytesAvailable b" by simp
    then have "Size = length bs \<or> length (contents b) = length bs \<and> length bs \<le> Size" using r(4) by auto
    moreover have "contents b' = []" if "length (contents b) = length bs"
      using that r(3) by (metis add_cancel_right_right length_0_conv length_append)
    ultimately consider "Size = length bs" | "contents b' = []" "length bs \<le> Size" by blast
    then show "bs = take Size (contents b)" "contents b' = drop Size (contents b)" by (cases; simp add: r(3))+
  qed
  note e = this
  have "pipe_Read flags Size b = Some (st, bs, b')" using r(1) False assms(2) by (simp add: pipe_Read_def)
  then show ?thesis using r(2,5) e(2) unfolding e(1) sleeps_def by blast
qed

text \<open>A write always terminates and appends exactly the longest prefix of the buffer that fits;
  it sleeps exactly when something is left over, no writer has closed and blocking is allowed.\<close>

theorem pipe_Write_exact:
  assumes "wf_pipe b" and "is_writer flags"
  shows "\<exists>st b'. pipe_Write flags Buf b = Some (st, min (length Buf) (4096 - BytesAvailable b), b') \<and> wf_pipe b' \<and>
    contents b' = contents b @ take (4096 - BytesAvailable b) Buf \<and>
    (st = Asleep \<longleftrightarrow> 4096 - BytesAvailable b < length Buf \<and> \<not> IsWriteClosed b \<and> flags AND O_NONBLOCK = 0)"
proof (cases "Buf = []")
  case True
  with assms show ?thesis by (auto simp: pipe_Write_def)
next
  case False
  from write_loop_spec [OF assms(1), of 0 Buf flags] obtain st b' where
    w: "write_loop flags Buf 0 b = Some (st, min (length Buf) (4096 - BytesAvailable b), b')" "wf_pipe b'"
    "contents b' = contents b @ take (min (length Buf) (4096 - BytesAvailable b)) Buf"
    "st = Asleep \<longleftrightarrow> 4096 - BytesAvailable b < length Buf \<and> sleeps flags b" by auto
  moreover have "take (min (length Buf) (4096 - BytesAvailable b)) Buf = take (4096 - BytesAvailable b) Buf"
    by (simp add: min_def)
  ultimately show ?thesis using False assms(2) by (auto simp: pipe_Write_def sleeps_def)
qed

text \<open>\<^verbatim>\<open>Poll\<close> is truthful: it reports \<^verbatim>\<open>POLLIN\<close> exactly when a blocking read of one byte would not
  sleep, and \<^verbatim>\<open>POLLOUT\<close> only when a blocking write of one byte would not sleep.\<close>

theorem Poll_truthful:
  assumes "wf_pipe b"
  shows "(pipe_Poll POLLIN b = POLLIN \<longleftrightarrow> (\<exists>bs b'. pipe_Read 0 1 b = Some (Returned, bs, b'))) \<and>
    (pipe_Poll POLLOUT b = POLLOUT \<longrightarrow> (\<exists>b'. pipe_Write O_WRONLY [x] b = Some (Returned, 1, b')))"
proof -
  obtain st bs b1 where r: "pipe_Read 0 1 b = Some (st, bs, b1)" "st = Asleep \<longleftrightarrow> BytesAvailable b < 1 \<and> \<not> IsWriteClosed b"
    using read_loop_spec [OF assms, of "[]" 1 0] by (auto simp: pipe_Read_def may_read_def sleeps_def)
  obtain st' k b2 where w: "pipe_Write O_WRONLY [x] b = Some (st', k, b2)" "k = min 1 (4096 - BytesAvailable b)"
    "st' = Asleep \<longrightarrow> BytesAvailable b = 4096"
    using write_loop_spec [OF assms, of 0 "[x]" O_WRONLY] assms
    by (auto simp: pipe_Write_def is_writer_def wf_pipe_def)
  show ?thesis using r w by (cases st; cases st') (auto simp: pipe_Poll_def)
qed

lemma quiet_write:
  assumes "wf_pipe b" and "n \<le> length Buf" and "Waiters b = []" and "write_loop fl Buf n b = Some (st, k, b')"
  shows "Waiters b' = [] \<and> woken b' = woken b"
  using assms
proof (induction "length Buf - n" arbitrary: n b rule: less_induct)
  case less
  have le: "BytesAvailable b \<le> 4096" using less.prems(1) by (simp add: wf_pipe_def)
  show ?case
  proof (cases "n < length Buf \<and> BytesAvailable b \<noteq> 4096")
    case False
    with less.prems(3,4) show ?thesis by (subst (asm) write_loop.simps) (auto split: if_splits)
  next
    case True
    obtain c b1 where wc: "write_chunk (drop n Buf) b = (c, b1)" by fastforce
    from write_chunk_spec [OF less.prems(1) _ _ wc] True le have s: "wf_pipe b1" "0 < c" "n + c \<le> length Buf" by auto
    have "b1 = snd (write_chunk (drop n Buf) b)" by (simp add: wc)
    then have "Waiters b1 = []" "woken b1 = woken b"
      using less.prems(3) by (simp_all add: write_chunk_def wake_reader_def Let_def)
    moreover have "write_loop fl Buf (n + c) b1 = Some (st, k, b')"
      using less.prems(4) True wc by (subst (asm) write_loop.simps) simp
    moreover have "length Buf - (n + c) < length Buf - n" using s(2) True by auto
    ultimately show ?thesis using less.hyps [of "n + c" b1] s by simp
  qed
qed

text \<open>The wake-up of a reader can be lost: the lock is released before \<^verbatim>\<open>SleepOn\<close> queues the reader,
  so a writer that runs in between finds no waiter; afterwards the reader sleeps in the queue of a
  pipe that has data, and the write has woken nobody.\<close>

theorem lost_wakeup:
  assumes "wf_pipe b" and "BytesAvailable b = 0" and "\<not> IsWriteClosed b" and "Waiters b = []"
    and "Buf \<noteq> []" and "length Buf \<le> 4096" and "0 < Size"
  shows "\<exists>b1 b2. pipe_Read 0 Size b = Some (Asleep, [], b1) \<and> pipe_Write O_WRONLY Buf b1 = Some (Returned, length Buf, b2) \<and>
    reader \<in> set (Waiters (sleep_reader reader b2)) \<and> contents (sleep_reader reader b2) = Buf \<and>
    woken (sleep_reader reader b2) = woken b"
proof -
  have r: "pipe_Read 0 Size b = Some (Asleep, [], b)"
    using assms(2,3,7) by (simp add: pipe_Read_def may_read_def) (subst read_loop.simps, simp)
  obtain st b2 where w: "write_loop O_WRONLY Buf 0 b = Some (st, length Buf, b2)" "contents b2 = Buf" "st \<noteq> Asleep"
    using write_loop_spec [OF assms(1), of 0 Buf O_WRONLY] assms(2,6) by (auto simp: contents_def min_def)
  have "pipe_Write O_WRONLY Buf b = Some (Returned, length Buf, b2)"
    using w assms(5) by (cases st) (simp_all add: pipe_Write_def is_writer_def)
  moreover have "Waiters b2 = [] \<and> woken b2 = woken b"
    using quiet_write [OF assms(1) _ assms(4) w(1)] by simp
  moreover have "contents (sleep_reader reader b2) = contents b2" by (simp add: sleep_reader_def contents_def)
  ultimately show ?thesis using r w(2) by (intro exI [of _ b] exI [of _ b2]) (simp add: sleep_reader_def)
qed

text \<open>The first writer that closes ends the stream for every reader: a blocking read of the drained
  pipe returns 0 bytes at once (end of file) although another writer is still open, and bytes that
  writer sends are accepted afterwards.\<close>

theorem first_close_is_eof:
  assumes "wf_pipe b" and "BytesAvailable b = 0" and "is_writer flags" and "0 < Size" and "Buf \<noteq> []" and "length Buf \<le> 4096"
  shows "\<exists>b1 b2. pipe_Read 0 Size (close_buffer flags b) = Some (Returned, [], b1) \<and>
    pipe_Write O_WRONLY Buf b1 = Some (Returned, length Buf, b2) \<and> contents b2 = Buf"
proof -
  define b0 where "b0 = close_buffer flags b"
  have b0: "BytesAvailable b0 = 0" "IsWriteClosed b0" "wf_pipe b0"
    using assms(1-3) by (simp_all add: b0_def close_buffer_def frame_simps wf_pipe_def)
  have "pipe_Read 0 Size b0 = Some (Returned, [], b0)"
    using b0(1,2) assms(4) by (simp add: pipe_Read_def may_read_def) (subst read_loop.simps, simp)
  moreover obtain st b2 where "write_loop O_WRONLY Buf 0 b0 = Some (st, length Buf, b2)" "contents b2 = Buf" "st \<noteq> Asleep"
    using write_loop_spec [OF b0(3), of 0 Buf O_WRONLY] b0(1) assms(6) by (auto simp: contents_def min_def)
  moreover from this have "pipe_Write O_WRONLY Buf b0 = Some (Returned, length Buf, b2)"
    using assms(5) by (cases st) (simp_all add: pipe_Write_def is_writer_def)
  ultimately show ?thesis unfolding b0_def by blast
qed

section \<open>The table of named pipes\<close>

text \<open>A free entry has an empty name; the addresses in use are distinct and live.\<close>

definition wf_pipe_fs :: "pipe_fs \<Rightarrow> bool" where
  "wf_pipe_fs fs \<longleftrightarrow> length (NamedPipe fs) = 50 \<and>
     (\<forall>i < 50. \<forall>j < 50. snd (NamedPipe fs ! i) = snd (NamedPipe fs ! j) \<longrightarrow> snd (NamedPipe fs ! i) \<noteq> 0 \<longrightarrow> i = j) \<and>
     (\<forall>i < 50. (snd (NamedPipe fs ! i) = 0 \<longleftrightarrow> fst (NamedPipe fs ! i) = '''') \<and>
        (snd (NamedPipe fs ! i) \<noteq> 0 \<longrightarrow> buffers fs (snd (NamedPipe fs ! i)) \<noteq> None))"

lemma new_pipe_fs_wf: "wf_pipe_fs new_pipe_fs"
  by (simp add: wf_pipe_fs_def new_pipe_fs_def)

text \<open>A named pipe that was created is found under its name, and the last close of it restores the
  whole file system state: the table entry is free again and the buffer is released.\<close>

theorem create_lookup_close:
  assumes wf: "wf_pipe_fs fs" and "path \<noteq> ''''" and "length path < 64" and "addr \<noteq> 0" and fresh: "buffers fs addr = None"
    and free: "\<exists>i < 50. snd (NamedPipe fs ! i) = 0" and new: "\<forall>i < 50. fst (NamedPipe fs ! i) \<noteq> path"
  shows "\<exists>fs1. pipe_CreateNode addr garbage path fs = Some (addr, fs1) \<and> pipe_Lookup path fs1 = addr \<and>
    wf_pipe_fs fs1 \<and> pipe_Close flags addr 1 fs1 = Some fs"
proof -
  have len: "length (NamedPipe fs) = 50" using wf by (simp add: wf_pipe_fs_def)
  obtain i where i: "find_index (\<lambda>(n, a). a = 0) (NamedPipe fs) = Some i"
    using free find_index_None_nth [of "\<lambda>(n, a). a = 0" "NamedPipe fs"] len
    by (cases "find_index (\<lambda>(n, a). a = 0) (NamedPipe fs)") (auto simp: case_prod_beta)
  have i50: "i < 50" and zero: "snd (NamedPipe fs ! i) = 0"
    using find_index_SomeD [OF i] len by (auto simp: case_prod_beta)
  have entry: "NamedPipe fs ! i = ('''', 0)" using wf i50 zero by (auto simp: wf_pipe_fs_def prod_eq_iff)
  have notin: "snd (NamedPipe fs ! j) \<noteq> addr" if "j < 50" for j
    using wf that fresh assms(4) by (auto simp: wf_pipe_fs_def)
  define tbl where "tbl = (NamedPipe fs)[i := (path, addr)]"
  define fs1 where "fs1 = fs\<lparr>buffers := (buffers fs)(addr \<mapsto> empty_buffer garbage), NamedPipe := tbl\<rparr>"
  have create: "pipe_CreateNode addr garbage path fs = Some (addr, fs1)"
    using assms(2,3) i by (simp add: pipe_CreateNode_def CreateNamedPipe_def fs1_def tbl_def Let_def)
  have "find_index (\<lambda>(n, a). n = path) tbl = Some i"
    by (rule find_index_unique) (use new i50 len in \<open>auto simp: tbl_def nth_list_update case_prod_beta split: if_splits\<close>)
  then have lookup: "pipe_Lookup path fs1 = addr"
    using assms(2) i50 len by (simp add: pipe_Lookup_def GetNamedPipeBuffer_def fs1_def tbl_def)
  have wf1: "wf_pipe_fs fs1"
    using wf i50 len notin assms(2,4) by (auto simp: wf_pipe_fs_def fs1_def tbl_def nth_list_update)
  have "find_index (\<lambda>(n, a). a = addr) tbl = Some i"
    by (rule find_index_unique) (use notin i50 len in \<open>auto simp: tbl_def nth_list_update case_prod_beta split: if_splits\<close>)
  then have "pipe_Close flags addr 1 fs1 = Some fs"
    using assms(4) fresh entry list_update_id [of "NamedPipe fs" i]
    by (simp add: pipe_Close_def RemoveNamedPipeEntry_def fs1_def tbl_def Let_def fun_upd_idem)
  with create lookup wf1 show ?thesis by blast
qed

section \<open>A concrete pipe\<close>

definition sample_pipe :: pipe_buffer where
  "sample_pipe = empty_buffer (replicate 4096 0)"

lemma sample_pipe_wf: "wf_pipe sample_pipe"
  by (simp add: sample_pipe_def empty_buffer_def wf_pipe_def)

lemma pipe_is_fifo_witness:
  "\<exists>w r b'. run_ops pipe_Write pipe_Read close_buffer [OpWrite 1 [10, 20, 30], OpRead 0 2, OpClose 1, OpRead 0 5] sample_pipe =
      Some (w, r, b') \<and> wf_pipe b' \<and> contents sample_pipe @ w = r @ contents b'"
  by (rule pipe_is_fifo [OF sample_pipe_wf])

lemma pipe_Read_exact_witness:
  "\<exists>st b'. pipe_Read 0 7 sample_pipe = Some (st, take 7 (contents sample_pipe), b') \<and> wf_pipe b' \<and>
    contents b' = drop 7 (contents sample_pipe) \<and>
    (st = Asleep \<longleftrightarrow> BytesAvailable sample_pipe < 7 \<and> \<not> IsWriteClosed sample_pipe \<and> (0 :: u32) AND O_NONBLOCK = 0)"
  by (rule pipe_Read_exact [OF sample_pipe_wf]) (simp add: may_read_def)

lemma pipe_Write_exact_witness:
  "\<exists>st b'. pipe_Write O_WRONLY [1, 2, 3] sample_pipe = Some (st, min (length [1, 2, 3 :: u8]) (4096 - BytesAvailable sample_pipe), b') \<and>
    wf_pipe b' \<and> contents b' = contents sample_pipe @ take (4096 - BytesAvailable sample_pipe) [1, 2, 3] \<and>
    (st = Asleep \<longleftrightarrow> 4096 - BytesAvailable sample_pipe < length [1, 2, 3 :: u8] \<and> \<not> IsWriteClosed sample_pipe \<and>
      O_WRONLY AND O_NONBLOCK = 0)"
  by (rule pipe_Write_exact [OF sample_pipe_wf]) (simp add: is_writer_def)

lemma Poll_truthful_witness:
  "pipe_Poll POLLOUT sample_pipe = POLLOUT \<and> (\<exists>b'. pipe_Write O_WRONLY [7] sample_pipe = Some (Returned, 1, b')) \<and>
    pipe_Poll POLLIN sample_pipe \<noteq> POLLIN \<and> (\<nexists>bs b'. pipe_Read 0 1 sample_pipe = Some (Returned, bs, b'))"
proof -
  have "pipe_Poll POLLOUT sample_pipe = POLLOUT" "pipe_Poll POLLIN sample_pipe \<noteq> POLLIN"
    by (simp_all add: pipe_Poll_def sample_pipe_def empty_buffer_def)
  then show ?thesis using Poll_truthful [OF sample_pipe_wf, of 7] by blast
qed

lemma lost_wakeup_witness:
  "\<exists>b1 b2. pipe_Read 0 4 sample_pipe = Some (Asleep, [], b1) \<and>
    pipe_Write O_WRONLY [9] b1 = Some (Returned, length [9 :: u8], b2) \<and>
    5 \<in> set (Waiters (sleep_reader 5 b2)) \<and> contents (sleep_reader 5 b2) = [9] \<and> woken (sleep_reader 5 b2) = woken sample_pipe"
  by (rule lost_wakeup [OF sample_pipe_wf]) (simp_all add: sample_pipe_def empty_buffer_def)

lemma first_close_is_eof_witness:
  "\<exists>b1 b2. pipe_Read 0 4 (close_buffer O_WRONLY sample_pipe) = Some (Returned, [], b1) \<and>
    pipe_Write O_WRONLY [9] b1 = Some (Returned, length [9 :: u8], b2) \<and> contents b2 = [9]"
  by (rule first_close_is_eof [OF sample_pipe_wf]) (simp_all add: sample_pipe_def empty_buffer_def is_writer_def)

lemma create_lookup_close_witness:
  "\<exists>fs1. pipe_CreateNode 4096 (replicate 4096 0) ''log'' new_pipe_fs = Some (4096, fs1) \<and> pipe_Lookup ''log'' fs1 = 4096 \<and>
    wf_pipe_fs fs1 \<and> pipe_Close O_WRONLY 4096 1 fs1 = Some new_pipe_fs"
  by (rule create_lookup_close [OF new_pipe_fs_wf]) (auto simp: new_pipe_fs_def intro: exI [of _ 0])

end
