(* ===== verification/C_String.thy ===== *)
theory C_String
  imports Phys_Memory
begin

text \<open>
  The kernel's string library, \<^verbatim>\<open>kernel/lib/string.cpp\<close>: the block operations on a flat byte
  memory (the string instructions one byte at a time, in the direction they run), the NUL-terminated
  string functions on the list of characters before the terminator, tokenization
  and the path helpers. A null pointer argument is \<^const>\<open>None\<close>.
\<close>

section \<open>Block operations\<close>

primrec movsb_up :: "nat \<Rightarrow> u64 \<Rightarrow> u64 \<Rightarrow> ram \<Rightarrow> ram" where
  "movsb_up 0 d s m = m"
| "movsb_up (Suc n) d s m = movsb_up n (d + 1) (s + 1) (m(d := m s))"

primrec movsb_down :: "nat \<Rightarrow> u64 \<Rightarrow> u64 \<Rightarrow> ram \<Rightarrow> ram" where
  "movsb_down 0 d s m = m"
| "movsb_down (Suc n) d s m = movsb_down n (d - 1) (s - 1) (m(d := m s))"

primrec stosb :: "nat \<Rightarrow> u64 \<Rightarrow> u8 \<Rightarrow> ram \<Rightarrow> ram" where
  "stosb 0 d v m = m"
| "stosb (Suc n) d v m = stosb n (d + 1) v (m(d := v))"

definition Memcpy :: "u64 \<Rightarrow> u64 \<Rightarrow> u64 \<Rightarrow> ram \<Rightarrow> ram" where
  "Memcpy dst src n m = (if n = 0 \<or> dst = src then m else movsb_up (unat n) dst src m)"

definition Memmove :: "u64 \<Rightarrow> u64 \<Rightarrow> u64 \<Rightarrow> ram \<Rightarrow> ram" where
  "Memmove dst src n m =
     (if dst = src \<or> n = 0 then m
      else if dst < src then movsb_up (unat n) dst src m
      else movsb_down (unat n) (dst + (n - 1)) (src + (n - 1)) m)"

definition Memset :: "u64 \<Rightarrow> u32 \<Rightarrow> u64 \<Rightarrow> ram \<Rightarrow> ram" where
  "Memset dst value n m = (if n = 0 then m else stosb (unat n) dst (ucast value) m)"

text \<open>\<^verbatim>\<open>rep stosw\<close>, \<^verbatim>\<open>stosl\<close> and \<^verbatim>\<open>stosq\<close>: the bytes \<open>bs\<close> of one little-endian element, \<open>n\<close> times.\<close>

primrec store_bytes :: "u64 \<Rightarrow> u8 list \<Rightarrow> ram \<Rightarrow> ram" where
  "store_bytes d [] m = m"
| "store_bytes d (b # bs) m = store_bytes (d + 1) bs (m(d := b))"

primrec stos :: "nat \<Rightarrow> u64 \<Rightarrow> u8 list \<Rightarrow> ram \<Rightarrow> ram" where
  "stos 0 d bs m = m"
| "stos (Suc n) d bs m = stos n (d + of_nat (length bs)) bs (store_bytes d bs m)"

definition le_bytes :: "nat \<Rightarrow> u64 \<Rightarrow> u8 list" where
  "le_bytes k v = map (\<lambda>i. ucast (drop_bit (8 * i) v)) [0 ..< k]"

definition Memset16 :: "u64 \<Rightarrow> u16 \<Rightarrow> u64 \<Rightarrow> ram \<Rightarrow> ram" where
  "Memset16 dst value count m = (if count = 0 then m else stos (unat count) dst (le_bytes 2 (ucast value)) m)"

definition Memset32 :: "u64 \<Rightarrow> u32 \<Rightarrow> u64 \<Rightarrow> ram \<Rightarrow> ram" where
  "Memset32 dst value count m = (if count = 0 then m else stos (unat count) dst (le_bytes 4 (ucast value)) m)"

definition Memset64 :: "u64 \<Rightarrow> u64 \<Rightarrow> u64 \<Rightarrow> ram \<Rightarrow> ram" where
  "Memset64 dst value count m = (if count = 0 then m else stos (unat count) dst (le_bytes 8 value) m)"

primrec memcmp_loop :: "nat \<Rightarrow> u64 \<Rightarrow> u64 \<Rightarrow> ram \<Rightarrow> int" where
  "memcmp_loop 0 a b m = 0"
| "memcmp_loop (Suc n) a b m =
     (if m a \<noteq> m b then (if m a < m b then -1 else 1) else memcmp_loop n (a + 1) (b + 1) m)"

definition Memcmp :: "u64 \<Rightarrow> u64 \<Rightarrow> u64 \<Rightarrow> ram \<Rightarrow> int" where
  "Memcmp a b n m = memcmp_loop (unat n) a b m"

text \<open>The block \<open>[d, d + n)\<close>, and what a copy of it should leave behind.\<close>

definition copied_block :: "u64 \<Rightarrow> u64 \<Rightarrow> nat \<Rightarrow> ram \<Rightarrow> ram" where
  "copied_block d s n m = (\<lambda>x. if unat (x - d) < n then m (s + (x - d)) else m x)"

lemma word_of_unat: "of_nat (unat w) = (w :: u64)"
  by simp

lemma unat_step: "x \<noteq> d \<Longrightarrow> unat (x - d) = Suc (unat (x - (d + 1)))" for x d :: u64
proof -
  assume "x \<noteq> d"
  then have "x - d \<noteq> 0" by simp
  then have "unat (x - d - 1) = unat (x - d) - 1" by (rule unat_minus_one)
  moreover have "0 < unat (x - d)" using \<open>x - d \<noteq> 0\<close> by (simp add: unat_gt_0)
  moreover have "x - d - 1 = x - (d + 1)" by (simp add: algebra_simps)
  ultimately show ?thesis by simp
qed

lemma movsb_up_spec:
  assumes "n \<le> 2 ^ 64" and "\<And>k. 0 < k \<Longrightarrow> k < n \<Longrightarrow> s + of_nat k \<noteq> d"
  shows "movsb_up n d s m = copied_block d s n m"
  using assms
proof (induction n arbitrary: d s m)
  case 0
  then show ?case by (simp add: copied_block_def)
next
  case (Suc n)
  have IH: "movsb_up n (d + 1) (s + 1) (m(d := m s)) = copied_block (d + 1) (s + 1) n (m(d := m s))"
  proof (rule Suc.IH)
    fix k assume "0 < k" "k < n"
    then have "s + of_nat k \<noteq> d" using Suc.prems(2) [of k] by simp
    then show "s + 1 + of_nat k \<noteq> d + 1" by (simp add: algebra_simps)
  qed (use Suc.prems in simp)
  have "copied_block (d + 1) (s + 1) n (m(d := m s)) x = copied_block d s (Suc n) m x" for x
  proof (cases "x = d")
    case True
    have "unat (d - (d + 1)) = 2 ^ 64 - 1" using unat_sub_if_size [of "0 :: u64" 1] by (simp add: word_size)
    with True Suc.prems(1) show ?thesis by (simp add: copied_block_def)
  next
    case False
    have eq: "s + 1 + (x - (d + 1)) = s + (x - d)" by (simp add: algebra_simps)
    have "s + (x - d) \<noteq> d" if "unat (x - (d + 1)) < n"
    proof -
      have "s + of_nat (Suc (unat (x - (d + 1)))) \<noteq> d" if "Suc (unat (x - (d + 1))) < Suc n" for x
        using Suc.prems(2) [of "Suc (unat (x - (d + 1)))"] that by simp
      then have "s + of_nat (unat (x - d)) \<noteq> d" using that unat_step [OF False] by (metis Suc_mono)
      then show ?thesis by (simp only: word_of_unat not_False_eq_True)
    qed
    with False eq unat_step [OF False] show ?thesis by (simp add: copied_block_def)
  qed
  with IH show ?case by auto
qed

lemma movsb_down_spec:
  assumes "n \<le> 2 ^ 64" and "\<And>k. 0 < k \<Longrightarrow> k < n \<Longrightarrow> s + of_nat (n - 1) - of_nat k \<noteq> d + of_nat (n - 1)"
  shows "movsb_down n (d + of_nat (n - 1)) (s + of_nat (n - 1)) m = copied_block d s n m"
  using assms
proof (induction n arbitrary: m)
  case 0
  then show ?case by (simp add: copied_block_def)
next
  case (Suc n)
  define last where "last = d + of_nat n"
  define m1 where "m1 = m(last := m (s + of_nat n))"
  have IH: "movsb_down n (d + of_nat (n - 1)) (s + of_nat (n - 1)) m1 = copied_block d s n m1"
  proof (rule Suc.IH)
    fix k assume k: "0 < k" "k < n"
    then have "s + of_nat n - of_nat k \<noteq> d + of_nat n" using Suc.prems(2) [of k] by simp
    then show "s + of_nat (n - 1) - of_nat k \<noteq> d + of_nat (n - 1)"
      using k by (cases n) (auto simp: algebra_simps)
  qed (use Suc.prems in simp)
  have step: "movsb_down n (last - 1) (s + of_nat n - 1) m1 = copied_block d s n m1"
    using IH by (cases n) (simp_all add: last_def copied_block_def)
  have un: "unat (of_nat n :: u64) = n" using Suc.prems(1) by (intro unat_of_nat_u64) simp
  have "copied_block d s n m1 x = copied_block d s (Suc n) m x" for x
  proof (cases "x = last")
    case True
    then have "x - d = of_nat n" by (simp add: last_def)
    then show ?thesis using True un by (simp add: copied_block_def m1_def)
  next
    case False
    then have "x - d \<noteq> of_nat n" by (auto simp: last_def algebra_simps)
    then have neq: "unat (x - d) \<noteq> n" by (metis word_of_unat)
    have "s + (x - d) \<noteq> last" if "unat (x - d) < n"
    proof -
      define k where "k = n - unat (x - d)"
      have "0 < k" "k < Suc n" using that by (auto simp: k_def)
      then have "s + of_nat n - of_nat k \<noteq> last" using Suc.prems(2) [of k] by (simp add: last_def)
      moreover have "of_nat n - of_nat k = x - d" using that by (simp add: k_def of_nat_diff)
      ultimately show ?thesis by (simp add: add_diff_eq [symmetric])
    qed
    with False neq show ?thesis by (auto simp: copied_block_def m1_def less_Suc_eq)
  qed
  then show ?case using step by (auto simp: m1_def last_def)
qed

lemma stosb_spec: "n \<le> 2 ^ 64 \<Longrightarrow> stosb n d v m = (\<lambda>x. if unat (x - d) < n then v else m x)"
proof (induction n arbitrary: d m)
  case 0
  then show ?case by simp
next
  case (Suc n)
  have "unat (d - (d + 1)) = 2 ^ 64 - 1" using unat_sub_if_size [of "0 :: u64" 1] by (simp add: word_size)
  with Suc show ?case by (auto simp: fun_eq_iff dest: unat_step)
qed

text \<open>\<^verbatim>\<open>Memmove\<close> is correct for overlapping blocks: the destination ends up with the bytes the source
  had before the call and nothing else changes, in both directions of overlap.\<close>

theorem Memmove_correct:
  assumes "unat dst + unat n \<le> 2 ^ 64" and "unat src + unat n \<le> 2 ^ 64"
  shows "Memmove dst src n m = (\<lambda>x. if unat (x - dst) < unat n then m (src + (x - dst)) else m x)"
proof (cases "dst = src \<or> n = 0")
  case True
  then show ?thesis by (auto simp: Memmove_def fun_eq_iff)
next
  case False
  then have n: "0 < unat n" by (simp add: unat_gt_0)
  have sum: "unat (a + of_nat k) = unat a + k" if "unat a + unat n \<le> 2 ^ 64" "k < unat n" for a :: u64 and k
  proof -
    have "k < 2 ^ 64" using that by linarith
    with that show ?thesis by (simp add: unat_add_no_wrap unat_of_nat_u64)
  qed
  have le: "unat n \<le> 2 ^ 64" using unat_lt_2_64 [of n] by simp
  have "Memmove dst src n m = copied_block dst src (unat n) m"
  proof (cases "dst < src")
    case up: True
    have "movsb_up (unat n) dst src m = copied_block dst src (unat n) m"
    proof (rule movsb_up_spec [OF le])
      fix k assume "0 < k" "k < unat n"
      then have "unat (src + of_nat k) = unat src + k" using sum [OF assms(2)] by simp
      then show "src + of_nat k \<noteq> dst" using up by (auto simp: word_less_nat_alt)
    qed
    with up False show ?thesis by (simp add: Memmove_def)
  next
    case down: False
    have n1: "n - 1 = of_nat (unat n - 1)" using n by (simp add: of_nat_diff)
    have "movsb_down (unat n) (dst + of_nat (unat n - 1)) (src + of_nat (unat n - 1)) m = copied_block dst src (unat n) m"
    proof (rule movsb_down_spec [OF le])
      fix k assume k: "0 < k" "k < unat n"
      then have "src + of_nat (unat n - 1) - of_nat k = src + of_nat (unat n - 1 - k)" by (simp add: of_nat_diff)
      moreover have "unat (src + of_nat (unat n - 1 - k)) = unat src + (unat n - 1 - k)" using k by (intro sum [OF assms(2)]) simp
      ultimately have "unat (src + of_nat (unat n - 1) - of_nat k) = unat src + (unat n - 1 - k)" by (simp only:)
      moreover have "unat (dst + of_nat (unat n - 1)) = unat dst + (unat n - 1)" using k by (intro sum [OF assms(1)]) simp
      moreover have "unat src \<le> unat dst" using down by (simp add: word_less_nat_alt)
      ultimately show "src + of_nat (unat n - 1) - of_nat k \<noteq> dst + of_nat (unat n - 1)" using k by (intro notI) (simp only:)
    qed
    with down False n1 show ?thesis by (simp add: Memmove_def)
  qed
  then show ?thesis by (simp add: copied_block_def)
qed

lemma Memmove_correct_witness:
  "Memmove 0x1002 0x1000 4 (\<lambda>x. ucast x) 0x1003 = 1 \<and> Memmove 0x1000 0x1002 4 (\<lambda>x. ucast x) 0x1003 = 5"
  using Memmove_correct [of "0x1002" 4 "0x1000" "\<lambda>x. ucast x"] Memmove_correct [of "0x1000" 4 "0x1002" "\<lambda>x. ucast x"]
  by (simp add: fun_eq_iff)

section \<open>NUL-terminated strings\<close>

text \<open>A string is the list of its characters before the terminator, so it contains no NUL; a
  character array is the list of its cells.\<close>

abbreviation NUL :: char where
  "NUL \<equiv> CHR 0x00"

definition cstr :: "char list \<Rightarrow> string" where
  "cstr buf = takeWhile (\<lambda>c. c \<noteq> NUL) buf"

definition Strlen :: "string option \<Rightarrow> nat" where
  "Strlen s = (case s of None \<Rightarrow> 0 | Some s \<Rightarrow> length s)"

fun strnlen_loop :: "string \<Rightarrow> nat \<Rightarrow> nat" where
  "strnlen_loop [] maxlen = 0"
| "strnlen_loop (c # s) 0 = 0"
| "strnlen_loop (c # s) (Suc maxlen) = Suc (strnlen_loop s maxlen)"

definition Strnlen :: "string option \<Rightarrow> nat \<Rightarrow> nat" where
  "Strnlen s maxlen = (case s of None \<Rightarrow> 0 | Some s \<Rightarrow> strnlen_loop s maxlen)"

fun strcmp_loop :: "string \<Rightarrow> string \<Rightarrow> int" where
  "strcmp_loop [] [] = 0"
| "strcmp_loop [] (b # bs) = - of_char b"
| "strcmp_loop (a # as) [] = of_char a"
| "strcmp_loop (a # as) (b # bs) = (if a \<noteq> b then of_char a - of_char b else strcmp_loop as bs)"

fun Strcmp :: "string option \<Rightarrow> string option \<Rightarrow> int" where
  "Strcmp None None = 0"
| "Strcmp None (Some b) = -1"
| "Strcmp (Some a) None = 1"
| "Strcmp (Some a) (Some b) = strcmp_loop a b"

fun strncmp_loop :: "nat \<Rightarrow> string \<Rightarrow> string \<Rightarrow> int" where
  "strncmp_loop 0 a b = 0"
| "strncmp_loop (Suc n) [] [] = 0"
| "strncmp_loop (Suc n) [] (b # bs) = - of_char b"
| "strncmp_loop (Suc n) (a # as) [] = of_char a"
| "strncmp_loop (Suc n) (a # as) (b # bs) = (if a \<noteq> b then of_char a - of_char b else strncmp_loop n as bs)"

fun Strncmp :: "string option \<Rightarrow> string option \<Rightarrow> nat \<Rightarrow> int" where
  "Strncmp None None n = 0"
| "Strncmp None (Some b) n = (if n = 0 then 0 else -1)"
| "Strncmp (Some a) None n = (if n = 0 then 0 else 1)"
| "Strncmp (Some a) (Some b) n = strncmp_loop n a b"

text \<open>Writing \<open>s\<close> into an array from cell \<open>off\<close> on; \<^const>\<open>None\<close> when it does not fit.\<close>

definition put_at :: "nat \<Rightarrow> char list \<Rightarrow> char list \<Rightarrow> char list option" where
  "put_at off s buf =
     (if off + length s \<le> length buf then Some (take off buf @ s @ drop (off + length s) buf) else None)"

definition Strcpy :: "string option \<Rightarrow> char list \<Rightarrow> char list option" where
  "Strcpy src dst = (case src of None \<Rightarrow> put_at 0 [NUL] dst | Some s \<Rightarrow> put_at 0 (s @ [NUL]) dst)"

definition Strncpy :: "string option \<Rightarrow> nat \<Rightarrow> char list \<Rightarrow> char list option" where
  "Strncpy src n dst =
     (let s = (case src of None \<Rightarrow> [] | Some s \<Rightarrow> take n s) in put_at 0 (s @ replicate (n - length s) NUL) dst)"

definition Strcat :: "string option \<Rightarrow> char list \<Rightarrow> char list option" where
  "Strcat src dst =
     (case src of
        None \<Rightarrow> Some dst
      | Some s \<Rightarrow> put_at (length (cstr dst)) (s @ [NUL]) dst)"

text \<open>Searches return the offset of the pointer they return.\<close>

definition Strchr :: "string \<Rightarrow> char \<Rightarrow> nat option" where
  "Strchr s c =
     (case find_index (\<lambda>x. x = c) s of
        Some i \<Rightarrow> Some i
      | None \<Rightarrow> if c = NUL then Some (length s) else None)"

fun strrchr_loop :: "string \<Rightarrow> char \<Rightarrow> nat \<Rightarrow> nat option \<Rightarrow> nat option" where
  "strrchr_loop [] c i found = found"
| "strrchr_loop (x # s) c i found = strrchr_loop s c (i + 1) (if x = c then Some i else found)"

definition Strrchr :: "string \<Rightarrow> char \<Rightarrow> nat option" where
  "Strrchr s c = (if c = NUL then Some (length s) else strrchr_loop s c 0 None)"

fun strstr_loop :: "string \<Rightarrow> string \<Rightarrow> nat \<Rightarrow> nat option" where
  "strstr_loop [] needle i = None"
| "strstr_loop (x # h) needle i =
     (if x = hd needle \<and> Strncmp (Some (x # h)) (Some needle) (length needle) = 0 then Some i
      else strstr_loop h needle (i + 1))"

definition Strstr :: "string option \<Rightarrow> string option \<Rightarrow> nat option" where
  "Strstr haystack needle =
     (case (haystack, needle) of
        (Some h, Some n) \<Rightarrow> (if n = [] then Some 0 else strstr_loop h n 0)
      | _ \<Rightarrow> None)"

subsection \<open>Comparison and search\<close>

lemma of_char_eq_0 [simp]: "(of_char c :: int) = 0 \<longleftrightarrow> c = NUL"
  using of_char_eq_iff [of c NUL, where 'a = int] by simp

lemma strncmp_loop_prefix:
  "NUL \<notin> set n \<Longrightarrow> strncmp_loop (length n) h n = 0 \<longleftrightarrow> take (length n) h = n" if "NUL \<notin> set h"
  using that
proof (induction n arbitrary: h)
  case (Cons c n)
  then show ?case by (cases h) auto
qed (auto simp: strncmp_loop.simps(1))

lemma strcmp_loop_eq: "NUL \<notin> set a \<Longrightarrow> NUL \<notin> set b \<Longrightarrow> strcmp_loop a b = 0 \<longleftrightarrow> a = b"
  by (induction a b rule: strcmp_loop.induct) auto

section \<open>Tokens\<close>

text \<open>The first cell from \<open>p\<close> on that satisfies \<open>stop\<close>; \<^const>\<open>None\<close> when the scan leaves the array.\<close>

function scan_until :: "('a \<Rightarrow> bool) \<Rightarrow> 'a list \<Rightarrow> nat \<Rightarrow> nat option" where
  "scan_until stop buf p =
     (if length buf \<le> p then None else if stop (buf ! p) then Some p else scan_until stop buf (p + 1))"
  by pat_completeness auto
termination
  by (relation "measure (\<lambda>(stop, buf, p). length buf - p)") auto

declare scan_until.simps [simp del]

text \<open>\<^verbatim>\<open>Strtok\<close> on one array: the argument \<open>s\<close>, the static \<^verbatim>\<open>next\<close> and the result are offsets into it. The
  result is the token, the new \<^verbatim>\<open>next\<close> and the array.\<close>

definition Strtok ::
  "nat option \<Rightarrow> string option \<Rightarrow> nat option \<Rightarrow> char list \<Rightarrow> (nat option \<times> nat option \<times> char list) option" where
  "Strtok s delim nxt buf =
     (case delim of
        None \<Rightarrow> Some (None, nxt, buf)
      | Some ds \<Rightarrow>
          (case (if s = None then nxt else s) of
             None \<Rightarrow> Some (None, nxt, buf)
           | Some s \<Rightarrow>
               (case scan_until (\<lambda>c. c = NUL \<or> c \<notin> set ds) buf s of
                  None \<Rightarrow> None
                | Some token \<Rightarrow>
                    if buf ! token = NUL then Some (None, None, buf)
                    else
                      (case scan_until (\<lambda>c. c = NUL \<or> c \<in> set ds) buf token of
                         None \<Rightarrow> None
                       | Some p \<Rightarrow>
                           if buf ! p = NUL then Some (Some token, None, buf)
                           else Some (Some token, Some (p + 1), buf[p := NUL])))))"

lemma scan_until_SomeD:
  "scan_until stop buf p = Some q \<Longrightarrow> p \<le> q \<and> q < length buf \<and> stop (buf ! q) \<and> (\<forall>j. p \<le> j \<and> j < q \<longrightarrow> \<not> stop (buf ! j))"
proof (induction stop buf p rule: scan_until.induct)
  case (1 stop buf p)
  show ?case
  proof (cases "length buf \<le> p \<or> stop (buf ! p)")
    case True
    with 1(2) have "q = p" "\<not> length buf \<le> p" by (simp_all add: scan_until.simps [of stop buf p] split: if_splits)
    with True show ?thesis by auto
  next
    case False
    with 1(2) have "scan_until stop buf (p + 1) = Some q" by (subst (asm) scan_until.simps) auto
    with 1(1) False have "p + 1 \<le> q \<and> q < length buf \<and> stop (buf ! q) \<and> (\<forall>j. p + 1 \<le> j \<and> j < q \<longrightarrow> \<not> stop (buf ! j))"
      by auto
    moreover have "p \<le> j \<longleftrightarrow> j = p \<or> p + 1 \<le> j" for j by auto
    ultimately show ?thesis using False by auto
  qed
qed

lemma scan_until_defined:
  "p \<le> q \<Longrightarrow> q < length buf \<Longrightarrow> stop (buf ! q) \<Longrightarrow> \<exists>r. scan_until stop buf p = Some r \<and> r \<le> q"
proof (induction stop buf p rule: scan_until.induct)
  case (1 stop buf p)
  show ?case
  proof (cases "stop (buf ! p)")
    case True
    with 1 show ?thesis by (subst scan_until.simps) auto
  next
    case False
    with 1(2,4) have "p + 1 \<le> q" by (metis Suc_eq_plus1 Suc_leI nat_less_le)
    with 1 False obtain r where "scan_until stop buf (p + 1) = Some r" "r \<le> q" by auto
    with 1 False show ?thesis by (subst scan_until.simps) auto
  qed
qed

text \<open>On a terminated array \<^verbatim>\<open>Strtok\<close> stays inside it, and the token it returns is non-empty, free of
  delimiters and terminated, with only delimiters skipped before it.\<close>

lemma Strtok_token:
  assumes "Strtok (Some s) (Some ds) nxt buf = Some (Some t, nxt', buf')"
  shows "s \<le> t \<and> t < length buf \<and> buf ! t \<notin> set ds \<union> {NUL} \<and> (\<forall>j. s \<le> j \<and> j < t \<longrightarrow> buf ! j \<in> set ds)
    \<and> (\<exists>p. t < p \<and> p < length buf \<and> buf' ! p = NUL \<and> (\<forall>j. t \<le> j \<and> j < p \<longrightarrow> buf' ! j = buf ! j \<and> buf ! j \<notin> set ds \<union> {NUL}))"
proof -
  obtain u where u: "scan_until (\<lambda>c. c = NUL \<or> c \<notin> set ds) buf s = Some u"
    using assms by (simp add: Strtok_def split: option.split_asm)
  have nz: "buf ! u \<noteq> NUL" using assms u by (simp add: Strtok_def split: if_split_asm)
  obtain p where pu: "scan_until (\<lambda>c. c = NUL \<or> c \<in> set ds) buf u = Some p"
    using assms u nz by (simp add: Strtok_def split: option.split_asm)
  have "u = t" and buf': "buf' = (if buf ! p = NUL then buf else buf[p := NUL])"
    using assms u nz pu by (simp_all add: Strtok_def split: if_split_asm)
  note sk = u [unfolded \<open>u = t\<close>] nz [unfolded \<open>u = t\<close>] and p = pu [unfolded \<open>u = t\<close>]
  note S = scan_until_SomeD [OF sk(1)] and P = scan_until_SomeD [OF p]
  have "t \<noteq> p" using S P sk(2) by auto
  with P have "t < p" by linarith
  have "buf' ! p = NUL" using P buf' by simp
  moreover have "\<forall>j. t \<le> j \<and> j < p \<longrightarrow> buf' ! j = buf ! j \<and> buf ! j \<notin> set ds \<union> {NUL}"
    using P buf' by simp
  ultimately have "\<exists>p. t < p \<and> p < length buf \<and> buf' ! p = NUL
      \<and> (\<forall>j. t \<le> j \<and> j < p \<longrightarrow> buf' ! j = buf ! j \<and> buf ! j \<notin> set ds \<union> {NUL})"
    using P \<open>t < p\<close> by blast
  with S sk(2) show ?thesis by simp
qed

lemma Strtok_defined:
  assumes "s \<le> z" and "z < length buf" and "buf ! z = NUL"
  shows "\<exists>r. Strtok (Some s) delim nxt buf = Some r"
proof (cases delim)
  case None
  then show ?thesis by (simp add: Strtok_def)
next
  case (Some ds)
  obtain t where t: "scan_until (\<lambda>c. c = NUL \<or> c \<notin> set ds) buf s = Some t" "t \<le> z"
    using scan_until_defined [OF assms(1,2), of "\<lambda>c. c = NUL \<or> c \<notin> set ds"] assms(3) by auto
  obtain p where "scan_until (\<lambda>c. c = NUL \<or> c \<in> set ds) buf t = Some p"
    using scan_until_defined [OF t(2) assms(2), of "\<lambda>c. c = NUL \<or> c \<in> set ds"] assms(3) by auto
  with t Some show ?thesis by (simp add: Strtok_def)
qed

section \<open>Paths\<close>

text \<open>\<^verbatim>\<open>SplitPath\<close> scans from the right; lengths are below the range of the \<^verbatim>\<open>int\<close> it keeps them in.\<close>

primrec last_slash :: "string \<Rightarrow> nat \<Rightarrow> nat option" where
  "last_slash s 0 = None"
| "last_slash s (Suc i) = (if s ! i = CHR ''/'' then Some i else last_slash s i)"

definition SplitPath :: "string \<Rightarrow> char list \<Rightarrow> char list \<Rightarrow> (char list \<times> char list) option" where
  "SplitPath fullPath outParent outName =
     (case last_slash fullPath (length fullPath) of
        None \<Rightarrow>
          (case put_at 0 [NUL] outParent of
             None \<Rightarrow> None
           | Some op \<Rightarrow> (case Strcpy (Some fullPath) outName of None \<Rightarrow> None | Some on \<Rightarrow> Some (op, on)))
      | Some splitIdx \<Rightarrow>
          (case put_at 0 (take splitIdx fullPath @ [NUL]) outParent of
             None \<Rightarrow> None
           | Some op \<Rightarrow>
               (case (if splitIdx = 0 then put_at 0 [CHR ''/'', NUL] op else Some op) of
                  None \<Rightarrow> None
                | Some op' \<Rightarrow>
                    (case Strcpy (Some (drop (splitIdx + 1) fullPath)) outName of
                       None \<Rightarrow> None
                     | Some on \<Rightarrow> Some (op', on)))))"

definition Basename :: "string option \<Rightarrow> nat \<Rightarrow> char list \<Rightarrow> char list option" where
  "Basename fullPath outSize outName =
     (if outSize = 0 then Some outName
      else
        (case fullPath of
           None \<Rightarrow> put_at 0 [NUL] outName
         | Some path \<Rightarrow>
             let name = (case strrchr_loop path (CHR ''/'') 0 None of
                           Some l \<Rightarrow> drop (l + 1) path
                         | None \<Rightarrow> path)
             in put_at 0 (take (outSize - 1) name @ [NUL]) outName))"

subsection \<open>The two path helpers agree\<close>

lemma put_at_0: "length s < length buf \<Longrightarrow> put_at 0 (s @ [NUL]) buf = Some (s @ NUL # drop (Suc (length s)) buf)"
  by (simp add: put_at_def)

lemma cstr_terminated [simp]: "NUL \<notin> set s \<Longrightarrow> cstr (s @ NUL # rest) = s"
  by (auto simp: cstr_def takeWhile_append takeWhile_eq_all_conv)

lemma last_slash_split:
  assumes "CHR ''/'' \<notin> set name" and "k \<le> length name"
  shows "last_slash (pre @ CHR ''/'' # name) (Suc (length pre) + k) = Some (length pre)"
  using assms(2)
proof (induction k)
  case 0
  show ?case by simp
next
  case (Suc k)
  have "name ! k \<noteq> CHR ''/''" using assms(1) Suc.prems by (metis Suc_le_lessD nth_mem)
  moreover have "(pre @ CHR ''/'' # name) ! (Suc (length pre) + k) = name ! k" by (simp add: nth_append)
  ultimately show ?case using Suc by (simp only: add_Suc_right last_slash.simps if_False)
qed

lemma strrchr_loop_append: "strrchr_loop (xs @ ys) c i found = strrchr_loop ys c (i + length xs) (strrchr_loop xs c i found)"
  by (induction xs arbitrary: i found) auto

lemma strrchr_loop_absent: "c \<notin> set xs \<Longrightarrow> strrchr_loop xs c i found = found"
  by (induction xs arbitrary: i found) auto

text \<open>Splitting a path that contains a slash: whatever the directory part \<open>pre\<close> and the slash-free
  last component \<open>name\<close> are, \<^verbatim>\<open>SplitPath\<close> stores \<open>pre\<close> (or \<^verbatim>\<open>/\<close> when it is empty) and \<open>name\<close> as terminated
  strings without leaving the two arrays, and \<^verbatim>\<open>Basename\<close> stores the same \<open>name\<close>, cut to its buffer.\<close>

theorem SplitPath_Basename:
  assumes "NUL \<notin> set (pre @ name)" and "CHR ''/'' \<notin> set name"
    and "length pre + 1 < length outParent" and "length name < length outName" and "0 < outSize" and "outSize \<le> length outName"
  shows "(\<exists>op on. SplitPath (pre @ CHR ''/'' # name) outParent outName = Some (op, on)
            \<and> cstr op = (if pre = [] then ''/'' else pre) \<and> cstr on = name)
       \<and> (\<exists>b. Basename (Some (pre @ CHR ''/'' # name)) outSize outName = Some b \<and> cstr b = take (outSize - 1) name)"
proof
  have ls: "last_slash (pre @ CHR ''/'' # name) (length (pre @ CHR ''/'' # name)) = Some (length pre)"
    using last_slash_split [OF assms(2), of "length name" pre] by simp
  show "\<exists>op on. SplitPath (pre @ CHR ''/'' # name) outParent outName = Some (op, on)
            \<and> cstr op = (if pre = [] then ''/'' else pre) \<and> cstr on = name"
    unfolding SplitPath_def ls option.case
    using assms by (cases pre) (simp_all add: Strcpy_def put_at_0 put_at_def, auto simp: cstr_def takeWhile_append)
  have "strrchr_loop (pre @ CHR ''/'' # name) (CHR ''/'') 0 None = Some (length pre)"
    using assms(2) by (simp add: strrchr_loop_append strrchr_loop_absent)
  moreover have "length (take (outSize - 1) name) < length outName" using assms(5,6) by auto
  moreover have "NUL \<notin> set (take (outSize - 1) name)" using assms(1) by (auto dest: in_set_takeD)
  ultimately show "\<exists>b. Basename (Some (pre @ CHR ''/'' # name)) outSize outName = Some b \<and> cstr b = take (outSize - 1) name"
    using assms(5) by (simp add: Basename_def put_at_0 Let_def)
qed

lemma SplitPath_Basename_witness:
  "(\<exists>op on. SplitPath ''/etc/rc'' (replicate 16 NUL) (replicate 16 NUL) = Some (op, on) \<and> cstr op = ''/etc'' \<and> cstr on = ''rc'')
   \<and> (\<exists>b. Basename (Some ''/etc/rc'') 2 (replicate 16 NUL) = Some b \<and> cstr b = ''r'')"
  using SplitPath_Basename [of "''/etc''" "''rc''" "replicate 16 NUL" "replicate 16 NUL" 2] by simp

end
