(* ===== verification/C_Format.thy ===== *)
theory C_Format
  imports C_String
begin

text \<open>
  Number formatting and the bounded formatter of \<^verbatim>\<open>kernel/lib/string.cpp\<close>: \<^verbatim>\<open>Utoa\<close>, \<^verbatim>\<open>Itoa\<close>, \<^verbatim>\<open>VSPrint\<close>
  and \<^verbatim>\<open>SPrint\<close>. The kernel is built without SSE (\<^verbatim>\<open>-mno-sse\<close>), so \<^verbatim>\<open>%f\<close> takes the placeholder branch.
  A variable argument is a 64-bit slot or a string pointer.
\<close>

section \<open>Numbers\<close>

definition digit_of :: "nat \<Rightarrow> char" where
  "digit_of v = (if v < 10 then char_of (48 + v) else char_of (97 + (v - 10)))"

text \<open>The \<^verbatim>\<open>do\<close> loop: least significant digit first.\<close>

function utoa_digits :: "nat \<Rightarrow> nat \<Rightarrow> string" where
  "utoa_digits base value =
     (if base < 2 then []
      else let q = value div base; r = value - q * base in
        digit_of r # (if q = 0 then [] else utoa_digits base q))"
  by pat_completeness auto
termination
  by (relation "measure (\<lambda>(base, value). value)") (auto simp: div_less_dividend div_eq_0_iff)

declare utoa_digits.simps [simp del]

text \<open>The in-place reversal with two pointers that meet in the middle.\<close>

function swap_ends :: "nat \<Rightarrow> nat \<Rightarrow> 'a list \<Rightarrow> 'a list" where
  "swap_ends l r xs = (if l < r then swap_ends (l + 1) (r - 1) (xs[l := xs ! r, r := xs ! l]) else xs)"
  by pat_completeness auto
termination
  by (relation "measure (\<lambda>(l, r, xs). r - l)") auto

declare swap_ends.simps [simp del]

text \<open>The buffer contents up to the terminator; \<^const>\<open>None\<close> is a buffer left as it was.\<close>

definition Utoa :: "u64 \<Rightarrow> int \<Rightarrow> string option" where
  "Utoa value base =
     (if base < 2 \<or> 16 < base then None
      else let digits = utoa_digits (nat base) (unat value) in Some (swap_ends 0 (length digits - 1) digits))"

text \<open>\<^verbatim>\<open>-value\<close> overflows for the least 64-bit number, which C++ leaves undefined; the outer option.\<close>

definition Itoa :: "64 word \<Rightarrow> int \<Rightarrow> string option option" where
  "Itoa value base =
     (if base < 2 \<or> 16 < base then Some None
      else if value = 0 then Some (Some ''0'')
      else if base = 10 \<and> sint value < 0 then
        if value = 0x8000000000000000 then None
        else let digits = utoa_digits 10 (unat (- value)) @ ''-'' in
          Some (Some (swap_ends 0 (length digits - 1) digits))
      else let digits = utoa_digits (nat base) (unat value) in
        Some (Some (swap_ends 0 (length digits - 1) digits)))"


section \<open>The formatter\<close>

datatype va = Slot u64 | Str "string option"

datatype LenMod = LM_NONE | LM_L | LM_LL | LM_Z

record fspec =
  LeftJustify :: bool
  ZeroPadding :: bool
  Width :: int
  HasPrecision :: bool
  Precision :: int
  LM :: LenMod

text \<open>A \<^verbatim>\<open>(int)\<close> cast of a length.\<close>

definition to_int32 :: "nat \<Rightarrow> int" where
  "to_int32 n = sint (of_nat n :: 32 word)"

abbreviation is_digit :: "char \<Rightarrow> bool" where
  "is_digit c \<equiv> CHR ''0'' = c \<or> c \<in> set ''123456789''"

text \<open>The decimal field loop; the 32-bit signed overflow of a longer field is undefined.\<close>

fun scan_num :: "int \<Rightarrow> string \<Rightarrow> (int \<times> string) option" where
  "scan_num acc [] = Some (acc, [])"
| "scan_num acc (c # fmt) =
     (if is_digit c then
        let acc' = acc * 10 + (of_char c - 48) in if 2147483647 < acc' then None else scan_num acc' fmt
      else Some (acc, c # fmt))"

text \<open>Flags, width, precision and length modifier after a \<^verbatim>\<open>%\<close>.\<close>

definition skip_char :: "char \<Rightarrow> string \<Rightarrow> bool \<times> string" where
  "skip_char c fmt = (case fmt of x # rest \<Rightarrow> (if x = c then (True, rest) else (False, fmt)) | [] \<Rightarrow> (False, fmt))"

definition scan_lenmod :: "string \<Rightarrow> LenMod \<times> string" where
  "scan_lenmod fmt =
     (case skip_char (CHR ''l'') fmt of
        (True, rest) \<Rightarrow> (case skip_char (CHR ''l'') rest of (True, rest') \<Rightarrow> (LM_LL, rest') | (False, _) \<Rightarrow> (LM_L, rest))
      | (False, _) \<Rightarrow> (case skip_char (CHR ''z'') fmt of (True, rest) \<Rightarrow> (LM_Z, rest) | (False, _) \<Rightarrow> (LM_NONE, fmt)))"

definition scan_spec :: "string \<Rightarrow> (fspec \<times> string) option" where
  "scan_spec fmt =
     (let (lj, f1) = skip_char (CHR ''-'') fmt;
          (zp, f2) = skip_char (CHR ''0'') f1
      in case scan_num 0 f2 of
           None \<Rightarrow> None
         | Some (w, f3) \<Rightarrow>
             let (hp, f4) = skip_char (CHR ''.'') f3
             in case (if hp then scan_num 0 f4 else Some (0, f4)) of
                  None \<Rightarrow> None
                | Some (pr, f5) \<Rightarrow>
                    let (lm, f6) = scan_lenmod f5
                    in Some (\<lparr> LeftJustify = lj, ZeroPadding = zp, Width = w, HasPrecision = hp, Precision = pr, LM = lm \<rparr>, f6))"

text \<open>\<^verbatim>\<open>va_arg\<close> of a signed and of an unsigned integer under a length modifier, widened to 64 bits.\<close>

definition signed_arg :: "LenMod \<Rightarrow> u64 \<Rightarrow> u64" where
  "signed_arg lm w = (if lm = LM_NONE then scast (ucast w :: u32) else w)"

definition unsigned_arg :: "LenMod \<Rightarrow> u64 \<Rightarrow> u64" where
  "unsigned_arg lm w = (if lm = LM_NONE then ucast (ucast w :: u32) else w)"

abbreviation spaces :: "int \<Rightarrow> string" where
  "spaces n \<equiv> replicate (nat n) (CHR '' '')"

abbreviation zeros :: "int \<Rightarrow> string" where
  "zeros n \<equiv> replicate (nat n) (CHR ''0'')"

definition conv_s :: "fspec \<Rightarrow> string option \<Rightarrow> string" where
  "conv_s f arg =
     (let s = (case arg of None \<Rightarrow> ''(null)'' | Some s \<Rightarrow> s);
          slen = (if HasPrecision f \<and> Precision f < to_int32 (length s) then nat (Precision f) else length s);
          pad = (if Width f > to_int32 slen then Width f - to_int32 slen else 0)
      in (if \<not> LeftJustify f then spaces pad else []) @ take slen s @ (if LeftJustify f then spaces pad else []))"

definition zero_pad :: "fspec \<Rightarrow> int \<Rightarrow> int \<Rightarrow> int" where
  "zero_pad f num_digits total_len =
     (let min_digits = (if HasPrecision f then Precision f else 0);
          z = (if min_digits > num_digits then min_digits - num_digits else 0)
      in if \<not> HasPrecision f \<and> ZeroPadding f \<and> \<not> LeftJustify f \<and> Width f > total_len then Width f - total_len else z)"

definition conv_d :: "fspec \<Rightarrow> u64 \<Rightarrow> string option" where
  "conv_d f sval =
     (case Itoa sval 10 of
        Some (Some buf) \<Rightarrow>
          let neg = (buf \<noteq> [] \<and> hd buf = CHR ''-'');
              out = (if neg then tl buf else buf);
              num_digits = to_int32 (length out);
              total_len = num_digits + (if neg then 1 else 0);
              z = zero_pad f num_digits total_len;
              sign = (if neg then ''-'' else [])
          in if LeftJustify f then
               if 2147483647 < total_len + z then None
               else Some (sign @ zeros z @ out @ spaces (Width f - (total_len + z)))
             else if z = 0 then Some (spaces (Width f - total_len) @ sign @ out)
             else Some (sign @ zeros z @ out)
      | _ \<Rightarrow> None)"

definition conv_u :: "fspec \<Rightarrow> string \<Rightarrow> string" where
  "conv_u f buf =
     (let num_digits = to_int32 (length buf);
          z = zero_pad f num_digits num_digits
      in if LeftJustify f then zeros z @ buf @ spaces (Width f - (num_digits + z))
         else spaces (Width f - (num_digits + z)) @ zeros z @ buf)"

definition upper_hex :: "char \<Rightarrow> char" where
  "upper_hex c = (if c \<in> set ''abcdef'' then char_of (of_char c - 97 + 65 :: nat) else c)"

definition conv_f :: "fspec \<Rightarrow> string" where
  "conv_f f =
     (let wlen = length ''<float>'';
          pad = (if Width f > to_int32 wlen then Width f - to_int32 wlen else 0)
      in (if \<not> LeftJustify f then spaces pad else []) @ ''<float>'' @ (if LeftJustify f then spaces pad else []))"

text \<open>One conversion: what it writes and the arguments left. \<^const>\<open>None\<close> when the argument list is used
  up or holds the wrong kind of argument.\<close>

definition convert :: "fspec \<Rightarrow> char \<Rightarrow> va list \<Rightarrow> (string \<times> va list) option" where
  "convert f c args =
     (if c = CHR ''%'' then Some (''%'', args)
      else if c = CHR ''s'' then
        (case args of Str s # rest \<Rightarrow> Some (conv_s f s, rest) | _ \<Rightarrow> None)
      else if c = CHR ''c'' then
        (case args of Slot w # rest \<Rightarrow> Some ([char_of (unat w mod 256)], rest) | _ \<Rightarrow> None)
      else if c = CHR ''d'' \<or> c = CHR ''i'' then
        (case args of Slot w # rest \<Rightarrow> map_option (\<lambda>s. (s, rest)) (conv_d f (signed_arg (LM f) w)) | _ \<Rightarrow> None)
      else if c = CHR ''u'' then
        (case args of
           Slot w # rest \<Rightarrow> map_option (\<lambda>s. (conv_u f s, rest)) (Utoa (unsigned_arg (LM f) w) 10)
         | _ \<Rightarrow> None)
      else if c = CHR ''x'' \<or> c = CHR ''X'' then
        (case args of
           Slot w # rest \<Rightarrow>
             map_option (\<lambda>s. (conv_u f (if c = CHR ''X'' then map upper_hex s else s), rest))
               (Utoa (unsigned_arg (LM f) w) 16)
         | _ \<Rightarrow> None)
      else if c = CHR ''f'' then Some (conv_f f, args)
      else if c = CHR ''p'' then
        (case args of Slot w # rest \<Rightarrow> map_option (\<lambda>s. (''0x'' @ s, rest)) (Utoa w 16) | _ \<Rightarrow> None)
      else Some ([CHR ''%'', c], args))"

lemma skip_char_length: "length (snd (skip_char c fmt)) \<le> length fmt"
  by (auto simp: skip_char_def split: list.splits)

lemma scan_lenmod_length: "length (snd (scan_lenmod fmt)) \<le> length fmt"
  by (auto simp: scan_lenmod_def skip_char_def split: list.splits)

lemma scan_num_length: "scan_num acc fmt = Some (n, rest) \<Longrightarrow> length rest \<le> length fmt"
  by (induction acc fmt rule: scan_num.induct) (auto simp: Let_def split: if_splits)

lemma scan_spec_length: "scan_spec fmt = Some (f, rest) \<Longrightarrow> length rest \<le> length fmt"
proof -
  assume a: "scan_spec fmt = Some (f, rest)"
  obtain lj f1 where 1: "skip_char (CHR ''-'') fmt = (lj, f1)" by (cases "skip_char (CHR ''-'') fmt")
  obtain zp f2 where 2: "skip_char (CHR ''0'') f1 = (zp, f2)" by (cases "skip_char (CHR ''0'') f1")
  obtain w f3 where 3: "scan_num 0 f2 = Some (w, f3)" using a 1 2 by (auto simp: scan_spec_def split: option.splits)
  obtain hp f4 where 4: "skip_char (CHR ''.'') f3 = (hp, f4)" by (cases "skip_char (CHR ''.'') f3")
  obtain pr f5 where 5: "(if hp then scan_num 0 f4 else Some (0, f4)) = Some (pr, f5)"
    using a 1 2 3 4 by (auto simp: scan_spec_def split: option.splits)
  have "rest = snd (scan_lenmod f5)" using a 1 2 3 4 5 by (auto simp: scan_spec_def split: prod.splits)
  moreover have "length f5 \<le> length f4" using 5 by (auto split: if_splits dest: scan_num_length)
  ultimately show ?thesis
    using skip_char_length [of "CHR ''-''" fmt] skip_char_length [of "CHR ''0''" f1] scan_num_length [OF 3]
      skip_char_length [of "CHR ''.''" f3] scan_lenmod_length [of f5] 1 2 4 by simp
qed

text \<open>\<^verbatim>\<open>writeChar\<close> on the buffer and the position, and the main loop. A format that ends inside a
  conversion makes the loop step over its terminator and read on, which is undefined.\<close>

definition writeChar :: "nat \<Rightarrow> char list \<times> nat \<Rightarrow> char \<Rightarrow> (char list \<times> nat) option" where
  "writeChar bufsize st c =
     (let (buf, pos) = st
      in if pos + 1 < bufsize then
           if pos < length buf then Some (buf[pos := c], pos + 1) else None
         else Some (buf, pos + 1))"

primrec writeStr :: "nat \<Rightarrow> char list \<times> nat \<Rightarrow> string \<Rightarrow> (char list \<times> nat) option" where
  "writeStr bufsize st [] = Some st"
| "writeStr bufsize st (c # s) = (case writeChar bufsize st c of None \<Rightarrow> None | Some st' \<Rightarrow> writeStr bufsize st' s)"

function vsprint_loop :: "nat \<Rightarrow> string \<Rightarrow> va list \<Rightarrow> char list \<times> nat \<Rightarrow> (char list \<times> nat) option" where
  "vsprint_loop bufsize [] args st = Some st"
| "vsprint_loop bufsize (c # fmt) args st =
     (if c = CHR ''%'' then
        (case scan_spec fmt of
           None \<Rightarrow> None
         | Some (f, []) \<Rightarrow> None
         | Some (f, conv # rest) \<Rightarrow>
             (case convert f conv args of
                None \<Rightarrow> None
              | Some (out, args') \<Rightarrow>
                  (case writeStr bufsize st out of None \<Rightarrow> None | Some st' \<Rightarrow> vsprint_loop bufsize rest args' st')))
      else (case writeChar bufsize st c of None \<Rightarrow> None | Some st' \<Rightarrow> vsprint_loop bufsize fmt args st'))"
  by pat_completeness auto
termination
  by (relation "measure (\<lambda>(bufsize, fmt, args, st). length fmt)") (auto dest: scan_spec_length)

definition VSPrint :: "char list option \<Rightarrow> nat \<Rightarrow> string \<Rightarrow> va list \<Rightarrow> (char list option \<times> int) option" where
  "VSPrint buffer bufsize fmt args =
     (case buffer of
        None \<Rightarrow> Some (None, 0)
      | Some buf \<Rightarrow>
          if bufsize = 0 then Some (Some buf, 0)
          else
            (case vsprint_loop bufsize fmt args (buf, 0) of
               None \<Rightarrow> None
             | Some (buf', pos) \<Rightarrow>
                 let idx = (if pos < bufsize - 1 then pos else bufsize - 1)
                 in if idx < length buf' then Some (Some (buf'[idx := NUL]), to_int32 idx) else None))"

text \<open>\<^verbatim>\<open>SPrint\<close> collects its variable arguments and passes them on.\<close>

definition SPrint :: "char list option \<Rightarrow> nat \<Rightarrow> string \<Rightarrow> va list \<Rightarrow> (char list option \<times> int) option" where
  "SPrint buffer bufsize fmt args = VSPrint buffer bufsize fmt args"

text \<open>What an unbounded formatter would print.\<close>

function printed :: "string \<Rightarrow> va list \<Rightarrow> string option" where
  "printed [] args = Some []"
| "printed (c # fmt) args =
     (if c = CHR ''%'' then
        (case scan_spec fmt of
           None \<Rightarrow> None
         | Some (f, []) \<Rightarrow> None
         | Some (f, conv # rest) \<Rightarrow>
             (case convert f conv args of
                None \<Rightarrow> None
              | Some (out, args') \<Rightarrow> map_option (\<lambda>s. out @ s) (printed rest args')))
      else map_option (\<lambda>s. c # s) (printed fmt args))"
  by pat_completeness auto
termination
  by (relation "measure (\<lambda>(fmt, args). length fmt)") (auto dest: scan_spec_length)

section \<open>The digits are the number\<close>

definition digit_val :: "char \<Rightarrow> nat" where
  "digit_val c = (if of_char c < (58 :: nat) then of_char c - 48 else of_char c - 97 + 10)"

text \<open>The value of a digit string, most significant digit first.\<close>

definition digits_value :: "nat \<Rightarrow> string \<Rightarrow> nat" where
  "digits_value base s = foldl (\<lambda>acc c. acc * base + digit_val c) 0 s"

lemma digit_val_digit_of [simp]: "v < 16 \<Longrightarrow> digit_val (digit_of v) = v"
  by (auto simp: digit_val_def digit_of_def of_char_of take_bit_eq_mod)

lemma swap_ends_length [simp]: "length (swap_ends l r xs) = length xs"
proof (induction l r xs rule: swap_ends.induct)
  case (1 l r xs)
  then show ?case by (subst swap_ends.simps) simp
qed

lemma swap_ends_nth:
  "r < length xs \<Longrightarrow> i < length xs \<Longrightarrow>
   swap_ends l r xs ! i = (if l \<le> i \<and> i \<le> r then xs ! (l + r - i) else xs ! i)"
proof (induction l r xs rule: swap_ends.induct)
  case (1 l r xs)
  show ?case
  proof (cases "l < r")
    case True
    define ys where "ys = xs[l := xs ! r, r := xs ! l]"
    have "swap_ends (l + 1) (r - 1) ys ! i
            = (if l + 1 \<le> i \<and> i \<le> r - 1 then ys ! (l + 1 + (r - 1) - i) else ys ! i)"
      using 1(1) [OF True] 1(2,3) by (auto simp: ys_def)
    moreover have "swap_ends l r xs = swap_ends (l + 1) (r - 1) ys"
      using True by (subst swap_ends.simps) (simp add: ys_def)
    moreover have "ys ! j = (if j = r then xs ! l else if j = l then xs ! r else xs ! j)" if "j < length xs" for j
      using that True 1(2) by (auto simp: ys_def nth_list_update)
    moreover have "l + 1 + (r - 1) - i = l + r - i" using True by simp
    ultimately show ?thesis using True 1(2,3) by auto
  next
    case False
    then have "swap_ends l r xs = xs" by (subst swap_ends.simps) simp
    with False show ?thesis by (cases "l = r") auto
  qed
qed

lemma swap_ends_rev: "swap_ends 0 (length xs - 1) xs = rev xs"
proof (cases "xs = []")
  case True
  then show ?thesis by (subst swap_ends.simps) simp
next
  case False
  then show ?thesis by (intro nth_equalityI) (auto simp: swap_ends_nth rev_nth)
qed

lemma utoa_digits_value:
  "2 \<le> base \<Longrightarrow> base \<le> 16 \<Longrightarrow> digits_value base (rev (utoa_digits base v)) = v"
proof (induction base v rule: utoa_digits.induct)
  case (1 base v)
  have r: "v - v div base * base = v mod base" by (simp add: minus_div_mult_eq_mod)
  show ?case
  proof (cases "v div base = 0")
    case True
    with 1(2,3) show ?thesis by (subst utoa_digits.simps) (simp add: digits_value_def r [simplified True] div_eq_0_iff)
  next
    case False
    have "v mod base < 16" using 1(2,3) mod_less_divisor [of base v] by linarith
    moreover have "utoa_digits base v = digit_of (v mod base) # utoa_digits base (v div base)"
      using False 1(2) by (subst utoa_digits.simps) (simp add: r)
    moreover have "digits_value base (rev (utoa_digits base (v div base))) = v div base"
      using 1 False by (simp add: r)
    ultimately show ?thesis by (simp add: digits_value_def)
  qed
qed

lemma utoa_digits_length: "2 \<le> base \<Longrightarrow> v < base ^ n \<Longrightarrow> 0 < n \<Longrightarrow> length (utoa_digits base v) \<le> n"
proof (induction base v arbitrary: n rule: utoa_digits.induct)
  case (1 base v)
  obtain k where n: "n = Suc k" using 1(4) by (cases n) auto
  show ?case
  proof (cases "v div base = 0")
    case True
    with 1(2) n show ?thesis by (subst utoa_digits.simps) simp
  next
    case False
    have "v div base < base ^ k" using 1(2,3) n by (simp add: less_mult_imp_div_less mult.commute)
    moreover have "0 < k" using False calculation by (cases k) auto
    ultimately have "length (utoa_digits base (v div base)) \<le> k" using 1 False by simp
    with False 1(2) n show ?thesis by (subst utoa_digits.simps) (simp add: Let_def)
  qed
qed

lemma Utoa_rev: "2 \<le> base \<Longrightarrow> base \<le> 16 \<Longrightarrow> Utoa v base = Some (rev (utoa_digits (nat base) (unat v)))"
  by (simp add: Utoa_def Let_def swap_ends_rev [simplified])

text \<open>\<^verbatim>\<open>Utoa\<close> prints the number, in at most 64 digits; the local buffer of \<^verbatim>\<open>VSPrint\<close> has 128 bytes.\<close>

lemma Utoa_value:
  assumes "2 \<le> base" and "base \<le> 16"
  shows "\<exists>s. Utoa v base = Some s \<and> digits_value (nat base) s = unat v \<and> length s \<le> 64"
proof -
  have "(2 :: nat) ^ 64 \<le> nat base ^ 64" using assms by (intro power_mono) auto
  then have "unat v < nat base ^ 64" using unat_lt_2_64 [of v] by linarith
  then have "length (utoa_digits (nat base) (unat v)) \<le> 64" using assms by (intro utoa_digits_length) auto
  with assms show ?thesis by (simp add: Utoa_rev utoa_digits_value)
qed

lemma unat_uminus_sint: "sint (v :: u64) < 0 \<Longrightarrow> unat (- v) = nat (- sint v)"
proof -
  assume "sint v < 0"
  moreover have "- (2 ^ 63) \<le> sint v" using sint_ge [of v] by simp
  moreover have "- v = word_of_int (- sint v)" by simp
  then have "uint (- v) = (- sint v) mod 2 ^ 64"
    using uint_word_of_int [of "- sint v", where 'a = 64] by (simp del: of_int_minus)
  ultimately show ?thesis by (simp add: unat_eq_nat_uint)
qed

lemma unat_sint_nonneg: "0 \<le> sint (v :: u64) \<Longrightarrow> unat v = nat (sint v)"
proof -
  assume "0 \<le> sint v"
  moreover have "sint v < 2 ^ 63" using sint_lt [of v] by simp
  moreover have "uint v = sint v mod 2 ^ 64"
    using uint_word_of_int [of "sint v", where 'a = 64] by simp
  ultimately show ?thesis by (simp add: unat_eq_nat_uint)
qed

lemma digit_of_0: "digit_of 0 = CHR ''0''"
  by (simp add: digit_of_def char_of_def bit_0)

text \<open>\<^verbatim>\<open>Itoa\<close> in base 10 is defined for every 64-bit number but the least, fits a 21-byte buffer, and
  prints a sign exactly for a negative number, followed by decimal digits whose value is the
  absolute value: reading the digits back gives the number.\<close>

theorem Itoa_roundtrip:
  assumes "v \<noteq> 0x8000000000000000"
  shows "\<exists>sign digits. Itoa v 10 = Some (Some (sign @ digits))
    \<and> sign = (if sint v < 0 then ''-'' else '''')
    \<and> int (digits_value 10 digits) = \<bar>sint v\<bar> \<and> length (sign @ digits) \<le> 20"
proof (cases "sint v < 0")
  case True
  moreover have "v \<noteq> 0" using True by auto
  ultimately have "Itoa v 10 = Some (Some (''-'' @ rev (utoa_digits 10 (unat (- v)))))"
    using assms swap_ends_rev [of "utoa_digits 10 (unat (- v)) @ ''-''"] by (simp add: Itoa_def Let_def)
  moreover have "unat (- v) < 10 ^ 19"
    using True sint_ge [of v] by (simp add: unat_uminus_sint nat_less_iff)
  then have "length (utoa_digits 10 (unat (- v))) \<le> 19" by (intro utoa_digits_length) auto
  ultimately show ?thesis using True
    by (intro exI [of _ "''-''"] exI [of _ "rev (utoa_digits 10 (unat (- v)))"])
      (simp add: utoa_digits_value unat_uminus_sint)
next
  case False
  then have u: "unat v = nat (sint v)" by (simp add: unat_sint_nonneg)
  have "unat v < 10 ^ 20" using unat_lt_2_64 [of v] by simp
  then have "length (utoa_digits 10 (unat v)) \<le> 20" by (intro utoa_digits_length) auto
  moreover have "Itoa v 10 = Some (Some (rev (utoa_digits 10 (unat v))))"
    using False by (cases "v = 0") (simp_all add: Itoa_def Let_def swap_ends_rev [simplified] utoa_digits.simps [of 10 0] digit_of_0)
  ultimately show ?thesis using False u
    by (intro exI [of _ "''''"] exI [of _ "rev (utoa_digits 10 (unat v))"]) (simp add: utoa_digits_value)
qed

lemma Itoa_roundtrip_witness:
  "(\<exists>digits. Itoa (- 905) 10 = Some (Some (''-'' @ digits)) \<and> digits_value 10 digits = 905)"
  using Itoa_roundtrip [of "- 905"] by auto

section \<open>Bounded output\<close>

text \<open>The array after \<open>out\<close> was written from \<open>pos\<close> on with the last of \<open>bufsize\<close> cells kept free.\<close>

definition out_at :: "nat \<Rightarrow> nat \<Rightarrow> string \<Rightarrow> char list \<Rightarrow> char list" where
  "out_at bufsize pos out buf =
     map (\<lambda>i. if pos \<le> i \<and> i < pos + length out \<and> i + 1 < bufsize then out ! (i - pos) else buf ! i) [0 ..< length buf]"

lemma out_at_length [simp]: "length (out_at n p out buf) = length buf"
  by (simp add: out_at_def)

lemma out_at_nth [simp]:
  "i < length buf \<Longrightarrow>
   out_at n p out buf ! i = (if p \<le> i \<and> i < p + length out \<and> i + 1 < n then out ! (i - p) else buf ! i)"
  by (simp add: out_at_def)

lemma out_at_Nil [simp]: "out_at n p [] buf = buf"
  by (intro nth_equalityI) auto

lemma out_at_append: "out_at n (p + length a) b (out_at n p a buf) = out_at n p (a @ b) buf"
  by (intro nth_equalityI) (auto simp: nth_append)

lemma writeChar_out_at:
  "n \<le> length buf \<Longrightarrow> writeChar n (buf, p) c = Some (out_at n p [c] buf, p + 1)"
  by (auto simp: writeChar_def nth_list_update intro!: nth_equalityI)

lemma writeStr_out_at:
  "n \<le> length buf \<Longrightarrow> writeStr n (buf, p) s = Some (out_at n p s buf, p + length s)"
proof (induction s arbitrary: buf p)
  case (Cons c s)
  then show ?case using out_at_append [of n p "[c]" s buf] by (simp add: writeChar_out_at)
qed simp

lemma vsprint_loop_printed:
  "n \<le> length buf \<Longrightarrow>
   vsprint_loop n fmt args (buf, pos) = map_option (\<lambda>out. (out_at n pos out buf, pos + length out)) (printed fmt args)"
proof (induction fmt args arbitrary: buf pos rule: printed.induct)
  case (1 args)
  then show ?case by simp
next
  case (2 c fmt args)
  show ?case
  proof (cases "c = CHR ''%''")
    case False
    then show ?thesis using 2(2) [OF False, of "out_at n pos [c] buf" "pos + 1"] 2(3)
        out_at_append [of n pos "[c]" _ buf]
      by (simp add: writeChar_out_at option.map_comp comp_def)
  next
    case True
    show ?thesis
    proof (cases "\<exists>f conv rest out args'. scan_spec fmt = Some (f, conv # rest) \<and> convert f conv args = Some (out, args')")
      case T: True
      then obtain f conv rest out args' where eq: "scan_spec fmt = Some (f, conv # rest)" "convert f conv args = Some (out, args')"
        by blast
      have "vsprint_loop n rest args' (out_at n pos out buf, pos + length out)
          = map_option (\<lambda>s. (out_at n (pos + length out) s (out_at n pos out buf), pos + length out + length s)) (printed rest args')"
        using 2(1) [OF True eq(1) refl refl eq(2) refl, of "out_at n pos out buf" "pos + length out"] 2(3) by simp
      then show ?thesis using True eq 2(3)
        by (simp add: writeStr_out_at out_at_append option.map_comp comp_def add.assoc)
    next
      case F: False
      then show ?thesis using True by (auto split: option.splits list.splits)
    qed
  qed
qed

text \<open>C38. Formatting never leaves the buffer: on an array of at least \<open>bufsize > 0\<close> cells \<^verbatim>\<open>VSPrint\<close> stores
  the first \<open>bufsize - 1\<close> characters of what the format and the arguments print, then the terminator,
  touches no cell from \<open>bufsize\<close> on, and returns the number of characters stored.\<close>

theorem VSPrint_bounded:
  assumes "printed fmt args = Some out" and "0 < bufsize" and "bufsize \<le> length buf"
  shows "\<exists>buf'. VSPrint (Some buf) bufsize fmt args = Some (Some buf', to_int32 (min (length out) (bufsize - 1)))
     \<and> length buf' = length buf
     \<and> take (min (length out) (bufsize - 1)) buf' = take (bufsize - 1) out
     \<and> buf' ! min (length out) (bufsize - 1) = NUL
     \<and> drop bufsize buf' = drop bufsize buf"
proof -
  define k where "k = min (length out) (bufsize - 1)"
  define buf' where "buf' = (out_at bufsize 0 out buf)[k := NUL]"
  have k: "k < length buf" "(if length out < bufsize - 1 then length out else bufsize - 1) = k"
    using assms(2,3) by (auto simp: k_def)
  have "VSPrint (Some buf) bufsize fmt args = Some (Some buf', to_int32 k)"
    using assms k by (simp add: VSPrint_def vsprint_loop_printed Let_def buf'_def)
  moreover have "take k buf' = take (bufsize - 1) out"
    using k assms(2,3) by (intro nth_equalityI) (auto simp: buf'_def k_def nth_list_update)
  moreover have "drop bufsize buf' = drop bufsize buf"
    using k assms(2,3) by (intro nth_equalityI) (auto simp: buf'_def k_def nth_list_update)
  moreover have "length buf' = length buf" "buf' ! k = NUL" using k(1) by (simp_all add: buf'_def)
  ultimately show ?thesis unfolding k_def [symmetric] by blast
qed

lemma VSPrint_bounded_witness:
  "\<exists>buf'. VSPrint (Some (replicate 8 (CHR ''?''))) 8 ''pid %04d %s'' [Slot 42, Str (Some ''init'')] = Some (Some buf', 7)
     \<and> take 7 buf' = ''pid 004'' \<and> buf' ! 7 = NUL"
proof -
  have "printed ''pid %04d %s'' [Slot 42, Str (Some ''init'')] = Some ''pid 0042 init''" by code_simp
  moreover have "min (length ''pid 0042 init'') (8 - 1) = 7" "take (8 - 1) ''pid 0042 init'' = ''pid 004''" "to_int32 7 = 7"
    by (simp_all add: to_int32_def)
  ultimately show ?thesis using VSPrint_bounded [of "''pid %04d %s''" "[Slot 42, Str (Some ''init'')]" "''pid 0042 init''" 8 "replicate 8 (CHR ''?'')"]
    by (simp only: length_replicate) auto
qed

text \<open>A format that ends with a lone \<^verbatim>\<open>%\<close> makes the loop run past its terminator.\<close>

lemma VSPrint_trailing_percent: "0 < n \<Longrightarrow> VSPrint (Some buf) n ''%'' args = None"
  by (simp add: VSPrint_def scan_spec_def skip_char_def scan_lenmod_def)

end
