(* ===== verification/Vfs_Path.thy ===== *)
theory Vfs_Path
  imports C_String
begin

text \<open>
  Path handling and the mount table of \<^verbatim>\<open>kernel/filesys/vfs/vfs.cpp\<close>: \<^verbatim>\<open>CanonicalizePath\<close>, the driver and
  mount registries, the longest-prefix search \<^verbatim>\<open>FindMountPoint\<close> and \<^verbatim>\<open>ResolvePath\<close> with its symlink
  loop. Paths are the characters before the terminator; a copy that does not fit its fixed array
  is \<^const>\<open>None\<close>. A file system object is a value of an arbitrary type \<open>'fs\<close>; its virtual functions
  are arguments.
\<close>

section \<open>Canonical paths\<close>

abbreviation slash :: char where
  "slash \<equiv> CHR ''/''"

text \<open>What the loop does at the end of a component: \<open>stack\<close> is \<^verbatim>\<open>tokens[0 .. top)\<close>.\<close>

definition canon_token :: "string \<Rightarrow> string list \<Rightarrow> string list option" where
  "canon_token start stack =
     (if start = [] then Some stack
      else if start = ''.'' then Some stack
      else if start = ''..'' then Some (butlast stack)
      else if length stack < 32 then Some (stack @ [start])
      else None)"

text \<open>\<^verbatim>\<open>for (i = 0; i <= len; i++)\<close> over \<^verbatim>\<open>work_buf\<close>; \<open>start\<close> holds the characters since the last slash.\<close>

fun canon_loop :: "string \<Rightarrow> string \<Rightarrow> string list \<Rightarrow> string list option" where
  "canon_loop [] start stack = canon_token start stack"
| "canon_loop (c # s) start stack =
     (if c = slash then
        (case canon_token start stack of None \<Rightarrow> None | Some stack' \<Rightarrow> canon_loop s [] stack')
      else canon_loop s (start @ [c]) stack)"

definition join_path :: "string list \<Rightarrow> string" where
  "join_path toks = concat (map (\<lambda>t. slash # t) toks)"

definition CanonicalizePath :: "string \<Rightarrow> string \<Rightarrow> string option" where
  "CanonicalizePath cwd input =
     (let temp = (if input \<noteq> [] \<and> hd input = slash then input
                  else (if cwd \<noteq> [] \<and> last cwd \<noteq> slash then cwd @ [slash] else cwd) @ input)
      in if 256 \<le> length temp then None
         else
           (case canon_loop temp [] [] of
              None \<Rightarrow> None
            | Some tokens \<Rightarrow>
                if tokens = [] then Some ''/''
                else if length (join_path tokens) < 256 then Some (join_path tokens)
                else None))"

section \<open>Drivers and mount points\<close>

datatype FileType = FT_DIR | FT_NORMAL | FT_PIPE | FT_SOCK | FT_DEVCHAR | FT_DEVBLOK | FT_SYMLINK | FT_SHM

record 'fs MountPoint =
  mp_path :: string
  mp_fs :: 'fs

text \<open>\<open>write_held\<close> is the global lock held for writing; the driver table maps names to factories.\<close>

record 'fs vfs =
  g_Drivers :: "(string \<times> 'fs) list"
  g_MountPoints :: "'fs MountPoint list"
  write_held :: bool

definition MAX_FS_DRIVERS :: nat where "MAX_FS_DRIVERS = 10"

definition MAX_MOUNT_POINTS :: nat where "MAX_MOUNT_POINTS = 20"

definition MAX_SYMLINK_DEPTH :: nat where "MAX_SYMLINK_DEPTH = 16"

text \<open>The name field has 32 bytes and is filled with an unchecked \<^verbatim>\<open>Strcpy\<close>.\<close>

definition RegisterFileSystem :: "string \<Rightarrow> 'fs \<Rightarrow> 'fs vfs \<Rightarrow> 'fs vfs option" where
  "RegisterFileSystem fsName factory v =
     (if MAX_FS_DRIVERS \<le> length (g_Drivers v) then Some v
      else if 32 \<le> length fsName then None
      else Some (v\<lparr> g_Drivers := g_Drivers v @ [(fsName, factory)] \<rparr>))"

definition InstantiateDriver :: "string \<Rightarrow> 'fs vfs \<Rightarrow> 'fs option" where
  "InstantiateDriver name v = map_of (g_Drivers v) name"

definition FindMountIndex :: "string \<Rightarrow> 'fs vfs \<Rightarrow> nat option" where
  "FindMountIndex path v = find_index (\<lambda>m. mp_path m = path) (g_MountPoints v)"

definition GetMountPointPath :: "nat \<Rightarrow> 'fs vfs \<Rightarrow> string option" where
  "GetMountPointPath index v = (if length (g_MountPoints v) \<le> index then None else Some (mp_path (g_MountPoints v ! index)))"

text \<open>The shared guards of the two mount functions, and the new entry: \<^verbatim>\<open>Strncpy\<close> into 128 bytes.\<close>

definition mount_refused :: "string \<Rightarrow> 'fs vfs \<Rightarrow> bool" where
  "mount_refused path v \<longleftrightarrow>
     MAX_MOUNT_POINTS \<le> length (g_MountPoints v) \<or> path = [] \<or> hd path \<noteq> slash \<or> FindMountIndex path v \<noteq> None"

definition record_mount :: "string \<Rightarrow> 'fs \<Rightarrow> 'fs vfs \<Rightarrow> 'fs vfs" where
  "record_mount path fs v = v\<lparr> g_MountPoints := g_MountPoints v @ [\<lparr> mp_path = take 127 path, mp_fs = fs \<rparr>] \<rparr>"

definition MountFS :: "string option \<Rightarrow> 'fs option \<Rightarrow> 'fs vfs \<Rightarrow> bool \<times> 'fs vfs" where
  "MountFS path fs v =
     (case (path, fs) of
        (Some path, Some fs) \<Rightarrow> if mount_refused path v then (False, v) else (True, record_mount path fs v)
      | _ \<Rightarrow> (False, v))"

text \<open>\<^verbatim>\<open>Mount\<close> of a partition, given as its \<^verbatim>\<open>GetFilesystem()\<close>. Waiting for a lock that is never released
  is \<^const>\<open>None\<close>; the early return for a partition without file system keeps the write lock.\<close>

definition Mount :: "string option \<Rightarrow> 'fs option option \<Rightarrow> 'fs vfs \<Rightarrow> (bool \<times> 'fs vfs) option" where
  "Mount path part v =
     (case (path, part) of
        (Some path, Some GetFilesystem) \<Rightarrow>
          if mount_refused path v then Some (False, v)
          else if write_held v then None
          else
            (case GetFilesystem of
               None \<Rightarrow> Some (False, v\<lparr> write_held := True \<rparr>)
             | Some fs \<Rightarrow> Some (True, record_mount path fs v))
      | _ \<Rightarrow> Some (False, v))"

section \<open>Lookup\<close>

definition mount_matches :: "string \<Rightarrow> string \<Rightarrow> bool" where
  "mount_matches path mp \<longleftrightarrow>
     \<not> (1 < length mp \<and> length path < length mp)
     \<and> Strncmp (Some path) (Some mp) (length mp) = 0
     \<and> (length mp = 1 \<and> hd mp = slash \<or> length path = length mp \<or> length mp < length path \<and> path ! length mp = slash)"

text \<open>The scan for the longest match: \<open>best\<close> is \<^verbatim>\<open>bestIdx\<close> with \<^verbatim>\<open>bestLen\<close>.\<close>

fun best_mount :: "string \<Rightarrow> 'fs MountPoint list \<Rightarrow> nat \<Rightarrow> (nat \<times> nat) option \<Rightarrow> (nat \<times> nat) option" where
  "best_mount path [] i best = best"
| "best_mount path (m # ms) i best =
     (let mpl = length (mp_path m);
          better = (case best of None \<Rightarrow> True | Some (_, bestLen) \<Rightarrow> bestLen < mpl)
      in best_mount path ms (i + 1)
           (if mount_matches path (mp_path m) \<and> better then Some (i, mpl) else best))"

text \<open>\<^verbatim>\<open>OutRelativePath\<close>: a slash, then at most 254 characters of the rest without its leading slash.\<close>

definition relative_path :: "string \<Rightarrow> nat \<Rightarrow> string" where
  "relative_path path bestLen =
     (let rest = drop bestLen path
      in slash # take 254 (if rest \<noteq> [] \<and> hd rest = slash then tl rest else rest))"

definition FindMountPoint :: "string \<Rightarrow> 'fs vfs \<Rightarrow> ('fs \<times> string) option" where
  "FindMountPoint path v =
     (if path = [] \<or> hd path \<noteq> slash then None
      else
        (case best_mount path (g_MountPoints v) 0 None of
           None \<Rightarrow> None
         | Some (bestIdx, bestLen) \<Rightarrow> Some (mp_fs (g_MountPoints v ! bestIdx), relative_path path bestLen)))"

text \<open>\<^verbatim>\<open>Strncpy(Out, rel, 255)\<close> leaves no terminator after a string of 255 characters.\<close>

definition copy255 :: "string \<Rightarrow> string option" where
  "copy255 s = (if length s < 255 then Some s else None)"

text \<open>The symlink loop, \<open>n\<close> rounds left. \<open>Stat\<close> gives the type, \<open>ReadLink\<close> the target (\<^const>\<open>None\<close> a negative
  length). The outer option is undefined behaviour: a relative target is looked up through the
  never written \<^verbatim>\<open>TempPath\<close>. The inner one is the \<^verbatim>\<open>FALSE\<close> result.\<close>

fun resolve_loop ::
  "('fs \<Rightarrow> string \<Rightarrow> FileType option) \<Rightarrow> ('fs \<Rightarrow> string \<Rightarrow> string option) \<Rightarrow> bool \<Rightarrow> nat \<Rightarrow> string \<Rightarrow> 'fs vfs
     \<Rightarrow> ('fs \<times> string) option option" where
  "resolve_loop Stat ReadLink follow 0 path v = Some None"
| "resolve_loop Stat ReadLink follow (Suc n) path v =
     (case FindMountPoint path v of
        None \<Rightarrow> Some None
      | Some (fs, rel) \<Rightarrow>
          if Stat fs rel = Some FT_SYMLINK \<and> follow then
            (case ReadLink fs rel of
               None \<Rightarrow> Some None
             | Some target \<Rightarrow>
                 if target \<noteq> [] \<and> hd target = slash then
                   (case copy255 target of None \<Rightarrow> None | Some path' \<Rightarrow> resolve_loop Stat ReadLink follow n path' v)
                 else None)
          else (case copy255 rel of None \<Rightarrow> None | Some out \<Rightarrow> Some (Some (fs, out))))"

definition ResolvePath ::
  "('fs \<Rightarrow> string \<Rightarrow> FileType option) \<Rightarrow> ('fs \<Rightarrow> string \<Rightarrow> string option) \<Rightarrow> string \<Rightarrow> bool \<Rightarrow> 'fs vfs
     \<Rightarrow> ('fs \<times> string) option option" where
  "ResolvePath Stat ReadLink path follow v =
     (case CanonicalizePath ''/'' path of
        None \<Rightarrow> None
      | Some cur \<Rightarrow> if write_held v then None else resolve_loop Stat ReadLink follow MAX_SYMLINK_DEPTH cur v)"

section \<open>Canonical paths are canonical\<close>

definition clean :: "string \<Rightarrow> bool" where
  "clean t \<longleftrightarrow> t \<noteq> [] \<and> t \<noteq> ''.'' \<and> t \<noteq> ''..'' \<and> slash \<notin> set t"

text \<open>The reference meaning: split at the slashes and walk the components from the root.\<close>

fun components :: "string \<Rightarrow> string \<Rightarrow> string list" where
  "components [] start = [start]"
| "components (c # s) start = (if c = slash then start # components s [] else components s (start @ [c]))"

definition walk1 :: "string list \<Rightarrow> string \<Rightarrow> string list" where
  "walk1 dir c = (if c = [] \<or> c = ''.'' then dir else if c = ''..'' then butlast dir else dir @ [c])"

definition walk :: "string list \<Rightarrow> string list \<Rightarrow> string list" where
  "walk dir cs = foldl walk1 dir cs"

lemma canon_token_walk1: "canon_token start stack = Some stack' \<Longrightarrow> stack' = walk1 stack start"
  by (auto simp: canon_token_def walk1_def split: if_splits)

lemma canon_loop_walk: "canon_loop s start stack = Some toks \<Longrightarrow> toks = walk stack (components s start)"
  by (induction s start stack rule: canon_loop.induct)
    (auto simp: walk_def canon_token_walk1 split: if_splits option.splits dest: canon_token_walk1)

lemma canon_token_clean:
  "canon_token start stack = Some stack' \<Longrightarrow> slash \<notin> set start \<Longrightarrow> \<forall>t \<in> set stack. clean t \<Longrightarrow> length stack \<le> 32
   \<Longrightarrow> (\<forall>t \<in> set stack'. clean t) \<and> length stack' \<le> 32"
  by (simp add: canon_token_def clean_def [of start] ball_Un split: if_split_asm) (force dest: in_set_butlastD simp: clean_def [of start])+

lemma canon_loop_clean:
  "canon_loop s start stack = Some toks \<Longrightarrow> slash \<notin> set start \<Longrightarrow> \<forall>t \<in> set stack. clean t \<Longrightarrow> length stack \<le> 32
   \<Longrightarrow> (\<forall>t \<in> set toks. clean t) \<and> length toks \<le> 32"
proof (induction s start stack rule: canon_loop.induct)
  case (1 start stack)
  then show ?case using canon_token_clean by simp
next
  case (2 c s start stack)
  show ?case
  proof (cases "c = slash")
    case True
    then obtain st where st: "canon_token start stack = Some st" "canon_loop s [] st = Some toks"
      using 2(3) by (auto split: option.splits)
    have "(\<forall>t \<in> set st. clean t) \<and> length st \<le> 32" by (rule canon_token_clean [OF st(1) 2(4-6)])
    with 2(1) [OF True st] show ?thesis by simp
  next
    case False
    then show ?thesis using 2(2) [OF False] 2(3-6) by simp
  qed
qed

lemma canon_loop_skip: "slash \<notin> set t \<Longrightarrow> canon_loop (t @ s) start stack = canon_loop s (start @ t) stack"
  by (induction t arbitrary: start) auto

lemma canon_loop_join:
  "\<forall>t \<in> set toks. clean t \<Longrightarrow> canon_token start stack = Some st \<Longrightarrow> length st + length toks \<le> 32
   \<Longrightarrow> canon_loop (join_path toks) start stack = Some (st @ toks)"
proof (induction toks arbitrary: start stack st)
  case Nil
  then show ?case by (simp add: join_path_def)
next
  case (Cons t toks)
  have t: "slash \<notin> set t" "canon_token t st = Some (st @ [t])"
    using Cons.prems by (auto simp: clean_def canon_token_def)
  have "canon_loop (join_path (t # toks)) start stack = canon_loop (t @ join_path toks) [] st"
    using Cons.prems(2) by (simp add: join_path_def)
  also have "\<dots> = canon_loop (join_path toks) t st" by (simp add: canon_loop_skip [OF t(1)])
  also have "\<dots> = Some ((st @ [t]) @ toks)" using Cons.prems t(2) by (intro Cons.IH) auto
  finally show ?case by simp
qed

text \<open>The text of \<^verbatim>\<open>temp\<close>: the input, taken from \<open>cwd\<close> when it is relative.\<close>

definition absolute :: "string \<Rightarrow> string \<Rightarrow> string" where
  "absolute cwd input =
     (if input \<noteq> [] \<and> hd input = slash then input
      else (if cwd \<noteq> [] \<and> last cwd \<noteq> slash then cwd @ [slash] else cwd) @ input)"

lemma canon_of_canonical:
  assumes "\<forall>t \<in> set toks. clean t" and "length toks \<le> 32" and "length (join_path toks) < 256"
  shows "CanonicalizePath ''/'' (if toks = [] then ''/'' else join_path toks) = Some (if toks = [] then ''/'' else join_path toks)"
proof (cases toks)
  case Nil
  then show ?thesis by (simp add: CanonicalizePath_def canon_token_def)
next
  case (Cons t ts)
  have "canon_loop (join_path toks) [] [] = Some ([] @ toks)"
    using assms by (intro canon_loop_join) (simp_all add: canon_token_def)
  moreover have "join_path toks \<noteq> []" "hd (join_path toks) = slash" using Cons by (simp_all add: join_path_def)
  ultimately show ?thesis using assms(3) Cons by (simp add: CanonicalizePath_def)
qed

lemma CanonicalizePath_toks:
  assumes "CanonicalizePath cwd input = Some p"
  shows "\<exists>toks. canon_loop (absolute cwd input) [] [] = Some toks \<and> p = (if toks = [] then ''/'' else join_path toks)
    \<and> length (join_path toks) < 256 \<and> (\<forall>t \<in> set toks. clean t) \<and> length toks \<le> 32"
proof -
  obtain toks where toks: "canon_loop (absolute cwd input) [] [] = Some toks"
      "p = (if toks = [] then ''/'' else join_path toks)" "length (join_path toks) < 256"
    using assms by (auto simp: CanonicalizePath_def absolute_def Let_def join_path_def split: if_splits option.splits)
  moreover have "(\<forall>t \<in> set toks. clean t) \<and> length toks \<le> 32" using canon_loop_clean [OF toks(1)] by simp
  ultimately show ?thesis by blast
qed

lemma canonical_shape:
  assumes "CanonicalizePath cwd input = Some p"
  shows "p \<noteq> [] \<and> hd p = slash \<and> (tl p = [] \<or> hd (tl p) \<noteq> slash)"
proof -
  obtain toks where toks: "p = (if toks = [] then ''/'' else join_path toks)" "\<forall>t \<in> set toks. clean t"
    using CanonicalizePath_toks [OF assms] by blast
  show ?thesis
  proof (cases toks)
    case (Cons t ts)
    then obtain c t' where "t = c # t'" "c \<noteq> slash" using toks(2) by (cases t) (auto simp: clean_def)
    with toks(1) Cons show ?thesis by (simp add: join_path_def)
  qed (simp add: toks(1))
qed

text \<open>C34. \<^verbatim>\<open>CanonicalizePath\<close> returns the components of the path reached by walking the input from the
  working directory (dots ignored, double dots one level up, never above the root), each of them
  non-empty, slash-free and neither \<^verbatim>\<open>.\<close> nor \<^verbatim>\<open>..\<close>, and canonicalizing the result again changes
  nothing.\<close>

theorem CanonicalizePath_canonical:
  assumes "CanonicalizePath cwd input = Some p"
  shows "\<exists>toks. toks = walk [] (components (absolute cwd input) [])
     \<and> p = (if toks = [] then ''/'' else join_path toks)
     \<and> list_all clean toks \<and> length toks \<le> 32 \<and> CanonicalizePath ''/'' p = Some p"
proof -
  obtain toks where toks: "canon_loop (absolute cwd input) [] [] = Some toks" "p = (if toks = [] then ''/'' else join_path toks)"
      "length (join_path toks) < 256" "\<forall>t \<in> set toks. clean t" "length toks \<le> 32"
    using CanonicalizePath_toks [OF assms] by blast
  then show ?thesis using canon_of_canonical [of toks] canon_loop_walk [OF toks(1)] by (auto simp: list_all_iff)
qed

lemma CanonicalizePath_canonical_witness:
  "CanonicalizePath ''/usr/lib'' ''../bin/./ls'' = Some ''/usr/bin/ls''
   \<and> (\<exists>toks. ''/usr/bin/ls'' = join_path toks \<and> list_all clean toks \<and> CanonicalizePath ''/'' ''/usr/bin/ls'' = Some ''/usr/bin/ls'')"
proof -
  have c: "CanonicalizePath ''/usr/lib'' ''../bin/./ls'' = Some ''/usr/bin/ls''" by code_simp
  from CanonicalizePath_canonical [OF c] show ?thesis by (auto simp: c split: if_splits)
qed

section \<open>Longest prefix\<close>

text \<open>\<open>path\<close> lies at or below the directory \<open>mp\<close>.\<close>

definition under :: "string \<Rightarrow> string \<Rightarrow> bool" where
  "under path mp \<longleftrightarrow> mp = ''/'' \<or> path = mp \<or> (\<exists>rest. path = mp @ slash # rest)"

definition mounts_ok :: "'fs vfs \<Rightarrow> bool" where
  "mounts_ok v \<longleftrightarrow>
     length (g_MountPoints v) \<le> MAX_MOUNT_POINTS \<and> distinct (map mp_path (g_MountPoints v))
     \<and> (\<forall>m \<in> set (g_MountPoints v). mp_path m \<noteq> [] \<and> hd (mp_path m) = slash \<and> NUL \<notin> set (mp_path m) \<and> length (mp_path m) \<le> 127)"

lemma take_eq_prefix: "take (length mp) path = mp \<Longrightarrow> length path = length mp \<Longrightarrow> path = mp"
  by simp

lemma take_eq_slash:
  "take (length mp) path = mp \<Longrightarrow> length mp < length path \<Longrightarrow> path ! length mp = slash
   \<Longrightarrow> path = mp @ slash # drop (Suc (length mp)) path"
  by (metis append_take_drop_id Cons_nth_drop_Suc)

lemma mount_matches_under:
  assumes "NUL \<notin> set path" and "NUL \<notin> set mp" and "path \<noteq> []" and "hd path = slash" and "mp \<noteq> []" and "hd mp = slash"
  shows "mount_matches path mp \<longleftrightarrow> under path mp"
proof -
  have cmp: "Strncmp (Some path) (Some mp) (length mp) = 0 \<longleftrightarrow> take (length mp) path = mp"
    using strncmp_loop_prefix [OF assms(1,2)] by simp
  have root: "mp = ''/'' \<longleftrightarrow> length mp = 1" using assms(5,6) by (cases mp) auto
  show ?thesis
  proof
    assume "mount_matches path mp"
    then have m: "take (length mp) path = mp"
        "length mp = 1 \<or> length path = length mp \<or> length mp < length path \<and> path ! length mp = slash"
      unfolding mount_matches_def cmp by auto
    then show "under path mp"
      unfolding under_def root using take_eq_prefix [OF m(1)] take_eq_slash [OF m(1)] by blast
  next
    assume u: "under path mp"
    have pre: "take (length mp) path = mp"
      using u assms(3,4) by (cases path) (auto simp: under_def)
    have "length mp \<le> length path" using arg_cong [OF pre, of length] by simp
    moreover have "length mp = 1 \<and> hd mp = slash \<or> length path = length mp \<or> length mp < length path \<and> path ! length mp = slash"
      using u by (auto simp: under_def)
    ultimately show "mount_matches path mp" unfolding mount_matches_def cmp using pre by auto
  qed
qed

text \<open>What \<open>best\<close> means while the scan runs: an entry of maximal length among the matches seen.\<close>

definition best_of :: "string \<Rightarrow> 'fs MountPoint list \<Rightarrow> (nat \<times> nat) option \<Rightarrow> bool" where
  "best_of path ms best =
     (case best of
        None \<Rightarrow> \<forall>m \<in> set ms. \<not> mount_matches path (mp_path m)
      | Some (i, l) \<Rightarrow> i < length ms \<and> l = length (mp_path (ms ! i)) \<and> mount_matches path (mp_path (ms ! i))
           \<and> (\<forall>m \<in> set ms. mount_matches path (mp_path m) \<longrightarrow> length (mp_path m) \<le> l))"

lemma best_of_snoc:
  assumes "best_of path seen best"
  shows "best_of path (seen @ [m])
     (if mount_matches path (mp_path m) \<and> (case best of None \<Rightarrow> True | Some (_, l) \<Rightarrow> l < length (mp_path m))
      then Some (length seen, length (mp_path m)) else best)"
proof (cases best)
  case None
  with assms show ?thesis by (auto simp: best_of_def)
next
  case (Some il)
  obtain i l where il: "il = (i, l)" by (cases il)
  show ?thesis
  proof (cases "mount_matches path (mp_path m) \<and> l < length (mp_path m)")
    case True
    with assms Some il show ?thesis by (fastforce simp: best_of_def)
  next
    case False
    with assms Some il show ?thesis by (auto simp: best_of_def nth_append not_less)
  qed
qed

lemma best_mount_best:
  "best_of path seen best \<Longrightarrow> best_of path (seen @ ms) (best_mount path ms (length seen) best)"
proof (induction ms arbitrary: seen best)
  case (Cons m ms)
  show ?case using Cons.IH [OF best_of_snoc [OF Cons.prems, of m]] by (simp add: Let_def)
qed simp

lemma best_mount_correct: "best_of path ms (best_mount path ms 0 None)"
  using best_mount_best [of path "[]" None ms] by (simp add: best_of_def)

lemma mount_matches_mount:
  "mounts_ok v \<Longrightarrow> m \<in> set (g_MountPoints v) \<Longrightarrow> NUL \<notin> set path \<Longrightarrow> path \<noteq> [] \<Longrightarrow> hd path = slash
   \<Longrightarrow> mount_matches path (mp_path m) \<longleftrightarrow> under path (mp_path m)"
  by (intro mount_matches_under) (auto simp: mounts_ok_def)

lemma relative_path_rebuilds:
  assumes "under path mp" and "length path < 255" and "path \<noteq> []" and "hd path = slash" and "tl path = [] \<or> hd (tl path) \<noteq> slash"
  shows "path = (if mp = ''/'' then relative_path path (length mp) else if path = mp then mp else mp @ relative_path path (length mp))"
proof (cases "mp = ''/''")
  case True
  obtain p where p: "path = slash # p" using assms(3,4) by (cases path) auto
  with True assms(2,5) show ?thesis by (auto simp: relative_path_def)
next
  case False
  then show ?thesis using assms(1,2) by (auto simp: under_def relative_path_def)
qed

text \<open>C33. \<^verbatim>\<open>FindMountPoint\<close> on a canonical path finds the mount point with the longest path at or above it,
  and fails exactly when there is none; mount path and relative path together are the path.\<close>

theorem FindMountPoint_longest:
  assumes "mounts_ok v" and "CanonicalizePath cwd input = Some path" and "NUL \<notin> set path" and "length path < 255"
  shows "case FindMountPoint path v of
      None \<Rightarrow> \<forall>m \<in> set (g_MountPoints v). \<not> under path (mp_path m)
    | Some (fs, rel) \<Rightarrow> \<exists>m \<in> set (g_MountPoints v). mp_fs m = fs \<and> under path (mp_path m)
        \<and> (\<forall>m' \<in> set (g_MountPoints v). under path (mp_path m') \<longrightarrow> length (mp_path m') \<le> length (mp_path m))
        \<and> path = (if mp_path m = ''/'' then rel else if path = mp_path m then mp_path m else mp_path m @ rel)"
proof -
  note shape = canonical_shape [OF assms(2)]
  have mm: "mount_matches path (mp_path m) \<longleftrightarrow> under path (mp_path m)" if "m \<in> set (g_MountPoints v)" for m
    using mount_matches_mount [OF assms(1) that assms(3)] shape by blast
  have best: "best_of path (g_MountPoints v) (best_mount path (g_MountPoints v) 0 None)" by (rule best_mount_correct)
  show ?thesis
  proof (cases "best_mount path (g_MountPoints v) 0 None")
    case None
    with best mm shape show ?thesis by (simp add: best_of_def FindMountPoint_def)
  next
    case (Some il)
    obtain i l where il: "il = (i, l)" by (cases il)
    define m where "m = g_MountPoints v ! i"
    have m: "m \<in> set (g_MountPoints v)" "l = length (mp_path m)" "under path (mp_path m)"
        "\<forall>m' \<in> set (g_MountPoints v). under path (mp_path m') \<longrightarrow> length (mp_path m') \<le> length (mp_path m)"
      using best Some il mm by (auto simp: best_of_def m_def)
    have "FindMountPoint path v = Some (mp_fs m, relative_path path (length (mp_path m)))"
      using Some il m shape by (simp add: FindMountPoint_def m_def)
    moreover note relative_path_rebuilds [OF m(3) assms(4)] shape
    ultimately show ?thesis using m by auto
  qed
qed

definition sample_vfs :: "nat vfs" where
  "sample_vfs = \<lparr> g_Drivers = [], g_MountPoints =
     [\<lparr> mp_path = ''/'', mp_fs = 1 \<rparr>, \<lparr> mp_path = ''/dev'', mp_fs = 2 \<rparr>], write_held = False \<rparr>"

lemma sample_vfs_ok: "mounts_ok sample_vfs"
  by (simp add: mounts_ok_def sample_vfs_def MAX_MOUNT_POINTS_def)

lemma FindMountPoint_longest_witness:
  "FindMountPoint ''/dev/sda1'' sample_vfs = Some (2, ''/sda1'') \<and> under ''/dev/sda1'' ''/dev''"
proof -
  have c: "CanonicalizePath ''/'' ''/dev/./sda1'' = Some ''/dev/sda1''"
    and f: "FindMountPoint ''/dev/sda1'' sample_vfs = Some (2, ''/sda1'')" by code_simp+
  have mps: "g_MountPoints sample_vfs = [\<lparr> mp_path = ''/'', mp_fs = 1 \<rparr>, \<lparr> mp_path = ''/dev'', mp_fs = 2 \<rparr>]"
    by (simp add: sample_vfs_def)
  from FindMountPoint_longest [OF sample_vfs_ok c] show ?thesis by (simp add: f mps)
qed

section \<open>Mounting\<close>

lemma best_mount_snoc:
  "best_mount path (ms @ [m]) i best =
     (let b = best_mount path ms i best
      in if mount_matches path (mp_path m) \<and> (case b of None \<Rightarrow> True | Some (_, l) \<Rightarrow> l < length (mp_path m))
         then Some (i + length ms, length (mp_path m)) else b)"
  by (induction ms arbitrary: i best) (simp_all add: Let_def)

lemma FindMountIndex_None: "FindMountIndex path v = None \<longleftrightarrow> path \<notin> mp_path ` set (g_MountPoints v)"
  by (auto simp: FindMountIndex_def find_index_None_iff)

lemma record_mount_ok:
  assumes "mounts_ok v" and "\<not> mount_refused p v" and "NUL \<notin> set p" and "length p \<le> 127"
  shows "mounts_ok (record_mount p fs v)"
  using assms by (auto simp: mounts_ok_def record_mount_def mount_refused_def FindMountIndex_None)

lemma best_of_beaten:
  assumes "best_of path ms b"
  shows "(case b of None \<Rightarrow> True | Some (_, l) \<Rightarrow> l < n) \<longleftrightarrow> (\<forall>m \<in> set ms. mount_matches path (mp_path m) \<longrightarrow> length (mp_path m) < n)"
proof (cases b)
  case None
  with assms show ?thesis by (simp add: best_of_def)
next
  case (Some il)
  obtain i l where il: "il = (i, l)" by (cases il)
  with assms Some have i: "i < length ms" "l = length (mp_path (ms ! i))" "mount_matches path (mp_path (ms ! i))"
      "\<forall>m \<in> set ms. mount_matches path (mp_path m) \<longrightarrow> length (mp_path m) \<le> l" by (auto simp: best_of_def)
  have "ms ! i \<in> set ms" using i(1) by simp
  with i Some il show ?thesis by (auto dest: order_le_less_trans)
qed

lemma FindMountPoint_record:
  assumes "NUL \<notin> set path" and "path \<noteq> []" and "hd path = slash" and "mounts_ok v"
    and "NUL \<notin> set p" and "p \<noteq> []" and "hd p = slash" and "length p \<le> 127"
  shows "FindMountPoint path (record_mount p fs v) =
     (if under path p \<and> (\<forall>m \<in> set (g_MountPoints v). under path (mp_path m) \<longrightarrow> length (mp_path m) < length p)
      then Some (fs, relative_path path (length p)) else FindMountPoint path v)"
proof -
  let ?ms = "g_MountPoints v" and ?m = "\<lparr> mp_path = p, mp_fs = fs \<rparr>"
  let ?b = "best_mount path ?ms 0 None"
  have ms: "g_MountPoints (record_mount p fs v) = ?ms @ [?m]" using assms(8) by (simp add: record_mount_def)
  have new: "mount_matches path p \<longleftrightarrow> under path p" using assms by (intro mount_matches_under)
  have old: "mount_matches path (mp_path m) \<longleftrightarrow> under path (mp_path m)" if "m \<in> set ?ms" for m
    using assms that by (intro mount_matches_mount)
  have beaten: "(case ?b of None \<Rightarrow> True | Some (_, l) \<Rightarrow> l < length p)
      \<longleftrightarrow> (\<forall>m \<in> set ?ms. under path (mp_path m) \<longrightarrow> length (mp_path m) < length p)"
    using best_of_beaten [OF best_mount_correct [of path ?ms], of "length p"] old by auto
  have snoc: "best_mount path (?ms @ [?m]) 0 None =
      (if under path p \<and> (\<forall>m \<in> set ?ms. under path (mp_path m) \<longrightarrow> length (mp_path m) < length p)
       then Some (length ?ms, length p) else ?b)"
    unfolding best_mount_snoc Let_def MountPoint.select_convs new beaten by (simp, blast)
  have "i < length ?ms" if "?b = Some (i, l)" for i l
    using best_mount_correct [of path ?ms] that by (simp add: best_of_def)
  then show ?thesis
    unfolding FindMountPoint_def ms snoc using assms(2,3) by (auto simp: nth_append split: option.splits)
qed

text \<open>Mounting is exact: after a successful \<^verbatim>\<open>MountFS\<close> the mount table is still well formed, the paths at
  and below the new mount point that no longer mount point covers resolve to the new file system,
  and every other path resolves as before.\<close>

theorem MountFS_exact:
  assumes "mounts_ok v" and "MountFS (Some p) (Some fs) v = (True, v')" and "NUL \<notin> set p" and "length p \<le> 127"
    and "NUL \<notin> set path" and "path \<noteq> []" and "hd path = slash"
  shows "mounts_ok v' \<and> FindMountPoint path v' =
     (if under path p \<and> (\<forall>m \<in> set (g_MountPoints v). under path (mp_path m) \<longrightarrow> length (mp_path m) < length p)
      then Some (fs, relative_path path (length p)) else FindMountPoint path v)"
proof -
  have r: "\<not> mount_refused p v" and v': "v' = record_mount p fs v" using assms(2) by (auto simp: MountFS_def split: if_splits)
  then have "p \<noteq> []" "hd p = slash" by (auto simp: mount_refused_def)
  with assms r v' show ?thesis by (auto simp: record_mount_ok FindMountPoint_record)
qed

lemma MountFS_exact_witness:
  "\<exists>v'. MountFS (Some ''/mnt'') (Some 7) sample_vfs = (True, v') \<and> mounts_ok v'
     \<and> FindMountPoint ''/mnt/a'' v' = Some (7, ''/a'') \<and> FindMountPoint ''/dev/a'' v' = FindMountPoint ''/dev/a'' sample_vfs"
proof -
  define v' where "v' = snd (MountFS (Some ''/mnt'') (Some 7) sample_vfs)"
  have m: "MountFS (Some ''/mnt'') (Some 7) sample_vfs = (True, v')"
    by (simp add: v'_def MountFS_def mount_refused_def FindMountIndex_def sample_vfs_def MAX_MOUNT_POINTS_def)
  have mps: "g_MountPoints sample_vfs = [\<lparr> mp_path = ''/'', mp_fs = 1 \<rparr>, \<lparr> mp_path = ''/dev'', mp_fs = 2 \<rparr>]"
    by (simp add: sample_vfs_def)
  from MountFS_exact [OF sample_vfs_ok m, of "''/mnt/a''"] MountFS_exact [OF sample_vfs_ok m, of "''/dev/a''"] m
  show ?thesis by (simp add: mps under_def relative_path_def)
qed

text \<open>A partition without file system leaves the lock held: from then on nothing can be resolved.\<close>

lemma Mount_without_filesystem_blocks:
  assumes "\<not> mount_refused p v" and "\<not> write_held v"
  shows "\<exists>v'. Mount (Some p) (Some None) v = Some (False, v') \<and> ResolvePath Stat ReadLink path follow v' = None"
  using assms by (simp add: Mount_def ResolvePath_def split: option.splits)

section \<open>Resolution\<close>

lemma resolve_loop_result:
  "resolve_loop Stat ReadLink follow n path v = Some (Some (fs, rel)) \<Longrightarrow>
   \<exists>p. FindMountPoint p v = Some (fs, rel) \<and> (if follow then Stat fs rel \<noteq> Some FT_SYMLINK else p = path)"
proof (induction n arbitrary: path)
  case (Suc n)
  obtain fs1 rel1 where f: "FindMountPoint path v = Some (fs1, rel1)"
    using Suc.prems by (auto split: option.splits)
  show ?case
  proof (cases "Stat fs1 rel1 = Some FT_SYMLINK \<and> follow")
    case True
    then obtain p where "resolve_loop Stat ReadLink follow n p v = Some (Some (fs, rel))"
      using Suc.prems f by (auto split: option.splits if_splits)
    from Suc.IH [OF this] True show ?thesis by auto
  next
    case False
    then have "fs = fs1 \<and> rel = rel1"
      using Suc.prems f by (auto simp: copy255_def split: option.splits if_splits)
    with False f show ?thesis by auto
  qed
qed simp

text \<open>Without following links \<^verbatim>\<open>ResolvePath\<close> is the mount lookup of the canonical path.\<close>

lemma ResolvePath_nofollow:
  assumes "CanonicalizePath ''/'' path = Some p" and "\<not> write_held v" and "length p < 254"
  shows "ResolvePath Stat ReadLink path False v = Some (FindMountPoint p v)"
proof -
  have "length (relative_path p l) < 255" for l
    using assms(3) by (auto simp: relative_path_def Let_def min_def)
  then have "copy255 rel = Some rel" if "FindMountPoint p v = Some (fs, rel)" for fs rel
    using that by (auto simp: copy255_def FindMountPoint_def split: if_splits option.splits)
  then show ?thesis
    using assms by (auto simp: ResolvePath_def MAX_SYMLINK_DEPTH_def eval_nat_numeral split: option.splits)
qed

end
