(* ===== verification/Shm.thy ===== *)
theory Shm
  imports Phys_Alloc C_String
begin

text \<open>
  Named shared memory regions, \<^verbatim>\<open>kernel/mm/shm/shm.cpp\<close>: a table of 64 regions, each a run of physical
  frames with a reference count. The inode of a region is its identifier and size; the memory is
  written through the direct map, which \<^verbatim>\<open>Phys_Memory\<close> identifies with the physical memory.
\<close>

record shm_region =
  shm_Name :: string
  PhysAddr :: u64
  SizeInPages :: u64
  shm_RefCount :: u32
  Used :: bool
  RegionInode :: "(nat \<times> u64) option"

record shm_state =
  ShmRegions :: "shm_region list"
  shm_phys :: phys_state
  shm_ram :: ram

definition Shm_Init :: "shm_state \<Rightarrow> shm_state" where
  "Shm_Init st = st\<lparr> ShmRegions := map (\<lambda>r. r\<lparr> Used := False, shm_Name := '''', RegionInode := None \<rparr>) (ShmRegions st) \<rparr>"

text \<open>The result is the index of the region, \<^const>\<open>None\<close> for the null pointer; the outer option is undefined
  behaviour: a name that does not fit its 64 bytes.\<close>

definition Shm_Open :: "string \<Rightarrow> u64 \<Rightarrow> bool \<Rightarrow> shm_state \<Rightarrow> (nat option \<times> shm_state) option" where
  "Shm_Open Name Size CreateNew st =
     (case find_index (\<lambda>r. Used r \<and> shm_Name r = Name) (ShmRegions st) of
        Some i \<Rightarrow>
          let r = ShmRegions st ! i in
          Some (Some i, st\<lparr> ShmRegions := (ShmRegions st)[i := r\<lparr> shm_RefCount := shm_RefCount r + 1 \<rparr>] \<rparr>)
      | None \<Rightarrow>
          if \<not> CreateNew then Some (None, st)
          else
            (case find_index (\<lambda>r. \<not> Used r) (ShmRegions st) of
               None \<Rightarrow> Some (None, st)
             | Some i \<Rightarrow>
                 let Pages = (Size + PAGE_SIZE - 1) div PAGE_SIZE in
                 (case PhysicalAllocPages Pages (shm_phys st) of
                    None \<Rightarrow> None
                  | Some (Phys, p) \<Rightarrow>
                      if Phys = 0 then Some (None, st\<lparr> shm_phys := p \<rparr>)
                      else if 64 \<le> length Name then None
                      else
                        Some (Some i, st\<lparr> shm_phys := p, shm_ram := Memset Phys 0xAA (Pages * PAGE_SIZE) (shm_ram st),
                          ShmRegions := (ShmRegions st)[i := \<lparr> shm_Name = Name, PhysAddr = Phys, SizeInPages = Pages,
                            shm_RefCount = 1, Used = True, RegionInode = Some (i, Pages * PAGE_SIZE) \<rparr>] \<rparr>))))"

definition Shm_Release :: "nat option \<Rightarrow> shm_state \<Rightarrow> shm_state option" where
  "Shm_Release Region st =
     (case Region of
        None \<Rightarrow> Some st
      | Some i \<Rightarrow>
          if length (ShmRegions st) \<le> i then None
          else
            let r = ShmRegions st ! i in
            if \<not> Used r then Some st
            else if shm_RefCount r - 1 \<noteq> 0 then
              Some (st\<lparr> ShmRegions := (ShmRegions st)[i := r\<lparr> shm_RefCount := shm_RefCount r - 1 \<rparr>] \<rparr>)
            else
              map_option (\<lambda>p. st\<lparr> shm_phys := p, ShmRegions := (ShmRegions st)[i := r\<lparr> Used := False, PhysAddr := 0,
                  shm_RefCount := 0, shm_Name := '''', RegionInode := None \<rparr>] \<rparr>)
                (PhysicalFreePages (PhysAddr r) (SizeInPages r) (shm_phys st)))"

section \<open>Regions never share a frame\<close>

definition shm_runs :: "shm_state \<Rightarrow> nat \<Rightarrow> (u64 \<times> u64) option" where
  "shm_runs st i =
     (if i < length (ShmRegions st) \<and> Used (ShmRegions st ! i)
      then Some (PhysAddr (ShmRegions st ! i), SizeInPages (ShmRegions st ! i)) else None)"

definition shm_ok :: "shm_state \<Rightarrow> bool" where
  "shm_ok st \<longleftrightarrow> wf_phys (shm_phys st) \<and> length (ShmRegions st) = 64 \<and> holds_runs (frame_used (shm_phys st)) (shm_runs st)
     \<and> (\<forall>i < 64. \<forall>j < 64. Used (ShmRegions st ! i) \<longrightarrow> Used (ShmRegions st ! j) \<longrightarrow>
          shm_Name (ShmRegions st ! i) = shm_Name (ShmRegions st ! j) \<longrightarrow> i = j)"

lemma Shm_Init_ok: "wf_phys (shm_phys st) \<Longrightarrow> length (ShmRegions st) = 64 \<Longrightarrow> shm_ok (Shm_Init st)"
proof -
  assume a: "wf_phys (shm_phys st)" "length (ShmRegions st) = 64"
  have un: "\<not> Used (ShmRegions (Shm_Init st) ! i)" if "i < 64" for i using a that by (simp add: Shm_Init_def)
  have "length (ShmRegions (Shm_Init st)) = 64" "shm_phys (Shm_Init st) = shm_phys st" using a by (simp_all add: Shm_Init_def)
  moreover from this un have "shm_runs (Shm_Init st) = (\<lambda>_. None)" by (auto simp: shm_runs_def)
  ultimately show ?thesis using a un by (auto simp: shm_ok_def holds_runs_def)
qed

lemma names_update:
  assumes "shm_ok st" and "i < 64" and "Used r \<Longrightarrow> \<forall>j < 64. j \<noteq> i \<longrightarrow> Used (ShmRegions st ! j) \<longrightarrow> shm_Name (ShmRegions st ! j) \<noteq> shm_Name r"
  shows "\<forall>j < 64. \<forall>k < 64. Used ((ShmRegions st)[i := r] ! j) \<longrightarrow> Used ((ShmRegions st)[i := r] ! k) \<longrightarrow>
    shm_Name ((ShmRegions st)[i := r] ! j) = shm_Name ((ShmRegions st)[i := r] ! k) \<longrightarrow> j = k"
  using assms unfolding shm_ok_def by (intro allI impI) (auto simp: nth_list_update split: if_splits)

text \<open>Replacing one slot of the table, together with the allocator state.\<close>

lemma shm_ok_slot:
  assumes "shm_ok st" and "i < 64" and "wf_phys p"
    and runs: "holds_runs (frame_used p) ((shm_runs st)(i := if Used r then Some (PhysAddr r, SizeInPages r) else None))"
    and names: "Used r \<Longrightarrow> \<forall>j < 64. j \<noteq> i \<longrightarrow> Used (ShmRegions st ! j) \<longrightarrow> shm_Name (ShmRegions st ! j) \<noteq> shm_Name r"
  shows "shm_ok (st\<lparr> shm_phys := p, shm_ram := m, ShmRegions := (ShmRegions st)[i := r] \<rparr>)"
proof -
  let ?st = "st\<lparr> shm_phys := p, shm_ram := m, ShmRegions := (ShmRegions st)[i := r] \<rparr>"
  have len: "length (ShmRegions st) = 64" using assms(1) by (simp add: shm_ok_def)
  have "shm_runs ?st = (shm_runs st)(i := if Used r then Some (PhysAddr r, SizeInPages r) else None)"
    using assms(2) len by (auto simp: shm_runs_def fun_eq_iff nth_list_update)
  moreover have "shm_phys ?st = p" "ShmRegions ?st = (ShmRegions st)[i := r]" by simp_all
  moreover have "\<forall>j < 64. \<forall>k < 64. Used ((ShmRegions st)[i := r] ! j) \<longrightarrow> Used ((ShmRegions st)[i := r] ! k) \<longrightarrow>
      shm_Name ((ShmRegions st)[i := r] ! j) = shm_Name ((ShmRegions st)[i := r] ! k) \<longrightarrow> j = k"
    by (rule names_update [OF assms(1,2) names])
  ultimately show ?thesis unfolding shm_ok_def using assms(3) runs len by (simp only: length_list_update)
qed

text \<open>Changing only the reference count of a used region.\<close>

lemma shm_ok_recount:
  assumes "shm_ok st" and "i < 64" and "Used (ShmRegions st ! i)"
  shows "shm_ok (st\<lparr> ShmRegions := (ShmRegions st)[i := (ShmRegions st ! i)\<lparr> shm_RefCount := n \<rparr>] \<rparr>)"
proof -
  let ?r = "(ShmRegions st ! i)\<lparr> shm_RefCount := n \<rparr>"
  have "shm_runs st i = Some (PhysAddr ?r, SizeInPages ?r)" using assms by (simp add: shm_runs_def shm_ok_def)
  then have "(shm_runs st)(i := Some (PhysAddr ?r, SizeInPages ?r)) = shm_runs st" by (simp add: fun_upd_idem)
  then have "shm_ok (st\<lparr> shm_phys := shm_phys st, shm_ram := shm_ram st, ShmRegions := (ShmRegions st)[i := ?r] \<rparr>)"
    using assms by (intro shm_ok_slot) (auto simp: shm_ok_def)
  then show ?thesis by simp
qed

lemma Shm_Open_ok:
  assumes "shm_ok st" and "length Name < 64"
  shows "\<exists>r st'. Shm_Open Name Size CreateNew st = Some (r, st') \<and> shm_ok st'"
proof (cases "find_index (\<lambda>r. Used r \<and> shm_Name r = Name) (ShmRegions st)")
  case (Some i)
  with find_index_SomeD [OF Some] assms show ?thesis by (simp add: Shm_Open_def Let_def shm_ok_recount shm_ok_def [of st])
next
  case None
  have len: "length (ShmRegions st) = 64" and wf: "wf_phys (shm_phys st)"
    and runs: "holds_runs (frame_used (shm_phys st)) (shm_runs st)" using assms(1) by (simp_all add: shm_ok_def)
  let ?P = "(Size + PAGE_SIZE - 1) div PAGE_SIZE"
  obtain a p where al: "PhysicalAllocPages ?P (shm_phys st) = Some (a, p)" using pa.alloc_total [OF wf] by blast
  show ?thesis
  proof (cases "CreateNew \<and> find_index (\<lambda>r. \<not> Used r) (ShmRegions st) \<noteq> None \<and> a \<noteq> 0")
    case False
    moreover have "a = 0 \<Longrightarrow> p = shm_phys st" using pa.alloc_fails [OF wf] al by blast
    ultimately have "Shm_Open Name Size CreateNew st = Some (None, st)"
      using None al by (cases "find_index (\<lambda>r. \<not> Used r) (ShmRegions st)"; cases CreateNew) (simp_all add: Shm_Open_def Let_def)
    with assms(1) show ?thesis by blast
  next
    case True
    then obtain i where i: "find_index (\<lambda>r. \<not> Used r) (ShmRegions st) = Some i" by auto
    note iD = find_index_SomeD [OF i]
    define r where "r = \<lparr> shm_Name = Name, PhysAddr = a, SizeInPages = ?P, shm_RefCount = 1, Used = True,
      RegionInode = Some (i, ?P * PAGE_SIZE) \<rparr>"
    have "shm_runs st i = None" using iD by (simp add: shm_runs_def)
    from pa.take_run [OF wf runs this al] True have take: "wf_phys p" "holds_runs (frame_used p) ((shm_runs st)(i := Some (a, ?P)))"
      by blast+
    have "\<forall>j < 64. j \<noteq> i \<longrightarrow> Used (ShmRegions st ! j) \<longrightarrow> shm_Name (ShmRegions st ! j) \<noteq> shm_Name r"
      using None len by (auto simp: find_index_None_nth r_def)
    then have ok: "shm_ok (st\<lparr> shm_phys := p, shm_ram := m, ShmRegions := (ShmRegions st)[i := r] \<rparr>)" for m
      using take iD len by (intro shm_ok_slot [OF assms(1)]) (simp_all add: r_def)
    have "Shm_Open Name Size CreateNew st = Some (Some i, st\<lparr> shm_phys := p,
        shm_ram := Memset a 0xAA (?P * PAGE_SIZE) (shm_ram st), ShmRegions := (ShmRegions st)[i := r] \<rparr>)"
      unfolding Shm_Open_def None i option.case Let_def al prod.case r_def using True assms(2) by simp
    with ok show ?thesis by blast
  qed
qed

lemma Shm_Release_last:
  assumes "shm_ok st" and "i < 64" and "Used (ShmRegions st ! i)" and "shm_RefCount (ShmRegions st ! i) = 1"
  shows "\<exists>st'. Shm_Release (Some i) st = Some st' \<and> shm_ok st' \<and> \<not> Used (ShmRegions st' ! i)
    \<and> (\<forall>f. frame_used (shm_phys st') f \<longleftrightarrow>
          f \<notin> frames (PhysAddr (ShmRegions st ! i)) (SizeInPages (ShmRegions st ! i)) \<and> frame_used (shm_phys st) f)"
proof -
  let ?r = "ShmRegions st ! i"
  have len: "length (ShmRegions st) = 64" and wf: "wf_phys (shm_phys st)"
    and runs: "holds_runs (frame_used (shm_phys st)) (shm_runs st)" using assms(1) by (simp_all add: shm_ok_def)
  have "shm_runs st i = Some (PhysAddr ?r, SizeInPages ?r)" using assms len by (simp add: shm_runs_def)
  from pa.give_back [OF wf runs this] obtain p where
    p: "PhysicalFreePages (PhysAddr ?r) (SizeInPages ?r) (shm_phys st) = Some p" "wf_phys p"
      "holds_runs (frame_used p) ((shm_runs st)(i := None))"
      "\<forall>f. frame_used p f \<longleftrightarrow> f \<notin> frames (PhysAddr ?r) (SizeInPages ?r) \<and> frame_used (shm_phys st) f" by blast
  let ?n = "?r\<lparr> Used := False, PhysAddr := 0, shm_RefCount := 0, shm_Name := '''', RegionInode := None \<rparr>"
  have "shm_ok (st\<lparr> shm_phys := p, shm_ram := shm_ram st, ShmRegions := (ShmRegions st)[i := ?n] \<rparr>)"
    by (rule shm_ok_slot [OF assms(1,2) p(2)]) (simp_all add: p(3))
  then have "shm_ok (st\<lparr> shm_phys := p, ShmRegions := (ShmRegions st)[i := ?n] \<rparr>)" by simp
  with p assms len show ?thesis by (simp add: Shm_Release_def Let_def)
qed

lemma Shm_Release_ok:
  assumes "shm_ok st" and "i < 64"
  shows "\<exists>st'. Shm_Release (Some i) st = Some st' \<and> shm_ok st'"
proof (cases "Used (ShmRegions st ! i) \<and> shm_RefCount (ShmRegions st ! i) = 1")
  case True
  with Shm_Release_last [OF assms] show ?thesis by blast
next
  case False
  have "length (ShmRegions st) = 64" using assms by (simp add: shm_ok_def)
  moreover have "x - 1 = (0 :: u32) \<longleftrightarrow> x = 1" for x by auto
  ultimately show ?thesis using False assms by (auto simp: Shm_Release_def Let_def shm_ok_recount)
qed

datatype shm_op = OpOpen string u64 bool | OpRelease nat

fun run_shm :: "shm_op list \<Rightarrow> shm_state \<Rightarrow> shm_state option" where
  "run_shm [] st = Some st"
| "run_shm (OpOpen n sz c # ops) st = (case Shm_Open n sz c st of None \<Rightarrow> None | Some (_, st') \<Rightarrow> run_shm ops st')"
| "run_shm (OpRelease i # ops) st = (case Shm_Release (Some i) st of None \<Rightarrow> None | Some st' \<Rightarrow> run_shm ops st')"

fun legal_op :: "shm_op \<Rightarrow> bool" where
  "legal_op (OpOpen n sz c) = (length n < 64)"
| "legal_op (OpRelease i) = (i < 64)"


definition shm_start :: shm_state where
  "shm_start = Shm_Init \<lparr> ShmRegions = replicate 64 \<lparr> shm_Name = '''', PhysAddr = 0, SizeInPages = 0, shm_RefCount = 0,
     Used = False, RegionInode = None \<rparr>, shm_phys = all_free, shm_ram = (\<lambda>_. 0) \<rparr>"

lemma shm_start_ok: "shm_ok shm_start"
  unfolding shm_start_def by (rule Shm_Init_ok) (simp_all add: all_free_wf)


end
