(* ===== verification/Vfs_Files.thy ===== *)
theory Vfs_Files
  imports Vfs_Path Shm
begin

text \<open>
  Open files of \<^verbatim>\<open>kernel/filesys/vfs/vfs.cpp\<close>: the inode cache, \<^verbatim>\<open>Open\<close>, \<^verbatim>\<open>Close\<close>, the operations on an open
  file and the operations on paths. Inodes and files are heap objects, maps from addresses; a
  dangling pointer is an address outside the map, and using one is \<^const>\<open>None\<close>. The virtual functions
  of a \<^verbatim>\<open>FileSystem\<close> are the fields of a record over an arbitrary driver state \<open>'d\<close>; an operation on
  an open file reads the file and its inode and returns the new position and the new attributes.
  The inode's mutex is held around each such call, so each is one step.
\<close>

section \<open>Objects\<close>

abbreviation O_CREAT :: u32 where "O_CREAT \<equiv> 0x0040"
abbreviation O_TRUNC :: u32 where "O_TRUNC \<equiv> 0x0200"
abbreviation O_APPEND :: u32 where "O_APPEND \<equiv> 0x0400"

record inode_attrs =
  Type :: FileType
  FileSize :: u64
  Internal_StartCluster :: u32
  Internal_DirEntryLBA :: u64
  Internal_DirEntryOffset :: u32

record 'fs inode =
  InodeID :: u64
  FSOwner :: 'fs
  RefCount :: int
  attrs :: inode_attrs

record File =
  CurrentPosition :: u64
  Flags :: u32
  FileName :: string
  Node :: "nat option"
  f_RefCount :: int
  f_type :: FileType
  PrivateData :: "nat option"

text \<open>The attributes \<^verbatim>\<open>Inode()\<close> starts with.\<close>

definition new_attrs :: inode_attrs where
  "new_attrs = \<lparr> Type = FT_NORMAL, FileSize = 0, Internal_StartCluster = 0, Internal_DirEntryLBA = 0, Internal_DirEntryOffset = 0 \<rparr>"

type_synonym ('fs, 'd, 'r) file_fun = "'fs \<Rightarrow> File \<Rightarrow> 'fs inode \<Rightarrow> 'd \<Rightarrow> 'r \<times> u64 \<times> inode_attrs \<times> 'd"

record ('fs, 'd) FileSystem =
  fs_Lookup :: "'fs \<Rightarrow> string \<Rightarrow> 'd \<Rightarrow> u64"
  fs_PopulateInode :: "'fs \<Rightarrow> u64 \<Rightarrow> 'd \<Rightarrow> inode_attrs option"
  fs_CreateNode :: "'fs \<Rightarrow> string \<Rightarrow> u32 \<Rightarrow> 'd \<Rightarrow> u64 \<times> 'd"
  fs_Stat :: "'fs \<Rightarrow> string \<Rightarrow> 'd \<Rightarrow> FileType option"
  fs_ReadLink :: "'fs \<Rightarrow> string \<Rightarrow> 'd \<Rightarrow> string option"
  fs_Close :: "('fs, 'd, unit) file_fun"
  fs_Read :: "nat \<Rightarrow> ('fs, 'd, u8 list) file_fun"
  fs_Write :: "u8 list \<Rightarrow> ('fs, 'd, nat) file_fun"
  fs_Seek :: "u64 \<Rightarrow> u32 \<Rightarrow> ('fs, 'd, bool) file_fun"
  fs_Truncate :: "u64 \<Rightarrow> ('fs, 'd, bool) file_fun"
  fs_Flush :: "('fs, 'd, bool) file_fun"
  fs_ReadDir :: "nat \<Rightarrow> ('fs, 'd, int \<times> u8 list) file_fun"
  fs_Ioctl :: "u32 \<Rightarrow> u64 \<Rightarrow> ('fs, 'd, int) file_fun"
  fs_Delete :: "'fs \<Rightarrow> string \<Rightarrow> 'd \<Rightarrow> bool \<times> 'd"
  fs_Rename :: "'fs \<Rightarrow> string \<Rightarrow> string \<Rightarrow> 'd \<Rightarrow> bool \<times> 'd"
  fs_MKDir :: "'fs \<Rightarrow> string \<Rightarrow> 'd \<Rightarrow> bool \<times> 'd"
  fs_RMDir :: "'fs \<Rightarrow> string \<Rightarrow> 'd \<Rightarrow> bool \<times> 'd"
  PipeInstance :: 'fs

record ('fs, 'd) vfs_state =
  mounts :: "'fs vfs"
  inodes :: "nat \<rightharpoonup> 'fs inode"
  g_InodeCache :: "nat option list"
  files :: "nat \<rightharpoonup> File"
  drv :: 'd
  shm :: shm_state

section \<open>The inode cache\<close>

text \<open>The index of the slot whose inode has this owner and number. Every occupied slot on the way is
  dereferenced.\<close>

fun scan_cache :: "(nat \<rightharpoonup> 'fs inode) \<Rightarrow> 'fs \<Rightarrow> u64 \<Rightarrow> nat option list \<Rightarrow> nat \<Rightarrow> nat option option" where
  "scan_cache ns fs num [] i = Some None"
| "scan_cache ns fs num (None # c) i = scan_cache ns fs num c (i + 1)"
| "scan_cache ns fs num (Some a # c) i =
     (case ns a of
        None \<Rightarrow> None
      | Some n \<Rightarrow> if FSOwner n = fs \<and> InodeID n = num then Some (Some i) else scan_cache ns fs num c (i + 1))"

definition GetCachedInode :: "'fs \<Rightarrow> u64 \<Rightarrow> ('fs, 'd) vfs_state \<Rightarrow> nat option option" where
  "GetCachedInode fs num st =
     map_option (\<lambda>r. case r of None \<Rightarrow> None | Some i \<Rightarrow> g_InodeCache st ! i) (scan_cache (inodes st) fs num (g_InodeCache st) 0)"

definition AddCachedInode :: "nat \<Rightarrow> ('fs, 'd) vfs_state \<Rightarrow> ('fs, 'd) vfs_state" where
  "AddCachedInode a st =
     (case find_index (\<lambda>s. s = None) (g_InodeCache st) of
        None \<Rightarrow> st
      | Some i \<Rightarrow> st\<lparr> g_InodeCache := (g_InodeCache st)[i := Some a] \<rparr>)"

definition RemoveCachedInode :: "'fs \<Rightarrow> u64 \<Rightarrow> ('fs, 'd) vfs_state \<Rightarrow> ('fs, 'd) vfs_state option" where
  "RemoveCachedInode fs num st =
     map_option (\<lambda>r. case r of None \<Rightarrow> st | Some i \<Rightarrow> st\<lparr> g_InodeCache := (g_InodeCache st)[i := None] \<rparr>)
       (scan_cache (inodes st) fs num (g_InodeCache st) 0)"

section \<open>Operations on open files\<close>

text \<open>A call of a virtual function on the file at \<open>f\<close> through the file system \<open>via\<close> or the inode's owner.\<close>

definition call :: "('fs, 'd, 'r) file_fun \<Rightarrow> 'fs option \<Rightarrow> nat \<Rightarrow> ('fs, 'd) vfs_state \<Rightarrow> ('r \<times> ('fs, 'd) vfs_state) option" where
  "call g via f st =
     (case files st f of
        None \<Rightarrow> None
      | Some fo \<Rightarrow>
          (case Node fo of
             None \<Rightarrow> None
           | Some a \<Rightarrow>
               (case inodes st a of
                  None \<Rightarrow> None
                | Some n \<Rightarrow>
                    let (r, pos, at, d) = g (case via of None \<Rightarrow> FSOwner n | Some fs \<Rightarrow> fs) fo n (drv st)
                    in Some (r, st\<lparr> files := (files st)(f \<mapsto> fo\<lparr> CurrentPosition := pos \<rparr>),
                                    inodes := (inodes st)(a \<mapsto> n\<lparr> attrs := at \<rparr>), drv := d \<rparr>))))"

text \<open>The guards of the wrappers: a null file or a file without inode gives \<open>bad\<close>; a pipe goes to the
  pipe driver when \<open>pipe\<close> allows it and gives \<open>bad\<close> otherwise.\<close>

definition on_file ::
  "'r \<Rightarrow> 'fs option \<Rightarrow> ('fs, 'd, 'r) file_fun \<Rightarrow> nat option \<Rightarrow> ('fs, 'd) vfs_state \<Rightarrow> ('r \<times> ('fs, 'd) vfs_state) option" where
  "on_file bad pipe g file st =
     (case file of
        None \<Rightarrow> Some (bad, st)
      | Some f \<Rightarrow>
          (case files st f of
             None \<Rightarrow> None
           | Some fo \<Rightarrow>
               if f_type fo = FT_PIPE then
                 (if pipe = None \<or> Node fo = None then Some (bad, st) else call g pipe f st)
               else if Node fo = None then Some (bad, st)
               else call g None f st))"

definition vfs_Read where
  "vfs_Read fs file sz st = on_file [] (Some (PipeInstance fs)) (fs_Read fs sz) file st"

definition vfs_Write where
  "vfs_Write fs file buffer st = on_file 0 (Some (PipeInstance fs)) (fs_Write fs buffer) file st"

definition vfs_Seek where
  "vfs_Seek fs file position origin st = on_file False None (fs_Seek fs position origin) file st"

definition vfs_Truncate where
  "vfs_Truncate fs file sz st = on_file False None (fs_Truncate fs sz) file st"

definition vfs_Flush where
  "vfs_Flush fs file st = on_file False None (fs_Flush fs) file st"

definition vfs_ReadDir where
  "vfs_ReadDir fs file sz st = on_file (-1, []) None (fs_ReadDir fs sz) file st"

definition vfs_Ioctl where
  "vfs_Ioctl fs file command arg st = on_file (-1) None (fs_Ioctl fs command arg) file st"

section \<open>Open and Close\<close>

definition resolve :: "('fs, 'd) FileSystem \<Rightarrow> string \<Rightarrow> ('fs, 'd) vfs_state \<Rightarrow> ('fs \<times> string) option option" where
  "resolve fs path st =
     ResolvePath (\<lambda>x p. fs_Stat fs x p (drv st)) (\<lambda>x p. fs_ReadLink fs x p (drv st)) path False (mounts st)"

text \<open>\<^verbatim>\<open>RefCount += k\<close> on the inode at \<open>a\<close>.\<close>

definition add_ref :: "int \<Rightarrow> nat \<Rightarrow> (nat \<rightharpoonup> 'fs inode) \<Rightarrow> (nat \<rightharpoonup> 'fs inode)" where
  "add_ref k a ns = ns(a := map_option (\<lambda>n. n\<lparr> RefCount := RefCount n + k \<rparr>) (ns a))"

text \<open>The second half of \<^verbatim>\<open>Open\<close>: the file object for the inode at \<open>a\<close>, whose reference has been counted.
  \<open>fa\<close> is what \<^verbatim>\<open>new File()\<close> returns.\<close>

definition open_file ::
  "('fs, 'd) FileSystem \<Rightarrow> string \<Rightarrow> u32 \<Rightarrow> nat \<Rightarrow> nat option \<Rightarrow> ('fs, 'd) vfs_state \<Rightarrow> (nat option \<times> ('fs, 'd) vfs_state) option" where
  "open_file fs path flags a fa st =
     (case fa of
        None \<Rightarrow> Some (None, st\<lparr> inodes := add_ref (-1) a (inodes st) \<rparr>)
      | Some f \<Rightarrow>
          if 256 \<le> length path then None
          else
            let fo = \<lparr> CurrentPosition = 0, Flags = flags, FileName = path, Node = Some a, f_RefCount = 1,
                       f_type = FT_DIR, PrivateData = None \<rparr>;
                st1 = st\<lparr> files := (files st)(f \<mapsto> fo) \<rparr>
            in if flags AND O_TRUNC = 0 then Some (Some f, st1)
               else map_option (\<lambda>(_, st2). (Some f, st2)) (call (fs_Truncate fs 0) None f st1))"

text \<open>The part from the cache lookup on, for inode \<open>num\<close> of the file system \<open>x\<close>. \<open>ia\<close> is what \<^verbatim>\<open>new Inode()\<close>
  returns; when it is null the function returns with the write lock held.\<close>

definition open_inode ::
  "('fs, 'd) FileSystem \<Rightarrow> string \<Rightarrow> u32 \<Rightarrow> nat option \<Rightarrow> nat option \<Rightarrow> 'fs \<Rightarrow> u64 \<Rightarrow> ('fs, 'd) vfs_state
     \<Rightarrow> (nat option \<times> ('fs, 'd) vfs_state) option" where
  "open_inode fs path flags ia fa x num st =
     (case GetCachedInode x num st of
        None \<Rightarrow> None
      | Some (Some a) \<Rightarrow> open_file fs path flags a fa (st\<lparr> inodes := add_ref 1 a (inodes st) \<rparr>)
      | Some None \<Rightarrow>
          (case ia of
             None \<Rightarrow> Some (None, st\<lparr> mounts := (mounts st)\<lparr> write_held := True \<rparr> \<rparr>)
           | Some a \<Rightarrow>
               let at = (case fs_PopulateInode fs x num (drv st) of None \<Rightarrow> new_attrs | Some at \<Rightarrow> at);
                   n = \<lparr> InodeID = num, FSOwner = x, RefCount = 1, attrs = at \<rparr>
               in open_file fs path flags a fa (AddCachedInode a (st\<lparr> inodes := (inodes st)(a \<mapsto> n) \<rparr>))))"

definition Open ::
  "('fs, 'd) FileSystem \<Rightarrow> string \<Rightarrow> u32 \<Rightarrow> nat option \<Rightarrow> nat option \<Rightarrow> ('fs, 'd) vfs_state
     \<Rightarrow> (nat option \<times> ('fs, 'd) vfs_state) option" where
  "Open fs path flags ia fa st =
     (case resolve fs path st of
        None \<Rightarrow> None
      | Some None \<Rightarrow> Some (None, st)
      | Some (Some (x, rel)) \<Rightarrow>
          let num0 = fs_Lookup fs x rel (drv st);
              (num, d) = (if num0 = 0 \<and> flags AND O_CREAT \<noteq> 0 then fs_CreateNode fs x rel flags (drv st) else (num0, drv st))
          in if num = 0 then Some (None, st\<lparr> drv := d \<rparr>)
             else open_inode fs path flags ia fa x num (st\<lparr> drv := d \<rparr>))"

definition vfs_Close :: "('fs, 'd) FileSystem \<Rightarrow> nat option \<Rightarrow> ('fs, 'd) vfs_state \<Rightarrow> ('fs, 'd) vfs_state option" where
  "vfs_Close fs file st =
     (case file of
        None \<Rightarrow> Some st
      | Some f \<Rightarrow>
          (case files st f of
             None \<Rightarrow> None
           | Some fo \<Rightarrow>
               if 0 < f_RefCount fo - 1 then Some (st\<lparr> files := (files st)(f \<mapsto> fo\<lparr> f_RefCount := f_RefCount fo - 1 \<rparr>) \<rparr>)
               else if f_type fo = FT_SHM then
                 map_option (\<lambda>sh. st\<lparr> shm := sh, files := (files st)(f := None) \<rparr>) (Shm_Release (PrivateData fo) (shm st))
               else
                 (case Node fo of
                    None \<Rightarrow> Some (st\<lparr> files := (files st)(f := None) \<rparr>)
                  | Some a \<Rightarrow>
                      (case call (fs_Close fs) None f st of
                         None \<Rightarrow> None
                       | Some (_, st1) \<Rightarrow>
                           (case inodes st1 a of
                              None \<Rightarrow> None
                            | Some n \<Rightarrow>
                                let st2 = st1\<lparr> inodes := (inodes st1)(a \<mapsto> n\<lparr> RefCount := RefCount n - 1 \<rparr>), files := (files st1)(f := None) \<rparr>
                                in if RefCount n - 1 \<le> 0 then
                                     map_option (\<lambda>st3. st3\<lparr> inodes := (inodes st3)(a := None) \<rparr>)
                                       (RemoveCachedInode (FSOwner n) (InodeID n) st2)
                                   else Some st2)))))"

section \<open>Operations on paths\<close>

definition on_path ::
  "('fs, 'd) FileSystem \<Rightarrow> ('fs \<Rightarrow> string \<Rightarrow> 'd \<Rightarrow> bool \<times> 'd) \<Rightarrow> string \<Rightarrow> ('fs, 'd) vfs_state \<Rightarrow> (bool \<times> ('fs, 'd) vfs_state) option" where
  "on_path fs g path st =
     (case resolve fs path st of
        None \<Rightarrow> None
      | Some None \<Rightarrow> Some (False, st)
      | Some (Some (x, rel)) \<Rightarrow> let (r, d) = g x rel (drv st) in Some (r, st\<lparr> drv := d \<rparr>))"

definition vfs_Delete where "vfs_Delete fs path st = on_path fs (fs_Delete fs) path st"

definition vfs_MKDir where "vfs_MKDir fs path st = on_path fs (fs_MKDir fs) path st"

definition vfs_RMDir where "vfs_RMDir fs path st = on_path fs (fs_RMDir fs) path st"

definition vfs_Rename ::
  "('fs, 'd) FileSystem \<Rightarrow> string \<Rightarrow> string \<Rightarrow> ('fs, 'd) vfs_state \<Rightarrow> (bool \<times> ('fs, 'd) vfs_state) option" where
  "vfs_Rename fs oldPath newPath st =
     (case (resolve fs oldPath st, resolve fs newPath st) of
        (Some (Some (x, relOld)), Some (Some (y, relNew))) \<Rightarrow>
          if x \<noteq> y then Some (False, st)
          else let (r, d) = fs_Rename fs x relOld relNew (drv st) in Some (r, st\<lparr> drv := d \<rparr>)
      | (None, _) \<Rightarrow> None
      | (Some None, _) \<Rightarrow> Some (False, st)
      | (_, None) \<Rightarrow> None
      | (_, Some None) \<Rightarrow> Some (False, st))"

text \<open>\<^verbatim>\<open>EnsureParentDirs\<close>: the inode number is kept in 32 bits.\<close>

definition lookup32 :: "('fs, 'd) FileSystem \<Rightarrow> 'fs \<Rightarrow> string \<Rightarrow> 'd \<Rightarrow> u64" where
  "lookup32 fs x p d = ucast (ucast (fs_Lookup fs x p d) :: u32)"

definition ensure_dir :: "('fs, 'd) FileSystem \<Rightarrow> 'fs \<Rightarrow> string \<Rightarrow> 'd \<Rightarrow> bool \<times> 'd" where
  "ensure_dir fs x accum d =
     (let num = lookup32 fs x accum d
      in if num \<noteq> 0 then
           (case fs_PopulateInode fs x num d of None \<Rightarrow> (True, d) | Some at \<Rightarrow> (Type at = FT_DIR, d))
         else
           let (made, d1) = fs_MKDir fs x accum d
           in if made then (True, d1)
              else let num1 = lookup32 fs x accum d1
                   in if num1 = 0 then (False, d1)
                      else (case fs_PopulateInode fs x num1 d1 of None \<Rightarrow> (False, d1) | Some at \<Rightarrow> (Type at = FT_DIR, d1)))"

fun ensure_loop :: "('fs, 'd) FileSystem \<Rightarrow> 'fs \<Rightarrow> string list \<Rightarrow> string \<Rightarrow> 'd \<Rightarrow> bool \<times> 'd" where
  "ensure_loop fs x [] accum d = (True, d)"
| "ensure_loop fs x (c # comps) accum d =
     (if c = [] then ensure_loop fs x comps accum d
      else if 256 \<le> length accum + 1 + length c then (False, d)
      else
        let accum' = (if last accum \<noteq> slash then accum @ [slash] else accum) @ c;
            (ok, d') = ensure_dir fs x accum' d
        in if ok then ensure_loop fs x comps accum' d' else (False, d'))"

definition EnsureParentDirs :: "('fs, 'd) FileSystem \<Rightarrow> 'fs \<Rightarrow> string \<Rightarrow> 'd \<Rightarrow> bool \<times> 'd" where
  "EnsureParentDirs fs x relPath d =
     (case strrchr_loop relPath slash 0 None of
        None \<Rightarrow> (True, d)
      | Some l \<Rightarrow>
          if l = 0 then (True, d)
          else if 256 \<le> l then (False, d)
          else ensure_loop fs x (components (drop 1 (take l relPath)) []) [slash] d)"

definition CreateWithParents ::
  "('fs, 'd) FileSystem \<Rightarrow> string \<Rightarrow> nat option \<Rightarrow> nat option \<Rightarrow> ('fs, 'd) vfs_state \<Rightarrow> (nat option \<times> ('fs, 'd) vfs_state) option" where
  "CreateWithParents fs path ia fa st =
     (case resolve fs path st of
        None \<Rightarrow> None
      | Some None \<Rightarrow> Some (None, st)
      | Some (Some (x, rel)) \<Rightarrow>
          let (ok, d) = EnsureParentDirs fs x rel (drv st)
          in if ok then Open fs path (0x0002 OR O_CREAT) ia fa (st\<lparr> drv := d \<rparr>) else Some (None, st\<lparr> drv := d \<rparr>))"

definition vfs_Append ::
  "('fs, 'd) FileSystem \<Rightarrow> string \<Rightarrow> u8 list \<Rightarrow> nat option \<Rightarrow> nat option \<Rightarrow> ('fs, 'd) vfs_state \<Rightarrow> (nat \<times> ('fs, 'd) vfs_state) option" where
  "vfs_Append fs path buffer ia fa st =
     (if buffer = [] then Some (0, st)
      else
        (case Open fs path (0x0002 OR O_APPEND OR O_CREAT) ia fa st of
           None \<Rightarrow> None
         | Some (None, st1) \<Rightarrow> Some (0, st1)
         | Some (Some f, st1) \<Rightarrow>
             (case Option.bind (files st1 f) (\<lambda>fo. Option.bind (Node fo) (inodes st1)) of
                None \<Rightarrow> None
              | Some n \<Rightarrow>
                  if Type (attrs n) = FT_DIR then map_option (\<lambda>st2. (0, st2)) (vfs_Close fs (Some f) st1)
                  else
                    (case vfs_Seek fs (Some f) (FileSize (attrs n)) 2 st1 of
                       None \<Rightarrow> None
                     | Some (_, st2) \<Rightarrow>
                         (case vfs_Write fs (Some f) buffer st2 of
                            None \<Rightarrow> None
                          | Some (written, st3) \<Rightarrow> map_option (\<lambda>st4. (written, st4)) (vfs_Close fs (Some f) st3))))))"

section \<open>Reference counts\<close>

text \<open>The files that keep the inode at \<open>a\<close> alive. Shared memory files point to an inode of their region.\<close>

definition users :: "('fs, 'd) vfs_state \<Rightarrow> nat \<Rightarrow> nat set" where
  "users st a = {f. \<exists>fo. files st f = Some fo \<and> Node fo = Some a \<and> f_type fo \<noteq> FT_SHM}"

definition cached :: "('fs, 'd) vfs_state \<Rightarrow> nat \<Rightarrow> nat \<Rightarrow> bool" where
  "cached st i a \<longleftrightarrow> i < length (g_InodeCache st) \<and> g_InodeCache st ! i = Some a"

text \<open>The invariant, with \<open>p a\<close> references to the inode at \<open>a\<close> counted for which no file exists (yet).\<close>

definition vfs_inv :: "(nat \<Rightarrow> int) \<Rightarrow> ('fs, 'd) vfs_state \<Rightarrow> bool" where
  "vfs_inv p st \<longleftrightarrow> finite (dom (files st))
     \<and> (\<forall>f fo. files st f = Some fo \<longrightarrow> 1 \<le> f_RefCount fo)
     \<and> (\<forall>a. users st a \<noteq> {} \<longrightarrow> inodes st a \<noteq> None)
     \<and> (\<forall>a n. inodes st a = Some n \<longrightarrow> RefCount n = int (card (users st a)) + p a)
     \<and> (\<forall>i a. cached st i a \<longrightarrow> inodes st a \<noteq> None)
     \<and> (\<forall>i j a b n m. cached st i a \<longrightarrow> cached st j b \<longrightarrow> inodes st a = Some n \<longrightarrow> inodes st b = Some m \<longrightarrow>
          FSOwner n = FSOwner m \<longrightarrow> InodeID n = InodeID m \<longrightarrow> i = j)"

definition vfs_ok :: "('fs, 'd) vfs_state \<Rightarrow> bool" where
  "vfs_ok st \<longleftrightarrow> vfs_inv (\<lambda>_. 0) st"

lemma vfs_invI:
  assumes "finite (dom (files st))"
    and "\<And>f fo. files st f = Some fo \<Longrightarrow> 1 \<le> f_RefCount fo"
    and "\<And>a. users st a \<noteq> {} \<Longrightarrow> inodes st a \<noteq> None"
    and "\<And>a n. inodes st a = Some n \<Longrightarrow> RefCount n = int (card (users st a)) + p a"
    and "\<And>i a. cached st i a \<Longrightarrow> inodes st a \<noteq> None"
    and "\<And>i j a b n m. cached st i a \<Longrightarrow> cached st j b \<Longrightarrow> inodes st a = Some n \<Longrightarrow> inodes st b = Some m \<Longrightarrow>
          FSOwner n = FSOwner m \<Longrightarrow> InodeID n = InodeID m \<Longrightarrow> i = j"
  shows "vfs_inv p st"
  using assms unfolding vfs_inv_def by blast

lemma vfs_invD:
  assumes "vfs_inv p st"
  shows "finite (dom (files st))"
    and "files st f = Some fo \<Longrightarrow> 1 \<le> f_RefCount fo"
    and "users st a \<noteq> {} \<Longrightarrow> inodes st a \<noteq> None"
    and "inodes st a = Some n \<Longrightarrow> RefCount n = int (card (users st a)) + p a"
    and "cached st i a \<Longrightarrow> inodes st a \<noteq> None"
    and "cached st i a \<Longrightarrow> cached st j b \<Longrightarrow> inodes st a = Some n \<Longrightarrow> inodes st b = Some m \<Longrightarrow>
          FSOwner n = FSOwner m \<Longrightarrow> InodeID n = InodeID m \<Longrightarrow> i = j"
  using assms unfolding vfs_inv_def by blast+

lemma finite_users: "vfs_inv p st \<Longrightarrow> finite (users st a)"
  by (rule finite_subset [OF _ vfs_invD(1)]) (auto simp: users_def)

lemma users_frame [simp]:
  "users (st\<lparr> inodes := x \<rparr>) = users st" "users (st\<lparr> g_InodeCache := c \<rparr>) = users st"
  "users (st\<lparr> drv := d \<rparr>) = users st" "users (st\<lparr> mounts := m \<rparr>) = users st" "users (st\<lparr> shm := s \<rparr>) = users st"
  by (simp_all add: users_def fun_eq_iff)

lemma cached_frame [simp]:
  "cached (st\<lparr> inodes := x \<rparr>) = cached st" "cached (st\<lparr> files := y \<rparr>) = cached st"
  "cached (st\<lparr> drv := d \<rparr>) = cached st" "cached (st\<lparr> mounts := m \<rparr>) = cached st" "cached (st\<lparr> shm := s \<rparr>) = cached st"
  by (simp_all add: cached_def fun_eq_iff)

lemma vfs_inv_frame [simp]:
  "vfs_inv p (st\<lparr> drv := d \<rparr>) = vfs_inv p st" "vfs_inv p (st\<lparr> mounts := m \<rparr>) = vfs_inv p st"
  "vfs_inv p (st\<lparr> shm := s \<rparr>) = vfs_inv p st"
  by (simp_all add: vfs_inv_def)

lemma vfs_inv_shm [simp]: "vfs_inv p (st\<lparr> shm := s, files := y \<rparr>) = vfs_inv p (st\<lparr> files := y \<rparr>)"
  by (simp add: vfs_inv_def users_def)

subsection \<open>Inodes\<close>

lemma inv_add_ref:
  assumes "vfs_inv p st"
  shows "vfs_inv (p(a := p a + k)) (st\<lparr> inodes := add_ref k a (inodes st) \<rparr>)"
proof (rule vfs_invI)
  fix i j b c n m
  assume "cached (st\<lparr> inodes := add_ref k a (inodes st) \<rparr>) i b" "cached (st\<lparr> inodes := add_ref k a (inodes st) \<rparr>) j c"
    "inodes (st\<lparr> inodes := add_ref k a (inodes st) \<rparr>) b = Some n" "inodes (st\<lparr> inodes := add_ref k a (inodes st) \<rparr>) c = Some m"
    "FSOwner n = FSOwner m" "InodeID n = InodeID m"
  then show "i = j" using vfs_invD(6) [OF assms] by (auto simp: add_ref_def split: if_splits)
qed (use vfs_invD(1-5) [OF assms] in \<open>auto simp: add_ref_def split: if_splits\<close>)

lemma inv_new_inode:
  assumes "vfs_inv p st" and "inodes st a = None"
  shows "vfs_inv (p(a := RefCount n)) (st\<lparr> inodes := (inodes st)(a \<mapsto> n) \<rparr>)"
proof -
  have u: "users st a = {}" and c: "\<not> cached st i a" for i using vfs_invD(3,5) [OF assms(1)] assms(2) by blast+
  show ?thesis
  proof (rule vfs_invI)
    fix i j b c' m l
    assume *: "cached (st\<lparr> inodes := (inodes st)(a \<mapsto> n) \<rparr>) i b" "cached (st\<lparr> inodes := (inodes st)(a \<mapsto> n) \<rparr>) j c'"
      "inodes (st\<lparr> inodes := (inodes st)(a \<mapsto> n) \<rparr>) b = Some m" "inodes (st\<lparr> inodes := (inodes st)(a \<mapsto> n) \<rparr>) c' = Some l"
      "FSOwner m = FSOwner l" "InodeID m = InodeID l"
    moreover have "b \<noteq> a" "c' \<noteq> a" using *(1,2) c by auto
    ultimately show "i = j" using vfs_invD(6) [OF assms(1)] by auto
  qed (use vfs_invD(1-5) [OF assms(1)] u c in \<open>auto split: if_splits\<close>)
qed

lemma inv_del_inode:
  assumes "vfs_inv p st" and "users st a = {}" and "\<And>i. \<not> cached st i a"
  shows "vfs_inv p (st\<lparr> inodes := (inodes st)(a := None) \<rparr>)"
proof (rule vfs_invI)
  fix i j b c n m
  assume "cached (st\<lparr> inodes := (inodes st)(a := None) \<rparr>) i b" "cached (st\<lparr> inodes := (inodes st)(a := None) \<rparr>) j c"
    "inodes (st\<lparr> inodes := (inodes st)(a := None) \<rparr>) b = Some n" "inodes (st\<lparr> inodes := (inodes st)(a := None) \<rparr>) c = Some m"
    "FSOwner n = FSOwner m" "InodeID n = InodeID m"
  then show "i = j" using vfs_invD(6) [OF assms(1)] by (auto split: if_splits)
qed (use vfs_invD(1-5) [OF assms(1)] assms(2,3) in \<open>auto split: if_splits\<close>)

subsection \<open>The cache\<close>

lemma scan_cache_result:
  "\<forall>a. Some a \<in> set c \<longrightarrow> ns a \<noteq> None \<Longrightarrow>
   case scan_cache ns fs num c i of
     None \<Rightarrow> False
   | Some None \<Rightarrow> \<forall>a n. Some a \<in> set c \<longrightarrow> ns a = Some n \<longrightarrow> \<not> (FSOwner n = fs \<and> InodeID n = num)
   | Some (Some k) \<Rightarrow> i \<le> k \<and> k - i < length c \<and> (\<exists>a n. c ! (k - i) = Some a \<and> ns a = Some n \<and> FSOwner n = fs \<and> InodeID n = num)"
proof (induction ns fs num c i rule: scan_cache.induct)
  case (3 ns fs num a c i)
  obtain n where n: "ns a = Some n" using 3(2) by auto
  show ?case
  proof (cases "FSOwner n = fs \<and> InodeID n = num")
    case True
    with n show ?thesis by auto
  next
    case False
    have "case scan_cache ns fs num c (i + 1) of
       None \<Rightarrow> False
     | Some None \<Rightarrow> \<forall>a n. Some a \<in> set c \<longrightarrow> ns a = Some n \<longrightarrow> \<not> (FSOwner n = fs \<and> InodeID n = num)
     | Some (Some k) \<Rightarrow> i + 1 \<le> k \<and> k - (i + 1) < length c \<and> (\<exists>a n. c ! (k - (i + 1)) = Some a \<and> ns a = Some n \<and> FSOwner n = fs \<and> InodeID n = num)"
      using 3(1) [OF n False] 3(2) by simp
    with n False show ?thesis by (auto split: option.splits simp: Suc_le_eq nth_Cons')
  qed
next
  case (2 ns fs num c i)
  have "case scan_cache ns fs num c (i + 1) of
     None \<Rightarrow> False
   | Some None \<Rightarrow> \<forall>a n. Some a \<in> set c \<longrightarrow> ns a = Some n \<longrightarrow> \<not> (FSOwner n = fs \<and> InodeID n = num)
   | Some (Some k) \<Rightarrow> i + 1 \<le> k \<and> k - (i + 1) < length c \<and> (\<exists>a n. c ! (k - (i + 1)) = Some a \<and> ns a = Some n \<and> FSOwner n = fs \<and> InodeID n = num)"
    using 2 by simp
  then show ?case by (auto split: option.splits simp: Suc_le_eq nth_Cons')
qed simp

lemma cached_iff: "(\<exists>i. cached st i a) \<longleftrightarrow> Some a \<in> set (g_InodeCache st)"
  by (auto simp: cached_def in_set_conv_nth)

lemma cachedD: "cached st i a \<Longrightarrow> Some a \<in> set (g_InodeCache st)"
  using cached_iff by metis

lemma scan_cached:
  assumes "vfs_inv p st"
  obtains (miss) "scan_cache (inodes st) fs num (g_InodeCache st) 0 = Some None"
      "\<And>i a n. cached st i a \<Longrightarrow> inodes st a = Some n \<Longrightarrow> \<not> (FSOwner n = fs \<and> InodeID n = num)"
  | (hit) k a n where "scan_cache (inodes st) fs num (g_InodeCache st) 0 = Some (Some k)" "cached st k a"
      "inodes st a = Some n" "FSOwner n = fs" "InodeID n = num"
proof -
  have live: "\<forall>a. Some a \<in> set (g_InodeCache st) \<longrightarrow> inodes st a \<noteq> None"
    using vfs_invD(5) [OF assms] cached_iff by metis
  note r = scan_cache_result [OF live, of fs num 0]
  show ?thesis
  proof (cases "scan_cache (inodes st) fs num (g_InodeCache st) 0")
    case None
    with r show ?thesis by simp
  next
    case (Some o1)
    show ?thesis
    proof (cases o1)
      case None
      with Some r have "\<forall>a n. Some a \<in> set (g_InodeCache st) \<longrightarrow> inodes st a = Some n \<longrightarrow> \<not> (FSOwner n = fs \<and> InodeID n = num)"
        by simp
      with None Some show ?thesis by (intro miss) (auto dest: cachedD)
    next
      case (Some k)
      with \<open>scan_cache _ _ _ _ _ = Some o1\<close> r show ?thesis using hit [of k] by (auto simp: cached_def)
    qed
  qed
qed

lemma inv_add_cached:
  assumes "vfs_inv p st" and "inodes st a = Some n"
    and "\<And>i b m. cached st i b \<Longrightarrow> inodes st b = Some m \<Longrightarrow> \<not> (FSOwner m = FSOwner n \<and> InodeID m = InodeID n)"
  shows "vfs_inv p (AddCachedInode a st)"
proof (cases "find_index (\<lambda>s. s = None) (g_InodeCache st)")
  case None
  with assms(1) show ?thesis by (simp add: AddCachedInode_def)
next
  case (Some k)
  let ?st = "st\<lparr> g_InodeCache := (g_InodeCache st)[k := Some a] \<rparr>"
  have k: "k < length (g_InodeCache st)" using find_index_SomeD [OF Some] by simp
  have c: "cached ?st i b \<longleftrightarrow> (if i = k then b = a else cached st i b)" for i b
    using k by (auto simp: cached_def nth_list_update)
  have "vfs_inv p ?st"
  proof (rule vfs_invI)
    fix i j b c' m l
    assume *: "cached ?st i b" "cached ?st j c'" "inodes ?st b = Some m" "inodes ?st c' = Some l" "FSOwner m = FSOwner l" "InodeID m = InodeID l"
    show "i = j"
    proof (cases "i = k \<or> j = k")
      case True
      with * assms(2) assms(3) [of i b m] assms(3) [of j c' l] show ?thesis by (auto simp: c split: if_splits)
    next
      case False
      with * vfs_invD(6) [OF assms(1)] show ?thesis by (auto simp: c split: if_splits)
    qed
  qed (use vfs_invD(1-5) [OF assms(1)] assms(2) in \<open>auto simp: c split: if_splits\<close>)
  with Some show ?thesis by (simp add: AddCachedInode_def)
qed

lemma inv_uncache:
  assumes "vfs_inv p st"
  shows "vfs_inv p (st\<lparr> g_InodeCache := (g_InodeCache st)[k := None] \<rparr>)"
proof -
  let ?st = "st\<lparr> g_InodeCache := (g_InodeCache st)[k := None] \<rparr>"
  have c: "cached ?st i b \<longleftrightarrow> i \<noteq> k \<and> cached st i b" for i b
    by (cases "i = k") (auto simp: cached_def)
  show ?thesis
  proof (rule vfs_invI)
    fix i j b c' m l
    assume "cached ?st i b" "cached ?st j c'" "inodes ?st b = Some m" "inodes ?st c' = Some l" "FSOwner m = FSOwner l" "InodeID m = InodeID l"
    with vfs_invD(6) [OF assms] show "i = j" by (auto simp: c)
  qed (use vfs_invD(1-5) [OF assms] in \<open>auto simp: c\<close>)
qed

text \<open>Removing the entry of an inode removes every pointer to it from the cache.\<close>

lemma inv_remove_cached:
  assumes "vfs_inv p st" and "inodes st a = Some n"
  shows "\<exists>st'. RemoveCachedInode (FSOwner n) (InodeID n) st = Some st' \<and> vfs_inv p st' \<and> (\<forall>i. \<not> cached st' i a)
    \<and> users st' = users st \<and> inodes st' = inodes st \<and> files st' = files st"
  using assms(1)
proof (cases rule: scan_cached [where fs = "FSOwner n" and num = "InodeID n"])
  case miss
  with assms show ?thesis by (auto simp: RemoveCachedInode_def)
next
  case (hit k b m)
  let ?st = "st\<lparr> g_InodeCache := (g_InodeCache st)[k := None] \<rparr>"
  have "\<not> cached ?st i a" for i
  proof
    assume "cached ?st i a"
    then have "i \<noteq> k \<and> cached st i a" by (cases "i = k") (auto simp: cached_def)
    with vfs_invD(6) [OF assms(1), of i a k b n m] hit assms(2) show False by simp
  qed
  with hit inv_uncache [OF assms(1)] show ?thesis by (simp add: RemoveCachedInode_def)
qed

subsection \<open>Files\<close>

lemma users_upd:
  "users (st\<lparr> files := (files st)(f := x) \<rparr>) a =
     (case x of
        None \<Rightarrow> users st a - {f}
      | Some fo \<Rightarrow> if Node fo = Some a \<and> f_type fo \<noteq> FT_SHM then insert f (users st a) else users st a - {f})"
  by (auto simp: users_def split: option.splits)

text \<open>Replacing a file object by one with the same inode and type.\<close>

lemma inv_same_file:
  assumes "vfs_inv p st" and "files st f = Some fo" and "Node fo' = Node fo" and "f_type fo' = f_type fo" and "1 \<le> f_RefCount fo'"
  shows "vfs_inv p (st\<lparr> files := (files st)(f \<mapsto> fo') \<rparr>)"
proof -
  have "users (st\<lparr> files := (files st)(f \<mapsto> fo') \<rparr>) = users st"
    using assms(2-4) by (auto simp: users_def fun_eq_iff)
  then show ?thesis using assms(1,5) unfolding vfs_inv_def by (auto split: if_splits)
qed

lemma inv_call:
  assumes "vfs_inv p st" and "call g via f st = Some (r, st')"
  shows "vfs_inv p st' \<and> (\<forall>a. inodes st' a = None \<longleftrightarrow> inodes st a = None)
    \<and> (\<forall>h. map_option (\<lambda>fo. fo\<lparr> CurrentPosition := 0 \<rparr>) (files st' h) = map_option (\<lambda>fo. fo\<lparr> CurrentPosition := 0 \<rparr>) (files st h))"
proof -
  obtain fo a n pos at d where o: "files st f = Some fo" "Node fo = Some a" "inodes st a = Some n"
    and st': "st' = st\<lparr> files := (files st)(f \<mapsto> fo\<lparr> CurrentPosition := pos \<rparr>),
        inodes := (inodes st)(a \<mapsto> n\<lparr> attrs := at \<rparr>), drv := d \<rparr>"
    using assms(2) by (auto simp: call_def split: option.splits prod.splits)
  let ?st = "st\<lparr> files := (files st)(f \<mapsto> fo\<lparr> CurrentPosition := pos \<rparr>) \<rparr>"
  have "vfs_inv p ?st" using assms(1) o vfs_invD(2) [OF assms(1) o(1)] by (intro inv_same_file) auto
  then have "vfs_inv p (?st\<lparr> inodes := (inodes ?st)(a \<mapsto> n\<lparr> attrs := at \<rparr>) \<rparr>)"
    using o(3) unfolding vfs_inv_def by (auto split: if_splits)
  with o show ?thesis by (auto simp: st')
qed

lemma inv_new_file:
  assumes "vfs_inv p st" and "files st f = None" and "Node fo = Some a" and "f_type fo \<noteq> FT_SHM" and "1 \<le> f_RefCount fo"
    and "inodes st a \<noteq> None"
  shows "vfs_inv (p(a := p a - 1)) (st\<lparr> files := (files st)(f \<mapsto> fo) \<rparr>)"
proof -
  have f: "f \<notin> users st b" for b using assms(2) by (simp add: users_def)
  have u: "users (st\<lparr> files := (files st)(f \<mapsto> fo) \<rparr>) b = (if b = a then insert f (users st b) else users st b)" for b
    using assms(3,4) f [of b] by (auto simp: users_upd)
  show ?thesis
  proof (rule vfs_invI)
    fix b n assume "inodes (st\<lparr> files := (files st)(f \<mapsto> fo) \<rparr>) b = Some n"
    with vfs_invD(4) [OF assms(1), of b n] f show
      "RefCount n = int (card (users (st\<lparr> files := (files st)(f \<mapsto> fo) \<rparr>) b)) + (p(a := p a - 1)) b"
      by (auto simp: u card_insert_disjoint [OF finite_users [OF assms(1)]])
  next
    fix i j b c n m
    assume "cached (st\<lparr> files := (files st)(f \<mapsto> fo) \<rparr>) i b" "cached (st\<lparr> files := (files st)(f \<mapsto> fo) \<rparr>) j c"
      "inodes (st\<lparr> files := (files st)(f \<mapsto> fo) \<rparr>) b = Some n" "inodes (st\<lparr> files := (files st)(f \<mapsto> fo) \<rparr>) c = Some m"
      "FSOwner n = FSOwner m" "InodeID n = InodeID m"
    with vfs_invD(6) [OF assms(1)] show "i = j" by simp
  qed (use vfs_invD(1,2,3,5) [OF assms(1)] assms(5,6) u in \<open>auto split: if_splits\<close>)
qed

lemma inv_del_file:
  assumes "vfs_inv p st" and "files st f = Some fo"
  shows "vfs_inv (case Node fo of None \<Rightarrow> p | Some a \<Rightarrow> if f_type fo = FT_SHM then p else p(a := p a + 1))
    (st\<lparr> files := (files st)(f := None) \<rparr>)"
proof -
  let ?q = "case Node fo of None \<Rightarrow> p | Some a \<Rightarrow> if f_type fo = FT_SHM then p else p(a := p a + 1)"
  let ?st = "st\<lparr> files := (files st)(f := None) \<rparr>"
  have u: "users ?st b = users st b - {f}" for b by (simp add: users_upd)
  have mem: "f \<in> users st b \<longleftrightarrow> Node fo = Some b \<and> f_type fo \<noteq> FT_SHM" for b using assms(2) by (simp add: users_def)
  show ?thesis
  proof (rule vfs_invI)
    fix b n assume "inodes ?st b = Some n"
    then have "RefCount n = int (card (users st b)) + p b" using vfs_invD(4) [OF assms(1), of b n] by simp
    moreover have "int (card (users st b)) = int (card (users st b - {f})) + (if f \<in> users st b then 1 else 0)"
      using card.remove [OF finite_users [OF assms(1)], of f b] by auto
    ultimately show "RefCount n = int (card (users ?st b)) + ?q b" by (auto simp: u mem split: option.splits)
  next
    fix i j b c n m
    assume "cached ?st i b" "cached ?st j c" "inodes ?st b = Some n" "inodes ?st c = Some m" "FSOwner n = FSOwner m" "InodeID n = InodeID m"
    with vfs_invD(6) [OF assms(1)] show "i = j" by simp
  qed (use vfs_invD(1,2,3,5) [OF assms(1)] u in \<open>auto split: if_splits\<close>)
qed

subsection \<open>Open and Close keep the counts\<close>

lemma open_file_ok:
  assumes inv: "vfs_inv ((\<lambda>_. 0)(a := 1)) st" and live: "inodes st a \<noteq> None"
    and fresh: "\<And>f. fa = Some f \<Longrightarrow> files st f = None" and res: "open_file fs path flags a fa st = Some (r, st')"
  shows "vfs_ok st' \<and> (\<forall>f. r = Some f \<longrightarrow> files st' f \<noteq> None)"
proof (cases fa)
  case None
  have "vfs_inv (\<lambda>_. 0) (st\<lparr> inodes := add_ref (-1) a (inodes st) \<rparr>)"
    using inv_add_ref [OF inv, of a "-1"] by (simp add: fun_upd_idem)
  with None res show ?thesis by (auto simp: open_file_def vfs_ok_def)
next
  case (Some f)
  define fo where "fo = \<lparr> CurrentPosition = 0, Flags = flags, FileName = path, Node = Some a, f_RefCount = 1, f_type = FT_DIR, PrivateData = None \<rparr>"
  let ?st = "st\<lparr> files := (files st)(f \<mapsto> fo) \<rparr>"
  have "vfs_inv (((\<lambda>_. 0)(a := 1))(a := ((\<lambda>_. 0)(a := 1)) a - 1)) ?st"
    using inv fresh [OF Some] live by (intro inv_new_file) (simp_all add: fo_def)
  then have ok: "vfs_inv (\<lambda>_. 0) ?st" by (simp add: fun_upd_idem)
  show ?thesis
  proof (cases "flags AND O_TRUNC = 0")
    case True
    with res Some ok show ?thesis by (auto simp: open_file_def vfs_ok_def fo_def Let_def split: if_splits)
  next
    case False
    then obtain u where c: "call (fs_Truncate fs 0) None f ?st = Some (u, st')" "r = Some f"
      using res Some by (auto simp: open_file_def fo_def Let_def split: if_splits)
    from inv_call [OF ok c(1)] have "vfs_inv (\<lambda>_. 0) st'" "files st' f \<noteq> None"
      by (auto dest!: spec [of _ f])
    with c(2) show ?thesis by (simp add: vfs_ok_def)
  qed
qed

lemma AddCachedInode_frame [simp]:
  "inodes (AddCachedInode a st) = inodes st" "files (AddCachedInode a st) = files st"
  by (simp_all add: AddCachedInode_def split: option.splits)

lemma open_inode_ok:
  assumes ok: "vfs_ok st" and ia: "\<And>a. ia = Some a \<Longrightarrow> inodes st a = None" and fa: "\<And>f. fa = Some f \<Longrightarrow> files st f = None"
    and res: "open_inode fs path flags ia fa x num st = Some (r, st')"
  shows "vfs_ok st' \<and> (\<forall>f. r = Some f \<longrightarrow> files st' f \<noteq> None)"
  using ok [unfolded vfs_ok_def]
proof (cases rule: scan_cached [where fs = x and num = num])
  case (hit k a n)
  have "GetCachedInode x num st = Some (Some a)" using hit by (simp add: GetCachedInode_def cached_def)
  then have "open_file fs path flags a fa (st\<lparr> inodes := add_ref 1 a (inodes st) \<rparr>) = Some (r, st')"
    using res by (simp add: open_inode_def)
  moreover have "vfs_inv ((\<lambda>_. 0)(a := 1)) (st\<lparr> inodes := add_ref 1 a (inodes st) \<rparr>)"
    using inv_add_ref [OF ok [unfolded vfs_ok_def], of a 1] by simp
  ultimately show ?thesis using hit fa by (intro open_file_ok [where a = a]) (auto simp: add_ref_def)
next
  case miss
  then have g: "GetCachedInode x num st = Some None" by (simp add: GetCachedInode_def)
  show ?thesis
  proof (cases ia)
    case None
    with g res ok show ?thesis by (auto simp: open_inode_def vfs_ok_def)
  next
    case (Some a)
    define n where "n = \<lparr> InodeID = num, FSOwner = x, RefCount = 1,
      attrs = (case fs_PopulateInode fs x num (drv st) of None \<Rightarrow> new_attrs | Some at \<Rightarrow> at) \<rparr>"
    let ?st = "st\<lparr> inodes := (inodes st)(a \<mapsto> n) \<rparr>"
    have "open_file fs path flags a fa (AddCachedInode a ?st) = Some (r, st')"
      using g res Some by (simp add: open_inode_def Let_def n_def)
    moreover have inv: "vfs_inv ((\<lambda>_. 0)(a := 1)) ?st"
      using inv_new_inode [OF ok [unfolded vfs_ok_def] ia [OF Some], of n] by (simp add: n_def)
    have "\<not> cached st i a" for i using vfs_invD(5) [OF ok [unfolded vfs_ok_def]] ia [OF Some] by blast
    then have "vfs_inv ((\<lambda>_. 0)(a := 1)) (AddCachedInode a ?st)"
      using miss(2) by (intro inv_add_cached [OF inv, of a n]) (auto simp: n_def split: if_splits)
    ultimately show ?thesis using fa by (intro open_file_ok [where a = a]) auto
  qed
qed

lemma Open_ok:
  assumes "vfs_ok st" and "\<And>a. ia = Some a \<Longrightarrow> inodes st a = None" and "\<And>f. fa = Some f \<Longrightarrow> files st f = None"
    and res: "Open fs path flags ia fa st = Some (r, st')"
  shows "vfs_ok st' \<and> (\<forall>f. r = Some f \<longrightarrow> files st' f \<noteq> None)"
proof -
  have drv: "vfs_ok (st\<lparr> drv := d \<rparr>)" for d using assms(1) by (simp add: vfs_ok_def)
  have ino: "vfs_ok st' \<and> (\<forall>f. r = Some f \<longrightarrow> files st' f \<noteq> None)"
    if "open_inode fs path flags ia fa x num (st\<lparr> drv := d \<rparr>) = Some (r, st')" for x num d
    using that assms(2,3) by (intro open_inode_ok [OF drv]) auto
  show ?thesis
  proof (cases "resolve fs path st")
    case None
    with res show ?thesis by (simp add: Open_def)
  next
    case (Some xo)
    show ?thesis
    proof (cases xo)
      case None
      with Some res assms(1) show ?thesis by (simp add: Open_def)
    next
      case found: (Some xr)
      obtain x rel where xr: "xr = (x, rel)" by (cases xr)
      let ?num0 = "fs_Lookup fs x rel (drv st)"
      obtain num d where nd: "(if ?num0 = 0 \<and> flags AND O_CREAT \<noteq> 0 then fs_CreateNode fs x rel flags (drv st) else (?num0, drv st)) = (num, d)"
        by (metis surj_pair)
      have "(if num = 0 then Some (None, st\<lparr> drv := d \<rparr>) else open_inode fs path flags ia fa x num (st\<lparr> drv := d \<rparr>)) = Some (r, st')"
        using res unfolding Open_def Some found xr option.case prod.case Let_def nd .
      then show ?thesis using ino drv by (cases "num = 0") auto
    qed
  qed
qed

lemma call_defined:
  assumes "vfs_inv p st" and "files st f = Some fo" and "Node fo = Some a" and "f_type fo \<noteq> FT_SHM"
  shows "\<exists>r st'. call g via f st = Some (r, st')"
proof -
  have "f \<in> users st a" using assms(2-4) by (simp add: users_def)
  then obtain n where "inodes st a = Some n" using vfs_invD(3) [OF assms(1), of a] by auto
  with assms(2,3) show ?thesis by (auto simp: call_def split: prod.splits)
qed

lemma call_frame:
  assumes "call g via f st = Some (r, st')" and "files st f = Some fo"
  shows "users st' = users st \<and> (\<exists>fo'. files st' f = Some fo' \<and> Node fo' = Node fo \<and> f_type fo' = f_type fo)"
  using assms by (auto simp: call_def users_def fun_eq_iff Let_def split: option.splits prod.splits if_splits)

text \<open>The last close of a file object that has an inode: defined, counts kept, and the inode is released
  exactly when no other file uses it.\<close>

lemma Close_last:
  assumes ok: "vfs_ok st" and fo: "files st f = Some fo" "f_RefCount fo = 1" "f_type fo \<noteq> FT_SHM" "Node fo = Some a"
  shows "\<exists>st'. vfs_Close fs (Some f) st = Some st' \<and> vfs_ok st' \<and> files st' f = None
    \<and> (inodes st' a = None \<longleftrightarrow> users st a = {f}) \<and> (inodes st' a = None \<longrightarrow> (\<forall>i. \<not> cached st' i a))"
proof -
  note inv = ok [unfolded vfs_ok_def]
  obtain u st1 where c: "call (fs_Close fs) None f st = Some (u, st1)" using call_defined [OF inv fo(1,4,3), of "fs_Close fs" None] by blast
  have inv1: "vfs_inv (\<lambda>_. 0) st1" using inv_call [OF inv c] by blast
  obtain fo1 where fo1: "files st1 f = Some fo1" "Node fo1 = Some a" "f_type fo1 \<noteq> FT_SHM" and us: "users st1 = users st"
    using call_frame [OF c fo(1)] fo by auto
  have "f \<in> users st1 a" using fo1 by (simp add: users_def)
  then obtain n where n: "inodes st1 a = Some n" using vfs_invD(3) [OF inv1] by blast
  define st2 where "st2 = st1\<lparr> inodes := (inodes st1)(a \<mapsto> n\<lparr> RefCount := RefCount n - 1 \<rparr>), files := (files st1)(f := None) \<rparr>"
  have st2': "st2 = (st1\<lparr> inodes := add_ref (-1) a (inodes st1) \<rparr>)\<lparr> files := (files (st1\<lparr> inodes := add_ref (-1) a (inodes st1) \<rparr>))(f := None) \<rparr>"
    using n by (simp add: st2_def add_ref_def)
  have inv2: "vfs_inv (\<lambda>_. 0) st2"
    using inv_del_file [OF inv_add_ref [OF inv1, of a "-1"], of f fo1] fo1 unfolding st2' by (simp add: fun_upd_idem)
  have us2: "users st2 a = users st a - {f}" unfolding st2' users_upd by (simp add: us)
  have n2: "inodes st2 a = Some (n\<lparr> RefCount := RefCount n - 1 \<rparr>)" "files st2 f = None" by (simp_all add: st2_def)
  have cnt: "RefCount n - 1 = int (card (users st a - {f}))" using vfs_invD(4) [OF inv2 n2(1)] by (simp add: us2)
  have fin: "finite (users st a - {f})" using finite_users [OF inv, of a] by simp
  have mem: "f \<in> users st a" using fo by (simp add: users_def)
  have close: "vfs_Close fs (Some f) st = (if RefCount n - 1 \<le> 0
      then map_option (\<lambda>st3. st3\<lparr> inodes := (inodes st3)(a := None) \<rparr>) (RemoveCachedInode (FSOwner n) (InodeID n) st2) else Some st2)"
    using fo c n by (simp add: vfs_Close_def st2_def Let_def)
  show ?thesis
  proof (cases "users st a = {f}")
    case True
    obtain st3 where st3: "RemoveCachedInode (FSOwner n) (InodeID n) st2 = Some st3" "vfs_inv (\<lambda>_. 0) st3" "\<forall>i. \<not> cached st3 i a"
        "users st3 = users st2" "inodes st3 = inodes st2" "files st3 = files st2"
      using inv_remove_cached [OF inv2 n2(1)] by auto
    have "vfs_inv (\<lambda>_. 0) (st3\<lparr> inodes := (inodes st3)(a := None) \<rparr>)"
      using st3 us2 True by (intro inv_del_inode) auto
    with True st3 close cnt n2 show ?thesis by (simp add: vfs_ok_def)
  next
    case False
    then have "users st a - {f} \<noteq> {}" using mem by blast
    then have "\<not> RefCount n - 1 \<le> 0" using cnt fin by (simp add: card_gt_0_iff)
    with False close inv2 n2 show ?thesis by (simp add: vfs_ok_def)
  qed
qed

lemma Close_ok:
  assumes "vfs_ok st" and "vfs_Close fs (Some f) st = Some st'"
  shows "vfs_ok st'"
proof -
  note inv = assms(1) [unfolded vfs_ok_def]
  obtain fo where fo: "files st f = Some fo" using assms(2) by (auto simp: vfs_Close_def split: option.splits)
  have pos: "1 \<le> f_RefCount fo" by (rule vfs_invD(2) [OF inv fo])
  consider (shared) "0 < f_RefCount fo - 1" | (last) "f_RefCount fo = 1" "f_type fo \<noteq> FT_SHM" "Node fo \<noteq> None"
    | (other) "f_RefCount fo = 1" "f_type fo = FT_SHM \<or> Node fo = None" using pos by linarith
  then show ?thesis
  proof cases
    case shared
    with assms fo show ?thesis by (auto simp: vfs_Close_def vfs_ok_def intro: inv_same_file)
  next
    case last
    then obtain a where "Node fo = Some a" by auto
    from Close_last [OF assms(1) fo last(1,2) this, of fs] assms(2) show ?thesis by auto
  next
    case other
    have "vfs_inv (\<lambda>_. 0) (st\<lparr> files := (files st)(f := None) \<rparr>)"
      using inv_del_file [OF inv fo] other(2) by (auto split: option.splits if_splits)
    then show ?thesis using other fo assms(2) by (auto simp: vfs_Close_def vfs_ok_def split: if_splits)
  qed
qed

section \<open>Any use of the interface\<close>

text \<open>One step of any task: an open with fresh objects, a close, an operation on an open file, or the
  duplication of a descriptor (\<^verbatim>\<open>dup\<close>, \<^verbatim>\<open>fork\<close>, a mapping of the file).\<close>

inductive vfs_step :: "('fs, 'd) FileSystem \<Rightarrow> ('fs, 'd) vfs_state \<Rightarrow> ('fs, 'd) vfs_state \<Rightarrow> bool" for fs where
  step_open: "Open fs path flags ia fa st = Some (r, st') \<Longrightarrow> \<forall>a. ia = Some a \<longrightarrow> inodes st a = None \<Longrightarrow>
    \<forall>f. fa = Some f \<longrightarrow> files st f = None \<Longrightarrow> vfs_step fs st st'"
| step_close: "vfs_Close fs (Some f) st = Some st' \<Longrightarrow> vfs_step fs st st'"
| step_read: "vfs_Read fs file n st = Some (bytes, st') \<Longrightarrow> vfs_step fs st st'"
| step_write: "vfs_Write fs file buffer st = Some (written, st') \<Longrightarrow> vfs_step fs st st'"
| step_seek: "vfs_Seek fs file pos origin st = Some (moved, st') \<Longrightarrow> vfs_step fs st st'"
| step_truncate: "vfs_Truncate fs file n' st = Some (done', st') \<Longrightarrow> vfs_step fs st st'"
| step_dup: "files st f = Some fo \<Longrightarrow> vfs_step fs st (st\<lparr> files := (files st)(f \<mapsto> fo\<lparr> f_RefCount := f_RefCount fo + 1 \<rparr>) \<rparr>)"

lemma on_file_ok:
  assumes "vfs_ok st" and "on_file bad pipe g file st = Some (r, st')"
  shows "vfs_ok st'"
  using assms inv_call [OF assms(1) [unfolded vfs_ok_def], of g _ _ r st']
  by (auto simp: on_file_def vfs_ok_def split: option.splits if_splits)

lemma vfs_step_ok: "vfs_step fs st st' \<Longrightarrow> vfs_ok st \<Longrightarrow> vfs_ok st'"
proof (induction rule: vfs_step.induct)
  case (step_open path flags ia fa st r st')
  then show ?case using Open_ok [of st ia fa fs path flags r st'] by blast
next
  case (step_dup st f fo)
  then have "1 \<le> f_RefCount fo" using vfs_invD(2) [OF step_dup(2) [unfolded vfs_ok_def]] by blast
  with step_dup show ?case by (auto simp: vfs_ok_def intro!: inv_same_file)
qed (auto simp: vfs_Read_def vfs_Write_def vfs_Seek_def vfs_Truncate_def intro: Close_ok on_file_ok)


text \<open>Closing the last reference of a file never touches freed memory, frees the file object, and
  frees the inode (leaving no pointer to it in the cache) exactly when no other open file uses it.\<close>

theorem Close_releases_exactly:
  assumes "vfs_ok st" and "files st f = Some fo" and "f_RefCount fo = 1" and "f_type fo \<noteq> FT_SHM" and "Node fo = Some a"
  shows "\<exists>st'. vfs_Close fs (Some f) st = Some st' \<and> files st' f = None
    \<and> (inodes st' a = None \<longleftrightarrow> users st a = {f}) \<and> (inodes st' a = None \<longrightarrow> (\<forall>i. \<not> cached st' i a))"
  using Close_last [OF assms, of fs] by (elim exE conjE) (intro exI conjI; assumption)

section \<open>Witnesses\<close>

text \<open>A driver with one file system, in which every path has inode 5, and a state with one open file.\<close>

definition sample_fs :: "(nat, unit) FileSystem" where
  "sample_fs = \<lparr> fs_Lookup = (\<lambda>_ _ _. 5), fs_PopulateInode = (\<lambda>_ _ _. Some new_attrs), fs_CreateNode = (\<lambda>_ _ _ d. (0, d)),
     fs_Stat = (\<lambda>_ _ _. Some FT_NORMAL), fs_ReadLink = (\<lambda>_ _ _. None),
     fs_Close = (\<lambda>_ fo n d. ((), CurrentPosition fo, attrs n, d)),
     fs_Read = (\<lambda>k _ fo n d. ([], CurrentPosition fo, attrs n, d)),
     fs_Write = (\<lambda>b _ fo n d. (0, CurrentPosition fo, attrs n, d)),
     fs_Seek = (\<lambda>p _ _ fo n d. (True, p, attrs n, d)),
     fs_Truncate = (\<lambda>k _ fo n d. (True, CurrentPosition fo, attrs n, d)),
     fs_Flush = (\<lambda>_ fo n d. (True, CurrentPosition fo, attrs n, d)),
     fs_ReadDir = (\<lambda>_ _ fo n d. ((0, []), CurrentPosition fo, attrs n, d)),
     fs_Ioctl = (\<lambda>_ _ _ fo n d. (0, CurrentPosition fo, attrs n, d)),
     fs_Delete = (\<lambda>_ _ d. (False, d)), fs_Rename = (\<lambda>_ _ _ d. (False, d)), fs_MKDir = (\<lambda>_ _ d. (False, d)),
     fs_RMDir = (\<lambda>_ _ d. (False, d)), PipeInstance = 9 \<rparr>"

definition sample_inode :: "nat inode" where
  "sample_inode = \<lparr> InodeID = 5, FSOwner = 2, RefCount = 1, attrs = new_attrs \<rparr>"

definition sample_file :: File where
  "sample_file = \<lparr> CurrentPosition = 0, Flags = 0, FileName = ''/dev/a'', Node = Some 100, f_RefCount = 1, f_type = FT_DIR, PrivateData = None \<rparr>"

definition sample_vfs_state :: "(nat, unit) vfs_state" where
  "sample_vfs_state = \<lparr> mounts = sample_vfs, inodes = [100 \<mapsto> sample_inode], g_InodeCache = Some 100 # replicate 127 None,
     files = [200 \<mapsto> sample_file], drv = (), shm = shm_start \<rparr>"

lemma sample_users: "users sample_vfs_state a = (if a = 100 then {200} else {})"
  by (auto simp: users_def sample_vfs_state_def sample_file_def split: if_splits)

lemma sample_cached: "cached sample_vfs_state i a \<longleftrightarrow> i = 0 \<and> a = 100"
  by (auto simp: cached_def sample_vfs_state_def nth_Cons')

lemma sample_vfs_state_ok: "vfs_ok sample_vfs_state"
  unfolding vfs_ok_def
  by (rule vfs_invI) (auto simp: sample_users sample_cached, auto simp: sample_vfs_state_def sample_file_def sample_inode_def split: if_splits)


lemma Close_releases_exactly_witness:
  "\<exists>st'. vfs_Close sample_fs (Some 200) sample_vfs_state = Some st' \<and> inodes st' 100 = None"
proof -
  have "files sample_vfs_state 200 = Some sample_file" by (simp add: sample_vfs_state_def)
  from Close_releases_exactly [OF sample_vfs_state_ok this, of 100 sample_fs] show ?thesis
    by (auto simp: sample_file_def sample_users)
qed

end
