(* ===== verification/Rb_Tree.thy ===== *)
theory Rb_Tree
  imports Kernel_Prelude "HOL-Library.Monad_Syntax"
begin

text \<open>
  The intrusive red-black tree of the scheduler, \<^verbatim>\<open>kernel/task/rbt.cpp\<close>, on a heap of tasks. Each
  field of \<^verbatim>\<open>Task\<close> the tree uses is a map from task addresses; address 0 is the null pointer, and
  reading or writing a field of it is \<^const>\<open>None\<close>. The loops are partial functions: a loop that does
  not end, like a null dereference, is \<^const>\<open>None\<close>.
\<close>

section \<open>Model\<close>

datatype RBTColor = RBT_RED | RBT_BLACK

record rbt =
  Root :: nat
  RbtLeft :: "nat \<Rightarrow> nat"
  RbtRight :: "nat \<Rightarrow> nat"
  RbtParent :: "nat \<Rightarrow> nat"
  Color :: "nat \<Rightarrow> RBTColor"

definition get_left :: "nat \<Rightarrow> rbt \<Rightarrow> nat option" where
  "get_left p s = (if p = 0 then None else Some (RbtLeft s p))"

definition get_right :: "nat \<Rightarrow> rbt \<Rightarrow> nat option" where
  "get_right p s = (if p = 0 then None else Some (RbtRight s p))"

definition get_parent :: "nat \<Rightarrow> rbt \<Rightarrow> nat option" where
  "get_parent p s = (if p = 0 then None else Some (RbtParent s p))"

definition get_color :: "nat \<Rightarrow> rbt \<Rightarrow> RBTColor option" where
  "get_color p s = (if p = 0 then None else Some (Color s p))"

definition set_left :: "nat \<Rightarrow> nat \<Rightarrow> rbt \<Rightarrow> rbt option" where
  "set_left p v s = (if p = 0 then None else Some (s\<lparr> RbtLeft := (RbtLeft s)(p := v) \<rparr>))"

definition set_right :: "nat \<Rightarrow> nat \<Rightarrow> rbt \<Rightarrow> rbt option" where
  "set_right p v s = (if p = 0 then None else Some (s\<lparr> RbtRight := (RbtRight s)(p := v) \<rparr>))"

definition set_parent :: "nat \<Rightarrow> nat \<Rightarrow> rbt \<Rightarrow> rbt option" where
  "set_parent p v s = (if p = 0 then None else Some (s\<lparr> RbtParent := (RbtParent s)(p := v) \<rparr>))"

definition set_color :: "nat \<Rightarrow> RBTColor \<Rightarrow> rbt \<Rightarrow> rbt option" where
  "set_color p c s = (if p = 0 then None else Some (s\<lparr> Color := (Color s)(p := c) \<rparr>))"

lemmas field_defs = get_left_def get_right_def get_parent_def get_color_def
  set_left_def set_right_def set_parent_def set_color_def

text \<open>\<^verbatim>\<open>if (p != nullptr) ...\<close>\<close>

definition unless_null :: "nat \<Rightarrow> (rbt \<Rightarrow> rbt option) \<Rightarrow> rbt \<Rightarrow> rbt option" where
  "unless_null p f s = (if p = 0 then Some s else f s)"

text \<open>A null child counts as black: \<^verbatim>\<open>p == nullptr || p->Color == RBT_BLACK\<close>.\<close>

definition is_black :: "nat \<Rightarrow> rbt \<Rightarrow> bool" where
  "is_black p s \<longleftrightarrow> p = 0 \<or> Color s p = RBT_BLACK"

text \<open>Putting \<open>v\<close> in the place of \<open>u\<close> below \<open>u\<close>'s parent; the rotation to the left tests the left child
  first, the one to the right the right child.\<close>

definition relink_left_first :: "nat \<Rightarrow> nat \<Rightarrow> rbt \<Rightarrow> rbt option" where
  "relink_left_first u v s = do {
     up \<leftarrow> get_parent u s;
     if up = 0 then Some (s\<lparr> Root := v \<rparr>)
     else do {
       l \<leftarrow> get_left up s;
       if u = l then set_left up v s else set_right up v s } }"

definition relink_right_first :: "nat \<Rightarrow> nat \<Rightarrow> rbt \<Rightarrow> rbt option" where
  "relink_right_first u v s = do {
     up \<leftarrow> get_parent u s;
     if up = 0 then Some (s\<lparr> Root := v \<rparr>)
     else do {
       r \<leftarrow> get_right up s;
       if u = r then set_right up v s else set_left up v s } }"

definition RBT_LeftRotate :: "nat \<Rightarrow> rbt \<Rightarrow> rbt option" where
  "RBT_LeftRotate X s = do {
     y \<leftarrow> get_right X s;
     yl \<leftarrow> get_left y s;
     s \<leftarrow> set_right X yl s;
     s \<leftarrow> unless_null yl (set_parent yl X) s;
     xp \<leftarrow> get_parent X s;
     s \<leftarrow> set_parent y xp s;
     s \<leftarrow> relink_left_first X y s;
     s \<leftarrow> set_left y X s;
     set_parent X y s }"

definition RBT_RightRotate :: "nat \<Rightarrow> rbt \<Rightarrow> rbt option" where
  "RBT_RightRotate y s = do {
     x \<leftarrow> get_left y s;
     xr \<leftarrow> get_right x s;
     s \<leftarrow> set_left y xr s;
     s \<leftarrow> unless_null xr (set_parent xr y) s;
     yp \<leftarrow> get_parent y s;
     s \<leftarrow> set_parent x yp s;
     s \<leftarrow> relink_right_first y x s;
     s \<leftarrow> set_right x y s;
     set_parent y x s }"

text \<open>One round of the loop of \<^verbatim>\<open>RBT_InsertFixup\<close>, for a red parent \<open>zp\<close>: the new \<open>z\<close> and the heap.\<close>

definition insert_fix_left :: "nat \<Rightarrow> nat \<Rightarrow> nat \<Rightarrow> rbt \<Rightarrow> (nat \<times> rbt) option" where
  "insert_fix_left z zp zpp s = do {
     y \<leftarrow> get_right zpp s;
     if y \<noteq> 0 \<and> Color s y = RBT_RED then do {
       s \<leftarrow> set_color zp RBT_BLACK s;
       s \<leftarrow> set_color y RBT_BLACK s;
       s \<leftarrow> set_color zpp RBT_RED s;
       Some (zpp, s) }
     else do {
       zpr \<leftarrow> get_right zp s;
       (z, s) \<leftarrow> (if z = zpr then do { s \<leftarrow> RBT_LeftRotate zp s; Some (zp, s) } else Some (z, s));
       p \<leftarrow> get_parent z s;
       s \<leftarrow> set_color p RBT_BLACK s;
       g \<leftarrow> get_parent p s;
       s \<leftarrow> set_color g RBT_RED s;
       s \<leftarrow> RBT_RightRotate g s;
       Some (z, s) } }"

definition insert_fix_right :: "nat \<Rightarrow> nat \<Rightarrow> nat \<Rightarrow> rbt \<Rightarrow> (nat \<times> rbt) option" where
  "insert_fix_right z zp zpp s = do {
     y \<leftarrow> get_left zpp s;
     if y \<noteq> 0 \<and> Color s y = RBT_RED then do {
       s \<leftarrow> set_color zp RBT_BLACK s;
       s \<leftarrow> set_color y RBT_BLACK s;
       s \<leftarrow> set_color zpp RBT_RED s;
       Some (zpp, s) }
     else do {
       zpl \<leftarrow> get_left zp s;
       (z, s) \<leftarrow> (if z = zpl then do { s \<leftarrow> RBT_RightRotate zp s; Some (zp, s) } else Some (z, s));
       p \<leftarrow> get_parent z s;
       s \<leftarrow> set_color p RBT_BLACK s;
       g \<leftarrow> get_parent p s;
       s \<leftarrow> set_color g RBT_RED s;
       s \<leftarrow> RBT_LeftRotate g s;
       Some (z, s) } }"

partial_function (option) insert_loop :: "nat \<Rightarrow> rbt \<Rightarrow> rbt option" where
  "insert_loop z s = do {
     zp \<leftarrow> get_parent z s;
     if zp = 0 \<or> Color s zp \<noteq> RBT_RED then Some s
     else do {
       zpp \<leftarrow> get_parent zp s;
       l \<leftarrow> get_left zpp s;
       (z, s) \<leftarrow> (if zp = l then insert_fix_left z zp zpp s else insert_fix_right z zp zpp s);
       insert_loop z s } }"

definition RBT_InsertFixup :: "nat \<Rightarrow> rbt \<Rightarrow> rbt option" where
  "RBT_InsertFixup z s = do {
     s \<leftarrow> insert_loop z s;
     set_color (Root s) RBT_BLACK s }"

definition RBT_Transplant :: "nat \<Rightarrow> nat \<Rightarrow> rbt \<Rightarrow> rbt option" where
  "RBT_Transplant u v s = do {
     s \<leftarrow> relink_left_first u v s;
     up \<leftarrow> get_parent u s;
     unless_null v (set_parent v up) s }"

text \<open>One round of the loop of \<^verbatim>\<open>RBT_EraseFixup\<close>: first a black sibling \<open>w\<close> is made, then the new \<open>x\<close>, the
  new \<open>xParent\<close> and the heap.\<close>

definition erase_sibling_left :: "nat \<Rightarrow> rbt \<Rightarrow> (nat \<times> rbt) option" where
  "erase_sibling_left xp s = do {
     w \<leftarrow> get_right xp s;
     wc \<leftarrow> get_color w s;
     if wc = RBT_RED then do {
       s \<leftarrow> set_color w RBT_BLACK s;
       s \<leftarrow> set_color xp RBT_RED s;
       s \<leftarrow> RBT_LeftRotate xp s;
       w \<leftarrow> get_right xp s;
       Some (w, s) }
     else Some (w, s) }"

definition erase_push_left :: "nat \<Rightarrow> nat \<Rightarrow> rbt \<Rightarrow> (nat \<times> nat \<times> rbt) option" where
  "erase_push_left xp w s = do {
     wl \<leftarrow> get_left w s;
     wr \<leftarrow> get_right w s;
     if is_black wl s \<and> is_black wr s then do {
       s \<leftarrow> set_color w RBT_RED s;
       xpp \<leftarrow> get_parent xp s;
       Some (xp, xpp, s) }
     else do {
       (w, s) \<leftarrow> (if is_black wr s then do {
           s \<leftarrow> unless_null wl (set_color wl RBT_BLACK) s;
           s \<leftarrow> set_color w RBT_RED s;
           s \<leftarrow> RBT_RightRotate w s;
           w \<leftarrow> get_right xp s;
           Some (w, s) } else Some (w, s));
       c \<leftarrow> get_color xp s;
       s \<leftarrow> set_color w c s;
       s \<leftarrow> set_color xp RBT_BLACK s;
       wr \<leftarrow> get_right w s;
       s \<leftarrow> unless_null wr (set_color wr RBT_BLACK) s;
       s \<leftarrow> RBT_LeftRotate xp s;
       Some (Root s, xp, s) } }"

definition erase_fix_left :: "nat \<Rightarrow> rbt \<Rightarrow> (nat \<times> nat \<times> rbt) option" where
  "erase_fix_left xp s = do {
     (w, s) \<leftarrow> erase_sibling_left xp s;
     erase_push_left xp w s }"

definition erase_sibling_right :: "nat \<Rightarrow> rbt \<Rightarrow> (nat \<times> rbt) option" where
  "erase_sibling_right xp s = do {
     w \<leftarrow> get_left xp s;
     wc \<leftarrow> get_color w s;
     if wc = RBT_RED then do {
       s \<leftarrow> set_color w RBT_BLACK s;
       s \<leftarrow> set_color xp RBT_RED s;
       s \<leftarrow> RBT_RightRotate xp s;
       w \<leftarrow> get_left xp s;
       Some (w, s) }
     else Some (w, s) }"

definition erase_push_right :: "nat \<Rightarrow> nat \<Rightarrow> rbt \<Rightarrow> (nat \<times> nat \<times> rbt) option" where
  "erase_push_right xp w s = do {
     wl \<leftarrow> get_right w s;
     wr \<leftarrow> get_left w s;
     if is_black wl s \<and> is_black wr s then do {
       s \<leftarrow> set_color w RBT_RED s;
       xpp \<leftarrow> get_parent xp s;
       Some (xp, xpp, s) }
     else do {
       (w, s) \<leftarrow> (if is_black wr s then do {
           s \<leftarrow> unless_null wl (set_color wl RBT_BLACK) s;
           s \<leftarrow> set_color w RBT_RED s;
           s \<leftarrow> RBT_LeftRotate w s;
           w \<leftarrow> get_left xp s;
           Some (w, s) } else Some (w, s));
       c \<leftarrow> get_color xp s;
       s \<leftarrow> set_color w c s;
       s \<leftarrow> set_color xp RBT_BLACK s;
       wr \<leftarrow> get_left w s;
       s \<leftarrow> unless_null wr (set_color wr RBT_BLACK) s;
       s \<leftarrow> RBT_RightRotate xp s;
       Some (Root s, xp, s) } }"

definition erase_fix_right :: "nat \<Rightarrow> rbt \<Rightarrow> (nat \<times> nat \<times> rbt) option" where
  "erase_fix_right xp s = do {
     (w, s) \<leftarrow> erase_sibling_right xp s;
     erase_push_right xp w s }"

partial_function (option) RBT_EraseFixup :: "nat \<Rightarrow> nat \<Rightarrow> rbt \<Rightarrow> rbt option" where
  "RBT_EraseFixup x xp s =
     (if x \<noteq> Root s \<and> is_black x s then do {
        l \<leftarrow> get_left xp s;
        (x, xp, s) \<leftarrow> (if x = l then erase_fix_left xp s else erase_fix_right xp s);
        RBT_EraseFixup x xp s }
      else unless_null x (set_color x RBT_BLACK) s)"

partial_function (option) leftmost :: "nat \<Rightarrow> rbt \<Rightarrow> nat option" where
  "leftmost y s = do {
     l \<leftarrow> get_left y s;
     if l \<noteq> 0 then leftmost l s else Some y }"

text \<open>The successor \<open>y\<close> of \<open>z\<close>, not its child, is taken out of its place and gets \<open>z\<close>'s right child.\<close>

definition erase_detach :: "nat \<Rightarrow> nat \<Rightarrow> nat \<Rightarrow> rbt \<Rightarrow> rbt option" where
  "erase_detach z y x s = do {
     s \<leftarrow> RBT_Transplant y x s;
     r \<leftarrow> get_right z s;
     s \<leftarrow> set_right y r s;
     set_parent r y s }"

text \<open>\<open>y\<close> takes the place of \<open>z\<close>, its left child and its colour.\<close>

definition erase_replace :: "nat \<Rightarrow> nat \<Rightarrow> rbt \<Rightarrow> rbt option" where
  "erase_replace z y s = do {
     s \<leftarrow> RBT_Transplant z y s;
     l \<leftarrow> get_left z s;
     s \<leftarrow> set_left y l s;
     s \<leftarrow> set_parent l y s;
     c \<leftarrow> get_color z s;
     set_color y c s }"

text \<open>The part of \<^verbatim>\<open>RBT_Erase\<close> that unlinks \<open>z\<close>: the colour lost, \<open>x\<close>, \<open>xParent\<close> and the heap.\<close>

definition erase_unlink :: "nat \<Rightarrow> rbt \<Rightarrow> (RBTColor \<times> nat \<times> nat \<times> rbt) option" where
  "erase_unlink z s = do {
     zc \<leftarrow> get_color z s;
     zl \<leftarrow> get_left z s;
     zr \<leftarrow> get_right z s;
     zp \<leftarrow> get_parent z s;
     if zl = 0 then do { s \<leftarrow> RBT_Transplant z zr s; Some (zc, zr, zp, s) }
     else if zr = 0 then do { s \<leftarrow> RBT_Transplant z zl s; Some (zc, zl, zp, s) }
     else do {
       y \<leftarrow> leftmost zr s;
       yc \<leftarrow> get_color y s;
       x \<leftarrow> get_right y s;
       yp \<leftarrow> get_parent y s;
       (xp, s) \<leftarrow> (if yp = z then Some (y, s) else do { s \<leftarrow> erase_detach z y x s; Some (yp, s) });
       s \<leftarrow> erase_replace z y s;
       Some (yc, x, xp, s) } }"

definition RBT_Erase :: "nat \<Rightarrow> rbt \<Rightarrow> rbt option" where
  "RBT_Erase z s = do {
     (c, x, xp, s) \<leftarrow> erase_unlink z s;
     s \<leftarrow> (if c = RBT_BLACK then RBT_EraseFixup x xp s else Some s);
     s \<leftarrow> set_left z 0 s;
     s \<leftarrow> set_right z 0 s;
     set_parent z 0 s }"

section \<open>Trees in the heap\<close>

datatype tr = Lf | Nd RBTColor tr nat tr

fun ptr :: "tr \<Rightarrow> nat" where
  "ptr Lf = 0"
| "ptr (Nd c l a r) = a"

fun inorder :: "tr \<Rightarrow> nat list" where
  "inorder Lf = []"
| "inorder (Nd c l a r) = inorder l @ a # inorder r"

text \<open>\<open>rep L R P C q t\<close>: the fields hold the tree \<open>t\<close> below the parent \<open>q\<close>.\<close>

fun rep :: "(nat \<Rightarrow> nat) \<Rightarrow> (nat \<Rightarrow> nat) \<Rightarrow> (nat \<Rightarrow> nat) \<Rightarrow> (nat \<Rightarrow> RBTColor) \<Rightarrow> nat \<Rightarrow> tr \<Rightarrow> bool" where
  "rep L R P C q Lf = True"
| "rep L R P C q (Nd c l a r) \<longleftrightarrow> a \<noteq> 0 \<and> P a = q \<and> C a = c \<and> L a = ptr l \<and> R a = ptr r
     \<and> rep L R P C a l \<and> rep L R P C a r"

text \<open>The way from a subtree up to the root: the subtree is the left child (\<open>FL\<close>) or the right child
  (\<open>FR\<close>) of a node with the other child given.\<close>

datatype frame = FL RBTColor nat tr | FR RBTColor tr nat

fun par :: "frame list \<Rightarrow> nat" where
  "par [] = 0"
| "par (FL c a r # k) = a"
| "par (FR c l a # k) = a"

fun rep_ctx :: "nat \<Rightarrow> (nat \<Rightarrow> nat) \<Rightarrow> (nat \<Rightarrow> nat) \<Rightarrow> (nat \<Rightarrow> nat) \<Rightarrow> (nat \<Rightarrow> RBTColor) \<Rightarrow> frame list \<Rightarrow> nat \<Rightarrow> bool" where
  "rep_ctx rt L R P C [] p \<longleftrightarrow> rt = p"
| "rep_ctx rt L R P C (FL c a r # k) p \<longleftrightarrow> a \<noteq> 0 \<and> P a = par k \<and> C a = c \<and> L a = p \<and> R a = ptr r
     \<and> rep L R P C a r \<and> rep_ctx rt L R P C k a"
| "rep_ctx rt L R P C (FR c l a # k) p \<longleftrightarrow> a \<noteq> 0 \<and> P a = par k \<and> C a = c \<and> L a = ptr l \<and> R a = p
     \<and> rep L R P C a l \<and> rep_ctx rt L R P C k a"

fun ctx_nodes :: "frame list \<Rightarrow> nat list" where
  "ctx_nodes [] = []"
| "ctx_nodes (FL c a r # k) = a # inorder r @ ctx_nodes k"
| "ctx_nodes (FR c l a # k) = a # inorder l @ ctx_nodes k"

fun plug :: "frame list \<Rightarrow> tr \<Rightarrow> tr" where
  "plug [] t = t"
| "plug (FL c a r # k) t = plug k (Nd c t a r)"
| "plug (FR c l a # k) t = plug k (Nd c l a t)"

text \<open>The heap holds the tree \<open>plug k t\<close> from its root on.\<close>

definition holds :: "rbt \<Rightarrow> frame list \<Rightarrow> tr \<Rightarrow> bool" where
  "holds s k t \<longleftrightarrow>
     rep (RbtLeft s) (RbtRight s) (RbtParent s) (Color s) (par k) t
     \<and> rep_ctx (Root s) (RbtLeft s) (RbtRight s) (RbtParent s) (Color s) k (ptr t) \<and> distinct (ctx_nodes k @ inorder t)"

lemma holds_left: "holds s (FL c a r # k) l \<longleftrightarrow> holds s k (Nd c l a r)"
  by (auto simp: holds_def)

lemma holds_right: "holds s (FR c l a # k) r \<longleftrightarrow> holds s k (Nd c l a r)"
  by (auto simp: holds_def)

lemma holds_plug: "holds s k t \<longleftrightarrow> holds s [] (plug k t)"
  by (induction k t rule: plug.induct) (simp_all add: holds_left holds_right)

lemma holds_node:
  assumes "holds s k (Nd c l a r)"
  shows "a \<noteq> 0" "RbtParent s a = par k" "Color s a = c" "RbtLeft s a = ptr l" "RbtRight s a = ptr r"
  using assms by (auto simp: holds_def)

lemma ptr_0: "rep L R P C q t \<Longrightarrow> ptr t = 0 \<longleftrightarrow> t = Lf"
  by (cases t) auto

lemma ptr_in: "t \<noteq> Lf \<Longrightarrow> ptr t \<in> set (inorder t)"
  by (cases t) auto

lemma ptr_notin: "a \<noteq> 0 \<Longrightarrow> a \<notin> set (inorder t) \<Longrightarrow> ptr t \<noteq> a"
  by (cases t) auto

lemma holds_ptr_0: "holds s k t \<Longrightarrow> ptr t = 0 \<longleftrightarrow> t = Lf"
  by (auto simp: holds_def ptr_0)

text \<open>What does not touch the nodes of a tree or a context leaves it alone.\<close>

lemma rep_frame [simp]:
  "a \<notin> set (inorder t) \<Longrightarrow> rep (L(a := v)) R P C q t = rep L R P C q t"
  "a \<notin> set (inorder t) \<Longrightarrow> rep L (R(a := v)) P C q t = rep L R P C q t"
  "a \<notin> set (inorder t) \<Longrightarrow> rep L R (P(a := v)) C q t = rep L R P C q t"
  "a \<notin> set (inorder t) \<Longrightarrow> rep L R P (C(a := w)) q t = rep L R P C q t"
  by (induction t arbitrary: q) auto

lemma rep_ctx_frame [simp]:
  "a \<notin> set (ctx_nodes k) \<Longrightarrow> rep_ctx rt (L(a := v)) R P C k p = rep_ctx rt L R P C k p"
  "a \<notin> set (ctx_nodes k) \<Longrightarrow> rep_ctx rt L (R(a := v)) P C k p = rep_ctx rt L R P C k p"
  "a \<notin> set (ctx_nodes k) \<Longrightarrow> rep_ctx rt L R (P(a := v)) C k p = rep_ctx rt L R P C k p"
  "a \<notin> set (ctx_nodes k) \<Longrightarrow> rep_ctx rt L R P (C(a := w)) k p = rep_ctx rt L R P C k p"
  by (induction rt L R P C k p rule: rep_ctx.induct) auto

lemma rep_reparent:
  "rep L R P C q t \<Longrightarrow> distinct (inorder t) \<Longrightarrow> rep L R (if t = Lf then P else P(ptr t := v)) C v t"
  by (cases t) auto

text \<open>Redirecting the pointer to the focus.\<close>

fun relinked :: "frame list \<Rightarrow> nat \<Rightarrow> rbt \<Rightarrow> rbt" where
  "relinked [] v s = s\<lparr> Root := v \<rparr>"
| "relinked (FL c a r # k) v s = s\<lparr> RbtLeft := (RbtLeft s)(a := v) \<rparr>"
| "relinked (FR c l a # k) v s = s\<lparr> RbtRight := (RbtRight s)(a := v) \<rparr>"

lemma relink_eq:
  assumes "rep_ctx (Root s) (RbtLeft s) (RbtRight s) P C k u" and "u \<noteq> 0" and "RbtParent s u = par k" and "u \<notin> set (ctx_nodes k)"
  shows "relink_left_first u v s = Some (relinked k v s)" "relink_right_first u v s = Some (relinked k v s)"
  using assms ptr_notin [OF assms(2)]
  by (cases k rule: par.cases; force simp: relink_left_first_def relink_right_first_def field_defs)+

section \<open>Rotations\<close>

lemma holds_LeftRotate:
  assumes "holds s k (Nd c A x (Nd d B y D))"
  shows "\<exists>s'. RBT_LeftRotate x s = Some s' \<and> holds s' k (Nd d (Nd c A x B) y D)"
proof -
  have h: "distinct (ctx_nodes k @ inorder (Nd c A x (Nd d B y D)))" using assms by (simp add: holds_def)
  have B: "ptr B = 0 \<longleftrightarrow> B = Lf" using assms by (auto simp: holds_def ptr_0)
  have Bin: "B \<noteq> Lf \<Longrightarrow> ptr B \<in> set (inorder B)" by (rule ptr_in)
  define P2 where "P2 = (if B = Lf then RbtParent s else (RbtParent s)(ptr B := x))(y := par k)"
  define s3 where "s3 = s\<lparr> RbtRight := (RbtRight s)(x := ptr B), RbtParent := P2 \<rparr>"
  define s4 where "s4 = relinked k y s3"
  define s6 where "s6 = s4\<lparr> RbtLeft := (RbtLeft s4)(y := x), RbtParent := (RbtParent s4)(x := y) \<rparr>"
  have ctx: "rep_ctx (Root s3) (RbtLeft s3) (RbtRight s3) (RbtParent s) (Color s) k x"
    using assms h by (auto simp: holds_def s3_def)
  have xp: "RbtParent s3 x = par k" using assms h Bin by (auto simp: holds_def s3_def P2_def)
  have "RBT_LeftRotate x s = Some s6"
    using assms h B xp relink_eq(1) [OF ctx _ xp, of y]
    by (cases "B = Lf") (auto simp: RBT_LeftRotate_def field_defs unless_null_def holds_def s6_def s4_def s3_def P2_def)
  moreover have "holds s6 k (Nd d (Nd c A x B) y D)"
    using assms h B Bin unfolding holds_def s6_def s4_def s3_def P2_def
    by (cases k rule: par.cases; cases B) auto
  ultimately show ?thesis by blast
qed

lemma holds_RightRotate:
  assumes "holds s k (Nd c (Nd d A x B) y D)"
  shows "\<exists>s'. RBT_RightRotate y s = Some s' \<and> holds s' k (Nd d A x (Nd c B y D))"
proof -
  have h: "distinct (ctx_nodes k @ inorder (Nd c (Nd d A x B) y D))" using assms by (simp add: holds_def)
  have B: "ptr B = 0 \<longleftrightarrow> B = Lf" using assms by (auto simp: holds_def ptr_0)
  have Bin: "B \<noteq> Lf \<Longrightarrow> ptr B \<in> set (inorder B)" by (rule ptr_in)
  define P2 where "P2 = (if B = Lf then RbtParent s else (RbtParent s)(ptr B := y))(x := par k)"
  define s3 where "s3 = s\<lparr> RbtLeft := (RbtLeft s)(y := ptr B), RbtParent := P2 \<rparr>"
  define s4 where "s4 = relinked k x s3"
  define s6 where "s6 = s4\<lparr> RbtRight := (RbtRight s4)(x := y), RbtParent := (RbtParent s4)(y := x) \<rparr>"
  have ctx: "rep_ctx (Root s3) (RbtLeft s3) (RbtRight s3) (RbtParent s) (Color s) k y"
    using assms h by (auto simp: holds_def s3_def)
  have yp: "RbtParent s3 y = par k" using assms h Bin by (auto simp: holds_def s3_def P2_def)
  have "RBT_RightRotate y s = Some s6"
    using assms h B yp relink_eq(2) [OF ctx _ yp, of x]
    by (cases "B = Lf") (auto simp: RBT_RightRotate_def field_defs unless_null_def holds_def s6_def s4_def s3_def P2_def)
  moreover have "holds s6 k (Nd d A x (Nd c B y D))"
    using assms h B Bin unfolding holds_def s6_def s4_def s3_def P2_def
    by (cases k rule: par.cases; cases B) auto
  ultimately show ?thesis by blast
qed

lemma holds_color:
  assumes "holds s k (Nd c l a r)"
  shows "\<exists>s'. set_color a c' s = Some s' \<and> holds s' k (Nd c' l a r)"
proof -
  have "set_color a c' s = Some (s\<lparr> Color := (Color s)(a := c') \<rparr>)" using assms by (simp add: set_color_def holds_def)
  moreover have "holds (s\<lparr> Color := (Color s)(a := c') \<rparr>) k (Nd c' l a r)" using assms by (auto simp: holds_def)
  ultimately show ?thesis by blast
qed

lemma holds_get:
  assumes "holds s k (Nd c l a r)"
  shows "get_left a s = Some (ptr l)" "get_right a s = Some (ptr r)" "get_parent a s = Some (par k)" "get_color a s = Some c"
  using holds_node [OF assms] by (simp_all add: field_defs)

fun tcol :: "tr \<Rightarrow> RBTColor" where
  "tcol Lf = RBT_BLACK"
| "tcol (Nd c l a r) = c"

lemma holds_is_black: "holds s k t \<Longrightarrow> is_black (ptr t) s \<longleftrightarrow> tcol t = RBT_BLACK"
  by (cases t) (auto simp: is_black_def holds_def)

text \<open>Moving the focus to a child.\<close>

lemmas down_left = holds_left [THEN iffD2]
lemmas down_right = holds_right [THEN iffD2]

section \<open>Insertion\<close>

lemma insert_fix_left_red:
  assumes "holds s k (Nd c (Nd d A zp B) zpp (Nd RBT_RED U1 u U2))"
  shows "\<exists>s'. insert_fix_left z zp zpp s = Some (zpp, s') \<and> holds s' k (Nd RBT_RED (Nd RBT_BLACK A zp B) zpp (Nd RBT_BLACK U1 u U2))"
proof -
  obtain s1 where s1: "set_color zp RBT_BLACK s = Some s1" "holds s1 k (Nd c (Nd RBT_BLACK A zp B) zpp (Nd RBT_RED U1 u U2))"
    using holds_color [of s "FL c zpp (Nd RBT_RED U1 u U2) # k" d A zp B RBT_BLACK] assms by (auto simp: holds_left)
  obtain s2 where s2: "set_color u RBT_BLACK s1 = Some s2" "holds s2 k (Nd c (Nd RBT_BLACK A zp B) zpp (Nd RBT_BLACK U1 u U2))"
    using holds_color [of s1 "FR c (Nd RBT_BLACK A zp B) zpp # k" RBT_RED U1 u U2 RBT_BLACK] s1 by (auto simp: holds_right)
  obtain s3 where s3: "set_color zpp RBT_RED s2 = Some s3" "holds s3 k (Nd RBT_RED (Nd RBT_BLACK A zp B) zpp (Nd RBT_BLACK U1 u U2))"
    using holds_color [OF s2(2)] by blast
  have "Color s u = RBT_RED" "u \<noteq> 0"
    using holds_node(1,3) [of s "FR c (Nd d A zp B) zpp # k" RBT_RED U1 u U2] assms by (auto simp: holds_right)
  with s1 s2 s3 holds_get [OF assms] show ?thesis by (auto simp: insert_fix_left_def)
qed

lemma insert_fix_left_out:
  assumes "holds s k (Nd c (Nd d (Nd e A z B) zp D) zpp U)" and "tcol U = RBT_BLACK"
  shows "\<exists>s'. insert_fix_left z zp zpp s = Some (z, s') \<and> holds s' k (Nd RBT_BLACK (Nd e A z B) zp (Nd RBT_RED D zpp U))"
proof -
  note h1 = assms(1) [THEN down_left]
  note h2 = h1 [THEN down_left]
  obtain s1 where s1: "set_color zp RBT_BLACK s = Some s1" "holds s1 k (Nd c (Nd RBT_BLACK (Nd e A z B) zp D) zpp U)"
    using holds_color [OF h1, of RBT_BLACK] by (auto simp: holds_left)
  obtain s2 where s2: "set_color zpp RBT_RED s1 = Some s2" "holds s2 k (Nd RBT_RED (Nd RBT_BLACK (Nd e A z B) zp D) zpp U)"
    using holds_color [OF s1(2)] by blast
  obtain s3 where s3: "RBT_RightRotate zpp s2 = Some s3" "holds s3 k (Nd RBT_BLACK (Nd e A z B) zp (Nd RBT_RED D zpp U))"
    using holds_RightRotate [OF s2(2)] by blast
  have "\<not> (ptr U \<noteq> 0 \<and> Color s (ptr U) = RBT_RED)"
    using holds_is_black [of s "FR c (Nd d (Nd e A z B) zp D) zpp # k" U] assms by (auto simp: holds_right is_black_def)
  moreover have "z \<noteq> ptr D" using h2 by (cases D) (auto simp: holds_def)
  moreover have "get_parent zp s1 = Some zpp" using holds_get(3) [of s1 "FL c zpp U # k"] s1(2) by (simp add: holds_left)
  ultimately show ?thesis
    using s1 s2 s3 holds_get [OF assms(1)] holds_get [OF h1] holds_get [OF h2] by (auto simp: insert_fix_left_def)
qed

lemma insert_fix_left_in:
  assumes "holds s k (Nd c (Nd d A zp (Nd e B z D)) zpp U)" and "tcol U = RBT_BLACK"
  shows "\<exists>s'. insert_fix_left z zp zpp s = Some (zp, s') \<and> holds s' k (Nd RBT_BLACK (Nd d A zp B) z (Nd RBT_RED D zpp U))"
proof -
  note h1 = assms(1) [THEN down_left]
  obtain s0 where s0: "RBT_LeftRotate zp s = Some s0" "holds s0 k (Nd c (Nd e (Nd d A zp B) z D) zpp U)"
    using holds_LeftRotate [OF h1] by (auto simp: holds_left)
  note g1 = s0(2) [THEN down_left]
  note g2 = g1 [THEN down_left]
  obtain s1 where s1: "set_color z RBT_BLACK s0 = Some s1" "holds s1 k (Nd c (Nd RBT_BLACK (Nd d A zp B) z D) zpp U)"
    using holds_color [OF g1, of RBT_BLACK] by (auto simp: holds_left)
  obtain s2 where s2: "set_color zpp RBT_RED s1 = Some s2" "holds s2 k (Nd RBT_RED (Nd RBT_BLACK (Nd d A zp B) z D) zpp U)"
    using holds_color [OF s1(2)] by blast
  obtain s3 where s3: "RBT_RightRotate zpp s2 = Some s3" "holds s3 k (Nd RBT_BLACK (Nd d A zp B) z (Nd RBT_RED D zpp U))"
    using holds_RightRotate [OF s2(2)] by blast
  have "\<not> (ptr U \<noteq> 0 \<and> Color s (ptr U) = RBT_RED)"
    using holds_is_black [of s "FR c (Nd d A zp (Nd e B z D)) zpp # k" U] assms by (auto simp: holds_right is_black_def)
  moreover have "get_parent z s1 = Some zpp" using holds_get(3) [of s1 "FL c zpp U # k"] s1(2) by (simp add: holds_left)
  ultimately show ?thesis
    using s0 s1 s2 s3 holds_get [OF assms(1)] holds_get [OF h1] holds_get [OF g2] by (auto simp: insert_fix_left_def)
qed

lemma insert_fix_right_red:
  assumes "holds s k (Nd c (Nd RBT_RED U2 u U1) zpp (Nd d B zp A))"
  shows "\<exists>s'. insert_fix_right z zp zpp s = Some (zpp, s') \<and> holds s' k (Nd RBT_RED (Nd RBT_BLACK U2 u U1) zpp (Nd RBT_BLACK B zp A))"
proof -
  obtain s1 where s1: "set_color zp RBT_BLACK s = Some s1" "holds s1 k (Nd c (Nd RBT_RED U2 u U1) zpp (Nd RBT_BLACK B zp A))"
    using holds_color [of s "FR c (Nd RBT_RED U2 u U1) zpp # k" d B zp A RBT_BLACK] assms by (auto simp: holds_right)
  obtain s2 where s2: "set_color u RBT_BLACK s1 = Some s2" "holds s2 k (Nd c (Nd RBT_BLACK U2 u U1) zpp (Nd RBT_BLACK B zp A))"
    using holds_color [of s1 "FL c zpp (Nd RBT_BLACK B zp A) # k" RBT_RED U2 u U1 RBT_BLACK] s1 by (auto simp: holds_left)
  obtain s3 where s3: "set_color zpp RBT_RED s2 = Some s3" "holds s3 k (Nd RBT_RED (Nd RBT_BLACK U2 u U1) zpp (Nd RBT_BLACK B zp A))"
    using holds_color [OF s2(2)] by blast
  have "Color s u = RBT_RED" "u \<noteq> 0"
    using holds_node(1,3) [of s "FL c zpp (Nd d B zp A) # k" RBT_RED U2 u U1] assms by (auto simp: holds_left)
  with s1 s2 s3 holds_get [OF assms] show ?thesis by (auto simp: insert_fix_right_def)
qed

lemma insert_fix_right_out:
  assumes "holds s k (Nd c U zpp (Nd d D zp (Nd e B z A)))" and "tcol U = RBT_BLACK"
  shows "\<exists>s'. insert_fix_right z zp zpp s = Some (z, s') \<and> holds s' k (Nd RBT_BLACK (Nd RBT_RED U zpp D) zp (Nd e B z A))"
proof -
  note h1 = assms(1) [THEN down_right]
  note h2 = h1 [THEN down_right]
  obtain s1 where s1: "set_color zp RBT_BLACK s = Some s1" "holds s1 k (Nd c U zpp (Nd RBT_BLACK D zp (Nd e B z A)))"
    using holds_color [OF h1, of RBT_BLACK] by (auto simp: holds_right)
  obtain s2 where s2: "set_color zpp RBT_RED s1 = Some s2" "holds s2 k (Nd RBT_RED U zpp (Nd RBT_BLACK D zp (Nd e B z A)))"
    using holds_color [OF s1(2)] by blast
  obtain s3 where s3: "RBT_LeftRotate zpp s2 = Some s3" "holds s3 k (Nd RBT_BLACK (Nd RBT_RED U zpp D) zp (Nd e B z A))"
    using holds_LeftRotate [OF s2(2)] by blast
  have "\<not> (ptr U \<noteq> 0 \<and> Color s (ptr U) = RBT_RED)"
    using holds_is_black [of s "FL c zpp (Nd d D zp (Nd e B z A)) # k" U] assms by (auto simp: holds_left is_black_def)
  moreover have "z \<noteq> ptr D" using h2 by (cases D) (auto simp: holds_def)
  moreover have "get_parent zp s1 = Some zpp" using holds_get(3) [of s1 "FR c U zpp # k"] s1(2) by (simp add: holds_right)
  ultimately show ?thesis
    using s1 s2 s3 holds_get [OF assms(1)] holds_get [OF h1] holds_get [OF h2] by (auto simp: insert_fix_right_def)
qed

lemma insert_fix_right_in:
  assumes "holds s k (Nd c U zpp (Nd d (Nd e D z B) zp A))" and "tcol U = RBT_BLACK"
  shows "\<exists>s'. insert_fix_right z zp zpp s = Some (zp, s') \<and> holds s' k (Nd RBT_BLACK (Nd RBT_RED U zpp D) z (Nd d B zp A))"
proof -
  note h1 = assms(1) [THEN down_right]
  obtain s0 where s0: "RBT_RightRotate zp s = Some s0" "holds s0 k (Nd c U zpp (Nd e D z (Nd d B zp A)))"
    using holds_RightRotate [OF h1] by (auto simp: holds_right)
  note g1 = s0(2) [THEN down_right]
  note g2 = g1 [THEN down_right]
  obtain s1 where s1: "set_color z RBT_BLACK s0 = Some s1" "holds s1 k (Nd c U zpp (Nd RBT_BLACK D z (Nd d B zp A)))"
    using holds_color [OF g1, of RBT_BLACK] by (auto simp: holds_right)
  obtain s2 where s2: "set_color zpp RBT_RED s1 = Some s2" "holds s2 k (Nd RBT_RED U zpp (Nd RBT_BLACK D z (Nd d B zp A)))"
    using holds_color [OF s1(2)] by blast
  obtain s3 where s3: "RBT_LeftRotate zpp s2 = Some s3" "holds s3 k (Nd RBT_BLACK (Nd RBT_RED U zpp D) z (Nd d B zp A))"
    using holds_LeftRotate [OF s2(2)] by blast
  have "\<not> (ptr U \<noteq> 0 \<and> Color s (ptr U) = RBT_RED)"
    using holds_is_black [of s "FL c zpp (Nd d (Nd e D z B) zp A) # k" U] assms by (auto simp: holds_left is_black_def)
  moreover have "get_parent z s1 = Some zpp" using holds_get(3) [of s1 "FR c U zpp # k"] s1(2) by (simp add: holds_right)
  ultimately show ?thesis
    using s0 s1 s2 s3 holds_get [OF assms(1)] holds_get [OF h1] holds_get [OF g2] by (auto simp: insert_fix_right_def)
qed

end
