(* ===== verification/Rb_Insert.thy ===== *)
theory Rb_Insert
  imports Rb_Tree
begin

text \<open>
  The red-black invariant on the trees the heap holds, and the correctness of \<^verbatim>\<open>RBT_InsertFixup\<close>: it ends,
  dereferences no null pointer, keeps the order of the nodes and restores the invariant.
\<close>

section \<open>Invariant\<close>

fun bh :: "tr \<Rightarrow> nat" where
  "bh Lf = 0"
| "bh (Nd c l a r) = bh l + (if c = RBT_BLACK then 1 else 0)"

fun rb :: "tr \<Rightarrow> bool" where
  "rb Lf = True"
| "rb (Nd c l a r) \<longleftrightarrow> rb l \<and> rb r \<and> bh l = bh r \<and> (c = RBT_RED \<longrightarrow> tcol l = RBT_BLACK \<and> tcol r = RBT_BLACK)"

fun kcol :: "frame list \<Rightarrow> RBTColor" where
  "kcol [] = RBT_BLACK"
| "kcol (FL c a r # k) = c"
| "kcol (FR c l a # k) = c"

text \<open>A context that completes a subtree of black height \<open>n\<close> to a red-black tree with a black root.\<close>

fun ctx_rb :: "frame list \<Rightarrow> nat \<Rightarrow> bool" where
  "ctx_rb [] n = True"
| "ctx_rb (FL c a r # k) n \<longleftrightarrow> rb r \<and> bh r = n \<and> (c = RBT_RED \<longrightarrow> tcol r = RBT_BLACK \<and> kcol k = RBT_BLACK \<and> k \<noteq> [])
     \<and> ctx_rb k (n + (if c = RBT_BLACK then 1 else 0))"
| "ctx_rb (FR c l a # k) n \<longleftrightarrow> rb l \<and> bh l = n \<and> (c = RBT_RED \<longrightarrow> tcol l = RBT_BLACK \<and> kcol k = RBT_BLACK \<and> k \<noteq> [])
     \<and> ctx_rb k (n + (if c = RBT_BLACK then 1 else 0))"

fun ctx_pre :: "frame list \<Rightarrow> nat list" where
  "ctx_pre [] = []"
| "ctx_pre (FL c a r # k) = ctx_pre k"
| "ctx_pre (FR c l a # k) = ctx_pre k @ inorder l @ [a]"

fun ctx_post :: "frame list \<Rightarrow> nat list" where
  "ctx_post [] = []"
| "ctx_post (FL c a r # k) = a # inorder r @ ctx_post k"
| "ctx_post (FR c l a # k) = ctx_post k"

lemma inorder_plug: "inorder (plug k t) = ctx_pre k @ inorder t @ ctx_post k"
  by (induction k t rule: plug.induct) simp_all

lemma not_red [simp]: "c \<noteq> RBT_RED \<longleftrightarrow> c = RBT_BLACK"
  by (cases c) simp_all

lemma rb_plug:
  "ctx_rb k (bh t) \<Longrightarrow> rb t \<Longrightarrow> tcol t = RBT_RED \<longrightarrow> kcol k = RBT_BLACK \<Longrightarrow> rb (plug k t)"
proof (induction k t rule: plug.induct)
  case (2 c a r k t)
  have "rb (plug k (Nd c t a r))" using "2.prems" by (intro "2.IH") (cases c; simp)+
  then show ?case by simp
next
  case (3 c l a k t)
  have "rb (plug k (Nd c l a t))" using "3.prems" by (intro "3.IH") (cases c; simp)+
  then show ?case by simp
qed simp

lemma rb_plug_root: "ctx_rb k n \<Longrightarrow> k \<noteq> [] \<Longrightarrow> tcol (plug k t) = RBT_BLACK"
proof (induction k arbitrary: n t)
  case (Cons f k)
  then show ?case by (cases f; cases "k = []") force+
qed simp

lemma rb_unplug:
  "rb (plug k t) \<Longrightarrow> tcol (plug k t) = RBT_BLACK \<Longrightarrow>
     rb t \<and> ctx_rb k (bh t) \<and> (tcol t = RBT_RED \<longrightarrow> kcol k = RBT_BLACK \<and> k \<noteq> [])"
  by (induction k t rule: plug.induct) force+

lemma holds_root: "holds s k t \<Longrightarrow> Root s = ptr (plug k t)"
  using holds_plug [of s k t] by (simp add: holds_def)

section \<open>The loop\<close>

text \<open>A state in which the parent of \<open>z\<close> is black is final.\<close>

lemma insert_loop_stop:
  assumes "holds s k (Nd c l z r)" and "kcol k = RBT_BLACK"
  shows "insert_loop z s = Some s"
proof -
  have p: "get_parent z s = Some (par k)" by (rule holds_get(3) [OF assms(1)])
  have "par k = 0 \<or> Color s (par k) \<noteq> RBT_RED"
    using assms by (cases k rule: par.cases) (auto simp: holds_def)
  then show ?thesis by (subst insert_loop.simps) (auto simp: p)
qed

lemma insert_loop_left:
  assumes "holds s k (Nd c P zpp U)" and "P = Nd RBT_RED A zp B" and "z = ptr A \<or> z = ptr B" and "z \<noteq> 0"
    and fix_eq: "insert_fix_left z zp zpp s = Some (z', s')"
  shows "insert_loop z s = insert_loop z' s'"
proof -
  note h = down_left [OF assms(1) [unfolded assms(2)]]
  have "get_parent z s = Some zp"
    using assms(3,4) h
    by (cases A; cases B) (auto simp: holds_def field_defs)
  moreover have "Color s zp = RBT_RED" "zp \<noteq> 0" using holds_node [OF h] by auto
  moreover have "get_parent zp s = Some zpp" using holds_get(3) [OF h] by simp
  moreover have "get_left zpp s = Some zp" using holds_get(1) [OF assms(1)] assms(2) by simp
  ultimately show ?thesis by (subst insert_loop.simps) (simp add: fix_eq)
qed

lemma insert_loop_right:
  assumes "holds s k (Nd c U zpp P)" and "P = Nd RBT_RED B zp A" and "z = ptr A \<or> z = ptr B" and "z \<noteq> 0"
    and fix_eq: "insert_fix_right z zp zpp s = Some (z', s')"
  shows "insert_loop z s = insert_loop z' s'"
proof -
  note h = down_right [OF assms(1) [unfolded assms(2)]]
  have "get_parent z s = Some zp"
    using assms(3,4) h
    by (cases A; cases B) (auto simp: holds_def field_defs)
  moreover have "Color s zp = RBT_RED" "zp \<noteq> 0" using holds_node [OF h] by auto
  moreover have "get_parent zp s = Some zpp" using holds_get(3) [OF h] by simp
  moreover have "get_left zpp s = Some (ptr U)" using holds_get(1) [OF assms(1)] by simp
  moreover have "zp \<noteq> ptr U" using h by (cases U) (auto simp: holds_def)
  ultimately show ?thesis by (subst insert_loop.simps) (simp add: fix_eq)
qed

text \<open>One round: either the violation moves up to the grandparent, or the loop is over.\<close>

definition insert_done :: "nat \<Rightarrow> rbt \<Rightarrow> frame list \<Rightarrow> tr \<Rightarrow> bool" where
  "insert_done z s k t \<longleftrightarrow> (\<exists>s' t'. holds s' k t' \<and> inorder t' = inorder t \<and> rb t' \<and> bh t' = bh t
     \<and> (tcol t' = RBT_BLACK \<and> insert_loop z s = Some s'
        \<or> (\<exists>l g r. t' = Nd RBT_RED l g r \<and> insert_loop z s = insert_loop g s')))"

lemma insert_round_left_red:
  assumes h: "holds s k (Nd RBT_BLACK (Nd RBT_RED A zp B) zpp (Nd RBT_RED U1 u U2))"
    and z: "z = ptr A \<or> z = ptr B" "z \<noteq> 0"
    and inv: "rb A" "rb B" "rb (Nd RBT_RED U1 u U2)" "bh A = bh U1" "bh B = bh U1"
  shows "insert_done z s k (Nd RBT_BLACK (Nd RBT_RED A zp B) zpp (Nd RBT_RED U1 u U2))"
proof -
  obtain s' where s': "insert_fix_left z zp zpp s = Some (zpp, s')"
      "holds s' k (Nd RBT_RED (Nd RBT_BLACK A zp B) zpp (Nd RBT_BLACK U1 u U2))"
    using insert_fix_left_red [OF h] by blast
  have "insert_loop z s = insert_loop zpp s'" by (rule insert_loop_left [OF h refl z s'(1)])
  then show ?thesis using s'(2) inv unfolding insert_done_def by fastforce
qed

lemma insert_round_left_out:
  assumes h: "holds s k (Nd RBT_BLACK (Nd RBT_RED (Nd RBT_RED A z B) zp D) zpp U)" and U: "tcol U = RBT_BLACK"
    and inv: "rb (Nd RBT_RED A z B)" "rb D" "rb U" "bh D = bh A" "bh U = bh A" "tcol D = RBT_BLACK"
  shows "insert_done z s k (Nd RBT_BLACK (Nd RBT_RED (Nd RBT_RED A z B) zp D) zpp U)"
proof -
  obtain s' where s': "insert_fix_left z zp zpp s = Some (z, s')"
      "holds s' k (Nd RBT_BLACK (Nd RBT_RED A z B) zp (Nd RBT_RED D zpp U))"
    using insert_fix_left_out [OF h U] by blast
  have z: "z \<noteq> 0" using holds_node(1) [OF h [THEN down_left, THEN down_left]] .
  have "insert_loop z s = insert_loop z s'" by (rule insert_loop_left [OF h refl _ z s'(1)]) simp
  moreover have "insert_loop z s' = Some s'" by (rule insert_loop_stop [OF s'(2) [THEN down_left]]) simp
  ultimately show ?thesis using s'(2) inv U unfolding insert_done_def
    by (intro exI [of _ s'] exI [of _ "Nd RBT_BLACK (Nd RBT_RED A z B) zp (Nd RBT_RED D zpp U)"]) simp
qed

lemma insert_round_left_in:
  assumes h: "holds s k (Nd RBT_BLACK (Nd RBT_RED A zp (Nd RBT_RED B z D)) zpp U)" and U: "tcol U = RBT_BLACK"
    and inv: "rb (Nd RBT_RED B z D)" "rb A" "rb U" "bh A = bh B" "bh U = bh B" "tcol A = RBT_BLACK"
  shows "insert_done z s k (Nd RBT_BLACK (Nd RBT_RED A zp (Nd RBT_RED B z D)) zpp U)"
proof -
  obtain s' where s': "insert_fix_left z zp zpp s = Some (zp, s')"
      "holds s' k (Nd RBT_BLACK (Nd RBT_RED A zp B) z (Nd RBT_RED D zpp U))"
    using insert_fix_left_in [OF h U] by blast
  have z: "z \<noteq> 0" using holds_node(1) [OF h [THEN down_left, THEN down_right]] .
  have "insert_loop z s = insert_loop zp s'" by (rule insert_loop_left [OF h refl _ z s'(1)]) simp
  moreover have "insert_loop zp s' = Some s'" by (rule insert_loop_stop [OF s'(2) [THEN down_left]]) simp
  ultimately show ?thesis using s'(2) inv U unfolding insert_done_def
    by (intro exI [of _ s'] exI [of _ "Nd RBT_BLACK (Nd RBT_RED A zp B) z (Nd RBT_RED D zpp U)"]) simp
qed

lemma insert_round_right_red:
  assumes h: "holds s k (Nd RBT_BLACK (Nd RBT_RED U2 u U1) zpp (Nd RBT_RED B zp A))"
    and z: "z = ptr A \<or> z = ptr B" "z \<noteq> 0"
    and inv: "rb A" "rb B" "rb (Nd RBT_RED U2 u U1)" "bh A = bh U1" "bh B = bh U1"
  shows "insert_done z s k (Nd RBT_BLACK (Nd RBT_RED U2 u U1) zpp (Nd RBT_RED B zp A))"
proof -
  obtain s' where s': "insert_fix_right z zp zpp s = Some (zpp, s')"
      "holds s' k (Nd RBT_RED (Nd RBT_BLACK U2 u U1) zpp (Nd RBT_BLACK B zp A))"
    using insert_fix_right_red [OF h] by blast
  have "insert_loop z s = insert_loop zpp s'" by (rule insert_loop_right [OF h refl z s'(1)])
  then show ?thesis using s'(2) inv unfolding insert_done_def by fastforce
qed

lemma insert_round_right_out:
  assumes h: "holds s k (Nd RBT_BLACK U zpp (Nd RBT_RED D zp (Nd RBT_RED B z A)))" and U: "tcol U = RBT_BLACK"
    and inv: "rb (Nd RBT_RED B z A)" "rb D" "rb U" "bh D = bh A" "bh U = bh A" "tcol D = RBT_BLACK"
  shows "insert_done z s k (Nd RBT_BLACK U zpp (Nd RBT_RED D zp (Nd RBT_RED B z A)))"
proof -
  obtain s' where s': "insert_fix_right z zp zpp s = Some (z, s')"
      "holds s' k (Nd RBT_BLACK (Nd RBT_RED U zpp D) zp (Nd RBT_RED B z A))"
    using insert_fix_right_out [OF h U] by blast
  have z: "z \<noteq> 0" using holds_node(1) [OF h [THEN down_right, THEN down_right]] .
  have "insert_loop z s = insert_loop z s'" by (rule insert_loop_right [OF h refl _ z s'(1)]) simp
  moreover have "insert_loop z s' = Some s'" by (rule insert_loop_stop [OF s'(2) [THEN down_right]]) simp
  ultimately show ?thesis using s'(2) inv U unfolding insert_done_def
    by (intro exI [of _ s'] exI [of _ "Nd RBT_BLACK (Nd RBT_RED U zpp D) zp (Nd RBT_RED B z A)"]) simp
qed

lemma insert_round_right_in:
  assumes h: "holds s k (Nd RBT_BLACK U zpp (Nd RBT_RED (Nd RBT_RED D z B) zp A))" and U: "tcol U = RBT_BLACK"
    and inv: "rb (Nd RBT_RED D z B)" "rb A" "rb U" "bh A = bh B" "bh U = bh B" "tcol A = RBT_BLACK"
  shows "insert_done z s k (Nd RBT_BLACK U zpp (Nd RBT_RED (Nd RBT_RED D z B) zp A))"
proof -
  obtain s' where s': "insert_fix_right z zp zpp s = Some (zp, s')"
      "holds s' k (Nd RBT_BLACK (Nd RBT_RED U zpp D) z (Nd RBT_RED B zp A))"
    using insert_fix_right_in [OF h U] by blast
  have z: "z \<noteq> 0" using holds_node(1) [OF h [THEN down_right, THEN down_left]] .
  have "insert_loop z s = insert_loop zp s'" by (rule insert_loop_right [OF h refl _ z s'(1)]) simp
  moreover have "insert_loop zp s' = Some s'" by (rule insert_loop_stop [OF s'(2) [THEN down_right]]) simp
  ultimately show ?thesis using s'(2) inv U unfolding insert_done_def
    by (intro exI [of _ s'] exI [of _ "Nd RBT_BLACK (Nd RBT_RED U zpp D) z (Nd RBT_RED B zp A)"]) simp
qed

lemma insert_round:
  assumes h: "holds s (f # g # k) (Nd RBT_RED l z r)" and inv: "rb (Nd RBT_RED l z r)" "ctx_rb (f # g # k) (bh l)"
    and red: "kcol (f # g # k) = RBT_RED"
  shows "insert_done z s k (plug [f, g] (Nd RBT_RED l z r))"
proof -
  have z: "z \<noteq> 0" by (rule holds_node(1) [OF h])
  have hp: "holds s k (plug [f, g] (Nd RBT_RED l z r))"
    using h by (cases f; cases g) (simp_all add: holds_left holds_right)
  show ?thesis
  proof (cases g)
    case (FL c zpp U)
    then show ?thesis
      using hp inv red z
      by (cases f; cases U; cases "tcol U")
        (auto intro: insert_round_left_red insert_round_left_out insert_round_left_in)
  next
    case (FR c U zpp)
    then show ?thesis
      using hp inv red z
      by (cases f; cases U; cases "tcol U")
        (auto intro: insert_round_right_red insert_round_right_out insert_round_right_in)
  qed
qed

lemma insert_loop_ok:
  "holds s k (Nd RBT_RED l z r) \<Longrightarrow> rb (Nd RBT_RED l z r) \<Longrightarrow> ctx_rb k (bh l) \<Longrightarrow>
     \<exists>s' t. insert_loop z s = Some s' \<and> holds s' [] t \<and> inorder t = inorder (plug k (Nd RBT_RED l z r)) \<and> rb t"
proof (induction k arbitrary: s l z r rule: length_induct)
  case (1 k)
  show ?case
  proof (cases "kcol k = RBT_BLACK")
    case True
    have "holds s [] (plug k (Nd RBT_RED l z r))" using 1(2) holds_plug by blast
    moreover have "rb (plug k (Nd RBT_RED l z r))" using 1(3,4) True by (intro rb_plug) simp_all
    ultimately show ?thesis using insert_loop_stop [OF 1(2) True] by blast
  next
    case False
    then obtain f g k' where k: "k = f # g # k'"
      using 1(4) by (cases k; cases "tl k"; cases "hd k") auto
    have red: "kcol k = RBT_RED" using False by (cases "kcol k") simp_all
    obtain s' t' where t': "holds s' k' t'" "inorder t' = inorder (plug [f, g] (Nd RBT_RED l z r))" "rb t'"
        "bh t' = bh (plug [f, g] (Nd RBT_RED l z r))"
        and out: "tcol t' = RBT_BLACK \<and> insert_loop z s = Some s' \<or> (\<exists>l g r. t' = Nd RBT_RED l g r \<and> insert_loop z s = insert_loop g s')"
      using insert_round [OF 1(2) [unfolded k] 1(3) 1(4) [unfolded k] red [unfolded k]] unfolding insert_done_def by blast
    have ctx: "ctx_rb k' (bh t')" using 1(4) red unfolding t'(4) k by (cases f; cases g) auto
    have ord: "inorder (plug k (Nd RBT_RED l z r)) = inorder (plug k' t')"
      unfolding k inorder_plug t'(2) by (cases f; cases g) (simp_all add: inorder_plug)
    from out show ?thesis
    proof
      assume "tcol t' = RBT_BLACK \<and> insert_loop z s = Some s'"
      then show ?thesis using t' ctx rb_plug [of k' t'] holds_plug [of s' k' t'] ord by auto
    next
      assume "\<exists>l g r. t' = Nd RBT_RED l g r \<and> insert_loop z s = insert_loop g s'"
      then obtain l' g' r' where "t' = Nd RBT_RED l' g' r'" "insert_loop z s = insert_loop g' s'" by blast
      then show ?thesis using 1(1) [rule_format, of k' s' l' g' r'] t' ctx ord k by auto
    qed
  qed
qed

section \<open>Insertion\<close>

text \<open>The heap holds a red-black tree with a black root and the nodes \<open>xs\<close> in order.\<close>

definition rb_tree :: "rbt \<Rightarrow> nat list \<Rightarrow> bool" where
  "rb_tree s xs \<longleftrightarrow> (\<exists>t. holds s [] t \<and> rb t \<and> tcol t = RBT_BLACK \<and> inorder t = xs)"

lemma InsertFixup_ok:
  assumes "holds s k (Nd RBT_RED Lf z Lf)" and "ctx_rb k 0"
  shows "\<exists>s'. RBT_InsertFixup z s = Some s' \<and> rb_tree s' (ctx_pre k @ z # ctx_post k)"
proof -
  obtain s1 t where t: "insert_loop z s = Some s1" "holds s1 [] t" "inorder t = ctx_pre k @ z # ctx_post k" "rb t"
    using insert_loop_ok [OF assms(1)] assms(2) by (auto simp: inorder_plug)
  then obtain c l a r where node: "t = Nd c l a r" by (cases t) auto
  have "Root s1 = a" using holds_root [OF t(2)] node by simp
  moreover obtain s2 where "set_color a RBT_BLACK s1 = Some s2" "holds s2 [] (Nd RBT_BLACK l a r)"
    using holds_color [OF t(2) [unfolded node]] by blast
  ultimately show ?thesis
    using t(1,3,4) node unfolding rb_tree_def RBT_InsertFixup_def
    by (intro exI [of _ s2]) (auto intro!: exI [of _ "Nd RBT_BLACK l a r"])
qed

end
