(* ===== verification/Rb_Erase.thy ===== *)
theory Rb_Erase
  imports Rb_Insert
begin

text \<open>
  Correctness of \<^verbatim>\<open>RBT_EraseFixup\<close> and \<^verbatim>\<open>RBT_Erase\<close>.
\<close>

section \<open>One round of the loop\<close>

fun blacken :: "tr \<Rightarrow> tr" where
  "blacken Lf = Lf"
| "blacken (Nd c l a r) = Nd RBT_BLACK l a r"

lemma blacken_black: "tcol t = RBT_BLACK \<Longrightarrow> blacken t = t"
  by (cases t) auto

lemma tcol_blacken [simp]: "tcol (blacken t) = RBT_BLACK"
  by (cases t) auto

lemma inorder_blacken [simp]: "inorder (blacken t) = inorder t"
  by (cases t) auto

lemma rb_blacken: "rb t \<Longrightarrow> rb (blacken t)"
  by (cases t) auto

lemma holds_blacken: "holds s k t \<Longrightarrow> \<exists>s'. unless_null (ptr t) (set_color (ptr t) RBT_BLACK) s = Some s' \<and> holds s' k (blacken t)"
proof (cases t)
  case (Nd c l a r)
  then show "holds s k t \<Longrightarrow> ?thesis"
    using holds_color [of s k c l a r RBT_BLACK] holds_node(1) [of s k c l a r] by (auto simp: unless_null_def)
qed (simp add: unless_null_def)

lemma push_left_flip:
  assumes h: "holds s k (Nd c t xp (Nd d Wl w Wr))" and b: "tcol Wl = RBT_BLACK" "tcol Wr = RBT_BLACK"
  shows "\<exists>s'. erase_push_left xp w s = Some (xp, par k, s') \<and> holds s' k (Nd c t xp (Nd RBT_RED Wl w Wr))"
proof -
  note hw = h [THEN down_right]
  obtain s1 where s1: "set_color w RBT_RED s = Some s1" "holds s1 k (Nd c t xp (Nd RBT_RED Wl w Wr))"
    using holds_color [OF hw, of RBT_RED] by (auto simp: holds_right)
  show ?thesis
    using s1 holds_get [OF hw] holds_get(3) [OF s1(2)] holds_is_black [OF hw [THEN down_left]] holds_is_black [OF hw [THEN down_right]] b
    by (auto simp: erase_push_left_def)
qed

text \<open>The last rotation, for a sibling with a red right child.\<close>

lemma push_left_out:
  assumes h: "holds s k (Nd c t xp (Nd d Wl w Wr))" and b: "tcol Wr = RBT_RED"
  shows "\<exists>s'. erase_push_left xp w s = Some (Root s', xp, s') \<and> holds s' k (Nd c (Nd RBT_BLACK t xp Wl) w (blacken Wr))"
proof -
  note hw = h [THEN down_right]
  obtain s1 where s1: "set_color w c s = Some s1" "holds s1 k (Nd c t xp (Nd c Wl w Wr))"
    using holds_color [OF hw, of c] by (auto simp: holds_right)
  obtain s2 where s2: "set_color xp RBT_BLACK s1 = Some s2" "holds s2 k (Nd RBT_BLACK t xp (Nd c Wl w Wr))"
    using holds_color [OF s1(2)] by blast
  note hr = s2(2) [THEN down_right, THEN down_right]
  obtain s3 where s3: "unless_null (ptr Wr) (set_color (ptr Wr) RBT_BLACK) s2 = Some s3" "holds s3 k (Nd RBT_BLACK t xp (Nd c Wl w (blacken Wr)))"
    using holds_blacken [OF hr] by (auto simp: holds_right)
  obtain s4 where s4: "RBT_LeftRotate xp s3 = Some s4" "holds s4 k (Nd c (Nd RBT_BLACK t xp Wl) w (blacken Wr))"
    using holds_LeftRotate [OF s3(2)] by blast
  show ?thesis
    using s1 s2 s3 s4 holds_get [OF hw] holds_get(4) [OF h] holds_get(1,2) [OF s2(2) [THEN down_right]]
      holds_is_black [OF hw [THEN down_right]] b
    by (auto simp: erase_push_left_def)
qed

lemma push_left_in:
  assumes h: "holds s k (Nd c t xp (Nd d (Nd RBT_RED A v B) w Wr))" and b: "tcol Wr = RBT_BLACK"
  shows "\<exists>s'. erase_push_left xp w s = Some (Root s', xp, s') \<and> holds s' k (Nd c (Nd RBT_BLACK t xp A) v (Nd RBT_BLACK B w Wr))"
proof -
  note hw = h [THEN down_right]
  note hv = hw [THEN down_left]
  have v: "v \<noteq> 0" by (rule holds_node(1) [OF hv])
  obtain s1 where s1: "set_color v RBT_BLACK s = Some s1" "holds s1 k (Nd c t xp (Nd d (Nd RBT_BLACK A v B) w Wr))"
    using holds_color [OF hv, of RBT_BLACK] by (auto simp: holds_left holds_right)
  obtain s2 where s2: "set_color w RBT_RED s1 = Some s2" "holds s2 k (Nd c t xp (Nd RBT_RED (Nd RBT_BLACK A v B) w Wr))"
    using holds_color [OF s1(2) [THEN down_right], of RBT_RED] by (auto simp: holds_right)
  obtain s3 where s3: "RBT_RightRotate w s2 = Some s3" "holds s3 k (Nd c t xp (Nd RBT_BLACK A v (Nd RBT_RED B w Wr)))"
    using holds_RightRotate [OF s2(2) [THEN down_right]] by (auto simp: holds_right)
  obtain s' where s': "erase_push_left xp v s3 = Some (Root s', xp, s')" "holds s' k (Nd c (Nd RBT_BLACK t xp A) v (Nd RBT_BLACK B w Wr))"
    using push_left_out [OF s3(2)] by auto
  have "erase_push_left xp w s = erase_push_left xp v s3"
    using s1 s2 s3 v holds_get [OF hw] holds_get [OF s3(2)] holds_get [OF s3(2) [THEN down_right]]
      holds_is_black [OF hv] holds_is_black [OF hw [THEN down_right]] holds_is_black [OF s3(2) [THEN down_right, THEN down_right]] b
    by (simp add: erase_push_left_def unless_null_def)
  then show ?thesis using s' by auto
qed

lemma sibling_left_red:
  assumes h: "holds s k (Nd c t xp (Nd RBT_RED Wl w Wr))"
  shows "\<exists>s'. erase_sibling_left xp s = Some (ptr Wl, s') \<and> holds s' (FL RBT_BLACK w Wr # k) (Nd RBT_RED t xp Wl)"
proof -
  note hw = h [THEN down_right]
  obtain s1 where s1: "set_color w RBT_BLACK s = Some s1" "holds s1 k (Nd c t xp (Nd RBT_BLACK Wl w Wr))"
    using holds_color [OF hw, of RBT_BLACK] by (auto simp: holds_right)
  obtain s2 where s2: "set_color xp RBT_RED s1 = Some s2" "holds s2 k (Nd RBT_RED t xp (Nd RBT_BLACK Wl w Wr))"
    using holds_color [OF s1(2)] by blast
  obtain s3 where s3: "RBT_LeftRotate xp s2 = Some s3" "holds s3 k (Nd RBT_BLACK (Nd RBT_RED t xp Wl) w Wr)"
    using holds_LeftRotate [OF s2(2)] by blast
  show ?thesis
    using s1 s2 s3 holds_get [OF h] holds_get(4) [OF hw] holds_get(1,2) [OF s3(2) [THEN down_left]]
    by (auto simp: erase_sibling_left_def holds_left)
qed

lemma sibling_left_black:
  assumes h: "holds s k (Nd c t xp (Nd RBT_BLACK Wl w Wr))"
  shows "erase_sibling_left xp s = Some (w, s)"
  using holds_get [OF h] holds_get(4) [OF h [THEN down_right]] by (simp add: erase_sibling_left_def)

lemma push_right_flip:
  assumes h: "holds s k (Nd c (Nd d Wr w Wl) xp t)" and b: "tcol Wl = RBT_BLACK" "tcol Wr = RBT_BLACK"
  shows "\<exists>s'. erase_push_right xp w s = Some (xp, par k, s') \<and> holds s' k (Nd c (Nd RBT_RED Wr w Wl) xp t)"
proof -
  note hw = h [THEN down_left]
  obtain s1 where s1: "set_color w RBT_RED s = Some s1" "holds s1 k (Nd c (Nd RBT_RED Wr w Wl) xp t)"
    using holds_color [OF hw, of RBT_RED] by (auto simp: holds_left)
  show ?thesis
    using s1 holds_get [OF hw] holds_get(3) [OF s1(2)] holds_is_black [OF hw [THEN down_right]] holds_is_black [OF hw [THEN down_left]] b
    by (auto simp: erase_push_right_def)
qed

text \<open>The last rotation, for a sibling with a red left child.\<close>

lemma push_right_out:
  assumes h: "holds s k (Nd c (Nd d Wr w Wl) xp t)" and b: "tcol Wr = RBT_RED"
  shows "\<exists>s'. erase_push_right xp w s = Some (Root s', xp, s') \<and> holds s' k (Nd c (blacken Wr) w (Nd RBT_BLACK Wl xp t))"
proof -
  note hw = h [THEN down_left]
  obtain s1 where s1: "set_color w c s = Some s1" "holds s1 k (Nd c (Nd c Wr w Wl) xp t)"
    using holds_color [OF hw, of c] by (auto simp: holds_left)
  obtain s2 where s2: "set_color xp RBT_BLACK s1 = Some s2" "holds s2 k (Nd RBT_BLACK (Nd c Wr w Wl) xp t)"
    using holds_color [OF s1(2)] by blast
  note hr = s2(2) [THEN down_left, THEN down_left]
  obtain s3 where s3: "unless_null (ptr Wr) (set_color (ptr Wr) RBT_BLACK) s2 = Some s3" "holds s3 k (Nd RBT_BLACK (Nd c (blacken Wr) w Wl) xp t)"
    using holds_blacken [OF hr] by (auto simp: holds_left)
  obtain s4 where s4: "RBT_RightRotate xp s3 = Some s4" "holds s4 k (Nd c (blacken Wr) w (Nd RBT_BLACK Wl xp t))"
    using holds_RightRotate [OF s3(2)] by blast
  show ?thesis
    using s1 s2 s3 s4 holds_get [OF hw] holds_get(4) [OF h] holds_get(1,2) [OF s2(2) [THEN down_left]]
      holds_is_black [OF hw [THEN down_left]] b
    by (auto simp: erase_push_right_def)
qed

lemma push_right_in:
  assumes h: "holds s k (Nd c (Nd d Wr w (Nd RBT_RED B v A)) xp t)" and b: "tcol Wr = RBT_BLACK"
  shows "\<exists>s'. erase_push_right xp w s = Some (Root s', xp, s') \<and> holds s' k (Nd c (Nd RBT_BLACK Wr w B) v (Nd RBT_BLACK A xp t))"
proof -
  note hw = h [THEN down_left]
  note hv = hw [THEN down_right]
  have v: "v \<noteq> 0" by (rule holds_node(1) [OF hv])
  obtain s1 where s1: "set_color v RBT_BLACK s = Some s1" "holds s1 k (Nd c (Nd d Wr w (Nd RBT_BLACK B v A)) xp t)"
    using holds_color [OF hv, of RBT_BLACK] by (auto simp: holds_right holds_left)
  obtain s2 where s2: "set_color w RBT_RED s1 = Some s2" "holds s2 k (Nd c (Nd RBT_RED Wr w (Nd RBT_BLACK B v A)) xp t)"
    using holds_color [OF s1(2) [THEN down_left], of RBT_RED] by (auto simp: holds_left)
  obtain s3 where s3: "RBT_LeftRotate w s2 = Some s3" "holds s3 k (Nd c (Nd RBT_BLACK (Nd RBT_RED Wr w B) v A) xp t)"
    using holds_LeftRotate [OF s2(2) [THEN down_left]] by (auto simp: holds_left)
  obtain s' where s': "erase_push_right xp v s3 = Some (Root s', xp, s')" "holds s' k (Nd c (Nd RBT_BLACK Wr w B) v (Nd RBT_BLACK A xp t))"
    using push_right_out [OF s3(2)] by auto
  have "erase_push_right xp w s = erase_push_right xp v s3"
    using s1 s2 s3 v holds_get [OF hw] holds_get [OF s3(2)] holds_get [OF s3(2) [THEN down_left]]
      holds_is_black [OF hv] holds_is_black [OF hw [THEN down_left]] holds_is_black [OF s3(2) [THEN down_left, THEN down_left]] b
    by (simp add: erase_push_right_def unless_null_def)
  then show ?thesis using s' by auto
qed

lemma sibling_right_red:
  assumes h: "holds s k (Nd c (Nd RBT_RED Wr w Wl) xp t)"
  shows "\<exists>s'. erase_sibling_right xp s = Some (ptr Wl, s') \<and> holds s' (FR RBT_BLACK Wr w # k) (Nd RBT_RED Wl xp t)"
proof -
  note hw = h [THEN down_left]
  obtain s1 where s1: "set_color w RBT_BLACK s = Some s1" "holds s1 k (Nd c (Nd RBT_BLACK Wr w Wl) xp t)"
    using holds_color [OF hw, of RBT_BLACK] by (auto simp: holds_left)
  obtain s2 where s2: "set_color xp RBT_RED s1 = Some s2" "holds s2 k (Nd RBT_RED (Nd RBT_BLACK Wr w Wl) xp t)"
    using holds_color [OF s1(2)] by blast
  obtain s3 where s3: "RBT_RightRotate xp s2 = Some s3" "holds s3 k (Nd RBT_BLACK Wr w (Nd RBT_RED Wl xp t))"
    using holds_RightRotate [OF s2(2)] by blast
  show ?thesis
    using s1 s2 s3 holds_get [OF h] holds_get(4) [OF hw] holds_get(1,2) [OF s3(2) [THEN down_right]]
    by (auto simp: erase_sibling_right_def holds_right)
qed

lemma sibling_right_black:
  assumes h: "holds s k (Nd c (Nd RBT_BLACK Wr w Wl) xp t)"
  shows "erase_sibling_right xp s = Some (w, s)"
  using holds_get [OF h] holds_get(4) [OF h [THEN down_left]] by (simp add: erase_sibling_right_def)

text \<open>The state of the loop: the subtree at \<open>x\<close> lacks one black node.\<close>

definition erase_inv :: "nat \<Rightarrow> nat \<Rightarrow> rbt \<Rightarrow> frame list \<Rightarrow> tr \<Rightarrow> bool" where
  "erase_inv x xp s k t \<longleftrightarrow> holds s k t \<and> x = ptr t \<and> (k \<noteq> [] \<longrightarrow> xp = par k) \<and> rb (blacken t) \<and> ctx_rb k (bh t + 1)"

definition erase_measure :: "frame list \<Rightarrow> tr \<Rightarrow> nat" where
  "erase_measure k t = 2 * length k + (if tcol t = RBT_BLACK then 1 else 0)"

lemma erase_inv_whole:
  assumes "holds s k t" and "rb t" and "ctx_rb k (bh t)" and "tcol t = RBT_RED \<longrightarrow> kcol k = RBT_BLACK"
  shows "erase_inv (Root s) q s [] (plug k t)"
  using assms holds_root [OF assms(1)] holds_plug [of s k t] rb_plug [of k t] rb_blacken by (auto simp: erase_inv_def)

lemma push_left_ok:
  assumes h: "holds s k (Nd c t xp (Nd RBT_BLACK Wl w Wr))" and inv: "rb t" "rb (Nd RBT_BLACK Wl w Wr)" "bh Wl = bh t"
    and c: "c = RBT_RED \<longrightarrow> kcol k = RBT_BLACK \<and> tcol t = RBT_BLACK" and k: "ctx_rb k (bh t + 1 + (if c = RBT_BLACK then 1 else 0))"
  shows "\<exists>x' xp' s' k' t'. erase_push_left xp w s = Some (x', xp', s') \<and> erase_inv x' xp' s' k' t'
     \<and> inorder (plug k' t') = inorder (plug k (Nd c t xp (Nd RBT_BLACK Wl w Wr)))
     \<and> (k' = [] \<or> k' = k \<and> tcol t' = c)"
proof (cases "tcol Wl = RBT_BLACK \<and> tcol Wr = RBT_BLACK")
  case True
  obtain s' where "erase_push_left xp w s = Some (xp, par k, s')" "holds s' k (Nd c t xp (Nd RBT_RED Wl w Wr))"
    using push_left_flip [OF h] True by blast
  moreover have "erase_inv xp (par k) s' k (Nd c t xp (Nd RBT_RED Wl w Wr))"
    using calculation inv True k by (simp add: erase_inv_def)
  ultimately show ?thesis by (fastforce simp: inorder_plug)
next
  case False
  have fin: "\<exists>s' t'. erase_push_left xp w s = Some (Root s', xp, s') \<and> holds s' k t' \<and> rb t' \<and> tcol t' = c
    \<and> bh t' = bh t + 1 + (if c = RBT_BLACK then 1 else 0) \<and> inorder t' = inorder (Nd c t xp (Nd RBT_BLACK Wl w Wr))"
  proof (cases "tcol Wr")
    case RBT_RED
    then obtain A v B where Wr: "Wr = Nd RBT_RED A v B" by (cases Wr) auto
    obtain s' where "erase_push_left xp w s = Some (Root s', xp, s')" "holds s' k (Nd c (Nd RBT_BLACK t xp Wl) w (blacken Wr))"
      using push_left_out [OF h RBT_RED] by blast
    then show ?thesis using inv c Wr
      by (intro exI [of _ s'] exI [of _ "Nd c (Nd RBT_BLACK t xp Wl) w (blacken Wr)"]) simp
  next
    case RBT_BLACK
    then obtain A v B where Wl: "Wl = Nd RBT_RED A v B" using False by (cases Wl; cases "tcol Wl") auto
    obtain s' where "erase_push_left xp w s = Some (Root s', xp, s')" "holds s' k (Nd c (Nd RBT_BLACK t xp A) v (Nd RBT_BLACK B w Wr))"
      using push_left_in [OF h [unfolded Wl] RBT_BLACK] by blast
    then show ?thesis using inv c Wl
      by (intro exI [of _ s'] exI [of _ "Nd c (Nd RBT_BLACK t xp A) v (Nd RBT_BLACK B w Wr)"]) simp
  qed
  then obtain s' t' where st: "erase_push_left xp w s = Some (Root s', xp, s')" "holds s' k t'" "rb t'" "tcol t' = c"
    "bh t' = bh t + 1 + (if c = RBT_BLACK then 1 else 0)" "inorder t' = inorder (Nd c t xp (Nd RBT_BLACK Wl w Wr))" by blast
  have "erase_inv (Root s') xp s' [] (plug k t')" using st k c by (intro erase_inv_whole) auto
  moreover have "inorder (plug [] (plug k t')) = inorder (plug k (Nd c t xp (Nd RBT_BLACK Wl w Wr)))"
    by (simp only: plug.simps inorder_plug st(6))
  ultimately show ?thesis using st(1) by blast
qed

lemma erase_fix_left_ok:
  assumes inv: "erase_inv x xp s (FL c xp W # k) t" and t: "tcol t = RBT_BLACK"
  shows "\<exists>x' xp' s' k' t'. erase_fix_left xp s = Some (x', xp', s') \<and> erase_inv x' xp' s' k' t'
     \<and> inorder (plug k' t') = inorder (plug (FL c xp W # k) t) \<and> erase_measure k' t' < erase_measure (FL c xp W # k) t"
proof -
  have h: "holds s k (Nd c t xp W)" and rbs: "rb t" "rb W" "bh W = bh t + 1" and k: "ctx_rb k (bh W + (if c = RBT_BLACK then 1 else 0))"
      and cr: "c = RBT_RED \<longrightarrow> kcol k = RBT_BLACK \<and> k \<noteq> [] \<and> tcol W = RBT_BLACK"
    using inv t blacken_black [OF t] by (auto simp: erase_inv_def holds_left)
  then obtain d Wl w Wr where W: "W = Nd d Wl w Wr" by (cases W) auto
  show ?thesis
  proof (cases d)
    case RBT_BLACK
    have "erase_sibling_left xp s = Some (w, s)" using sibling_left_black h W RBT_BLACK by auto
    moreover have "\<exists>x' xp' s' k' t'. erase_push_left xp w s = Some (x', xp', s') \<and> erase_inv x' xp' s' k' t'
       \<and> inorder (plug k' t') = inorder (plug k (Nd c t xp (Nd RBT_BLACK Wl w Wr))) \<and> (k' = [] \<or> k' = k \<and> tcol t' = c)"
      using h rbs k cr t W RBT_BLACK by (intro push_left_ok) auto
    ultimately show ?thesis using W RBT_BLACK t by (fastforce simp: erase_fix_left_def erase_measure_def)
  next
    case RBT_RED
    then have b: "tcol Wl = RBT_BLACK" "bh Wl = bh t + 1" "rb Wl" "rb Wr" "bh Wr = bh Wl" "tcol Wr = RBT_BLACK" and cb: "c = RBT_BLACK"
      using rbs cr W by auto
    then obtain A v B where Wl: "Wl = Nd RBT_BLACK A v B" by (cases Wl) auto
    obtain s1 where s1: "erase_sibling_left xp s = Some (v, s1)" "holds s1 (FL RBT_BLACK w Wr # k) (Nd RBT_RED t xp Wl)"
      using sibling_left_red [of s k c t xp Wl w Wr] h W RBT_RED Wl by auto
    have "\<exists>x' xp' s' k' t'. erase_push_left xp v s1 = Some (x', xp', s') \<and> erase_inv x' xp' s' k' t'
       \<and> inorder (plug k' t') = inorder (plug (FL RBT_BLACK w Wr # k) (Nd RBT_RED t xp (Nd RBT_BLACK A v B)))
       \<and> (k' = [] \<or> k' = FL RBT_BLACK w Wr # k \<and> tcol t' = RBT_RED)"
      using s1(2) rbs k b cb t W RBT_RED Wl by (intro push_left_ok) auto
    then show ?thesis using s1(1) W RBT_RED Wl t by (fastforce simp: erase_fix_left_def erase_measure_def inorder_plug)
  qed
qed

lemma push_right_ok:
  assumes h: "holds s k (Nd c (Nd RBT_BLACK Wr w Wl) xp t)" and inv: "rb t" "rb (Nd RBT_BLACK Wr w Wl)" "bh Wl = bh t"
    and c: "c = RBT_RED \<longrightarrow> kcol k = RBT_BLACK \<and> tcol t = RBT_BLACK" and k: "ctx_rb k (bh t + 1 + (if c = RBT_BLACK then 1 else 0))"
  shows "\<exists>x' xp' s' k' t'. erase_push_right xp w s = Some (x', xp', s') \<and> erase_inv x' xp' s' k' t'
     \<and> inorder (plug k' t') = inorder (plug k (Nd c (Nd RBT_BLACK Wr w Wl) xp t))
     \<and> (k' = [] \<or> k' = k \<and> tcol t' = c)"
proof (cases "tcol Wl = RBT_BLACK \<and> tcol Wr = RBT_BLACK")
  case True
  obtain s' where "erase_push_right xp w s = Some (xp, par k, s')" "holds s' k (Nd c (Nd RBT_RED Wr w Wl) xp t)"
    using push_right_flip [OF h] True by blast
  moreover have "erase_inv xp (par k) s' k (Nd c (Nd RBT_RED Wr w Wl) xp t)"
    using calculation inv True k by (simp add: erase_inv_def)
  ultimately show ?thesis by (fastforce simp: inorder_plug)
next
  case False
  have fin: "\<exists>s' t'. erase_push_right xp w s = Some (Root s', xp, s') \<and> holds s' k t' \<and> rb t' \<and> tcol t' = c
    \<and> bh t' = bh t + 1 + (if c = RBT_BLACK then 1 else 0) \<and> inorder t' = inorder (Nd c (Nd RBT_BLACK Wr w Wl) xp t)"
  proof (cases "tcol Wr")
    case RBT_RED
    then obtain A v B where Wr: "Wr = Nd RBT_RED B v A" by (cases Wr) auto
    obtain s' where "erase_push_right xp w s = Some (Root s', xp, s')" "holds s' k (Nd c (blacken Wr) w (Nd RBT_BLACK Wl xp t))"
      using push_right_out [OF h RBT_RED] by blast
    then show ?thesis using inv c Wr
      by (intro exI [of _ s'] exI [of _ "Nd c (blacken Wr) w (Nd RBT_BLACK Wl xp t)"]) simp
  next
    case RBT_BLACK
    then obtain A v B where Wl: "Wl = Nd RBT_RED B v A" using False by (cases Wl; cases "tcol Wl") auto
    obtain s' where "erase_push_right xp w s = Some (Root s', xp, s')" "holds s' k (Nd c (Nd RBT_BLACK Wr w B) v (Nd RBT_BLACK A xp t))"
      using push_right_in [OF h [unfolded Wl] RBT_BLACK] by blast
    then show ?thesis using inv c Wl
      by (intro exI [of _ s'] exI [of _ "Nd c (Nd RBT_BLACK Wr w B) v (Nd RBT_BLACK A xp t)"]) simp
  qed
  then obtain s' t' where st: "erase_push_right xp w s = Some (Root s', xp, s')" "holds s' k t'" "rb t'" "tcol t' = c"
    "bh t' = bh t + 1 + (if c = RBT_BLACK then 1 else 0)" "inorder t' = inorder (Nd c (Nd RBT_BLACK Wr w Wl) xp t)" by blast
  have "erase_inv (Root s') xp s' [] (plug k t')" using st k c by (intro erase_inv_whole) auto
  moreover have "inorder (plug [] (plug k t')) = inorder (plug k (Nd c (Nd RBT_BLACK Wr w Wl) xp t))"
    by (simp only: plug.simps inorder_plug st(6))
  ultimately show ?thesis using st(1) by blast
qed

lemma erase_fix_right_ok:
  assumes inv: "erase_inv x xp s (FR c W xp # k) t" and t: "tcol t = RBT_BLACK"
  shows "\<exists>x' xp' s' k' t'. erase_fix_right xp s = Some (x', xp', s') \<and> erase_inv x' xp' s' k' t'
     \<and> inorder (plug k' t') = inorder (plug (FR c W xp # k) t) \<and> erase_measure k' t' < erase_measure (FR c W xp # k) t"
proof -
  have h: "holds s k (Nd c W xp t)" and rbs: "rb t" "rb W" "bh W = bh t + 1" and k: "ctx_rb k (bh W + (if c = RBT_BLACK then 1 else 0))"
      and cr: "c = RBT_RED \<longrightarrow> kcol k = RBT_BLACK \<and> k \<noteq> [] \<and> tcol W = RBT_BLACK"
    using inv t blacken_black [OF t] by (auto simp: erase_inv_def holds_right)
  then obtain d Wl w Wr where W: "W = Nd d Wr w Wl" by (cases W) auto
  show ?thesis
  proof (cases d)
    case RBT_BLACK
    have "erase_sibling_right xp s = Some (w, s)" using sibling_right_black h W RBT_BLACK by auto
    moreover have "\<exists>x' xp' s' k' t'. erase_push_right xp w s = Some (x', xp', s') \<and> erase_inv x' xp' s' k' t'
       \<and> inorder (plug k' t') = inorder (plug k (Nd c (Nd RBT_BLACK Wr w Wl) xp t)) \<and> (k' = [] \<or> k' = k \<and> tcol t' = c)"
      using h rbs k cr t W RBT_BLACK by (intro push_right_ok) auto
    ultimately show ?thesis using W RBT_BLACK t by (fastforce simp: erase_fix_right_def erase_measure_def)
  next
    case RBT_RED
    then have b: "tcol Wl = RBT_BLACK" "bh Wl = bh t + 1" "rb Wl" "rb Wr" "bh Wr = bh Wl" "tcol Wr = RBT_BLACK" and cb: "c = RBT_BLACK"
      using rbs cr W by auto
    then obtain A v B where Wl: "Wl = Nd RBT_BLACK B v A" by (cases Wl) auto
    obtain s1 where s1: "erase_sibling_right xp s = Some (v, s1)" "holds s1 (FR RBT_BLACK Wr w # k) (Nd RBT_RED Wl xp t)"
      using sibling_right_red [of s k c Wr w Wl xp t] h W RBT_RED Wl by auto
    have "\<exists>x' xp' s' k' t'. erase_push_right xp v s1 = Some (x', xp', s') \<and> erase_inv x' xp' s' k' t'
       \<and> inorder (plug k' t') = inorder (plug (FR RBT_BLACK Wr w # k) (Nd RBT_RED (Nd RBT_BLACK B v A) xp t))
       \<and> (k' = [] \<or> k' = FR RBT_BLACK Wr w # k \<and> tcol t' = RBT_RED)"
      using s1(2) rbs k b cb t W RBT_RED Wl by (intro push_right_ok) auto
    then show ?thesis using s1(1) W RBT_RED Wl t by (fastforce simp: erase_fix_right_def erase_measure_def inorder_plug)
  qed
qed

section \<open>The loop\<close>

lemma EraseFixup_stop:
  assumes "erase_inv x xp s k t" and "k = [] \<or> tcol t = RBT_RED"
  shows "\<exists>s' t'. RBT_EraseFixup x xp s = Some s' \<and> holds s' [] t' \<and> rb t' \<and> tcol t' = RBT_BLACK \<and> inorder t' = inorder (plug k t)"
proof -
  have h: "holds s k t" "x = ptr t" and inv: "rb (blacken t)" "ctx_rb k (bh t + 1)" using assms(1) by (auto simp: erase_inv_def)
  have "x = Root s \<or> \<not> is_black x s"
    using assms(2) holds_root [OF h(1)] holds_is_black [OF h(1)] h(2) by auto
  then have "RBT_EraseFixup x xp s = unless_null x (set_color x RBT_BLACK) s" by (subst RBT_EraseFixup.simps) auto
  moreover obtain s' where s': "unless_null x (set_color x RBT_BLACK) s = Some s'" "holds s' k (blacken t)"
    using holds_blacken [OF h(1)] h(2) by blast
  moreover have "rb (plug k (blacken t))"
  proof (cases "k = []")
    case False
    then have "bh (blacken t) = bh t + 1" using assms(2) by (cases t) auto
    then show ?thesis using inv by (intro rb_plug) simp_all
  qed (use inv in simp)
  moreover have "tcol (plug k (blacken t)) = RBT_BLACK" using rb_plug_root [OF inv(2)] by (cases "k = []") simp_all
  ultimately show ?thesis using holds_plug [of s' k] by (auto simp: inorder_plug)
qed

lemma rep_ctx_root: "rep_ctx rt L R P C k p \<Longrightarrow> k \<noteq> [] \<Longrightarrow> rt \<noteq> 0 \<and> rt \<in> set (ctx_nodes k)"
proof (induction rt L R P C k p rule: rep_ctx.induct)
  case (2 rt L R P C c a r k p)
  then show ?case by (cases "k = []") auto
next
  case (3 rt L R P C c l a k p)
  then show ?case by (cases "k = []") auto
qed simp

lemma EraseFixup_step:
  assumes inv: "erase_inv x xp s k t" and go: "k \<noteq> []" "tcol t = RBT_BLACK"
  shows "\<exists>x' xp' s' k' t'. RBT_EraseFixup x xp s = RBT_EraseFixup x' xp' s' \<and> erase_inv x' xp' s' k' t'
     \<and> inorder (plug k' t') = inorder (plug k t) \<and> erase_measure k' t' < erase_measure k t"
proof -
  have h: "holds s k t" "x = ptr t" "xp = par k" using inv go by (auto simp: erase_inv_def)
  have "Root s \<noteq> x"
    using h go rep_ctx_root by (cases t) (auto simp: holds_def)
  then have loop: "RBT_EraseFixup x xp s = (do {
        l \<leftarrow> get_left xp s;
        (x, xp, s) \<leftarrow> (if x = l then erase_fix_left xp s else erase_fix_right xp s);
        RBT_EraseFixup x xp s })"
    using holds_is_black [OF h(1)] go h(2) by (subst RBT_EraseFixup.simps) auto
  show ?thesis
  proof (cases k rule: par.cases)
    case (2 c a W k0)
    then have "get_left xp s = Some x" using holds_get(1) [of s k0 c t a W] h by (simp add: holds_left)
    then show ?thesis using loop erase_fix_left_ok [of x xp s c W k0 t] inv go 2 h(3) by fastforce
  next
    case (3 c W a k0)
    then have "get_left xp s = Some (ptr W)" using holds_get(1) [of s k0 c W a t] h by (simp add: holds_right)
    moreover have "ptr W \<noteq> x"
      using inv h 3 by (cases W; cases t) (auto simp: erase_inv_def holds_def)
    ultimately show ?thesis using loop erase_fix_right_ok [of x xp s c W k0 t] inv go 3 h(3) by fastforce
  qed (use go in simp)
qed

lemma EraseFixup_ok:
  "erase_inv x xp s k t \<Longrightarrow>
     \<exists>s'. RBT_EraseFixup x xp s = Some s' \<and> rb_tree s' (inorder (plug k t))"
proof (induction "erase_measure k t" arbitrary: x xp s k t rule: less_induct)
  case less
  show ?case
  proof (cases "k = [] \<or> tcol t = RBT_RED")
    case True
    then show ?thesis using EraseFixup_stop [OF less.prems True] by (auto simp: rb_tree_def)
  next
    case False
    then have "k \<noteq> []" "tcol t = RBT_BLACK" by auto
    then show ?thesis using EraseFixup_step [OF less.prems] less.hyps by metis
  qed
qed

end
