(* ===== verification/Rb_Unlink.thy ===== *)
theory Rb_Unlink
  imports Rb_Erase
begin

text \<open>
  Unlinking a node (\<^verbatim>\<open>RBT_Transplant\<close> and the first part of \<^verbatim>\<open>RBT_Erase\<close>) and the correctness of \<^verbatim>\<open>RBT_Erase\<close>.
\<close>

section \<open>Transplant\<close>

text \<open>The place of \<open>z\<close> in the context \<open>k\<close>, and beside it a tree \<open>t\<close> to be put there.\<close>

definition spot :: "rbt \<Rightarrow> frame list \<Rightarrow> nat \<Rightarrow> tr \<Rightarrow> bool" where
  "spot s k z t \<longleftrightarrow> rep_ctx (Root s) (RbtLeft s) (RbtRight s) (RbtParent s) (Color s) k z
     \<and> z \<noteq> 0 \<and> RbtParent s z = par k
     \<and> (\<exists>q. rep (RbtLeft s) (RbtRight s) (RbtParent s) (Color s) q t)
     \<and> distinct (ctx_nodes k @ z # inorder t)"

definition transplanted :: "frame list \<Rightarrow> tr \<Rightarrow> rbt \<Rightarrow> rbt" where
  "transplanted k t s = (let s1 = relinked k (ptr t) s
     in if t = Lf then s1 else s1\<lparr> RbtParent := (RbtParent s1)(ptr t := par k) \<rparr>)"

lemma spot_child: "holds s k (Nd c l z r) \<Longrightarrow> spot s k z l \<and> spot s k z r"
  by (auto simp: holds_def spot_def)

lemma Transplant_eq:
  assumes "spot s k z t"
  shows "RBT_Transplant z (ptr t) s = Some (transplanted k t s)"
proof -
  obtain q where q: "rep (RbtLeft s) (RbtRight s) (RbtParent s) (Color s) q t" using assms by (auto simp: spot_def)
  have "relink_left_first z (ptr t) s = Some (relinked k (ptr t) s)"
    using assms by (intro relink_eq [where P = "RbtParent s" and C = "Color s"]) (auto simp: spot_def)
  moreover have "RbtParent (relinked k (ptr t) s) = RbtParent s" by (cases k rule: par.cases) simp_all
  ultimately show ?thesis
    using assms ptr_0 [OF q]
    by (auto simp: RBT_Transplant_def transplanted_def field_defs unless_null_def spot_def Let_def)
qed

lemma transplanted_holds: "spot s k z t \<Longrightarrow> holds (transplanted k t s) k t"
  unfolding spot_def holds_def transplanted_def Let_def by (cases k rule: par.cases; cases t) auto

lemma transplanted_fields:
  "a \<notin> set (ctx_nodes k) \<Longrightarrow> RbtLeft (transplanted k t s) a = RbtLeft s a"
  "a \<notin> set (ctx_nodes k) \<Longrightarrow> RbtRight (transplanted k t s) a = RbtRight s a"
  "t = Lf \<or> a \<noteq> ptr t \<Longrightarrow> RbtParent (transplanted k t s) a = RbtParent s a"
  "Color (transplanted k t s) = Color s"
  by (cases k rule: par.cases; cases "t = Lf"; auto simp: transplanted_def)+

lemma rep_cong:
  "(\<And>a. a \<in> set (inorder t) \<Longrightarrow> L' a = L a \<and> R' a = R a \<and> P' a = P a \<and> C' a = C a)
   \<Longrightarrow> rep L' R' P' C' q t = rep L R P C q t"
  by (induction t arbitrary: q) auto

section \<open>The successor\<close>

lemma plug_append: "plug (k1 @ k2) t = plug k2 (plug k1 t)"
  by (induction k1 t rule: plug.induct) simp_all

lemma holds_append: "holds s (k1 @ k2) t \<longleftrightarrow> holds s k2 (plug k1 t)"
  by (induction k1 t rule: plug.induct) (simp_all add: holds_left holds_right)

lemma ctx_nodes_append: "ctx_nodes (k1 @ k2) = ctx_nodes k1 @ ctx_nodes k2"
  by (induction k1 rule: ctx_nodes.induct) simp_all

lemma set_inorder_plug: "set (inorder (plug k t)) = set (ctx_nodes k) \<union> set (inorder t)"
  by (induction k t rule: plug.induct) auto

lemma plug_Lf: "plug k t = Lf \<longleftrightarrow> k = [] \<and> t = Lf"
  by (induction k t rule: plug.induct) auto

lemma leftmost_ok:
  "holds s k r \<Longrightarrow> r \<noteq> Lf \<Longrightarrow>
     \<exists>kk d y X. leftmost (ptr r) s = Some y \<and> r = plug kk (Nd d Lf y X) \<and> ctx_pre kk = []"
proof (induction r arbitrary: k)
  case (Nd c l a r)
  note h = Nd.prems(1)
  have l: "get_left a s = Some (ptr l)" by (rule holds_get(1) [OF h])
  show ?case
  proof (cases "l = Lf")
    case True
    then have "leftmost a s = Some a" using l by (subst leftmost.simps) simp
    then show ?thesis using True by (intro exI [of _ "[]"]) auto
  next
    case False
    have "ptr l \<noteq> 0" using holds_ptr_0 [OF h [THEN down_left]] False by simp
    then have go: "leftmost a s = leftmost (ptr l) s" using l by (subst leftmost.simps) simp
    obtain kk d y X where "leftmost (ptr l) s = Some y" "l = plug kk (Nd d Lf y X)" "ctx_pre kk = []"
      using Nd.IH(1) [OF h [THEN down_left] False] by blast
    moreover have "ctx_pre (kk @ [FL c a r]) = ctx_pre kk" by (induction kk rule: ctx_pre.induct) simp_all
    ultimately show ?thesis using go
      by (intro exI [of _ "kk @ [FL c a r]"] exI [of _ d] exI [of _ y] exI [of _ X]) (simp add: plug_append)
  qed
qed simp

section \<open>Two children\<close>

lemma erase_replace_ok:
  assumes sp: "spot s k z (Nd d Lf y r)" and l: "RbtLeft s z = ptr l" "l \<noteq> Lf" "Color s z = c"
    and rep: "rep (RbtLeft s) (RbtRight s) (RbtParent s) (Color s) z l"
    and dist: "distinct (ctx_nodes k @ inorder l @ z # y # inorder r)"
  shows "\<exists>s'. erase_replace z y s = Some s' \<and> holds s' k (Nd c l y r)"
proof -
  define s1 where "s1 = transplanted k (Nd d Lf y r) s"
  have tr: "RBT_Transplant z y s = Some s1" using Transplant_eq [OF sp] by (simp add: s1_def)
  have h1: "holds s1 k (Nd d Lf y r)" using transplanted_holds [OF sp] by (simp add: s1_def)
  have nin: "a \<notin> set (ctx_nodes k) \<and> a \<noteq> y" if "a \<in> set (inorder l)" for a using dist that by auto
  have keep: "rep (RbtLeft s1) (RbtRight s1) (RbtParent s1) (Color s1) z l"
    using rep nin by (subst rep_cong [where L = "RbtLeft s" and R = "RbtRight s" and P = "RbtParent s" and C = "Color s"])
      (auto simp: s1_def transplanted_fields)
  have z: "RbtLeft s1 z = ptr l" "Color s1 z = c" "z \<noteq> 0"
    using l dist sp by (auto simp: s1_def transplanted_fields spot_def)
  define s2 where "s2 = s1\<lparr> RbtLeft := (RbtLeft s1)(y := ptr l), RbtParent := (RbtParent s1)(ptr l := y), Color := (Color s1)(y := c) \<rparr>"
  have l0: "ptr l \<noteq> 0" using ptr_0 [OF rep] l by simp
  have "erase_replace z y s = Some s2"
    using tr z l0 holds_node(1) [OF h1] by (simp add: erase_replace_def field_defs s2_def)
  moreover have "holds s2 k (Nd c l y r)"
    using h1 keep l0 dist ptr_in [OF l(2)] unfolding holds_def s2_def by (cases l) auto
  ultimately show ?thesis by blast
qed

lemma erase_detach_ok:
  assumes h: "holds s (kk @ FR c l z # k) (Nd d Lf y X)" and kk: "kk \<noteq> []"
  shows "\<exists>s'. erase_detach z y (ptr X) s = Some s' \<and> spot s' k z (Nd d Lf y (plug kk X)) \<and> RbtLeft s' z = ptr l \<and> Color s' z = c
     \<and> rep (RbtLeft s') (RbtRight s') (RbtParent s') (Color s') z l \<and> distinct (ctx_nodes k @ inorder l @ z # y # inorder (plug kk X))"
proof -
  have sp: "spot s (kk @ FR c l z # k) y X" using spot_child [OF h] by simp
  define s1 where "s1 = transplanted (kk @ FR c l z # k) X s"
  have tr: "RBT_Transplant y (ptr X) s = Some s1" using Transplant_eq [OF sp] by (simp add: s1_def)
  have h1: "holds s1 k (Nd c l z (plug kk X))"
    using transplanted_holds [OF sp] by (simp add: s1_def holds_append holds_right)
  have yn: "y \<noteq> 0" "y \<notin> set (ctx_nodes (kk @ FR c l z # k))" "y \<notin> set (inorder X)" using sp by (auto simp: spot_def)
  then have y: "RbtLeft s1 y = 0" "Color s1 y = d"
    using holds_node [OF h] by (simp_all add: s1_def transplanted_fields)
  have dist: "distinct (ctx_nodes k @ inorder l @ z # y # inorder (plug kk X))"
    using h1 yn by (auto simp: holds_def ctx_nodes_append set_inorder_plug)
  define r where "r = plug kk X"
  have r: "r \<noteq> Lf" using kk by (simp add: r_def plug_Lf)
  have r0: "ptr r \<noteq> 0" using holds_ptr_0 [OF h1 [THEN down_right]] r by (simp add: r_def)
  define s2 where "s2 = s1\<lparr> RbtRight := (RbtRight s1)(y := ptr r), RbtParent := (RbtParent s1)(ptr r := y) \<rparr>"
  have "erase_detach z y (ptr X) s = Some s2"
    using tr holds_get(2) [OF h1] yn r0 by (simp add: erase_detach_def r_def s2_def field_defs)
  moreover have "spot s2 k z (Nd d Lf y r)" "RbtLeft s2 z = ptr l" "Color s2 z = c"
      "rep (RbtLeft s2) (RbtRight s2) (RbtParent s2) (Color s2) z l"
    using h1 [folded r_def] dist [folded r_def] y yn ptr_in [OF r] r unfolding spot_def holds_def s2_def by (cases r; force)+
  ultimately show ?thesis using dist unfolding r_def by blast
qed

section \<open>Unlinking\<close>

text \<open>What is left: the subtree \<open>t\<close> at \<open>x\<close> in the context \<open>k\<close>, which lacks the colour \<open>d\<close>.\<close>

definition unlinked :: "RBTColor \<Rightarrow> nat \<Rightarrow> nat \<Rightarrow> rbt \<Rightarrow> nat list \<Rightarrow> bool" where
  "unlinked d x xp s xs \<longleftrightarrow> (\<exists>k t. holds s k t \<and> x = ptr t \<and> xp = par k \<and> rb t \<and> ctx_rb k (bh t + (if d = RBT_BLACK then 1 else 0))
     \<and> (d = RBT_RED \<longrightarrow> tcol t = RBT_BLACK \<and> k \<noteq> []) \<and> inorder (plug k t) = xs)"

lemma ctx_rb_rename:
  "ctx_rb (kk @ FR c l z # k) n \<longleftrightarrow> ctx_rb (kk @ FR c l y # k) n"
  "kcol (kk @ FR c l z # k) = kcol (kk @ FR c l y # k)"
  by (induction kk n rule: ctx_rb.induct) (auto simp: neq_Nil_conv split: list.splits)

lemma erase_unlink_one:
  assumes h: "holds s k (Nd c l z r)" and inv: "rb (Nd c l z r)" "ctx_rb k (bh (Nd c l z r))" "c = RBT_RED \<longrightarrow> k \<noteq> []"
    and one: "l = Lf \<or> r = Lf"
  shows "\<exists>x xp s'. erase_unlink z s = Some (c, x, xp, s') \<and> unlinked c x xp s' (ctx_pre k @ inorder l @ inorder r @ ctx_post k)"
proof (cases "l = Lf")
  case True
  have sp: "spot s k z r" using spot_child [OF h] by simp
  have "erase_unlink z s = Some (c, ptr r, par k, transplanted k r s)"
    using holds_get [OF h] Transplant_eq [OF sp] True by (simp add: erase_unlink_def)
  moreover have "unlinked c (ptr r) (par k) (transplanted k r s) (ctx_pre k @ inorder l @ inorder r @ ctx_post k)"
    unfolding unlinked_def using transplanted_holds [OF sp] inv True
    by (intro exI [of _ k] exI [of _ r]) (auto simp: inorder_plug)
  ultimately show ?thesis by blast
next
  case False
  then have r: "r = Lf" using one by simp
  have sp: "spot s k z l" using spot_child [OF h] by simp
  have "ptr l \<noteq> 0" using holds_ptr_0 [OF h [THEN down_left]] False by simp
  then have "erase_unlink z s = Some (c, ptr l, par k, transplanted k l s)"
    using holds_get [OF h] Transplant_eq [OF sp] r by (simp add: erase_unlink_def)
  moreover have "unlinked c (ptr l) (par k) (transplanted k l s) (ctx_pre k @ inorder l @ inorder r @ ctx_post k)"
    unfolding unlinked_def using transplanted_holds [OF sp] inv r
    by (intro exI [of _ k] exI [of _ l]) (auto simp: inorder_plug)
  ultimately show ?thesis by blast
qed

text \<open>\<open>z\<close> ready to be replaced by its successor \<open>y\<close>, with \<open>x\<close> below \<open>xp\<close>.\<close>

lemma erase_prepare:
  assumes h: "holds s k (Nd c l z (plug kk (Nd d Lf y X)))"
  shows "\<exists>s1. (if par (kk @ FR c l z # k) = z then Some (y, s)
         else do { s \<leftarrow> erase_detach z y (ptr X) s; Some (par (kk @ FR c l z # k), s) }) = Some (par (kk @ FR c l y # k), s1)
     \<and> spot s1 k z (Nd d Lf y (plug kk X)) \<and> RbtLeft s1 z = ptr l \<and> Color s1 z = c
     \<and> rep (RbtLeft s1) (RbtRight s1) (RbtParent s1) (Color s1) z l \<and> distinct (ctx_nodes k @ inorder l @ z # y # inorder (plug kk X))"
proof (cases "kk = []")
  case True
  then show ?thesis using h spot_child [OF h] by (auto simp: holds_def)
next
  case False
  have hy: "holds s (kk @ FR c l z # k) (Nd d Lf y X)" using h by (simp add: holds_append holds_right)
  have "par (kk @ FR c l z # k) = par kk" "par kk \<in> set (ctx_nodes kk)"
    using False by (cases kk rule: par.cases; simp)+
  moreover have "z \<notin> set (ctx_nodes kk)" using hy by (auto simp: holds_def ctx_nodes_append)
  moreover have "par (kk @ FR c l y # k) = par kk" using False by (cases kk rule: par.cases) simp_all
  ultimately show ?thesis using erase_detach_ok [OF hy False] by auto
qed

lemma erase_unlink_two:
  assumes h: "holds s k (Nd c l z r)" and inv: "rb (Nd c l z r)" "ctx_rb k (bh (Nd c l z r))" "c = RBT_RED \<longrightarrow> k \<noteq> [] \<and> kcol k = RBT_BLACK"
    and two: "l \<noteq> Lf" "r \<noteq> Lf"
  shows "\<exists>d x xp s'. erase_unlink z s = Some (d, x, xp, s') \<and> unlinked d x xp s' (ctx_pre k @ inorder l @ inorder r @ ctx_post k)"
proof -
  have nz: "ptr l \<noteq> 0" "ptr r \<noteq> 0" using holds_ptr_0 [OF h [THEN down_left]] holds_ptr_0 [OF h [THEN down_right]] two by simp_all
  obtain kk d y X where y: "leftmost (ptr r) s = Some y" "r = plug kk (Nd d Lf y X)" "ctx_pre kk = []"
    using leftmost_ok [OF h [THEN down_right] two(2)] by blast
  have hy: "holds s (kk @ FR c l z # k) (Nd d Lf y X)" using h y(2) by (simp add: holds_append holds_right)
  obtain s1 where s1: "(if par (kk @ FR c l z # k) = z then Some (y, s)
         else do { s \<leftarrow> erase_detach z y (ptr X) s; Some (par (kk @ FR c l z # k), s) }) = Some (par (kk @ FR c l y # k), s1)"
      and sp: "spot s1 k z (Nd d Lf y (plug kk X))" "RbtLeft s1 z = ptr l" "Color s1 z = c"
      and rp: "rep (RbtLeft s1) (RbtRight s1) (RbtParent s1) (Color s1) z l" "distinct (ctx_nodes k @ inorder l @ z # y # inorder (plug kk X))"
    using erase_prepare [OF h [unfolded y(2)]] by blast
  obtain s2 where s2: "erase_replace z y s1 = Some s2" "holds s2 k (Nd c l y (plug kk X))"
    using erase_replace_ok [OF sp(1,2) two(1) sp(3) rp] by blast
  have "erase_unlink z s = Some (d, ptr X, par (kk @ FR c l y # k), s2)"
    using holds_get [OF h] holds_get [OF hy] nz y(1) s1 s2(1) by (simp add: erase_unlink_def)
  moreover have "unlinked d (ptr X) (par (kk @ FR c l y # k)) s2 (ctx_pre k @ inorder l @ inorder r @ ctx_post k)"
  proof -
    have rbt: "rb (plug (kk @ FR c l z # k) (Nd d Lf y X))" "tcol (plug (kk @ FR c l z # k) (Nd d Lf y X)) = RBT_BLACK \<or> k = []"
      using rb_plug [of k "Nd c l z r"] rb_plug_root [OF inv(2)] inv y(2) by (auto simp: plug_append)
    have "tcol (plug (kk @ FR c l z # k) (Nd d Lf y X)) = RBT_BLACK"
      using rbt(2) inv(3) not_red by (cases "k = []"; cases c) (auto simp: plug_append)
    then have u: "rb (Nd d Lf y X)" "ctx_rb (kk @ FR c l y # k) (bh (Nd d Lf y X))"
      using rb_unplug [OF rbt(1)] ctx_rb_rename(1) by blast+
    have "holds s2 (kk @ FR c l y # k) X" using s2(2) by (simp add: holds_append holds_right)
    moreover have "inorder (plug (kk @ FR c l y # k) X) = ctx_pre k @ inorder l @ inorder r @ ctx_post k"
      unfolding y(2) using y(3) by (simp add: plug_append inorder_plug)
    ultimately show ?thesis unfolding unlinked_def using u
      by (intro exI [of _ "kk @ FR c l y # k"] exI [of _ X]) auto
  qed
  ultimately show ?thesis by blast
qed

section \<open>RBT_Erase\<close>

lemma split_at: "z \<in> set (inorder t) \<Longrightarrow> \<exists>k c l r. t = plug k (Nd c l z r)"
proof (induction t)
  case (Nd c l a r)
  consider "z = a" | "z \<in> set (inorder l)" | "z \<in> set (inorder r)" using Nd.prems by auto
  then show ?case
  proof cases
    case 1
    then show ?thesis by (metis plug.simps(1))
  next
    case 2
    then obtain k d l' r' where "l = plug k (Nd d l' z r')" using Nd.IH(1) by blast
    then show ?thesis by (intro exI [of _ "k @ [FL c a r]"]) (simp add: plug_append, blast)
  next
    case 3
    then obtain k d l' r' where "r = plug k (Nd d l' z r')" using Nd.IH(2) by blast
    then show ?thesis by (intro exI [of _ "k @ [FR c l a]"]) (simp add: plug_append, blast)
  qed
qed simp

lemma unlinked_red: "unlinked RBT_RED x xp s xs \<Longrightarrow> rb_tree s xs"
  unfolding unlinked_def rb_tree_def by (metis add_0_right holds_plug rb_plug rb_plug_root RBTColor.distinct(1))

lemma unlinked_black: "unlinked RBT_BLACK x xp s xs \<Longrightarrow> \<exists>s'. RBT_EraseFixup x xp s = Some s' \<and> rb_tree s' xs"
  unfolding unlinked_def using EraseFixup_ok rb_blacken by (fastforce simp: erase_inv_def)

lemma rb_tree_frame:
  assumes "rb_tree s xs" and "z \<notin> set xs"
  shows "rb_tree (s\<lparr> RbtLeft := (RbtLeft s)(z := a), RbtRight := (RbtRight s)(z := b), RbtParent := (RbtParent s)(z := p) \<rparr>) xs"
proof -
  obtain t where "holds s [] t" "rb t" "tcol t = RBT_BLACK" "inorder t = xs" using assms(1) by (auto simp: rb_tree_def)
  then show ?thesis using assms(2) unfolding rb_tree_def by (intro exI [of _ t]) (auto simp: holds_def)
qed

lemma Erase_ok:
  assumes "rb_tree s xs" and "z \<in> set xs"
  shows "\<exists>s'. RBT_Erase z s = Some s' \<and> rb_tree s' (remove1 z xs) \<and> RbtLeft s' z = 0 \<and> RbtRight s' z = 0 \<and> RbtParent s' z = 0"
proof -
  obtain t where t: "holds s [] t" "rb t" "tcol t = RBT_BLACK" "inorder t = xs" using assms(1) by (auto simp: rb_tree_def)
  then obtain k c l r where z: "t = plug k (Nd c l z r)" using split_at assms(2) by blast
  have h: "holds s k (Nd c l z r)" using t(1) z holds_plug by blast
  have inv: "rb (Nd c l z r)" "ctx_rb k (bh (Nd c l z r))" "c = RBT_RED \<longrightarrow> k \<noteq> [] \<and> kcol k = RBT_BLACK"
    using rb_unplug [of k "Nd c l z r"] t z by auto
  have xs: "xs = (ctx_pre k @ inorder l) @ z # inorder r @ ctx_post k" "distinct xs"
    using t z by (auto simp: inorder_plug holds_def)
  then have rem: "remove1 z xs = ctx_pre k @ inorder l @ inorder r @ ctx_post k" by (simp add: remove1_append)
  obtain d x xp s1 where u: "erase_unlink z s = Some (d, x, xp, s1)" "unlinked d x xp s1 (remove1 z xs)"
    using erase_unlink_one [OF h inv(1,2)] erase_unlink_two [OF h inv] inv(3) unfolding rem by blast
  obtain s2 where s2: "(if d = RBT_BLACK then RBT_EraseFixup x xp s1 else Some s1) = Some s2" "rb_tree s2 (remove1 z xs)"
    using u(2) unlinked_black [of x xp s1] unlinked_red [of x xp s1] by (cases d) (simp_all, blast+)
  have "z \<notin> set (remove1 z xs)" using xs(2) by simp
  then show ?thesis
    using u(1) s2 rb_tree_frame [OF s2(2), of z 0 0 0] holds_node(1) [OF h] by (simp add: RBT_Erase_def field_defs)
qed

section \<open>Height\<close>

fun height :: "tr \<Rightarrow> nat" where
  "height Lf = 0"
| "height (Nd c l a r) = Suc (max (height l) (height r))"

lemma rb_size: "rb t \<Longrightarrow> 2 ^ bh t \<le> length (inorder t) + 1"
  by (induction t) auto

lemma rb_height: "rb t \<Longrightarrow> height t \<le> 2 * bh t + (if tcol t = RBT_RED then 1 else 0)"
  by (induction t) (auto split: if_splits)

lemma rb_height_bound:
  assumes "rb t" and "tcol t = RBT_BLACK"
  shows "2 ^ height t \<le> (length (inorder t) + 1)\<^sup>2"
proof -
  have "(2::nat) ^ height t \<le> 2 ^ (2 * bh t)" using rb_height [OF assms(1)] assms(2) by (intro power_increasing) simp_all
  also have "\<dots> = (2 ^ bh t)\<^sup>2" by (simp add: power_mult [symmetric] mult.commute)
  also have "\<dots> \<le> (length (inorder t) + 1)\<^sup>2" using rb_size [OF assms(1)] by (intro power_mono) simp_all
  finally show ?thesis .
qed

end
