(* ===== verification/Ready_Queue.thy ===== *)
theory Ready_Queue
  imports Kernel_Prelude "HOL-Library.Monad_Syntax" "HOL-Library.Multiset"
begin

text \<open>
  What the scheduler relies on in its queue of ready tasks: the abstract queue is the list of the tasks
  by key, tasks of the same key in the order of their arrival; putting a task in places it after the
  tasks whose key is not larger, and taking one out removes the first.
\<close>

section \<open>The abstract queue\<close>

fun ins_after :: "('t \<Rightarrow> 'k::linorder) \<Rightarrow> 't \<Rightarrow> 't list \<Rightarrow> 't list" where
  "ins_after f x [] = [x]"
| "ins_after f x (y # ys) = (if f y \<le> f x then y # ins_after f x ys else x # y # ys)"

lemma ins_after_split:
  "(\<forall>y \<in> set xs. f y \<le> f x) \<Longrightarrow> (\<forall>y \<in> set ys. f x < f y) \<Longrightarrow> ins_after f x (xs @ ys) = xs @ x # ys"
proof (induction xs)
  case Nil
  then show ?case by (cases ys) (auto dest: leD)
qed simp

lemma set_ins_after [simp]: "set (ins_after f x xs) = insert x (set xs)"
  by (induction xs) auto

lemma length_ins_after [simp]: "length (ins_after f x xs) = Suc (length xs)"
  by (induction xs) auto

lemma distinct_ins_after [simp]: "distinct (ins_after f x xs) \<longleftrightarrow> distinct xs \<and> x \<notin> set xs"
  by (induction xs) auto

lemma sorted_ins_after [simp]: "sorted (map f (ins_after f x xs)) \<longleftrightarrow> sorted (map f xs)"
  by (induction xs) (auto intro: order_trans)

lemma filter_ins_after:
  "sorted (map f xs) \<Longrightarrow> filter (\<lambda>y. f a = f y) (ins_after f x xs) = filter (\<lambda>y. f a = f y) xs @ filter (\<lambda>y. f a = f y) [x]"
proof (induction xs)
  case (Cons y xs)
  show ?case
  proof (cases "f y \<le> f x")
    case False
    then have "\<forall>u \<in> set (y # xs). f x < f u" using Cons.prems by auto
    then have "f a = f x \<Longrightarrow> filter (\<lambda>u. f a = f u) (y # xs) = []" by (auto simp: filter_empty_conv)
    then show ?thesis using False by auto
  qed (use Cons in auto)
qed simp

lemma ins_after_cong: "(\<And>y. y \<in> insert x (set xs) \<Longrightarrow> f y = g y) \<Longrightarrow> ins_after f x xs = ins_after g x xs"
  by (induction xs) auto

text \<open>Arrivals one after another give the stable sort.\<close>

lemma fold_ins_after_sorted: "sorted (map f ys) \<Longrightarrow> sorted (map f (fold (ins_after f) xs ys))"
  by (induction xs arbitrary: ys) simp_all

lemma fold_ins_after_filter:
  "sorted (map f ys) \<Longrightarrow>
     filter (\<lambda>y. f a = f y) (fold (ins_after f) xs ys) = filter (\<lambda>y. f a = f y) ys @ filter (\<lambda>y. f a = f y) xs"
  by (induction xs arbitrary: ys) (simp_all add: filter_ins_after)

lemma fold_ins_after_set: "set (fold (ins_after f) xs ys) = set xs \<union> set ys"
  by (induction xs arbitrary: ys) auto

lemma fold_ins_after_distinct: "distinct (fold (ins_after f) xs ys) \<longleftrightarrow> distinct (xs @ ys)"
  by (induction xs arbitrary: ys) auto

lemma fold_ins_after: "distinct xs \<Longrightarrow> fold (ins_after f) xs [] = sort_key f xs"
  by (intro properties_for_sort_key [symmetric])
    (auto simp: fold_ins_after_filter fold_ins_after_sorted set_eq_iff_mset_eq_distinct [symmetric] fold_ins_after_set fold_ins_after_distinct)

section \<open>The contract\<close>

fun enqueue_all :: "('t \<Rightarrow> 's \<Rightarrow> 's option) \<Rightarrow> 't list \<Rightarrow> 's \<Rightarrow> 's option" where
  "enqueue_all enq [] s = Some s"
| "enqueue_all enq (x # xs) s = do { s' \<leftarrow> enq x s; enqueue_all enq xs s' }"

fun pick_all :: "('s \<Rightarrow> ('t \<times> 's) option) \<Rightarrow> nat \<Rightarrow> 's \<Rightarrow> ('t list \<times> 's) option" where
  "pick_all pick 0 s = Some ([], s)"
| "pick_all pick (Suc n) s = do { (x, s') \<leftarrow> pick s; (xs, s'') \<leftarrow> pick_all pick n s'; Some (x # xs, s'') }"

locale ready_queue =
  fixes queue :: "'s \<Rightarrow> 't list \<Rightarrow> bool"
    and key :: "'s \<Rightarrow> 't \<Rightarrow> 'k::linorder"
    and able :: "'s \<Rightarrow> 't \<Rightarrow> bool"
    and enq :: "'t \<Rightarrow> 's \<Rightarrow> 's option"
    and pick :: "'s \<Rightarrow> ('t \<times> 's) option"
  assumes queue_sorted: "queue s xs \<Longrightarrow> sorted (map (key s) xs) \<and> distinct xs"
    and enq_law: "queue s xs \<Longrightarrow> able s x \<Longrightarrow> x \<notin> set xs \<Longrightarrow>
      \<exists>s'. enq x s = Some s' \<and> queue s' (ins_after (key s) x xs) \<and> key s' = key s \<and> able s' = able s"
    and pick_law: "queue s (x # xs) \<Longrightarrow> \<exists>s'. pick s = Some (x, s') \<and> queue s' xs \<and> key s' = key s"
begin

lemma enqueue_all_law:
  "queue s ys \<Longrightarrow> \<forall>x \<in> set xs. able s x \<Longrightarrow> distinct (xs @ ys) \<Longrightarrow>
     \<exists>s'. enqueue_all enq xs s = Some s' \<and> queue s' (fold (ins_after (key s)) xs ys) \<and> key s' = key s"
proof (induction xs arbitrary: s ys)
  case (Cons x xs)
  obtain s1 where s1: "enq x s = Some s1" "queue s1 (ins_after (key s) x ys)" "key s1 = key s" "able s1 = able s"
    using enq_law [OF Cons.prems(1), of x] Cons.prems(2,3) by auto
  then show ?case using Cons.IH [OF s1(2)] Cons.prems(2,3) by auto
qed simp

lemma pick_all_law: "queue s xs \<Longrightarrow> \<exists>s'. pick_all pick (length xs) s = Some (xs, s') \<and> queue s' []"
proof (induction xs arbitrary: s)
  case (Cons x xs)
  then obtain s1 where "pick s = Some (x, s1)" "queue s1 xs" using pick_law by blast
  then show ?case using Cons.IH [of s1] by auto
qed simp

text \<open>Tasks that arrive at an empty queue leave it by key, and in the order of arrival when their keys are the same.\<close>

lemma drains_sorted:
  assumes "queue s []" and "\<forall>x \<in> set xs. able s x" and "distinct xs"
  shows "\<exists>s1 s2. enqueue_all enq xs s = Some s1 \<and> pick_all pick (length xs) s1 = Some (sort_key (key s) xs, s2) \<and> queue s2 []"
proof -
  obtain s1 where s1: "enqueue_all enq xs s = Some s1" "queue s1 (sort_key (key s) xs)"
    using enqueue_all_law [OF assms(1,2)] assms(3) by (auto simp: fold_ins_after)
  then show ?thesis using pick_all_law [OF s1(2)] by auto
qed

end

end
