(* ===== verification/Run_Queue.thy ===== *)
theory Run_Queue
  imports Rb_Unlink Ready_Queue
begin

text \<open>
  The run queue of the scheduler: \<^verbatim>\<open>CFSEnqueue\<close>, \<^verbatim>\<open>CFSDequeue\<close> and \<^verbatim>\<open>CFSPickNext\<close> of
  \<^verbatim>\<open>kernel/task/scheduler.cpp\<close> over the red-black tree, and the state of the scheduler and its tasks
  (\<^verbatim>\<open>kernel/task/task.hpp\<close>). A field of \<^verbatim>\<open>Task\<close> is a function of the address of the task.
\<close>

section \<open>State\<close>

datatype TaskState = READY | RUNNING | BLOCKED | TERMINATED | ZOMBIE

abbreviation MAX_TASK :: nat where "MAX_TASK \<equiv> 256"
abbreviation PID_IDLE :: u64 where "PID_IDLE \<equiv> 0"
abbreviation TIMER_WHEEL_SIZE :: nat where "TIMER_WHEEL_SIZE \<equiv> 512"

record sched =
  Tree :: rbt
  CFSLeftmost :: nat
  MinVRuntime :: u64
  SleepWheel :: "nat \<Rightarrow> nat"
  TotalSleepingTasks :: u64
  LastCheckedTick :: u64
  TaskArray :: "nat \<Rightarrow> nat"
  ActiveTask :: u64
  CurrentTaskIndex :: u64
  ForceReschedule :: bool
  pid :: "nat \<Rightarrow> u64"
  PGID :: "nat \<Rightarrow> u64"
  PGIDTaskPtr :: "nat \<Rightarrow> nat"
  Signals :: "nat \<Rightarrow> u32"
  RSP :: "nat \<Rightarrow> u64"
  CR3 :: "nat \<Rightarrow> u64"
  StackBase :: "nat \<Rightarrow> u64"
  StackSize :: "nat \<Rightarrow> u64"
  FPU_Region :: "nat \<Rightarrow> u64"
  State :: "nat \<Rightarrow> TaskState"
  BlockReason :: "nat \<Rightarrow> u64"
  SleepTick :: "nat \<Rightarrow> u64"
  NextWaitTask :: "nat \<Rightarrow> nat"
  NextSleepQueue :: "nat \<Rightarrow> nat"
  NiceValue :: "nat \<Rightarrow> int"
  vruntime :: "nat \<Rightarrow> u64"
  Weight :: "nat \<Rightarrow> u64"
  IsSudoOrAdmin :: "nat \<Rightarrow> bool"

definition GetCurrentTaskPtr :: "sched \<Rightarrow> nat" where
  "GetCurrentTaskPtr s = (if unat (CurrentTaskIndex s) < MAX_TASK then TaskArray s (unat (CurrentTaskIndex s)) else 0)"

lemma GetCurrentTaskPtr_frame [simp]:
  "GetCurrentTaskPtr (s\<lparr> Tree := t \<rparr>) = GetCurrentTaskPtr s"
  "GetCurrentTaskPtr (s\<lparr> CFSLeftmost := n \<rparr>) = GetCurrentTaskPtr s"
  "GetCurrentTaskPtr (s\<lparr> ForceReschedule := b \<rparr>) = GetCurrentTaskPtr s"
  by (simp_all add: GetCurrentTaskPtr_def)

section \<open>Operations\<close>

text \<open>The places \<^verbatim>\<open>Task **Link\<close> points to: the root pointer or a child pointer of a task.\<close>

datatype link = AtRoot | LeftOf nat | RightOf nat

fun get_link :: "link \<Rightarrow> rbt \<Rightarrow> nat option" where
  "get_link AtRoot t = Some (Root t)"
| "get_link (LeftOf p) t = get_left p t"
| "get_link (RightOf p) t = get_right p t"

fun set_link :: "link \<Rightarrow> nat \<Rightarrow> rbt \<Rightarrow> rbt option" where
  "set_link AtRoot x t = Some (t\<lparr> Root := x \<rparr>)"
| "set_link (LeftOf p) x t = set_left p x t"
| "set_link (RightOf p) x t = set_right p x t"

partial_function (option) enqueue_descend :: "u64 \<Rightarrow> (nat \<Rightarrow> u64) \<Rightarrow> link \<Rightarrow> nat \<Rightarrow> bool \<Rightarrow> rbt \<Rightarrow> (link \<times> nat \<times> bool) option" where
  "enqueue_descend v vr lk parent lm t = do {
     n \<leftarrow> get_link lk t;
     if n = 0 then Some (lk, parent, lm)
     else if v < vr n then enqueue_descend v vr (LeftOf n) n lm t
     else enqueue_descend v vr (RightOf n) n False t }"

definition enqueue_link :: "link \<Rightarrow> nat \<Rightarrow> nat \<Rightarrow> rbt \<Rightarrow> rbt option" where
  "enqueue_link lk x parent t = do {
     t \<leftarrow> set_parent x parent t;
     t \<leftarrow> set_left x 0 t;
     t \<leftarrow> set_right x 0 t;
     t \<leftarrow> set_color x RBT_RED t;
     set_link lk x t }"

definition CFSEnqueue :: "nat \<Rightarrow> sched \<Rightarrow> sched option" where
  "CFSEnqueue NewTask s =
     (if NewTask = 0 \<or> pid s NewTask = PID_IDLE then Some s
      else do {
        (lk, parent, lm) \<leftarrow> enqueue_descend (vruntime s NewTask) (vruntime s) AtRoot 0 True (Tree s);
        t \<leftarrow> enqueue_link lk NewTask parent (Tree s);
        let s = s\<lparr> Tree := t, CFSLeftmost := (if lm then NewTask else CFSLeftmost s) \<rparr>;
        t \<leftarrow> RBT_InsertFixup NewTask (Tree s);
        let s = s\<lparr> Tree := t \<rparr>;
        let current = GetCurrentTaskPtr s;
        Some (if current \<noteq> 0 \<and> vruntime s NewTask < vruntime s current then s\<lparr> ForceReschedule := True \<rparr> else s) })"

definition CFSDequeue :: "nat \<Rightarrow> sched \<Rightarrow> sched option" where
  "CFSDequeue T s = do {
     lm \<leftarrow> (if T = CFSLeftmost s then do {
         nl \<leftarrow> get_right T (Tree s);
         if nl \<noteq> 0 then leftmost nl (Tree s) else get_parent T (Tree s) }
       else Some (CFSLeftmost s));
     t \<leftarrow> RBT_Erase T (Tree s);
     Some (s\<lparr> CFSLeftmost := lm, Tree := t \<rparr>) }"

definition CFSPickNext :: "sched \<Rightarrow> (nat \<times> sched) option" where
  "CFSPickNext s = (let n = CFSLeftmost s in
     if n \<noteq> 0 then do { s \<leftarrow> CFSDequeue n s; Some (n, s) } else Some (n, s))"

section \<open>The queue the tree stands for\<close>

definition run_queue :: "sched \<Rightarrow> nat list \<Rightarrow> bool" where
  "run_queue s xs \<longleftrightarrow> rb_tree (Tree s) xs \<and> sorted (map (vruntime s) xs) \<and> CFSLeftmost s = (case xs of [] \<Rightarrow> 0 | x # _ \<Rightarrow> x)"

lemma rep_nonnull: "rep L R P C q t \<Longrightarrow> 0 \<notin> set (inorder t)"
  by (induction t arbitrary: q) auto

lemma rb_tree_nodes: "rb_tree s xs \<Longrightarrow> distinct xs \<and> 0 \<notin> set xs"
  unfolding rb_tree_def holds_def using rep_nonnull by fastforce

lemma rb_tree_empty: "rb_tree s [] \<longleftrightarrow> Root s = 0"
proof
  assume "rb_tree s []"
  then obtain t where "holds s [] t" "inorder t = []" by (auto simp: rb_tree_def)
  then show "Root s = 0" by (cases t) (auto simp: holds_def)
next
  assume "Root s = 0"
  then show "rb_tree s []" unfolding rb_tree_def by (intro exI [of _ Lf]) (simp add: holds_def)
qed

section \<open>Enqueue\<close>

lemma if_force: "(if b then s\<lparr> ForceReschedule := True \<rparr> else s) = s\<lparr> ForceReschedule := (ForceReschedule s \<or> b) \<rparr>" for s :: sched
  by (cases s) simp

fun link_of :: "frame list \<Rightarrow> link" where
  "link_of [] = AtRoot"
| "link_of (FL c a r # k) = LeftOf a"
| "link_of (FR c l a # k) = RightOf a"

lemma get_link_of: "holds s k t \<Longrightarrow> get_link (link_of k) s = Some (ptr t)"
  by (cases k rule: link_of.cases) (auto simp: holds_def field_defs)

lemma enqueue_descend_ok:
  "holds s k t \<Longrightarrow> sorted (map vr (inorder t)) \<Longrightarrow> \<forall>u \<in> set (ctx_pre k). vr u \<le> v \<Longrightarrow> \<forall>u \<in> set (ctx_post k). v < vr u \<Longrightarrow>
   (lm \<longleftrightarrow> ctx_pre k = []) \<Longrightarrow>
     \<exists>k'. enqueue_descend v vr (link_of k) (par k) lm s = Some (link_of k', par k', ctx_pre k' = [])
       \<and> plug k' Lf = plug k t \<and> (\<forall>u \<in> set (ctx_pre k'). vr u \<le> v) \<and> (\<forall>u \<in> set (ctx_post k'). v < vr u)"
proof (induction t arbitrary: k lm)
  case Lf
  then have "enqueue_descend v vr (link_of k) (par k) lm s = Some (link_of k, par k, ctx_pre k = [])"
    using get_link_of [OF Lf.prems(1)] by (subst enqueue_descend.simps) simp
  then show ?case using Lf.prems by blast
next
  case (Nd c l a r)
  note h = Nd.prems(1)
  have a: "a \<noteq> 0" "get_link (link_of k) s = Some a" using holds_node(1) [OF h] get_link_of [OF h] by simp_all
  have srt: "sorted (map vr (inorder l))" "sorted (map vr (inorder r))"
      "\<forall>u \<in> set (inorder l). vr u \<le> vr a" "\<forall>u \<in> set (inorder r). vr a \<le> vr u"
    using Nd.prems(2) by (auto simp: sorted_append)
  show ?case
  proof (cases "v < vr a")
    case True
    then have "enqueue_descend v vr (link_of k) (par k) lm s = enqueue_descend v vr (link_of (FL c a r # k)) (par (FL c a r # k)) lm s"
      using a by (subst enqueue_descend.simps) simp
    moreover have "\<forall>u \<in> set (ctx_post (FL c a r # k)). v < vr u" using True srt(4) Nd.prems(4) by fastforce
    ultimately show ?thesis
      using Nd.IH(1) [OF h [THEN down_left] srt(1), of lm] Nd.prems(3,5) by auto
  next
    case False
    then have "enqueue_descend v vr (link_of k) (par k) lm s = enqueue_descend v vr (link_of (FR c l a # k)) (par (FR c l a # k)) False s"
      using a by (subst enqueue_descend.simps) simp
    moreover have "\<forall>u \<in> set (ctx_pre (FR c l a # k)). vr u \<le> v" using False srt(3) Nd.prems(3) by fastforce
    ultimately show ?thesis
      using Nd.IH(2) [OF h [THEN down_right] srt(2), of False] Nd.prems(4) by auto
  qed
qed

lemma enqueue_link_ok:
  assumes "holds s k Lf" and "x \<noteq> 0" and "x \<notin> set (ctx_nodes k)"
  shows "\<exists>s'. enqueue_link (link_of k) x (par k) s = Some s' \<and> holds s' k (Nd RBT_RED Lf x Lf)"
  using assms by (cases k rule: link_of.cases) (auto simp: enqueue_link_def field_defs holds_def)

lemma set_inorder_ctx: "set (ctx_nodes k) = set (ctx_pre k) \<union> set (ctx_post k)"
  by (induction k rule: ctx_nodes.induct) auto

lemma CFSEnqueue_ok:
  assumes rq: "run_queue s xs" and x: "x \<noteq> 0" "pid s x \<noteq> PID_IDLE" "x \<notin> set xs"
  shows "\<exists>s' t lm. CFSEnqueue x s = Some s' \<and> run_queue s' (ins_after (vruntime s) x xs)
     \<and> s' = s\<lparr> CFSLeftmost := lm, Tree := t, ForceReschedule := (ForceReschedule s \<or> GetCurrentTaskPtr s \<noteq> 0 \<and> vruntime s x < vruntime s (GetCurrentTaskPtr s)) \<rparr>"
proof -
  obtain t0 where t0: "holds (Tree s) [] t0" "rb t0" "tcol t0 = RBT_BLACK" "inorder t0 = xs"
    using rq by (auto simp: run_queue_def rb_tree_def)
  obtain k where k: "enqueue_descend (vruntime s x) (vruntime s) AtRoot 0 True (Tree s) = Some (link_of k, par k, ctx_pre k = [])"
      "plug k Lf = t0" and le: "\<forall>u \<in> set (ctx_pre k). vruntime s u \<le> vruntime s x" "\<forall>u \<in> set (ctx_post k). vruntime s x < vruntime s u"
    using enqueue_descend_ok [OF t0(1), of "vruntime s" "vruntime s x" True] t0(4) rq by (auto simp: run_queue_def)
  have xs: "xs = ctx_pre k @ ctx_post k" using k(2) t0(4) by (auto simp: inorder_plug)
  have hk: "holds (Tree s) k Lf" "ctx_rb k 0" using k(2) t0 holds_plug [of "Tree s" k Lf] rb_unplug [of k Lf] by auto
  obtain t1 where t1: "enqueue_link (link_of k) x (par k) (Tree s) = Some t1" "holds t1 k (Nd RBT_RED Lf x Lf)"
    using enqueue_link_ok [OF hk(1) x(1)] x(3) xs set_inorder_ctx by auto
  obtain t2 where t2: "RBT_InsertFixup x t1 = Some t2" "rb_tree t2 (ctx_pre k @ x # ctx_post k)"
    using InsertFixup_ok [OF t1(2) hk(2)] by blast
  have ins: "ins_after (vruntime s) x xs = ctx_pre k @ x # ctx_post k" unfolding xs by (rule ins_after_split [OF le])
  define s' where "s' = s\<lparr> CFSLeftmost := (if ctx_pre k = [] then x else CFSLeftmost s), Tree := t2,
     ForceReschedule := (ForceReschedule s \<or> GetCurrentTaskPtr s \<noteq> 0 \<and> vruntime s x < vruntime s (GetCurrentTaskPtr s)) \<rparr>"
  have "CFSEnqueue x s = Some s'"
    unfolding CFSEnqueue_def s'_def Let_def if_force using x(1,2) by (simp only: k(1)) (simp add: t1(1) t2(1))
  moreover have "run_queue s' (ins_after (vruntime s) x xs)"
  proof -
    have "CFSLeftmost s' = (case ctx_pre k @ x # ctx_post k of [] \<Rightarrow> 0 | y # _ \<Rightarrow> y)"
      using rq xs by (cases "ctx_pre k") (simp_all add: run_queue_def s'_def)
    moreover have "sorted (map (vruntime s) (ins_after (vruntime s) x xs))" using rq by (simp add: run_queue_def)
    ultimately show ?thesis using t2(2) unfolding run_queue_def ins by (simp add: s'_def)
  qed
  ultimately show ?thesis unfolding s'_def by blast
qed

section \<open>Dequeue\<close>

lemma first_post: "ctx_pre k = [] \<Longrightarrow> (case ctx_post k of [] \<Rightarrow> 0 | x # _ \<Rightarrow> x) = par k"
  by (cases k rule: par.cases) auto

text \<open>The new leftmost task when the leftmost one leaves.\<close>

lemma next_leftmost:
  assumes "holds t k (Nd c Lf x r)" and "ctx_pre k = []"
  shows "do { nl \<leftarrow> get_right x t; if nl \<noteq> 0 then leftmost nl t else get_parent x t }
     = Some (case inorder r @ ctx_post k of [] \<Rightarrow> 0 | y # _ \<Rightarrow> y)"
proof (cases "r = Lf")
  case True
  then show ?thesis using holds_get [OF assms(1)] first_post [OF assms(2)] by simp
next
  case False
  note hr = assms(1) [THEN down_right]
  obtain kk d y X where y: "leftmost (ptr r) t = Some y" "r = plug kk (Nd d Lf y X)" "ctx_pre kk = []"
    using leftmost_ok [OF hr False] by blast
  have "inorder r = y # inorder X @ ctx_post kk" unfolding y(2) using y(3) by (simp add: inorder_plug)
  then show ?thesis using holds_get(2) [OF assms(1)] holds_ptr_0 [OF hr] False y(1) by simp
qed

lemma CFSDequeue_ok:
  assumes rq: "run_queue s xs" and x: "x \<in> set xs"
  shows "\<exists>t lm. CFSDequeue x s = Some (s\<lparr> CFSLeftmost := lm, Tree := t \<rparr>) \<and> run_queue (s\<lparr> CFSLeftmost := lm, Tree := t \<rparr>) (remove1 x xs)"
proof -
  obtain t where t: "holds (Tree s) [] t" "inorder t = xs" using rq by (auto simp: run_queue_def rb_tree_def)
  obtain k c l r where z: "t = plug k (Nd c l x r)" using split_at x t(2) by blast
  have xs: "xs = (ctx_pre k @ inorder l) @ x # inorder r @ ctx_post k" using t(2) z by (simp add: inorder_plug)
  have dist: "distinct xs" using rq rb_tree_nodes by (auto simp: run_queue_def)
  obtain t' where t': "RBT_Erase x (Tree s) = Some t'" "rb_tree t' (remove1 x xs)"
    using Erase_ok [of "Tree s" xs x] x rq by (auto simp: run_queue_def)
  have lm: "(if x = CFSLeftmost s then do { nl \<leftarrow> get_right x (Tree s);
         if nl \<noteq> 0 then leftmost nl (Tree s) else get_parent x (Tree s) } else Some (CFSLeftmost s))
     = Some (case remove1 x xs of [] \<Rightarrow> 0 | y # _ \<Rightarrow> y)"
  proof (cases "ctx_pre k @ inorder l = []")
    case True
    then have "l = Lf" by (cases l) simp_all
    then have "holds (Tree s) k (Nd c Lf x r)" using t(1) z holds_plug by blast
    then show ?thesis using next_leftmost True xs rq by (simp add: run_queue_def)
  next
    case False
    then obtain y ys where y: "ctx_pre k @ inorder l = y # ys" by (cases "ctx_pre k @ inorder l") auto
    then have "x \<noteq> y" "CFSLeftmost s = y" using dist xs rq by (auto simp: run_queue_def)
    then show ?thesis using xs y by simp
  qed
  have "sorted (map (vruntime s) (remove1 x xs))" using rq by (simp add: run_queue_def sorted_map_remove1)
  then show ?thesis
    using t' unfolding CFSDequeue_def lm
    by (intro exI [of _ t'] exI [of _ "case remove1 x xs of [] \<Rightarrow> 0 | y # _ \<Rightarrow> y"]) (simp add: run_queue_def)
qed

lemma CFSPickNext_Cons:
  assumes "run_queue s (x # xs)"
  shows "\<exists>t lm. CFSPickNext s = Some (x, s\<lparr> CFSLeftmost := lm, Tree := t \<rparr>) \<and> run_queue (s\<lparr> CFSLeftmost := lm, Tree := t \<rparr>) xs"
proof -
  have x: "CFSLeftmost s = x" "x \<noteq> 0" using assms rb_tree_nodes [of "Tree s" "x # xs"] by (auto simp: run_queue_def)
  obtain t lm where "CFSDequeue x s = Some (s\<lparr> CFSLeftmost := lm, Tree := t \<rparr>)" "run_queue (s\<lparr> CFSLeftmost := lm, Tree := t \<rparr>) xs"
    using CFSDequeue_ok [OF assms, of x] by auto
  then show ?thesis using x by (intro exI [of _ t] exI [of _ lm]) (simp add: CFSPickNext_def)
qed

lemma CFSPickNext_Nil: "run_queue s [] \<Longrightarrow> CFSPickNext s = Some (0, s)"
  by (simp add: run_queue_def CFSPickNext_def)

section \<open>Contract\<close>

interpretation cfs: ready_queue run_queue vruntime "\<lambda>s x. x \<noteq> 0 \<and> pid s x \<noteq> PID_IDLE" CFSEnqueue CFSPickNext
proof unfold_locales
  fix s xs
  assume "run_queue s xs"
  then show "sorted (map (vruntime s) xs) \<and> distinct xs" using rb_tree_nodes by (auto simp: run_queue_def)
next
  fix s xs x
  assume "run_queue s xs" "x \<noteq> 0 \<and> pid s x \<noteq> PID_IDLE" "x \<notin> set xs"
  then show "\<exists>s'. CFSEnqueue x s = Some s' \<and> run_queue s' (ins_after (vruntime s) x xs) \<and> vruntime s' = vruntime s
     \<and> (\<lambda>x. x \<noteq> 0 \<and> pid s' x \<noteq> PID_IDLE) = (\<lambda>x. x \<noteq> 0 \<and> pid s x \<noteq> PID_IDLE)"
    using CFSEnqueue_ok [of s xs x] by auto
next
  fix s x xs
  assume "run_queue s (x # xs)"
  then show "\<exists>s'. CFSPickNext s = Some (x, s') \<and> run_queue s' xs \<and> vruntime s' = vruntime s"
    using CFSPickNext_Cons [of s x xs] by auto
qed

section \<open>Properties\<close>

text \<open>C3. Erasing a task from the red-black tree. For every heap that holds a red-black tree with the tasks \<open>xs\<close> in
  order and every task of it, \<^verbatim>\<open>RBT_Erase\<close> ends, dereferences no null pointer, and leaves a red-black tree (black
  root, no red task below a red one, equal black heights, parent pointers right) with exactly the other tasks in
  the same order; the task's links are cleared.
\<close>

theorem RBT_Erase_correct:
  assumes "rb_tree s xs" and "z \<in> set xs"
  shows "\<exists>s'. RBT_Erase z s = Some s' \<and> rb_tree s' (remove1 z xs) \<and> RbtLeft s' z = 0 \<and> RbtRight s' z = 0 \<and> RbtParent s' z = 0"
  by (rule Erase_ok [OF assms])

text \<open>C2. The run queue is a stable priority queue. Tasks put into an empty run queue by \<^verbatim>\<open>CFSEnqueue\<close> and taken out by
  \<^verbatim>\<open>CFSPickNext\<close> come out in the order of their virtual run times, tasks with the same virtual run time in the
  order in which they were put in, and the queue is empty again.
\<close>

theorem CFS_drains_by_vruntime:
  assumes "run_queue s []" and "\<forall>x \<in> set xs. x \<noteq> 0 \<and> pid s x \<noteq> PID_IDLE" and "distinct xs"
  shows "\<exists>s1 s2. enqueue_all CFSEnqueue xs s = Some s1
     \<and> pick_all CFSPickNext (length xs) s1 = Some (sort_key (vruntime s) xs, s2) \<and> run_queue s2 []"
  by (rule cfs.drains_sorted [OF assms])

text \<open>The run queue keeps its invariant under every operation: the tree is red-black and sorted by virtual run time
  and \<^verbatim>\<open>CFSLeftmost\<close> points to its first task. \<^verbatim>\<open>CFSEnqueue\<close> places the task after those whose virtual run time is
  not larger, \<^verbatim>\<open>CFSDequeue\<close> removes the task, wherever it is, and nothing else.
\<close>

theorem run_queue_refines:
  assumes "run_queue s xs"
  shows "(x \<noteq> 0 \<and> pid s x \<noteq> PID_IDLE \<and> x \<notin> set xs \<longrightarrow>
       (\<exists>s'. CFSEnqueue x s = Some s' \<and> run_queue s' (ins_after (vruntime s) x xs)))
     \<and> (x \<in> set xs \<longrightarrow> (\<exists>s'. CFSDequeue x s = Some s' \<and> run_queue s' (remove1 x xs)))
     \<and> (\<exists>s'. CFSPickNext s = Some (case xs of [] \<Rightarrow> 0 | y # _ \<Rightarrow> y, s') \<and> run_queue s' (tl xs))"
proof (intro conjI impI)
  show "\<exists>s'. CFSEnqueue x s = Some s' \<and> run_queue s' (ins_after (vruntime s) x xs)"
    if "x \<noteq> 0 \<and> pid s x \<noteq> PID_IDLE \<and> x \<notin> set xs"
    using CFSEnqueue_ok [OF assms, of x] that by blast
  show "\<exists>s'. CFSDequeue x s = Some s' \<and> run_queue s' (remove1 x xs)" if "x \<in> set xs"
    using CFSDequeue_ok [OF assms that] by blast
  show "\<exists>s'. CFSPickNext s = Some (case xs of [] \<Rightarrow> 0 | y # _ \<Rightarrow> y, s') \<and> run_queue s' (tl xs)"
    using assms CFSPickNext_Nil [of s] CFSPickNext_Cons [of s] by (cases xs) auto
qed

text \<open>The tree is balanced: with \<open>n\<close> tasks in the run queue no path from the root is longer than \<open>2 log (n + 1)\<close>,
  which bounds the loops of \<^verbatim>\<open>CFSEnqueue\<close> and \<^verbatim>\<open>CFSDequeue\<close>.
\<close>

theorem run_queue_balanced:
  assumes "run_queue s xs"
  shows "\<exists>t. holds (Tree s) [] t \<and> inorder t = xs \<and> 2 ^ height t \<le> (length xs + 1)\<^sup>2"
proof -
  obtain t where "holds (Tree s) [] t" "rb t" "tcol t = RBT_BLACK" "inorder t = xs"
    using assms by (auto simp: run_queue_def rb_tree_def)
  then show ?thesis using rb_height_bound [of t] by auto
qed

section \<open>Witnesses\<close>

definition sample_tree :: rbt where
  "sample_tree = \<lparr> Root = 2, RbtLeft = (\<lambda>a. if a = 2 then 1 else 0), RbtRight = (\<lambda>a. if a = 2 then 3 else 0),
     RbtParent = (\<lambda>a. if a = 1 \<or> a = 3 then 2 else 0), Color = (\<lambda>a. if a = 2 then RBT_BLACK else RBT_RED) \<rparr>"

lemma sample_tree_rb: "rb_tree sample_tree [1, 2, 3]"
  unfolding rb_tree_def
  by (intro exI [of _ "Nd RBT_BLACK (Nd RBT_RED Lf 1 Lf) 2 (Nd RBT_RED Lf 3 Lf)"]) (simp add: holds_def sample_tree_def)

definition sample_sched :: sched where
  "sample_sched = \<lparr> Tree = sample_tree, CFSLeftmost = 1, MinVRuntime = 0, SleepWheel = (\<lambda>_. 0), TotalSleepingTasks = 0,
     LastCheckedTick = 0, TaskArray = (\<lambda>i. i), ActiveTask = 0, CurrentTaskIndex = 0, ForceReschedule = False,
     pid = of_nat, PGID = (\<lambda>_. 0), PGIDTaskPtr = (\<lambda>_. 0), Signals = (\<lambda>_. 0), RSP = (\<lambda>_. 0), CR3 = (\<lambda>_. 0), StackBase = (\<lambda>_. 0),
     StackSize = (\<lambda>_. 0), FPU_Region = (\<lambda>_. 0), State = (\<lambda>_. READY),
     BlockReason = (\<lambda>_. 0), SleepTick = (\<lambda>_. 0), NextWaitTask = (\<lambda>_. 0), NextSleepQueue = (\<lambda>_. 0), NiceValue = (\<lambda>_. 0),
     vruntime = (\<lambda>a. if a = 4 then 15 else of_nat a * 10), Weight = (\<lambda>_. 1024), IsSudoOrAdmin = (\<lambda>_. False) \<rparr>"

definition empty_sched :: sched where
  "empty_sched = sample_sched\<lparr> Tree := sample_tree\<lparr> Root := 0 \<rparr>, CFSLeftmost := 0 \<rparr>"

lemma sample_sched_queue: "run_queue sample_sched [1, 2, 3]"
  using sample_tree_rb by (simp add: run_queue_def sample_sched_def)

lemma empty_sched_queue: "run_queue empty_sched []"
  by (simp add: run_queue_def rb_tree_empty empty_sched_def)

lemma RBT_Erase_correct_witness: "\<exists>s'. RBT_Erase 2 sample_tree = Some s' \<and> rb_tree s' [1, 3]"
  using RBT_Erase_correct [OF sample_tree_rb, of 2] by auto

lemma CFS_drains_by_vruntime_witness:
  "\<exists>s1 s2. enqueue_all CFSEnqueue [3, 4, 1] empty_sched = Some s1 \<and> pick_all CFSPickNext 3 s1 = Some ([1, 4, 3], s2)"
proof -
  have "sort_key (vruntime empty_sched) [3, 4, 1] = [1, 4, 3]" by (simp add: empty_sched_def sample_sched_def)
  moreover have "\<forall>x \<in> set [3, 4, 1]. x \<noteq> 0 \<and> pid empty_sched x \<noteq> PID_IDLE" by (simp add: empty_sched_def sample_sched_def)
  moreover have "length [3, 4, 1::nat] = 3" "distinct [3, 4, 1::nat]" by simp_all
  ultimately show ?thesis using CFS_drains_by_vruntime [OF empty_sched_queue, of "[3, 4, 1]"] by metis
qed

lemma run_queue_refines_witness: "\<exists>s'. CFSEnqueue 4 sample_sched = Some s' \<and> run_queue s' [1, 4, 2, 3]"
  using run_queue_refines [OF sample_sched_queue, of 4] by (simp add: sample_sched_def)

lemma run_queue_balanced_witness: "\<exists>t. holds (Tree sample_sched) [] t \<and> inorder t = [1, 2, 3] \<and> 2 ^ height t \<le> (length [1, 2, 3::nat] + 1)\<^sup>2"
  by (rule run_queue_balanced [OF sample_sched_queue])

end
