(* ===== verification/Sleep_Wheel.thy ===== *)
theory Sleep_Wheel
  imports Run_Queue
begin

text \<open>
  The timer wheel of sleeping tasks (\<^verbatim>\<open>AddToSleepList\<close>, \<^verbatim>\<open>CheckSleepingTasks\<close> and \<^verbatim>\<open>GetDistToNextWakeup\<close> of
  \<^verbatim>\<open>kernel/task/scheduler.cpp\<close>): 512 buckets, each a list of tasks linked by \<^verbatim>\<open>NextSleepQueue\<close>. The tick counter
  of the timer, \<^verbatim>\<open>ACPI::Timer::LapicTicks\<close>, is an argument. Walking a list and counting ticks are partial
  functions, so a list with a cycle and a counter that wraps around do not return.
\<close>

section \<open>Model\<close>

partial_function (option) in_chain :: "nat \<Rightarrow> nat \<Rightarrow> (nat \<Rightarrow> nat) \<Rightarrow> bool option" where
  "in_chain t it nx = (if it = 0 then Some False else if it = t then Some True else in_chain t (nx it) nx)"

fun scan_wheel :: "nat \<Rightarrow> nat list \<Rightarrow> sched \<Rightarrow> bool option" where
  "scan_wheel t [] s = Some False"
| "scan_wheel t (i # is) s = do {
     found \<leftarrow> in_chain t (SleepWheel s i) (NextSleepQueue s);
     if found then Some True else scan_wheel t is s }"

definition AddToSleepList :: "nat \<Rightarrow> sched \<Rightarrow> sched option" where
  "AddToSleepList t s =
     (if t = 0 then Some s
      else if SleepTick s t = 0 then Some s
      else do {
        found \<leftarrow> scan_wheel t [0..<TIMER_WHEEL_SIZE] s;
        if found then Some s
        else let index = unat (SleepTick s t) mod TIMER_WHEEL_SIZE in
          Some (s\<lparr> NextSleepQueue := (NextSleepQueue s)(t := SleepWheel s index),
                   SleepWheel := (SleepWheel s)(index := t),
                   TotalSleepingTasks := TotalSleepingTasks s + 1 \<rparr>) })"

definition unlink_sleeper :: "nat \<Rightarrow> nat \<Rightarrow> nat \<Rightarrow> sched \<Rightarrow> sched" where
  "unlink_sleeper index prev nx s =
     (if prev \<noteq> 0 then s\<lparr> NextSleepQueue := (NextSleepQueue s)(prev := nx) \<rparr>
      else s\<lparr> SleepWheel := (SleepWheel s)(index := nx) \<rparr>)"

definition ready_sleeper :: "nat \<Rightarrow> sched \<Rightarrow> sched" where
  "ready_sleeper t s = s\<lparr>
     NextSleepQueue := (NextSleepQueue s)(t := 0),
     State := (State s)(t := READY),
     SleepTick := (SleepTick s)(t := 0),
     vruntime := (vruntime s)(t := (if MinVRuntime s > 10 then MinVRuntime s - 10 else MinVRuntime s)) \<rparr>"

partial_function (option) wake_bucket :: "nat \<Rightarrow> u64 \<Rightarrow> nat \<Rightarrow> nat \<Rightarrow> sched \<Rightarrow> sched option" where
  "wake_bucket index now t prev s =
     (if t = 0 then Some s
      else if SleepTick s t \<le> now then do {
        let nx = NextSleepQueue s t;
        let s = s\<lparr> TotalSleepingTasks := TotalSleepingTasks s - 1 \<rparr>;
        s \<leftarrow> CFSEnqueue t (ready_sleeper t (unlink_sleeper index prev nx s));
        wake_bucket index now nx prev s }
      else wake_bucket index now (NextSleepQueue s t) t s)"

partial_function (option) wake_ticks :: "u64 \<Rightarrow> u64 \<Rightarrow> sched \<Rightarrow> sched option" where
  "wake_ticks currTick now s =
     (if currTick \<le> now then do {
        let index = unat currTick mod TIMER_WHEEL_SIZE;
        s \<leftarrow> wake_bucket index now (SleepWheel s index) 0 s;
        wake_ticks (currTick + 1) now s }
      else Some s)"

text \<open>The first tick to look at; after a long gap one turn of the wheel is enough.\<close>

definition start_tick :: "u64 \<Rightarrow> u64 \<Rightarrow> u64" where
  "start_tick now lst = (if now - lst > of_nat TIMER_WHEEL_SIZE then now - of_nat TIMER_WHEEL_SIZE + 1 else lst + 1)"

definition CheckSleepingTasks :: "u64 \<Rightarrow> sched \<Rightarrow> sched option" where
  "CheckSleepingTasks now s =
     (if TotalSleepingTasks s = 0 then Some (s\<lparr> LastCheckedTick := now \<rparr>)
      else if now \<le> LastCheckedTick s then Some s
      else do {
        s \<leftarrow> wake_ticks (start_tick now (LastCheckedTick s)) now s;
        Some (s\<lparr> LastCheckedTick := now \<rparr>) })"

partial_function (option) due_in_chain :: "u64 \<Rightarrow> nat \<Rightarrow> sched \<Rightarrow> bool option" where
  "due_in_chain target t s =
     (if t = 0 then Some False else if SleepTick s t \<le> target then Some True
      else due_in_chain target (NextSleepQueue s t) s)"

fun dist_loop :: "u64 \<Rightarrow> nat list \<Rightarrow> sched \<Rightarrow> u64 option" where
  "dist_loop now [] s = Some 0xFFFFFFFFFFFFFFFF"
| "dist_loop now (i # is) s = do {
     let target = now + of_nat i;
     due \<leftarrow> due_in_chain target (SleepWheel s (unat target mod TIMER_WHEEL_SIZE)) s;
     if due then Some (of_nat i) else dist_loop now is s }"

definition GetDistToNextWakeup :: "u64 \<Rightarrow> sched \<Rightarrow> u64 option" where
  "GetDistToNextWakeup now s = dist_loop now [0..<100] s"

section \<open>Lists of sleepers\<close>

fun chain :: "(nat \<Rightarrow> nat) \<Rightarrow> nat \<Rightarrow> nat list \<Rightarrow> bool" where
  "chain nx p [] \<longleftrightarrow> p = 0"
| "chain nx p (y # ys) \<longleftrightarrow> p = y \<and> y \<noteq> 0 \<and> chain nx (nx y) ys"

lemma chain_frame [simp]: "a \<notin> set ys \<Longrightarrow> chain (nx(a := v)) p ys = chain nx p ys"
  by (induction ys arbitrary: p) auto

lemma chain_cong: "(\<And>y. y \<in> set ys \<Longrightarrow> nx' y = nx y) \<Longrightarrow> chain nx' p ys = chain nx p ys"
  by (induction ys arbitrary: p) auto

lemma chain_nonnull: "chain nx p ys \<Longrightarrow> 0 \<notin> set ys"
  by (induction ys arbitrary: p) auto

lemma chain_ptr: "chain nx p ys \<Longrightarrow> p = (case ys of [] \<Rightarrow> 0 | y # _ \<Rightarrow> y)"
  by (cases ys) auto

lemma in_chain_ok: "chain nx p ys \<Longrightarrow> in_chain t p nx = Some (t \<in> set ys)" if "t \<noteq> 0"
proof (induction ys arbitrary: p)
  case Nil
  then show ?case by (subst in_chain.simps) simp
next
  case (Cons y ys)
  then show ?case by (subst in_chain.simps) auto
qed

text \<open>The last task before position \<open>ys\<close> of a list, or null.\<close>

definition prev_of :: "nat list \<Rightarrow> nat" where
  "prev_of ps = (if ps = [] then 0 else last ps)"

lemma prev_of_simps [simp]: "prev_of [] = 0" "prev_of (ps @ [t]) = t"
  by (simp_all add: prev_of_def)

text \<open>Bypassing \<open>t\<close>.\<close>

lemma chain_unlink:
  "chain nx p (ps @ t # ys) \<Longrightarrow> distinct (ps @ t # ys) \<Longrightarrow> ps \<noteq> [] \<Longrightarrow> chain (nx(last ps := nx t)) p (ps @ ys)"
proof (induction ps arbitrary: p)
  case (Cons q ps)
  show ?case
  proof (cases "ps = []")
    case True
    then show ?thesis using Cons.prems by (simp del: fun_upd_apply add: fun_upd_same)
  next
    case False
    then have "last ps \<in> set ps" by simp
    then have "q \<noteq> last ps" using Cons.prems(2) by auto
    then show ?thesis using Cons.IH [OF _ _ False, of "nx q"] Cons.prems False by (simp del: fun_upd_apply add: fun_upd_other)
  qed
qed simp

lemma chain_tail: "chain nx p (ps @ t # ys) \<Longrightarrow> nx t = (case ys of [] \<Rightarrow> 0 | y # _ \<Rightarrow> y)"
  by (induction ps arbitrary: p) (auto dest: chain_ptr)

section \<open>Waking\<close>

definition unchanged :: "sched \<Rightarrow> sched \<Rightarrow> bool" where
  "unchanged s s' \<longleftrightarrow> MinVRuntime s' = MinVRuntime s \<and> LastCheckedTick s' = LastCheckedTick s \<and> TaskArray s' = TaskArray s
     \<and> ActiveTask s' = ActiveTask s \<and> CurrentTaskIndex s' = CurrentTaskIndex s \<and> pid s' = pid s \<and> PGID s' = PGID s
     \<and> PGIDTaskPtr s' = PGIDTaskPtr s \<and> Signals s' = Signals s \<and> RSP s' = RSP s \<and> CR3 s' = CR3 s \<and> StackBase s' = StackBase s
     \<and> StackSize s' = StackSize s \<and> FPU_Region s' = FPU_Region s \<and> BlockReason s' = BlockReason s
     \<and> NextWaitTask s' = NextWaitTask s \<and> NiceValue s' = NiceValue s \<and> Weight s' = Weight s \<and> IsSudoOrAdmin s' = IsSudoOrAdmin s"

definition wake_vruntime :: "sched \<Rightarrow> u64" where
  "wake_vruntime s = (if MinVRuntime s > 10 then MinVRuntime s - 10 else MinVRuntime s)"

text \<open>The tasks \<open>E\<close> have been made ready; no other task has changed.\<close>

definition woken :: "nat set \<Rightarrow> sched \<Rightarrow> sched \<Rightarrow> bool" where
  "woken E s s' \<longleftrightarrow> unchanged s s' \<and> SleepTick s' = (\<lambda>u. if u \<in> E then 0 else SleepTick s u)
     \<and> State s' = (\<lambda>u. if u \<in> E then READY else State s u)
     \<and> vruntime s' = (\<lambda>u. if u \<in> E then wake_vruntime s else vruntime s u)"

lemma woken_refl [simp]: "woken {} s s"
  by (simp add: woken_def unchanged_def)

lemma woken_trans: "woken E s s' \<Longrightarrow> woken F s' s'' \<Longrightarrow> woken (E \<union> F) s s''"
  by (auto simp: woken_def unchanged_def wake_vruntime_def)

lemma run_queue_cong:
  "run_queue s xs \<Longrightarrow> Tree s' = Tree s \<Longrightarrow> CFSLeftmost s' = CFSLeftmost s \<Longrightarrow> (\<And>x. x \<in> set xs \<Longrightarrow> vruntime s' x = vruntime s x)
   \<Longrightarrow> run_queue s' xs"
  by (simp add: run_queue_def cong: map_cong)

lemma wake_one:
  assumes ch: "chain (NextSleepQueue s) (SleepWheel s i) (ps @ t # ys)" and dist: "distinct (ps @ t # ys)"
    and rq: "run_queue s xs" and t: "t \<notin> set xs" "pid s t \<noteq> PID_IDLE"
  shows "\<exists>s'. CFSEnqueue t (ready_sleeper t (unlink_sleeper i (prev_of ps) (NextSleepQueue s t) (s\<lparr> TotalSleepingTasks := TotalSleepingTasks s - 1 \<rparr>))) = Some s'
     \<and> chain (NextSleepQueue s') (SleepWheel s' i) (ps @ ys) \<and> (\<exists>xs'. run_queue s' xs' \<and> set xs' = insert t (set xs)) \<and> woken {t} s s'
     \<and> TotalSleepingTasks s' = TotalSleepingTasks s - 1
     \<and> (\<forall>j. j \<noteq> i \<longrightarrow> SleepWheel s' j = SleepWheel s j) \<and> (\<forall>u. u \<notin> set (ps @ t # ys) \<longrightarrow> NextSleepQueue s' u = NextSleepQueue s u)"
proof -
  define s1 where "s1 = ready_sleeper t (unlink_sleeper i (prev_of ps) (NextSleepQueue s t) (s\<lparr> TotalSleepingTasks := TotalSleepingTasks s - 1 \<rparr>))"
  have nn: "t \<noteq> 0" "0 \<notin> set ps" using chain_nonnull [OF ch] by auto
  have ch1: "chain (NextSleepQueue s1) (SleepWheel s1 i) (ps @ ys)"
  proof (cases "ps = []")
    case True
    then show ?thesis using ch dist by (simp add: s1_def ready_sleeper_def unlink_sleeper_def)
  next
    case False
    then have "last ps \<in> set ps" by simp
    then have "last ps \<noteq> 0" using nn(2) by metis
    moreover have "prev_of ps = last ps" using False by (simp add: prev_of_def)
    ultimately show ?thesis
      using chain_unlink [OF ch dist False] dist by (simp add: s1_def ready_sleeper_def unlink_sleeper_def)
  qed
  have rq1: "run_queue s1 xs"
    by (rule run_queue_cong [OF rq]) (use t(1) in \<open>auto simp: s1_def ready_sleeper_def unlink_sleeper_def\<close>)
  have w1: "woken {t} s s1"
    by (auto simp: woken_def unchanged_def s1_def ready_sleeper_def unlink_sleeper_def wake_vruntime_def fun_eq_iff)
  have other: "\<forall>j. j \<noteq> i \<longrightarrow> SleepWheel s1 j = SleepWheel s j" "\<forall>u. u \<notin> set (ps @ t # ys) \<longrightarrow> NextSleepQueue s1 u = NextSleepQueue s u"
      "TotalSleepingTasks s1 = TotalSleepingTasks s - 1"
    by (auto simp: s1_def ready_sleeper_def unlink_sleeper_def prev_of_def)
  have "pid s1 t \<noteq> PID_IDLE" using t(2) w1 by (simp add: woken_def unchanged_def)
  then obtain s2 lm tr fr where "CFSEnqueue t s1 = Some s2" "run_queue s2 (ins_after (vruntime s1) t xs)"
      and s2: "s2 = s1\<lparr> CFSLeftmost := lm, Tree := tr, ForceReschedule := fr \<rparr>"
    using CFSEnqueue_ok [OF rq1 nn(1) _ t(1)] by blast
  moreover have "woken {t} s s2" using w1 by (simp add: s2 woken_def unchanged_def)
  ultimately show ?thesis
    using ch1 other unfolding s1_def [symmetric] by (intro exI [of _ s2]) (auto simp: s2)
qed

lemma wake_bucket_ok:
  "chain (NextSleepQueue s) (SleepWheel s i) (ps @ ys) \<Longrightarrow> distinct (ps @ ys) \<Longrightarrow> run_queue s xs \<Longrightarrow>
   set ys \<inter> set xs = {} \<Longrightarrow> \<forall>t \<in> set ys. pid s t \<noteq> PID_IDLE \<Longrightarrow> E = {t \<in> set ys. SleepTick s t \<le> now} \<Longrightarrow>
   \<exists>s'. wake_bucket i now (case ys of [] \<Rightarrow> 0 | y # _ \<Rightarrow> y) (prev_of ps) s = Some s'
     \<and> chain (NextSleepQueue s') (SleepWheel s' i) (ps @ filter (\<lambda>t. now < SleepTick s t) ys)
     \<and> (\<exists>xs'. run_queue s' xs' \<and> set xs' = E \<union> set xs) \<and> woken E s s' \<and> TotalSleepingTasks s' = TotalSleepingTasks s - of_nat (card E)
     \<and> (\<forall>j. j \<noteq> i \<longrightarrow> SleepWheel s' j = SleepWheel s j) \<and> (\<forall>u. u \<notin> set (ps @ ys) \<longrightarrow> NextSleepQueue s' u = NextSleepQueue s u)"
proof (induction ys arbitrary: ps s xs E)
  case Nil
  then have "wake_bucket i now 0 (prev_of ps) s = Some s" by (subst wake_bucket.simps) simp
  then show ?case using Nil by auto
next
  case (Cons t ys)
  have t0: "t \<noteq> 0" using chain_nonnull [OF Cons.prems(1)] by auto
  have nx: "NextSleepQueue s t = (case ys of [] \<Rightarrow> 0 | y # _ \<Rightarrow> y)" by (rule chain_tail [OF Cons.prems(1)])
  show ?case
  proof (cases "SleepTick s t \<le> now")
    case True
    obtain s1 xs1 where s1: "CFSEnqueue t (ready_sleeper t (unlink_sleeper i (prev_of ps) (NextSleepQueue s t) (s\<lparr> TotalSleepingTasks := TotalSleepingTasks s - 1 \<rparr>))) = Some s1"
       "chain (NextSleepQueue s1) (SleepWheel s1 i) (ps @ ys)" "run_queue s1 xs1" "set xs1 = insert t (set xs)" "woken {t} s s1"
       "TotalSleepingTasks s1 = TotalSleepingTasks s - 1" "\<forall>j. j \<noteq> i \<longrightarrow> SleepWheel s1 j = SleepWheel s j"
       "\<forall>u. u \<notin> set (ps @ t # ys) \<longrightarrow> NextSleepQueue s1 u = NextSleepQueue s u"
      using wake_one [OF Cons.prems(1-3), of] Cons.prems(4,5) by auto
    have go: "wake_bucket i now t (prev_of ps) s = wake_bucket i now (case ys of [] \<Rightarrow> 0 | y # _ \<Rightarrow> y) (prev_of ps) s1"
      using t0 True s1(1) unfolding nx by (subst wake_bucket.simps) (simp add: nx Let_def)
    have tick: "SleepTick s1 u = SleepTick s u" if "u \<in> set ys" for u using s1(5) that Cons.prems(2) by (auto simp: woken_def)
    define F where "F = {u \<in> set ys. SleepTick s1 u \<le> now}"
    have E: "E = insert t F" "t \<notin> F" "finite F" using Cons.prems(2,6) True tick by (auto simp: F_def)
    obtain s2 where s2: "wake_bucket i now (case ys of [] \<Rightarrow> 0 | y # _ \<Rightarrow> y) (prev_of ps) s1 = Some s2"
        "chain (NextSleepQueue s2) (SleepWheel s2 i) (ps @ filter (\<lambda>t. now < SleepTick s1 t) ys)"
        "\<exists>xs'. run_queue s2 xs' \<and> set xs' = F \<union> set xs1" "woken F s1 s2" "TotalSleepingTasks s2 = TotalSleepingTasks s1 - of_nat (card F)"
        "\<forall>j. j \<noteq> i \<longrightarrow> SleepWheel s2 j = SleepWheel s1 j" "\<forall>u. u \<notin> set (ps @ ys) \<longrightarrow> NextSleepQueue s2 u = NextSleepQueue s1 u"
      using Cons.IH [OF s1(2) _ s1(3) _ _ F_def] Cons.prems(2,4,5) s1(4,5) by (auto simp: woken_def unchanged_def)
    have "filter (\<lambda>t. now < SleepTick s1 t) ys = filter (\<lambda>t. now < SleepTick s t) (t # ys)"
      using tick True by (auto cong: filter_cong)
    moreover have "woken E s s2" using woken_trans [OF s1(5) s2(4)] by (simp add: E)
    ultimately show ?thesis using s1 s2 go E by (intro exI [of _ s2]) auto
  next
    case False
    have "wake_bucket i now t (prev_of ps) s = wake_bucket i now (case ys of [] \<Rightarrow> 0 | y # _ \<Rightarrow> y) (prev_of (ps @ [t])) s"
      using t0 False by (subst wake_bucket.simps) (simp add: nx)
    moreover have "E = {u \<in> set ys. SleepTick s u \<le> now}" using Cons.prems(6) False by auto
    ultimately show ?thesis using Cons.IH [of s "ps @ [t]" xs E] Cons.prems False by (auto simp: not_le)
  qed
qed

section \<open>The wheel\<close>

text \<open>The lists of the buckets; a task waits in the bucket of its tick.\<close>

definition wheel :: "sched \<Rightarrow> (nat \<Rightarrow> nat list) \<Rightarrow> bool" where
  "wheel s W \<longleftrightarrow> (\<forall>i < TIMER_WHEEL_SIZE. chain (NextSleepQueue s) (SleepWheel s i) (W i) \<and> distinct (W i)
     \<and> (\<forall>t \<in> set (W i). SleepTick s t \<noteq> 0 \<and> unat (SleepTick s t) mod TIMER_WHEEL_SIZE = i \<and> pid s t \<noteq> PID_IDLE))"

definition sleepers :: "(nat \<Rightarrow> nat list) \<Rightarrow> nat set" where
  "sleepers W = (\<Union>i < TIMER_WHEEL_SIZE. set (W i))"

lemma sleepers_finite [simp]: "finite (sleepers W)"
  by (simp add: sleepers_def)

lemma in_bucket: "wheel s W \<Longrightarrow> t \<in> sleepers W \<Longrightarrow> t \<in> set (W (unat (SleepTick s t) mod TIMER_WHEEL_SIZE))"
  by (auto simp: wheel_def sleepers_def)

lemma bucket_tick: "wheel s W \<Longrightarrow> i < TIMER_WHEEL_SIZE \<Longrightarrow> t \<in> set (W i) \<Longrightarrow> unat (SleepTick s t) mod TIMER_WHEEL_SIZE = i"
  by (simp add: wheel_def)

lemma bucket_sleepers: "t \<in> set (W (n mod TIMER_WHEEL_SIZE)) \<Longrightarrow> t \<in> sleepers W"
  unfolding sleepers_def by (rule UN_I [of "n mod TIMER_WHEEL_SIZE"]) simp_all

lemma sleepers_filter: "sleepers (\<lambda>i. filter P (W i)) = {t \<in> sleepers W. P t}"
  by (auto simp: sleepers_def)

lemma wake_bucket_wheel:
  assumes W: "wheel s W" and rq: "run_queue s xs" and dis: "sleepers W \<inter> set xs = {}" and i: "i < TIMER_WHEEL_SIZE"
    and E: "E = {t \<in> set (W i). SleepTick s t \<le> now}"
  shows "\<exists>s' xs'. wake_bucket i now (SleepWheel s i) 0 s = Some s' \<and> wheel s' (\<lambda>j. filter (\<lambda>t. t \<notin> E) (W j))
     \<and> run_queue s' xs' \<and> set xs' = E \<union> set xs \<and> woken E s s' \<and> TotalSleepingTasks s' = TotalSleepingTasks s - of_nat (card E)"
proof -
  have ch: "chain (NextSleepQueue s) (SleepWheel s i) ([] @ W i)" "distinct ([] @ W i)" "\<forall>t \<in> set (W i). pid s t \<noteq> PID_IDLE"
    and sub: "set (W i) \<inter> set xs = {}" using W i dis by (auto simp: wheel_def sleepers_def)
  obtain s' where s': "wake_bucket i now (case W i of [] \<Rightarrow> 0 | y # _ \<Rightarrow> y) 0 s = Some s'"
      "chain (NextSleepQueue s') (SleepWheel s' i) (filter (\<lambda>t. now < SleepTick s t) (W i))"
      "\<exists>xs'. run_queue s' xs' \<and> set xs' = E \<union> set xs" "woken E s s'" "TotalSleepingTasks s' = TotalSleepingTasks s - of_nat (card E)"
      "\<forall>j. j \<noteq> i \<longrightarrow> SleepWheel s' j = SleepWheel s j" "\<forall>u. u \<notin> set (W i) \<longrightarrow> NextSleepQueue s' u = NextSleepQueue s u"
    using wake_bucket_ok [OF ch(1,2) rq sub ch(3) E] by auto
  have "wheel s' (\<lambda>j. filter (\<lambda>t. t \<notin> E) (W j))"
    unfolding wheel_def
  proof (intro allI impI)
    fix j
    assume j: "j < TIMER_WHEEL_SIZE"
    have own: "chain (NextSleepQueue s') (SleepWheel s' j) (filter (\<lambda>t. t \<notin> E) (W j))"
    proof (cases "j = i")
      case True
      have "filter (\<lambda>t. t \<notin> E) (W i) = filter (\<lambda>t. now < SleepTick s t) (W i)" using E by (auto simp: not_le cong: filter_cong)
      then show ?thesis using s'(2) True by simp
    next
      case False
      then have "set (W i) \<inter> set (W j) = {}" using bucket_tick [OF W i] bucket_tick [OF W j] by auto
      then have "filter (\<lambda>t. t \<notin> E) (W j) = W j" "chain (NextSleepQueue s') (SleepWheel s' j) (W j) = chain (NextSleepQueue s) (SleepWheel s' j) (W j)"
        using E s'(7) by (auto simp: filter_id_conv intro!: chain_cong)
      then show ?thesis using W j s'(6) False by (simp add: wheel_def)
    qed
    then show "chain (NextSleepQueue s') (SleepWheel s' j) (filter (\<lambda>t. t \<notin> E) (W j)) \<and> distinct (filter (\<lambda>t. t \<notin> E) (W j))
       \<and> (\<forall>t \<in> set (filter (\<lambda>t. t \<notin> E) (W j)). SleepTick s' t \<noteq> 0 \<and> unat (SleepTick s' t) mod TIMER_WHEEL_SIZE = j \<and> pid s' t \<noteq> PID_IDLE)"
      using W j s'(4) by (auto simp: wheel_def woken_def unchanged_def)
  qed
  moreover have "SleepWheel s i = (case W i of [] \<Rightarrow> 0 | y # _ \<Rightarrow> y)" using ch(1) chain_ptr by auto
  ultimately show ?thesis using s'(1,3,4,5) by auto
qed

lemma u64_bound: "unat (x :: u64) < 2 ^ 64"
  using unsigned_less [of x] by simp

lemma tick_next:
  assumes "c < (now :: u64)"
  shows "unat (c + 1) = Suc (unat c)" "c + 1 \<le> now"
proof -
  have "unat c < unat now" "unat now < 2 ^ 64" using assms unsigned_less [of now] by (simp_all add: word_less_nat_alt)
  then show n: "unat (c + 1) = Suc (unat c)" using unat_add_no_wrap [of c 1] by simp
  then show "c + 1 \<le> now" using \<open>unat c < unat now\<close> by (simp add: word_le_nat_alt)
qed

text \<open>The tasks due in the buckets of the ticks from \<open>c\<close> to \<open>now\<close>.\<close>

definition due_from :: "u64 \<Rightarrow> u64 \<Rightarrow> sched \<Rightarrow> (nat \<Rightarrow> nat list) \<Rightarrow> nat set" where
  "due_from c now s W = {t. SleepTick s t \<le> now \<and> (\<exists>n. unat c \<le> n \<and> n \<le> unat now \<and> t \<in> set (W (n mod TIMER_WHEEL_SIZE)))}"

lemma due_from_sub: "due_from c now s W \<subseteq> sleepers W"
  by (auto simp: due_from_def intro: bucket_sleepers)

lemma due_from_finite [simp]: "finite (due_from c now s W)"
  by (rule finite_subset [OF due_from_sub sleepers_finite])

lemma due_from_step:
  assumes E: "E = {t \<in> set (W (unat c mod TIMER_WHEEL_SIZE)). SleepTick s t \<le> now}" and "c < now" and "woken E s s1"
  shows "due_from c now s W = E \<union> due_from (c + 1) now s1 (\<lambda>i. filter (\<lambda>t. t \<notin> E) (W i))"
    "E \<inter> due_from (c + 1) now s1 (\<lambda>i. filter (\<lambda>t. t \<notin> E) (W i)) = {}"
proof -
  have tick: "SleepTick s1 u = SleepTick s u" if "u \<notin> E" for u using assms(3) that by (simp add: woken_def)
  have n: "unat c \<le> n \<longleftrightarrow> n = unat c \<or> unat (c + 1) \<le> n" for n using tick_next(1) [OF assms(2)] by auto
  have le: "unat c \<le> unat now" using assms(2) by (simp add: word_less_nat_alt)
  show "due_from c now s W = E \<union> due_from (c + 1) now s1 (\<lambda>i. filter (\<lambda>t. t \<notin> E) (W i))"
  proof (intro set_eqI iffI)
    fix t
    assume "t \<in> due_from c now s W"
    then obtain m where "SleepTick s t \<le> now" "unat c \<le> m" "m \<le> unat now" "t \<in> set (W (m mod TIMER_WHEEL_SIZE))" by (auto simp: due_from_def)
    then show "t \<in> E \<union> due_from (c + 1) now s1 (\<lambda>i. filter (\<lambda>t. t \<notin> E) (W i))"
      using n [of m] tick [of t] E by (cases "t \<in> E") (auto simp: due_from_def)
  next
    fix t
    assume "t \<in> E \<union> due_from (c + 1) now s1 (\<lambda>i. filter (\<lambda>t. t \<notin> E) (W i))"
    then consider "t \<in> E" | m where "t \<notin> E" "SleepTick s1 t \<le> now" "unat (c + 1) \<le> m" "m \<le> unat now" "t \<in> set (W (m mod TIMER_WHEEL_SIZE))"
      by (auto simp: due_from_def)
    then show "t \<in> due_from c now s W"
    proof cases
      case 1
      then show ?thesis using E le by (auto simp: due_from_def)
    next
      case 2
      then show ?thesis using n [of m] tick [of t] by (auto simp: due_from_def)
    qed
  qed
  show "E \<inter> due_from (c + 1) now s1 (\<lambda>i. filter (\<lambda>t. t \<notin> E) (W i)) = {}" by (auto simp: due_from_def)
qed

definition wheel_woken :: "sched \<Rightarrow> (nat \<Rightarrow> nat list) \<Rightarrow> nat list \<Rightarrow> nat set \<Rightarrow> sched \<Rightarrow> bool" where
  "wheel_woken s W xs E s' \<longleftrightarrow> wheel s' (\<lambda>i. filter (\<lambda>t. t \<notin> E) (W i)) \<and> (\<exists>xs'. run_queue s' xs' \<and> set xs' = E \<union> set xs)
     \<and> woken E s s' \<and> TotalSleepingTasks s' = TotalSleepingTasks s - of_nat (card E)"

lemma wheel_woken_trans:
  assumes "wheel_woken s W xs E s1" and "wheel_woken s1 (\<lambda>i. filter (\<lambda>t. t \<notin> E) (W i)) xs1 F s2" and "set xs1 = E \<union> set xs"
    and "E \<inter> F = {}" and "finite E" and "finite F"
  shows "wheel_woken s W xs (E \<union> F) s2"
proof -
  have "wheel s2 (\<lambda>i. filter (\<lambda>t. t \<notin> E \<union> F) (W i))"
    using assms(2) by (simp add: wheel_woken_def conj_commute)
  moreover have "\<exists>xs'. run_queue s2 xs' \<and> set xs' = (E \<union> F) \<union> set xs"
    using assms(2,3) unfolding wheel_woken_def by (simp add: Un_assoc Un_left_commute)
  moreover have "woken (E \<union> F) s s2" using assms(1,2) woken_trans unfolding wheel_woken_def by blast
  moreover have "TotalSleepingTasks s2 = TotalSleepingTasks s - of_nat (card (E \<union> F))"
    using assms(1,2,4-6) unfolding wheel_woken_def by (simp add: card_Un_disjoint)
  ultimately show ?thesis by (simp only: wheel_woken_def)
qed

lemma wake_tick_one:
  assumes "wheel s W" and "run_queue s xs" and "sleepers W \<inter> set xs = {}" and "c \<le> now"
    and "E = {t \<in> set (W (unat c mod TIMER_WHEEL_SIZE)). SleepTick s t \<le> now}"
  shows "\<exists>s1. wake_ticks c now s = wake_ticks (c + 1) now s1 \<and> wheel_woken s W xs E s1"
proof -
  obtain s1 where "wake_bucket (unat c mod TIMER_WHEEL_SIZE) now (SleepWheel s (unat c mod TIMER_WHEEL_SIZE)) 0 s = Some s1" "wheel_woken s W xs E s1"
    using wake_bucket_wheel [OF assms(1-3) _ assms(5)] unfolding wheel_woken_def by auto
  then show ?thesis using assms(4) by (intro exI [of _ s1]) (subst wake_ticks.simps, simp add: Let_def)
qed

lemma wake_ticks_ok:
  "wheel s W \<Longrightarrow> run_queue s xs \<Longrightarrow> sleepers W \<inter> set xs = {} \<Longrightarrow> c \<le> now \<Longrightarrow> now < 0xFFFFFFFFFFFFFFFF \<Longrightarrow>
     \<exists>s'. wake_ticks c now s = Some s' \<and> wheel_woken s W xs (due_from c now s W) s'"
proof (induction "unat now - unat c" arbitrary: c s W xs)
  case 0
  then have c: "c = now" by (simp add: word_le_nat_alt word_unat_eqI)
  define E where "E = {t \<in> set (W (unat now mod TIMER_WHEEL_SIZE)). SleepTick s t \<le> now}"
  have E: "due_from now now s W = E" by (auto simp: due_from_def E_def intro: antisym)
  obtain s1 where s1: "wake_ticks now now s = wake_ticks (now + 1) now s1" "wheel_woken s W xs E s1"
    using wake_tick_one [OF 0(2-4) _ E_def] by auto
  have "\<not> now + 1 \<le> now" using tick_next(1) [OF 0(6)] by (simp add: word_le_nat_alt)
  then have "wake_ticks (now + 1) now s1 = Some s1" by (subst wake_ticks.simps) simp
  then show ?case using s1 E c by simp
next
  case (Suc n)
  have lt: "c < now" using Suc(2) by (simp add: word_less_nat_alt)
  define E where "E = {t \<in> set (W (unat c mod TIMER_WHEEL_SIZE)). SleepTick s t \<le> now}"
  obtain s1 where s1: "wake_ticks c now s = wake_ticks (c + 1) now s1" "wheel_woken s W xs E s1"
    using wake_tick_one [OF Suc(3-6) E_def] by blast
  then obtain xs1 where xs1: "run_queue s1 xs1" "set xs1 = E \<union> set xs" by (auto simp: wheel_woken_def)
  define W1 where "W1 = (\<lambda>i. filter (\<lambda>t. t \<notin> E) (W i))"
  define F where "F = due_from (c + 1) now s1 W1"
  have "sleepers W1 \<inter> set xs1 = {}" using Suc(5) xs1(2) by (auto simp: W1_def sleepers_filter)
  moreover have "wheel s1 W1" "woken E s s1" using s1(2) by (auto simp: wheel_woken_def W1_def)
  moreover have "n = unat now - unat (c + 1)" "c + 1 \<le> now" using Suc(2) tick_next [OF lt] by simp_all
  ultimately obtain s2 where s2: "wake_ticks (c + 1) now s1 = Some s2" "wheel_woken s1 W1 xs1 F s2"
    using Suc(1) [of "c + 1" s1 W1 xs1] xs1(1) Suc(7) unfolding F_def by blast
  have "due_from c now s W = E \<union> F" "E \<inter> F = {}"
    using due_from_step [of E W c s now s1, OF E_def lt \<open>woken E s s1\<close>] by (simp_all add: F_def W1_def)
  moreover have "finite E" "finite F" by (simp_all add: E_def F_def)
  ultimately show ?case
    using wheel_woken_trans [OF s1(2) s2(2) [unfolded W1_def] xs1(2)] s1(1) s2(1) by simp
qed

section \<open>The invariant of the wheel and the run queue\<close>

definition sleep_inv :: "sched \<Rightarrow> (nat \<Rightarrow> nat list) \<Rightarrow> nat list \<Rightarrow> bool" where
  "sleep_inv s W xs \<longleftrightarrow> wheel s W \<and> run_queue s xs \<and> sleepers W \<inter> set xs = {}
     \<and> (\<forall>t \<in> sleepers W. LastCheckedTick s < SleepTick s t) \<and> unat (TotalSleepingTasks s) = card (sleepers W)"

lemma mod_window: "i < 512 \<Longrightarrow> 512 \<le> n \<Longrightarrow> \<exists>m. n - 511 \<le> m \<and> m \<le> n \<and> m mod 512 = (i :: nat)"
proof -
  assume i: "i < 512" and n: "512 \<le> n"
  define r where "r = (n + (512 - i)) mod 512"
  have q: "n + (512 - i) = (n + (512 - i)) div 512 * 512 + r" "r < 512" by (simp_all add: r_def)
  define d where "d = (n + (512 - i)) div 512"
  have "n - r = (d - 1) * 512 + i" using q i n unfolding d_def by (cases "(n + (512 - i)) div 512") auto
  then have "(n - r) mod 512 = i" using i by simp
  then show ?thesis using q(2) n by (intro exI [of _ "n - r"]) auto
qed

text \<open>The ticks visited reach the bucket of every task that is due.\<close>

lemma unat_512 [simp]: "unat (512 :: u64) = 512"
  by simp

lemma start_tick_nat:
  assumes "lst < now"
  shows "unat (start_tick now lst) = (if 512 < unat now - unat lst then unat now - 511 else unat lst + 1)" "start_tick now lst \<le> now"
proof -
  have b: "unat now < 2 ^ 64" using unsigned_less [of now] by simp
  have d: "unat (now - lst) = unat now - unat lst" using assms by (intro unat_diff_no_wrap) simp
  have gt: "(of_nat TIMER_WHEEL_SIZE :: u64) < now - lst \<longleftrightarrow> 512 < unat now - unat lst" using d by (simp add: word_less_nat_alt)
  have lt: "unat lst < unat now" using assms by (simp add: word_less_nat_alt)
  show n: "unat (start_tick now lst) = (if 512 < unat now - unat lst then unat now - 511 else unat lst + 1)"
  proof (cases "512 < unat now - unat lst")
    case True
    then have "unat (now - 512) = unat now - 512" by (subst unat_diff_no_wrap) (simp_all add: word_le_nat_alt)
    then have "unat (now - 512 + 1) = unat now - 511" using unat_add_no_wrap [of "now - 512" 1] True b by simp
    then show ?thesis using True gt by (simp add: start_tick_def)
  next
    case False
    then show ?thesis using gt unat_add_no_wrap [of lst 1] lt b by (simp add: start_tick_def)
  qed
  show "start_tick now lst \<le> now" using n lt by (simp add: word_le_nat_alt split: if_splits)
qed

lemma due_all:
  assumes "wheel s W" and "lst < now" and "\<forall>t \<in> sleepers W. lst < SleepTick s t"
  shows "due_from (start_tick now lst) now s W = {t \<in> sleepers W. SleepTick s t \<le> now}"
proof (intro set_eqI iffI)
  fix t
  assume "t \<in> due_from (start_tick now lst) now s W"
  then show "t \<in> {t \<in> sleepers W. SleepTick s t \<le> now}" by (auto simp: due_from_def intro: bucket_sleepers)
next
  fix t
  assume t: "t \<in> {t \<in> sleepers W. SleepTick s t \<le> now}"
  have mem: "t \<in> set (W (unat (SleepTick s t) mod TIMER_WHEEL_SIZE))" using in_bucket [OF assms(1)] t by simp
  have b: "unat lst < unat (SleepTick s t)" "unat (SleepTick s t) \<le> unat now"
    using assms(3) t by (auto simp: word_less_nat_alt word_le_nat_alt)
  have "\<exists>m. unat (start_tick now lst) \<le> m \<and> m \<le> unat now \<and> m mod 512 = unat (SleepTick s t) mod 512"
  proof (cases "512 < unat now - unat lst")
    case True
    then show ?thesis using mod_window [of "unat (SleepTick s t) mod 512" "unat now"] start_tick_nat(1) [OF assms(2)] by simp
  next
    case False
    then show ?thesis using b start_tick_nat(1) [OF assms(2)] by (intro exI [of _ "unat (SleepTick s t)"]) simp
  qed
  then show "t \<in> due_from (start_tick now lst) now s W" using mem t by (auto simp: due_from_def)
qed

lemma CheckSleepingTasks_ok:
  assumes inv: "sleep_inv s W xs" and now: "now < 0xFFFFFFFFFFFFFFFF" and E: "E = {t \<in> sleepers W. SleepTick s t \<le> now}"
  shows "\<exists>s' xs'. CheckSleepingTasks now s = Some s' \<and> sleep_inv s' (\<lambda>i. filter (\<lambda>t. t \<notin> E) (W i)) xs' \<and> set xs' = E \<union> set xs
     \<and> woken E (s\<lparr> LastCheckedTick := LastCheckedTick s' \<rparr>) s' \<and> (LastCheckedTick s \<le> now \<longrightarrow> LastCheckedTick s' = now)"
proof -
  consider "TotalSleepingTasks s = 0" | "TotalSleepingTasks s \<noteq> 0" "now \<le> LastCheckedTick s" | "TotalSleepingTasks s \<noteq> 0" "LastCheckedTick s < now"
    by fastforce
  then show ?thesis
  proof cases
    case 1
    then have "sleepers W = {}" using inv by (simp add: sleep_inv_def)
    moreover then have "E = {}" using E by simp
    ultimately show ?thesis using 1 inv
      by (intro exI [of _ "s\<lparr> LastCheckedTick := now \<rparr>"] exI [of _ xs])
        (auto simp: CheckSleepingTasks_def sleep_inv_def wheel_def run_queue_def)
  next
    case 2
    then have "E = {}" using E inv by (auto simp: sleep_inv_def not_le)
    then show ?thesis using 2 inv by (intro exI [of _ s] exI [of _ xs]) (auto simp: CheckSleepingTasks_def)
  next
    case 3
    have due: "due_from (start_tick now (LastCheckedTick s)) now s W = E"
      using due_all [of s W "LastCheckedTick s" now] inv 3 E by (simp add: sleep_inv_def)
    obtain s1 where s1: "wake_ticks (start_tick now (LastCheckedTick s)) now s = Some s1" "wheel_woken s W xs E s1"
      using wake_ticks_ok [OF _ _ _ start_tick_nat(2) [OF 3(2)] now, of s W xs] inv due by (auto simp: sleep_inv_def)
    then obtain xs1 where xs1: "run_queue s1 xs1" "set xs1 = E \<union> set xs" by (auto simp: wheel_woken_def)
    define s' where "s' = s1\<lparr> LastCheckedTick := now \<rparr>"
    have run: "CheckSleepingTasks now s = Some s'"
      using 3 s1(1) by (simp add: CheckSleepingTasks_def s'_def not_le)
    have sub: "E \<subseteq> sleepers W" "finite E" using E by auto
    have tick: "SleepTick s' t = SleepTick s t" if "t \<notin> E" for t using s1(2) that by (simp add: wheel_woken_def woken_def s'_def)
    have "unat (TotalSleepingTasks s) = card (sleepers W)" using inv by (simp add: sleep_inv_def)
    moreover have "card E \<le> card (sleepers W)" using sub by (simp add: card_mono)
    moreover have "{t \<in> sleepers W. t \<notin> E} = sleepers W - E" by auto
    moreover have "card (sleepers W) < 2 ^ 64" using calculation(1) u64_bound [of "TotalSleepingTasks s"] by simp
    ultimately have total: "unat (TotalSleepingTasks s') = card {t \<in> sleepers W. t \<notin> E}"
      using s1(2) sub unat_diff_no_wrap [of "of_nat (card E)" "TotalSleepingTasks s"] unat_of_nat_u64 [of "card E"]
      by (simp add: wheel_woken_def s'_def card_Diff_subset word_le_nat_alt)
    have "sleep_inv s' (\<lambda>i. filter (\<lambda>t. t \<notin> E) (W i)) xs1"
      using inv s1(2) xs1 total tick E unfolding sleep_inv_def sleepers_filter
      by (auto simp: wheel_woken_def s'_def wheel_def run_queue_def not_le)
    moreover have "woken E (s\<lparr> LastCheckedTick := LastCheckedTick s' \<rparr>) s'"
      using s1(2) by (auto simp: wheel_woken_def woken_def unchanged_def s'_def wake_vruntime_def)
    ultimately show ?thesis using run xs1(2) by (intro exI [of _ s'] exI [of _ xs1]) (simp add: s'_def)
  qed
qed

section \<open>Going to sleep\<close>

lemma scan_wheel_ok:
  "wheel s W \<Longrightarrow> t \<noteq> 0 \<Longrightarrow> set is \<subseteq> {..<TIMER_WHEEL_SIZE} \<Longrightarrow> scan_wheel t is s = Some (\<exists>i \<in> set is. t \<in> set (W i))"
proof (induction "is")
  case (Cons i "is")
  then have "in_chain t (SleepWheel s i) (NextSleepQueue s) = Some (t \<in> set (W i))" by (intro in_chain_ok) (auto simp: wheel_def)
  then show ?case using Cons by auto
qed simp

lemma scan_wheel_all: "wheel s W \<Longrightarrow> t \<noteq> 0 \<Longrightarrow> scan_wheel t [0..<TIMER_WHEEL_SIZE] s = Some (t \<in> sleepers W)"
  by (subst scan_wheel_ok) (auto simp: sleepers_def)

lemma sleepers_insert: "i < TIMER_WHEEL_SIZE \<Longrightarrow> sleepers (W(i := t # W i)) = insert t (sleepers W)"
  by (auto simp: sleepers_def split: if_splits)

lemma AddToSleepList_ok:
  assumes inv: "sleep_inv s W xs" and t: "t \<noteq> 0" "pid s t \<noteq> PID_IDLE" "t \<notin> set xs" "t \<notin> sleepers W" "LastCheckedTick s < SleepTick s t"
    and room: "card (sleepers W) + 1 < 2 ^ 64"
  shows "\<exists>s' nx w. AddToSleepList t s = Some s' \<and> sleep_inv s' (W(unat (SleepTick s t) mod TIMER_WHEEL_SIZE := t # W (unat (SleepTick s t) mod TIMER_WHEEL_SIZE))) xs
     \<and> s' = s\<lparr> NextSleepQueue := nx, SleepWheel := w, TotalSleepingTasks := TotalSleepingTasks s + 1 \<rparr>"
proof -
  define i where "i = unat (SleepTick s t) mod TIMER_WHEEL_SIZE"
  define s' where "s' = s\<lparr> NextSleepQueue := (NextSleepQueue s)(t := SleepWheel s i), SleepWheel := (SleepWheel s)(i := t),
     TotalSleepingTasks := TotalSleepingTasks s + 1 \<rparr>"
  have W: "wheel s W" and i: "i < TIMER_WHEEL_SIZE" using inv by (simp_all add: sleep_inv_def i_def)
  have nz: "SleepTick s t \<noteq> 0" using t(5) by (metis word_not_simps(1))
  have fresh: "t \<notin> set (W j)" if "j < TIMER_WHEEL_SIZE" for j using t(4) that by (auto simp: sleepers_def)
  have "AddToSleepList t s = Some s'"
    using t nz scan_wheel_all [OF W t(1)] by (simp add: AddToSleepList_def s'_def i_def Let_def)
  moreover have "wheel s' (W(i := t # W i))"
    unfolding wheel_def
  proof (intro allI impI)
    fix j
    assume j: "j < TIMER_WHEEL_SIZE"
    then have "chain (NextSleepQueue s) (SleepWheel s j) (W j)" "distinct (W j)"
        "\<forall>u \<in> set (W j). SleepTick s u \<noteq> 0 \<and> unat (SleepTick s u) mod TIMER_WHEEL_SIZE = j \<and> pid s u \<noteq> PID_IDLE"
      using W unfolding wheel_def by blast+
    then show "chain (NextSleepQueue s') (SleepWheel s' j) ((W(i := t # W i)) j) \<and> distinct ((W(i := t # W i)) j)
       \<and> (\<forall>u \<in> set ((W(i := t # W i)) j). SleepTick s' u \<noteq> 0 \<and> unat (SleepTick s' u) mod TIMER_WHEEL_SIZE = j \<and> pid s' u \<noteq> PID_IDLE)"
      using t(1,2) nz fresh [OF j]
      by (cases "j = i") (simp_all add: s'_def i_def del: fun_upd_apply add: fun_upd_same fun_upd_other)
  qed
  moreover have "unat (TotalSleepingTasks s') = card (insert t (sleepers W))"
    using inv t(4) room unat_add_no_wrap [of "TotalSleepingTasks s" 1] by (simp add: s'_def sleep_inv_def)
  moreover have "run_queue s' xs" using inv by (simp add: sleep_inv_def run_queue_def s'_def)
  ultimately show ?thesis
    using inv t unfolding i_def [symmetric] sleep_inv_def sleepers_insert [OF i] by (auto simp: s'_def)
qed

section \<open>The next wake-up\<close>

lemma due_in_chain_ok: "chain (NextSleepQueue s) p ys \<Longrightarrow> due_in_chain target p s = Some (\<exists>t \<in> set ys. SleepTick s t \<le> target)"
proof (induction ys arbitrary: p)
  case Nil
  then show ?case by (subst due_in_chain.simps) simp
next
  case (Cons y ys)
  then show ?case by (subst due_in_chain.simps) auto
qed

lemma due_exact:
  assumes W: "wheel s W" and later: "\<forall>t \<in> sleepers W. now \<le> SleepTick s t" and b: "i < 512" "unat now + i < 2 ^ 64"
  shows "due_in_chain (now + of_nat i) (SleepWheel s (unat (now + of_nat i) mod TIMER_WHEEL_SIZE)) s
     = Some (\<exists>t \<in> sleepers W. unat (SleepTick s t) = unat now + i)"
proof -
  have n: "unat (now + of_nat i) = unat now + i" using unat_add_no_wrap [of now "of_nat i"] b unat_of_nat_u64 [of i] by simp
  define j where "j = (unat now + i) mod TIMER_WHEEL_SIZE"
  have j: "j < TIMER_WHEEL_SIZE" by (simp add: j_def)
  have "(\<exists>t \<in> set (W j). SleepTick s t \<le> now + of_nat i) \<longleftrightarrow> (\<exists>t \<in> sleepers W. unat (SleepTick s t) = unat now + i)"
  proof
    assume "\<exists>t \<in> set (W j). SleepTick s t \<le> now + of_nat i"
    then obtain t where t: "t \<in> set (W j)" "unat (SleepTick s t) \<le> unat now + i" using n by (auto simp: word_le_nat_alt)
    then have sl: "t \<in> sleepers W" using j by (auto simp: sleepers_def)
    then have "unat now \<le> unat (SleepTick s t)" using later by (simp add: word_le_nat_alt)
    moreover have "unat (SleepTick s t) mod 512 = (unat now + i) mod 512" using bucket_tick [OF W j t(1)] by (simp add: j_def)
    then have "512 dvd (unat now + i) - unat (SleepTick s t)" using mod_eq_dvd_iff_nat t(2) by metis
    ultimately have "unat now + i - unat (SleepTick s t) = 0" using b(1) by (metis dvd_imp_le leD le_diff_conv2 add.commute diff_le_mono2 diff_add_inverse le_trans not_gr_zero)
    then show "\<exists>t \<in> sleepers W. unat (SleepTick s t) = unat now + i" using sl t(2) by force
  next
    assume "\<exists>t \<in> sleepers W. unat (SleepTick s t) = unat now + i"
    then obtain t where "t \<in> sleepers W" "unat (SleepTick s t) = unat now + i" by blast
    then show "\<exists>t \<in> set (W j). SleepTick s t \<le> now + of_nat i" using in_bucket [OF W, of t] n by (intro bexI [of _ t]) (simp_all add: j_def word_le_nat_alt)
  qed
  then show ?thesis using due_in_chain_ok [of s "SleepWheel s j" "W j"] W j n by (simp add: wheel_def j_def)
qed

lemma dist_loop_ok:
  assumes "wheel s W" and "\<forall>t \<in> sleepers W. now \<le> SleepTick s t" and "unat now + 100 < 2 ^ 64" and "k \<le> n" and "n \<le> 100"
    and "\<forall>t \<in> sleepers W. unat now + k \<le> unat (SleepTick s t)"
  shows "(\<exists>i. k \<le> i \<and> i < n \<and> dist_loop now [k..<n] s = Some (of_nat i) \<and> (\<exists>t \<in> sleepers W. unat (SleepTick s t) = unat now + i)
       \<and> (\<forall>t \<in> sleepers W. unat now + i \<le> unat (SleepTick s t)))
     \<or> dist_loop now [k..<n] s = Some 0xFFFFFFFFFFFFFFFF \<and> (\<forall>t \<in> sleepers W. unat now + n \<le> unat (SleepTick s t))"
  using assms(4,6)
proof (induction "n - k" arbitrary: k)
  case 0
  then show ?case by simp
next
  case (Suc m)
  then have split: "[k..<n] = k # [Suc k..<n]" by (simp add: upt_conv_Cons)
  have due: "due_in_chain (now + of_nat k) (SleepWheel s (unat (now + of_nat k) mod TIMER_WHEEL_SIZE)) s
     = Some (\<exists>t \<in> sleepers W. unat (SleepTick s t) = unat now + k)"
    using Suc.prems assms(3,5) Suc(2) by (intro due_exact [OF assms(1,2)]) auto
  show ?case
  proof (cases "\<exists>t \<in> sleepers W. unat (SleepTick s t) = unat now + k")
    case True
    then show ?thesis using due Suc.prems Suc(2) unfolding split by (intro disjI1 exI [of _ k]) (simp add: Let_def)
  next
    case False
    then have "\<forall>t \<in> sleepers W. unat now + Suc k \<le> unat (SleepTick s t)" using Suc.prems(2) by (metis add_Suc_right le_neq_implies_less Suc_le_eq)
    then have "(\<exists>i. Suc k \<le> i \<and> i < n \<and> dist_loop now [Suc k..<n] s = Some (of_nat i) \<and> (\<exists>t \<in> sleepers W. unat (SleepTick s t) = unat now + i)
       \<and> (\<forall>t \<in> sleepers W. unat now + i \<le> unat (SleepTick s t)))
     \<or> dist_loop now [Suc k..<n] s = Some 0xFFFFFFFFFFFFFFFF \<and> (\<forall>t \<in> sleepers W. unat now + n \<le> unat (SleepTick s t))"
      using Suc(1) [of "Suc k"] Suc(2) by simp
    moreover have "dist_loop now [k..<n] s = dist_loop now [Suc k..<n] s" using due False unfolding split by (simp add: Let_def)
    ultimately show ?thesis by (metis Suc_leD)
  qed
qed

section \<open>Properties\<close>

text \<open>C5. The timer wheel wakes exactly the tasks that are due. In a state in which the wheel is in order,
  \<^verbatim>\<open>CheckSleepingTasks\<close> at a tick before the last 64-bit one returns, and the tasks that then are ready are those
  that were and the sleepers whose tick has come, none missed in a bucket skipped between two calls or after a
  gap longer than the wheel, and none early; those still asleep stay in the wheel, in order, and the woken ones
  are \<^verbatim>\<open>READY\<close> with their sleep tick cleared.
\<close>

theorem CheckSleepingTasks_wakes_exactly:
  assumes "sleep_inv s W xs" and "now < 0xFFFFFFFFFFFFFFFF"
  shows "\<exists>s' W' xs'. CheckSleepingTasks now s = Some s' \<and> sleep_inv s' W' xs'
     \<and> set xs' = set xs \<union> {t \<in> sleepers W. SleepTick s t \<le> now} \<and> sleepers W' = {t \<in> sleepers W. now < SleepTick s t}
     \<and> (\<forall>t \<in> sleepers W. SleepTick s t \<le> now \<longrightarrow> State s' t = READY \<and> SleepTick s' t = 0)
     \<and> (\<forall>t. \<not> (t \<in> sleepers W \<and> SleepTick s t \<le> now) \<longrightarrow> State s' t = State s t \<and> vruntime s' t = vruntime s t)"
proof -
  define E where "E = {t \<in> sleepers W. SleepTick s t \<le> now}"
  obtain s' xs' where s': "CheckSleepingTasks now s = Some s'" "sleep_inv s' (\<lambda>i. filter (\<lambda>t. t \<notin> E) (W i)) xs'" "set xs' = E \<union> set xs"
      "woken E (s\<lparr> LastCheckedTick := LastCheckedTick s' \<rparr>) s'"
    using CheckSleepingTasks_ok [OF assms E_def] by blast
  moreover have "sleepers (\<lambda>i. filter (\<lambda>t. t \<notin> E) (W i)) = {t \<in> sleepers W. now < SleepTick s t}"
    by (auto simp: sleepers_filter E_def not_le)
  ultimately show ?thesis
    by (intro exI [of _ s'] exI [of _ "\<lambda>i. filter (\<lambda>t. t \<notin> E) (W i)"] exI [of _ xs']) (auto simp: woken_def E_def)
qed

text \<open>The distance to the next wake-up. When no task is overdue, \<^verbatim>\<open>GetDistToNextWakeup\<close> returns the number of ticks
  to the earliest sleeper if it wakes within the next 100 ticks, and the largest 64-bit number if none does:
  a task of a later turn of the wheel in the same bucket is not mistaken for one that is due.
\<close>

theorem GetDistToNextWakeup_exact:
  assumes "wheel s W" and "\<forall>t \<in> sleepers W. now \<le> SleepTick s t" and "unat now + 100 < 2 ^ 64"
  shows "(\<exists>d < 100. GetDistToNextWakeup now s = Some (of_nat d) \<and> (\<exists>t \<in> sleepers W. unat (SleepTick s t) = unat now + d)
       \<and> (\<forall>t \<in> sleepers W. unat now + d \<le> unat (SleepTick s t)))
     \<or> GetDistToNextWakeup now s = Some 0xFFFFFFFFFFFFFFFF \<and> (\<forall>t \<in> sleepers W. unat now + 100 \<le> unat (SleepTick s t))"
  using dist_loop_ok [OF assms, of 0 100] assms(2) unfolding GetDistToNextWakeup_def by (auto simp: word_le_nat_alt)

section \<open>Witnesses\<close>

text \<open>Task 5 sleeps until tick 40, task 6 until tick 552, in the same bucket.\<close>

definition sample_sleepers :: sched where
  "sample_sleepers = empty_sched\<lparr> SleepWheel := (\<lambda>i. if i = 40 then 5 else 0), NextSleepQueue := (\<lambda>t. if t = 5 then 6 else 0),
     SleepTick := (\<lambda>t. if t = 5 then 40 else 552), TotalSleepingTasks := 2, State := (\<lambda>_. BLOCKED) \<rparr>"

definition sample_wheel :: "nat \<Rightarrow> nat list" where
  "sample_wheel i = (if i = 40 then [5, 6] else [])"

lemma sample_wheel_sleepers: "sleepers sample_wheel = {5, 6}"
  by (auto simp: sleepers_def sample_wheel_def split: if_splits)

lemma sample_wheel_ok: "wheel sample_sleepers sample_wheel"
  by (simp add: wheel_def sample_wheel_def sample_sleepers_def empty_sched_def sample_sched_def)

lemma sample_sleep_inv: "sleep_inv sample_sleepers sample_wheel []"
proof -
  have "run_queue sample_sleepers []" using empty_sched_queue by (simp add: run_queue_def sample_sleepers_def)
  then show ?thesis using sample_wheel_ok
    by (simp add: sleep_inv_def sample_wheel_sleepers) (simp add: sample_sleepers_def empty_sched_def sample_sched_def)
qed

lemma CheckSleepingTasks_wakes_exactly_witness:
  "\<exists>s' W' xs'. CheckSleepingTasks 700 sample_sleepers = Some s' \<and> sleep_inv s' W' xs' \<and> set xs' = {5, 6}
     \<and> State s' 5 = READY"
proof -
  have "{t \<in> sleepers sample_wheel. SleepTick sample_sleepers t \<le> 700} = {5, 6}" by (auto simp: sample_wheel_sleepers sample_sleepers_def)
  moreover have "SleepTick sample_sleepers 5 \<le> 700" "5 \<in> sleepers sample_wheel" by (simp_all add: sample_wheel_sleepers sample_sleepers_def)
  ultimately show ?thesis using CheckSleepingTasks_wakes_exactly [OF sample_sleep_inv, of 700] by fastforce
qed

lemma GetDistToNextWakeup_exact_witness: "GetDistToNextWakeup 10 sample_sleepers = Some 30"
proof -
  have tick: "SleepTick sample_sleepers t = (if t = 5 then 40 else 552)" for t by (simp add: sample_sleepers_def)
  have "(\<exists>d < 100. GetDistToNextWakeup 10 sample_sleepers = Some (of_nat d) \<and> (\<exists>t \<in> sleepers sample_wheel. unat (SleepTick sample_sleepers t) = unat (10 :: u64) + d)
       \<and> (\<forall>t \<in> sleepers sample_wheel. unat (10 :: u64) + d \<le> unat (SleepTick sample_sleepers t)))
     \<or> GetDistToNextWakeup 10 sample_sleepers = Some 0xFFFFFFFFFFFFFFFF \<and> (\<forall>t \<in> sleepers sample_wheel. unat (10 :: u64) + 100 \<le> unat (SleepTick sample_sleepers t))"
    by (rule GetDistToNextWakeup_exact [OF sample_wheel_ok]) (simp_all add: sample_wheel_sleepers tick)
  then show ?thesis by (auto simp: sample_wheel_sleepers tick)
qed

end
