(* ===== verification/Scheduler.thy ===== *)
theory Scheduler
  imports Sleep_Wheel
begin

text \<open>
  The scheduler proper: \<^verbatim>\<open>Schedule\<close>, \<^verbatim>\<open>SchedulerTick\<close> and \<^verbatim>\<open>Sleep\<close> of \<^verbatim>\<open>kernel/task/scheduler.cpp\<close>, the lookup of
  tasks and the weights of \<^verbatim>\<open>kernel/task/task_main.cpp\<close>. The part of the processor a switch writes (page table
  register, FPU, TSS stack, timer, and the stack pointer the restored context is read from) is the record \<open>cpu\<close>.
\<close>

section \<open>Model\<close>

record cpu =
  cpu_cr3 :: u64
  cpu_fpu :: nat
  fpu_image :: "u64 \<Rightarrow> nat"
  tss_rsp0 :: u64
  timer_armed :: u64
  resumed_rsp :: u64

definition PrioToWeight :: "u64 list" where
  "PrioToWeight = [88761, 71755, 56483, 46273, 36291, 29154, 23254, 18705, 14949, 11916,
     9548, 7620, 6100, 4904, 3906, 3121, 2501, 1991, 1586, 1277,
     1024, 820, 655, 526, 423, 335, 272, 215, 172, 137,
     110, 87, 70, 56, 45, 36, 29, 23, 18, 15]"

definition RateThisTaskNice :: "int \<Rightarrow> u64" where
  "RateThisTaskNice n = (let n = (if n < -20 then -20 else n); n = (if n > 19 then 19 else n) in PrioToWeight ! nat (n + 20))"

definition GetTaskPID :: "u64 \<Rightarrow> sched \<Rightarrow> nat" where
  "GetTaskPID p s = (if unat p \<ge> MAX_TASK then 0
     else let t = TaskArray s (unat p) in if t \<noteq> 0 \<and> pid s t = p then t else 0)"

text \<open>Saving the task that was running; only a task that is still \<^verbatim>\<open>RUNNING\<close> goes back to the run queue.\<close>

definition save_prev :: "u64 \<Rightarrow> sched \<times> cpu \<Rightarrow> (sched \<times> cpu) option" where
  "save_prev ctx sc = (case sc of (s, c) \<Rightarrow>
     let prev = GetCurrentTaskPtr s in
     if prev = 0 then Some (s, c)
     else do {
       let s = s\<lparr> RSP := (RSP s)(prev := ctx) \<rparr>;
       let c = (if FPU_Region s prev \<noteq> 0 then c\<lparr> fpu_image := (fpu_image c)(FPU_Region s prev := cpu_fpu c) \<rparr> else c);
       s \<leftarrow> (if pid s prev \<noteq> PID_IDLE \<and> State s prev = RUNNING
             then CFSEnqueue prev (s\<lparr> State := (State s)(prev := READY) \<rparr>) else Some s);
       Some (s, c) })"

definition pick_task :: "sched \<Rightarrow> (nat \<times> sched) option" where
  "pick_task s = do {
     (n, s) \<leftarrow> CFSPickNext s;
     if n = 0 then Some (GetTaskPID PID_IDLE s, s)
     else Some (n, if vruntime s n > MinVRuntime s then s\<lparr> MinVRuntime := vruntime s n \<rparr> else s) }"

definition dispatch :: "u64 \<Rightarrow> nat \<Rightarrow> sched \<times> cpu \<Rightarrow> (sched \<times> cpu) option" where
  "dispatch tsc n sc = (case sc of (s, c) \<Rightarrow>
     if n = 0 then None
     else
       let s = s\<lparr> ActiveTask := pid s n, CurrentTaskIndex := pid s n, State := (State s)(n := RUNNING), ForceReschedule := False \<rparr>;
           t = 4 * tsc;
           c = c\<lparr> timer_armed := (if t < 5000 then 5000 else t) \<rparr>;
           c = (if CR3 s n \<noteq> cpu_cr3 c then c\<lparr> cpu_cr3 := CR3 s n \<rparr> else c);
           c = (if FPU_Region s n \<noteq> 0 then c\<lparr> cpu_fpu := fpu_image c (FPU_Region s n) \<rparr> else c)
       in Some (s, c\<lparr> tss_rsp0 := StackBase s n + StackSize s n, resumed_rsp := RSP s n \<rparr>))"

definition Schedule :: "u64 \<Rightarrow> u64 \<Rightarrow> sched \<times> cpu \<Rightarrow> (sched \<times> cpu) option" where
  "Schedule tsc ctx sc = do {
     (s, c) \<leftarrow> save_prev ctx sc;
     (n, s) \<leftarrow> pick_task s;
     dispatch tsc n (s, c) }"

definition charge_current :: "sched \<Rightarrow> sched option" where
  "charge_current s = (let cur = GetCurrentTaskPtr s in
     if cur \<noteq> 0 \<and> pid s cur \<noteq> PID_IDLE then
       if Weight s cur = 0 then None
       else let vdiff = 1024 div Weight s cur; vdiff = (if vdiff = 0 then 1 else vdiff)
         in Some (s\<lparr> vruntime := (vruntime s)(cur := vruntime s cur + vdiff) \<rparr>)
     else Some s)"

definition check_preempt :: "sched \<Rightarrow> sched" where
  "check_preempt s = (let cur = GetCurrentTaskPtr s; lm = CFSLeftmost s in
     if lm \<noteq> 0 \<and> cur \<noteq> 0 \<and> (pid s cur = PID_IDLE \<or> vruntime s cur > vruntime s lm + 2)
     then s\<lparr> ForceReschedule := True \<rparr> else s)"

definition SchedulerTick :: "u64 \<Rightarrow> u64 \<Rightarrow> u64 \<Rightarrow> sched \<times> cpu \<Rightarrow> (sched \<times> cpu) option" where
  "SchedulerTick tsc now ctx sc = (case sc of (s, c) \<Rightarrow> do {
     s \<leftarrow> CheckSleepingTasks now s;
     s \<leftarrow> charge_current s;
     Schedule tsc ctx (check_preempt s, c) })"

text \<open>\<^verbatim>\<open>Sleep\<close> up to the yield, which arms the timer.\<close>

definition Sleep :: "u64 \<Rightarrow> u64 \<Rightarrow> u64 \<Rightarrow> sched \<times> cpu \<Rightarrow> (sched \<times> cpu) option" where
  "Sleep hz now ms sc = (case sc of (s, c) \<Rightarrow>
     let cur = GetCurrentTaskPtr s in
     if cur = 0 \<or> ms = 0 then Some (s, c)
     else do {
       let n = (ms * hz) div 1000;
       let n = (if n = 0 then 1 else n);
       let s = s\<lparr> SleepTick := (SleepTick s)(cur := now + n), State := (State s)(cur := BLOCKED),
                  BlockReason := (BlockReason s)(cur := BlockReason s cur OR 1) \<rparr>;
       s \<leftarrow> AddToSleepList cur s;
       Some (s, c\<lparr> timer_armed := 1 \<rparr>) })"

section \<open>Weights\<close>

lemma length_PrioToWeight: "length PrioToWeight = 40"
  by (simp add: PrioToWeight_def)

lemma RateThisTaskNice_weight: "RateThisTaskNice n \<in> set PrioToWeight"
  unfolding RateThisTaskNice_def Let_def by (rule nth_mem) (auto simp: length_PrioToWeight)

lemma PrioToWeight_pos: "w \<in> set PrioToWeight \<Longrightarrow> w \<noteq> 0"
  by (auto simp: PrioToWeight_def)

definition vdelta :: "u64 \<Rightarrow> u64" where
  "vdelta w = (let d = 1024 div w in if d = 0 then 1 else d)"

lemma vdelta_bounds: "0 < unat (vdelta w) \<and> unat (vdelta w) \<le> 1024"
proof -
  have "unat (1024 div w :: u64) \<le> 1024" by (simp add: unat_div)
  moreover have "0 < unat (1024 div w :: u64)" if "1024 div w \<noteq> 0" using that by (simp add: unat_gt_0)
  ultimately show ?thesis by (auto simp: vdelta_def Let_def)
qed

section \<open>The invariant\<close>

definition known :: "sched \<Rightarrow> nat \<Rightarrow> bool" where
  "known s t \<longleftrightarrow> t \<noteq> 0 \<and> unat (pid s t) < MAX_TASK \<and> TaskArray s (unat (pid s t)) = t"

definition sched_ok :: "sched \<Rightarrow> (nat \<Rightarrow> nat list) \<Rightarrow> nat list \<Rightarrow> bool" where
  "sched_ok s W xs \<longleftrightarrow> sleep_inv s W xs \<and> (\<forall>t \<in> set xs \<union> sleepers W. known s t \<and> pid s t \<noteq> PID_IDLE)
     \<and> TaskArray s 0 \<noteq> 0 \<and> pid s (TaskArray s 0) = PID_IDLE
     \<and> (State s (GetCurrentTaskPtr s) = RUNNING \<longrightarrow> GetCurrentTaskPtr s \<notin> set xs \<union> sleepers W)
     \<and> (GetCurrentTaskPtr s \<noteq> 0 \<longrightarrow> known s (GetCurrentTaskPtr s))"

text \<open>The queue after the running task has been put back.\<close>

definition requeued :: "sched \<Rightarrow> nat list \<Rightarrow> nat list" where
  "requeued s xs = (let cur = GetCurrentTaskPtr s in
     if cur \<noteq> 0 \<and> pid s cur \<noteq> PID_IDLE \<and> State s cur = RUNNING then ins_after (vruntime s) cur xs else xs)"

definition next_task :: "sched \<Rightarrow> nat list \<Rightarrow> nat" where
  "next_task s xs = (case requeued s xs of [] \<Rightarrow> TaskArray s 0 | x # _ \<Rightarrow> x)"

section \<open>Schedule\<close>

text \<open>What a switch does not write.\<close>

definition kept :: "sched \<Rightarrow> sched \<Rightarrow> bool" where
  "kept s s' \<longleftrightarrow> SleepWheel s' = SleepWheel s \<and> TotalSleepingTasks s' = TotalSleepingTasks s \<and> LastCheckedTick s' = LastCheckedTick s
     \<and> TaskArray s' = TaskArray s \<and> pid s' = pid s \<and> PGID s' = PGID s \<and> PGIDTaskPtr s' = PGIDTaskPtr s \<and> Signals s' = Signals s
     \<and> CR3 s' = CR3 s \<and> StackBase s' = StackBase s \<and> StackSize s' = StackSize s \<and> FPU_Region s' = FPU_Region s
     \<and> BlockReason s' = BlockReason s \<and> SleepTick s' = SleepTick s \<and> NextWaitTask s' = NextWaitTask s
     \<and> NextSleepQueue s' = NextSleepQueue s \<and> NiceValue s' = NiceValue s \<and> vruntime s' = vruntime s \<and> Weight s' = Weight s
     \<and> IsSudoOrAdmin s' = IsSudoOrAdmin s"

lemma kept_trans: "kept s s1 \<Longrightarrow> kept s1 s2 \<Longrightarrow> kept s s2"
  by (simp add: kept_def)

definition saved :: "sched \<Rightarrow> nat list \<Rightarrow> u64 \<Rightarrow> sched \<Rightarrow> bool" where
  "saved s xs ctx s' \<longleftrightarrow> run_queue s' (requeued s xs) \<and> kept s s' \<and> MinVRuntime s' = MinVRuntime s
     \<and> (GetCurrentTaskPtr s \<noteq> 0 \<longrightarrow> RSP s' = (RSP s)(GetCurrentTaskPtr s := ctx))
     \<and> State s' = (\<lambda>t. if t \<noteq> 0 \<and> t = GetCurrentTaskPtr s \<and> pid s t \<noteq> PID_IDLE \<and> State s t = RUNNING then READY else State s t)"

definition fpu_saved :: "sched \<Rightarrow> cpu \<Rightarrow> cpu" where
  "fpu_saved s c = (let cur = GetCurrentTaskPtr s in
     if cur \<noteq> 0 \<and> FPU_Region s cur \<noteq> 0 then c\<lparr> fpu_image := (fpu_image c)(FPU_Region s cur := cpu_fpu c) \<rparr> else c)"

lemma save_prev_ok:
  assumes ok: "sched_ok s W xs"
  shows "\<exists>s'. save_prev ctx (s, c) = Some (s', fpu_saved s c) \<and> saved s xs ctx s'"
proof -
  define cur where "cur = GetCurrentTaskPtr s"
  have rq: "run_queue s xs" using ok by (simp add: sched_ok_def sleep_inv_def)
  show ?thesis
  proof (cases "cur \<noteq> 0 \<and> pid s cur \<noteq> PID_IDLE \<and> State s cur = RUNNING")
    case True
    define s1 where "s1 = s\<lparr> RSP := (RSP s)(cur := ctx), State := (State s)(cur := READY) \<rparr>"
    have nin: "cur \<notin> set xs" using ok True by (auto simp: sched_ok_def cur_def)
    have r: "requeued s xs = ins_after (vruntime s) cur xs" using True by (simp add: requeued_def cur_def Let_def)
    have "run_queue s1 xs" using rq by (simp add: s1_def run_queue_def)
    then obtain s2 t lm fr where s2: "CFSEnqueue cur s1 = Some s2" "run_queue s2 (ins_after (vruntime s1) cur xs)"
        "s2 = s1\<lparr> CFSLeftmost := lm, Tree := t, ForceReschedule := fr \<rparr>"
      using CFSEnqueue_ok [of s1 xs cur] True nin by (auto simp: s1_def)
    have "saved s xs ctx s2"
      using s2(2) r True unfolding saved_def kept_def by (auto simp: s2(3) s1_def cur_def [symmetric])
    moreover have "save_prev ctx (s, c) = Some (s2, fpu_saved s c)"
      using True s2(1) by (simp add: save_prev_def Let_def cur_def [symmetric] s1_def fpu_saved_def)
    ultimately show ?thesis by blast
  next
    case False
    define s1 where "s1 = (if cur = 0 then s else s\<lparr> RSP := (RSP s)(cur := ctx) \<rparr>)"
    have "save_prev ctx (s, c) = Some (s1, fpu_saved s c)"
      using False by (auto simp: save_prev_def Let_def cur_def [symmetric] s1_def fpu_saved_def)
    moreover have "requeued s xs = xs" using False by (auto simp: requeued_def cur_def Let_def)
    then have "saved s xs ctx s1"
      using rq False unfolding saved_def kept_def by (auto simp: s1_def cur_def [symmetric] run_queue_def)
    ultimately show ?thesis by blast
  qed
qed

lemma pick_task_ok:
  assumes "run_queue s ys" and "TaskArray s 0 \<noteq> 0" and "pid s (TaskArray s 0) = PID_IDLE"
  shows "\<exists>s'. pick_task s = Some (case ys of [] \<Rightarrow> TaskArray s 0 | x # _ \<Rightarrow> x, s') \<and> run_queue s' (tl ys) \<and> kept s s'
     \<and> RSP s' = RSP s \<and> State s' = State s \<and> CurrentTaskIndex s' = CurrentTaskIndex s
     \<and> MinVRuntime s' = (case ys of [] \<Rightarrow> MinVRuntime s | x # _ \<Rightarrow> max (MinVRuntime s) (vruntime s x))"
proof (cases ys)
  case Nil
  then have "pick_task s = Some (TaskArray s 0, s)"
    using CFSPickNext_Nil [of s] assms by (simp add: pick_task_def GetTaskPID_def Let_def)
  then show ?thesis using Nil assms by (simp add: kept_def)
next
  case (Cons x xs)
  obtain t lm where p: "CFSPickNext s = Some (x, s\<lparr> CFSLeftmost := lm, Tree := t \<rparr>)" "run_queue (s\<lparr> CFSLeftmost := lm, Tree := t \<rparr>) xs"
    using CFSPickNext_Cons [of s x xs] assms(1) Cons by blast
  have "x \<noteq> 0" using rb_tree_nodes [of "Tree s" ys] assms(1) Cons by (auto simp: run_queue_def)
  then show ?thesis using p Cons unfolding pick_task_def by (auto simp: kept_def run_queue_def max_def not_less)
qed

lemma dispatch_ok:
  assumes "n \<noteq> 0"
  shows "\<exists>s' c'. dispatch tsc n (s, c) = Some (s', c') \<and> kept s s' \<and> Tree s' = Tree s \<and> CFSLeftmost s' = CFSLeftmost s
     \<and> MinVRuntime s' = MinVRuntime s \<and> RSP s' = RSP s \<and> State s' = (State s)(n := RUNNING) \<and> CurrentTaskIndex s' = pid s n
     \<and> ActiveTask s' = pid s n \<and> \<not> ForceReschedule s'
     \<and> cpu_cr3 c' = CR3 s n \<and> resumed_rsp c' = RSP s n \<and> tss_rsp0 c' = StackBase s n + StackSize s n \<and> 5000 \<le> timer_armed c'
     \<and> fpu_image c' = fpu_image c \<and> cpu_fpu c' = (if FPU_Region s n \<noteq> 0 then fpu_image c (FPU_Region s n) else cpu_fpu c)"
  using assms by (auto simp: dispatch_def Let_def kept_def not_less)

definition switched :: "sched \<Rightarrow> nat list \<Rightarrow> u64 \<Rightarrow> cpu \<Rightarrow> sched \<Rightarrow> cpu \<Rightarrow> bool" where
  "switched s xs ctx c s' c' \<longleftrightarrow> (let n = next_task s xs; cur = GetCurrentTaskPtr s in
     GetCurrentTaskPtr s' = n \<and> State s' n = RUNNING \<and> MinVRuntime s \<le> MinVRuntime s' \<and> kept s s' \<and> \<not> ForceReschedule s'
     \<and> (cur \<noteq> 0 \<longrightarrow> RSP s' = (RSP s)(cur := ctx))
     \<and> (\<forall>t. t \<noteq> n \<and> t \<noteq> cur \<longrightarrow> State s' t = State s t)
     \<and> (cur \<noteq> n \<and> cur \<noteq> 0 \<longrightarrow> State s' cur = (if pid s cur \<noteq> PID_IDLE \<and> State s cur = RUNNING then READY else State s cur))
     \<and> cpu_cr3 c' = CR3 s n \<and> resumed_rsp c' = RSP s' n \<and> tss_rsp0 c' = StackBase s n + StackSize s n \<and> 5000 \<le> timer_armed c'
     \<and> fpu_image c' = fpu_image (fpu_saved s c)
     \<and> (FPU_Region s n \<noteq> 0 \<longrightarrow> cpu_fpu c' = fpu_image c' (FPU_Region s n)))"

lemma requeued_set: "set (requeued s xs) \<subseteq> insert (GetCurrentTaskPtr s) (set xs)"
  by (auto simp: requeued_def Let_def)

lemma requeued_mem:
  assumes ok: "sched_ok s W xs"
  shows "distinct (requeued s xs)" "set (requeued s xs) \<inter> sleepers W = {}" "\<forall>t \<in> set (requeued s xs). known s t \<and> pid s t \<noteq> PID_IDLE"
proof -
  have d: "distinct xs" "sleepers W \<inter> set xs = {}" using ok rb_tree_nodes by (auto simp: sched_ok_def sleep_inv_def run_queue_def)
  show "distinct (requeued s xs)" "set (requeued s xs) \<inter> sleepers W = {}" "\<forall>t \<in> set (requeued s xs). known s t \<and> pid s t \<noteq> PID_IDLE"
    using ok d by (auto simp: sched_ok_def requeued_def Let_def split: if_splits)
qed

lemma wheel_kept: "kept s s' \<Longrightarrow> wheel s' W = wheel s W"
  by (simp add: wheel_def kept_def)

lemma Schedule_ok:
  assumes ok: "sched_ok s W xs"
  shows "\<exists>s' c'. Schedule tsc ctx (s, c) = Some (s', c') \<and> sched_ok s' W (tl (requeued s xs)) \<and> switched s xs ctx c s' c'"
proof -
  define n where "n = next_task s xs"
  obtain s1 where s1: "save_prev ctx (s, c) = Some (s1, fpu_saved s c)" "saved s xs ctx s1" using save_prev_ok [OF ok] by blast
  have idle: "TaskArray s1 0 = TaskArray s 0" "TaskArray s 0 \<noteq> 0" "pid s1 (TaskArray s 0) = PID_IDLE" "pid s (TaskArray s 0) = PID_IDLE"
    using s1(2) ok by (auto simp: saved_def kept_def sched_ok_def)
  have k1: "kept s s1" using s1(2) by (simp add: saved_def)
  have rq1: "run_queue s1 (requeued s xs)" using s1(2) by (simp add: saved_def)
  obtain s2 where s2: "pick_task s1 = Some (n, s2)" "run_queue s2 (tl (requeued s xs))" "kept s1 s2" "RSP s2 = RSP s1" "State s2 = State s1"
      "MinVRuntime s1 \<le> MinVRuntime s2"
    using pick_task_ok [OF rq1] idle by (auto simp: n_def next_task_def split: list.splits)
  note mem = requeued_mem [OF ok]
  have n: "known s n" "n \<notin> set (tl (requeued s xs))" "n \<notin> sleepers W"
  proof -
    show "known s n" using mem idle by (auto simp: n_def next_task_def known_def split: list.splits)
    show "n \<notin> set (tl (requeued s xs))" using mem(1) by (auto simp: n_def next_task_def split: list.splits)
    have "pid s t \<noteq> PID_IDLE" if "t \<in> sleepers W" for t using ok that by (auto simp: sched_ok_def)
    then show "n \<notin> sleepers W" using mem(2) idle by (auto simp: n_def next_task_def split: list.splits)
  qed
  obtain s3 c3 where s3: "dispatch tsc n (s2, fpu_saved s c) = Some (s3, c3)" "kept s2 s3" "Tree s3 = Tree s2" "CFSLeftmost s3 = CFSLeftmost s2"
      "MinVRuntime s3 = MinVRuntime s2" "RSP s3 = RSP s2" "State s3 = (State s2)(n := RUNNING)" "CurrentTaskIndex s3 = pid s2 n"
      "\<not> ForceReschedule s3" "cpu_cr3 c3 = CR3 s2 n" "resumed_rsp c3 = RSP s2 n" "tss_rsp0 c3 = StackBase s2 n + StackSize s2 n" "5000 \<le> timer_armed c3"
      "fpu_image c3 = fpu_image (fpu_saved s c)" "FPU_Region s2 n \<noteq> 0 \<longrightarrow> cpu_fpu c3 = fpu_image (fpu_saved s c) (FPU_Region s2 n)"
    using dispatch_ok [of n tsc s2 "fpu_saved s c"] n(1) by (auto simp: known_def)
  have k: "kept s s2" "kept s s3" using k1 s2(3) s3(2) kept_trans by blast+
  have cur: "GetCurrentTaskPtr s3 = n" using n(1) s3(8) k by (simp add: GetCurrentTaskPtr_def known_def kept_def)
  have "Schedule tsc ctx (s, c) = Some (s3, c3)" using s1(1) s2(1) s3(1) by (simp add: Schedule_def)
  moreover have "switched s xs ctx c s3 c3"
    using s1(2) s2(4-6) s3(5-15) k cur unfolding switched_def n_def [symmetric] Let_def by (auto simp: saved_def kept_def)
  moreover have "sched_ok s3 W (tl (requeued s xs))"
  proof -
    have sub: "set (tl (requeued s xs)) \<subseteq> set (requeued s xs)" by (cases "requeued s xs") auto
    have "run_queue s3 (tl (requeued s xs))" by (rule run_queue_cong [OF s2(2)]) (use s3(2-4) in \<open>simp_all add: kept_def\<close>)
    then have "sleep_inv s3 W (tl (requeued s xs))"
      using ok wheel_kept [OF k(2)] mem(2) sub k(2) unfolding sched_ok_def sleep_inv_def by (auto simp: kept_def)
    then show ?thesis using ok mem(3) sub n k(2) cur unfolding sched_ok_def by (auto simp: known_def kept_def)
  qed
  ultimately show ?thesis by blast
qed

section \<open>SchedulerTick\<close>

lemma GetCurrentTaskPtr_frame2 [simp]:
  "GetCurrentTaskPtr (s\<lparr> vruntime := f \<rparr>) = GetCurrentTaskPtr s"
  "GetCurrentTaskPtr (s\<lparr> SleepTick := f \<rparr>) = GetCurrentTaskPtr s"
  "GetCurrentTaskPtr (s\<lparr> State := g \<rparr>) = GetCurrentTaskPtr s"
  "GetCurrentTaskPtr (s\<lparr> BlockReason := f \<rparr>) = GetCurrentTaskPtr s"
  "GetCurrentTaskPtr (s\<lparr> LastCheckedTick := l \<rparr>) = GetCurrentTaskPtr s"
  "GetCurrentTaskPtr (s\<lparr> NextSleepQueue := h \<rparr>) = GetCurrentTaskPtr s"
  "GetCurrentTaskPtr (s\<lparr> SleepWheel := h \<rparr>) = GetCurrentTaskPtr s"
  "GetCurrentTaskPtr (s\<lparr> TotalSleepingTasks := l \<rparr>) = GetCurrentTaskPtr s"
  by (simp_all add: GetCurrentTaskPtr_def)

lemma GetCurrentTaskPtr_unchanged: "unchanged s s' \<Longrightarrow> GetCurrentTaskPtr s' = GetCurrentTaskPtr s"
  by (simp add: GetCurrentTaskPtr_def unchanged_def)

text \<open>The charge of one tick to the running task.\<close>

lemma charge_current_ok:
  assumes ok: "sched_ok s W xs" and cur: "cur = GetCurrentTaskPtr s"
    and w: "cur \<noteq> 0 \<and> pid s cur \<noteq> PID_IDLE \<longrightarrow> Weight s cur \<noteq> 0 \<and> cur \<notin> set xs"
  shows "\<exists>s'. charge_current s = Some s' \<and> sched_ok s' W xs
     \<and> s' = s\<lparr> vruntime := (if cur \<noteq> 0 \<and> pid s cur \<noteq> PID_IDLE then (vruntime s)(cur := vruntime s cur + vdelta (Weight s cur)) else vruntime s) \<rparr>"
proof (cases "cur \<noteq> 0 \<and> pid s cur \<noteq> PID_IDLE")
  case True
  define s' where "s' = s\<lparr> vruntime := (vruntime s)(cur := vruntime s cur + vdelta (Weight s cur)) \<rparr>"
  have "charge_current s = Some s'"
    using True w by (simp add: charge_current_def cur [symmetric] Let_def s'_def vdelta_def)
  moreover have "run_queue s' xs"
    by (rule run_queue_cong [of s]) (use ok True w in \<open>auto simp: sched_ok_def sleep_inv_def s'_def\<close>)
  then have "sched_ok s' W xs"
    using ok unfolding sched_ok_def sleep_inv_def wheel_def known_def by (simp add: s'_def)
  ultimately show ?thesis using True by (auto simp: s'_def)
next
  case False
  then have "charge_current s = Some s" by (simp only: charge_current_def cur [symmetric] Let_def if_False)
  moreover have "s\<lparr> vruntime := vruntime s \<rparr> = s" by simp
  ultimately show ?thesis using ok by (simp only: False if_False) blast
qed

lemma check_preempt_ok: "sched_ok s W xs \<Longrightarrow> sched_ok (check_preempt s) W xs"
  unfolding check_preempt_def Let_def sched_ok_def sleep_inv_def wheel_def known_def run_queue_def by simp

lemma check_preempt_fields:
  "vruntime (check_preempt s) = vruntime s" "pid (check_preempt s) = pid s" "State (check_preempt s) = State s" "Weight (check_preempt s) = Weight s"
  "GetCurrentTaskPtr (check_preempt s) = GetCurrentTaskPtr s" "TaskArray (check_preempt s) = TaskArray s"
  by (simp_all add: check_preempt_def Let_def)

lemma sched_ok_check:
  assumes ok: "sched_ok s W xs" and now: "now < 0xFFFFFFFFFFFFFFFF" and E: "E = {t \<in> sleepers W. SleepTick s t \<le> now}"
  shows "\<exists>s' xs'. CheckSleepingTasks now s = Some s' \<and> sched_ok s' (\<lambda>i. filter (\<lambda>t. t \<notin> E) (W i)) xs' \<and> set xs' = E \<union> set xs
     \<and> woken E (s\<lparr> LastCheckedTick := LastCheckedTick s' \<rparr>) s' \<and> GetCurrentTaskPtr s' = GetCurrentTaskPtr s"
proof -
  have "sleep_inv s W xs" using ok by (simp add: sched_ok_def)
  then obtain s' xs' where s': "CheckSleepingTasks now s = Some s'" "sleep_inv s' (\<lambda>i. filter (\<lambda>t. t \<notin> E) (W i)) xs'" "set xs' = E \<union> set xs"
      "woken E (s\<lparr> LastCheckedTick := LastCheckedTick s' \<rparr>) s'"
    using CheckSleepingTasks_ok [OF _ now E] by blast
  have u: "unchanged (s\<lparr> LastCheckedTick := LastCheckedTick s' \<rparr>) s'" using s'(4) by (simp add: woken_def)
  then have cur: "GetCurrentTaskPtr s' = GetCurrentTaskPtr s" using GetCurrentTaskPtr_unchanged [OF u] by (simp add: GetCurrentTaskPtr_def)
  have "sched_ok s' (\<lambda>i. filter (\<lambda>t. t \<notin> E) (W i)) xs'"
    using ok s'(2-4) u cur E unfolding sched_ok_def sleepers_filter by (auto simp: woken_def unchanged_def known_def split: if_splits)
  then show ?thesis using s' cur by blast
qed

text \<open>The running task can be charged: its weight is not zero, and it is neither queued nor about to be woken.\<close>

definition chargeable :: "u64 \<Rightarrow> sched \<Rightarrow> (nat \<Rightarrow> nat list) \<Rightarrow> nat list \<Rightarrow> bool" where
  "chargeable now s W xs \<longleftrightarrow> (let cur = GetCurrentTaskPtr s in cur \<noteq> 0 \<and> pid s cur \<noteq> PID_IDLE \<longrightarrow>
     Weight s cur \<noteq> 0 \<and> cur \<notin> set xs \<and> \<not> (cur \<in> sleepers W \<and> SleepTick s cur \<le> now))"

lemma SchedulerTick_ok:
  assumes ok: "sched_ok s W xs" and now: "now < 0xFFFFFFFFFFFFFFFF" and ch: "chargeable now s W xs"
  shows "\<exists>s' c' W' xs'. SchedulerTick tsc now ctx (s, c) = Some (s', c') \<and> sched_ok s' W' xs'"
proof -
  define E where "E = {t \<in> sleepers W. SleepTick s t \<le> now}"
  define W1 where "W1 = (\<lambda>i. filter (\<lambda>t. t \<notin> E) (W i))"
  obtain s1 xs1 where s1: "CheckSleepingTasks now s = Some s1" "sched_ok s1 W1 xs1" "set xs1 = E \<union> set xs"
      "woken E (s\<lparr> LastCheckedTick := LastCheckedTick s1 \<rparr>) s1" "GetCurrentTaskPtr s1 = GetCurrentTaskPtr s"
    using sched_ok_check [OF ok now E_def] unfolding W1_def by blast
  have "GetCurrentTaskPtr s \<noteq> 0 \<and> pid s1 (GetCurrentTaskPtr s) \<noteq> PID_IDLE \<longrightarrow> Weight s1 (GetCurrentTaskPtr s) \<noteq> 0 \<and> GetCurrentTaskPtr s \<notin> set xs1"
    using ch s1(3,4) by (auto simp: chargeable_def Let_def woken_def unchanged_def E_def)
  then obtain s2 where s2: "charge_current s1 = Some s2" "sched_ok s2 W1 xs1"
    using charge_current_ok [OF s1(2) refl] s1(5) by auto
  obtain s3 c3 where "Schedule tsc ctx (check_preempt s2, c) = Some (s3, c3)" "sched_ok s3 W1 (tl (requeued (check_preempt s2) xs1))"
    using Schedule_ok [OF check_preempt_ok [OF s2(2)]] by blast
  then show ?thesis using s1(1) s2(1) by (auto simp: SchedulerTick_def)
qed

section \<open>Every ready task runs\<close>

lemma tick_quiet:
  assumes ok: "sched_ok s W xs" and none: "sleepers W = {}" and ch: "chargeable now s W xs"
  shows "\<exists>s1 s' c'. SchedulerTick tsc now ctx (s, c) = Some (s', c') \<and> sched_ok s1 W xs \<and> sched_ok s' W (tl (requeued s1 xs))
     \<and> switched s1 xs ctx c s' c' \<and> pid s1 = pid s \<and> State s1 = State s \<and> Weight s1 = Weight s \<and> GetCurrentTaskPtr s1 = GetCurrentTaskPtr s
     \<and> vruntime s1 = (let cur = GetCurrentTaskPtr s in if cur \<noteq> 0 \<and> pid s cur \<noteq> PID_IDLE
          then (vruntime s)(cur := vruntime s cur + vdelta (Weight s cur)) else vruntime s)"
proof -
  define s0 where "s0 = s\<lparr> LastCheckedTick := now \<rparr>"
  have "unat (TotalSleepingTasks s) = 0" using ok none by (simp add: sched_ok_def sleep_inv_def)
  then have "TotalSleepingTasks s = 0" by (simp add: unat_eq_0)
  then have chk: "CheckSleepingTasks now s = Some s0" by (simp add: CheckSleepingTasks_def s0_def)
  have ok0: "sched_ok s0 W xs"
    using ok none unfolding sched_ok_def sleep_inv_def wheel_def known_def run_queue_def by (simp add: s0_def)
  obtain s1 where s1: "charge_current s0 = Some s1" "sched_ok s1 W xs"
      "s1 = s0\<lparr> vruntime := (let cur = GetCurrentTaskPtr s0 in if cur \<noteq> 0 \<and> pid s0 cur \<noteq> PID_IDLE
          then (vruntime s0)(cur := vruntime s0 cur + vdelta (Weight s0 cur)) else vruntime s0) \<rparr>"
    using charge_current_ok [OF ok0 refl] ch unfolding chargeable_def Let_def by (auto simp: s0_def)
  obtain s3 c3 where s3: "Schedule tsc ctx (check_preempt s1, c) = Some (s3, c3)" "sched_ok s3 W (tl (requeued (check_preempt s1) xs))"
      "switched (check_preempt s1) xs ctx c s3 c3"
    using Schedule_ok [OF check_preempt_ok [OF s1(2)]] by blast
  have "SchedulerTick tsc now ctx (s, c) = Some (s3, c3)" using chk s1(1) s3(1) by (simp add: SchedulerTick_def)
  then show ?thesis
    using s3(2,3) check_preempt_ok [OF s1(2)]
    by (intro exI [of _ "check_preempt s1"] exI [of _ s3] exI [of _ c3]) (simp add: check_preempt_fields s1(3) s0_def Let_def)
qed

definition ahead :: "sched \<Rightarrow> nat list \<Rightarrow> nat \<Rightarrow> nat set" where
  "ahead s xs t = {u \<in> insert (GetCurrentTaskPtr s) (set xs). u \<noteq> t \<and> u \<noteq> 0 \<and> pid s u \<noteq> PID_IDLE}"

definition lag :: "sched \<Rightarrow> nat list \<Rightarrow> nat \<Rightarrow> nat" where
  "lag s xs t = (\<Sum>u \<in> ahead s xs t. unat (vruntime s t) + 1 - unat (vruntime s u))"

definition cur_first :: "sched \<Rightarrow> nat \<Rightarrow> bool" where
  "cur_first s t \<longleftrightarrow> (let cur = GetCurrentTaskPtr s in cur \<noteq> 0 \<and> pid s cur \<noteq> PID_IDLE \<and> vruntime s cur \<le> vruntime s t)"

definition waiting :: "sched \<Rightarrow> (nat \<Rightarrow> nat list) \<Rightarrow> nat list \<Rightarrow> nat \<Rightarrow> bool" where
  "waiting s W xs t \<longleftrightarrow> sched_ok s W xs \<and> sleepers W = {} \<and> t \<in> set xs \<and> (\<forall>u \<in> ahead s xs t. Weight s u \<noteq> 0)
     \<and> (let cur = GetCurrentTaskPtr s in (cur \<noteq> 0 \<and> pid s cur \<noteq> PID_IDLE \<longrightarrow> State s cur = RUNNING) \<and> unat (vruntime s cur) + 1024 < 2 ^ 64)
     \<and> unat (vruntime s t) + 1024 < 2 ^ 64"

lemma waiting_chargeable: "waiting s W xs t \<Longrightarrow> chargeable now s W xs"
  by (auto simp: waiting_def chargeable_def sched_ok_def ahead_def Let_def)

lemma requeued_sorted: "sched_ok s W xs \<Longrightarrow> sorted (map (vruntime s) (requeued s xs))"
  by (simp add: sched_ok_def sleep_inv_def run_queue_def requeued_def Let_def)

lemma requeued_ahead:
  assumes "waiting s W xs t" and "pid s1 = pid s" and "State s1 = State s" and "GetCurrentTaskPtr s1 = GetCurrentTaskPtr s"
  shows "set (requeued s1 xs) = insert t (ahead s xs t)"
proof -
  have "u \<noteq> 0 \<and> pid s u \<noteq> PID_IDLE" if "u \<in> set xs" for u using assms(1) that by (auto simp: waiting_def sched_ok_def known_def)
  then show ?thesis using assms by (auto simp: waiting_def requeued_def ahead_def Let_def split: if_splits)
qed

lemma charge_lag:
  assumes w: "waiting s W xs t" and cur: "cur = GetCurrentTaskPtr s"
    and v: "vr = (if cur \<noteq> 0 \<and> pid s cur \<noteq> PID_IDLE then (vruntime s)(cur := vruntime s cur + vdelta (Weight s cur)) else vruntime s)"
  shows "(\<Sum>u \<in> ahead s xs t. unat (vruntime s t) + 1 - unat (vr u)) + (if cur_first s t then 1 else 0) \<le> lag s xs t"
proof -
  have fin: "finite (ahead s xs t)" by (simp add: ahead_def)
  have step: "unat (vruntime s cur + vdelta (Weight s cur)) = unat (vruntime s cur) + unat (vdelta (Weight s cur))"
    using w vdelta_bounds [of "Weight s cur"] by (intro unat_add_no_wrap) (auto simp: waiting_def cur Let_def)
  have le: "unat (vruntime s u) \<le> unat (vr u)" for u using step v by simp
  show ?thesis
  proof (cases "cur_first s t")
    case True
    then have c: "cur \<noteq> 0" "pid s cur \<noteq> PID_IDLE" "unat (vruntime s cur) \<le> unat (vruntime s t)" by (auto simp: cur_first_def cur Let_def word_le_nat_alt)
    moreover have "cur \<notin> set xs" using w c by (auto simp: waiting_def sched_ok_def cur Let_def)
    ultimately have "cur \<in> ahead s xs t" using w by (auto simp: ahead_def cur waiting_def)
    moreover have "unat (vruntime s t) + 1 - unat (vr cur) < unat (vruntime s t) + 1 - unat (vruntime s cur)"
    proof -
      have "unat (vr cur) = unat (vruntime s cur) + unat (vdelta (Weight s cur))" using c v step by simp
      then show ?thesis using c(3) vdelta_bounds [of "Weight s cur"] by linarith
    qed
    ultimately have "(\<Sum>u \<in> ahead s xs t. unat (vruntime s t) + 1 - unat (vr u)) < lag s xs t"
      unfolding lag_def by (intro sum_strict_mono_ex1 [OF fin]) (auto simp: le diff_le_mono2)
    then show ?thesis using True by simp
  next
    case False
    have "(\<Sum>u \<in> ahead s xs t. unat (vruntime s t) + 1 - unat (vr u)) \<le> lag s xs t"
      unfolding lag_def by (intro sum_mono) (simp add: le diff_le_mono2)
    then show ?thesis using False by simp
  qed
qed

lemma tick_progress:
  assumes w: "waiting s W xs t"
  shows "\<exists>s' c' xs'. SchedulerTick tsc now ctx (s, c) = Some (s', c')
     \<and> (GetCurrentTaskPtr s' = t \<and> State s' t = RUNNING \<or> waiting s' W xs' t \<and> cur_first s' t \<and> lag s' xs' t + (if cur_first s t then 1 else 0) \<le> lag s xs t)"
proof -
  define cur where "cur = GetCurrentTaskPtr s"
  have ok: "sched_ok s W xs" "sleepers W = {}" "t \<in> set xs" using w by (auto simp: waiting_def)
  obtain s1 s' c' where tick: "SchedulerTick tsc now ctx (s, c) = Some (s', c')" "sched_ok s1 W xs" "sched_ok s' W (tl (requeued s1 xs))"
      and sw: "switched s1 xs ctx c s' c'" and same: "pid s1 = pid s" "State s1 = State s" "Weight s1 = Weight s" "GetCurrentTaskPtr s1 = cur"
      and vr: "vruntime s1 = (if cur \<noteq> 0 \<and> pid s cur \<noteq> PID_IDLE then (vruntime s)(cur := vruntime s cur + vdelta (Weight s cur)) else vruntime s)"
    using tick_quiet [OF ok(1,2) waiting_chargeable [OF w], of tsc now ctx c] unfolding Let_def cur_def by blast
  have set_ys: "set (requeued s1 xs) = insert t (ahead s xs t)"
    using requeued_ahead [OF w same(1,2)] same(4) by (simp add: cur_def)
  obtain n ys where ys: "requeued s1 xs = n # ys" using set_ys by (cases "requeued s1 xs") auto
  have n: "next_task s1 xs = n" by (simp add: next_task_def ys)
  have s': "GetCurrentTaskPtr s' = n" "State s' n = RUNNING" "kept s1 s'" using sw unfolding switched_def Let_def n by auto
  have tc: "vruntime s1 t = vruntime s t"
    using ok vr by (cases "t = cur") (use w in \<open>auto simp: sched_ok_def waiting_def cur_def Let_def\<close>)
  show ?thesis
  proof (cases "n = t")
    case True
    then show ?thesis using tick(1) s' by auto
  next
    case False
    have tin: "t \<in> set ys" using set_ys ys False by auto
    have le: "vruntime s1 n \<le> vruntime s t" using requeued_sorted [OF tick(2)] ys tin tc by auto
    have nid: "n \<noteq> 0" "pid s n \<noteq> PID_IDLE" using set_ys ys False by (auto simp: ahead_def)
    have "n \<notin> set ys" using requeued_mem(1) [OF tick(2)] ys by simp
    then have ah: "ahead s' ys t = ahead s xs t"
      using set_ys ys s' same False unfolding kept_def by (auto simp: ahead_def)
    have vr': "vruntime s' = vruntime s1" "Weight s' = Weight s" "pid s' = pid s" using s'(3) same by (auto simp: kept_def)
    have "waiting s' W ys t"
    proof -
      have b: "unat (vruntime s t) + 1024 < 2 ^ 64" using w by (simp add: waiting_def)
      moreover have "unat (vruntime s1 n) \<le> unat (vruntime s t)" using le by (simp add: word_le_nat_alt)
      ultimately have "unat (vruntime s1 n) + 1024 < 2 ^ 64" by linarith
      then show ?thesis
        using tick(3) ys ok(2) tin w ah b vr' s'(1,2) tc unfolding waiting_def Let_def by simp
    qed
    moreover have "cur_first s' t" using le nid vr' s'(1) tc by (simp add: cur_first_def Let_def)
    moreover have "lag s' ys t + (if cur_first s t then 1 else 0) \<le> lag s xs t"
      using charge_lag [OF w cur_def vr] unfolding lag_def ah vr' tc by simp
    ultimately show ?thesis using tick(1) by blast
  qed
qed

fun run_ticks :: "(u64 \<times> u64 \<times> u64) list \<Rightarrow> sched \<times> cpu \<Rightarrow> (sched \<times> cpu) option" where
  "run_ticks [] sc = Some sc"
| "run_ticks ((tsc, now, ctx) # es) sc = do { sc \<leftarrow> SchedulerTick tsc now ctx sc; run_ticks es sc }"

lemma lag_pos: "waiting s W xs t \<Longrightarrow> cur_first s t \<Longrightarrow> 0 < lag s xs t"
  using charge_lag [of s W xs t, OF _ refl refl] by fastforce

lemma waiting_runs:
  "waiting s W xs t \<Longrightarrow> length es = lag s xs t + (if cur_first s t then 0 else 1) \<Longrightarrow>
     \<exists>k s' c'. k \<le> length es \<and> run_ticks (take k es) (s, c) = Some (s', c') \<and> GetCurrentTaskPtr s' = t \<and> State s' t = RUNNING"
proof (induction "length es" arbitrary: es s xs c rule: less_induct)
  case less
  have "es \<noteq> []" using less.prems lag_pos [of s W xs t] by (auto split: if_splits)
  then obtain tsc now ctx es' where es: "es = (tsc, now, ctx) # es'" by (cases es) auto
  obtain s1 c1 xs1 where tick: "SchedulerTick tsc now ctx (s, c) = Some (s1, c1)"
      and alt: "GetCurrentTaskPtr s1 = t \<and> State s1 t = RUNNING \<or> waiting s1 W xs1 t \<and> cur_first s1 t \<and> lag s1 xs1 t + (if cur_first s t then 1 else 0) \<le> lag s xs t"
    using tick_progress [OF less.prems(1), of tsc now ctx c] by blast
  from alt show ?case
  proof
    assume "GetCurrentTaskPtr s1 = t \<and> State s1 t = RUNNING"
    then show ?thesis using tick es by (intro exI [of _ 1] exI [of _ s1] exI [of _ c1]) simp
  next
    assume n: "waiting s1 W xs1 t \<and> cur_first s1 t \<and> lag s1 xs1 t + (if cur_first s t then 1 else 0) \<le> lag s xs t"
    define m where "m = lag s1 xs1 t"
    have m: "m \<le> length es'" using n less.prems(2) es by (auto simp: m_def split: if_splits)
    have "\<exists>k s' c'. k \<le> length (take m es') \<and> run_ticks (take k (take m es')) (s1, c1) = Some (s', c') \<and> GetCurrentTaskPtr s' = t \<and> State s' t = RUNNING"
      by (rule less.hyps) (use n m es in \<open>auto simp: m_def\<close>)
    then obtain k s' c' where k: "k \<le> length (take m es')" "run_ticks (take k (take m es')) (s1, c1) = Some (s', c')" "GetCurrentTaskPtr s' = t" "State s' t = RUNNING"
      by blast
    then have "take k (take m es') = take k es'" "k \<le> m" by (simp_all add: min_absorb1)
    then show ?thesis using tick es m k by (intro exI [of _ "Suc k"] exI [of _ s'] exI [of _ c']) simp
  qed
qed

section \<open>Sleep\<close>

definition sleep_ticks :: "u64 \<Rightarrow> u64 \<Rightarrow> u64" where
  "sleep_ticks hz ms = (let n = (ms * hz) div 1000 in if n = 0 then 1 else n)"

lemma sleep_ticks_pos: "0 < unat (sleep_ticks hz ms)"
  by (simp add: sleep_ticks_def Let_def unat_gt_0)

lemma Sleep_ok:
  assumes ok: "sched_ok s W xs" and cur: "cur = GetCurrentTaskPtr s" "cur \<noteq> 0" "pid s cur \<noteq> PID_IDLE" "State s cur = RUNNING"
    and ms: "ms \<noteq> 0" and tick: "LastCheckedTick s \<le> now" "unat now + unat (sleep_ticks hz ms) < 2 ^ 64" and room: "card (sleepers W) + 1 < 2 ^ 64"
  shows "\<exists>s' c' W'. Sleep hz now ms (s, c) = Some (s', c') \<and> sched_ok s' W' xs \<and> sleepers W' = insert cur (sleepers W)
     \<and> unat (SleepTick s' cur) = unat now + unat (sleep_ticks hz ms) \<and> State s' cur = BLOCKED"
proof -
  define s1 where "s1 = s\<lparr> SleepTick := (SleepTick s)(cur := now + sleep_ticks hz ms), State := (State s)(cur := BLOCKED),
     BlockReason := (BlockReason s)(cur := BlockReason s cur OR 1) \<rparr>"
  have nin: "cur \<notin> set xs" "cur \<notin> sleepers W" using ok cur by (auto simp: sched_ok_def)
  have inW: "cur \<notin> set (W i)" if "i < TIMER_WHEEL_SIZE" for i using nin(2) that by (auto simp: sleepers_def)
  have n: "unat (now + sleep_ticks hz ms) = unat now + unat (sleep_ticks hz ms)" by (rule unat_add_no_wrap [OF tick(2)])
  have "wheel s W" "run_queue s xs" using ok by (auto simp: sched_ok_def sleep_inv_def)
  then have "wheel s1 W" "run_queue s1 xs" using inW unfolding wheel_def run_queue_def by (auto simp: s1_def)
  then have inv1: "sleep_inv s1 W xs" using ok nin(2) unfolding sched_ok_def sleep_inv_def by (auto simp: s1_def)
  have late: "LastCheckedTick s1 < SleepTick s1 cur"
    using tick(1) n sleep_ticks_pos [of hz ms] by (simp add: s1_def word_less_nat_alt word_le_nat_alt)
  define W' where "W' = W(unat (SleepTick s1 cur) mod TIMER_WHEEL_SIZE := cur # W (unat (SleepTick s1 cur) mod TIMER_WHEEL_SIZE))"
  obtain s2 nx w where s2: "AddToSleepList cur s1 = Some s2" "sleep_inv s2 W' xs"
      "s2 = s1\<lparr> NextSleepQueue := nx, SleepWheel := w, TotalSleepingTasks := TotalSleepingTasks s1 + 1 \<rparr>"
    using AddToSleepList_ok [OF inv1 cur(2) _ nin late room] cur(3) unfolding W'_def by (auto simp: s1_def)
  have "Sleep hz now ms (s, c) = Some (s2, c\<lparr> timer_armed := 1 \<rparr>)"
    using cur ms s2(1) unfolding Sleep_def Let_def sleep_ticks_def s1_def by simp
  moreover have sl: "sleepers W' = insert cur (sleepers W)" unfolding W'_def by (rule sleepers_insert) simp
  moreover have "sched_ok s2 W' xs"
    using ok s2(2) sl cur unfolding sched_ok_def known_def by (auto simp: s2(3) s1_def)
  ultimately show ?thesis using n by (intro exI [of _ s2]) (auto simp: s2(3) s1_def)
qed

section \<open>A task charged while it is queued\<close>

lemma rep_unique: "rep L R P C q t \<Longrightarrow> rep L R P C q' t' \<Longrightarrow> ptr t = ptr t' \<Longrightarrow> t = t'"
proof (induction t arbitrary: q q' t')
  case Lf
  then show ?case by (cases t') auto
next
  case (Nd c l a r)
  then obtain c' l' r' where "t' = Nd c' l' a r'" by (cases t') auto
  then show ?case using Nd by auto
qed

lemma rb_tree_unique: "rb_tree s xs \<Longrightarrow> rb_tree s ys \<Longrightarrow> xs = ys"
  unfolding rb_tree_def holds_def using rep_unique by fastforce

lemma sorted_before:
  assumes "sorted (map f xs)" and "sorted (map g xs)" and "a \<in> set xs" and "b \<in> set xs" and "f a < f b"
  shows "g a \<le> (g b :: 'k::linorder)"
proof -
  obtain i j where "i < length xs" "xs ! i = a" "j < length xs" "xs ! j = b" using assms(3,4) by (auto simp: in_set_conv_nth)
  moreover have "i \<le> j" using sorted_nth_mono [OF assms(1), of j i] calculation assms(5) by (cases "i \<le> j") auto
  ultimately show ?thesis using sorted_nth_mono [OF assms(2), of i j] by simp
qed

section \<open>Properties\<close>

text \<open>C4. A context switch. In a state in which the scheduler's structures are in order, \<^verbatim>\<open>Schedule\<close> returns (with no null
  pointer dereferenced) and runs the task with the least virtual run time among the ready ones and the one that
  was running, or the idle task if there is none. The structures are in order again and no longer hold that
  task; the context of the previous task is saved and only its state goes from \<^verbatim>\<open>RUNNING\<close> to \<^verbatim>\<open>READY\<close>; the
  processor has the page table, the stack, the saved stack pointer and the FPU image of the new task, and the
  timer is armed. \<^verbatim>\<open>MinVRuntime\<close> does not go back.
\<close>

theorem Schedule_switches:
  assumes "sched_ok s W xs"
  shows "\<exists>s' c'. Schedule tsc ctx (s, c) = Some (s', c') \<and> sched_ok s' W (tl (requeued s xs)) \<and> switched s xs ctx c s' c'"
  by (rule Schedule_ok [OF assms])



text \<open>\<^verbatim>\<open>Sleep\<close> puts the running task into the wheel. It blocks the task until the tick that is the given time, at
  least one tick, ahead, adds it to the sleepers and to nothing else, and keeps the invariant of the scheduler.
\<close>

theorem Sleep_adds_sleeper:
  assumes "sched_ok s W xs" and "cur = GetCurrentTaskPtr s" and "cur \<noteq> 0" and "pid s cur \<noteq> PID_IDLE" and "State s cur = RUNNING"
    and "ms \<noteq> 0" and "LastCheckedTick s \<le> now" and "unat now + unat (sleep_ticks hz ms) < 2 ^ 64" and "card (sleepers W) + 1 < 2 ^ 64"
  shows "\<exists>s' c' W'. Sleep hz now ms (s, c) = Some (s', c') \<and> sched_ok s' W' xs \<and> sleepers W' = insert cur (sleepers W)
     \<and> unat (SleepTick s' cur) = unat now + unat (sleep_ticks hz ms) \<and> State s' cur = BLOCKED"
  by (rule Sleep_ok [OF assms])

text \<open>What the condition on the running task in the tick is for. If the running task has gone to sleep and its tick comes
  before it is switched out, the tick first puts it into the run queue and then raises its virtual run time where it
  stands: when another ready task lies between the two values, the run queue is no longer in order.
\<close>

theorem tick_charges_queued_task:
  assumes ok: "sched_ok s W xs" and now: "now < 0xFFFFFFFFFFFFFFFF" and cur: "cur = GetCurrentTaskPtr s" "cur \<in> sleepers W" "SleepTick s cur \<le> now"
    and w: "Weight s cur \<noteq> 0" and u: "u \<in> set xs" "wake_vruntime s < vruntime s u" "vruntime s u < wake_vruntime s + vdelta (Weight s cur)"
  shows "\<exists>s1 s2. CheckSleepingTasks now s = Some s1 \<and> (\<exists>ys. run_queue s1 ys) \<and> charge_current s1 = Some s2 \<and> (\<forall>ys. \<not> run_queue s2 ys)"
proof -
  define E where "E = {t \<in> sleepers W. SleepTick s t \<le> now}"
  obtain s1 xs1 where s1: "CheckSleepingTasks now s = Some s1" "sched_ok s1 (\<lambda>i. filter (\<lambda>t. t \<notin> E) (W i)) xs1" "set xs1 = E \<union> set xs"
      "woken E (s\<lparr> LastCheckedTick := LastCheckedTick s1 \<rparr>) s1" "GetCurrentTaskPtr s1 = cur"
    using sched_ok_check [OF ok now E_def] cur(1) by blast
  have rq: "run_queue s1 xs1" using s1(2) by (simp add: sched_ok_def sleep_inv_def)
  have E: "cur \<in> E" "u \<notin> E" using cur u(1) ok by (auto simp: E_def sched_ok_def sleep_inv_def)
  have nz: "cur \<noteq> 0" "pid s cur \<noteq> PID_IDLE" using ok cur(2) by (auto simp: sched_ok_def known_def)
  have f1: "vruntime s1 cur = wake_vruntime s" "vruntime s1 u = vruntime s u" "Weight s1 = Weight s" "pid s1 = pid s"
    using s1(4) E by (auto simp: woken_def unchanged_def wake_vruntime_def)
  define s2 where "s2 = s1\<lparr> vruntime := (vruntime s1)(cur := vruntime s1 cur + vdelta (Weight s cur)) \<rparr>"
  have ch: "charge_current s1 = Some s2" using s1(5) nz w f1 by (simp add: charge_current_def Let_def s2_def vdelta_def)
  have "\<not> run_queue s2 ys" for ys
  proof
    assume rq2: "run_queue s2 ys"
    then have "ys = xs1" using rq rb_tree_unique by (auto simp: run_queue_def s2_def)
    then have "vruntime s2 cur \<le> vruntime s2 u"
      using sorted_before [of "vruntime s1" xs1 "vruntime s2" cur u] rq rq2 E u s1(3) f1 by (simp add: run_queue_def)
    moreover have "u \<noteq> cur" using E by auto
    ultimately show False using u(3) f1 by (simp add: s2_def)
  qed
  then show ?thesis using s1(1) rq ch by blast
qed

section \<open>Witnesses\<close>

text \<open>Task 4 runs, tasks 1, 2 and 3 are ready, task 9 is the idle task.\<close>

definition busy_sched :: sched where
  "busy_sched = sample_sched\<lparr> TaskArray := (\<lambda>i. if i = 0 then 9 else i), pid := (\<lambda>t. if t = 9 then 0 else of_nat t),
     CurrentTaskIndex := 4, State := (\<lambda>t. if t = 4 then RUNNING else READY) \<rparr>"

definition busy_cpu :: cpu where
  "busy_cpu = \<lparr> cpu_cr3 = 0, cpu_fpu = 0, fpu_image = (\<lambda>_. 0), tss_rsp0 = 0, timer_armed = 0, resumed_rsp = 0 \<rparr>"

lemmas busy_defs = busy_sched_def sample_sched_def

lemma busy_fields:
  "pid busy_sched t = (if t = 9 then 0 else of_nat t)" "State busy_sched t = (if t = 4 then RUNNING else READY)"
  "vruntime busy_sched t = (if t = 4 then 15 else of_nat t * 10)" "Weight busy_sched t = 1024" "LastCheckedTick busy_sched = 0"
  by (simp_all add: busy_defs)

lemma busy_current: "GetCurrentTaskPtr busy_sched = 4"
  by (simp add: GetCurrentTaskPtr_def busy_defs)

lemma busy_ok: "sched_ok busy_sched (\<lambda>_. []) [1, 2, 3]"
proof -
  have "run_queue busy_sched [1, 2, 3]" using sample_sched_queue by (simp add: run_queue_def busy_sched_def)
  moreover have "wheel busy_sched (\<lambda>_. [])" by (simp add: wheel_def busy_defs)
  ultimately show ?thesis
    by (simp add: sched_ok_def sleep_inv_def busy_current sleepers_def known_def) (simp add: busy_defs)
qed

lemma busy_sleepers: "sleepers (\<lambda>_. []) = {}"
  by (simp add: sleepers_def)

lemma Schedule_switches_witness:
  "\<exists>s' c'. Schedule 1 7 (busy_sched, busy_cpu) = Some (s', c') \<and> GetCurrentTaskPtr s' = 1 \<and> State s' 4 = READY \<and> RSP s' 4 = 7"
proof -
  have "requeued busy_sched [1, 2, 3] = [1, 4, 2, 3]" by (simp add: requeued_def busy_current busy_fields Let_def)
  then have n: "next_task busy_sched [1, 2, 3] = 1" by (simp add: next_task_def)
  obtain s' c' where "Schedule 1 7 (busy_sched, busy_cpu) = Some (s', c')" "switched busy_sched [1, 2, 3] 7 busy_cpu s' c'"
    using Schedule_switches [OF busy_ok] by blast
  moreover have "pid busy_sched 4 \<noteq> PID_IDLE \<and> State busy_sched 4 = RUNNING" by (simp add: busy_defs)
  ultimately show ?thesis unfolding switched_def n busy_current Let_def by auto
qed


lemma busy_ahead: "ahead busy_sched [1, 2, 3] 2 = {1, 3, 4}"
  unfolding ahead_def busy_current by (auto simp: busy_fields)


lemma Sleep_adds_sleeper_witness:
  "\<exists>s' c' W'. Sleep 100 5 30 (busy_sched, busy_cpu) = Some (s', c') \<and> sched_ok s' W' [1, 2, 3] \<and> sleepers W' = {4} \<and> unat (SleepTick s' 4) = 8"
proof -
  have "sleep_ticks 100 30 = 3" by (simp add: sleep_ticks_def)
  moreover have "pid busy_sched 4 \<noteq> PID_IDLE" "State busy_sched 4 = RUNNING" "LastCheckedTick busy_sched \<le> 5" by (simp_all add: busy_defs)
  ultimately show ?thesis
    using Sleep_adds_sleeper [OF busy_ok busy_current [symmetric], of 30 5 100 busy_cpu] unfolding busy_sleepers by auto
qed

text \<open>Task 4, of the smallest weight, sleeps until tick 40.\<close>

definition dozing_sched :: sched where
  "dozing_sched = busy_sched\<lparr> SleepWheel := (\<lambda>i. if i = 40 then 4 else 0), SleepTick := (\<lambda>_. 40), TotalSleepingTasks := 1,
     State := (\<lambda>t. if t = 4 then BLOCKED else READY), Weight := (\<lambda>_. 15) \<rparr>"

definition dozing_wheel :: "nat \<Rightarrow> nat list" where
  "dozing_wheel i = (if i = 40 then [4] else [])"

lemma dozing_sleepers: "sleepers dozing_wheel = {4}"
  by (auto simp: sleepers_def dozing_wheel_def split: if_splits)

lemma dozing_current: "GetCurrentTaskPtr dozing_sched = 4"
  by (simp add: GetCurrentTaskPtr_def dozing_sched_def busy_defs)

lemma dozing_ok: "sched_ok dozing_sched dozing_wheel [1, 2, 3]"
proof -
  have "run_queue dozing_sched [1, 2, 3]" using sample_sched_queue by (simp add: run_queue_def dozing_sched_def busy_sched_def)
  moreover have "wheel dozing_sched dozing_wheel" by (simp add: wheel_def dozing_wheel_def dozing_sched_def busy_defs)
  ultimately show ?thesis
    by (simp add: sched_ok_def sleep_inv_def dozing_sleepers dozing_current known_def) (simp add: dozing_sched_def busy_defs)
qed

lemma tick_charges_queued_task_witness:
  "\<exists>s1 s2. CheckSleepingTasks 40 dozing_sched = Some s1 \<and> charge_current s1 = Some s2 \<and> \<not> (\<exists>ys. run_queue s2 ys)"
proof -
  have d: "4 = GetCurrentTaskPtr dozing_sched" "4 \<in> sleepers dozing_wheel" by (simp_all add: dozing_current dozing_sleepers)
  have v: "wake_vruntime dozing_sched = 0" "vdelta (Weight dozing_sched 4) = 68" "vruntime dozing_sched 1 = 10" "SleepTick dozing_sched 4 = 40" "Weight dozing_sched 4 = 15"
    by (simp_all add: wake_vruntime_def vdelta_def dozing_sched_def busy_defs)
  show ?thesis
    using tick_charges_queued_task [OF dozing_ok _ d, of 40 1] v by auto
qed

end
