(* ===== verification/Task_Sync.thy ===== *)
theory Task_Sync
  imports Scheduler
begin

text \<open>
  Blocking and waking: wait queues (\<^verbatim>\<open>SleepOn\<close>, \<^verbatim>\<open>WakeUp\<close> of \<^verbatim>\<open>kernel/task/scheduler.cpp\<close>), the wake-up with a boost,
  signals and process groups (\<^verbatim>\<open>kernel/task/task_main.cpp\<close>), the mutex of \<^verbatim>\<open>kernel/task/mutex.cpp\<close>, which hands itself over to the
  task that has waited longest, and the system call that changes a task's nice value.
\<close>

section \<open>Model\<close>

definition UnblockTaskWithIOBoost :: "nat \<Rightarrow> sched \<Rightarrow> sched option" where
  "UnblockTaskWithIOBoost t s =
     (if t = 0 then Some s
      else do {
        s \<leftarrow> CFSEnqueue t (s\<lparr> vruntime := (vruntime s)(t := (if MinVRuntime s > 10 then MinVRuntime s - 10 else 0)) \<rparr>);
        Some (s\<lparr> ForceReschedule := True \<rparr>) })"

record waitq =
  Head :: nat
  Tail :: nat

text \<open>Both \<^verbatim>\<open>SleepOn\<close> and \<^verbatim>\<open>Mutex::Acquire\<close> put a task at the tail of a queue linked by \<^verbatim>\<open>NextWaitTask\<close>, and both
  \<^verbatim>\<open>WakeUp\<close> and \<^verbatim>\<open>Mutex::Release\<close> take the head off.\<close>

definition wait_append :: "nat \<Rightarrow> waitq \<times> sched \<Rightarrow> (waitq \<times> sched) option" where
  "wait_append t qs = (case qs of (q, s) \<Rightarrow>
     let s = s\<lparr> NextWaitTask := (NextWaitTask s)(t := 0) \<rparr> in
     if Head q = 0 then Some (q\<lparr> Head := t, Tail := t \<rparr>, s)
     else if Tail q = 0 then None
     else Some (q\<lparr> Tail := t \<rparr>, s\<lparr> NextWaitTask := (NextWaitTask s)(Tail q := t) \<rparr>))"

definition wait_pop :: "waitq \<Rightarrow> sched \<Rightarrow> waitq" where
  "wait_pop q s = (let h = NextWaitTask s (Head q) in if h = 0 then q\<lparr> Head := h, Tail := 0 \<rparr> else q\<lparr> Head := h \<rparr>)"

definition SleepOn :: "waitq \<times> sched \<Rightarrow> (waitq \<times> sched) option" where
  "SleepOn qs = (case qs of (q, s) \<Rightarrow>
     let cur = GetCurrentTaskPtr s in
     if cur = 0 then Some (q, s)
     else do {
       (q, s) \<leftarrow> wait_append cur (q, s\<lparr> State := (State s)(cur := BLOCKED) \<rparr>);
       Some (q, s\<lparr> ForceReschedule := True \<rparr>) })"

definition WakeUp :: "waitq \<times> sched \<Rightarrow> (waitq \<times> sched) option" where
  "WakeUp qs = (case qs of (q, s) \<Rightarrow>
     if Head q = 0 then Some (q, s)
     else do {
       let t = Head q;
       let q = wait_pop q s;
       let s = s\<lparr> NextWaitTask := (NextWaitTask s)(t := 0), State := (State s)(t := READY), BlockReason := (BlockReason s)(t := 0) \<rparr>;
       s \<leftarrow> UnblockTaskWithIOBoost t s;
       Some (q, s) })"

record mutex =
  locked :: bool
  owner :: nat
  waitQueue :: waitq

definition Mutex_init :: mutex where
  "Mutex_init = \<lparr> locked = False, owner = 0, waitQueue = \<lparr> Head = 0, Tail = 0 \<rparr> \<rparr>"

definition Acquire :: "mutex \<times> sched \<Rightarrow> (mutex \<times> sched) option" where
  "Acquire ms = (case ms of (m, s) \<Rightarrow>
     let me = GetCurrentTaskPtr s in
     if \<not> locked m then Some (m\<lparr> locked := True, owner := me \<rparr>, s)
     else if me = 0 then None
     else do {
       (q, s) \<leftarrow> wait_append me (waitQueue m, s);
       Some (m\<lparr> waitQueue := q \<rparr>, s\<lparr> State := (State s)(me := BLOCKED) \<rparr>) })"

definition Release :: "mutex \<times> sched \<Rightarrow> (mutex \<times> sched) option" where
  "Release ms = (case ms of (m, s) \<Rightarrow>
     if Head (waitQueue m) \<noteq> 0 then do {
       let t = Head (waitQueue m);
       let m = m\<lparr> waitQueue := wait_pop (waitQueue m) s, owner := t \<rparr>;
       s \<leftarrow> UnblockTaskWithIOBoost t s;
       Some (m, s) }
     else Some (m\<lparr> locked := False, owner := 0 \<rparr>, s))"

definition IsLocked :: "mutex \<Rightarrow> bool" where
  "IsLocked m = locked m"

definition set_signal :: "nat \<Rightarrow> nat \<Rightarrow> sched \<Rightarrow> sched option" where
  "set_signal t sig s =
     (if State s t \<noteq> ZOMBIE \<and> pid s t > 1 then
        if sig \<ge> 32 then None else do {
        let s = s\<lparr> Signals := (Signals s)(t := Signals s t OR push_bit sig 1) \<rparr>;
        s \<leftarrow> (if bit (Signals s t) 2 then
                 if CFSLeftmost s = 0 then None else Some (s\<lparr> vruntime := (vruntime s)(t := vruntime s (CFSLeftmost s)) \<rparr>)
               else Some s);
        if State s t = BLOCKED then CFSEnqueue t (s\<lparr> State := (State s)(t := READY) \<rparr>) else Some s }
      else Some s)"

partial_function (option) signal_group :: "nat \<Rightarrow> nat \<Rightarrow> sched \<Rightarrow> sched option" where
  "signal_group t sig s =
     (if t = 0 then Some s else do { s \<leftarrow> set_signal t sig s; signal_group (PGIDTaskPtr s t) sig s })"

definition SetTaskSignal :: "u64 \<Rightarrow> nat \<Rightarrow> bool \<Rightarrow> sched \<Rightarrow> sched option" where
  "SetTaskSignal p sig isGroup s = do {
     let t = GetTaskPID p s;
     s \<leftarrow> (if isGroup then signal_group t sig s else if t \<noteq> 0 then set_signal t sig s else Some s);
     Some (s\<lparr> ForceReschedule := True \<rparr>) }"

definition GetTaskPGID :: "u64 \<Rightarrow> sched \<Rightarrow> nat" where
  "GetTaskPGID g s = (let l = GetTaskPID g s in
     if l \<noteq> 0 \<and> PGID s l = g then l
     else case find (\<lambda>i. TaskArray s i \<noteq> 0 \<and> PGID s (TaskArray s i) = g) [0..<MAX_TASK] of
       Some i \<Rightarrow> TaskArray s i | None \<Rightarrow> 0)"

partial_function (option) group_prev :: "nat \<Rightarrow> nat \<Rightarrow> nat \<Rightarrow> (nat \<Rightarrow> nat) \<Rightarrow> nat option" where
  "group_prev T first prev nx =
     (if prev = 0 \<or> nx prev = T then Some prev
      else if nx prev = first then Some (nx prev) else group_prev T first (nx prev) nx)"

definition UnlinkFromProcGrp :: "nat \<Rightarrow> sched \<Rightarrow> sched option" where
  "UnlinkFromProcGrp T s =
     (if T = 0 \<or> PGID s T = 0 then Some s
      else let h = GetTaskPGID (PGID s T) s in
        if h = 0 then Some s
        else if h = T then Some (s\<lparr> PGIDTaskPtr := (PGIDTaskPtr s)(T := 0) \<rparr>)
        else do {
          p \<leftarrow> group_prev T h h (PGIDTaskPtr s);
          let s = (if p \<noteq> 0 \<and> PGIDTaskPtr s p = T then s\<lparr> PGIDTaskPtr := (PGIDTaskPtr s)(p := PGIDTaskPtr s T) \<rparr> else s);
          Some (s\<lparr> PGIDTaskPtr := (PGIDTaskPtr s)(T := 0) \<rparr>) })"

definition BlockTaskCauseOfIOAndYield :: "nat \<Rightarrow> sched \<Rightarrow> bool \<times> sched" where
  "BlockTaskCauseOfIOAndYield t s = (if t = 0 then (False, s)
     else (True, s\<lparr> State := (State s)(t := BLOCKED), BlockReason := (BlockReason s)(t := 4) \<rparr>))"

text \<open>\<^verbatim>\<open>Sys_SetPriority\<close>: the value for \<^verbatim>\<open>rax\<close> and the new state.\<close>

definition Sys_SetPriority :: "int \<Rightarrow> int \<Rightarrow> int \<Rightarrow> sched \<Rightarrow> (int \<times> sched) option" where
  "Sys_SetPriority which who nice s = (let cur = GetCurrentTaskPtr s in
     if cur = 0 then Some (- 11, s)
     else
       let nice = (if nice < -20 then -20 else nice); nice = (if nice > 19 then 19 else nice) in
       if which = 1 then Some (- 38, s)
       else if which \<noteq> 0 then Some (- 22, s)
       else
         let target = GetTaskPID (if who = 0 then pid s cur else of_int who) s in
         if target = 0 then Some (- 3, s)
         else if nice < NiceValue s target \<and> \<not> IsSudoOrAdmin s cur then Some (- 13, s)
         else do {
           s \<leftarrow> (if State s target = READY then CFSDequeue target s else Some s);
           let s = s\<lparr> NiceValue := (NiceValue s)(target := nice), Weight := (Weight s)(target := RateThisTaskNice nice) \<rparr>;
           s \<leftarrow> (if State s target = READY then CFSEnqueue target s else Some s);
           Some (0, s) })"

section \<open>Wait queues\<close>

definition wait_queue :: "sched \<Rightarrow> waitq \<Rightarrow> nat list \<Rightarrow> bool" where
  "wait_queue s q ys \<longleftrightarrow> chain (NextWaitTask s) (Head q) ys \<and> Tail q = prev_of ys \<and> distinct ys"

lemma wait_queue_cong: "wait_queue s q ys \<Longrightarrow> NextWaitTask s' = NextWaitTask s \<Longrightarrow> wait_queue s' q ys"
  by (simp add: wait_queue_def)

lemma chain_snoc: "chain nx p ys \<Longrightarrow> distinct ys \<Longrightarrow> t \<noteq> 0 \<Longrightarrow> t \<notin> set ys \<Longrightarrow> ys \<noteq> [] \<Longrightarrow> chain (nx(t := 0, last ys := t)) p (ys @ [t])"
proof (induction ys arbitrary: p)
  case (Cons y ys)
  show ?case
  proof (cases "ys = []")
    case True
    then show ?thesis using Cons.prems by simp
  next
    case False
    then have "last ys \<in> set ys" by simp
    then have "y \<noteq> last ys" using Cons.prems(2) by auto
    then show ?thesis using Cons.IH [of "nx y"] Cons.prems False by (simp del: fun_upd_apply add: fun_upd_other fun_upd_same)
  qed
qed simp

lemma wait_append_ok:
  assumes "wait_queue s q ys" and "t \<noteq> 0" and "t \<notin> set ys"
  shows "\<exists>q' nx. wait_append t (q, s) = Some (q', s\<lparr> NextWaitTask := nx \<rparr>) \<and> wait_queue (s\<lparr> NextWaitTask := nx \<rparr>) q' (ys @ [t])"
proof (cases ys rule: rev_cases)
  case Nil
  then have "wait_append t (q, s) = Some (q\<lparr> Head := t, Tail := t \<rparr>, s\<lparr> NextWaitTask := (NextWaitTask s)(t := 0) \<rparr>)"
    using assms by (simp add: wait_append_def wait_queue_def)
  moreover have "wait_queue (s\<lparr> NextWaitTask := (NextWaitTask s)(t := 0) \<rparr>) (q\<lparr> Head := t, Tail := t \<rparr>) (ys @ [t])"
    using Nil assms(2) by (simp add: wait_queue_def prev_of_def)
  ultimately show ?thesis by blast
next
  case (snoc zs l)
  then have l: "Tail q = l" "last ys = l" using assms(1) by (simp_all add: wait_queue_def)
  have c: "chain (NextWaitTask s) (Head q) ys" using assms(1) by (simp add: wait_queue_def)
  have nz: "l \<noteq> 0" "Head q \<noteq> 0"
  proof -
    show "l \<noteq> 0" using chain_nonnull [OF c] snoc by auto
    show "Head q \<noteq> 0" using c snoc by (cases zs) auto
  qed
  define nx where "nx = (NextWaitTask s)(t := 0, l := t)"
  have "chain nx (Head q) (ys @ [t])"
    using chain_snoc [of "NextWaitTask s" "Head q" ys t] assms snoc l unfolding nx_def by (simp add: wait_queue_def)
  then have "wait_queue (s\<lparr> NextWaitTask := nx \<rparr>) (q\<lparr> Tail := t \<rparr>) (ys @ [t])" using assms by (simp add: wait_queue_def)
  moreover have "wait_append t (q, s) = Some (q\<lparr> Tail := t \<rparr>, s\<lparr> NextWaitTask := nx \<rparr>)" using l nz by (simp add: wait_append_def Let_def nx_def)
  ultimately show ?thesis by blast
qed

lemma wait_pop_ok:
  assumes "wait_queue s q (t # ys)"
  shows "Head q = t" "t \<noteq> 0" "wait_queue s (wait_pop q s) ys" "t \<notin> set ys"
proof -
  show h: "Head q = t" "t \<noteq> 0" "t \<notin> set ys" using assms by (auto simp: wait_queue_def)
  have c: "chain (NextWaitTask s) (NextWaitTask s t) ys" "distinct ys" "Tail q = prev_of (t # ys)" using assms h by (auto simp: wait_queue_def)
  show "wait_queue s (wait_pop q s) ys"
    using c h(1) by (cases ys) (auto simp: wait_queue_def wait_pop_def Let_def prev_of_def)
qed

lemma wait_queue_frame: "wait_queue s q ys \<Longrightarrow> t \<notin> set ys \<Longrightarrow> wait_queue (s\<lparr> NextWaitTask := (NextWaitTask s)(t := v) \<rparr>) q ys"
  by (simp add: wait_queue_def)

definition boost :: "sched \<Rightarrow> u64" where
  "boost s = (if MinVRuntime s > 10 then MinVRuntime s - 10 else 0)"

lemma Unblock_ok:
  assumes rq: "run_queue s xs" and t: "t \<noteq> 0" "pid s t \<noteq> PID_IDLE" "t \<notin> set xs"
  shows "\<exists>s'. UnblockTaskWithIOBoost t s = Some s' \<and> run_queue s' (ins_after ((vruntime s)(t := boost s)) t xs)
     \<and> vruntime s' = (vruntime s)(t := boost s) \<and> ForceReschedule s' \<and> State s' = State s \<and> NextWaitTask s' = NextWaitTask s \<and> pid s' = pid s
     \<and> MinVRuntime s' = MinVRuntime s \<and> BlockReason s' = BlockReason s \<and> GetCurrentTaskPtr s' = GetCurrentTaskPtr s"
proof -
  define s1 where "s1 = s\<lparr> vruntime := (vruntime s)(t := boost s) \<rparr>"
  have "run_queue s1 xs" by (rule run_queue_cong [OF rq]) (use t in \<open>auto simp: s1_def\<close>)
  then obtain s2 lm tr fr where s2: "CFSEnqueue t s1 = Some s2" "run_queue s2 (ins_after (vruntime s1) t xs)"
      "s2 = s1\<lparr> CFSLeftmost := lm, Tree := tr, ForceReschedule := fr \<rparr>"
    using CFSEnqueue_ok [of s1 xs t] t by (auto simp: s1_def)
  have "run_queue (s2\<lparr> ForceReschedule := True \<rparr>) (ins_after ((vruntime s)(t := boost s)) t xs)"
    using s2(2) by (simp add: run_queue_def s1_def)
  then show ?thesis
    using s2(1) t(1) by (intro exI [of _ "s2\<lparr> ForceReschedule := True \<rparr>"])
      (simp add: UnblockTaskWithIOBoost_def s1_def boost_def [symmetric], simp add: s2(3) s1_def)
qed

lemma SleepOn_ok:
  assumes q: "wait_queue s q ys" and cur: "cur = GetCurrentTaskPtr s" "cur \<noteq> 0" "cur \<notin> set ys"
  shows "\<exists>q' s'. SleepOn (q, s) = Some (q', s') \<and> wait_queue s' q' (ys @ [cur]) \<and> State s' = (State s)(cur := BLOCKED) \<and> ForceReschedule s'"
proof -
  define s1 where "s1 = s\<lparr> State := (State s)(cur := BLOCKED) \<rparr>"
  have "wait_queue s1 q ys" by (rule wait_queue_cong [OF q]) (simp add: s1_def)
  then obtain q' nx where a: "wait_append cur (q, s1) = Some (q', s1\<lparr> NextWaitTask := nx \<rparr>)" "wait_queue (s1\<lparr> NextWaitTask := nx \<rparr>) q' (ys @ [cur])"
    using wait_append_ok [OF _ cur(2,3)] by blast
  then have "SleepOn (q, s) = Some (q', s1\<lparr> NextWaitTask := nx, ForceReschedule := True \<rparr>)"
    using cur by (simp add: SleepOn_def Let_def s1_def)
  then show ?thesis using a(2) by (auto simp: wait_queue_def s1_def)
qed

lemma WakeUp_ok:
  assumes q: "wait_queue s q (t # ys)" and rq: "run_queue s xs" and t: "pid s t \<noteq> PID_IDLE" "t \<notin> set xs"
  shows "\<exists>q' s'. WakeUp (q, s) = Some (q', s') \<and> wait_queue s' q' ys \<and> run_queue s' (ins_after (vruntime s') t xs) \<and> vruntime s' t = boost s
     \<and> State s' = (State s)(t := READY) \<and> ForceReschedule s'"
proof -
  note p = wait_pop_ok [OF q]
  define s1 where "s1 = s\<lparr> NextWaitTask := (NextWaitTask s)(t := 0), State := (State s)(t := READY), BlockReason := (BlockReason s)(t := 0) \<rparr>"
  have "run_queue s1 xs" using rq by (simp add: s1_def run_queue_def)
  then obtain s2 where s2: "UnblockTaskWithIOBoost t s1 = Some s2" "run_queue s2 (ins_after (vruntime s2) t xs)" "vruntime s2 = (vruntime s1)(t := boost s1)"
      "ForceReschedule s2" "State s2 = State s1" "NextWaitTask s2 = NextWaitTask s1"
    using Unblock_ok [of s1 xs t] p t by (auto simp: s1_def)
  have "wait_queue s2 (wait_pop q s) ys"
    by (rule wait_queue_cong [OF wait_queue_frame [OF p(3,4), of 0]]) (simp add: s2(6) s1_def)
  moreover have "WakeUp (q, s) = Some (wait_pop q s, s2)" using p(1,2) s2(1) by (simp add: WakeUp_def Let_def s1_def)
  ultimately show ?thesis using s2 by (auto simp: s1_def boost_def)
qed

section \<open>Mutex\<close>

text \<open>The lock as a client sees it: the holder and those that wait, in the order of their arrival.\<close>

type_synonym lock = "nat option \<times> nat list"

fun lock_acquire :: "nat \<Rightarrow> lock \<Rightarrow> lock" where
  "lock_acquire me (None, ws) = (Some me, ws)"
| "lock_acquire me (Some h, ws) = (Some h, ws @ [me])"

fun lock_release :: "lock \<Rightarrow> lock" where
  "lock_release (h, w # ws) = (Some w, ws)"
| "lock_release (h, []) = (None, [])"

definition mutex_is :: "mutex \<Rightarrow> sched \<Rightarrow> lock \<Rightarrow> bool" where
  "mutex_is m s l \<longleftrightarrow> wait_queue s (waitQueue m) (snd l) \<and> (case fst l of None \<Rightarrow> \<not> locked m \<and> owner m = 0 \<and> snd l = [] | Some h \<Rightarrow> locked m \<and> owner m = h)"

lemma Mutex_init_is: "mutex_is Mutex_init s (None, [])"
  by (simp add: mutex_is_def Mutex_init_def wait_queue_def)

lemma Acquire_ok:
  assumes m: "mutex_is m s (h, ws)" and me: "me = GetCurrentTaskPtr s" "me \<noteq> 0" "me \<notin> set ws"
  shows "\<exists>m' s'. Acquire (m, s) = Some (m', s') \<and> mutex_is m' s' (lock_acquire me (h, ws))
     \<and> State s' = (if h = None then State s else (State s)(me := BLOCKED)) \<and> Tree s' = Tree s \<and> CFSLeftmost s' = CFSLeftmost s
     \<and> vruntime s' = vruntime s \<and> pid s' = pid s"
proof (cases h)
  case None
  then show ?thesis using m me by (auto simp: mutex_is_def Acquire_def Let_def)
next
  case (Some t)
  have "wait_queue s (waitQueue m) ws" "locked m" using m Some by (auto simp: mutex_is_def)
  then obtain q' nx where a: "wait_append me (waitQueue m, s) = Some (q', s\<lparr> NextWaitTask := nx \<rparr>)" "wait_queue (s\<lparr> NextWaitTask := nx \<rparr>) q' (ws @ [me])"
    using wait_append_ok [OF _ me(2,3)] by blast
  then have "Acquire (m, s) = Some (m\<lparr> waitQueue := q' \<rparr>, s\<lparr> NextWaitTask := nx, State := (State s)(me := BLOCKED) \<rparr>)"
    using me \<open>locked m\<close> by (simp add: Acquire_def Let_def)
  then show ?thesis using a(2) m Some by (auto simp: mutex_is_def wait_queue_def)
qed

lemma Release_ok:
  assumes m: "mutex_is m s (Some h, ws)" and rq: "run_queue s xs" and w: "set ws \<inter> set xs = {}" "\<forall>t \<in> set ws. pid s t \<noteq> PID_IDLE"
  shows "\<exists>m' s' xs'. Release (m, s) = Some (m', s') \<and> mutex_is m' s' (lock_release (Some h, ws)) \<and> run_queue s' xs'
     \<and> set xs' = set (take 1 ws) \<union> set xs \<and> pid s' = pid s"
proof (cases ws)
  case Nil
  then have "Release (m, s) = Some (m\<lparr> locked := False, owner := 0 \<rparr>, s)" using m by (simp add: Release_def mutex_is_def wait_queue_def)
  then show ?thesis using Nil m rq by (auto simp: mutex_is_def wait_queue_def)
next
  case (Cons t ts)
  have q: "wait_queue s (waitQueue m) (t # ts)" "locked m" using m Cons by (auto simp: mutex_is_def)
  note p = wait_pop_ok [OF q(1)]
  obtain s' where s': "UnblockTaskWithIOBoost t s = Some s'" "run_queue s' (ins_after ((vruntime s)(t := boost s)) t xs)" "NextWaitTask s' = NextWaitTask s" "pid s' = pid s"
    using Unblock_ok [OF rq p(2)] w Cons by auto
  have "Release (m, s) = Some (m\<lparr> waitQueue := wait_pop (waitQueue m) s, owner := t \<rparr>, s')"
    using p(1,2) s'(1) by (simp add: Release_def Let_def)
  then show ?thesis
    using s' wait_queue_cong [OF p(3) s'(3)] Cons q(2) by (auto simp: mutex_is_def)
qed

fun releases :: "nat \<Rightarrow> mutex \<times> sched \<Rightarrow> (mutex \<times> sched) option" where
  "releases 0 ms = Some ms"
| "releases (Suc n) ms = do { ms \<leftarrow> Release ms; releases n ms }"

lemma releases_ok:
  "mutex_is m s (Some h, ws) \<Longrightarrow> run_queue s xs \<Longrightarrow> set ws \<inter> set xs = {} \<Longrightarrow> \<forall>t \<in> set ws. pid s t \<noteq> PID_IDLE \<Longrightarrow> k < length ws \<Longrightarrow>
     \<exists>m' s'. releases (Suc k) (m, s) = Some (m', s') \<and> mutex_is m' s' (Some (ws ! k), drop (Suc k) ws)"
proof (induction k arbitrary: m s h ws xs)
  case 0
  then show ?case using Release_ok [of m s h ws xs] by (cases ws) auto
next
  case (Suc k)
  then obtain w ws' where ws: "ws = w # ws'" by (cases ws) auto
  obtain m1 s1 xs1 where r: "Release (m, s) = Some (m1, s1)" "mutex_is m1 s1 (Some w, ws')" "run_queue s1 xs1" "set xs1 = insert w (set xs)" "pid s1 = pid s"
    using Release_ok [OF Suc.prems(1-4)] ws by auto
  have "w \<notin> set ws'" using Suc.prems(1) ws by (simp add: mutex_is_def wait_queue_def)
  then have "set ws' \<inter> set xs1 = {}" using Suc.prems(3) r(4) ws by auto
  then obtain m' s' where "releases (Suc k) (m1, s1) = Some (m', s')" "mutex_is m' s' (Some (ws' ! k), drop (Suc k) ws')"
    using Suc.IH [OF r(2,3)] Suc.prems(4,5) r(5) ws by auto
  then show ?case using r(1) ws by (intro exI [of _ m'] exI [of _ s']) simp
qed

section \<open>Process groups\<close>

lemma group_prev_ok:
  "chain nx p (ps @ q # T # ys) \<Longrightarrow> distinct (ps @ q # T # ys) \<Longrightarrow> h \<notin> set (tl (ps @ q # T # ys)) \<Longrightarrow> group_prev T h p nx = Some q"
proof (induction ps arbitrary: p)
  case Nil
  then show ?case by (subst group_prev.simps) auto
next
  case (Cons a ps)
  have p: "p = a" "p \<noteq> 0" "chain nx (nx p) (ps @ q # T # ys)" using Cons.prems(1) by auto
  obtain b bs where b: "ps @ q # T # ys = b # bs" by (cases ps) auto
  have "nx p = b" using p(3) b by auto
  have "h \<notin> set (ps @ q # T # ys)" using Cons.prems(3) by simp
  then have "nx p \<noteq> h" "h \<notin> set bs" using \<open>nx p = b\<close> b by auto
  moreover have "nx p \<noteq> T" using \<open>nx p = b\<close> b Cons.prems(2) by (cases ps) auto
  ultimately have "group_prev T h p nx = group_prev T h (nx p) nx" using p(2) by (subst group_prev.simps) simp
  then show ?case using Cons.IH [OF p(3)] Cons.prems(2) \<open>h \<notin> set bs\<close> b by simp
qed

lemma UnlinkFromProcGrp_ok:
  assumes h: "h = GetTaskPGID (PGID s T) s" and g: "chain (PGIDTaskPtr s) h gs" "distinct gs" and T: "T \<in> set gs" "T \<noteq> h" "PGID s T \<noteq> 0"
  shows "\<exists>nx. UnlinkFromProcGrp T s = Some (s\<lparr> PGIDTaskPtr := nx \<rparr>) \<and> chain nx h (remove1 T gs) \<and> nx T = 0"
proof -
  obtain as bs where gs: "gs = as @ T # bs" using T(1) by (auto dest: split_list)
  have h0: "h \<noteq> 0" "T \<noteq> 0" using g(1) gs T chain_nonnull [OF g(1)] by (cases as; auto)+
  obtain ps q where as: "as = ps @ [q]" using g(1) gs T(2) by (cases as rule: rev_cases) auto
  have ht: "h \<notin> set (tl (ps @ q # T # bs))" using g gs as by (cases ps) auto
  have p: "group_prev T h h (PGIDTaskPtr s) = Some q" using group_prev_ok [of "PGIDTaskPtr s" h ps q T bs h] g gs as ht by simp
  have qT: "PGIDTaskPtr s q = T" "q \<noteq> 0" "q \<noteq> T" using chain_tail [of "PGIDTaskPtr s" h ps q "T # bs"] chain_nonnull [OF g(1)] g gs as by auto
  define nx where "nx = (PGIDTaskPtr s)(q := PGIDTaskPtr s T, T := 0)"
  have "chain ((PGIDTaskPtr s)(q := PGIDTaskPtr s T)) h (as @ bs)"
    using chain_unlink [of "PGIDTaskPtr s" h as T bs] g gs as by simp
  moreover have "remove1 T gs = as @ bs" "T \<notin> set (as @ bs)" using g(2) gs by (auto simp: remove1_append)
  ultimately have "chain nx h (remove1 T gs)" unfolding nx_def by (simp del: fun_upd_apply)
  moreover have "UnlinkFromProcGrp T s = Some (s\<lparr> PGIDTaskPtr := nx \<rparr>)"
    using h0 T h p qT unfolding UnlinkFromProcGrp_def Let_def nx_def by simp
  ultimately show ?thesis by (auto simp: nx_def)
qed

section \<open>Signals\<close>

text \<open>SIGINT with an empty run queue dereferences \<^verbatim>\<open>CFSLeftmost\<close>, which then is null.\<close>

lemma SIGINT_empty_queue:
  assumes "run_queue s []" and "t = GetTaskPID p s" and "t \<noteq> 0" and "State s t \<noteq> ZOMBIE" and "pid s t > 1"
  shows "SetTaskSignal p 2 False s = None"
proof -
  have "bit (Signals s t OR push_bit 2 1) 2" by (simp add: bit_or_iff bit_push_bit_iff)
  then show ?thesis using assms by (simp add: SetTaskSignal_def set_signal_def run_queue_def Let_def)
qed

text \<open>Any other signal puts a sleeping task into the run queue and leaves it in the wheel.\<close>

lemma signal_keeps_sleeper:
  assumes inv: "sleep_inv s W xs" and t: "t = GetTaskPID p s" "t \<in> sleepers W" "t \<noteq> 0" "State s t = BLOCKED" "pid s t > 1"
    and sig: "sig < 32" "sig \<noteq> 2" "\<not> bit (Signals s t) 2"
  shows "\<exists>s' xs'. SetTaskSignal p sig False s = Some s' \<and> wheel s' W \<and> run_queue s' xs' \<and> t \<in> sleepers W \<inter> set xs'"
proof -
  have rq: "run_queue s xs" "wheel s W" "t \<notin> set xs" using inv t(2) by (auto simp: sleep_inv_def)
  define s1 where "s1 = s\<lparr> Signals := (Signals s)(t := Signals s t OR push_bit sig 1), State := (State s)(t := READY) \<rparr>"
  have nb: "\<not> bit (Signals s t OR push_bit sig 1) 2" using sig by (auto simp: bit_or_iff bit_exp_iff)
  have "run_queue s1 xs" using rq(1) by (simp add: s1_def run_queue_def)
  moreover have "pid s1 t \<noteq> PID_IDLE" using t(5) by (auto simp: s1_def)
  ultimately obtain s2 lm tr fr where s2: "CFSEnqueue t s1 = Some s2" "run_queue s2 (ins_after (vruntime s1) t xs)"
      "s2 = s1\<lparr> CFSLeftmost := lm, Tree := tr, ForceReschedule := fr \<rparr>"
    using CFSEnqueue_ok [of s1 xs t] t(3) rq(3) by blast
  have "SetTaskSignal p sig False s = Some (s2\<lparr> ForceReschedule := True \<rparr>)"
    using t sig nb s2(1) by (simp add: SetTaskSignal_def set_signal_def Let_def s1_def)
  moreover have "wheel (s2\<lparr> ForceReschedule := True \<rparr>) W" using rq(2) by (simp add: wheel_def s2(3) s1_def)
  moreover have "run_queue (s2\<lparr> ForceReschedule := True \<rparr>) (ins_after (vruntime s1) t xs)" using s2(2) by (simp add: run_queue_def)
  ultimately show ?thesis using t(2) by (intro exI [of _ "s2\<lparr> ForceReschedule := True \<rparr>"] exI [of _ "ins_after (vruntime s1) t xs"]) simp
qed

section \<open>Nice values\<close>

lemma SetPriority_ok:
  assumes rq: "run_queue s xs" and cur: "cur = GetCurrentTaskPtr s" "cur \<noteq> 0"
    and t: "t = GetTaskPID (if who = 0 then pid s cur else of_int who) s" "t \<noteq> 0" "pid s t \<noteq> PID_IDLE" "State s t = READY \<longrightarrow> t \<in> set xs"
    and n: "n = max (-20) (min 19 nice)" "NiceValue s t \<le> n \<or> IsSudoOrAdmin s cur"
  shows "\<exists>s' xs'. Sys_SetPriority 0 who nice s = Some (0, s') \<and> run_queue s' xs' \<and> set xs' = set xs
     \<and> NiceValue s' = (NiceValue s)(t := n) \<and> Weight s' = (Weight s)(t := RateThisTaskNice n) \<and> vruntime s' = vruntime s \<and> State s' = State s"
proof -
  have clamp: "(if (if nice < -20 then -20 else nice) > 19 then 19 else if nice < -20 then -20 else nice) = n" using n(1) by auto
  have guard: "(n < NiceValue s t \<and> \<not> IsSudoOrAdmin s cur) = False" using n(2) by auto
  define set_nice where "set_nice u = u\<lparr> NiceValue := (NiceValue u)(t := n), Weight := (Weight u)(t := RateThisTaskNice n) \<rparr>" for u :: sched
  have run: "Sys_SetPriority 0 who nice s = do {
       s \<leftarrow> (if State s t = READY then CFSDequeue t s else Some s);
       s \<leftarrow> (if State (set_nice s) t = READY then CFSEnqueue t (set_nice s) else Some (set_nice s));
       Some (0, s) }"
    unfolding Sys_SetPriority_def Let_def cur(1) [symmetric] t(1) [symmetric] clamp set_nice_def guard
    using cur(2) t(2) by simp
  show ?thesis
  proof (cases "State s t = READY")
    case True
    obtain tr lm where d: "CFSDequeue t s = Some (s\<lparr> CFSLeftmost := lm, Tree := tr \<rparr>)" "run_queue (s\<lparr> CFSLeftmost := lm, Tree := tr \<rparr>) (remove1 t xs)"
      using CFSDequeue_ok [OF rq] t(4) True by blast
    define s1 where "s1 = set_nice (s\<lparr> CFSLeftmost := lm, Tree := tr \<rparr>)"
    have "run_queue s1 (remove1 t xs)" using d(2) by (simp add: s1_def set_nice_def run_queue_def)
    moreover have "t \<notin> set (remove1 t xs)" using rq rb_tree_nodes by (auto simp: run_queue_def)
    ultimately obtain s2 lm2 tr2 fr where s2: "CFSEnqueue t s1 = Some s2" "run_queue s2 (ins_after (vruntime s1) t (remove1 t xs))"
        "s2 = s1\<lparr> CFSLeftmost := lm2, Tree := tr2, ForceReschedule := fr \<rparr>"
      using CFSEnqueue_ok [of s1 "remove1 t xs" t] t(2,3) by (auto simp: s1_def set_nice_def)
    have dx: "distinct xs" using rq rb_tree_nodes by (auto simp: run_queue_def)
    have "Sys_SetPriority 0 who nice s = Some (0, s2)" unfolding run using True d(1) s2(1) by (simp add: s1_def set_nice_def)
    moreover have "set (ins_after (vruntime s1) t (remove1 t xs)) = set xs" using t(4) True dx by auto
    ultimately show ?thesis using s2(2) by (intro exI [of _ s2] exI [of _ "ins_after (vruntime s1) t (remove1 t xs)"]) (simp add: s2(3) s1_def set_nice_def)
  next
    case False
    then have "Sys_SetPriority 0 who nice s = Some (0, set_nice s)" unfolding run by (simp add: set_nice_def)
    then show ?thesis using rq by (intro exI [of _ "set_nice s"] exI [of _ xs]) (simp add: set_nice_def run_queue_def)
  qed
qed

section \<open>Properties\<close>

text \<open>C37. The mutex refines a lock with a first-come-first-served queue. \<^verbatim>\<open>Acquire\<close> takes a free lock and otherwise blocks the
  running task behind those that wait; \<^verbatim>\<open>Release\<close> hands a lock that is waited for to the first waiter, without
  it ever being free in between, and puts that task, and no other, into the run queue; else it frees the lock.
\<close>

theorem Mutex_refines_lock:
  assumes "mutex_is m s (h, ws)"
  shows "(GetCurrentTaskPtr s \<noteq> 0 \<and> GetCurrentTaskPtr s \<notin> set ws \<longrightarrow>
       (\<exists>m' s'. Acquire (m, s) = Some (m', s') \<and> mutex_is m' s' (lock_acquire (GetCurrentTaskPtr s) (h, ws))
          \<and> State s' = (if h = None then State s else (State s)(GetCurrentTaskPtr s := BLOCKED))))
     \<and> (h \<noteq> None \<and> run_queue s xs \<and> set ws \<inter> set xs = {} \<and> (\<forall>t \<in> set ws. pid s t \<noteq> PID_IDLE) \<longrightarrow>
       (\<exists>m' s' xs'. Release (m, s) = Some (m', s') \<and> mutex_is m' s' (lock_release (h, ws)) \<and> run_queue s' xs'
          \<and> set xs' = set (take 1 ws) \<union> set xs))"
proof (intro conjI impI)
  show "\<exists>m' s'. Acquire (m, s) = Some (m', s') \<and> mutex_is m' s' (lock_acquire (GetCurrentTaskPtr s) (h, ws))
      \<and> State s' = (if h = None then State s else (State s)(GetCurrentTaskPtr s := BLOCKED))"
    if "GetCurrentTaskPtr s \<noteq> 0 \<and> GetCurrentTaskPtr s \<notin> set ws"
    using Acquire_ok [OF assms refl] that by blast
  show "\<exists>m' s' xs'. Release (m, s) = Some (m', s') \<and> mutex_is m' s' (lock_release (h, ws)) \<and> run_queue s' xs'
      \<and> set xs' = set (take 1 ws) \<union> set xs"
    if "h \<noteq> None \<and> run_queue s xs \<and> set ws \<inter> set xs = {} \<and> (\<forall>t \<in> set ws. pid s t \<noteq> PID_IDLE)"
    using Release_ok [of m s _ ws xs] assms that by blast
qed

text \<open>Whoever waits for a mutex gets it. The task at place \<open>k\<close> of the waiters owns the mutex after \<open>k + 1\<close> releases, in the
  order of arrival, and none is skipped.
\<close>

theorem Mutex_hands_over_in_order:
  assumes "mutex_is m s (Some h, ws)" and "run_queue s xs" and "set ws \<inter> set xs = {}" and "\<forall>t \<in> set ws. pid s t \<noteq> PID_IDLE" and "k < length ws"
  shows "\<exists>m' s'. releases (Suc k) (m, s) = Some (m', s') \<and> mutex_is m' s' (Some (ws ! k), drop (Suc k) ws)"
  by (rule releases_ok [OF assms])

text \<open>Wait queues are first in, first out. \<^verbatim>\<open>SleepOn\<close> blocks the running task at the end of the queue; \<^verbatim>\<open>WakeUp\<close> takes
  the first task off, makes it ready with the boosted virtual run time and puts it into the run queue at its place.
\<close>

theorem wait_queue_fifo:
  assumes "wait_queue s q ys"
  shows "(GetCurrentTaskPtr s \<noteq> 0 \<and> GetCurrentTaskPtr s \<notin> set ys \<longrightarrow>
       (\<exists>q' s'. SleepOn (q, s) = Some (q', s') \<and> wait_queue s' q' (ys @ [GetCurrentTaskPtr s]) \<and> State s' = (State s)(GetCurrentTaskPtr s := BLOCKED)))
     \<and> (ys \<noteq> [] \<and> run_queue s xs \<and> pid s (hd ys) \<noteq> PID_IDLE \<and> hd ys \<notin> set xs \<longrightarrow>
       (\<exists>q' s'. WakeUp (q, s) = Some (q', s') \<and> wait_queue s' q' (tl ys) \<and> run_queue s' (ins_after (vruntime s') (hd ys) xs)
          \<and> vruntime s' (hd ys) = boost s \<and> State s' = (State s)(hd ys := READY)))
     \<and> (ys = [] \<longrightarrow> WakeUp (q, s) = Some (q, s))"
proof (intro conjI impI)
  show "\<exists>q' s'. SleepOn (q, s) = Some (q', s') \<and> wait_queue s' q' (ys @ [GetCurrentTaskPtr s]) \<and> State s' = (State s)(GetCurrentTaskPtr s := BLOCKED)"
    if "GetCurrentTaskPtr s \<noteq> 0 \<and> GetCurrentTaskPtr s \<notin> set ys"
    using SleepOn_ok [OF assms refl] that by blast
  show "\<exists>q' s'. WakeUp (q, s) = Some (q', s') \<and> wait_queue s' q' (tl ys) \<and> run_queue s' (ins_after (vruntime s') (hd ys) xs)
      \<and> vruntime s' (hd ys) = boost s \<and> State s' = (State s)(hd ys := READY)"
    if h: "ys \<noteq> [] \<and> run_queue s xs \<and> pid s (hd ys) \<noteq> PID_IDLE \<and> hd ys \<notin> set xs"
  proof -
    have "wait_queue s q (hd ys # tl ys)" using assms h by simp
    then show ?thesis using WakeUp_ok [of s q "hd ys" "tl ys" xs] h by blast
  qed
  show "WakeUp (q, s) = Some (q, s)" if "ys = []" using assms that by (simp add: WakeUp_def wait_queue_def)
qed

text \<open>\<^verbatim>\<open>Sys_SetPriority\<close>. A nice value below the target's own needs privilege: without it the call returns the
  permission error and changes nothing. Otherwise the call returns 0, the target has the clamped value and a
  weight of the table (never 0, so a later tick does not divide by zero), and the run queue still holds the same
  tasks in order.
\<close>

theorem Sys_SetPriority_correct:
  assumes "run_queue s xs" and "cur = GetCurrentTaskPtr s" and "cur \<noteq> 0"
    and "t = GetTaskPID (if who = 0 then pid s cur else of_int who) s" and "t \<noteq> 0" and "pid s t \<noteq> PID_IDLE" and "State s t = READY \<longrightarrow> t \<in> set xs"
    and "n = max (-20) (min 19 nice)"
  shows "if NiceValue s t \<le> n \<or> IsSudoOrAdmin s cur
     then \<exists>s' xs'. Sys_SetPriority 0 who nice s = Some (0, s') \<and> run_queue s' xs' \<and> set xs' = set xs
       \<and> NiceValue s' = (NiceValue s)(t := n) \<and> Weight s' t \<in> set PrioToWeight \<and> Weight s' t \<noteq> 0
     else Sys_SetPriority 0 who nice s = Some (- 13, s)"
proof (cases "NiceValue s t \<le> n \<or> IsSudoOrAdmin s cur")
  case True
  then show ?thesis
    using SetPriority_ok [OF assms(1-8) True] RateThisTaskNice_weight [of n] PrioToWeight_pos by fastforce
next
  case False
  have clamp: "(if (if nice < -20 then -20 else nice) > 19 then 19 else if nice < -20 then -20 else nice) = n" using assms(8) by auto
  have "Sys_SetPriority 0 who nice s = Some (- 13, s)"
    unfolding Sys_SetPriority_def Let_def assms(2) [symmetric] assms(4) [symmetric] clamp using assms(3,5) False by simp
  then show ?thesis using False by simp
qed

text \<open>A member of a process group that is not its head leaves the group's list, and only it: the list from the head holds
  the other members in order, and the walk ends.
\<close>

theorem UnlinkFromProcGrp_removes:
  assumes "h = GetTaskPGID (PGID s T) s" and "chain (PGIDTaskPtr s) h gs" and "distinct gs" and "T \<in> set gs" and "T \<noteq> h" and "PGID s T \<noteq> 0"
  shows "\<exists>nx. UnlinkFromProcGrp T s = Some (s\<lparr> PGIDTaskPtr := nx \<rparr>) \<and> chain nx h (remove1 T gs) \<and> nx T = 0"
  by (rule UnlinkFromProcGrp_ok [OF assms])

section \<open>Witnesses\<close>

text \<open>Tasks 5 and 6 wait for a mutex that task 7 holds; task 4 runs and 1, 2, 3 are ready.\<close>

definition held_sched :: sched where
  "held_sched = busy_sched\<lparr> NextWaitTask := (\<lambda>t. if t = 5 then 6 else 0) \<rparr>"

definition held_mutex :: mutex where
  "held_mutex = \<lparr> locked = True, owner = 7, waitQueue = \<lparr> Head = 5, Tail = 6 \<rparr> \<rparr>"

lemma held_is: "mutex_is held_mutex held_sched (Some 7, [5, 6])"
  by (simp add: mutex_is_def wait_queue_def held_mutex_def held_sched_def prev_of_def)

lemma held_wait: "wait_queue held_sched \<lparr> Head = 5, Tail = 6 \<rparr> [5, 6]"
  by (simp add: wait_queue_def held_sched_def prev_of_def)

lemma held_queue: "run_queue held_sched [1, 2, 3]"
  using sample_sched_queue by (simp add: run_queue_def held_sched_def busy_sched_def)

lemma held_current: "GetCurrentTaskPtr held_sched = 4"
  by (simp add: GetCurrentTaskPtr_def held_sched_def busy_defs)

lemma held_pid: "pid held_sched t = (if t = 9 then 0 else of_nat t)"
  by (simp add: held_sched_def busy_fields)

lemma Mutex_refines_lock_witness:
  "(\<exists>m' s'. Acquire (held_mutex, held_sched) = Some (m', s') \<and> mutex_is m' s' (Some 7, [5, 6, 4]))
   \<and> (\<exists>m' s'. Release (held_mutex, held_sched) = Some (m', s') \<and> mutex_is m' s' (Some 5, [6]))"
  using Mutex_refines_lock [OF held_is, of "[1, 2, 3]"] held_queue by (auto simp: held_current held_pid)

lemma Mutex_hands_over_in_order_witness: "\<exists>m' s'. releases 2 (held_mutex, held_sched) = Some (m', s') \<and> owner m' = 6"
proof -
  have "\<exists>m' s'. releases (Suc 1) (held_mutex, held_sched) = Some (m', s') \<and> mutex_is m' s' (Some ([5, 6] ! 1), drop (Suc 1) [5, 6])"
    by (rule Mutex_hands_over_in_order [OF held_is held_queue]) (auto simp: held_pid)
  then obtain m' s' where "releases (Suc 1) (held_mutex, held_sched) = Some (m', s')" "owner m' = 6" by (auto simp: mutex_is_def)
  then show ?thesis unfolding numeral_2_eq_2 One_nat_def by blast
qed

lemma wait_queue_fifo_witness:
  "(\<exists>q' s'. SleepOn (\<lparr> Head = 5, Tail = 6 \<rparr>, held_sched) = Some (q', s') \<and> wait_queue s' q' [5, 6, 4])
   \<and> (\<exists>q' s'. WakeUp (\<lparr> Head = 5, Tail = 6 \<rparr>, held_sched) = Some (q', s') \<and> wait_queue s' q' [6])"
  using wait_queue_fifo [OF held_wait, of "[1, 2, 3]"] held_queue by (auto simp: held_current held_pid)

lemma Sys_SetPriority_correct_witness: "Sys_SetPriority 0 2 (-5) held_sched = Some (- 13, held_sched)"
proof -
  have t: "2 = GetTaskPID (if (2::int) = 0 then pid held_sched 4 else of_int 2) held_sched"
    by (simp add: GetTaskPID_def held_pid Let_def) (simp add: held_sched_def busy_defs)
  have p: "NiceValue held_sched 2 = 0" "\<not> IsSudoOrAdmin held_sched 4" by (simp_all add: held_sched_def busy_defs)
  have "if NiceValue held_sched 2 \<le> -5 \<or> IsSudoOrAdmin held_sched 4
     then \<exists>s' xs'. Sys_SetPriority 0 2 (-5) held_sched = Some (0, s') \<and> run_queue s' xs' \<and> set xs' = set [1, 2, 3]
       \<and> NiceValue s' = (NiceValue held_sched)(2 := -5) \<and> Weight s' 2 \<in> set PrioToWeight \<and> Weight s' 2 \<noteq> 0
     else Sys_SetPriority 0 2 (-5) held_sched = Some (- 13, held_sched)"
    by (rule Sys_SetPriority_correct [OF held_queue held_current [symmetric] _ t]) (simp_all add: held_pid)
  then show ?thesis using p by simp
qed

definition group_sched :: sched where
  "group_sched = busy_sched\<lparr> PGID := (\<lambda>_. 1), PGIDTaskPtr := (\<lambda>t. if t = 1 then 2 else if t = 2 then 3 else 0) \<rparr>"

lemma UnlinkFromProcGrp_removes_witness:
  "\<exists>nx. UnlinkFromProcGrp 2 group_sched = Some (group_sched\<lparr> PGIDTaskPtr := nx \<rparr>) \<and> chain nx 1 [1, 3]"
proof -
  have h: "1 = GetTaskPGID (PGID group_sched 2) group_sched"
    by (simp add: GetTaskPGID_def GetTaskPID_def Let_def group_sched_def busy_defs)
  have "\<exists>nx. UnlinkFromProcGrp 2 group_sched = Some (group_sched\<lparr> PGIDTaskPtr := nx \<rparr>) \<and> chain nx 1 (remove1 2 [1, 2, 3]) \<and> nx 2 = 0"
    by (rule UnlinkFromProcGrp_removes [OF h]) (simp_all add: group_sched_def)
  then show ?thesis by auto
qed

end
