(* ===== verification/Kmalloc.thy ===== *)
theory Kmalloc
  imports Paging_Tables
begin

text \<open>
  The kernel heap, \<^verbatim>\<open>kernel/mm/kmalloc/kmalloc.cpp\<close>, and the operators of \<^verbatim>\<open>kernel/newdelete.cpp\<close>. The heap
  is a byte memory at kernel virtual addresses; block headers, the links of the free list and the
  canaries are bytes of it, so a write in the wrong place would corrupt them here as it does in the
  kernel. Growing uses the modelled virtual allocator, frame allocator and page tables. A block header
  is \<^verbatim>\<open>size\<close> at offset 0, \<^verbatim>\<open>magic\<close> at 8 and \<^verbatim>\<open>next\<close> at 16. The theory holds the model and the algebra of
  header accesses.
\<close>

section \<open>Model\<close>

abbreviation HEADER_SIZE :: u64 where "HEADER_SIZE \<equiv> 24"
abbreviation ALIGN :: u64 where "ALIGN \<equiv> 8"
abbreviation MAGIC_FREE :: u32 where "MAGIC_FREE \<equiv> 0xfeedf00d"
abbreviation MAGIC_ALLOC :: u32 where "MAGIC_ALLOC \<equiv> 0xcafebabe"
abbreviation KMALLOC_CANARY :: u64 where "KMALLOC_CANARY \<equiv> 0xDEADCAFEDEADCAFE"
abbreviation GROW_CHUNK :: u64 where "GROW_CHUNK \<equiv> 16"

record kheap =
  bytes :: ram
  free_list :: u64
  heap_start :: u64
  heap_size :: u64
  heap_low :: u64
  heap_high :: u64
  heap_mm :: mm_state

definition load32 :: "ram \<Rightarrow> u64 \<Rightarrow> u32" where
  "load32 m a =
     ucast (m a) OR push_bit 8 (ucast (m (a + 1))) OR push_bit 16 (ucast (m (a + 2))) OR
     push_bit 24 (ucast (m (a + 3)))"

definition store32 :: "ram \<Rightarrow> u64 \<Rightarrow> u32 \<Rightarrow> ram" where
  "store32 m a v = (\<lambda>x. if x - a < 4 then ucast (drop_bit (8 * unat (x - a)) v) else m x)"

definition block_size :: "ram \<Rightarrow> u64 \<Rightarrow> u64" where "block_size m b = load64 m b"
definition block_magic :: "ram \<Rightarrow> u64 \<Rightarrow> u32" where "block_magic m b = load32 m (b + 8)"
definition block_next :: "ram \<Rightarrow> u64 \<Rightarrow> u64" where "block_next m b = load64 m (b + 16)"
definition set_size :: "u64 \<Rightarrow> u64 \<Rightarrow> ram \<Rightarrow> ram" where "set_size b v m = store64 m b v"
definition set_magic :: "u64 \<Rightarrow> u32 \<Rightarrow> ram \<Rightarrow> ram" where "set_magic b v m = store32 m (b + 8) v"
definition set_next :: "u64 \<Rightarrow> u64 \<Rightarrow> ram \<Rightarrow> ram" where "set_next b v m = store64 m (b + 16) v"

definition align_up :: "u64 \<Rightarrow> u64" where
  "align_up v = (v + (ALIGN - 1)) AND NOT (ALIGN - 1)"

text \<open>The loop of \<^verbatim>\<open>Init\<close> that backs the heap with frames: it stops when there is no frame and goes on
  when a page could not be mapped.\<close>

primrec init_pages :: "nat \<Rightarrow> u64 \<Rightarrow> u64 \<Rightarrow> u64 \<Rightarrow> mm_state \<Rightarrow> mm_state option" where
  "init_pages 0 pml4 vbase i s = Some s"
| "init_pages (Suc n) pml4 vbase i s =
     (case PhysicalAllocPages 1 (frames s) of
        None \<Rightarrow> None
      | Some (phys, fr) \<Rightarrow>
          if phys = 0 then Some (s\<lparr>frames := fr\<rparr>)
          else (case MapPages pml4 phys (vbase + i * PAGE_SIZE) 1 (PAGE_PRESENT OR PAGE_RW) (s\<lparr>frames := fr\<rparr>) of
              None \<Rightarrow> None
            | Some (_, s') \<Rightarrow> init_pages n pml4 vbase (i + 1) s'))"

definition Init :: "u64 \<Rightarrow> u64 \<Rightarrow> kheap \<Rightarrow> kheap option" where
  "Init pml4 pages s =
     (let pages = (if pages = 0 then 16 else pages);
          (vaddr, p) = VirtualAllocPages pages (pool (heap_mm s));
          s = s\<lparr>heap_mm := heap_mm s\<lparr>pool := p\<rparr>\<rparr> in
      if vaddr = 0 then Some s
      else map_option (\<lambda>mm.
          s\<lparr>bytes := set_next vaddr 0 (set_magic vaddr MAGIC_FREE (set_size vaddr (pages * PAGE_SIZE) (bytes s))),
            free_list := vaddr, heap_start := vaddr, heap_size := pages * PAGE_SIZE,
            heap_low := vaddr, heap_high := vaddr + pages * PAGE_SIZE, heap_mm := mm\<rparr>)
        (init_pages (unat pages) pml4 vaddr 0 (heap_mm s)))"

text \<open>\<^verbatim>\<open>prev->next = target\<close>, or the head of the list when there is no \<^verbatim>\<open>prev\<close>.\<close>

definition link_free :: "u64 \<Rightarrow> u64 \<Rightarrow> kheap \<Rightarrow> kheap" where
  "link_free prev target s =
     (if prev \<noteq> 0 then s\<lparr>bytes := set_next prev target (bytes s)\<rparr> else s\<lparr>free_list := target\<rparr>)"

partial_function (option) insert_walk :: "u64 \<Rightarrow> u64 \<Rightarrow> u64 \<Rightarrow> ram \<Rightarrow> (u64 \<times> u64) option" where
  "insert_walk baddr prev cur m =
     (if cur \<noteq> 0 \<and> cur < baddr then insert_walk baddr cur (block_next m cur) m else Some (prev, cur))"

text \<open>Swallow the next free block when the block ends where that one starts.\<close>

definition coalesce_next :: "u64 \<Rightarrow> ram \<Rightarrow> ram" where
  "coalesce_next block m =
     (let n = block_next m block in
      if n \<noteq> 0 \<and> block + block_size m block = n then
        let m' = set_size block (block_size m block + block_size m n) m in
        set_next block (block_next m' n) m'
      else m)"

definition coalesce_prev :: "u64 \<Rightarrow> u64 \<Rightarrow> ram \<Rightarrow> ram" where
  "coalesce_prev prev block m =
     (if prev \<noteq> 0 \<and> prev + block_size m prev = block then
        let m' = set_size prev (block_size m prev + block_size m block) m in
        set_next prev (block_next m' block) m'
      else m)"

definition insert_and_coalesce :: "u64 \<Rightarrow> kheap \<Rightarrow> kheap option" where
  "insert_and_coalesce block s =
     (let s = s\<lparr>bytes := set_magic block MAGIC_FREE (bytes s)\<rparr> in
      if free_list s = 0 then Some (s\<lparr>bytes := set_next block 0 (bytes s), free_list := block\<rparr>)
      else map_option (\<lambda>(prev, cur).
          let s = link_free prev block (s\<lparr>bytes := set_next block cur (bytes s)\<rparr>) in
          s\<lparr>bytes := coalesce_prev prev block (coalesce_next block (bytes s))\<rparr>)
        (insert_walk block 0 (free_list s) (bytes s)))"

text \<open>The search of \<^verbatim>\<open>Alloc\<close> with its checks of every node; \<open>bounds_set\<close> is the check for missing heap
  bounds, which the second search does not repeat.\<close>

datatype scan_result = Fit u64 u64 | NoFit | Corrupt

partial_function (option) scan :: "bool \<Rightarrow> u64 \<Rightarrow> u64 \<Rightarrow> u64 \<Rightarrow> kheap \<Rightarrow> scan_result option" where
  "scan bounds_set tot prev cur s =
     (if cur = 0 then Some NoFit
      else if bounds_set \<and> (heap_low s = 0 \<or> heap_high s = 0) then Some Corrupt
      else if cur < heap_low s \<or> heap_high s \<le> cur then Some Corrupt
      else if cur AND (ALIGN - 1) \<noteq> 0 then Some Corrupt
      else if block_magic (bytes s) cur \<noteq> MAGIC_FREE then Some Corrupt
      else if tot \<le> block_size (bytes s) cur then Some (Fit prev cur)
      else scan bounds_set tot cur (block_next (bytes s) cur) s)"

definition canary_addr :: "ram \<Rightarrow> u64 \<Rightarrow> u64" where
  "canary_addr m block = block + HEADER_SIZE + (block_size m block - HEADER_SIZE) - 8"

definition write_canary :: "u64 \<Rightarrow> ram \<Rightarrow> ram" where
  "write_canary block m =
     (if 8 \<le> block_size m block - HEADER_SIZE then store64 m (canary_addr m block) KMALLOC_CANARY else m)"

definition take_block :: "u64 \<Rightarrow> u64 \<Rightarrow> u64 \<Rightarrow> kheap \<Rightarrow> kheap" where
  "take_block tot prev cur s =
     (if tot + HEADER_SIZE + ALIGN \<le> block_size (bytes s) cur then
        let nb = cur + tot;
            m = set_size nb (block_size (bytes s) cur - tot) (bytes s);
            m = set_magic nb MAGIC_FREE m;
            m = set_next nb (block_next m cur) m;
            m = set_next cur 0 (set_magic cur MAGIC_ALLOC (set_size cur tot m)) in
        link_free prev nb (s\<lparr>bytes := write_canary cur m\<rparr>)
      else
        let s = link_free prev (block_next (bytes s) cur) s in
        s\<lparr>bytes := write_canary cur (set_next cur 0 (set_magic cur MAGIC_ALLOC (bytes s)))\<rparr>)"

text \<open>The loop of \<^verbatim>\<open>grow_ok\<close>, which counts the pages it mapped.\<close>

primrec grow_pages :: "nat \<Rightarrow> u64 \<Rightarrow> u64 \<Rightarrow> u64 \<Rightarrow> mm_state \<Rightarrow> (u64 \<times> mm_state) option" where
  "grow_pages 0 pml4 vbase i s = Some (i, s)"
| "grow_pages (Suc n) pml4 vbase i s =
     (case PhysicalAllocPages 1 (frames s) of
        None \<Rightarrow> None
      | Some (phys, fr) \<Rightarrow>
          if phys = 0 then Some (i, s\<lparr>frames := fr\<rparr>)
          else (case MapPages pml4 phys (vbase + i * PAGE_SIZE) 1 (PAGE_PRESENT OR PAGE_RW) (s\<lparr>frames := fr\<rparr>) of
              None \<Rightarrow> None
            | Some (ok, s') \<Rightarrow> if ok then grow_pages n pml4 vbase (i + 1) s' else Some (i, s')))"

abbreviation set_irq :: "bool \<Rightarrow> kheap \<Rightarrow> kheap" where
  "set_irq b s \<equiv> s\<lparr>heap_mm := heap_mm s\<lparr>interrupts := b\<rparr>\<rparr>"

definition grow_ok :: "u64 \<Rightarrow> bool \<Rightarrow> u64 \<Rightarrow> kheap \<Rightarrow> (bool \<times> kheap) option" where
  "grow_ok pml4 irq growPages s =
     (let (vbase, p) = VirtualAllocPages growPages (pool (heap_mm s));
          s = s\<lparr>heap_mm := heap_mm s\<lparr>pool := p\<rparr>\<rparr> in
      if vbase = 0 then Some (False, set_irq irq s)
      else Option.bind (grow_pages (unat growPages) pml4 vbase 0 (heap_mm s)) (\<lambda>(mapped, mm).
        let s = s\<lparr>heap_mm := mm\<rparr> in
        if mapped = 0 then Some (False, set_irq irq s)
        else
          let m = set_next vbase 0 (set_magic vbase MAGIC_FREE (set_size vbase (mapped * PAGE_SIZE) (bytes s))) in
          map_option (\<lambda>s.
              let s = s\<lparr>heap_size := heap_size s + mapped * PAGE_SIZE\<rparr>;
                  s = (if heap_low s = 0 \<or> vbase < heap_low s then s\<lparr>heap_low := vbase\<rparr> else s);
                  new_high = vbase + mapped * PAGE_SIZE;
                  s = (if heap_high s = 0 \<or> heap_high s < new_high then s\<lparr>heap_high := new_high\<rparr> else s) in
              (True, set_irq irq s))
            (insert_and_coalesce vbase (s\<lparr>bytes := m\<rparr>))))"

definition grow_count :: "u64 \<Rightarrow> u64" where
  "grow_count tot =
     (let pagesNeeded = (tot + PAGE_SIZE - 1) div PAGE_SIZE in if pagesNeeded < GROW_CHUNK then GROW_CHUNK else pagesNeeded)"

definition Alloc :: "u64 \<Rightarrow> u64 \<Rightarrow> kheap \<Rightarrow> (u64 \<times> kheap) option" where
  "Alloc pml4 sz s =
     (if sz = 0 then Some (0, s)
      else
        let irq = interrupts (heap_mm s);
            s = set_irq False s;
            tot = align_up (sz + 8) + HEADER_SIZE in
        if 0xFFFFFFFFFFFFFFFF - 8 < sz then Some (0, set_irq irq s)
        else Option.bind (scan True tot 0 (free_list s) s) (\<lambda>found.
          case found of
            Fit prev cur \<Rightarrow> Some (cur + HEADER_SIZE, set_irq irq (take_block tot prev cur s))
          | Corrupt \<Rightarrow> Some (0, set_irq irq s)
          | NoFit \<Rightarrow>
              Option.bind (grow_ok pml4 irq (grow_count tot) s) (\<lambda>(grown, s).
                if grown then
                  map_option (\<lambda>found.
                      case found of
                        Fit prev cur \<Rightarrow> (cur + HEADER_SIZE, set_irq irq (take_block tot prev cur s))
                      | _ \<Rightarrow> (0, set_irq irq s))
                    (scan False tot 0 (free_list s) s)
                else Some (0, set_irq irq s))))"

text \<open>\<^verbatim>\<open>Free\<close> panics on a block that is not allocated; \<open>Freed overflow s\<close> tells whether the canary check
  reported an overflow, which does not stop the block from being freed.\<close>

datatype free_result = Freed bool kheap | FreePanic

definition canary_broken :: "ram \<Rightarrow> u64 \<Rightarrow> bool" where
  "canary_broken m block \<longleftrightarrow> 8 \<le> block_size m block - HEADER_SIZE \<and> load64 m (canary_addr m block) \<noteq> KMALLOC_CANARY"

definition Free :: "u64 \<Rightarrow> kheap \<Rightarrow> free_result option" where
  "Free ptr s =
     (let block = ptr - HEADER_SIZE in
      if ptr = 0 then Some (Freed False s)
      else if heap_low s = 0 \<or> heap_high s = 0 then Some (Freed False s)
      else if block < heap_low s \<or> heap_high s \<le> block then Some (Freed False s)
      else if block_magic (bytes s) block \<noteq> MAGIC_ALLOC then Some FreePanic
      else map_option (Freed (canary_broken (bytes s) block))
        (insert_and_coalesce block (s\<lparr>bytes := set_magic block MAGIC_FREE (bytes s)\<rparr>)))"

definition operator_new :: "u64 \<Rightarrow> u64 \<Rightarrow> kheap \<Rightarrow> (u64 \<times> kheap) option" where
  "operator_new pml4 sz s = Alloc pml4 sz s"

definition operator_delete :: "u64 \<Rightarrow> kheap \<Rightarrow> free_result option" where
  "operator_delete ptr s = (if ptr \<noteq> 0 then Free ptr s else Some (Freed False s))"

section \<open>Header accesses\<close>

text \<open>\<open>agree A m m'\<close>: the memories hold the same bytes at the addresses in \<open>A\<close>.\<close>

definition agree :: "nat set \<Rightarrow> ram \<Rightarrow> ram \<Rightarrow> bool" where
  "agree A m m' \<longleftrightarrow> (\<forall>x. unat x \<in> A \<longrightarrow> m' x = m x)"

lemma agree_refl [simp]: "agree A m m"
  by (simp add: agree_def)

lemma agree_trans [trans]: "agree A m m' \<Longrightarrow> agree A m' m'' \<Longrightarrow> agree A m m''"
  by (simp add: agree_def)

lemma agree_mono: "agree A m m' \<Longrightarrow> B \<subseteq> A \<Longrightarrow> agree B m m'"
  by (auto simp: agree_def)

lemma agree_Un: "agree (A \<union> B) m m' \<longleftrightarrow> agree A m m' \<and> agree B m m'"
  by (auto simp: agree_def)

lemma unat_offset:
  assumes "unat a + n \<le> 2 ^ 64" and "k < n"
  shows "unat (a + of_nat k) = unat (a :: u64) + k"
proof -
  have "k < 2 ^ 64" using assms by simp
  then show ?thesis using assms by (simp add: unat_word_ariths unat_of_nat take_bit_nat_eq_self)
qed

lemma near_iff:
  assumes "unat (a :: u64) + unat k \<le> 2 ^ 64" 
  shows "x - a < k \<longleftrightarrow> unat a \<le> unat x \<and> unat x < unat a + unat k"
  using assms unat_lt_2_64 [of x] unat_lt_2_64 [of a]
  by (auto simp: word_less_nat_alt unat_sub_if_size word_size)

lemma agree_store64:
  assumes "unat a + 8 \<le> 2 ^ 64"
  shows "agree (- {unat a ..< unat a + 8}) m (store64 m a v)"
  using assms near_iff [of a 8] by (auto simp: agree_def store64_def)

lemma agree_store32:
  assumes "unat a + 4 \<le> 2 ^ 64"
  shows "agree (- {unat a ..< unat a + 4}) m (store32 m a v)"
  using assms near_iff [of a 4] by (auto simp: agree_def store32_def)

lemma load64_agree:
  assumes "agree {unat a ..< unat a + 8} m m'" and "unat a + 8 \<le> 2 ^ 64"
  shows "load64 m' a = load64 m a"
proof (rule load64_cong)
  fix k :: u64 assume "k < 8"
  then have "unat k < 8" by (simp add: word_less_nat_alt)
  then have "unat (a + k) = unat a + unat k" using unat_offset [OF assms(2), of "unat k"] by simp
  then show "m' (a + k) = m (a + k)" using assms(1) \<open>unat k < 8\<close> by (simp add: agree_def)
qed

lemma load32_load64: "load32 m a = ucast (load64 m a)"
proof (rule bit_word_eqI)
  fix n assume "n < LENGTH(32)"
  then show "bit (load32 m a) n = bit (ucast (load64 m a) :: u32) n"
    unfolding load32_def load64_def by (auto simp: bit_simps dest: bit_imp_le_length)
qed

lemma load32_agree:
  assumes "agree {unat a ..< unat a + 4} m m'" and "unat a + 4 \<le> 2 ^ 64"
  shows "load32 m' a = load32 m a"
proof -
  have "m' (a + of_nat k) = m (a + of_nat k)" if "k < 4" for k
    using assms that unat_offset [OF assms(2) that] by (simp add: agree_def)
  from this [of 0] this [of 1] this [of 2] this [of 3] show ?thesis by (simp add: load32_def)
qed

lemma u32_bytes:
  "(ucast (ucast v :: u8) OR push_bit 8 (ucast (ucast (drop_bit 8 v) :: u8)) OR
     push_bit 16 (ucast (ucast (drop_bit 16 v) :: u8)) OR push_bit 24 (ucast (ucast (drop_bit 24 v) :: u8)) :: u32) = v"
proof (rule bit_word_eqI)
  fix n assume n: "n < LENGTH(32)"
  then consider "n < 8" | "8 \<le> n" "n < 16" | "16 \<le> n" "n < 24" | "24 \<le> n" "n < 32" by fastforce
  then show "bit (ucast (ucast v :: u8) OR push_bit 8 (ucast (ucast (drop_bit 8 v) :: u8)) OR
     push_bit 16 (ucast (ucast (drop_bit 16 v) :: u8)) OR push_bit 24 (ucast (ucast (drop_bit 24 v) :: u8)) :: u32) n = bit v n"
    by cases (auto simp: bit_simps)
qed

lemma load32_store32 [simp]: "load32 (store32 m a v) a = v"
proof -
  have "load32 (store32 m a v) a = ucast (ucast v :: u8) OR push_bit 8 (ucast (ucast (drop_bit 8 v) :: u8)) OR
     push_bit 16 (ucast (ucast (drop_bit 16 v) :: u8)) OR push_bit 24 (ucast (ucast (drop_bit 24 v) :: u8))"
    by (simp add: load32_def store32_def)
  then show ?thesis by (simp only: u32_bytes)
qed

text \<open>A header that does not wrap around the end of the address space.\<close>

definition room :: "u64 \<Rightarrow> bool" where
  "room b \<longleftrightarrow> unat b + 24 \<le> 2 ^ 64"

abbreviation header :: "u64 \<Rightarrow> nat set" where
  "header b \<equiv> {unat b ..< unat b + 24}"

lemma field_addr: "room b \<Longrightarrow> unat (b + 8) = unat b + 8" "room b \<Longrightarrow> unat (b + 16) = unat b + 16"
  using unat_offset [of b 24 8] unat_offset [of b 24 16] by (simp_all add: room_def)

lemma agree_set:
  assumes "room b"
  shows "agree (- header b) m (set_size b v m)" "agree (- header b) m (set_magic b w m)" "agree (- header b) m (set_next b v m)"
  unfolding set_size_def set_magic_def set_next_def
  by (rule agree_mono [OF agree_store64] agree_mono [OF agree_store32]; use assms field_addr [OF assms] in \<open>auto simp: room_def\<close>)+

lemma header_agree:
  assumes "room b" and "agree (header b) m m'"
  shows "block_size m' b = block_size m b" "block_magic m' b = block_magic m b" "block_next m' b = block_next m b"
  unfolding block_size_def block_magic_def block_next_def
  by (rule load64_agree load32_agree; use assms field_addr [OF assms(1)] in \<open>auto simp: room_def intro: agree_mono\<close>)+

lemma header_fields [simp]:
  assumes "room b"
  shows "block_size (set_size b v m) b = v" "block_size (set_magic b w m) b = block_size m b"
    "block_size (set_next b v m) b = block_size m b"
    "block_magic (set_size b v m) b = block_magic m b" "block_magic (set_magic b w m) b = w"
    "block_magic (set_next b v m) b = block_magic m b"
    "block_next (set_size b v m) b = block_next m b" "block_next (set_magic b w m) b = block_next m b"
    "block_next (set_next b v m) b = v"
proof -
  note u = field_addr [OF assms]
  have r: "unat b + 8 \<le> 2 ^ 64" "unat (b + 8) + 4 \<le> 2 ^ 64" "unat (b + 16) + 8 \<le> 2 ^ 64"
    using assms u by (simp_all add: room_def)
  note a = agree_store64 [OF r(1), THEN agree_mono] agree_store32 [OF r(2), THEN agree_mono] agree_store64 [OF r(3), THEN agree_mono]
  note l = load64_agree [OF _ r(1)] load32_agree [OF _ r(2)] load64_agree [OF _ r(3)]
  note defs = block_size_def block_magic_def block_next_def set_size_def set_magic_def set_next_def
  show "block_size (set_size b v m) b = v" "block_magic (set_magic b w m) b = w" "block_next (set_next b v m) b = v"
    by (simp_all add: defs)
  show "block_size (set_magic b w m) b = block_size m b" unfolding defs by (rule l(1) [OF a(2)]) (auto simp: u)
  show "block_size (set_next b v m) b = block_size m b" unfolding defs by (rule l(1) [OF a(3)]) (auto simp: u)
  show "block_magic (set_size b v m) b = block_magic m b" unfolding defs by (rule l(2) [OF a(1)]) (auto simp: u)
  show "block_magic (set_next b v m) b = block_magic m b" unfolding defs by (rule l(2) [OF a(3)]) (auto simp: u)
  show "block_next (set_size b v m) b = block_next m b" unfolding defs by (rule l(3) [OF a(1)]) (auto simp: u)
  show "block_next (set_magic b w m) b = block_next m b" unfolding defs by (rule l(3) [OF a(2)]) (auto simp: u)
qed

text \<open>Accesses to the headers of two different blocks do not interfere.\<close>

definition apart :: "u64 \<Rightarrow> u64 \<Rightarrow> bool" where
  "apart b c \<longleftrightarrow> room b \<and> room c \<and> header b \<inter> header c = {}"

lemma apart_commute: "apart b c \<longleftrightarrow> apart c b"
  by (auto simp: apart_def)

lemma other_header [simp]:
  assumes "apart b c"
  shows "block_size (set_size b v m) c = block_size m c" "block_size (set_magic b w m) c = block_size m c"
    "block_size (set_next b v m) c = block_size m c"
    "block_magic (set_size b v m) c = block_magic m c" "block_magic (set_magic b w m) c = block_magic m c"
    "block_magic (set_next b v m) c = block_magic m c"
    "block_next (set_size b v m) c = block_next m c" "block_next (set_magic b w m) c = block_next m c"
    "block_next (set_next b v m) c = block_next m c"
proof -
  have r: "room b" "room c" "header c \<subseteq> - header b" using assms by (auto simp: apart_def)
  note a = agree_mono [OF agree_set(1) [OF r(1)] r(3)] agree_mono [OF agree_set(2) [OF r(1)] r(3)] agree_mono [OF agree_set(3) [OF r(1)] r(3)]
  show "block_size (set_size b v m) c = block_size m c" "block_size (set_magic b w m) c = block_size m c"
    "block_size (set_next b v m) c = block_size m c"
    "block_magic (set_size b v m) c = block_magic m c" "block_magic (set_magic b w m) c = block_magic m c"
    "block_magic (set_next b v m) c = block_magic m c"
    "block_next (set_size b v m) c = block_next m c" "block_next (set_magic b w m) c = block_next m c"
    "block_next (set_next b v m) c = block_next m c"
    by (rule header_agree [OF r(2)], rule a)+
qed

end
