(* ===== verification/Kmalloc_Safety.thy ===== *)
theory Kmalloc_Safety
  imports Kmalloc
begin

text \<open>
  Safety of the kernel heap. The ghost state of the invariant is the list of free blocks, in the order of
  the links, and the set of live ones; a block is its address and its length. The lemmas follow the code:
  insertion and coalescing, the search, taking a block, growing.
\<close>

section \<open>The free list in memory\<close>

type_synonym block = "u64 \<times> nat"

definition extent :: "block \<Rightarrow> nat set" where
  "extent x = {unat (fst x) ..< unat (fst x) + snd x}"

definition good_block :: "u64 \<Rightarrow> u64 \<Rightarrow> block \<Rightarrow> bool" where
  "good_block lo hi x \<longleftrightarrow> fst x \<noteq> 0 \<and> aligned 8 (fst x) \<and> 8 dvd snd x \<and> 32 \<le> snd x \<and>
     lo \<le> fst x \<and> unat (fst x) + snd x \<le> unat hi"

definition free_node :: "ram \<Rightarrow> block \<Rightarrow> bool" where
  "free_node m x \<longleftrightarrow> block_size m (fst x) = of_nat (snd x) \<and> block_magic m (fst x) = MAGIC_FREE"

fun seg :: "ram \<Rightarrow> u64 \<Rightarrow> block list \<Rightarrow> u64 \<Rightarrow> bool" where
  "seg m p [] q \<longleftrightarrow> p = q"
| "seg m p (x # xs) q \<longleftrightarrow> p = fst x \<and> p \<noteq> 0 \<and> free_node m x \<and> seg m (block_next m p) xs q"

definition apart_from :: "block \<Rightarrow> block \<Rightarrow> bool" where
  "apart_from x y \<longleftrightarrow> extent x \<inter> extent y = {}"

text \<open>The order of the free list: a block ends before the next one starts, with a gap when the list is
  fully coalesced.\<close>

definition ends_by :: "block \<Rightarrow> block \<Rightarrow> bool" where
  "ends_by x y \<longleftrightarrow> unat (fst x) + snd x \<le> unat (fst y)"

definition gap :: "block \<Rightarrow> block \<Rightarrow> bool" where
  "gap x y \<longleftrightarrow> unat (fst x) + snd x < unat (fst y)"

definition sized :: "block \<Rightarrow> bool" where
  "sized x \<longleftrightarrow> 32 \<le> snd x \<and> unat (fst x) + snd x < 2 ^ 64"

lemma good_sized: "good_block lo hi x \<Longrightarrow> sized x"
  using unat_lt_2_64 [of hi] by (simp add: good_block_def sized_def)

lemma sized_room: "sized x \<Longrightarrow> room (fst x)"
  by (simp add: sized_def room_def)

lemma header_extent: "sized x \<Longrightarrow> header (fst x) \<subseteq> extent x"
  by (auto simp: sized_def extent_def)

lemma disjoint_apart: "sized x \<Longrightarrow> sized y \<Longrightarrow> extent x \<inter> extent y = {} \<Longrightarrow> apart (fst x) (fst y)"
  using header_extent [of x] header_extent [of y] sized_room [of x] sized_room [of y] unfolding apart_def by blast

lemma ends_by_disjoint: "ends_by x y \<Longrightarrow> extent x \<inter> extent y = {}"
  by (auto simp: ends_by_def extent_def)

lemma ends_by_apart: "ends_by x y \<Longrightarrow> sized x \<Longrightarrow> sized y \<Longrightarrow> apart (fst x) (fst y) \<and> apart (fst y) (fst x)"
  using disjoint_apart [OF _ _ ends_by_disjoint] apart_commute by blast

lemma gap_ends_by: "gap x y \<Longrightarrow> ends_by x y"
  by (simp add: gap_def ends_by_def)

lemma sorted_gap_ends_by: "sorted_wrt gap xs \<Longrightarrow> sorted_wrt ends_by xs"
  by (erule sorted_wrt_mono_rel [rotated]) (simp add: gap_ends_by)

lemma seg_append: "seg m p (xs @ ys) q \<longleftrightarrow> (\<exists>r. seg m p xs r \<and> seg m r ys q)"
  by (induction xs arbitrary: p) auto

lemma seg_agree:
  "seg m p xs q \<Longrightarrow> (\<And>x. x \<in> set xs \<Longrightarrow> room (fst x) \<and> agree (header (fst x)) m m') \<Longrightarrow> seg m' p xs q"
proof (induction xs arbitrary: p)
  case (Cons x xs)
  have "room (fst x)" "agree (header (fst x)) m m'" using Cons.prems(2) [of x] by simp_all
  note same = header_agree [OF this]
  have "seg m' (block_next m (fst x)) xs q" by (rule Cons.IH) (use Cons.prems in auto)
  with same Cons.prems(1) show ?case by (auto simp: free_node_def)
qed simp

lemma word_end_eq:
  assumes "unat b + n < 2 ^ 64"
  shows "b + of_nat n = c \<longleftrightarrow> unat b + n = unat (c :: u64)"
proof -
  have "unat (b + of_nat n) = unat b + n" using assms by (simp add: unat_word_ariths unat_of_nat)
  then show ?thesis by (metis word_unat_eq_iff)
qed

section \<open>Insertion and coalescing\<close>

fun join :: "block \<Rightarrow> block list \<Rightarrow> block list" where
  "join x [] = [x]"
| "join x (y # ys) = (if unat (fst x) + snd x = unat (fst y) then (fst x, snd x + snd y) # ys else x # y # ys)"

lemma coalesce_next_seg:
  assumes "seg m p (pre @ x # post) 0" and "sorted_wrt ends_by (pre @ x # post)" and "\<forall>y \<in> set (pre @ x # post). sized y"
  shows "seg (coalesce_next (fst x) m) p (pre @ join x post) 0" and "agree (- header (fst x)) m (coalesce_next (fst x) m)"
proof -
  obtain r where r: "seg m p pre r" "r = fst x" "fst x \<noteq> 0" "free_node m x" "seg m (block_next m (fst x)) post 0"
    using assms(1) by (auto simp: seg_append)
  have rx: "room (fst x)" "sized x" using assms(3) by (simp_all add: sized_room)
  show ag: "agree (- header (fst x)) m (coalesce_next (fst x) m)"
    by (auto simp: coalesce_next_def Let_def intro!: agree_trans [OF agree_set(1) agree_set(3)] rx)
  have keep: "seg m q ys q' \<Longrightarrow> seg (coalesce_next (fst x) m) q ys q'"
    if "\<And>y. y \<in> set ys \<Longrightarrow> sized y \<and> (ends_by x y \<or> ends_by y x)" for q ys q'
  proof (erule seg_agree)
    fix y assume "y \<in> set ys"
    with that [of y] have "sized y" "extent x \<inter> extent y = {}"
      using ends_by_disjoint [of x y] ends_by_disjoint [of y x] by auto
    with header_extent [of x] header_extent [of y] rx(2) have "header (fst y) \<subseteq> - header (fst x)" by blast
    with ag show "room (fst y) \<and> agree (header (fst y)) m (coalesce_next (fst x) m)"
      using sized_room [OF \<open>sized y\<close>] by (blast intro: agree_mono)
  qed
  have pre: "seg (coalesce_next (fst x) m) p pre (fst x)"
    using r(1,2) assms(2,3) by (intro keep) (auto simp: sorted_wrt_append)
  have size: "block_size m (fst x) = of_nat (snd x)" "block_magic m (fst x) = MAGIC_FREE" using r(4) by (simp_all add: free_node_def)
  show "seg (coalesce_next (fst x) m) p (pre @ join x post) 0"
  proof (cases post)
    case Nil
    then have "block_next m (fst x) = 0" using r(5) by simp
    then have "coalesce_next (fst x) m = m" by (simp add: coalesce_next_def)
    then show ?thesis using assms(1) Nil by simp
  next
    case (Cons y ys)
    have y: "block_next m (fst x) = fst y" "fst y \<noteq> 0" "free_node m y" "seg m (block_next m (fst y)) ys 0"
      using r(5) Cons by auto
    have iff: "fst x + block_size m (fst x) = fst y \<longleftrightarrow> unat (fst x) + snd x = unat (fst y)"
      using rx(2) size(1) by (simp add: word_end_eq sized_def)
    show ?thesis
    proof (cases "unat (fst x) + snd x = unat (fst y)")
      case False
      then have "coalesce_next (fst x) m = m" using y iff by (simp add: coalesce_next_def Let_def)
      then show ?thesis using assms(1) Cons False by simp
    next
      case True
      have "apart (fst x) (fst y)" using assms(2,3) Cons by (auto simp: sorted_wrt_append dest: ends_by_apart)
      then have m': "coalesce_next (fst x) m =
          set_next (fst x) (block_next m (fst y)) (set_size (fst x) (of_nat (snd x) + block_size m (fst y)) m)"
        using True y iff size by (simp add: coalesce_next_def Let_def)
      have "seg (coalesce_next (fst x) m) (block_next m (fst y)) ys 0"
        using y(4) assms(2,3) Cons by (intro keep) (auto simp: sorted_wrt_append)
      moreover have "free_node (coalesce_next (fst x) m) (fst x, snd x + snd y)"
        using rx(1) size y(3) unfolding m' by (simp add: free_node_def)
      moreover have "block_next (coalesce_next (fst x) m) (fst x) = block_next m (fst y)"
        using rx(1) unfolding m' by simp
      ultimately show ?thesis using pre True Cons r(3) by (auto simp: seg_append)
    qed
  qed
qed

lemma coalesce_prev_next:
  "block_next m prev = block \<Longrightarrow> block \<noteq> 0 \<Longrightarrow> coalesce_prev prev block m = (if prev \<noteq> 0 then coalesce_next prev m else m)"
  by (simp add: coalesce_prev_def coalesce_next_def Let_def)

definition last_addr :: "u64 \<Rightarrow> block list \<Rightarrow> u64" where
  "last_addr prev xs = (if xs = [] then prev else fst (last xs))"

lemma last_addr_simps [simp]: "last_addr prev [] = prev" "last_addr prev (x # xs) = last_addr (fst x) xs"
  "last_addr prev (xs @ [y]) = fst y"
  by (simp_all add: last_addr_def)

lemma insert_walk_seg:
  assumes "seg m cur xs 0"
  shows "\<exists>cur'. insert_walk b prev cur m = Some (last_addr prev (takeWhile (\<lambda>x. fst x < b) xs), cur') \<and>
    seg m cur (takeWhile (\<lambda>x. fst x < b) xs) cur' \<and> seg m cur' (dropWhile (\<lambda>x. fst x < b) xs) 0"
  using assms
proof (induction xs arbitrary: prev cur)
  case Nil
  then show ?case by (simp add: insert_walk.simps [of b prev])
next
  case (Cons x xs)
  then have x: "cur = fst x" "fst x \<noteq> 0" "seg m (block_next m (fst x)) xs 0" by auto
  show ?case
  proof (cases "fst x < b")
    case True
    from Cons.IH [OF x(3), of "fst x"] obtain cur' where
      "insert_walk b (fst x) (block_next m (fst x)) m = Some (last_addr (fst x) (takeWhile (\<lambda>x. fst x < b) xs), cur')"
      "seg m (block_next m (fst x)) (takeWhile (\<lambda>x. fst x < b) xs) cur'" "seg m cur' (dropWhile (\<lambda>x. fst x < b) xs) 0"
      by blast
    with True x Cons.prems show ?thesis by (simp add: insert_walk.simps [of b prev])
  next
    case False
    then show ?thesis using x Cons.prems by (simp add: insert_walk.simps [of b prev])
  qed
qed

lemma split_free:
  assumes "sorted_wrt gap xs" and "\<And>x. x \<in> set xs \<Longrightarrow> sized x \<and> extent x \<inter> extent (b, n) = {}" and "sized (b, n)"
  defines "pre \<equiv> takeWhile (\<lambda>x. fst x < b) xs" and "post \<equiv> dropWhile (\<lambda>x. fst x < b) xs"
  shows "sorted_wrt ends_by (pre @ (b, n) # post)"
proof -
  have xs: "xs = pre @ post" by (simp add: pre_def post_def)
  have cmp: "ends_by x (b, n) \<longleftrightarrow> fst x < b" "ends_by (b, n) x \<longleftrightarrow> \<not> fst x < b" if "x \<in> set xs" for x
  proof -
    have "unat (fst x) + snd x \<le> unat b \<or> unat b + n \<le> unat (fst x)"
    proof (rule ccontr)
      assume "\<not> ?thesis"
      then have "max (unat (fst x)) (unat b) \<in> extent x \<inter> extent (b, n)"
        using assms(2) [OF that] assms(3) by (auto simp: extent_def sized_def)
      with assms(2) [OF that] show False by blast
    qed
    then show "ends_by x (b, n) \<longleftrightarrow> fst x < b" "ends_by (b, n) x \<longleftrightarrow> \<not> fst x < b"
      using assms(2) [OF that] assms(3) by (auto simp: ends_by_def sized_def word_less_nat_alt)
  qed
  have s: "sorted_wrt ends_by (pre @ post)" using sorted_gap_ends_by [OF assms(1)] by (simp add: xs)
  have 1: "ends_by x (b, n)" if "x \<in> set pre" for x
  proof -
    have "x \<in> set xs \<and> fst x < b" using that unfolding pre_def by (rule set_takeWhileD)
    with cmp(1) [of x] show ?thesis by blast
  qed
  have 2: "ends_by (b, n) x" if "x \<in> set post" for x
  proof (cases post)
    case Nil
    then show ?thesis using that by simp
  next
    case (Cons y ys)
    then have "\<not> fst y < b" unfolding post_def by (metis dropWhile_eq_Cons_conv)
    then have y: "ends_by (b, n) y" using cmp(2) [of y] Cons xs by simp
    show ?thesis
    proof (cases "x = y")
      case False
      then have "ends_by y x" using that Cons s by (auto simp: sorted_wrt_append)
      with y show ?thesis by (simp add: ends_by_def)
    qed (use y in simp)
  qed
  show ?thesis using s 1 2 by (auto simp: sorted_wrt_append)
qed

text \<open>The free list after \<^verbatim>\<open>insert_and_coalesce\<close>.\<close>

definition ins_block :: "block \<Rightarrow> block list \<Rightarrow> block list" where
  "ins_block x xs =
     (let pre = takeWhile (\<lambda>y. fst y < fst x) xs; post = dropWhile (\<lambda>y. fst y < fst x) xs in
      if pre = [] then join x post else butlast pre @ join (last pre) (join x post))"

lemma join_ends_by:
  assumes "sorted_wrt ends_by (pre @ x # post)" and "\<forall>y \<in> set (pre @ x # post). sized y"
  shows "sorted_wrt ends_by (pre @ join x post)" "\<forall>y \<in> set (join x post). sized y"
    "(\<Union>y \<in> set (join x post). extent y) = extent x \<union> (\<Union>y \<in> set post. extent y)"
proof -
  show "sorted_wrt ends_by (pre @ join x post)"
    using assms by (cases post) (auto simp: sorted_wrt_append ends_by_def)
  show "\<forall>y \<in> set (join x post). sized y"
    using assms(2) by (cases post) (auto simp: sized_def)
  show "(\<Union>y \<in> set (join x post). extent y) = extent x \<union> (\<Union>y \<in> set post. extent y)"
    by (cases post) (auto simp: extent_def)
qed

lemma join_gap:
  assumes "sorted_wrt gap post" and "\<forall>y \<in> set post. ends_by x y" and "\<forall>y \<in> set post. sized y"
  shows "sorted_wrt gap (join x post)" "\<forall>y \<in> set (join x post). unat (fst x) \<le> unat (fst y)"
proof -
  show "sorted_wrt gap (join x post)"
    using assms by (cases post) (force simp: gap_def ends_by_def sized_def)+
  show "\<forall>y \<in> set (join x post). unat (fst x) \<le> unat (fst y)"
    using assms(2) unfolding ends_by_def by (cases post) (auto split: if_splits)
qed

lemma ins_block_gap:
  assumes "sorted_wrt gap xs" and "\<And>y. y \<in> set xs \<Longrightarrow> sized y \<and> extent y \<inter> extent x = {}" and "sized x"
  shows "sorted_wrt gap (ins_block x xs)" "\<forall>y \<in> set (ins_block x xs). sized y"
    "(\<Union>y \<in> set (ins_block x xs). extent y) = extent x \<union> (\<Union>y \<in> set xs. extent y)"
proof -
  obtain b n where x: "x = (b, n)" by (cases x)
  define pre where "pre = takeWhile (\<lambda>y. fst y < b) xs"
  define post where "post = dropWhile (\<lambda>y. fst y < b) xs"
  have xs: "xs = pre @ post" by (simp add: pre_def post_def)
  have s: "sorted_wrt ends_by (pre @ x # post)"
    using split_free [of xs b n] assms unfolding x pre_def post_def by blast
  have sz: "\<forall>y \<in> set (pre @ x # post). sized y" using assms(2,3) xs by auto
  have gp: "sorted_wrt gap pre" "sorted_wrt gap post" "\<And>y z. y \<in> set pre \<Longrightarrow> z \<in> set post \<Longrightarrow> gap y z"
    using assms(1) by (auto simp: xs sorted_wrt_append)
  have eq: "ins_block x xs = (if pre = [] then join x post else butlast pre @ join (last pre) (join x post))"
    by (simp add: ins_block_def x pre_def post_def Let_def)
  note j = join_ends_by [OF s sz] join_gap [OF gp(2), of x]
  have jg: "sorted_wrt gap (join x post)" using j(4) s sz by (auto simp: sorted_wrt_append)
  show "sorted_wrt gap (ins_block x xs)" "\<forall>y \<in> set (ins_block x xs). sized y"
    "(\<Union>y \<in> set (ins_block x xs). extent y) = extent x \<union> (\<Union>y \<in> set xs. extent y)"
  proof (atomize (full), cases pre rule: rev_cases)
    case Nil
    then show "sorted_wrt gap (ins_block x xs) \<and> (\<forall>y \<in> set (ins_block x xs). sized y) \<and>
      (\<Union>y \<in> set (ins_block x xs). extent y) = extent x \<union> (\<Union>y \<in> set xs. extent y)"
      using jg j(2,3) eq xs by simp
  next
    case (snoc pre0 c)
    have s2: "sorted_wrt ends_by (pre0 @ c # join x post)" using j(1) snoc by simp
    have sz2: "\<forall>y \<in> set (pre0 @ c # join x post). sized y" using j(2) sz snoc by auto
    note k = join_ends_by [OF s2 sz2] join_gap [OF jg, of c]
    have kg: "sorted_wrt gap (join c (join x post))" "\<forall>y \<in> set (join c (join x post)). unat (fst c) \<le> unat (fst y)"
      using k(4,5) s2 sz2 by (auto simp: sorted_wrt_append)
    have "gap y z" if "y \<in> set pre0" "z \<in> set (join c (join x post))" for y z
    proof -
      have "gap y c" using gp(1) that(1) snoc by (auto simp: sorted_wrt_append)
      then show ?thesis using kg(2) that(2) by (force simp: gap_def)
    qed
    then have "sorted_wrt gap (pre0 @ join c (join x post))"
      using kg(1) gp(1) snoc by (auto simp: sorted_wrt_append)
    then show "sorted_wrt gap (ins_block x xs) \<and> (\<forall>y \<in> set (ins_block x xs). sized y) \<and>
      (\<Union>y \<in> set (ins_block x xs). extent y) = extent x \<union> (\<Union>y \<in> set xs. extent y)"
      using k(2,3) j(3) sz snoc eq xs by auto
  qed
qed

lemma seg_relink:
  fixes q :: u64
  assumes "seg (bytes s) (free_list s) pre r" and "sorted_wrt ends_by pre" and "\<forall>y \<in> set pre. sized y"
  defines "s' \<equiv> link_free (last_addr 0 pre) q s"
  shows "seg (bytes s') (free_list s') pre q" and "agree (- (\<Union>y \<in> set pre. header (fst y))) (bytes s) (bytes s')"
    and "s' = s\<lparr>bytes := bytes s', free_list := free_list s'\<rparr>"
proof -
  show "s' = s\<lparr>bytes := bytes s', free_list := free_list s'\<rparr>" by (simp add: s'_def link_free_def)
  show "seg (bytes s') (free_list s') pre q" "agree (- (\<Union>y \<in> set pre. header (fst y))) (bytes s) (bytes s')"
  proof (atomize (full), cases pre rule: rev_cases)
    case (snoc pre0 c)
    have c: "seg (bytes s) (free_list s) pre0 (fst c)" "fst c \<noteq> 0" "free_node (bytes s) c" using assms(1) snoc by (auto simp: seg_append)
    have rc: "room (fst c)" using assms(3) snoc sized_room by auto
    have s': "bytes s' = set_next (fst c) q (bytes s)" "free_list s' = free_list s"
      using snoc c(2) by (simp_all add: s'_def link_free_def)
    have "seg (bytes s') (free_list s) pre0 (fst c)"
    proof (rule seg_agree [OF c(1)])
      fix y assume "y \<in> set pre0"
      then have "apart (fst c) (fst y)" using assms(2,3) snoc ends_by_apart [of y c] by (auto simp: sorted_wrt_append)
      then show "room (fst y) \<and> agree (header (fst y)) (bytes s) (bytes s')"
        unfolding s'(1) by (auto simp: apart_def intro: agree_mono [OF agree_set(3) [OF rc]])
    qed
    moreover have "free_node (bytes s') c" "block_next (bytes s') (fst c) = q"
      using c(3) rc by (simp_all add: s' free_node_def)
    moreover have "agree (- header (fst c)) (bytes s) (bytes s')" unfolding s'(1) by (rule agree_set(3) [OF rc])
    ultimately show "seg (bytes s') (free_list s') pre q \<and> agree (- (\<Union>y \<in> set pre. header (fst y))) (bytes s) (bytes s')"
      using snoc s'(2) c(2) by (auto simp: seg_append elim: agree_mono)
  qed (simp add: s'_def link_free_def)
qed

lemma seg_frame:
  assumes "seg m p xs q" and "agree (- A) m m'" and "\<And>y. y \<in> set xs \<Longrightarrow> sized y \<and> extent y \<inter> A = {}"
  shows "seg m' p xs q"
proof (rule seg_agree [OF assms(1)])
  fix y assume "y \<in> set xs"
  with assms(3) have "sized y" "extent y \<inter> A = {}" by blast+
  with header_extent [of y] have "header (fst y) \<subseteq> - A" by blast
  with assms(2) show "room (fst y) \<and> agree (header (fst y)) m m'"
    using sized_room [OF \<open>sized y\<close>] by (blast intro: agree_mono)
qed

lemma ends_by_headers:
  assumes "ends_by x y \<or> ends_by y x" and "sized x" and "sized y"
  shows "extent x \<inter> header (fst y) = {}"
  using assms ends_by_disjoint [of x y] ends_by_disjoint [of y x] header_extent [of y] by blast

lemma seg_link:
  assumes "seg m p pre cur" and "seg m cur post 0" and "block_size m b = of_nat n" "block_magic m b = MAGIC_FREE" and "b \<noteq> 0"
    and ord: "sorted_wrt ends_by (pre @ (b, n) # post)" and sz: "\<forall>y \<in> set (pre @ (b, n) # post). sized y"
    and "free_list s = p" and "bytes s = m"
  defines "s' \<equiv> link_free (last_addr 0 pre) b (s\<lparr>bytes := set_next b cur m\<rparr>)"
  shows "seg (bytes s') (free_list s') (pre @ (b, n) # post) 0"
    and "agree (- (\<Union>y \<in> set (pre @ (b, n) # post). header (fst y))) m (bytes s')"
    and "s' = s\<lparr>bytes := bytes s', free_list := free_list s'\<rparr>"
proof -
  let ?m = "set_next b cur m"
  have rb: "room b" using sz sized_room by auto
  have ord': "ends_by y (b, n)" if "y \<in> set pre" for y using ord that by (auto simp: sorted_wrt_append)
  have ord'': "ends_by (b, n) y" if "y \<in> set post" for y using ord that by (auto simp: sorted_wrt_append)
  have pre: "seg ?m p pre cur"
    using ord' sz ends_by_headers [of _ "(b, n)"] by (intro seg_frame [OF assms(1) agree_set(3) [OF rb]]) auto
  have post: "seg ?m cur post 0"
    using ord'' sz ends_by_headers [of _ "(b, n)"] by (intro seg_frame [OF assms(2) agree_set(3) [OF rb]]) auto
  have r: "seg (bytes s') (free_list s') pre b" "agree (- (\<Union>y \<in> set pre. header (fst y))) ?m (bytes s')"
    "s' = s\<lparr>bytes := bytes s', free_list := free_list s'\<rparr>"
    using seg_relink [of "s\<lparr>bytes := ?m\<rparr>" pre cur b] pre ord sz assms(8,9) by (simp_all add: s'_def sorted_wrt_append)
  show "s' = s\<lparr>bytes := bytes s', free_list := free_list s'\<rparr>" by (rule r(3))
  have "seg ?m b [(b, n)] cur" using assms(3-5) rb by (simp add: free_node_def)
  then have "seg (bytes s') b [(b, n)] cur"
    using ord' sz ends_by_headers by (intro seg_frame [OF _ r(2)]) fastforce+
  moreover have "seg (bytes s') cur post 0"
    using ord sz ends_by_headers by (intro seg_frame [OF post r(2)]) (fastforce simp: sorted_wrt_append)
  ultimately have "seg (bytes s') b ([(b, n)] @ post) 0" unfolding seg_append by blast
  then show "seg (bytes s') (free_list s') (pre @ (b, n) # post) 0" using r(1) by (auto simp: seg_append)
  show "agree (- (\<Union>y \<in> set (pre @ (b, n) # post). header (fst y))) m (bytes s')"
    by (rule agree_trans [OF agree_mono [OF agree_set(3) [OF rb]] agree_mono [OF r(2)]]) auto
qed

lemma join_head: "\<exists>k ys. join x post = (fst x, k) # ys"
  by (cases x; cases post) auto

lemma insert_and_coalesce_seg:
  assumes "seg (bytes s) (free_list s) xs 0" and "sorted_wrt gap xs"
    and disj: "\<And>y. y \<in> set xs \<Longrightarrow> sized y \<and> extent y \<inter> extent (b, n) = {}"
    and "sized (b, n)" and "b \<noteq> 0" and "block_size (bytes s) b = of_nat n"
  shows "\<exists>m p. insert_and_coalesce b s = Some (s\<lparr>bytes := m, free_list := p\<rparr>) \<and> seg m p (ins_block (b, n) xs) 0 \<and>
    agree (- (\<Union>y \<in> insert (b, n) (set xs). header (fst y))) (bytes s) m \<and> block_magic m b = MAGIC_FREE"
proof -
  define m0 where "m0 = set_magic b MAGIC_FREE (bytes s)"
  define pre where "pre = takeWhile (\<lambda>y. fst y < b) xs"
  define post where "post = dropWhile (\<lambda>y. fst y < b) xs"
  have xs: "xs = pre @ post" by (simp add: pre_def post_def)
  have ord: "sorted_wrt ends_by (pre @ (b, n) # post)"
    using split_free [OF assms(2) disj assms(4)] by (simp add: pre_def post_def)
  have sz: "\<forall>y \<in> set (pre @ (b, n) # post). sized y" using disj assms(4) xs by auto
  have rb: "room b" using sized_room [OF assms(4)] by simp
  have ag0: "agree (- header b) (bytes s) m0" unfolding m0_def by (rule agree_set(2) [OF rb])
  have ag0': "agree (- (\<Union>y \<in> insert (b, n) (set xs). header (fst y))) (bytes s) m0"
    by (rule agree_mono [OF ag0]) auto
  have seg0: "seg m0 (free_list s) xs 0"
  proof (rule seg_agree [OF assms(1)])
    fix y assume "y \<in> set xs"
    then have "apart (fst y) b" "room (fst y)" using disj disjoint_apart [of y "(b, n)"] assms(4) sized_room by auto
    then show "room (fst y) \<and> agree (header (fst y)) (bytes s) m0" by (auto intro: agree_mono [OF ag0] simp: apart_def)
  qed
  show ?thesis
  proof (cases "free_list s = 0")
    case True
    then have "xs = []" using assms(1) by (cases xs) auto
    then show ?thesis using True rb assms(5,6) ag0' agree_trans [OF ag0 agree_set(3) [OF rb]]
      by (intro exI [of _ "set_next b 0 m0"] exI [of _ b])
        (simp add: insert_and_coalesce_def m0_def ins_block_def free_node_def)
  next
    case False
    obtain cur where walk: "insert_walk b 0 (free_list s) m0 = Some (last_addr 0 pre, cur)"
      "seg m0 (free_list s) pre cur" "seg m0 cur post 0"
      using insert_walk_seg [OF seg0, of b 0] by (auto simp: pre_def post_def)
    define s1 where "s1 = link_free (last_addr 0 pre) b (s\<lparr>bytes := set_next b cur m0\<rparr>)"
    have run: "insert_and_coalesce b s = Some (s1\<lparr>bytes := coalesce_prev (last_addr 0 pre) b (coalesce_next b (bytes s1))\<rparr>)"
      using False walk(1) by (simp add: insert_and_coalesce_def m0_def [symmetric] s1_def Let_def)
    have b0: "block_size m0 b = of_nat n" "block_magic m0 b = MAGIC_FREE" using rb assms(6) by (simp_all add: m0_def)
    have s1: "seg (bytes s1) (free_list s1) (pre @ (b, n) # post) 0"
      "agree (- (\<Union>y \<in> insert (b, n) (set xs). header (fst y))) m0 (bytes s1)" "s1 = s\<lparr>bytes := bytes s1, free_list := free_list s1\<rparr>"
      using seg_link [OF walk(2,3) b0 assms(5) ord sz, of "s\<lparr>bytes := m0\<rparr>"] by (simp_all add: s1_def xs Un_commute Un_left_commute)
    define m2 where "m2 = coalesce_next b (bytes s1)"
    have m2: "seg m2 (free_list s1) (pre @ join (b, n) post) 0" "agree (- header b) (bytes s1) m2"
      using coalesce_next_seg [OF s1(1) ord sz] by (simp_all add: m2_def)
    have "\<exists>m. coalesce_prev (last_addr 0 pre) b m2 = m \<and> seg m (free_list s1) (ins_block (b, n) xs) 0 \<and>
        agree (- (\<Union>y \<in> set pre. header (fst y))) m2 m"
    proof (cases pre rule: rev_cases)
      case Nil
      then show ?thesis using m2(1) by (simp add: coalesce_prev_def ins_block_def pre_def [symmetric] post_def [symmetric])
    next
      case (snoc pre0 c)
      obtain k ys where hd: "join (b, n) post = (b, k) # ys" using join_head [of "(b, n)" post] by auto
      have seg2: "seg m2 (free_list s1) (pre0 @ c # join (b, n) post) 0" using m2(1) snoc by simp
      then have "block_next m2 (fst c) = b" "fst c \<noteq> 0" unfolding hd by (auto simp: seg_append)
      then have "coalesce_prev (last_addr 0 pre) b m2 = coalesce_next (fst c) m2"
        using snoc assms(5) by (simp add: coalesce_prev_next)
      moreover have "ins_block (b, n) xs = pre0 @ join c (join (b, n) post)"
        using snoc by (simp add: ins_block_def Let_def pre_def [symmetric] post_def [symmetric])
      moreover have "sorted_wrt ends_by (pre0 @ c # join (b, n) post)" "\<forall>y \<in> set (pre0 @ c # join (b, n) post). sized y"
        using join_ends_by [OF ord sz] snoc sz by auto
      ultimately show ?thesis using coalesce_next_seg [OF seg2] snoc by (auto elim: agree_mono)
    qed
    then obtain m3 where m3: "coalesce_prev (last_addr 0 pre) b m2 = m3" "seg m3 (free_list s1) (ins_block (b, n) xs) 0"
      "agree (- (\<Union>y \<in> set pre. header (fst y))) m2 m3" by blast
    have "agree (- (\<Union>y \<in> insert (b, n) (set xs). header (fst y))) (bytes s) m3"
      by (rule agree_trans [OF ag0' agree_trans [OF s1(2) agree_trans [OF agree_mono [OF m2(2)] agree_mono [OF m3(3)]]]]) (auto simp: xs)
    moreover have "insert_and_coalesce b s = Some (s\<lparr>bytes := m3, free_list := free_list s1\<rparr>)"
      using run m3(1) s1(3) unfolding m2_def [symmetric] by (metis kheap.surjective kheap.update_convs(1,2))
    moreover have "block_magic m3 b = MAGIC_FREE"
    proof -
      obtain k ys where "join (b, n) post = (b, k) # ys" using join_head [of "(b, n)" post] by auto
      then have "block_magic m2 b = MAGIC_FREE" using m2(1) by (auto simp: seg_append free_node_def)
      moreover have "agree (header b) m2 m3"
      proof (rule agree_mono [OF m3(3)])
        have "header (fst y) \<inter> header b = {}" if "y \<in> set pre" for y
          using that ord sz ends_by_apart [of y "(b, n)"] by (auto simp: sorted_wrt_append apart_def)
        then show "header b \<subseteq> - (\<Union>y \<in> set pre. header (fst y))" by blast
      qed
      ultimately show ?thesis using header_agree(2) [OF rb] by simp
    qed
    ultimately show ?thesis using m3(2) by blast
  qed
qed

section \<open>The heap invariant\<close>

definition live_block :: "ram \<Rightarrow> block \<Rightarrow> bool" where
  "live_block m x \<longleftrightarrow> block_size m (fst x) = of_nat (snd x) \<and> block_magic m (fst x) = MAGIC_ALLOC \<and>
     load64 m (fst x + of_nat (snd x) - 8) = KMALLOC_CANARY"

text \<open>The bytes between the header and the canary belong to the caller of \<^verbatim>\<open>Alloc\<close>.\<close>

definition user_area :: "block \<Rightarrow> nat set" where
  "user_area x = {unat (fst x) + 24 ..< unat (fst x) + snd x - 8}"

definition heap_ok :: "kheap \<Rightarrow> block list \<Rightarrow> block set \<Rightarrow> bool" where
  "heap_ok s fs L \<longleftrightarrow> seg (bytes s) (free_list s) fs 0 \<and> sorted_wrt gap fs \<and>
     (\<forall>x \<in> set fs \<union> L. good_block (heap_low s) (heap_high s) x) \<and> (\<forall>x \<in> L. live_block (bytes s) x) \<and>
     (\<forall>x \<in> L. \<forall>y \<in> L. x \<noteq> y \<longrightarrow> extent x \<inter> extent y = {}) \<and> (\<forall>x \<in> set fs. \<forall>y \<in> L. extent x \<inter> extent y = {}) \<and>
     (set fs \<union> L \<noteq> {} \<longrightarrow> heap_low s \<noteq> 0)"

definition heap_bytes :: "block list \<Rightarrow> block set \<Rightarrow> nat set" where
  "heap_bytes fs L = (\<Union>x \<in> set fs \<union> L. extent x)"

text \<open>The heap's pages are not for the virtual allocator to hand out again.\<close>

definition backed :: "u64 \<Rightarrow> mm_state \<Rightarrow> nat set \<Rightarrow> bool" where
  "backed pml4 mm A \<longleftrightarrow> wf_paging mm pml4 \<and> wf_virt (pool mm) \<and> (\<forall>p \<in> free_pages (pool mm). p + 1 < 2 ^ 52) \<and>
     (\<forall>a \<in> A. a div 4096 \<notin> free_pages (pool mm))"

definition heap_inv :: "u64 \<Rightarrow> kheap \<Rightarrow> block list \<Rightarrow> block set \<Rightarrow> bool" where
  "heap_inv pml4 s fs L \<longleftrightarrow> heap_ok s fs L \<and> backed pml4 (heap_mm s) (heap_bytes fs L)"

lemma backed_irq [simp]: "backed pml4 (mm\<lparr>interrupts := b\<rparr>) A \<longleftrightarrow> backed pml4 mm A"
  by (simp add: backed_def wf_paging_interrupts)

lemma heap_ok_mm [simp]: "heap_ok (s\<lparr>heap_mm := mm\<rparr>) fs L \<longleftrightarrow> heap_ok s fs L"
  by (simp add: heap_ok_def)

lemma live_block_frame:
  assumes "live_block m x" and "sized x" and "agree (extent x - user_area x) m m'"
  shows "live_block m' x"
proof -
  have n: "32 \<le> snd x" "unat (fst x) + snd x < 2 ^ 64" using assms(2) by (simp_all add: sized_def)
  have c: "fst x + of_nat (snd x) - 8 = fst x + of_nat (snd x - 8)" using n(1) by simp
  have u: "unat (fst x + of_nat (snd x - 8)) = unat (fst x) + (snd x - 8)"
    using n by (intro unat_offset [of _ "snd x"]) auto
  have "agree (header (fst x)) m m'" by (rule agree_mono [OF assms(3)]) (use n in \<open>auto simp: extent_def user_area_def\<close>)
  moreover have "load64 m' (fst x + of_nat (snd x - 8)) = load64 m (fst x + of_nat (snd x - 8))"
    by (rule load64_agree [OF agree_mono [OF assms(3)]]) (use n u in \<open>auto simp: extent_def user_area_def\<close>)
  ultimately show ?thesis using assms(1) header_agree [OF sized_room [OF assms(2)]] unfolding live_block_def c by simp
qed

lemma aligned8_mask: "aligned 8 b \<longleftrightarrow> b AND 7 = 0"
proof -
  have "unat (b AND 7) = unat b mod 8"
    using unat_and_mask [of b 3] by (simp add: mask_eq_exp_minus_1)
  then show ?thesis by (simp add: aligned_def dvd_eq_mod_eq_0) (metis unat_eq_0)
qed

section \<open>The search\<close>

lemma scan_seg:
  assumes "seg (bytes s) cur xs 0" and "\<forall>x \<in> set xs. good_block (heap_low s) (heap_high s) x" and "heap_low s \<noteq> 0 \<or> xs = []"
  shows "scan bounds_set tot prev cur s = Some (case dropWhile (\<lambda>x. snd x < unat tot) xs of
      [] \<Rightarrow> NoFit | x # _ \<Rightarrow> Fit (last_addr prev (takeWhile (\<lambda>x. snd x < unat tot) xs)) (fst x))"
  using assms
proof (induction xs arbitrary: prev cur)
  case Nil
  then show ?case by (simp add: scan.simps [of bounds_set tot prev])
next
  case (Cons x xs)
  then have x: "cur = fst x" "fst x \<noteq> 0" "free_node (bytes s) x" "seg (bytes s) (block_next (bytes s) (fst x)) xs 0"
    "good_block (heap_low s) (heap_high s) x" by auto
  have n: "unat (block_size (bytes s) (fst x)) = snd x"
    using x(3) good_sized [OF x(5)] by (simp add: free_node_def sized_def unat_of_nat take_bit_nat_eq_self)
  have b: "heap_low s \<noteq> 0" "heap_high s \<noteq> 0" "\<not> fst x < heap_low s" "\<not> heap_high s \<le> fst x" "fst x AND 7 = 0"
    using x(5) Cons.prems(3) by (auto simp: good_block_def aligned8_mask word_le_nat_alt word_less_nat_alt)
  have step: "scan bounds_set tot prev cur s = (if unat tot \<le> snd x then Some (Fit prev cur)
      else scan bounds_set tot cur (block_next (bytes s) cur) s)"
    using b x(1-3) n by (subst scan.simps) (simp add: free_node_def word_le_nat_alt)
  show ?case
  proof (cases "unat tot \<le> snd x")
    case True
    then show ?thesis using step x(1) by simp
  next
    case False
    then show ?thesis using step x(1) Cons.IH [OF x(4), of "fst x"] Cons.prems b(1)
      by (cases "dropWhile (\<lambda>x. snd x < unat tot) xs") (simp_all del: dropWhile_eq_Nil_conv)
  qed
qed

section \<open>Taking a block\<close>

lemma write_canary_spec:
  assumes "sized (c, t)" and "block_size m c = of_nat t"
  shows "agree (- {unat c + t - 8 ..< unat c + t}) m (write_canary c m)"
    and "load64 (write_canary c m) (c + of_nat t - 8) = KMALLOC_CANARY"
proof -
  have n: "32 \<le> t" "unat c + t < 2 ^ 64" using assms(1) by (simp_all add: sized_def)
  have "unat (of_nat t :: u64) = t" using n(2) by (simp add: unat_of_nat take_bit_nat_eq_self)
  then have "unat (of_nat t - 24 :: u64) = t - 24" using n by (simp add: unat_sub_if_size)
  then have big: "8 \<le> (of_nat t - 24 :: u64)" using n by (simp add: word_le_nat_alt)
  have addr: "canary_addr m c = c + of_nat t - 8" using assms(2) by (simp add: canary_addr_def)
  have c: "c + of_nat t - 8 = c + of_nat (t - 8)" using n(1) by simp
  have u: "unat (c + of_nat t - 8) = unat c + t - 8"
    unfolding c using n by (subst unat_offset [of _ t]) auto
  have w: "write_canary c m = store64 m (c + of_nat t - 8) KMALLOC_CANARY"
    using big addr assms(2) by (simp add: write_canary_def)
  show "load64 (write_canary c m) (c + of_nat t - 8) = KMALLOC_CANARY" by (simp add: w)
  have "agree (- {unat (c + of_nat t - 8) ..< unat (c + of_nat t - 8) + 8}) m (write_canary c m)"
    unfolding w using u n by (intro agree_store64) simp
  then show "agree (- {unat c + t - 8 ..< unat c + t}) m (write_canary c m)" using u n(1) by simp
qed

text \<open>Marking a header as allocated and writing the canary makes a live block.\<close>

lemma mark_live:
  assumes "sized (c, t)" and "block_size m c = of_nat t"
  defines "m' \<equiv> write_canary c (set_next c 0 (set_magic c MAGIC_ALLOC m))"
  shows "live_block m' (c, t)" and "agree (- extent (c, t)) m m'"
proof -
  let ?m = "set_next c 0 (set_magic c MAGIC_ALLOC m)"
  have r: "room c" using sized_room [OF assms(1)] by simp
  have sz: "block_size ?m c = of_nat t" using r assms(2) by simp
  note w = write_canary_spec [OF assms(1) sz]
  have hd: "agree (header c) ?m m'"
    unfolding m'_def by (rule agree_mono [OF w(1)]) (use assms(1) in \<open>auto simp: sized_def\<close>)
  show "live_block m' (c, t)"
    using w(2) header_agree [OF r hd] sz r by (simp add: live_block_def m'_def)
  have "agree (- extent (c, t)) m ?m"
    by (rule agree_mono [OF agree_trans [OF agree_set(2) [OF r] agree_set(3) [OF r]]]) (use assms(1) in \<open>auto simp: sized_def extent_def\<close>)
  moreover have "agree (- extent (c, t)) ?m m'"
    unfolding m'_def by (rule agree_mono [OF w(1)]) (use assms(1) in \<open>auto simp: sized_def extent_def\<close>)
  ultimately show "agree (- extent (c, t)) m m'" by (rule agree_trans)
qed

text \<open>The free list after \<open>(c, n)\<close> was taken for a request of \<open>t\<close> bytes in all: the rest of the block when it
  can hold a header and a word, nothing otherwise.\<close>

definition rest_of :: "u64 \<Rightarrow> nat \<Rightarrow> nat \<Rightarrow> block list" where
  "rest_of c n t = (if t + 32 \<le> n then [(c + of_nat t, n - t)] else [])"

definition taken :: "nat \<Rightarrow> nat \<Rightarrow> nat" where
  "taken n t = (if t + 32 \<le> n then t else n)"

lemma around_block:
  assumes "sorted_wrt ends_by (pre @ x # post)" and "\<forall>y \<in> set (pre @ x # post). sized y"
  shows "(\<Union>y \<in> set pre. header (fst y)) \<subseteq> (\<Union>y \<in> set pre. extent y)"
    and "\<And>z. z \<in> set post \<or> z = x \<Longrightarrow> sized z \<and> extent z \<inter> (\<Union>y \<in> set pre. extent y) = {}"
    and "\<And>y. y \<in> set pre \<or> y \<in> set post \<Longrightarrow> sized y \<and> extent y \<inter> extent x = {}"
proof -
  show "(\<Union>y \<in> set pre. header (fst y)) \<subseteq> (\<Union>y \<in> set pre. extent y)" using header_extent assms(2) by fastforce
  show "sized z \<and> extent z \<inter> (\<Union>y \<in> set pre. extent y) = {}" if "z \<in> set post \<or> z = x" for z
  proof -
    have "ends_by y z" if "y \<in> set pre" for y using that \<open>z \<in> set post \<or> z = x\<close> assms(1) by (auto simp: sorted_wrt_append)
    then show ?thesis using ends_by_disjoint assms(2) that by (simp only: set_append list.set) blast
  qed
  show "sized y \<and> extent y \<inter> extent x = {}" if "y \<in> set pre \<or> y \<in> set post" for y
    using that assms ends_by_disjoint [of y x] ends_by_disjoint [of x y] by (auto simp: sorted_wrt_append)
qed

text \<open>The branch that uses the whole block.\<close>

lemma take_whole_seg:
  assumes "seg (bytes s) (free_list s) (pre @ (c, n) # post) 0" and ord: "sorted_wrt ends_by (pre @ (c, n) # post)"
    and sz: "\<forall>y \<in> set (pre @ (c, n) # post). sized y"
  defines "s1 \<equiv> link_free (last_addr 0 pre) (block_next (bytes s) c) s"
  defines "m \<equiv> write_canary c (set_next c 0 (set_magic c MAGIC_ALLOC (bytes s1)))"
  shows "seg m (free_list s1) (pre @ post) 0" and "live_block m (c, n)"
    and "agree (- (\<Union>y \<in> set (pre @ [(c, n)]). extent y)) (bytes s) m"
proof -
  let ?nx = "block_next (bytes s) c"
  have sgs: "seg (bytes s) (free_list s) pre c" "free_node (bytes s) (c, n)" "seg (bytes s) ?nx post 0"
    using assms(1) by (auto simp: seg_append)
  note A = around_block [OF ord sz]
  have szc: "sized (c, n)" "room c" using sz sized_room [of "(c, n)"] by auto
  have "sorted_wrt ends_by pre" "\<forall>y \<in> set pre. sized y" using ord sz by (auto simp: sorted_wrt_append)
  note r = seg_relink [OF sgs(1) this, of ?nx, folded s1_def]
  have ag1: "agree (- (\<Union>y \<in> set pre. extent y)) (bytes s) (bytes s1)" by (rule agree_mono [OF r(2)]) (use A(1) in blast)
  have "agree (header c) (bytes s) (bytes s1)"
    by (rule agree_mono [OF ag1]) (use A(2) [of "(c, n)"] header_extent [OF szc(1)] in \<open>simp only: fst_conv, blast\<close>)
  then have "block_size (bytes s1) c = of_nat n" using header_agree [OF szc(2)] sgs(2) by (simp add: free_node_def)
  note live = mark_live [OF szc(1) this, folded m_def]
  have "seg (bytes s1) ?nx post 0" by (rule seg_frame [OF sgs(3) ag1]) (use A(2) in blast)
  then have "seg m ?nx post 0" by (rule seg_frame [OF _ live(2)]) (use A(3) in blast)
  moreover have "seg m (free_list s1) pre ?nx" by (rule seg_frame [OF r(1) live(2)]) (use A(3) in blast)
  ultimately show "seg m (free_list s1) (pre @ post) 0" unfolding seg_append by blast
  show "live_block m (c, n)" by (rule live(1))
  show "agree (- (\<Union>y \<in> set (pre @ [(c, n)]). extent y)) (bytes s) m"
    by (rule agree_trans [OF agree_mono [OF ag1] agree_mono [OF live(2)]]) auto
qed

text \<open>The branch that splits the block.\<close>

lemma take_split_seg:
  assumes "seg (bytes s) (free_list s) (pre @ (c, n) # post) 0" and ord: "sorted_wrt ends_by (pre @ (c, n) # post)"
    and sz: "\<forall>y \<in> set (pre @ (c, n) # post). sized y" and t: "32 \<le> t" "t + 32 \<le> n"
  defines "nb \<equiv> c + of_nat t"
  defines "m1 \<equiv> set_next nb (block_next (bytes s) c) (set_magic nb MAGIC_FREE (set_size nb (of_nat n - of_nat t) (bytes s)))"
  defines "m3 \<equiv> write_canary c (set_next c 0 (set_magic c MAGIC_ALLOC (set_size c (of_nat t) m1)))"
  defines "s' \<equiv> link_free (last_addr 0 pre) nb (s\<lparr>bytes := m3\<rparr>)"
  shows "seg (bytes s') (free_list s') (pre @ (nb, n - t) # post) 0" and "live_block (bytes s') (c, t)"
    and "agree (- (\<Union>y \<in> set (pre @ [(c, n)]). extent y)) (bytes s) (bytes s')" and "apart nb c"
proof -
  let ?nx = "block_next (bytes s) c"
  have sgs: "seg (bytes s) (free_list s) pre c" "c \<noteq> 0" "seg (bytes s) ?nx post 0" using assms(1) by (auto simp: seg_append)
  note A = around_block [OF ord sz]
  have szc: "room c" "unat c + n < 2 ^ 64" using sz sized_room [of "(c, n)"] by (auto simp: sized_def)
  have unb: "unat nb = unat c + t" unfolding nb_def using szc(2) t by (intro unat_offset [of _ n]) auto
  have szn: "sized (nb, n - t)" "sized (c, t)" using unb t szc(2) by (simp_all add: sized_def)
  have sub: "extent (nb, n - t) \<subseteq> extent (c, n)" "extent (c, t) \<subseteq> extent (c, n)" "extent (c, t) \<inter> extent (nb, n - t) = {}"
    using unb t by (auto simp: extent_def)
  have hd: "header nb \<subseteq> extent (nb, n - t)" "header c \<subseteq> extent (c, t)" using header_extent [OF szn(1)] header_extent [OF szn(2)] by auto
  show "apart nb c" using disjoint_apart [OF szn(2,1) sub(3)] apart_commute by simp
  have rn: "room nb" using sized_room [OF szn(1)] by simp
  have ag1: "agree (- header nb) (bytes s) m1"
    unfolding m1_def by (rule agree_trans [OF agree_set(1) [OF rn] agree_trans [OF agree_set(2) [OF rn] agree_set(3) [OF rn]]])
  have m2: "block_size (set_size c (of_nat t) m1) c = of_nat t" using szc(1) by simp
  note live = mark_live [OF szn(2) m2, folded m3_def]
  have ag2: "agree (- extent (c, t)) m1 m3"
    by (rule agree_trans [OF agree_mono [OF agree_set(1) [OF szc(1)]] live(2)]) (use hd in auto)
  have ag3: "agree (- extent (c, n)) (bytes s) m3"
    by (rule agree_trans [OF agree_mono [OF ag1] agree_mono [OF ag2]]) (use sub hd in auto)
  have "free_node m1 (nb, n - t)" "block_next m1 nb = ?nx" using rn t by (simp_all add: m1_def free_node_def of_nat_diff)
  moreover have "agree (header nb) m1 m3" by (rule agree_mono [OF ag2]) (use sub(3) hd(1) in blast)
  ultimately have nbseg: "seg m3 nb [(nb, n - t)] ?nx"
    using header_agree [OF rn, of m1 m3] unb sgs(2) by (auto simp: free_node_def unat_eq_0 [symmetric])
  have "seg m3 (free_list s) pre c" by (rule seg_frame [OF sgs(1) ag3]) (use A(3) in blast)
  then have r: "seg (bytes s') (free_list s') pre nb" "agree (- (\<Union>y \<in> set pre. header (fst y))) m3 (bytes s')"
    using seg_relink [of "s\<lparr>bytes := m3\<rparr>" pre c nb] ord sz unfolding s'_def by (simp_all add: sorted_wrt_append)
  have ag4: "agree (- (\<Union>y \<in> set pre. extent y)) m3 (bytes s')" by (rule agree_mono [OF r(2)]) (use A(1) in blast)
  have "seg (bytes s') nb [(nb, n - t)] ?nx" by (rule seg_frame [OF nbseg ag4]) (use A(2) [of "(c, n)"] sub szn in auto)
  moreover have "seg m3 ?nx post 0" by (rule seg_frame [OF sgs(3) ag3]) (use A(3) in blast)
  then have "seg (bytes s') ?nx post 0" by (rule seg_frame [OF _ ag4]) (use A(2) in blast)
  ultimately have "seg (bytes s') (free_list s') (pre @ [(nb, n - t)] @ post) 0" using r(1) unfolding seg_append by blast
  then show "seg (bytes s') (free_list s') (pre @ (nb, n - t) # post) 0" by simp
  show "live_block (bytes s') (c, t)"
    by (rule live_block_frame [OF live(1) szn(2) agree_mono [OF ag4]]) (use A(2) [of "(c, n)"] sub in blast)
  show "agree (- (\<Union>y \<in> set (pre @ [(c, n)]). extent y)) (bytes s) (bytes s')"
    by (rule agree_trans [OF agree_mono [OF ag3] agree_mono [OF ag4]]) auto
qed

lemma take_block_seg:
  assumes "seg (bytes s) (free_list s) (pre @ (c, n) # post) 0" and ord: "sorted_wrt gap (pre @ (c, n) # post)"
    and sz: "\<forall>y \<in> set (pre @ (c, n) # post). sized y" and t: "32 \<le> t" "t \<le> n" "t + 32 < 2 ^ 64"
  defines "s' \<equiv> take_block (of_nat t) (last_addr 0 pre) c s"
  shows "seg (bytes s') (free_list s') (pre @ rest_of c n t @ post) 0"
    and "live_block (bytes s') (c, taken n t)"
    and "agree (- (\<Union>y \<in> set (pre @ [(c, n)]). extent y)) (bytes s) (bytes s')"
    and "s' = s\<lparr>bytes := bytes s', free_list := free_list s'\<rparr>"
proof -
  have cn: "block_size (bytes s) c = of_nat n" "unat c + n < 2 ^ 64" "room c"
    using assms(1) sz sized_room [of "(c, n)"] by (auto simp: seg_append free_node_def sized_def)
  have words: "unat (of_nat n :: u64) = n" "unat (of_nat t + 24 + 8 :: u64) = t + 32"
    using cn(2) t(3) by (simp_all add: unat_of_nat take_bit_nat_eq_self unat_word_ariths)
  note e = sorted_gap_ends_by [OF ord]
  show "s' = s\<lparr>bytes := bytes s', free_list := free_list s'\<rparr>"
    by (simp add: s'_def take_block_def link_free_def Let_def)
  show "seg (bytes s') (free_list s') (pre @ rest_of c n t @ post) 0" "live_block (bytes s') (c, taken n t)"
    "agree (- (\<Union>y \<in> set (pre @ [(c, n)]). extent y)) (bytes s) (bytes s')"
  proof (atomize (full), cases "t + 32 \<le> n")
    case False
    then show "seg (bytes s') (free_list s') (pre @ rest_of c n t @ post) 0 \<and> live_block (bytes s') (c, taken n t) \<and>
        agree (- (\<Union>y \<in> set (pre @ [(c, n)]). extent y)) (bytes s) (bytes s')"
      using take_whole_seg [OF assms(1) e sz] cn(1) words
      by (simp add: s'_def take_block_def rest_of_def taken_def Let_def word_le_nat_alt)
  next
    case True
    note S = take_split_seg [OF assms(1) e sz t(1) True]
    show "seg (bytes s') (free_list s') (pre @ rest_of c n t @ post) 0 \<and> live_block (bytes s') (c, taken n t) \<and>
        agree (- (\<Union>y \<in> set (pre @ [(c, n)]). extent y)) (bytes s) (bytes s')"
      using S cn(1) words True
      by (simp add: s'_def take_block_def rest_of_def taken_def Let_def word_le_nat_alt)
  qed
qed

lemma rest_extent:
  assumes "t \<le> n" and "unat c + n < 2 ^ 64"
  shows "(\<Union>y \<in> set (rest_of c n t). extent y) \<union> extent (c, taken n t) = extent (c, n)"
    and "(\<Union>y \<in> set (rest_of c n t). extent y) \<inter> extent (c, taken n t) = {}"
proof -
  have "unat (c + of_nat t) = unat c + t" if "t + 32 \<le> n" using that assms by (intro unat_offset [of _ n]) auto
  then show "(\<Union>y \<in> set (rest_of c n t). extent y) \<union> extent (c, taken n t) = extent (c, n)"
    "(\<Union>y \<in> set (rest_of c n t). extent y) \<inter> extent (c, taken n t) = {}"
    by (auto simp: rest_of_def taken_def extent_def)
qed

lemma rest_good:
  assumes "good_block lo hi (c, n)" and "32 \<le> t" "t \<le> n" "8 dvd t"
  shows "\<forall>y \<in> set (rest_of c n t). good_block lo hi y" and "good_block lo hi (c, taken n t)"
    and "sorted_wrt gap (pre @ (c, n) # post) \<Longrightarrow> sorted_wrt gap (pre @ rest_of c n t @ post)"
proof -
  have u: "unat (c + of_nat t) = unat c + t" if "t + 32 \<le> n"
    using that good_sized [OF assms(1)] by (intro unat_offset [of _ n]) (auto simp: sized_def)
  have "c + of_nat t \<noteq> 0" if "t + 32 \<le> n" using u [OF that] assms(2) by (metis add_is_0 unat_0 not_numeral_le_zero)
  then show "\<forall>y \<in> set (rest_of c n t). good_block lo hi y" "good_block lo hi (c, taken n t)"
    using assms u by (auto simp: good_block_def rest_of_def taken_def aligned_def word_le_nat_alt dvd_diff_nat)
  show "sorted_wrt gap (pre @ (c, n) # post) \<Longrightarrow> sorted_wrt gap (pre @ rest_of c n t @ post)"
    using u assms(3) by (auto simp: rest_of_def sorted_wrt_append gap_def)
qed

lemma take_heap_ok:
  assumes ok: "heap_ok s (pre @ (c, n) # post) L" and t: "32 \<le> t" "t \<le> n" "8 dvd t" "t + 32 < 2 ^ 64"
  defines "s' \<equiv> take_block (of_nat t) (last_addr 0 pre) c s"
  shows "heap_ok s' (pre @ rest_of c n t @ post) (insert (c, taken n t) L)"
    and "\<forall>x \<in> L. agree (extent x) (bytes s) (bytes s') \<and> extent x \<inter> extent (c, taken n t) = {}"
    and "heap_bytes (pre @ rest_of c n t @ post) (insert (c, taken n t) L) = heap_bytes (pre @ (c, n) # post) L"
    and "s' = s\<lparr>bytes := bytes s', free_list := free_list s'\<rparr>"
proof -
  have h: "seg (bytes s) (free_list s) (pre @ (c, n) # post) 0" "sorted_wrt gap (pre @ (c, n) # post)"
    and good: "\<forall>x \<in> set (pre @ (c, n) # post) \<union> L. good_block (heap_low s) (heap_high s) x"
    and live: "\<forall>x \<in> L. live_block (bytes s) x" "\<forall>x \<in> L. \<forall>y \<in> L. x \<noteq> y \<longrightarrow> extent x \<inter> extent y = {}"
    and dis: "\<forall>x \<in> set (pre @ (c, n) # post). \<forall>y \<in> L. extent x \<inter> extent y = {}" and low: "heap_low s \<noteq> 0"
    using ok by (auto simp: heap_ok_def)
  have sz: "\<forall>y \<in> set (pre @ (c, n) # post). sized y" using good good_sized by blast
  have gc: "good_block (heap_low s) (heap_high s) (c, n)" "unat c + n < 2 ^ 64" using good sz by (auto simp: sized_def)
  note T = take_block_seg [OF h sz t(1,2,4), folded s'_def]
  note R = rest_extent [OF t(2) gc(2)]
  note G = rest_good [OF gc(1) t(1-3)]
  show "s' = s\<lparr>bytes := bytes s', free_list := free_list s'\<rparr>" by (rule T(4))
  then have fld: "heap_low s' = heap_low s" "heap_high s' = heap_high s" by (metis kheap.select_convs kheap.surjective kheap.update_convs(1,2))+
  have sub: "extent y \<subseteq> extent (c, n)" if "y \<in> set (rest_of c n t) \<or> y = (c, taken n t)" for y using that R(1) by blast
  have dc: "extent (c, n) \<inter> extent x = {}" if "x \<in> L" for x using dis that by auto
  have ag: "agree (extent x) (bytes s) (bytes s')" "extent x \<inter> extent (c, taken n t) = {}" if "x \<in> L" for x
  proof -
    have "\<forall>y \<in> set (pre @ [(c, n)]). extent y \<inter> extent x = {}" using dis that by simp
    then show "agree (extent x) (bytes s) (bytes s')" by (intro agree_mono [OF T(3)]) blast
    show "extent x \<inter> extent (c, taken n t) = {}" using dc [OF that] sub [of "(c, taken n t)"] by blast
  qed
  then show "\<forall>x \<in> L. agree (extent x) (bytes s) (bytes s') \<and> extent x \<inter> extent (c, taken n t) = {}" by blast
  have "live_block (bytes s') x" if "x \<in> L" for x
    by (rule live_block_frame [OF _ _ agree_mono [OF ag(1) [OF that]]]) (use live(1) good that in \<open>auto intro: good_sized\<close>)
  moreover have "\<forall>x \<in> set (pre @ rest_of c n t @ post). extent x \<inter> extent (c, taken n t) = {}"
  proof -
    have "extent x \<inter> extent (c, n) = {}" if "x \<in> set pre \<or> x \<in> set post" for x
      using that sorted_gap_ends_by [OF h(2)] ends_by_disjoint [of x "(c, n)"] ends_by_disjoint [of "(c, n)" x]
      by (auto simp: sorted_wrt_append)
    then show ?thesis using sub [of "(c, taken n t)"] R(2) by fastforce
  qed
  moreover have "\<forall>x \<in> set (pre @ rest_of c n t @ post). \<forall>y \<in> L. extent x \<inter> extent y = {}"
  proof (intro ballI)
    fix x y assume xy: "x \<in> set (pre @ rest_of c n t @ post)" "y \<in> L"
    show "extent x \<inter> extent y = {}"
    proof (cases "x \<in> set (rest_of c n t)")
      case True
      then show ?thesis using sub [of x] dc [OF xy(2)] by blast
    next
      case False
      then show ?thesis using xy dis by simp
    qed
  qed
  ultimately show "heap_ok s' (pre @ rest_of c n t @ post) (insert (c, taken n t) L)"
    using T(1,2) G(1,2) G(3) [OF h(2)] good live(2) ag(2) low unfolding heap_ok_def fld by (auto simp: Int_commute)
  show "heap_bytes (pre @ rest_of c n t @ post) (insert (c, taken n t) L) = heap_bytes (pre @ (c, n) # post) L"
    using R(1) by (auto simp: heap_bytes_def)
qed

end
