(* ===== verification/Kmalloc_Heap.thy ===== *)
theory Kmalloc_Heap
  imports Kmalloc_Safety
begin

text \<open>
  Correctness of the kernel heap's operations: \<^verbatim>\<open>insert_and_coalesce\<close> and growth keep the invariant, \<^verbatim>\<open>Alloc\<close> serves
  its caller, \<^verbatim>\<open>Free\<close> takes a live block back, and in any sequence of allocations, frees and writes into
  live blocks no byte a caller has written is lost.
\<close>

section \<open>Giving a block to the free list\<close>

lemma join_good:
  assumes "good_block lo hi x" and "\<forall>y \<in> set post. good_block lo hi y"
  shows "\<forall>y \<in> set (join x post). good_block lo hi y"
  using assms by (cases post) (auto simp: good_block_def)

lemma ins_block_good:
  assumes "good_block lo hi x" and "\<forall>y \<in> set xs. good_block lo hi y"
  shows "\<forall>y \<in> set (ins_block x xs). good_block lo hi y"
proof -
  let ?pre = "takeWhile (\<lambda>y. fst y < fst x) xs"
  have "\<forall>y \<in> set ?pre. good_block lo hi y" using assms(2) set_takeWhileD [of _ "\<lambda>y. fst y < fst x" xs] by blast
  moreover have "\<forall>y \<in> set (join x (dropWhile (\<lambda>y. fst y < fst x) xs)). good_block lo hi y"
    using assms by (intro join_good) (auto dest: set_dropWhileD)
  moreover have "\<forall>y \<in> set (butlast ?pre). good_block lo hi y" using calculation(1) in_set_butlastD by fast
  ultimately show ?thesis using join_good [of lo hi "last ?pre"] by (auto simp: ins_block_def Let_def)
qed

lemma insert_heap_ok:
  assumes ok: "heap_ok s fs L" and x: "good_block (heap_low s) (heap_high s) (b, n)" and low: "heap_low s \<noteq> 0"
    and "block_size (bytes s) b = of_nat n"
    and disf: "\<And>y. y \<in> set fs \<Longrightarrow> extent y \<inter> extent (b, n) = {}" and disl: "\<And>y. y \<in> L \<Longrightarrow> extent y \<inter> extent (b, n) = {}"
  shows "\<exists>m p. insert_and_coalesce b s = Some (s\<lparr>bytes := m, free_list := p\<rparr>) \<and>
    heap_ok (s\<lparr>bytes := m, free_list := p\<rparr>) (ins_block (b, n) fs) L \<and> (\<forall>y \<in> L. agree (extent y) (bytes s) m) \<and>
    heap_bytes (ins_block (b, n) fs) L = extent (b, n) \<union> heap_bytes fs L \<and> block_magic m b = MAGIC_FREE"
proof -
  have h: "seg (bytes s) (free_list s) fs 0" "sorted_wrt gap fs"
    and good: "\<forall>x \<in> set fs \<union> L. good_block (heap_low s) (heap_high s) x"
    and live: "\<forall>x \<in> L. live_block (bytes s) x" "\<forall>x \<in> L. \<forall>y \<in> L. x \<noteq> y \<longrightarrow> extent x \<inter> extent y = {}"
    and dis: "\<forall>x \<in> set fs. \<forall>y \<in> L. extent x \<inter> extent y = {}"
    using ok by (auto simp: heap_ok_def)
  have sz: "sized y \<and> extent y \<inter> extent (b, n) = {}" if "y \<in> set fs" for y using that disf good by (blast intro: good_sized)
  have szb: "sized (b, n)" "b \<noteq> 0" using x good_sized by (auto simp: good_block_def)
  obtain m p where mp: "insert_and_coalesce b s = Some (s\<lparr>bytes := m, free_list := p\<rparr>)" "seg m p (ins_block (b, n) fs) 0"
    "agree (- (\<Union>y \<in> insert (b, n) (set fs). header (fst y))) (bytes s) m" "block_magic m b = MAGIC_FREE"
    using insert_and_coalesce_seg [OF h sz szb assms(4)] by blast
  note I = ins_block_gap [OF h(2) sz szb(1)]
  have ag: "agree (extent y) (bytes s) m" if "y \<in> L" for y
  proof (rule agree_mono [OF mp(3)])
    have "extent y \<inter> header (fst z) = {}" if "z \<in> insert (b, n) (set fs)" for z
      using that \<open>y \<in> L\<close> dis disl [of y] header_extent [of z] sz szb(1) by fastforce
    then show "extent y \<subseteq> - (\<Union>y \<in> insert (b, n) (set fs). header (fst y))" by blast
  qed
  have "\<forall>y \<in> L. live_block m y"
  proof
    fix y assume "y \<in> L"
    then show "live_block m y"
      using live(1) good by (intro live_block_frame [OF _ _ agree_mono [OF ag]]) (auto intro: good_sized)
  qed
  moreover have "\<forall>z \<in> set (ins_block (b, n) fs). \<forall>y \<in> L. extent z \<inter> extent y = {}"
  proof (intro ballI)
    fix z y assume "z \<in> set (ins_block (b, n) fs)" "y \<in> L"
    then have "extent z \<subseteq> extent (b, n) \<union> (\<Union>y \<in> set fs. extent y)" using I(3) by blast
    then show "extent z \<inter> extent y = {}" using dis disl [OF \<open>y \<in> L\<close>] \<open>y \<in> L\<close> by blast
  qed
  ultimately have "heap_ok (s\<lparr>bytes := m, free_list := p\<rparr>) (ins_block (b, n) fs) L"
    using mp(2) I(1) ins_block_good [OF x, of fs] good live(2) low by (auto simp: heap_ok_def)
  moreover have "heap_bytes (ins_block (b, n) fs) L = extent (b, n) \<union> heap_bytes fs L"
    using I(3) by (simp add: heap_bytes_def Un_assoc)
  ultimately show ?thesis using mp(1,4) ag by blast
qed

section \<open>Growing\<close>

lemma wf_paging_frames:
  assumes "wf_paging s r" and "wf_phys fr" and "\<And>g. frame_used (frames s) g \<Longrightarrow> frame_used fr g"
  shows "wf_paging (s\<lparr>frames := fr\<rparr>) r"
  using assms by (auto simp: wf_paging_def tables_owned_def)

lemma grow_pages_spec:
  "wf_paging s pml4 \<Longrightarrow> \<exists>k s'. k \<le> n \<and> grow_pages n pml4 vbase i s = Some (i + of_nat k, s') \<and> wf_paging s' pml4 \<and> pool s' = pool s"
proof (induction n arbitrary: i s)
  case 0
  then show ?case by auto
next
  case (Suc n)
  have wf: "wf_phys (frames s)" using Suc.prems by (simp add: wf_paging_def)
  then show ?case
  proof (cases rule: alloc_frame_cases)
    case full
    then show ?thesis using Suc.prems by (intro exI [of _ 0] exI [of _ s]) simp
  next
    case (found f fr)
    have "wf_paging (s\<lparr>frames := fr\<rparr>) pml4" using wf_paging_frames [OF Suc.prems found(6)] found(7) by simp
    from MapPages_defined [OF this] obtain ok s1 where mp:
      "MapPages pml4 f (vbase + i * PAGE_SIZE) 1 (PAGE_PRESENT OR PAGE_RW) (s\<lparr>frames := fr\<rparr>) = Some (ok, s1)"
      "wf_paging s1 pml4" "pool s1 = pool (s\<lparr>frames := fr\<rparr>)" by blast
    show ?thesis
    proof (cases ok)
      case True
      from Suc.IH [OF mp(2), of "i + 1"] obtain k s' where "k \<le> n" "grow_pages n pml4 vbase (i + 1) s1 = Some (i + 1 + of_nat k, s')"
        "wf_paging s' pml4" "pool s' = pool s1" by blast
      then show ?thesis using found(1,2) mp True by (intro exI [of _ "Suc k"] exI [of _ s']) (simp add: add.assoc)
    next
      case False
      then show ?thesis using found(1,2) mp by (intro exI [of _ 0] exI [of _ s1]) simp
    qed
  qed
qed

lemma insert_and_coalesce_fields:
  assumes "insert_and_coalesce b s = Some (s\<lparr>bytes := m, free_list := p\<rparr>)" and "bytes s' = bytes s" and "free_list s' = free_list s"
  shows "insert_and_coalesce b s' = Some (s'\<lparr>bytes := m, free_list := p\<rparr>)"
proof -
  have "map_option (\<lambda>r. (bytes r, free_list r)) (insert_and_coalesce b s) = map_option (\<lambda>r. (bytes r, free_list r)) (insert_and_coalesce b s')"
    using assms(2,3) by (auto simp: insert_and_coalesce_def link_free_def Let_def option.map_comp comp_def intro!: option.map_cong)
  then obtain r where r: "insert_and_coalesce b s' = Some r" "bytes r = m" "free_list r = p"
    using assms(1) by (cases "insert_and_coalesce b s'") auto
  then have "r = s'\<lparr>bytes := bytes r, free_list := free_list r\<rparr>"
    by (auto simp: insert_and_coalesce_def link_free_def Let_def split: if_splits prod.splits)
  with r show ?thesis by simp
qed

lemma heap_ok_frame:
  assumes "heap_ok s fs L" and "agree (- A) (bytes s) (bytes s')" and "\<And>x. x \<in> set fs \<union> L \<Longrightarrow> extent x \<inter> A = {}"
    and "free_list s' = free_list s"
    and "set fs \<union> L \<noteq> {} \<Longrightarrow> heap_low s' \<noteq> 0 \<and> heap_low s' \<le> heap_low s \<and> heap_high s \<le> heap_high s'"
  shows "heap_ok s' fs L"
proof -
  have good: "\<forall>x \<in> set fs \<union> L. good_block (heap_low s) (heap_high s) x" using assms(1) by (simp add: heap_ok_def)
  have "\<forall>x \<in> set fs \<union> L. good_block (heap_low s') (heap_high s') x"
  proof
    fix x assume "x \<in> set fs \<union> L"
    then show "good_block (heap_low s') (heap_high s') x"
      using good assms(5) by (fastforce simp: good_block_def word_le_nat_alt)
  qed
  moreover have "seg (bytes s') (free_list s') fs 0"
    using assms(1,3,4) good by (intro seg_frame [OF _ assms(2)]) (auto simp: heap_ok_def intro: good_sized)
  moreover have "\<forall>x \<in> L. live_block (bytes s') x"
  proof
    fix x assume "x \<in> L"
    then show "live_block (bytes s') x" using assms(1) good assms(3) [of x]
      by (intro live_block_frame [OF _ _ agree_mono [OF assms(2)], of x]) (auto simp: heap_ok_def intro: good_sized)
  qed
  ultimately show ?thesis using assms(1,5) by (simp add: heap_ok_def)
qed

lemma page_apart:
  assumes "\<And>q. p \<le> q \<Longrightarrow> q < p + k \<Longrightarrow> q \<in> F" and "\<And>a. a \<in> A \<Longrightarrow> a div 4096 \<notin> F"
  shows "A \<inter> {p * 4096 ..< p * 4096 + k * 4096} = ({} :: nat set)"
proof -
  have "p \<le> a div 4096 \<and> a div 4096 < p + k" if "p * 4096 \<le> a" "a < p * 4096 + k * 4096" for a :: nat
    using that by (auto simp: less_eq_div_iff_mult_less_eq div_less_iff_less_mult algebra_simps)
  with assms show ?thesis unfolding disjoint_iff atLeastLessThan_iff by blast
qed

lemma backed_shrink:
  assumes "backed pml4 mm A" and "wf_paging mm' pml4" and "wf_virt (pool mm')" and "free_pages (pool mm') \<subseteq> free_pages (pool mm)"
    and "\<And>a. a \<in> B \<Longrightarrow> a div 4096 \<notin> free_pages (pool mm')"
  shows "backed pml4 mm' (A \<union> B)"
  using assms by (auto simp: backed_def)

lemma wf_paging_pool [simp]: "wf_paging (mm\<lparr>pool := p\<rparr>) pml4 \<longleftrightarrow> wf_paging mm pml4"
  by (simp add: wf_paging_def tables_owned_def)

text \<open>A fresh region of mapped pages joins the heap: its header is written, the bounds are widened and the
  block is inserted.\<close>

definition widen :: "u64 \<Rightarrow> u64 \<Rightarrow> kheap \<Rightarrow> kheap" where
  "widen vbase sz s = s\<lparr>heap_size := heap_size s + sz,
     heap_low := (if heap_low s = 0 \<or> vbase < heap_low s then vbase else heap_low s),
     heap_high := (if heap_high s = 0 \<or> heap_high s < vbase + sz then vbase + sz else heap_high s)\<rparr>"

lemma add_region:
  assumes ok: "heap_ok s fs L" and reg: "sized (vbase, n)" "vbase \<noteq> 0" "aligned 8 vbase" "8 dvd n" "unat sz = n"
    and dis: "\<And>x. x \<in> set fs \<union> L \<Longrightarrow> extent x \<inter> extent (vbase, n) = {}"
  defines "m \<equiv> set_next vbase 0 (set_magic vbase MAGIC_FREE (set_size vbase sz (bytes s)))"
  shows "\<exists>m' p. insert_and_coalesce vbase (s\<lparr>bytes := m\<rparr>) = Some (s\<lparr>bytes := m', free_list := p\<rparr>) \<and>
    heap_ok (widen vbase sz (s\<lparr>bytes := m', free_list := p\<rparr>)) (ins_block (vbase, n) fs) L \<and>
    (\<forall>x \<in> L. agree (extent x) (bytes s) m') \<and> heap_bytes (ins_block (vbase, n) fs) L = extent (vbase, n) \<union> heap_bytes fs L"
proof -
  define s1 where "s1 = widen vbase sz (s\<lparr>bytes := m\<rparr>)"
  have r: "room vbase" using sized_room [OF reg(1)] by simp
  have s1: "bytes s1 = m" "free_list s1 = free_list s" by (simp_all add: s1_def widen_def)
  have uh: "unat (vbase + sz) = unat vbase + n" using reg(1,5) by (simp add: unat_add_no_wrap sized_def)
  have agm: "agree (- header vbase) (bytes s) (bytes s1)" unfolding s1 m_def
    by (rule agree_trans [OF agree_set(1) [OF r] agree_trans [OF agree_set(2) [OF r] agree_set(3) [OF r]]])
  have hb: "header vbase \<subseteq> extent (vbase, n)" using header_extent [OF reg(1)] by simp
  have ok1: "heap_ok s1 fs L"
  proof (rule heap_ok_frame [OF ok agm])
    show "extent x \<inter> header vbase = {}" if "x \<in> set fs \<union> L" for x using dis [OF that] hb by blast
    show "heap_low s1 \<noteq> 0 \<and> heap_low s1 \<le> heap_low s \<and> heap_high s \<le> heap_high s1" if "set fs \<union> L \<noteq> {}"
      using that ok reg(2) by (auto simp: s1_def widen_def heap_ok_def)
  qed (simp add: s1)
  have gb: "good_block (heap_low s1) (heap_high s1) (vbase, n)" "heap_low s1 \<noteq> 0"
    using reg(2-4) reg(1) uh by (auto simp: good_block_def s1_def widen_def sized_def word_le_nat_alt word_less_nat_alt)
  have bs: "block_size (bytes s1) vbase = of_nat n" using r reg(5) unfolding s1 m_def by (simp add: word_unat_eq_iff [of sz] flip: reg(5))
  obtain m2 p2 where ins: "insert_and_coalesce vbase s1 = Some (s1\<lparr>bytes := m2, free_list := p2\<rparr>)"
    "heap_ok (s1\<lparr>bytes := m2, free_list := p2\<rparr>) (ins_block (vbase, n) fs) L" "\<forall>y \<in> L. agree (extent y) (bytes s1) m2"
    "heap_bytes (ins_block (vbase, n) fs) L = extent (vbase, n) \<union> heap_bytes fs L"
    using insert_heap_ok [OF ok1 gb bs] dis by blast
  have "insert_and_coalesce vbase (s\<lparr>bytes := m\<rparr>) = Some (s\<lparr>bytes := m2, free_list := p2\<rparr>)"
    using insert_and_coalesce_fields [OF ins(1), of "s\<lparr>bytes := m\<rparr>"] s1 by simp
  moreover have "s1\<lparr>bytes := m2, free_list := p2\<rparr> = widen vbase sz (s\<lparr>bytes := m2, free_list := p2\<rparr>)"
    by (simp add: s1_def widen_def)
  moreover have "agree (extent x) (bytes s) m2" if "x \<in> L" for x
    using agree_trans [OF agree_mono [OF agm]] ins(3) dis [of x] hb that by blast
  ultimately show ?thesis using ins(2,4) by (intro exI [of _ m2] exI [of _ p2]) simp
qed

text \<open>The pages of a region the virtual allocator handed out.\<close>

lemma region_pages_taken:
  assumes bk: "backed pml4 mm A" and q: "unat vbase = q * 4096" "{q ..< q + g} \<subseteq> free_pages (pool mm)"
    "free_pages (pool mm') = free_pages (pool mm) - {q ..< q + g}" "wf_virt (pool mm')" "q + g \<le> 2 ^ 52"
    and k: "k \<le> g" "0 < g" and wf: "wf_paging mm' pml4"
  shows "unat vbase + k * 4096 < 2 ^ 64" and "A \<inter> extent (vbase, k * 4096) = {}" and "backed pml4 mm' (A \<union> extent (vbase, k * 4096))"
proof -
  have "q + k < 2 ^ 52"
  proof (cases k)
    case 0 then show ?thesis using q(5) k(2) by simp
  next
    case (Suc j)
    then have "q + j \<in> free_pages (pool mm)" using q(2) k(1) by auto
    then show ?thesis using bk Suc by (auto simp: backed_def)
  qed
  then show "unat vbase + k * 4096 < 2 ^ 64" using q(1) by simp
  show "A \<inter> extent (vbase, k * 4096) = {}"
    unfolding extent_def fst_conv snd_conv q(1)
    by (rule page_apart [of _ _ "free_pages (pool mm)"]) (use q(2) k(1) bk in \<open>auto simp: backed_def\<close>)
  show "backed pml4 mm' (A \<union> extent (vbase, k * 4096))"
  proof (rule backed_shrink [OF bk wf q(4)])
    fix a assume "a \<in> extent (vbase, k * 4096)"
    then have "q \<le> a div 4096 \<and> a div 4096 < q + k"
      by (auto simp: extent_def q(1) less_eq_div_iff_mult_less_eq div_less_iff_less_mult algebra_simps)
    then show "a div 4096 \<notin> free_pages (pool mm')" using q(3) k(1) by simp
  qed (use q(3) in auto)
qed

lemma region_good:
  assumes "unat vbase = q * 4096" and "unat vbase + k * 4096 < 2 ^ 64" and "0 < k"
  shows "sized (vbase, k * 4096)" "aligned 8 vbase" "8 dvd k * (4096 :: nat)" "unat (of_nat k * PAGE_SIZE :: u64) = k * 4096"
proof -
  show "sized (vbase, k * 4096)" using assms by (simp add: sized_def)
  show "aligned 8 vbase" using assms(1) by (simp add: aligned_def)
  show "8 dvd k * (4096 :: nat)" by simp
  have "unat (of_nat k :: u64) = k" using assms(2) by (simp add: unat_of_nat take_bit_nat_eq_self)
  then show "unat (of_nat k * PAGE_SIZE :: u64) = k * 4096" using assms(2) by (simp add: unat_mult_no_wrap)
qed

lemma heap_bytes_apart: "heap_bytes fs L \<inter> B = {} \<Longrightarrow> x \<in> set fs \<union> L \<Longrightarrow> extent x \<inter> B = {}"
  by (auto simp: heap_bytes_def)

lemma grow_ok_spec:
  assumes inv: "heap_inv pml4 s fs L" and g: "0 < unat g"
  shows "\<exists>ok s' fs'. grow_ok pml4 irq g s = Some (ok, s') \<and> heap_inv pml4 s' fs' L \<and> interrupts (heap_mm s') = irq \<and>
    (\<forall>x \<in> L. agree (extent x) (bytes s) (bytes s'))"
proof -
  have ok: "heap_ok s fs L" and bk: "backed pml4 (heap_mm s) (heap_bytes fs L)" using inv by (simp_all add: heap_inv_def)
  obtain vbase p where va: "VirtualAllocPages g (pool (heap_mm s)) = (vbase, p)" by fastforce
  define mm where "mm = heap_mm s\<lparr>pool := p\<rparr>"
  have wv: "wf_virt (pool (heap_mm s))" "wf_paging mm pml4" using bk by (simp_all add: backed_def mm_def)
  have fail: ?thesis if "backed pml4 mm' (heap_bytes fs L)" "grow_ok pml4 irq g s = Some (False, set_irq irq (s\<lparr>heap_mm := mm'\<rparr>))" for mm'
    using that ok
    by (intro exI [of _ False] exI [of _ "set_irq irq (s\<lparr>heap_mm := mm'\<rparr>)"] exI [of _ fs]) (simp add: heap_inv_def)
  show ?thesis
  proof (cases "vbase = 0")
    case True
    have "wf_virt p \<and> free_pages p \<subseteq> free_pages (pool (heap_mm s))"
      using wv(1) by (cases rule: alloc_takes_free [OF wv(1) va]) auto
    then have "backed pml4 mm (heap_bytes fs L \<union> {})" using wv(2) by (intro backed_shrink [OF bk]) (simp_all add: mm_def)
    then show ?thesis using True va by (intro fail [of mm]) (simp_all add: grow_ok_def Let_def mm_def)
  next
    case False
    obtain q where q: "unat vbase = q * 4096" "{q ..< q + unat g} \<subseteq> free_pages (pool (heap_mm s))"
      "free_pages p = free_pages (pool (heap_mm s)) - {q ..< q + unat g}" "wf_virt p" "q + unat g \<le> 2 ^ 52"
      using False by (cases rule: alloc_takes_free [OF wv(1) va]) auto
    obtain k mm' where gp: "k \<le> unat g" "grow_pages (unat g) pml4 vbase 0 mm = Some (0 + of_nat k, mm')"
      "wf_paging mm' pml4" "pool mm' = p"
      using grow_pages_spec [OF wv(2), of "unat g" vbase 0] by (auto simp: mm_def)
    note R = region_pages_taken [OF bk q(1,2) _ _ q(5) gp(1) g gp(3), unfolded gp(4), OF q(3,4)]
    have ks: "unat (of_nat k :: u64) = k" using gp(1) unat_lt_2_64 [of g] by (simp add: unat_of_nat take_bit_nat_eq_self)
    show ?thesis
    proof (cases "k = 0")
      case True
      then have "backed pml4 mm' (heap_bytes fs L)" using R(3) by (simp add: extent_def)
      then show ?thesis using True False va gp(2)
        by (intro fail [of mm']) (simp_all add: grow_ok_def Let_def mm_def [symmetric])
    next
      case k0: False
      then have kw: "(of_nat k :: u64) \<noteq> 0" using ks by (metis unat_0)
      note G = region_good [OF q(1) R(1)] k0
      obtain m2 p2 where ins: "insert_and_coalesce vbase (s\<lparr>heap_mm := mm', bytes := set_next vbase 0 (set_magic vbase MAGIC_FREE
            (set_size vbase (of_nat k * PAGE_SIZE) (bytes s)))\<rparr>) = Some (s\<lparr>heap_mm := mm', bytes := m2, free_list := p2\<rparr>)"
        "heap_ok (widen vbase (of_nat k * PAGE_SIZE) (s\<lparr>heap_mm := mm', bytes := m2, free_list := p2\<rparr>)) (ins_block (vbase, k * 4096) fs) L"
        "\<forall>x \<in> L. agree (extent x) (bytes s) m2" "heap_bytes (ins_block (vbase, k * 4096) fs) L = extent (vbase, k * 4096) \<union> heap_bytes fs L"
        using add_region [of "s\<lparr>heap_mm := mm'\<rparr>" fs L vbase "k * 4096" "of_nat k * PAGE_SIZE"]
          ok G False heap_bytes_apart [OF R(2)] by auto
      have "grow_ok pml4 irq g s =
          Some (True, set_irq irq (widen vbase (of_nat k * PAGE_SIZE) (s\<lparr>heap_mm := mm', bytes := m2, free_list := p2\<rparr>)))"
        using False va gp(2) kw ins(1) by (simp add: grow_ok_def Let_def mm_def [symmetric] widen_def)
      moreover have "heap_inv pml4 (set_irq irq (widen vbase (of_nat k * PAGE_SIZE) (s\<lparr>heap_mm := mm', bytes := m2, free_list := p2\<rparr>)))
          (ins_block (vbase, k * 4096) fs) L"
        using ins(2,4) R(3) unfolding heap_inv_def heap_ok_mm by (simp add: widen_def Un_commute)
      ultimately show ?thesis using ins(3)
        by (intro exI [of _ True] exI [of _ "set_irq irq (widen vbase (of_nat k * PAGE_SIZE) (s\<lparr>heap_mm := mm', bytes := m2, free_list := p2\<rparr>))"]
            exI [of _ "ins_block (vbase, k * 4096) fs"]) (simp add: widen_def)
    qed
  qed
qed

section \<open>Allocation and freeing\<close>

lemma align_up_unat:
  assumes "unat v + 7 < 2 ^ 64"
  shows "unat (align_up v) = (unat v + 7) div 8 * 8"
proof -
  have "unat (align_up v) = unat (v + 7) div 8 * 8"
    using unat_and_not_mask [of "v + 7" 3] by (simp add: align_up_def mask_eq_exp_minus_1)
  moreover have "unat (v + 7) = unat v + 7" using assms by (simp add: unat_add_no_wrap)
  ultimately show ?thesis by simp
qed

lemma total_size:
  assumes "unat sz + 72 < 2 ^ 64" and "0 < unat sz"
  defines "t \<equiv> (unat sz + 15) div 8 * 8 + 24"
  shows "align_up (sz + 8) + HEADER_SIZE = of_nat t" "unat (of_nat t :: u64) = t" "8 dvd t" "unat sz + 32 \<le> t" "t \<le> unat sz + 39"
    "t + 32 < 2 ^ 64"
proof -
  have "(unat sz + 15) div 8 * 8 \<le> unat sz + 15" "unat sz + 8 \<le> (unat sz + 15) div 8 * 8" by auto
  then show le: "unat sz + 32 \<le> t" "t \<le> unat sz + 39" by (simp_all add: t_def)
  then show "t + 32 < 2 ^ 64" using assms(1) by simp
  then show u: "unat (of_nat t :: u64) = t" by (simp add: unat_of_nat take_bit_nat_eq_self)
  show "8 dvd t" by (simp add: t_def)
  have "unat (sz + 8) = unat sz + 8" using assms(1) by (simp add: unat_add_no_wrap)
  then have "unat (align_up (sz + 8)) = (unat sz + 15) div 8 * 8" using assms(1) by (simp add: align_up_unat)
  then have "unat (align_up (sz + 8) + 24) = t" using le assms(1) by (simp add: unat_add_no_wrap t_def)
  then show "align_up (sz + 8) + HEADER_SIZE = of_nat t" using u by (metis word_unat_eq_iff)
qed

lemma scan_heap:
  assumes "heap_ok s fs L" and "unat tot = t"
  shows "scan b tot 0 (free_list s) s =
    Some (case dropWhile (\<lambda>x. snd x < t) fs of [] \<Rightarrow> NoFit | x # _ \<Rightarrow> Fit (last_addr 0 (takeWhile (\<lambda>x. snd x < t) fs)) (fst x))"
  using scan_seg [of s "free_list s" fs b tot 0] assms by (auto simp: heap_ok_def)

lemma scan_total:
  assumes "heap_ok s fs L" and "unat tot = t"
  shows "\<exists>r. scan b tot 0 (free_list s) s = Some r \<and> r \<noteq> Corrupt \<and> (r = NoFit \<longrightarrow> (\<forall>x \<in> set fs. snd x < t))"
  unfolding scan_heap [OF assms] by (cases "dropWhile (\<lambda>x. snd x < t) fs") (simp_all del: dropWhile_eq_Nil_conv, simp)

text \<open>What a search that fits leads to.\<close>

lemma take_found:
  assumes inv: "heap_inv pml4 s fs L" and t: "32 \<le> t" "8 dvd t" "t + 32 < 2 ^ 64"
    and found: "scan b (of_nat t) 0 (free_list s) s = Some (Fit prev cur)"
  shows "\<exists>n fs'. t \<le> n \<and> heap_inv pml4 (take_block (of_nat t) prev cur s) fs' (insert (cur, n) L) \<and>
    (\<forall>x \<in> L. agree (extent x) (bytes s) (bytes (take_block (of_nat t) prev cur s)) \<and> extent x \<inter> extent (cur, n) = {})"
proof -
  have ok: "heap_ok s fs L" using inv by (simp add: heap_inv_def)
  have ut: "unat (of_nat t :: u64) = t" using t(3) by (simp add: unat_of_nat take_bit_nat_eq_self)
  define pre where "pre = takeWhile (\<lambda>x. snd x < t) fs"
  obtain x post where x: "dropWhile (\<lambda>x. snd x < t) fs = x # post" "prev = last_addr 0 pre" "cur = fst x"
    using found scan_heap [OF ok ut, of b] by (auto simp: pre_def split: list.splits)
  obtain n where cn: "x = (cur, n)" using x(3) by (cases x) simp
  have fs: "fs = pre @ (cur, n) # post" using x(1) cn unfolding pre_def by (metis takeWhile_dropWhile_id)
  have tn: "t \<le> n" using x(1) cn by (metis dropWhile_eq_Cons_conv not_less snd_conv)
  have ok': "heap_ok s (pre @ (cur, n) # post) L" using ok unfolding fs .
  note T = take_heap_ok [OF ok' t(1) tn t(2,3), folded x(2)]
  have "heap_mm (take_block (of_nat t) prev cur s) = heap_mm s" by (subst T(4)) simp
  then have "heap_inv pml4 (take_block (of_nat t) prev cur s) (pre @ rest_of cur n t @ post) (insert (cur, taken n t) L)"
    using T(1,3) inv unfolding heap_inv_def fs by simp
  moreover have "t \<le> taken n t" using tn by (simp add: taken_def)
  ultimately show ?thesis using T(2) by blast
qed

lemma heap_inv_irq [simp]: "heap_inv pml4 (set_irq b s) fs L \<longleftrightarrow> heap_inv pml4 s fs L"
  by (simp add: heap_inv_def)

lemma take_block_mm: "take_block tot prev cur (s\<lparr>heap_mm := mm\<rparr>) = (take_block tot prev cur s)\<lparr>heap_mm := mm\<rparr>"
  by (simp add: take_block_def link_free_def Let_def)

text \<open>The caller's view of a result \<open>p\<close> of \<^verbatim>\<open>Alloc\<close>.\<close>

definition served :: "u64 \<Rightarrow> u64 \<Rightarrow> block set \<Rightarrow> block set \<Rightarrow> bool" where
  "served p sz L L' \<longleftrightarrow>
     (if p = 0 then L' = L
      else aligned 8 p \<and> (\<exists>n. unat sz + 32 \<le> n \<and> L' = insert (p - HEADER_SIZE, n) L \<and> (p - HEADER_SIZE, n) \<notin> L \<and>
        (\<forall>x \<in> L. extent x \<inter> extent (p - HEADER_SIZE, n) = {}) \<and>
        {unat p ..< unat p + unat sz} \<subseteq> user_area (p - HEADER_SIZE, n)))"

lemma user_ptr:
  assumes "sized x"
  shows "unat (fst x + 24) = unat (fst x) + 24" "fst x + 24 \<noteq> 0"
proof -
  show u: "unat (fst x + 24) = unat (fst x) + 24" using assms unat_offset [of "fst x" "snd x" 24] by (simp add: sized_def)
  then show "fst x + 24 \<noteq> 0" by (metis add_is_0 unat_0 zero_neq_numeral)
qed

lemma served_block:
  assumes "heap_inv pml4 s fs (insert (cur, n) L)" and "unat sz + 32 \<le> n" and "\<forall>x \<in> L. extent x \<inter> extent (cur, n) = {}"
  shows "served (cur + HEADER_SIZE) sz L (insert (cur, n) L) \<and> cur + HEADER_SIZE \<noteq> 0"
proof -
  have good: "good_block (heap_low s) (heap_high s) (cur, n)" using assms(1) by (simp add: heap_inv_def heap_ok_def)
  then have sz: "sized (cur, n)" by (rule good_sized)
  then have u: "unat (cur + 24) = unat cur + 24" "cur + 24 \<noteq> 0" using user_ptr [of "(cur, n)"] by simp_all
  note u(2)
  moreover have "aligned 8 (cur + 24)" using good u by (simp add: good_block_def aligned_def)
  moreover have "(cur, n) \<notin> L"
  proof
    assume "(cur, n) \<in> L"
    then have "extent (cur, n) = {}" using assms(3) by blast
    then show False using sz by (simp add: extent_def sized_def)
  qed
  moreover have "{unat (cur + 24) ..< unat (cur + 24) + unat sz} \<subseteq> user_area (cur, n)"
    using u assms(2) by (auto simp: user_area_def)
  ultimately have "aligned 8 (cur + 24) \<and> (\<exists>n'. unat sz + 32 \<le> n' \<and> insert (cur, n) L = insert (cur, n') L \<and> (cur, n') \<notin> L \<and>
      (\<forall>x \<in> L. extent x \<inter> extent (cur, n') = {}) \<and> {unat (cur + 24) ..< unat (cur + 24) + unat sz} \<subseteq> user_area (cur, n'))"
    using assms(2,3) by blast
  moreover have "cur + 24 - 24 = cur" by simp
  ultimately show ?thesis using u(2) unfolding served_def by simp
qed

lemma fit_served:
  assumes "heap_inv pml4 s fs L" and "\<forall>x \<in> L. agree (extent x) m (bytes s)" and "8 dvd t" "t + 32 < 2 ^ 64" "unat sz + 32 \<le> t"
    and "scan b (of_nat t) 0 (free_list s) s = Some (Fit prev cur)"
  shows "\<exists>fs' L'. heap_inv pml4 (take_block (of_nat t) prev cur s) fs' L' \<and> served (cur + HEADER_SIZE) sz L L' \<and>
    cur + HEADER_SIZE \<noteq> 0 \<and> (\<forall>x \<in> L. agree (extent x) m (bytes (take_block (of_nat t) prev cur s)))"
proof -
  obtain n fs' where n: "t \<le> n" "heap_inv pml4 (take_block (of_nat t) prev cur s) fs' (insert (cur, n) L)"
    "\<forall>x \<in> L. agree (extent x) (bytes s) (bytes (take_block (of_nat t) prev cur s)) \<and> extent x \<inter> extent (cur, n) = {}"
    using take_found [OF assms(1) _ assms(3,4,6)] assms(5) by auto
  have "served (cur + HEADER_SIZE) sz L (insert (cur, n) L) \<and> cur + HEADER_SIZE \<noteq> 0"
    using served_block [OF n(2), of sz] n(1,3) assms(5) by simp
  moreover have "\<forall>x \<in> L. agree (extent x) m (bytes (take_block (of_nat t) prev cur s))"
    using assms(2) n(3) agree_trans by blast
  ultimately show ?thesis using n(2) by blast
qed

lemma alloc_serves:
  assumes "heap_inv pml4 s fs L" and "0 < unat sz" and "unat sz + 72 < 2 ^ 64"
  shows "\<exists>p s' fs' L'. Alloc pml4 sz s = Some (p, s') \<and> heap_inv pml4 s' fs' L' \<and> served p sz L L' \<and>
    (\<forall>x \<in> L. agree (extent x) (bytes s) (bytes s')) \<and> interrupts (heap_mm s') = interrupts (heap_mm s) \<and>
    (p = 0 \<longrightarrow> (\<forall>x \<in> set fs. snd x < unat sz + 39))"
proof -
  define t where "t = (unat sz + 15) div 8 * 8 + 24"
  note T = total_size [OF assms(3,2), folded t_def]
  have t: "32 \<le> t" "unat sz + 32 \<le> t" using T(4) by simp_all
  define irq where "irq = interrupts (heap_mm s)"
  define s0 where "s0 = set_irq False s"
  have s0: "heap_inv pml4 s0 fs L" "bytes s0 = bytes s" using assms(1) by (simp_all add: s0_def)
  have nz: "sz \<noteq> 0" "\<not> 0xFFFFFFFFFFFFFFFF - 8 < sz" using assms(2,3) by (auto simp: word_less_nat_alt)
  obtain r where r: "scan True (of_nat t) 0 (free_list s0) s0 = Some r" "r \<noteq> Corrupt"
    "r = NoFit \<Longrightarrow> \<forall>x \<in> set fs. snd x < t"
    using scan_total [OF _ T(2), of s0 fs L True] s0(1) unfolding heap_inv_def by blast
  have run: "Alloc pml4 sz s = (case r of
      Fit prev cur \<Rightarrow> Some (cur + HEADER_SIZE, set_irq irq (take_block (of_nat t) prev cur s0))
    | Corrupt \<Rightarrow> Some (0, set_irq irq s0)
    | NoFit \<Rightarrow> Option.bind (grow_ok pml4 irq (grow_count (of_nat t)) s0) (\<lambda>(grown, s).
        if grown then map_option (\<lambda>found. case found of
              Fit prev cur \<Rightarrow> (cur + HEADER_SIZE, set_irq irq (take_block (of_nat t) prev cur s))
            | _ \<Rightarrow> (0, set_irq irq s)) (scan False (of_nat t) 0 (free_list s) s)
        else Some (0, set_irq irq s)))"
    using nz r(1) unfolding Alloc_def Let_def T(1) s0_def [symmetric] irq_def [symmetric] by simp
  show ?thesis
  proof (cases r)
    case (Fit prev cur)
    have "\<forall>x \<in> L. agree (extent x) (bytes s) (bytes s0)" using s0(2) by simp
    from fit_served [OF s0(1) this T(3,6,4)] r(1) Fit obtain fs' L' where
      "heap_inv pml4 (take_block (of_nat t) prev cur s0) fs' L'" "served (cur + HEADER_SIZE) sz L L'" "cur + HEADER_SIZE \<noteq> 0"
      "\<forall>x \<in> L. agree (extent x) (bytes s) (bytes (take_block (of_nat t) prev cur s0))" by blast
    then show ?thesis using run Fit
      by (intro exI [of _ "cur + HEADER_SIZE"] exI [of _ "set_irq irq (take_block (of_nat t) prev cur s0)"] exI [of _ fs']
          exI [of _ L']) (simp add: irq_def)
  next
    case NoFit
    have "grow_count (of_nat t) \<noteq> 0" by (auto simp: grow_count_def Let_def not_less word_le_nat_alt)
    then have "0 < unat (grow_count (of_nat t))" by (simp add: unat_gt_0)
    from grow_ok_spec [OF s0(1) this] obtain ok s1 fs1 where g: "grow_ok pml4 irq (grow_count (of_nat t)) s0 = Some (ok, s1)"
      "heap_inv pml4 s1 fs1 L" "interrupts (heap_mm s1) = irq" "\<forall>x \<in> L. agree (extent x) (bytes s0) (bytes s1)" by blast
    have small: "\<forall>x \<in> set fs. snd x < unat sz + 39" using r(3) [OF NoFit] T(5) by fastforce
    have null: ?thesis if "Alloc pml4 sz s = Some (0, set_irq irq s1)"
      using that g small s0(2)
      by (intro exI [of _ 0] exI [of _ "set_irq irq s1"] exI [of _ fs1] exI [of _ L]) (simp add: served_def irq_def)
    obtain r1 where r1: "scan False (of_nat t) 0 (free_list s1) s1 = Some r1" "r1 \<noteq> Corrupt"
      using scan_total [OF _ T(2), of s1 fs1 L False] g(2) unfolding heap_inv_def by blast
    show ?thesis
    proof (cases "\<exists>prev cur. ok \<and> r1 = Fit prev cur")
      case True
      then obtain prev cur where F: ok "r1 = Fit prev cur" by blast
      have "\<forall>x \<in> L. agree (extent x) (bytes s) (bytes s1)" using g(4) s0(2) by simp
      from fit_served [OF g(2) this T(3,6,4)] r1(1) F(2) obtain fs' L' where
        "heap_inv pml4 (take_block (of_nat t) prev cur s1) fs' L'" "served (cur + HEADER_SIZE) sz L L'" "cur + HEADER_SIZE \<noteq> 0"
        "\<forall>x \<in> L. agree (extent x) (bytes s) (bytes (take_block (of_nat t) prev cur s1))" by blast
      then show ?thesis using run NoFit g(1) F r1(1)
        by (intro exI [of _ "cur + HEADER_SIZE"] exI [of _ "set_irq irq (take_block (of_nat t) prev cur s1)"] exI [of _ fs']
            exI [of _ L']) (simp add: irq_def)
    next
      case False
      then have "Alloc pml4 sz s = Some (0, set_irq irq s1)"
        using run NoFit g(1) r1 by (cases ok; cases r1) simp_all
      then show ?thesis by (rule null)
    qed
  next
    case Corrupt
    then show ?thesis using r(2) by simp
  qed
qed

lemma heap_ok_remove: "heap_ok s fs L \<Longrightarrow> heap_ok s fs (L - X)"
  by (auto simp: heap_ok_def)

lemma free_live:
  assumes inv: "heap_inv pml4 s fs L" and x: "(b, n) \<in> L"
  shows "\<exists>s'. Free (b + HEADER_SIZE) s = Some (Freed False s') \<and> heap_inv pml4 s' (ins_block (b, n) fs) (L - {(b, n)}) \<and>
    (\<forall>y \<in> L - {(b, n)}. agree (extent y) (bytes s) (bytes s')) \<and> block_magic (bytes s') b = MAGIC_FREE \<and>
    heap_low s' = heap_low s \<and> heap_high s' = heap_high s"
proof -
  let ?L = "L - {(b, n)}"
  have ok: "heap_ok s fs L" and bk: "backed pml4 (heap_mm s) (heap_bytes fs L)" using inv by (simp_all add: heap_inv_def)
  have gb: "good_block (heap_low s) (heap_high s) (b, n)" and low: "heap_low s \<noteq> 0" and lb: "live_block (bytes s) (b, n)"
    using ok x by (auto simp: heap_ok_def)
  have sz: "sized (b, n)" by (rule good_sized [OF gb])
  have r: "room b" using sized_room [OF sz] by simp
  have dis: "extent y \<inter> extent (b, n) = {}" if "y \<in> set fs \<union> ?L" for y using ok x that unfolding heap_ok_def by blast
  define s1 where "s1 = s\<lparr>bytes := set_magic b MAGIC_FREE (bytes s)\<rparr>"
  have ag: "agree (- header b) (bytes s) (bytes s1)" using agree_set(2) [OF r] by (simp add: s1_def)
  have hb: "extent y \<inter> header b = {}" if "y \<in> set fs \<union> ?L" for y using dis [OF that] header_extent [OF sz] by auto
  have ok1: "heap_ok s1 fs ?L"
    by (rule heap_ok_frame [OF heap_ok_remove [OF ok] ag hb]) (use low in \<open>simp_all add: s1_def\<close>)
  have "block_size (bytes s1) b = of_nat n" using lb r by (simp add: s1_def live_block_def)
  then obtain m p where ins: "insert_and_coalesce b s1 = Some (s1\<lparr>bytes := m, free_list := p\<rparr>)"
    "heap_ok (s1\<lparr>bytes := m, free_list := p\<rparr>) (ins_block (b, n) fs) ?L" "\<forall>y \<in> ?L. agree (extent y) (bytes s1) m"
    "heap_bytes (ins_block (b, n) fs) ?L = extent (b, n) \<union> heap_bytes fs ?L" "block_magic m b = MAGIC_FREE"
    using insert_heap_ok [OF ok1, of b n] gb low dis by (auto simp: s1_def)
  have "canary_addr (bytes s) b = b + of_nat n - 8" using lb by (simp add: canary_addr_def live_block_def)
  then have "\<not> canary_broken (bytes s) b" using lb by (simp add: canary_broken_def live_block_def)
  moreover have "b + 24 \<noteq> 0" using user_ptr [OF sz] by simp
  moreover have "heap_high s \<noteq> 0" "\<not> b < heap_low s" "\<not> heap_high s \<le> b"
    using gb by (auto simp: good_block_def word_le_nat_alt word_less_nat_alt)
  ultimately have "Free (b + HEADER_SIZE) s = Some (Freed False (s1\<lparr>bytes := m, free_list := p\<rparr>))"
    using ins(1) low lb by (simp add: Free_def Let_def live_block_def s1_def)
  moreover have "heap_bytes (ins_block (b, n) fs) ?L = heap_bytes fs L" using ins(4) x by (auto simp: heap_bytes_def)
  moreover have "agree (extent y) (bytes s) m" if "y \<in> ?L" for y
    using agree_trans [OF agree_mono [OF ag]] hb [of y] ins(3) that by blast
  ultimately show ?thesis using ins(2,5) bk unfolding heap_inv_def by (simp add: s1_def)
qed

section \<open>Start-up\<close>

lemma init_pages_spec:
  "wf_paging s pml4 \<Longrightarrow> \<exists>s'. init_pages n pml4 vbase i s = Some s' \<and> wf_paging s' pml4 \<and> pool s' = pool s"
proof (induction n arbitrary: i s)
  case (Suc n)
  have wf: "wf_phys (frames s)" using Suc.prems by (simp add: wf_paging_def)
  then show ?case
  proof (cases rule: alloc_frame_cases)
    case (found f fr)
    have "wf_paging (s\<lparr>frames := fr\<rparr>) pml4" using wf_paging_frames [OF Suc.prems found(6)] found(7) by simp
    from MapPages_defined [OF this] obtain ok s1 where mp:
      "MapPages pml4 f (vbase + i * PAGE_SIZE) 1 (PAGE_PRESENT OR PAGE_RW) (s\<lparr>frames := fr\<rparr>) = Some (ok, s1)"
      "wf_paging s1 pml4" "pool s1 = pool (s\<lparr>frames := fr\<rparr>)" by blast
    then show ?thesis using found(1,2) Suc.IH [OF mp(2), of "i + 1"] by simp
  qed (use Suc.prems in simp)
qed simp

lemma Init_establishes:
  assumes bk: "backed pml4 (heap_mm s) {}" and va: "VirtualAllocPages (if pages = 0 then 16 else pages) (pool (heap_mm s)) = (vbase, p)"
    and "vbase \<noteq> 0"
  shows "\<exists>s'. Init pml4 pages s = Some s' \<and> heap_inv pml4 s' [(vbase, unat (heap_size s'))] {} \<and>
    heap_size s' = (if pages = 0 then 16 else pages) * PAGE_SIZE"
proof -
  define g where "g = (if pages = 0 then 16 else pages)"
  have g: "0 < unat g" by (simp add: g_def unat_gt_0)
  have wv: "wf_virt (pool (heap_mm s))" using bk by (simp add: backed_def)
  obtain q where q: "unat vbase = q * 4096" "{q ..< q + unat g} \<subseteq> free_pages (pool (heap_mm s))"
    "free_pages p = free_pages (pool (heap_mm s)) - {q ..< q + unat g}" "wf_virt p" "q + unat g \<le> 2 ^ 52"
    using assms(3) va unfolding g_def [symmetric] by (cases rule: alloc_takes_free [OF wv]) auto
  define mm where "mm = heap_mm s\<lparr>pool := p\<rparr>"
  have "wf_paging mm pml4" using bk by (simp add: backed_def mm_def)
  from init_pages_spec [OF this] obtain mm' where mm': "init_pages (unat g) pml4 vbase 0 mm = Some mm'" "wf_paging mm' pml4" "pool mm' = p"
    by (metis mm_def mm_state.select_convs(3) mm_state.surjective mm_state.update_convs(3))
  note R = region_pages_taken [OF bk q(1,2) _ _ q(5) order_refl g mm'(2), unfolded mm'(3), OF q(3,4)]
  note G = region_good [OF q(1) R(1) g]
  have wg: "(of_nat (unat g) :: u64) = g" by simp
  define s' where "s' = s\<lparr>bytes := set_next vbase 0 (set_magic vbase MAGIC_FREE (set_size vbase (g * PAGE_SIZE) (bytes s))),
    free_list := vbase, heap_start := vbase, heap_size := g * PAGE_SIZE, heap_low := vbase, heap_high := vbase + g * PAGE_SIZE, heap_mm := mm'\<rparr>"
  have run: "Init pml4 pages s = Some s'"
    using va assms(3) mm'(1) unfolding Init_def g_def [symmetric] Let_def by (simp add: mm_def s'_def)
  have r: "room vbase" using sized_room [OF G(1)] by simp
  have "unat (vbase + g * PAGE_SIZE) = unat vbase + unat g * 4096" using R(1) G(4) by (simp add: unat_add_no_wrap)
  then have "heap_ok s' [(vbase, unat g * 4096)] {}"
    using r G g assms(3) by (auto simp: heap_ok_def s'_def good_block_def free_node_def sized_def)
  moreover have "heap_bytes [(vbase, unat g * 4096)] {} = extent (vbase, unat g * 4096)" by (simp add: heap_bytes_def)
  ultimately have "heap_inv pml4 s' [(vbase, unat g * 4096)] {}" using R(3) by (simp add: heap_inv_def s'_def)
  moreover have "unat (heap_size s') = unat g * 4096" using G(4) by (simp add: s'_def)
  ultimately show ?thesis using run by (simp add: s'_def g_def)
qed

section \<open>Runs of the heap\<close>

text \<open>
  The callers' side: \<open>L\<close> are the live blocks and \<open>W\<close> the bytes their owners have written. A caller allocates,
  frees what is live, and writes inside its own block.
\<close>

inductive heap_step :: "u64 \<Rightarrow> kheap \<times> block set \<times> (u64 \<rightharpoonup> u8) \<Rightarrow> kheap \<times> block set \<times> (u64 \<rightharpoonup> u8) \<Rightarrow> bool" for pml4 where
  alloc: "Alloc pml4 sz s = Some (p, s') \<Longrightarrow> 0 < unat sz \<Longrightarrow> unat sz + 72 < 2 ^ 64 \<Longrightarrow> p \<noteq> 0 \<Longrightarrow>
    heap_step pml4 (s, L, W) (s', insert (p - HEADER_SIZE, unat (block_size (bytes s') (p - HEADER_SIZE))) L, W)"
| alloc_null: "Alloc pml4 sz s = Some (0, s') \<Longrightarrow> 0 < unat sz \<Longrightarrow> unat sz + 72 < 2 ^ 64 \<Longrightarrow> heap_step pml4 (s, L, W) (s', L, W)"
| free: "(b, n) \<in> L \<Longrightarrow> Free (b + HEADER_SIZE) s = Some (Freed overflow s') \<Longrightarrow>
    heap_step pml4 (s, L, W) (s', L - {(b, n)}, W |` {a. unat a \<notin> extent (b, n)})"
| user_write: "(b, n) \<in> L \<Longrightarrow> unat a \<in> user_area (b, n) \<Longrightarrow> heap_step pml4 (s, L, W) (s\<lparr>bytes := (bytes s)(a := v)\<rparr>, L, W(a \<mapsto> v))"

inductive_cases heap_stepE: "heap_step pml4 (s, L, W) st"

definition run_inv :: "u64 \<Rightarrow> kheap \<times> block set \<times> (u64 \<rightharpoonup> u8) \<Rightarrow> bool" where
  "run_inv pml4 st = (case st of (s, L, W) \<Rightarrow> (\<exists>fs. heap_inv pml4 s fs L) \<and>
     (\<forall>a v. W a = Some v \<longrightarrow> bytes s a = v \<and> (\<exists>x \<in> L. unat a \<in> extent x)))"

lemma user_write_inv:
  assumes inv: "heap_inv pml4 s fs L" and x: "x \<in> L" "unat a \<in> user_area x"
  shows "heap_inv pml4 (s\<lparr>bytes := (bytes s)(a := v)\<rparr>) fs L"
proof -
  have ok: "heap_ok s fs L" using inv by (simp add: heap_inv_def)
  have ax: "unat a \<in> extent x" using x(2) by (auto simp: user_area_def extent_def)
  have ag: "agree (- {unat a}) (bytes s) ((bytes s)(a := v))" by (auto simp: agree_def)
  have szl: "sized y" if "y \<in> set fs \<union> L" for y using ok that unfolding heap_ok_def by (blast intro: good_sized)
  have "seg ((bytes s)(a := v)) (free_list s) fs 0"
  proof (rule seg_frame [OF _ ag])
    show "seg (bytes s) (free_list s) fs 0" using ok by (simp add: heap_ok_def)
    show "sized y \<and> extent y \<inter> {unat a} = {}" if "y \<in> set fs" for y
      using ok that x(1) ax szl [of y] unfolding heap_ok_def by blast
  qed
  moreover have "live_block ((bytes s)(a := v)) y" if "y \<in> L" for y
  proof (rule live_block_frame [OF _ _ agree_mono [OF ag]])
    show "live_block (bytes s) y" "sized y" using ok that szl by (auto simp: heap_ok_def)
    show "extent y - user_area y \<subseteq> - {unat a}"
      using ok that x ax unfolding heap_ok_def by (cases "y = x") (blast, blast)
  qed
  ultimately show ?thesis using inv by (simp add: heap_inv_def heap_ok_def)
qed

lemma heap_step_inv:
  assumes "heap_step pml4 st st'" and "run_inv pml4 st"
  shows "run_inv pml4 st'"
  using assms(1)
proof cases
  case (alloc sz s p s' L W)
  obtain fs where inv: "heap_inv pml4 s fs L" and W: "\<And>a v. W a = Some v \<Longrightarrow> bytes s a = v \<and> (\<exists>x \<in> L. unat a \<in> extent x)"
    using assms(2) alloc(1) by (auto simp: run_inv_def)
  obtain fs' L' where r: "heap_inv pml4 s' fs' L'" "served p sz L L'" "\<forall>x \<in> L. agree (extent x) (bytes s) (bytes s')"
    using alloc_serves [OF inv alloc(4,5)] alloc(3) by auto
  obtain n where n: "L' = insert (p - HEADER_SIZE, n) L" using r(2) alloc(6) by (auto simp: served_def)
  have "live_block (bytes s') (p - HEADER_SIZE, n)" "sized (p - HEADER_SIZE, n)"
    using r(1) n by (auto simp: heap_inv_def heap_ok_def intro: good_sized)
  then have "unat (block_size (bytes s') (p - HEADER_SIZE)) = n"
    by (simp add: live_block_def sized_def unat_of_nat take_bit_nat_eq_self)
  moreover have "bytes s' a = v \<and> (\<exists>x \<in> L'. unat a \<in> extent x)" if "W a = Some v" for a v
    using W [OF that] r(3) n by (auto simp: agree_def)
  ultimately show ?thesis using r(1) n alloc(2) by (auto simp: run_inv_def)
next
  case (alloc_null sz s s' L W)
  obtain fs where inv: "heap_inv pml4 s fs L" and W: "\<And>a v. W a = Some v \<Longrightarrow> bytes s a = v \<and> (\<exists>x \<in> L. unat a \<in> extent x)"
    using assms(2) alloc_null(1) by (auto simp: run_inv_def)
  obtain fs' L' where r: "heap_inv pml4 s' fs' L'" "served 0 sz L L'" "\<forall>x \<in> L. agree (extent x) (bytes s) (bytes s')"
    using alloc_serves [OF inv alloc_null(4,5)] alloc_null(3) by auto
  have L': "L' = L" using r(2) by (simp add: served_def)
  have "bytes s' a = v \<and> (\<exists>x \<in> L. unat a \<in> extent x)" if "W a = Some v" for a v
    using W [OF that] r(3) by (auto simp: agree_def)
  then show ?thesis using r(1) L' alloc_null(2) by (auto simp: run_inv_def)
next
  case (free b n L s overflow s' W)
  obtain fs where inv: "heap_inv pml4 s fs L" and W: "\<And>a v. W a = Some v \<Longrightarrow> bytes s a = v \<and> (\<exists>x \<in> L. unat a \<in> extent x)"
    using assms(2) free(1) by (auto simp: run_inv_def)
  have r: "heap_inv pml4 s' (ins_block (b, n) fs) (L - {(b, n)})" "\<forall>y \<in> L - {(b, n)}. agree (extent y) (bytes s) (bytes s')"
    using free_live [OF inv free(3)] free(4) by auto
  have "bytes s' a = v \<and> (\<exists>x \<in> L - {(b, n)}. unat a \<in> extent x)" if "W a = Some v" "unat a \<notin> extent (b, n)" for a v
    using W [OF that(1)] that(2) r(2) unfolding agree_def by (metis Diff_iff singletonD)
  then show ?thesis using r(1) free(2) by (auto simp: run_inv_def restrict_map_def split: if_splits)
next
  case (user_write b n L a s W v)
  then have "\<exists>fs. heap_inv pml4 s fs L" "\<And>a v. W a = Some v \<Longrightarrow> bytes s a = v \<and> (\<exists>x \<in> L. unat a \<in> extent x)"
    using assms(2) by (auto simp: run_inv_def)
  moreover have "unat a \<in> extent (b, n)" using user_write(4) by (auto simp: user_area_def extent_def)
  moreover have "\<exists>fs. heap_inv pml4 (s\<lparr>bytes := (bytes s)(a := v)\<rparr>) fs L"
    using calculation(1) user_write_inv [OF _ user_write(3,4)] by blast
  ultimately show ?thesis using user_write(2,3) by (auto simp: run_inv_def)
qed

text \<open>C7. Whatever sequence of allocations, frees and writes inside live blocks the callers perform on the
  heap, every byte a caller wrote into a block it still owns is in memory, live blocks never overlap, and
  freeing any of them neither panics nor reports an overflow.\<close>

theorem heap_keeps_contents:
  assumes "heap_inv pml4 s0 fs {}" and "(heap_step pml4)\<^sup>*\<^sup>* (s0, {}, Map.empty) (s, L, W)"
  shows "(\<forall>a v. W a = Some v \<longrightarrow> bytes s a = v) \<and> (\<forall>x \<in> L. \<forall>y \<in> L. x \<noteq> y \<longrightarrow> extent x \<inter> extent y = {}) \<and>
    (\<forall>x \<in> L. \<exists>s'. Free (fst x + HEADER_SIZE) s = Some (Freed False s'))"
proof -
  have "run_inv pml4 (s0, {}, Map.empty)" using assms(1) by (auto simp: run_inv_def)
  with assms(2) have "run_inv pml4 (s, L, W)" by (induction rule: rtranclp_induct) (auto intro: heap_step_inv)
  then obtain fs where inv: "heap_inv pml4 s fs L" and W: "\<forall>a v. W a = Some v \<longrightarrow> bytes s a = v"
    by (auto simp: run_inv_def)
  have "\<exists>s'. Free (fst x + HEADER_SIZE) s = Some (Freed False s')" if "x \<in> L" for x
    using free_live [OF inv, of "fst x" "snd x"] that by auto
  moreover have "\<forall>x \<in> L. \<forall>y \<in> L. x \<noteq> y \<longrightarrow> extent x \<inter> extent y = {}" using inv by (simp add: heap_inv_def heap_ok_def)
  ultimately show ?thesis using W by blast
qed

text \<open>C8. \<^verbatim>\<open>Alloc\<close> of a non-zero size returns. When it returns a pointer, it is aligned and points into a
  block that is disjoint from all live ones and holds the requested bytes between header and canary; the
  bytes of every live block are unchanged, and the heap stays well formed: headers, links and canaries in
  memory, the free list sorted and fully coalesced, the pages of the heap not available to others.
  When it returns null, there was no free block that fits.\<close>

theorem Alloc_correct:
  assumes "heap_inv pml4 s fs L" and "0 < unat sz" and "unat sz + 72 < 2 ^ 64"
  shows "\<exists>p s' fs' L'. Alloc pml4 sz s = Some (p, s') \<and> heap_inv pml4 s' fs' L' \<and> served p sz L L' \<and>
    (\<forall>x \<in> L. agree (extent x) (bytes s) (bytes s')) \<and> interrupts (heap_mm s') = interrupts (heap_mm s) \<and>
    (p = 0 \<longrightarrow> (\<forall>x \<in> set fs. snd x < unat sz + 39))"
  using alloc_serves [OF assms] .

text \<open>C9. \<^verbatim>\<open>Free\<close> of a live block succeeds without a report, makes its bytes free and merges them with the free
  neighbours, leaves the bytes of every other live block alone, and a second \<^verbatim>\<open>Free\<close> of the pointer panics.\<close>

theorem Free_correct:
  assumes "heap_inv pml4 s fs L" and "(b, n) \<in> L"
  shows "\<exists>s'. Free (b + HEADER_SIZE) s = Some (Freed False s') \<and> heap_inv pml4 s' (ins_block (b, n) fs) (L - {(b, n)}) \<and>
    (\<Union>x \<in> set (ins_block (b, n) fs). extent x) = extent (b, n) \<union> (\<Union>x \<in> set fs. extent x) \<and>
    (\<forall>y \<in> L - {(b, n)}. agree (extent y) (bytes s) (bytes s')) \<and> Free (b + HEADER_SIZE) s' = Some FreePanic"
proof -
  obtain s' where s': "Free (b + HEADER_SIZE) s = Some (Freed False s')" "heap_inv pml4 s' (ins_block (b, n) fs) (L - {(b, n)})"
    "\<forall>y \<in> L - {(b, n)}. agree (extent y) (bytes s) (bytes s')" "block_magic (bytes s') b = MAGIC_FREE"
    "heap_low s' = heap_low s" "heap_high s' = heap_high s" using free_live [OF assms] by blast
  have ok: "heap_ok s fs L" using assms(1) by (simp add: heap_inv_def)
  then have gb: "good_block (heap_low s) (heap_high s) (b, n)" "heap_low s \<noteq> 0" using assms(2) by (auto simp: heap_ok_def)
  have szs: "sized y \<and> extent y \<inter> extent (b, n) = {}" if "y \<in> set fs" for y
    using ok that assms(2) unfolding heap_ok_def by (blast intro: good_sized)
  have "(\<Union>x \<in> set (ins_block (b, n) fs). extent x) = extent (b, n) \<union> (\<Union>x \<in> set fs. extent x)"
    using ins_block_gap(3) [OF _ szs good_sized [OF gb(1)]] ok by (simp add: heap_ok_def)
  moreover have "b + 24 \<noteq> 0" "heap_high s \<noteq> 0" "\<not> b < heap_low s" "\<not> heap_high s \<le> b"
    using gb user_ptr [OF good_sized [OF gb(1)]] by (auto simp: good_block_def word_le_nat_alt word_less_nat_alt)
  then have "Free (b + HEADER_SIZE) s' = Some FreePanic" using s'(4-6) gb(2) by (simp add: Free_def Let_def)
  ultimately show ?thesis using s'(1-3) by blast
qed

text \<open>A request of nearly \<open>2 ^ 64\<close> bytes passes the size check of \<^verbatim>\<open>Alloc\<close>, but adding the header wraps
  around: \<^verbatim>\<open>Alloc\<close> then returns a pointer into the first free block, whatever its size.\<close>

theorem Alloc_size_wraps:
  assumes "heap_inv pml4 s (x # fs) L" and "0xFFFFFFFFFFFFFFE1 \<le> sz" and "sz \<le> 0xFFFFFFFFFFFFFFF7"
  shows "\<exists>s'. Alloc pml4 sz s = Some (fst x + HEADER_SIZE, s')"
proof -
  define tot where "tot = align_up (sz + 8) + HEADER_SIZE"
  have "unat (align_up (sz + 8)) = unat (sz + 8 + 7) div 8 * 8"
    using unat_and_not_mask [of "sz + 8 + 7" 3] by (simp add: align_up_def mask_eq_exp_minus_1)
  moreover have "unat (sz + 8 + 7) < 8 \<or> 2 ^ 64 - 16 \<le> unat (sz + 8 + 7)"
    using assms(2,3) by (simp add: word_le_nat_alt unat_word_ariths mod_if) linarith
  moreover have "unat tot = (unat (align_up (sz + 8)) + 24) mod 2 ^ 64" by (simp add: tot_def unat_word_ariths)
  ultimately have small: "unat tot \<le> 24"
    using unat_lt_2_64 [of "sz + 8 + 7"] by (auto simp: mod_if)
  have ok: "heap_ok (set_irq False s) (x # fs) L" using assms(1) by (simp add: heap_inv_def)
  then have "good_block (heap_low s) (heap_high s) x" by (simp add: heap_ok_def)
  then have "\<not> snd x < unat tot" using small by (simp add: good_block_def)
  then have "scan True tot 0 (free_list s) (set_irq False s) = Some (Fit 0 (fst x))"
    using scan_heap [OF ok refl, of True tot] by simp
  then show ?thesis using assms(2,3) unfolding Alloc_def Let_def tot_def [symmetric]
    by (auto simp: word_le_nat_alt word_less_nat_alt)
qed

section \<open>A heap with one live and one free block\<close>

definition sample_free :: ram where
  "sample_free = set_next 0x10040 0 (set_magic 0x10040 MAGIC_FREE (set_size 0x10040 4032 (\<lambda>_. 0)))"

definition sample_heap :: kheap where
  "sample_heap = \<lparr>bytes = write_canary 0x10000 (set_next 0x10000 0 (set_magic 0x10000 MAGIC_ALLOC (set_size 0x10000 64 sample_free))),
     free_list = 0x10040, heap_start = 0x10000, heap_size = 4096, heap_low = 0x10000, heap_high = 0x11000, heap_mm = sample_mm\<rparr>"

lemma sample_backed: "backed 0x80000000 sample_mm {0x10000 ..< 0x11000}"
proof -
  have "a div 4096 \<notin> free_pages sample_virt" if "a \<in> {0x10000 ..< 0x11000}" for a
  proof -
    have "a div 4096 = 16" using that by (auto intro: div_nat_eqI)
    then show ?thesis by (simp add: free_pages_def sample_virt_def)
  qed
  then show ?thesis using sample_mm_wf by (auto simp: backed_def sample_mm_def wf_virt_def sample_virt_def free_pages_def)
qed

lemma sample_heap_inv: "heap_inv 0x80000000 sample_heap [(0x10040, 4032)] {(0x10000, 64)}"
proof -
  have r: "room 0x10000" "room 0x10040" by (simp_all add: room_def)
  have sz: "sized (0x10000, 64)" "sized (0x10040, 4032)" by (simp_all add: sized_def)
  have "block_size (set_size 0x10000 64 sample_free) 0x10000 = of_nat 64" using r by simp
  note M = mark_live [OF sz(1) this]
  have ag: "agree (- extent (0x10000, 64)) sample_free (bytes sample_heap)"
    unfolding sample_heap_def kheap.select_convs
    by (rule agree_trans [OF agree_mono [OF agree_set(1) [OF r(1)]] M(2)]) (auto simp: extent_def)
  have "seg sample_free 0x10040 [(0x10040, 4032)] 0" using r by (simp add: sample_free_def free_node_def)
  then have "seg (bytes sample_heap) 0x10040 [(0x10040, 4032)] 0"
    by (rule seg_frame [OF _ ag]) (use sz in \<open>auto simp: extent_def\<close>)
  moreover have "extent (0x10040, 4032) \<inter> extent (0x10000, 64) = {}" by (auto simp: extent_def)
  ultimately have "heap_ok sample_heap [(0x10040, 4032)] {(0x10000, 64)}"
    using M(1) by (simp add: heap_ok_def good_block_def aligned_def sample_heap_def)
  moreover have "heap_bytes [(0x10040, 4032)] {(0x10000, 64)} = {0x10000 ..< 0x11000}" by (auto simp: heap_bytes_def extent_def)
  ultimately show ?thesis using sample_backed by (simp add: heap_inv_def sample_heap_def)
qed

lemma Alloc_correct_witness:
  "\<exists>p s' fs' L'. Alloc 0x80000000 100 sample_heap = Some (p, s') \<and> p \<noteq> 0 \<and> served p 100 {(0x10000, 64)} L' \<and>
    heap_inv 0x80000000 s' fs' L'"
proof -
  from Alloc_correct [OF sample_heap_inv, of 100] obtain p s' fs' L' where
    r: "Alloc 0x80000000 100 sample_heap = Some (p, s')" "heap_inv 0x80000000 s' fs' L'" "served p 100 {(0x10000, 64)} L'"
    "p = 0 \<longrightarrow> (\<forall>x \<in> set [(0x10040, 4032 :: nat)]. snd x < unat (100 :: u64) + 39)" by auto
  then have "p \<noteq> 0" by simp
  with r show ?thesis by blast
qed

lemma Free_correct_witness:
  "\<exists>s'. Free (0x10000 + HEADER_SIZE) sample_heap = Some (Freed False s') \<and> Free (0x10000 + HEADER_SIZE) s' = Some FreePanic"
  using Free_correct [OF sample_heap_inv, of "0x10000" 64] by blast

lemma Alloc_size_wraps_witness: "\<exists>s'. Alloc 0x80000000 0xFFFFFFFFFFFFFFF0 sample_heap = Some (0x10040 + HEADER_SIZE, s')"
  using Alloc_size_wraps [OF sample_heap_inv, of "0xFFFFFFFFFFFFFFF0"] by simp

lemma heap_keeps_contents_witness:
  "\<exists>s0 s L W. heap_inv 0x80000000 s0 [(0x10000, 4096)] {} \<and> (heap_step 0x80000000)\<^sup>*\<^sup>* (s0, {}, Map.empty) (s, L, W) \<and> L \<noteq> {} \<and>
    (\<forall>x \<in> L. \<exists>s'. Free (fst x + HEADER_SIZE) s = Some (Freed False s'))"
proof -
  obtain s0 where "Free (0x10000 + HEADER_SIZE) sample_heap = Some (Freed False s0)"
    "heap_inv 0x80000000 s0 (ins_block (0x10000, 64) [(0x10040, 4032)]) ({(0x10000, 64)} - {(0x10000, 64)})"
    using free_live [OF sample_heap_inv, of "0x10000" 64] by auto
  then have s0: "heap_inv 0x80000000 s0 [(0x10000, 4096)] {}" by (simp add: ins_block_def)
  have "0 < unat (100 :: u64)" "unat (100 :: u64) + 72 < 2 ^ 64" by simp_all
  from alloc_serves [OF s0 this] obtain p s where
    r: "Alloc 0x80000000 100 s0 = Some (p, s)" "p = 0 \<longrightarrow> (\<forall>x \<in> set [(0x10000 :: u64, 4096 :: nat)]. snd x < unat (100 :: u64) + 39)" by blast
  then have "p \<noteq> 0" by simp
  let ?x = "(p - HEADER_SIZE, unat (block_size (bytes s) (p - HEADER_SIZE)))"
  have "heap_step 0x80000000 (s0, {}, Map.empty) (s, insert ?x {}, Map.empty)"
    by (rule heap_step.alloc [OF r(1)]) (use \<open>p \<noteq> 0\<close> in simp_all)
  then have run: "(heap_step 0x80000000)\<^sup>*\<^sup>* (s0, {}, Map.empty) (s, insert ?x {}, Map.empty)" by (rule r_into_rtranclp)
  from heap_keeps_contents [OF s0 run] have "\<forall>x \<in> insert ?x {}. \<exists>s'. Free (fst x + HEADER_SIZE) s = Some (Freed False s')" by blast
  with s0 run show ?thesis by (metis insert_not_empty)
qed

end
