(* ===== verification/Net_Bytes.thy ===== *)
theory Net_Bytes
  imports Kernel_Prelude
begin

text \<open>
  Bytes on the wire: the byte-order conversions of \<^verbatim>\<open>Include/network/swapper.hpp\<close>, the checksum of
  \<^verbatim>\<open>Include/network/checksum.hpp\<close> and the packed headers of \<^verbatim>\<open>Include/network/*.hpp\<close>. The processor is
  little endian; a packed struct is the concatenation of its fields' bytes.
\<close>

section \<open>Model\<close>

definition Swap16 :: "u16 \<Rightarrow> u16" where
  "Swap16 val = push_bit 8 val OR drop_bit 8 val"

definition Swap32 :: "u32 \<Rightarrow> u32" where
  "Swap32 val = (push_bit 24 val AND 0xFF000000) OR (push_bit 8 val AND 0x00FF0000) OR
     (drop_bit 8 val AND 0x0000FF00) OR (drop_bit 24 val AND 0x000000FF)"

text \<open>How the processor stores and loads 16- and 32-bit fields.\<close>

definition bytes16 :: "u16 \<Rightarrow> u8 list" where
  "bytes16 v = [ucast v, ucast (drop_bit 8 v)]"

definition bytes32 :: "u32 \<Rightarrow> u8 list" where
  "bytes32 v = [ucast v, ucast (drop_bit 8 v), ucast (drop_bit 16 v), ucast (drop_bit 24 v)]"

text \<open>Reading a field at an offset of a packet; outside of the packet's buffer it is undefined.\<close>

definition get8 :: "u8 list \<Rightarrow> nat \<Rightarrow> u8 option" where
  "get8 p i = (if i < length p then Some (p ! i) else None)"

definition word16 :: "u8 \<Rightarrow> u8 \<Rightarrow> u16" where
  "word16 a b = ucast a OR push_bit 8 (ucast b)"

definition word32 :: "u8 \<Rightarrow> u8 \<Rightarrow> u8 \<Rightarrow> u8 \<Rightarrow> u32" where
  "word32 a b c d = ucast a OR push_bit 8 (ucast b) OR push_bit 16 (ucast c) OR push_bit 24 (ucast d)"

definition get16 :: "u8 list \<Rightarrow> nat \<Rightarrow> u16 option" where
  "get16 p i = (if i + 1 < length p then Some (word16 (p ! i) (p ! (i + 1))) else None)"

definition get32 :: "u8 list \<Rightarrow> nat \<Rightarrow> u32 option" where
  "get32 p i = (if i + 3 < length p then Some (word32 (p ! i) (p ! (i + 1)) (p ! (i + 2)) (p ! (i + 3))) else None)"

definition get_bytes :: "u8 list \<Rightarrow> nat \<Rightarrow> nat \<Rightarrow> u8 list option" where
  "get_bytes p i n = (if i + n \<le> length p then Some (take n (drop i p)) else None)"

fun sum_words :: "u8 list \<Rightarrow> u32 \<Rightarrow> u32" where
  "sum_words (a # b # xs) s = sum_words xs (s + ucast (word16 a b))"
| "sum_words [a] s = s + ucast a"
| "sum_words [] s = s"

lemma carry_parts: "unat (s AND 0xFFFF) = unat s mod 65536" "unat (drop_bit 16 s) = unat s div 65536" for s :: u32
  using unat_and_mask [of s 16] by (simp_all add: mask_eq_exp_minus_1 drop_bit_eq_div unat_div)

lemma unat_carry: "unat ((s AND 0xFFFF) + drop_bit 16 s) = unat s mod 65536 + unat s div 65536" for s :: u32
proof -
  have "unat s < 4294967296" using unsigned_less [of s, where ?'a = nat] by simp
  then have "unat s div 65536 < 65536" "unat s mod 65536 < 65536" by (auto simp: div_less_iff_less_mult)
  then show ?thesis unfolding unat_word_ariths carry_parts by simp
qed

function fold_carry :: "u32 \<Rightarrow> u32" where
  "fold_carry s = (if drop_bit 16 s \<noteq> 0 then fold_carry ((s AND 0xFFFF) + drop_bit 16 s) else s)"
  by pat_completeness auto

termination
proof (relation "measure unat")
  fix s :: u32 assume "drop_bit 16 s \<noteq> 0"
  then have "unat s div 65536 \<noteq> 0" using carry_parts(2) [of s] by (metis unat_eq_0)
  then have "unat s mod 65536 + unat s div 65536 < unat s" 
    using div_mult_mod_eq [of "unat s" 65536] by linarith
  then show "((s AND 0xFFFF) + drop_bit 16 s, s) \<in> measure unat" by (simp add: unat_carry)
qed simp

declare fold_carry.simps [simp del]

definition CalculateChecksum :: "u8 list \<Rightarrow> u16" where
  "CalculateChecksum data = ucast (NOT (fold_carry (sum_words data 0)))"

subsection \<open>Headers\<close>

text \<open>Fields hold what the code stores in them, that is, values that are already in network byte order.\<close>

record EthernetHeader =
  eth_Dest :: "u8 list"
  eth_Src :: "u8 list"
  eth_Type :: u16

record ARPHeader =
  HardwareType :: u16
  ProtocolType :: u16
  HardwareAddrLen :: u8
  ProtocolAddrLen :: u8
  OpCode :: u16
  SrcMac :: "u8 list"
  SrcIp :: u32
  DestMac :: "u8 list"
  DestIp :: u32

record IPv4Header =
  VersionIHL :: u8
  TOS :: u8
  TotalLength :: u16
  ip_ID :: u16
  FlagsFragment :: u16
  TTL :: u8
  Protocol :: u8
  HeaderChecksum :: u16
  SrcIP :: u32
  DestIP :: u32

record ICMPHeader =
  icmp_Type :: u8
  icmp_Code :: u8
  icmp_Checksum :: u16
  icmp_ID :: u16
  icmp_Sequence :: u16

record UDPHeader =
  udp_SrcPort :: u16
  udp_DestPort :: u16
  udp_Length :: u16
  udp_Checksum :: u16

record TCPHeader =
  tcp_SrcPort :: u16
  tcp_DestPort :: u16
  SequenceNum :: u32
  AckNum :: u32
  DataOffset :: u8
  tcp_Flags :: u8
  WindowSize :: u16
  tcp_Checksum :: u16
  UrgentPtr :: u16

definition eth_bytes :: "EthernetHeader \<Rightarrow> u8 list" where
  "eth_bytes h = eth_Dest h @ eth_Src h @ bytes16 (eth_Type h)"

definition arp_bytes :: "ARPHeader \<Rightarrow> u8 list" where
  "arp_bytes h = bytes16 (HardwareType h) @ bytes16 (ProtocolType h) @ [HardwareAddrLen h, ProtocolAddrLen h] @
     bytes16 (OpCode h) @ SrcMac h @ bytes32 (SrcIp h) @ DestMac h @ bytes32 (DestIp h)"

definition ip_bytes :: "IPv4Header \<Rightarrow> u8 list" where
  "ip_bytes h = [VersionIHL h, TOS h] @ bytes16 (TotalLength h) @ bytes16 (ip_ID h) @ bytes16 (FlagsFragment h) @
     [TTL h, Protocol h] @ bytes16 (HeaderChecksum h) @ bytes32 (SrcIP h) @ bytes32 (DestIP h)"

definition icmp_bytes :: "ICMPHeader \<Rightarrow> u8 list" where
  "icmp_bytes h = [icmp_Type h, icmp_Code h] @ bytes16 (icmp_Checksum h) @ bytes16 (icmp_ID h) @ bytes16 (icmp_Sequence h)"

definition udp_bytes :: "UDPHeader \<Rightarrow> u8 list" where
  "udp_bytes h = bytes16 (udp_SrcPort h) @ bytes16 (udp_DestPort h) @ bytes16 (udp_Length h) @ bytes16 (udp_Checksum h)"

definition tcp_bytes :: "TCPHeader \<Rightarrow> u8 list" where
  "tcp_bytes h = bytes16 (tcp_SrcPort h) @ bytes16 (tcp_DestPort h) @ bytes32 (SequenceNum h) @ bytes32 (AckNum h) @
     [DataOffset h, tcp_Flags h] @ bytes16 (WindowSize h) @ bytes16 (tcp_Checksum h) @ bytes16 (UrgentPtr h)"

text \<open>\<^verbatim>\<open>PseudoHeader\<close> of \<^verbatim>\<open>Include/network/ipv4.hpp\<close>.\<close>

definition pseudo_bytes :: "u32 \<Rightarrow> u32 \<Rightarrow> u8 \<Rightarrow> u16 \<Rightarrow> u8 list" where
  "pseudo_bytes src dest protocol len = bytes32 src @ bytes32 dest @ [0, protocol] @ bytes16 len"

section \<open>Byte order\<close>

lemma Swap16_Swap16 [simp]: "Swap16 (Swap16 v) = v"
proof (rule bit_word_eqI)
  fix n assume "n < LENGTH(16)"
  then show "bit (Swap16 (Swap16 v)) n = bit v n" by (auto simp: Swap16_def bit_simps dest: bit_imp_le_length)
qed

lemma bytes_length [simp]: "length (bytes16 v) = 2" "length (bytes32 w) = 4"
  by (simp_all add: bytes16_def bytes32_def)

lemma word16_bytes16 [simp]: "word16 (ucast v) (ucast (drop_bit 8 v)) = v"
proof (rule bit_word_eqI)
  fix n assume "n < LENGTH(16)"
  then show "bit (word16 (ucast v) (ucast (drop_bit 8 v))) n = bit v n"
    by (cases "n < 8") (auto simp: word16_def bit_simps dest: bit_imp_le_length)
qed

lemma word32_bytes32 [simp]: "word32 (ucast v) (ucast (drop_bit 8 v)) (ucast (drop_bit 16 v)) (ucast (drop_bit 24 v)) = v"
proof (rule bit_word_eqI)
  fix n assume "n < LENGTH(32)"
  then consider "n < 8" | "8 \<le> n" "n < 16" | "16 \<le> n" "n < 24" | "24 \<le> n" "n < 32" by fastforce
  then show "bit (word32 (ucast v) (ucast (drop_bit 8 v)) (ucast (drop_bit 16 v)) (ucast (drop_bit 24 v))) n = bit v n"
    by cases (auto simp: word32_def bit_simps dest: bit_imp_le_length)
qed

lemma get16_at: "length xs = i \<Longrightarrow> get16 (xs @ bytes16 v @ ys) i = Some v"
  by (simp add: get16_def bytes16_def nth_append)

lemma get32_at: "length xs = i \<Longrightarrow> get32 (xs @ bytes32 v @ ys) i = Some v"
  by (simp add: get32_def bytes32_def nth_append)

lemma get8_at: "length xs = i \<Longrightarrow> get8 (xs @ v # ys) i = Some v"
  by (simp add: get8_def nth_append)

section \<open>The checksum\<close>

text \<open>The sum of the 16-bit words of a packet, without wrap-around.\<close>

fun word_sum :: "u8 list \<Rightarrow> nat" where
  "word_sum (a # b # xs) = unat (word16 a b) + word_sum xs"
| "word_sum [a] = unat a"
| "word_sum [] = 0"

lemma word16_less: "unat (w :: u16) \<le> 65535"
  using unsigned_less [of w, where ?'a = nat] by simp

lemma word_sum_bound: "word_sum xs \<le> 65535 * ((length xs + 1) div 2)"
proof (induction xs rule: word_sum.induct)
  case (1 a b xs)
  then show ?case using word16_less [of "word16 a b"] by simp
next
  case (2 a)
  then show ?case using unsigned_less [of a, where ?'a = nat] by simp
qed simp

lemma sum_words_word_sum: "sum_words xs s = s + of_nat (word_sum xs)"
  by (induction xs s rule: sum_words.induct) (simp_all add: add.assoc)

lemma unat_sum_words:
  assumes "length xs \<le> 131070"
  shows "unat (sum_words xs 0) = word_sum xs"
proof -
  have "(length xs + 1) div 2 \<le> 65535" using assms by simp
  then have "65535 * ((length xs + 1) div 2) \<le> 65535 * (65535 :: nat)" by (rule mult_le_mono2)
  then have "word_sum xs < 2 ^ 32" using word_sum_bound [of xs] by simp
  then show ?thesis by (simp add: sum_words_word_sum unat_of_nat take_bit_nat_eq_self)
qed

lemma word_sum_append: "even (length xs) \<Longrightarrow> word_sum (xs @ ys) = word_sum xs + word_sum ys"
  by (induction xs rule: word_sum.induct) simp_all

lemma fold_carry_spec: "unat (fold_carry s) mod 65535 = unat s mod 65535 \<and> unat (fold_carry s) \<le> 65535 \<and> (fold_carry s = 0 \<longleftrightarrow> s = 0)"
proof (induction s rule: fold_carry.induct)
  case (1 s)
  show ?case
  proof (cases "drop_bit 16 s \<noteq> 0")
    case True
    let ?t = "(s AND 0xFFFF) + drop_bit 16 s"
    have f: "fold_carry s = fold_carry ?t" using True by (subst fold_carry.simps) simp
    have "unat s = unat s div 65536 * 65536 + unat s mod 65536" by simp
    also have "\<dots> = unat ?t + 65535 * (unat s div 65536)" by (simp add: unat_carry)
    finally have "unat s mod 65535 = unat ?t mod 65535" by (metis mod_mult_self2)
    moreover have "s \<noteq> 0" using True by auto
    moreover have "unat s div 65536 \<noteq> 0" using True carry_parts(2) [of s] by (metis unat_eq_0)
    then have "?t \<noteq> 0" using unat_carry [of s] by (metis add_is_0 unat_0)
    ultimately show ?thesis using "1.IH" [OF True] f by simp
  next
    case False
    then have "unat s div 65536 = 0" using carry_parts(2) [of s] by (metis unat_0)
    then show ?thesis using False by (subst (1 2 3) fold_carry.simps) (simp add: div_eq_0_iff)
  qed
qed

lemma unat_CalculateChecksum: "unat (CalculateChecksum xs) = 65535 - unat (fold_carry (sum_words xs 0))"
proof -
  let ?f = "fold_carry (sum_words xs 0)"
  have le: "unat ?f \<le> 65535" using fold_carry_spec by blast
  have "NOT ?f = 0xFFFFFFFF - ?f" by (simp add: not_eq_complement)
  moreover have "unat (0xFFFFFFFF - ?f) = 4294967295 - unat ?f" using le by (simp add: unat_sub_if_size)
  moreover have "4294967295 - unat ?f = 65535 * 65536 + (65535 - unat ?f)" using le by simp
  then have "(4294967295 - unat ?f) mod 65536 = 65535 - unat ?f" by (simp only: mod_mult_self3) simp
  ultimately show ?thesis by (simp add: CalculateChecksum_def unsigned_ucast_eq take_bit_eq_mod)
qed

text \<open>Storing the checksum of a packet in the two zero bytes it was computed with makes the checksum of
  the whole packet zero, which is how a receiver verifies it.\<close>

lemma checksum_verifies:
  assumes "even (length xs)" and "length xs + length ys \<le> 131068"
  shows "CalculateChecksum (xs @ bytes16 (CalculateChecksum (xs @ [0, 0] @ ys)) @ ys) = 0"
proof -
  let ?z = "xs @ [0, 0] @ ys"
  let ?c = "CalculateChecksum ?z"
  let ?f = "fold_carry (sum_words ?z 0)"
  let ?s = "sum_words (xs @ bytes16 ?c @ ys) 0"
  have S: "unat (sum_words ?z 0) = word_sum xs + word_sum ys"
    using assms unat_sum_words [of ?z] by (simp add: word_sum_append word16_def)
  have f: "unat ?f mod 65535 = unat (sum_words ?z 0) mod 65535" "unat ?f \<le> 65535" "?f = 0 \<longleftrightarrow> sum_words ?z 0 = 0"
    using fold_carry_spec [of "sum_words ?z 0"] by auto
  have "word_sum (bytes16 ?c @ ys) = unat ?c + word_sum ys" by (simp add: bytes16_def)
  then have T: "unat ?s = unat (sum_words ?z 0) + (65535 - unat ?f)"
    using assms unat_sum_words [of "xs @ bytes16 ?c @ ys"] S unat_CalculateChecksum [of ?z] by (simp add: word_sum_append)
  have "unat ?s mod 65535 = (unat ?f + (65535 - unat ?f)) mod 65535"
    unfolding T by (rule mod_add_cong [OF f(1) [symmetric] refl])
  then have "unat ?s mod 65535 = 0" using f(2) by simp
  moreover have "?s \<noteq> 0"
  proof
    assume "?s = 0"
    then have "unat (sum_words ?z 0) = 0" "unat ?f = 65535" using T f(2) by simp_all
    then show False using f(3) by (simp add: unat_eq_0)
  qed
  ultimately have "unat (fold_carry ?s) = 65535"
    using fold_carry_spec [of ?s] by (auto simp: mod_if unat_eq_0 split: if_splits)
  then show ?thesis using unat_CalculateChecksum [of "xs @ bytes16 ?c @ ys"] by (simp add: unat_eq_0 [symmetric])
qed

end
