(* ===== verification/Net_Ring.thy ===== *)
theory Net_Ring
  imports Kernel_Prelude "HOL-Library.Monad_Syntax"
begin

text \<open>
  The receive buffers of the TCP, UDP and ICMP sockets (\<^verbatim>\<open>kernel/lib/network\<close>): a ring in which a new byte
  overwrites the oldest one when the ring is full. The three socket types share the four fields
  and the loops, which are stated here once. The locale \<open>window_queue\<close> is what the protocols rely on.
\<close>

section \<open>Model\<close>

record ring =
  RecvBuffer :: "u8 list option"
  RecvBufferSize :: u32
  RecvWritePtr :: u32
  RecvReadPtr :: u32

definition push_byte :: "u8 \<Rightarrow> ring \<Rightarrow> ring option" where
  "push_byte x r =
     (case RecvBuffer r of
        None \<Rightarrow> None
      | Some b \<Rightarrow>
          if length b \<le> unat (RecvWritePtr r) \<or> RecvBufferSize r = 0 then None
          else
            let w = (RecvWritePtr r + 1) mod RecvBufferSize r;
                r' = r\<lparr>RecvBuffer := Some (b[unat (RecvWritePtr r) := x]), RecvWritePtr := w\<rparr> in
            Some (if w = RecvReadPtr r then r'\<lparr>RecvReadPtr := (RecvReadPtr r + 1) mod RecvBufferSize r\<rparr> else r'))"

fun push_bytes :: "u8 list \<Rightarrow> ring \<Rightarrow> ring option" where
  "push_bytes [] r = Some r"
| "push_bytes (x # xs) r = Option.bind (push_byte x r) (push_bytes xs)"

text \<open>The loop of \<^verbatim>\<open>TCPRecv\<close>, \<^verbatim>\<open>UDPRecv\<close> and \<^verbatim>\<open>ICMPRecv\<close>: at most \<open>n\<close> bytes, and only what is there.\<close>

fun ring_recv :: "nat \<Rightarrow> ring \<Rightarrow> (u8 list \<times> ring) option" where
  "ring_recv 0 r = Some ([], r)"
| "ring_recv (Suc n) r =
     (if RecvReadPtr r = RecvWritePtr r then Some ([], r)
      else case RecvBuffer r of
        None \<Rightarrow> None
      | Some b \<Rightarrow>
          if length b \<le> unat (RecvReadPtr r) \<or> RecvBufferSize r = 0 then None
          else map_option (\<lambda>(xs, r'). (b ! unat (RecvReadPtr r) # xs, r'))
            (ring_recv n (r\<lparr>RecvReadPtr := (RecvReadPtr r + 1) mod RecvBufferSize r\<rparr>)))"

text \<open>\<^verbatim>\<open>UsedBuffer\<close> of \<^verbatim>\<open>SendTCPRaw\<close> and \<^verbatim>\<open>TCPRecv\<close>.\<close>

definition UsedBuffer :: "ring \<Rightarrow> u32" where
  "UsedBuffer r =
     (if RecvReadPtr r \<le> RecvWritePtr r then RecvWritePtr r - RecvReadPtr r
      else RecvBufferSize r - (RecvReadPtr r - RecvWritePtr r))"

section \<open>The interface\<close>

definition last_n :: "nat \<Rightarrow> 'a list \<Rightarrow> 'a list" where
  "last_n n xs = drop (length xs - n) xs"

lemma last_n_short [simp]: "length xs \<le> n \<Longrightarrow> last_n n xs = xs"
  by (simp add: last_n_def)

lemma length_last_n [simp]: "length (last_n n xs) = min n (length xs)"
  by (simp add: last_n_def)

lemma last_n_tl: "length ys = Suc n \<Longrightarrow> last_n n ys = tl ys"
  by (simp add: last_n_def drop_Suc)

lemma last_n_append: "last_n n (last_n n xs @ ys) = last_n n (xs @ ys)"
  by (cases "length xs \<le> n") (auto simp: last_n_def add.commute)

locale window_queue =
  fixes wf :: "'q \<Rightarrow> bool" and contents :: "'q \<Rightarrow> 'b list" and capacity :: "'q \<Rightarrow> nat"
    and push :: "'b \<Rightarrow> 'q \<Rightarrow> 'q option" and recv :: "nat \<Rightarrow> 'q \<Rightarrow> ('b list \<times> 'q) option"
  assumes push_law: "wf q \<Longrightarrow> \<exists>q'. push x q = Some q' \<and> wf q' \<and> capacity q' = capacity q \<and>
      contents q' = last_n (capacity q) (contents q @ [x])"
    and recv_law: "wf q \<Longrightarrow> \<exists>q'. recv n q = Some (take n (contents q), q') \<and> wf q' \<and> capacity q' = capacity q \<and>
      contents q' = drop n (contents q)"
    and contents_bound: "wf q \<Longrightarrow> length (contents q) \<le> capacity q"
begin

primrec push_list :: "'b list \<Rightarrow> 'q \<Rightarrow> 'q option" where
  "push_list [] q = Some q"
| "push_list (x # xs) q = Option.bind (push x q) (push_list xs)"

text \<open>What is pushed comes out in order; only the oldest bytes are lost, and only when the window is full.\<close>

lemma push_list_window:
  "wf q \<Longrightarrow> \<exists>q'. push_list xs q = Some q' \<and> wf q' \<and> capacity q' = capacity q \<and> contents q' = last_n (capacity q) (contents q @ xs)"
proof (induction xs arbitrary: q)
  case Nil
  then show ?case using contents_bound [of q] by simp
next
  case (Cons x xs)
  from push_law [OF Cons.prems] obtain q1 where q1: "push x q = Some q1" "wf q1" "capacity q1 = capacity q"
    "contents q1 = last_n (capacity q) (contents q @ [x])" by blast
  from Cons.IH [OF q1(2)] obtain q2 where "push_list xs q1 = Some q2" "wf q2" "capacity q2 = capacity q1"
    "contents q2 = last_n (capacity q1) (contents q1 @ xs)" by blast
  with q1 show ?case by (simp add: last_n_append)
qed

end

section \<open>The ring implements it\<close>

definition wf_ring :: "ring \<Rightarrow> bool" where
  "wf_ring r \<longleftrightarrow> (\<exists>b. RecvBuffer r = Some b \<and> length b = unat (RecvBufferSize r)) \<and> 1 < RecvBufferSize r \<and>
     RecvBufferSize r < 0x80000000 \<and> RecvWritePtr r < RecvBufferSize r \<and> RecvReadPtr r < RecvBufferSize r"

definition ring_used :: "ring \<Rightarrow> nat" where
  "ring_used r = (unat (RecvWritePtr r) + unat (RecvBufferSize r) - unat (RecvReadPtr r)) mod unat (RecvBufferSize r)"

definition ring_contents :: "ring \<Rightarrow> u8 list" where
  "ring_contents r = map (\<lambda>k. the (RecvBuffer r) ! ((unat (RecvReadPtr r) + k) mod unat (RecvBufferSize r))) [0..<ring_used r]"

definition ring_capacity :: "ring \<Rightarrow> nat" where
  "ring_capacity r = unat (RecvBufferSize r) - 1"

lemma wf_ringD:
  assumes "wf_ring r"
  shows "length (the (RecvBuffer r)) = unat (RecvBufferSize r)" "RecvBuffer r = Some (the (RecvBuffer r))"
    "1 < unat (RecvBufferSize r)" "unat (RecvWritePtr r) < unat (RecvBufferSize r)" "unat (RecvReadPtr r) < unat (RecvBufferSize r)"
    "unat (RecvBufferSize r) < 2147483648"
  using assms by (auto simp: wf_ring_def word_less_nat_alt)

lemma ring_unat_step:
  assumes "unat p < unat n" and "unat n < 2147483648"
  shows "unat ((p + 1) mod n) = (unat p + 1) mod unat (n :: u32)"
  using assms by (simp add: unat_mod unat_word_ariths)

lemma ring_used_less: "wf_ring r \<Longrightarrow> ring_used r < unat (RecvBufferSize r)"
  using wf_ringD(3) [of r] by (simp add: ring_used_def)

lemma ring_used_iff: "wf_ring r \<Longrightarrow> ring_used r = 0 \<longleftrightarrow> RecvReadPtr r = RecvWritePtr r"
  using wf_ringD [of r] by (auto simp: ring_used_def word_unat_eq_iff mod_if split: if_splits)

lemma ring_write: "wf_ring r \<Longrightarrow> (unat (RecvReadPtr r) + ring_used r) mod unat (RecvBufferSize r) = unat (RecvWritePtr r)"
  using wf_ringD [of r] by (auto simp: ring_used_def mod_if split: if_splits)

lemma mod_index_inj: "(r + k) mod n = (r + j) mod n \<Longrightarrow> k < n \<Longrightarrow> j < n \<Longrightarrow> k = j" for r n k j :: nat
proof (induction k j rule: linorder_wlog)
  case (le k j)
  then have "n dvd j - k" using mod_eq_dvd_iff_nat [of "r + k" "r + j" n] by simp
  then show ?case using le by (metis dvd_imp_mod_0 le_add_diff_inverse less_imp_diff_less mod_less add_0_right)
qed simp

lemma ring_push:
  assumes "wf_ring r"
  shows "\<exists>r'. push_byte x r = Some r' \<and> wf_ring r' \<and> ring_capacity r' = ring_capacity r \<and>
    ring_contents r' = last_n (ring_capacity r) (ring_contents r @ [x])"
proof -
  define b n R W u where "b = the (RecvBuffer r)" and "n = unat (RecvBufferSize r)" and "R = unat (RecvReadPtr r)"
    and "W = unat (RecvWritePtr r)" and "u = ring_used r"
  note defs = b_def n_def R_def W_def u_def
  have D: "length b = n" "RecvBuffer r = Some b" "1 < n" "W < n" "R < n" "n < 2147483648"
    using wf_ringD [OF assms] by (simp_all add: defs)
  have nz: "RecvBufferSize r \<noteq> 0" using D(3) by (auto simp: n_def)
  have u: "u < n" "(R + u) mod n = W" using ring_used_less [OF assms] ring_write [OF assms] by (simp_all add: defs)
  have step: "unat ((RecvWritePtr r + 1) mod RecvBufferSize r) = (W + 1) mod n" "unat ((RecvReadPtr r + 1) mod RecvBufferSize r) = (R + 1) mod n"
    using D(4-6) ring_unat_step by (simp_all add: defs)
  let ?b = "b[W := x]"
  have pushed: "map (\<lambda>k. ?b ! ((R + k) mod n)) [0..<Suc u] = ring_contents r @ [x]"
  proof -
    have "?b ! ((R + k) mod n) = b ! ((R + k) mod n)" if "k < u" for k
      using that u mod_index_inj [of R k n u] by (metis nth_list_update_neq less_trans nat_neq_iff)
    then show ?thesis using u(2) D(1,4) by (simp add: ring_contents_def defs)
  qed
  have len: "length (ring_contents r) = u" by (simp add: ring_contents_def u_def)
  show ?thesis
  proof (cases "Suc u < n")
    case True
    have ne: "(W + 1) mod n \<noteq> R"
    proof
      assume "(W + 1) mod n = R"
      then have "(R + Suc u) mod n = (R + 0) mod n" using u(2) D(5) by (metis Suc_eq_plus1 add.assoc add_0_right mod_add_left_eq mod_less)
      then show False using mod_index_inj [of R "Suc u" n 0] True by simp
    qed
    then have neq: "(RecvWritePtr r + 1) mod RecvBufferSize r \<noteq> RecvReadPtr r" using step(1) by (auto simp: R_def)
    define r' where "r' = r\<lparr>RecvBuffer := Some ?b, RecvWritePtr := (RecvWritePtr r + 1) mod RecvBufferSize r\<rparr>"
    have run: "push_byte x r = Some r'"
      using D(1,2,4) nz neq unfolding push_byte_def r'_def by (simp add: Let_def W_def)
    have "ring_used r' = Suc u"
    proof -
      have "ring_used r' = ((W + 1) mod n + n - R) mod n" using step by (simp add: ring_used_def r'_def n_def R_def)
      also have "\<dots> = (R + Suc u + n - R) mod n"
        using u(2) D(5) by (metis Nat.add_diff_assoc Suc_eq_plus1 add.assoc less_imp_le_nat mod_add_left_eq)
      also have "\<dots> = (Suc u + n) mod n" by simp
      finally show ?thesis using True by (simp only: mod_add_self2 mod_less)
    qed
    then have "ring_contents r' = ring_contents r @ [x]"
      using pushed by (simp add: ring_contents_def r'_def n_def R_def)
    moreover have "wf_ring r'" using assms step D by (auto simp: wf_ring_def r'_def word_less_nat_alt n_def)
    ultimately show ?thesis using run len True by (simp add: ring_capacity_def r'_def n_def)
  next
    case False
    then have un: "Suc u = n" using u(1) by simp
    have wr: "(W + 1) mod n = R"
    proof -
      have "(W + 1) mod n = (R + Suc u) mod n" using u(2) by (metis Suc_eq_plus1 add.assoc mod_add_left_eq)
      then show ?thesis using un D(5) by simp
    qed
    then have eq: "(RecvWritePtr r + 1) mod RecvBufferSize r = RecvReadPtr r" using step(1) by (simp add: word_unat_eq_iff R_def)
    define r' where "r' = r\<lparr>RecvBuffer := Some ?b, RecvWritePtr := RecvReadPtr r, RecvReadPtr := (RecvReadPtr r + 1) mod RecvBufferSize r\<rparr>"
    have run: "push_byte x r = Some r'"
      using D(1,2,4) nz eq unfolding push_byte_def r'_def by (simp add: Let_def W_def)
    have used: "ring_used r' = u"
    proof (cases "R + 1 < n")
      case True
      then show ?thesis using step(2) un D(3) by (simp add: ring_used_def r'_def n_def [symmetric] R_def [symmetric])
    next
      case False
      then have "R + 1 = n" using D(5) by simp
      then show ?thesis using step(2) un by (simp add: ring_used_def r'_def n_def [symmetric] R_def [symmetric])
    qed
    have "ring_contents r' = map (\<lambda>k. ?b ! ((R + Suc k) mod n)) [0..<u]"
      using used step(2) by (simp add: ring_contents_def r'_def n_def R_def mod_add_left_eq)
    also have "\<dots> = tl (map (\<lambda>k. ?b ! ((R + k) mod n)) [0..<Suc u])"
      by (simp only: upt_rec [of 0 "Suc u"] map_Suc_upt [symmetric]) (simp add: comp_def)
    finally have "ring_contents r' = last_n u (ring_contents r @ [x])" using pushed len last_n_tl [of "ring_contents r @ [x]" u] by simp
    moreover have "wf_ring r'" using assms step D by (auto simp: wf_ring_def r'_def word_less_nat_alt n_def)
    ultimately show ?thesis using run un by (auto simp: ring_capacity_def r'_def n_def [symmetric])
  qed
qed

lemma ring_recv_law:
  "wf_ring r \<Longrightarrow> \<exists>r'. ring_recv m r = Some (take m (ring_contents r), r') \<and> wf_ring r' \<and> ring_capacity r' = ring_capacity r \<and>
    ring_contents r' = drop m (ring_contents r)"
proof (induction m arbitrary: r)
  case (Suc m)
  note D = wf_ringD [OF Suc.prems]
  let ?n = "unat (RecvBufferSize r)" and ?R = "unat (RecvReadPtr r)"
  show ?case
  proof (cases "RecvReadPtr r = RecvWritePtr r")
    case True
    then have "ring_contents r = []" using ring_used_iff [OF Suc.prems] by (simp add: ring_contents_def)
    then show ?thesis using True Suc.prems by simp
  next
    case False
    define r1 where "r1 = r\<lparr>RecvReadPtr := (RecvReadPtr r + 1) mod RecvBufferSize r\<rparr>"
    have st: "unat ((RecvReadPtr r + 1) mod RecvBufferSize r) = (?R + 1) mod ?n" using ring_unat_step [of "RecvReadPtr r"] D by simp
    obtain u where u: "ring_used r = Suc u" using ring_used_iff [OF Suc.prems] False by (cases "ring_used r") auto
    have wf1: "wf_ring r1" using Suc.prems D st by (auto simp: wf_ring_def r1_def word_less_nat_alt)
    have "ring_used r1 = u"
    proof -
      have "ring_used r1 = (unat (RecvWritePtr r) + ?n - (?R + 1) mod ?n) mod ?n" by (simp add: ring_used_def r1_def st)
      moreover have "Suc u = (unat (RecvWritePtr r) + ?n - ?R) mod ?n" using u by (simp add: ring_used_def)
      ultimately show ?thesis using D(3-5) by (auto simp: mod_if split: if_splits)
    qed
    then have "ring_contents r = the (RecvBuffer r) ! ?R # ring_contents r1"
      using u D(5) by (simp add: ring_contents_def r1_def st upt_rec [of 0 "Suc u"] map_Suc_upt [symmetric] comp_def mod_add_left_eq del: upt_Suc)
    moreover have "ring_recv (Suc m) r = map_option (\<lambda>(xs, r'). (the (RecvBuffer r) ! ?R # xs, r')) (ring_recv m r1)"
      using False D by (subst (1) D(2)) (auto simp: r1_def split: option.split)
    moreover from Suc.IH [OF wf1] obtain r' where "ring_recv m r1 = Some (take m (ring_contents r1), r')" "wf_ring r'"
      "ring_capacity r' = ring_capacity r1" "ring_contents r' = drop m (ring_contents r1)" by blast
    ultimately show ?thesis by (simp add: ring_capacity_def r1_def)
  qed
qed simp

interpretation rx: window_queue wf_ring ring_contents ring_capacity push_byte ring_recv
proof
  fix q :: ring assume "wf_ring q"
  then show "length (ring_contents q) \<le> ring_capacity q"
    using ring_used_less [of q] by (simp add: ring_contents_def ring_capacity_def)
qed (fact ring_push ring_recv_law)+

lemma push_bytes_list: "push_bytes xs = rx.push_list xs"
  by (induction xs) (rule ext, simp)+

lemmas push_bytes_window = rx.push_list_window [folded push_bytes_list]

lemma UsedBuffer_used:
  assumes "wf_ring r"
  shows "unat (UsedBuffer r) = ring_used r"
  using wf_ringD [OF assms] by (auto simp: UsedBuffer_def ring_used_def word_le_nat_alt unat_sub_if_size mod_if split: if_splits)

end
