(* ===== verification/Net_Stack.thy ===== *)
theory Net_Stack
  imports Net_Bytes Net_Ring
begin

text \<open>
  The state of the network stack and what it sends, \<^verbatim>\<open>kernel/lib/network/ethernetstack.cpp\<close>: the ARP cache, the
  packet that waits for an address, the UDP and ICMP sockets, and the frames that go out. The network
  card is the record's first fields and the list of the frames handed to \<^verbatim>\<open>SendRawPacket\<close>. Payloads are byte
  lists; a length field is the length of its list, cut to the field's width where the code cuts it.
  Allocation of packet buffers is taken to succeed.
\<close>

section \<open>Model\<close>

abbreviation ETHER_TYPE_IP :: u16 where "ETHER_TYPE_IP \<equiv> 0x0800"
abbreviation ETHER_TYPE_ARP :: u16 where "ETHER_TYPE_ARP \<equiv> 0x0806"
abbreviation ARP_OP_REQUEST :: u16 where "ARP_OP_REQUEST \<equiv> 1"
abbreviation ARP_OP_REPLY :: u16 where "ARP_OP_REPLY \<equiv> 2"
abbreviation IP_PROTOCOL_ICMP :: u8 where "IP_PROTOCOL_ICMP \<equiv> 1"
abbreviation IP_PROTOCOL_TCP :: u8 where "IP_PROTOCOL_TCP \<equiv> 6"
abbreviation IP_PROTOCOL_UDP :: u8 where "IP_PROTOCOL_UDP \<equiv> 17"

record ARPEntry =
  IPAddr :: u32
  MACAddr :: "u8 list"
  arp_Valid :: bool

record PendingPacket =
  pend_Valid :: bool
  pend_Protocol :: u8
  TargetIP :: u32
  pend_SrcPort :: u16
  pend_DestPort :: u16
  pend_Payload :: "u8 list"

record UDPSocket =
  udp_Allocated :: bool
  udp_LocalPort :: u16
  udp_RemoteIP :: u32
  udp_RemotePort :: u16
  udp_Id :: u16
  udp_ring :: ring
  last_SrcIP :: u32
  last_SrcPort :: u16
  last_Length :: u32

record ICMPSocket =
  icmp_Allocated :: bool
  icmp_SockID :: u16
  icmp_ring :: ring

datatype TCPState = CLOSED | LISTEN | SYN_SENT | SYN_RCVD | ESTABLISHED | FIN_WAIT_1 | FIN_WAIT_2 | LAST_ACK | TIME_WAIT | CLOSE_WAIT

record TCPSegmentNode =
  seg_Sequence :: u32
  seg_Payload :: "u8 list"

record TCPSocket =
  tcp_Allocated :: bool
  SockID :: u16
  State :: TCPState
  LocalIP :: u32
  RemoteIP :: u32
  LocalPort :: u16
  RemotePort :: u16
  MySequence :: u32
  TargetSequence :: u32
  LastSendTime :: u32
  WaitingAck :: bool
  LastPacket :: "u8 list option"
  LastPacketLen :: u16
  LastFlags :: u8
  tcp_ring :: ring
  Domain :: "u8 list option"
  OOOList :: "TCPSegmentNode list"

datatype DHCPState = DHCP_NONE | DHCP_DISCOVER_SENT | DHCP_REQUEST_SENT | DHCP_BOUND

record DHCPClientInfo =
  info_RequestedIP :: u32
  info_ServerIP :: u32
  info_SubnetMask :: u32
  info_GatewayIP :: u32
  info_DnsServer :: u32

record net =
  Mac :: "u8 list"
  card_IP :: u32
  Gateway :: u32
  SubnetMask :: u32
  DnsServer :: u32
  sent :: "u8 list list"
  ArpCache :: "ARPEntry list"
  g_PendingUDP :: PendingPacket
  UdpSocketTable :: "UDPSocket list"
  IcmpSocketTable :: "ICMPSocket list"
  SocketTable :: "TCPSocket list"
  TickCount :: u32
  m_Pool :: u32
  g_State :: DHCPState
  g_DHCPInfo :: DHCPClientInfo

definition SendRawPacket :: "u8 list \<Rightarrow> net \<Rightarrow> net" where
  "SendRawPacket frame s = s\<lparr>sent := sent s @ [frame]\<rparr>"

subsection \<open>The ARP cache\<close>

definition GetMacFromCache :: "u32 \<Rightarrow> net \<Rightarrow> u8 list option" where
  "GetMacFromCache target s =
     (if target = 0xFFFFFFFF then Some (replicate 6 0xFF)
      else map_option (\<lambda>i. MACAddr (ArpCache s ! i)) (find_index (\<lambda>e. arp_Valid e \<and> IPAddr e = target) (ArpCache s)))"

definition UpdateArpCache :: "u32 \<Rightarrow> u8 list \<Rightarrow> net \<Rightarrow> net" where
  "UpdateArpCache ip mac s =
     (case find_index (\<lambda>e. arp_Valid e \<and> IPAddr e = ip) (ArpCache s) of
        Some i \<Rightarrow> s\<lparr>ArpCache := (ArpCache s)[i := (ArpCache s ! i)\<lparr>MACAddr := mac\<rparr>]\<rparr>
      | None \<Rightarrow>
          (case find_index (\<lambda>e. \<not> arp_Valid e) (ArpCache s) of
             Some i \<Rightarrow> s\<lparr>ArpCache := (ArpCache s)[i := \<lparr>IPAddr = ip, MACAddr = mac, arp_Valid = True\<rparr>]\<rparr>
           | None \<Rightarrow> s))"

subsection \<open>Sockets\<close>

definition new_ring :: "u32 \<Rightarrow> ring" where
  "new_ring n = \<lparr>RecvBuffer = Some (replicate (unat n) 0), RecvBufferSize = n, RecvWritePtr = 0, RecvReadPtr = 0\<rparr>"

definition GetICMPSocket :: "u16 \<Rightarrow> net \<Rightarrow> nat option" where
  "GetICMPSocket sid s = find_index (\<lambda>k. icmp_Allocated k \<and> icmp_SockID k = sid) (IcmpSocketTable s)"

definition ICMPOpen :: "u16 \<Rightarrow> net \<Rightarrow> nat option \<times> net" where
  "ICMPOpen sid s =
     (if GetICMPSocket sid s \<noteq> None then (None, s)
      else case find_index (\<lambda>k. \<not> icmp_Allocated k) (IcmpSocketTable s) of
        None \<Rightarrow> (None, s)
      | Some i \<Rightarrow>
          (Some i, s\<lparr>IcmpSocketTable := (IcmpSocketTable s)[i := (IcmpSocketTable s ! i)\<lparr>icmp_Allocated := True, icmp_SockID := sid,
             icmp_ring := new_ring 2048\<rparr>]\<rparr>))"

definition ICMPClose :: "nat \<Rightarrow> net \<Rightarrow> net" where
  "ICMPClose i s =
     (let k = IcmpSocketTable s ! i in
      if icmp_Allocated k then
        s\<lparr>IcmpSocketTable := (IcmpSocketTable s)[i := k\<lparr>icmp_Allocated := False,
          icmp_ring := (icmp_ring k)\<lparr>RecvBuffer := None, RecvBufferSize := 0\<rparr>\<rparr>]\<rparr>
      else s)"

definition ICMPRecv :: "nat \<Rightarrow> nat \<Rightarrow> net \<Rightarrow> (u8 list \<times> net) option" where
  "ICMPRecv i maxlen s =
     (let k = IcmpSocketTable s ! i in
      if \<not> icmp_Allocated k then Some ([], s)
      else map_option (\<lambda>(xs, r). (xs, s\<lparr>IcmpSocketTable := (IcmpSocketTable s)[i := k\<lparr>icmp_ring := r\<rparr>]\<rparr>)) (ring_recv maxlen (icmp_ring k)))"

definition GetUDPSocket :: "u16 \<Rightarrow> net \<Rightarrow> nat option" where
  "GetUDPSocket port s = find_index (\<lambda>k. udp_Allocated k \<and> udp_LocalPort k = port) (UdpSocketTable s)"

definition AllocateUDPSocket :: "net \<Rightarrow> nat option \<times> net" where
  "AllocateUDPSocket s =
     (case find_index (\<lambda>k. \<not> udp_Allocated k) (UdpSocketTable s) of
        None \<Rightarrow> (None, s)
      | Some i \<Rightarrow>
          (Some i, s\<lparr>UdpSocketTable := (UdpSocketTable s)[i := (UdpSocketTable s ! i)\<lparr>udp_Allocated := True, udp_Id := of_nat i,
             udp_ring := new_ring 4096, udp_LocalPort := 50000 + of_nat i, udp_RemoteIP := 0, udp_RemotePort := 0\<rparr>]\<rparr>))"

definition UDPListen :: "u16 \<Rightarrow> net \<Rightarrow> nat option \<times> net" where
  "UDPListen port s =
     (if GetUDPSocket port s \<noteq> None then (None, s)
      else case find_index (\<lambda>k. \<not> udp_Allocated k) (UdpSocketTable s) of
        None \<Rightarrow> (None, s)
      | Some i \<Rightarrow>
          (Some i, s\<lparr>UdpSocketTable := (UdpSocketTable s)[i := (UdpSocketTable s ! i)\<lparr>udp_Allocated := True, udp_LocalPort := port,
             udp_ring := new_ring 4096\<rparr>]\<rparr>))"

definition UDPRecv :: "nat \<Rightarrow> nat \<Rightarrow> net \<Rightarrow> (u8 list \<times> net) option" where
  "UDPRecv i maxlen s =
     (let k = UdpSocketTable s ! i in
      if \<not> udp_Allocated k then Some ([], s)
      else map_option (\<lambda>(xs, r). (xs, s\<lparr>UdpSocketTable := (UdpSocketTable s)[i := k\<lparr>udp_ring := r\<rparr>]\<rparr>)) (ring_recv maxlen (udp_ring k)))"

definition UDPClose :: "nat \<Rightarrow> net \<Rightarrow> net" where
  "UDPClose i s =
     (let k = UdpSocketTable s ! i in
      if udp_Allocated k then
        s\<lparr>UdpSocketTable := (UdpSocketTable s)[i := k\<lparr>udp_Allocated := False,
          udp_ring := (udp_ring k)\<lparr>RecvBuffer := None, RecvBufferSize := 0\<rparr>\<rparr>]\<rparr>
      else s)"

subsection \<open>Frames\<close>

text \<open>The IPv4 header all senders fill in, with its checksum.\<close>

definition make_ip :: "u8 \<Rightarrow> u16 \<Rightarrow> u32 \<Rightarrow> u32 \<Rightarrow> IPv4Header" where
  "make_ip protocol len src dest =
     (let h = \<lparr>VersionIHL = push_bit 4 4 OR 5, TOS = 0, TotalLength = Swap16 len, ip_ID = Swap16 0, FlagsFragment = Swap16 0x4000,
                TTL = 64, Protocol = protocol, HeaderChecksum = 0, SrcIP = src, DestIP = dest\<rparr> in
      h\<lparr>HeaderChecksum := CalculateChecksum (ip_bytes h)\<rparr>)"

definition make_eth :: "u8 list \<Rightarrow> u16 \<Rightarrow> net \<Rightarrow> EthernetHeader" where
  "make_eth dest type s = \<lparr>eth_Dest = dest, eth_Src = Mac s, eth_Type = Swap16 type\<rparr>"

definition SendARPRequest :: "u32 \<Rightarrow> net \<Rightarrow> net" where
  "SendARPRequest target s =
     (let frame = eth_bytes (make_eth (replicate 6 0xFF) ETHER_TYPE_ARP s) @
            arp_bytes \<lparr>HardwareType = Swap16 1, ProtocolType = Swap16 0x0800, HardwareAddrLen = 6, ProtocolAddrLen = 4,
              OpCode = Swap16 ARP_OP_REQUEST, SrcMac = Mac s, SrcIp = card_IP s, DestMac = replicate 6 0, DestIp = target\<rparr> in
      SendRawPacket (frame @ replicate (64 - length frame) 0) s)"

definition next_hop :: "u32 \<Rightarrow> net \<Rightarrow> u32" where
  "next_hop dest s =
     (if dest = 0xFFFFFFFF then dest
      else if dest AND SubnetMask s = card_IP s AND SubnetMask s then dest
      else Gateway s)"

text \<open>Keep the packet until the address of its next hop is known.\<close>

definition queue_packet :: "u32 \<Rightarrow> u8 \<Rightarrow> u16 \<Rightarrow> u16 \<Rightarrow> u8 list \<Rightarrow> net \<Rightarrow> net" where
  "queue_packet target protocol sport dport data s =
     s\<lparr>g_PendingUDP := \<lparr>pend_Valid = True, pend_Protocol = protocol, TargetIP = target, pend_SrcPort = sport, pend_DestPort = dport,
         pend_Payload = data\<rparr>\<rparr>"

definition udp_frame :: "u8 list \<Rightarrow> u32 \<Rightarrow> u16 \<Rightarrow> u16 \<Rightarrow> u8 list \<Rightarrow> net \<Rightarrow> u8 list" where
  "udp_frame mac dest sport dport data s =
     eth_bytes (make_eth mac ETHER_TYPE_IP s) @
     ip_bytes (make_ip IP_PROTOCOL_UDP (20 + 8 + of_nat (length data)) (card_IP s) dest) @
     udp_bytes \<lparr>udp_SrcPort = Swap16 sport, udp_DestPort = Swap16 dport, udp_Length = Swap16 (8 + of_nat (length data)), udp_Checksum = 0\<rparr> @
     data"

definition SendUDP :: "u32 \<Rightarrow> u16 \<Rightarrow> u16 \<Rightarrow> u8 list \<Rightarrow> net \<Rightarrow> bool \<times> net" where
  "SendUDP dest sport dport data s =
     (let hop = next_hop dest s in
      case (if hop = 0xFFFFFFFF then Some (replicate 6 0xFF) else GetMacFromCache hop s) of
        None \<Rightarrow> (False, SendARPRequest hop (queue_packet dest IP_PROTOCOL_UDP sport dport data s))
      | Some mac \<Rightarrow> (True, SendRawPacket (udp_frame mac dest sport dport data s) s))"

definition icmp_frame :: "u8 list \<Rightarrow> u32 \<Rightarrow> u16 \<Rightarrow> u16 \<Rightarrow> u8 list \<Rightarrow> net \<Rightarrow> u8 list" where
  "icmp_frame mac dest sq sid data s =
     (let h = \<lparr>icmp_Type = 8, icmp_Code = 0, icmp_Checksum = 0, icmp_ID = Swap16 sid, icmp_Sequence = Swap16 sq\<rparr> in
      eth_bytes (make_eth mac ETHER_TYPE_IP s) @
      ip_bytes (make_ip IP_PROTOCOL_ICMP (20 + 8 + of_nat (length data)) (card_IP s) dest) @
      icmp_bytes (h\<lparr>icmp_Checksum := CalculateChecksum (icmp_bytes h @ data)\<rparr>) @ data)"

definition SendICMP :: "u32 \<Rightarrow> u16 \<Rightarrow> u16 \<Rightarrow> u8 list \<Rightarrow> net \<Rightarrow> bool \<times> net" where
  "SendICMP dest sq sid data s =
     (let hop = next_hop dest s in
      case GetMacFromCache hop s of
        None \<Rightarrow> (False, SendARPRequest hop (queue_packet dest IP_PROTOCOL_ICMP sid sq data s))
      | Some mac \<Rightarrow> (True, SendRawPacket (icmp_frame mac dest sq sid data s) s))"

definition ascii_bytes :: "string \<Rightarrow> u8 list" where
  "ascii_bytes cs = map of_char cs"

definition SendPing :: "u32 \<Rightarrow> u8 list \<Rightarrow> net \<Rightarrow> net" where
  "SendPing target mac s = SendRawPacket (icmp_frame mac target 1 0x1234 (ascii_bytes ''Ping Manual Bypass ARP'') s) s"

section \<open>Layout of the frames\<close>

lemma eth_bytes_length [simp]: "length (eth_bytes h) = length (eth_Dest h) + length (eth_Src h) + 2"
  by (simp add: eth_bytes_def)

lemma header_lengths [simp]: "length (ip_bytes h) = 20" "length (udp_bytes u) = 8" "length (icmp_bytes i) = 8" "length (tcp_bytes t) = 20"
  "length (pseudo_bytes a b c d) = 12"
  by (simp_all add: ip_bytes_def udp_bytes_def icmp_bytes_def tcp_bytes_def pseudo_bytes_def)

text \<open>The checksum of a finished IPv4 header verifies.\<close>

lemma make_ip_checksum: "CalculateChecksum (ip_bytes (make_ip p len src dest)) = 0"
proof -
  define xs where "xs = [push_bit 4 4 OR 5, 0 :: u8] @ bytes16 (Swap16 len) @ bytes16 (Swap16 0) @ bytes16 (Swap16 0x4000) @ [64, p]"
  have z: "bytes16 0 = [0, 0]" by (simp add: bytes16_def)
  have "ip_bytes (make_ip p len src dest) =
      xs @ bytes16 (CalculateChecksum (xs @ [0, 0] @ (bytes32 src @ bytes32 dest))) @ (bytes32 src @ bytes32 dest)"
    by (simp add: make_ip_def ip_bytes_def xs_def z Let_def)
  moreover have "length xs = 10" by (simp add: xs_def)
  ultimately show ?thesis using checksum_verifies [of xs "bytes32 src @ bytes32 dest"] by simp
qed

text \<open>A host at 10.0.0.2 that knows its neighbour 10.0.0.3 and has no sockets, for examples.\<close>

definition demo_host :: net where
  "demo_host = \<lparr>Mac = [2, 0, 0, 0, 0, 1], card_IP = 0x0200000A, Gateway = 0x0100000A, SubnetMask = 0x00FFFFFF, DnsServer = 0, sent = [],
     ArpCache = [\<lparr>IPAddr = 0x0300000A, MACAddr = [2, 0, 0, 0, 0, 3], arp_Valid = True\<rparr>],
     g_PendingUDP = \<lparr>pend_Valid = False, pend_Protocol = 0, TargetIP = 0, pend_SrcPort = 0, pend_DestPort = 0, pend_Payload = []\<rparr>,
     UdpSocketTable = [], IcmpSocketTable = [], SocketTable = [], TickCount = 0, m_Pool = 1, g_State = DHCP_NONE,
     g_DHCPInfo = \<lparr>info_RequestedIP = 0, info_ServerIP = 0, info_SubnetMask = 0, info_GatewayIP = 0, info_DnsServer = 0\<rparr>\<rparr>"

end
