(* ===== verification/Tcp.thy ===== *)
theory Tcp
  imports Net_Stack
begin

text \<open>
  TCP, \<^verbatim>\<open>kernel/lib/network/tcp.cpp\<close>: the socket table, sending with a copy for retransmission, the segments
  that arrive out of order, and the handler of incoming segments. A socket pointer is its index in the
  table. \<^verbatim>\<open>Data\<close> is the receive buffer from the TCP header on, so that a read past the frame reads what the
  buffer holds and a read past the buffer is undefined. The random numbers are those of
  \<^verbatim>\<open>Include/rng/entrophy.hpp\<close>.
\<close>

section \<open>Model\<close>

abbreviation TCP_FIN :: u8 where "TCP_FIN \<equiv> 0x01"
abbreviation TCP_SYN :: u8 where "TCP_SYN \<equiv> 0x02"
abbreviation TCP_RST :: u8 where "TCP_RST \<equiv> 0x04"
abbreviation TCP_PSH :: u8 where "TCP_PSH \<equiv> 0x08"
abbreviation TCP_ACK :: u8 where "TCP_ACK \<equiv> 0x10"

definition has :: "u8 \<Rightarrow> u8 \<Rightarrow> bool" where
  "has flags f \<longleftrightarrow> flags AND f \<noteq> 0"

definition Random :: "net \<Rightarrow> u32 \<times> net" where
  "Random s =
     (let x = m_Pool s; x = x XOR push_bit 13 x; x = x XOR drop_bit 17 x; x = x XOR push_bit 5 x in
      (x, s\<lparr>m_Pool := x\<rparr>))"

subsection \<open>The socket table\<close>

definition AllocateSocket :: "net \<Rightarrow> nat option \<times> net" where
  "AllocateSocket s =
     (case find_index (\<lambda>k. \<not> tcp_Allocated k) (SocketTable s) of
        None \<Rightarrow> (None, s)
      | Some i \<Rightarrow>
          (Some i, s\<lparr>SocketTable := (SocketTable s)[i := (SocketTable s ! i)\<lparr>tcp_Allocated := True, SockID := of_nat i, State := CLOSED,
             WaitingAck := False, LastPacket := None, tcp_ring := new_ring 8192, Domain := Some []\<rparr>]\<rparr>))"

definition FreeSocket :: "TCPSocket \<Rightarrow> TCPSocket" where
  "FreeSocket k = k\<lparr>tcp_Allocated := False, State := CLOSED, LastPacket := None, tcp_ring := (tcp_ring k)\<lparr>RecvBuffer := None\<rparr>,
     Domain := None, OOOList := []\<rparr>"

definition GetSocket :: "u16 \<Rightarrow> u32 \<Rightarrow> u16 \<Rightarrow> net \<Rightarrow> nat option" where
  "GetSocket lport rip rport s =
     find_index (\<lambda>k. tcp_Allocated k \<and> LocalPort k = lport \<and> RemoteIP k = rip \<and> RemotePort k = rport) (SocketTable s)"

definition GetListener :: "u16 \<Rightarrow> net \<Rightarrow> nat option" where
  "GetListener lport s = find_index (\<lambda>k. tcp_Allocated k \<and> State k = LISTEN \<and> LocalPort k = lport) (SocketTable s)"

definition put_socket :: "nat \<Rightarrow> TCPSocket \<times> net \<Rightarrow> net" where
  "put_socket i ks = (snd ks)\<lparr>SocketTable := (SocketTable (snd ks))[i := fst ks]\<rparr>"

subsection \<open>Out-of-order segments\<close>

text \<open>The walk of \<^verbatim>\<open>AddOOOSegment\<close> from \<^verbatim>\<open>Current\<close> on.\<close>

fun ooo_insert :: "TCPSegmentNode \<Rightarrow> TCPSegmentNode \<Rightarrow> TCPSegmentNode list \<Rightarrow> TCPSegmentNode list" where
  "ooo_insert x cur [] = (if seg_Sequence cur = seg_Sequence x then [cur] else [cur, x])"
| "ooo_insert x cur (n # rest) =
     (if seg_Sequence n < seg_Sequence x then cur # ooo_insert x n rest
      else if seg_Sequence cur = seg_Sequence x \<or> seg_Sequence n = seg_Sequence x then cur # n # rest
      else cur # x # n # rest)"

definition AddOOOSegment :: "u32 \<Rightarrow> u8 list \<Rightarrow> TCPSocket \<Rightarrow> TCPSocket" where
  "AddOOOSegment sq data k =
     (let x = \<lparr>seg_Sequence = sq, seg_Payload = data\<rparr> in
      k\<lparr>OOOList := (case OOOList k of
          [] \<Rightarrow> [x]
        | h # rest \<Rightarrow> if sq < seg_Sequence h then x # h # rest else ooo_insert x h rest)\<rparr>)"

fun drain_ooo :: "TCPSegmentNode list \<Rightarrow> u32 \<Rightarrow> ring \<Rightarrow> (TCPSegmentNode list \<times> u32 \<times> ring) option" where
  "drain_ooo [] target r = Some ([], target, r)"
| "drain_ooo (h # rest) target r =
     (if seg_Sequence h = target then
        Option.bind (push_bytes (seg_Payload h) r) (drain_ooo rest (target + of_nat (length (seg_Payload h))))
      else if seg_Sequence h < target then drain_ooo rest target r
      else Some (h # rest, target, r))"

definition ProcessOOOList :: "TCPSocket \<Rightarrow> TCPSocket option" where
  "ProcessOOOList k =
     map_option (\<lambda>(l, target, r). k\<lparr>OOOList := l, TargetSequence := target, tcp_ring := r\<rparr>)
       (drain_ooo (OOOList k) (TargetSequence k) (tcp_ring k))"

subsection \<open>Sending\<close>

definition window :: "TCPSocket \<Rightarrow> u16" where
  "window k = (let free = ucast (RecvBufferSize (tcp_ring k) - UsedBuffer (tcp_ring k)) in if free < 1460 then 0 else free)"

definition tcp_segment :: "u8 \<Rightarrow> u8 list \<Rightarrow> TCPSocket \<Rightarrow> u8 list" where
  "tcp_segment flags payload k =
     (let h = \<lparr>tcp_SrcPort = Swap16 (LocalPort k), tcp_DestPort = Swap16 (RemotePort k), SequenceNum = Swap32 (MySequence k),
                AckNum = Swap32 (TargetSequence k), DataOffset = push_bit 4 5, tcp_Flags = flags, WindowSize = Swap16 (window k),
                tcp_Checksum = 0, UrgentPtr = 0\<rparr>;
          pseudo = pseudo_bytes (LocalIP k) (RemoteIP k) IP_PROTOCOL_TCP (Swap16 (20 + of_nat (length payload))) in
      tcp_bytes (h\<lparr>tcp_Checksum := CalculateChecksum (pseudo @ tcp_bytes h @ payload)\<rparr>) @ payload)"

definition tcp_frame :: "u8 list \<Rightarrow> u8 \<Rightarrow> u8 list \<Rightarrow> TCPSocket \<Rightarrow> net \<Rightarrow> u8 list" where
  "tcp_frame mac flags payload k s =
     eth_bytes (make_eth mac ETHER_TYPE_IP s) @
     ip_bytes (make_ip IP_PROTOCOL_TCP (20 + 20 + of_nat (length payload)) (card_IP s) (RemoteIP k)) @
     tcp_segment flags payload k"

text \<open>The copy for retransmission; \<^verbatim>\<open>Kmalloc::Alloc(0)\<close> is null.\<close>

definition remember_packet :: "u8 \<Rightarrow> u8 list \<Rightarrow> u32 \<Rightarrow> TCPSocket \<Rightarrow> TCPSocket" where
  "remember_packet flags payload now k =
     (if has flags (TCP_SYN OR TCP_FIN) \<or> payload \<noteq> [] then
        k\<lparr>LastPacket := (if payload = [] then None else Some payload), LastPacketLen := of_nat (length payload), LastFlags := flags,
          LastSendTime := now, WaitingAck := True\<rparr>
      else k)"

definition tcp_next_hop :: "TCPSocket \<Rightarrow> net \<Rightarrow> u32" where
  "tcp_next_hop k s =
     (if RemoteIP k AND SubnetMask s \<noteq> card_IP s AND SubnetMask s then Gateway s else RemoteIP k)"

definition SendTCPRaw :: "u8 \<Rightarrow> u8 list \<Rightarrow> TCPSocket \<times> net \<Rightarrow> TCPSocket \<times> net" where
  "SendTCPRaw flags payload ks =
     (let (k, s) = ks; hop = tcp_next_hop k s in
      case GetMacFromCache hop s of
        None \<Rightarrow> (k, SendARPRequest hop (queue_packet 0 IP_PROTOCOL_UDP (Swap16 (LocalPort k)) (Swap16 (RemotePort k)) payload s))
      | Some mac \<Rightarrow> (remember_packet flags payload (TickCount s) k, SendRawPacket (tcp_frame mac flags payload k s) s))"

definition SendTCPData :: "u8 list \<Rightarrow> TCPSocket \<times> net \<Rightarrow> TCPSocket \<times> net" where
  "SendTCPData data ks =
     (if State (fst ks) \<noteq> ESTABLISHED then ks
      else let (k, s) = SendTCPRaw (TCP_PSH OR TCP_ACK) data ks in (k\<lparr>MySequence := MySequence k + of_nat (length data)\<rparr>, s))"

definition clear_waiting :: "TCPSocket \<Rightarrow> TCPSocket" where
  "clear_waiting k = k\<lparr>WaitingAck := False, LastPacket := None\<rparr>"

text \<open>When the copy is sent again, \<^verbatim>\<open>SendTCPRaw\<close> frees the block it is about to copy from: what the new copy holds
  is what the heap left in the freed block, \<open>stale\<close>.\<close>

definition retransmit :: "(u8 list \<Rightarrow> u8 list) \<Rightarrow> nat \<Rightarrow> net \<Rightarrow> net" where
  "retransmit stale i s =
     (let k = SocketTable s ! i; now = TickCount s in
      if tcp_Allocated k \<and> WaitingAck k \<and> 1000 < now - LastSendTime k then
        let seqlen = ucast (LastPacketLen k) + (if has (LastFlags k) (TCP_SYN OR TCP_FIN) then 1 else 0);
            (k', s') = SendTCPRaw (LastFlags k) (case LastPacket k of None \<Rightarrow> [] | Some p \<Rightarrow> p) (k\<lparr>MySequence := MySequence k - seqlen\<rparr>, s);
            copy = (if GetMacFromCache (tcp_next_hop k s) s = None then LastPacket k' else map_option stale (LastPacket k')) in
        put_socket i (k'\<lparr>MySequence := MySequence k, LastSendTime := now, LastPacket := copy\<rparr>, s')
      else s)"

definition TCPCheckRetransmission :: "(u8 list \<Rightarrow> u8 list) \<Rightarrow> net \<Rightarrow> net" where
  "TCPCheckRetransmission stale s = fold (retransmit stale) [0..<length (SocketTable s)] s"

subsection \<open>Opening connections\<close>

definition TCPListen :: "u16 \<Rightarrow> net \<Rightarrow> net" where
  "TCPListen port s =
     (case AllocateSocket s of
        (None, s) \<Rightarrow> s
      | (Some i, s) \<Rightarrow>
          put_socket i ((SocketTable s ! i)\<lparr>State := LISTEN, LocalIP := card_IP s, LocalPort := port, RemoteIP := 0, RemotePort := 0\<rparr>, s))"

text \<open>The domain is copied into 256 bytes without a check.\<close>

definition TCPConnect :: "u32 \<Rightarrow> u16 \<Rightarrow> u8 list option \<Rightarrow> net \<Rightarrow> (nat option \<times> net) option" where
  "TCPConnect target port domain s =
     (case AllocateSocket s of
        (None, s) \<Rightarrow> Some (None, s)
      | (Some i, s) \<Rightarrow>
          let (isn, s) = Random s; k = SocketTable s ! i;
              k = k\<lparr>State := CLOSED, LocalIP := card_IP s, RemoteIP := target, LocalPort := 40000 + SockID k, RemotePort := port,
                    MySequence := isn, TargetSequence := 0\<rparr> in
          if (case domain of Some d \<Rightarrow> 256 \<le> length d | None \<Rightarrow> False) then None
          else
            let k = k\<lparr>Domain := Some (case domain of Some d \<Rightarrow> d | None \<Rightarrow> [])\<rparr>;
                (k, s) = SendTCPRaw TCP_SYN [] (k, s) in
            Some (Some i, put_socket i (k\<lparr>State := SYN_SENT\<rparr>, s)))"

subsection \<open>Incoming segments\<close>

record segment =
  in_SrcPort :: u16
  in_DestPort :: u16
  in_Seq :: u32
  in_Ack :: u32
  in_HeaderLen :: nat
  in_Flags :: u8

definition parse_tcp :: "u8 list \<Rightarrow> segment option" where
  "parse_tcp data =
     do { dport \<leftarrow> get16 data 2; sport \<leftarrow> get16 data 0; sq \<leftarrow> get32 data 4; ack \<leftarrow> get32 data 8; off \<leftarrow> get8 data 12; flags \<leftarrow> get8 data 13;
          Some \<lparr>in_SrcPort = Swap16 sport, in_DestPort = Swap16 dport, in_Seq = Swap32 sq, in_Ack = Swap32 ack,
                in_HeaderLen = unat (drop_bit 4 off) * 4, in_Flags = flags\<rparr> }"

definition HttpRequest :: "TCPSocket \<Rightarrow> u8 list" where
  "HttpRequest k =
     ascii_bytes (''GET / HTTP/1.1'' @ [CHR 0x0D, CHR 0x0A] @ ''Host: '') @
     (case Domain k of Some d \<Rightarrow> if d \<noteq> [] then d else ascii_bytes ''unknown'' | None \<Rightarrow> ascii_bytes ''unknown'') @
     ascii_bytes ([CHR 0x0D, CHR 0x0A] @ ''Connection: close'' @ [CHR 0x0D, CHR 0x0A, CHR 0x0D, CHR 0x0A])"

definition HtmlResponse :: "u8 list" where
  "HtmlResponse =
     ascii_bytes (''HTTP/1.1 200 OK'' @ [CHR 0x0D, CHR 0x0A] @ ''Content-Type: text/html'' @ [CHR 0x0D, CHR 0x0A] @
       ''Connection: close'' @ [CHR 0x0D, CHR 0x0A, CHR 0x0D, CHR 0x0A] @
       ''<html><head><title>R-OS</title></head>'' @
       ''<body><h1 style='' @ [CHR 0x27] @ ''color:blue'' @ [CHR 0x27] @ ''>Hello from R-OS Kernel!</h1>'' @
       ''<p>TCP Stack is working!</p></body></html>'')"

text \<open>A SYN for which a listener exists, and the answer to a segment for which there is no socket. \<open>uninit\<close> is
  the indeterminate content of the local variable \<^verbatim>\<open>TempSock\<close>.\<close>

definition accept_syn :: "nat \<Rightarrow> segment \<Rightarrow> u32 \<Rightarrow> net \<Rightarrow> net" where
  "accept_syn i g srcip s =
     (let k = (SocketTable s ! i)\<lparr>LocalIP := card_IP s, LocalPort := in_DestPort g, RemoteIP := srcip, RemotePort := in_SrcPort g,
                TargetSequence := in_Seq g + 1\<rparr>;
          (isn, s) = Random s;
          (k, s) = SendTCPRaw (TCP_SYN OR TCP_ACK) [] (k\<lparr>MySequence := isn\<rparr>, s) in
      put_socket i (k\<lparr>State := SYN_RCVD, MySequence := MySequence k + 1\<rparr>, s))"

definition send_reset :: "TCPSocket \<Rightarrow> segment \<Rightarrow> u32 \<Rightarrow> net \<Rightarrow> net" where
  "send_reset uninit g srcip s =
     (if has (in_Flags g) TCP_RST then s
      else snd (SendTCPRaw (TCP_RST OR TCP_ACK) [] (uninit\<lparr>LocalPort := in_DestPort g, RemotePort := in_SrcPort g, LocalIP := card_IP s,
          RemoteIP := srcip, MySequence := in_Ack g, TargetSequence := in_Seq g + 1\<rparr>, s)))"

definition on_listen :: "segment \<Rightarrow> u32 \<Rightarrow> TCPSocket \<times> net \<Rightarrow> TCPSocket \<times> net" where
  "on_listen g srcip ks =
     (if has (in_Flags g) TCP_SYN then
        let (k, s) = ks; (isn, s) = Random s;
            (k, s) = SendTCPRaw (TCP_SYN OR TCP_ACK) []
              (k\<lparr>RemoteIP := srcip, RemotePort := in_SrcPort g, TargetSequence := in_Seq g + 1, MySequence := isn\<rparr>, s) in
        (k\<lparr>State := SYN_RCVD, MySequence := MySequence k + 1\<rparr>, s)
      else ks)"

definition on_syn_sent :: "segment \<Rightarrow> u32 \<Rightarrow> TCPSocket \<times> net \<Rightarrow> (TCPSocket \<times> net) option" where
  "on_syn_sent g srcip ks =
     (if has (in_Flags g) TCP_SYN \<and> has (in_Flags g) TCP_ACK then
        let (k, s) = ks;
            (k, s) = SendTCPRaw TCP_ACK [] (k\<lparr>RemoteIP := srcip, TargetSequence := in_Seq g + 1, MySequence := MySequence k + 1\<rparr>, s);
            k = k\<lparr>State := ESTABLISHED\<rparr> in
        if 512 \<le> length (HttpRequest k) then None
        else Some (SendTCPData (HttpRequest k) (k\<lparr>MySequence := MySequence k + 1\<rparr>, s))
      else if has (in_Flags g) TCP_SYN then
        let (k, s) = ks;
            (k, s) = SendTCPRaw TCP_ACK [] (k\<lparr>TargetSequence := in_Seq g + 1, MySequence := MySequence k + 1\<rparr>, s) in
        Some (k\<lparr>State := SYN_RCVD\<rparr>, s)
      else Some ks)"

text \<open>The data part of an established connection: in order, ahead of order, or old. The second component
  tells whether the handler returns at once.\<close>

definition receive_data :: "u32 \<Rightarrow> u8 list \<Rightarrow> TCPSocket \<Rightarrow> (TCPSocket \<times> bool) option" where
  "receive_data sq payload k =
     (if sq = TargetSequence k then
        do { r \<leftarrow> push_bytes payload (tcp_ring k);
             k \<leftarrow> ProcessOOOList (k\<lparr>tcp_ring := r, TargetSequence := TargetSequence k + of_nat (length payload)\<rparr>);
             Some (k, False) }
      else if TargetSequence k < sq then Some (AddOOOSegment sq payload k, True)
      else Some (k, False))"

definition serve_http :: "u8 list \<Rightarrow> TCPSocket \<times> net \<Rightarrow> TCPSocket \<times> net" where
  "serve_http payload ks =
     (if 5 \<le> length payload \<and> take 5 payload = ascii_bytes ''GET /'' then
        let (k, s) = SendTCPRaw (TCP_FIN OR TCP_ACK) [] (SendTCPData HtmlResponse ks) in
        (k\<lparr>MySequence := MySequence k + 1, State := FIN_WAIT_1\<rparr>, s)
      else ks)"

definition acked :: "segment \<Rightarrow> TCPSocket \<Rightarrow> TCPSocket" where
  "acked g k = (if WaitingAck k \<and> in_Ack g = MySequence k then clear_waiting k else k)"

definition on_fin :: "segment \<Rightarrow> TCPSocket \<times> net \<Rightarrow> TCPSocket \<times> net" where
  "on_fin g ks =
     (if has (in_Flags g) TCP_FIN then
        let (k, s) = ks;
            (k, s) = SendTCPRaw (TCP_FIN OR TCP_ACK) [] (SendTCPRaw TCP_ACK [] (k\<lparr>TargetSequence := TargetSequence k + 1\<rparr>, s)) in
        (k\<lparr>State := LAST_ACK\<rparr>, s)
      else ks)"

definition on_established :: "u8 list \<Rightarrow> u32 \<Rightarrow> segment \<Rightarrow> TCPSocket \<times> net \<Rightarrow> (TCPSocket \<times> net) option" where
  "on_established data len g ks =
     (let (k, s) = ks; datalen = len - of_nat (in_HeaderLen g) in
      if datalen = 0 then Some (on_fin g (acked g k, s))
      else
        do { payload \<leftarrow> get_bytes data (in_HeaderLen g) (unat datalen);
             (k, stop) \<leftarrow> receive_data (in_Seq g) payload k;
             let ks = SendTCPRaw TCP_ACK [] (k, s);
             if stop then Some ks
             else let (k, s) = serve_http payload ks in Some (on_fin g (acked g k, s)) })"

definition on_syn_rcvd :: "u8 list \<Rightarrow> u32 \<Rightarrow> segment \<Rightarrow> TCPSocket \<times> net \<Rightarrow> (TCPSocket \<times> net) option" where
  "on_syn_rcvd data len g ks =
     (let (k, s) = ks in
      if has (in_Flags g) TCP_SYN then
        let (k, s) = SendTCPRaw (TCP_SYN OR TCP_ACK) [] (k\<lparr>MySequence := MySequence k - 1\<rparr>, s) in
        Some (k\<lparr>MySequence := MySequence k + 1\<rparr>, s)
      else if has (in_Flags g) TCP_ACK \<and> in_Ack g = MySequence k then
        on_established data len g (clear_waiting (k\<lparr>State := ESTABLISHED\<rparr>), s)
      else Some ks)"

definition close_on_fin :: "segment \<Rightarrow> TCPSocket \<times> net \<Rightarrow> TCPSocket \<times> net" where
  "close_on_fin g ks =
     (if has (in_Flags g) TCP_FIN then
        let (k, s) = ks; (k, s) = SendTCPRaw TCP_ACK [] (k\<lparr>TargetSequence := TargetSequence k + 1\<rparr>, s) in (FreeSocket k, s)
      else ks)"

definition on_fin_wait_1 :: "segment \<Rightarrow> TCPSocket \<times> net \<Rightarrow> TCPSocket \<times> net" where
  "on_fin_wait_1 g ks =
     close_on_fin g (if has (in_Flags g) TCP_ACK then ((acked g (fst ks))\<lparr>State := FIN_WAIT_2\<rparr>, snd ks) else ks)"

definition on_last_ack :: "segment \<Rightarrow> TCPSocket \<times> net \<Rightarrow> TCPSocket \<times> net" where
  "on_last_ack g ks = (if has (in_Flags g) TCP_ACK then (FreeSocket (fst ks), snd ks) else ks)"

definition on_segment :: "u8 list \<Rightarrow> u32 \<Rightarrow> segment \<Rightarrow> u32 \<Rightarrow> TCPSocket \<times> net \<Rightarrow> (TCPSocket \<times> net) option" where
  "on_segment data len g srcip ks =
     (case State (fst ks) of
        LISTEN \<Rightarrow> Some (on_listen g srcip ks)
      | SYN_SENT \<Rightarrow> on_syn_sent g srcip ks
      | SYN_RCVD \<Rightarrow> on_syn_rcvd data len g ks
      | ESTABLISHED \<Rightarrow> on_established data len g ks
      | FIN_WAIT_1 \<Rightarrow> Some (on_fin_wait_1 g ks)
      | FIN_WAIT_2 \<Rightarrow> Some (close_on_fin g ks)
      | LAST_ACK \<Rightarrow> Some (on_last_ack g ks)
      | _ \<Rightarrow> Some ks)"

definition HandleTCP :: "TCPSocket \<Rightarrow> u8 list \<Rightarrow> u32 \<Rightarrow> u32 \<Rightarrow> net \<Rightarrow> net option" where
  "HandleTCP uninit data len srcip s =
     do { g \<leftarrow> parse_tcp data;
          case GetSocket (in_DestPort g) srcip (in_SrcPort g) s of
            Some i \<Rightarrow> map_option (put_socket i) (on_segment data len g srcip (SocketTable s ! i, s))
          | None \<Rightarrow>
              if GetListener (in_DestPort g) s \<noteq> None \<and> has (in_Flags g) TCP_SYN then
                (case AllocateSocket s of
                   (Some i, s') \<Rightarrow> Some (accept_syn i g srcip s')
                 | (None, s') \<Rightarrow> Some (send_reset uninit g srcip s'))
              else Some (send_reset uninit g srcip s) }"

datatype recv_result = Received "u8 list" | NoSocket

definition TCPRecv :: "nat \<Rightarrow> u32 \<Rightarrow> net \<Rightarrow> (recv_result \<times> net) option" where
  "TCPRecv i len s =
     (let k = SocketTable s ! i in
      if \<not> tcp_Allocated k then Some (NoSocket, s)
      else
        let zero_window = RecvBufferSize (tcp_ring k) - UsedBuffer (tcp_ring k) < 1460 in
        map_option (\<lambda>(xs, r).
            let k = k\<lparr>tcp_ring := r\<rparr> in
            (Received xs, put_socket i (if zero_window \<and> xs \<noteq> [] then SendTCPRaw TCP_ACK [] (k, s) else (k, s))))
          (ring_recv (unat len) (tcp_ring k)))"

section \<open>What sending keeps\<close>

text \<open>The fields that receiving relies on.\<close>

definition rx_fields :: "TCPSocket \<Rightarrow> bool \<times> ring \<times> u32 \<times> TCPSegmentNode list" where
  "rx_fields k = (tcp_Allocated k, tcp_ring k, TargetSequence k, OOOList k)"

lemma rx_fields_update [simp]:
  "rx_fields (k\<lparr>MySequence := a\<rparr>) = rx_fields k" "rx_fields (k\<lparr>State := st\<rparr>) = rx_fields k"
  "rx_fields (k\<lparr>LastPacket := p\<rparr>) = rx_fields k" "rx_fields (k\<lparr>LastSendTime := t\<rparr>) = rx_fields k"
  "rx_fields (k\<lparr>WaitingAck := b\<rparr>) = rx_fields k" "rx_fields (k\<lparr>RemoteIP := a\<rparr>) = rx_fields k"
  by (simp_all add: rx_fields_def)

lemma SendTCPRaw_keeps [simp]:
  "rx_fields (fst (SendTCPRaw f p ks)) = rx_fields (fst ks)"
  "SocketTable (snd (SendTCPRaw f p ks)) = SocketTable (snd ks)"
  "State (fst (SendTCPRaw f p ks)) = State (fst ks)"
  "MySequence (fst (SendTCPRaw f p ks)) = MySequence (fst ks)"
  "Domain (fst (SendTCPRaw f p ks)) = Domain (fst ks)"
  by (auto simp: SendTCPRaw_def rx_fields_def remember_packet_def SendARPRequest_def SendRawPacket_def queue_packet_def Let_def
      split: prod.splits option.splits)

lemma SendTCPData_keeps [simp]:
  "rx_fields (fst (SendTCPData d ks)) = rx_fields (fst ks)"
  "SocketTable (snd (SendTCPData d ks)) = SocketTable (snd ks)"
  "State (fst (SendTCPData d ks)) = State (fst ks)"
  by (simp_all add: SendTCPData_def split_beta)

lemma serve_http_keeps [simp]:
  "rx_fields (fst (serve_http p ks)) = rx_fields (fst ks)"
  "SocketTable (snd (serve_http p ks)) = SocketTable (snd ks)"
  by (simp_all add: serve_http_def split_beta)

lemma acked_keeps [simp]: "rx_fields (acked g k) = rx_fields k"
  by (simp add: acked_def clear_waiting_def rx_fields_def)

lemma put_socket_other [simp]: "i \<noteq> j \<Longrightarrow> SocketTable (put_socket j ks) ! i = SocketTable (snd ks) ! i"
  by (simp add: put_socket_def)

lemma put_socket_same [simp]: "i < length (SocketTable (snd ks)) \<Longrightarrow> SocketTable (put_socket i ks) ! i = fst ks"
  by (simp add: put_socket_def)

lemma put_socket_length [simp]: "length (SocketTable (put_socket i ks)) = length (SocketTable (snd ks))"
  by (simp add: put_socket_def)

lemma Random_keeps [simp]: "SocketTable (snd (Random s)) = SocketTable s"
  by (simp add: Random_def Let_def)

text \<open>Resending touches neither what was received nor any other socket.\<close>

lemma retransmit_keeps [simp]:
  "rx_fields (SocketTable (retransmit stale j s) ! i) = rx_fields (SocketTable s ! i)"
  "length (SocketTable (retransmit stale j s)) = length (SocketTable s)"
proof -
  show "length (SocketTable (retransmit stale j s)) = length (SocketTable s)"
    by (simp add: retransmit_def Let_def split_beta)
  show "rx_fields (SocketTable (retransmit stale j s) ! i) = rx_fields (SocketTable s ! i)"
    by (cases "i = j"; cases "i < length (SocketTable s)")
      (auto simp: retransmit_def Let_def split_beta put_socket_def list_update_beyond)
qed

lemma TCPCheckRetransmission_keeps [simp]:
  "rx_fields (SocketTable (TCPCheckRetransmission stale s) ! i) = rx_fields (SocketTable s ! i)"
  "length (SocketTable (TCPCheckRetransmission stale s)) = length (SocketTable s)"
proof -
  have "rx_fields (SocketTable (fold (retransmit stale) is s) ! i) = rx_fields (SocketTable s ! i) \<and>
      length (SocketTable (fold (retransmit stale) is s)) = length (SocketTable s)" for "is"
    by (induction "is" arbitrary: s) simp_all
  then show "rx_fields (SocketTable (TCPCheckRetransmission stale s) ! i) = rx_fields (SocketTable s ! i)"
    "length (SocketTable (TCPCheckRetransmission stale s)) = length (SocketTable s)"
    by (simp_all add: TCPCheckRetransmission_def)
qed

end
