(* ===== verification/Tcp_Stream.thy ===== *)
theory Tcp_Stream
  imports Tcp
begin

text \<open>
  Reassembly: a peer cuts its stream into segments and sends them in any order, any number of times.
  What the socket has delivered is always the stream up to the first segment that has not arrived.
\<close>

section \<open>The list of segments ahead of order\<close>

abbreviation seqs :: "TCPSegmentNode list \<Rightarrow> u32 list" where
  "seqs l \<equiv> map seg_Sequence l"

lemma ooo_insert_head: "\<exists>r. ooo_insert x cur l = cur # r"
  by (cases l) auto

text \<open>The list stays sorted, and a second segment with a known sequence number is dropped.\<close>

lemma ooo_insert_sorted:
  "sorted_wrt (<) (seqs (cur # l)) \<Longrightarrow> seg_Sequence cur \<le> seg_Sequence x \<Longrightarrow>
     sorted_wrt (<) (seqs (ooo_insert x cur l)) \<and>
     set (ooo_insert x cur l) = (if seg_Sequence x \<in> set (seqs (cur # l)) then set (cur # l) else insert x (set (cur # l)))"
proof (induction l arbitrary: cur)
  case (Cons n l)
  show ?case
  proof (cases "seg_Sequence n < seg_Sequence x")
    case True
    with Cons.prems Cons.IH [of n] show ?thesis by auto
  next
    case False
    have above: "seg_Sequence n < seg_Sequence y" if "y \<in> set l" for y using Cons.prems(1) that by simp
    show ?thesis
    proof (cases "seg_Sequence cur = seg_Sequence x \<or> seg_Sequence n = seg_Sequence x")
      case True
      then show ?thesis using Cons.prems(1) False by auto
    next
      case neq: False
      then have "seg_Sequence cur < seg_Sequence x" "seg_Sequence x < seg_Sequence n" using False Cons.prems(2) by auto
      moreover from this(2) above have "\<forall>y \<in> set l. seg_Sequence x < seg_Sequence y" by (meson less_trans)
      ultimately show ?thesis using Cons.prems(1) False by (auto simp: image_iff)
    qed
  qed
qed auto

lemma AddOOOSegment_sorted:
  assumes "sorted_wrt (<) (seqs (OOOList k))"
  shows "sorted_wrt (<) (seqs (OOOList (AddOOOSegment sq data k))) \<and>
     set (OOOList (AddOOOSegment sq data k)) =
       (if sq \<in> set (seqs (OOOList k)) then set (OOOList k)
        else insert \<lparr>seg_Sequence = sq, seg_Payload = data\<rparr> (set (OOOList k)))"
proof (cases "OOOList k")
  case Nil
  then show ?thesis by (simp add: AddOOOSegment_def)
next
  case (Cons h l)
  show ?thesis
  proof (cases "sq < seg_Sequence h")
    case True
    then have "\<forall>y \<in> set (h # l). sq < seg_Sequence y" using assms Cons by auto
    then show ?thesis using assms Cons True by (auto simp: AddOOOSegment_def)
  next
    case False
    then show ?thesis using assms Cons ooo_insert_sorted [of h l "\<lparr>seg_Sequence = sq, seg_Payload = data\<rparr>"]
      by (simp add: AddOOOSegment_def)
  qed
qed

section \<open>A stream cut into segments\<close>

definition offset :: "u8 list list \<Rightarrow> nat \<Rightarrow> nat" where
  "offset segs j = length (concat (take j segs))"

definition seq_of :: "u32 \<Rightarrow> u8 list list \<Rightarrow> nat \<Rightarrow> u32" where
  "seq_of S0 segs j = S0 + of_nat (offset segs j)"

definition node :: "u32 \<Rightarrow> u8 list list \<Rightarrow> nat \<Rightarrow> TCPSegmentNode" where
  "node S0 segs j = \<lparr>seg_Sequence = seq_of S0 segs j, seg_Payload = segs ! j\<rparr>"

definition peer_stream :: "u32 \<Rightarrow> u8 list list \<Rightarrow> bool" where
  "peer_stream S0 segs \<longleftrightarrow> [] \<notin> set segs \<and> unat S0 + length (concat segs) < 2 ^ 32"

lemma take_Suc_segs: "j < length segs \<Longrightarrow> concat (take (Suc j) segs) = concat (take j segs) @ segs ! j"
  by (simp add: take_Suc_conv_app_nth)

lemma offset_Suc: "j < length segs \<Longrightarrow> offset segs (Suc j) = offset segs j + length (segs ! j)"
  by (simp add: offset_def take_Suc_segs)

lemma offset_mono: "i \<le> j \<Longrightarrow> offset segs i \<le> offset segs j"
proof -
  assume "i \<le> j"
  then have "take i segs = take i (take j segs)" by (simp add: min_def)
  then show ?thesis by (metis append_take_drop_id concat_append length_append le_add1 offset_def)
qed

lemma offset_less:
  assumes "[] \<notin> set segs" and "i < j" and "j \<le> length segs"
  shows "offset segs i < offset segs j"
proof -
  have "segs ! i \<noteq> []" using assms nth_mem [of i segs] by fastforce
  then have "offset segs i < offset segs (Suc i)" using assms by (simp add: offset_Suc)
  also have "\<dots> \<le> offset segs j" using assms by (intro offset_mono) simp
  finally show ?thesis .
qed

lemma offset_bound: "offset segs j \<le> length (concat segs)"
  using offset_mono [of j "max j (length segs)" segs] by (simp add: offset_def)

lemma unat_seq_of:
  assumes "peer_stream S0 segs"
  shows "unat (seq_of S0 segs j) = unat S0 + offset segs j"
proof -
  have "unat S0 + offset segs j < 2 ^ 32" using assms offset_bound [of segs j] by (simp add: peer_stream_def)
  then show ?thesis by (simp add: seq_of_def unat_word_ariths unat_of_nat take_bit_nat_eq_self)
qed

lemma seq_of_less_iff:
  assumes "peer_stream S0 segs" and "i \<le> length segs" and "j \<le> length segs"
  shows "seq_of S0 segs i < seq_of S0 segs j \<longleftrightarrow> i < j"
proof -
  have ne: "[] \<notin> set segs" using assms(1) by (simp add: peer_stream_def)
  have "offset segs i < offset segs j \<longleftrightarrow> i < j"
    using offset_less [OF ne _ assms(3), of i] offset_mono [of j i segs] by force
  then show ?thesis using unat_seq_of [OF assms(1)] by (simp add: word_less_nat_alt)
qed

lemma seq_of_eq_iff:
  "peer_stream S0 segs \<Longrightarrow> i \<le> length segs \<Longrightarrow> j \<le> length segs \<Longrightarrow> seq_of S0 segs i = seq_of S0 segs j \<longleftrightarrow> i = j"
  using seq_of_less_iff [of S0 segs i j] seq_of_less_iff [of S0 segs j i] by (metis less_irrefl not_less_iff_gr_or_eq)

lemma seq_of_Suc: "j < length segs \<Longrightarrow> seq_of S0 segs j + of_nat (length (segs ! j)) = seq_of S0 segs (Suc j)"
  by (simp add: seq_of_def offset_Suc)

lemma node_fields [simp]: "seg_Sequence (node S0 segs j) = seq_of S0 segs j" "seg_Payload (node S0 segs j) = segs ! j"
  by (simp_all add: node_def)

section \<open>The socket holds the stream up to the first gap\<close>

text \<open>\<open>J\<close> is the set of segments that have arrived, \<open>out\<close> what has been read, \<open>m\<close> the first segment that is missing.\<close>

definition holds_stream :: "u32 \<Rightarrow> u8 list list \<Rightarrow> nat set \<Rightarrow> nat \<Rightarrow> u8 list \<Rightarrow> ring \<times> u32 \<times> TCPSegmentNode list \<Rightarrow> bool" where
  "holds_stream S0 segs J m out x \<longleftrightarrow>
     (case x of (r, target, l) \<Rightarrow>
        wf_ring r \<and> ring_capacity r = 8191 \<and> m \<le> length segs \<and> target = seq_of S0 segs m \<and>
        out @ ring_contents r = concat (take m segs) \<and>
        sorted_wrt (<) (seqs l) \<and> set l = node S0 segs ` {j \<in> J. m \<le> j} \<and> J \<subseteq> {..<length segs} \<and> {..<m} \<subseteq> J \<and>
        (\<forall>j \<in> J. offset segs (Suc j) \<le> length out + 8191))"

text \<open>A segment that fits into the ring is appended.\<close>

lemma push_segment:
  assumes "wf_ring r" and "ring_capacity r = 8191" and "out @ ring_contents r = concat (take m segs)"
    and "m < length segs" and "offset segs (Suc m) \<le> length out + 8191"
  shows "\<exists>r'. push_bytes (segs ! m) r = Some r' \<and> wf_ring r' \<and> ring_capacity r' = 8191 \<and>
    out @ ring_contents r' = concat (take (Suc m) segs)"
proof -
  have "length out + length (ring_contents r) = offset segs m" using arg_cong [OF assms(3), of length] by (simp add: offset_def)
  then have "length (ring_contents r @ segs ! m) \<le> 8191" using assms(4,5) by (simp add: offset_Suc)
  then show ?thesis using push_bytes_window [OF assms(1), of "segs ! m"] assms
    by (auto simp: take_Suc_segs simp del: take_Suc_conv_app_nth)
qed

lemma drain_ooo_stream:
  assumes "peer_stream S0 segs" and "holds_stream S0 segs J m out (r, target, l)"
  shows "\<exists>m' r' l'. drain_ooo l target r = Some (l', seq_of S0 segs m', r') \<and> m \<le> m' \<and> m' \<notin> J \<and>
    holds_stream S0 segs J m' out (r', seq_of S0 segs m', l')"
  using assms(2)
proof (induction l arbitrary: m r target)
  case Nil
  then show ?case by (intro exI [of _ m] exI [of _ r] exI [of _ "[]"]) (auto simp: holds_stream_def)
next
  case (Cons h l)
  have "h \<in> node S0 segs ` {j \<in> J. m \<le> j}" "J \<subseteq> {..<length segs}" using Cons.prems by (auto simp: holds_stream_def)
  then obtain j where j: "h = node S0 segs j" "j \<in> J" "m \<le> j" "j < length segs" by blast
  have mle: "m \<le> length segs" "target = seq_of S0 segs m" using Cons.prems by (auto simp: holds_stream_def)
  show ?case
  proof (cases "j = m")
    case True
    have m: "m \<in> J" "m < length segs" using True j by auto
    obtain r' where r': "push_bytes (segs ! m) r = Some r'" "wf_ring r'" "ring_capacity r' = 8191"
      "out @ ring_contents r' = concat (take (Suc m) segs)"
      using push_segment [of r out m segs] Cons.prems m by (auto simp: holds_stream_def)
    have "set l = node S0 segs ` {j \<in> J. Suc m \<le> j}"
    proof -
      have "h \<notin> set l" using Cons.prems by (auto simp: holds_stream_def)
      moreover have "insert h (set l) = node S0 segs ` {j \<in> J. m \<le> j}" using Cons.prems by (simp add: holds_stream_def)
      moreover have "{j \<in> J. m \<le> j} = insert m {j \<in> J. Suc m \<le> j}" using m by auto
      moreover have "h \<notin> node S0 segs ` {j \<in> J. Suc m \<le> j}"
      proof
        assume "h \<in> node S0 segs ` {j \<in> J. Suc m \<le> j}"
        then obtain i where i: "node S0 segs i = node S0 segs m" "i \<in> J" "Suc m \<le> i" using j True by auto
        then have "seq_of S0 segs i = seq_of S0 segs m" by (metis node_fields(1))
        moreover have "i < length segs" using i Cons.prems by (auto simp: holds_stream_def)
        ultimately show False using i seq_of_eq_iff [OF assms(1), of i m] m by simp
      qed
      ultimately show ?thesis using j True by (metis image_insert insert_ident)
    qed
    then have "holds_stream S0 segs J (Suc m) out (r', seq_of S0 segs (Suc m), l)"
      using Cons.prems m r' by (auto simp: holds_stream_def less_Suc_eq)
    from Cons.IH [OF this] obtain m' r2 l' where IH: "drain_ooo l (seq_of S0 segs (Suc m)) r' = Some (l', seq_of S0 segs m', r2)"
      "Suc m \<le> m'" "m' \<notin> J" "holds_stream S0 segs J m' out (r2, seq_of S0 segs m', l')" by blast
    have "drain_ooo (h # l) target r = drain_ooo l (seq_of S0 segs (Suc m)) r'"
      using r'(1) j True mle m by (simp add: seq_of_Suc)
    with IH show ?thesis by (metis Suc_leD)
  next
    case False
    then have "m < j" using j by simp
    then have "\<not> seq_of S0 segs j = target" "\<not> seq_of S0 segs j < target"
      using mle j seq_of_less_iff [OF assms(1), of m j] seq_of_less_iff [OF assms(1), of j m] by auto
    then have "drain_ooo (h # l) target r = Some (h # l, target, r)" using j by simp
    moreover have "m \<notin> J"
    proof
      assume "m \<in> J"
      then have "node S0 segs m \<in> set (h # l)" using Cons.prems by (auto simp: holds_stream_def)
      moreover have "node S0 segs m \<noteq> h" using \<open>\<not> seq_of S0 segs j = target\<close> mle j by (metis node_fields(1))
      ultimately have "seg_Sequence h < seq_of S0 segs m" using Cons.prems by (auto simp: holds_stream_def image_iff)
      then show False using \<open>\<not> seq_of S0 segs j < target\<close> j mle by simp
    qed
    ultimately show ?thesis using Cons.prems mle by (intro exI [of _ m] exI [of _ r] exI [of _ "h # l"]) auto
  qed
qed

text \<open>One segment, in order, ahead or old: \<open>receive_data\<close> of \<^verbatim>\<open>HandleTCP\<close>.\<close>

lemma receive_data_stream:
  assumes "peer_stream S0 segs" and h: "holds_stream S0 segs J m out (snd (rx_fields k))" and "m \<notin> J"
    and j: "j < length segs" and fits: "offset segs (Suc j) \<le> length out + 8191"
  shows "\<exists>k' stop m'. receive_data (seq_of S0 segs j) (segs ! j) k = Some (k', stop) \<and> m' \<notin> insert j J \<and>
    holds_stream S0 segs (insert j J) m' out (snd (rx_fields k')) \<and> tcp_Allocated k' = tcp_Allocated k"
proof -
  have t: "TargetSequence k = seq_of S0 segs m" and m: "m \<le> length segs" and J: "J \<subseteq> {..<length segs}"
    using h by (auto simp: holds_stream_def rx_fields_def)
  consider "j = m" | "m < j" | "j < m" by linarith
  then show ?thesis
  proof cases
    case 1
    obtain r where r: "push_bytes (segs ! m) (tcp_ring k) = Some r" "wf_ring r" "ring_capacity r = 8191"
      "out @ ring_contents r = concat (take (Suc m) segs)"
      using push_segment [of "tcp_ring k" out m segs] h 1 j fits by (auto simp: holds_stream_def rx_fields_def)
    have "{i \<in> J. m \<le> i} = {i \<in> insert m J. Suc m \<le> i}" using assms(3) by (auto simp: Suc_le_eq order_less_le)
    then have "holds_stream S0 segs (insert m J) (Suc m) out (r, seq_of S0 segs (Suc m), OOOList k)"
      using h r 1 j fits by (auto simp: holds_stream_def rx_fields_def less_Suc_eq)
    from drain_ooo_stream [OF assms(1) this] obtain m' r' l' where
      "drain_ooo (OOOList k) (seq_of S0 segs (Suc m)) r = Some (l', seq_of S0 segs m', r')" "m' \<notin> insert m J"
      "holds_stream S0 segs (insert m J) m' out (r', seq_of S0 segs m', l')" by blast
    then show ?thesis using 1 r(1) t j by (auto simp: receive_data_def ProcessOOOList_def rx_fields_def seq_of_Suc)
  next
    case 2
    let ?k = "AddOOOSegment (seq_of S0 segs j) (segs ! j) k"
    have "seq_of S0 segs j \<in> set (seqs (OOOList k)) \<longleftrightarrow> j \<in> J"
    proof -
      have "seq_of S0 segs j \<in> set (seqs (OOOList k)) \<longleftrightarrow> (\<exists>i \<in> J. m \<le> i \<and> seq_of S0 segs j = seq_of S0 segs i)"
        using h by (auto simp: holds_stream_def rx_fields_def image_image)
      also have "\<dots> \<longleftrightarrow> (\<exists>i \<in> J. m \<le> i \<and> j = i)"
      proof (intro bex_cong refl conj_cong)
        fix i assume "i \<in> J"
        then have "i \<le> length segs" using J by auto
        then show "(seq_of S0 segs j = seq_of S0 segs i) = (j = i)" using seq_of_eq_iff [OF assms(1), of j i] j by simp
      qed
      finally show ?thesis using 2 by auto
    qed
    moreover have "{i \<in> insert j J. m \<le> i} = insert j {i \<in> J. m \<le> i}" using 2 by auto
    moreover have "sorted_wrt (<) (seqs (OOOList k))" and l: "set (OOOList k) = node S0 segs ` {i \<in> J. m \<le> i}"
      using h by (simp_all add: holds_stream_def rx_fields_def)
    moreover note AddOOOSegment_sorted [of k "seq_of S0 segs j" "segs ! j"]
    moreover have "node S0 segs j \<in> node S0 segs ` {i \<in> J. m \<le> i}" if "j \<in> J" using that 2 by auto
    ultimately have "set (OOOList ?k) = node S0 segs ` {i \<in> insert j J. m \<le> i}" "sorted_wrt (<) (seqs (OOOList ?k))"
      by (simp_all add: node_def insert_absorb)
    moreover have "tcp_ring ?k = tcp_ring k" "TargetSequence ?k = TargetSequence k" "tcp_Allocated ?k = tcp_Allocated k"
      by (simp_all add: AddOOOSegment_def Let_def)
    ultimately have "holds_stream S0 segs (insert j J) m out (snd (rx_fields ?k))"
      using h j fits by (auto simp: holds_stream_def rx_fields_def)
    moreover have "receive_data (seq_of S0 segs j) (segs ! j) k = Some (?k, True)"
      using 2 j m t seq_of_less_iff [OF assms(1), of m j] by (auto simp: receive_data_def)
    ultimately show ?thesis using 2 assms(3) \<open>tcp_Allocated ?k = tcp_Allocated k\<close> by auto
  next
    case 3
    then have "j \<in> J" using h by (auto simp: holds_stream_def rx_fields_def)
    moreover have "receive_data (seq_of S0 segs j) (segs ! j) k = Some (k, False)"
      using 3 m t seq_of_less_iff [OF assms(1), of j m] by (auto simp: receive_data_def)
    ultimately show ?thesis using h assms(3) by (auto simp: insert_absorb)
  qed
qed

lemma recv_stream:
  assumes "holds_stream S0 segs J m out (r, t, l)"
  shows "\<exists>r'. ring_recv n r = Some (take n (ring_contents r), r') \<and>
    holds_stream S0 segs J m (out @ take n (ring_contents r)) (r', t, l)"
proof -
  have r: "wf_ring r" using assms by (simp add: holds_stream_def)
  from rx.recv_law [OF r, of n] obtain r' where r': "ring_recv n r = Some (take n (ring_contents r), r')" "wf_ring r'"
    "ring_capacity r' = ring_capacity r" "ring_contents r' = drop n (ring_contents r)" by blast
  then have "holds_stream S0 segs J m (out @ take n (ring_contents r)) (r', t, l)"
    using assms by (fastforce simp: holds_stream_def)
  with r'(1) show ?thesis by blast
qed

section \<open>Runs of a connection\<close>

text \<open>Frames of the peer arrive at socket \<open>i\<close>, bare acknowledgements too; the owner reads; the timer resends; other
  sockets get their segments, and ports are opened.\<close>

definition carries :: "u8 list \<Rightarrow> u32 \<Rightarrow> segment \<Rightarrow> u8 list \<Rightarrow> bool" where
  "carries data len g payload \<longleftrightarrow>
     parse_tcp data = Some g \<and> \<not> has (in_Flags g) TCP_FIN \<and> get_bytes data (in_HeaderLen g) (unat (len - of_nat (in_HeaderLen g))) = Some payload"

inductive conn_step :: "u32 \<Rightarrow> u8 list list \<Rightarrow> u32 \<Rightarrow> nat \<Rightarrow> nat set \<times> u8 list \<times> net \<Rightarrow> nat set \<times> u8 list \<times> net \<Rightarrow> bool"
  for S0 :: u32 and segs :: "u8 list list" and peer :: u32 and i :: nat where
  segment: "carries data len g (segs ! j) \<Longrightarrow> j < length segs \<Longrightarrow> in_Seq g = seq_of S0 segs j \<Longrightarrow> offset segs (Suc j) \<le> length out + 8191 \<Longrightarrow>
     GetSocket (in_DestPort g) peer (in_SrcPort g) s = Some i \<Longrightarrow> State (SocketTable s ! i) = ESTABLISHED \<Longrightarrow>
     HandleTCP uninit data len peer s = Some s' \<Longrightarrow> conn_step S0 segs peer i (J, out, s) (insert j J, out, s')"
| bare: "carries data len g [] \<Longrightarrow> GetSocket (in_DestPort g) peer (in_SrcPort g) s = Some i \<Longrightarrow> State (SocketTable s ! i) = ESTABLISHED \<Longrightarrow>
     HandleTCP uninit data len peer s = Some s' \<Longrightarrow> conn_step S0 segs peer i (J, out, s) (J, out, s')"
| others: "parse_tcp data = Some g \<Longrightarrow> GetSocket (in_DestPort g) src (in_SrcPort g) s \<noteq> Some i \<Longrightarrow>
     HandleTCP uninit data len src s = Some s' \<Longrightarrow> conn_step S0 segs peer i (J, out, s) (J, out, s')"
| read: "TCPRecv i n s = Some (Received xs, s') \<Longrightarrow> conn_step S0 segs peer i (J, out, s) (J, out @ xs, s')"
| timer: "conn_step S0 segs peer i (J, out, s) (J, out, TCPCheckRetransmission stale (s\<lparr>TickCount := t\<rparr>))"
| listens: "conn_step S0 segs peer i (J, out, s) (J, out, TCPListen port s)"
| connects: "TCPConnect target port domain s = Some (r, s') \<Longrightarrow> conn_step S0 segs peer i (J, out, s) (J, out, s')"

definition conn_inv :: "u32 \<Rightarrow> u8 list list \<Rightarrow> nat \<Rightarrow> nat set \<times> u8 list \<times> net \<Rightarrow> bool" where
  "conn_inv S0 segs i x \<longleftrightarrow>
     (case x of (J, out, s) \<Rightarrow>
        i < length (SocketTable s) \<and> tcp_Allocated (SocketTable s ! i) \<and>
        (\<exists>m. m \<notin> J \<and> holds_stream S0 segs J m out (snd (rx_fields (SocketTable s ! i)))))"

lemma conn_inv_cong:
  assumes "conn_inv S0 segs i (J, out, s)" and "rx_fields (SocketTable s' ! i) = rx_fields (SocketTable s ! i)"
    and "length (SocketTable s') = length (SocketTable s)"
  shows "conn_inv S0 segs i (J, out, s')"
  using assms by (auto simp: conn_inv_def rx_fields_def)

lemma on_established_stream:
  assumes "carries data len g payload" and "receive_data (in_Seq g) payload k = Some (k', stop)" and "payload \<noteq> []"
  shows "\<exists>ks. on_established data len g (k, s) = Some ks \<and> rx_fields (fst ks) = rx_fields k' \<and> SocketTable (snd ks) = SocketTable s"
proof -
  have "payload = take (unat (len - of_nat (in_HeaderLen g))) (drop (in_HeaderLen g) data)"
    using assms(1) by (auto simp: carries_def get_bytes_def split: if_splits)
  then have "len - of_nat (in_HeaderLen g) \<noteq> 0" using assms(3) by (metis take_0 unat_0)
  then show ?thesis using assms
    by (cases stop) (auto simp: on_established_def carries_def on_fin_def Let_def split_beta)
qed

lemma on_established_bare:
  assumes "carries data len g []"
  shows "\<exists>ks. on_established data len g (k, s) = Some ks \<and> rx_fields (fst ks) = rx_fields k \<and> SocketTable (snd ks) = SocketTable s"
proof -
  have "unat (len - of_nat (in_HeaderLen g)) = 0" using assms by (auto simp: carries_def get_bytes_def split: if_splits)
  then have "len - of_nat (in_HeaderLen g) = 0" by (simp add: unat_eq_0)
  then show ?thesis using assms by (simp add: on_established_def carries_def on_fin_def)
qed

lemma HandleTCP_established:
  assumes "carries data len g payload" and "GetSocket (in_DestPort g) peer (in_SrcPort g) s = Some i"
    and "State (SocketTable s ! i) = ESTABLISHED" and "on_established data len g (SocketTable s ! i, s) = Some ks"
  shows "HandleTCP uninit data len peer s = Some (put_socket i ks)"
  using assms by (simp add: HandleTCP_def carries_def on_segment_def)

lemma AllocateSocket_other:
  assumes "AllocateSocket s = (r, s')" and "tcp_Allocated (SocketTable s ! i)"
  shows "SocketTable s' ! i = SocketTable s ! i" "length (SocketTable s') = length (SocketTable s)" "r \<noteq> Some i"
proof -
  have "SocketTable s' ! i = SocketTable s ! i \<and> length (SocketTable s') = length (SocketTable s) \<and> r \<noteq> Some i"
  proof (cases "find_index (\<lambda>k. \<not> tcp_Allocated k) (SocketTable s)")
    case None
    then show ?thesis using assms by (auto simp: AllocateSocket_def)
  next
    case (Some j)
    then have "j \<noteq> i" using assms(2) find_index_SomeD [OF Some] by auto
    moreover have "r = Some j" "\<exists>k. SocketTable s' = (SocketTable s)[j := k]" using assms(1) Some by (auto simp: AllocateSocket_def)
    ultimately show ?thesis by auto
  qed
  then show "SocketTable s' ! i = SocketTable s ! i" "length (SocketTable s') = length (SocketTable s)" "r \<noteq> Some i" by simp_all
qed

text \<open>A socket that is in use is not touched when another one is opened, or gets a segment.\<close>

lemma TCPListen_other:
  assumes "tcp_Allocated (SocketTable s ! i)"
  shows "SocketTable (TCPListen port s) ! i = SocketTable s ! i" "length (SocketTable (TCPListen port s)) = length (SocketTable s)"
  using AllocateSocket_other [OF _ assms] by (auto simp: TCPListen_def split: prod.splits option.splits)

lemma TCPConnect_other:
  assumes "tcp_Allocated (SocketTable s ! i)" and "TCPConnect target port domain s = Some (r, s')"
  shows "SocketTable s' ! i = SocketTable s ! i" "length (SocketTable s') = length (SocketTable s)"
proof -
  obtain q s1 where q: "AllocateSocket s = (q, s1)" by fastforce
  note other = AllocateSocket_other [OF q assms(1)]
  show "SocketTable s' ! i = SocketTable s ! i" "length (SocketTable s') = length (SocketTable s)"
    using assms(2) q other by (auto simp: TCPConnect_def Let_def split_beta split: option.splits if_splits)
qed

lemma on_segment_table:
  assumes "on_segment data len g src ks = Some ks2"
  shows "SocketTable (snd ks2) = SocketTable (snd ks)"
  using assms
  by (auto simp: on_segment_def on_listen_def on_syn_sent_def on_syn_rcvd_def on_established_def on_fin_wait_1_def close_on_fin_def
      on_last_ack_def on_fin_def Let_def split_beta split: TCPState.splits if_splits Option.bind_splits)

lemma HandleTCP_other:
  assumes "parse_tcp data = Some g" and "GetSocket (in_DestPort g) src (in_SrcPort g) s \<noteq> Some i" and "HandleTCP uninit data len src s = Some s'"
    and "tcp_Allocated (SocketTable s ! i)"
  shows "SocketTable s' ! i = SocketTable s ! i \<and> length (SocketTable s') = length (SocketTable s)"
proof (cases "GetSocket (in_DestPort g) src (in_SrcPort g) s")
  case None
  have reset: "SocketTable (send_reset uninit g src t) = SocketTable t" for t by (simp add: send_reset_def)
  obtain q s1 where q: "AllocateSocket s = (q, s1)" by fastforce
  note other = AllocateSocket_other [OF q assms(4)]
  show ?thesis using assms(1,3) None q other
    by (auto simp: HandleTCP_def accept_syn_def reset Let_def split_beta split: option.splits if_splits)
next
  case (Some j)
  then show ?thesis using assms by (auto simp: HandleTCP_def dest!: on_segment_table)
qed

lemma TCPRecv_stream:
  assumes "conn_inv S0 segs i (J, out, s)" and "TCPRecv i n s = Some (Received xs, s')"
  shows "conn_inv S0 segs i (J, out @ xs, s')"
proof -
  let ?k = "SocketTable s ! i"
  obtain m where m: "m \<notin> J" "holds_stream S0 segs J m out (tcp_ring ?k, TargetSequence ?k, OOOList ?k)"
    and i: "i < length (SocketTable s)" "tcp_Allocated ?k"
    using assms(1) by (auto simp: conn_inv_def rx_fields_def)
  from recv_stream [OF m(2), of "unat n"] obtain r' where r': "ring_recv (unat n) (tcp_ring ?k) = Some (take (unat n) (ring_contents (tcp_ring ?k)), r')"
    "holds_stream S0 segs J m (out @ take (unat n) (ring_contents (tcp_ring ?k))) (r', TargetSequence ?k, OOOList ?k)" by blast
  have rx: "rx_fields (?k\<lparr>tcp_ring := r'\<rparr>) = (True, r', TargetSequence ?k, OOOList ?k)" using i by (simp add: rx_fields_def)
  then have "rx_fields (SocketTable s' ! i) = (True, r', TargetSequence ?k, OOOList ?k) \<and> length (SocketTable s') = length (SocketTable s) \<and>
      xs = take (unat n) (ring_contents (tcp_ring ?k))"
    using assms(2) r'(1) i by (auto simp: TCPRecv_def Let_def split: if_splits)
  then show ?thesis using m(1) i r'(2) by (auto simp: conn_inv_def rx_fields_def)
qed

lemma segment_stream:
  assumes "peer_stream S0 segs" and inv: "conn_inv S0 segs i (J, out, s)" and c: "carries data len g (segs ! j)" and "j < length segs"
    and "in_Seq g = seq_of S0 segs j" and "offset segs (Suc j) \<le> length out + 8191"
    and "GetSocket (in_DestPort g) peer (in_SrcPort g) s = Some i" and "State (SocketTable s ! i) = ESTABLISHED"
  shows "\<exists>s'. HandleTCP uninit data len peer s = Some s' \<and> conn_inv S0 segs i (insert j J, out, s')"
proof -
  let ?k = "SocketTable s ! i"
  obtain m where m: "m \<notin> J" "holds_stream S0 segs J m out (snd (rx_fields ?k))" and i: "i < length (SocketTable s)" "tcp_Allocated ?k"
    using inv by (auto simp: conn_inv_def)
  from receive_data_stream [OF assms(1) m(2,1) assms(4,6)] obtain k' stop m' where
    r: "receive_data (in_Seq g) (segs ! j) ?k = Some (k', stop)" "m' \<notin> insert j J" "tcp_Allocated k' = tcp_Allocated ?k"
       "holds_stream S0 segs (insert j J) m' out (snd (rx_fields k'))" unfolding assms(5) by blast
  have "segs ! j \<noteq> []" using assms(1,4) by (metis nth_mem peer_stream_def)
  from on_established_stream [OF c r(1) this, of s] obtain ks where ks: "on_established data len g (?k, s) = Some ks"
    "rx_fields (fst ks) = rx_fields k'" "SocketTable (snd ks) = SocketTable s" by blast
  have "conn_inv S0 segs i (insert j J, out, put_socket i ks)"
    using i r ks by (auto simp: conn_inv_def rx_fields_def)
  then show ?thesis using HandleTCP_established [OF c assms(7,8) ks(1)] by blast
qed

lemma conn_step_inv:
  assumes "peer_stream S0 segs" and "conn_step S0 segs peer i x y" and "conn_inv S0 segs i x"
  shows "conn_inv S0 segs i y"
  using assms(2,3)
proof cases
  case (segment data len g j out s uninit s' J)
  then show ?thesis using segment_stream [OF assms(1), of i J out s data len g j peer uninit] assms(3) by auto
next
  case (bare data len g s uninit s' J out)
  from on_established_bare [OF bare(3), of "SocketTable s ! i" s] obtain ks where
    ks: "on_established data len g (SocketTable s ! i, s) = Some ks" "rx_fields (fst ks) = rx_fields (SocketTable s ! i)"
      "SocketTable (snd ks) = SocketTable s" by blast
  have "s' = put_socket i ks" using HandleTCP_established [OF bare(3-5) ks(1)] bare(6) by simp
  moreover have "i < length (SocketTable s)" using assms(3) bare(1) by (simp add: conn_inv_def)
  ultimately show ?thesis using conn_inv_cong [of S0 segs i J out s s'] assms(3) bare(1,2) ks by simp
next
  case (others data g src s uninit len s' J out)
  have "tcp_Allocated (SocketTable s ! i)" using assms(3) others(1) by (simp add: conn_inv_def)
  then show ?thesis using HandleTCP_other [OF others(3-5)] conn_inv_cong [of S0 segs i J out s s'] assms(3) others(1,2) by simp
next
  case (read n s xs s' J out)
  then show ?thesis using TCPRecv_stream assms(3) by simp
next
  case (timer J out s stale t)
  then show ?thesis using conn_inv_cong [of S0 segs i J out s "TCPCheckRetransmission stale (s\<lparr>TickCount := t\<rparr>)"] assms(3) by simp
next
  case (listens J out s port)
  then have "tcp_Allocated (SocketTable s ! i)" using assms(3) by (simp add: conn_inv_def)
  then show ?thesis using conn_inv_cong [of S0 segs i J out s "TCPListen port s"] assms(3) listens TCPListen_other by simp
next
  case (connects target port domain s r s' J out)
  then have "tcp_Allocated (SocketTable s ! i)" using assms(3) by (simp add: conn_inv_def)
  then show ?thesis using conn_inv_cong [of S0 segs i J out s s'] assms(3) connects TCPConnect_other by simp
qed

lemma conn_run_inv:
  assumes "(conn_step S0 segs peer i)\<^sup>*\<^sup>* x y" and "peer_stream S0 segs" and "conn_inv S0 segs i x"
  shows "conn_inv S0 segs i y"
  using assms by (induction rule: rtranclp_induct) (blast intro: conn_step_inv)+

text \<open>A connection that has just been established: nothing received, the next byte is the stream's first.\<close>

definition fresh_conn :: "u32 \<Rightarrow> nat \<Rightarrow> net \<Rightarrow> bool" where
  "fresh_conn S0 i s \<longleftrightarrow> i < length (SocketTable s) \<and>
     (let k = SocketTable s ! i in tcp_Allocated k \<and> tcp_ring k = new_ring 8192 \<and> TargetSequence k = S0 \<and> OOOList k = [])"

lemma new_ring_8192: "wf_ring (new_ring 8192)" "ring_capacity (new_ring 8192) = 8191" "ring_contents (new_ring 8192) = []"
  by (simp_all add: wf_ring_def new_ring_def ring_capacity_def ring_contents_def ring_used_def)

lemma fresh_conn_inv: "fresh_conn S0 i s \<Longrightarrow> conn_inv S0 segs i ({}, [], s)"
  using new_ring_8192 by (auto simp: fresh_conn_def conn_inv_def holds_stream_def rx_fields_def seq_of_def offset_def Let_def)

text \<open>C10. Whatever order the segments of a stream arrive in, however often each is repeated, and whatever
  is read, resent, opened or sent to other sockets in between, what the socket has handed out followed by what
  it still holds is the stream up to the first segment that has not arrived, and it acknowledges exactly that
  much. (The stream does not cross sequence number zero, and the peer keeps within 8191 bytes of what was read.)\<close>

theorem tcp_reassembles:
  assumes "fresh_conn S0 i s0" and "peer_stream S0 segs" and "(conn_step S0 segs peer i)\<^sup>*\<^sup>* ({}, [], s0) (J, out, s)"
  shows "\<exists>m \<le> length segs. {..<m} \<subseteq> J \<and> m \<notin> J \<and> TargetSequence (SocketTable s ! i) = S0 + of_nat (length (concat (take m segs))) \<and>
    out @ ring_contents (tcp_ring (SocketTable s ! i)) = concat (take m segs)"
proof -
  have "conn_inv S0 segs i (J, out, s)" using conn_run_inv [OF assms(3,2) fresh_conn_inv [OF assms(1)]] .
  then show ?thesis by (auto simp: conn_inv_def holds_stream_def rx_fields_def seq_of_def offset_def)
qed

text \<open>A socket of port 80 connected to port 1 of the peer, and a segment with the two first bytes of the stream.\<close>

definition demo_socket :: TCPSocket where
  "demo_socket = \<lparr>tcp_Allocated = True, SockID = 0, State = ESTABLISHED, LocalIP = 0x0200000A, RemoteIP = 0x0300000A, LocalPort = 80,
     RemotePort = 1, MySequence = 7, TargetSequence = 1000, LastSendTime = 0, WaitingAck = False, LastPacket = None, LastPacketLen = 0,
     LastFlags = 0, tcp_ring = new_ring 8192, Domain = Some [], OOOList = []\<rparr>"

definition demo_net :: net where
  "demo_net = demo_host\<lparr>SocketTable := [demo_socket]\<rparr>"

definition demo_data :: "u8 list" where
  "demo_data = [0, 1, 0, 80, 0, 0, 3, 0xE8, 0, 0, 0, 7, 0x50, 0x10, 0x20, 0, 0, 0, 0, 0, 65, 66]"

lemma demo_carries: "carries demo_data 22 \<lparr>in_SrcPort = 1, in_DestPort = 80, in_Seq = 1000, in_Ack = 7, in_HeaderLen = 20, in_Flags = TCP_ACK\<rparr> [65, 66]"
  by (simp add: carries_def demo_data_def parse_tcp_def get16_def get32_def get8_def get_bytes_def has_def Swap16_def Swap32_def word16_def word32_def)

theorem tcp_reassembles_witness:
  "\<exists>s. (conn_step 1000 [[65, 66], [67]] 0x0300000A 0)\<^sup>*\<^sup>* ({}, [], demo_net) ({0}, [], s) \<and>
     ring_contents (tcp_ring (SocketTable s ! 0)) = [65, 66]"
proof -
  let ?segs = "[[65, 66], [67 :: u8]]"
  have f: "fresh_conn 1000 0 demo_net" by (simp add: fresh_conn_def demo_net_def demo_host_def demo_socket_def)
  have p: "peer_stream 1000 ?segs" by (simp add: peer_stream_def)
  have q: "in_Seq \<lparr>in_SrcPort = 1, in_DestPort = 80, in_Seq = 1000, in_Ack = 7, in_HeaderLen = 20, in_Flags = TCP_ACK\<rparr> = seq_of 1000 ?segs 0"
    by (simp add: seq_of_def offset_def)
  have c: "carries demo_data 22 \<lparr>in_SrcPort = 1, in_DestPort = 80, in_Seq = 1000, in_Ack = 7, in_HeaderLen = 20, in_Flags = TCP_ACK\<rparr> (?segs ! 0)"
    using demo_carries by simp
  have g: "GetSocket (in_DestPort \<lparr>in_SrcPort = 1, in_DestPort = 80, in_Seq = 1000, in_Ack = 7, in_HeaderLen = 20, in_Flags = TCP_ACK\<rparr>) 0x0300000A
      (in_SrcPort \<lparr>in_SrcPort = 1, in_DestPort = 80, in_Seq = 1000, in_Ack = 7, in_HeaderLen = 20, in_Flags = TCP_ACK\<rparr>) demo_net = Some 0"
    by (simp add: GetSocket_def demo_net_def demo_host_def demo_socket_def)
  have st: "State (SocketTable demo_net ! 0) = ESTABLISHED" by (simp add: demo_net_def demo_host_def demo_socket_def)
  obtain s where s: "HandleTCP demo_socket demo_data 22 0x0300000A demo_net = Some s"
    using segment_stream [OF p fresh_conn_inv [OF f] c _ q _ g st, of demo_socket] by (auto simp: offset_def)
  have run: "(conn_step 1000 ?segs 0x0300000A 0)\<^sup>*\<^sup>* ({}, [], demo_net) ({0}, [], s)"
    using conn_step.segment [OF c _ q _ g st s, of "[]" "{}"] by (auto simp: offset_def)
  from tcp_reassembles [OF f p run] obtain m where "{..<m} \<subseteq> {0}" "m \<notin> {0}"
    "[] @ ring_contents (tcp_ring (SocketTable s ! 0)) = concat (take m ?segs)" by blast
  moreover have "m = 1"
  proof (rule ccontr)
    assume "m \<noteq> 1"
    then have "1 \<in> {..<m}" using \<open>m \<notin> {0}\<close> by simp
    then show False using \<open>{..<m} \<subseteq> {0}\<close> by auto
  qed
  ultimately show ?thesis using run by auto
qed

text \<open>C31. The advertised window is one byte too large: a peer that fills it exactly has all its bytes acknowledged, but
  the oldest byte the socket holds is overwritten before it was read.\<close>

theorem window_overruns:
  assumes "wf_ring (tcp_ring k)" and "RecvBufferSize (tcp_ring k) = 8192" and "OOOList k = []"
    and "0 < window k" and "length payload = unat (window k)"
  shows "\<exists>k'. receive_data (TargetSequence k) payload k = Some (k', False) \<and>
    TargetSequence k' = TargetSequence k + of_nat (length payload) \<and>
    ring_contents (tcp_ring k') = tl (ring_contents (tcp_ring k) @ payload)"
proof -
  let ?r = "tcp_ring k"
  have u: "unat (UsedBuffer ?r) = ring_used ?r" "ring_used ?r < 8192"
    using UsedBuffer_used [OF assms(1)] ring_used_less [OF assms(1)] assms(2) by simp_all
  have "unat (8192 - UsedBuffer ?r) = 8192 - ring_used ?r" using u by (simp add: unat_sub_if_size)
  then have "unat (ucast (8192 - UsedBuffer ?r) :: u16) = 8192 - ring_used ?r"
    using u by (simp add: unsigned_ucast_eq take_bit_eq_mod)
  then have "length payload = 8192 - ring_used ?r"
    using assms(2,4,5) by (auto simp: window_def Let_def split: if_splits)
  then have "length (ring_contents ?r @ payload) = Suc 8191" using u by (simp add: ring_contents_def)
  moreover have "ring_capacity ?r = 8191" using assms(2) by (simp add: ring_capacity_def)
  ultimately show ?thesis using push_bytes_window [OF assms(1), of payload] assms(3)
    by (auto simp: receive_data_def ProcessOOOList_def last_n_tl)
qed

theorem window_overruns_witness:
  "\<exists>k'. receive_data 1000 (replicate 8192 65) demo_socket = Some (k', False) \<and> length (ring_contents (tcp_ring k')) = 8191"
proof -
  have w: "window demo_socket = 8192" by (simp add: window_def demo_socket_def UsedBuffer_def new_ring_def)
  have "wf_ring (tcp_ring demo_socket)" "RecvBufferSize (tcp_ring demo_socket) = 8192" "OOOList demo_socket = []"
    using new_ring_8192 by (simp_all add: demo_socket_def new_ring_def)
  from window_overruns [OF this, of "replicate 8192 65"] w show ?thesis
    using new_ring_8192(3) by (auto simp: demo_socket_def)
qed

end
