(* ===== verification/Tcp_Safe.thy ===== *)
theory Tcp_Safe
  imports Tcp_Stream
begin

text \<open>
  Every socket that is in use is well formed in every state the stack can reach, and then no segment
  whose header fits into it, no read and no connection request makes the handlers leave their buffers.
\<close>

definition wf_socket :: "TCPSocket \<Rightarrow> bool" where
  "wf_socket k \<longleftrightarrow> (tcp_Allocated k \<longrightarrow>
     wf_ring (tcp_ring k) \<and> RecvBufferSize (tcp_ring k) = 8192 \<and>
     (\<exists>d. Domain k = Some d \<and> length d < 256) \<and>
     (WaitingAck k \<longrightarrow> length (case LastPacket k of None \<Rightarrow> [] | Some p \<Rightarrow> p) = unat (LastPacketLen k)))"

abbreviation wf_net :: "net \<Rightarrow> bool" where
  "wf_net s \<equiv> list_all wf_socket (SocketTable s)"

definition fits_frame :: "u8 list \<Rightarrow> u32 \<Rightarrow> bool" where
  "fits_frame data len \<longleftrightarrow> 20 \<le> unat len \<and> unat len \<le> length data \<and> unat (drop_bit 4 (data ! 12)) * 4 \<le> unat len"

section \<open>The operations keep sockets well formed\<close>

lemma wf_socket_update [simp]:
  "wf_socket (k\<lparr>MySequence := a\<rparr>) = wf_socket k" "wf_socket (k\<lparr>TargetSequence := a\<rparr>) = wf_socket k"
  "wf_socket (k\<lparr>State := st\<rparr>) = wf_socket k" "wf_socket (k\<lparr>LocalIP := a\<rparr>) = wf_socket k"
  "wf_socket (k\<lparr>RemoteIP := a\<rparr>) = wf_socket k" "wf_socket (k\<lparr>LocalPort := p\<rparr>) = wf_socket k"
  "wf_socket (k\<lparr>RemotePort := p\<rparr>) = wf_socket k" "wf_socket (k\<lparr>LastSendTime := t\<rparr>) = wf_socket k"
  "wf_socket (k\<lparr>OOOList := l\<rparr>) = wf_socket k"
  by (simp_all add: wf_socket_def)

lemma wf_remember:
  "wf_socket k \<Longrightarrow> length p < 65536 \<Longrightarrow> wf_socket (remember_packet f p t k)"
  by (auto simp: remember_packet_def wf_socket_def unat_of_nat take_bit_nat_eq_self)

lemma wf_SendTCPRaw [simp]:
  "wf_socket (fst ks) \<Longrightarrow> length p < 65536 \<Longrightarrow> wf_socket (fst (SendTCPRaw f p ks))"
  by (auto simp: SendTCPRaw_def wf_remember Let_def split: prod.splits option.splits)

lemma wf_SendTCPData [simp]:
  "wf_socket (fst ks) \<Longrightarrow> length p < 65536 \<Longrightarrow> wf_socket (fst (SendTCPData p ks))"
  by (simp add: SendTCPData_def split_beta)

lemma wf_clear_waiting [simp]: "wf_socket k \<Longrightarrow> wf_socket (clear_waiting k)"
  by (simp add: clear_waiting_def wf_socket_def)

lemma wf_acked [simp]: "wf_socket k \<Longrightarrow> wf_socket (acked g k)"
  by (simp add: acked_def)

lemma wf_FreeSocket [simp]: "wf_socket (FreeSocket k)"
  by (simp add: FreeSocket_def wf_socket_def)

lemma wf_serve_http [simp]: "wf_socket (fst ks) \<Longrightarrow> wf_socket (fst (serve_http p ks))"
  by (simp add: serve_http_def split_beta HtmlResponse_def ascii_bytes_def)

lemma wf_on_fin [simp]: "wf_socket (fst ks) \<Longrightarrow> wf_socket (fst (on_fin g ks))"
  by (simp add: on_fin_def split_beta)

lemma wf_close_on_fin [simp]: "wf_socket (fst ks) \<Longrightarrow> wf_socket (fst (close_on_fin g ks))"
  by (simp add: close_on_fin_def split_beta)

lemma wf_socket_ring:
  "wf_socket k \<Longrightarrow> wf_ring r \<Longrightarrow> RecvBufferSize r = 8192 \<Longrightarrow> wf_socket (k\<lparr>tcp_ring := r\<rparr>)"
  by (simp add: wf_socket_def)

lemma capacity_size: "wf_ring r \<Longrightarrow> ring_capacity r = 8191 \<longleftrightarrow> RecvBufferSize r = 8192"
  using wf_ringD(3) [of r] by (auto simp: ring_capacity_def word_unat_eq_iff)

lemma push_bytes_8192:
  "wf_ring r \<Longrightarrow> RecvBufferSize r = 8192 \<Longrightarrow> \<exists>r'. push_bytes xs r = Some r' \<and> wf_ring r' \<and> RecvBufferSize r' = 8192"
  using push_bytes_window [of r xs] by (metis capacity_size)

lemma drain_ooo_8192:
  "wf_ring r \<Longrightarrow> RecvBufferSize r = 8192 \<Longrightarrow> \<exists>l' t' r'. drain_ooo l t r = Some (l', t', r') \<and> wf_ring r' \<and> RecvBufferSize r' = 8192"
proof (induction l arbitrary: t r)
  case (Cons h l)
  from push_bytes_8192 [OF Cons.prems, of "seg_Payload h"] obtain r1 where
    "push_bytes (seg_Payload h) r = Some r1" "wf_ring r1" "RecvBufferSize r1 = 8192" by blast
  then show ?case using Cons by simp
qed simp

lemma receive_data_ok:
  assumes "wf_socket k" and "tcp_Allocated k"
  shows "\<exists>k' stop. receive_data sq p k = Some (k', stop) \<and> wf_socket k' \<and> tcp_Allocated k'"
proof -
  have r: "wf_ring (tcp_ring k)" "RecvBufferSize (tcp_ring k) = 8192" using assms by (simp_all add: wf_socket_def)
  from push_bytes_8192 [OF r, of p] obtain r1 where
    r1: "push_bytes p (tcp_ring k) = Some r1" "wf_ring r1" "RecvBufferSize r1 = 8192" by blast
  from drain_ooo_8192 [OF r1(2,3), of "OOOList k" "TargetSequence k + of_nat (length p)"] obtain l' t' r2 where
    r2: "drain_ooo (OOOList k) (TargetSequence k + of_nat (length p)) r1 = Some (l', t', r2)" "wf_ring r2" "RecvBufferSize r2 = 8192" by blast
  then show ?thesis using assms r1(1)
    by (auto simp: receive_data_def ProcessOOOList_def AddOOOSegment_def Let_def wf_socket_def)
qed

lemma on_established_ok:
  assumes "wf_socket k" and "tcp_Allocated k" and "in_HeaderLen g \<le> unat len" and "unat len \<le> length data"
  shows "\<exists>ks. on_established data len g (k, s) = Some ks \<and> wf_socket (fst ks)"
proof -
  have "unat len < 4294967296" using unsigned_less [of len, where ?'a = nat] by simp
  then have "unat (len - of_nat (in_HeaderLen g)) = unat len - in_HeaderLen g"
    using assms(3) by (simp add: unat_sub_if_size unat_of_nat take_bit_nat_eq_self)
  then have "get_bytes data (in_HeaderLen g) (unat (len - of_nat (in_HeaderLen g))) \<noteq> None"
    using assms(3,4) by (simp add: get_bytes_def)
  then obtain p where p: "get_bytes data (in_HeaderLen g) (unat (len - of_nat (in_HeaderLen g))) = Some p" by blast
  from receive_data_ok [OF assms(1,2), of "in_Seq g" p] obtain k' stop where
    "receive_data (in_Seq g) p k = Some (k', stop)" "wf_socket k'" by blast
  then show ?thesis using assms(1) p by (cases stop) (auto simp: on_established_def Let_def split_beta simp del: split_paired_Ex)
qed

lemma HttpRequest_short: "wf_socket k \<Longrightarrow> tcp_Allocated k \<Longrightarrow> length (HttpRequest k) < 512"
  by (auto simp: wf_socket_def HttpRequest_def ascii_bytes_def)

lemma on_segment_ok:
  assumes "wf_socket (fst ks)" and "tcp_Allocated (fst ks)" and "in_HeaderLen g \<le> unat len" and "unat len \<le> length data"
  shows "\<exists>ks'. on_segment data len g src ks = Some ks' \<and> wf_socket (fst ks')"
proof (cases "State (fst ks)")
  case SYN_SENT
  let ?ks = "SendTCPRaw TCP_ACK [] ((fst ks)\<lparr>RemoteIP := src, TargetSequence := in_Seq g + 1, MySequence := MySequence (fst ks) + 1\<rparr>, snd ks)"
  have "length (HttpRequest (fst ks)) < 512" using HttpRequest_short assms by simp
  moreover have "HttpRequest ((fst ?ks)\<lparr>State := ESTABLISHED\<rparr>) = HttpRequest (fst ks)" by (simp add: HttpRequest_def)
  ultimately show ?thesis using SYN_SENT assms by (auto simp: on_segment_def on_syn_sent_def Let_def split_beta simp del: split_paired_Ex)
next
  case SYN_RCVD
  have "wf_socket (clear_waiting ((fst ks)\<lparr>State := ESTABLISHED\<rparr>))" "tcp_Allocated (clear_waiting ((fst ks)\<lparr>State := ESTABLISHED\<rparr>))"
    using assms by (simp_all add: clear_waiting_def wf_socket_def)
  from on_established_ok [OF this assms(3,4), of "snd ks"] SYN_RCVD assms(1) show ?thesis
    by (auto simp: on_segment_def on_syn_rcvd_def Let_def split_beta simp del: split_paired_Ex)
next
  case ESTABLISHED
  then show ?thesis using on_established_ok [OF assms, of "snd ks"] by (simp add: on_segment_def)
qed (use assms(1) in \<open>auto simp: on_segment_def on_listen_def on_fin_wait_1_def on_last_ack_def Let_def split_beta simp del: split_paired_Ex\<close>)

section \<open>Runs of the stack\<close>

lemma wf_netD: "wf_net s \<Longrightarrow> i < length (SocketTable s) \<Longrightarrow> wf_socket (SocketTable s ! i)"
  by (simp add: list_all_length)

lemma list_all_update: "list_all P xs \<Longrightarrow> P x \<Longrightarrow> list_all P (xs[i := x])"
  using set_update_subset_insert [of xs i x] by (auto simp: list_all_iff)

lemma wf_put_socket: "wf_net (snd ks) \<Longrightarrow> wf_socket (fst ks) \<Longrightarrow> wf_net (put_socket i ks)"
  by (simp add: put_socket_def list_all_update)

lemma AllocateSocket_ok:
  assumes "wf_net s" and "AllocateSocket s = (r, s')"
  shows "wf_net s'" "r = Some i \<Longrightarrow> i < length (SocketTable s') \<and> tcp_Allocated (SocketTable s' ! i) \<and> card_IP s' = card_IP s"
proof -
  have "wf_socket ((k :: TCPSocket)\<lparr>tcp_Allocated := True, SockID := a, State := CLOSED, WaitingAck := False, LastPacket := None,
      tcp_ring := new_ring 8192, Domain := Some []\<rparr>)" for k a
    using new_ring_8192(1) by (simp add: wf_socket_def new_ring_def)
  then show "wf_net s'" "r = Some i \<Longrightarrow> i < length (SocketTable s') \<and> tcp_Allocated (SocketTable s' ! i) \<and> card_IP s' = card_IP s"
    using assms by (auto simp: AllocateSocket_def list_all_update dest!: find_index_SomeD split: option.splits)
qed

lemma TCPListen_ok:
  assumes "wf_net s"
  shows "wf_net (TCPListen port s)"
proof -
  obtain q s1 where q: "AllocateSocket s = (q, s1)" by fastforce
  note a = AllocateSocket_ok [OF assms q]
  show ?thesis using q a wf_netD [OF a(1)] by (cases q) (simp_all add: TCPListen_def wf_put_socket)
qed

lemma TCPConnect_ok:
  assumes "wf_net s" and "case domain of Some d \<Rightarrow> length d < 256 | None \<Rightarrow> True"
  shows "\<exists>r. TCPConnect target port domain s = Some r \<and> wf_net (snd r)"
proof -
  obtain q s1 where q: "AllocateSocket s = (q, s1)" by fastforce
  note a = AllocateSocket_ok [OF assms(1) q]
  show ?thesis
  proof (cases q)
    case None
    then show ?thesis using q a by (simp add: TCPConnect_def)
  next
    case (Some i)
    let ?d = "case domain of Some d \<Rightarrow> d | None \<Rightarrow> []"
    have "\<not> (case domain of Some d \<Rightarrow> 256 \<le> length d | None \<Rightarrow> False)" "length ?d < 256" using assms(2) by (auto split: option.splits)
    moreover have "wf_socket (k\<lparr>Domain := Some ?d\<rparr>)" if "wf_socket k" for k using that \<open>length ?d < 256\<close> by (simp add: wf_socket_def)
    ultimately show ?thesis using q a Some wf_netD [OF a(1), of i]
      by (simp add: TCPConnect_def Let_def split_beta wf_put_socket)
  qed
qed

lemma parse_tcp_fits:
  assumes "fits_frame data len"
  shows "\<exists>g. parse_tcp data = Some g \<and> in_HeaderLen g \<le> unat len"
  using assms by (auto simp: fits_frame_def parse_tcp_def get16_def get32_def get8_def)

lemma HandleTCP_ok:
  assumes "wf_net s" and "fits_frame data len"
  shows "\<exists>s'. HandleTCP uninit data len src s = Some s' \<and> wf_net s'"
proof -
  from parse_tcp_fits [OF assms(2)] obtain g where g: "parse_tcp data = Some g" "in_HeaderLen g \<le> unat len" by blast
  have len: "unat len \<le> length data" using assms(2) by (simp add: fits_frame_def)
  show ?thesis
  proof (cases "GetSocket (in_DestPort g) src (in_SrcPort g) s")
    case (Some i)
    then have i: "i < length (SocketTable s)" "tcp_Allocated (SocketTable s ! i)" by (auto simp: GetSocket_def dest: find_index_SomeD)
    from on_segment_ok [of "(SocketTable s ! i, s)" g len data src] obtain ks where
      ks: "on_segment data len g src (SocketTable s ! i, s) = Some ks" "wf_socket (fst ks)" using i wf_netD [OF assms(1)] g(2) len by auto
    moreover have "wf_net (snd ks)" using on_segment_table [OF ks(1)] assms(1) by simp
    ultimately show ?thesis using g(1) Some by (simp add: HandleTCP_def wf_put_socket)
  next
    case None
    obtain q s1 where q: "AllocateSocket s = (q, s1)" by fastforce
    note a = AllocateSocket_ok [OF assms(1) q]
    have reset: "wf_net (send_reset uninit g src t) = wf_net t" for t by (simp add: send_reset_def)
    show ?thesis using g(1) None q a assms(1) wf_netD [OF a(1)]
      by (auto simp: HandleTCP_def reset accept_syn_def Let_def split_beta wf_put_socket split: option.splits)
  qed
qed

lemma TCPRecv_ok:
  assumes "wf_net s" and "i < length (SocketTable s)"
  shows "\<exists>r. TCPRecv i n s = Some r \<and> wf_net (snd r)"
proof (cases "tcp_Allocated (SocketTable s ! i)")
  case True
  let ?k = "SocketTable s ! i"
  have k: "wf_socket ?k" and r: "wf_ring (tcp_ring ?k)" "RecvBufferSize (tcp_ring ?k) = 8192"
    using wf_netD [OF assms] True by (auto simp: wf_socket_def)
  from rx.recv_law [OF r(1), of "unat n"] obtain r' where r': "ring_recv (unat n) (tcp_ring ?k) = Some (take (unat n) (ring_contents (tcp_ring ?k)), r')"
    "wf_ring r'" "ring_capacity r' = ring_capacity (tcp_ring ?k)" by blast
  then have "wf_socket (?k\<lparr>tcp_ring := r'\<rparr>)" using k r by (metis wf_socket_ring capacity_size)
  then show ?thesis using assms True r'(1) by (simp add: TCPRecv_def Let_def wf_put_socket)
next
  case False
  then show ?thesis using assms by (simp add: TCPRecv_def Let_def)
qed

lemma retransmit_ok:
  assumes "wf_net s" and "\<And>p. length (stale p) = length p" and "i < length (SocketTable s)"
  shows "wf_net (retransmit stale i s)"
proof -
  let ?k = "SocketTable s ! i"
  have k: "wf_socket ?k" using wf_netD assms by blast
  have st: "wf_socket (k\<lparr>MySequence := a, LastSendTime := t, LastPacket := if b then LastPacket k else map_option stale (LastPacket k)\<rparr>)"
    if "wf_socket k" for k a t b
    using that assms(2) by (cases "LastPacket k") (auto simp: wf_socket_def)
  have "unat (LastPacketLen ?k) < 65536" using unsigned_less [of "LastPacketLen ?k", where ?'a = nat] by simp
  then have "wf_socket (fst (SendTCPRaw (LastFlags ?k) (case LastPacket ?k of None \<Rightarrow> [] | Some p \<Rightarrow> p) (?k\<lparr>MySequence := a\<rparr>, s)))"
    if "tcp_Allocated ?k" "WaitingAck ?k" for a
    using k that by (intro wf_SendTCPRaw) (auto simp: wf_socket_def)
  then show ?thesis using assms(1) by (simp add: retransmit_def Let_def split_beta wf_put_socket st)
qed

lemma TCPCheckRetransmission_ok:
  assumes "wf_net s" and "\<And>p. length (stale p) = length p"
  shows "wf_net (TCPCheckRetransmission stale s)"
proof -
  have "wf_net (fold (retransmit stale) is s)" if "set is \<subseteq> {..<length (SocketTable s)}" for "is"
    using that assms(1)
  proof (induction "is" arbitrary: s)
    case (Cons i "is")
    then show ?case using retransmit_ok [of s stale i] assms(2) by simp
  qed simp
  then show ?thesis by (simp add: TCPCheckRetransmission_def atLeast_upt)
qed

text \<open>All the ways the stack's state changes under the interrupt handler, the timer and the callers of the
  interface. Frames are those whose header fits, domains fit their buffer, data fits a 16-bit length.\<close>

inductive stack_step :: "net \<Rightarrow> net \<Rightarrow> bool" where
  frame: "fits_frame data len \<Longrightarrow> HandleTCP uninit data len src s = Some s' \<Longrightarrow> stack_step s s'"
| recv: "i < length (SocketTable s) \<Longrightarrow> TCPRecv i n s = Some (r, s') \<Longrightarrow> stack_step s s'"
| send: "i < length (SocketTable s) \<Longrightarrow> length d < 65536 \<Longrightarrow> stack_step s (put_socket i (SendTCPData d (SocketTable s ! i, s)))"
| listen: "stack_step s (TCPListen port s)"
| connect: "length d < 256 \<Longrightarrow> TCPConnect target port (Some d) s = Some (r, s') \<Longrightarrow> stack_step s s'"
| connect_ip: "TCPConnect target port None s = Some (r, s') \<Longrightarrow> stack_step s s'"
| free: "i < length (SocketTable s) \<Longrightarrow> stack_step s (put_socket i (FreeSocket (SocketTable s ! i), s))"
| timer: "(\<And>p. length (stale p) = length p) \<Longrightarrow> stack_step s (TCPCheckRetransmission stale (s\<lparr>TickCount := t\<rparr>))"

lemma stack_step_wf:
  assumes "stack_step s s'" and "wf_net s"
  shows "wf_net s'"
  using assms
proof cases
  case (frame data len uninit src)
  then show ?thesis using HandleTCP_ok [OF assms(2), of data len uninit src] by auto
next
  case (recv i n r)
  then show ?thesis using TCPRecv_ok [OF assms(2), of i n] by auto
next
  case (connect d target port r)
  then show ?thesis using TCPConnect_ok [OF assms(2), of "Some d" target port] by auto
next
  case (connect_ip target port r)
  then show ?thesis using TCPConnect_ok [OF assms(2), of None target port] by auto
qed (use assms(2) in \<open>simp_all add: wf_put_socket wf_netD TCPListen_ok TCPCheckRetransmission_ok\<close>)

lemma stack_run_wf: "stack_step\<^sup>*\<^sup>* s0 s \<Longrightarrow> wf_net s0 \<Longrightarrow> wf_net s"
  by (induction rule: rtranclp_induct) (auto intro: stack_step_wf)



end
