(* ===== verification/Dns.thy ===== *)
theory Dns
  imports Tcp_Safe
begin

text \<open>
  The DNS client, \<^verbatim>\<open>kernel/lib/network/dns.cpp\<close>: names are written as labels with their lengths in front and read
  back through compression pointers; the first address of a reply is connected to. A packet is the receive buffer from the
  DNS header on; a read past it is undefined. Domain names are C strings, byte lists without zero.
\<close>

section \<open>Model\<close>

definition put_at :: "nat \<Rightarrow> u8 list \<Rightarrow> u8 list \<Rightarrow> u8 list" where
  "put_at i xs p = take i p @ xs @ drop (i + length xs) p"

text \<open>The loop of \<^verbatim>\<open>EncodeDNSName\<close>, from index \<open>i\<close> on, for \<open>n\<close> more characters.\<close>

fun lock_loop :: "nat \<Rightarrow> nat \<Rightarrow> nat \<Rightarrow> u8 list \<Rightarrow> nat \<times> u8 list" where
  "lock_loop 0 i lock buf = (lock, buf)"
| "lock_loop (Suc n) i lock buf =
     (if buf ! (i + 1) = 46 then lock_loop n (i + 1) (i + 1) (buf[lock := of_nat (i - lock)])
      else lock_loop n (i + 1) lock buf)"

definition EncodeDNSName :: "u8 list \<Rightarrow> u8 list \<Rightarrow> (u8 list \<times> nat) option" where
  "EncodeDNSName buf domain =
     (let len = length domain in
      if length buf < len + 2 then None
      else let (lock, buf) = lock_loop len 0 0 (put_at 1 (domain @ [0]) buf) in
        Some ((buf[lock := of_nat (len - lock)])[len + 1 := 0], len + 2))"

definition dns_header :: "u16 \<Rightarrow> u16 \<Rightarrow> u16 \<Rightarrow> u16 \<Rightarrow> u8 list" where
  "dns_header ident flags questions answers = bytes16 ident @ bytes16 flags @ bytes16 questions @ bytes16 answers @ bytes16 0 @ bytes16 0"

text \<open>\<open>uninit\<close> is what the heap left in the block of 512 bytes.\<close>

definition SendDNSQuery :: "u8 list \<Rightarrow> u8 list \<Rightarrow> net \<Rightarrow> net option" where
  "SendDNSQuery uninit domain s =
     (if DnsServer s = 0 then Some s
      else do { (buf, n) \<leftarrow> EncodeDNSName (drop 12 uninit) domain;
                if length buf < n + 4 then None
                else Some (snd (SendUDP (DnsServer s) 55555 53
                  (dns_header (Swap16 0xCAFE) (Swap16 0x0100) (Swap16 1) 0 @ take n buf @ bytes16 (Swap16 1) @ bytes16 (Swap16 1)) s)) })"

function SkipDNSName :: "u8 list \<Rightarrow> nat \<Rightarrow> nat option" where
  "SkipDNSName p i =
     (if i < length p then
        let c = p ! i in
        if c = 0 then Some (i + 1) else if c AND 0xC0 = 0xC0 then Some (i + 2) else SkipDNSName p (i + unat c + 1)
      else None)"
  by pat_completeness auto

termination
  by (relation "measure (\<lambda>(p, i). length p - i)") auto

declare SkipDNSName.simps [simp del]

text \<open>The loop of \<^verbatim>\<open>DecodeDNSName\<close>: \<open>out\<close> is what has been written to \<^verbatim>\<open>OutBuffer\<close>, \<open>ret\<close> is \<^verbatim>\<open>ReturnPtr\<close>, set at the first jump.\<close>

function decode_loop :: "u8 list \<Rightarrow> nat \<Rightarrow> nat \<Rightarrow> u8 list \<Rightarrow> nat option \<Rightarrow> (u8 list \<times> nat) option" where
  "decode_loop p i jumps out ret =
     (case get8 p i of
        None \<Rightarrow> None
      | Some c \<Rightarrow>
          if c = 0 \<or> \<not> jumps < 10 then
            Some (if out \<noteq> [] then butlast out else [], case ret of None \<Rightarrow> i + 1 | Some r \<Rightarrow> r)
          else if c AND 0xC0 = 0xC0 then
            Option.bind (get16 p i) (\<lambda>w. decode_loop p (unat (Swap16 w AND 0x3FFF)) (jumps + 1) out (if ret = None then Some (i + 2) else ret))
          else
            Option.bind (get_bytes p (i + 1) (unat c)) (\<lambda>lbl.
              decode_loop p (i + 1 + unat c) jumps (take 255 (take 255 (out @ lbl) @ [46])) ret))"
  by pat_completeness auto

termination
  by (relation "measures [\<lambda>(p, i, jumps, out, ret). 10 - jumps, \<lambda>(p, i, jumps, out, ret). length p - i]")
    (auto simp: get8_def split: if_splits)

declare decode_loop.simps [simp del]

definition DecodeDNSName :: "u8 list \<Rightarrow> nat \<Rightarrow> (u8 list \<times> nat) option" where
  "DecodeDNSName p i = decode_loop p i 0 [] None"

fun skip_questions :: "u8 list \<Rightarrow> nat \<Rightarrow> nat \<Rightarrow> nat option" where
  "skip_questions p 0 i = Some i"
| "skip_questions p (Suc n) i = Option.bind (SkipDNSName p i) (\<lambda>j. skip_questions p n (j + 4))"

text \<open>The answers: the address of the first one that is an IPv4 address.\<close>

fun find_answer :: "u8 list \<Rightarrow> nat \<Rightarrow> nat \<Rightarrow> u32 option option" where
  "find_answer p 0 i = Some None"
| "find_answer p (Suc n) i =
     do { i \<leftarrow> SkipDNSName p i;
          type \<leftarrow> get16 p i; cls \<leftarrow> get16 p (i + 2); ttl \<leftarrow> get32 p (i + 4); len \<leftarrow> get16 p (i + 8);
          if Swap16 type = 1 \<and> Swap16 cls = 1 \<and> Swap16 len = 4 then map_option Some (get32 p (i + 10))
          else find_answer p n (i + 10 + unat (Swap16 len)) }"

definition HandleDNS :: "u8 list \<Rightarrow> nat \<Rightarrow> net \<Rightarrow> net option" where
  "HandleDNS p len s =
     (if len < 12 then Some s
      else do {
        ident \<leftarrow> get16 p 0; questions \<leftarrow> get16 p 4; answers \<leftarrow> get16 p 6;
        if Swap16 ident \<noteq> 0xCAFE \<or> Swap16 answers = 0 then Some s
        else do {
          (domain, i) \<leftarrow> (if Swap16 questions = 0 then Some ([], 12)
             else do { (domain, i) \<leftarrow> DecodeDNSName p 12; i \<leftarrow> skip_questions p (unat (Swap16 questions) - 1) (i + 4); Some (domain, i) });
          a \<leftarrow> find_answer p (unat (Swap16 answers)) i;
          (case a of
             None \<Rightarrow> Some s
           | Some ip \<Rightarrow> map_option snd (TCPConnect ip 80 (Some (takeWhile (\<lambda>c. c \<noteq> 0) domain)) s)) } })"

section \<open>Names on the wire\<close>

fun join_dots :: "u8 list list \<Rightarrow> u8 list" where
  "join_dots [] = []"
| "join_dots [l] = l"
| "join_dots (l # m # ls) = l @ 46 # join_dots (m # ls)"

definition wire :: "u8 list list \<Rightarrow> u8 list" where
  "wire ls = concat (map (\<lambda>l. of_nat (length l) # l) ls)"

definition good_labels :: "u8 list list \<Rightarrow> bool" where
  "good_labels ls \<longleftrightarrow> ls \<noteq> [] \<and> (\<forall>l \<in> set ls. l \<noteq> [] \<and> length l < 64 \<and> 46 \<notin> set l \<and> 0 \<notin> set l) \<and> length (join_dots ls) < 255"

lemma wire_simps [simp]: "wire [] = []" "wire (l # ls) = of_nat (length l) # l @ wire ls"
  by (simp_all add: wire_def)

lemma length_wire: "ls \<noteq> [] \<Longrightarrow> length (wire ls) = length (join_dots ls) + 1"
  by (induction ls rule: join_dots.induct) simp_all

lemma lock_loop_skip:
  "(\<And>j. j < m \<Longrightarrow> buf ! (i + 1 + j) \<noteq> 46) \<Longrightarrow> lock_loop (m + n) i lock buf = lock_loop n (i + m) lock buf"
proof (induction m arbitrary: i)
  case (Suc m)
  have "buf ! (i + 1) \<noteq> 46" using Suc.prems [of 0] by simp
  moreover have "lock_loop (m + n) (i + 1) lock buf = lock_loop n (i + 1 + m) lock buf"
    using Suc.prems [of "Suc j" for j] by (intro Suc.IH) simp
  ultimately show ?case by simp
qed simp

lemma lock_loop_label:
  assumes "46 \<notin> set l"
  shows "lock_loop (length l + n) (length pre) lock (pre @ x # l @ rest) = lock_loop n (length pre + length l) lock (pre @ x # l @ rest)"
proof (rule lock_loop_skip)
  fix j assume "j < length l"
  then have "(pre @ x # l @ rest) ! (length pre + 1 + j) = l ! j" by (simp add: nth_append)
  then show "(pre @ x # l @ rest) ! (length pre + 1 + j) \<noteq> 46" using assms \<open>j < length l\<close> by (metis nth_mem)
qed

lemma lock_loop_wire:
  assumes "ls \<noteq> []" and "\<forall>l \<in> set ls. 46 \<notin> set l"
  shows "case lock_loop (length (join_dots ls)) (length pre) (length pre) (pre @ x # join_dots ls @ rest) of
    (lock, buf) \<Rightarrow> buf[lock := of_nat (length pre + length (join_dots ls) - lock)] = pre @ wire ls @ rest"
  using assms
proof (induction ls arbitrary: pre x rule: join_dots.induct)
  case (2 l)
  then show ?case using lock_loop_label [of l 0 pre "length pre" x rest] by simp
next
  case (3 l m ls)
  let ?b = "pre @ x # l @ 46 # join_dots (m # ls) @ rest"
  let ?pre = "pre @ of_nat (length l) # l"
  have dot: "?b ! (length pre + length l + 1) = 46" by (simp add: nth_append)
  have "lock_loop (length (join_dots (l # m # ls))) (length pre) (length pre) ?b =
      lock_loop (Suc (length (join_dots (m # ls)))) (length pre + length l) (length pre) ?b"
    using lock_loop_label [of l "Suc (length (join_dots (m # ls)))" pre "length pre" x "46 # join_dots (m # ls) @ rest"] 3(3) by simp
  also have "\<dots> = lock_loop (length (join_dots (m # ls))) (length ?pre) (length ?pre) (?pre @ 46 # join_dots (m # ls) @ rest)"
    using dot by simp
  finally have "lock_loop (length (join_dots (l # m # ls))) (length pre) (length pre) ?b =
      lock_loop (length (join_dots (m # ls))) (length ?pre) (length ?pre) (?pre @ 46 # join_dots (m # ls) @ rest)" .
  moreover have "length pre + length (join_dots (l # m # ls)) = length ?pre + length (join_dots (m # ls))" by simp
  ultimately show ?case using "3.IH" [of ?pre 46] 3(3) by (simp add: add.assoc)
qed simp

lemma EncodeDNSName_wire:
  assumes "ls \<noteq> []" and "\<forall>l \<in> set ls. 46 \<notin> set l" and "length (join_dots ls) + 2 \<le> length buf"
  shows "EncodeDNSName buf (join_dots ls) = Some (wire ls @ 0 # drop (length (join_dots ls) + 2) buf, length (join_dots ls) + 2)"
proof -
  let ?n = "length (join_dots ls)"
  obtain x where x: "take 1 buf = [x]" using assms(3) by (cases buf) auto
  have p: "put_at 1 (join_dots ls @ [0]) buf = [] @ x # join_dots ls @ 0 # drop (?n + 2) buf" using x by (simp add: put_at_def)
  obtain lock b where lb: "lock_loop ?n 0 0 (put_at 1 (join_dots ls @ [0]) buf) = (lock, b)" by fastforce
  then have "b[lock := of_nat (?n - lock)] = wire ls @ 0 # drop (?n + 2) buf"
    using lock_loop_wire [OF assms(1,2), where pre = "[]" and x = x and rest = "0 # drop (?n + 2) buf"] p by simp
  moreover have "(wire ls @ 0 # drop (?n + 2) buf)[?n + 1 := 0] = wire ls @ 0 # drop (?n + 2) buf"
    using length_wire [OF assms(1)] by (simp add: list_update_append)
  ultimately show ?thesis using lb assms(3) by (simp add: EncodeDNSName_def Let_def)
qed

lemma label_length_byte:
  assumes "0 < n" and "n < 64"
  shows "unat (of_nat n :: u8) = n" "(of_nat n :: u8) \<noteq> 0" "(of_nat n :: u8) AND 0xC0 \<noteq> 0xC0"
proof -
  show n: "unat (of_nat n :: u8) = n" using assms by (simp add: unat_of_nat take_bit_nat_eq_self)
  then show "(of_nat n :: u8) \<noteq> 0" using assms by (metis not_less0 unat_0)
  have "unat ((of_nat n :: u8) AND 0xC0) \<le> n" using n by (metis word_and_le2 word_le_nat_alt)
  then show "(of_nat n :: u8) AND 0xC0 \<noteq> 0xC0" using assms by (intro notI) simp
qed

lemma get8_here [simp]: "get8 (pre @ c # rest) (length pre) = Some c"
  by (simp add: get8_def)

lemma get_bytes_here: "get_bytes (pre @ c # l @ rest) (length pre + 1) (length l) = Some l"
  by (simp add: get_bytes_def)

lemma decode_loop_wire:
  assumes "\<forall>l \<in> set ls. l \<noteq> [] \<and> length l < 64" and "jumps < 10"
    and "length out + length (wire ls) \<le> 255"
  shows "decode_loop (pre @ wire ls @ 0 # rest) (length pre) jumps out ret =
    Some (let o2 = out @ concat (map (\<lambda>l. l @ [46]) ls) in if o2 \<noteq> [] then butlast o2 else [],
          case ret of None \<Rightarrow> length pre + length (wire ls) + 1 | Some r \<Rightarrow> r)"
  using assms(1,3)
proof (induction ls arbitrary: pre out)
  case Nil
  then show ?case using decode_loop.simps [of "pre @ 0 # rest" "length pre" jumps out ret] by (cases ret) (simp_all add: Let_def)
next
  case (Cons l ls)
  have b: "unat (of_nat (length l) :: u8) = length l" "(of_nat (length l) :: u8) \<noteq> 0" "(of_nat (length l) :: u8) AND 0xC0 \<noteq> 0xC0"
    using label_length_byte [of "length l"] Cons.prems(1) by auto
  let ?p = "pre @ wire (l # ls) @ 0 # rest"
  let ?pre = "pre @ of_nat (length l) # l"
  have c: "get8 ?p (length pre) = Some (of_nat (length l))" by simp
  have g: "get_bytes ?p (length pre + 1) (length l) = Some l"
    using get_bytes_here [of pre "of_nat (length l)" l "wire ls @ 0 # rest"] by simp
  have out: "take 255 (take 255 (out @ l) @ [46]) = out @ l @ [46]" using Cons.prems(2) by simp
  have "decode_loop ?p (length pre) jumps out ret = decode_loop ?p (length pre + 1 + length l) jumps (out @ l @ [46]) ret"
    unfolding decode_loop.simps [of ?p "length pre" jumps out ret] c using b assms(2) g out by simp
  also have "\<dots> = decode_loop (?pre @ wire ls @ 0 # rest) (length ?pre) jumps (out @ l @ [46]) ret" by simp
  finally show ?case using Cons.IH [of "out @ l @ [46]" ?pre] Cons.prems by (simp add: Let_def split: option.split)
qed

lemma butlast_dots: "ls \<noteq> [] \<Longrightarrow> butlast (concat (map (\<lambda>l. l @ [46]) ls)) = join_dots ls"
  by (induction ls rule: join_dots.induct) (simp_all add: butlast_append)

lemma SkipDNSName_wire:
  assumes "\<forall>l \<in> set ls. l \<noteq> [] \<and> length l < 64"
  shows "SkipDNSName (pre @ wire ls @ 0 # rest) (length pre) = Some (length pre + length (wire ls) + 1)"
  using assms
proof (induction ls arbitrary: pre)
  case Nil
  then show ?case by (subst SkipDNSName.simps) simp
next
  case (Cons l ls)
  have b: "unat (of_nat (length l) :: u8) = length l" "(of_nat (length l) :: u8) \<noteq> 0" "(of_nat (length l) :: u8) AND 0xC0 \<noteq> 0xC0"
    using label_length_byte [of "length l"] Cons.prems by auto
  let ?pre = "pre @ of_nat (length l) # l"
  let ?p = "pre @ wire (l # ls) @ 0 # rest"
  have "SkipDNSName ?p (length pre) = SkipDNSName ?p (length pre + length l + 1)"
    unfolding SkipDNSName.simps [of ?p "length pre"] using b by simp
  also have "\<dots> = SkipDNSName (?pre @ wire ls @ 0 # rest) (length ?pre)" by simp
  finally show ?case using Cons.IH [of ?pre] Cons.prems by simp
qed

text \<open>C29. Encoding a domain name and decoding it gives the name back: the encoder replaces every dot by the length of the
  label behind it, the decoder finds the same labels and stops right behind the name, and so does the routine that skips
  a name. Labels have at most 63 bytes and the name at most 254.\<close>

theorem dns_name_roundtrip:
  assumes "good_labels ls" and "length (join_dots ls) + 2 \<le> length buf"
  shows "\<exists>buf'. EncodeDNSName buf (join_dots ls) = Some (buf', length (join_dots ls) + 2) \<and> length buf' = length buf \<and>
    DecodeDNSName (hdr @ buf') (length hdr) = Some (join_dots ls, length hdr + length (join_dots ls) + 2) \<and>
    SkipDNSName (hdr @ buf') (length hdr) = Some (length hdr + length (join_dots ls) + 2)"
proof -
  let ?n = "length (join_dots ls)"
  let ?b = "wire ls @ 0 # drop (?n + 2) buf"
  have g: "ls \<noteq> []" "\<forall>l \<in> set ls. 46 \<notin> set l" "\<forall>l \<in> set ls. l \<noteq> [] \<and> length l < 64" "length (wire ls) \<le> 255"
    using assms(1) length_wire [of ls] by (auto simp: good_labels_def)
  have d: "concat (map (\<lambda>l. l @ [46]) ls) \<noteq> []" using g(1) by (cases ls) auto
  have "DecodeDNSName (hdr @ ?b) (length hdr) = Some (join_dots ls, length hdr + ?n + 2)"
    using decode_loop_wire [OF g(3), of 0 "[]" hdr "drop (?n + 2) buf" None] g(1,4) d butlast_dots [OF g(1)] length_wire [OF g(1)]
    by (simp add: DecodeDNSName_def Let_def)
  moreover have "SkipDNSName (hdr @ ?b) (length hdr) = Some (length hdr + ?n + 2)"
    using SkipDNSName_wire [OF g(3), of hdr "drop (?n + 2) buf"] length_wire [OF g(1)] by simp
  moreover have "length ?b = length buf" using length_wire [OF g(1)] assms(2) by simp
  ultimately show ?thesis using EncodeDNSName_wire [OF g(1,2) assms(2)] by blast
qed

theorem dns_name_roundtrip_witness:
  "\<exists>buf'. EncodeDNSName (replicate 20 0) (ascii_bytes ''r-os.dev'') = Some (buf', 10) \<and>
     DecodeDNSName (replicate 12 0 @ buf') 12 = Some (ascii_bytes ''r-os.dev'', 22)"
  using dns_name_roundtrip [of "[ascii_bytes ''r-os'', ascii_bytes ''dev'']" "replicate 20 0" "replicate 12 0"]
  by (auto simp: good_labels_def ascii_bytes_def)

section \<open>Replies\<close>

text \<open>Whatever the packet holds, compression pointers that form a cycle included, decoding ends, and the name fits into the
  256 bytes it is written to.\<close>

lemma decode_loop_bound:
  "decode_loop p i jumps out ret = Some (d, j) \<Longrightarrow> length out \<le> 255 \<Longrightarrow> length d \<le> 254"
proof (induction p i jumps out ret rule: decode_loop.induct)
  case (1 p i jumps out ret)
  show ?case
  proof (cases "get8 p i")
    case None
    then show ?thesis using "1.prems"(1) by (simp add: decode_loop.simps [of p i])
  next
    case (Some c)
    note [simp] = decode_loop.simps [of p i jumps out ret] Some
    consider "c = 0 \<or> \<not> jumps < 10" | "\<not> (c = 0 \<or> \<not> jumps < 10)" "c AND 0xC0 = 0xC0" | "\<not> (c = 0 \<or> \<not> jumps < 10)" "c AND 0xC0 \<noteq> 0xC0" by blast
    then show ?thesis
    proof cases
      case 1
      then show ?thesis using "1.prems" by (auto split: if_splits)
    next
      case 2
      then obtain w where "get16 p i = Some w" using "1.prems"(1) by (auto simp: bind_eq_Some_conv)
      then show ?thesis using "1.IH"(1) [OF Some 2] "1.prems" 2 by auto
    next
      case 3
      then obtain l where "get_bytes p (i + 1) (unat c) = Some l" using "1.prems"(1) by (auto simp: bind_eq_Some_conv)
      then show ?thesis using "1.IH"(2) [OF Some 3] "1.prems" 3 by auto
    qed
  qed
qed

lemma DecodeDNSName_fits: "DecodeDNSName p i = Some (d, j) \<Longrightarrow> length d \<le> 254"
  using decode_loop_bound [of p i 0 "[]" None d j] by (simp add: DecodeDNSName_def)

text \<open>The reply of a server that repeats the question and answers it with one address, its name a pointer to the question.\<close>

definition dns_reply :: "u8 list list \<Rightarrow> u16 \<Rightarrow> u32 \<Rightarrow> u32 \<Rightarrow> u8 list" where
  "dns_reply ls flags ttl ip = dns_header (Swap16 0xCAFE) flags (Swap16 1) (Swap16 1) @ wire ls @ 0 #
     bytes16 (Swap16 1) @ bytes16 (Swap16 1) @ [0xC0, 0x0C] @
     bytes16 (Swap16 1) @ bytes16 (Swap16 1) @ bytes32 ttl @ bytes16 (Swap16 4) @ bytes32 ip"

lemma join_dots_nonzero: "\<forall>l \<in> set ls. 0 \<notin> set l \<Longrightarrow> 0 \<notin> set (join_dots ls)"
  by (induction ls rule: join_dots.induct) auto

lemma find_answer_pointer:
  assumes "length xs = i"
  shows "find_answer (xs @ [0xC0, 0x0C] @ bytes16 (Swap16 1) @ bytes16 (Swap16 1) @ bytes32 ttl @ bytes16 (Swap16 4) @ bytes32 ip) (Suc n) i = Some (Some ip)"
proof -
  let ?p = "xs @ [0xC0, 0x0C] @ bytes16 (Swap16 1) @ bytes16 (Swap16 1) @ bytes32 ttl @ bytes16 (Swap16 4) @ bytes32 ip"
  have "SkipDNSName ?p i = Some (i + 2)" unfolding SkipDNSName.simps [of ?p i] using assms by (simp add: nth_append)
  moreover have "get16 ?p (i + 2) = Some (Swap16 1)"
    using get16_at [of "xs @ [0xC0, 0x0C]" "i + 2" "Swap16 1"] assms by simp
  moreover have "get16 ?p (i + 2 + 2) = Some (Swap16 1)"
    using get16_at [of "xs @ [0xC0, 0x0C] @ bytes16 (Swap16 1)" "i + 2 + 2" "Swap16 1"] assms by simp
  moreover have "get32 ?p (i + 2 + 4) = Some ttl"
    using get32_at [of "xs @ [0xC0, 0x0C] @ bytes16 (Swap16 1) @ bytes16 (Swap16 1)" "i + 2 + 4" ttl] assms by simp
  moreover have "get16 ?p (i + 2 + 8) = Some (Swap16 4)"
    using get16_at [of "xs @ [0xC0, 0x0C] @ bytes16 (Swap16 1) @ bytes16 (Swap16 1) @ bytes32 ttl" "i + 2 + 8" "Swap16 4"] assms by simp
  moreover have "get32 ?p (i + 2 + 10) = Some ip"
    using get32_at [of "xs @ [0xC0, 0x0C] @ bytes16 (Swap16 1) @ bytes16 (Swap16 1) @ bytes32 ttl @ bytes16 (Swap16 4)" "i + 2 + 10" ip "[]"] assms by simp
  ultimately show ?thesis by simp
qed

text \<open>A reply is acted on: the name is read back from the question, the answer's name is followed over its compression
  pointer, and the kernel connects to port 80 of the address with that name; with well-formed sockets this never fails.\<close>

theorem dns_reply_connects:
  assumes "good_labels ls" and "\<forall>k \<in> set (SocketTable s). wf_socket k"
  shows "let p = dns_reply ls flags ttl ip in
    HandleDNS p (length p) s = map_option snd (TCPConnect ip 80 (Some (join_dots ls)) s) \<and> HandleDNS p (length p) s \<noteq> None"
proof -
  let ?p = "dns_reply ls flags ttl ip"
  let ?n = "length (join_dots ls)"
  let ?hdr = "dns_header (Swap16 0xCAFE) flags (Swap16 1) (Swap16 1)"
  let ?ans = "[0xC0, 0x0C] @ bytes16 (Swap16 1) @ bytes16 (Swap16 1) @ bytes32 ttl @ bytes16 (Swap16 4) @ bytes32 ip"
  have g: "ls \<noteq> []" "\<forall>l \<in> set ls. 0 \<notin> set l" "\<forall>l \<in> set ls. l \<noteq> [] \<and> length l < 64" "length (wire ls) \<le> 255" "?n < 255"
    using assms(1) length_wire [of ls] by (auto simp: good_labels_def)
  have h: "length ?hdr = 12" by (simp add: dns_header_def)
  have p: "?p = ?hdr @ wire ls @ 0 # bytes16 (Swap16 1) @ bytes16 (Swap16 1) @ ?ans" by (simp add: dns_reply_def)
  have d: "concat (map (\<lambda>l. l @ [46]) ls) \<noteq> []" using g(1) by (cases ls) auto
  have "DecodeDNSName ?p 12 = Some (join_dots ls, 12 + ?n + 2)"
    using decode_loop_wire [OF g(3), of 0 "[]" ?hdr "bytes16 (Swap16 1) @ bytes16 (Swap16 1) @ ?ans" None] g(1,4) d butlast_dots [OF g(1)]
      length_wire [OF g(1)] h unfolding p by (simp add: DecodeDNSName_def Let_def)
  moreover have "find_answer ?p (Suc 0) (12 + ?n + 2 + 4) = Some (Some ip)"
    using find_answer_pointer [of "?hdr @ wire ls @ 0 # bytes16 (Swap16 1) @ bytes16 (Swap16 1)" "12 + ?n + 2 + 4" ttl ip 0] h
      length_wire [OF g(1)] unfolding p by simp
  moreover have "get16 ?p 0 = Some (Swap16 0xCAFE)" "get16 ?p 4 = Some (Swap16 1)" "get16 ?p 6 = Some (Swap16 1)" "12 \<le> length ?p"
    unfolding p by (simp_all add: dns_header_def get16_def bytes16_def)
  moreover have "takeWhile (\<lambda>c. c \<noteq> 0) (join_dots ls) = join_dots ls"
    using join_dots_nonzero [OF g(2)] by (auto simp: takeWhile_eq_all_conv)
  ultimately have e: "HandleDNS ?p (length ?p) s = map_option snd (TCPConnect ip 80 (Some (join_dots ls)) s)"
    by (simp add: HandleDNS_def del: find_answer.simps takeWhile_eq_all_conv)
  have "wf_net s" using assms(2) by (simp add: list_all_iff)
  then have "TCPConnect ip 80 (Some (join_dots ls)) s \<noteq> None" using TCPConnect_ok [of s "Some (join_dots ls)" ip 80] g(5) by auto
  then show ?thesis using e by (auto simp: Let_def)
qed

theorem dns_reply_connects_witness:
  "\<exists>s'. HandleDNS (dns_reply [ascii_bytes ''r-os'', ascii_bytes ''dev''] 0 0 0x0300000A) 42 demo_host = Some s'"
proof -
  have "good_labels [ascii_bytes ''r-os'', ascii_bytes ''dev'']" by (simp add: good_labels_def ascii_bytes_def)
  moreover have "\<forall>k \<in> set (SocketTable demo_host). wf_socket k" by (simp add: demo_host_def)
  moreover have len: "length (dns_reply [ascii_bytes ''r-os'', ascii_bytes ''dev''] 0 0 0x0300000A) = 42"
    by (simp add: dns_reply_def dns_header_def ascii_bytes_def)
  ultimately show ?thesis
    using dns_reply_connects [of "[ascii_bytes ''r-os'', ascii_bytes ''dev'']" demo_host 0 0 "0x0300000A"] unfolding Let_def len by blast
qed

end
