(* ===== verification/Dhcp.thy ===== *)
theory Dhcp
  imports Net_Stack
begin

text \<open>
  The DHCP client, \<^verbatim>\<open>kernel/lib/network/dhcp.cpp\<close>: discovery, the offer, the request and the acknowledgement that
  configures the card. The message buffer is the list of its bytes; an option is read at its offset, and a read past
  the receive buffer is undefined.
\<close>

section \<open>Model\<close>

abbreviation DHCP_OP_REQUEST :: u8 where "DHCP_OP_REQUEST \<equiv> 1"
abbreviation DHCP_OP_REPLY :: u8 where "DHCP_OP_REPLY \<equiv> 2"
abbreviation DHCP_MAGIC_COOKIE :: u32 where "DHCP_MAGIC_COOKIE \<equiv> 0x63825363"
abbreviation CurrentXID :: u32 where "CurrentXID \<equiv> 0x12345678"

record DHCPHeader =
  dhcp_Op :: u8
  HType :: u8
  HLen :: u8
  Hops :: u8
  Xid :: u32
  Secs :: u16
  dhcp_Flags :: u16
  CIAddr :: u32
  YIAddr :: u32
  SIAddr :: u32
  GIAddr :: u32
  CHAddr :: "u8 list"
  SName :: "u8 list"
  File :: "u8 list"
  MagicCookie :: u32

definition dhcp_bytes :: "DHCPHeader \<Rightarrow> u8 list" where
  "dhcp_bytes h = [dhcp_Op h, HType h, HLen h, Hops h] @ bytes32 (Xid h) @ bytes16 (Secs h) @ bytes16 (dhcp_Flags h) @ bytes32 (CIAddr h) @
     bytes32 (YIAddr h) @ bytes32 (SIAddr h) @ bytes32 (GIAddr h) @ CHAddr h @ SName h @ File h @ bytes32 (MagicCookie h)"

definition AddOption :: "u8 \<Rightarrow> u8 \<Rightarrow> u8 list \<Rightarrow> u8 list \<Rightarrow> u8 list" where
  "AddOption type len val buf = buf @ [type, len] @ take (unat len) val"

text \<open>The header both requests start with.\<close>

definition request_header :: "net \<Rightarrow> u8 list" where
  "request_header s = dhcp_bytes \<lparr>dhcp_Op = DHCP_OP_REQUEST, HType = 1, HLen = 6, Hops = 0, Xid = Swap32 CurrentXID, Secs = 0, dhcp_Flags = 0,
     CIAddr = 0, YIAddr = 0, SIAddr = 0, GIAddr = 0, CHAddr = Mac s @ replicate 10 0, SName = replicate 64 0, File = replicate 128 0,
     MagicCookie = Swap32 DHCP_MAGIC_COOKIE\<rparr>"

definition SendDHCPDiscover :: "net \<Rightarrow> net" where
  "SendDHCPDiscover s =
     (let msg = AddOption 55 3 [1, 3, 6] (AddOption 53 1 [1] (request_header s)) @ [255] in
      snd (SendUDP 0xFFFFFFFF 68 67 msg (s\<lparr>g_State := DHCP_DISCOVER_SENT\<rparr>)))"

definition request_message :: "u32 \<Rightarrow> u32 \<Rightarrow> net \<Rightarrow> u8 list" where
  "request_message requested server s =
     AddOption 55 3 [1, 3, 6] (AddOption 54 4 (bytes32 server) (AddOption 50 4 (bytes32 requested) (AddOption 53 1 [3] (request_header s)))) @ [255]"

definition SendDHCPRequest :: "u32 \<Rightarrow> u32 \<Rightarrow> net \<Rightarrow> net" where
  "SendDHCPRequest requested server s =
     snd (SendUDP 0xFFFFFFFF 68 67 (request_message requested server s) (s\<lparr>g_State := DHCP_REQUEST_SENT\<rparr>))"

text \<open>The variables the option loop fills; option 6 is written straight into the card.\<close>

record options =
  MsgType :: u8
  opt_ServerIP :: u32
  opt_SubnetMask :: u32
  opt_Gateway :: u32
  opt_CardDns :: u32

definition read_option :: "u8 \<Rightarrow> u8 list \<Rightarrow> nat \<Rightarrow> options \<Rightarrow> options option" where
  "read_option code data i opts =
     (if code = 53 then map_option (\<lambda>v. opts\<lparr>MsgType := v\<rparr>) (get8 data i)
      else if code = 1 then map_option (\<lambda>v. opts\<lparr>opt_SubnetMask := v\<rparr>) (get32 data i)
      else if code = 3 then map_option (\<lambda>v. opts\<lparr>opt_Gateway := v\<rparr>) (get32 data i)
      else if code = 6 then map_option (\<lambda>v. opts\<lparr>opt_CardDns := v\<rparr>) (get32 data i)
      else if code = 54 then map_option (\<lambda>v. opts\<lparr>opt_ServerIP := v\<rparr>) (get32 data i)
      else Some opts)"

function parse_options :: "u8 list \<Rightarrow> nat \<Rightarrow> nat \<Rightarrow> options \<Rightarrow> options option" where
  "parse_options data len i opts =
     (if \<not> i < len then Some opts
      else do { code \<leftarrow> get8 data i;
                if code = 255 then Some opts
                else if code = 0 then parse_options data len (i + 1) opts
                else do { n \<leftarrow> get8 data (i + 1);
                          opts \<leftarrow> read_option code data (i + 2) opts;
                          parse_options data len (i + 2 + unat n) opts } })"
  by pat_completeness auto

termination
  by (relation "measure (\<lambda>(data, len, i, opts). len - i)") auto

declare parse_options.simps [simp del]

definition HandleDHCP :: "u8 list \<Rightarrow> nat \<Rightarrow> net \<Rightarrow> net option" where
  "HandleDHCP data len s =
     (if len < 240 then Some s
      else do {
        xid \<leftarrow> get32 data 4; opc \<leftarrow> get8 data 0; yiaddr \<leftarrow> get32 data 16;
        if Swap32 xid \<noteq> CurrentXID \<or> opc \<noteq> DHCP_OP_REPLY then Some s
        else do {
          opts \<leftarrow> parse_options data len 240 \<lparr>MsgType = 0, opt_ServerIP = 0, opt_SubnetMask = 0, opt_Gateway = 0, opt_CardDns = DnsServer s\<rparr>;
          let s = s\<lparr>DnsServer := opt_CardDns opts\<rparr>;
          Some (if g_State s = DHCP_DISCOVER_SENT \<and> MsgType opts = 2 then
                  SendDHCPRequest yiaddr (opt_ServerIP opts) (s\<lparr>g_DHCPInfo := (g_DHCPInfo s)\<lparr>info_ServerIP := opt_ServerIP opts\<rparr>\<rparr>)
                else if g_State s = DHCP_REQUEST_SENT \<and> MsgType opts = 5 then
                  s\<lparr>card_IP := yiaddr, SubnetMask := opt_SubnetMask opts, Gateway := opt_Gateway opts, DnsServer := 0,
                    g_DHCPInfo := \<lparr>info_RequestedIP = yiaddr, info_ServerIP = opt_ServerIP opts, info_SubnetMask = opt_SubnetMask opts,
                      info_GatewayIP = opt_Gateway opts, info_DnsServer = 0\<rparr>, g_State := DHCP_BOUND\<rparr>
                else s) } })"

section \<open>Options are read as they were written\<close>

text \<open>A reference reading of a list of options: the last one of each kind counts.\<close>

definition addr :: "u8 list \<Rightarrow> u32" where
  "addr v = word32 (v ! 0) (v ! 1) (v ! 2) (v ! 3)"

definition set_option :: "u8 \<times> u8 list \<Rightarrow> options \<Rightarrow> options" where
  "set_option cv opts =
     (let (c, v) = cv in
      if c = 53 then opts\<lparr>MsgType := v ! 0\<rparr> else if c = 1 then opts\<lparr>opt_SubnetMask := addr v\<rparr>
      else if c = 3 then opts\<lparr>opt_Gateway := addr v\<rparr> else if c = 6 then opts\<lparr>opt_CardDns := addr v\<rparr>
      else if c = 54 then opts\<lparr>opt_ServerIP := addr v\<rparr> else opts)"

definition good_option :: "u8 \<times> u8 list \<Rightarrow> bool" where
  "good_option cv \<longleftrightarrow> (let (c, v) = cv in
     c \<noteq> 0 \<and> c \<noteq> 255 \<and> length v < 256 \<and> (c = 53 \<longrightarrow> v \<noteq> []) \<and> (c \<in> {1, 3, 6, 54} \<longrightarrow> 4 \<le> length v))"

definition add_options :: "(u8 \<times> u8 list) list \<Rightarrow> u8 list \<Rightarrow> u8 list" where
  "add_options os buf = fold (\<lambda>(c, v). AddOption c (of_nat (length v)) v) os buf"

lemma AddOption_eq: "length v < 256 \<Longrightarrow> AddOption c (of_nat (length v)) v buf = buf @ [c, of_nat (length v)] @ v"
  by (simp add: AddOption_def unat_of_nat take_bit_nat_eq_self)

lemma get8_skip: "get8 (xs @ ys) (length xs + i) = get8 ys i"
  by (simp add: get8_def nth_append)

lemma get32_skip: "get32 (xs @ ys) (length xs + i) = get32 ys i"
  by (simp add: get32_def nth_append algebra_simps)

lemma read_option_here:
  assumes "good_option (c, v)"
  shows "read_option c (xs @ v @ rest) (length xs) opts = Some (set_option (c, v) opts)"
proof -
  have "get8 (xs @ v @ rest) (length xs) = Some (v ! 0)" if "v \<noteq> []"
    using get8_skip [of xs "v @ rest" 0] that by (simp add: get8_def nth_append)
  moreover have "get32 (xs @ v @ rest) (length xs) = Some (addr v)" if "4 \<le> length v"
  proof -
    from that obtain a b c d w where "v = a # b # c # d # w" by (auto simp: Suc_le_length_iff numeral_eq_Suc)
    then show ?thesis using get32_skip [of xs "v @ rest" 0] by (simp add: get32_def addr_def)
  qed
  ultimately show ?thesis using assms by (simp add: good_option_def set_option_def read_option_def)
qed

lemma parse_options_step:
  assumes "good_option (c, v)" and "length xs < len"
  shows "parse_options (xs @ [c, of_nat (length v)] @ v @ rest) len (length xs) opts =
    parse_options (xs @ [c, of_nat (length v)] @ v @ rest) len (length (xs @ [c, of_nat (length v)] @ v)) (set_option (c, v) opts)"
proof -
  define data where "data = xs @ [c, of_nat (length v)] @ v @ rest"
  have n: "unat (of_nat (length v) :: u8) = length v" using assms(1) by (simp add: good_option_def unat_of_nat take_bit_nat_eq_self)
  have "read_option c data (length xs + 2) opts = Some (set_option (c, v) opts)"
    using read_option_here [OF assms(1), of "xs @ [c, of_nat (length v)]" rest opts] by (simp add: data_def)
  moreover have "get8 data (length xs) = Some c" "get8 data (length xs + 1) = Some (of_nat (length v))"
    by (simp_all add: get8_def nth_append data_def)
  moreover have "c \<noteq> 0" "c \<noteq> 255" using assms(1) by (simp_all add: good_option_def)
  ultimately have "parse_options data len (length xs) opts = parse_options data len (length xs + 2 + length v) (set_option (c, v) opts)"
    using parse_options.simps [of data len "length xs" opts] assms(2) n by simp
  moreover have "length (xs @ [c, of_nat (length v)] @ v) = length xs + 2 + length v" by simp
  ultimately show ?thesis unfolding data_def by (simp only:)
qed

lemma add_options_grow: "\<exists>zs. add_options os ys = ys @ zs"
proof (induction os arbitrary: ys)
  case (Cons cv os)
  obtain c v where "cv = (c, v)" by fastforce
  moreover obtain zs where "add_options os (AddOption c (of_nat (length v)) v ys) = AddOption c (of_nat (length v)) v ys @ zs"
    using Cons.IH by blast
  ultimately show ?case by (simp add: add_options_def AddOption_def)
qed (simp add: add_options_def)

lemma parse_options_written:
  assumes "\<forall>cv \<in> set os. good_option cv" and "data = add_options os xs @ 255 # rest" and "length (add_options os xs) < len"
  shows "parse_options data len (length xs) opts = Some (fold set_option os opts)"
  using assms
proof (induction os arbitrary: xs opts)
  case Nil
  then show ?case by (subst parse_options.simps) (simp add: add_options_def get8_def)
next
  case (Cons cv os)
  obtain c v where cv: "cv = (c, v)" by fastforce
  let ?ys = "xs @ [c, of_nat (length v)] @ v"
  have g: "good_option (c, v)" and ys: "add_options (cv # os) xs = add_options os ?ys"
    using Cons.prems(1) cv AddOption_eq [of v c xs] by (simp_all add: add_options_def good_option_def)
  from add_options_grow [of os ?ys] obtain zs where zs: "add_options os ?ys = ?ys @ zs" by blast
  have "length xs < len" using Cons.prems(3) zs ys by simp
  from parse_options_step [OF g this, of "zs @ 255 # rest" opts] have
    "parse_options data len (length xs) opts = parse_options data len (length ?ys) (set_option (c, v) opts)"
    using Cons.prems(2) ys zs by simp
  also have "\<dots> = Some (fold set_option os (set_option (c, v) opts))"
    using Cons.IH [of ?ys "set_option (c, v) opts"] Cons.prems ys by simp
  finally show ?case by (simp add: cv)
qed

text \<open>A server's reply with transaction number, address and options.\<close>

definition reply_header :: "u32 \<Rightarrow> u8 list \<Rightarrow> u8 list" where
  "reply_header yiaddr mac = dhcp_bytes \<lparr>dhcp_Op = DHCP_OP_REPLY, HType = 1, HLen = 6, Hops = 0, Xid = Swap32 CurrentXID, Secs = 0, dhcp_Flags = 0,
     CIAddr = 0, YIAddr = yiaddr, SIAddr = 0, GIAddr = 0, CHAddr = mac @ replicate 10 0, SName = replicate 64 0, File = replicate 128 0,
     MagicCookie = Swap32 DHCP_MAGIC_COOKIE\<rparr>"

definition no_options :: "u32 \<Rightarrow> options" where
  "no_options dns = \<lparr>MsgType = 0, opt_ServerIP = 0, opt_SubnetMask = 0, opt_Gateway = 0, opt_CardDns = dns\<rparr>"

lemma reply_fields:
  assumes "length mac = 6"
  shows "length (reply_header yi mac) = 240" "get32 (reply_header yi mac @ rest) 4 = Some (Swap32 CurrentXID)"
    "get8 (reply_header yi mac @ rest) 0 = Some DHCP_OP_REPLY" "get32 (reply_header yi mac @ rest) 16 = Some yi"
  using assms by (simp_all add: reply_header_def dhcp_bytes_def get32_def get8_def bytes32_def bytes16_def)

lemma HandleDHCP_reply:
  fixes s :: net
  assumes "length mac = 6" and "\<forall>cv \<in> set os. good_option cv" and "data = add_options os (reply_header yi mac) @ [255]"
  defines "opts \<equiv> fold set_option os (no_options (DnsServer s))"
  shows "HandleDHCP data (length data) s =
    (let s = s\<lparr>DnsServer := opt_CardDns opts\<rparr> in
     Some (if g_State s = DHCP_DISCOVER_SENT \<and> MsgType opts = 2 then
             SendDHCPRequest yi (opt_ServerIP opts) (s\<lparr>g_DHCPInfo := (g_DHCPInfo s)\<lparr>info_ServerIP := opt_ServerIP opts\<rparr>\<rparr>)
           else if g_State s = DHCP_REQUEST_SENT \<and> MsgType opts = 5 then
             s\<lparr>card_IP := yi, SubnetMask := opt_SubnetMask opts, Gateway := opt_Gateway opts, DnsServer := 0,
               g_DHCPInfo := \<lparr>info_RequestedIP = yi, info_ServerIP = opt_ServerIP opts, info_SubnetMask = opt_SubnetMask opts,
                 info_GatewayIP = opt_Gateway opts, info_DnsServer = 0\<rparr>, g_State := DHCP_BOUND\<rparr>
           else s))"
proof -
  from add_options_grow [of os "reply_header yi mac"] obtain zs where zs: "add_options os (reply_header yi mac) = reply_header yi mac @ zs" by blast
  have "parse_options data (length data) 240 (no_options (DnsServer s)) = Some opts"
    using parse_options_written [OF assms(2), of data "reply_header yi mac" "[]" "length data" "no_options (DnsServer s)"] assms(3)
      reply_fields(1) [OF assms(1)] by (simp add: opts_def)
  moreover have "240 \<le> length data" "get32 data 4 = Some (Swap32 CurrentXID)" "get8 data 0 = Some DHCP_OP_REPLY" "get32 data 16 = Some yi"
    using reply_fields(1) [OF assms(1)] reply_fields(2-4) [OF assms(1), of yi "zs @ [255]"] assms(3) zs by simp_all
  moreover have "Swap32 (Swap32 CurrentXID) = CurrentXID" by (simp add: Swap32_def)
  ultimately show ?thesis by (simp add: HandleDHCP_def no_options_def Let_def)
qed

text \<open>C30. A lease: when the server acknowledges, in whatever order its options come, the card takes the address and
  the mask and router of the last such options and the client is bound; but the card's DNS server is reset to zero,
  although the acknowledgement names one: the variable that is copied into it is never filled.\<close>

theorem dhcp_lease:
  assumes "length mac = 6" and "\<forall>cv \<in> set os. good_option cv" and "g_State s = DHCP_REQUEST_SENT"
    and "MsgType (fold set_option os (no_options (DnsServer s))) = 5"
  shows "let data = add_options os (reply_header yi mac) @ [255]; opts = fold set_option os (no_options (DnsServer s)) in
    \<exists>s'. HandleDHCP data (length data) s = Some s' \<and> g_State s' = DHCP_BOUND \<and> card_IP s' = yi \<and>
      SubnetMask s' = opt_SubnetMask opts \<and> Gateway s' = opt_Gateway opts \<and> DnsServer s' = 0 \<and> sent s' = sent s"
  using HandleDHCP_reply [OF assms(1,2) refl, of yi s] assms(3,4) by (simp add: Let_def)

theorem dhcp_lease_witness:
  "\<exists>s'. HandleDHCP (add_options [(53, [5]), (1, [255, 255, 255, 0]), (6, [10, 0, 0, 1])] (reply_header 0x0500000A [2, 0, 0, 0, 0, 1]) @ [255]) 256
     (demo_host\<lparr>g_State := DHCP_REQUEST_SENT\<rparr>) = Some s' \<and> card_IP s' = 0x0500000A \<and> SubnetMask s' = 0x00FFFFFF \<and> DnsServer s' = 0"
proof -
  let ?os = "[(53, [5]), (1, [255, 255, 255, 0]), (6, [10, 0, 0, 1])] :: (u8 \<times> u8 list) list"
  let ?s = "demo_host\<lparr>g_State := DHCP_REQUEST_SENT\<rparr>"
  have o: "fold set_option ?os (no_options (DnsServer ?s)) =
      \<lparr>MsgType = 5, opt_ServerIP = 0, opt_SubnetMask = 0x00FFFFFF, opt_Gateway = 0, opt_CardDns = 0x0100000A\<rparr>"
    by (simp add: set_option_def no_options_def addr_def word32_def demo_host_def)
  have len: "length (add_options ?os (reply_header 0x0500000A [2, 0, 0, 0, 0, 1]) @ [255]) = 256"
    by (simp add: add_options_def AddOption_def reply_fields(1))
  have "\<forall>cv \<in> set ?os. good_option cv" by (simp add: good_option_def)
  from dhcp_lease [OF _ this, of "[2, 0, 0, 0, 0, 1]" ?s "0x0500000A"] show ?thesis
    unfolding Let_def o len by auto
qed

end
