(* ===== verification/Tcp_Wire.thy ===== *)
theory Tcp_Wire
  imports Tcp_Safe
begin

text \<open>
  Segments on the wire: what a frame says is what the socket meant, its checksums verify, a segment that is
  not acknowledged is sent again as it was; and the sequence numbers the client side of the handshake uses.
\<close>

section \<open>Reading back a frame\<close>

lemma byte_masks: "bit (0xFF000000 :: int) n \<longleftrightarrow> 24 \<le> n \<and> n < 32" "bit (0x00FF0000 :: int) n \<longleftrightarrow> 16 \<le> n \<and> n < 24"
    "bit (0x0000FF00 :: int) n \<longleftrightarrow> 8 \<le> n \<and> n < 16" "bit (0x000000FF :: int) n \<longleftrightarrow> n < 8"
    "bit (0xFF00000000 :: int) n \<longleftrightarrow> 32 \<le> n \<and> n < 40"
proof -
  have m: "(0xFF000000 :: int) = push_bit 24 (mask 8)" "(0x00FF0000 :: int) = push_bit 16 (mask 8)"
    "(0x0000FF00 :: int) = push_bit 8 (mask 8)" "(0x000000FF :: int) = push_bit 0 (mask 8)"
    "(0xFF00000000 :: int) = push_bit 32 (mask 8)" by (simp_all add: mask_eq_exp_minus_1)
  have b: "bit (push_bit j (mask 8) :: int) n \<longleftrightarrow> j \<le> n \<and> n < j + 8" for j
    by (subst bit_push_bit_iff, subst bit_mask_iff) auto
  show "bit (0xFF000000 :: int) n \<longleftrightarrow> 24 \<le> n \<and> n < 32" "bit (0x00FF0000 :: int) n \<longleftrightarrow> 16 \<le> n \<and> n < 24"
    "bit (0x0000FF00 :: int) n \<longleftrightarrow> 8 \<le> n \<and> n < 16" "bit (0x000000FF :: int) n \<longleftrightarrow> n < 8"
    "bit (0xFF00000000 :: int) n \<longleftrightarrow> 32 \<le> n \<and> n < 40" unfolding m b by auto
qed

lemma Swap32_Swap32 [simp]: "Swap32 (Swap32 v) = v"
proof (rule bit_word_eqI)
  fix n assume "n < LENGTH(32)"
  then consider "n < 8" | "8 \<le> n" "n < 16" | "16 \<le> n" "n < 24" | "24 \<le> n" "n < 32" by fastforce
  then show "bit (Swap32 (Swap32 v)) n = bit v n"
    by cases (auto simp: Swap32_def bit_and_iff bit_or_iff bit_push_bit_iff bit_drop_bit_eq byte_masks)
qed

lemma parse_tcp_bytes:
  "parse_tcp (tcp_bytes h @ rest) = Some \<lparr>in_SrcPort = Swap16 (tcp_SrcPort h), in_DestPort = Swap16 (tcp_DestPort h), in_Seq = Swap32 (SequenceNum h),
     in_Ack = Swap32 (AckNum h), in_HeaderLen = unat (drop_bit 4 (DataOffset h)) * 4, in_Flags = tcp_Flags h\<rparr>"
  by (simp add: parse_tcp_def tcp_bytes_def get16_def get32_def get8_def bytes16_def bytes32_def)

text \<open>What a peer reads from the segment of a socket.\<close>

definition said :: "u8 \<Rightarrow> TCPSocket \<Rightarrow> segment" where
  "said flags k = \<lparr>in_SrcPort = LocalPort k, in_DestPort = RemotePort k, in_Seq = MySequence k, in_Ack = TargetSequence k, in_HeaderLen = 20,
     in_Flags = flags\<rparr>"

lemma parse_tcp_segment: "parse_tcp (tcp_segment flags payload k) = Some (said flags k)"
  by (simp add: tcp_segment_def Let_def parse_tcp_bytes said_def drop_bit_eq_div)

lemma tcp_segment_payload [simp]: "length (tcp_segment flags payload k) = 20 + length payload" "drop 20 (tcp_segment flags payload k) = payload"
  by (simp_all add: tcp_segment_def Let_def)

lemma tcp_segment_checksum:
  assumes "length payload \<le> 65515"
  shows "CalculateChecksum (pseudo_bytes (LocalIP k) (RemoteIP k) IP_PROTOCOL_TCP (Swap16 (20 + of_nat (length payload))) @
    tcp_segment flags payload k) = 0"
proof -
  let ?p = "pseudo_bytes (LocalIP k) (RemoteIP k) IP_PROTOCOL_TCP (Swap16 (20 + of_nat (length payload)))"
  define xs where "xs = ?p @ bytes16 (Swap16 (LocalPort k)) @ bytes16 (Swap16 (RemotePort k)) @ bytes32 (Swap32 (MySequence k)) @
    bytes32 (Swap32 (TargetSequence k)) @ [push_bit 4 5, flags] @ bytes16 (Swap16 (window k))"
  have z: "bytes16 0 = [0, 0]" by (simp add: bytes16_def)
  have "?p @ tcp_segment flags payload k = xs @ bytes16 (CalculateChecksum (xs @ [0, 0] @ (bytes16 0 @ payload))) @ (bytes16 0 @ payload)"
    by (simp add: tcp_segment_def tcp_bytes_def xs_def z Let_def)
  moreover have "length xs = 28" by (simp add: xs_def)
  ultimately show ?thesis using checksum_verifies [of xs "bytes16 0 @ payload"] assms by simp
qed

lemma frame_parts:
  assumes "length mac = 6" and "length (Mac s) = 6"
  shows "take 20 (drop 14 (tcp_frame mac flags payload k s)) = ip_bytes (make_ip IP_PROTOCOL_TCP (20 + 20 + of_nat (length payload)) (card_IP s) (RemoteIP k))"
    and "drop 34 (tcp_frame mac flags payload k s) = tcp_segment flags payload k"
    and "drop 54 (tcp_frame mac flags payload k s) = payload"
proof -
  show "take 20 (drop 14 (tcp_frame mac flags payload k s)) = ip_bytes (make_ip IP_PROTOCOL_TCP (20 + 20 + of_nat (length payload)) (card_IP s) (RemoteIP k))"
    and seg: "drop 34 (tcp_frame mac flags payload k s) = tcp_segment flags payload k"
    using assms by (simp_all add: tcp_frame_def make_eth_def)
  have "drop 54 (tcp_frame mac flags payload k s) = drop 20 (drop 34 (tcp_frame mac flags payload k s))" by simp
  then show "drop 54 (tcp_frame mac flags payload k s) = payload" unfolding seg by simp
qed



section \<open>Sending again\<close>

lemma SendTCPRaw_sent:
  assumes "GetMacFromCache (tcp_next_hop k s) s = Some mac"
  shows "SendTCPRaw f p (k, s) = (remember_packet f p (TickCount s) k, s\<lparr>sent := sent s @ [tcp_frame mac f p k s]\<rparr>)"
  using assms by (simp add: SendTCPRaw_def SendRawPacket_def)

text \<open>The frame and the address it goes to depend only on these fields.\<close>

lemma tcp_frame_cong:
  assumes "Mac s = Mac s'" and "card_IP s = card_IP s'" and "RemoteIP k = RemoteIP k'" and "LocalIP k = LocalIP k'"
    and "LocalPort k = LocalPort k'" and "RemotePort k = RemotePort k'" and "MySequence k = MySequence k'"
    and "TargetSequence k = TargetSequence k'" and "tcp_ring k = tcp_ring k'"
  shows "tcp_frame mac f p k s = tcp_frame mac f p k' s'"
  using assms by (simp add: tcp_frame_def make_eth_def tcp_segment_def window_def Let_def)

lemma hop_cong:
  assumes "SubnetMask s = SubnetMask s'" and "card_IP s = card_IP s'" and "Gateway s = Gateway s'" and "ArpCache s = ArpCache s'"
    and "RemoteIP k = RemoteIP k'"
  shows "GetMacFromCache (tcp_next_hop k s) s = GetMacFromCache (tcp_next_hop k' s') s'"
proof -
  have "tcp_next_hop k s = tcp_next_hop k' s'" using assms unfolding tcp_next_hop_def by simp
  then show ?thesis using assms(4) by (simp add: GetMacFromCache_def)
qed

lemma remember_keeps [simp]:
  "RemoteIP (remember_packet f p t k) = RemoteIP k" "LocalIP (remember_packet f p t k) = LocalIP k"
  "LocalPort (remember_packet f p t k) = LocalPort k" "RemotePort (remember_packet f p t k) = RemotePort k"
  "MySequence (remember_packet f p t k) = MySequence k" "TargetSequence (remember_packet f p t k) = TargetSequence k"
  "tcp_ring (remember_packet f p t k) = tcp_ring k" "tcp_Allocated (remember_packet f p t k) = tcp_Allocated k"
  by (simp_all add: remember_packet_def)

text \<open>A socket that has just sent a segment that takes \<open>n\<close> sequence numbers, the copy as recorded.\<close>

lemma retransmit_sends:
  fixes p :: "u8 list" and f :: u8
  defines "seqlen \<equiv> of_nat (length p) + (if has f (TCP_SYN OR TCP_FIN) then 1 else 0)"
  assumes k: "SocketTable s ! i = k" "tcp_Allocated k" "WaitingAck k" "LastFlags k = f" "LastPacketLen k = of_nat (length p)"
      "(case LastPacket k of None \<Rightarrow> [] | Some p \<Rightarrow> p) = p"
    and "length p < 65536" and "1000 < TickCount s - LastSendTime k" and mac: "GetMacFromCache (tcp_next_hop k s) s = Some mac"
  shows "sent (retransmit stale i s) = sent s @ [tcp_frame mac f p (k\<lparr>MySequence := MySequence k - seqlen\<rparr>) s] \<and>
    (i < length (SocketTable s) \<longrightarrow> MySequence (SocketTable (retransmit stale i s) ! i) = MySequence k)"
proof -
  have "(ucast (of_nat (length p) :: u16) :: u32) = of_nat (length p)"
    using \<open>length p < 65536\<close> by (simp add: word_unat_eq_iff unsigned_ucast_eq unat_of_nat take_bit_nat_eq_self)
  moreover have "GetMacFromCache (tcp_next_hop (k\<lparr>MySequence := a\<rparr>) s) s = Some mac" for a
    using mac hop_cong [of s s "k\<lparr>MySequence := a\<rparr>" k] by simp
  ultimately show ?thesis using assms
    by (simp add: retransmit_def Let_def SendTCPRaw_sent put_socket_def seqlen_def)
qed



section \<open>The client's sequence numbers\<close>

lemma sent_segment:
  assumes "length mac = 6" and "length (Mac s) = 6"
  shows "parse_tcp (drop 34 (tcp_frame mac f p k s)) = Some (said f k)"
  using frame_parts(2) [OF assms] parse_tcp_segment by simp

text \<open>C32. The client leaves out one sequence number: its SYN takes \<open>MySequence\<close>, the acknowledgement of the peer's SYN
  carries the number after it, as it should, but the request that follows carries the number after that, so that
  the peer keeps waiting for a byte that is never sent.\<close>

theorem handshake_skips_byte:
  assumes "has (in_Flags g) TCP_SYN" and "has (in_Flags g) TCP_ACK" and "length (HttpRequest k) < 512"
    and "GetMacFromCache (tcp_next_hop (k\<lparr>RemoteIP := peer\<rparr>) s) s = Some mac" and "length mac = 6" and "length (Mac s) = 6"
  shows "\<exists>k' s' f1 f2. on_syn_sent g peer (k, s) = Some (k', s') \<and> State k' = ESTABLISHED \<and> sent s' = sent s @ [f1, f2] \<and>
    map_option in_Seq (parse_tcp (drop 34 f1)) = Some (MySequence k + 1) \<and> drop 54 f1 = [] \<and>
    map_option in_Seq (parse_tcp (drop 34 f2)) = Some (MySequence k + 2) \<and> drop 54 f2 = HttpRequest k"
proof -
  define k1 where "k1 = k\<lparr>RemoteIP := peer, TargetSequence := in_Seq g + 1, MySequence := MySequence k + 1\<rparr>"
  let ?f1 = "tcp_frame mac TCP_ACK [] k1 s"
  define k2 where "k2 = k1\<lparr>State := ESTABLISHED, MySequence := MySequence k1 + 1\<rparr>"
  define s1 where "s1 = s\<lparr>sent := sent s @ [?f1]\<rparr>"
  let ?f2 = "tcp_frame mac (TCP_PSH OR TCP_ACK) (HttpRequest k) k2 s1"
  have mac1: "GetMacFromCache (tcp_next_hop k1 s) s = Some mac" and mac2: "GetMacFromCache (tcp_next_hop k2 s1) s1 = Some mac"
    using assms(4) hop_cong [of s s k1 "k\<lparr>RemoteIP := peer\<rparr>"] hop_cong [of s1 s k2 "k\<lparr>RemoteIP := peer\<rparr>"]
    by (simp_all add: k1_def k2_def s1_def)
  have "remember_packet TCP_ACK [] (TickCount s) k1 = k1" by (simp add: remember_packet_def has_def)
  then have raw: "SendTCPRaw TCP_ACK [] (k1, s) = (k1, s1)" using SendTCPRaw_sent [OF mac1] by (simp add: s1_def)
  have req: "HttpRequest (k1\<lparr>State := ESTABLISHED\<rparr>) = HttpRequest k" by (simp add: HttpRequest_def k1_def)
  obtain k' s' where d: "SendTCPData (HttpRequest k) (k2, s1) = (k', s')" by fastforce
  have "on_syn_sent g peer (k, s) = Some (SendTCPData (HttpRequest k) (k2, s1))"
    using assms(1-3) raw req by (simp add: on_syn_sent_def k1_def [symmetric] k2_def)
  then have "on_syn_sent g peer (k, s) = Some (k', s')" unfolding d .
  moreover have "State k2 = ESTABLISHED" by (simp add: k2_def)
  then have "State k' = ESTABLISHED" using SendTCPData_keeps(3) [of "HttpRequest k" "(k2, s1)"] d by simp
  moreover have "sent s' = sent s @ [?f1, ?f2]"
    using SendTCPRaw_sent [OF mac2] d by (auto simp: SendTCPData_def k2_def s1_def)
  moreover have "map_option in_Seq (parse_tcp (drop 34 ?f1)) = Some (MySequence k + 1)" "map_option in_Seq (parse_tcp (drop 34 ?f2)) = Some (MySequence k + 2)"
    using sent_segment [OF assms(5,6)] sent_segment [of mac s1] assms(5,6) by (simp_all add: said_def k1_def k2_def s1_def)
  moreover have "drop 54 ?f1 = []" "drop 54 ?f2 = HttpRequest k"
    using frame_parts(3) [OF assms(5,6)] frame_parts(3) [of mac s1] assms(5,6) unfolding s1_def by simp_all
  ultimately show ?thesis by blast
qed

theorem handshake_skips_byte_witness:
  "\<exists>k' s' f1 f2. on_syn_sent \<lparr>in_SrcPort = 1, in_DestPort = 80, in_Seq = 5, in_Ack = 8, in_HeaderLen = 20, in_Flags = 0x12\<rparr> 0x0300000A
     (demo_socket, demo_net) = Some (k', s') \<and> sent s' = [f1, f2] \<and> map_option in_Seq (parse_tcp (drop 34 f2)) = Some 9"
proof -
  have "GetMacFromCache (tcp_next_hop (demo_socket\<lparr>RemoteIP := 0x0300000A\<rparr>) demo_net) demo_net = Some [2, 0, 0, 0, 0, 3]"
    by (simp add: GetMacFromCache_def tcp_next_hop_def demo_socket_def demo_net_def demo_host_def)
  moreover have "length (HttpRequest demo_socket) < 512" by (simp add: HttpRequest_def demo_socket_def ascii_bytes_def)
  ultimately show ?thesis
    using handshake_skips_byte [of "\<lparr>in_SrcPort = 1, in_DestPort = 80, in_Seq = 5, in_Ack = 8, in_HeaderLen = 20, in_Flags = 0x12\<rparr>" demo_socket
      "0x0300000A" demo_net "[2, 0, 0, 0, 0, 3]"]
    by (auto simp: has_def demo_net_def demo_host_def demo_socket_def)
qed

text \<open>A connection request that is not answered is repeated with another sequence number: \<^verbatim>\<open>TCPConnect\<close> does not
  count its SYN, the timer does, and the second SYN carries the number before the first one's.\<close>

theorem syn_repeated_wrongly:
  assumes "TCPConnect target port domain s = Some (Some i, s1)" and "length mac = 6" and "length (Mac s) = 6"
    and "GetMacFromCache (if target AND SubnetMask s \<noteq> card_IP s AND SubnetMask s then Gateway s else target) s = Some mac"
    and "1000 < t - TickCount s"
  shows "\<exists>isn f1 f2. sent s1 = sent s @ [f1] \<and> sent (retransmit stale i (s1\<lparr>TickCount := t\<rparr>)) = sent s @ [f1, f2] \<and>
    map_option in_Seq (parse_tcp (drop 34 f1)) = Some isn \<and> map_option in_Seq (parse_tcp (drop 34 f2)) = Some (isn - 1)"
proof -
  obtain q s2 where q: "AllocateSocket s = (q, s2)" by fastforce
  obtain isn s3 where r: "Random s2 = (isn, s3)" by fastforce
  have qi: "q = Some i" using assms(1) q by (auto simp: TCPConnect_def Let_def split_beta split: option.splits if_splits)
  have i: "i < length (SocketTable s3)" "tcp_Allocated (SocketTable s3 ! i)"
    and keep: "Mac s3 = Mac s" "card_IP s3 = card_IP s" "SubnetMask s3 = SubnetMask s" "Gateway s3 = Gateway s" "ArpCache s3 = ArpCache s"
      "sent s3 = sent s" "TickCount s3 = TickCount s"
    using q qi r by (auto simp: AllocateSocket_def Random_def Let_def dest!: find_index_SomeD split: option.splits)
  define k0 where "k0 = SocketTable s3 ! i"
  define k where "k = k0\<lparr>State := CLOSED, LocalIP := card_IP s3, RemoteIP := target, LocalPort := 40000 + SockID k0, RemotePort := port,
    MySequence := isn, TargetSequence := 0, Domain := Some (case domain of Some d \<Rightarrow> d | None \<Rightarrow> [])\<rparr>"
  have mac: "GetMacFromCache (tcp_next_hop k s3) s3 = Some mac"
  proof -
    have "GetMacFromCache x s3 = GetMacFromCache x s" for x using keep by (simp add: GetMacFromCache_def)
    moreover have "tcp_next_hop k s3 = (if target AND SubnetMask s \<noteq> card_IP s AND SubnetMask s then Gateway s else target)"
      unfolding tcp_next_hop_def by (simp add: keep k_def)
    ultimately show ?thesis using assms(4) by simp
  qed
  define k1 where "k1 = (remember_packet TCP_SYN [] (TickCount s3) k)\<lparr>State := SYN_SENT\<rparr>"
  let ?f1 = "tcp_frame mac TCP_SYN [] k s3"
  have s1: "s1 = s3\<lparr>sent := sent s3 @ [?f1], SocketTable := (SocketTable s3)[i := k1]\<rparr>"
    using assms(1) q qi r SendTCPRaw_sent [OF mac, of TCP_SYN "[]"]
    by (auto simp: TCPConnect_def k0_def [symmetric] k_def k1_def put_socket_def Let_def split: if_splits)
  let ?t1 = "s1\<lparr>TickCount := t\<rparr>"
  have h: "has TCP_SYN (TCP_SYN OR TCP_FIN)" by (simp add: has_def)
  have k1: "SocketTable ?t1 ! i = k1" "tcp_Allocated k1" "WaitingAck k1" "LastFlags k1 = TCP_SYN" "LastPacketLen k1 = of_nat (length ([] :: u8 list))"
      "(case LastPacket k1 of None \<Rightarrow> [] | Some p \<Rightarrow> p) = []" "1000 < TickCount ?t1 - LastSendTime k1" "MySequence k1 = isn"
    using i h assms(5) keep by (simp_all add: s1 k1_def k_def k0_def remember_packet_def)
  have mac1: "GetMacFromCache (tcp_next_hop k1 ?t1) ?t1 = Some mac"
    using mac hop_cong [of ?t1 s3 k1 k] by (simp add: s1 k1_def)
  have "sent (retransmit stale i ?t1) = sent s @ [?f1, tcp_frame mac TCP_SYN [] (k1\<lparr>MySequence := isn - 1\<rparr>) ?t1]"
    using retransmit_sends [OF k1(1-6) _ k1(7) mac1, of stale] h k1(8) keep by (simp add: s1)
  moreover have "sent s1 = sent s @ [?f1]" by (simp add: s1 keep)
  moreover have "map_option in_Seq (parse_tcp (drop 34 ?f1)) = Some isn"
    "map_option in_Seq (parse_tcp (drop 34 (tcp_frame mac TCP_SYN [] (k1\<lparr>MySequence := isn - 1\<rparr>) ?t1))) = Some (isn - 1)"
    using sent_segment [of mac s3] sent_segment [of mac ?t1] assms(2,3) keep by (simp_all add: said_def k_def s1)
  ultimately show ?thesis by blast
qed

theorem syn_repeated_wrongly_witness:
  "\<exists>s1 f1 f2. TCPConnect 0x0300000A 80 None (demo_net\<lparr>SocketTable := [FreeSocket demo_socket]\<rparr>) = Some (Some 0, s1) \<and>
     sent (retransmit id 0 (s1\<lparr>TickCount := 1001\<rparr>)) = [f1, f2]"
proof -
  let ?s = "demo_net\<lparr>SocketTable := [FreeSocket demo_socket]\<rparr>"
  obtain s1 where s1: "TCPConnect 0x0300000A 80 None ?s = Some (Some 0, s1)"
    by (simp add: TCPConnect_def AllocateSocket_def FreeSocket_def Let_def split_beta)
  have "GetMacFromCache (if 0x0300000A AND SubnetMask ?s \<noteq> card_IP ?s AND SubnetMask ?s then Gateway ?s else 0x0300000A) ?s =
      Some [2, 0, 0, 0, 0, 3]"
    by (simp add: GetMacFromCache_def demo_net_def demo_host_def)
  from syn_repeated_wrongly [OF s1 _ _ this, of 1001 id] s1 show ?thesis by (auto simp: demo_net_def demo_host_def)
qed

end
