(* ===== verification/Net_Input.thy ===== *)
theory Net_Input
  imports Dns Dhcp Tcp_Wire
begin

text \<open>
  Incoming frames, the second half of \<^verbatim>\<open>kernel/lib/network/ethernetstack.cpp\<close>: \<^verbatim>\<open>EthernetInput\<close> and the handlers of
  ARP, ICMP and IP. \<open>data\<close> is the card's receive buffer from the frame's first byte on; offsets are those of the packed
  headers, and a read past the buffer is undefined.
\<close>

section \<open>Model\<close>

definition resend_pending :: "u32 \<Rightarrow> net \<Rightarrow> net" where
  "resend_pending srcip s =
     (let q = g_PendingUDP s;
          hop = (if TargetIP q AND SubnetMask s = card_IP s AND SubnetMask s then TargetIP q else Gateway s) in
      if pend_Valid q \<and> hop = srcip then
        let s = (if pend_Protocol q = IP_PROTOCOL_UDP then snd (SendUDP (TargetIP q) (pend_SrcPort q) (pend_DestPort q) (pend_Payload q) s)
                 else if pend_Protocol q = IP_PROTOCOL_ICMP then snd (SendICMP (TargetIP q) (pend_DestPort q) (pend_SrcPort q) (pend_Payload q) s)
                 else s) in
        s\<lparr>g_PendingUDP := (g_PendingUDP s)\<lparr>pend_Valid := False\<rparr>\<rparr>
      else s)"

definition MyIP_flipped :: "u32 \<Rightarrow> u32" where
  "MyIP_flipped ip = push_bit 24 (ip AND 0xFF) OR push_bit 8 (ip AND 0xFF00) OR drop_bit 8 (ip AND 0xFF0000) OR drop_bit 24 (ip AND 0xFF000000)"

definition HandleARP :: "u8 list \<Rightarrow> net \<Rightarrow> net option" where
  "HandleARP data s =
     do { ethsrc \<leftarrow> get_bytes data 6 6; type \<leftarrow> get16 data 12; hw \<leftarrow> get16 data 14; proto \<leftarrow> get16 data 16; opc \<leftarrow> get16 data 20;
          srcmac \<leftarrow> get_bytes data 22 6; srcip \<leftarrow> get32 data 28; destip \<leftarrow> get32 data 38;
          let s = resend_pending srcip (UpdateArpCache srcip srcmac s);
          Some (if Swap16 opc = ARP_OP_REQUEST \<and> (destip = card_IP s \<or> destip = MyIP_flipped (card_IP s)) then
                  SendRawPacket (eth_bytes \<lparr>eth_Dest = ethsrc, eth_Src = Mac s, eth_Type = type\<rparr> @
                    arp_bytes \<lparr>HardwareType = hw, ProtocolType = proto, HardwareAddrLen = 6, ProtocolAddrLen = 4, OpCode = Swap16 ARP_OP_REPLY,
                      SrcMac = Mac s, SrcIp = card_IP s, DestMac = srcmac, DestIp = srcip\<rparr>) s
                else s) }"

text \<open>The echo request is turned into the reply in place.\<close>

definition echo_reply :: "u8 list \<Rightarrow> nat \<Rightarrow> u32 \<Rightarrow> u16 \<Rightarrow> u8 list \<Rightarrow> u8 list option" where
  "echo_reply data ihl datalen totallen mac =
     (let icmp = 14 + ihl; d = put_at (icmp + 2) [0, 0] (put_at icmp [0] data) in
      do { body \<leftarrow> get_bytes d icmp (unat datalen);
           let d = put_at (icmp + 2) (bytes16 (CalculateChecksum body)) d;
           srcip \<leftarrow> get_bytes d 26 4; destip \<leftarrow> get_bytes d 30 4;
           ethsrc \<leftarrow> get_bytes d 6 6;
           let d = put_at 30 srcip (put_at 26 destip d);
           let d = put_at 0 ethsrc (put_at 6 mac d);
           let d = put_at 24 [0, 0] d;
           hdr \<leftarrow> get_bytes d 14 ihl;
           let d = put_at 24 (bytes16 (CalculateChecksum hdr)) d;
           get_bytes d 0 (14 + unat totallen) })"

definition HandleICMP :: "u8 list \<Rightarrow> net \<Rightarrow> net option" where
  "HandleICMP data s =
     do { vihl \<leftarrow> get8 data 14; totallen \<leftarrow> get16 data 16;
          let ihl = unat (vihl AND 0x0F) * 4;
          let datalen = of_nat (unat (Swap16 totallen)) - of_nat ihl;
          type \<leftarrow> get8 data (14 + ihl);
          if type = 8 then
            map_option (\<lambda>d. SendRawPacket d s) (echo_reply data ihl datalen (Swap16 totallen) (Mac s))
          else if type = 0 then do {
            sid \<leftarrow> get16 data (14 + ihl + 4);
            (case GetICMPSocket (Swap16 sid) s of
               None \<Rightarrow> Some s
             | Some i \<Rightarrow> do {
                 payload \<leftarrow> get_bytes data (14 + ihl + 8) (unat (datalen - 8 :: u32));
                 r \<leftarrow> push_bytes payload (icmp_ring (IcmpSocketTable s ! i));
                 Some (s\<lparr>IcmpSocketTable := (IcmpSocketTable s)[i := (IcmpSocketTable s ! i)\<lparr>icmp_ring := r\<rparr>]\<rparr>) }) }
          else Some s }"

definition udp_input :: "u8 list \<Rightarrow> nat \<Rightarrow> u32 \<Rightarrow> net \<Rightarrow> net option" where
  "udp_input data udp srcip s =
     do { sport \<leftarrow> get16 data udp; dport \<leftarrow> get16 data (udp + 2); len \<leftarrow> get16 data (udp + 4);
          let datalen = Swap16 len - 8;
          if Swap16 dport = 68 then HandleDHCP (drop (udp + 8) data) (unat datalen) s
          else if Swap16 sport = 53 then HandleDNS (drop (udp + 8) data) (unat datalen) s
          else case GetUDPSocket (Swap16 dport) s of
            Some i \<Rightarrow> do {
              payload \<leftarrow> get_bytes data (udp + 8) (unat datalen);
              r \<leftarrow> push_bytes payload (udp_ring (UdpSocketTable s ! i));
              Some (s\<lparr>UdpSocketTable := (UdpSocketTable s)[i := (UdpSocketTable s ! i)\<lparr>last_SrcIP := srcip, last_SrcPort := Swap16 sport,
                last_Length := ucast datalen, udp_ring := r\<rparr>]\<rparr>) }
          | None \<Rightarrow> map_option (\<lambda>shown. s) (get_bytes data (udp + 8) (min 63 (unat datalen))) }"

definition HandleIP :: "TCPSocket \<Rightarrow> u8 list \<Rightarrow> net \<Rightarrow> net option" where
  "HandleIP uninit data s =
     do { ethsrc \<leftarrow> get_bytes data 6 6; srcip \<leftarrow> get32 data 26; destip \<leftarrow> get32 data 30; vihl \<leftarrow> get8 data 14; totallen \<leftarrow> get16 data 16;
          proto \<leftarrow> get8 data 23;
          let s = UpdateArpCache (Swap32 srcip) ethsrc s;
          let ihl = unat (vihl AND 0x0F) * 4;
          if drop_bit 4 vihl \<noteq> 4 then Some s
          else if destip \<noteq> card_IP s \<and> destip \<noteq> 0xFFFFFFFF \<and> card_IP s \<noteq> 0 then Some s
          else if proto = IP_PROTOCOL_ICMP then HandleICMP data s
          else if proto = IP_PROTOCOL_UDP then udp_input data (14 + ihl) srcip s
          else if proto = IP_PROTOCOL_TCP then
            HandleTCP uninit (drop (14 + ihl) data) (of_nat (unat (Swap16 totallen)) - of_nat ihl) srcip s
          else Some s }"

definition EthernetInput :: "TCPSocket \<Rightarrow> u8 list \<Rightarrow> u32 \<Rightarrow> net \<Rightarrow> net option" where
  "EthernetInput uninit data len s =
     (if len < 14 then Some s
      else do { type \<leftarrow> get16 data 12;
                if Swap16 type = ETHER_TYPE_IP then HandleIP uninit data s
                else if Swap16 type = ETHER_TYPE_ARP then HandleARP data s
                else Some s })"

section \<open>Reading the headers of a frame\<close>

lemma get_past:
  assumes "length xs = n" and "n \<le> j"
  shows "get8 (xs @ ys) j = get8 ys (j - n)" "get16 (xs @ ys) j = get16 ys (j - n)" "get32 (xs @ ys) j = get32 ys (j - n)"
    "get_bytes (xs @ ys) j m = get_bytes ys (j - n) m" "drop j (xs @ ys) = drop (j - n) ys"
  using assms by (auto simp: get8_def get16_def get32_def get_bytes_def nth_append Suc_diff_le)

lemma eth_fields:
  assumes "length mac = 6" and "length (Mac s) = 6"
  shows "length (eth_bytes (make_eth mac t s)) = 14" "get16 (eth_bytes (make_eth mac t s) @ rest) 12 = Some (Swap16 t)"
    "get_bytes (eth_bytes (make_eth mac t s) @ rest) 6 6 = Some (Mac s)"
proof -
  show "length (eth_bytes (make_eth mac t s)) = 14" using assms by (simp add: make_eth_def)
  have "eth_bytes (make_eth mac t s) @ rest = (mac @ Mac s) @ bytes16 (Swap16 t) @ rest" by (simp add: eth_bytes_def make_eth_def)
  then show "get16 (eth_bytes (make_eth mac t s) @ rest) 12 = Some (Swap16 t)"
    using get16_at [of "mac @ Mac s" 12 "Swap16 t" rest] assms by simp
  show "get_bytes (eth_bytes (make_eth mac t s) @ rest) 6 6 = Some (Mac s)"
    using assms by (simp add: eth_bytes_def make_eth_def get_bytes_def)
qed

lemma make_ip_fields:
  "get8 (ip_bytes (make_ip p len src dst) @ rest) 0 = Some 0x45" "get16 (ip_bytes (make_ip p len src dst) @ rest) 2 = Some (Swap16 len)"
  "get8 (ip_bytes (make_ip p len src dst) @ rest) 9 = Some p" "get32 (ip_bytes (make_ip p len src dst) @ rest) 12 = Some src"
  "get32 (ip_bytes (make_ip p len src dst) @ rest) 16 = Some dst"
  by (simp_all add: ip_bytes_def make_ip_def Let_def get8_def get16_def get32_def bytes16_def bytes32_def)

text \<open>What \<^verbatim>\<open>EthernetInput\<close> does with an IP packet one of the senders built, by protocol.\<close>

definition ip_dispatch :: "TCPSocket \<Rightarrow> u8 \<Rightarrow> u16 \<Rightarrow> u32 \<Rightarrow> u8 list \<Rightarrow> net \<Rightarrow> net option" where
  "ip_dispatch uninit p len src data s =
     (if p = IP_PROTOCOL_ICMP then HandleICMP data s
      else if p = IP_PROTOCOL_UDP then udp_input data 34 src s
      else if p = IP_PROTOCOL_TCP then HandleTCP uninit (drop 34 data) (of_nat (unat len) - 20) src s
      else Some s)"

lemma EthernetInput_ip:
  assumes "length mac = 6" and "length (Mac a) = 6" and "dst = card_IP b \<or> dst = 0xFFFFFFFF \<or> card_IP b = 0" and "14 \<le> flen"
    and "data = eth_bytes (make_eth mac ETHER_TYPE_IP a) @ ip_bytes (make_ip p len src dst) @ rest"
  shows "EthernetInput uninit data flen b = ip_dispatch uninit p len src data (UpdateArpCache (Swap32 src) (Mac a) b)"
proof -
  let ?e = "eth_bytes (make_eth mac ETHER_TYPE_IP a)"
  note e = eth_fields(2,3) [OF assms(1,2), of ETHER_TYPE_IP "ip_bytes (make_ip p len src dst) @ rest"]
  note past = get_past(1-3) [OF eth_fields(1) [OF assms(1,2)], of _ ETHER_TYPE_IP "ip_bytes (make_ip p len src dst) @ rest"]
  have g: "get16 data 12 = Some (Swap16 ETHER_TYPE_IP)" "get_bytes data 6 6 = Some (Mac a)" "get8 data 14 = Some 0x45"
    "get16 data 16 = Some (Swap16 len)" "get8 data 23 = Some p" "get32 data 26 = Some src" "get32 data 30 = Some dst"
    unfolding assms(5) using e past [of 14] past [of 16] past [of 23] past [of 26] past [of 30] make_ip_fields [of p len src dst rest] by simp_all
  have c: "card_IP (UpdateArpCache ip m b) = card_IP b" for ip m by (simp add: UpdateArpCache_def split: option.split)
  have "\<not> flen < 14" using assms(4) by simp
  then show ?thesis using g assms(3) c by (auto simp: EthernetInput_def HandleIP_def ip_dispatch_def Let_def)
qed

section \<open>Datagrams arrive\<close>

lemma udp_fields:
  "get16 (udp_bytes u @ rest) 0 = Some (udp_SrcPort u)" "get16 (udp_bytes u @ rest) 2 = Some (udp_DestPort u)"
  "get16 (udp_bytes u @ rest) 4 = Some (udp_Length u)" "get_bytes (udp_bytes u @ d @ rest) 8 (length d) = Some d"
  by (simp_all add: udp_bytes_def get16_def get_bytes_def bytes16_def)

lemma udp_input_delivers:
  assumes "length hdr = 34" and "length d \<le> 65507" and "dport \<noteq> 68" and "sport \<noteq> 53" and "GetUDPSocket dport s = Some i"
    and "push_bytes d (udp_ring (UdpSocketTable s ! i)) = Some r"
    and "data = hdr @ udp_bytes \<lparr>udp_SrcPort = Swap16 sport, udp_DestPort = Swap16 dport, udp_Length = Swap16 (8 + of_nat (length d)), udp_Checksum = c\<rparr> @ d @ rest"
  shows "udp_input data 34 src s = Some (s\<lparr>UdpSocketTable := (UdpSocketTable s)[i := (UdpSocketTable s ! i)\<lparr>last_SrcIP := src,
    last_SrcPort := sport, last_Length := of_nat (length d), udp_ring := r\<rparr>]\<rparr>)"
proof -
  let ?u = "\<lparr>udp_SrcPort = Swap16 sport, udp_DestPort = Swap16 dport, udp_Length = Swap16 (8 + of_nat (length d)), udp_Checksum = c\<rparr>"
  note past = get_past [OF assms(1), of _ "udp_bytes ?u @ d @ rest"]
  have n: "unat (of_nat (length d) :: u16) = length d" using assms(2) by (simp add: unat_of_nat take_bit_nat_eq_self)
  then have "(ucast (of_nat (length d) :: u16) :: u32) = of_nat (length d)" 
    using assms(2) by (simp add: word_unat_eq_iff unsigned_ucast_eq unat_of_nat take_bit_nat_eq_self)
  moreover have "get16 data 34 = Some (Swap16 sport)" "get16 data (34 + 2) = Some (Swap16 dport)" "get16 data (34 + 4) = Some (Swap16 (8 + of_nat (length d)))"
    "get_bytes data (34 + 8) (length d) = Some d"
    unfolding assms(7) using past(2) [of 34] past(2) [of "34 + 2"] past(2) [of "34 + 4"] past(4) [of "34 + 8" "length d"] udp_fields [of ?u]
    by simp_all
  ultimately show ?thesis using assms(3-6) n by (simp add: udp_input_def)
qed

lemma UpdateArpCache_keeps [simp]:
  "UdpSocketTable (UpdateArpCache ip m s) = UdpSocketTable s" "Mac (UpdateArpCache ip m s) = Mac s" "card_IP (UpdateArpCache ip m s) = card_IP s"
  "SubnetMask (UpdateArpCache ip m s) = SubnetMask s" "Gateway (UpdateArpCache ip m s) = Gateway s" "sent (UpdateArpCache ip m s) = sent s"
  "g_PendingUDP (UpdateArpCache ip m s) = g_PendingUDP s" "SocketTable (UpdateArpCache ip m s) = SocketTable s"
  by (simp_all add: UpdateArpCache_def split: option.split)

text \<open>A datagram arrives: when host \<open>a\<close> sends data to a port host \<open>b\<close> listens on, \<open>b\<close>'s socket holds what it held followed
  by the data, the oldest bytes dropped if its ring is full, and knows the sender's address and port and the length.\<close>

theorem udp_delivered:
  assumes "length mac = 6" and "length (Mac a) = 6" and "length d \<le> 65507" and "dport \<noteq> 68" and "sport \<noteq> 53" and "14 \<le> flen"
    and "GetUDPSocket dport b = Some i" and "wf_ring (udp_ring (UdpSocketTable b ! i))"
  shows "\<exists>b'. EthernetInput uninit (udp_frame mac (card_IP b) sport dport d a @ pad) flen b = Some b' \<and>
    (let k = UdpSocketTable b ! i; k' = UdpSocketTable b' ! i in
     ring_contents (udp_ring k') = last_n (ring_capacity (udp_ring k)) (ring_contents (udp_ring k) @ d) \<and>
     last_SrcIP k' = card_IP a \<and> last_SrcPort k' = sport \<and> last_Length k' = of_nat (length d))"
proof -
  let ?hdr = "eth_bytes (make_eth mac ETHER_TYPE_IP a) @ ip_bytes (make_ip IP_PROTOCOL_UDP (20 + 8 + of_nat (length d)) (card_IP a) (card_IP b))"
  let ?udp = "udp_bytes \<lparr>udp_SrcPort = Swap16 sport, udp_DestPort = Swap16 dport, udp_Length = Swap16 (8 + of_nat (length d)), udp_Checksum = 0\<rparr>"
  define s where "s = UpdateArpCache (Swap32 (card_IP a)) (Mac a) b"
  have data: "udp_frame mac (card_IP b) sport dport d a @ pad = ?hdr @ ?udp @ d @ pad" by (simp add: udp_frame_def)
  have len: "length ?hdr = 34" using eth_fields(1) [OF assms(1,2)] by simp
  have i: "i < length (UdpSocketTable b)" using assms(7) by (auto simp: GetUDPSocket_def dest: find_index_SomeD)
  from push_bytes_window [OF assms(8), of d] obtain r where r: "push_bytes d (udp_ring (UdpSocketTable b ! i)) = Some r"
    "ring_contents r = last_n (ring_capacity (udp_ring (UdpSocketTable b ! i))) (ring_contents (udp_ring (UdpSocketTable b ! i)) @ d)" by blast
  have "GetUDPSocket dport s = Some i" "push_bytes d (udp_ring (UdpSocketTable s ! i)) = Some r"
    using assms(7) r(1) by (simp_all add: s_def GetUDPSocket_def)
  from udp_input_delivers [OF len assms(3-5) this data] have
    "EthernetInput uninit (udp_frame mac (card_IP b) sport dport d a @ pad) flen b = Some (s\<lparr>UdpSocketTable := (UdpSocketTable s)[i :=
      (UdpSocketTable s ! i)\<lparr>last_SrcIP := card_IP a, last_SrcPort := sport, last_Length := of_nat (length d), udp_ring := r\<rparr>]\<rparr>)"
    using EthernetInput_ip [OF assms(1,2) _ assms(6), of "card_IP b" b] data by (simp add: ip_dispatch_def s_def)
  then show ?thesis using r(2) i by (simp add: s_def)
qed

theorem udp_delivered_witness:
  "\<exists>b'. EthernetInput demo_socket (udp_frame [2, 0, 0, 0, 0, 1] 0x0200000A 9 7 [72, 105] demo_host) 44
     (demo_host\<lparr>UdpSocketTable := [\<lparr>udp_Allocated = True, udp_LocalPort = 7, udp_RemoteIP = 0, udp_RemotePort = 0, udp_Id = 0,
        udp_ring = new_ring 8192, last_SrcIP = 0, last_SrcPort = 0, last_Length = 0\<rparr>]\<rparr>) = Some b' \<and>
     ring_contents (udp_ring (UdpSocketTable b' ! 0)) = [72, 105]"
proof -
  let ?b = "demo_host\<lparr>UdpSocketTable := [\<lparr>udp_Allocated = True, udp_LocalPort = 7, udp_RemoteIP = 0, udp_RemotePort = 0, udp_Id = 0,
        udp_ring = new_ring 8192, last_SrcIP = 0, last_SrcPort = 0, last_Length = 0\<rparr>]\<rparr>"
  have h: "length (Mac demo_host) = 6" "card_IP ?b = 0x0200000A" by (simp_all add: demo_host_def)
  have g: "GetUDPSocket 7 ?b = Some 0" "wf_ring (udp_ring (UdpSocketTable ?b ! 0))" using new_ring_8192(1) by (simp_all add: GetUDPSocket_def)
  show ?thesis
    using udp_delivered [OF _ h(1) _ _ _ _ g, of "[2, 0, 0, 0, 0, 1]" "[72, 105]" 9 44 demo_socket "[]"] h(2) new_ring_8192
    by (auto simp: Let_def)
qed

section \<open>Address resolution\<close>

lemma UpdateArpCache_lookup:
  assumes "ip \<noteq> 0xFFFFFFFF" and "\<exists>e \<in> set (ArpCache s). \<not> arp_Valid e"
  shows "GetMacFromCache ip (UpdateArpCache ip mac s) = Some mac"
proof -
  let ?P = "\<lambda>e. arp_Valid e \<and> IPAddr e = ip"
  show ?thesis
  proof (cases "find_index ?P (ArpCache s)")
    case (Some i)
    let ?l = "(ArpCache s)[i := (ArpCache s ! i)\<lparr>MACAddr := mac\<rparr>]"
    have P: "?P (?l ! j) = ?P (ArpCache s ! j)" for j by (cases "i = j"; cases "j < length (ArpCache s)") (auto simp: list_update_beyond)
    note i = find_index_SomeD [OF Some]
    have "find_index ?P ?l \<noteq> None" using i P [of i] by (auto simp: find_index_None_nth)
    then obtain j where j: "find_index ?P ?l = Some j" by blast
    have "j = i" using find_index_SomeD [OF j] i P by (metis linorder_neqE_nat)
    then show ?thesis using Some i j assms(1) by (simp add: UpdateArpCache_def GetMacFromCache_def)
  next
    case None
    from assms(2) obtain i where i: "find_index (\<lambda>e. \<not> arp_Valid e) (ArpCache s) = Some i"
      using find_index_None_iff [of "\<lambda>e. \<not> arp_Valid e" "ArpCache s"] by auto
    let ?l = "(ArpCache s)[i := \<lparr>IPAddr = ip, MACAddr = mac, arp_Valid = True\<rparr>]"
    have "find_index ?P ?l = Some i"
      using find_index_SomeD [OF i] None by (intro find_index_unique) (auto simp: find_index_None_nth nth_list_update split: if_splits)
    then show ?thesis using None i find_index_SomeD [OF i] assms(1) by (simp add: UpdateArpCache_def GetMacFromCache_def)
  qed
qed

lemma arp_fields:
  assumes "length (SrcMac h) = 6" and "length (DestMac h) = 6"
  shows "get16 (arp_bytes h @ rest) 0 = Some (HardwareType h)" "get16 (arp_bytes h @ rest) 2 = Some (ProtocolType h)"
    "get16 (arp_bytes h @ rest) 6 = Some (OpCode h)" "get_bytes (arp_bytes h @ rest) 8 6 = Some (SrcMac h)"
    "get32 (arp_bytes h @ rest) 14 = Some (SrcIp h)" "get32 (arp_bytes h @ rest) 24 = Some (DestIp h)"
  using assms get32_at [of "bytes16 (HardwareType h) @ bytes16 (ProtocolType h) @ [HardwareAddrLen h, ProtocolAddrLen h] @ bytes16 (OpCode h) @ SrcMac h" 14 "SrcIp h"
      "DestMac h @ bytes32 (DestIp h) @ rest"]
    get32_at [of "bytes16 (HardwareType h) @ bytes16 (ProtocolType h) @ [HardwareAddrLen h, ProtocolAddrLen h] @ bytes16 (OpCode h) @ SrcMac h @ bytes32 (SrcIp h) @ DestMac h" 24
      "DestIp h" rest]
  by (simp_all add: arp_bytes_def get16_def get_bytes_def bytes16_def)

text \<open>What \<^verbatim>\<open>EthernetInput\<close> does with an ARP packet.\<close>

lemma EthernetInput_arp:
  assumes "length (eth_Dest e) = 6" and "length (eth_Src e) = 6" and "eth_Type e = Swap16 ETHER_TYPE_ARP" and "14 \<le> flen"
    and "length (SrcMac h) = 6" and "length (DestMac h) = 6" and "data = eth_bytes e @ arp_bytes h @ rest"
  shows "EthernetInput uninit data flen s = Some
    (let s = resend_pending (SrcIp h) (UpdateArpCache (SrcIp h) (SrcMac h) s) in
     if Swap16 (OpCode h) = ARP_OP_REQUEST \<and> (DestIp h = card_IP s \<or> DestIp h = MyIP_flipped (card_IP s)) then
       SendRawPacket (eth_bytes \<lparr>eth_Dest = eth_Src e, eth_Src = Mac s, eth_Type = eth_Type e\<rparr> @
         arp_bytes \<lparr>HardwareType = HardwareType h, ProtocolType = ProtocolType h, HardwareAddrLen = 6, ProtocolAddrLen = 4, OpCode = Swap16 ARP_OP_REPLY,
           SrcMac = Mac s, SrcIp = card_IP s, DestMac = SrcMac h, DestIp = SrcIp h\<rparr>) s
     else s)"
proof -
  have len: "length (eth_bytes e) = 14" using assms(1,2) by simp
  note past = get_past(1-4) [OF len, of _ "arp_bytes h @ rest"]
  have "get16 data 12 = Some (Swap16 ETHER_TYPE_ARP)" "get_bytes data 6 6 = Some (eth_Src e)"
    unfolding assms(7) using assms(1-3) get16_at [of "eth_Dest e @ eth_Src e" 12 "eth_Type e" "arp_bytes h @ rest"]
    by (simp_all add: eth_bytes_def get_bytes_def)
  moreover have "get16 data 14 = Some (HardwareType h)" "get16 data 16 = Some (ProtocolType h)" "get16 data 20 = Some (OpCode h)"
    "get_bytes data 22 6 = Some (SrcMac h)" "get32 data 28 = Some (SrcIp h)" "get32 data 38 = Some (DestIp h)"
    unfolding assms(7) using past(2) [of 14] past(2) [of 16] past(2) [of 20] past(4) [of 22 6] past(3) [of 28] past(3) [of 38]
      arp_fields [OF assms(5,6), of rest] by simp_all
  moreover have "\<not> flen < 14" using assms(4) by simp
  ultimately show ?thesis using assms(3) by (auto simp: EthernetInput_def HandleARP_def Let_def)
qed

lemma SendUDP_known:
  assumes "dest \<noteq> 0xFFFFFFFF" and "GetMacFromCache (next_hop dest s) s = Some mac"
  shows "SendUDP dest sport dport d s = (True, SendRawPacket (udp_frame mac dest sport dport d s) s)"
  using assms by (auto simp: SendUDP_def Let_def GetMacFromCache_def)

text \<open>The exchange: \<open>a\<close> asks, \<open>b\<close> answers, \<open>a\<close> sends what it kept.\<close>

definition arp_request :: "u32 \<Rightarrow> net \<Rightarrow> u8 list" where
  "arp_request target s =
     eth_bytes (make_eth (replicate 6 0xFF) ETHER_TYPE_ARP s) @
     arp_bytes \<lparr>HardwareType = Swap16 1, ProtocolType = Swap16 0x0800, HardwareAddrLen = 6, ProtocolAddrLen = 4,
       OpCode = Swap16 ARP_OP_REQUEST, SrcMac = Mac s, SrcIp = card_IP s, DestMac = replicate 6 0, DestIp = target\<rparr>"

definition arp_answer :: "net \<Rightarrow> net \<Rightarrow> u8 list" where
  "arp_answer a b =
     eth_bytes \<lparr>eth_Dest = Mac a, eth_Src = Mac b, eth_Type = Swap16 ETHER_TYPE_ARP\<rparr> @
     arp_bytes \<lparr>HardwareType = Swap16 1, ProtocolType = Swap16 0x0800, HardwareAddrLen = 6, ProtocolAddrLen = 4, OpCode = Swap16 ARP_OP_REPLY,
       SrcMac = Mac b, SrcIp = card_IP b, DestMac = Mac a, DestIp = card_IP a\<rparr>"

lemma arp_answered:
  assumes "length (Mac a) = 6" and "card_IP b = target" and "\<not> pend_Valid (g_PendingUDP b)" and "14 \<le> flen"
  shows "\<exists>b'. EthernetInput uninit (arp_request target a @ pad) flen b = Some b' \<and> sent b' = sent b @ [arp_answer a b]"
proof -
  have p: "resend_pending (card_IP a) (UpdateArpCache (card_IP a) (Mac a) b) = UpdateArpCache (card_IP a) (Mac a) b"
    using assms(3) by (simp add: resend_pending_def Let_def)
  let ?e = "make_eth (replicate 6 0xFF) ETHER_TYPE_ARP a"
  let ?h = "\<lparr>HardwareType = Swap16 1, ProtocolType = Swap16 0x0800, HardwareAddrLen = 6, ProtocolAddrLen = 4,
       OpCode = Swap16 ARP_OP_REQUEST, SrcMac = Mac a, SrcIp = card_IP a, DestMac = replicate 6 0, DestIp = target\<rparr>"
  have "EthernetInput uninit (arp_request target a @ pad) flen b = Some (SendRawPacket (arp_answer a b) (UpdateArpCache (card_IP a) (Mac a) b))"
    using EthernetInput_arp [of ?e flen ?h "arp_request target a @ pad" pad uninit b] assms p
    by (simp add: make_eth_def arp_request_def arp_answer_def Let_def)
  then show ?thesis by (simp add: SendRawPacket_def)
qed

text \<open>C12. Address resolution works: a datagram to a host whose hardware address is not known is kept and asked for; when the
  next hop (the destination itself, or the router when it is on another network) gets the question it answers, and when
  the answer comes back the kept datagram goes out, unchanged, to the answering card's address, once.\<close>

theorem arp_resolves:
  assumes "length (Mac a) = 6" and "length (Mac b) = 6" and "dest \<noteq> 0xFFFFFFFF" and "next_hop dest a = card_IP b" and "card_IP b \<noteq> 0xFFFFFFFF"
    and "GetMacFromCache (card_IP b) a = None" and "\<exists>e \<in> set (ArpCache a). \<not> arp_Valid e" and "\<not> pend_Valid (g_PendingUDP b)"
  shows "\<exists>a1 a2 b1 request answer. SendUDP dest sport dport d a = (False, a1) \<and> sent a1 = sent a @ [request] \<and>
    EthernetInput uninit request 64 b = Some b1 \<and> sent b1 = sent b @ [answer] \<and>
    EthernetInput uninit answer 42 a1 = Some a2 \<and> sent a2 = sent a1 @ [udp_frame (Mac b) dest sport dport d a] \<and>
    \<not> pend_Valid (g_PendingUDP a2) \<and> GetMacFromCache (card_IP b) a2 = Some (Mac b)"
proof -
  define pad where "pad = replicate (64 - length (arp_request (card_IP b) a)) (0 :: u8)"
  define q where "q = queue_packet dest IP_PROTOCOL_UDP sport dport d a"
  define a1 where "a1 = q\<lparr>sent := sent a @ [arp_request (card_IP b) a @ pad]\<rparr>"
  have "SendUDP dest sport dport d a = (False, SendARPRequest (card_IP b) q)"
    using assms(4-6) by (simp add: SendUDP_def q_def)
  moreover have "SendARPRequest (card_IP b) q = a1"
    by (simp add: SendARPRequest_def arp_request_def a1_def q_def queue_packet_def SendRawPacket_def make_eth_def pad_def)
  ultimately have 1: "SendUDP dest sport dport d a = (False, a1)" "sent a1 = sent a @ [arp_request (card_IP b) a @ pad]" by (simp_all add: a1_def)
  obtain b1 where 2: "EthernetInput uninit (arp_request (card_IP b) a @ pad) 64 b = Some b1" "sent b1 = sent b @ [arp_answer a b]"
    using arp_answered [OF assms(1) refl assms(8), of 64 uninit pad] by auto
  define c where "c = UpdateArpCache (card_IP b) (Mac b) a1"
  have f: "card_IP a1 = card_IP a" "SubnetMask a1 = SubnetMask a" "Gateway a1 = Gateway a" "Mac a1 = Mac a" "ArpCache a1 = ArpCache a"
    "g_PendingUDP a1 = \<lparr>pend_Valid = True, pend_Protocol = IP_PROTOCOL_UDP, TargetIP = dest, pend_SrcPort = sport, pend_DestPort = dport, pend_Payload = d\<rparr>"
    by (simp_all add: a1_def q_def queue_packet_def)
  have mac: "GetMacFromCache (card_IP b) c = Some (Mac b)" unfolding c_def using UpdateArpCache_lookup assms(5,7) f(5) by simp
  have "next_hop dest c = next_hop dest a" unfolding next_hop_def c_def by (simp add: f)
  then have hop: "next_hop dest c = card_IP b" using assms(4) by simp
  have frame: "udp_frame (Mac b) dest sport dport d c = udp_frame (Mac b) dest sport dport d a"
    using f by (simp add: udp_frame_def make_eth_def c_def)
  define a2 where "a2 = (SendRawPacket (udp_frame (Mac b) dest sport dport d a) c)\<lparr>g_PendingUDP := (g_PendingUDP c)\<lparr>pend_Valid := False\<rparr>\<rparr>"
  have "SendUDP dest sport dport d c = (True, SendRawPacket (udp_frame (Mac b) dest sport dport d a) c)"
    using SendUDP_known [OF assms(3), of c "Mac b"] mac hop frame by simp
  moreover have "g_PendingUDP c = g_PendingUDP a1" by (simp add: c_def)
  moreover have "(if dest AND SubnetMask c = card_IP c AND SubnetMask c then dest else Gateway c) = card_IP b"
    using hop assms(3) unfolding next_hop_def by simp
  ultimately have p: "resend_pending (card_IP b) c = a2"
    unfolding resend_pending_def Let_def by (auto simp: f a2_def SendRawPacket_def split: if_splits)
  have "EthernetInput uninit (arp_answer a b) 42 a1 = Some a2"
    using EthernetInput_arp [of "\<lparr>eth_Dest = Mac a, eth_Src = Mac b, eth_Type = Swap16 ETHER_TYPE_ARP\<rparr>" 42
      "\<lparr>HardwareType = Swap16 1, ProtocolType = Swap16 0x0800, HardwareAddrLen = 6, ProtocolAddrLen = 4, OpCode = Swap16 ARP_OP_REPLY,
       SrcMac = Mac b, SrcIp = card_IP b, DestMac = Mac a, DestIp = card_IP a\<rparr>" "arp_answer a b" "[]" uninit a1] assms(1,2) p
    by (simp add: arp_answer_def c_def [symmetric] Let_def)
  moreover have "sent a2 = sent a1 @ [udp_frame (Mac b) dest sport dport d a]" "\<not> pend_Valid (g_PendingUDP a2)"
    by (simp_all add: a2_def c_def SendRawPacket_def)
  moreover have "GetMacFromCache x a2 = GetMacFromCache x c" for x by (simp add: a2_def SendRawPacket_def GetMacFromCache_def)
  then have "GetMacFromCache (card_IP b) a2 = Some (Mac b)" using mac by simp
  ultimately show ?thesis using 1 2 by blast
qed

theorem arp_resolves_witness:
  "\<exists>a1 a2 answer. SendUDP 0x0400000A 9 7 [72] (demo_host\<lparr>ArpCache := [\<lparr>IPAddr = 0, MACAddr = [], arp_Valid = False\<rparr>]\<rparr>) = (False, a1) \<and>
     EthernetInput demo_socket answer 42 a1 = Some a2 \<and>
     sent a2 = sent a1 @ [udp_frame [2, 0, 0, 0, 0, 1] 0x0400000A 9 7 [72] (demo_host\<lparr>ArpCache := [\<lparr>IPAddr = 0, MACAddr = [], arp_Valid = False\<rparr>]\<rparr>)]"
proof -
  let ?a = "demo_host\<lparr>ArpCache := [\<lparr>IPAddr = 0, MACAddr = [], arp_Valid = False\<rparr>]\<rparr>"
  let ?b = "demo_host\<lparr>card_IP := 0x0400000A\<rparr>"
  have h: "length (Mac ?a) = 6" "length (Mac ?b) = 6" "next_hop 0x0400000A ?a = card_IP ?b" "card_IP ?b \<noteq> 0xFFFFFFFF"
    "GetMacFromCache (card_IP ?b) ?a = None" "\<exists>e \<in> set (ArpCache ?a). \<not> arp_Valid e" "\<not> pend_Valid (g_PendingUDP ?b)"
    and m: "Mac ?b = [2, 0, 0, 0, 0, 1]"
    by (simp_all add: demo_host_def next_hop_def GetMacFromCache_def)
  have n: "(0x0400000A :: u32) \<noteq> 0xFFFFFFFF" by simp
  from arp_resolves [OF h(1,2) n h(3-7), of 9 7 "[72]" demo_socket] show ?thesis unfolding m by blast
qed

section \<open>Echo requests are answered\<close>

lemma put_at_block: "length xs = i \<Longrightarrow> length ys = length zs \<Longrightarrow> put_at i zs (xs @ ys @ rest) = xs @ zs @ rest"
  by (simp add: put_at_def)

lemma get_bytes_block: "length xs = i \<Longrightarrow> length ys = n \<Longrightarrow> get_bytes (xs @ ys @ rest) i n = Some ys"
  by (simp add: get_bytes_def)

definition ip_start :: "u8 \<Rightarrow> u16 \<Rightarrow> u8 list" where
  "ip_start p len = [push_bit 4 4 OR 5, 0] @ bytes16 (Swap16 len) @ bytes16 (Swap16 0) @ bytes16 (Swap16 0x4000) @ [64, p]"

definition ip_sum :: "u8 \<Rightarrow> u16 \<Rightarrow> u32 \<Rightarrow> u32 \<Rightarrow> u8 list" where
  "ip_sum p len src dst = bytes16 (CalculateChecksum (ip_start p len @ [0, 0] @ bytes32 src @ bytes32 dst))"

lemma make_ip_bytes: "ip_bytes (make_ip p len src dst) = ip_start p len @ ip_sum p len src dst @ bytes32 src @ bytes32 dst"
  by (simp add: make_ip_def ip_bytes_def ip_start_def ip_sum_def Let_def) (simp add: bytes16_def)

lemma ip_start_length [simp]: "length (ip_start p len) = 10" "length (ip_sum p len src dst) = 2"
  by (simp_all add: ip_start_def ip_sum_def)

text \<open>A frame whose parts are named is turned into the reply.\<close>

lemma echo_reply_parts:
  assumes "length dmac = 6" and "length smac = 6" and "length mac = 6" and "length ty = 2" and "length sq = 4" and "length c = 2"
    and "length ck = 2" and "length d \<le> 65507"
    and "data = dmac @ smac @ ty @ ip_start p len @ ck @ bytes32 src @ bytes32 dst @ [8] @ [0] @ c @ sq @ d @ pad"
  shows "echo_reply data 20 (of_nat (8 + length d)) (28 + of_nat (length d)) mac =
    Some (smac @ mac @ ty @ ip_start p len @ ip_sum p len dst src @ bytes32 dst @ bytes32 src @ [0, 0] @
      bytes16 (CalculateChecksum ([0, 0, 0, 0] @ sq @ d)) @ sq @ d)"
proof -
  have n: "unat (of_nat (8 + length d) :: u32) = 8 + length d" "unat (28 + of_nat (length d) :: u16) = 28 + length d"
  proof -
    show "unat (of_nat (8 + length d) :: u32) = 8 + length d" using assms(8) by (subst unat_of_nat) (simp add: take_bit_nat_eq_self)
    have "(28 + of_nat (length d) :: u16) = of_nat (28 + length d)" by simp
    then show "unat (28 + of_nat (length d) :: u16) = 28 + length d" using assms(8) by (simp only: unat_of_nat) (simp add: take_bit_nat_eq_self)
  qed
  define h where "h = dmac @ smac @ ty @ ip_start p len @ ck @ bytes32 src @ bytes32 dst"
  have h: "length h = 34" using assms by (simp add: h_def)
  let ?d1 = "h @ [0] @ [0] @ [0, 0] @ sq @ d @ pad"
  have d1: "put_at (34 + 2) [0, 0] (put_at 34 [0] data) = ?d1"
    using put_at_block [OF h, of "[8]" "[0]" "[0] @ c @ sq @ d @ pad"] put_at_block [of "h @ [0] @ [0]" "34 + 2" c "[0, 0]" "sq @ d @ pad"] h assms(6)
    unfolding assms(9) by (simp add: h_def)
  let ?body = "[0, 0, 0, 0] @ sq @ d"
  have body: "get_bytes ?d1 34 (8 + length d) = Some ?body"
    using get_bytes_block [OF h, of ?body "8 + length d" pad] assms(5) by simp
  let ?ic = "[0, 0] @ bytes16 (CalculateChecksum ?body) @ sq @ d @ pad"
  have d2: "put_at (34 + 2) (bytes16 (CalculateChecksum ?body)) ?d1 = h @ ?ic"
    using put_at_block [of "h @ [0] @ [0]" "34 + 2" "[0, 0]" "bytes16 (CalculateChecksum ?body)" "sq @ d @ pad"] h by simp
  let ?pre = "dmac @ smac @ ty @ ip_start p len @ ck"
  have pre: "length ?pre = 26" using assms by simp
  have a1: "get_bytes (h @ ?ic) 26 4 = Some (bytes32 src)" "get_bytes (h @ ?ic) 30 4 = Some (bytes32 dst)" "get_bytes (h @ ?ic) 6 6 = Some smac"
    using get_bytes_block [OF pre, of "bytes32 src" 4 "bytes32 dst @ ?ic"] get_bytes_block [of "?pre @ bytes32 src" 30 "bytes32 dst" 4 ?ic]
      get_bytes_block [OF assms(1) assms(2), of "ty @ ip_start p len @ ck @ bytes32 src @ bytes32 dst @ ?ic"] pre by (simp_all add: h_def)
  have d3: "put_at 30 (bytes32 src) (put_at 26 (bytes32 dst) (h @ ?ic)) = ?pre @ bytes32 dst @ bytes32 src @ ?ic"
    using put_at_block [OF pre, of "bytes32 src" "bytes32 dst" "bytes32 dst @ ?ic"]
      put_at_block [of "?pre @ bytes32 dst" 30 "bytes32 dst" "bytes32 src" ?ic] pre by (simp add: h_def)
  let ?rest = "ip_start p len @ ck @ bytes32 dst @ bytes32 src @ ?ic"
  have d4: "put_at 0 smac (put_at 6 mac (?pre @ bytes32 dst @ bytes32 src @ ?ic)) = smac @ mac @ ty @ ?rest"
    using put_at_block [of dmac 6 smac mac "ty @ ?rest"] put_at_block [of "[]" 0 dmac smac "mac @ ty @ ?rest"] assms(1-3) by simp
  let ?front = "smac @ mac @ ty @ ip_start p len"
  have front: "length ?front = 24" "length (smac @ mac @ ty) = 14" using assms by simp_all
  have d5: "put_at 24 z (?front @ y @ bytes32 dst @ bytes32 src @ ?ic) = ?front @ z @ bytes32 dst @ bytes32 src @ ?ic" if "length y = length z" for y z
    using put_at_block [OF front(1) that, of "bytes32 dst @ bytes32 src @ ?ic"] by simp
  have hdr: "get_bytes (?front @ [0, 0] @ bytes32 dst @ bytes32 src @ ?ic) 14 20 = Some (ip_start p len @ [0, 0] @ bytes32 dst @ bytes32 src)"
    using get_bytes_block [OF front(2), of "ip_start p len @ [0, 0] @ bytes32 dst @ bytes32 src" 20 ?ic] by simp
  let ?res = "?front @ ip_sum p len dst src @ bytes32 dst @ bytes32 src @ [0, 0] @ bytes16 (CalculateChecksum ?body) @ sq @ d"
  have fin: "get_bytes (?front @ ip_sum p len dst src @ bytes32 dst @ bytes32 src @ ?ic) 0 (14 + (28 + length d)) = Some ?res"
    using get_bytes_block [of "[]" 0 ?res "14 + (28 + length d)" pad] assms by simp
  show ?thesis
    unfolding echo_reply_def Let_def n
    using d1 body d2 a1 d3 d4 d5 [of ck "[0, 0]"] hdr d5 [of "[0, 0]" "ip_sum p len dst src"] fin assms(7)
    by (simp add: ip_sum_def)
qed

text \<open>The frame with which host \<open>b\<close>, addressed as \<open>dst\<close>, answers host \<open>a\<close>.\<close>

definition echo_frame :: "net \<Rightarrow> net \<Rightarrow> u32 \<Rightarrow> u16 \<Rightarrow> u16 \<Rightarrow> u8 list \<Rightarrow> u8 list" where
  "echo_frame a b dst sq sid d =
     (let h = \<lparr>icmp_Type = 0, icmp_Code = 0, icmp_Checksum = 0, icmp_ID = Swap16 sid, icmp_Sequence = Swap16 sq\<rparr> in
      eth_bytes (make_eth (Mac a) ETHER_TYPE_IP b) @
      ip_bytes (make_ip IP_PROTOCOL_ICMP (20 + 8 + of_nat (length d)) dst (card_IP a)) @
      icmp_bytes (h\<lparr>icmp_Checksum := CalculateChecksum (icmp_bytes h @ d)\<rparr>) @ d)"

text \<open>A ping is answered: when an echo request of host \<open>a\<close> reaches host \<open>b\<close>, \<open>b\<close> sends back one frame, to \<open>a\<close>'s hardware and IP
  address, with the same identifier, sequence number and data, and with IP and ICMP checksums that verify.\<close>

theorem echo_answered:
  assumes "length mac = 6" and "length (Mac a) = 6" and "length (Mac b) = 6" and "length d \<le> 65507" and "14 \<le> flen"
  shows "\<exists>b'. EthernetInput uninit (icmp_frame mac (card_IP b) sq sid d a @ pad) flen b = Some b' \<and>
    sent b' = sent b @ [echo_frame a b (card_IP b) sq sid d] \<and>
    CalculateChecksum (take 20 (drop 14 (echo_frame a b (card_IP b) sq sid d))) = 0 \<and>
    CalculateChecksum (drop 34 (echo_frame a b (card_IP b) sq sid d)) = 0"
proof -
  define s where "s = UpdateArpCache (Swap32 (card_IP a)) (Mac a) b"
  let ?sq = "bytes16 (Swap16 sid) @ bytes16 (Swap16 sq)"
  let ?len = "20 + 8 + of_nat (length d) :: u16"
  let ?ih = "\<lparr>icmp_Type = 8, icmp_Code = 0, icmp_Checksum = 0, icmp_ID = Swap16 sid, icmp_Sequence = Swap16 sq\<rparr>"
  define c where "c = bytes16 (CalculateChecksum (icmp_bytes ?ih @ d))"
  define data where "data = icmp_frame mac (card_IP b) sq sid d a @ pad"
  have z: "bytes16 0 = [0, 0]" by (simp add: bytes16_def)
  have parts: "data = mac @ Mac a @ bytes16 (Swap16 ETHER_TYPE_IP) @ ip_start IP_PROTOCOL_ICMP ?len @ ip_sum IP_PROTOCOL_ICMP ?len (card_IP a) (card_IP b) @
      bytes32 (card_IP a) @ bytes32 (card_IP b) @ [8] @ [0] @ c @ ?sq @ d @ pad"
    by (simp add: data_def icmp_frame_def Let_def eth_bytes_def make_eth_def make_ip_bytes icmp_bytes_def c_def)
  have data: "data = eth_bytes (make_eth mac ETHER_TYPE_IP a) @ ip_bytes (make_ip IP_PROTOCOL_ICMP ?len (card_IP a) (card_IP b)) @ ([8, 0] @ c @ ?sq @ d @ pad)"
    by (simp add: parts eth_bytes_def make_eth_def make_ip_bytes)
  have e: "EthernetInput uninit data flen b = HandleICMP data s"
    using EthernetInput_ip [OF assms(1,2) _ assms(5) data, of b] by (simp add: ip_dispatch_def s_def)
  let ?e = "eth_bytes (make_eth mac ETHER_TYPE_IP a)"
  let ?rest = "ip_bytes (make_ip IP_PROTOCOL_ICMP ?len (card_IP a) (card_IP b)) @ ([8, 0] @ c @ ?sq @ d @ pad)"
  note past = get_past(1-3) [OF eth_fields(1) [OF assms(1,2)], of _ ETHER_TYPE_IP ?rest]
  have g: "get8 data 14 = Some 0x45" "get16 data 16 = Some (Swap16 ?len)" "get8 data 34 = Some 8"
    unfolding data using past(1) [of 14] past(2) [of 16] make_ip_fields(1,2) eth_fields(1) [OF assms(1,2)]
      get8_at [of "?e @ ip_bytes (make_ip IP_PROTOCOL_ICMP ?len (card_IP a) (card_IP b))" 34 8 "0 # c @ ?sq @ d @ pad"] by simp_all
  have len: "?len = 28 + of_nat (length d)" by simp
  have n: "of_nat (unat ?len) - of_nat 20 = (of_nat (8 + length d) :: u32)"
  proof -
    have "?len = of_nat (28 + length d)" by simp
    then have "unat ?len = 28 + length d" using assms(4) by (simp only: unat_of_nat) (simp add: take_bit_nat_eq_self)
    then show ?thesis by simp
  qed
  have "echo_reply data 20 (of_nat (8 + length d)) ?len (Mac b) = Some (echo_frame a b (card_IP b) sq sid d)"
    using echo_reply_parts [OF assms(1-3) _ _ _ _ assms(4) parts] unfolding len
    by (simp add: echo_frame_def Let_def eth_bytes_def make_eth_def make_ip_bytes icmp_bytes_def c_def z)
  then have "HandleICMP data s = Some (SendRawPacket (echo_frame a b (card_IP b) sq sid d) s)"
    using g n by (simp add: HandleICMP_def s_def)
  moreover have "take 20 (drop 14 (echo_frame a b (card_IP b) sq sid d)) = ip_bytes (make_ip IP_PROTOCOL_ICMP ?len (card_IP b) (card_IP a))"
    using assms(2,3) by (simp add: echo_frame_def Let_def make_eth_def)
  moreover have "drop 34 (echo_frame a b (card_IP b) sq sid d) = [0, 0] @ bytes16 (CalculateChecksum ([0, 0] @ [0, 0] @ (?sq @ d))) @ (?sq @ d)"
    using assms(2,3) by (simp add: echo_frame_def Let_def make_eth_def icmp_bytes_def z)
  ultimately show ?thesis
    using e checksum_verifies [of "[0, 0]" "?sq @ d"] make_ip_checksum assms(4) unfolding data_def by (simp add: SendRawPacket_def s_def)
qed

theorem echo_answered_witness:
  "\<exists>b'. EthernetInput demo_socket (icmp_frame [2, 0, 0, 0, 0, 1] 0x0200000A 1 7 [72, 105] demo_host) 44 demo_host = Some b' \<and>
     sent b' = [echo_frame demo_host demo_host 0x0200000A 1 7 [72, 105]]"
proof -
  have h: "length (Mac demo_host) = 6" "card_IP demo_host = 0x0200000A" "sent demo_host = []" by (simp_all add: demo_host_def)
  show ?thesis using echo_answered [OF _ h(1) h(1), of "[2, 0, 0, 0, 0, 1]" "[72, 105]" 44 demo_socket 1 7 "[]"] h(2,3) by auto
qed

section \<open>Segments and malformed datagrams\<close>

text \<open>A TCP frame reaches \<^verbatim>\<open>HandleTCP\<close> with its segment, length and sender.\<close>

lemma tcp_frame_handled:
  assumes "length mac = 6" and "length (Mac a) = 6" and "RemoteIP k = card_IP b" and "length payload \<le> 65495" and "14 \<le> flen"
  shows "EthernetInput uninit (tcp_frame mac flags payload k a @ pad) flen b =
    HandleTCP uninit (tcp_segment flags payload k @ pad) (20 + of_nat (length payload)) (card_IP a) (UpdateArpCache (Swap32 (card_IP a)) (Mac a) b)"
proof -
  let ?len = "20 + 20 + of_nat (length payload) :: u16"
  have data: "tcp_frame mac flags payload k a @ pad = eth_bytes (make_eth mac ETHER_TYPE_IP a) @
      ip_bytes (make_ip IP_PROTOCOL_TCP ?len (card_IP a) (RemoteIP k)) @ (tcp_segment flags payload k @ pad)"
    by (simp add: tcp_frame_def)
  have "drop 34 (tcp_frame mac flags payload k a @ pad) = tcp_segment flags payload k @ pad"
    using eth_fields(1) [OF assms(1,2)] unfolding data by simp
  moreover have "of_nat (unat ?len) - 20 = (20 + of_nat (length payload) :: u32)"
  proof -
    have "?len = of_nat (40 + length payload)" by simp
    then have "unat ?len = 40 + length payload" using assms(4) by (simp only: unat_of_nat) (simp add: take_bit_nat_eq_self)
    then show ?thesis by simp
  qed
  ultimately show ?thesis
    using EthernetInput_ip [OF assms(1,2) _ assms(5) data] assms(3) by (simp add: ip_dispatch_def)
qed

text \<open>The length field of a datagram is not checked: one that claims fewer than the eight bytes of its own header makes the
  handler copy more than 65000 bytes into the socket, so that in a receive buffer of less than 64 KiB it reads past the end.\<close>

theorem udp_short_length_overruns:
  assumes "length data < 65536" and "get16 data udp = Some sport" and "get16 data (udp + 2) = Some dport" and "get16 data (udp + 4) = Some len"
    and "Swap16 dport \<noteq> 68" and "Swap16 sport \<noteq> 53" and "Swap16 len < 8"
    and "GetUDPSocket (Swap16 dport) s = Some i"
  shows "udp_input data udp src s = None"
proof -
  have "unat (Swap16 len - 8) = 65536 + unat (Swap16 len) - 8"
    using assms(7) by (simp add: unat_sub_if_size word_less_nat_alt word_size)
  then have "get_bytes data (udp + 8) (unat (Swap16 len - 8)) = None"
    using assms(1) by (simp add: get_bytes_def)
  then show ?thesis using assms by (simp add: udp_input_def)
qed

theorem udp_short_length_overruns_witness:
  "udp_input [0, 9, 0, 7, 0, 0, 0, 0] 0 0
     (demo_host\<lparr>UdpSocketTable := [\<lparr>udp_Allocated = True, udp_LocalPort = 7, udp_RemoteIP = 0, udp_RemotePort = 0, udp_Id = 0,
        udp_ring = new_ring 8192, last_SrcIP = 0, last_SrcPort = 0, last_Length = 0\<rparr>]\<rparr>) = None"
  using udp_short_length_overruns [of "[0, 9, 0, 7, 0, 0, 0, 0]" 0 "0x0900" "0x0700" 0
    "demo_host\<lparr>UdpSocketTable := [\<lparr>udp_Allocated = True, udp_LocalPort = 7, udp_RemoteIP = 0, udp_RemotePort = 0, udp_Id = 0,
        udp_ring = new_ring 8192, last_SrcIP = 0, last_SrcPort = 0, last_Length = 0\<rparr>]\<rparr>" 0 0]
  by (simp add: get16_def word16_def Swap16_def GetUDPSocket_def)

end
