(* ===== verification/Disk.thy ===== *)
theory Disk
  imports Net_Bytes
begin

text \<open>
  Partitions, \<^verbatim>\<open>kernel/filesys/partition.hpp\<close>: a window of sectors of a block device. The device is a
  parameter: what its sectors hold, which transfers it can do, and how many sectors of a write it
  stores before it fails. A transfer is atomic for one sector only, so a failed write may leave a
  part of its sectors behind.
\<close>

section \<open>Model\<close>

record disk =
  sector_size :: nat
  sectors :: "u64 \<Rightarrow> u8 list"
  read_ok :: "u64 \<Rightarrow> u32 \<Rightarrow> bool"
  stored :: "u64 \<Rightarrow> u32 \<Rightarrow> nat"

definition disk_read :: "u64 \<Rightarrow> u32 \<Rightarrow> disk \<Rightarrow> u8 list option" where
  "disk_read lba n d =
     (if read_ok d lba n then Some (concat (map (\<lambda>i. sectors d (lba + of_nat i)) [0..<unat n])) else None)"

definition put_sectors :: "u64 \<Rightarrow> nat \<Rightarrow> u8 list \<Rightarrow> disk \<Rightarrow> disk" where
  "put_sectors lba n data d =
     d\<lparr> sectors := (\<lambda>a. if unat (a - lba) < n then take (sector_size d) (drop (unat (a - lba) * sector_size d) data)
                       else sectors d a) \<rparr>"

text \<open>The transfer reads its sectors from the buffer, which has to hold them.\<close>

definition disk_write :: "u64 \<Rightarrow> u32 \<Rightarrow> u8 list \<Rightarrow> disk \<Rightarrow> (bool \<times> disk) option" where
  "disk_write lba n data d =
     (if length data < unat n * sector_size d then None
      else Some (unat n \<le> stored d lba n, put_sectors lba (min (unat n) (stored d lba n)) data d))"

record partition =
  m_StartingLBA :: u64
  m_SectorCount :: u64
  m_ReadOnly :: bool
  m_ParentDevice :: disk

text \<open>\<^const>\<open>None\<close> stands for the return value \<^verbatim>\<open>FALSE\<close> of a read.\<close>

definition ReadSectors :: "u64 \<Rightarrow> u32 \<Rightarrow> partition \<Rightarrow> u8 list option" where
  "ReadSectors LBA Count p =
     (if m_SectorCount p < LBA + ucast Count then None
      else disk_read (m_StartingLBA p + LBA) Count (m_ParentDevice p))"

definition WriteSectors :: "u64 \<Rightarrow> u32 \<Rightarrow> u8 list \<Rightarrow> partition \<Rightarrow> (bool \<times> partition) option" where
  "WriteSectors LBA Count Buffer p =
     (if m_ReadOnly p then Some (False, p)
      else if m_SectorCount p < LBA + ucast Count then Some (False, p)
      else map_option (\<lambda>(ok, d). (ok, p\<lparr> m_ParentDevice := d \<rparr>))
             (disk_write (m_StartingLBA p + LBA) Count Buffer (m_ParentDevice p)))"

section \<open>A partition as an array of sectors\<close>

definition sector :: "partition \<Rightarrow> nat \<Rightarrow> u8 list" where
  "sector p i = sectors (m_ParentDevice p) (m_StartingLBA p + of_nat i)"

abbreviation part_size :: "partition \<Rightarrow> nat" where
  "part_size p \<equiv> unat (m_SectorCount p)"

abbreviation ssize :: "partition \<Rightarrow> nat" where
  "ssize p \<equiv> sector_size (m_ParentDevice p)"

text \<open>The partition lies on the device, and every sector has the device's sector size.\<close>

definition wf_partition :: "partition \<Rightarrow> bool" where
  "wf_partition p \<longleftrightarrow> unat (m_StartingLBA p) + part_size p < 2 ^ 64 \<and> 0 < ssize p \<and>
     (\<forall>i < part_size p. length (sector p i) = ssize p)"

text \<open>The device does every transfer inside the partition, and the partition may be written.\<close>

definition healthy :: "partition \<Rightarrow> bool" where
  "healthy p \<longleftrightarrow> \<not> m_ReadOnly p \<and>
     (\<forall>a n. read_ok (m_ParentDevice p) a n \<and> unat n \<le> stored (m_ParentDevice p) a n)"

definition in_part :: "partition \<Rightarrow> u64 \<Rightarrow> u32 \<Rightarrow> bool" where
  "in_part p LBA n \<longleftrightarrow> unat LBA + unat n \<le> part_size p"

lemma in_partD:
  assumes "in_part p LBA n" and "wf_partition p"
  shows "\<not> m_SectorCount p < LBA + ucast n" and "unat (LBA + ucast n) = unat LBA + unat n"
proof -
  have "unat LBA + unat n < 2 ^ 64" using assms unsigned_less [of "m_SectorCount p", where ?'a = nat]
    by (simp add: in_part_def)
  then show u: "unat (LBA + ucast n) = unat LBA + unat n"
    by (simp add: unat_word_ariths unsigned_ucast_eq take_bit_nat_eq_self)
  show "\<not> m_SectorCount p < LBA + ucast n"
    using assms(1) by (simp add: word_less_nat_alt u in_part_def)
qed

lemma lba_of_nat: "m_StartingLBA p + LBA + of_nat i = m_StartingLBA p + of_nat (unat LBA + i)" for LBA :: u64
  by (simp add: add.assoc)

lemma ReadSectors_spec:
  assumes "wf_partition p" and "healthy p" and "in_part p LBA n"
  shows "ReadSectors LBA n p = Some (concat (map (\<lambda>i. sector p (unat LBA + i)) [0..<unat n]))"
  using assms(2) in_partD [OF assms(3,1)]
  by (simp add: ReadSectors_def disk_read_def healthy_def sector_def lba_of_nat)

lemma ReadSectors_one:
  assumes "wf_partition p" and "healthy p" and "unat LBA < part_size p"
  shows "ReadSectors LBA 1 p = Some (sector p (unat LBA))"
  using ReadSectors_spec [OF assms(1,2), of LBA 1] assms(3) by (simp add: in_part_def)

text \<open>What a successful write leaves in the sectors of the partition.\<close>

lemma sector_put:
  assumes "wf_partition p" and "i < part_size p" and "unat LBA + n \<le> part_size p"
  shows "sector (p\<lparr> m_ParentDevice := put_sectors (m_StartingLBA p + LBA) n data (m_ParentDevice p) \<rparr>) i =
     (if unat LBA \<le> i \<and> i < unat LBA + n then take (ssize p) (drop ((i - unat LBA) * ssize p) data) else sector p i)"
proof -
  have b: "i < 2 ^ 64" "unat LBA < 2 ^ 64" using assms(2) unsigned_less [of "m_SectorCount p", where ?'a = nat]
    unsigned_less [of LBA, where ?'a = nat] by simp_all
  have d: "m_StartingLBA p + of_nat i - (m_StartingLBA p + LBA) = of_nat i - LBA" by simp
  show ?thesis
  proof (cases "unat LBA \<le> i")
    case True
    then have "unat (of_nat i - LBA) = i - unat LBA"
      using unat_diff_no_wrap [of LBA "of_nat i"] b by (simp add: word_le_nat_alt unat_of_nat_u64)
    then show ?thesis using True assms(3) by (auto simp: sector_def put_sectors_def d)
  next
    case False
    have "of_nat i - LBA = of_nat (2 ^ 64 + i - unat LBA)"
      using b False by (simp add: of_nat_diff) 
    moreover have "2 ^ 64 + i - unat LBA < 2 ^ 64" using False b by simp
    ultimately have "unat (of_nat i - LBA) = 2 ^ 64 + i - unat LBA" by (metis unat_of_nat_u64)
    moreover have "n \<le> 2 ^ 64 - unat LBA" using assms(3) unsigned_less [of "m_SectorCount p", where ?'a = nat] by simp
    ultimately have "\<not> unat (of_nat i - LBA) < n" by simp
    then show ?thesis using False by (simp add: sector_def put_sectors_def d)
  qed
qed

text \<open>Everything about a partition but its sectors.\<close>

definition same_disk :: "partition \<Rightarrow> partition \<Rightarrow> bool" where
  "same_disk p q \<longleftrightarrow> m_StartingLBA q = m_StartingLBA p \<and> m_SectorCount q = m_SectorCount p \<and> m_ReadOnly q = m_ReadOnly p \<and>
     ssize q = ssize p \<and> read_ok (m_ParentDevice q) = read_ok (m_ParentDevice p) \<and>
     stored (m_ParentDevice q) = stored (m_ParentDevice p)"

lemma same_disk_refl [simp]: "same_disk p p"
  by (simp add: same_disk_def)

lemma same_disk_trans: "same_disk p q \<Longrightarrow> same_disk q r \<Longrightarrow> same_disk p r"
  by (simp add: same_disk_def)

lemma same_diskD:
  assumes "same_disk p q"
  shows "part_size q = part_size p" "ssize q = ssize p" "healthy q = healthy p" "in_part q = in_part p"
  using assms by (auto simp: same_disk_def healthy_def in_part_def fun_eq_iff)

lemma WriteSectors_spec:
  assumes "wf_partition p" and "healthy p" and "in_part p LBA n" and "length data = unat n * ssize p"
  shows "\<exists>q. WriteSectors LBA n data p = Some (True, q) \<and> wf_partition q \<and> same_disk p q \<and>
    (\<forall>i < part_size p. sector q i =
       (if unat LBA \<le> i \<and> i < unat LBA + unat n then take (ssize p) (drop ((i - unat LBA) * ssize p) data) else sector p i))"
proof -
  let ?d = "put_sectors (m_StartingLBA p + LBA) (unat n) data (m_ParentDevice p)"
  let ?q = "p\<lparr> m_ParentDevice := ?d \<rparr>"
  have w: "WriteSectors LBA n data p = Some (True, ?q)"
    using assms in_partD [OF assms(3,1)] by (simp add: WriteSectors_def disk_write_def healthy_def)
  have s: "same_disk p ?q" by (simp add: same_disk_def put_sectors_def)
  have le: "unat LBA + unat n \<le> part_size p" using assms(3) by (simp add: in_part_def)
  have c: "sector ?q i = (if unat LBA \<le> i \<and> i < unat LBA + unat n then take (ssize p) (drop ((i - unat LBA) * ssize p) data) else sector p i)"
    if "i < part_size p" for i using sector_put [OF assms(1) that le] .
  have "length (sector ?q i) = ssize p" if i: "i < part_size p" for i
  proof (cases "unat LBA \<le> i \<and> i < unat LBA + unat n")
    case True
    then have "i - unat LBA + 1 \<le> unat n" by linarith
    then have "(i - unat LBA + 1) * ssize p \<le> length data" using assms(4) mult_le_mono1 by metis
    then show ?thesis unfolding c [OF i] using True by (simp add: add_mult_distrib)
  next
    case False
    then show ?thesis using c [OF i] assms(1) i by (auto simp: wf_partition_def)
  qed
  then have "wf_partition ?q" using assms(1) s by (simp add: wf_partition_def same_disk_def)
  with w s c show ?thesis by blast
qed

lemma WriteSectors_one:
  assumes "wf_partition p" and "healthy p" and "unat LBA < part_size p" and "length data = ssize p"
  shows "\<exists>q. WriteSectors LBA 1 data p = Some (True, q) \<and> wf_partition q \<and> same_disk p q \<and>
    (\<forall>i < part_size p. sector q i = (if i = unat LBA then data else sector p i))"
proof -
  obtain q where q: "WriteSectors LBA 1 data p = Some (True, q)" "wf_partition q" "same_disk p q"
    "\<forall>i < part_size p. sector q i = (if unat LBA \<le> i \<and> i < unat LBA + 1 then take (ssize p) (drop ((i - unat LBA) * ssize p) data) else sector p i)"
    using WriteSectors_spec [OF assms(1,2), of LBA 1 data] assms(3,4) by (auto simp: in_part_def)
  have "sector q i = (if i = unat LBA then data else sector p i)" if "i < part_size p" for i
    using q(4) that assms(4) by (cases "i = unat LBA") auto
  with q show ?thesis by blast
qed

end
