(* ===== verification/Fat_Table.thy ===== *)
theory Fat_Table
  imports Disk "HOL-Library.Monad_Syntax"
begin

text \<open>
  The FAT32 driver's view of a volume, \<^verbatim>\<open>kernel/filesys/fat32/fat32_helper.cpp\<close> and the mounting of
  \<^verbatim>\<open>fat32.cpp\<close>: the boot parameter block, the file allocation table and its copies, the free cluster
  hint, allocation and release of clusters, and whole-cluster transfers. The lemmas present a mounted
  volume as two functions, the next-cluster entry and the contents of each cluster, and give the
  effect of every operation on them.
\<close>

section \<open>Model\<close>

record FAT32_BPB =
  BytesPerSector :: u16
  SectorsPerCluster :: u8
  ReservedSectors :: u16
  NumFATs :: u8
  TotalSectors32 :: u32
  SectorsPerFAT32 :: u32
  RootDirCluster :: u32
  fsInfoCluster :: u16
  FSType :: "u8 list"

record RTCTime =
  second :: u8
  minute :: u8
  hour :: u8
  day :: u8
  month :: u8
  year :: u32

record FAT32_VNode =
  StartCluster :: u32
  vn_FileSize :: u32
  IsDirectory :: bool
  EntryLBA :: u64
  EntryOffset :: u32
  vn_RefCount :: u32

text \<open>
  The driver object and what it is given: the partition it is mounted on, the nodes it has allocated,
  where the heap puts a new one, whether the allocators can serve a request, the clock, and what the
  stack holds where \<^verbatim>\<open>ReadDirectory\<close> has its name buffer.
\<close>

record fat =
  m_Partition :: "partition option"
  m_BPB :: FAT32_BPB
  m_FirstDataSectorLBA :: u64
  m_FirstFATSectorLBA :: u64
  m_TotalClusters :: u32
  m_NextFreeClusterHint :: u32
  vnodes :: "u64 \<rightharpoonup> FAT32_VNode"
  new_at :: "(u64 \<rightharpoonup> FAT32_VNode) \<Rightarrow> u64"
  dma_ok :: "u32 \<Rightarrow> bool"
  kmalloc_ok :: "u32 \<Rightarrow> bool"
  rtc :: RTCTime
  lfn_garbage :: "u8 list"

abbreviation bps :: "fat \<Rightarrow> u16" where "bps fs \<equiv> BytesPerSector (m_BPB fs)"
abbreviation spc :: "fat \<Rightarrow> u8" where "spc fs \<equiv> SectorsPerCluster (m_BPB fs)"

definition part_read :: "u64 \<Rightarrow> u32 \<Rightarrow> fat \<Rightarrow> u8 list option option" where
  "part_read LBA n fs = map_option (ReadSectors LBA n) (m_Partition fs)"

definition part_write :: "u64 \<Rightarrow> u32 \<Rightarrow> u8 list \<Rightarrow> fat \<Rightarrow> (bool \<times> fat) option" where
  "part_write LBA n data fs =
     do { p \<leftarrow> m_Partition fs;
          (ok, q) \<leftarrow> WriteSectors LBA n data p;
          Some (ok, fs\<lparr> m_Partition := Some q \<rparr>) }"

text \<open>Storing bytes into a buffer.\<close>

definition put_bytes :: "nat \<Rightarrow> u8 list \<Rightarrow> u8 list \<Rightarrow> u8 list option" where
  "put_bytes i bs p = (if i + length bs \<le> length p then Some (take i p @ bs @ drop (i + length bs) p) else None)"

subsection \<open>Mounting\<close>

definition copy_BPB :: "u8 list \<Rightarrow> FAT32_BPB option" where
  "copy_BPB b =
     do { bytes \<leftarrow> get16 b 11;
          spcl \<leftarrow> get8 b 13;
          reserved \<leftarrow> get16 b 14;
          fats \<leftarrow> get8 b 16;
          tot \<leftarrow> get32 b 32;
          spf \<leftarrow> get32 b 36;
          root \<leftarrow> get32 b 44;
          info \<leftarrow> get16 b 48;
          t \<leftarrow> get_bytes b 82 8;
          Some \<lparr> BytesPerSector = bytes, SectorsPerCluster = spcl, ReservedSectors = reserved, NumFATs = fats,
                 TotalSectors32 = tot, SectorsPerFAT32 = spf, RootDirCluster = root, fsInfoCluster = info, FSType = t \<rparr> }"

definition ParseBPB :: "u8 list \<Rightarrow> fat \<Rightarrow> (bool \<times> fat) option" where
  "ParseBPB BootSector fs =
     do { a \<leftarrow> get8 BootSector 510;
          b \<leftarrow> get8 BootSector 511;
          if a \<noteq> 0x55 \<or> b \<noteq> 0xAA then Some (False, fs)
          else do {
            B \<leftarrow> copy_BPB BootSector;
            let fs = fs\<lparr> m_BPB := B \<rparr>;
            if FSType B \<noteq> [0x46, 0x41, 0x54, 0x33, 0x32, 0x20, 0x20, 0x20] then Some (False, fs)
            else if BytesPerSector B = 0 \<or> SectorsPerCluster B = 0 then Some (False, fs)
            else if NumFATs B = 0 \<or> SectorsPerFAT32 B = 0 then Some (False, fs)
            else Some (True, fs) } }"

definition fsinfo_valid :: "u8 list \<Rightarrow> bool option" where
  "fsinfo_valid b =
     do { lead \<leftarrow> get32 b 0;
          struc \<leftarrow> get32 b 484;
          tail \<leftarrow> get16 b 510;
          Some (lead = 0x41615252 \<and> struc = 0x61417272 \<and> tail = 0xAA55) }"

definition ReadFSInfo :: "fat \<Rightarrow> fat option" where
  "ReadFSInfo fs =
     (let info = fsInfoCluster (m_BPB fs) in
      if info = 0 \<or> info = 0xFFFF then Some fs
      else do {
        r \<leftarrow> part_read (ucast info) 1 fs;
        case r of
          None \<Rightarrow> Some fs
        | Some b \<Rightarrow>
            do { ok \<leftarrow> fsinfo_valid b;
                 if \<not> ok then Some fs
                 else do {
                   c \<leftarrow> get32 b 492;
                   Some (fs\<lparr> m_NextFreeClusterHint := (if 2 \<le> c \<and> c < m_TotalClusters fs then c else 2) \<rparr>) } } })"

definition fat_Mount :: "partition option \<Rightarrow> fat \<Rightarrow> (bool \<times> fat) option" where
  "fat_Mount Part fs =
     (let fs = fs\<lparr> m_Partition := Part \<rparr> in
      if Part = None then Some (False, fs)
      else do {
        r \<leftarrow> part_read 0 1 fs;
        case r of
          None \<Rightarrow> Some (False, fs)
        | Some b \<Rightarrow>
            do { (ok, fs) \<leftarrow> ParseBPB b fs;
                 if \<not> ok then Some (False, fs\<lparr> m_Partition := None \<rparr>)
                 else do {
                   let B = m_BPB fs;
                   let data = (ucast (ReservedSectors B) + ucast (NumFATs B) * ucast (SectorsPerFAT32 B) :: u64);
                   let count = ucast (TotalSectors32 B) - data;
                   fs \<leftarrow> ReadFSInfo (fs\<lparr> m_FirstFATSectorLBA := ucast (ReservedSectors B), m_FirstDataSectorLBA := data,
                            m_TotalClusters := ucast (count div ucast (SectorsPerCluster B)), m_NextFreeClusterHint := 2 \<rparr>);
                   Some (True, fs) } } })"

definition Unmount :: "fat \<Rightarrow> bool \<times> fat" where
  "Unmount fs = (True, fs\<lparr> m_Partition := None \<rparr>)"

subsection \<open>Clusters\<close>

definition ClusterToLBA :: "u32 \<Rightarrow> fat \<Rightarrow> u64" where
  "ClusterToLBA cluster fs =
     (if cluster < 2 then 0 else m_FirstDataSectorLBA fs + ucast (cluster - 2) * ucast (spc fs))"

definition GetNextCluster :: "u32 \<Rightarrow> fat \<Rightarrow> u32 option" where
  "GetNextCluster cur fs =
     (if bps fs = 0 then None
      else
        let fatOffset = ucast cur * 4 :: u64;
            fatSector = m_FirstFATSectorLBA fs + fatOffset div ucast (bps fs);
            off = ucast (fatOffset mod ucast (bps fs)) :: u32
        in do {
          r \<leftarrow> part_read fatSector 1 fs;
          case r of
            None \<Rightarrow> Some 0x0FFFFFFF
          | Some b \<Rightarrow> map_option (\<lambda>e. e AND 0x0FFFFFFF) (get32 b (unat off)) })"

fun write_copies :: "u64 \<Rightarrow> u8 list \<Rightarrow> nat \<Rightarrow> nat \<Rightarrow> bool \<Rightarrow> fat \<Rightarrow> (bool \<times> fat) option" where
  "write_copies off b i 0 ok fs = Some (ok, fs)"
| "write_copies off b i (Suc k) ok fs =
     do { let FatBase = m_FirstFATSectorLBA fs + of_nat i * ucast (SectorsPerFAT32 (m_BPB fs));
          (w, fs) \<leftarrow> part_write (FatBase + off) 1 b fs;
          write_copies off b (i + 1) k (ok \<and> w) fs }"

definition SetNextCluster :: "u32 \<Rightarrow> u32 \<Rightarrow> fat \<Rightarrow> (bool \<times> fat) option" where
  "SetNextCluster Cluster NextClusterValue fs =
     (let EntriesPerSector = ucast (bps fs) div 4 :: u32 in
      if EntriesPerSector = 0 then None
      else
        let FatSector = m_FirstFATSectorLBA fs + ucast (Cluster div EntriesPerSector);
            OffsetInSector = Cluster mod EntriesPerSector
        in do {
          r \<leftarrow> part_read FatSector 1 fs;
          case r of
            None \<Rightarrow> Some (False, fs)
          | Some b \<Rightarrow>
              do { b \<leftarrow> put_bytes (4 * unat OffsetInSector) (bytes32 (NextClusterValue AND 0x0FFFFFFF)) b;
                   write_copies (FatSector - m_FirstFATSectorLBA fs) b 0 (unat (NumFATs (m_BPB fs))) True fs } })"

definition UpdateFSInfoHint :: "u32 \<Rightarrow> fat \<Rightarrow> fat option" where
  "UpdateFSInfoHint NewHint fs =
     (let fs = fs\<lparr> m_NextFreeClusterHint := NewHint \<rparr>; info = fsInfoCluster (m_BPB fs) in
      if info = 0 \<or> info = 0xFFFF then Some fs
      else do {
        r \<leftarrow> part_read (ucast info) 1 fs;
        case r of
          None \<Rightarrow> Some fs
        | Some b \<Rightarrow>
            do { ok \<leftarrow> fsinfo_valid b;
                 if ok then do {
                   b \<leftarrow> put_bytes 492 (bytes32 NewHint) b;
                   (_, fs) \<leftarrow> part_write (ucast info) 1 b fs;
                   Some fs }
                 else Some fs } })"

text \<open>The scan of \<open>k\<close> entries from \<open>c\<close> on for one that is 0.\<close>

fun scan_free :: "u32 \<Rightarrow> nat \<Rightarrow> fat \<Rightarrow> u32 option option" where
  "scan_free c 0 fs = Some None"
| "scan_free c (Suc k) fs = do { v \<leftarrow> GetNextCluster c fs; if v = 0 then Some (Some c) else scan_free (c + 1) k fs }"

definition FindFreeCluster :: "fat \<Rightarrow> (u32 \<times> fat) option" where
  "FindFreeCluster fs =
     (let hint = m_NextFreeClusterHint fs; n = m_TotalClusters fs;
          start = (if hint < 2 \<or> n \<le> hint then 2 else hint)
      in do {
        r \<leftarrow> scan_free start (unat n - unat start) fs;
        r \<leftarrow> (case r of None \<Rightarrow> scan_free 2 (unat start - 2) fs | Some c \<Rightarrow> Some (Some c));
        case r of
          None \<Rightarrow> Some (0, fs)
        | Some c \<Rightarrow>
            do { (ok, fs) \<leftarrow> SetNextCluster c 0x0FFFFFF8 fs;
                 if ok then do { fs \<leftarrow> UpdateFSInfoHint (c + 1) fs; Some (c, fs) }
                 else Some (0, fs) } })"

definition AllocateCluster :: "u32 \<Rightarrow> fat \<Rightarrow> (u32 \<times> fat) option" where
  "AllocateCluster LastCluster fs =
     do { (c, fs) \<leftarrow> FindFreeCluster fs;
          if c = 0 then Some (0, fs)
          else if LastCluster \<noteq> 0 then do {
            (ok, fs) \<leftarrow> SetNextCluster LastCluster c fs;
            Some (if ok then c else 0, fs) }
          else Some (c, fs) }"

text \<open>\<open>k\<close> is what the guard of the loop still allows.\<close>

fun free_loop :: "nat \<Rightarrow> u32 \<Rightarrow> u32 \<Rightarrow> bool \<Rightarrow> fat \<Rightarrow> (bool \<times> u32 \<times> fat) option" where
  "free_loop k cur minFreed allOk fs =
     (if 2 \<le> cur \<and> cur < 0x0FFFFFF8 then
        do { let minFreed = (if cur < minFreed then cur else minFreed);
             n \<leftarrow> GetNextCluster cur fs;
             (ok, fs) \<leftarrow> SetNextCluster cur 0 fs;
             case k of
               0 \<Rightarrow> Some (False, minFreed, fs)
             | Suc k \<Rightarrow> free_loop k n minFreed (allOk \<and> ok) fs }
      else Some (allOk, minFreed, fs))"

declare free_loop.simps [simp del]

definition FreeClusterChain :: "u32 \<Rightarrow> fat \<Rightarrow> (bool \<times> fat) option" where
  "FreeClusterChain start fs =
     (if start < 2 then Some (True, fs)
      else do {
        (allOk, minFreed, fs) \<leftarrow> free_loop (unat (m_TotalClusters fs + 2)) start start True fs;
        fs \<leftarrow> UpdateFSInfoHint minFreed fs;
        Some (allOk, fs) })"

text \<open>The inner \<^const>\<open>None\<close> is \<^verbatim>\<open>FALSE\<close>.\<close>

definition ReadCluster :: "u32 \<Rightarrow> fat \<Rightarrow> u8 list option option" where
  "ReadCluster cluster fs =
     do { r \<leftarrow> part_read (ClusterToLBA cluster fs) (ucast (spc fs)) fs;
          case r of
            None \<Rightarrow> Some None
          | Some b \<Rightarrow> map_option Some (get_bytes b 0 (unat (ucast (bps fs) * ucast (spc fs) :: u32))) }"

definition WriteCluster :: "u32 \<Rightarrow> u8 list \<Rightarrow> fat \<Rightarrow> (bool \<times> fat) option" where
  "WriteCluster cluster buffer fs =
     (let n = ucast (bps fs) * ucast (spc fs) :: u32 in
      if \<not> dma_ok fs ((n + 4096 - 1) div 4096) then Some (False, fs)
      else do {
        b \<leftarrow> get_bytes buffer 0 (unat n);
        part_write (ClusterToLBA cluster fs) (ucast (spc fs)) b fs })"

section \<open>Bytes of a buffer\<close>

lemma unat_ucast_wide: "LENGTH('a) \<le> LENGTH('b) \<Longrightarrow> unat (ucast (x :: 'a::len word) :: 'b::len word) = unat x"
proof -
  assume le: "LENGTH('a) \<le> LENGTH('b)"
  have "unat x < 2 ^ LENGTH('a)" by (rule unsigned_less)
  also have "\<dots> \<le> 2 ^ LENGTH('b)" using le by (simp add: power_increasing)
  finally show ?thesis by (simp add: unsigned_ucast_eq take_bit_nat_eq_self)
qed

lemma unat_ucast_narrow: "unat x < 2 ^ LENGTH('b) \<Longrightarrow> unat (ucast (x :: 'a::len word) :: 'b::len word) = unat x"
  by (simp add: unsigned_ucast_eq take_bit_nat_eq_self)

lemma put_bytes_SomeD: "put_bytes i bs p = Some q \<Longrightarrow> length q = length p"
  by (auto simp: put_bytes_def split: if_splits)

lemma nth_put_bytes:
  assumes "put_bytes i bs p = Some q" and "j < length p"
  shows "q ! j = (if i \<le> j \<and> j < i + length bs then bs ! (j - i) else p ! j)"
  using assms by (auto simp: put_bytes_def nth_append min_def split: if_splits)

lemma get32_put32:
  assumes "put_bytes i (bytes32 v) p = Some q"
  shows "get32 q i = Some v"
  using assms by (auto simp: put_bytes_def intro!: get32_at split: if_splits)

lemma get32_put_other:
  assumes "put_bytes i (bytes32 v) p = Some q" and "j + 4 \<le> i \<or> i + 4 \<le> j"
  shows "get32 q j = get32 p j"
  using assms(2) put_bytes_SomeD [OF assms(1)] nth_put_bytes [OF assms(1)] by (auto simp: get32_def)

section \<open>The regions of a volume\<close>

abbreviation part :: "fat \<Rightarrow> partition" where "part fs \<equiv> the (m_Partition fs)"

abbreviation nclusters :: "fat \<Rightarrow> nat" where "nclusters fs \<equiv> unat (m_TotalClusters fs)"
abbreviation sec_bytes :: "fat \<Rightarrow> nat" where "sec_bytes fs \<equiv> unat (bps fs)"
abbreviation clu_secs :: "fat \<Rightarrow> nat" where "clu_secs fs \<equiv> unat (spc fs)"
abbreviation fat_base :: "fat \<Rightarrow> nat" where "fat_base fs \<equiv> unat (ReservedSectors (m_BPB fs))"
abbreviation fat_secs :: "fat \<Rightarrow> nat" where "fat_secs fs \<equiv> unat (SectorsPerFAT32 (m_BPB fs))"
abbreviation data_base :: "fat \<Rightarrow> nat" where "data_base fs \<equiv> unat (m_FirstDataSectorLBA fs)"

definition clu_bytes :: "fat \<Rightarrow> nat" where
  "clu_bytes fs = sec_bytes fs * clu_secs fs"

text \<open>The clusters a table of this size describes: 2 up to the number of clusters plus one.\<close>

definition valid_cluster :: "fat \<Rightarrow> u32 \<Rightarrow> bool" where
  "valid_cluster fs c \<longleftrightarrow> 2 \<le> c \<and> unat c < nclusters fs + 2"

text \<open>What \<^const>\<open>fat_Mount\<close> finds on a properly formatted partition, and a device and allocators that work.\<close>

definition geometry :: "fat \<Rightarrow> bool" where
  "geometry fs \<longleftrightarrow> m_Partition fs \<noteq> None \<and> wf_partition (part fs) \<and> ssize (part fs) = sec_bytes fs \<and>
     512 \<le> sec_bytes fs \<and> 32 dvd sec_bytes fs \<and> 0 < clu_secs fs \<and> 0 < fat_base fs \<and>
     m_FirstFATSectorLBA fs = ucast (ReservedSectors (m_BPB fs)) \<and> 0 < unat (NumFATs (m_BPB fs)) \<and>
     data_base fs = fat_base fs + unat (NumFATs (m_BPB fs)) * fat_secs fs \<and>
     data_base fs + nclusters fs * clu_secs fs \<le> part_size (part fs) \<and>
     4 * (nclusters fs + 2) \<le> fat_secs fs * sec_bytes fs \<and> nclusters fs + 2 \<le> 0x0FFFFFF7 \<and>
     (fsInfoCluster (m_BPB fs) \<noteq> 0xFFFF \<longrightarrow> unat (fsInfoCluster (m_BPB fs)) < fat_base fs)"

definition wf_fat :: "fat \<Rightarrow> bool" where
  "wf_fat fs \<longleftrightarrow> geometry fs \<and> healthy (part fs) \<and> (\<forall>n. dma_ok fs n)"

definition cluster_sector :: "fat \<Rightarrow> u32 \<Rightarrow> nat" where
  "cluster_sector fs c = data_base fs + (unat c - 2) * clu_secs fs"

definition cluster_region :: "fat \<Rightarrow> u32 \<Rightarrow> nat set" where
  "cluster_region fs c = {cluster_sector fs c ..< cluster_sector fs c + clu_secs fs}"

definition fat_region :: "fat \<Rightarrow> nat set" where
  "fat_region fs = {fat_base fs ..< data_base fs}"

definition fat_entry :: "fat \<Rightarrow> u32 \<Rightarrow> u32" where
  "fat_entry fs c =
     the (get32 (sector (part fs) (fat_base fs + 4 * unat c div sec_bytes fs)) (4 * unat c mod sec_bytes fs)) AND 0x0FFFFFFF"

definition cluster_data :: "fat \<Rightarrow> u32 \<Rightarrow> u8 list" where
  "cluster_data fs c = concat (map (\<lambda>i. sector (part fs) (cluster_sector fs c + i)) [0..<clu_secs fs])"

text \<open>The sector \<open>k\<close> of the \<open>i\<close>-th copy of the table; the copies agree when each equals the first.\<close>

definition fat_copy :: "fat \<Rightarrow> nat \<Rightarrow> nat \<Rightarrow> nat" where
  "fat_copy fs i k = fat_base fs + i * fat_secs fs + k"

definition copies_agree :: "fat \<Rightarrow> bool" where
  "copies_agree fs \<longleftrightarrow> (\<forall>i < unat (NumFATs (m_BPB fs)). \<forall>k < fat_secs fs.
     sector (part fs) (fat_copy fs i k) = sector (part fs) (fat_copy fs 0 k))"

text \<open>Two states of a volume that differ in the sectors of \<open>S\<close> and the hint only.\<close>

definition changes :: "nat set \<Rightarrow> fat \<Rightarrow> fat \<Rightarrow> bool" where
  "changes S fs fs' \<longleftrightarrow> fs' = fs\<lparr> m_Partition := m_Partition fs', m_NextFreeClusterHint := m_NextFreeClusterHint fs' \<rparr> \<and>
     m_Partition fs' \<noteq> None \<and> same_disk (part fs) (part fs') \<and> wf_partition (part fs') \<and>
     (\<forall>i < part_size (part fs). i \<notin> S \<longrightarrow> sector (part fs') i = sector (part fs) i)"

lemma changes_refl: "geometry fs \<Longrightarrow> changes S fs fs"
  by (simp add: changes_def geometry_def)

lemma changes_mono: "changes S fs fs' \<Longrightarrow> S \<subseteq> T \<Longrightarrow> changes T fs fs'"
  by (auto simp: changes_def)

lemma changes_frame:
  assumes "changes S fs fs'"
  shows "m_BPB fs' = m_BPB fs" "m_FirstDataSectorLBA fs' = m_FirstDataSectorLBA fs" "m_FirstFATSectorLBA fs' = m_FirstFATSectorLBA fs"
    "m_TotalClusters fs' = m_TotalClusters fs" "vnodes fs' = vnodes fs" "new_at fs' = new_at fs" "dma_ok fs' = dma_ok fs"
    "kmalloc_ok fs' = kmalloc_ok fs" "rtc fs' = rtc fs" "lfn_garbage fs' = lfn_garbage fs"
proof -
  have e: "fs' = fs\<lparr> m_Partition := m_Partition fs', m_NextFreeClusterHint := m_NextFreeClusterHint fs' \<rparr>"
    using assms by (simp add: changes_def)
  show "m_BPB fs' = m_BPB fs" "m_FirstDataSectorLBA fs' = m_FirstDataSectorLBA fs" "m_FirstFATSectorLBA fs' = m_FirstFATSectorLBA fs"
    "m_TotalClusters fs' = m_TotalClusters fs" "vnodes fs' = vnodes fs" "new_at fs' = new_at fs" "dma_ok fs' = dma_ok fs"
    "kmalloc_ok fs' = kmalloc_ok fs" "rtc fs' = rtc fs" "lfn_garbage fs' = lfn_garbage fs"
    by (subst e, simp)+
qed

lemma changes_trans:
  assumes "changes S fs fs'" and "changes T fs' fs''"
  shows "changes (S \<union> T) fs fs''"
proof -
  have e: "fs'' = fs'\<lparr> m_Partition := m_Partition fs'', m_NextFreeClusterHint := m_NextFreeClusterHint fs'' \<rparr>"
    and e': "fs' = fs\<lparr> m_Partition := m_Partition fs', m_NextFreeClusterHint := m_NextFreeClusterHint fs' \<rparr>"
    using assms by (auto simp: changes_def)
  have "fs'' = fs\<lparr> m_Partition := m_Partition fs'', m_NextFreeClusterHint := m_NextFreeClusterHint fs'' \<rparr>"
    by (subst e, subst e') simp
  then show ?thesis using assms same_diskD(1) [of "part fs" "part fs'"] unfolding changes_def
    by (auto intro: same_disk_trans)
qed

lemma changes_geometry:
  assumes "changes S fs fs'" and "geometry fs"
  shows "geometry fs'"
  using assms changes_frame [OF assms(1)] same_diskD [of "part fs" "part fs'"]
  by (auto simp: changes_def geometry_def)

lemma changes_wf:
  assumes "changes S fs fs'" and "wf_fat fs"
  shows "wf_fat fs'"
  using assms changes_frame [OF assms(1)] same_diskD [of "part fs" "part fs'"] changes_geometry [OF assms(1)]
  by (auto simp: changes_def wf_fat_def)

lemma changes_derived:
  assumes "changes S fs fs'"
  shows "cluster_sector fs' = cluster_sector fs" "cluster_region fs' = cluster_region fs" "fat_region fs' = fat_region fs"
    "valid_cluster fs' = valid_cluster fs" "clu_bytes fs' = clu_bytes fs" "fat_copy fs' = fat_copy fs"
    "part_size (part fs') = part_size (part fs)" "ClusterToLBA c fs' = ClusterToLBA c fs"
  using changes_frame [OF assms] assms same_diskD(1) [of "part fs" "part fs'"]
  by (auto simp: fun_eq_iff cluster_sector_def cluster_region_def fat_region_def valid_cluster_def clu_bytes_def fat_copy_def
      ClusterToLBA_def changes_def)

lemma geometryD:
  assumes "geometry fs"
  shows "m_Partition fs = Some (part fs)" "wf_partition (part fs)" "ssize (part fs) = sec_bytes fs" "512 \<le> sec_bytes fs"
    "32 dvd sec_bytes fs" "0 < clu_secs fs" "m_FirstFATSectorLBA fs = ucast (ReservedSectors (m_BPB fs))"
    "data_base fs = fat_base fs + unat (NumFATs (m_BPB fs)) * fat_secs fs" "0 < unat (NumFATs (m_BPB fs))"
    "data_base fs + nclusters fs * clu_secs fs \<le> part_size (part fs)"
    "4 * (nclusters fs + 2) \<le> fat_secs fs * sec_bytes fs" "nclusters fs + 2 \<le> 0x0FFFFFF7" "0 < fat_base fs"
    "fsInfoCluster (m_BPB fs) \<noteq> 0xFFFF \<Longrightarrow> unat (fsInfoCluster (m_BPB fs)) < fat_base fs"
  using assms by (auto simp: geometry_def)

lemma part_size_less: "part_size p < 2 ^ 64"
  using unsigned_less [of "m_SectorCount p", where ?'a = nat] by simp

lemma data_base_le: "geometry fs \<Longrightarrow> data_base fs \<le> part_size (part fs)"
  using geometryD(10) by fastforce

text \<open>The entry of cluster \<open>c\<close> lies in sector \<open>4 * c div n\<close> of the table, inside the table.\<close>

lemma entry_place:
  assumes "geometry fs" and "unat c < nclusters fs + 2"
  shows "4 * unat c div sec_bytes fs < fat_secs fs" "4 * unat c mod sec_bytes fs + 4 \<le> sec_bytes fs"
    "4 * unat c mod sec_bytes fs = 4 * (unat c mod (sec_bytes fs div 4))" "4 * unat c div sec_bytes fs = unat c div (sec_bytes fs div 4)"
proof -
  note G = geometryD [OF assms(1)]
  have pos: "0 < sec_bytes fs" using G(4) by simp
  have "4 * unat c < fat_secs fs * sec_bytes fs" using assms(2) G(11) by simp
  then show "4 * unat c div sec_bytes fs < fat_secs fs" using pos by (simp add: div_less_iff_less_mult)
  obtain e where e: "sec_bytes fs = 4 * e"
  proof -
    have "4 dvd sec_bytes fs" using dvd_trans [of 4 32 "sec_bytes fs"] G(5) by simp
    then show ?thesis using that by (auto elim: dvdE)
  qed
  have "0 < e" using pos e by simp
  then have "unat c mod e + 1 \<le> e" by (simp add: Suc_leI)
  then show "4 * unat c mod sec_bytes fs + 4 \<le> sec_bytes fs" unfolding e mult_mod_right [symmetric] by simp
  show "4 * unat c mod sec_bytes fs = 4 * (unat c mod (sec_bytes fs div 4))" unfolding e by (simp add: mod_mult_mult1)
  show "4 * unat c div sec_bytes fs = unat c div (sec_bytes fs div 4)" unfolding e by simp
qed

lemma fat_copy_bound:
  assumes "geometry fs" and "i < unat (NumFATs (m_BPB fs))" and "k < fat_secs fs"
  shows "fat_copy fs i k < data_base fs" "fat_base fs \<le> fat_copy fs i k"
proof -
  have "(i + 1) * fat_secs fs \<le> unat (NumFATs (m_BPB fs)) * fat_secs fs" using assms(2) by (intro mult_le_mono1) simp
  then show "fat_copy fs i k < data_base fs" using assms(3) geometryD(8) [OF assms(1)] by (simp add: fat_copy_def)
  show "fat_base fs \<le> fat_copy fs i k" by (simp add: fat_copy_def)
qed

lemma read_sector_ok:
  assumes "wf_fat fs" and "unat LBA < part_size (part fs)"
  shows "part_read LBA 1 fs = Some (Some (sector (part fs) (unat LBA)))"
proof -
  have g: "geometry fs" "healthy (part fs)" using assms(1) by (auto simp: wf_fat_def)
  show ?thesis using ReadSectors_one [OF geometryD(2) [OF g(1)] g(2) assms(2)] geometryD(1) [OF g(1)]
    by (metis part_read_def option.simps(9))
qed

lemma sector_length:
  assumes "geometry fs" and "i < part_size (part fs)"
  shows "length (sector (part fs) i) = sec_bytes fs"
  using geometryD(2,3) [OF assms(1)] assms(2) by (auto simp: wf_partition_def)

lemma write_sector_ok:
  assumes "wf_fat fs" and "unat LBA < part_size (part fs)" and "length b = sec_bytes fs"
  shows "\<exists>fs'. part_write LBA 1 b fs = Some (True, fs') \<and> changes {unat LBA} fs fs' \<and> sector (part fs') (unat LBA) = b \<and>
    m_NextFreeClusterHint fs' = m_NextFreeClusterHint fs"
proof -
  have g: "geometry fs" "healthy (part fs)" using assms(1) by (auto simp: wf_fat_def)
  note G = geometryD [OF g(1)]
  obtain q where q: "WriteSectors LBA 1 b (part fs) = Some (True, q)" "wf_partition q" "same_disk (part fs) q"
    "\<forall>i < part_size (part fs). sector q i = (if i = unat LBA then b else sector (part fs) i)"
    using WriteSectors_one [OF G(2) g(2) assms(2)] assms(3) G(3) by metis
  have "part_write LBA 1 b fs = Some (True, fs\<lparr> m_Partition := Some q \<rparr>)"
    unfolding part_write_def by (subst G(1)) (simp add: q(1))
  then show ?thesis using q(2-4) assms(2) by (simp add: changes_def)
qed

text \<open>The same for the sectors of a cluster.\<close>

lemma cluster_place:
  assumes "geometry fs" and "valid_cluster fs c"
  shows "unat (ClusterToLBA c fs) = cluster_sector fs c" "cluster_sector fs c + clu_secs fs \<le> part_size (part fs)"
    "data_base fs \<le> cluster_sector fs c"
proof -
  note G = geometryD [OF assms(1)]
  have c: "2 \<le> c" "unat c < nclusters fs + 2" using assms(2) by (auto simp: valid_cluster_def)
  then have c2: "2 \<le> unat c" by (simp add: word_le_nat_alt)
  then have "(unat c - 2 + 1) * clu_secs fs \<le> nclusters fs * clu_secs fs" using c(2) by (intro mult_le_mono1) simp
  then show b: "cluster_sector fs c + clu_secs fs \<le> part_size (part fs)" using G(10) by (simp add: cluster_sector_def)
  have "unat (c - 2) = unat c - 2" using c(1) by (simp add: unat_sub)
  moreover have lt: "data_base fs + (unat c - 2) * clu_secs fs < 2 ^ 64"
    using b part_size_less [of "part fs"] by (simp add: cluster_sector_def)
  ultimately have "unat (ucast (c - 2) * ucast (spc fs) :: u64) = (unat c - 2) * clu_secs fs"
    by (subst unat_mult_no_wrap) (simp_all add: unat_ucast_wide)
  then have "unat (m_FirstDataSectorLBA fs + ucast (c - 2) * ucast (spc fs)) = cluster_sector fs c"
    using lt by (subst unat_add_no_wrap) (simp_all add: cluster_sector_def)
  then show "unat (ClusterToLBA c fs) = cluster_sector fs c" using c(1) by (auto simp: ClusterToLBA_def)
  show "data_base fs \<le> cluster_sector fs c" by (simp add: cluster_sector_def)
qed

lemma cluster_regions_disjoint:
  assumes "c \<noteq> d" and "2 \<le> c" and "2 \<le> d"
  shows "cluster_region fs c \<inter> cluster_region fs d = {}"
proof -
  have "2 \<le> unat c" "2 \<le> unat d" "unat c \<noteq> unat d" using assms by (simp_all add: word_le_nat_alt word_unat_eq_iff)
  then consider "unat c - 2 + 1 \<le> unat d - 2" | "unat d - 2 + 1 \<le> unat c - 2" by linarith
  then show ?thesis
  proof cases
    case 1
    from mult_le_mono1 [OF this, of "clu_secs fs"] show ?thesis by (auto simp: cluster_region_def cluster_sector_def)
  next
    case 2
    from mult_le_mono1 [OF this, of "clu_secs fs"] show ?thesis by (auto simp: cluster_region_def cluster_sector_def)
  qed
qed

lemma cluster_region_data: "geometry fs \<Longrightarrow> valid_cluster fs c \<Longrightarrow> cluster_region fs c \<subseteq> {data_base fs ..< part_size (part fs)}"
  using cluster_place(2,3) by (fastforce simp: cluster_region_def)

text \<open>What a change elsewhere keeps.\<close>

lemma changes_cluster_data:
  assumes "changes S fs fs'" and "geometry fs" and "valid_cluster fs c" and "S \<inter> cluster_region fs c = {}"
  shows "cluster_data fs' c = cluster_data fs c"
proof -
  have "sector (part fs') (cluster_sector fs c + i) = sector (part fs) (cluster_sector fs c + i)" if "i < clu_secs fs" for i
  proof -
    have "cluster_sector fs c + i \<in> cluster_region fs c" using that by (simp add: cluster_region_def)
    then have "cluster_sector fs c + i \<notin> S" using assms(4) by blast
    moreover have "cluster_sector fs c + i < part_size (part fs)" using cluster_place(2) [OF assms(2,3)] that by simp
    ultimately show ?thesis using assms(1) by (simp add: changes_def)
  qed
  then show ?thesis using changes_derived(1) [OF assms(1)] changes_frame(1) [OF assms(1)]
    by (auto simp: cluster_data_def intro!: arg_cong [where f = concat])
qed

lemma changes_fat_entry:
  assumes "changes S fs fs'" and "geometry fs" and "unat c < nclusters fs + 2" and "S \<inter> fat_region fs = {}"
  shows "fat_entry fs' c = fat_entry fs c"
proof -
  let ?k = "4 * unat c div sec_bytes fs"
  have k: "fat_copy fs 0 ?k \<in> fat_region fs" using fat_copy_bound [OF assms(2) geometryD(9) [OF assms(2)] entry_place(1) [OF assms(2,3)]]
    by (simp add: fat_region_def)
  then have "fat_copy fs 0 ?k < part_size (part fs)" using data_base_le [OF assms(2)] by (simp add: fat_region_def)
  moreover have "fat_copy fs 0 ?k \<notin> S" using k assms(4) by blast
  ultimately have "sector (part fs') (fat_copy fs 0 ?k) = sector (part fs) (fat_copy fs 0 ?k)" using assms(1) by (simp add: changes_def)
  then show ?thesis using changes_frame(1) [OF assms(1)] by (simp add: fat_entry_def fat_copy_def)
qed

section \<open>The table\<close>

lemma quads_apart: "x \<noteq> y \<Longrightarrow> 4 * x + 4 \<le> 4 * y \<or> 4 * y + 4 \<le> 4 * x" for x y :: nat
  by linarith

lemma GetNextCluster_spec:
  assumes "wf_fat fs" and "unat c < nclusters fs + 2"
  shows "GetNextCluster c fs = Some (fat_entry fs c)"
proof -
  have g: "geometry fs" using assms(1) by (simp add: wf_fat_def)
  note G = geometryD [OF g] and E = entry_place [OF g assms(2)]
  let ?o = "ucast c * 4 :: u64"
  have c: "unat c < 2 ^ 32" using unsigned_less [of c, where ?'a = nat] by simp
  have b: "sec_bytes fs < 2 ^ 16" using unsigned_less [of "bps fs", where ?'a = nat] by simp
  have o: "unat ?o = 4 * unat c" using c by (subst unat_mult_no_wrap) (simp_all add: unat_ucast_wide)
  have m: "unat (ucast (?o mod ucast (bps fs)) :: u32) = 4 * unat c mod sec_bytes fs"
  proof -
    have "unat (?o mod ucast (bps fs)) = 4 * unat c mod sec_bytes fs" by (simp add: unat_mod o unat_ucast_wide)
    moreover have "4 * unat c mod sec_bytes fs < 2 ^ 32" using E(2) b by simp
    ultimately show ?thesis by (simp add: unsigned_ucast_eq take_bit_nat_eq_self)
  qed
  let ?k = "4 * unat c div sec_bytes fs"
  have s: "unat (m_FirstFATSectorLBA fs + ?o div ucast (bps fs)) = fat_base fs + ?k"
  proof -
    have d: "unat (?o div ucast (bps fs)) = ?k" by (simp add: unat_div o unat_ucast_wide)
    have "?k < 2 ^ 34" using c le_less_trans [OF div_le_dividend [of "4 * unat c" "sec_bytes fs"], of "2 ^ 34"] by simp
    moreover have "fat_base fs < 2 ^ 16" using unsigned_less [of "ReservedSectors (m_BPB fs)", where ?'a = nat] by simp
    ultimately show ?thesis using G(7) by (subst unat_add_no_wrap) (simp_all add: d unat_ucast_wide)
  qed
  have k: "fat_base fs + ?k < part_size (part fs)"
    using fat_copy_bound(1) [OF g G(9) E(1)] data_base_le [OF g] by (simp add: fat_copy_def)
  have "part_read (m_FirstFATSectorLBA fs + ?o div ucast (bps fs)) 1 fs = Some (Some (sector (part fs) (fat_base fs + ?k)))"
    using read_sector_ok [OF assms(1), of "m_FirstFATSectorLBA fs + ?o div ucast (bps fs)"] s k by simp
  moreover have "get32 (sector (part fs) (fat_base fs + ?k)) (4 * unat c mod sec_bytes fs) \<noteq> None"
    using E(2) sector_length [OF g k] by (simp add: get32_def)
  moreover have "bps fs \<noteq> 0" using G(4) by auto
  ultimately show ?thesis by (auto simp: GetNextCluster_def m fat_entry_def)
qed

lemma write_copies_spec:
  assumes "wf_fat fs" and "i + k \<le> unat (NumFATs (m_BPB fs))" and "unat off < fat_secs fs" and "length b = sec_bytes fs"
  shows "\<exists>fs'. write_copies off b i k True fs = Some (True, fs') \<and> changes {fat_copy fs j (unat off) | j. i \<le> j \<and> j < i + k} fs fs' \<and>
    (\<forall>j. i \<le> j \<and> j < i + k \<longrightarrow> sector (part fs') (fat_copy fs j (unat off)) = b) \<and> m_NextFreeClusterHint fs' = m_NextFreeClusterHint fs"
  using assms
proof (induction k arbitrary: i fs)
  case 0
  then show ?case by (auto simp: wf_fat_def intro: changes_refl)
next
  case (Suc k)
  have g: "geometry fs" using Suc.prems(1) by (simp add: wf_fat_def)
  note G = geometryD [OF g]
  let ?S = "\<lambda>i k. {fat_copy fs j (unat off) | j. i \<le> j \<and> j < i + k}"
  have i: "i < unat (NumFATs (m_BPB fs))" using Suc.prems(2) by simp
  let ?a = "m_FirstFATSectorLBA fs + of_nat i * ucast (SectorsPerFAT32 (m_BPB fs)) + off"
  have lt: "fat_copy fs i (unat off) < part_size (part fs)"
    using fat_copy_bound(1) [OF g i Suc.prems(3)] data_base_le [OF g] by simp
  have le: "fat_base fs + i * fat_secs fs + unat off < 2 ^ 64" using lt part_size_less [of "part fs"] by (simp add: fat_copy_def)
  have "i < 2 ^ 64" using i unsigned_less [of "NumFATs (m_BPB fs)", where ?'a = nat] by simp
  then have "unat (of_nat i * ucast (SectorsPerFAT32 (m_BPB fs)) :: u64) = i * fat_secs fs"
    using le by (subst unat_mult_no_wrap) (simp_all add: unat_ucast_wide unat_of_nat_u64)
  then have "unat (m_FirstFATSectorLBA fs + of_nat i * ucast (SectorsPerFAT32 (m_BPB fs))) = fat_base fs + i * fat_secs fs"
    using le by (subst unat_add_no_wrap) (simp_all add: G(7) unat_ucast_wide)
  then have a: "unat ?a = fat_copy fs i (unat off)" using le by (subst unat_add_no_wrap) (simp_all add: fat_copy_def)
  obtain f1 where f1: "part_write ?a 1 b fs = Some (True, f1)" "changes {unat ?a} fs f1" "sector (part f1) (unat ?a) = b"
    "m_NextFreeClusterHint f1 = m_NextFreeClusterHint fs"
    using write_sector_ok [OF Suc.prems(1) _ Suc.prems(4), of ?a] lt a by auto
  note F = changes_frame [OF f1(2)] changes_derived [OF f1(2)]
  obtain f2 where f2: "write_copies off b (i + 1) k True f1 = Some (True, f2)" "changes (?S (i + 1) k) f1 f2"
    "\<forall>j. i + 1 \<le> j \<and> j < i + 1 + k \<longrightarrow> sector (part f2) (fat_copy fs j (unat off)) = b" "m_NextFreeClusterHint f2 = m_NextFreeClusterHint f1"
    using Suc.IH [OF changes_wf [OF f1(2) Suc.prems(1)], of "i + 1"] Suc.prems(2-4) F by auto
  have "write_copies off b i (Suc k) True fs = Some (True, f2)" using f1(1) f2(1) by (simp add: add.assoc)
  moreover have "changes (?S i (Suc k)) fs f2"
    by (rule changes_mono [OF changes_trans [OF f1(2) f2(2)]]) (auto simp: a intro: Suc_leD)
  moreover have "sector (part f2) (fat_copy fs j (unat off)) = b" if "i \<le> j \<and> j < i + Suc k" for j
  proof (cases "j = i")
    case True
    have "0 < fat_secs fs" using Suc.prems(3) by simp
    then have "fat_copy fs i (unat off) \<notin> ?S (i + 1) k" by (auto simp: fat_copy_def)
    then have "sector (part f2) (fat_copy fs i (unat off)) = sector (part f1) (fat_copy fs i (unat off))"
      using f2(2) lt F by (simp add: changes_def)
    then show ?thesis using True f1(3) a by simp
  next
    case False
    then show ?thesis using f2(3) that by auto
  qed
  ultimately show ?case using f1(4) f2(4) by simp
qed

text \<open>
  Storing an entry changes that entry, in every copy of the table, and nothing else: the sectors it
  writes are one sector of each copy.
\<close>

lemma SetNextCluster_spec:
  assumes "wf_fat fs" and "unat c < nclusters fs + 2"
  obtains fs' where "SetNextCluster c v fs = Some (True, fs')" "changes (fat_region fs) fs fs'"
    "m_NextFreeClusterHint fs' = m_NextFreeClusterHint fs"
    "\<forall>d. unat d < nclusters fs + 2 \<longrightarrow> fat_entry fs' d = (if d = c then v AND 0x0FFFFFFF else fat_entry fs d)"
    "copies_agree fs \<longrightarrow> copies_agree fs'"
proof -
  have g: "geometry fs" using assms(1) by (simp add: wf_fat_def)
  note G = geometryD [OF g] and E = entry_place [OF g assms(2)]
  let ?n = "unat (NumFATs (m_BPB fs))"
  let ?e = "ucast (bps fs) div 4 :: u32"
  let ?k = "4 * unat c div sec_bytes fs"
  let ?o = "ucast (c div ?e) :: u64"
  have e: "unat ?e = sec_bytes fs div 4" by (simp add: unat_div unat_ucast_wide)
  have e0: "?e \<noteq> 0"
  proof
    assume "?e = 0"
    then have "unat ?e = 0" by (simp only: unat_0)
    with e G(4) show False by simp
  qed
  have o: "unat ?o = ?k" by (simp add: unat_div unat_ucast_wide e E(4))
  have m: "4 * unat (c mod ?e) = 4 * unat c mod sec_bytes fs" by (simp add: unat_mod e E(3))
  have k: "fat_copy fs 0 ?k < part_size (part fs)"
    using fat_copy_bound(1) [OF g G(9) E(1)] data_base_le [OF g] by simp
  have s: "unat (m_FirstFATSectorLBA fs + ?o) = fat_copy fs 0 ?k"
    using k part_size_less [of "part fs"] by (subst unat_add_no_wrap) (simp_all add: o G(7) unat_ucast_wide fat_copy_def)
  let ?b = "sector (part fs) (fat_copy fs 0 ?k)"
  have lb: "length ?b = sec_bytes fs" using sector_length [OF g k] .
  obtain b where b: "put_bytes (4 * unat (c mod ?e)) (bytes32 (v AND 0x0FFFFFFF)) ?b = Some b"
    using E(2) m lb by (simp add: put_bytes_def)
  have b': "put_bytes (4 * unat c mod sec_bytes fs) (bytes32 (v AND 0x0FFFFFFF)) ?b = Some b" using b m by simp
  obtain fs' where w: "write_copies ?o b 0 ?n True fs = Some (True, fs')" "changes {fat_copy fs j ?k | j. 0 \<le> j \<and> j < 0 + ?n} fs fs'"
    "\<forall>j. 0 \<le> j \<and> j < 0 + ?n \<longrightarrow> sector (part fs') (fat_copy fs j ?k) = b" "m_NextFreeClusterHint fs' = m_NextFreeClusterHint fs"
    using write_copies_spec [OF assms(1), of 0 ?n ?o b] E(1) o put_bytes_SomeD [OF b] lb by auto
  have r: "SetNextCluster c v fs = Some (True, fs')"
    using read_sector_ok [OF assms(1), of "m_FirstFATSectorLBA fs + ?o"] s k b w(1) e0 by (simp add: SetNextCluster_def Let_def)
  have ch: "changes (fat_region fs) fs fs'"
    by (rule changes_mono [OF w(2)]) (auto simp: fat_region_def intro: fat_copy_bound [OF g _ E(1)])
  have other: "sector (part fs') (fat_copy fs i k') = sector (part fs) (fat_copy fs i k')"
    if "k' \<noteq> ?k" "k' < fat_secs fs" "i < ?n" for i k'
  proof -
    have "fat_copy fs i k' \<noteq> fat_copy fs j ?k" for j
    proof
      assume "fat_copy fs i k' = fat_copy fs j ?k"
      then have eq: "i * fat_secs fs + k' = j * fat_secs fs + ?k" by (simp add: fat_copy_def)
      have "(i * fat_secs fs + k') mod fat_secs fs = k'" "(j * fat_secs fs + ?k) mod fat_secs fs = ?k" using that(2) E(1) by simp_all
      then show False using eq that(1) by simp
    qed
    moreover have "fat_copy fs i k' < part_size (part fs)" using fat_copy_bound(1) [OF g that(3,2)] data_base_le [OF g] by simp
    ultimately show ?thesis using w(2) by (auto simp: changes_def)
  qed
  have ent: "fat_entry fs' d = (if d = c then v AND 0x0FFFFFFF else fat_entry fs d)" if d: "unat d < nclusters fs + 2" for d
  proof -
    note D = entry_place [OF g d]
    let ?l = "4 * unat d div sec_bytes fs"
    have en: "fat_entry fs' d = the (get32 (sector (part fs') (fat_copy fs 0 ?l)) (4 * unat d mod sec_bytes fs)) AND 0x0FFFFFFF"
      using changes_frame(1) [OF w(2)] by (simp add: fat_entry_def fat_copy_def)
    show ?thesis
    proof (cases "?l = ?k")
      case False
      then have "sector (part fs') (fat_copy fs 0 ?l) = sector (part fs) (fat_copy fs 0 ?l)" using other D(1) G(9) by blast
      moreover have "d \<noteq> c" using False by auto
      ultimately show ?thesis by (simp add: en) (simp add: fat_entry_def fat_copy_def)
    next
      case True
      then have sb: "sector (part fs') (fat_copy fs 0 ?l) = b" using w(3) G(9) by simp
      show ?thesis
      proof (cases "d = c")
        case True
        then show ?thesis using get32_put32 [OF b'] unfolding en sb by simp
      next
        case False
        then have "unat d \<noteq> unat c" by (simp add: word_unat_eq_iff)
        then have ne: "4 * unat d mod sec_bytes fs \<noteq> 4 * unat c mod sec_bytes fs" using True by (metis div_mult_mod_eq mult_left_cancel zero_neq_numeral)
        let ?x = "unat d mod (sec_bytes fs div 4)" and ?y = "unat c mod (sec_bytes fs div 4)"
        have "4 * ?x + 4 \<le> 4 * ?y \<or> 4 * ?y + 4 \<le> 4 * ?x" using ne unfolding D(3) E(3) by (intro quads_apart) simp
        then have "get32 b (4 * unat d mod sec_bytes fs) = get32 (sector (part fs) (fat_copy fs 0 ?k)) (4 * unat d mod sec_bytes fs)"
          using get32_put_other [OF b'] unfolding D(3) E(3) by blast
        then show ?thesis using False sb True by (simp add: en) (simp add: fat_entry_def fat_copy_def)
      qed
    qed
  qed
  have agr: "copies_agree fs'" if a: "copies_agree fs"
  proof -
    have "sector (part fs') (fat_copy fs i k') = sector (part fs') (fat_copy fs 0 k')" if "i < ?n" "k' < fat_secs fs" for i k'
    proof (cases "k' = ?k")
      case True
      then show ?thesis using w(3) that(1) G(9) by simp
    next
      case False
      have "sector (part fs) (fat_copy fs i k') = sector (part fs) (fat_copy fs 0 k')" using a that unfolding copies_agree_def by blast
      then show ?thesis using other [OF False that(2,1)] other [OF False that(2) G(9)] by (simp only:)
    qed
    then show ?thesis unfolding copies_agree_def changes_frame(1) [OF w(2)] changes_derived(6) [OF w(2)] by blast
  qed
  show ?thesis using that [OF r ch w(4)] ent agr by blast
qed

section \<open>The free cluster hint\<close>

text \<open>The hint is kept in memory and, when the volume has a valid information sector, written there.\<close>

lemma UpdateFSInfoHint_spec:
  assumes "wf_fat fs"
  obtains fs' where "UpdateFSInfoHint h fs = Some fs'" "changes {0 ..< fat_base fs} fs fs'" "m_NextFreeClusterHint fs' = h"
proof -
  have g: "geometry fs" using assms by (simp add: wf_fat_def)
  let ?i = "fsInfoCluster (m_BPB fs)" and ?f = "fs\<lparr> m_NextFreeClusterHint := h \<rparr>"
  have wf: "wf_fat ?f" and ch: "changes {0 ..< fat_base fs} fs ?f"
    using assms by (auto simp: wf_fat_def geometry_def changes_def)
  show ?thesis
  proof (cases "?i = 0 \<or> ?i = 0xFFFF")
    case True
    then have "UpdateFSInfoHint h fs = Some ?f" by (simp add: UpdateFSInfoHint_def)
    then show ?thesis using that ch by simp
  next
    case False
    let ?a = "ucast ?i :: u64" and ?b = "sector (part fs) (unat ?i)"
    have a: "unat ?a = unat ?i" by (simp add: unat_ucast_wide)
    have lt: "unat ?i < fat_base fs" using False geometryD(14) [OF g] by simp
    have ps: "unat ?i < part_size (part fs)" using lt geometryD(8) [OF g] data_base_le [OF g] by simp
    have r: "part_read ?a 1 ?f = Some (Some ?b)" using read_sector_ok [OF wf, of ?a] ps a by simp
    have l: "512 \<le> length ?b" "length ?b = sec_bytes fs" using sector_length [OF g ps] geometryD(4) [OF g] by simp_all
    obtain ok where ok: "fsinfo_valid ?b = Some ok" using l(1) by (simp add: fsinfo_valid_def get32_def get16_def)
    obtain b where b: "put_bytes 492 (bytes32 h) ?b = Some b" using l(1) by (simp add: put_bytes_def)
    obtain f2 where f2: "part_write ?a 1 b ?f = Some (True, f2)" "changes {unat ?a} ?f f2" "m_NextFreeClusterHint f2 = m_NextFreeClusterHint ?f"
      using write_sector_ok [OF wf, of ?a b] put_bytes_SomeD [OF b] l(2) a ps by auto
    have "UpdateFSInfoHint h fs = Some (if ok then f2 else ?f)"
      using False r ok b f2(1) by (simp add: UpdateFSInfoHint_def Let_def)
    moreover have "changes {0 ..< fat_base fs} fs f2"
      by (rule changes_mono [OF changes_trans [OF ch f2(2)]]) (use lt a in auto)
    ultimately show ?thesis using that ch f2(3) by (cases ok) simp_all
  qed
qed

section \<open>Whole clusters\<close>

lemma concat_blocks: "n * s \<le> length d \<Longrightarrow> concat (map (\<lambda>i. take s (drop (i * s) d)) [0..<n]) = take (n * s) d"
proof (induction n)
  case (Suc n)
  then have "concat (map (\<lambda>i. take s (drop (i * s) d)) [0..<n]) = take (n * s) d" by simp
  then show ?case using take_add [of "n * s" s d] by (simp add: add.commute)
qed simp

lemma clu_bytes_word: "unat (ucast (bps fs) * ucast (spc fs) :: u32) = clu_bytes fs"
proof -
  have "sec_bytes fs < 2 ^ 16" "clu_secs fs < 2 ^ 8"
    using unsigned_less [of "bps fs", where ?'a = nat] unsigned_less [of "spc fs", where ?'a = nat] by simp_all
  then have "sec_bytes fs * clu_secs fs < 2 ^ 16 * 2 ^ 8" by (intro mult_strict_mono) simp_all
  then show ?thesis by (simp add: unat_word_ariths unat_ucast_wide clu_bytes_def)
qed

lemma clu_bytes_bounds:
  assumes "geometry fs"
  shows "512 \<le> clu_bytes fs" "clu_bytes fs < 2 ^ 24"
proof -
  have "512 * 1 \<le> sec_bytes fs * clu_secs fs" using geometryD(4,6) [OF assms] by (intro mult_le_mono) simp_all
  then show "512 \<le> clu_bytes fs" by (simp add: clu_bytes_def)
  have "sec_bytes fs < 2 ^ 16" "clu_secs fs < 2 ^ 8"
    using unsigned_less [of "bps fs", where ?'a = nat] unsigned_less [of "spc fs", where ?'a = nat] by simp_all
  then have "sec_bytes fs * clu_secs fs < 2 ^ 16 * 2 ^ 8" by (intro mult_strict_mono) simp_all
  then show "clu_bytes fs < 2 ^ 24" by (simp add: clu_bytes_def)
qed

lemma length_cluster_data:
  assumes "geometry fs" and "valid_cluster fs c"
  shows "length (cluster_data fs c) = clu_bytes fs"
proof -
  have "length (sector (part fs) (cluster_sector fs c + i)) = sec_bytes fs" if "i < clu_secs fs" for i
    using sector_length [OF assms(1)] cluster_place(2) [OF assms] that by simp
  then have "map (length \<circ> (\<lambda>i. sector (part fs) (cluster_sector fs c + i))) [0..<clu_secs fs] = map (\<lambda>i. sec_bytes fs) [0..<clu_secs fs]"
    by simp
  then show ?thesis by (simp add: cluster_data_def length_concat clu_bytes_def map_replicate_const sum_list_replicate)
qed

lemma cluster_in_part:
  assumes "geometry fs" and "valid_cluster fs c"
  shows "in_part (part fs) (ClusterToLBA c fs) (ucast (spc fs))"
  using cluster_place [OF assms] by (simp add: in_part_def unat_ucast_wide)

lemma part_read_cluster:
  assumes "wf_fat fs" and "valid_cluster fs c"
  shows "part_read (ClusterToLBA c fs) (ucast (spc fs)) fs = Some (Some (cluster_data fs c))"
proof -
  have g: "geometry fs" "healthy (part fs)" using assms(1) by (auto simp: wf_fat_def)
  have "ReadSectors (ClusterToLBA c fs) (ucast (spc fs)) (part fs) = Some (cluster_data fs c)"
    using ReadSectors_spec [OF geometryD(2) [OF g(1)] g(2) cluster_in_part [OF g(1) assms(2)]] cluster_place(1) [OF g(1) assms(2)]
    by (simp add: cluster_data_def unat_ucast_wide)
  then show ?thesis using geometryD(1) [OF g(1)] by (metis part_read_def option.simps(9))
qed

lemma ReadCluster_spec:
  assumes "wf_fat fs" and "valid_cluster fs c"
  shows "ReadCluster c fs = Some (Some (cluster_data fs c))"
proof -
  have g: "geometry fs" using assms(1) by (simp add: wf_fat_def)
  show ?thesis using part_read_cluster [OF assms] length_cluster_data [OF g assms(2)] clu_bytes_word [of fs]
    by (simp add: ReadCluster_def get_bytes_def)
qed

lemma WriteCluster_spec:
  assumes "wf_fat fs" and "valid_cluster fs c" and "clu_bytes fs \<le> length d"
  obtains fs' where "WriteCluster c d fs = Some (True, fs')" "changes (cluster_region fs c) fs fs'"
    "m_NextFreeClusterHint fs' = m_NextFreeClusterHint fs" "cluster_data fs' c = take (clu_bytes fs) d"
proof -
  have g: "geometry fs" "healthy (part fs)" "\<And>n. dma_ok fs n" using assms(1) by (auto simp: wf_fat_def)
  note G = geometryD [OF g(1)] and P = cluster_place [OF g(1) assms(2)]
  let ?p = "part fs" and ?d = "take (clu_bytes fs) d"
  have len: "length ?d = unat (ucast (spc fs) :: u32) * ssize ?p"
    using assms(3) G(3) by (simp add: clu_bytes_def unat_ucast_wide mult.commute)
  obtain q where q: "WriteSectors (ClusterToLBA c fs) (ucast (spc fs)) ?d ?p = Some (True, q)" "wf_partition q" "same_disk ?p q"
    "\<forall>i < part_size ?p. sector q i = (if cluster_sector fs c \<le> i \<and> i < cluster_sector fs c + clu_secs fs
       then take (ssize ?p) (drop ((i - cluster_sector fs c) * ssize ?p) ?d) else sector ?p i)"
    using WriteSectors_spec [OF G(2) g(2) cluster_in_part [OF g(1) assms(2)] len] P(1) by (auto simp: unat_ucast_wide)
  let ?f = "fs\<lparr> m_Partition := Some q \<rparr>"
  have "part_write (ClusterToLBA c fs) (ucast (spc fs)) ?d fs = Some (True, ?f)"
    unfolding part_write_def by (subst G(1)) (simp add: q(1))
  then have "WriteCluster c d fs = Some (True, ?f)"
    using g(3) assms(3) clu_bytes_word [of fs] by (simp add: WriteCluster_def get_bytes_def Let_def)
  moreover have "changes (cluster_region fs c) fs ?f" using q(2-4) by (auto simp: changes_def cluster_region_def)
  moreover have "cluster_data ?f c = ?d"
  proof -
    have "sector q (cluster_sector fs c + i) = take (sec_bytes fs) (drop (i * sec_bytes fs) ?d)" if "i < clu_secs fs" for i
      using q(4) P(2) that G(3) by simp
    then have "cluster_data ?f c = concat (map (\<lambda>i. take (sec_bytes fs) (drop (i * sec_bytes fs) ?d)) [0..<clu_secs fs])"
      by (auto simp: cluster_data_def cluster_sector_def intro!: arg_cong [where f = concat])
    also have "\<dots> = take (clu_secs fs * sec_bytes fs) ?d"
      by (rule concat_blocks) (use assms(3) in \<open>simp add: clu_bytes_def mult.commute\<close>)
    finally show ?thesis by (simp add: clu_bytes_def mult.commute)
  qed
  ultimately show ?thesis using that by simp
qed

end
