(* ===== verification/Fat_Alloc.thy ===== *)
theory Fat_Alloc
  imports Fat_Table
begin

text \<open>
  Cluster chains of a FAT32 volume: what \<^const>\<open>AllocateCluster\<close> and \<^const>\<open>FreeClusterChain\<close> do to the
  table. A chain is the list of clusters that the next-cluster entries link up to an end mark; it is
  determined by its first cluster and never repeats a cluster.
\<close>

section \<open>Chains\<close>

fun cluster_chain :: "fat \<Rightarrow> u32 \<Rightarrow> u32 list \<Rightarrow> bool" where
  "cluster_chain fs c [] \<longleftrightarrow> 0x0FFFFFF8 \<le> c"
| "cluster_chain fs c (d # ds) \<longleftrightarrow> d = c \<and> valid_cluster fs c \<and> cluster_chain fs (fat_entry fs c) ds"

lemma valid_clusterD:
  assumes "geometry fs" and "valid_cluster fs c"
  shows "2 \<le> c" "c < 0x0FFFFFF8" "unat c < nclusters fs + 2"
  using assms geometryD(12) [OF assms(1)] by (auto simp: valid_cluster_def word_less_nat_alt)

lemma chain_unique: "geometry fs \<Longrightarrow> cluster_chain fs c xs \<Longrightarrow> cluster_chain fs c ys \<Longrightarrow> xs = ys"
proof (induction xs arbitrary: c ys)
  case Nil
  then show ?case using valid_clusterD(2) by (cases ys) (auto simp: not_le [symmetric])
next
  case (Cons x xs)
  then show ?case using valid_clusterD(2) by (cases ys) (auto simp: not_le [symmetric])
qed

lemma chain_append: "cluster_chain fs c (xs @ d # ys) \<Longrightarrow> cluster_chain fs d (d # ys)"
  by (induction xs arbitrary: c) auto

lemma chain_distinct:
  assumes "geometry fs"
  shows "cluster_chain fs c cs \<Longrightarrow> distinct cs"
proof (induction cs arbitrary: c)
  case (Cons d ds)
  have "d \<notin> set ds"
  proof
    assume "d \<in> set ds"
    then obtain us vs where ds: "ds = us @ d # vs" by (meson split_list)
    have "cluster_chain fs d (d # vs)" using Cons.prems chain_append [of fs "fat_entry fs c" us d vs] ds by auto
    moreover have "cluster_chain fs d (d # ds)" using Cons.prems by simp
    ultimately have "d # vs = d # ds" using chain_unique [OF assms] by blast
    with ds have "length ds = length vs" by simp
    with ds show False by simp
  qed
  then show ?case using Cons by auto
qed simp

lemma chain_valid: "cluster_chain fs c cs \<Longrightarrow> d \<in> set cs \<Longrightarrow> valid_cluster fs d"
  by (induction cs arbitrary: c) auto

lemma cluster_chain_cong:
  assumes "valid_cluster fs' = valid_cluster fs" and "\<And>d. d \<in> set cs \<Longrightarrow> fat_entry fs' d = fat_entry fs d"
  shows "cluster_chain fs' c cs = cluster_chain fs c cs"
  using assms by (induction cs arbitrary: c) auto

lemma chain_length:
  assumes "geometry fs" and "cluster_chain fs c cs"
  shows "length cs \<le> nclusters fs"
proof -
  have "unat ` set cs \<subseteq> {2 ..< nclusters fs + 2}"
    using chain_valid [OF assms(2)] by (auto simp: valid_cluster_def word_le_nat_alt)
  then have "card (unat ` set cs) \<le> card {2 ..< nclusters fs + 2}" by (rule card_mono [rotated]) simp
  moreover have "card (unat ` set cs) = length cs"
    using distinct_card [OF chain_distinct [OF assms]] by (subst card_image) (auto simp: inj_on_def word_unat_eq_iff)
  ultimately show ?thesis by simp
qed

section \<open>Allocation\<close>

text \<open>The clusters the allocator hands out.\<close>

definition free_clusters :: "fat \<Rightarrow> u32 set" where
  "free_clusters fs = {c. 2 \<le> c \<and> c < m_TotalClusters fs \<and> fat_entry fs c = 0}"

lemma free_clusterD:
  assumes "c \<in> free_clusters fs"
  shows "valid_cluster fs c" "fat_entry fs c = 0" "c \<noteq> 0"
  using assms by (auto simp: free_clusters_def valid_cluster_def word_less_nat_alt word_le_nat_alt)

lemma changes_copies:
  assumes "changes S fs fs'" and "geometry fs" and "S \<inter> fat_region fs = {}" and "copies_agree fs"
  shows "copies_agree fs'"
proof -
  have same: "sector (part fs') (fat_copy fs i k) = sector (part fs) (fat_copy fs i k)"
    if "i < unat (NumFATs (m_BPB fs))" "k < fat_secs fs" for i k
  proof -
    have "fat_copy fs i k \<in> fat_region fs" using fat_copy_bound [OF assms(2) that] by (simp add: fat_region_def)
    then have "fat_copy fs i k \<notin> S" "fat_copy fs i k < part_size (part fs)"
      using assms(3) data_base_le [OF assms(2)] by (auto simp: fat_region_def)
    then show ?thesis using assms(1) by (simp add: changes_def)
  qed
  show ?thesis unfolding copies_agree_def changes_frame(1) [OF assms(1)] changes_derived(6) [OF assms(1)]
  proof (intro allI impI)
    fix i k assume ik: "i < unat (NumFATs (m_BPB fs))" "k < fat_secs fs"
    have "sector (part fs) (fat_copy fs i k) = sector (part fs) (fat_copy fs 0 k)" using assms(4) ik unfolding copies_agree_def by blast
    then show "sector (part fs') (fat_copy fs i k) = sector (part fs') (fat_copy fs 0 k)"
      using same [OF ik] same [OF geometryD(9) [OF assms(2)] ik(2)] by (simp only:)
  qed
qed

lemma scan_free_spec:
  assumes "wf_fat fs" and "unat c + k \<le> nclusters fs + 2"
  shows "\<exists>r. scan_free c k fs = Some r \<and>
    (case r of
       None \<Rightarrow> \<forall>d. unat c \<le> unat d \<and> unat d < unat c + k \<longrightarrow> fat_entry fs d \<noteq> 0
     | Some d \<Rightarrow> unat c \<le> unat d \<and> unat d < unat c + k \<and> fat_entry fs d = 0 \<and>
         (\<forall>e. unat c \<le> unat e \<and> unat e < unat d \<longrightarrow> fat_entry fs e \<noteq> 0))"
  using assms(2)
proof (induction k arbitrary: c)
  case 0
  then show ?case by auto
next
  case (Suc k)
  have g: "geometry fs" using assms(1) by (simp add: wf_fat_def)
  have v: "GetNextCluster c fs = Some (fat_entry fs c)" using GetNextCluster_spec [OF assms(1)] Suc.prems by simp
  have lt: "unat c + 1 < 2 ^ 32" using Suc.prems geometryD(12) [OF g] by simp
  have c1: "unat (c + 1) = unat c + 1" using lt by (simp add: unat_word_ariths)
  show ?case
  proof (cases "fat_entry fs c = 0")
    case True
    then show ?thesis using v by (intro exI [of _ "Some c"]) auto
  next
    case False
    have eq: "unat c \<le> unat d \<longleftrightarrow> d = c \<or> unat (c + 1) \<le> unat d" for d
      unfolding c1 word_unat_eq_iff by linarith
    obtain r where r: "scan_free (c + 1) k fs = Some r" "case r of
       None \<Rightarrow> \<forall>d. unat (c + 1) \<le> unat d \<and> unat d < unat (c + 1) + k \<longrightarrow> fat_entry fs d \<noteq> 0
     | Some d \<Rightarrow> unat (c + 1) \<le> unat d \<and> unat d < unat (c + 1) + k \<and> fat_entry fs d = 0 \<and>
         (\<forall>e. unat (c + 1) \<le> unat e \<and> unat e < unat d \<longrightarrow> fat_entry fs e \<noteq> 0)"
      using Suc.IH [of "c + 1"] Suc.prems c1 by auto
    have "unat (c + 1) + k = unat c + Suc k" using c1 by simp
    then show ?thesis using r v False by (intro exI [of _ r]) (auto simp: eq split: option.splits)
  qed
qed

lemma FindFreeCluster_spec:
  assumes "wf_fat fs"
  obtains (full) "free_clusters fs = {}" "FindFreeCluster fs = Some (0, fs)"
  | (found) c fs' where "FindFreeCluster fs = Some (c, fs')" "c \<in> free_clusters fs" "changes {0 ..< data_base fs} fs fs'"
      "m_NextFreeClusterHint fs' = c + 1"
      "\<forall>d. unat d < nclusters fs + 2 \<longrightarrow> fat_entry fs' d = (if d = c then 0x0FFFFFF8 else fat_entry fs d)"
      "copies_agree fs \<longrightarrow> copies_agree fs'"
proof -
  have g: "geometry fs" using assms by (simp add: wf_fat_def)
  let ?h = "m_NextFreeClusterHint fs" and ?n = "m_TotalClusters fs"
  define start where "start = (if ?h < 2 \<or> ?n \<le> ?h then 2 else ?h)"
  have st: "2 \<le> unat start" "unat start \<le> nclusters fs + 2"
    by (auto simp: start_def word_less_nat_alt word_le_nat_alt)
  obtain r1 where r1: "scan_free start (nclusters fs - unat start) fs = Some r1" "case r1 of
       None \<Rightarrow> \<forall>d. unat start \<le> unat d \<and> unat d < unat start + (nclusters fs - unat start) \<longrightarrow> fat_entry fs d \<noteq> 0
     | Some d \<Rightarrow> unat start \<le> unat d \<and> unat d < unat start + (nclusters fs - unat start) \<and> fat_entry fs d = 0"
    using scan_free_spec [OF assms, of start "nclusters fs - unat start"] st(2) by (fastforce split: option.splits)
  obtain r2 where r2: "scan_free 2 (unat start - 2) fs = Some r2" "case r2 of
       None \<Rightarrow> \<forall>d. 2 \<le> unat d \<and> unat d < unat start \<longrightarrow> fat_entry fs d \<noteq> 0
     | Some d \<Rightarrow> 2 \<le> unat d \<and> unat d < unat start \<and> fat_entry fs d = 0"
    using scan_free_spec [OF assms, of 2 "unat start - 2"] st by (fastforce split: option.splits)
  define r where "r = (case r1 of None \<Rightarrow> r2 | Some c \<Rightarrow> Some c)"
  have F: "FindFreeCluster fs = (case r of None \<Rightarrow> Some (0, fs) | Some c \<Rightarrow>
      do { (ok, fs) \<leftarrow> SetNextCluster c 0x0FFFFFF8 fs;
           if ok then do { fs \<leftarrow> UpdateFSInfoHint (c + 1) fs; Some (c, fs) } else Some (0, fs) })"
    using r1(1) r2(1) by (auto simp: FindFreeCluster_def Let_def start_def r_def split: option.splits)
  show ?thesis
  proof (cases r)
    case None
    then have n: "r1 = None" "r2 = None" by (auto simp: r_def split: option.splits)
    have "fat_entry fs d \<noteq> 0" if "2 \<le> d" "d < ?n" for d
    proof (cases "unat d < unat start")
      case True
      then show ?thesis using r2(2) n(2) that by (simp add: word_le_nat_alt)
    next
      case False
      then show ?thesis using r1(2) n(1) that by (simp add: word_less_nat_alt)
    qed
    then have "free_clusters fs = {}" by (auto simp: free_clusters_def)
    then show ?thesis using full F None by simp
  next
    case (Some c)
    have c: "c \<in> free_clusters fs"
    proof -
      consider "r1 = Some c" | "r1 = None" "r2 = Some c" using Some by (auto simp: r_def split: option.splits)
      then show ?thesis
      proof cases
        case 1
        then show ?thesis using r1(2) st by (auto simp: free_clusters_def word_le_nat_alt word_less_nat_alt)
      next
        case 2
        then have "2 \<le> unat c" "unat c < unat start" "fat_entry fs c = 0" using r2(2) by auto
        moreover from this have "start = ?h" "\<not> ?n \<le> ?h" by (auto simp: start_def split: if_splits)
        ultimately show ?thesis by (auto simp: free_clusters_def word_le_nat_alt word_less_nat_alt)
      qed
    qed
    have cv: "unat c < nclusters fs + 2" using free_clusterD(1) [OF c] by (simp add: valid_cluster_def)
    obtain f1 where f1: "SetNextCluster c 0x0FFFFFF8 fs = Some (True, f1)" "changes (fat_region fs) fs f1"
      "m_NextFreeClusterHint f1 = m_NextFreeClusterHint fs" "\<forall>d. unat d < nclusters fs + 2 \<longrightarrow> fat_entry f1 d = (if d = c then 0x0FFFFFF8 AND 0x0FFFFFFF else fat_entry fs d)"
      "copies_agree fs \<longrightarrow> copies_agree f1"
      by (rule SetNextCluster_spec [OF assms cv, of "0x0FFFFFF8"])
    note w1 = changes_wf [OF f1(2) assms] and g1 = changes_geometry [OF f1(2) g]
    obtain f2 where f2: "UpdateFSInfoHint (c + 1) f1 = Some f2" "changes {0 ..< fat_base f1} f1 f2" "m_NextFreeClusterHint f2 = c + 1"
      by (rule UpdateFSInfoHint_spec [OF w1])
    note same1 = changes_frame [OF f1(2)] changes_derived [OF f1(2)]
    have dj: "{0 ..< fat_base f1} \<inter> fat_region f1 = {}" by (auto simp: fat_region_def)
    have "FindFreeCluster fs = Some (c, f2)" using F Some f1(1) f2(1) by simp
    moreover have "changes {0 ..< data_base fs} fs f2"
      by (rule changes_mono [OF changes_trans [OF f1(2) f2(2)]]) (use geometryD(8) [OF g] in \<open>auto simp: fat_region_def same1\<close>)
    moreover have "fat_entry f2 d = (if d = c then 0x0FFFFFF8 else fat_entry fs d)" if "unat d < nclusters fs + 2" for d
      using changes_fat_entry [OF f2(2) g1 _ dj, of d] f1(4) that same1 by simp
    moreover have "copies_agree f2" if "copies_agree fs"
      using changes_copies [OF f2(2) g1 dj] f1(5) that by blast
    ultimately show ?thesis using found c f2(3) by blast
  qed
qed

lemma low28: "unat c < 2 ^ 28 \<Longrightarrow> c AND 0x0FFFFFFF = c" for c :: u32
  using unat_and_mask [of c 28] by (simp add: word_unat_eq_iff mask_eq_exp_minus_1)

text \<open>
  A new cluster is a free one, becomes the end of the chain whose last cluster was given, and no other
  entry changes; without a free cluster nothing changes at all.
\<close>

lemma AllocateCluster_spec:
  assumes "wf_fat fs" and "l = 0 \<or> valid_cluster fs l \<and> fat_entry fs l \<noteq> 0"
  obtains (full) "free_clusters fs = {}" "AllocateCluster l fs = Some (0, fs)"
  | (found) c fs' where "AllocateCluster l fs = Some (c, fs')" "c \<in> free_clusters fs" "changes {0 ..< data_base fs} fs fs'"
      "\<forall>d. unat d < nclusters fs + 2 \<longrightarrow>
         fat_entry fs' d = (if d = c then 0x0FFFFFF8 else if d = l \<and> l \<noteq> 0 then c else fat_entry fs d)"
      "copies_agree fs \<longrightarrow> copies_agree fs'"
proof -
  have g: "geometry fs" using assms by (simp add: wf_fat_def)
  show ?thesis
  proof (cases rule: FindFreeCluster_spec [OF assms(1)])
    case 1
    then show ?thesis using full by (simp add: AllocateCluster_def)
  next
    case (2 c f1)
    have c: "c \<noteq> 0" "unat c < 2 ^ 28" "c \<noteq> l" using free_clusterD [OF 2(2)] geometryD(12) [OF g] assms(2) by (auto simp: valid_cluster_def)
    show ?thesis
    proof (cases "l = 0")
      case True
      then show ?thesis using found [OF _ 2(2,3) _ 2(6)] 2(1,5) c(1) by (simp add: AllocateCluster_def)
    next
      case False
      then have lv: "unat l < nclusters fs + 2" using assms(2) by (simp add: valid_cluster_def)
      note same = changes_frame [OF 2(3)] changes_derived [OF 2(3)]
      have lv': "unat l < nclusters f1 + 2" using lv same by simp
      obtain f2 where f2: "SetNextCluster l c f1 = Some (True, f2)" "changes (fat_region f1) f1 f2"
        "m_NextFreeClusterHint f2 = m_NextFreeClusterHint f1" "\<forall>d. unat d < nclusters f1 + 2 \<longrightarrow> fat_entry f2 d = (if d = l then c AND 0x0FFFFFFF else fat_entry f1 d)"
        "copies_agree f1 \<longrightarrow> copies_agree f2"
        by (rule SetNextCluster_spec [OF changes_wf [OF 2(3) assms(1)] lv', of c])
      have "AllocateCluster l fs = Some (c, f2)" using 2(1) c(1) False f2(1) by (simp add: AllocateCluster_def)
      moreover have "changes {0 ..< data_base fs} fs f2"
        by (rule changes_mono [OF changes_trans [OF 2(3) f2(2)]]) (auto simp: fat_region_def same)
      moreover have "fat_entry f2 d = (if d = c then 0x0FFFFFF8 else if d = l \<and> l \<noteq> 0 then c else fat_entry fs d)"
        if "unat d < nclusters fs + 2" for d
        using f2(4) [rule_format, of d] 2(5) [rule_format, OF that] same False c(3) low28 [OF c(2)] that by (cases "d = c") auto
      moreover have "copies_agree f2" if "copies_agree fs" using that 2(6) f2(5) by blast
      ultimately show ?thesis using found 2(2) by blast
    qed
  qed
qed

section \<open>Release\<close>

lemma free_loop_spec:
  assumes "wf_fat fs" and "cluster_chain fs c cs" and "length cs \<le> k"
  shows "\<exists>fs'. free_loop k c m ok fs = Some (ok, fold min cs m, fs') \<and> changes (fat_region fs) fs fs' \<and>
    (\<forall>d. unat d < nclusters fs + 2 \<longrightarrow> fat_entry fs' d = (if d \<in> set cs then 0 else fat_entry fs d)) \<and>
    (copies_agree fs \<longrightarrow> copies_agree fs')"
  using assms
proof (induction cs arbitrary: c k m fs)
  case Nil
  then show ?case by (auto simp: wf_fat_def free_loop.simps not_less intro: changes_refl)
next
  case (Cons d ds)
  have g: "geometry fs" using Cons.prems(1) by (simp add: wf_fat_def)
  have d: "d = c" "valid_cluster fs c" and ch: "cluster_chain fs (fat_entry fs c) ds" using Cons.prems(2) by auto
  note V = valid_clusterD [OF g d(2)]
  obtain k' where k: "k = Suc k'" using Cons.prems(3) by (cases k) auto
  have nc: "c \<notin> set ds" using chain_distinct [OF g Cons.prems(2)] d(1) by simp
  obtain f1 where f1: "SetNextCluster c 0 fs = Some (True, f1)" "changes (fat_region fs) fs f1"
    "m_NextFreeClusterHint f1 = m_NextFreeClusterHint fs"
    "\<forall>d. unat d < nclusters fs + 2 \<longrightarrow> fat_entry f1 d = (if d = c then 0 AND 0x0FFFFFFF else fat_entry fs d)"
    "copies_agree fs \<longrightarrow> copies_agree f1"
    by (rule SetNextCluster_spec [OF Cons.prems(1) V(3), of 0])
  note same = changes_frame [OF f1(2)] changes_derived [OF f1(2)]
  have "cluster_chain f1 (fat_entry fs c) ds"
  proof (subst cluster_chain_cong [of f1 fs])
    show "fat_entry f1 e = fat_entry fs e" if "e \<in> set ds" for e
    proof -
      have "unat e < nclusters fs + 2" "e \<noteq> c" using chain_valid [OF ch that] nc that by (auto simp: valid_cluster_def)
      then show ?thesis using f1(4) by simp
    qed
  qed (simp_all add: same ch)
  from Cons.IH [OF changes_wf [OF f1(2) Cons.prems(1)] this, of k' "min c m"] obtain f2 where
    f2: "free_loop k' (fat_entry fs c) (min c m) ok f1 = Some (ok, fold min ds (min c m), f2)" "changes (fat_region fs) f1 f2"
    "\<forall>d. unat d < nclusters fs + 2 \<longrightarrow> fat_entry f2 d = (if d \<in> set ds then 0 else fat_entry f1 d)"
    "copies_agree f1 \<longrightarrow> copies_agree f2"
    using Cons.prems(3) k same by auto
  have "(if c < m then c else m) = min c m" by (auto simp: min_def)
  then have "free_loop k c m ok fs = Some (ok, fold min (d # ds) m, f2)"
    using V f1(1) f2(1) GetNextCluster_spec [OF Cons.prems(1) V(3)] k d(1)
    by (simp add: Let_def free_loop.simps [of "Suc k'"])
  moreover have "changes (fat_region fs) fs f2" using changes_trans [OF f1(2) f2(2)] by simp
  moreover have "fat_entry f2 e = (if e \<in> set (d # ds) then 0 else fat_entry fs e)" if "unat e < nclusters fs + 2" for e
    using f2(3) f1(4) that nc d(1) by auto
  ultimately show ?case using f1(5) f2(4) by blast
qed

text \<open>
  Releasing a chain sets exactly the entries of its clusters to 0, in every copy, and reports success;
  the guard of the loop never cuts a chain short.
\<close>

lemma FreeClusterChain_spec:
  assumes "wf_fat fs" and "cluster_chain fs c cs" and "cs \<noteq> []"
  obtains fs' where "FreeClusterChain c fs = Some (True, fs')" "changes {0 ..< data_base fs} fs fs'"
    "\<forall>d. unat d < nclusters fs + 2 \<longrightarrow> fat_entry fs' d = (if d \<in> set cs then 0 else fat_entry fs d)"
    "m_NextFreeClusterHint fs' = fold min cs c" "copies_agree fs \<longrightarrow> copies_agree fs'"
proof -
  have g: "geometry fs" using assms(1) by (simp add: wf_fat_def)
  have "valid_cluster fs c" using assms(2,3) by (cases cs) auto
  then have c2: "\<not> c < 2" using valid_clusterD(1) [OF g] by force
  have "unat (m_TotalClusters fs + 2) = nclusters fs + 2" using geometryD(12) [OF g] by (simp add: unat_word_ariths)
  then have "length cs \<le> unat (m_TotalClusters fs + 2)" using chain_length [OF g assms(2)] by simp
  from free_loop_spec [OF assms(1,2) this, of c True] obtain f1 where
    f1: "free_loop (unat (m_TotalClusters fs + 2)) c c True fs = Some (True, fold min cs c, f1)" "changes (fat_region fs) fs f1"
    "\<forall>d. unat d < nclusters fs + 2 \<longrightarrow> fat_entry f1 d = (if d \<in> set cs then 0 else fat_entry fs d)"
    "copies_agree fs \<longrightarrow> copies_agree f1" by blast
  note w1 = changes_wf [OF f1(2) assms(1)] and g1 = changes_geometry [OF f1(2) g]
    and same = changes_frame [OF f1(2)] changes_derived [OF f1(2)]
  obtain f2 where f2: "UpdateFSInfoHint (fold min cs c) f1 = Some f2" "changes {0 ..< fat_base f1} f1 f2"
    "m_NextFreeClusterHint f2 = fold min cs c"
    by (rule UpdateFSInfoHint_spec [OF w1])
  have dj: "{0 ..< fat_base f1} \<inter> fat_region f1 = {}" by (auto simp: fat_region_def)
  show ?thesis
  proof (rule that [of f2])
    show "FreeClusterChain c fs = Some (True, f2)" using c2 f1(1) f2(1) by (simp add: FreeClusterChain_def)
    show "changes {0 ..< data_base fs} fs f2"
      by (rule changes_mono [OF changes_trans [OF f1(2) f2(2)]]) (use geometryD(8) [OF g] in \<open>auto simp: fat_region_def same\<close>)
    show "\<forall>d. unat d < nclusters fs + 2 \<longrightarrow> fat_entry f2 d = (if d \<in> set cs then 0 else fat_entry fs d)"
      using changes_fat_entry [OF f2(2) g1 _ dj] f1(3) same by simp
    show "copies_agree fs \<longrightarrow> copies_agree f2" using changes_copies [OF f2(2) g1 dj] f1(4) by blast
  qed (rule f2(3))
qed

end
