(* ===== verification/Fat_File.thy ===== *)
theory Fat_File
  imports Fat_Alloc
begin

text \<open>
  Open files of the FAT32 driver, \<^verbatim>\<open>kernel/filesys/fat32/fat32.cpp\<close>: reading, writing, seeking,
  truncation and the update of the directory entry. A file's node is a heap object, found through the
  inode number, which is its address. The contents of a file are the bytes of its chain of clusters,
  cut at its size; the theorems show that the operations act on them as on an array of bytes.
\<close>

section \<open>Model\<close>

text \<open>What the driver uses of a \<^verbatim>\<open>File\<close> and of its \<^verbatim>\<open>Inode\<close>.\<close>

record fat_node =
  ino_ID :: u64
  ino_FileSize :: u64
  ino_IsDir :: bool
  ino_StartCluster :: u32

record fat_handle =
  f_pos :: u64
  f_Node :: "fat_node option"
  f_IsDirectory :: bool

abbreviation EOC :: u32 where "EOC \<equiv> 0x0FFFFFF8"

definition cluster_bytes :: "fat \<Rightarrow> u64" where
  "cluster_bytes fs = ucast (bps fs) * ucast (spc fs)"

definition PopulateInode :: "u64 \<Rightarrow> fat \<Rightarrow> fat_node \<Rightarrow> (bool \<times> fat_node) option" where
  "PopulateInode num fs n =
     (if num = 0 then Some (False, n)
      else do {
        node \<leftarrow> vnodes fs num;
        Some (True, n\<lparr> ino_IsDir := IsDirectory node, ino_FileSize := ucast (vn_FileSize node), ino_ID := num \<rparr>) })"

text \<open>\<^verbatim>\<open>Close\<close> deletes the node.\<close>

definition fat_Close :: "fat_handle \<Rightarrow> fat \<Rightarrow> fat option" where
  "fat_Close file fs =
     (case f_Node file of
        None \<Rightarrow> Some fs
      | Some n \<Rightarrow> if ino_ID n = 0 then Some fs
                  else if vnodes fs (ino_ID n) = None then None
                  else Some (fs\<lparr> vnodes := (vnodes fs)(ino_ID n := None) \<rparr>))"

subsection \<open>Reading\<close>

fun read_walk :: "nat \<Rightarrow> u32 \<Rightarrow> fat \<Rightarrow> u32 option option" where
  "read_walk 0 cluster fs = Some (Some cluster)"
| "read_walk (Suc i) cluster fs =
     do { n \<leftarrow> GetNextCluster cluster fs; if EOC \<le> n then Some None else read_walk i n fs }"

text \<open>A round that reads nothing would repeat for ever.\<close>

function read_clusters :: "u32 \<Rightarrow> u32 \<Rightarrow> u32 \<Rightarrow> u8 list \<Rightarrow> fat \<Rightarrow> u8 list option" where
  "read_clusters toRead off cluster out fs =
     (if toRead = 0 then Some out
      else
        case part_read (ClusterToLBA cluster fs) (ucast (spc fs)) fs of
          None \<Rightarrow> None
        | Some None \<Rightarrow> Some out
        | Some (Some b) \<Rightarrow>
            let avail = ucast (cluster_bytes fs - ucast off) :: u32;
                want = (if toRead < avail then toRead else avail)
            in if want = 0 then None
               else do {
                 d \<leftarrow> get_bytes b (unat off) (unat want);
                 if toRead - want = 0 then Some (out @ d)
                 else do {
                   n \<leftarrow> GetNextCluster cluster fs;
                   if EOC \<le> n then Some (out @ d) else read_clusters (toRead - want) 0 n (out @ d) fs } })"
  by pat_completeness auto
termination
  by (relation "measure (\<lambda>(toRead, _). unat toRead)")
    (auto simp: word_less_nat_alt unat_sub word_le_nat_alt not_less unat_gt_0 split: if_splits intro: diff_less)

declare read_clusters.simps [simp del]

definition fat_Read :: "fat_handle \<Rightarrow> u32 \<Rightarrow> fat \<Rightarrow> (u8 list \<times> fat_handle) option" where
  "fat_Read file sz fs =
     (case f_Node file of
        None \<Rightarrow> Some ([], file)
      | Some n \<Rightarrow>
          if sz = 0 \<or> ino_ID n = 0 then Some ([], file)
          else do {
            node \<leftarrow> vnodes fs (ino_ID n);
            if IsDirectory node \<or> ucast (vn_FileSize node) \<le> f_pos file then Some ([], file)
            else if cluster_bytes fs = 0 then None
            else do {
              let remainingFile = ucast (vn_FileSize node) - f_pos file;
              let toRead = (if remainingFile < ucast sz then ucast remainingFile else sz);
              let clusterIndex = (ucast (f_pos file div cluster_bytes fs) :: u32);
              let offsetInCluster = ucast (f_pos file mod cluster_bytes fs);
              if StartCluster node = 0 then Some ([], file)
              else do {
                r \<leftarrow> read_walk (unat clusterIndex) (StartCluster node) fs;
                case r of
                  None \<Rightarrow> Some ([], file)
                | Some c \<Rightarrow>
                    do { d \<leftarrow> read_clusters toRead offsetInCluster c [] fs;
                         Some (d, file\<lparr> f_pos := f_pos file + of_nat (length d) \<rparr>) } } } })"

subsection \<open>The directory entry\<close>

definition EncodeDateForFAT :: "u32 \<Rightarrow> u32 \<Rightarrow> u32 \<Rightarrow> u16" where
  "EncodeDateForFAT Year Month Day =
     (let FatYear = (if 1980 < Year then Year - 1980 else 0);
          FatYear = (if 127 < FatYear then 127 else FatYear)
      in ucast (push_bit 9 (FatYear AND 0x7F) OR push_bit 5 (Month AND 0x0F) OR (Day AND 0x1F)))"

definition EncodeFATTime :: "u8 \<Rightarrow> u8 \<Rightarrow> u8 \<Rightarrow> u16" where
  "EncodeFATTime Hour Minute Second =
     ucast (push_bit 11 (ucast Hour AND 0x1F) OR push_bit 5 (ucast Minute AND 0x3F) OR ((ucast Second div 2) AND 0x1F) :: u32)"

text \<open>The fields \<^verbatim>\<open>UpdateDirectoryEntry\<close> stores into the 32 bytes of an entry at \<open>o\<close>.\<close>

definition fill_entry :: "nat \<Rightarrow> FAT32_VNode \<Rightarrow> RTCTime \<Rightarrow> u8 list \<Rightarrow> u8 list option" where
  "fill_entry e node t b =
     (let date = EncodeDateForFAT (year t) (ucast (month t)) (ucast (day t));
          time = EncodeFATTime (hour t) (minute t) (second t)
      in do {
        b \<leftarrow> put_bytes (e + 28) (bytes32 (vn_FileSize node)) b;
        b \<leftarrow> put_bytes (e + 26) (bytes16 (ucast (StartCluster node AND 0xFFFF))) b;
        b \<leftarrow> put_bytes (e + 20) (bytes16 (ucast (drop_bit 16 (StartCluster node) AND 0xFFFF))) b;
        b \<leftarrow> put_bytes (e + 18) (bytes16 date) b;
        b \<leftarrow> put_bytes (e + 24) (bytes16 date) b;
        b \<leftarrow> put_bytes (e + 22) (bytes16 time) b;
        b \<leftarrow> put_bytes (e + 16) (bytes16 date) b;
        put_bytes (e + 14) (bytes16 time) b })"

definition UpdateDirectoryEntry :: "fat_handle \<Rightarrow> fat \<Rightarrow> (bool \<times> fat) option" where
  "UpdateDirectoryEntry file fs =
     (case f_Node file of
        None \<Rightarrow> Some (False, fs)
      | Some n \<Rightarrow>
          if ino_ID n = 0 then Some (True, fs)
          else do {
            node \<leftarrow> vnodes fs (ino_ID n);
            if EntryLBA node = 0 then Some (True, fs)
            else do {
              r \<leftarrow> part_read (EntryLBA node) 1 fs;
              case r of
                None \<Rightarrow> Some (False, fs)
              | Some b \<Rightarrow>
                  do { b \<leftarrow> fill_entry (unat (EntryOffset node)) node (rtc fs) b;
                       part_write (EntryLBA node) 1 b fs } } })"

definition fat_Flush :: "fat_handle \<Rightarrow> fat \<Rightarrow> (bool \<times> fat) option" where
  "fat_Flush file fs = UpdateDirectoryEntry file fs"

subsection \<open>Writing\<close>

text \<open>The walk to the first cluster to write gives the last two clusters it visited, or nothing when
  the volume is full.\<close>

fun write_walk :: "nat \<Rightarrow> u32 \<Rightarrow> u32 \<Rightarrow> fat \<Rightarrow> ((u32 \<times> u32) option \<times> fat) option" where
  "write_walk 0 prev cur fs = Some (Some (prev, cur), fs)"
| "write_walk (Suc i) prev cur fs =
     do { n \<leftarrow> GetNextCluster cur fs;
          if EOC \<le> n then do {
            (newc, fs) \<leftarrow> AllocateCluster cur fs;
            if newc = 0 then Some (None, fs) else write_walk i cur newc fs }
          else write_walk i cur n fs }"

definition write_part :: "u8 list \<Rightarrow> u32 \<Rightarrow> u32 \<Rightarrow> u32 \<Rightarrow> fat \<Rightarrow> (bool \<times> fat) option" where
  "write_part src off want cluster fs =
     (if off = 0 \<and> ucast want = cluster_bytes fs then WriteCluster cluster src fs
      else
        let cbytes = ucast (cluster_bytes fs) :: u32 in
        if \<not> kmalloc_ok fs cbytes then Some (False, fs)
        else do {
          r \<leftarrow> ReadCluster cluster fs;
          tmp \<leftarrow> put_bytes (unat off) (take (unat want) src) (case r of None \<Rightarrow> replicate (unat cbytes) 0 | Some b \<Rightarrow> b);
          WriteCluster cluster tmp fs })"

definition chunk :: "u32 \<Rightarrow> u32 \<Rightarrow> fat \<Rightarrow> u32" where
  "chunk remaining off fs =
     (let can = ucast (cluster_bytes fs - ucast off) in if remaining < can then remaining else can)"

text \<open>\<open>src\<close> holds the bytes that are still to be written.\<close>

function write_clusters :: "u8 list \<Rightarrow> u32 \<Rightarrow> u32 \<Rightarrow> u32 \<Rightarrow> nat \<Rightarrow> fat \<Rightarrow> (nat \<times> fat) option" where
  "write_clusters src off cluster prev tot fs =
     (if src = [] then Some (tot, fs)
      else
        case (if cluster = 0 then AllocateCluster prev fs else Some (cluster, fs)) of
          None \<Rightarrow> None
        | Some (cluster, fs) \<Rightarrow>
            if cluster = 0 then Some (tot, fs)
            else
              let want = chunk (of_nat (length src)) off fs
              in if want = 0 then None
                 else
                   case write_part src off want cluster fs of
                     None \<Rightarrow> None
                   | Some (ok, fs) \<Rightarrow>
                       if \<not> ok then Some (tot, fs)
                       else do {
                         nextc \<leftarrow> GetNextCluster cluster fs;
                         if drop (unat want) src = [] then Some (tot + unat want, fs)
                         else if EOC \<le> nextc then do {
                           (newc, fs) \<leftarrow> AllocateCluster cluster fs;
                           if newc = 0 then Some (tot + unat want, fs)
                           else write_clusters (drop (unat want) src) 0 newc cluster (tot + unat want) fs }
                         else write_clusters (drop (unat want) src) 0 nextc cluster (tot + unat want) fs })"
  by pat_completeness auto
termination
  by (relation "measure (\<lambda>(src, _). length src)") (auto simp: unat_gt_0)

declare write_clusters.simps [simp del]

definition set_vnode :: "u64 \<Rightarrow> FAT32_VNode \<Rightarrow> fat \<Rightarrow> fat" where
  "set_vnode a node fs = fs\<lparr> vnodes := (vnodes fs)(a \<mapsto> node) \<rparr>"

text \<open>The part after the first cluster is known.\<close>

definition write_from :: "fat_handle \<Rightarrow> fat_node \<Rightarrow> FAT32_VNode \<Rightarrow> u8 list \<Rightarrow> u32 \<Rightarrow> fat \<Rightarrow> (nat \<times> fat_handle \<times> fat) option" where
  "write_from file n node buffer sz fs =
     do { let startPos = f_pos file;
          let clusterBytes = cluster_bytes fs;
          (r, fs) \<leftarrow> write_walk (unat (startPos div clusterBytes)) 0 (StartCluster node) fs;
          case r of
            None \<Rightarrow> Some (0, file, fs)
          | Some (prev, cur) \<Rightarrow>
              do { src \<leftarrow> get_bytes buffer 0 (unat sz);
                   (w, fs) \<leftarrow> write_clusters src (ucast (startPos mod clusterBytes)) cur prev 0 fs;
                   let newPos = startPos + of_nat w;
                   let grow = ucast (vn_FileSize node) < newPos;
                   let node = (if grow then node\<lparr> vn_FileSize := ucast newPos \<rparr> else node);
                   let n = (if grow then n\<lparr> ino_FileSize := newPos \<rparr> else n);
                   let file = file\<lparr> f_pos := ucast (ucast newPos :: u32), f_Node := Some n \<rparr>;
                   (_, fs) \<leftarrow> UpdateDirectoryEntry file (set_vnode (ino_ID n) node fs);
                   Some (w, file, fs) } }"

definition fat_Write :: "fat_handle \<Rightarrow> u8 list \<Rightarrow> u32 \<Rightarrow> fat \<Rightarrow> (nat \<times> fat_handle \<times> fat) option" where
  "fat_Write file buffer sz fs =
     (case f_Node file of
        None \<Rightarrow> Some (0, file, fs)
      | Some n \<Rightarrow>
          if sz = 0 \<or> ino_ID n = 0 then Some (0, file, fs)
          else do {
            node \<leftarrow> vnodes fs (ino_ID n);
            if EntryLBA node = 0 \<or> IsDirectory node \<or> cluster_bytes fs = 0 then Some (0, file, fs)
            else do {
              (cluster, fs) \<leftarrow> (if StartCluster node = 0 then AllocateCluster 0 fs else Some (StartCluster node, fs));
              if cluster = 0 then Some (0, file, fs)
              else
                let node = node\<lparr> StartCluster := cluster \<rparr>
                in write_from file n node buffer sz (set_vnode (ino_ID n) node fs) } })"

definition fat_Seek :: "fat_handle \<Rightarrow> u64 \<Rightarrow> fat \<Rightarrow> (bool \<times> fat_handle) option" where
  "fat_Seek file position fs =
     (case f_Node file of
        None \<Rightarrow> Some (False, file)
      | Some n \<Rightarrow>
          if ino_ID n = 0 then Some (False, file)
          else do {
            node \<leftarrow> vnodes fs (ino_ID n);
            if IsDirectory node then Some (False, file)
            else
              let position = (if ucast (vn_FileSize node) < position then ucast (vn_FileSize node) else position)
              in if f_pos file = position then Some (True, file)
                 else Some (True, file\<lparr> f_pos := ucast (ucast position :: u32) \<rparr>) })"

definition fat_Append :: "fat_handle \<Rightarrow> u8 list \<Rightarrow> u32 \<Rightarrow> fat \<Rightarrow> (bool \<times> fat_handle \<times> fat) option" where
  "fat_Append file buffer sz fs =
     (case f_Node file of
        None \<Rightarrow> Some (False, file, fs)
      | Some n \<Rightarrow>
          if sz = 0 \<or> ino_ID n = 0 then Some (False, file, fs)
          else do {
            node \<leftarrow> vnodes fs (ino_ID n);
            if IsDirectory node then Some (False, file, fs)
            else do {
              (ok, file) \<leftarrow> fat_Seek file (ucast (vn_FileSize node)) fs;
              if \<not> ok then Some (False, file, fs)
              else do {
                (w, file, fs) \<leftarrow> fat_Write file buffer sz fs;
                Some (w = unat sz, file, fs) } } })"

subsection \<open>Truncation\<close>

fun keep_walk :: "nat \<Rightarrow> u32 \<Rightarrow> fat \<Rightarrow> u32 option" where
  "keep_walk 0 cur fs = Some cur"
| "keep_walk (Suc i) cur fs = do { n \<leftarrow> GetNextCluster cur fs; if EOC \<le> n then Some cur else keep_walk i n fs }"

text \<open>The walk to the end of the chain; \<open>k\<close> is what the guard still allows.\<close>

fun end_walk :: "nat \<Rightarrow> u32 \<Rightarrow> fat \<Rightarrow> u32 option" where
  "end_walk k cur fs =
     do { n \<leftarrow> GetNextCluster cur fs;
          if EOC \<le> n then Some cur
          else case k of 0 \<Rightarrow> Some n | Suc k \<Rightarrow> end_walk k n fs }"

declare end_walk.simps [simp del]

text \<open>A new cluster after \<open>l\<close>, marked as the end of the chain and filled with zeros.\<close>

definition zero_cluster :: "u32 \<Rightarrow> fat \<Rightarrow> (bool \<times> fat) option" where
  "zero_cluster c fs =
     do { (_, fs) \<leftarrow> SetNextCluster c 0x0FFFFFFF fs;
          let n = (ucast (cluster_bytes fs) :: u32);
          if \<not> dma_ok fs ((n + 4096 - 1) div 4096) then Some (False, fs)
          else do {
            (_, fs) \<leftarrow> WriteCluster c (replicate (unat n) 0) fs;
            Some (True, fs) } }"

fun extend_loop :: "nat \<Rightarrow> u32 \<Rightarrow> fat \<Rightarrow> (bool \<times> u32 \<times> fat) option" where
  "extend_loop 0 l fs = Some (True, l, fs)"
| "extend_loop (Suc k) l fs =
     do { (nc, fs) \<leftarrow> AllocateCluster l fs;
          if nc = 0 then Some (False, l, fs)
          else do {
            (ok, fs) \<leftarrow> zero_cluster nc fs;
            if \<not> ok then Some (False, l, fs)
            else do {
              (_, fs) \<leftarrow> SetNextCluster l nc fs;
              extend_loop k nc fs } } }"

text \<open>The new size goes to the node and the inode; the position is cut when the file shrinks.\<close>

definition resize_to :: "u64 \<Rightarrow> bool \<Rightarrow> fat_handle \<Rightarrow> fat_node \<Rightarrow> FAT32_VNode \<Rightarrow> fat \<Rightarrow> (bool \<times> fat_handle \<times> fat) option" where
  "resize_to sz shrink file n node fs =
     (let n = n\<lparr> ino_FileSize := ucast (ucast sz :: u32) \<rparr>;
          file = file\<lparr> f_Node := Some n, f_pos := (if shrink \<and> sz < f_pos file then ucast (ucast sz :: u32) else f_pos file) \<rparr>
      in do {
        (_, fs) \<leftarrow> UpdateDirectoryEntry file (set_vnode (ino_ID n) (node\<lparr> vn_FileSize := ucast sz \<rparr>) fs);
        Some (True, file, fs) })"

definition round_up :: "u64 \<Rightarrow> u64 \<Rightarrow> u32" where
  "round_up sz cb = (if sz = 0 then 0 else ucast ((sz + cb - 1) div cb))"

definition fat_Truncate :: "fat_handle \<Rightarrow> u64 \<Rightarrow> fat \<Rightarrow> (bool \<times> fat_handle \<times> fat) option" where
  "fat_Truncate file sz fs =
     (case f_Node file of
        None \<Rightarrow> Some (False, file, fs)
      | Some n \<Rightarrow>
          if ino_ID n = 0 then Some (False, file, fs)
          else do {
            node \<leftarrow> vnodes fs (ino_ID n);
            let cb = cluster_bytes fs;
            let oldSize = ucast (vn_FileSize node);
            if IsDirectory node \<or> cb = 0 then Some (False, file, fs)
            else if sz = oldSize then Some (True, file, fs)
            else if sz < oldSize then
              (let start = StartCluster node in
               if round_up sz cb = 0 then do {
                 (_, fs) \<leftarrow> (if 2 \<le> start then FreeClusterChain start fs else Some (True, fs));
                 resize_to sz True file n (node\<lparr> StartCluster := 0 \<rparr>) fs }
               else if start < 2 then Some (False, file, fs)
               else do {
                 cur \<leftarrow> keep_walk (unat (round_up sz cb - 1)) start fs;
                 toFree \<leftarrow> GetNextCluster cur fs;
                 (_, fs) \<leftarrow> (if 2 \<le> toFree \<and> toFree < EOC then FreeClusterChain toFree fs else Some (True, fs));
                 (_, fs) \<leftarrow> SetNextCluster cur 0x0FFFFFFF fs;
                 resize_to sz True file n node fs })
            else if round_up sz cb \<le> round_up oldSize cb then resize_to sz False file n node fs
            else do {
              let need = round_up sz cb - round_up oldSize cb;
              r \<leftarrow> (if StartCluster node < 2 then do {
                      (nc, fs) \<leftarrow> AllocateCluster 0 fs;
                      if nc = 0 then Some (False, nc, need, fs)
                      else do { (ok, fs) \<leftarrow> zero_cluster nc fs; Some (ok, nc, need - 1, fs) } }
                    else Some (True, StartCluster node, need, fs));
              (case r of (ok, l, need, fs) \<Rightarrow>
                 if \<not> ok then Some (False, file, fs)
                 else do {
                   l \<leftarrow> end_walk (unat (m_TotalClusters fs + 2)) l fs;
                   (ok, l, fs) \<leftarrow> extend_loop (unat need) l fs;
                   if \<not> ok then Some (False, file, fs)
                   else resize_to sz False file n (if StartCluster node = 0 then node\<lparr> StartCluster := l \<rparr> else node) fs }) } })"

section \<open>Contents of a file\<close>

text \<open>The clusters of a file: none, or the chain of its first cluster, with room for its size.\<close>

definition file_chain :: "fat \<Rightarrow> FAT32_VNode \<Rightarrow> u32 list \<Rightarrow> bool" where
  "file_chain fs node cs \<longleftrightarrow>
     (if StartCluster node = 0 then cs = [] else cs \<noteq> [] \<and> cluster_chain fs (StartCluster node) cs) \<and>
     unat (vn_FileSize node) \<le> length cs * clu_bytes fs"

definition chain_bytes :: "fat \<Rightarrow> u32 list \<Rightarrow> u8 list" where
  "chain_bytes fs cs = concat (map (cluster_data fs) cs)"

definition file_contents :: "fat \<Rightarrow> FAT32_VNode \<Rightarrow> u32 list \<Rightarrow> u8 list" where
  "file_contents fs node cs = take (unat (vn_FileSize node)) (chain_bytes fs cs)"

lemma chain_bytes_Cons [simp]: "chain_bytes fs (c # cs) = cluster_data fs c @ chain_bytes fs cs"
  and chain_bytes_Nil [simp]: "chain_bytes fs [] = []"
  and chain_bytes_append: "chain_bytes fs (cs @ ds) = chain_bytes fs cs @ chain_bytes fs ds"
  by (simp_all add: chain_bytes_def)

lemma length_chain_bytes:
  assumes "geometry fs" and "\<And>c. c \<in> set cs \<Longrightarrow> valid_cluster fs c"
  shows "length (chain_bytes fs cs) = length cs * clu_bytes fs"
  using assms by (induction cs) (auto simp: length_cluster_data)

lemma file_chain_valid: "file_chain fs node cs \<Longrightarrow> c \<in> set cs \<Longrightarrow> valid_cluster fs c"
  using chain_valid by (auto simp: file_chain_def split: if_splits)

lemma length_file_contents:
  assumes "geometry fs" and "file_chain fs node cs"
  shows "length (file_contents fs node cs) = unat (vn_FileSize node)"
  using length_chain_bytes [OF assms(1), of cs] file_chain_valid [OF assms(2)] assms(2)
  by (simp add: file_contents_def file_chain_def)

lemma cluster_bytes_nat: "unat (cluster_bytes fs) = clu_bytes fs"
proof -
  have "sec_bytes fs < 2 ^ 16" "clu_secs fs < 2 ^ 8"
    using unsigned_less [of "bps fs", where ?'a = nat] unsigned_less [of "spc fs", where ?'a = nat] by simp_all
  then have "sec_bytes fs * clu_secs fs < 2 ^ 16 * 2 ^ 8" by (intro mult_strict_mono) simp_all
  then show ?thesis unfolding cluster_bytes_def clu_bytes_def
    by (subst unat_mult_no_wrap) (simp_all add: unat_ucast_wide)
qed

section \<open>Reading\<close>

lemma read_walk_spec:
  assumes "wf_fat fs"
  shows "cluster_chain fs c cs \<Longrightarrow> i < length cs \<Longrightarrow> read_walk i c fs = Some (Some (cs ! i)) \<and> cluster_chain fs (cs ! i) (drop i cs)"
proof (induction i arbitrary: c cs)
  case 0
  then show ?case by (cases cs) auto
next
  case (Suc i)
  have g: "geometry fs" using assms by (simp add: wf_fat_def)
  obtain ds where cs: "cs = c # ds" "valid_cluster fs c" "cluster_chain fs (fat_entry fs c) ds" "i < length ds"
    using Suc.prems by (cases cs) auto
  then have "valid_cluster fs (fat_entry fs c)" by (cases ds) auto
  then have "\<not> EOC \<le> fat_entry fs c" using valid_clusterD(2) [OF g] by (simp add: not_le)
  then show ?case using Suc.IH [OF cs(3,4)] cs(1) GetNextCluster_spec [OF assms valid_clusterD(3) [OF g cs(2)]] by simp
qed

text \<open>What one round of a loop over clusters transfers.\<close>

lemma round_size:
  fixes off :: u32
  assumes "geometry fs" and "unat off < clu_bytes fs"
  shows "unat (ucast (cluster_bytes fs - ucast off) :: u32) = clu_bytes fs - unat off" "ucast off < cluster_bytes fs"
proof -
  show lt: "ucast off < cluster_bytes fs" using assms(2) by (simp add: word_less_nat_alt cluster_bytes_nat unat_ucast_wide)
  then have "unat (cluster_bytes fs - ucast off) = clu_bytes fs - unat off"
    by (subst unat_diff_no_wrap) (simp_all add: cluster_bytes_nat unat_ucast_wide)
  moreover have "clu_bytes fs - unat off < 2 ^ 32" using clu_bytes_bounds(2) [OF assms(1)] by simp
  ultimately show "unat (ucast (cluster_bytes fs - ucast off) :: u32) = clu_bytes fs - unat off"
    by (simp add: unsigned_ucast_eq take_bit_nat_eq_self)
qed

lemma read_clusters_spec:
  assumes "wf_fat fs"
  shows "cluster_chain fs c cs \<Longrightarrow> unat off < clu_bytes fs \<Longrightarrow> unat off + unat n \<le> length cs * clu_bytes fs \<Longrightarrow>
    read_clusters n off c out fs = Some (out @ take (unat n) (drop (unat off) (chain_bytes fs cs)))"
proof (induction cs arbitrary: c n off out)
  case Nil
  then have "n = 0" by (simp add: word_unat_eq_iff)
  then show ?case by (simp add: read_clusters.simps)
next
  case (Cons d ds)
  have g: "geometry fs" using assms by (simp add: wf_fat_def)
  have d: "d = c" "valid_cluster fs c" and ch: "cluster_chain fs (fat_entry fs c) ds" using Cons.prems(1) by auto
  let ?avail = "ucast (cluster_bytes fs - ucast off) :: u32"
  let ?b = "cluster_data fs c"
  note a = round_size(1) [OF g Cons.prems(2)] and L = length_cluster_data [OF g d(2)]
  have rd: "part_read (ClusterToLBA c fs) (ucast (spc fs)) fs = Some (Some ?b)" using part_read_cluster [OF assms d(2)] .
  show ?case
  proof (cases "n = 0")
    case True
    then show ?thesis by (simp add: read_clusters.simps)
  next
    case n0: False
    then have n1: "0 < unat n" by (simp add: unat_gt_0)
    show ?thesis
    proof (cases "unat n \<le> unat ?avail")
      case True
      have "n < ?avail \<or> n = ?avail" using True by (simp add: word_less_nat_alt word_unat_eq_iff le_less)
      then have w: "(if n < ?avail then n else ?avail) = n" by auto
      have "get_bytes ?b (unat off) (unat n) = Some (take (unat n) (drop (unat off) ?b))"
        using True a L Cons.prems(2) by (simp add: get_bytes_def)
      then have "read_clusters n off c out fs = Some (out @ take (unat n) (drop (unat off) ?b))"
        using n0 rd w by (simp add: read_clusters.simps Let_def)
      then show ?thesis using True a L d(1) Cons.prems(2) by simp
    next
      case False
      then have w: "(if n < ?avail then n else ?avail) = ?avail" by (auto simp: word_less_nat_alt)
      have av: "?avail \<noteq> 0" using a Cons.prems(2) by auto
      have sub: "unat (n - ?avail) = unat n - (clu_bytes fs - unat off)" using False a by (simp add: unat_sub word_le_nat_alt)
      have ne: "n - ?avail \<noteq> 0" using False by auto
      have gb: "get_bytes ?b (unat off) (unat ?avail) = Some (drop (unat off) ?b)"
        using a L Cons.prems(2) by (simp add: get_bytes_def)
      have "ds \<noteq> []" using Cons.prems(3) False a Cons.prems(2) by auto
      then have "valid_cluster fs (fat_entry fs c)" using ch by (cases ds) auto
      then have nx: "\<not> EOC \<le> fat_entry fs c" using valid_clusterD(2) [OF g] by (simp add: not_le)
      have "read_clusters n off c out fs = read_clusters (n - ?avail) 0 (fat_entry fs c) (out @ drop (unat off) ?b) fs"
        using n0 rd w av gb ne nx GetNextCluster_spec [OF assms valid_clusterD(3) [OF g d(2)]]
        by (simp add: read_clusters.simps [of n] Let_def)
      also have "\<dots> = Some ((out @ drop (unat off) ?b) @ take (unat (n - ?avail)) (chain_bytes fs ds))"
        using Cons.IH [OF ch, of 0 "n - ?avail"] clu_bytes_bounds(1) [OF g] Cons.prems(2,3) sub a by auto
      finally show ?thesis using False a L d(1) Cons.prems(2) sub by simp
    qed
  qed
qed

text \<open>Reading returns the bytes of the file from the position on, as many as were asked for and exist.\<close>

lemma fat_Read_spec:
  fixes sz :: u32
  assumes "wf_fat fs" and "f_Node file = Some n" and "ino_ID n \<noteq> 0" and "vnodes fs (ino_ID n) = Some node"
    and "\<not> IsDirectory node" and "file_chain fs node cs"
  defines "d \<equiv> take (unat sz) (drop (unat (f_pos file)) (file_contents fs node cs))"
  shows "fat_Read file sz fs = Some (d, file\<lparr> f_pos := f_pos file + of_nat (length d) \<rparr>)"
proof -
  have g: "geometry fs" using assms(1) by (simp add: wf_fat_def)
  let ?P = "unat (f_pos file)" and ?F = "unat (vn_FileSize node)" and ?cb = "clu_bytes fs"
  note len = length_file_contents [OF g assms(6)] and cb = clu_bytes_bounds [OF g]
  have F: "unat (ucast (vn_FileSize node) :: u64) = ?F" by (simp add: unat_ucast_wide)
  show ?thesis
  proof (cases "sz = 0 \<or> ?F \<le> ?P")
    case True
    then have "d = []" by (auto simp: d_def len)
    moreover have "fat_Read file sz fs = Some ([], file)"
      using True assms(2-5) F by (auto simp: fat_Read_def word_le_nat_alt)
    ultimately show ?thesis by simp
  next
    case False
    then have sz: "sz \<noteq> 0" and P: "?P < ?F" by auto
    have "?F < 2 ^ 32" using unsigned_less [of "vn_FileSize node", where ?'a = nat] by simp
    have cs: "cs \<noteq> []" "cluster_chain fs (StartCluster node) cs" "StartCluster node \<noteq> 0" "?F \<le> length cs * ?cb"
      using assms(6) P by (auto simp: file_chain_def split: if_splits)
    have cb0: "cluster_bytes fs \<noteq> 0" using cb(1) cluster_bytes_nat [of fs] by auto
    define k where "k = ?P div ?cb"
    define off where "off = (ucast (f_pos file mod cluster_bytes fs) :: u32)"
    have k: "unat (ucast (f_pos file div cluster_bytes fs) :: u32) = k"
    proof -
      have "k \<le> ?P" by (simp add: k_def)
      then have "k < 2 ^ 32" using P \<open>?F < 2 ^ 32\<close> by linarith
      then show ?thesis by (simp add: unsigned_ucast_eq unat_div cluster_bytes_nat k_def take_bit_nat_eq_self)
    qed
    have o: "unat off = ?P mod ?cb"
    proof -
      have "?P mod ?cb < ?cb" using cb(1) by simp
      then have "?P mod ?cb < 2 ^ 32" using cb(2) by simp
      then show ?thesis by (simp add: off_def unsigned_ucast_eq unat_mod cluster_bytes_nat take_bit_nat_eq_self)
    qed
    have P': "?P = k * ?cb + unat off" by (simp add: k_def o)
    have kl: "k < length cs" using P cs(4) cb by (simp add: k_def div_less_iff_less_mult)
    define toRead where "toRead = (if ucast (vn_FileSize node) - f_pos file < ucast sz then ucast (ucast (vn_FileSize node) - f_pos file) else sz)"
    have rem: "unat (ucast (vn_FileSize node) - f_pos file :: u64) = ?F - ?P"
      using P F by (subst unat_diff_no_wrap) (simp_all add: word_le_nat_alt)
    have tr: "unat toRead = min (unat sz) (?F - ?P)"
    proof (cases "?F - ?P < unat sz")
      case True
      then show ?thesis using \<open>?F < 2 ^ 32\<close> rem
        by (simp add: toRead_def word_less_nat_alt unat_ucast_wide unat_ucast_narrow)
    next
      case False
      then show ?thesis using rem by (simp add: toRead_def word_less_nat_alt unat_ucast_wide)
    qed
    note W = read_walk_spec [OF assms(1) cs(2) kl]
    have "unat off + unat toRead \<le> length (drop k cs) * ?cb"
    proof -
      have "k * ?cb + unat off + unat toRead \<le> length cs * ?cb" using tr P P' cs(4) by linarith
      then show ?thesis by (simp add: diff_mult_distrib)
    qed
    then have "read_clusters toRead off (cs ! k) [] fs = Some (take (unat toRead) (drop (unat off) (chain_bytes fs (drop k cs))))"
      using read_clusters_spec [OF assms(1) conjunct2 [OF W], of off toRead "[]"] o cb by simp
    moreover have "take (unat toRead) (drop (unat off) (chain_bytes fs (drop k cs))) = d"
    proof -
      have v: "\<And>c. c \<in> set (take k cs) \<Longrightarrow> valid_cluster fs c" using chain_valid [OF cs(2)] by (meson in_set_takeD)
      have "chain_bytes fs cs = chain_bytes fs (take k cs) @ chain_bytes fs (drop k cs)"
        using chain_bytes_append [of fs "take k cs" "drop k cs"] by simp
      moreover have "length (chain_bytes fs (take k cs)) = k * ?cb" using length_chain_bytes [OF g v] kl by simp
      ultimately have "drop ?P (chain_bytes fs cs) = drop (unat off) (chain_bytes fs (drop k cs))" by (simp add: P')
      then show ?thesis by (simp add: d_def file_contents_def tr drop_take min.commute)
    qed
    ultimately have "read_clusters toRead off (cs ! k) [] fs = Some d" by simp
    then show ?thesis
      using assms(2-5) sz P F cs(3) cb0 W k
      by (simp add: fat_Read_def word_le_nat_alt Let_def off_def [symmetric] toRead_def [symmetric])
  qed
qed

section \<open>Writing\<close>

text \<open>The specification of a write at a position that is not beyond the end.\<close>

definition overwrite :: "nat \<Rightarrow> 'a list \<Rightarrow> 'a list \<Rightarrow> 'a list" where
  "overwrite i bs xs = take i xs @ bs @ drop (i + length bs) xs"

lemma length_overwrite: "i + length bs \<le> length xs \<Longrightarrow> length (overwrite i bs xs) = length xs"
  by (simp add: overwrite_def)

lemma overwrite_Nil [simp]: "overwrite i [] xs = xs"
  by (simp add: overwrite_def)

lemma overwrite_left: "i + length bs \<le> length xs \<Longrightarrow> overwrite i bs (xs @ ys) = overwrite i bs xs @ ys"
  by (simp add: overwrite_def)

lemma overwrite_across:
  assumes "i \<le> length xs" and "length as = length xs - i"
  shows "overwrite i (as @ bs) (xs @ ys) = overwrite i as xs @ overwrite 0 bs ys"
  using assms by (simp add: overwrite_def)

lemma take_overwrite_grow:
  assumes "i \<le> m" and "m \<le> length xs" and "i + length bs \<le> length xs"
  shows "take (max m (i + length bs)) (overwrite i bs xs) = overwrite i bs (take m xs)"
proof (cases "m \<le> i + length bs")
  case True
  then show ?thesis using assms by (cases bs) (auto simp: overwrite_def max_def min_def)
next
  case False
  then show ?thesis using assms by (simp add: overwrite_def max_def min_def drop_take)
qed

lemma write_part_spec:
  assumes "wf_fat fs" and "\<And>n. kmalloc_ok fs n" and "valid_cluster fs c" and "unat off + unat want \<le> clu_bytes fs"
    and "unat want \<le> length src"
  obtains fs' where "write_part src off want c fs = Some (True, fs')" "changes (cluster_region fs c) fs fs'"
    "cluster_data fs' c = overwrite (unat off) (take (unat want) src) (cluster_data fs c)"
proof -
  have g: "geometry fs" using assms(1) by (simp add: wf_fat_def)
  note L = length_cluster_data [OF g assms(3)] and cb = cluster_bytes_nat [of fs]
  show ?thesis
  proof (cases "off = 0 \<and> ucast want = cluster_bytes fs")
    case True
    then have w: "unat want = clu_bytes fs" using cb unat_ucast_wide [of want, where ?'b = 64] by simp
    obtain f1 where f1: "WriteCluster c src fs = Some (True, f1)" "changes (cluster_region fs c) fs f1"
      "m_NextFreeClusterHint f1 = m_NextFreeClusterHint fs" "cluster_data f1 c = take (clu_bytes fs) src"
      by (rule WriteCluster_spec [OF assms(1,3) assms(5) [unfolded w]])
    show ?thesis
    proof (rule that [of f1])
      show "write_part src off want c fs = Some (True, f1)" using True f1(1) by (simp add: write_part_def)
      show "cluster_data f1 c = overwrite (unat off) (take (unat want) src) (cluster_data fs c)"
        using True w f1(4) L assms(5) by (simp add: overwrite_def)
    qed (rule f1(2))
  next
    case False
    let ?t = "overwrite (unat off) (take (unat want) src) (cluster_data fs c)"
    have pb: "put_bytes (unat off) (take (unat want) src) (cluster_data fs c) = Some ?t"
      using assms(4,5) L by (simp add: put_bytes_def overwrite_def)
    have tl: "length ?t = clu_bytes fs" using assms(4,5) L by (simp add: length_overwrite)
    obtain f1 where f1: "WriteCluster c ?t fs = Some (True, f1)" "changes (cluster_region fs c) fs f1"
      "m_NextFreeClusterHint f1 = m_NextFreeClusterHint fs" "cluster_data f1 c = take (clu_bytes fs) ?t"
      by (rule WriteCluster_spec [OF assms(1,3) eq_imp_le [OF tl [symmetric]]])
    show ?thesis
    proof (rule that [of f1])
      show "write_part src off want c fs = Some (True, f1)"
        unfolding write_part_def if_not_P [OF False] using assms(2) f1(1) pb ReadCluster_spec [OF assms(1,3)] by (simp add: Let_def)
      show "cluster_data f1 c = ?t" using f1(4) tl by simp
    qed (rule f1(2))
  qed
qed

text \<open>The sectors a write to a list of clusters may change.\<close>

definition file_region :: "fat \<Rightarrow> u32 list \<Rightarrow> nat set" where
  "file_region fs cs = {0 ..< data_base fs} \<union> (\<Union>c \<in> set cs. cluster_region fs c)"

lemma file_region_Cons: "file_region fs (c # cs) = cluster_region fs c \<union> file_region fs cs"
  by (auto simp: file_region_def)

lemma file_region_other:
  assumes "geometry fs" and "valid_cluster fs d" and "d \<notin> set cs" and "\<And>c. c \<in> set cs \<Longrightarrow> valid_cluster fs c"
  shows "file_region fs cs \<inter> cluster_region fs d = {}"
proof -
  have "cluster_region fs c \<inter> cluster_region fs d = {}" if "c \<in> set cs" for c
    using cluster_regions_disjoint [of c d fs] that assms valid_clusterD(1) [OF assms(1)] by blast
  moreover have "{0 ..< data_base fs} \<inter> cluster_region fs d = {}" using cluster_region_data [OF assms(1,2)] by auto
  ultimately show ?thesis by (auto simp: file_region_def)
qed

text \<open>
  The effect of writing \<open>w\<close> bytes of \<open>src\<close> at \<open>off\<close> into the chain \<open>cs\<close>, which the clusters \<open>ext\<close>, all
  free before, extend. Writing stops early only when the volume is full.
\<close>

definition wrote :: "fat \<Rightarrow> u32 \<Rightarrow> u32 list \<Rightarrow> nat \<Rightarrow> u8 list \<Rightarrow> fat \<Rightarrow> u32 list \<Rightarrow> nat \<Rightarrow> bool" where
  "wrote fs c cs off src fs' ext w \<longleftrightarrow>
     changes (file_region fs (cs @ ext)) fs fs' \<and> cluster_chain fs' c (cs @ ext) \<and> set ext \<subseteq> free_clusters fs \<and>
     (\<forall>d. unat d < nclusters fs + 2 \<longrightarrow> d \<notin> set (cs @ ext) \<longrightarrow> fat_entry fs' d = fat_entry fs d) \<and>
     chain_bytes fs' (cs @ ext) = overwrite off (take w src) (chain_bytes fs (cs @ ext)) \<and>
     w \<le> length src \<and> off + w \<le> length (cs @ ext) * clu_bytes fs \<and>
     (w = length src \<or> free_clusters fs' = {} \<and> off + w = length (cs @ ext) * clu_bytes fs) \<and>
     (copies_agree fs \<longrightarrow> copies_agree fs')"

lemma chain_bytes_same:
  assumes "changes S fs fs'" and "geometry fs" and "\<And>c. c \<in> set cs \<Longrightarrow> valid_cluster fs c \<and> S \<inter> cluster_region fs c = {}"
  shows "chain_bytes fs' cs = chain_bytes fs cs"
  using assms(3) changes_cluster_data [OF assms(1,2)] by (induction cs) auto

lemma free_clusters_same:
  assumes "changes S fs fs'" and "\<And>d. valid_cluster fs d \<Longrightarrow> (fat_entry fs' d = 0) = (fat_entry fs d = 0)"
  shows "free_clusters fs' = free_clusters fs"
  using assms(2) changes_frame(4) [OF assms(1)]
  by (auto simp: free_clusters_def valid_cluster_def word_less_nat_alt word_le_nat_alt)

lemma cluster_region_fat:
  assumes "geometry fs" and "valid_cluster fs c"
  shows "cluster_region fs c \<inter> fat_region fs = {}" "cluster_region fs c \<inter> {0 ..< data_base fs} = {}"
  using cluster_region_data [OF assms] by (auto simp: fat_region_def)

text \<open>The first round fits everything.\<close>

lemma wrote_one:
  assumes "wf_fat fs" and "cluster_chain fs c (c # ds)" and "changes (cluster_region fs c) fs f1"
    and "cluster_data f1 c = overwrite off src (cluster_data fs c)" and "off + length src \<le> clu_bytes fs"
  shows "wrote fs c (c # ds) off src f1 [] (length src)"
proof -
  have g: "geometry fs" using assms(1) by (simp add: wf_fat_def)
  have v: "\<And>d. d \<in> set (c # ds) \<Longrightarrow> valid_cluster fs d" using chain_valid [OF assms(2)] .
  have c: "valid_cluster fs c" using v by simp
  note R = cluster_region_fat [OF g c]
  have E: "fat_entry f1 d = fat_entry fs d" if "unat d < nclusters fs + 2" for d
    using changes_fat_entry [OF assms(3) g that] R(1) by simp
  have "cluster_chain f1 c (c # ds)"
    using assms(2) cluster_chain_cong [of f1 fs "c # ds" c] changes_derived(4) [OF assms(3)] E v by (simp add: valid_cluster_def)
  moreover have "chain_bytes f1 ds = chain_bytes fs ds"
  proof (rule chain_bytes_same [OF assms(3) g])
    fix d assume d: "d \<in> set ds"
    then have "d \<noteq> c" using chain_distinct [OF g assms(2)] by auto
    then show "valid_cluster fs d \<and> cluster_region fs c \<inter> cluster_region fs d = {}"
      using cluster_regions_disjoint [of c d fs] v d valid_clusterD(1) [OF g] by simp
  qed
  moreover have "overwrite off src (cluster_data fs c @ chain_bytes fs ds) = overwrite off src (cluster_data fs c) @ chain_bytes fs ds"
    using overwrite_left [of off src "cluster_data fs c"] length_cluster_data [OF g c] assms(5) by simp
  moreover have "changes (file_region fs (c # ds)) fs f1" by (rule changes_mono [OF assms(3)]) (auto simp: file_region_Cons)
  moreover have "copies_agree fs \<longrightarrow> copies_agree f1" using changes_copies [OF assms(3) g R(1)] by blast
  ultimately show ?thesis using assms(4,5) E by (simp add: wrote_def)
qed

lemma chain_entry_nonzero:
  assumes "geometry fs"
  shows "cluster_chain fs c cs \<Longrightarrow> d \<in> set cs \<Longrightarrow> fat_entry fs d \<noteq> 0"
proof (induction cs arbitrary: c)
  case (Cons e es)
  show ?case
  proof (cases "d = e")
    case True
    have "cluster_chain fs (fat_entry fs e) es" using Cons.prems(1) by auto
    then have "EOC \<le> fat_entry fs e \<or> 2 \<le> fat_entry fs e" using valid_clusterD(1) [OF assms] by (cases es) auto
    then show ?thesis using True by (auto simp: word_le_nat_alt)
  next
    case False
    then show ?thesis using Cons by auto
  qed
qed simp

text \<open>
  A full first cluster, and the rest written to the clusters after it; \<open>new\<close> are the clusters added in
  between.
\<close>

lemma wrote_more:
  assumes wf: "wf_fat fs" and ch: "changes (cluster_region fs c \<union> {0 ..< data_base fs}) fs f2"
    and cd: "cluster_data f2 c = overwrite off (take n src) (cluster_data fs c)"
    and en: "\<forall>d. unat d < nclusters fs + 2 \<longrightarrow> d \<notin> set (c # new) \<longrightarrow> fat_entry f2 d = fat_entry fs d"
    and chn: "cluster_chain f2 c (c # ds @ new)" and new: "set new \<subseteq> free_clusters fs"
    and n: "off + n = clu_bytes fs" "n \<le> length src"
    and W: "wrote f2 (fat_entry f2 c) (ds @ new) 0 (drop n src) fs' ext w" and copies: "copies_agree fs \<longrightarrow> copies_agree f2"
  shows "wrote fs c (c # ds) off src fs' (new @ ext) (n + w)"
proof -
  let ?r = "(ds @ new) @ ext"
  have g: "geometry fs" using wf by (simp add: wf_fat_def)
  note same = changes_frame [OF ch] changes_derived [OF ch]
  have g2: "geometry f2" using changes_geometry [OF ch g] .
  have w: "changes (file_region f2 ?r) f2 fs'" "cluster_chain fs' (fat_entry f2 c) ?r" "set ext \<subseteq> free_clusters f2"
    "\<forall>d. unat d < nclusters f2 + 2 \<longrightarrow> d \<notin> set ?r \<longrightarrow> fat_entry fs' d = fat_entry f2 d"
    "chain_bytes fs' ?r = overwrite 0 (take w (drop n src)) (chain_bytes f2 ?r)"
    "w \<le> length (drop n src)" "0 + w \<le> length ?r * clu_bytes f2"
    "w = length (drop n src) \<or> free_clusters fs' = {} \<and> 0 + w = length ?r * clu_bytes f2" "copies_agree f2 \<longrightarrow> copies_agree fs'"
    using W unfolding wrote_def by blast+
  have v2: "\<And>d. d \<in> set (c # ds @ new) \<Longrightarrow> valid_cluster fs d" using chain_valid [OF chn] same by simp
  have nz: "\<And>d. d \<in> set (c # ds @ new) \<Longrightarrow> fat_entry f2 d \<noteq> 0" using chain_entry_nonzero [OF g2 chn] .
  have fr: "file_region f2 = file_region fs" by (simp add: fun_eq_iff file_region_def same)
  have ext: "set ext \<subseteq> free_clusters fs"
  proof
    fix e assume e: "e \<in> set ext"
    then have "e \<in> free_clusters f2" using w(3) by blast
    then have z: "valid_cluster fs e" "fat_entry f2 e = 0" "2 \<le> e" "e < m_TotalClusters fs"
      using free_clusterD [of e f2] same by (auto simp: free_clusters_def)
    then have "e \<notin> set (c # new)" using nz [of e] by auto
    then show "e \<in> free_clusters fs" using z en by (auto simp: free_clusters_def valid_cluster_def)
  qed
  have c: "valid_cluster fs c" "c \<notin> set ?r"
  proof -
    show "valid_cluster fs c" using v2 by simp
    have "c \<notin> set (ds @ new)" using chain_distinct [OF g2 chn] by simp
    moreover have "c \<notin> set ext" using nz [of c] w(3) free_clusterD(2) by fastforce
    ultimately show "c \<notin> set ?r" by simp
  qed
  have vr: "valid_cluster fs d" if "d \<in> set ?r" for d
    using that v2 [of d] ext free_clusterD(1) [of d fs] by auto
  have cc: "unat c < nclusters fs + 2" using c(1) by (simp add: valid_cluster_def)
  have ec: "fat_entry fs' c = fat_entry f2 c" using w(4) c(2) cc same by simp
  have dc: "cluster_data fs' c = cluster_data f2 c"
    by (rule changes_cluster_data [OF w(1) g2]) (use c vr file_region_other [OF g c(1,2)] in \<open>simp_all add: same fr\<close>)
  have dr: "chain_bytes f2 ?r = chain_bytes fs ?r"
  proof (rule chain_bytes_same [OF ch g])
    fix d assume d: "d \<in> set ?r"
    then have "d \<noteq> c" using c(2) by blast
    then have "cluster_region fs c \<inter> cluster_region fs d = {}"
      using cluster_regions_disjoint [of c d fs] vr [OF d] c(1) valid_clusterD(1) [OF g] by simp
    then show "valid_cluster fs d \<and> (cluster_region fs c \<union> {0 ..< data_base fs}) \<inter> cluster_region fs d = {}"
      using vr [OF d] cluster_region_fat(2) [OF g vr [OF d]] by blast
  qed
  have "changes (file_region fs ((c # ds) @ new @ ext)) fs fs'"
    by (rule changes_mono [OF changes_trans [OF ch w(1)]]) (auto simp: fr file_region_def)
  moreover have "cluster_chain fs' c ((c # ds) @ new @ ext)"
    using w(2) ec c(1) changes_derived(4) [OF w(1)] same by simp
  moreover have "chain_bytes fs' ((c # ds) @ new @ ext) = overwrite off (take (n + w) src) (chain_bytes fs ((c # ds) @ new @ ext))"
  proof -
    have "take (n + w) src = take n src @ take w (drop n src)" by (rule take_add)
    then have "overwrite off (take (n + w) src) (cluster_data fs c @ chain_bytes fs ?r) =
        overwrite off (take n src) (cluster_data fs c) @ overwrite 0 (take w (drop n src)) (chain_bytes fs ?r)"
      by (simp only:) (rule overwrite_across, use n length_cluster_data [OF g c(1)] in simp_all)
    then show ?thesis using w(5) dc cd dr by simp
  qed
  moreover have "fat_entry fs' d = fat_entry fs d" if "unat d < nclusters fs + 2" "d \<notin> set ((c # ds) @ new @ ext)" for d
    using w(4) en that same by auto
  moreover have "n + w \<le> length src" "off + (n + w) \<le> length ((c # ds) @ new @ ext) * clu_bytes fs"
    "n + w = length src \<or> free_clusters fs' = {} \<and> off + (n + w) = length ((c # ds) @ new @ ext) * clu_bytes fs"
    using w(6-8) n same by auto
  ultimately show ?thesis using new ext w(9) copies unfolding wrote_def by auto
qed

lemma wrote_stop:
  assumes "wf_fat fs" and "cluster_chain fs c [c]" and "changes (cluster_region fs c) fs f1"
    and "cluster_data f1 c = overwrite off (take n src) (cluster_data fs c)" and "off + n = clu_bytes fs" and "n \<le> length src"
    and "free_clusters f1 = {}"
  shows "wrote fs c [c] off src f1 [] n"
proof -
  have "wrote fs c [c] off (take n src) f1 [] (length (take n src))"
    by (rule wrote_one [OF assms(1-4)]) (use assms(5,6) in simp)
  then show ?thesis using assms(5-7) by (simp add: wrote_def)
qed

lemma write_clusters_spec:
  assumes "wf_fat fs" and "\<forall>n. kmalloc_ok fs n" and "cluster_chain fs c cs" and "cs \<noteq> []" and "unat off < clu_bytes fs"
    and "src \<noteq> []" and "length src < 2 ^ 32"
  shows "\<exists>w ext fs'. write_clusters src off c prev tot fs = Some (tot + w, fs') \<and> wrote fs c cs (unat off) src fs' ext w"
  using assms
proof (induction "length src" arbitrary: src off c cs prev tot fs rule: less_induct)
  case less
  have g: "geometry fs" using less.prems(1) by (simp add: wf_fat_def)
  obtain ds where cs: "cs = c # ds" "valid_cluster fs c" "cluster_chain fs (fat_entry fs c) ds" using less.prems(3,4) by (cases cs) auto
  note V = valid_clusterD [OF g cs(2)] and cb = clu_bytes_bounds [OF g]
  let ?can = "ucast (cluster_bytes fs - ucast off) :: u32"
  define want where "want = chunk (of_nat (length src)) off fs"
  note a = round_size(1) [OF g less.prems(5)]
  have ln: "unat (of_nat (length src) :: u32) = length src" using less.prems(7) by (simp add: unat_of_nat take_bit_nat_eq_self)
  define n where "n = min (length src) (clu_bytes fs - unat off)"
  have want: "unat want = n" using a ln by (auto simp: want_def chunk_def n_def word_less_nat_alt min_def)
  have n: "0 < n" "n \<le> length src" "unat off + n \<le> clu_bytes fs" using less.prems(5,6) by (auto simp: n_def)
  have w0: "want \<noteq> 0" using want n(1) by auto
  obtain f1 where f1: "write_part src off want c fs = Some (True, f1)" "changes (cluster_region fs c) fs f1"
    "cluster_data f1 c = overwrite (unat off) (take (unat want) src) (cluster_data fs c)"
    by (rule write_part_spec [OF less.prems(1) less.prems(2) [rule_format] cs(2), of off want src]) (use n want in auto)
  have cd: "cluster_data f1 c = overwrite (unat off) (take n src) (cluster_data fs c)" using f1(3) want by simp
  note same = changes_frame [OF f1(2)] changes_derived [OF f1(2)] and wf1 = changes_wf [OF f1(2) less.prems(1)]
    and g1 = changes_geometry [OF f1(2) g] and R = cluster_region_fat [OF g cs(2)]
  have E1: "fat_entry f1 d = fat_entry fs d" if "unat d < nclusters fs + 2" for d
    using changes_fat_entry [OF f1(2) g that R(1)] .
  have chain1: "cluster_chain f1 c cs"
    using less.prems(3) cluster_chain_cong [of f1 fs cs c] E1 chain_valid [OF less.prems(3)] same by (simp add: valid_cluster_def)
  have nx: "GetNextCluster c f1 = Some (fat_entry fs c)" using GetNextCluster_spec [OF wf1, of c] V(3) E1 same by simp
  have c0: "c \<noteq> 0" using V(1) by auto
  have step: "write_clusters src off c prev tot fs =
     (if drop n src = [] then Some (tot + n, f1)
      else if EOC \<le> fat_entry fs c then
        do { (newc, f2) \<leftarrow> AllocateCluster c f1;
             if newc = 0 then Some (tot + n, f2) else write_clusters (drop n src) 0 newc c (tot + n) f2 }
      else write_clusters (drop n src) 0 (fat_entry fs c) c (tot + n) f1)"
    unfolding write_clusters.simps [of src] using less.prems(6) c0 w0 f1(1) nx want
    by (cases "AllocateCluster c f1") (auto simp: Let_def want_def [symmetric])
  show ?case
  proof (cases "drop n src = []")
    case True
    then have "n = length src" using n(2) by simp
    then have "wrote fs c cs (unat off) src f1 [] n"
      using wrote_one [OF less.prems(1), of c ds f1 "unat off" src] less.prems(3) cs(1) f1(2) cd n(3) by simp
    then show ?thesis using step True by auto
  next
    case False
    then have nn: "unat off + n = clu_bytes fs" using n(3) by (auto simp: n_def)
    have sh: "length (drop n src) < length src" using n(1) less.prems(6) by simp
    have l32: "length (drop n src) < 2 ^ 32" using less.prems(7) by simp
    note IH = less.hyps [OF sh _ _ _ _ _ False l32]
    have c1: "0 < clu_bytes fs" using cb(1) by simp
    show ?thesis
    proof (cases ds)
      case Nil
      then have eoc: "EOC \<le> fat_entry fs c" using cs(3) by simp
      have pre: "c = 0 \<or> valid_cluster f1 c \<and> fat_entry f1 c \<noteq> 0" using cs(2) same E1 V(3) eoc by auto
      show ?thesis
      proof (cases rule: AllocateCluster_spec [OF wf1 pre])
        case 1
        have "wrote fs c cs (unat off) src f1 [] n"
          using wrote_stop [OF less.prems(1) _ f1(2) cd nn n(2) 1(1)] less.prems(3) cs(1) Nil by simp
        then show ?thesis using step False eoc 1(2) by (intro exI [of _ n] exI [of _ "[]"] exI [of _ f1]) simp
      next
        case (2 nc f2)
        note nc = free_clusterD [OF 2(2)]
        note ch2 = changes_trans [OF f1(2) 2(3) [unfolded same]]
        have same2: "nclusters f2 = nclusters fs" "valid_cluster f2 = valid_cluster fs" "clu_bytes f2 = clu_bytes fs" "kmalloc_ok f2 = kmalloc_ok fs"
          using changes_frame [OF ch2] changes_derived [OF ch2] by simp_all
        have ncv: "valid_cluster fs nc" "unat nc < nclusters fs + 2" using nc(1) same by (auto simp: valid_cluster_def)
        have ne: "nc \<noteq> c" using nc(2) pre c0 by auto
        have e2: "fat_entry f2 nc = EOC" "fat_entry f2 c = nc" using 2(4) ncv(2) V(3) ne c0 same by auto
        have chnc: "cluster_chain f2 nc [nc]" using e2(1) ncv(1) same2 by simp
        obtain w ext fs' where r: "write_clusters (drop n src) 0 nc c (tot + n) f2 = Some (tot + n + w, fs')" "wrote f2 nc [nc] 0 (drop n src) fs' ext w"
          using IH [OF changes_wf [OF ch2 less.prems(1)] _ chnc, of 0 c "tot + n"] less.prems(2,7) same2 c1 by auto
        have "wrote fs c (c # []) (unat off) src fs' ([nc] @ ext) (n + w)"
        proof (rule wrote_more [OF less.prems(1) ch2 _ _ _ _ nn n(2)])
          show "cluster_data f2 c = overwrite (unat off) (take n src) (cluster_data fs c)"
            using changes_cluster_data [OF 2(3) g1, of c] cd cs(2) R(2) same by (simp add: Int_commute)
          show "\<forall>d. unat d < nclusters fs + 2 \<longrightarrow> d \<notin> set (c # [nc]) \<longrightarrow> fat_entry f2 d = fat_entry fs d"
            using 2(4) E1 same by auto
          show "cluster_chain f2 c (c # [] @ [nc])" using chnc e2(2) cs(2) same2 by simp
          show "set [nc] \<subseteq> free_clusters fs" using nc(2) E1 ncv 2(2) same by (simp add: free_clusters_def)
          show "wrote f2 (fat_entry f2 c) ([] @ [nc]) 0 (drop n src) fs' ext w" using r(2) e2(2) by simp
          show "copies_agree fs \<longrightarrow> copies_agree f2" using changes_copies [OF f1(2) g R(1)] 2(5) by blast
        qed
        moreover have "write_clusters src off c prev tot fs = Some (tot + (n + w), fs')"
          using step False eoc 2(1) nc(3) r(1) by (simp add: add.assoc)
        ultimately show ?thesis using cs(1) Nil by blast
      qed
    next
      case (Cons d es)
      then have dv: "d = fat_entry fs c" "valid_cluster fs d" using cs(3) by auto
      then have eoc: "\<not> EOC \<le> fat_entry fs c" using valid_clusterD(2) [OF g dv(2)] by (simp add: not_le)
      have ec: "fat_entry f1 c = fat_entry fs c" using E1 V(3) by simp
      have ch': "cluster_chain f1 (fat_entry fs c) ds" using chain1 cs(1) ec by simp
      obtain w ext fs' where r: "write_clusters (drop n src) 0 (fat_entry fs c) c (tot + n) f1 = Some (tot + n + w, fs')"
        "wrote f1 (fat_entry fs c) ds 0 (drop n src) fs' ext w"
        using IH [OF wf1 _ ch', of 0 c "tot + n"] less.prems(2,7) same c1 Cons by auto
      have ch2: "changes (cluster_region fs c \<union> {0 ..< data_base fs}) fs f1" by (rule changes_mono [OF f1(2)]) simp
      have "wrote fs c (c # ds) (unat off) src fs' ([] @ ext) (n + w)"
      proof (rule wrote_more [OF less.prems(1) ch2 cd _ _ _ nn n(2)])
        show "cluster_chain f1 c (c # ds @ [])" using chain1 cs(1) by simp
        show "wrote f1 (fat_entry f1 c) (ds @ []) 0 (drop n src) fs' ext w" using r(2) ec by simp
        show "copies_agree fs \<longrightarrow> copies_agree f1" using changes_copies [OF f1(2) g R(1)] by blast
      qed (use E1 in auto)
      moreover have "write_clusters src off c prev tot fs = Some (tot + (n + w), fs')"
        using step False eoc r(1) by (simp add: add.assoc)
      ultimately show ?thesis using cs(1) by auto
    qed
  qed
qed

text \<open>The clusters before the first one that is written keep their place and their bytes.\<close>

lemma wrote_prefix:
  assumes wf: "wf_fat fs" and chn: "cluster_chain fs c (xs @ d # ds)" and W: "wrote fs d (d # ds) off src fs' ext w"
  shows "wrote fs c (xs @ d # ds) (length xs * clu_bytes fs + off) src fs' ext w"
proof -
  have g: "geometry fs" using wf by (simp add: wf_fat_def)
  let ?r = "(d # ds) @ ext"
  have w: "changes (file_region fs ?r) fs fs'" "cluster_chain fs' d ?r" "set ext \<subseteq> free_clusters fs"
    "\<forall>e. unat e < nclusters fs + 2 \<longrightarrow> e \<notin> set ?r \<longrightarrow> fat_entry fs' e = fat_entry fs e"
    "chain_bytes fs' ?r = overwrite off (take w src) (chain_bytes fs ?r)"
    "w \<le> length src" "off + w \<le> length ?r * clu_bytes fs"
    "w = length src \<or> free_clusters fs' = {} \<and> off + w = length ?r * clu_bytes fs" "copies_agree fs \<longrightarrow> copies_agree fs'"
    using W unfolding wrote_def by blast+
  have v: "\<And>e. e \<in> set (xs @ d # ds) \<Longrightarrow> valid_cluster fs e" using chain_valid [OF chn] .
  have nr: "e \<notin> set ?r" if "e \<in> set xs" for e
  proof -
    have "e \<notin> set (d # ds)" using chain_distinct [OF g chn] that by auto
    moreover have "e \<notin> set ext" using chain_entry_nonzero [OF g chn, of e] w(3) free_clusterD(2) that by fastforce
    ultimately show ?thesis by simp
  qed
  have vr: "\<And>e. e \<in> set ?r \<Longrightarrow> valid_cluster fs e" using v w(3) free_clusterD(1) by fastforce
  have E: "fat_entry fs' e = fat_entry fs e" if "e \<in> set xs" for e
    using w(4) nr [OF that] v [of e] that by (simp add: valid_cluster_def)
  have cluster_chain': "cluster_chain fs' c (xs @ ?r)"
    using chn E v w(2) changes_derived(4) [OF w(1)]
  proof (induction xs arbitrary: c)
    case Nil
    then show ?case by simp
  next
    case (Cons x xs)
    then show ?case by auto
  qed
  have bx: "chain_bytes fs' xs = chain_bytes fs xs"
  proof (rule chain_bytes_same [OF w(1) g])
    fix e assume e: "e \<in> set xs"
    then have "valid_cluster fs e" using v by simp
    then show "valid_cluster fs e \<and> file_region fs ?r \<inter> cluster_region fs e = {}"
      using file_region_other [OF g _ nr [OF e] vr] by blast
  qed
  have lx: "length (chain_bytes fs xs) = length xs * clu_bytes fs" using length_chain_bytes [OF g, of xs] v by simp
  have "chain_bytes fs' (xs @ ?r) = overwrite (length xs * clu_bytes fs + off) (take w src) (chain_bytes fs (xs @ ?r))"
    unfolding chain_bytes_append [of _ xs] bx w(5) using lx by (simp add: overwrite_def)
  moreover have "changes (file_region fs (xs @ ?r)) fs fs'" by (rule changes_mono [OF w(1)]) (auto simp: file_region_def)
  ultimately show ?thesis unfolding wrote_def using w cluster_chain' by (auto simp: algebra_simps)
qed

text \<open>A write into a chain that has just been given one more cluster is a write into the chain before.\<close>

lemma wrote_alloc:
  assumes wf: "wf_fat fs" and ch: "changes {0 ..< data_base fs} fs f1" and nc: "nc \<in> free_clusters fs"
    and en: "\<forall>d. unat d < nclusters fs + 2 \<longrightarrow> d \<notin> set cs \<longrightarrow> d \<noteq> nc \<longrightarrow> fat_entry f1 d = fat_entry fs d"
    and chn: "cluster_chain f1 c (cs @ [nc])" and W: "wrote f1 c (cs @ [nc]) off src fs' ext w" and copies: "copies_agree fs \<longrightarrow> copies_agree f1"
  shows "wrote fs c cs off src fs' (nc # ext) w"
proof -
  have g: "geometry fs" using wf by (simp add: wf_fat_def)
  note same = changes_frame [OF ch] changes_derived [OF ch]
  have g1: "geometry f1" using changes_geometry [OF ch g] .
  let ?r = "(cs @ [nc]) @ ext"
  have w: "changes (file_region f1 ?r) f1 fs'" "cluster_chain fs' c ?r" "set ext \<subseteq> free_clusters f1"
    "\<forall>e. unat e < nclusters f1 + 2 \<longrightarrow> e \<notin> set ?r \<longrightarrow> fat_entry fs' e = fat_entry f1 e"
    "chain_bytes fs' ?r = overwrite off (take w src) (chain_bytes f1 ?r)"
    "w \<le> length src" "off + w \<le> length ?r * clu_bytes f1"
    "w = length src \<or> free_clusters fs' = {} \<and> off + w = length ?r * clu_bytes f1" "copies_agree f1 \<longrightarrow> copies_agree fs'"
    using W unfolding wrote_def by blast+
  have nz: "\<And>d. d \<in> set (cs @ [nc]) \<Longrightarrow> fat_entry f1 d \<noteq> 0" using chain_entry_nonzero [OF g1 chn] .
  have ext: "set ext \<subseteq> free_clusters fs"
  proof
    fix e assume "e \<in> set ext"
    then have "e \<in> free_clusters f1" using w(3) by blast
    then have z: "valid_cluster fs e" "fat_entry f1 e = 0" "2 \<le> e" "e < m_TotalClusters fs"
      using free_clusterD [of e f1] same by (auto simp: free_clusters_def)
    then have "e \<notin> set cs" "e \<noteq> nc" using nz [of e] by auto
    then show "e \<in> free_clusters fs" using z en by (auto simp: free_clusters_def valid_cluster_def)
  qed
  have vr: "valid_cluster fs e" if "e \<in> set ?r" for e
    using that chain_valid [OF chn, of e] same ext free_clusterD(1) [of e fs] by auto
  have "chain_bytes f1 ?r = chain_bytes fs ?r"
    by (rule chain_bytes_same [OF ch g]) (use vr cluster_region_fat(2) [OF g] in \<open>simp add: Int_commute\<close>)
  moreover have "changes (file_region fs (cs @ nc # ext)) fs fs'"
    by (rule changes_mono [OF changes_trans [OF ch w(1)]]) (auto simp: file_region_def same)
  moreover have "fat_entry fs' d = fat_entry fs d" if "unat d < nclusters fs + 2" "d \<notin> set (cs @ nc # ext)" for d
    using w(4) en that same by auto
  ultimately show ?thesis unfolding wrote_def using w nc ext copies same by auto
qed

lemma cluster_chain_snoc:
  assumes "geometry fs" and "cluster_chain fs c cs" and "cs \<noteq> []" and "valid_cluster fs' = valid_cluster fs"
    and "\<And>d. d \<in> set cs \<Longrightarrow> fat_entry fs' d = (if d = last cs then nc else fat_entry fs d)"
    and "valid_cluster fs nc" and "EOC \<le> fat_entry fs' nc"
  shows "cluster_chain fs' c (cs @ [nc])"
  using assms(2-5)
proof (induction cs arbitrary: c)
  case (Cons d ds)
  show ?case
  proof (cases "ds = []")
    case True
    then show ?thesis using Cons.prems assms(6,7) by auto
  next
    case False
    have dl: "d \<noteq> last (d # ds)" using chain_distinct [OF assms(1) Cons.prems(1)] False by auto
    have "fat_entry fs' c = fat_entry fs c" using Cons.prems(1) Cons.prems(4) [of d] dl by auto
    moreover have "cluster_chain fs' (fat_entry fs c) (ds @ [nc])"
      using Cons.IH [of "fat_entry fs c"] Cons.prems False by auto
    ultimately show ?thesis using Cons.prems(1,3) by auto
  qed
qed simp

lemma write_walk_inside:
  assumes "wf_fat fs"
  shows "cluster_chain fs c cs \<Longrightarrow> i < length cs \<Longrightarrow> \<exists>p. write_walk i prev c fs = Some (Some (p, cs ! i), fs)"
proof (induction i arbitrary: c cs prev)
  case 0
  then show ?case by (cases cs) auto
next
  case (Suc i)
  have g: "geometry fs" using assms by (simp add: wf_fat_def)
  obtain ds where cs: "cs = c # ds" "valid_cluster fs c" "cluster_chain fs (fat_entry fs c) ds" "i < length ds"
    using Suc.prems by (cases cs) auto
  then have "valid_cluster fs (fat_entry fs c)" by (cases ds) auto
  then have "\<not> EOC \<le> fat_entry fs c" using valid_clusterD(2) [OF g] by (simp add: not_le)
  then show ?case using Suc.IH [OF cs(3,4), of c] cs(1) GetNextCluster_spec [OF assms valid_clusterD(3) [OF g cs(2)]] by simp
qed

lemma write_walk_add: "write_walk (i + j) prev c fs =
    (case write_walk i prev c fs of
       None \<Rightarrow> None
     | Some (None, fs') \<Rightarrow> Some (None, fs')
     | Some (Some (p, c'), fs') \<Rightarrow> write_walk j p c' fs')"
  by (induction i arbitrary: prev c fs) (auto simp: Option.bind_eq_None_conv split: option.split bind_split)

section \<open>Directory entries\<close>

lemma get32_put_apart:
  assumes "put_bytes i bs p = Some q" and "j + 4 \<le> i \<or> i + length bs \<le> j"
  shows "get32 q j = get32 p j"
  using assms(2) put_bytes_SomeD [OF assms(1)] nth_put_bytes [OF assms(1)] by (auto simp: get32_def)

lemma get16_put_apart:
  assumes "put_bytes i bs p = Some q" and "j + 2 \<le> i \<or> i + length bs \<le> j"
  shows "get16 q j = get16 p j"
  using assms(2) put_bytes_SomeD [OF assms(1)] nth_put_bytes [OF assms(1)] by (auto simp: get16_def)

lemma get16_put16: "put_bytes i (bytes16 v) p = Some q \<Longrightarrow> get16 q i = Some v"
  by (auto simp: put_bytes_def intro!: get16_at split: if_splits)

lemma put_keeps: "put_bytes i bs p = Some q \<Longrightarrow> j < length p \<Longrightarrow> j < i \<or> i + length bs \<le> j \<Longrightarrow> q ! j = p ! j"
  using nth_put_bytes [of i bs p q j] by auto

lemma put_bytes_ok: "i + length bs \<le> length p \<Longrightarrow> \<exists>q. put_bytes i bs p = Some q \<and> length q = length p"
  by (simp add: put_bytes_def)

text \<open>The first cluster and the size that an entry at \<open>e\<close> of a sector records, as \<^verbatim>\<open>Lookup\<close> reads them.\<close>

definition entry_cluster :: "u8 list \<Rightarrow> nat \<Rightarrow> u32 option" where
  "entry_cluster b e =
     do { hi \<leftarrow> get16 b (e + 20);
          lo \<leftarrow> get16 b (e + 26);
          Some (push_bit 16 (ucast hi) OR ucast lo) }"

definition entry_size :: "u8 list \<Rightarrow> nat \<Rightarrow> u32 option" where
  "entry_size b e = get32 b (e + 28)"

lemma cluster_halves: "push_bit 16 (ucast (ucast (drop_bit 16 c AND 0xFFFF) :: u16)) OR ucast (ucast (c AND 0xFFFF) :: u16) = c" for c :: u32
proof -
  have m: "(0xFFFF :: u32) = mask 16" by (simp add: mask_eq_exp_minus_1)
  show ?thesis unfolding m by (rule bit_word_eqI) (auto simp: bit_simps)
qed

lemma fill_entry_spec:
  assumes "e + 32 \<le> length b"
  obtains b' where "fill_entry e node t b = Some b'" "length b' = length b" "entry_size b' e = Some (vn_FileSize node)"
    "entry_cluster b' e = Some (StartCluster node)" "\<forall>j < length b. j < e + 14 \<or> e + 32 \<le> j \<longrightarrow> b' ! j = b ! j"
proof -
  let ?d = "EncodeDateForFAT (year t) (ucast (month t)) (ucast (day t))" and ?t = "EncodeFATTime (hour t) (minute t) (second t)"
  let ?lo = "ucast (StartCluster node AND 0xFFFF) :: u16" and ?hi = "ucast (drop_bit 16 (StartCluster node) AND 0xFFFF) :: u16"
  have ex: "\<exists>q. put_bytes (e + k) bs p = Some q \<and> length q = length b"
    if "k + length bs \<le> 32" "length p = length b" for k p and bs :: "u8 list"
    using put_bytes_ok [of "e + k" bs p] that assms by simp
  obtain b1 where b1: "put_bytes (e + 28) (bytes32 (vn_FileSize node)) b = Some b1" "length b1 = length b" using ex [of 28] by force
  obtain b2 where b2: "put_bytes (e + 26) (bytes16 ?lo) b1 = Some b2" "length b2 = length b" using ex [of 26 _ b1] b1(2) by force
  obtain b3 where b3: "put_bytes (e + 20) (bytes16 ?hi) b2 = Some b3" "length b3 = length b" using ex [of 20 _ b2] b2(2) by force
  obtain b4 where b4: "put_bytes (e + 18) (bytes16 ?d) b3 = Some b4" "length b4 = length b" using ex [of 18 _ b3] b3(2) by force
  obtain b5 where b5: "put_bytes (e + 24) (bytes16 ?d) b4 = Some b5" "length b5 = length b" using ex [of 24 _ b4] b4(2) by force
  obtain b6 where b6: "put_bytes (e + 22) (bytes16 ?t) b5 = Some b6" "length b6 = length b" using ex [of 22 _ b5] b5(2) by force
  obtain b7 where b7: "put_bytes (e + 16) (bytes16 ?d) b6 = Some b7" "length b7 = length b" using ex [of 16 _ b6] b6(2) by force
  obtain b8 where b8: "put_bytes (e + 14) (bytes16 ?t) b7 = Some b8" "length b8 = length b" using ex [of 14 _ b7] b7(2) by force
  note bs = b1(1) b2(1) b3(1) b4(1) b5(1) b6(1) b7(1) b8(1)
  have "fill_entry e node t b = Some b8" using bs by (simp add: fill_entry_def Let_def)
  moreover have "entry_size b8 e = Some (vn_FileSize node)"
    using get32_put32 [OF bs(1)] bs(2-8) [THEN get32_put_apart, of "e + 28"] by (simp add: entry_size_def)
  moreover have "get16 b8 (e + 26) = Some ?lo"
    using get16_put16 [OF bs(2)] bs(3-8) [THEN get16_put_apart, of "e + 26"] by simp
  moreover have "get16 b8 (e + 20) = Some ?hi"
    using get16_put16 [OF bs(3)] bs(4-8) [THEN get16_put_apart, of "e + 20"] by simp
  moreover have "b8 ! j = b ! j" if "j < length b" "j < e + 14 \<or> e + 32 \<le> j" for j
  proof -
    have "q ! j = p ! j" if "put_bytes (e + k) bs p = Some q" "length p = length b" "14 \<le> k" "k + length bs \<le> 32"
      for k p q and bs :: "u8 list"
      using put_keeps [OF that(1), of j] that(2-) \<open>j < length b\<close> \<open>j < e + 14 \<or> e + 32 \<le> j\<close> by linarith
    note K = this
    show ?thesis
      using K [OF bs(1)] K [OF bs(2) b1(2)] K [OF bs(3) b2(2)] K [OF bs(4) b3(2)] K [OF bs(5) b4(2)] K [OF bs(6) b5(2)]
        K [OF bs(7) b6(2)] K [OF bs(8) b7(2)] by simp
  qed
  ultimately show ?thesis using that [of b8] b8(2) cluster_halves [of "StartCluster node"] by (simp add: entry_cluster_def)
qed

text \<open>Where the entry of an open file lies: inside the sectors of a cluster \<open>dc\<close> of a directory.\<close>

definition entry_in :: "fat \<Rightarrow> FAT32_VNode \<Rightarrow> u32 \<Rightarrow> bool" where
  "entry_in fs node dc \<longleftrightarrow> valid_cluster fs dc \<and> unat (EntryLBA node) \<in> cluster_region fs dc \<and>
     unat (EntryOffset node) + 32 \<le> sec_bytes fs"

lemma entry_in_bounds:
  assumes "geometry fs" and "entry_in fs node dc"
  shows "unat (EntryLBA node) < part_size (part fs)" "EntryLBA node \<noteq> 0"
proof -
  have "unat (EntryLBA node) \<in> {data_base fs ..< part_size (part fs)}"
    using assms(2) cluster_region_data [OF assms(1), of dc] by (auto simp: entry_in_def)
  moreover have "0 < data_base fs" using geometryD(8,13) [OF assms(1)] by simp
  ultimately show "unat (EntryLBA node) < part_size (part fs)" "EntryLBA node \<noteq> 0" by auto
qed

lemma UpdateDirectoryEntry_spec:
  assumes "wf_fat fs" and "f_Node file = Some n" and "ino_ID n \<noteq> 0" and "vnodes fs (ino_ID n) = Some node" and "entry_in fs node dc"
  obtains fs' where "UpdateDirectoryEntry file fs = Some (True, fs')" "changes {unat (EntryLBA node)} fs fs'"
    "entry_size (sector (part fs') (unat (EntryLBA node))) (unat (EntryOffset node)) = Some (vn_FileSize node)"
    "entry_cluster (sector (part fs') (unat (EntryLBA node))) (unat (EntryOffset node)) = Some (StartCluster node)"
proof -
  have g: "geometry fs" using assms(1) by (simp add: wf_fat_def)
  note B = entry_in_bounds [OF g assms(5)]
  let ?b = "sector (part fs) (unat (EntryLBA node))"
  have l: "unat (EntryOffset node) + 32 \<le> length ?b" using assms(5) sector_length [OF g B(1)] by (simp add: entry_in_def)
  obtain b where b: "fill_entry (unat (EntryOffset node)) node (rtc fs) ?b = Some b" "length b = length ?b"
    "entry_size b (unat (EntryOffset node)) = Some (vn_FileSize node)" "entry_cluster b (unat (EntryOffset node)) = Some (StartCluster node)"
    "\<forall>j < length ?b. j < unat (EntryOffset node) + 14 \<or> unat (EntryOffset node) + 32 \<le> j \<longrightarrow> b ! j = ?b ! j"
    by (rule fill_entry_spec [OF l])
  obtain f1 where f1: "part_write (EntryLBA node) 1 b fs = Some (True, f1)" "changes {unat (EntryLBA node)} fs f1"
    "sector (part f1) (unat (EntryLBA node)) = b"
    using write_sector_ok [OF assms(1) B(1), of b] b(2) sector_length [OF g B(1)] by auto
  have "UpdateDirectoryEntry file fs = Some (True, f1)"
    using assms(2-4) B(2) read_sector_ok [OF assms(1) B(1)] b(1) f1(1) by (simp add: UpdateDirectoryEntry_def)
  then show ?thesis using that [OF _ f1(2)] f1(3) b(3,4) by simp
qed

end
