(* ===== verification/Fat_Io.thy ===== *)
theory Fat_Io
  imports Fat_File
begin

text \<open>
  FAT32 files as arrays of bytes: what \<^const>\<open>fat_Read\<close> and \<^const>\<open>fat_Write\<close> do to the contents of a file,
  to the other files of the volume and to the directory entry, and the interface of a random access
  file that they provide.
\<close>

section \<open>The nodes do not matter for the volume\<close>

lemma vnodes_irrelevant [simp]:
  "geometry (fs\<lparr> vnodes := V \<rparr>) = geometry fs" "wf_fat (fs\<lparr> vnodes := V \<rparr>) = wf_fat fs"
  "valid_cluster (fs\<lparr> vnodes := V \<rparr>) = valid_cluster fs" "fat_entry (fs\<lparr> vnodes := V \<rparr>) = fat_entry fs"
  "cluster_data (fs\<lparr> vnodes := V \<rparr>) = cluster_data fs" "cluster_region (fs\<lparr> vnodes := V \<rparr>) = cluster_region fs"
  "clu_bytes (fs\<lparr> vnodes := V \<rparr>) = clu_bytes fs" "free_clusters (fs\<lparr> vnodes := V \<rparr>) = free_clusters fs"
  "copies_agree (fs\<lparr> vnodes := V \<rparr>) = copies_agree fs" "cluster_bytes (fs\<lparr> vnodes := V \<rparr>) = cluster_bytes fs"
  "file_region (fs\<lparr> vnodes := V \<rparr>) = file_region fs"
  "entry_in (fs\<lparr> vnodes := V \<rparr>) = entry_in fs" "fat_region (fs\<lparr> vnodes := V \<rparr>) = fat_region fs"
  by (auto simp: geometry_def wf_fat_def valid_cluster_def fat_entry_def cluster_data_def cluster_sector_def cluster_region_def
      clu_bytes_def free_clusters_def copies_agree_def fat_copy_def cluster_bytes_def file_region_def entry_in_def
      fat_region_def fun_eq_iff)

lemma chain_vnodes [simp]: "cluster_chain (fs\<lparr> vnodes := V \<rparr>) c cs = cluster_chain fs c cs"
  by (induction cs arbitrary: c) auto

lemma chain_bytes_vnodes [simp]: "chain_bytes (fs\<lparr> vnodes := V \<rparr>) cs = chain_bytes fs cs"
  by (simp add: chain_bytes_def)

lemma changes_vnodes: "changes S fs fs' \<Longrightarrow> changes S (fs\<lparr> vnodes := V \<rparr>) (fs'\<lparr> vnodes := V \<rparr>)"
  by (cases fs; cases fs') (simp add: changes_def)

section \<open>Writing at a position\<close>

lemma write_at:
  assumes wf: "wf_fat fs" and km: "\<forall>n. kmalloc_ok fs n" and chn: "cluster_chain fs c cs" and cs: "cs \<noteq> []"
    and pos: "p \<le> length cs * clu_bytes fs" and src: "src \<noteq> []" "length src < 2 ^ 32" and off: "unat off = p mod clu_bytes fs"
  shows "free_clusters fs = {} \<and> write_walk (p div clu_bytes fs) 0 c fs = Some (None, fs) \<or>
    (\<exists>q cur f1 w fs' ext. write_walk (p div clu_bytes fs) 0 c fs = Some (Some (q, cur), f1) \<and>
       write_clusters src off cur q 0 f1 = Some (w, fs') \<and> wrote fs c cs p src fs' ext w)"
proof -
  have g: "geometry fs" using wf by (simp add: wf_fat_def)
  let ?cb = "clu_bytes fs" and ?k = "p div clu_bytes fs"
  have cb: "0 < ?cb" using clu_bytes_bounds(1) [OF g] by simp
  have o: "unat off < ?cb" using off cb by simp
  have p: "p = ?k * ?cb + unat off" by (simp add: off)
  show ?thesis
  proof (cases "?k < length cs")
    case True
    note sp = id_take_nth_drop [OF True]
    obtain q where q: "write_walk ?k 0 c fs = Some (Some (q, cs ! ?k), fs)" using write_walk_inside [OF wf chn True] by blast
    have ch: "cluster_chain fs (cs ! ?k) (cs ! ?k # drop (Suc ?k) cs)" using chn chain_append [of fs c "take ?k cs"] sp by metis
    obtain w ext fs' where r: "write_clusters src off (cs ! ?k) q 0 fs = Some (0 + w, fs')"
      "wrote fs (cs ! ?k) (cs ! ?k # drop (Suc ?k) cs) (unat off) src fs' ext w"
      using write_clusters_spec [OF wf km ch _ o src] by blast
    have "wrote fs c (take ?k cs @ cs ! ?k # drop (Suc ?k) cs) (length (take ?k cs) * ?cb + unat off) src fs' ext w"
      using wrote_prefix [OF wf _ r(2), of c "take ?k cs"] chn sp by simp
    then have "wrote fs c cs p src fs' ext w" using sp True p by simp
    then show ?thesis using q r(1) by auto
  next
    case False
    have kl: "?k = length cs" "unat off = 0"
    proof -
      have "?k * ?cb \<le> length cs * ?cb" using pos p by linarith
      then have "?k \<le> length cs" using cb by simp
      then show k: "?k = length cs" using False by simp
      show "unat off = 0" using pos p k by simp
    qed
    let ?l = "last cs" and ?m = "length cs - 1"
    have m: "?m < length cs" "cs ! ?m = ?l" "?k = ?m + 1" using cs kl by (simp_all add: last_conv_nth)
    obtain q where q: "write_walk ?m 0 c fs = Some (Some (q, ?l), fs)" using write_walk_inside [OF wf chn m(1)] m(2) by metis
    have chl: "cluster_chain fs ?l [?l]" using chain_append [of fs c "butlast cs" ?l "[]"] chn cs by simp
    then have lv: "valid_cluster fs ?l" and eoc: "EOC \<le> fat_entry fs ?l" by auto
    have V: "unat ?l < nclusters fs + 2" "?l \<noteq> 0" using lv by (auto simp: valid_cluster_def)
    have step: "write_walk ?k 0 c fs = do { (nc, f) \<leftarrow> AllocateCluster ?l fs; if nc = 0 then Some (None, f) else Some (Some (?l, nc), f) }"
      unfolding m(3) write_walk_add q using eoc GetNextCluster_spec [OF wf V(1)]
      by (cases "AllocateCluster ?l fs") (auto simp: split_def)
    have pre: "?l = 0 \<or> valid_cluster fs ?l \<and> fat_entry fs ?l \<noteq> 0" using lv eoc by auto
    show ?thesis
    proof (cases rule: AllocateCluster_spec [OF wf pre])
      case 1
      then show ?thesis using step by simp
    next
      case (2 nc f1)
      note nc = free_clusterD [OF 2(2)] and same = changes_frame [OF 2(3)] changes_derived [OF 2(3)]
      have ncs: "nc \<notin> set cs" using chain_entry_nonzero [OF g chn] nc(2) by blast
      have ncv: "unat nc < nclusters fs + 2" using nc(1) by (simp add: valid_cluster_def)
      have e: "fat_entry f1 d = (if d = nc then EOC else if d = ?l then nc else fat_entry fs d)" if "unat d < nclusters fs + 2" for d
        using 2(4) that V(2) by simp
      have chn1: "cluster_chain f1 c (cs @ [nc])"
      proof (rule cluster_chain_snoc [OF g chn cs])
        show "fat_entry f1 d = (if d = last cs then nc else fat_entry fs d)" if "d \<in> set cs" for d
          using e [of d] chain_valid [OF chn that] ncs that by (auto simp: valid_cluster_def)
      qed (use e [OF ncv] nc(1) same in auto)
      have chnc: "cluster_chain f1 nc [nc]" using e [OF ncv] nc(1) same by simp
      have wf1: "wf_fat f1" using changes_wf [OF 2(3) wf] .
      obtain w ext fs' where r: "write_clusters src off nc ?l 0 f1 = Some (0 + w, fs')" "wrote f1 nc [nc] (unat off) src fs' ext w"
        using write_clusters_spec [OF wf1 _ chnc _ _ src, of off ?l 0] km o same by auto
      have W1: "wrote f1 c (cs @ [nc]) p src fs' ext w"
        using wrote_prefix [OF wf1 chn1 r(2)] p kl same by simp
      have "wrote fs c cs p src fs' (nc # ext) w"
        by (rule wrote_alloc [OF wf 2(3,2) _ chn1 W1]) (use e 2(5) V(2) cs in auto)
      then show ?thesis using step 2(1) nc(3) r(1) by auto
    qed
  qed
qed

section \<open>Open files\<close>

text \<open>
  A file open for reading and writing on a healthy volume: its node is alive, its clusters form a
  chain, its directory entry lies in a cluster \<open>dc\<close> that is in use and not its own, and the position is
  not beyond its end.
\<close>

definition file_state :: "fat \<Rightarrow> fat_handle \<Rightarrow> fat_node \<Rightarrow> FAT32_VNode \<Rightarrow> u32 list \<Rightarrow> u32 \<Rightarrow> bool" where
  "file_state fs file n node cs dc \<longleftrightarrow> wf_fat fs \<and> (\<forall>k. kmalloc_ok fs k) \<and>
     f_Node file = Some n \<and> ino_ID n \<noteq> 0 \<and> vnodes fs (ino_ID n) = Some node \<and> \<not> IsDirectory node \<and>
     file_chain fs node cs \<and> entry_in fs node dc \<and> dc \<notin> set cs \<and> fat_entry fs dc \<noteq> 0 \<and>
     unat (f_pos file) \<le> unat (vn_FileSize node)"

text \<open>What a write leaves alone: every cluster outside the file and the cluster of its entry.\<close>

definition only_file :: "fat \<Rightarrow> fat \<Rightarrow> u32 list \<Rightarrow> u32 \<Rightarrow> bool" where
  "only_file fs fs' cs dc \<longleftrightarrow>
     (\<forall>d. valid_cluster fs d \<and> d \<notin> set cs \<longrightarrow> fat_entry fs' d = fat_entry fs d \<and> (d \<noteq> dc \<longrightarrow> cluster_data fs' d = cluster_data fs d))"

definition on_disk :: "fat \<Rightarrow> FAT32_VNode \<Rightarrow> bool" where
  "on_disk fs node \<longleftrightarrow>
     entry_size (sector (part fs) (unat (EntryLBA node))) (unat (EntryOffset node)) = Some (vn_FileSize node) \<and>
     entry_cluster (sector (part fs) (unat (EntryLBA node))) (unat (EntryOffset node)) = Some (StartCluster node)"

text \<open>From the bytes written to the clusters to the new state of the file.\<close>

lemma wrote_file:
  assumes wf: "wf_fat fs" and W: "wrote fs c cs p src f1 ext w" and c: "c \<noteq> 0"
    and fc: "unat (vn_FileSize node) \<le> length cs * clu_bytes fs" and p: "p \<le> unat (vn_FileSize node)"
    and dc: "entry_in fs node dc" "dc \<notin> set cs" "fat_entry fs dc \<noteq> 0"
    and node': "StartCluster node' = c" "unat (vn_FileSize node') = max (unat (vn_FileSize node)) (p + w)"
      "EntryLBA node' = EntryLBA node"
    and ch: "changes {unat (EntryLBA node')} f1 fs'" and cs: "cs @ ext \<noteq> []"
  shows "wf_fat fs' \<and> file_chain fs' node' (cs @ ext) \<and> dc \<notin> set (cs @ ext) \<and> fat_entry fs' dc \<noteq> 0 \<and>
    file_contents fs' node' (cs @ ext) = overwrite p (take w src) (take (unat (vn_FileSize node)) (chain_bytes fs cs)) \<and>
    only_file fs fs' (cs @ ext) dc \<and> (w = length src \<or> free_clusters fs' = {}) \<and> (copies_agree fs \<longrightarrow> copies_agree fs')"
proof -
  have g: "geometry fs" using wf by (simp add: wf_fat_def)
  let ?r = "cs @ ext" and ?F = "unat (vn_FileSize node)"
  have w: "changes (file_region fs ?r) fs f1" "cluster_chain f1 c ?r" "set ext \<subseteq> free_clusters fs"
    "\<forall>e. unat e < nclusters fs + 2 \<longrightarrow> e \<notin> set ?r \<longrightarrow> fat_entry f1 e = fat_entry fs e"
    "chain_bytes f1 ?r = overwrite p (take w src) (chain_bytes fs ?r)"
    "w \<le> length src" "p + w \<le> length ?r * clu_bytes fs"
    "w = length src \<or> free_clusters f1 = {} \<and> p + w = length ?r * clu_bytes fs" "copies_agree fs \<longrightarrow> copies_agree f1"
    using W unfolding wrote_def by blast+
  note same = changes_frame [OF w(1)] changes_derived [OF w(1)] and g1 = changes_geometry [OF w(1) g]
  have vr: "\<And>e. e \<in> set ?r \<Longrightarrow> valid_cluster fs e" using chain_valid [OF w(2)] same by simp
  have dcv: "valid_cluster fs dc" and sec: "{unat (EntryLBA node')} \<subseteq> cluster_region fs dc" using dc(1) node'(3) by (auto simp: entry_in_def)
  have dcr: "dc \<notin> set ?r" using dc(2,3) w(3) free_clusterD(2) by fastforce
  have E1: "fat_entry f1 d = fat_entry fs d" if "valid_cluster fs d" "d \<notin> set ?r" for d
    using w(4) that by (simp add: valid_cluster_def)
  have E2: "fat_entry fs' d = fat_entry f1 d" if "valid_cluster fs d" for d
    by (rule changes_fat_entry [OF ch g1]) (use that sec cluster_region_fat(1) [OF g dcv] in \<open>auto simp: valid_cluster_def same\<close>)
  have D2: "cluster_data fs' d = cluster_data f1 d" if "valid_cluster fs d" "d \<noteq> dc" for d
    by (rule changes_cluster_data [OF ch g1]) 
      (use that sec cluster_regions_disjoint [of dc d fs] dcv valid_clusterD(1) [OF g] in \<open>auto simp: same\<close>)
  have ch': "cluster_chain fs' c ?r"
    using w(2) cluster_chain_cong [of fs' f1 ?r c] E2 vr changes_derived(4) [OF ch] by simp
  have len: "length (chain_bytes fs ?r) = length ?r * clu_bytes fs" "length (chain_bytes fs cs) = length cs * clu_bytes fs"
    using length_chain_bytes [OF g, of ?r] length_chain_bytes [OF g, of cs] vr by auto
  have bytes: "chain_bytes fs' ?r = overwrite p (take w src) (chain_bytes fs ?r)"
  proof -
    have "map (cluster_data fs') ?r = map (cluster_data f1) ?r" by (rule map_cong [OF refl]) (use D2 vr dcr in blast)
    then have "chain_bytes fs' ?r = chain_bytes f1 ?r" by (simp only: chain_bytes_def)
    then show ?thesis using w(5) by simp
  qed
  have cut: "take ?F (chain_bytes fs ?r) = take ?F (chain_bytes fs cs)" using fc len(2) by (simp add: chain_bytes_append)
  have lw: "length (take w src) = w" using w(6) by simp
  have "file_contents fs' node' ?r = overwrite p (take w src) (take ?F (chain_bytes fs ?r))"
    using take_overwrite_grow [of p ?F "chain_bytes fs ?r" "take w src"] p fc len(1) w(7) lw
    by (simp add: file_contents_def bytes node'(2) add_mult_distrib)
  moreover have "file_chain fs' node' ?r"
    using ch' cs c node'(1,2) fc w(7) changes_derived(5) [OF ch] same by (simp add: file_chain_def add_mult_distrib)
  moreover have "only_file fs fs' ?r dc"
    unfolding only_file_def
  proof (intro allI impI)
    fix d assume d: "valid_cluster fs d \<and> d \<notin> set ?r"
    have "cluster_data f1 d = cluster_data fs d"
      using changes_cluster_data [OF w(1) g, of d] d file_region_other [OF g conjunct1 [OF d] conjunct2 [OF d] vr] by blast
    then show "fat_entry fs' d = fat_entry fs d \<and> (d \<noteq> dc \<longrightarrow> cluster_data fs' d = cluster_data fs d)"
      using d E1 E2 D2 by simp
  qed
  moreover have "free_clusters fs' = free_clusters f1"
    by (rule free_clusters_same [OF ch]) (use E2 same in simp)
  moreover have "copies_agree fs \<longrightarrow> copies_agree fs'"
    using w(9) changes_copies [OF ch g1] sec cluster_region_fat(1) [OF g dcv] same by blast
  ultimately show ?thesis
    using changes_wf [OF ch changes_wf [OF w(1) wf]] dcr E1 [OF dcv dcr] E2 [OF dcv] dc(3) w(8) cut by auto
qed

lemma wrote_vnodes:
  assumes "wrote fs c cs p src f1 ext w"
  shows "wrote (fs\<lparr> vnodes := V \<rparr>) c cs p src (f1\<lparr> vnodes := V \<rparr>) ext w"
  using assms changes_vnodes [of _ fs f1 V] by (simp add: wrote_def)

text \<open>
  Writing replaces the bytes at the position, growing the file when it reaches beyond its end, and
  records the new size and first cluster on the disk. It falls short only when the volume is full.
\<close>

definition write_result :: "fat \<Rightarrow> fat_handle \<Rightarrow> fat_node \<Rightarrow> FAT32_VNode \<Rightarrow> u32 list \<Rightarrow> u32 \<Rightarrow> u8 list \<Rightarrow> nat \<Rightarrow>
    nat \<times> fat_handle \<times> fat \<Rightarrow> bool" where
  "write_result fs file n node cs dc buffer sz = (\<lambda>(w, file', fs'). \<exists>n' node' cs'.
     file_state fs' file' n' node' cs' dc \<and>
     file_contents fs' node' cs' = overwrite (unat (f_pos file)) (take w buffer) (file_contents fs node cs) \<and>
     unat (f_pos file') = unat (f_pos file) + w \<and> w \<le> sz \<and> (w = sz \<or> free_clusters fs' = {}) \<and>
     only_file fs fs' cs' dc \<and> set cs \<subseteq> set cs' \<and> (0 < w \<longrightarrow> on_disk fs' node') \<and> (copies_agree fs \<longrightarrow> copies_agree fs') \<and>
     ino_ID n' = ino_ID n \<and> (\<forall>a. a \<noteq> ino_ID n \<longrightarrow> vnodes fs' a = vnodes fs a))"

lemma write_from_spec:
  assumes st: "file_state fs file n node cs dc" and c0: "StartCluster node \<noteq> 0" and sz: "sz \<noteq> 0" "unat sz \<le> length buffer"
    and lim: "unat (f_pos file) + unat sz < 2 ^ 32"
  shows "\<exists>r. write_from file n node buffer sz fs = Some r \<and> write_result fs file n node cs dc buffer (unat sz) r"
proof -
  let ?p = "unat (f_pos file)" and ?id = "ino_ID n" and ?cb = "clu_bytes fs" and ?F = "unat (vn_FileSize node)"
  have wf: "wf_fat fs" and km: "\<forall>k. kmalloc_ok fs k" and nd: "f_Node file = Some n" "?id \<noteq> 0" "vnodes fs ?id = Some node" "\<not> IsDirectory node"
    and ei: "entry_in fs node dc" and dcs: "dc \<notin> set cs" "fat_entry fs dc \<noteq> 0"
    and pos: "?p \<le> ?F" using st by (auto simp: file_state_def)
  have fc: "cs \<noteq> []" "cluster_chain fs (StartCluster node) cs" "?F \<le> length cs * ?cb" using st c0 by (auto simp: file_state_def file_chain_def)
  have g: "geometry fs" using wf by (simp add: wf_fat_def)
  let ?src = "take (unat sz) buffer"
  let ?off = "ucast (f_pos file mod cluster_bytes fs) :: u32"
  have src: "get_bytes buffer 0 (unat sz) = Some ?src" "?src \<noteq> []" "length ?src < 2 ^ 32" "length ?src = unat sz"
    using sz unsigned_less [of sz, where ?'a = nat] by (auto simp: get_bytes_def unat_eq_0)
  have off: "unat ?off = ?p mod ?cb"
  proof -
    have "?p mod ?cb < ?cb" using clu_bytes_bounds(1) [OF g] by simp
    then have "?p mod ?cb < 2 ^ 32" using clu_bytes_bounds(2) [OF g] by simp
    then show ?thesis by (simp add: unat_ucast_narrow unat_mod cluster_bytes_nat)
  qed
  have idx: "unat (f_pos file div cluster_bytes fs) = ?p div ?cb" by (simp add: unat_div cluster_bytes_nat)
  have pl: "?p \<le> length cs * ?cb" using pos fc(3) by simp
  from write_at [OF wf km fc(2,1) pl src(2,3) off] consider
    (full) "free_clusters fs = {}" "write_walk (?p div ?cb) 0 (StartCluster node) fs = Some (None, fs)"
  | (ok) q cur f1 w f2 ext where "write_walk (?p div ?cb) 0 (StartCluster node) fs = Some (Some (q, cur), f1)"
      "write_clusters ?src ?off cur q 0 f1 = Some (w, f2)" "wrote fs (StartCluster node) cs ?p ?src f2 ext w"
    by blast
  then show ?thesis
  proof cases
    case full
    then have "write_from file n node buffer sz fs = Some (0, file, fs)" using idx by (simp add: write_from_def)
    then show ?thesis using st full(1) by (auto simp: write_result_def only_file_def)
  next
    case ok
    let ?new = "f_pos file + of_nat w"
    have w: "w \<le> unat sz" "changes (file_region fs (cs @ ext)) fs f2" using ok(3) src(4) by (auto simp: wrote_def)
    note same = changes_frame [OF w(2)] changes_derived [OF w(2)]
    have new: "unat ?new = ?p + w" using lim w(1) by (subst unat_add_no_wrap) (simp_all add: unat_of_nat_u64)
    have new32: "unat (ucast ?new :: u32) = ?p + w" using new lim w(1) by (simp add: unat_ucast_narrow)
    define grow where "grow \<longleftrightarrow> ucast (vn_FileSize node) < ?new"
    have gr: "grow \<longleftrightarrow> ?F < ?p + w" by (simp add: grow_def word_less_nat_alt new unat_ucast_wide)
    define node2 where "node2 = (if grow then node\<lparr> vn_FileSize := ucast ?new \<rparr> else node)"
    define n2 where "n2 = (if grow then n\<lparr> ino_FileSize := ?new \<rparr> else n)"
    define file2 where "file2 = file\<lparr> f_pos := ucast (ucast ?new :: u32), f_Node := Some n2 \<rparr>"
    have node2: "StartCluster node2 = StartCluster node" "unat (vn_FileSize node2) = max ?F (?p + w)" "EntryLBA node2 = EntryLBA node"
      "EntryOffset node2 = EntryOffset node" "IsDirectory node2 = IsDirectory node" and n2: "ino_ID n2 = ?id"
      using new32 gr by (auto simp: node2_def n2_def)
    let ?V = "(vnodes fs)(?id \<mapsto> node2)" and ?fu = "set_vnode ?id node2 f2"
    have fu: "?fu = f2\<lparr> vnodes := ?V \<rparr>" by (simp add: set_vnode_def same)
    have wfu: "wf_fat ?fu" using changes_wf [OF w(2) wf] by (simp add: fu)
    have eiu: "entry_in ?fu node2 dc" using ei by (simp add: fu entry_in_def same node2)
    obtain f3 where f3: "UpdateDirectoryEntry file2 ?fu = Some (True, f3)" "changes {unat (EntryLBA node2)} ?fu f3"
      "entry_size (sector (part f3) (unat (EntryLBA node2))) (unat (EntryOffset node2)) = Some (vn_FileSize node2)"
      "entry_cluster (sector (part f3) (unat (EntryLBA node2))) (unat (EntryOffset node2)) = Some (StartCluster node2)"
      by (rule UpdateDirectoryEntry_spec [OF wfu _ _ _ eiu, of file2 n2]) (simp_all add: file2_def n2 nd fu)
    have run: "write_from file n node buffer sz fs = Some (w, file2, f3)"
      using ok(1,2) idx src(1) f3(1) n2 by (simp add: write_from_def Let_def grow_def [symmetric] node2_def [symmetric] n2_def [symmetric] file2_def [symmetric])
    have W: "wrote (fs\<lparr> vnodes := ?V \<rparr>) (StartCluster node) cs ?p ?src ?fu ext w" using wrote_vnodes [OF ok(3), of ?V] fu by simp
    have R: "wf_fat f3 \<and> file_chain f3 node2 (cs @ ext) \<and> dc \<notin> set (cs @ ext) \<and> fat_entry f3 dc \<noteq> 0 \<and>
      file_contents f3 node2 (cs @ ext) = overwrite ?p (take w ?src) (take ?F (chain_bytes fs cs)) \<and>
      only_file (fs\<lparr> vnodes := ?V \<rparr>) f3 (cs @ ext) dc \<and> (w = length ?src \<or> free_clusters f3 = {}) \<and> (copies_agree fs \<longrightarrow> copies_agree f3)"
      using wrote_file [OF _ W c0 _ pos _ dcs(1) _ node2(1,2,3) f3(2)] wf fc ei dcs(2) by simp
    have same3: "vnodes f3 = ?V" "kmalloc_ok f3 = kmalloc_ok fs" "cluster_region f3 = cluster_region fs" "valid_cluster f3 = valid_cluster fs" "m_BPB f3 = m_BPB fs"
      using changes_frame [OF f3(2)] changes_derived [OF f3(2)] by (simp_all add: fu same)
    have "file_state f3 file2 n2 node2 (cs @ ext) dc"
      using R km nd ei node2 n2 same3 new new32 by (simp add: file_state_def file2_def entry_in_def unat_ucast_wide)
    moreover have "unat (f_pos file2) = ?p + w" using new32 by (simp add: file2_def unat_ucast_wide)
    moreover have "only_file fs f3 (cs @ ext) dc" using R by (simp add: only_file_def)
    moreover have "file_contents f3 node2 (cs @ ext) = overwrite ?p (take w buffer) (file_contents fs node cs)"
      using R w(1) by (simp add: file_contents_def min_def)
    ultimately have "write_result fs file n node cs dc buffer (unat sz) (w, file2, f3)"
      using R w(1) src(4) f3(3,4) n2 same3 unfolding write_result_def on_disk_def split_conv
      by (intro exI [of _ n2] exI [of _ node2] exI [of _ "cs @ ext"]) auto
    then show ?thesis using run by blast
  qed
qed

lemma fat_Write_spec:
  assumes st: "file_state fs file n node cs dc" and sz: "sz \<noteq> 0" "unat sz \<le> length buffer"
    and lim: "unat (f_pos file) + unat sz < 2 ^ 32"
  shows "\<exists>r. fat_Write file buffer sz fs = Some r \<and> write_result fs file n node cs dc buffer (unat sz) r"
proof -
  let ?id = "ino_ID n"
  have wf: "wf_fat fs" and km: "\<forall>k. kmalloc_ok fs k" and nd: "f_Node file = Some n" "?id \<noteq> 0" "vnodes fs ?id = Some node" "\<not> IsDirectory node"
    and ei: "entry_in fs node dc" and dcs: "dc \<notin> set cs" "fat_entry fs dc \<noteq> 0"
    and pos: "unat (f_pos file) \<le> unat (vn_FileSize node)" using st by (auto simp: file_state_def)
  have g: "geometry fs" using wf by (simp add: wf_fat_def)
  have lba: "EntryLBA node \<noteq> 0" using entry_in_bounds(2) [OF g ei] .
  have cb: "cluster_bytes fs \<noteq> 0" using clu_bytes_bounds(1) [OF g] cluster_bytes_nat [of fs] by auto
  show ?thesis
  proof (cases "StartCluster node = 0")
    case False
    have "set_vnode ?id node fs = fs" using nd(3) by (simp add: set_vnode_def fun_upd_idem)
    then have "fat_Write file buffer sz fs = write_from file n node buffer sz fs"
      using False nd sz(1) lba cb by (simp add: fat_Write_def)
    then show ?thesis using write_from_spec [OF st False sz lim] by simp
  next
    case True
    then have cs: "cs = []" "unat (vn_FileSize node) = 0" "unat (f_pos file) = 0" using st by (auto simp: file_state_def file_chain_def)
    show ?thesis
    proof (cases rule: AllocateCluster_spec [OF wf, of 0])
      case 1
      show ?case by simp
    next
      case 2
      then have "fat_Write file buffer sz fs = Some (0, file, fs)" using True nd sz(1) lba cb by (simp add: fat_Write_def)
      then show ?thesis using st 2(1) by (auto simp: write_result_def only_file_def)
    next
      case (3 nc f1)
      note nc = free_clusterD [OF 3(2)] and same = changes_frame [OF 3(3)] changes_derived [OF 3(3)]
      let ?node = "node\<lparr> StartCluster := nc \<rparr>"
      let ?fv = "set_vnode ?id ?node f1"
      have fv: "?fv = f1\<lparr> vnodes := (vnodes fs)(?id \<mapsto> ?node) \<rparr>" by (simp add: set_vnode_def same)
      have e: "fat_entry f1 d = (if d = nc then EOC else fat_entry fs d)" if "valid_cluster fs d" for d
        using 3(4) that by (simp add: valid_cluster_def)
      have ne: "dc \<noteq> nc" using nc(2) dcs(2) by auto
      have "file_state ?fv file n ?node [nc] dc"
        using wf changes_wf [OF 3(3) wf] km nd ei dcs(2) ne e nc cs same
        by (simp add: fv file_state_def file_chain_def entry_in_def)
      from write_from_spec [OF this _ sz lim] obtain w file' fs' where
        r: "write_from file n ?node buffer sz ?fv = Some (w, file', fs')" "write_result ?fv file n ?node [nc] dc buffer (unat sz) (w, file', fs')"
        using nc(3) by auto
      have run: "fat_Write file buffer sz fs = Some (w, file', fs')"
        using True nd sz(1) lba cb 3(1) nc(3) r(1) by (simp add: fat_Write_def)
      have o: "only_file fs fs' cs' dc" if "only_file ?fv fs' cs' dc" "nc \<in> set cs'" for cs'
        unfolding only_file_def
      proof (intro allI impI)
        fix d assume d: "valid_cluster fs d \<and> d \<notin> set cs'"
        then have "d \<noteq> nc" using that(2) by auto
        moreover have "cluster_data f1 d = cluster_data fs d"
          by (rule changes_cluster_data [OF 3(3) g]) (use d cluster_region_fat(2) [OF g] in \<open>auto simp: Int_commute\<close>)
        ultimately show "fat_entry fs' d = fat_entry fs d \<and> (d \<noteq> dc \<longrightarrow> cluster_data fs' d = cluster_data fs d)"
          using that(1) d e by (simp add: only_file_def fv same)
      qed
      obtain n' node' cs' where R: "file_state fs' file' n' node' cs' dc"
        "file_contents fs' node' cs' = overwrite (unat (f_pos file)) (take w buffer) (file_contents ?fv ?node [nc])"
        "unat (f_pos file') = unat (f_pos file) + w" "w \<le> unat sz" "w = unat sz \<or> free_clusters fs' = {}"
        "only_file ?fv fs' cs' dc" "set [nc] \<subseteq> set cs'" "0 < w \<longrightarrow> on_disk fs' node'" "copies_agree ?fv \<longrightarrow> copies_agree fs'"
        "ino_ID n' = ino_ID n" "\<forall>a. a \<noteq> ino_ID n \<longrightarrow> vnodes fs' a = vnodes ?fv a"
        using r(2) unfolding write_result_def split_conv by (elim exE conjE)
      have "file_contents ?fv ?node [nc] = file_contents fs node cs" using cs(2) by (simp add: file_contents_def)
      moreover have "only_file fs fs' cs' dc" using o R(6,7) by simp
      moreover have "copies_agree fs \<longrightarrow> copies_agree fs'" using R(9) 3(5) by (simp add: fv)
      moreover have "\<forall>a. a \<noteq> ino_ID n \<longrightarrow> vnodes fs' a = vnodes fs a" using R(11) by (simp add: fv)
      ultimately have "write_result fs file n node cs dc buffer (unat sz) (w, file', fs')"
        unfolding write_result_def split_conv using R(1-5,8,10) cs(1)
        by (intro exI [of _ n'] exI [of _ node'] exI [of _ cs']) simp
      then show ?thesis using run by blast
    qed
  qed
qed

lemma fat_Seek_spec:
  assumes st: "file_state fs file n node cs dc"
  shows "\<exists>file'. fat_Seek file q fs = Some (True, file') \<and> file_state fs file' n node cs dc \<and>
    unat (f_pos file') = min (unat q) (unat (vn_FileSize node))"
proof -
  let ?F = "unat (vn_FileSize node)"
  define q' where "q' = (if ucast (vn_FileSize node) < q then ucast (vn_FileSize node) else q)"
  have q': "unat q' = min (unat q) ?F" by (auto simp: q'_def word_less_nat_alt unat_ucast_wide)
  have "unat (vn_FileSize node) < 2 ^ 32" using unsigned_less [of "vn_FileSize node", where ?'a = nat] by simp
  then have q32: "unat (ucast (ucast q' :: u32) :: u64) = min (unat q) ?F"
    using q' by (simp add: unat_ucast_wide unat_ucast_narrow)
  define file' where "file' = (if f_pos file = q' then file else file\<lparr> f_pos := ucast (ucast q' :: u32) \<rparr>)"
  have "fat_Seek file q fs = Some (True, file')" using st by (auto simp: fat_Seek_def file_state_def file'_def q'_def Let_def)
  moreover have "unat (f_pos file') = min (unat q) ?F" using q' q32 by (auto simp: file'_def)
  moreover have "file_state fs file' n node cs dc" using st calculation(2) by (auto simp: file_state_def file'_def)
  ultimately show ?thesis by blast
qed

section \<open>The interface of a random access file\<close>

text \<open>
  \<open>holds s xs p\<close>: in state \<open>s\<close> the file has the bytes \<open>xs\<close> and the position \<open>p\<close>. A write overwrites
  at the position, a short write means that the volume is full, and a seek is cut at the end.
\<close>

locale byte_file =
  fixes holds :: "'s \<Rightarrow> u8 list \<Rightarrow> nat \<Rightarrow> bool"
    and rd :: "nat \<Rightarrow> 's \<Rightarrow> (u8 list \<times> 's) option"
    and wr :: "u8 list \<Rightarrow> 's \<Rightarrow> (nat \<times> 's) option"
    and sk :: "nat \<Rightarrow> 's \<Rightarrow> 's option"
    and full :: "'s \<Rightarrow> bool"
    and limit :: nat
  assumes holds_bounds: "holds s xs p \<Longrightarrow> p \<le> length xs \<and> length xs < limit"
    and rd_law: "holds s xs p \<Longrightarrow> n < limit \<Longrightarrow>
      \<exists>s'. rd n s = Some (take n (drop p xs), s') \<and> holds s' xs (p + length (take n (drop p xs)))"
    and wr_law: "holds s xs p \<Longrightarrow> bs \<noteq> [] \<Longrightarrow> p + length bs < limit \<Longrightarrow>
      \<exists>w s'. wr bs s = Some (w, s') \<and> w \<le> length bs \<and> (w = length bs \<or> full s') \<and> holds s' (overwrite p (take w bs) xs) (p + w)"
    and sk_law: "holds s xs p \<Longrightarrow> q < limit \<Longrightarrow> \<exists>s'. sk q s = Some s' \<and> holds s' xs (min q (length xs))"
begin

lemma read_back:
  assumes "holds s xs p" and "bs \<noteq> []" and "p + length bs < limit"
  shows "\<exists>w s1 s2 s3. wr bs s = Some (w, s1) \<and> (w = length bs \<or> full s1) \<and> sk p s1 = Some s2 \<and> rd w s2 = Some (take w bs, s3)"
proof -
  obtain w s1 where w: "wr bs s = Some (w, s1)" "w \<le> length bs" "w = length bs \<or> full s1" "holds s1 (overwrite p (take w bs) xs) (p + w)"
    using wr_law [OF assms] by blast
  let ?ys = "overwrite p (take w bs) xs"
  have p: "p \<le> length xs" using holds_bounds [OF assms(1)] by simp
  obtain s2 where s2: "sk p s1 = Some s2" "holds s2 ?ys (min p (length ?ys))" using sk_law [OF w(4), of p] assms(3) by auto
  have "min p (length ?ys) = p" using holds_bounds [OF w(4)] by simp
  then obtain s3 where "rd w s2 = Some (take w (drop p ?ys), s3)" using rd_law [OF s2(2), of w] w(2) assms(3) by auto
  moreover have "take w (drop p ?ys) = take w bs" using p w(2) by (simp add: overwrite_def)
  ultimately show ?thesis using w(1,3) s2(1) by auto
qed

text \<open>Writing in two pieces is writing once, as long as the volume does not fill up.\<close>

lemma write_twice:
  assumes "holds s xs p" and "bs \<noteq> []" "cs \<noteq> []" and "p + length bs + length cs < limit"
    and "wr bs s = Some (length bs, s1)"
  shows "\<exists>w s2. wr cs s1 = Some (w, s2) \<and> (w = length cs \<longrightarrow> holds s2 (overwrite p (bs @ cs) xs) (p + length (bs @ cs)))"
proof -
  have p: "p \<le> length xs" using holds_bounds [OF assms(1)] by simp
  have "p + length bs < limit" using assms(4) by simp
  then have h: "holds s1 (overwrite p bs xs) (p + length bs)" using wr_law [OF assms(1,2)] assms(5) by auto
  obtain w s2 where "wr cs s1 = Some (w, s2)" "w \<le> length cs" "holds s2 (overwrite (p + length bs) (take w cs) (overwrite p bs xs)) (p + length bs + w)"
    using wr_law [OF h assms(3)] assms(4) by auto
  moreover have "overwrite (p + length bs) cs (overwrite p bs xs) = overwrite p (bs @ cs) xs"
    using p by (simp add: overwrite_def add.commute add.left_commute)
  ultimately show ?thesis by (auto simp: add.assoc)
qed

end

definition fat_holds :: "fat \<times> fat_handle \<Rightarrow> u8 list \<Rightarrow> nat \<Rightarrow> bool" where
  "fat_holds s xs p \<longleftrightarrow> (\<exists>n node cs dc. file_state (fst s) (snd s) n node cs dc \<and> file_contents (fst s) node cs = xs \<and> unat (f_pos (snd s)) = p)"

definition fat_rd :: "nat \<Rightarrow> fat \<times> fat_handle \<Rightarrow> (u8 list \<times> fat \<times> fat_handle) option" where
  "fat_rd n s = map_option (\<lambda>(d, f). (d, fst s, f)) (fat_Read (snd s) (of_nat n) (fst s))"

definition fat_wr :: "u8 list \<Rightarrow> fat \<times> fat_handle \<Rightarrow> (nat \<times> fat \<times> fat_handle) option" where
  "fat_wr bs s = map_option (\<lambda>(w, f, fs). (w, fs, f)) (fat_Write (snd s) bs (of_nat (length bs)) (fst s))"

definition fat_sk :: "nat \<Rightarrow> fat \<times> fat_handle \<Rightarrow> (fat \<times> fat_handle) option" where
  "fat_sk q s = Option.bind (fat_Seek (snd s) (of_nat q) (fst s)) (\<lambda>(ok, f). if ok then Some (fst s, f) else None)"

interpretation ff: byte_file fat_holds fat_rd fat_wr fat_sk "\<lambda>s. free_clusters (fst s) = {}" "2 ^ 32"
proof
  fix s xs p assume "fat_holds s xs p"
  then obtain n node cs dc where h: "file_state (fst s) (snd s) n node cs dc" "file_contents (fst s) node cs = xs" "unat (f_pos (snd s)) = p"
    by (auto simp: fat_holds_def)
  then have st: "wf_fat (fst s)" "f_Node (snd s) = Some n" "ino_ID n \<noteq> 0" "vnodes (fst s) (ino_ID n) = Some node" "\<not> IsDirectory node"
    "file_chain (fst s) node cs" by (auto simp: file_state_def)
  have g: "geometry (fst s)" using st(1) by (simp add: wf_fat_def)
  have len: "length xs = unat (vn_FileSize node)" using length_file_contents [OF g st(6)] h(2) by simp
  have F: "unat (vn_FileSize node) < 2 ^ 32" using unsigned_less [of "vn_FileSize node", where ?'a = nat] by simp
  show "p \<le> length xs \<and> length xs < 2 ^ 32" using h(1,3) len F by (simp add: file_state_def)
  have of32: "unat (of_nat k :: u32) = k" if "k < 2 ^ 32" for k using that by (simp add: unat_of_nat take_bit_nat_eq_self)
  show "\<exists>s'. fat_rd k s = Some (take k (drop p xs), s') \<and> fat_holds s' xs (p + length (take k (drop p xs)))" if k: "k < 2 ^ 32" for k
  proof -
    let ?d = "take k (drop p xs)" and ?f = "(snd s)\<lparr> f_pos := f_pos (snd s) + of_nat (length (take k (drop p xs))) \<rparr>"
    have "fat_Read (snd s) (of_nat k) (fst s) = Some (?d, ?f)"
      using fat_Read_spec [OF st, of "of_nat k"] h(2,3) of32 [OF k] by simp
    moreover have "p + length ?d \<le> length xs" using h(1,3) len by (auto simp: file_state_def min_def)
    moreover from this have "unat (f_pos ?f) = p + length ?d"
      using h(3) len F by (simp, subst unat_add_no_wrap) (simp_all add: unat_of_nat_u64)
    ultimately have "fat_rd k s = Some (?d, fst s, ?f) \<and> fat_holds (fst s, ?f) xs (p + length ?d)"
      using h(1,2) len by (auto simp: fat_rd_def fat_holds_def file_state_def)
    then show ?thesis by blast
  qed
  show "\<exists>w s'. fat_wr bs s = Some (w, s') \<and> w \<le> length bs \<and> (w = length bs \<or> free_clusters (fst s') = {}) \<and>
      fat_holds s' (overwrite p (take w bs) xs) (p + w)" if b: "bs \<noteq> []" "p + length bs < 2 ^ 32" for bs
  proof -
    have l: "unat (of_nat (length bs) :: u32) = length bs" using of32 b(2) by simp
    then have "(of_nat (length bs) :: u32) \<noteq> 0" using b(1) by auto
    from fat_Write_spec [OF h(1) this, of bs] obtain w f' fs' where
      "fat_Write (snd s) bs (of_nat (length bs)) (fst s) = Some (w, f', fs')" "write_result (fst s) (snd s) n node cs dc bs (length bs) (w, f', fs')"
      using l b(2) h(3) by auto
    then show ?thesis using h(2,3) by (auto simp: fat_wr_def write_result_def fat_holds_def)
  qed
  show "\<exists>s'. fat_sk q s = Some s' \<and> fat_holds s' xs (min q (length xs))" if q: "q < 2 ^ 32" for q
  proof -
    have "unat (of_nat q :: u64) = q" using q by (simp add: unat_of_nat_u64)
    then obtain f' where "fat_Seek (snd s) (of_nat q) (fst s) = Some (True, f')" "file_state (fst s) f' n node cs dc" "unat (f_pos f') = min q (length xs)"
      using fat_Seek_spec [OF h(1), of "of_nat q"] len by auto
    then show ?thesis using h(2) by (auto simp: fat_sk_def fat_holds_def)
  qed
qed

section \<open>A small volume\<close>

text \<open>
  Eight sectors of 512 bytes: the boot sector, one table of one sector, and six clusters of one sector.
  Cluster 2 is the root directory; cluster 3 holds the file \<open>hello\<close>, whose entry is the second of the
  root directory; the others are free.
\<close>

definition hello :: "u8 list" where
  "hello = [0x68, 0x65, 0x6C, 0x6C, 0x6F]"

definition demo_table :: "u8 list" where
  "demo_table = bytes32 0x0FFFFFF8 @ bytes32 0x0FFFFFFF @ bytes32 0x0FFFFFFF @ bytes32 0x0FFFFFFF @ replicate 496 0"

definition demo_part :: partition where
  "demo_part = \<lparr> m_StartingLBA = 0, m_SectorCount = 8, m_ReadOnly = False,
     m_ParentDevice = \<lparr> sector_size = 512,
       sectors = (\<lambda>a. if a = 1 then demo_table else if a = 3 then hello @ replicate 507 0 else replicate 512 0),
       read_ok = (\<lambda>a n. True), stored = (\<lambda>a n. unat n) \<rparr> \<rparr>"

definition demo_vnode :: FAT32_VNode where
  "demo_vnode = \<lparr> StartCluster = 3, vn_FileSize = 5, IsDirectory = False, EntryLBA = 2, EntryOffset = 32, vn_RefCount = 1 \<rparr>"

definition demo_vol :: fat where
  "demo_vol = \<lparr> m_Partition = Some demo_part,
     m_BPB = \<lparr> BytesPerSector = 512, SectorsPerCluster = 1, ReservedSectors = 1, NumFATs = 1, TotalSectors32 = 8, SectorsPerFAT32 = 1,
       RootDirCluster = 2, fsInfoCluster = 0, FSType = [] \<rparr>,
     m_FirstDataSectorLBA = 2, m_FirstFATSectorLBA = 1, m_TotalClusters = 6, m_NextFreeClusterHint = 2,
     vnodes = [0x1000 \<mapsto> demo_vnode], new_at = (\<lambda>v. 0x2000), dma_ok = (\<lambda>n. True), kmalloc_ok = (\<lambda>n. True),
     rtc = \<lparr> second = 0, minute = 0, hour = 0, day = 1, month = 1, year = 2026 \<rparr>, lfn_garbage = replicate 520 0 \<rparr>"

definition demo_file :: fat_handle where
  "demo_file = \<lparr> f_pos = 5, f_Node = Some \<lparr> ino_ID = 0x1000, ino_FileSize = 5, ino_IsDir = False, ino_StartCluster = 0 \<rparr>, f_IsDirectory = False \<rparr>"

lemma demo_sector: "sector demo_part i =
    (if (of_nat i :: u64) = 1 then demo_table else if (of_nat i :: u64) = 3 then hello @ replicate 507 0 else replicate 512 0)"
  by (simp add: sector_def demo_part_def)

lemma demo_sectors: "sector demo_part (Suc 0) = demo_table" "sector demo_part 3 = hello @ replicate 507 0" "sector demo_part 2 = replicate 512 0"
  by (simp_all add: demo_sector)

lemma demo_wf: "wf_fat demo_vol"
proof -
  have "length (sector demo_part i) = 512" for i by (simp add: demo_sector demo_table_def hello_def)
  then show ?thesis by (simp add: wf_fat_def geometry_def wf_partition_def healthy_def demo_vol_def) (simp add: demo_part_def)
qed

lemma demo_entries: "fat_entry demo_vol 2 = 0x0FFFFFFF" "fat_entry demo_vol 3 = 0x0FFFFFFF"
  by (simp_all add: fat_entry_def demo_vol_def demo_sectors demo_table_def get32_def bytes32_def word32_def)

lemma demo_valid: "valid_cluster demo_vol 2" "valid_cluster demo_vol 3"
  by (simp_all add: valid_cluster_def demo_vol_def)

lemma demo_chain: "cluster_chain demo_vol 3 [3]"
  by (simp add: demo_entries demo_valid)

lemma demo_state: "file_state demo_vol demo_file (the (f_Node demo_file)) demo_vnode [3] 2"
proof -
  have "clu_bytes demo_vol = 512" by (simp add: clu_bytes_def demo_vol_def)
  then have "file_chain demo_vol demo_vnode [3]" using demo_chain by (simp add: file_chain_def demo_vnode_def del: cluster_chain.simps)
  moreover have "entry_in demo_vol demo_vnode 2"
    using demo_valid by (simp add: entry_in_def demo_vnode_def cluster_region_def cluster_sector_def) (simp add: demo_vol_def)
  moreover have "vnodes demo_vol 0x1000 = Some demo_vnode" "\<forall>k. kmalloc_ok demo_vol k" by (simp_all add: demo_vol_def)
  ultimately show ?thesis using demo_wf demo_entries by (simp add: file_state_def demo_file_def demo_vnode_def)
qed

lemma demo_contents: "file_contents demo_vol demo_vnode [3] = hello"
proof -
  have "part demo_vol = demo_part" "cluster_sector demo_vol 3 = 3" "clu_secs demo_vol = 1"
    by (simp_all add: demo_vol_def cluster_sector_def)
  then show ?thesis by (simp add: file_contents_def cluster_data_def demo_sectors demo_vnode_def hello_def)
qed

section \<open>Properties\<close>

text \<open>C13. Writing to a FAT32 file at its position overwrites the bytes there and lengthens the file when it
  reaches beyond its end; the number of bytes returned is the number asked for unless the volume is
  full; the position advances by it; the directory entry on the disk records the new size and first
  cluster; and no cluster outside the file changes, neither its link nor its bytes, except that the cluster that holds
  the directory entry gets the entry.\<close>

theorem fat_Write_correct:
  assumes "file_state fs file n node cs dc" and "sz \<noteq> 0" and "unat sz \<le> length buffer" and "unat (f_pos file) + unat sz < 2 ^ 32"
  shows "\<exists>w file' fs' n' node' cs'. fat_Write file buffer sz fs = Some (w, file', fs') \<and> file_state fs' file' n' node' cs' dc \<and>
    file_contents fs' node' cs' = overwrite (unat (f_pos file)) (take w buffer) (file_contents fs node cs) \<and>
    unat (f_pos file') = unat (f_pos file) + w \<and> w \<le> unat sz \<and> (w = unat sz \<or> free_clusters fs' = {}) \<and>
    (0 < w \<longrightarrow> on_disk fs' node') \<and> only_file fs fs' cs' dc"
proof -
  obtain w file' fs' where r: "fat_Write file buffer sz fs = Some (w, file', fs')" "write_result fs file n node cs dc buffer (unat sz) (w, file', fs')"
    using fat_Write_spec [OF assms] by auto
  then show ?thesis unfolding write_result_def split_conv by (elim exE conjE) (intro exI conjI; assumption)
qed

theorem fat_Write_correct_witness:
  "\<exists>w file' fs' n' node' cs'. fat_Write demo_file hello 5 demo_vol = Some (w, file', fs') \<and> file_state fs' file' n' node' cs' 2 \<and>
    file_contents fs' node' cs' = hello @ take w hello"
proof -
  have l: "(5 :: u32) \<noteq> 0" "unat (5 :: u32) \<le> length hello" "unat (f_pos demo_file) + unat (5 :: u32) < 2 ^ 32"
    by (simp_all add: hello_def demo_file_def)
  have o: "overwrite (unat (f_pos demo_file)) (take w hello) hello = hello @ take w hello" for w
    by (simp add: overwrite_def hello_def demo_file_def)
  show ?thesis using fat_Write_correct [OF demo_state l] unfolding demo_contents o by blast
qed

text \<open>C14. What is written to a FAT32 file is read back: after a write, a seek to where it began and a read
  of as many bytes as were written return those bytes, and all of them were written unless the volume
  is full.\<close>

theorem fat_write_read_back:
  assumes "fat_holds s xs p" and "bs \<noteq> []" and "p + length bs < 2 ^ 32"
  shows "\<exists>w s1 s2 s3. fat_wr bs s = Some (w, s1) \<and> (w = length bs \<or> free_clusters (fst s1) = {}) \<and>
    fat_sk p s1 = Some s2 \<and> fat_rd w s2 = Some (take w bs, s3)"
  using ff.read_back [OF assms] .

theorem fat_write_read_back_witness:
  "\<exists>w s1 s2 s3. fat_wr [1, 2, 3] (demo_vol, demo_file) = Some (w, s1) \<and> (w = 3 \<or> free_clusters (fst s1) = {}) \<and>
    fat_sk 5 s1 = Some s2 \<and> fat_rd w s2 = Some (take w [1, 2, 3], s3)"
proof -
  have "fat_holds (demo_vol, demo_file) hello 5"
    using demo_state demo_contents by (auto simp: fat_holds_def demo_file_def)
  from fat_write_read_back [OF this, of "[1, 2, 3]"] show ?thesis by (simp add: numeral_3_eq_3)
qed

text \<open>C15. Releasing a chain of clusters frees exactly the clusters of the chain, in every copy of the table:
  their entries become 0, every other entry and the bytes of every cluster stay, the driver reports
  success, and the loop's guard never stops it early.\<close>

theorem FreeClusterChain_exact:
  assumes "wf_fat fs" and "cluster_chain fs c cs" and "cs \<noteq> []"
  shows "\<exists>fs'. FreeClusterChain c fs = Some (True, fs') \<and> wf_fat fs' \<and>
    (\<forall>d. valid_cluster fs d \<longrightarrow> fat_entry fs' d = (if d \<in> set cs then 0 else fat_entry fs d) \<and> cluster_data fs' d = cluster_data fs d) \<and>
    (copies_agree fs \<longrightarrow> copies_agree fs')"
proof -
  have g: "geometry fs" using assms(1) by (simp add: wf_fat_def)
  obtain fs' where f: "FreeClusterChain c fs = Some (True, fs')" "changes {0 ..< data_base fs} fs fs'"
    "\<forall>d. unat d < nclusters fs + 2 \<longrightarrow> fat_entry fs' d = (if d \<in> set cs then 0 else fat_entry fs d)"
    "m_NextFreeClusterHint fs' = fold min cs c" "copies_agree fs \<longrightarrow> copies_agree fs'"
    by (rule FreeClusterChain_spec [OF assms])
  have "cluster_data fs' d = cluster_data fs d" if "valid_cluster fs d" for d
    by (rule changes_cluster_data [OF f(2) g that]) (use cluster_region_fat(2) [OF g that] in blast)
  then show ?thesis using f changes_wf [OF f(2) assms(1)] by (auto simp: valid_cluster_def)
qed

theorem FreeClusterChain_exact_witness:
  "\<exists>fs'. FreeClusterChain 3 demo_vol = Some (True, fs') \<and> fat_entry fs' 3 = 0 \<and> fat_entry fs' 2 = 0x0FFFFFFF"
  using FreeClusterChain_exact [OF demo_wf demo_chain] demo_valid demo_entries by auto

end
