(* ===== verification/Fat_Dir.thy ===== *)
theory Fat_Dir
  imports Fat_Io
begin

text \<open>
  Directories of a FAT32 volume, \<^verbatim>\<open>kernel/filesys/fat32/fat32_helper.cpp\<close>: iteration over the entries with
  their long and short names, search, creation and removal of entries. A name is the list of its bytes
  without the terminator; an entry is its 32 bytes.
\<close>

section \<open>Model\<close>

subsection \<open>Names\<close>

text \<open>\<open>outSize\<close> is the size of the buffer, \<open>out\<close> what has been written; \<^const>\<open>None\<close> is the return value \<^verbatim>\<open>-1\<close>.\<close>

definition utf8_unit :: "u32 \<Rightarrow> u8 list" where
  "utf8_unit c =
     (if c \<le> 0x7F then [ucast c]
      else if c \<le> 0x7FF then [ucast (0xC0 OR drop_bit 6 c), ucast (0x80 OR (c AND 0x3F))]
      else if c \<le> 0xFFFF then
        [ucast (0xE0 OR drop_bit 12 c), ucast (0x80 OR (drop_bit 6 c AND 0x3F)), ucast (0x80 OR (c AND 0x3F))]
      else
        [ucast (0xF0 OR drop_bit 18 c), ucast (0x80 OR (drop_bit 12 c AND 0x3F)), ucast (0x80 OR (drop_bit 6 c AND 0x3F)),
         ucast (0x80 OR (c AND 0x3F))])"

definition surrogate_pair :: "u16 \<Rightarrow> u16 \<Rightarrow> u32" where
  "surrogate_pair w w2 = 0x10000 + (push_bit 10 (ucast w - 0xD800) OR (ucast w2 - 0xDC00))"

fun UTF16LE_To_UTF8 :: "u16 list \<Rightarrow> nat \<Rightarrow> u8 list \<Rightarrow> u8 list option" where
  "UTF16LE_To_UTF8 [] outSize out = Some out"
| "UTF16LE_To_UTF8 (w # ws) outSize out =
     (if w = 0 then Some out
      else
        let high = 0xD800 \<le> w \<and> w \<le> 0xDBFF;
            pair = high \<and> ws \<noteq> [] \<and> 0xDC00 \<le> hd ws \<and> hd ws \<le> 0xDFFF;
            c = (if pair then surrogate_pair w (hd ws)
                 else if high \<or> 0xDC00 \<le> w \<and> w \<le> 0xDFFF then 0xFFFD
                 else ucast w);
            bs = utf8_unit c
        in if outSize \<le> length out + length bs then None
           else UTF16LE_To_UTF8 (if pair then tl ws else ws) outSize (out @ bs))"

text \<open>The buffer in which a long name is put together.\<close>

record lfn =
  lfn_buf :: "u8 list"
  have_lfn :: bool
  lfn_chars_filled :: nat

definition lfn_reset :: "lfn \<Rightarrow> lfn" where
  "lfn_reset l = l\<lparr> lfn_buf := (lfn_buf l)[0 := 0], have_lfn := False, lfn_chars_filled := 0 \<rparr>"

text \<open>Each of the three groups of characters ends at the first 0 or 0xFFFF.\<close>

definition units_at :: "u8 list \<Rightarrow> nat \<Rightarrow> nat \<Rightarrow> u16 list" where
  "units_at de i n = takeWhile (\<lambda>ch. ch \<noteq> 0 \<and> ch \<noteq> 0xFFFF) (map (\<lambda>k. word16 (de ! (i + 2 * k)) (de ! (i + 2 * k + 1))) [0..<n])"

definition lfn_part :: "u8 list \<Rightarrow> lfn \<Rightarrow> lfn" where
  "lfn_part de l =
     (let seqByte = de ! 0; seqIndex = unat (seqByte AND 0x1F) in
      if seqIndex = 0 \<or> 20 < seqIndex then lfn_reset l
      else
        let l = (if seqByte AND 0x40 \<noteq> 0 then l\<lparr> lfn_buf := replicate 520 0, lfn_chars_filled := 0 \<rparr> else l);
            piece = (case UTF16LE_To_UTF8 (units_at de 1 5 @ units_at de 14 6 @ units_at de 28 2) 128 [] of None \<Rightarrow> [] | Some p \<Rightarrow> p);
            startPos = (seqIndex - 1) * 13;
            piece = take (519 - startPos) piece;
            filled = max (startPos + length piece) (lfn_chars_filled l);
            buf = take startPos (lfn_buf l) @ piece @ drop (startPos + length piece) (lfn_buf l)
        in l\<lparr> lfn_buf := buf[filled := 0], lfn_chars_filled := filled, have_lfn := True \<rparr>)"

definition sfn_name :: "u8 list \<Rightarrow> u8 list" where
  "sfn_name de =
     (if de ! 0 = 0x2E then (if de ! 1 = 0x2E then [0x2E, 0x2E] else [0x2E])
      else
        let body = takeWhile (\<lambda>c. c \<noteq> 0x20) (take 8 de);
            ext = takeWhile (\<lambda>c. c \<noteq> 0x20) (take 3 (drop 8 de))
        in body @ (if ext \<noteq> [] \<and> body \<noteq> [] then [0x2E] else []) @ ext)"

subsection \<open>Iteration and search\<close>

text \<open>
  The entries of one cluster, from offset \<open>off\<close> on, \<open>k\<close> of them. The callback gets the name, the entry,
  its sector and its offset there, and says whether to go on; the second result is nothing when the
  iteration is over.
\<close>

fun scan_slots :: "(u8 list \<Rightarrow> u8 list \<Rightarrow> u64 \<Rightarrow> u32 \<Rightarrow> 'c \<Rightarrow> bool \<times> 'c) \<Rightarrow> u64 \<Rightarrow> nat \<Rightarrow> u8 list \<Rightarrow> nat \<Rightarrow> nat \<Rightarrow> lfn \<Rightarrow> 'c \<Rightarrow> ('c \<times> lfn option) option" where
  "scan_slots cb lba sb b off 0 l ctx = Some (ctx, Some l)"
| "scan_slots cb lba sb b off (Suc k) l ctx =
     do { de \<leftarrow> get_bytes b off 32;
          if de ! 0 = 0 then Some (ctx, None)
          else if de ! 11 = 0x0F then scan_slots cb lba sb b (off + 32) k (lfn_part de l) ctx
          else if de ! 0 = 0xE5 then scan_slots cb lba sb b (off + 32) k (lfn_reset l) ctx
          else
            let nm = takeWhile (\<lambda>c. c \<noteq> 0) (if have_lfn l then lfn_buf l else sfn_name de);
                r = cb nm de (lba + of_nat (off div sb)) (of_nat (off mod sb)) ctx
            in if fst r then scan_slots cb lba sb b (off + 32) k (lfn_reset l) (snd r) else Some (snd r, None) }"

text \<open>The loop over the clusters has no guard: on a chain that closes on itself it may not return.\<close>

partial_function (option) dir_loop :: "(u8 list \<Rightarrow> u8 list \<Rightarrow> u64 \<Rightarrow> u32 \<Rightarrow> 'c \<Rightarrow> bool \<times> 'c) \<Rightarrow> u32 \<Rightarrow> lfn \<Rightarrow> 'c \<Rightarrow> fat \<Rightarrow> (bool \<times> 'c) option" where
  "dir_loop cb cluster l ctx fs =
     (if EOC \<le> cluster then Some (True, ctx)
      else if ClusterToLBA cluster fs = 0 then Some (False, ctx)
      else
        case part_read (ClusterToLBA cluster fs) (ucast (spc fs)) fs of
          None \<Rightarrow> None
        | Some None \<Rightarrow> Some (False, ctx)
        | Some (Some b) \<Rightarrow>
            (case scan_slots cb (ClusterToLBA cluster fs) (sec_bytes fs) b 0 (clu_bytes fs div 32) l ctx of
               None \<Rightarrow> None
             | Some (ctx, None) \<Rightarrow> Some (True, ctx)
             | Some (ctx, Some l) \<Rightarrow>
                 (case GetNextCluster cluster fs of
                    None \<Rightarrow> None
                  | Some n \<Rightarrow> dir_loop cb n l ctx fs)))"

definition lfn_start :: "fat \<Rightarrow> lfn" where
  "lfn_start fs = \<lparr> lfn_buf = (lfn_garbage fs)[0 := 0], have_lfn = False, lfn_chars_filled = 0 \<rparr>"

definition ReadDirectory :: "u32 \<Rightarrow> (u8 list \<Rightarrow> u8 list \<Rightarrow> u64 \<Rightarrow> u32 \<Rightarrow> 'c \<Rightarrow> bool \<times> 'c) \<Rightarrow> 'c \<Rightarrow> fat \<Rightarrow> (bool \<times> 'c) option" where
  "ReadDirectory dirStartCluster cb ctx fs =
     (if m_Partition fs = None then Some (False, ctx) else dir_loop cb dirStartCluster (lfn_start fs) ctx fs)"

definition to_upper :: "u8 \<Rightarrow> u8" where
  "to_upper c = (if 0x61 \<le> c \<and> c \<le> 0x7A then c - 32 else c)"

definition same_name :: "u8 list \<Rightarrow> u8 list \<Rightarrow> bool" where
  "same_name a b \<longleftrightarrow> length a = length b \<and> map to_upper a = map to_upper b"

definition find_cb :: "u8 list \<Rightarrow> u8 list \<Rightarrow> u8 list \<Rightarrow> u64 \<Rightarrow> u32 \<Rightarrow> (u8 list \<times> u64 \<times> u32) option \<Rightarrow> bool \<times> (u8 list \<times> u64 \<times> u32) option" where
  "find_cb want fname de entryLBA entryOffset ctx =
     (if same_name fname want then (False, Some (de, entryLBA, entryOffset)) else (True, ctx))"

text \<open>The entry with its sector and offset; the inner \<^const>\<open>None\<close> is \<^verbatim>\<open>FALSE\<close>.\<close>

definition FindFileInDir :: "u8 list \<Rightarrow> u32 \<Rightarrow> fat \<Rightarrow> (u8 list \<times> u64 \<times> u32) option option" where
  "FindFileInDir name dirStartCluster fs =
     do { (ok, r) \<leftarrow> ReadDirectory dirStartCluster (find_cb name) None fs;
          Some (if ok then r else None) }"

definition list_cb :: "nat \<Rightarrow> u8 list \<Rightarrow> u8 list \<Rightarrow> u64 \<Rightarrow> u32 \<Rightarrow> (u8 list \<times> u8 list) list \<Rightarrow> bool \<times> (u8 list \<times> u8 list) list" where
  "list_cb maxEntries name de entryLBA entryOffset out =
     (if maxEntries \<le> length out then (False, out) else (True, out @ [(take 519 name, de)]))"

definition ListDirectory :: "u32 \<Rightarrow> nat \<Rightarrow> fat \<Rightarrow> (bool \<times> (u8 list \<times> u8 list) list) option" where
  "ListDirectory dirStartCluster maxEntries fs =
     (if maxEntries = 0 then Some (False, []) else ReadDirectory dirStartCluster (list_cb maxEntries) [] fs)"

subsection \<open>Creating entries\<close>

definition ComputeSFNChecksum :: "u8 list \<Rightarrow> u8" where
  "ComputeSFNChecksum sfn = fold (\<lambda>c s. (if s AND 1 \<noteq> 0 then 0x80 else 0) + drop_bit 1 s + c) sfn 0"

definition upper_ascii :: "u8 \<Rightarrow> u8" where
  "upper_ascii c = (if 0x61 \<le> c \<and> c \<le> 0x7A then c - 0x61 + 0x41 else c)"

definition sfn_char :: "u8 \<Rightarrow> u8" where
  "sfn_char c = upper_ascii (if c \<in> set [0x22, 0x2A, 0x2F, 0x3A, 0x3C, 0x3E, 0x3F, 0x5C, 0x7C] then 0x5F else c)"

text \<open>The name up to its last dot and what follows the dot.\<close>

definition split_ext :: "u8 list \<Rightarrow> u8 list \<times> u8 list" where
  "split_ext name =
     (if 0x2E \<in> set name then
        let e = rev (takeWhile (\<lambda>c. c \<noteq> 0x2E) (rev name)) in (take (length name - length e - 1) name, e)
      else (name, []))"

definition MakeSFNFromName :: "u8 list \<Rightarrow> u8 list" where
  "MakeSFNFromName name =
     (let (base_part, ext) = split_ext name;
          b = take 15 (map sfn_char (filter (\<lambda>c. c \<noteq> 0x20 \<and> \<not> c < 0x20) base_part));
          e = take 3 (map upper_ascii ext);
          stem = (if length b \<le> 8 then b @ replicate (8 - length b) 0x20 else take 6 b @ [0x7E, 0x31])
      in stem @ e @ replicate (3 - length e) 0x20)"

text \<open>The search for \<open>needed\<close> free slots in a row, inside one sector.\<close>

fun slot_run :: "nat \<Rightarrow> u8 list \<Rightarrow> nat \<Rightarrow> nat \<Rightarrow> nat \<Rightarrow> nat \<Rightarrow> nat option option" where
  "slot_run needed b off 0 consec start = Some None"
| "slot_run needed b off (Suc k) consec start =
     do { first \<leftarrow> get8 b off;
          if first = 0 \<or> first = 0xE5 then
            let start = (if consec = 0 then off else start) in
            if needed \<le> consec + 1 then Some (Some start)
            else slot_run needed b (off + 32) k (consec + 1) start
          else slot_run needed b (off + 32) k 0 start }"

fun slot_sectors :: "nat \<Rightarrow> u64 \<Rightarrow> nat \<Rightarrow> nat \<Rightarrow> fat \<Rightarrow> (bool \<times> (u64 \<times> u32) option) option" where
  "slot_sectors needed lba s 0 fs = Some (True, None)"
| "slot_sectors needed lba s (Suc k) fs =
     do { r \<leftarrow> part_read (lba + of_nat s) 1 fs;
          case r of
            None \<Rightarrow> Some (False, None)
          | Some b \<Rightarrow>
              do { f \<leftarrow> slot_run needed b 0 (sec_bytes fs div 32) 0 0;
                   case f of
                     Some off \<Rightarrow> Some (True, Some (lba + of_nat s, of_nat off))
                   | None \<Rightarrow> slot_sectors needed lba (s + 1) k fs } }"

fun slot_clusters :: "nat \<Rightarrow> nat \<Rightarrow> u32 \<Rightarrow> fat \<Rightarrow> (u64 \<times> u32) option option" where
  "slot_clusters needed k cluster fs =
     (if EOC \<le> cluster \<or> cluster < 2 then Some None
      else case k of
        0 \<Rightarrow> Some None
      | Suc k \<Rightarrow>
          do { (ok, f) \<leftarrow> slot_sectors needed (ClusterToLBA cluster fs) 0 (clu_secs fs) fs;
               if \<not> ok then Some None
               else if f \<noteq> None then Some f
               else do { n \<leftarrow> GetNextCluster cluster fs; slot_clusters needed k n fs } })"

declare slot_clusters.simps [simp del]

definition FindFreeDirSlots :: "u32 \<Rightarrow> nat \<Rightarrow> fat \<Rightarrow> (u64 \<times> u32) option option" where
  "FindFreeDirSlots dirStartCluster needed fs =
     (if needed = 0 then Some None else slot_clusters needed (unat (m_TotalClusters fs + 2)) dirStartCluster fs)"

fun dir_last :: "nat \<Rightarrow> u32 \<Rightarrow> fat \<Rightarrow> u32 option" where
  "dir_last k l fs =
     do { n \<leftarrow> GetNextCluster l fs;
          if EOC \<le> n \<or> n = 0 then Some l
          else case k of 0 \<Rightarrow> Some n | Suc k \<Rightarrow> dir_last k n fs }"

declare dir_last.simps [simp del]

text \<open>One more cluster for the directory, filled with zeros on the disk.\<close>

definition expand_dir :: "u32 \<Rightarrow> fat \<Rightarrow> (bool \<times> fat) option" where
  "expand_dir dirStartCluster fs =
     do { l \<leftarrow> dir_last (unat (m_TotalClusters fs + 2)) dirStartCluster fs;
          (newc, fs) \<leftarrow> AllocateCluster l fs;
          if newc = 0 then Some (False, fs)
          else
            let n = ucast (spc fs) * ucast (bps fs) :: u32 in
            if \<not> dma_ok fs ((n + 4096 - 1) div 4096) then Some (False, fs)
            else part_write (ClusterToLBA newc fs) (ucast (spc fs)) (replicate (unat n) 0) fs }"

fun find_slots :: "nat \<Rightarrow> u32 \<Rightarrow> nat \<Rightarrow> fat \<Rightarrow> ((u64 \<times> u32) option \<times> fat) option" where
  "find_slots attempts dirStartCluster needed fs =
     do { r \<leftarrow> FindFreeDirSlots dirStartCluster needed fs;
          case r of
            Some p \<Rightarrow> Some (Some p, fs)
          | None \<Rightarrow>
              (case attempts of
                 0 \<Rightarrow> Some (None, fs)
               | Suc attempts \<Rightarrow>
                   do { (ok, fs) \<leftarrow> expand_dir dirStartCluster fs;
                        if \<not> ok then Some (None, fs) else find_slots attempts dirStartCluster needed fs }) }"

declare find_slots.simps [simp del]

text \<open>The characters of one part of a long name, from \<open>ci\<close> on; one terminator is put after the name.\<close>

fun lfn_units :: "u16 list \<Rightarrow> nat \<Rightarrow> nat \<Rightarrow> bool \<Rightarrow> u16 list \<times> bool" where
  "lfn_units utf16 ci 0 inserted = ([], inserted)"
| "lfn_units utf16 ci (Suc k) inserted =
     (let (wc, inserted) = (if ci < length utf16 then (utf16 ! ci, inserted)
                            else if \<not> inserted then (0, True)
                            else (0xFFFF, inserted));
          (ws, inserted) = lfn_units utf16 (ci + 1) k inserted
      in (wc # ws, inserted))"

definition lfn_entry :: "nat \<Rightarrow> nat \<Rightarrow> u8 \<Rightarrow> u16 list \<Rightarrow> u8 list" where
  "lfn_entry seq lfn_entries chk ws =
     [of_nat seq OR (if seq = lfn_entries then 0x40 else 0)] @ concat (map bytes16 (take 5 ws)) @ [0x0F, 0x00, chk] @
     concat (map bytes16 (take 6 (drop 5 ws))) @ [0x00, 0x00] @ concat (map bytes16 (drop 11 ws))"

definition sfn_entry :: "u8 list \<Rightarrow> u32 \<Rightarrow> u32 \<Rightarrow> u8 list" where
  "sfn_entry sfn startCluster fileSize =
     sfn @ [0x20] @ replicate 8 0 @ [ucast (drop_bit 16 startCluster), ucast (drop_bit 24 startCluster)] @ replicate 4 0 @
     [ucast startCluster, ucast (drop_bit 8 startCluster)] @ bytes32 fileSize"

text \<open>Storing 32 bytes at a slot: read the sector, change it, write it back.\<close>

definition put_slot :: "u64 \<Rightarrow> u32 \<Rightarrow> u8 list \<Rightarrow> fat \<Rightarrow> (bool \<times> fat) option" where
  "put_slot foundLBA bytePos entry fs =
     (if bps fs = 0 then None
      else
        let target = foundLBA + ucast (bytePos div ucast (bps fs)) in
        do { r \<leftarrow> part_read target 1 fs;
             case r of
               None \<Rightarrow> Some (False, fs)
             | Some b \<Rightarrow>
                 do { b \<leftarrow> put_bytes (unat (bytePos mod ucast (bps fs))) entry b;
                      part_write target 1 b fs } })"

fun write_lfns :: "u16 list \<Rightarrow> nat \<Rightarrow> u8 \<Rightarrow> u64 \<Rightarrow> u32 \<Rightarrow> nat \<Rightarrow> bool \<Rightarrow> fat \<Rightarrow> (bool \<times> fat) option" where
  "write_lfns utf16 lfn_entries chk lba off 0 inserted fs = Some (True, fs)"
| "write_lfns utf16 lfn_entries chk lba off (Suc p) inserted fs =
     (let (ws, inserted) = lfn_units utf16 (p * 13) 13 inserted in
      do { (ok, fs) \<leftarrow> put_slot lba (off + of_nat (lfn_entries - Suc p) * 32) (lfn_entry (Suc p) lfn_entries chk ws) fs;
           if \<not> ok then Some (False, fs)
           else write_lfns utf16 lfn_entries chk lba off p inserted fs })"

definition name_units :: "u8 list \<Rightarrow> u16 list" where
  "name_units name = take 519 (map (\<lambda>c. if c < 0x80 then ucast c else 0x3F) name)"

text \<open>The sector and offset of the new short entry; the inner \<^const>\<open>None\<close> is \<^verbatim>\<open>FALSE\<close>.\<close>

definition CreateDirectoryEntry :: "u32 \<Rightarrow> u8 list \<Rightarrow> u32 \<Rightarrow> u32 \<Rightarrow> fat \<Rightarrow> ((u64 \<times> u32) option \<times> fat) option" where
  "CreateDirectoryEntry dirStartCluster name startCluster fileSize fs =
     (if m_Partition fs = None then Some (None, fs)
      else
        let utf16 = name_units name in
        if 255 < length utf16 then Some (None, fs)
        else
          let n = (length utf16 + 12) div 13 in
          do { (r, fs) \<leftarrow> find_slots 4 dirStartCluster (n + 1) fs;
               case r of
                 None \<Rightarrow> Some (None, fs)
               | Some (lba, off) \<Rightarrow>
                   do { let sfn = MakeSFNFromName name;
                        (ok, fs) \<leftarrow> write_lfns utf16 n (ComputeSFNChecksum sfn) lba off n False fs;
                        if \<not> ok then Some (None, fs)
                        else do {
                          let pos = off + of_nat n * 32;
                          (ok, fs) \<leftarrow> put_slot lba pos (sfn_entry sfn startCluster fileSize) fs;
                          Some (if ok then Some (lba + ucast (pos div ucast (bps fs)), pos mod ucast (bps fs)) else None, fs) } } })"

subsection \<open>Removing entries\<close>

fun dir_clusters :: "nat \<Rightarrow> u32 \<Rightarrow> fat \<Rightarrow> u32 list option" where
  "dir_clusters k c fs =
     (if 2 \<le> c \<and> c < EOC then
        do { n \<leftarrow> GetNextCluster c fs;
             cs \<leftarrow> (case k of 0 \<Rightarrow> Some [] | Suc k \<Rightarrow> dir_clusters k n fs);
             Some (c # cs) }
      else Some [])"

declare dir_clusters.simps [simp del]

text \<open>
  The walk backwards over the long-name entries before a short one: \<open>d\<close> is the loaded sector, number \<open>i\<close>
  of the directory. A failed write or read ends it; what is still changed is written at the end.
\<close>

definition flush_sector :: "u64 \<Rightarrow> u8 list \<Rightarrow> bool \<Rightarrow> fat \<Rightarrow> (bool \<times> fat) option" where
  "flush_sector lba d dirty fs = (if dirty then part_write lba 1 d fs else Some (True, fs))"

function delete_lfns :: "u64 list \<Rightarrow> nat \<Rightarrow> nat \<Rightarrow> u8 list \<Rightarrow> bool \<Rightarrow> fat \<Rightarrow> fat option" where
  "delete_lfns lbas i offs d dirty fs =
     (if 32 \<le> offs then
        do { first \<leftarrow> get8 d (offs - 32);
             attr \<leftarrow> get8 d (offs - 32 + 11);
             if first = 0 \<or> attr \<noteq> 0x0F then map_option snd (flush_sector (lbas ! i) d dirty fs)
             else delete_lfns lbas i (offs - 32) (d[offs - 32 := 0xE5]) True fs }
      else if i = 0 then map_option snd (flush_sector (lbas ! i) d dirty fs)
      else
        case flush_sector (lbas ! i) d dirty fs of
          None \<Rightarrow> None
        | Some (ok, fs) \<Rightarrow>
            if \<not> ok then map_option snd (flush_sector (lbas ! i) d dirty fs)
            else
              case part_read (lbas ! (i - 1)) 1 fs of
                None \<Rightarrow> None
              | Some None \<Rightarrow> Some fs
              | Some (Some d) \<Rightarrow>
                  let o2 = unat (ucast (bps fs) - 32 :: u32) in
                  do { first \<leftarrow> get8 d o2;
                       attr \<leftarrow> get8 d (o2 + 11);
                       if first = 0 \<or> attr \<noteq> 0x0F then Some fs
                       else delete_lfns lbas (i - 1) o2 (d[o2 := 0xE5]) True fs })"
  by pat_completeness auto
termination
  by (relation "measures [\<lambda>(lbas, i, _). i, \<lambda>(lbas, i, offs, _). offs]") auto

declare delete_lfns.simps [simp del]

definition RemoveDirectoryEntryAndLFNs :: "u32 \<Rightarrow> u64 \<Rightarrow> u32 \<Rightarrow> fat \<Rightarrow> (bool \<times> fat) option" where
  "RemoveDirectoryEntryAndLFNs dirStartCluster entryLBA entryOffset fs =
     do { r \<leftarrow> part_read entryLBA 1 fs;
          case r of
            None \<Rightarrow> Some (False, fs)
          | Some b \<Rightarrow>
              do { b \<leftarrow> put_bytes (unat entryOffset) [0xE5] b;
                   (ok, fs) \<leftarrow> part_write entryLBA 1 b fs;
                   if \<not> ok then Some (False, fs)
                   else do {
                     cs \<leftarrow> dir_clusters (unat (m_TotalClusters fs + 2)) dirStartCluster fs;
                     let lbas = concat (map (\<lambda>c. map (\<lambda>s. ClusterToLBA c fs + of_nat s) [0..<clu_secs fs]) cs);
                     if lbas = [] \<or> \<not> kmalloc_ok fs (of_nat (8 * length lbas)) then Some (True, fs)
                     else
                       case find_index (\<lambda>a. a = entryLBA) lbas of
                         None \<Rightarrow> Some (True, fs)
                       | Some i \<Rightarrow>
                           do { r \<leftarrow> part_read entryLBA 1 fs;
                                case r of
                                  None \<Rightarrow> Some (True, fs)
                                | Some d \<Rightarrow> map_option (Pair True) (delete_lfns lbas i (unat entryOffset) d False fs) } } } }"

section \<open>The entries of a directory\<close>

text \<open>
  A slot is 32 bytes with the sector and the offset where they are. The listing of a sequence of slots
  is what the driver reports: up to the first slot that begins with 0, the entries that are neither
  deleted nor part of a long name, each with its name.
\<close>

type_synonym slot = "u8 list \<times> u64 \<times> u32"

definition chunks32 :: "u8 list \<Rightarrow> u8 list list" where
  "chunks32 b = map (\<lambda>i. take 32 (drop (32 * i) b)) [0..<length b div 32]"

definition slots_from :: "u64 \<Rightarrow> nat \<Rightarrow> u8 list list \<Rightarrow> slot list" where
  "slots_from lba k ds = map (\<lambda>(i, d). (d, lba, of_nat (32 * i))) (enumerate k ds)"

definition sector_slots :: "fat \<Rightarrow> u32 \<Rightarrow> nat \<Rightarrow> slot list" where
  "sector_slots fs c s = slots_from (ClusterToLBA c fs + of_nat s) 0 (chunks32 (sector (part fs) (cluster_sector fs c + s)))"

definition cluster_slots :: "fat \<Rightarrow> u32 \<Rightarrow> slot list" where
  "cluster_slots fs c = concat (map (sector_slots fs c) [0..<clu_secs fs])"

definition dir_slots :: "fat \<Rightarrow> u32 list \<Rightarrow> slot list" where
  "dir_slots fs cs = concat (map (cluster_slots fs) cs)"

fun next_lfn :: "u8 list \<Rightarrow> lfn \<Rightarrow> lfn" where
  "next_lfn de l = (if de ! 11 = 0x0F then lfn_part de l else lfn_reset l)"

fun listing :: "slot list \<Rightarrow> lfn \<Rightarrow> (u8 list \<times> slot) list" where
  "listing [] l = []"
| "listing ((de, p) # xs) l =
     (if de ! 0 = 0 then []
      else (if de ! 11 = 0x0F \<or> de ! 0 = 0xE5 then []
            else [(takeWhile (\<lambda>c. c \<noteq> 0) (if have_lfn l then lfn_buf l else sfn_name de), de, p)]) @
           listing xs (next_lfn de l))"

declare next_lfn.simps [simp del]

definition ended :: "slot list \<Rightarrow> bool" where
  "ended xs \<longleftrightarrow> (\<exists>x \<in> set xs. fst x ! 0 = 0)"

definition lfn_after :: "slot list \<Rightarrow> lfn \<Rightarrow> lfn" where
  "lfn_after xs l = fold (next_lfn \<circ> fst) xs l"

lemma listing_append: "listing (xs @ ys) l = listing xs l @ (if ended xs then [] else listing ys (lfn_after xs l))"
  by (induction xs l rule: listing.induct) (auto simp: ended_def lfn_after_def)

text \<open>The callback is called on the entries in turn, until it says stop.\<close>

fun visit :: "(u8 list \<Rightarrow> u8 list \<Rightarrow> u64 \<Rightarrow> u32 \<Rightarrow> 'c \<Rightarrow> bool \<times> 'c) \<Rightarrow> (u8 list \<times> slot) list \<Rightarrow> 'c \<Rightarrow> bool \<times> 'c" where
  "visit cb [] ctx = (True, ctx)"
| "visit cb ((nm, de, a, o') # es) ctx = (let r = cb nm de a o' ctx in if fst r then visit cb es (snd r) else r)"

lemma visit_append: "visit cb (xs @ ys) ctx = (let r = visit cb xs ctx in if fst r then visit cb ys (snd r) else r)"
  by (induction cb xs ctx rule: visit.induct) (auto simp: Let_def)

lemma visit_find: "snd (visit (find_cb name) es None) = map_option snd (find (\<lambda>e. same_name (fst e) name) es)"
  by (induction es) (auto simp: find_cb_def Let_def)

lemma visit_list:
  "length out \<le> m \<Longrightarrow> snd (visit (list_cb m) es out) = out @ take (m - length out) (map (\<lambda>e. (take 519 (fst e), fst (snd e))) es)"
proof (induction es arbitrary: out)
  case (Cons e es)
  obtain nm de a p where e: "e = (nm, de, a, p)" by (cases e)
  show ?case
  proof (cases "length out = m")
    case False
    then have "Suc (length out) \<le> m" using Cons.prems by simp
    moreover from this obtain k where "m = Suc (length out) + k" using le_Suc_ex by blast
    ultimately show ?thesis using Cons.IH [of "out @ [(take 519 nm, de)]"] by (simp add: e list_cb_def)
  qed (simp add: e list_cb_def)
qed simp

text \<open>The scan of one buffer visits the listing of its slots.\<close>

definition buffer_slot :: "u64 \<Rightarrow> nat \<Rightarrow> u8 list \<Rightarrow> nat \<Rightarrow> slot" where
  "buffer_slot lba sb b o' = (take 32 (drop o' b), lba + of_nat (o' div sb), of_nat (o' mod sb))"

lemma scan_slots_visit:
  assumes "off + 32 * k \<le> length b"
  shows "scan_slots cb lba sb b off k l ctx =
    (let xs = map (\<lambda>j. buffer_slot lba sb b (off + 32 * j)) [0..<k]; r = visit cb (listing xs l) ctx in
     Some (snd r, if fst r \<and> \<not> ended xs then Some (lfn_after xs l) else None))"
  using assms
proof (induction k arbitrary: off l ctx)
  case 0
  then show ?case by (simp add: ended_def lfn_after_def)
next
  case (Suc k)
  let ?xs = "map (\<lambda>j. buffer_slot lba sb b (off + 32 * j)) [0..<Suc k]"
  let ?ys = "map (\<lambda>j. buffer_slot lba sb b (off + 32 + 32 * j)) [0..<k]"
  have xs: "?xs = buffer_slot lba sb b off # ?ys"
    by (simp add: upt_conv_Cons map_Suc_upt [symmetric] comp_def add.assoc del: upt_Suc)
  have de: "get_bytes b off 32 = Some (take 32 (drop off b))" using Suc.prems by (simp add: get_bytes_def)
  note IH = Suc.IH [of "off + 32"]
  show ?case using Suc.prems IH unfolding xs
    by (auto simp: de Let_def buffer_slot_def ended_def lfn_after_def next_lfn.simps split: if_splits)
qed

text \<open>The slots of a cluster's data are those of its sectors.\<close>

lemma map_upt_mult: "map f [0..<n * q] = concat (map (\<lambda>s. map (\<lambda>i. f (s * q + i)) [0..<q]) [0..<n])"
proof (induction n)
  case (Suc n)
  have "map f [0..<Suc n * q] = map f [0..<n * q] @ map f [n * q..<n * q + q]"
    by (metis map_append mult_Suc add.commute upt_add_eq_append zero_le)
  also have "map f [n * q..<n * q + q] = map (\<lambda>i. f (n * q + i)) [0..<q]"
    by (rule nth_equalityI) (simp_all)
  finally show ?case using Suc by simp
qed simp

lemma drop_concat_blocks:
  assumes "\<And>i. i < n \<Longrightarrow> length (g i) = sb" and "s < n" and "o' + 32 \<le> sb"
  shows "take 32 (drop (s * sb + o') (concat (map g [0..<n]))) = take 32 (drop o' (g s))"
proof -
  have split: "[0..<n] = [0..<s] @ s # [Suc s..<n]"
    using assms(2) by (metis upt_conv_Cons upt_add_eq_append le_add_diff_inverse less_imp_le zero_le)
  have "length (concat (map g [0..<j])) = j * sb" if "j \<le> n" for j
    using that assms(1) by (induction j) simp_all
  from this [of s] show ?thesis using assms by (simp add: split)
qed

lemma sector_chunks:
  assumes "geometry fs" and "valid_cluster fs c" and "s < clu_secs fs"
  shows "length (sector (part fs) (cluster_sector fs c + s)) = sec_bytes fs"
  using sector_length [OF assms(1)] cluster_place(2) [OF assms(1,2)] assms(3) by simp

lemma buffer_cluster_slots:
  assumes "geometry fs" and "valid_cluster fs c"
  shows "map (\<lambda>j. buffer_slot (ClusterToLBA c fs) (sec_bytes fs) (cluster_data fs c) (0 + 32 * j)) [0..<clu_bytes fs div 32] = cluster_slots fs c"
proof -
  obtain q where q: "sec_bytes fs = 32 * q" using geometryD(5) [OF assms(1)] by (auto simp: dvd_def)
  then have q0: "0 < q" using geometryD(4) [OF assms(1)] by simp
  let ?f = "\<lambda>j. buffer_slot (ClusterToLBA c fs) (sec_bytes fs) (cluster_data fs c) (0 + 32 * j)"
  have slot: "?f (s * q + i) = (take 32 (drop (32 * i) (sector (part fs) (cluster_sector fs c + s))), ClusterToLBA c fs + of_nat s, of_nat (32 * i))"
    if "s < clu_secs fs" "i < q" for s i
  proof -
    have e: "0 + 32 * (s * q + i) = s * sec_bytes fs + 32 * i" by (simp add: q algebra_simps)
    have l: "32 * i + 32 \<le> sec_bytes fs" using that(2) by (simp add: q)
    then have "32 * i < sec_bytes fs" by simp
    then have "(s * sec_bytes fs + 32 * i) div sec_bytes fs = s" "(s * sec_bytes fs + 32 * i) mod sec_bytes fs = 32 * i"
      using geometryD(4) [OF assms(1)] by simp_all
    then show ?thesis unfolding e buffer_slot_def cluster_data_def
      using drop_concat_blocks [of "clu_secs fs" "\<lambda>i. sector (part fs) (cluster_sector fs c + i)" "sec_bytes fs" s "32 * i"]
        sector_chunks [OF assms] that(1) l by simp
  qed
  have "clu_bytes fs div 32 = clu_secs fs * q" by (simp add: clu_bytes_def q)
  then have "map ?f [0..<clu_bytes fs div 32] = concat (map (\<lambda>s. map (\<lambda>i. ?f (s * q + i)) [0..<q]) [0..<clu_secs fs])"
    using map_upt_mult [of ?f "clu_secs fs" q] by simp
  also have "\<dots> = concat (map (sector_slots fs c) [0..<clu_secs fs])"
  proof (intro arg_cong [where f = concat] map_cong refl)
    fix s assume "s \<in> set [0..<clu_secs fs]"
    then have s: "s < clu_secs fs" by simp
    have "length (sector (part fs) (cluster_sector fs c + s)) div 32 = q" using sector_chunks [OF assms s] q by simp
    then show "map (\<lambda>i. ?f (s * q + i)) [0..<q] = sector_slots fs c s"
      using slot [OF s] by (intro nth_equalityI) (simp_all add: sector_slots_def slots_from_def chunks32_def nth_enumerate_eq)
  qed
  finally show ?thesis by (simp add: cluster_slots_def)
qed

lemma dir_slots_simps [simp]: "dir_slots fs [] = []" "dir_slots fs (c # cs) = cluster_slots fs c @ dir_slots fs cs"
  "dir_slots fs (cs @ ds) = dir_slots fs cs @ dir_slots fs ds"
  by (simp_all add: dir_slots_def)

lemma ended_append [simp]: "ended (xs @ ys) \<longleftrightarrow> ended xs \<or> ended ys"
  by (auto simp: ended_def)

lemma lfn_after_append [simp]: "lfn_after (xs @ ys) l = lfn_after ys (lfn_after xs l)"
  by (simp add: lfn_after_def)

text \<open>On a chain of clusters the loop returns, and visits the listing of the directory.\<close>

lemma dir_loop_chain:
  assumes "wf_fat fs" and "cluster_chain fs c cs"
  shows "dir_loop cb c l ctx fs = Some (True, snd (visit cb (listing (dir_slots fs cs) l) ctx))"
  using assms(2)
proof (induction cs arbitrary: c l ctx)
  case Nil
  then show ?case by (subst dir_loop.simps) simp
next
  case (Cons d ds)
  have g: "geometry fs" using assms(1) by (simp add: wf_fat_def)
  have c: "d = c" "valid_cluster fs c" "cluster_chain fs (fat_entry fs c) ds" using Cons.prems by auto
  have lba: "ClusterToLBA c fs \<noteq> 0"
    using cluster_place(1,3) [OF g c(2)] geometryD(8,13) [OF g] by (metis add_is_0 le_zero_eq less_numeral_extra(3) unat_0)
  have notend: "\<not> EOC \<le> c" using valid_clusterD(2) [OF g c(2)] by (simp add: not_le)
  have "0 + 32 * (clu_bytes fs div 32) \<le> length (cluster_data fs c)" using length_cluster_data [OF g c(2)] by simp
  note scan = scan_slots_visit [OF this, of cb "ClusterToLBA c fs" "sec_bytes fs" l ctx, unfolded buffer_cluster_slots [OF g c(2)]]
  show ?case
    by (subst dir_loop.simps)
      (simp add: c(1) notend lba part_read_cluster [OF assms(1) c(2)] scan GetNextCluster_spec [OF assms(1) valid_clusterD(3) [OF g c(2)]]
        Let_def Cons.IH [OF c(3)] listing_append visit_append)
qed

definition dir_listing :: "fat \<Rightarrow> u32 list \<Rightarrow> (u8 list \<times> slot) list" where
  "dir_listing fs cs = listing (dir_slots fs cs) (lfn_start fs)"

lemma ReadDirectory_spec:
  assumes "wf_fat fs" and "cluster_chain fs c cs"
  shows "ReadDirectory c cb ctx fs = Some (True, snd (visit cb (dir_listing fs cs) ctx))"
proof -
  have "m_Partition fs \<noteq> None" using assms(1) by (simp add: wf_fat_def geometry_def)
  then show ?thesis using dir_loop_chain [OF assms] by (simp add: ReadDirectory_def dir_listing_def)
qed

lemma FindFileInDir_spec:
  assumes "wf_fat fs" and "cluster_chain fs c cs"
  shows "FindFileInDir name c fs = Some (map_option snd (find (\<lambda>e. same_name (fst e) name) (dir_listing fs cs)))"
  by (simp add: FindFileInDir_def ReadDirectory_spec [OF assms] visit_find)

lemma ListDirectory_spec:
  assumes "wf_fat fs" and "cluster_chain fs c cs" and "0 < m"
  shows "ListDirectory c m fs = Some (True, take m (map (\<lambda>e. (take 519 (fst e), fst (snd e))) (dir_listing fs cs)))"
  using assms(3) visit_list [of "[]" m "dir_listing fs cs"] by (simp add: ListDirectory_def ReadDirectory_spec [OF assms(1,2)])

end
