(* ===== verification/Fat_Name.thy ===== *)
theory Fat_Name
  imports Fat_Dir
begin

text \<open>
  Long names on FAT32: reading the entries that \<^const>\<open>write_lfns\<close> produces for an ASCII name gives the
  name back, whatever the name buffer held before.
\<close>

section \<open>Characters\<close>

definition ascii_name :: "u8 list \<Rightarrow> bool" where
  "ascii_name nm \<longleftrightarrow> nm \<noteq> [] \<and> length nm \<le> 255 \<and> (\<forall>c \<in> set nm. c \<noteq> 0 \<and> c < 0x80)"

lemma ascii_unit: "c < 0x80 \<Longrightarrow> utf8_unit (ucast (ucast (c :: u8) :: u16)) = [c]"
proof -
  assume c: "c < 0x80"
  have "unat (ucast (ucast c :: u16) :: u32) = unat c" by (simp add: unat_ucast_wide)
  moreover from c have "unat c < 128" by (simp add: word_less_nat_alt)
  ultimately have "(ucast (ucast c :: u16) :: u32) \<le> 0x7F" by (simp add: word_le_nat_alt)
  moreover have "ucast (ucast (ucast c :: u16) :: u32) = c"
    using unsigned_less [of c, where ?'a = nat] by (simp add: word_unat_eq_iff unat_ucast_narrow unat_ucast_wide)
  ultimately show ?thesis by (simp add: utf8_unit_def)
qed

lemma ascii_plain:
  assumes "c < (0x80 :: u8)"
  shows "\<not> 0xD800 \<le> (ucast c :: u16)" "\<not> 0xDC00 \<le> (ucast c :: u16)" "(ucast c :: u16) \<noteq> 0xFFFF"
proof -
  have "unat (ucast c :: u16) = unat c" by (simp add: unat_ucast_wide)
  moreover have "unat c < 128" using assms by (simp add: word_less_nat_alt)
  ultimately have u: "unat (ucast c :: u16) < 128" by simp
  then show "\<not> 0xD800 \<le> (ucast c :: u16)" "\<not> 0xDC00 \<le> (ucast c :: u16)" by (simp_all add: word_le_nat_alt)
  show "(ucast c :: u16) \<noteq> 0xFFFF" using u by auto
qed

lemma ascii_zero: "(ucast (c :: u8) :: u16) = 0 \<longleftrightarrow> c = 0"
  using word_unat_eq_iff [of "ucast c" "0 :: u16"] word_unat_eq_iff [of c 0] by (simp add: unat_ucast_wide)

lemma UTF8_ascii:
  assumes "\<forall>c \<in> set t. c \<noteq> 0 \<and> c < 0x80" and "length out + length t < outSize"
  shows "UTF16LE_To_UTF8 (map ucast t) outSize out = Some (out @ t)"
  using assms
proof (induction t arbitrary: out)
  case (Cons c t)
  then have c: "c \<noteq> 0" "c < 0x80" by auto
  show ?case using Cons.prems Cons.IH [of "out @ [c]"] ascii_plain [OF c(2)] ascii_unit [OF c(2)]
    by (simp add: ascii_zero c(1) Let_def)
qed simp

section \<open>The parts of a name\<close>

definition pad :: "nat \<Rightarrow> u16 list" where
  "pad k = (if k = 0 then [] else 0 # replicate (k - 1) 0xFFFF)"

lemma lfn_units_True: "length u \<le> ci \<Longrightarrow> lfn_units u ci k True = (replicate k 0xFFFF, True)"
  by (induction k arbitrary: ci) simp_all

lemma lfn_units_spec:
  assumes "ci \<le> length u"
  shows "lfn_units u ci k False = (take k (drop ci u) @ pad (k - (length u - ci)), length u - ci < k)"
  using assms
proof (induction k arbitrary: ci)
  case (Suc k)
  show ?case
  proof (cases "ci < length u")
    case True
    then show ?thesis using Suc.IH [of "ci + 1"] Cons_nth_drop_Suc [OF True, symmetric] by (auto simp: Suc_diff_Suc)
  next
    case False
    then show ?thesis using Suc.prems by (simp add: lfn_units_True pad_def)
  qed
qed (simp add: pad_def)

lemma takeWhile_upto: "\<forall>x \<in> set t. P x \<Longrightarrow> \<forall>x \<in> set z. \<not> P x \<Longrightarrow> takeWhile P (take k (t @ z)) = take k t"
proof -
  assume t: "\<forall>x \<in> set t. P x" and z: "\<forall>x \<in> set z. \<not> P x"
  have "takeWhile P (take j z) = []" for j using z by (auto simp: takeWhile_eq_Nil_iff hd_in_set dest: in_set_takeD [OF hd_in_set])
  moreover have "takeWhile P (take k t @ y) = take k t @ takeWhile P y" for y
    using t by (intro takeWhile_append2) (auto dest: in_set_takeD)
  ultimately show ?thesis by simp
qed

lemma three_groups: "length t \<le> 13 \<Longrightarrow> take 5 t @ take 6 (drop 5 t) @ take 2 (drop 11 t) = t"
proof -
  assume "length t \<le> 13"
  then have "take 2 (drop 11 t) = drop 11 t" by simp
  moreover have "take 6 (drop 5 t) @ drop 11 t = drop 5 t" using append_take_drop_id [of 6 "drop 5 t"] by simp
  ultimately show ?thesis by simp
qed

lemma word16_of_bytes16: "word16 (bytes16 w ! 0) (bytes16 w ! 1) = w"
  using get16_at [of "[]" 0 w "[]"] by (simp add: get16_def bytes16_def)

lemma length_bytes16 [simp]: "length (bytes16 w) = 2"
  by (simp add: bytes16_def)

lemma length_concat_bytes16: "length (concat (map bytes16 ws)) = 2 * length ws"
  by (induction ws) simp_all

lemma nth_concat_bytes16:
  assumes "k < length ws"
  shows "concat (map bytes16 ws) ! (2 * k) = bytes16 (ws ! k) ! 0" "concat (map bytes16 ws) ! (2 * k + 1) = bytes16 (ws ! k) ! 1"
proof -
  have "concat (map bytes16 ws) = concat (map bytes16 (take k ws)) @ bytes16 (ws ! k) @ concat (map bytes16 (drop (Suc k) ws))"
    using arg_cong [OF id_take_nth_drop [OF assms], of "\<lambda>x. concat (map bytes16 x)"] by simp
  then show "concat (map bytes16 ws) ! (2 * k) = bytes16 (ws ! k) ! 0" "concat (map bytes16 ws) ! (2 * k + 1) = bytes16 (ws ! k) ! 1"
    using assms by (simp_all add: nth_append length_concat_bytes16)
qed

lemma units_at_concat:
  assumes "de = pre @ concat (map bytes16 ws) @ post" and "length pre = i" and "length ws = n"
  shows "units_at de i n = takeWhile (\<lambda>ch. ch \<noteq> 0 \<and> ch \<noteq> 0xFFFF) ws"
proof -
  have "word16 (de ! (i + 2 * k)) (de ! (i + 2 * k + 1)) = ws ! k" if "k < n" for k
    using nth_concat_bytes16 [of k ws] that assms word16_of_bytes16 [of "ws ! k"]
    by (simp add: nth_append length_concat_bytes16)
  then have "map (\<lambda>k. word16 (de ! (i + 2 * k)) (de ! (i + 2 * k + 1))) [0..<n] = ws"
    using assms(3) by (intro nth_equalityI) simp_all
  then show ?thesis by (simp add: units_at_def)
qed

lemma lfn_entry_fields:
  assumes "length ws = 13"
  shows "length (lfn_entry p n chk ws) = 32" "lfn_entry p n chk ws ! 11 = 0x0F"
    "lfn_entry p n chk ws ! 0 = of_nat p OR (if p = n then 0x40 else 0)"
    "units_at (lfn_entry p n chk ws) 1 5 = takeWhile (\<lambda>ch. ch \<noteq> 0 \<and> ch \<noteq> 0xFFFF) (take 5 ws)"
    "units_at (lfn_entry p n chk ws) 14 6 = takeWhile (\<lambda>ch. ch \<noteq> 0 \<and> ch \<noteq> 0xFFFF) (take 6 (drop 5 ws))"
    "units_at (lfn_entry p n chk ws) 28 2 = takeWhile (\<lambda>ch. ch \<noteq> 0 \<and> ch \<noteq> 0xFFFF) (drop 11 ws)"
proof -
  let ?a = "concat (map bytes16 (take 5 ws))" and ?b = "concat (map bytes16 (take 6 (drop 5 ws)))"
  have l: "length ?a = 10" "length ?b = 12" using assms by (simp_all add: length_concat_bytes16)
  show "length (lfn_entry p n chk ws) = 32" using assms by (simp add: lfn_entry_def length_concat_bytes16)
  show "lfn_entry p n chk ws ! 11 = 0x0F" using l by (simp add: lfn_entry_def nth_append)
  show "lfn_entry p n chk ws ! 0 = of_nat p OR (if p = n then 0x40 else 0)" by (simp add: lfn_entry_def)
  show "units_at (lfn_entry p n chk ws) 1 5 = takeWhile (\<lambda>ch. ch \<noteq> 0 \<and> ch \<noteq> 0xFFFF) (take 5 ws)"
    by (rule units_at_concat [of _ "[of_nat p OR (if p = n then 0x40 else 0)]"]) (use assms in \<open>auto simp: lfn_entry_def\<close>)
  show "units_at (lfn_entry p n chk ws) 14 6 = takeWhile (\<lambda>ch. ch \<noteq> 0 \<and> ch \<noteq> 0xFFFF) (take 6 (drop 5 ws))"
    by (rule units_at_concat [of _ "[of_nat p OR (if p = n then 0x40 else 0)] @ ?a @ [0x0F, 0x00, chk]"])
      (use assms l in \<open>auto simp: lfn_entry_def\<close>)
  show "units_at (lfn_entry p n chk ws) 28 2 = takeWhile (\<lambda>ch. ch \<noteq> 0 \<and> ch \<noteq> 0xFFFF) (drop 11 ws)"
    by (rule units_at_concat [of _ "[of_nat p OR (if p = n then 0x40 else 0)] @ ?a @ [0x0F, 0x00, chk] @ ?b @ [0x00, 0x00]" _ "[]"])
      (use assms l in \<open>auto simp: lfn_entry_def\<close>)
qed

section \<open>Assembling a name\<close>

lemma seq_byte:
  assumes "0 < p" and "p \<le> 20"
  shows "unat ((of_nat p OR (if lst then 0x40 else 0)) AND 0x1F :: u8) = p" "(of_nat p OR (if lst then 0x40 else 0)) AND 0x40 \<noteq> (0 :: u8) \<longleftrightarrow> lst"
    "(of_nat p OR (if lst then 0x40 else 0) :: u8) \<noteq> 0" "(of_nat p OR (if lst then 0x40 else 0) :: u8) \<noteq> 0xE5"
proof -
  have "p = 1 \<or> p = 2 \<or> p = 3 \<or> p = 4 \<or> p = 5 \<or> p = 6 \<or> p = 7 \<or> p = 8 \<or> p = 9 \<or> p = 10 \<or> p = 11 \<or> p = 12 \<or>
    p = 13 \<or> p = 14 \<or> p = 15 \<or> p = 16 \<or> p = 17 \<or> p = 18 \<or> p = 19 \<or> p = 20" using assms by presburger
  then show "unat ((of_nat p OR (if lst then 0x40 else 0)) AND 0x1F :: u8) = p" "(of_nat p OR (if lst then 0x40 else 0)) AND 0x40 \<noteq> (0 :: u8) \<longleftrightarrow> lst"
    "(of_nat p OR (if lst then 0x40 else 0) :: u8) \<noteq> 0" "(of_nat p OR (if lst then 0x40 else 0) :: u8) \<noteq> 0xE5"
    by (elim disjE; simp)+
qed

text \<open>What reading one long-name entry does to the buffer, when its characters are the ASCII bytes \<open>t\<close>.\<close>

lemma lfn_part_spec:
  assumes "0 < p" and "p \<le> 20" and t: "length t \<le> 13" "\<forall>c \<in> set t. c \<noteq> 0 \<and> c < 0x80"
  shows "lfn_part (lfn_entry p n chk (map ucast t @ pad (13 - length t))) l =
    (let l = (if p = n then l\<lparr> lfn_buf := replicate 520 0, lfn_chars_filled := 0 \<rparr> else l);
         filled = max ((p - 1) * 13 + length t) (lfn_chars_filled l)
     in l\<lparr> lfn_buf := (overwrite ((p - 1) * 13) t (lfn_buf l))[filled := 0], lfn_chars_filled := filled, have_lfn := True \<rparr>)"
proof -
  let ?ok = "\<lambda>ch. ch \<noteq> 0 \<and> ch \<noteq> (0xFFFF :: u16)" and ?u = "map ucast t :: u16 list" and ?z = "pad (13 - length t)"
  let ?ws = "?u @ ?z"
  have len: "length ?ws = 13" using t(1) by (auto simp: pad_def)
  have u: "\<forall>x \<in> set ?u. ?ok x" using t(2) ascii_plain(3) by (auto simp: ascii_zero)
  have z: "\<forall>x \<in> set ?z. \<not> ?ok x" by (auto simp: pad_def)
  have ud: "\<forall>x \<in> set (drop k ?u). ?ok x" "\<forall>x \<in> set (drop j ?z). \<not> ?ok x" for j k
    using u z by (meson in_set_dropD)+
  have "units_at (lfn_entry p n chk ?ws) 1 5 = take 5 ?u" using lfn_entry_fields(4) [OF len] takeWhile_upto [OF u z, of 5] by simp
  moreover have "units_at (lfn_entry p n chk ?ws) 14 6 = take 6 (drop 5 ?u)"
  proof -
    have "takeWhile ?ok (take 6 (drop 5 ?u @ drop (5 - length ?u) ?z)) = take 6 (drop 5 ?u)"
      by (rule takeWhile_upto [OF ud])
    then show ?thesis using lfn_entry_fields(5) [OF len] by (simp del: length_map)
  qed
  moreover have "units_at (lfn_entry p n chk ?ws) 28 2 = take 2 (drop 11 ?u)"
  proof -
    have "take 2 (drop 11 ?ws) = drop 11 ?ws" by (rule take_all) (simp only: len length_drop)
    then have d: "drop 11 ?ws = take 2 (drop 11 ?u @ drop (11 - length ?u) ?z)" by (simp only: drop_append)
    show ?thesis unfolding lfn_entry_fields(6) [OF len] d by (rule takeWhile_upto [OF ud])
  qed
  ultimately have g: "units_at (lfn_entry p n chk ?ws) 1 5 @ units_at (lfn_entry p n chk ?ws) 14 6 @ units_at (lfn_entry p n chk ?ws) 28 2 = ?u"
    using three_groups [of ?u] t(1) by (simp del: take_map drop_map)
  have w: "UTF16LE_To_UTF8 ?u 128 [] = Some t" using UTF8_ascii [OF t(2), of "[]" 128] t(1) by simp
  have "(p - 1) * 13 \<le> 19 * 13" using assms(2) by (intro mult_le_mono1) simp
  then have room: "take (519 - (p - 1) * 13) t = t" using t(1) by simp
  show ?thesis using seq_byte(1) [OF assms(1,2), of "p = n"] seq_byte(2) [OF assms(1,2), of "p = n"] assms(1,2) room
    unfolding lfn_part_def g w lfn_entry_fields(3) [OF len] by (simp add: Let_def overwrite_def)
qed

lemma nth_overwrite:
  assumes "i + length bs \<le> length xs" and "j < length xs"
  shows "overwrite i bs xs ! j = (if i \<le> j \<and> j < i + length bs then bs ! (j - i) else xs ! j)"
  using assms by (auto simp: overwrite_def nth_append min_def)

definition name_part :: "u8 list \<Rightarrow> nat \<Rightarrow> u8 list" where
  "name_part nm p = take 13 (drop (13 * (p - 1)) nm)"

definition parts :: "u8 list \<Rightarrow> nat" where
  "parts nm = (length nm + 12) div 13"

lemma parts_bounds:
  assumes "ascii_name nm"
  shows "0 < parts nm" "parts nm \<le> 20" "13 * (parts nm - 1) < length nm" "length nm \<le> 13 * parts nm"
  using assms by (auto simp: parts_def ascii_name_def Suc_le_eq length_greater_0_conv [symmetric] simp del: length_greater_0_conv)

definition held :: "u8 list \<Rightarrow> nat \<Rightarrow> lfn \<Rightarrow> bool" where
  "held nm p l \<longleftrightarrow> length (lfn_buf l) = 520 \<and> lfn_chars_filled l = length nm \<and> have_lfn l \<and> lfn_buf l ! length nm = 0 \<and>
     (\<forall>j. 13 * p \<le> j \<and> j < length nm \<longrightarrow> lfn_buf l ! j = nm ! j)"

definition part_entry :: "u8 list \<Rightarrow> u8 \<Rightarrow> nat \<Rightarrow> u8 list" where
  "part_entry nm chk p = lfn_entry p (parts nm) chk (map ucast (name_part nm p) @ pad (13 - length (name_part nm p)))"

lemma held_part:
  assumes "ascii_name nm" and "0 < p" and "p \<le> parts nm" and "p = parts nm \<or> held nm p l"
  shows "held nm (p - 1) (lfn_part (part_entry nm chk p) l)"
proof -
  note B = parts_bounds [OF assms(1)]
  let ?t = "name_part nm p" and ?s = "13 * (p - 1)"
  let ?l = "if p = parts nm then l\<lparr> lfn_buf := replicate 520 0, lfn_chars_filled := 0 \<rparr> else l"
  have n255: "length nm \<le> 255" using assms(1) by (simp add: ascii_name_def)
  have s: "?s < length nm" using assms(2,3) B(3) by (meson diff_le_mono le_less_trans mult_le_mono2)
  have len: "length ?t = min 13 (length nm - ?s)" by (simp add: name_part_def min.commute)
  have t: "length ?t \<le> 13" "\<forall>c \<in> set ?t. c \<noteq> 0 \<and> c < 0x80"
    using assms(1) by (auto simp: len name_part_def ascii_name_def dest!: in_set_takeD in_set_dropD)
  have full: "?s + length ?t = (if p = parts nm then length nm else 13 * p)" "p \<noteq> parts nm \<Longrightarrow> 13 * p < length nm"
  proof -
    show *: "13 * p < length nm" if "p \<noteq> parts nm"
      proof -
        have "p \<le> parts nm - 1" using that assms(3) by simp
        then show ?thesis using B(3) by (meson le_less_trans mult_le_mono2)
      qed
    show "?s + length ?t = (if p = parts nm then length nm else 13 * p)"
      using * s B(4) assms(2) by (auto simp: len min_def algebra_simps)
  qed
  have filled: "max (?s + length ?t) (lfn_chars_filled ?l) = length nm"
    using assms(4) full by (auto simp: held_def)
  have lb: "length (lfn_buf ?l) = 520" using assms(4) by (auto simp: held_def)
  have p20: "p \<le> 20" using assms(3) B(2) by simp
  have e: "lfn_part (part_entry nm chk p) l =
      ?l\<lparr> lfn_buf := (overwrite ?s ?t (lfn_buf ?l))[length nm := 0], lfn_chars_filled := length nm, have_lfn := True \<rparr>"
    unfolding part_entry_def lfn_part_spec [OF assms(2) p20 t] Let_def
    using filled by (simp only: mult.commute [of "p - 1" 13])
  have ow: "length (overwrite ?s ?t (lfn_buf ?l)) = 520" using lb full n255 by (subst length_overwrite) (auto split: if_splits)
  have in_buf: "?s + length ?t \<le> length (lfn_buf ?l)" using lb full n255 by (auto split: if_splits)
  have val: "overwrite ?s ?t (lfn_buf ?l) ! j = nm ! j" if j: "?s \<le> j" "j < length nm" for j
  proof (cases "j < ?s + length ?t")
    case True
    then have "?t ! (j - ?s) = nm ! j" using j by (simp add: name_part_def)
    then show ?thesis using nth_overwrite [OF in_buf, of j] True j lb n255 by simp
  next
    case False
    then have p: "p \<noteq> parts nm" using full(1) j by auto
    then have "13 * p \<le> j" using False full(1) by simp
    then have "lfn_buf ?l ! j = nm ! j" using assms(4) p j by (simp add: held_def)
    then show ?thesis using nth_overwrite [OF in_buf, of j] False j lb n255 by simp
  qed
  show ?thesis using val n255 ow unfolding e by (auto simp: held_def nth_list_update)
qed

lemma held_name: "ascii_name nm \<Longrightarrow> held nm 0 l \<Longrightarrow> takeWhile (\<lambda>c. c \<noteq> 0) (lfn_buf l) = nm"
proof -
  assume a: "ascii_name nm" and h: "held nm 0 l"
  have n: "length nm < length (lfn_buf l)" using a h by (simp add: ascii_name_def held_def)
  have "take (length nm) (lfn_buf l) = nm" using h n by (intro nth_equalityI) (simp_all add: held_def)
  then have "lfn_buf l = nm @ 0 # drop (Suc (length nm)) (lfn_buf l)"
    using h id_take_nth_drop [OF n] by (simp add: held_def)
  moreover have "takeWhile (\<lambda>c. c \<noteq> 0) (nm @ 0 # ys) = nm" for ys
    using a by (subst takeWhile_append2) (auto simp: ascii_name_def)
  ultimately show ?thesis by metis
qed

section \<open>The entries written for a name\<close>

lemma name_units_ascii: "ascii_name nm \<Longrightarrow> name_units nm = map ucast nm"
  by (auto simp: name_units_def ascii_name_def)

lemma lfn_units_inside: "ci + k \<le> length u \<Longrightarrow> lfn_units u ci k ins = (take k (drop ci u), ins)"
proof (induction k arbitrary: ci)
  case (Suc k)
  then show ?case using Cons_nth_drop_Suc [of ci u, symmetric] by simp
qed simp

lemma part_units:
  assumes "ascii_name nm" and "0 < p" and "p \<le> parts nm" and "p = parts nm \<longrightarrow> \<not> ins"
  shows "fst (lfn_units (map ucast nm) ((p - 1) * 13) 13 ins) = map ucast (name_part nm p) @ pad (13 - length (name_part nm p))"
proof -
  note B = parts_bounds [OF assms(1)]
  have e: "(p - 1) * 13 = 13 * (p - 1)" by simp
  have t: "(take 13 (drop (13 * (p - 1)) (map ucast nm)) :: u16 list) = map ucast (name_part nm p)"
    by (simp add: name_part_def take_map drop_map)
  have len: "length (name_part nm p) = min 13 (length nm - 13 * (p - 1))" by (simp add: name_part_def min.commute)
  show ?thesis
  proof (cases "p = parts nm")
    case True
    then have "\<not> ins" "13 * (p - 1) \<le> length nm" using assms(4) B(3) by simp_all
    moreover have "13 - (length nm - 13 * (p - 1)) = 13 - length (name_part nm p)" by (simp add: len)
    ultimately show ?thesis unfolding e using lfn_units_spec [of "13 * (p - 1)" "map ucast nm :: u16 list" 13] t by simp
  next
    case False
    then have "p \<le> parts nm - 1" using assms(3) by simp
    then have "13 * p < length nm" using B(3) by (meson le_less_trans mult_le_mono2)
    then have l: "13 * (p - 1) + 13 \<le> length nm" using assms(2) by (simp add: diff_mult_distrib2)
    then have "pad (13 - length (name_part nm p)) = []" by (simp add: len pad_def)
    then show ?thesis unfolding e using lfn_units_inside [of "13 * (p - 1)" 13 "map ucast nm :: u16 list" ins] t l by simp
  qed
qed

definition part_entries :: "u8 list \<Rightarrow> u8 \<Rightarrow> nat \<Rightarrow> u8 list list" where
  "part_entries nm chk p = map (part_entry nm chk) (rev [1..<Suc p])"

lemma part_entries_simps [simp]: "part_entries nm chk 0 = []" "part_entries nm chk (Suc p) = part_entry nm chk (Suc p) # part_entries nm chk p"
  "length (part_entries nm chk p) = p"
  by (simp_all add: part_entries_def)

lemma length_name_part: "length (name_part nm p) \<le> 13"
  by (simp add: name_part_def)

lemma part_entry_fields:
  assumes "ascii_name nm" and "0 < p" and "p \<le> parts nm"
  shows "length (part_entry nm chk p) = 32" "part_entry nm chk p ! 11 = 0x0F" "part_entry nm chk p ! 0 \<noteq> 0"
proof -
  have len: "length (map ucast (name_part nm p) @ pad (13 - length (name_part nm p)) :: u16 list) = 13"
    using length_name_part [of nm p] by (simp add: pad_def)
  have "p \<le> 20" using assms(3) parts_bounds(2) [OF assms(1)] by simp
  then show "length (part_entry nm chk p) = 32" "part_entry nm chk p ! 11 = 0x0F" "part_entry nm chk p ! 0 \<noteq> 0"
    unfolding part_entry_def using lfn_entry_fields(1,2,3) [OF len] seq_byte(3) [OF assms(2), of "p = parts nm"] by simp_all
qed

lemma slots_from_simps [simp]: "slots_from lba k [] = []" "slots_from lba k (d # ds) = (d, lba, of_nat (32 * k)) # slots_from lba (Suc k) ds"
  "slots_from lba k (ds @ es) = slots_from lba k ds @ slots_from lba (k + length ds) es"
  by (simp_all add: slots_from_def enumerate_append_eq)

lemma part_entries_read:
  assumes "ascii_name nm" and "p \<le> parts nm" and "p = parts nm \<or> held nm p l"
  shows "listing (slots_from lba k (part_entries nm chk p)) l = []" "\<not> ended (slots_from lba k (part_entries nm chk p))"
    "held nm 0 (lfn_after (slots_from lba k (part_entries nm chk p)) l)"
proof -
  have "listing (slots_from lba k (part_entries nm chk p)) l = [] \<and> \<not> ended (slots_from lba k (part_entries nm chk p)) \<and>
    held nm 0 (lfn_after (slots_from lba k (part_entries nm chk p)) l)"
    using assms(2,3)
  proof (induction p arbitrary: l k)
    case 0
    then show ?case using parts_bounds(1) [OF assms(1)] by (simp add: ended_def lfn_after_def)
  next
    case (Suc p)
    note F = part_entry_fields [OF assms(1) zero_less_Suc Suc.prems(1), of chk]
    have "held nm p (lfn_part (part_entry nm chk (Suc p)) l)"
      using held_part [OF assms(1) zero_less_Suc Suc.prems(1), of l chk] Suc.prems(2) by simp
    with Suc.IH [of "lfn_part (part_entry nm chk (Suc p)) l" "Suc k"] Suc.prems(1) F show ?case
      by (auto simp: ended_def lfn_after_def next_lfn.simps)
  qed
  then show "listing (slots_from lba k (part_entries nm chk p)) l = []" "\<not> ended (slots_from lba k (part_entries nm chk p))"
    "held nm 0 (lfn_after (slots_from lba k (part_entries nm chk p)) l)" by auto
qed

lemma sfn_char_first:
  assumes "\<not> c < 0x20" and "c < 0x80"
  shows "sfn_char c \<noteq> 0" "sfn_char c \<noteq> 0xE5"
proof -
  have c: "0x20 \<le> unat c" "unat c < 0x80" using assms by (simp_all add: word_less_nat_alt not_less)
  have "unat (upper_ascii d) < 0x80 \<and> 0 < unat (upper_ascii d)" if "0x20 \<le> unat d" "unat d < 0x80" for d
  proof (cases "0x61 \<le> d \<and> d \<le> 0x7A")
    case True
    then have "unat (d - 0x61 + 0x41) = unat d - 0x61 + 0x41"
      using that by (simp add: unat_word_ariths unat_sub word_le_nat_alt)
    moreover have "unat d - 0x61 + 0x41 < 0x80" using that by linarith
    ultimately show ?thesis using True by (simp only: upper_ascii_def if_True simp_thms)
  next
    case False
    then show ?thesis using that by (auto simp: upper_ascii_def)
  qed
  from this [of c] this [of "0x5F"] c have "unat (sfn_char c) < 0x80 \<and> 0 < unat (sfn_char c)" by (simp add: sfn_char_def)
  then show "sfn_char c \<noteq> 0" "sfn_char c \<noteq> 0xE5" by auto
qed

lemma MakeSFN_fields:
  assumes "ascii_name nm"
  shows "length (MakeSFNFromName nm) = 11" "MakeSFNFromName nm ! 0 \<noteq> 0" "MakeSFNFromName nm ! 0 \<noteq> 0xE5"
proof -
  obtain base_part ext where se: "split_ext nm = (base_part, ext)" by (cases "split_ext nm")
  then have sub: "set base_part \<subseteq> set nm" by (auto simp: split_ext_def Let_def split: if_splits dest: in_set_takeD)
  define b where "b = take 15 (map sfn_char (filter (\<lambda>c. c \<noteq> 0x20 \<and> \<not> c < 0x20) base_part))"
  define stem where "stem = (if length b \<le> 8 then b @ replicate (8 - length b) 0x20 else take 6 b @ [0x7E, 0x31])"
  define e where "e = take 3 (map upper_ascii ext)"
  have m: "MakeSFNFromName nm = stem @ e @ replicate (3 - length e) 0x20"
    unfolding MakeSFNFromName_def se Let_def prod.case b_def stem_def e_def ..
  have l: "length stem = 8" by (auto simp: stem_def)
  then show "length (MakeSFNFromName nm) = 11" by (simp add: m e_def)
  have "stem ! 0 \<noteq> 0 \<and> stem ! 0 \<noteq> 0xE5"
  proof (cases b)
    case (Cons x xs)
    have "x \<in> set b" by (simp add: Cons)
    then have "x \<in> sfn_char ` {c \<in> set base_part. c \<noteq> 0x20 \<and> \<not> c < 0x20}" using set_take_subset [of 15] by (fastforce simp: b_def)
    then obtain c where "c \<in> set nm" "\<not> c < 0x20" "x = sfn_char c" using sub by blast
    then have "x \<noteq> 0 \<and> x \<noteq> 0xE5" using sfn_char_first [of c] assms by (auto simp: ascii_name_def)
    moreover have "stem ! 0 = x" by (simp add: stem_def Cons nth_append take_Cons')
    ultimately show ?thesis by simp
  qed (simp add: stem_def)
  then show "MakeSFNFromName nm ! 0 \<noteq> 0" "MakeSFNFromName nm ! 0 \<noteq> 0xE5" using l by (simp_all add: m nth_append)
qed

lemma sfn_entry_fields:
  assumes "ascii_name nm"
  shows "length (sfn_entry (MakeSFNFromName nm) sc sz) = 32" "sfn_entry (MakeSFNFromName nm) sc sz ! 11 \<noteq> 0x0F"
    "sfn_entry (MakeSFNFromName nm) sc sz ! 0 \<noteq> 0" "sfn_entry (MakeSFNFromName nm) sc sz ! 0 \<noteq> 0xE5"
  using MakeSFN_fields [OF assms] by (simp_all add: sfn_entry_def nth_append bytes32_def)

definition name_slots :: "u8 list \<Rightarrow> u32 \<Rightarrow> u32 \<Rightarrow> u8 list list" where
  "name_slots nm sc sz = part_entries nm (ComputeSFNChecksum (MakeSFNFromName nm)) (parts nm) @ [sfn_entry (MakeSFNFromName nm) sc sz]"

text \<open>The slots of a new entry list as one entry, under the name it was given.\<close>

lemma listing_name_slots:
  assumes "ascii_name nm"
  shows "listing (slots_from lba k (name_slots nm sc sz)) l = [(nm, sfn_entry (MakeSFNFromName nm) sc sz, lba, of_nat (32 * (k + parts nm)))]"
    "\<not> ended (slots_from lba k (name_slots nm sc sz))"
proof -
  let ?chk = "ComputeSFNChecksum (MakeSFNFromName nm)"
  note R = part_entries_read [OF assms order_refl, of l lba k ?chk] and S = sfn_entry_fields [OF assms, of sc sz]
  have h: "have_lfn (lfn_after (slots_from lba k (part_entries nm ?chk (parts nm))) l)" using R(3) by (simp add: held_def)
  show "listing (slots_from lba k (name_slots nm sc sz)) l = [(nm, sfn_entry (MakeSFNFromName nm) sc sz, lba, of_nat (32 * (k + parts nm)))]"
    using R(1,2) S h held_name [OF assms R(3)] by (simp add: name_slots_def listing_append)
  show "\<not> ended (slots_from lba k (name_slots nm sc sz))" using R(2) S(3) by (simp add: name_slots_def) (simp add: ended_def)
qed

lemma length_name_slots:
  assumes "ascii_name nm"
  shows "length (name_slots nm sc sz) = parts nm + 1" "d \<in> set (name_slots nm sc sz) \<Longrightarrow> length d = 32"
  using sfn_entry_fields(1) [OF assms, of sc sz] part_entry_fields(1) [OF assms]
  by (auto simp: name_slots_def part_entries_def)

end
