(* ===== verification/Fat_Create.thy ===== *)
theory Fat_Create
  imports Fat_Name
begin

text \<open>
  Creating directory entries on FAT32: the search for free slots, the growth of a directory, and the
  entries on the disk. An entry that \<^const>\<open>CreateDirectoryEntry\<close> reports as created is found again
  under its name exactly when no slot before it is an end-of-directory mark.
\<close>

section \<open>Free slots\<close>

definition free_at :: "u8 list \<Rightarrow> nat \<Rightarrow> bool" where
  "free_at b j \<longleftrightarrow> b ! (32 * j) = 0 \<or> b ! (32 * j) = 0xE5"

definition free_run :: "u8 list \<Rightarrow> nat \<Rightarrow> nat \<Rightarrow> bool" where
  "free_run b i n \<longleftrightarrow> (\<forall>j. i \<le> j \<and> j < i + n \<longrightarrow> free_at b j)"

lemma free_run_0 [simp]: "free_run b i 0"
  by (auto simp: free_run_def)

definition run_result :: "u8 list \<Rightarrow> nat \<Rightarrow> nat \<Rightarrow> nat \<Rightarrow> nat option \<Rightarrow> bool" where
  "run_result b lo hi n r \<longleftrightarrow> (case r of
     Some off \<Rightarrow> \<exists>i. off = 32 * i \<and> i + n \<le> hi \<and> free_run b i n
   | None \<Rightarrow> \<forall>i. lo \<le> i \<and> i + n \<le> hi \<longrightarrow> \<not> free_run b i n)"

lemma slot_run_spec:
  assumes "32 * (q + k) \<le> length b" and "consec \<le> q" and "consec < n" and "0 < consec \<longrightarrow> start = 32 * (q - consec)"
    and "free_run b (q - consec) consec"
  shows "\<exists>r. slot_run n b (32 * q) k consec start = Some r \<and> run_result b (q - consec) (q + k) n r"
  using assms
proof (induction k arbitrary: q consec start)
  case 0
  then show ?case by (auto simp: run_result_def)
next
  case (Suc k)
  have len: "32 * q < length b" "32 * (q + 1 + k) \<le> length b" using Suc.prems(1) by simp_all
  have step: "32 * q + 32 = 32 * (q + 1)" by simp
  show ?case
  proof (cases "free_at b q")
    case True
    let ?s = "if consec = 0 then 32 * q else start"
    have s: "?s = 32 * (q - consec)" using Suc.prems(4) by simp
    have run: "free_run b (q - consec) (consec + 1)" using Suc.prems(2,5) True
      by (auto simp: free_run_def less_Suc_eq)
    show ?thesis
    proof (cases "n \<le> consec + 1")
      case full: True
      then have n: "n = consec + 1" using Suc.prems(3) by simp
      have "slot_run n b (32 * q) (Suc k) consec start = Some (Some ?s)"
        using True full len by (simp add: get8_def free_at_def Let_def)
      moreover have "q - consec + n \<le> q + Suc k" using Suc.prems(2) n by simp
      ultimately show ?thesis using run s n by (auto simp: run_result_def intro!: exI [of _ "q - consec"])
    next
      case False
      have e: "slot_run n b (32 * q) (Suc k) consec start = slot_run n b (32 * (q + 1)) k (consec + 1) ?s"
        unfolding step [symmetric] using True False len(1) by (simp add: get8_def free_at_def Let_def)
      have "q + 1 - (consec + 1) = q - consec" "q + 1 + k = q + Suc k" by simp_all
      then show ?thesis unfolding e using Suc.IH [OF len(2), of "consec + 1" ?s] Suc.prems(2) False run s by (simp only: not_le) simp
    qed
  next
    case False
    have e: "slot_run n b (32 * q) (Suc k) consec start = slot_run n b (32 * (q + 1)) k 0 start"
      unfolding step [symmetric] using False len by (simp add: get8_def free_at_def)
    obtain r where r: "slot_run n b (32 * (q + 1)) k 0 start = Some r" "run_result b (q + 1) (q + 1 + k) n r"
      using Suc.IH [OF len(2), of 0 start] Suc.prems(3) by auto
    have "\<not> free_run b i n" if "q - consec \<le> i" "i < q + 1" for i
    proof -
      have "i \<le> q" "q < i + n" using that Suc.prems(3) by linarith+
      then show ?thesis using False by (auto simp: free_run_def)
    qed
    then have "run_result b (q - consec) (q + Suc k) n r"
      using r(2) by (cases r) (simp add: run_result_def, metis Suc_eq_plus1 add_Suc add_Suc_right not_less, simp add: run_result_def)
    then show ?thesis using r(1) e by simp
  qed
qed

definition run_in_sector :: "fat \<Rightarrow> nat \<Rightarrow> nat \<Rightarrow> nat \<Rightarrow> bool" where
  "run_in_sector fs a i n \<longleftrightarrow> 32 * (i + n) \<le> sec_bytes fs \<and> free_run (sector (part fs) a) i n"

lemma slot_run_sector:
  assumes "geometry fs" and "length b = sec_bytes fs" and "0 < n"
  obtains (none) "slot_run n b 0 (sec_bytes fs div 32) 0 0 = Some None" "\<forall>i. 32 * (i + n) \<le> sec_bytes fs \<longrightarrow> \<not> free_run b i n"
  | (some) i where "slot_run n b 0 (sec_bytes fs div 32) 0 0 = Some (Some (32 * i))" "32 * (i + n) \<le> sec_bytes fs" "free_run b i n"
proof -
  obtain q where q: "sec_bytes fs = 32 * q" using geometryD(5) [OF assms(1)] by (auto simp: dvd_def)
  obtain r where r: "slot_run n b (32 * 0) q 0 0 = Some r" "run_result b (0 - 0) (0 + q) n r"
    using slot_run_spec [of 0 q b 0 n 0] assms(2,3) q by (auto simp: free_run_def)
  show thesis
  proof (cases r)
    case None
    then show thesis using r q by (intro none) (simp_all add: run_result_def)
  next
    case (Some off)
    then obtain i where "off = 32 * i" "i + n \<le> q" "free_run b i n" using r(2) by (auto simp: run_result_def)
    then show thesis using r(1) q Some by (intro some [of i]) simp_all
  qed
qed

text \<open>The sectors of a cluster and then the clusters of a chain are searched in order.\<close>

definition found_run :: "fat \<Rightarrow> u32 list \<Rightarrow> nat \<Rightarrow> (u64 \<times> u32) option \<Rightarrow> bool" where
  "found_run fs cs n r \<longleftrightarrow> (case r of
     Some (lba, off) \<Rightarrow> \<exists>d t i. d \<in> set cs \<and> t < clu_secs fs \<and> lba = ClusterToLBA d fs + of_nat t \<and> off = of_nat (32 * i) \<and>
       run_in_sector fs (cluster_sector fs d + t) i n
   | None \<Rightarrow> \<forall>d t i. d \<in> set cs \<and> t < clu_secs fs \<longrightarrow> \<not> run_in_sector fs (cluster_sector fs d + t) i n)"

lemma found_run_None: "found_run fs cs n None \<Longrightarrow> d \<in> set cs \<Longrightarrow> t < clu_secs fs \<Longrightarrow> \<not> run_in_sector fs (cluster_sector fs d + t) i n"
  by (simp add: found_run_def)

lemma found_run_Cons:
  assumes "found_run fs [c] n r"
  shows "r = None \<Longrightarrow> found_run fs ds n r' \<Longrightarrow> found_run fs (c # ds) n r'" "r \<noteq> None \<Longrightarrow> found_run fs (c # ds) n r"
  using assms by (fastforce simp: found_run_def split: option.splits)+

lemma sector_lba:
  assumes "geometry fs" and "valid_cluster fs c" and "s < clu_secs fs"
  shows "unat (ClusterToLBA c fs + of_nat s) = cluster_sector fs c + s" "cluster_sector fs c + s < part_size (part fs)"
proof -
  note P = cluster_place [OF assms(1,2)]
  show lt: "cluster_sector fs c + s < part_size (part fs)" using P(2) assms(3) by simp
  then have "cluster_sector fs c + s < 2 ^ 64" using part_size_less [of "part fs"] by simp
  then show "unat (ClusterToLBA c fs + of_nat s) = cluster_sector fs c + s"
    using P(1) by (simp add: unat_word_ariths unat_of_nat take_bit_nat_eq_self)
qed

lemma slot_sectors_spec:
  assumes "wf_fat fs" and "valid_cluster fs c" and "s + k = clu_secs fs" and "0 < n"
    and "\<forall>t i. t < s \<longrightarrow> \<not> run_in_sector fs (cluster_sector fs c + t) i n"
  shows "\<exists>r. slot_sectors n (ClusterToLBA c fs) s k fs = Some (True, r) \<and> found_run fs [c] n r"
  using assms(3,5)
proof (induction k arbitrary: s)
  case 0
  then show ?case by (auto simp: found_run_def)
next
  case (Suc k)
  have g: "geometry fs" using assms(1) by (simp add: wf_fat_def)
  have s: "s < clu_secs fs" using Suc.prems by simp
  note L = sector_lba [OF g assms(2) s]
  let ?b = "sector (part fs) (cluster_sector fs c + s)"
  have rd: "part_read (ClusterToLBA c fs + of_nat s) 1 fs = Some (Some ?b)" using read_sector_ok [OF assms(1), of "ClusterToLBA c fs + of_nat s"] L by simp
  from g sector_chunks [OF g assms(2) s] assms(4) show ?case
  proof (cases rule: slot_run_sector)
    case none
    have "\<not> run_in_sector fs (cluster_sector fs c + s) i n" for i using none(2) by (simp add: run_in_sector_def)
    then have "\<forall>t i. t < s + 1 \<longrightarrow> \<not> run_in_sector fs (cluster_sector fs c + t) i n" using Suc.prems(2) by (auto simp: less_Suc_eq)
    then show ?thesis using Suc.IH [of "s + 1"] Suc.prems(1) none(1) rd by simp
  next
    case (some i)
    then show ?thesis using rd s by (auto simp: run_in_sector_def found_run_def)
  qed
qed

lemma slot_clusters_spec:
  assumes "wf_fat fs" and "0 < n" and "cluster_chain fs c cs" and "length cs \<le> k"
  shows "\<exists>r. slot_clusters n k c fs = Some r \<and> found_run fs cs n r"
  using assms(3,4)
proof (induction cs arbitrary: c k)
  case Nil
  then show ?case by (subst slot_clusters.simps) (simp add: found_run_def)
next
  case (Cons d ds)
  have g: "geometry fs" using assms(1) by (simp add: wf_fat_def)
  have c: "d = c" "valid_cluster fs c" "cluster_chain fs (fat_entry fs c) ds" using Cons.prems by auto
  obtain k' where k: "k = Suc k'" "length ds \<le> k'" using Cons.prems(2) by (cases k) auto
  note V = valid_clusterD [OF g c(2)]
  have inside: "\<not> (EOC \<le> c \<or> c < 2)" using V(1,2) by (simp add: not_le not_less)
  obtain r where r: "slot_sectors n (ClusterToLBA c fs) 0 (clu_secs fs) fs = Some (True, r)" "found_run fs [c] n r"
    using slot_sectors_spec [OF assms(1) c(2) _ assms(2), of 0 "clu_secs fs"] by auto
  show ?case
  proof (cases "r = None")
    case True
    obtain r' where r': "slot_clusters n k' (fat_entry fs c) fs = Some r'" "found_run fs ds n r'" using Cons.IH [OF c(3) k(2)] by auto
    have "slot_clusters n k c fs = Some r'"
      using r(1) r'(1) True inside k(1) by (subst slot_clusters.simps) (simp add: GetNextCluster_spec [OF assms(1) V(3)])
    then show ?thesis using found_run_Cons(1) [OF r(2) True r'(2)] c(1) by simp
  next
    case False
    have "slot_clusters n k c fs = Some r" using r(1) False inside k(1) by (subst slot_clusters.simps) auto
    then show ?thesis using found_run_Cons(2) [OF r(2) False] c(1) by auto
  qed
qed

lemma guard_length:
  assumes "geometry fs" and "cluster_chain fs c cs"
  shows "length cs \<le> unat (m_TotalClusters fs + 2)"
proof -
  have "unat (m_TotalClusters fs + 2) = nclusters fs + 2" using geometryD(12) [OF assms(1)] by (simp add: unat_word_ariths)
  then show ?thesis using chain_length [OF assms] by simp
qed

lemma FindFreeDirSlots_spec:
  assumes "wf_fat fs" and "cluster_chain fs c cs" and "0 < n"
  shows "\<exists>r. FindFreeDirSlots c n fs = Some r \<and> found_run fs cs n r"
proof -
  have g: "geometry fs" using assms(1) by (simp add: wf_fat_def)
  show ?thesis using slot_clusters_spec [OF assms(1,3,2) guard_length [OF g assms(2)]] assms(3) by (simp add: FindFreeDirSlots_def)
qed

section \<open>Growing a directory\<close>

lemma dir_last_spec:
  assumes "wf_fat fs" and "cluster_chain fs c cs" and "cs \<noteq> []" and "length cs \<le> Suc k"
  shows "dir_last k c fs = Some (last cs)"
  using assms(2-4)
proof (induction cs arbitrary: c k)
  case (Cons d ds)
  have g: "geometry fs" using assms(1) by (simp add: wf_fat_def)
  have c: "d = c" "valid_cluster fs c" "cluster_chain fs (fat_entry fs c) ds" using Cons.prems by auto
  note N = GetNextCluster_spec [OF assms(1) valid_clusterD(3) [OF g c(2)]]
  show ?case
  proof (cases ds)
    case Nil
    then show ?thesis using c by (subst dir_last.simps) (simp add: N)
  next
    case (Cons e es)
    then have e: "valid_cluster fs (fat_entry fs c)" "e = fat_entry fs c" using c(3) by auto
    note V = valid_clusterD [OF g e(1)]
    have inside: "\<not> (EOC \<le> fat_entry fs c \<or> fat_entry fs c = 0)" using V(1,2) by (auto simp: not_le)
    obtain k' where k: "k = Suc k'" using Cons.prems(3) Cons by (cases k) auto
    then show ?thesis using Cons.IH [OF c(3), of k'] local.Cons Cons.prems(3) inside by (subst dir_last.simps) (simp add: N)
  qed
qed simp

text \<open>The new cluster is filled with zeros, and nothing else of the data area changes.\<close>

lemma expand_dir_spec:
  assumes "wf_fat fs" and "cluster_chain fs c cs" and "cs \<noteq> []"
  obtains (full) "free_clusters fs = {}" "expand_dir c fs = Some (False, fs)"
  | (grown) nc fs' where "expand_dir c fs = Some (True, fs')" "nc \<in> free_clusters fs" "cluster_chain fs' c (cs @ [nc])"
      "changes ({0 ..< data_base fs} \<union> cluster_region fs nc) fs fs'" "cluster_data fs' nc = replicate (clu_bytes fs) 0"
      "\<forall>d. unat d < nclusters fs + 2 \<longrightarrow> d \<noteq> nc \<and> d \<noteq> last cs \<longrightarrow> fat_entry fs' d = fat_entry fs d"
      "copies_agree fs \<longrightarrow> copies_agree fs'"
proof -
  have g: "geometry fs" using assms(1) by (simp add: wf_fat_def)
  let ?l = "last cs"
  have l: "?l \<in> set cs" using assms(3) by simp
  have lv: "valid_cluster fs ?l" "fat_entry fs ?l \<noteq> 0" using chain_valid [OF assms(2) l] chain_entry_nonzero [OF g assms(2) l] by simp_all
  have dl: "dir_last (unat (m_TotalClusters fs + 2)) c fs = Some ?l"
    using dir_last_spec [OF assms] guard_length [OF g assms(2)] by simp
  have "?l = 0 \<or> valid_cluster fs ?l \<and> fat_entry fs ?l \<noteq> 0" using lv by simp
  with assms(1) show thesis
  proof (cases rule: AllocateCluster_spec)
    case full
    then show thesis using dl by (intro that(1)) (simp_all add: expand_dir_def)
  next
    case (found nc f1)
    note D = free_clusterD [OF found(2)] and same = changes_frame [OF found(3)] changes_derived [OF found(3)]
    have wf1: "wf_fat f1" using changes_wf [OF found(3) assms(1)] .
    have g1: "geometry f1" using wf1 by (simp add: wf_fat_def)
    have v1: "valid_cluster f1 nc" using D(1) same by simp
    have ln: "?l \<noteq> nc" "?l \<noteq> 0" using lv D(2) valid_clusterD(1) [OF g lv(1)] by auto
    have chain1: "cluster_chain f1 c (cs @ [nc])"
    proof (rule cluster_chain_snoc [OF g assms(2,3)])
      show "valid_cluster f1 = valid_cluster fs" by (rule same)
      show "fat_entry f1 d = (if d = last cs then nc else fat_entry fs d)" if "d \<in> set cs" for d
      proof -
        have "d \<noteq> nc" using chain_entry_nonzero [OF g assms(2) that] D(2) by auto
        then show ?thesis using found(4) chain_valid [OF assms(2) that] ln by (simp add: valid_cluster_def)
      qed
      show "valid_cluster fs nc" by (rule D(1))
      show "EOC \<le> fat_entry f1 nc" using found(4) D(1) by (simp add: valid_cluster_def)
    qed
    let ?z = "replicate (clu_bytes fs) (0 :: u8)"
    obtain f2 where f2: "WriteCluster nc ?z f1 = Some (True, f2)" "changes (cluster_region f1 nc) f1 f2"
      "cluster_data f2 nc = take (clu_bytes f1) ?z"
      by (rule WriteCluster_spec [OF wf1 v1, of ?z]) (simp_all add: same)
    have n: "unat (ucast (spc f1) * ucast (bps f1) :: u32) = clu_bytes fs" using clu_bytes_word [of f1] same by (simp add: mult.commute)
    have "get_bytes ?z 0 (unat (ucast (bps f1) * ucast (spc f1) :: u32)) = Some ?z"
      using clu_bytes_word [of f1] same by (simp add: get_bytes_def)
    then have w: "part_write (ClusterToLBA nc f1) (ucast (spc f1)) ?z f1 = Some (True, f2)"
      using f2(1) wf1 by (simp add: WriteCluster_def wf_fat_def)
    have e: "expand_dir c fs = Some (True, f2)"
      unfolding expand_dir_def dl using found(1) D(3) w n wf1 by (simp add: wf_fat_def Let_def)
    have R: "cluster_region f1 nc \<inter> fat_region f1 = {}" using cluster_region_fat(1) [OF g1 v1] .
    have E: "fat_entry f2 d = fat_entry f1 d" if "unat d < nclusters fs + 2" for d
      using changes_fat_entry [OF f2(2) g1, of d] that same R by simp
    have "cluster_chain f2 c (cs @ [nc])"
      using cluster_chain_cong [of f2 f1 "cs @ [nc]" c] chain1 changes_derived(4) [OF f2(2)] E chain_valid [OF chain1] same
      by (simp add: valid_cluster_def)
    moreover have "changes ({0 ..< data_base fs} \<union> cluster_region fs nc) fs f2" using changes_trans [OF found(3) f2(2)] same by simp
    moreover have "cluster_data f2 nc = ?z" using f2(3) same by simp
    moreover have "\<forall>d. unat d < nclusters fs + 2 \<longrightarrow> d \<noteq> nc \<and> d \<noteq> last cs \<longrightarrow> fat_entry f2 d = fat_entry fs d" using E found(4) by simp
    moreover have "copies_agree fs \<longrightarrow> copies_agree f2" using found(5) changes_copies [OF f2(2) g1 R] by blast
    ultimately show thesis using that(2) e found(2) by blast
  qed
qed

definition grown :: "fat \<Rightarrow> u32 \<Rightarrow> u32 list \<Rightarrow> fat \<Rightarrow> u32 list \<Rightarrow> bool" where
  "grown fs c cs fs' ext \<longleftrightarrow> cluster_chain fs' c (cs @ ext) \<and> set ext \<subseteq> free_clusters fs \<and>
     changes (file_region fs ext) fs fs' \<and> (\<forall>d \<in> set ext. cluster_data fs' d = replicate (clu_bytes fs) 0) \<and>
     (\<forall>d. unat d < nclusters fs + 2 \<longrightarrow> d \<notin> set (cs @ ext) \<longrightarrow> fat_entry fs' d = fat_entry fs d) \<and>
     (copies_agree fs \<longrightarrow> copies_agree fs')"

lemma grown_refl: "geometry fs \<Longrightarrow> cluster_chain fs c cs \<Longrightarrow> grown fs c cs fs []"
  by (simp add: grown_def changes_refl)

lemma grown_step:
  assumes "wf_fat fs" and "nc \<in> free_clusters fs" and "cs \<noteq> []" and "cluster_chain f1 c (cs @ [nc])"
    and ch: "changes ({0 ..< data_base fs} \<union> cluster_region fs nc) fs f1" and z: "cluster_data f1 nc = replicate (clu_bytes fs) 0"
    and en: "\<forall>d. unat d < nclusters fs + 2 \<longrightarrow> d \<noteq> nc \<and> d \<noteq> last cs \<longrightarrow> fat_entry f1 d = fat_entry fs d"
    and co: "copies_agree fs \<longrightarrow> copies_agree f1" and gr: "grown f1 c (cs @ [nc]) fs' ext"
  shows "grown fs c cs fs' (nc # ext)"
proof -
  have g: "geometry fs" using assms(1) by (simp add: wf_fat_def)
  have g1: "geometry f1" using changes_geometry [OF ch g] .
  note same = changes_frame [OF ch] changes_derived [OF ch] and D = free_clusterD [OF assms(2)]
  have G: "cluster_chain fs' c ((cs @ [nc]) @ ext)" "set ext \<subseteq> free_clusters f1" "changes (file_region f1 ext) f1 fs'"
    "\<forall>d \<in> set ext. cluster_data fs' d = replicate (clu_bytes f1) 0"
    "\<forall>d. unat d < nclusters f1 + 2 \<longrightarrow> d \<notin> set ((cs @ [nc]) @ ext) \<longrightarrow> fat_entry fs' d = fat_entry f1 d" "copies_agree f1 \<longrightarrow> copies_agree fs'"
    using gr unfolding grown_def by blast+
  have nz: "fat_entry f1 d \<noteq> 0" if "d \<in> set (cs @ [nc])" for d using chain_entry_nonzero [OF g1 assms(4) that] .
  have ext: "set ext \<subseteq> free_clusters fs"
  proof
    fix e assume "e \<in> set ext"
    then have e: "e \<in> free_clusters f1" using G(2) by blast
    then have "e \<noteq> nc" "e \<noteq> last cs" using nz [of e] free_clusterD(2) [OF e] assms(3) by auto
    then show "e \<in> free_clusters fs" using e en free_clusterD [OF e] same by (auto simp: free_clusters_def valid_cluster_def)
  qed
  have dist: "nc \<notin> set ext" using nz [of nc] G(2) free_clusterD(2) by auto
  have vx: "valid_cluster f1 d" if "d \<in> set ext" for d using G(2) that free_clusterD(1) by blast
  have "cluster_data fs' nc = cluster_data f1 nc"
  proof (rule changes_cluster_data [OF G(3) g1])
    show v: "valid_cluster f1 nc" using D(1) same by simp
    show "file_region f1 ext \<inter> cluster_region f1 nc = {}" using file_region_other [OF g1 v dist] vx by blast
  qed
  then have "\<forall>d \<in> set (nc # ext). cluster_data fs' d = replicate (clu_bytes fs) 0" using z G(4) same by simp
  moreover have "changes (file_region fs (nc # ext)) fs fs'"
    by (rule changes_mono [OF changes_trans [OF ch G(3)]]) (auto simp: file_region_def same)
  moreover have "\<forall>d. unat d < nclusters fs + 2 \<longrightarrow> d \<notin> set (cs @ nc # ext) \<longrightarrow> fat_entry fs' d = fat_entry fs d"
    using G(5) en same assms(3) by (metis Un_iff append.assoc append_Cons append_Nil last_in_set list.set_intros(1) set_append)
  ultimately show ?thesis unfolding grown_def using G(1,6) ext assms(2) co by simp
qed

lemma find_slots_spec:
  assumes "wf_fat fs" and "cluster_chain fs c cs" and "cs \<noteq> []" and "0 < n"
  shows "\<exists>r fs' ext. find_slots k c n fs = Some (r, fs') \<and> grown fs c cs fs' ext \<and> found_run fs' (cs @ ext) n r \<and>
    (r = None \<longrightarrow> free_clusters fs' = {} \<or> length ext = k) \<and> (ext = [] \<longrightarrow> fs' = fs)"
  using assms(1-3)
proof (induction k arbitrary: fs cs)
  case 0
  have g: "geometry fs" using 0(1) by (simp add: wf_fat_def)
  obtain r where "FindFreeDirSlots c n fs = Some r" "found_run fs cs n r" using FindFreeDirSlots_spec [OF 0(1,2) assms(4)] by blast
  then show ?case using grown_refl [OF g 0(2)]
    by (subst find_slots.simps) (auto split: option.splits intro!: exI [of _ "[]"])
next
  case (Suc k)
  have g: "geometry fs" using Suc.prems(1) by (simp add: wf_fat_def)
  obtain r where r: "FindFreeDirSlots c n fs = Some r" "found_run fs cs n r" using FindFreeDirSlots_spec [OF Suc.prems(1,2) assms(4)] by blast
  show ?case
  proof (cases r)
    case (Some p)
    then show ?thesis using grown_refl [OF g Suc.prems(2)] r by (subst find_slots.simps) (auto intro!: exI [of _ "[]"])
  next
    case None
    from Suc.prems show ?thesis
    proof (cases rule: expand_dir_spec)
      case full
      then show ?thesis using grown_refl [OF g Suc.prems(2)] r None by (subst find_slots.simps) (auto intro!: exI [of _ "[]"])
    next
      case (grown nc f1)
      have "wf_fat f1" using changes_wf [OF grown(4) Suc.prems(1)] .
      then obtain r' fs' ext where R: "find_slots k c n f1 = Some (r', fs')" "Fat_Create.grown f1 c (cs @ [nc]) fs' ext"
        "found_run fs' ((cs @ [nc]) @ ext) n r'" "r' = None \<longrightarrow> free_clusters fs' = {} \<or> length ext = k"
        using Suc.IH [of f1 "cs @ [nc]"] grown(3) by auto
      have "find_slots (Suc k) c n fs = Some (r', fs')" using r(1) None grown(1) R(1) by (subst find_slots.simps) simp
      moreover have "Fat_Create.grown fs c cs fs' (nc # ext)"
        using grown_step [OF Suc.prems(1) grown(2) Suc.prems(3) grown(3-7) R(2)] .
      ultimately show ?thesis using R(3,4) by (intro exI [of _ r'] exI [of _ fs'] exI [of _ "nc # ext"]) simp
    qed
  qed
qed

lemma grown_other:
  assumes "wf_fat fs" and "cluster_chain fs c cs" and "grown fs c cs f1 ext" and "valid_cluster fs d" and "d \<notin> set (cs @ ext)"
  shows "fat_entry f1 d = fat_entry fs d \<and> cluster_data f1 d = cluster_data fs d"
proof -
  have g: "geometry fs" using assms(1) by (simp add: wf_fat_def)
  have G: "set ext \<subseteq> free_clusters fs" "changes (file_region fs ext) fs f1"
    "\<forall>d. unat d < nclusters fs + 2 \<longrightarrow> d \<notin> set (cs @ ext) \<longrightarrow> fat_entry f1 d = fat_entry fs d"
    using assms(3) unfolding grown_def by blast+
  have "\<And>e. e \<in> set ext \<Longrightarrow> valid_cluster fs e" using G(1) free_clusterD(1) by blast
  then have "file_region fs ext \<inter> cluster_region fs d = {}" using file_region_other [OF g assms(4), of ext] assms(5) by simp
  then show ?thesis using changes_cluster_data [OF G(2) g assms(4)] G(3) assms(4,5) by (simp add: valid_cluster_def)
qed

section \<open>Writing the slots\<close>

lemma overwrite_append: "i + length xs + length ys \<le> length b \<Longrightarrow> overwrite (i + length xs) ys (overwrite i xs b) = overwrite i (xs @ ys) b"
  by (cases xs) (auto simp: overwrite_def min_def add.commute add.left_commute)

lemma put_slot_spec:
  assumes "wf_fat fs" and "unat lba < part_size (part fs)" and "32 * j + 32 \<le> sec_bytes fs" and "length e = 32"
  shows "\<exists>fs'. put_slot lba (of_nat (32 * j)) e fs = Some (True, fs') \<and> changes {unat lba} fs fs' \<and>
    sector (part fs') (unat lba) = overwrite (32 * j) e (sector (part fs) (unat lba))"
proof -
  have g: "geometry fs" using assms(1) by (simp add: wf_fat_def)
  let ?p = "of_nat (32 * j) :: u32" and ?w = "ucast (bps fs) :: u32" and ?b = "sector (part fs) (unat lba)"
  have sb: "sec_bytes fs < 2 ^ 16" using unsigned_less [of "bps fs", where ?'a = nat] by simp
  have w: "unat ?w = sec_bytes fs" by (simp add: unat_ucast_wide)
  have "32 * j < 2 ^ 32" using assms(3) sb by simp
  then have p: "unat ?p = 32 * j" by (simp add: unat_of_nat take_bit_nat_eq_self del: of_nat_mult)
  have lt: "unat ?p < unat ?w" using p w assms(3) by simp
  then have d: "?p div ?w = 0" "unat (?p mod ?w) = 32 * j"
    using p by (simp_all add: word_unat_eq_iff unat_div_distrib unat_mod_distrib)
  have nz: "bps fs \<noteq> 0" using geometryD(4) [OF g] by auto
  have len: "length ?b = sec_bytes fs" using sector_length [OF g assms(2)] .
  have pb: "put_bytes (32 * j) e ?b = Some (overwrite (32 * j) e ?b)"
    using assms(3,4) len by (simp add: put_bytes_def overwrite_def)
  have "length (overwrite (32 * j) e ?b) = sec_bytes fs" using assms(3,4) len by (simp add: length_overwrite)
  from write_sector_ok [OF assms(1,2) this] obtain fs' where
    "part_write lba 1 (overwrite (32 * j) e ?b) fs = Some (True, fs')" "changes {unat lba} fs fs'"
    "sector (part fs') (unat lba) = overwrite (32 * j) e ?b" by blast
  then show ?thesis using nz d pb read_sector_ok [OF assms(1,2)] by (simp add: put_slot_def Let_def)
qed

lemma length_part_entries:
  assumes "ascii_name nm" and "p \<le> parts nm"
  shows "length (concat (part_entries nm chk p)) = 32 * p"
  using assms(2) part_entry_fields(1) [OF assms(1)] by (induction p) simp_all

lemma write_lfns_spec:
  assumes "wf_fat fs" and "unat lba < part_size (part fs)" and "32 * (i + parts nm) \<le> sec_bytes fs" and "ascii_name nm"
    and "p \<le> parts nm" and "p = parts nm \<longrightarrow> \<not> ins"
  shows "\<exists>fs'. write_lfns (map ucast nm) (parts nm) chk lba (of_nat (32 * i)) p ins fs = Some (True, fs') \<and> changes {unat lba} fs fs' \<and>
    sector (part fs') (unat lba) = overwrite (32 * (i + (parts nm - p))) (concat (part_entries nm chk p)) (sector (part fs) (unat lba))"
  using assms
proof (induction p arbitrary: ins fs)
  case 0
  then show ?case by (auto simp: wf_fat_def intro: changes_refl)
next
  case (Suc p)
  have g: "geometry fs" using Suc.prems(1) by (simp add: wf_fat_def)
  obtain ws ins' where u: "lfn_units (map ucast nm) (p * 13) 13 ins = (ws, ins')" by fastforce
  have ws: "lfn_entry (Suc p) (parts nm) chk ws = part_entry nm chk (Suc p)"
    using part_units [OF Suc.prems(4) zero_less_Suc Suc.prems(5,6)] u by (simp add: part_entry_def)
  let ?j = "i + (parts nm - Suc p)" and ?b = "sector (part fs) (unat lba)"
  have pos: "of_nat (32 * i) + of_nat (parts nm - Suc p) * 32 = (of_nat (32 * ?j) :: u32)"
    by (simp only: of_nat_add of_nat_mult add_mult_distrib2) simp
  have j: "?j + 1 = i + (parts nm - p)" "?j + 1 + p = i + parts nm" using Suc.prems(5) by simp_all
  have "32 * ?j + 32 + 32 * p = 32 * (?j + 1 + p)" by (simp only: add_mult_distrib2 mult_1_right)
  then have fit: "32 * ?j + 32 + 32 * p \<le> sec_bytes fs" using Suc.prems(3) by (simp only: j(2))
  note len = part_entry_fields(1) [OF Suc.prems(4) zero_less_Suc Suc.prems(5), of chk]
  obtain f1 where f1: "put_slot lba (of_nat (32 * ?j)) (part_entry nm chk (Suc p)) fs = Some (True, f1)" "changes {unat lba} fs f1"
    "sector (part f1) (unat lba) = overwrite (32 * ?j) (part_entry nm chk (Suc p)) ?b"
    using put_slot_spec [OF Suc.prems(1,2) _ len, of ?j] fit by auto
  note same = changes_frame [OF f1(2)] changes_derived [OF f1(2)]
  have wf1: "wf_fat f1" using changes_wf [OF f1(2) Suc.prems(1)] .
  obtain fs' where fs': "write_lfns (map ucast nm) (parts nm) chk lba (of_nat (32 * i)) p ins' f1 = Some (True, fs')" "changes {unat lba} f1 fs'"
    "sector (part fs') (unat lba) = overwrite (32 * (i + (parts nm - p))) (concat (part_entries nm chk p)) (sector (part f1) (unat lba))"
    using Suc.IH [OF wf1 _ _ Suc.prems(4), of ins'] Suc.prems(2,3,5) same by auto
  have "write_lfns (map ucast nm) (parts nm) chk lba (of_nat (32 * i)) (Suc p) ins fs = Some (True, fs')"
    unfolding write_lfns.simps u Let_def prod.case ws pos f1(1) by (simp add: fs'(1) del: of_nat_mult)
  moreover have "changes {unat lba} fs fs'" using changes_trans [OF f1(2) fs'(2)] by simp
  moreover have "overwrite (32 * (i + (parts nm - p))) (concat (part_entries nm chk p)) (overwrite (32 * ?j) (part_entry nm chk (Suc p)) ?b)
      = overwrite (32 * ?j) (part_entry nm chk (Suc p) @ concat (part_entries nm chk p)) ?b"
  proof -
    have "32 * (i + (parts nm - p)) = 32 * ?j + length (part_entry nm chk (Suc p))"
      unfolding len j(1) [symmetric] by (simp only: add_mult_distrib2 mult_1_right)
    moreover have "32 * ?j + length (part_entry nm chk (Suc p)) + length (concat (part_entries nm chk p)) \<le> length ?b"
      using fit len length_part_entries [OF Suc.prems(4), of p chk] Suc.prems(5) sector_length [OF g Suc.prems(2)] by simp
    ultimately show ?thesis using overwrite_append by metis
  qed
  ultimately show ?case using fs'(3) f1(3) by simp
qed

text \<open>The slots of a sector after storing entries from slot \<open>i\<close> on.\<close>

lemma chunks32_append: "32 dvd length a \<Longrightarrow> chunks32 (a @ b) = chunks32 a @ chunks32 b"
proof -
  assume "32 dvd length a"
  then obtain k where k: "length a = 32 * k" by (auto simp: dvd_def)
  have "[0..<length (a @ b) div 32] = [0..<k] @ map (\<lambda>i. i + k) [0..<length b div 32]"
    using k by (simp add: map_add_upt upt_add_eq_append [of 0 k, symmetric] add.commute)
  moreover have "take 32 (drop (32 * i) (a @ b)) = take 32 (drop (32 * i) a)" if "i < k" for i
  proof -
    have "32 * i + 32 \<le> length a" using that k by simp
    then show ?thesis by simp
  qed
  ultimately show ?thesis using k by (simp add: chunks32_def comp_def add_mult_distrib2 cong: map_cong)
qed

lemma chunks32_concat: "(\<And>d. d \<in> set ds \<Longrightarrow> length d = 32) \<Longrightarrow> chunks32 (concat ds) = ds"
proof (induction ds)
  case (Cons d ds)
  then have "chunks32 d = [d]" "length d = 32" by (simp_all add: chunks32_def)
  then show ?case using Cons chunks32_append [of d "concat ds"] by simp
qed (simp add: chunks32_def)

lemma chunks32_overwrite:
  assumes "\<And>d. d \<in> set es \<Longrightarrow> length d = 32" and "32 * (i + length es) \<le> length b"
  obtains us vs where "length us = i" "chunks32 (overwrite (32 * i) (concat es) b) = us @ es @ vs"
    "\<exists>os. length os = length es \<and> chunks32 b = us @ os @ vs"
proof -
  have ce: "length (concat es) = 32 * length es" using assms(1) by (induction es) simp_all
  let ?a = "take (32 * i) b" and ?o = "take (32 * length es) (drop (32 * i) b)" and ?v = "drop (32 * i + 32 * length es) b"
  have b: "b = ?a @ ?o @ ?v" by (metis append_take_drop_id drop_drop add.commute)
  have la: "length ?a = 32 * i" and lo: "length ?o = 32 * length es" using assms(2) by simp_all
  have "chunks32 (overwrite (32 * i) (concat es) b) = chunks32 ?a @ es @ chunks32 ?v"
    using chunks32_append [of ?a "concat es @ ?v"] chunks32_append [of "concat es" ?v] chunks32_concat [OF assms(1)] la ce
    by (simp add: overwrite_def)
  moreover have "chunks32 b = chunks32 ?a @ chunks32 ?o @ chunks32 ?v"
    using chunks32_append [of ?a "?o @ ?v"] chunks32_append [of ?o ?v] la lo arg_cong [OF b, of chunks32] by simp
  moreover have "length (chunks32 ?a) = i" "length (chunks32 ?o) = length es" using la lo by (simp_all add: chunks32_def)
  ultimately show thesis using that by metis
qed

lemma sector_slots_same:
  assumes "changes S f1 f2" and "geometry f1" and "valid_cluster f1 e" and "s < clu_secs f1" and "cluster_sector f1 e + s \<notin> S"
  shows "sector_slots f2 e s = sector_slots f1 e s"
proof -
  have "sector (part f2) (cluster_sector f1 e + s) = sector (part f1) (cluster_sector f1 e + s)"
    using assms(1,5) sector_lba(2) [OF assms(2,3,4)] by (simp add: changes_def)
  then show ?thesis using changes_derived [OF assms(1)] by (simp add: sector_slots_def)
qed

lemma sectors_apart:
  assumes "geometry fs" and "valid_cluster fs d" and "valid_cluster fs e" and "s < clu_secs fs" and "t < clu_secs fs"
    and "cluster_sector fs e + s = cluster_sector fs d + t"
  shows "e = d \<and> s = t"
proof -
  have "cluster_sector fs e + s \<in> cluster_region fs e \<inter> cluster_region fs d" using assms(4-6) by (auto simp: cluster_region_def)
  then have "e = d" using cluster_regions_disjoint [of e d fs] valid_clusterD(1) [OF assms(1)] assms(2,3) by blast
  then show ?thesis using assms(6) by simp
qed

lemma split_upt: "t < n \<Longrightarrow> [0..<n] = [0..<t] @ t # [Suc t..<n]"
  by (metis upt_conv_Cons upt_add_eq_append le_add_diff_inverse less_imp_le zero_le)

lemma dir_slots_changed:
  assumes "changes {cluster_sector f1 d + t} f1 f2" and "geometry f1" and "cluster_chain f1 c cs" and "d \<in> set cs" and "t < clu_secs f1"
  obtains us vs where "dir_slots f1 cs = us @ sector_slots f1 d t @ vs" "dir_slots f2 cs = us @ sector_slots f2 d t @ vs"
proof -
  note same = changes_frame [OF assms(1)]
  have v: "valid_cluster f1 e" if "e \<in> set cs" for e using chain_valid [OF assms(3) that] .
  have keep: "sector_slots f2 e s = sector_slots f1 e s" if "e \<in> set cs" "s < clu_secs f1" "(e, s) \<noteq> (d, t)" for e s
    using sector_slots_same [OF assms(1,2) v [OF that(1)] that(2)] sectors_apart [OF assms(2) v [OF assms(4)] v [OF that(1)] that(2) assms(5)] that(3) by blast
  obtain xs ys where cs: "cs = xs @ d # ys" using assms(4) by (meson split_list)
  then have d: "d \<notin> set xs" "d \<notin> set ys" using chain_distinct [OF assms(2,3)] by auto
  have whole: "cluster_slots f2 e = cluster_slots f1 e" if "e \<in> set cs" "e \<noteq> d" for e
    unfolding cluster_slots_def using keep [OF that(1)] that(2) same(1) by (auto intro!: arg_cong [where f = concat])
  have keep_list: "dir_slots f2 zs = dir_slots f1 zs" if "set zs \<subseteq> set cs" "d \<notin> set zs" for zs
    unfolding dir_slots_def by (rule arg_cong [where f = concat], rule map_cong) (use whole that in auto)
  let ?pre = "\<lambda>f. concat (map (sector_slots f d) [0..<t])" and ?post = "\<lambda>f. concat (map (sector_slots f d) [Suc t..<clu_secs f1])"
  have sp: "cluster_slots f d = ?pre f @ sector_slots f d t @ ?post f" if "clu_secs f = clu_secs f1" for f
    unfolding cluster_slots_def that using split_upt [OF assms(5)] by simp
  have "?pre f2 = ?pre f1" "?post f2 = ?post f1"
    using keep [OF assms(4)] assms(5) by (auto intro!: arg_cong [where f = concat])
  moreover have "dir_slots f2 xs = dir_slots f1 xs" "dir_slots f2 ys = dir_slots f1 ys" using keep_list d by (auto simp: cs)
  ultimately show thesis
    using sp [of f1] sp [of f2] same(1) by (intro that [of "dir_slots f1 xs @ ?pre f1" "?post f1 @ dir_slots f1 ys"]) (simp_all add: cs)
qed

text \<open>A grown directory lists the same entries.\<close>

lemma listing_zeros: "xs \<noteq> [] \<Longrightarrow> fst (hd xs) ! 0 = 0 \<Longrightarrow> listing xs l = []"
  by (cases xs) auto

lemma zero_cluster_slots:
  assumes "geometry fs" and "valid_cluster fs c" and "cluster_data fs c = replicate (clu_bytes fs) 0"
  shows "cluster_slots fs c \<noteq> []" "fst (hd (cluster_slots fs c)) ! 0 = 0"
proof -
  have n: "0 < clu_bytes fs div 32" using clu_bytes_bounds(1) [OF assms(1)] by simp
  then have h: "[0..<clu_bytes fs div 32] = 0 # [1..<clu_bytes fs div 32]" by (simp add: upt_conv_Cons)
  note e = buffer_cluster_slots [OF assms(1,2), symmetric]
  show "cluster_slots fs c \<noteq> []" unfolding e h by simp
  show "fst (hd (cluster_slots fs c)) ! 0 = 0" unfolding e h using n by (simp add: buffer_slot_def assms(3))
qed

lemma zero_sector:
  assumes "geometry fs" and "valid_cluster fs c" and "cluster_data fs c = replicate (clu_bytes fs) 0"
  shows "sector (part fs) (cluster_sector fs c) = replicate (sec_bytes fs) 0"
proof -
  have s: "0 < clu_secs fs" using geometryD(6) [OF assms(1)] .
  have len: "length (sector (part fs) (cluster_sector fs c)) = sec_bytes fs" using sector_chunks [OF assms(1,2) s] by simp
  have "take (sec_bytes fs) (cluster_data fs c) = sector (part fs) (cluster_sector fs c)"
    unfolding cluster_data_def using s len by (simp add: upt_conv_Cons)
  moreover have "sec_bytes fs \<le> clu_bytes fs" using s by (simp add: clu_bytes_def)
  ultimately show ?thesis using assms(3) by (simp add: min_def)
qed

lemma grown_listing:
  assumes "wf_fat fs" and "cluster_chain fs c cs" and "grown fs c cs f1 ext"
  shows "dir_listing f1 (cs @ ext) = dir_listing fs cs" "wf_fat f1" "cs \<noteq> [] \<Longrightarrow> dir_slots f1 cs = dir_slots fs cs"
proof -
  have g: "geometry fs" using assms(1) by (simp add: wf_fat_def)
  have G: "cluster_chain f1 c (cs @ ext)" "set ext \<subseteq> free_clusters fs" "changes (file_region fs ext) fs f1"
    "\<forall>d \<in> set ext. cluster_data f1 d = replicate (clu_bytes fs) 0"
    using assms(3) unfolding grown_def by blast+
  note same = changes_frame [OF G(3)] changes_derived [OF G(3)]
  show wf: "wf_fat f1" using changes_wf [OF G(3) assms(1)] .
  then have g1: "geometry f1" by (simp add: wf_fat_def)
  have vx: "valid_cluster fs d" if "d \<in> set ext" for d using G(2) that free_clusterD(1) by blast
  have apart: "d \<notin> set ext" if "d \<in> set cs" for d using chain_distinct [OF g1 G(1)] that by auto
  have "cluster_slots f1 d = cluster_slots fs d" if d: "d \<in> set cs" for d
  proof -
    have v: "valid_cluster fs d" using chain_valid [OF assms(2) d] .
    have "file_region fs ext \<inter> cluster_region fs d = {}" using file_region_other [OF g v apart [OF d]] vx by blast
    then have "cluster_sector fs d + s \<notin> file_region fs ext" if "s < clu_secs fs" for s using that by (auto simp: cluster_region_def)
    then show ?thesis unfolding cluster_slots_def
      using sector_slots_same [OF G(3) g v] same by (auto intro!: arg_cong [where f = concat])
  qed
  then show old: "dir_slots f1 cs = dir_slots fs cs" unfolding dir_slots_def by (auto intro!: arg_cong [where f = concat])
  have "listing (dir_slots f1 ext) l = []" for l
  proof (cases ext)
    case (Cons d ds)
    have "valid_cluster f1 d" "cluster_data f1 d = replicate (clu_bytes f1) 0" using vx [of d] G(4) same Cons by simp_all
    note Z = zero_cluster_slots [OF g1 this]
    then show ?thesis using Cons by (intro listing_zeros) simp_all
  qed simp
  then show "dir_listing f1 (cs @ ext) = dir_listing fs cs" using old same by (simp add: dir_listing_def listing_append lfn_start_def)
qed

section \<open>Creating an entry\<close>

lemma parts_units: "ascii_name nm \<Longrightarrow> (length (name_units nm) + 12) div 13 = parts nm \<and> \<not> 255 < length (name_units nm)"
  by (simp add: name_units_ascii parts_def ascii_name_def)

text \<open>Storing the slots of a name at a run of free slots of a sector.\<close>

lemma store_name:
  assumes "wf_fat fs" and "unat lba < part_size (part fs)" and "32 * (i + (parts nm + 1)) \<le> sec_bytes fs" and "ascii_name nm"
  shows "\<exists>f1 f2. write_lfns (name_units nm) (parts nm) (ComputeSFNChecksum (MakeSFNFromName nm)) lba (of_nat (32 * i)) (parts nm) False fs = Some (True, f1) \<and>
    put_slot lba (of_nat (32 * i) + of_nat (parts nm) * 32) (sfn_entry (MakeSFNFromName nm) sc sz) f1 = Some (True, f2) \<and> changes {unat lba} fs f2 \<and>
    sector (part f2) (unat lba) = overwrite (32 * i) (concat (name_slots nm sc sz)) (sector (part fs) (unat lba))"
proof -
  have g: "geometry fs" using assms(1) by (simp add: wf_fat_def)
  let ?chk = "ComputeSFNChecksum (MakeSFNFromName nm)" and ?e = "sfn_entry (MakeSFNFromName nm) sc sz" and ?b = "sector (part fs) (unat lba)"
  have fit: "32 * (i + parts nm) \<le> sec_bytes fs" "32 * (i + parts nm) + 32 \<le> sec_bytes fs" using assms(3) by simp_all
  obtain f1 where f1: "write_lfns (name_units nm) (parts nm) ?chk lba (of_nat (32 * i)) (parts nm) False fs = Some (True, f1)" "changes {unat lba} fs f1"
    "sector (part f1) (unat lba) = overwrite (32 * i) (concat (part_entries nm ?chk (parts nm))) ?b"
    using write_lfns_spec [OF assms(1,2) fit(1) assms(4), of "parts nm" False ?chk] name_units_ascii [OF assms(4)] by auto
  note same = changes_frame [OF f1(2)] changes_derived [OF f1(2)]
  have wf1: "wf_fat f1" using changes_wf [OF f1(2) assms(1)] .
  obtain f2 where f2: "put_slot lba (of_nat (32 * (i + parts nm))) ?e f1 = Some (True, f2)" "changes {unat lba} f1 f2"
    "sector (part f2) (unat lba) = overwrite (32 * (i + parts nm)) ?e (sector (part f1) (unat lba))"
    using put_slot_spec [OF wf1, of lba "i + parts nm" ?e] assms(2) fit(2) sfn_entry_fields(1) [OF assms(4)] same by auto
  have len: "length (concat (part_entries nm ?chk (parts nm))) = 32 * parts nm" using length_part_entries [OF assms(4)] by simp
  have "32 * (i + parts nm) = 32 * i + length (concat (part_entries nm ?chk (parts nm)))" by (simp add: len)
  then have "sector (part f2) (unat lba) = overwrite (32 * i) (concat (name_slots nm sc sz)) ?b"
    using f2(3) f1(3) overwrite_append [of "32 * i" "concat (part_entries nm ?chk (parts nm))" ?e ?b] fit(2) len
      sfn_entry_fields(1) [OF assms(4), of sc sz] sector_length [OF g assms(2)] by (simp add: name_slots_def)
  moreover have "of_nat (32 * i) + of_nat (parts nm) * 32 = (of_nat (32 * (i + parts nm)) :: u32)"
    by (simp only: of_nat_add of_nat_mult add_mult_distrib2) simp
  ultimately show ?thesis using f1(1) f2(1) changes_trans [OF f1(2) f2(2)] by (simp only:) simp
qed

lemma zero_run: "32 * n \<le> m \<Longrightarrow> free_run (replicate m 0) 0 n"
  by (auto simp: free_run_def free_at_def)

lemma run_bounds:
  assumes "geometry fs" and "run_in_sector fs a i (m + 1)"
  shows "(of_nat (32 * i) + of_nat m * 32 :: u32) div ucast (bps fs) = 0"
    "(of_nat (32 * i) + of_nat m * 32 :: u32) mod ucast (bps fs) = of_nat (32 * (i + m))"
proof -
  let ?p = "of_nat (32 * (i + m)) :: u32" and ?w = "ucast (bps fs) :: u32"
  have e: "of_nat (32 * i) + of_nat m * 32 = ?p" by (simp only: of_nat_add of_nat_mult add_mult_distrib2) simp
  have sb: "sec_bytes fs < 2 ^ 16" using unsigned_less [of "bps fs", where ?'a = nat] by simp
  have lt: "32 * (i + m) < sec_bytes fs" using assms(2) by (simp add: run_in_sector_def)
  then have "32 * (i + m) < 2 ^ 32" using sb by simp
  then have p: "unat ?p = 32 * (i + m)" by (simp add: unat_of_nat take_bit_nat_eq_self del: of_nat_mult of_nat_add)
  have "unat ?p < unat ?w" using p lt by (simp add: unat_ucast_wide del: of_nat_mult of_nat_add)
  then have "?p div ?w = 0" "?p mod ?w = ?p"
    by (simp_all add: word_unat_eq_iff unat_div_distrib unat_mod_distrib del: of_nat_mult of_nat_add)
  then show "(of_nat (32 * i) + of_nat m * 32 :: u32) div ?w = 0"
    "(of_nat (32 * i) + of_nat m * 32 :: u32) mod ?w = ?p" unfolding e by simp_all
qed

lemma CreateDirectoryEntry_cases:
  assumes "wf_fat fs" and "cluster_chain fs c cs" and "cs \<noteq> []" and "ascii_name nm"
  obtains (refused) f1 ext where "CreateDirectoryEntry c nm sc sz fs = Some (None, f1)" "grown fs c cs f1 ext"
      "sec_bytes fs < 32 * (parts nm + 1) \<or> ext = [] \<and> f1 = fs \<and> free_clusters fs = {}"
  | (stored) f1 ext d t i fs' where "CreateDirectoryEntry c nm sc sz fs = Some (Some (ClusterToLBA d fs + of_nat t, of_nat (32 * (i + parts nm))), fs')"
      "grown fs c cs f1 ext" "d \<in> set (cs @ ext)" "t < clu_secs fs" "run_in_sector f1 (cluster_sector fs d + t) i (parts nm + 1)"
      "changes {cluster_sector fs d + t} f1 fs'"
      "sector (part fs') (cluster_sector fs d + t) = overwrite (32 * i) (concat (name_slots nm sc sz)) (sector (part f1) (cluster_sector fs d + t))"
proof -
  let ?n = "parts nm + 1"
  obtain q where P: "m_Partition fs = Some q" using assms(1) by (auto simp: wf_fat_def geometry_def)
  obtain r f1 ext where F: "find_slots 4 c ?n fs = Some (r, f1)" "grown fs c cs f1 ext" "found_run f1 (cs @ ext) ?n r"
    "r = None \<longrightarrow> free_clusters f1 = {} \<or> length ext = 4" "ext = [] \<longrightarrow> f1 = fs"
    using find_slots_spec [OF assms(1-3), of ?n 4] by auto
  have G: "cluster_chain f1 c (cs @ ext)" "changes (file_region fs ext) fs f1" "\<forall>d \<in> set ext. cluster_data f1 d = replicate (clu_bytes fs) 0"
    using F(2) unfolding grown_def by blast+
  note same = changes_frame [OF G(2)] changes_derived [OF G(2)]
  have wf1: "wf_fat f1" using grown_listing(2) [OF assms(1,2) F(2)] .
  then have g1: "geometry f1" by (simp add: wf_fat_def)
  have U: "(length (name_units nm) + 12) div 13 = parts nm" "\<not> 255 < length (name_units nm)" using parts_units [OF assms(4)] by auto
  show thesis
  proof (cases r)
    case None
    have "CreateDirectoryEntry c nm sc sz fs = Some (None, f1)"
      unfolding CreateDirectoryEntry_def Let_def U(1) using P U(2) F(1) None by simp
    moreover have "sec_bytes fs < 32 * ?n \<or> ext = []"
    proof (rule ccontr)
      assume n: "\<not> (sec_bytes fs < 32 * ?n \<or> ext = [])"
      then obtain d where d: "d \<in> set ext" by (cases ext) auto
      then have v: "valid_cluster f1 d" using chain_valid [OF G(1), of d] by simp
      have "cluster_data f1 d = replicate (clu_bytes f1) 0" using G(3) d same by simp
      then have "run_in_sector f1 (cluster_sector f1 d + 0) 0 ?n"
        using zero_sector [OF g1 v] zero_run [of ?n "sec_bytes f1"] n same by (simp add: run_in_sector_def)
      moreover have "d \<in> set (cs @ ext)" using d by simp
      ultimately show False using found_run_None F(3) None geometryD(6) [OF g1] by blast
    qed
    ultimately have "sec_bytes fs < 32 * ?n \<or> ext = [] \<and> f1 = fs \<and> free_clusters fs = {}" using F(4,5) None by auto
    with \<open>CreateDirectoryEntry c nm sc sz fs = Some (None, f1)\<close> show thesis using refused F(2) by blast
  next
    case (Some p)
    obtain d t i where R: "p = (ClusterToLBA d f1 + of_nat t, of_nat (32 * i))" "d \<in> set (cs @ ext)" "t < clu_secs f1"
      "run_in_sector f1 (cluster_sector f1 d + t) i ?n"
      using F(3) Some by (cases p) (auto simp: found_run_def)
    let ?lba = "ClusterToLBA d f1 + of_nat t"
    have v: "valid_cluster f1 d" using chain_valid [OF G(1) R(2)] .
    note L = sector_lba [OF g1 v R(3)]
    have fit: "32 * (i + ?n) \<le> sec_bytes f1" using R(4) by (simp add: run_in_sector_def)
    obtain f2 f3 where W: "write_lfns (name_units nm) (parts nm) (ComputeSFNChecksum (MakeSFNFromName nm)) ?lba (of_nat (32 * i)) (parts nm) False f1 = Some (True, f2)"
      "put_slot ?lba (of_nat (32 * i) + of_nat (parts nm) * 32) (sfn_entry (MakeSFNFromName nm) sc sz) f2 = Some (True, f3)" "changes {unat ?lba} f1 f3"
      "sector (part f3) (unat ?lba) = overwrite (32 * i) (concat (name_slots nm sc sz)) (sector (part f1) (unat ?lba))"
      using store_name [OF wf1 _ fit assms(4), of ?lba sc sz] L by auto
    have b3: "bps f3 = bps f1" using changes_frame(1) [OF W(3)] by simp
    note B = run_bounds [OF g1 R(4)]
    have "CreateDirectoryEntry c nm sc sz fs = Some (Some (?lba, of_nat (32 * (i + parts nm))), f3)"
      unfolding CreateDirectoryEntry_def Let_def U(1) using P U(2) F(1) Some R(1) W(1,2) B b3
      by (simp del: of_nat_mult of_nat_add)
    then show thesis using stored [of d t i f3 f1 ext] F(2) R(2-4) W(3,4) L(1) same by simp
  qed
qed

section \<open>Created entries are found\<close>

lemma find_append: "find P (xs @ ys) = (case find P xs of None \<Rightarrow> find P ys | Some x \<Rightarrow> Some x)"
  by (induction xs) auto

lemma same_name_refl [simp]: "same_name nm nm"
  by (simp add: same_name_def)

text \<open>The slots of the directory before and after the entry is stored at slot \<open>i\<close> of sector \<open>t\<close> of cluster \<open>d\<close>.\<close>

lemma stored_slots:
  assumes "geometry f1" and "cluster_chain f1 c cs" and "d \<in> set cs" and "t < clu_secs f1" and "32 * (i + (parts nm + 1)) \<le> sec_bytes f1"
    and "changes {cluster_sector f1 d + t} f1 fs'" and "ascii_name nm"
    and "sector (part fs') (cluster_sector f1 d + t) = overwrite (32 * i) (concat (name_slots nm sc sz)) (sector (part f1) (cluster_sector f1 d + t))"
  obtains us os vs where "dir_slots f1 cs = us @ os @ vs"
    "dir_slots fs' cs = us @ slots_from (ClusterToLBA d f1 + of_nat t) i (name_slots nm sc sz) @ vs"
proof -
  let ?es = "name_slots nm sc sz" and ?b = "sector (part f1) (cluster_sector f1 d + t)" and ?lba = "ClusterToLBA d f1 + of_nat t"
  have len: "length ?b = sec_bytes f1" using sector_chunks [OF assms(1) chain_valid [OF assms(2,3)] assms(4)] .
  have "32 * (i + length ?es) \<le> length ?b" using assms(5) length_name_slots(1) [OF assms(7)] len by simp
  then obtain us vs where C: "length us = i" "chunks32 (overwrite (32 * i) (concat ?es) ?b) = us @ ?es @ vs"
    "\<exists>os. length os = length ?es \<and> chunks32 ?b = us @ os @ vs"
    using chunks32_overwrite [of ?es i ?b] length_name_slots(2) [OF assms(7)] by metis
  then obtain os where os: "length os = length ?es" "chunks32 ?b = us @ os @ vs" by blast
  obtain u2 v2 where D: "dir_slots f1 cs = u2 @ sector_slots f1 d t @ v2" "dir_slots fs' cs = u2 @ sector_slots fs' d t @ v2"
    by (rule dir_slots_changed [OF assms(6,1,2,3,4)])
  have "sector_slots f1 d t = slots_from ?lba 0 us @ slots_from ?lba i os @ slots_from ?lba (i + length ?es) vs"
    unfolding sector_slots_def os(2) using C(1) os(1) by simp
  moreover have "sector_slots fs' d t = slots_from ?lba 0 us @ slots_from ?lba i ?es @ slots_from ?lba (i + length ?es) vs"
    unfolding sector_slots_def using changes_derived [OF assms(6)] assms(8) C(1,2) by simp
  ultimately show thesis using D
    by (intro that [of "u2 @ slots_from ?lba 0 us" "slots_from ?lba i os" "slots_from ?lba (i + length ?es) vs @ v2"]) simp_all
qed

lemma chain_after_store:
  assumes "geometry f1" and "cluster_chain f1 c cs" and "valid_cluster f1 d" and "t < clu_secs f1" and "changes {cluster_sector f1 d + t} f1 fs'"
  shows "cluster_chain fs' c cs" "unat e < nclusters f1 + 2 \<Longrightarrow> fat_entry fs' e = fat_entry f1 e"
    "valid_cluster f1 e \<Longrightarrow> e \<noteq> d \<Longrightarrow> cluster_data fs' e = cluster_data f1 e"
proof -
  have in_d: "{cluster_sector f1 d + t} \<subseteq> cluster_region f1 d" using assms(4) by (simp add: cluster_region_def)
  have F: "fat_entry fs' e = fat_entry f1 e" if "unat e < nclusters f1 + 2" for e
    using changes_fat_entry [OF assms(5,1) that] cluster_region_fat(1) [OF assms(1,3)] in_d by blast
  then show "unat e < nclusters f1 + 2 \<Longrightarrow> fat_entry fs' e = fat_entry f1 e" .
  show "cluster_chain fs' c cs"
    using cluster_chain_cong [of fs' f1 cs c] assms(2) changes_derived(4) [OF assms(5)] F chain_valid [OF assms(2)] by (simp add: valid_cluster_def)
  show "cluster_data fs' e = cluster_data f1 e" if "valid_cluster f1 e" "e \<noteq> d"
    using changes_cluster_data [OF assms(5,1) that(1)] in_d cluster_regions_disjoint [of d e f1] valid_clusterD(1) [OF assms(1)] assms(3) that by blast
qed

lemma created_found:
  assumes "dir_slots f1 cs = us @ os @ vs" and "dir_slots fs' cs = us @ slots_from lba i (name_slots nm sc sz) @ vs" and "ascii_name nm"
    and "lfn_start fs' = lfn_start f1" and "find (\<lambda>e. same_name (fst e) nm) (dir_listing f1 cs) = None"
  obtains us' vs' where "dir_slots fs' cs = us' @ (sfn_entry (MakeSFNFromName nm) sc sz, lba, of_nat (32 * (i + parts nm))) # vs'"
    "map_option snd (find (\<lambda>e. same_name (fst e) nm) (dir_listing fs' cs)) =
      (if ended us' then None else Some (sfn_entry (MakeSFNFromName nm) sc sz, lba, of_nat (32 * (i + parts nm))))"
proof -
  let ?l = "lfn_start f1" and ?ps = "part_entries nm (ComputeSFNChecksum (MakeSFNFromName nm)) (parts nm)"
  let ?us = "us @ slots_from lba i ?ps"
  note N = listing_name_slots [OF assms(3), of lba i sc sz]
  have e: "dir_slots fs' cs = ?us @ (sfn_entry (MakeSFNFromName nm) sc sz, lba, of_nat (32 * (i + parts nm))) # vs"
    using assms(2) by (simp add: name_slots_def)
  have "\<not> ended (slots_from lba i ?ps)" using part_entries_read(2) [OF assms(3) order_refl] by blast
  then have ended: "ended ?us = ended us" by simp
  have "find (\<lambda>e. same_name (fst e) nm) (listing us ?l) = None"
    using assms(1,5) by (simp add: dir_listing_def listing_append find_append split: option.splits)
  then have "map_option snd (find (\<lambda>e. same_name (fst e) nm) (dir_listing fs' cs)) =
      (if ended us then None else Some (sfn_entry (MakeSFNFromName nm) sc sz, lba, of_nat (32 * (i + parts nm))))"
    using N by (simp add: dir_listing_def assms(2,4) listing_append find_append)
  then show thesis by (intro that [of ?us vs] e) (simp only: ended)
qed

text \<open>The slots of a directory up to and including sector \<open>t\<close> of cluster \<open>d\<close>.\<close>

definition slots_upto :: "fat \<Rightarrow> u32 list \<Rightarrow> u32 \<Rightarrow> nat \<Rightarrow> slot list" where
  "slots_upto fs xs d t = dir_slots fs xs @ concat (map (sector_slots fs d) [0..<Suc t])"

lemma dir_slots_upto: "t < clu_secs fs \<Longrightarrow> \<exists>zs. dir_slots fs (xs @ d # ys) = slots_upto fs xs d t @ zs"
  using split_upt [of t "clu_secs fs"] by (simp add: slots_upto_def cluster_slots_def)

lemma slots_upto_same:
  assumes "clu_secs fs' = clu_secs fs"
    and "\<And>e s. e \<in> set xs \<and> s < clu_secs fs \<or> e = d \<and> s \<le> t \<Longrightarrow> sector_slots fs' e s = sector_slots fs e s"
  shows "slots_upto fs' xs d t = slots_upto fs xs d t"
proof -
  have "cluster_slots fs' e = cluster_slots fs e" if "e \<in> set xs" for e
    unfolding cluster_slots_def assms(1) by (rule arg_cong [where f = concat], rule map_cong) (use assms(2) that in auto)
  then have "dir_slots fs' xs = dir_slots fs xs"
    unfolding dir_slots_def by (intro arg_cong [where f = concat] map_cong) auto
  moreover have "map (sector_slots fs' d) [0..<Suc t] = map (sector_slots fs d) [0..<Suc t]" by (rule map_cong) (use assms(2) in auto)
  ultimately show ?thesis by (simp only: slots_upto_def)
qed

lemma grown_sector:
  assumes "wf_fat fs" and "cluster_chain fs c cs" and "grown fs c cs f1 ext" and "e \<in> set cs" and "s < clu_secs fs"
  shows "sector (part f1) (cluster_sector fs e + s) = sector (part fs) (cluster_sector fs e + s)" "e \<notin> set ext"
proof -
  have g: "geometry fs" using assms(1) by (simp add: wf_fat_def)
  have G: "cluster_chain f1 c (cs @ ext)" "set ext \<subseteq> free_clusters fs" "changes (file_region fs ext) fs f1"
    using assms(3) unfolding grown_def by blast+
  have v: "valid_cluster fs e" using chain_valid [OF assms(2,4)] .
  show e: "e \<notin> set ext" using chain_distinct [OF changes_geometry [OF G(3) g] G(1)] assms(4) by auto
  have "\<And>d. d \<in> set ext \<Longrightarrow> valid_cluster fs d" using G(2) free_clusterD(1) by blast
  then have "file_region fs ext \<inter> cluster_region fs e = {}" using file_region_other [OF g v e] by blast
  then have "cluster_sector fs e + s \<notin> file_region fs ext" using assms(5) by (auto simp: cluster_region_def)
  then show "sector (part f1) (cluster_sector fs e + s) = sector (part fs) (cluster_sector fs e + s)"
    using G(3) sector_lba(2) [OF g v assms(5)] by (simp add: changes_def)
qed

text \<open>What \<^const>\<open>CreateDirectoryEntry\<close> leaves alone of the driver's own state.\<close>

definition keeps_setup :: "fat \<Rightarrow> fat \<Rightarrow> bool" where
  "keeps_setup fs fs' \<longleftrightarrow> m_BPB fs' = m_BPB fs \<and> new_at fs' = new_at fs \<and> vnodes fs' = vnodes fs"

lemma create_entry:
  assumes "wf_fat fs" and "cluster_chain fs D cs" and "cs \<noteq> []" and "ascii_name nm" and "FindFileInDir nm D fs = Some None"
  shows "\<exists>r fs' ext. CreateDirectoryEntry D nm sc sz fs = Some (r, fs') \<and> keeps_setup fs fs' \<and> wf_fat fs' \<and> cluster_chain fs' D (cs @ ext) \<and> set ext \<subseteq> free_clusters fs \<and>
    (\<forall>d. valid_cluster fs d \<and> d \<notin> set (cs @ ext) \<longrightarrow> fat_entry fs' d = fat_entry fs d \<and> cluster_data fs' d = cluster_data fs d) \<and>
    (case r of
       None \<Rightarrow> FindFileInDir nm D fs' = Some None \<and> (sec_bytes fs < 32 * (parts nm + 1) \<or> fs' = fs \<and> free_clusters fs = {})
     | Some (lba, off) \<Rightarrow> \<exists>us vs. dir_slots fs' (cs @ ext) = us @ (sfn_entry (MakeSFNFromName nm) sc sz, lba, off) # vs \<and>
         FindFileInDir nm D fs' = Some (if ended us then None else Some (sfn_entry (MakeSFNFromName nm) sc sz, lba, off)))"
  using assms(1-4)
proof (cases rule: CreateDirectoryEntry_cases [of fs D cs nm sc sz])
  case (refused f1 ext)
  have G: "cluster_chain f1 D (cs @ ext)" "set ext \<subseteq> free_clusters fs" using refused(2) unfolding grown_def by blast+
  note L = grown_listing [OF assms(1,2) refused(2)]
  have "FindFileInDir nm D f1 = Some None"
    using FindFileInDir_spec [OF L(2) G(1)] FindFileInDir_spec [OF assms(1,2)] L(1) assms(5) by simp
  moreover have "keeps_setup fs f1"
  proof -
    have "changes (file_region fs ext) fs f1" using refused(2) unfolding grown_def by blast
    from changes_frame [OF this] show ?thesis by (simp add: keeps_setup_def)
  qed
  ultimately show ?thesis using refused(1,3) G grown_other [OF assms(1,2) refused(2)] L(2)
    by (intro exI [of _ None] exI [of _ f1] exI [of _ ext]) auto
next
  case (stored f1 ext d t i fs')
  have g: "geometry fs" using assms(1) by (simp add: wf_fat_def)
  have G: "cluster_chain f1 D (cs @ ext)" "set ext \<subseteq> free_clusters fs" "changes (file_region fs ext) fs f1"
    using stored(2) unfolding grown_def by blast+
  note L = grown_listing [OF assms(1,2) stored(2)] and same = changes_frame [OF G(3)] changes_derived [OF G(3)]
  have g1: "geometry f1" using L(2) by (simp add: wf_fat_def)
  have ch: "changes {cluster_sector f1 d + t} f1 fs'" and t: "t < clu_secs f1" using stored(4,6) same by simp_all
  have v: "valid_cluster f1 d" using chain_valid [OF G(1) stored(3)] .
  note A = chain_after_store [OF g1 G(1) v t ch]
  have wf': "wf_fat fs'" using changes_wf [OF ch L(2)] .
  let ?lba = "ClusterToLBA d fs + of_nat t" and ?e = "sfn_entry (MakeSFNFromName nm) sc sz"
  have "32 * (i + (parts nm + 1)) \<le> sec_bytes f1" using stored(5) by (simp add: run_in_sector_def)
  then obtain us os vs where S: "dir_slots f1 (cs @ ext) = us @ os @ vs"
    "dir_slots fs' (cs @ ext) = us @ slots_from (ClusterToLBA d f1 + of_nat t) i (name_slots nm sc sz) @ vs"
    using stored_slots [OF g1 G(1) stored(3) t _ ch assms(4), of i sc sz] stored(7) same by metis
  have "lfn_start fs' = lfn_start f1" using changes_frame(10) [OF ch] by (simp add: lfn_start_def)
  moreover have "find (\<lambda>e. same_name (fst e) nm) (dir_listing f1 (cs @ ext)) = None"
    using FindFileInDir_spec [OF assms(1,2)] L(1) assms(5) by simp
  ultimately obtain us' vs' where R: "dir_slots fs' (cs @ ext) = us' @ (?e, ?lba, of_nat (32 * (i + parts nm))) # vs'"
    "map_option snd (find (\<lambda>e. same_name (fst e) nm) (dir_listing fs' (cs @ ext))) = (if ended us' then None else Some (?e, ?lba, of_nat (32 * (i + parts nm))))"
    using created_found [OF S assms(4)] same by metis
  have "fat_entry fs' x = fat_entry fs x \<and> cluster_data fs' x = cluster_data fs x" if "valid_cluster fs x" "x \<notin> set (cs @ ext)" for x
  proof -
    have "x \<noteq> d" "valid_cluster f1 x" "unat x < nclusters f1 + 2" using that stored(3) same by (auto simp: valid_cluster_def)
    then show ?thesis using A(2,3) [of x] grown_other [OF assms(1,2) stored(2) that] by simp
  qed
  moreover have "keeps_setup fs fs'" using changes_frame [OF ch] same by (simp add: keeps_setup_def)
  ultimately show ?thesis using stored(1) G(2) A(1) R FindFileInDir_spec [OF wf' A(1), of nm] wf'
    by (intro exI [of _ "Some (?lba, of_nat (32 * (i + parts nm)))"] exI [of _ fs'] exI [of _ ext]) (simp only: option.case prod.case, blast)
qed

section \<open>Properties\<close>

text \<open>C16. Creating an entry for an ASCII name that a directory does not have returns. No file outside the
  directory changes; at most clusters that were free join it. Refused is only a name whose slots do not
  fit in one sector, or any name when the volume is full and the directory has no room. Otherwise the new
  entry is in a slot of the directory, and a search for the name finds that entry, unless a slot before
  it is an end-of-directory mark: then the search finds nothing.\<close>

theorem CreateDirectoryEntry_found:
  assumes "wf_fat fs" and "cluster_chain fs D cs" and "cs \<noteq> []" and "ascii_name nm" and "FindFileInDir nm D fs = Some None"
  shows "\<exists>r fs' ext. CreateDirectoryEntry D nm sc sz fs = Some (r, fs') \<and> cluster_chain fs' D (cs @ ext) \<and> set ext \<subseteq> free_clusters fs \<and>
    (\<forall>d. valid_cluster fs d \<and> d \<notin> set (cs @ ext) \<longrightarrow> fat_entry fs' d = fat_entry fs d \<and> cluster_data fs' d = cluster_data fs d) \<and>
    (case r of
       None \<Rightarrow> FindFileInDir nm D fs' = Some None \<and> (sec_bytes fs < 32 * (parts nm + 1) \<or> fs' = fs \<and> free_clusters fs = {})
     | Some (lba, off) \<Rightarrow> \<exists>us vs. dir_slots fs' (cs @ ext) = us @ (sfn_entry (MakeSFNFromName nm) sc sz, lba, off) # vs \<and>
         FindFileInDir nm D fs' = Some (if ended us then None else Some (sfn_entry (MakeSFNFromName nm) sc sz, lba, off)))"
  using create_entry [OF assms, of sc sz] by blast

text \<open>C19. An entry that is reported as created can be lost: when the end-of-directory mark is in a sector
  that has no room for all the slots of the new name, and no sector before has, the driver stores the
  entry in a later sector, returns its place, and a search for the name does not find it.\<close>

theorem CreateDirectoryEntry_lost:
  assumes "wf_fat fs" and "cluster_chain fs D (xs @ d # ys)" and "ascii_name nm" and "FindFileInDir nm D fs = Some None"
    and "32 * (parts nm + 1) \<le> sec_bytes fs" and "free_clusters fs \<noteq> {}" and "t < clu_secs fs" and "ended (sector_slots fs d t)"
    and "\<forall>e s i. e \<in> set xs \<and> s < clu_secs fs \<or> e = d \<and> s \<le> t \<longrightarrow> \<not> run_in_sector fs (cluster_sector fs e + s) i (parts nm + 1)"
  shows "\<exists>lba off fs'. CreateDirectoryEntry D nm sc sz fs = Some (Some (lba, off), fs') \<and> FindFileInDir nm D fs' = Some None"
proof -
  have "xs @ d # ys \<noteq> []" by simp
  from assms(1,2) this assms(3) show ?thesis
  proof (cases rule: CreateDirectoryEntry_cases [of fs D "xs @ d # ys" nm sc sz])
    case (refused f1 ext)
    then show ?thesis using assms(5,6) by simp
  next
    case (stored f1 ext d' t' i fs')
    let ?cs = "xs @ d # ys"
    have G: "cluster_chain f1 D (?cs @ ext)" "changes (file_region fs ext) fs f1" using stored(2) unfolding grown_def by blast+
    note same = changes_frame [OF G(2)] changes_derived [OF G(2)]
    have wf1: "wf_fat f1" using grown_listing(2) [OF assms(1,2) stored(2)] .
    then have g1: "geometry f1" by (simp add: wf_fat_def)
    have ch: "changes {cluster_sector f1 d' + t'} f1 fs'" and t': "t' < clu_secs f1" using stored(4,6) same by simp_all
    have v: "valid_cluster f1 d'" using chain_valid [OF G(1) stored(3)] .
    note A = chain_after_store [OF g1 G(1) v t' ch] and same' = changes_frame [OF ch] changes_derived [OF ch]
    have early: "sector_slots fs' e s = sector_slots fs e s" if es: "e \<in> set xs \<and> s < clu_secs fs \<or> e = d \<and> s \<le> t" for e s
    proof -
      have e: "e \<in> set ?cs" "s < clu_secs fs" using es assms(7) by auto
      note S = grown_sector(1) [OF assms(1,2) stored(2) e]
      have "valid_cluster f1 e" using chain_valid [OF G(1), of e] e(1) by auto
      moreover have "(e, s) \<noteq> (d', t')" using assms(9) es stored(5) S same by (auto simp: run_in_sector_def)
      ultimately have "cluster_sector f1 e + s \<notin> {cluster_sector f1 d' + t'}"
        using sectors_apart [OF g1 v _ _ t', of e s] e(2) same by auto
      then have "sector_slots fs' e s = sector_slots f1 e s"
        using sector_slots_same [OF ch g1 \<open>valid_cluster f1 e\<close>] e(2) same by simp
      then show ?thesis using S same by (simp add: sector_slots_def)
    qed
    obtain zs where zs: "dir_slots fs ?cs = slots_upto fs xs d t @ zs" using dir_slots_upto [OF assms(7)] by blast
    obtain zs' where zs': "dir_slots fs' (?cs @ ext) = slots_upto fs' xs d t @ zs'"
      using dir_slots_upto [of t fs' xs d "ys @ ext"] assms(7) same same' by auto
    have "slots_upto fs' xs d t = slots_upto fs xs d t" by (rule slots_upto_same) (use early same same' in auto)
    moreover have "ended (slots_upto fs xs d t)" using assms(8) by (simp add: slots_upto_def)
    moreover have "lfn_start fs' = lfn_start fs" using same same' by (simp add: lfn_start_def)
    ultimately have "dir_listing fs' (?cs @ ext) = dir_listing fs ?cs"
      unfolding dir_listing_def zs zs' by (simp add: listing_append)
    then have "FindFileInDir nm D fs' = Some None"
      using FindFileInDir_spec [OF changes_wf [OF ch wf1] A(1)] FindFileInDir_spec [OF assms(1,2)] assms(4) by simp
    then show ?thesis using stored(1) by blast
  qed
qed

text \<open>
  Witnesses: the demonstration volume, whose root directory is empty, and the same volume with a root
  directory that has one free slot.
\<close>

lemma demo_root: "cluster_chain demo_vol 2 [2]"
  by (simp add: demo_entries demo_valid)

lemma demo_root_empty: "FindFileInDir nm 2 demo_vol = Some None"
proof -
  have g: "geometry demo_vol" using demo_wf by (simp add: wf_fat_def)
  have "cluster_data demo_vol 2 = replicate (clu_bytes demo_vol) 0"
    by (simp add: cluster_data_def clu_bytes_def cluster_sector_def demo_vol_def numeral_2_eq_2 [symmetric] demo_sectors)
  note Z = zero_cluster_slots [OF g demo_valid(1) this]
  have "dir_listing demo_vol [2] = []" unfolding dir_listing_def by (rule listing_zeros) (use Z in simp_all)
  then show ?thesis using FindFileInDir_spec [OF demo_wf demo_root] by simp
qed

lemma demo_name: "ascii_name [0x61]" "parts [0x61] = 1"
  by (simp_all add: ascii_name_def parts_def)

theorem CreateDirectoryEntry_found_witness:
  "\<exists>r fs' ext. CreateDirectoryEntry 2 [0x61] 0 0 demo_vol = Some (r, fs') \<and> cluster_chain fs' 2 ([2] @ ext) \<and> set ext \<subseteq> free_clusters demo_vol \<and>
    (\<forall>d. valid_cluster demo_vol d \<and> d \<notin> set ([2] @ ext) \<longrightarrow> fat_entry fs' d = fat_entry demo_vol d \<and> cluster_data fs' d = cluster_data demo_vol d) \<and>
    (case r of
       None \<Rightarrow> FindFileInDir [0x61] 2 fs' = Some None \<and> (sec_bytes demo_vol < 32 * (parts [0x61] + 1) \<or> fs' = demo_vol \<and> free_clusters demo_vol = {})
     | Some (lba, off) \<Rightarrow> \<exists>us vs. dir_slots fs' ([2] @ ext) = us @ (sfn_entry (MakeSFNFromName [0x61]) 0 0, lba, off) # vs \<and>
         FindFileInDir [0x61] 2 fs' = Some (if ended us then None else Some (sfn_entry (MakeSFNFromName [0x61]) 0 0, lba, off)))"
  by (rule CreateDirectoryEntry_found [OF demo_wf demo_root _ demo_name(1) demo_root_empty]) simp

definition crowded :: "u8 list" where
  "crowded = concat (replicate 15 (replicate 32 0x41)) @ replicate 32 0"

definition crowded_vol :: fat where
  "crowded_vol = demo_vol\<lparr> m_Partition := Some (demo_part\<lparr> m_ParentDevice := (m_ParentDevice demo_part)\<lparr>
     sectors := (sectors (m_ParentDevice demo_part))(2 := crowded) \<rparr> \<rparr>) \<rparr>"

lemma crowded_length: "length crowded = 512"
  by (simp add: crowded_def length_concat sum_list_replicate)

lemma crowded_sector: "sector (part crowded_vol) i = (if (of_nat i :: u64) = 2 then crowded else sector demo_part i)"
  by (simp add: sector_def crowded_vol_def demo_part_def)

lemma crowded_wf: "wf_fat crowded_vol"
proof -
  have "length (sector (part crowded_vol) i) = 512" for i using crowded_length by (simp add: crowded_sector demo_sector demo_table_def hello_def)
  then show ?thesis by (simp add: wf_fat_def geometry_def wf_partition_def healthy_def) (simp add: crowded_vol_def demo_vol_def demo_part_def)
qed

lemma crowded_entry: "fat_entry crowded_vol c = fat_entry demo_vol c" if "unat c < 128"
proof -
  have "4 * unat c div 512 = 0" using that by simp
  then show ?thesis by (simp add: fat_entry_def crowded_sector) (simp add: crowded_vol_def demo_vol_def)
qed

lemma crowded_chain: "cluster_chain crowded_vol 2 ([] @ 2 # [])"
  using crowded_entry [of 2] by (simp add: demo_entries) (simp add: valid_cluster_def crowded_vol_def demo_vol_def)

lemma crowded_chunks: "chunks32 crowded = replicate 15 (replicate 32 0x41) @ [replicate 32 0]"
proof -
  have "crowded = concat (replicate 15 (replicate 32 0x41) @ [replicate 32 0])" by (simp add: crowded_def)
  moreover have "chunks32 (concat (replicate 15 (replicate 32 0x41) @ [replicate 32 (0 :: u8)])) = replicate 15 (replicate 32 0x41) @ [replicate 32 0]"
    by (rule chunks32_concat) auto
  ultimately show ?thesis by simp
qed

lemma crowded_slots: "sector_slots crowded_vol 2 0 = slots_from (ClusterToLBA 2 crowded_vol) 0 (replicate 15 (replicate 32 0x41) @ [replicate 32 0])"
proof -
  have "cluster_sector crowded_vol 2 = 2" by (simp add: cluster_sector_def crowded_vol_def demo_vol_def)
  then show ?thesis by (simp add: sector_slots_def crowded_sector crowded_chunks del: slots_from_simps)
qed

lemma slots_from_fst: "x \<in> set (slots_from lba k ds) \<Longrightarrow> fst x \<in> set ds"
  by (auto simp: slots_from_def in_set_enumerate_eq)

lemma short_name_whole: "takeWhile (\<lambda>c. c \<noteq> 0) (replicate 8 (0x41 :: u8) @ 0x2E # replicate 3 0x41) = replicate 8 0x41 @ 0x2E # replicate 3 0x41"
  by (subst takeWhile_eq_all_conv) auto

lemma short_names: "\<forall>x \<in> set xs. fst x = replicate 32 0x41 \<or> fst x ! 0 = 0 \<Longrightarrow> \<not> have_lfn l \<Longrightarrow>
    e \<in> set (listing xs l) \<Longrightarrow> length (fst e) = 12"
  by (induction xs l rule: listing.induct) (auto simp: sfn_name_def next_lfn.simps lfn_reset_def short_name_whole split: if_splits)

lemma crowded_lost: "FindFileInDir [0x61] 2 crowded_vol = Some None"
proof -
  have S: "dir_slots crowded_vol [2] = sector_slots crowded_vol 2 0"
    by (simp add: cluster_slots_def crowded_vol_def demo_vol_def)
  have x: "\<forall>x \<in> set (dir_slots crowded_vol [2]). fst x = replicate 32 0x41 \<or> fst x ! 0 = 0"
    unfolding S crowded_slots using slots_from_fst by fastforce
  have "length (fst e) = 12" if "e \<in> set (dir_listing crowded_vol [2])" for e
    using short_names [OF x _ that [unfolded dir_listing_def]] by (simp add: lfn_start_def)
  then have "find (\<lambda>e. same_name (fst e) [0x61]) (dir_listing crowded_vol [2]) = None"
    by (fastforce simp: find_None_iff same_name_def)
  then show ?thesis using FindFileInDir_spec [OF crowded_wf, of 2 "[2]" "[0x61]"] crowded_chain by simp
qed

lemma crowded_no_run: "\<not> run_in_sector crowded_vol 2 i 2"
proof
  assume r: "run_in_sector crowded_vol 2 i 2"
  then have "32 * (i + 2) \<le> 512" by (simp add: run_in_sector_def crowded_vol_def demo_vol_def)
  then have i: "i < 15" by simp
  have "chunks32 crowded ! i = take 32 (drop (32 * i) crowded)" using i by (simp add: chunks32_def crowded_length)
  then have "take 32 (drop (32 * i) crowded) = replicate 32 0x41" using i by (simp add: crowded_chunks nth_append)
  moreover have "32 * i < length crowded" using i by (simp add: crowded_length)
  ultimately have "crowded ! (32 * i) = 0x41" by (metis nth_drop nth_take nth_replicate add.right_neutral less_imp_le zero_less_numeral)
  moreover have "free_at crowded i" using r by (simp add: run_in_sector_def crowded_sector free_run_def)
  ultimately show False by (simp add: free_at_def)
qed

theorem CreateDirectoryEntry_lost_witness:
  "\<exists>lba off fs'. CreateDirectoryEntry 2 [0x61] 0 0 crowded_vol = Some (Some (lba, off), fs') \<and> FindFileInDir [0x61] 2 fs' = Some None"
proof (rule CreateDirectoryEntry_lost [OF crowded_wf crowded_chain demo_name(1) crowded_lost, of 0])
  show "32 * (parts [0x61] + 1) \<le> sec_bytes crowded_vol" by (simp add: demo_name crowded_vol_def demo_vol_def)
  have "fat_entry demo_vol 4 = 0" by (simp add: fat_entry_def demo_vol_def demo_sectors demo_table_def get32_def bytes32_def word32_def)
  then have "4 \<in> free_clusters crowded_vol" using crowded_entry [of 4] by (simp add: free_clusters_def) (simp add: crowded_vol_def demo_vol_def)
  then show "free_clusters crowded_vol \<noteq> {}" by blast
  show "0 < clu_secs crowded_vol" by (simp add: crowded_vol_def demo_vol_def)
  show "ended (sector_slots crowded_vol 2 0)" unfolding crowded_slots slots_from_simps(3) ended_append by (simp add: ended_def)
  have "cluster_sector crowded_vol 2 = 2" by (simp add: cluster_sector_def crowded_vol_def demo_vol_def)
  then show "\<forall>e s i. e \<in> set [] \<and> s < clu_secs crowded_vol \<or> e = 2 \<and> s \<le> 0 \<longrightarrow> \<not> run_in_sector crowded_vol (cluster_sector crowded_vol e + s) i (parts [0x61] + 1)"
    using crowded_no_run by (auto simp: demo_name numeral_2_eq_2)
qed

end
