(* ===== verification/Fat_Path.thy ===== *)
theory Fat_Path
  imports Fat_Create
begin

text \<open>
  The operations of the FAT32 driver that take a path, \<^verbatim>\<open>kernel/filesys/fat32/fat32.cpp\<close>: lookup, creation
  and removal of files and directories, renaming, listing and status. A path is the list of its bytes
  without the terminator; \<open>0x2F\<close> is the slash. The outer \<^const>\<open>None\<close> is a fault of the kernel: an
  overrun buffer, or a pointer to no node.
\<close>

section \<open>Model\<close>

subsection \<open>Nodes and entries\<close>

definition free_vnode :: "u64 \<Rightarrow> fat \<Rightarrow> fat option" where
  "free_vnode a fs = (if vnodes fs a = None then None else Some (fs\<lparr> vnodes := (vnodes fs)(a := None) \<rparr>))"

definition de_cluster :: "u8 list \<Rightarrow> u32" where
  "de_cluster de = push_bit 16 (ucast (word16 (de ! 20) (de ! 21))) OR ucast (word16 (de ! 26) (de ! 27))"

definition de_size :: "u8 list \<Rightarrow> u32" where
  "de_size de = word32 (de ! 28) (de ! 29) (de ! 30) (de ! 31)"

definition de_is_dir :: "u8 list \<Rightarrow> bool" where
  "de_is_dir de \<longleftrightarrow> de ! 11 AND 0x10 \<noteq> 0"

subsection \<open>Lookup\<close>

text \<open>
  The names of a path are searched one after the other, from the root directory on; nothing checks that
  the entry of a name that is not the last is a directory. The inner \<^const>\<open>None\<close> is a name that is not found.
\<close>

function lookup_loop :: "u8 list \<Rightarrow> u32 \<Rightarrow> slot option \<Rightarrow> fat \<Rightarrow> slot option option option" where
  "lookup_loop token currCluster found fs =
     (if token = [] then Some (Some found)
      else
        do { r \<leftarrow> FindFileInDir (takeWhile (\<lambda>c. c \<noteq> 0x2F) token) currCluster fs;
             case r of
               None \<Rightarrow> Some None
             | Some s \<Rightarrow> lookup_loop (dropWhile (\<lambda>c. c = 0x2F) (dropWhile (\<lambda>c. c \<noteq> 0x2F) token)) (de_cluster (fst s)) (Some s) fs })"
  by pat_completeness auto
termination
proof (relation "measure (\<lambda>(token, _). length token)", simp, clarsimp)
  fix token :: "u8 list"
  assume "token \<noteq> []"
  then show "length (dropWhile (\<lambda>c. c = 0x2F) (dropWhile (\<lambda>c. c \<noteq> 0x2F) token)) < length token"
    by (cases token) (auto simp: le_imp_less_Suc length_dropWhile_le intro: le_less_trans [OF length_dropWhile_le])
qed

declare lookup_loop.simps [simp del]

text \<open>The node is allocated first and deleted when nothing is found; 0 is the null pointer.\<close>

definition Lookup :: "u8 list \<Rightarrow> fat \<Rightarrow> (u64 \<times> fat) option" where
  "Lookup path fs =
     (if path = [] then Some (0, fs)
      else
        let a = new_at fs (vnodes fs) in
        if a = 0 then None
        else if path = [0x2F] then
          Some (a, set_vnode a \<lparr> StartCluster = RootDirCluster (m_BPB fs), vn_FileSize = 0, IsDirectory = True, EntryLBA = 0, EntryOffset = 0, vn_RefCount = 1 \<rparr> fs)
        else if 512 \<le> length path then None
        else do {
          r \<leftarrow> lookup_loop (if hd path = 0x2F then tl path else path) (RootDirCluster (m_BPB fs)) None fs;
          case r of
            None \<Rightarrow> Some (0, fs\<lparr> vnodes := (vnodes fs)(a := None) \<rparr>)
          | Some None \<Rightarrow> Some (0, fs\<lparr> vnodes := (vnodes fs)(a := None) \<rparr>)
          | Some (Some (de, lba, off)) \<Rightarrow>
              Some (a, set_vnode a \<lparr> StartCluster = de_cluster de, vn_FileSize = de_size de, IsDirectory = de_is_dir de, EntryLBA = lba, EntryOffset = off, vn_RefCount = 1 \<rparr> fs) })"

text \<open>
  The callers keep the result of a lookup in a 32-bit variable. Looking up a directory yields the
  address so cut and the first cluster, or nothing when it is not found or not a directory.
\<close>

definition node_id :: "u64 \<Rightarrow> u64" where
  "node_id a = ucast (ucast a :: u32)"

definition open_dir :: "u8 list \<Rightarrow> fat \<Rightarrow> ((u64 \<times> u32) option \<times> fat) option" where
  "open_dir path fs =
     do { (a, fs) \<leftarrow> Lookup path fs;
          let a = node_id a;
          if a = 0 then Some (None, fs)
          else do {
            node \<leftarrow> vnodes fs a;
            if IsDirectory node then Some (Some (a, StartCluster node), fs)
            else do { fs \<leftarrow> free_vnode a fs; Some (None, fs) } } }"

subsection \<open>Creating files\<close>

definition last_name :: "u8 list \<Rightarrow> u8 list" where
  "last_name path = rev (takeWhile (\<lambda>c. c \<noteq> 0x2F) (rev path))"

definition parent_cluster :: "u8 list \<Rightarrow> fat \<Rightarrow> (u32 option \<times> fat) option" where
  "parent_cluster path fs =
     (let parentPath = take (length path - length (last_name path) - 1) path in
      if 0x2F \<notin> set path \<or> parentPath = [] then Some (Some (RootDirCluster (m_BPB fs)), fs)
      else do {
        (r, fs) \<leftarrow> open_dir parentPath fs;
        case r of
          None \<Rightarrow> Some (None, fs)
        | Some (a, c) \<Rightarrow> do { fs \<leftarrow> free_vnode a fs; Some (Some c, fs) } })"

definition CreateNode :: "u8 list \<Rightarrow> fat \<Rightarrow> (u64 \<times> fat) option" where
  "CreateNode path fs =
     (if path = [] \<or> path = [0x2F] then Some (0, fs)
      else if 512 \<le> length path then None
      else do {
        (p, fs) \<leftarrow> parent_cluster path fs;
        case p of
          None \<Rightarrow> Some (0, fs)
        | Some c \<Rightarrow>
            if last_name path = [] then Some (0, fs)
            else do {
              (r, fs) \<leftarrow> CreateDirectoryEntry c (last_name path) 0 0 fs;
              case r of
                None \<Rightarrow> Some (0, fs)
              | Some (lba, off) \<Rightarrow>
                  let a = new_at fs (vnodes fs) in
                  if a = 0 then None
                  else Some (a, set_vnode a \<lparr> StartCluster = 0, vn_FileSize = 0, IsDirectory = False, EntryLBA = lba, EntryOffset = off, vn_RefCount = 1 \<rparr> fs) } })"

subsection \<open>Removing and renaming\<close>

text \<open>The path of the parent, of less than 256 bytes, and the name.\<close>

definition split_path :: "u8 list \<Rightarrow> (u8 list \<times> u8 list) option" where
  "split_path path =
     (let name = last_name path; lastSlash = length path - length name - 1 in
      if 256 \<le> lastSlash \<or> name = [] then None
      else Some (if lastSlash = 0 then [0x2F] else take lastSlash path, name))"

text \<open>What the operations do with the parent directory: it is deleted when they return.\<close>

definition with_parent :: "u8 list \<Rightarrow> (u32 \<Rightarrow> u8 list \<Rightarrow> fat \<Rightarrow> (bool \<times> fat) option) \<Rightarrow> fat \<Rightarrow> (bool \<times> fat) option" where
  "with_parent path f fs =
     (case split_path path of
        None \<Rightarrow> Some (False, fs)
      | Some (parentPath, name) \<Rightarrow>
          do { (r, fs) \<leftarrow> open_dir parentPath fs;
               case r of
                 None \<Rightarrow> Some (False, fs)
               | Some (a, c) \<Rightarrow> do { (ok, fs) \<leftarrow> f c name fs; fs \<leftarrow> free_vnode a fs; Some (ok, fs) } })"

definition remove_file :: "u32 \<Rightarrow> u8 list \<Rightarrow> fat \<Rightarrow> (bool \<times> fat) option" where
  "remove_file dirStartCluster name fs =
     do { r \<leftarrow> FindFileInDir name dirStartCluster fs;
          case r of
            None \<Rightarrow> Some (False, fs)
          | Some (de, lba, off) \<Rightarrow>
              if de_is_dir de then Some (False, fs)
              else do {
                (_, fs) \<leftarrow> (if 2 \<le> de_cluster de then FreeClusterChain (de_cluster de) fs else Some (True, fs));
                (_, fs) \<leftarrow> RemoveDirectoryEntryAndLFNs dirStartCluster lba off fs;
                Some (True, fs) } }"

definition fat_Delete :: "u8 list \<Rightarrow> fat \<Rightarrow> (bool \<times> fat) option" where
  "fat_Delete path fs =
     (if m_Partition fs = None \<or> path = [] \<or> hd path \<noteq> 0x2F then Some (False, fs) else with_parent path remove_file fs)"

definition move_entry :: "u8 list \<Rightarrow> u8 list \<Rightarrow> u32 \<Rightarrow> u8 list \<Rightarrow> fat \<Rightarrow> (bool \<times> fat) option" where
  "move_entry newParent newName oldCluster oldName fs =
     do { r \<leftarrow> FindFileInDir oldName oldCluster fs;
          case r of
            None \<Rightarrow> Some (False, fs)
          | Some (oldDe, oldLBA, oldOff) \<Rightarrow>
              if de_is_dir oldDe then Some (False, fs)
              else do {
                (p, fs) \<leftarrow> open_dir newParent fs;
                case p of
                  None \<Rightarrow> Some (False, fs)
                | Some (b, newCluster) \<Rightarrow>
                    do { (ok, fs) \<leftarrow>
                           (do { t \<leftarrow> FindFileInDir newName newCluster fs;
                                 if t \<noteq> None then Some (False, fs)
                                 else do {
                                   (e, fs) \<leftarrow> CreateDirectoryEntry newCluster newName (de_cluster oldDe) (de_size oldDe) fs;
                                   if e = None then Some (False, fs)
                                   else do { (_, fs) \<leftarrow> RemoveDirectoryEntryAndLFNs oldCluster oldLBA oldOff fs; Some (True, fs) } } });
                         fs \<leftarrow> free_vnode b fs;
                         Some (ok, fs) } } }"

definition fat_Rename :: "u8 list \<Rightarrow> u8 list \<Rightarrow> fat \<Rightarrow> (bool \<times> fat) option" where
  "fat_Rename oldPath newPath fs =
     (if m_Partition fs = None \<or> oldPath = [] \<or> newPath = [] \<or> hd oldPath \<noteq> 0x2F \<or> hd newPath \<noteq> 0x2F then Some (False, fs)
      else if split_path oldPath = None then Some (False, fs)
      else
        case split_path newPath of
          None \<Rightarrow> Some (False, fs)
        | Some (newParent, newName) \<Rightarrow> with_parent oldPath (move_entry newParent newName) fs)"

subsection \<open>Directories\<close>

definition dot_entry :: "u8 list \<Rightarrow> u32 \<Rightarrow> u8 list" where
  "dot_entry dots c =
     dots @ replicate (11 - length dots) 0x20 @ [0x10] @ replicate 8 0 @ [ucast (drop_bit 16 c), ucast (drop_bit 24 c)] @ replicate 4 0 @
     [ucast c, ucast (drop_bit 8 c)] @ replicate 4 0"

definition new_dir :: "u32 \<Rightarrow> u8 list \<Rightarrow> fat \<Rightarrow> (bool \<times> fat) option" where
  "new_dir parentCl newName fs =
     do { (newCl, fs) \<leftarrow> AllocateCluster 0 fs;
          if newCl = 0 then Some (False, fs)
          else do {
            (_, fs) \<leftarrow> SetNextCluster newCl 0x0FFFFFFF fs;
            let n = (ucast (bps fs) * ucast (spc fs) :: u32);
            if \<not> dma_ok fs ((n + 4096 - 1) div 4096) then Some (False, fs)
            else do {
              (ok, fs) \<leftarrow> WriteCluster newCl (dot_entry [0x2E] newCl @ dot_entry [0x2E, 0x2E] (if parentCl < 2 then 0 else parentCl) @ replicate (unat n - 64) 0) fs;
              if \<not> ok then Some (False, fs)
              else do {
                (e, fs) \<leftarrow> CreateDirectoryEntry parentCl newName newCl 0 fs;
                case e of
                  None \<Rightarrow> do { (_, fs) \<leftarrow> FreeClusterChain newCl fs; Some (False, fs) }
                | Some (lba, off) \<Rightarrow>
                    do { r \<leftarrow> part_read lba 1 fs;
                         case r of
                           None \<Rightarrow> Some (False, fs)
                         | Some b \<Rightarrow>
                             do { b \<leftarrow> put_bytes (unat off + 11) [0x10] b;
                                  (_, fs) \<leftarrow> part_write lba 1 b fs;
                                  Some (True, fs) } } } } } }"

definition MKDir :: "u8 list \<Rightarrow> fat \<Rightarrow> (bool \<times> fat) option" where
  "MKDir path fs =
     (if path = [] \<or> hd path \<noteq> 0x2F then Some (False, fs)
      else do {
        (a, fs) \<leftarrow> Lookup path fs;
        if node_id a \<noteq> 0 then do { fs \<leftarrow> free_vnode (node_id a) fs; Some (False, fs) }
        else with_parent path new_dir fs })"

definition empty_cb :: "u8 list \<Rightarrow> u8 list \<Rightarrow> u64 \<Rightarrow> u32 \<Rightarrow> bool \<Rightarrow> bool \<times> bool" where
  "empty_cb fname de lba off ctx = (if fname = [0x2E] \<or> fname = [0x2E, 0x2E] then (True, ctx) else (False, True))"

definition remove_dir :: "u32 \<Rightarrow> u8 list \<Rightarrow> fat \<Rightarrow> (bool \<times> fat) option" where
  "remove_dir dirStartCluster name fs =
     do { r \<leftarrow> FindFileInDir name dirStartCluster fs;
          case r of
            None \<Rightarrow> Some (False, fs)
          | Some (de, lba, off) \<Rightarrow>
              if \<not> de_is_dir de then Some (False, fs)
              else do {
                (ok, used) \<leftarrow> ReadDirectory (de_cluster de) empty_cb False fs;
                if \<not> ok \<or> used then Some (False, fs)
                else do {
                  (_, fs) \<leftarrow> (if 2 \<le> de_cluster de then FreeClusterChain (de_cluster de) fs else Some (True, fs));
                  (_, fs) \<leftarrow> RemoveDirectoryEntryAndLFNs dirStartCluster lba off fs;
                  Some (True, fs) } } }"

definition RMDir :: "u8 list \<Rightarrow> fat \<Rightarrow> (bool \<times> fat) option" where
  "RMDir path fs =
     (if m_Partition fs = None \<or> path = [] \<or> hd path \<noteq> 0x2F then Some (False, fs) else with_parent path remove_dir fs)"

text \<open>The names that fit the buffer, each with its terminator; \<^verbatim>\<open>-1\<close> is the inner \<^const>\<open>None\<close>.\<close>

record readdir_ctx =
  rd_out :: "u8 list"
  rd_remain :: u32
  rd_seen :: u64
  rd_overflow :: bool

definition readdir_cb :: "u64 \<Rightarrow> u8 list \<Rightarrow> u8 list \<Rightarrow> u64 \<Rightarrow> u32 \<Rightarrow> readdir_ctx \<Rightarrow> bool \<times> readdir_ctx" where
  "readdir_cb skp name de lba off c =
     (if rd_seen c < skp then (True, c\<lparr> rd_seen := rd_seen c + 1 \<rparr>)
      else
        let needed = (of_nat (length name + 1) :: u32) in
        if rd_remain c < needed then (False, c\<lparr> rd_overflow := True \<rparr>)
        else (True, c\<lparr> rd_seen := rd_seen c + 1, rd_out := rd_out c @ name @ [0], rd_remain := rd_remain c - needed \<rparr>))"

definition fat_ReadDir :: "fat_handle \<Rightarrow> u32 \<Rightarrow> fat \<Rightarrow> (u8 list option \<times> fat_handle) option" where
  "fat_ReadDir dirFile bufferSize fs =
     (if \<not> f_IsDirectory dirFile then Some (None, dirFile)
      else if bufferSize = 0 then Some (Some [], dirFile)
      else
        case f_Node dirFile of
          None \<Rightarrow> None
        | Some n \<Rightarrow>
            do { (ok, c) \<leftarrow> ReadDirectory (ino_StartCluster n) (readdir_cb (f_pos dirFile))
                              \<lparr> rd_out = [], rd_remain = bufferSize, rd_seen = 0, rd_overflow = False \<rparr> fs;
                 Some (if \<not> ok \<and> \<not> rd_overflow c then None else Some (rd_out c), dirFile\<lparr> f_pos := rd_seen c \<rparr>) })"

subsection \<open>Status\<close>

text \<open>The type repeats whether it is a directory, and the creation time is always 0.\<close>

record fat_info =
  fi_Size :: u64
  fi_InodeID :: u64
  fi_IsDirectory :: bool
  fi_Mode :: u32

definition fat_Stat :: "u8 list \<Rightarrow> fat \<Rightarrow> (fat_info option \<times> fat) option" where
  "fat_Stat path fs =
     (if m_Partition fs = None then Some (None, fs)
      else do {
        (a, fs) \<leftarrow> Lookup path fs;
        let a = node_id a;
        if a = 0 then Some (None, fs)
        else do {
          node \<leftarrow> vnodes fs a;
          fs \<leftarrow> free_vnode a fs;
          Some (Some \<lparr> fi_Size = ucast (vn_FileSize node), fi_InodeID = a, fi_IsDirectory = IsDirectory node,
                       fi_Mode = (if IsDirectory node then 493 else 420) \<rparr>, fs) } })"

text \<open>There are no symbolic links.\<close>

definition fat_ReadLink :: "u8 list \<Rightarrow> nat \<Rightarrow> int" where
  "fat_ReadLink path outLinkSize = -1"

section \<open>Lookup of a name of the root directory\<close>

lemma slots_vnodes [simp]: "dir_slots (fs\<lparr> vnodes := V \<rparr>) cs = dir_slots fs cs" "dir_listing (fs\<lparr> vnodes := V \<rparr>) cs = dir_listing fs cs"
proof -
  have "sector_slots (fs\<lparr> vnodes := V \<rparr>) = sector_slots fs" by (simp add: fun_eq_iff sector_slots_def ClusterToLBA_def cluster_sector_def)
  then have "cluster_slots (fs\<lparr> vnodes := V \<rparr>) = cluster_slots fs" by (intro ext) (simp add: cluster_slots_def)
  then show d: "dir_slots (fs\<lparr> vnodes := V \<rparr>) cs = dir_slots fs cs" for cs by (simp add: dir_slots_def)
  show "dir_listing (fs\<lparr> vnodes := V \<rparr>) cs = dir_listing fs cs" by (simp add: dir_listing_def d lfn_start_def)
qed

lemma FindFileInDir_vnodes:
  assumes "wf_fat fs" and "cluster_chain fs c cs"
  shows "FindFileInDir nm c (fs\<lparr> vnodes := V \<rparr>) = FindFileInDir nm c fs"
  using FindFileInDir_spec [OF assms] FindFileInDir_spec [of "fs\<lparr> vnodes := V \<rparr>" c cs] assms by simp

lemma lookup_one:
  assumes "nm \<noteq> []" and "0x2F \<notin> set nm"
  shows "lookup_loop nm c None fs = map_option (map_option Some) (FindFileInDir nm c fs)"
proof -
  have w: "takeWhile (\<lambda>x. x \<noteq> 0x2F) nm = nm" "dropWhile (\<lambda>x. x \<noteq> 0x2F) nm = []" using assms(2) by (auto simp: takeWhile_eq_all_conv)
  have e: "lookup_loop [] d s fs = Some (Some s)" for d s by (simp add: lookup_loop.simps)
  show ?thesis unfolding lookup_loop.simps [of nm] w using assms(1)
    by (cases "FindFileInDir nm c fs") (auto simp: e split: option.splits)
qed

definition entry_node :: "slot \<Rightarrow> FAT32_VNode" where
  "entry_node s = \<lparr> StartCluster = de_cluster (fst s), vn_FileSize = de_size (fst s), IsDirectory = de_is_dir (fst s),
     EntryLBA = fst (snd s), EntryOffset = snd (snd s), vn_RefCount = 1 \<rparr>"

lemma Lookup_root_name:
  assumes "nm \<noteq> []" and "length nm < 511" and "0x2F \<notin> set nm" and "FindFileInDir nm (RootDirCluster (m_BPB fs)) fs = Some r"
    and "new_at fs (vnodes fs) = a" and "a \<noteq> 0"
  shows "Lookup (0x2F # nm) fs = Some (case r of None \<Rightarrow> (0, fs\<lparr> vnodes := (vnodes fs)(a := None) \<rparr>) | Some s \<Rightarrow> (a, set_vnode a (entry_node s) fs))"
  using assms lookup_one [OF assms(1,3)] by (auto simp: Lookup_def Let_def entry_node_def split: option.splits)

lemma last_name_root: "0x2F \<notin> set nm \<Longrightarrow> last_name (0x2F # nm) = nm"
  by (subst last_name_def, simp, subst takeWhile_append2) auto

lemma new_entry_node: "length sfn = 11 \<Longrightarrow> de_cluster (sfn_entry sfn 0 0) = 0 \<and> de_size (sfn_entry sfn 0 0) = 0 \<and> \<not> de_is_dir (sfn_entry sfn 0 0)"
  by (simp add: de_cluster_def de_size_def de_is_dir_def sfn_entry_def nth_append bytes32_def word16_def word32_def)

section \<open>Node addresses above 4 GiB\<close>

definition high_nodes :: "fat \<Rightarrow> bool" where
  "high_nodes fs \<longleftrightarrow> (\<forall>a. vnodes fs a \<noteq> None \<longrightarrow> 2 ^ 32 \<le> unat a) \<and> (\<forall>V. new_at fs V = 0 \<or> 2 ^ 32 \<le> unat (new_at fs V))"

lemma node_id_low: "unat (node_id a) < 2 ^ 32"
  using unsigned_less [of "ucast a :: u32", where ?'a = nat] by (simp add: node_id_def unat_ucast_wide)

lemma Lookup_high:
  assumes "high_nodes fs" and "Lookup path fs = Some (a, fs')"
  shows "high_nodes fs'"
  using assms by (auto simp: Lookup_def Let_def high_nodes_def set_vnode_def split: if_splits option.splits bind_splits)

lemma high_node_id: "high_nodes fs \<Longrightarrow> vnodes fs (node_id a) = None"
  using node_id_low [of a] by (meson high_nodes_def not_le)

lemma open_dir_high:
  assumes "high_nodes fs" and "open_dir path fs = Some (r, fs')"
  shows "r = None"
  using assms high_node_id Lookup_high [OF assms(1)]
  by (auto simp: open_dir_def Let_def split: if_splits bind_splits)

lemma with_parent_high:
  assumes "high_nodes fs" and "with_parent path f fs = Some (ok, fs')"
  shows "\<not> ok"
  using assms open_dir_high [OF assms(1)] by (fastforce simp: with_parent_def split: option.splits bind_splits)

section \<open>Removing an entry\<close>

lemma flush_sector_spec:
  assumes "wf_fat fs" and "unat lba < part_size (part fs)" and "length d = sec_bytes fs" and "\<not> dirty \<longrightarrow> sector (part fs) (unat lba) = d"
  shows "\<exists>fs'. flush_sector lba d dirty fs = Some (True, fs') \<and> changes {unat lba} fs fs' \<and> sector (part fs') (unat lba) = d"
proof (cases dirty)
  case True
  then show ?thesis using write_sector_ok [OF assms(1-3)] by (auto simp: flush_sector_def)
next
  case False
  then show ?thesis using assms(1,4) by (auto simp: flush_sector_def wf_fat_def intro: changes_refl)
qed

text \<open>
  The walk backwards from the loaded sector \<open>i\<close> returns, changes only sectors of the directory up to that
  one, and keeps the bytes of that sector from \<open>offs\<close> on.
\<close>

lemma delete_lfns_spec:
  assumes "wf_fat fs" and "\<forall>j < length lbas. unat (lbas ! j) < part_size (part fs)" and "distinct lbas" and "i < length lbas"
    and "length d = sec_bytes fs" and "offs \<le> sec_bytes fs" and "\<not> dirty \<longrightarrow> sector (part fs) (unat (lbas ! i)) = d"
  shows "\<exists>fs'. delete_lfns lbas i offs d dirty fs = Some fs' \<and> changes (unat ` set (take (Suc i) lbas)) fs fs' \<and>
    (\<forall>j. offs \<le> j \<and> j < sec_bytes fs \<longrightarrow> sector (part fs') (unat (lbas ! i)) ! j = d ! j)"
  using assms
proof (induction lbas i offs d dirty fs rule: delete_lfns.induct)
  case (1 lbas i offs d dirty fs)
  have g: "geometry fs" using 1(3) by (simp add: wf_fat_def)
  let ?D = "\<lambda>r. \<exists>fs'. r = Some fs' \<and> changes (unat ` set (take (Suc i) lbas)) fs fs' \<and>
    (\<forall>j. offs \<le> j \<and> j < sec_bytes fs \<longrightarrow> sector (part fs') (unat (lbas ! i)) ! j = d ! j)"
  have lt: "unat (lbas ! i) < part_size (part fs)" using 1(4,6) by blast
  obtain f1 where f1: "flush_sector (lbas ! i) d dirty fs = Some (True, f1)" "changes {unat (lbas ! i)} fs f1" "sector (part f1) (unat (lbas ! i)) = d"
    using flush_sector_spec [OF 1(3) lt 1(7,9)] by blast
  have in_i: "lbas ! i \<in> set (take (Suc i) lbas)" using 1(6) by (simp add: take_Suc_conv_app_nth)
  have stop: "?D (map_option snd (flush_sector (lbas ! i) d dirty fs))"
    using f1 changes_mono [OF f1(2), of "unat ` set (take (Suc i) lbas)"] in_i by auto
  show ?case
  proof (cases "32 \<le> offs")
    case True
    have r: "get8 d (offs - 32) = Some (d ! (offs - 32))" "get8 d (offs - 32 + 11) = Some (d ! (offs - 32 + 11))"
      using True 1(7,8) by (simp_all add: get8_def)
    show ?thesis
    proof (cases "d ! (offs - 32) = 0 \<or> d ! (offs - 32 + 11) \<noteq> 0x0F")
      case True
      then show ?thesis using \<open>32 \<le> offs\<close> r stop by (subst delete_lfns.simps) simp
    next
      case False
      have "?D (delete_lfns lbas i (offs - 32) (d[offs - 32 := 0xE5]) True fs)"
      proof -
        obtain fs' where R: "delete_lfns lbas i (offs - 32) (d[offs - 32 := 0xE5]) True fs = Some fs'" "changes (unat ` set (take (Suc i) lbas)) fs fs'"
          "\<forall>j. offs - 32 \<le> j \<and> j < sec_bytes fs \<longrightarrow> sector (part fs') (unat (lbas ! i)) ! j = d[offs - 32 := 0xE5] ! j"
          using 1(1) [OF True r False] 1(3-8) le_trans [OF diff_le_self 1(8)] by auto
        have "sector (part fs') (unat (lbas ! i)) ! j = d ! j" if "offs \<le> j" "j < sec_bytes fs" for j
        proof -
          have "offs - 32 \<le> j" "j \<noteq> offs - 32" using that True by simp_all
          then show ?thesis using R(3) that(2) by simp
        qed
        then show ?thesis using R(1,2) by blast
      qed
      then show ?thesis using \<open>32 \<le> offs\<close> r False by (subst delete_lfns.simps) simp
    qed
  next
    case low: False
    show ?thesis
    proof (cases "i = 0")
      case True
      then show ?thesis using low stop by (subst delete_lfns.simps) simp
    next
      case False
      note same = changes_frame [OF f1(2)] changes_derived [OF f1(2)]
      have wf1: "wf_fat f1" using changes_wf [OF f1(2) 1(3)] .
      then have g1: "geometry f1" by (simp add: wf_fat_def)
      have i1: "i - 1 < length lbas" "Suc (i - 1) = i" using 1(6) False by simp_all
      have lt1: "unat (lbas ! (i - 1)) < part_size (part f1)" using 1(4) i1(1) same by simp
      let ?d = "sector (part f1) (unat (lbas ! (i - 1)))" and ?o = "unat (ucast (bps f1) - 32 :: u32)"
      have rd: "part_read (lbas ! (i - 1)) 1 f1 = Some (Some ?d)" using read_sector_ok [OF wf1 lt1] .
      have len: "length ?d = sec_bytes f1" using sector_length [OF g1 lt1] .
      have o: "?o = sec_bytes f1 - 32"
        using geometryD(4) [OF g1] by (simp add: unat_sub word_le_nat_alt unat_ucast_wide)
      then have o32: "?o + 32 = sec_bytes f1" using geometryD(4) [OF g1] by simp
      have r: "get8 ?d ?o = Some (?d ! ?o)" "get8 ?d (?o + 11) = Some (?d ! (?o + 11))" using o32 len by (simp_all add: get8_def)
      have sub: "set (take i lbas) \<subseteq> set (take (Suc i) lbas)" using 1(6) by (auto simp: take_Suc_conv_app_nth)
      show ?thesis
      proof (cases "?d ! ?o = 0 \<or> ?d ! (?o + 11) \<noteq> 0x0F")
        case True
        have "delete_lfns lbas i offs d dirty fs = Some f1" using low False f1(1) rd r True by (subst delete_lfns.simps) (simp add: Let_def)
        then show ?thesis using f1 changes_mono [OF f1(2), of "unat ` set (take (Suc i) lbas)"] in_i by auto
      next
        case more: False
        have "\<exists>fs'. delete_lfns lbas (i - 1) ?o (?d[?o := 0xE5]) True f1 = Some fs' \<and> changes (unat ` set (take (Suc (i - 1)) lbas)) f1 fs' \<and>
            (\<forall>j. ?o \<le> j \<and> j < sec_bytes f1 \<longrightarrow> sector (part fs') (unat (lbas ! (i - 1))) ! j = ?d[?o := 0xE5] ! j)"
          using 1(2) [OF low False f1(1) refl _ rd refl refl r more] wf1 1(4,5) i1(1) same len o32 by auto
        then obtain fs' where R: "delete_lfns lbas (i - 1) ?o (?d[?o := 0xE5]) True f1 = Some fs'" "changes (unat ` set (take i lbas)) f1 fs'"
          unfolding i1(2) by blast
        have "delete_lfns lbas i offs d dirty fs = Some fs'"
          using low False f1(1) rd r more R(1) by (subst delete_lfns.simps) (simp add: Let_def)
        moreover have "changes (unat ` set (take (Suc i) lbas)) fs fs'"
          by (rule changes_mono [OF changes_trans [OF f1(2) R(2)]]) (use in_i sub in auto)
        moreover have "sector (part fs') (unat (lbas ! i)) = d"
        proof -
          have "lbas ! i \<notin> set (take i lbas)" using 1(5,6) by (metis distinct_take take_Suc_conv_app_nth not_distinct_conv_prefix)
          then have "unat (lbas ! i) \<notin> unat ` set (take i lbas)" by (auto simp: word_unat_eq_iff [symmetric])
          then show ?thesis using R(2) f1(3) lt same by (simp add: changes_def)
        qed
        ultimately show ?thesis by blast
      qed
    qed
  qed
qed

lemma dir_clusters_chain:
  assumes "wf_fat fs" and "cluster_chain fs c cs" and "length cs \<le> Suc k"
  shows "dir_clusters k c fs = Some cs"
  using assms(2,3)
proof (induction cs arbitrary: c k)
  case Nil
  then show ?case by (subst dir_clusters.simps) (auto simp: not_less [symmetric])
next
  case (Cons d ds)
  have g: "geometry fs" using assms(1) by (simp add: wf_fat_def)
  have c: "d = c" "valid_cluster fs c" "cluster_chain fs (fat_entry fs c) ds" using Cons.prems by auto
  note V = valid_clusterD [OF g c(2)] and N = GetNextCluster_spec [OF assms(1) valid_clusterD(3) [OF g c(2)]]
  show ?case
  proof (cases k)
    case 0
    then show ?thesis using Cons.prems V N c(1) by (subst dir_clusters.simps) simp
  next
    case (Suc k')
    then show ?thesis using Cons.IH [OF c(3), of k'] Cons.prems V N c(1) by (subst dir_clusters.simps) simp
  qed
qed

definition dir_lbas :: "fat \<Rightarrow> u32 list \<Rightarrow> u64 list" where
  "dir_lbas fs cs = concat (map (\<lambda>c. map (\<lambda>s. ClusterToLBA c fs + of_nat s) [0..<clu_secs fs]) cs)"

lemma dir_lbas_unat:
  assumes "geometry fs" and "\<forall>c \<in> set cs. valid_cluster fs c"
  shows "map unat (dir_lbas fs cs) = concat (map (\<lambda>c. map (\<lambda>s. cluster_sector fs c + s) [0..<clu_secs fs]) cs)"
  unfolding dir_lbas_def map_concat using sector_lba(1) [OF assms(1)] assms(2) by (auto intro!: arg_cong [where f = concat])

lemma dir_lbas_props:
  assumes "geometry fs" and "cluster_chain fs c cs"
  shows "distinct (dir_lbas fs cs)" "\<forall>j < length (dir_lbas fs cs). unat (dir_lbas fs cs ! j) < part_size (part fs)"
    "unat ` set (dir_lbas fs cs) = (\<Union>d \<in> set cs. cluster_region fs d)"
proof -
  have v: "\<forall>d \<in> set cs. valid_cluster fs d" using chain_valid [OF assms(2)] by blast
  note U = dir_lbas_unat [OF assms(1) v]
  have "distinct (concat (map (\<lambda>c. map (\<lambda>s. cluster_sector fs c + s) [0..<clu_secs fs]) xs))" if "distinct xs" "set xs \<subseteq> set cs" for xs
    using that
  proof (induction xs)
    case (Cons x xs)
    have ap: "y = x \<and> t = s" if "y \<in> insert x (set xs)" "s < clu_secs fs" "t < clu_secs fs" "cluster_sector fs x + s = cluster_sector fs y + t" for y s t
      using sectors_apart [OF assms(1), of x y t s] that Cons.prems v by auto
    have "set (map (\<lambda>s. cluster_sector fs x + s) [0..<clu_secs fs]) \<inter> set (concat (map (\<lambda>c. map (\<lambda>s. cluster_sector fs c + s) [0..<clu_secs fs]) xs)) = {}"
      using ap Cons.prems(1) by (fastforce simp del: image_add_atLeastLessThan)
    moreover have "distinct (map (\<lambda>s. cluster_sector fs x + s) [0..<clu_secs fs])" by (simp add: distinct_map inj_on_def)
    ultimately show ?case using Cons by simp
  qed simp
  from this [OF chain_distinct [OF assms] order_refl] show "distinct (dir_lbas fs cs)" unfolding U [symmetric] by (simp add: distinct_map)
  have "set (map unat (dir_lbas fs cs)) = (\<Union>d \<in> set cs. cluster_region fs d)"
    unfolding U by (auto simp: cluster_region_def image_iff)
  then show r: "unat ` set (dir_lbas fs cs) = (\<Union>d \<in> set cs. cluster_region fs d)" by simp
  show "\<forall>j < length (dir_lbas fs cs). unat (dir_lbas fs cs ! j) < part_size (part fs)"
  proof (intro allI impI)
    fix j assume "j < length (dir_lbas fs cs)"
    then have "unat (dir_lbas fs cs ! j) \<in> (\<Union>d \<in> set cs. cluster_region fs d)" using r nth_mem by blast
    then show "unat (dir_lbas fs cs ! j) < part_size (part fs)" using cluster_region_data [OF assms(1)] v by fastforce
  qed
qed

text \<open>The entry is marked as deleted, and nothing outside the directory changes.\<close>

lemma RemoveDirectoryEntryAndLFNs_spec:
  assumes "wf_fat fs" and "cluster_chain fs c cs" and "unat lba \<in> (\<Union>d \<in> set cs. cluster_region fs d)" and "unat off < sec_bytes fs"
  shows "\<exists>fs'. RemoveDirectoryEntryAndLFNs c lba off fs = Some (True, fs') \<and> changes (\<Union>d \<in> set cs. cluster_region fs d) fs fs' \<and>
    sector (part fs') (unat lba) ! unat off = 0xE5"
proof -
  have g: "geometry fs" using assms(1) by (simp add: wf_fat_def)
  let ?S = "\<Union>d \<in> set cs. cluster_region fs d" and ?b = "sector (part fs) (unat lba)"
  have lt: "unat lba < part_size (part fs)" using assms(3) cluster_region_data [OF g] chain_valid [OF assms(2)] by fastforce
  have len: "length ?b = sec_bytes fs" using sector_length [OF g lt] .
  obtain b where b: "put_bytes (unat off) [0xE5] ?b = Some b" "length b = length ?b" using put_bytes_ok [of "unat off" "[0xE5]" ?b] assms(4) len by auto
  then have e5: "b ! unat off = 0xE5" using nth_put_bytes [OF b(1), of "unat off"] assms(4) len by simp
  obtain f1 where f1: "part_write lba 1 b fs = Some (True, f1)" "changes {unat lba} fs f1" "sector (part f1) (unat lba) = b"
    using write_sector_ok [OF assms(1) lt, of b] b(2) len by auto
  note same = changes_frame [OF f1(2)] changes_derived [OF f1(2)]
  have wf1: "wf_fat f1" using changes_wf [OF f1(2) assms(1)] .
  then have g1: "geometry f1" by (simp add: wf_fat_def)
  have S: "{unat lba} \<subseteq> ?S" using assms(3) by simp
  have "?S \<inter> fat_region fs = {}" using cluster_region_fat(1) [OF g chain_valid [OF assms(2)]] by blast
  then have E: "fat_entry f1 d = fat_entry fs d" if "unat d < nclusters fs + 2" for d
    using changes_fat_entry [OF changes_mono [OF f1(2) S] g that] by simp
  have chain1: "cluster_chain f1 c cs"
    using cluster_chain_cong [of f1 fs cs c] assms(2) same E chain_valid [OF assms(2)] by (simp add: valid_cluster_def)
  have dc: "dir_clusters (unat (m_TotalClusters f1 + 2)) c f1 = Some cs"
    using dir_clusters_chain [OF wf1 chain1] guard_length [OF g1 chain1] by simp
  let ?l = "dir_lbas f1 cs"
  note D = dir_lbas_props [OF g1 chain1]
  have R0: "RemoveDirectoryEntryAndLFNs c lba off fs =
      (if ?l = [] \<or> \<not> kmalloc_ok f1 (of_nat (8 * length ?l)) then Some (True, f1)
       else case find_index (\<lambda>a. a = lba) ?l of None \<Rightarrow> Some (True, f1)
         | Some i \<Rightarrow> map_option (Pair True) (delete_lfns ?l i (unat off) b False f1))"
    using read_sector_ok [OF assms(1) lt] read_sector_ok [OF wf1, of lba] lt same b(1) f1(1,3) dc
    by (simp add: RemoveDirectoryEntryAndLFNs_def dir_lbas_def Let_def cong: option.case_cong if_cong)
  show ?thesis
  proof (cases "?l = [] \<or> \<not> kmalloc_ok f1 (of_nat (8 * length ?l)) \<or> find_index (\<lambda>a. a = lba) ?l = None")
    case True
    then have "RemoveDirectoryEntryAndLFNs c lba off fs = Some (True, f1)" unfolding R0 by auto
    then show ?thesis using changes_mono [OF f1(2) S] f1(3) e5 by auto
  next
    case False
    then obtain i where i: "find_index (\<lambda>a. a = lba) ?l = Some i" by blast
    then have il: "i < length ?l" "?l ! i = lba" using find_index_SomeD [OF i] by auto
    obtain fs' where F: "delete_lfns ?l i (unat off) b False f1 = Some fs'" "changes (unat ` set (take (Suc i) ?l)) f1 fs'"
      "\<forall>j. unat off \<le> j \<and> j < sec_bytes f1 \<longrightarrow> sector (part fs') (unat (?l ! i)) ! j = b ! j"
      using delete_lfns_spec [OF wf1 D(2,1) il(1), of b "unat off" False] il(2) f1(3) b(2) len assms(4) same by auto
    have "RemoveDirectoryEntryAndLFNs c lba off fs = Some (True, fs')" unfolding R0 using False i F(1) by simp
    moreover have "changes ?S fs fs'"
    proof (rule changes_mono [OF changes_trans [OF f1(2) F(2)]])
      have "unat ` set (take (Suc i) ?l) \<subseteq> unat ` set ?l" by (intro image_mono set_take_subset)
      then show "{unat lba} \<union> unat ` set (take (Suc i) ?l) \<subseteq> ?S" using S D(3) same by auto
    qed
    moreover have "sector (part fs') (unat lba) ! unat off = 0xE5" using F(3) il(2) assms(4) e5 same by simp
    ultimately show ?thesis by blast
  qed
qed

section \<open>Deleting a file\<close>

lemma listing_slots: "e \<in> set (listing xs l) \<Longrightarrow> snd e \<in> set xs"
  by (induction xs l rule: listing.induct) (auto split: if_splits)

lemma slot_place:
  assumes "geometry fs" and "cluster_chain fs c cs" and "(de, lba, off) \<in> set (dir_slots fs cs)"
  shows "unat lba \<in> (\<Union>d \<in> set cs. cluster_region fs d)" "unat off < sec_bytes fs"
proof -
  obtain d t where d: "d \<in> set cs" "t < clu_secs fs" "(de, lba, off) \<in> set (sector_slots fs d t)"
    using assms(3) by (auto simp: dir_slots_def cluster_slots_def)
  have v: "valid_cluster fs d" using chain_valid [OF assms(2) d(1)] .
  obtain q where q: "sec_bytes fs = 32 * q" using geometryD(5) [OF assms(1)] by (auto simp: dvd_def)
  have n: "length (chunks32 (sector (part fs) (cluster_sector fs d + t))) = q"
    using sector_chunks [OF assms(1) v d(2)] q by (simp add: chunks32_def)
  obtain i where i: "i < q" "lba = ClusterToLBA d fs + of_nat t" "off = of_nat (32 * i)"
    using d(3) n by (auto simp: sector_slots_def slots_from_def in_set_enumerate_eq)
  show "unat lba \<in> (\<Union>d \<in> set cs. cluster_region fs d)"
    using d(1,2) i(2) sector_lba(1) [OF assms(1) v d(2)] by (intro UN_I [of d]) (simp_all add: cluster_region_def)
  have "sec_bytes fs < 2 ^ 16" using unsigned_less [of "bps fs", where ?'a = nat] by simp
  then have "32 * i < 2 ^ 32" using i(1) q by simp
  then have "unat off = 32 * i" unfolding i(3) by (simp add: unat_of_nat take_bit_nat_eq_self del: of_nat_mult)
  then show "unat off < sec_bytes fs" using i(1) q by simp
qed

lemma found_place:
  assumes "wf_fat fs" and "cluster_chain fs c cs" and "FindFileInDir nm c fs = Some (Some (de, lba, off))"
  shows "unat lba \<in> (\<Union>d \<in> set cs. cluster_region fs d)" "unat off < sec_bytes fs"
proof -
  have g: "geometry fs" using assms(1) by (simp add: wf_fat_def)
  have "map_option snd (find (\<lambda>e. same_name (fst e) nm) (dir_listing fs cs)) = Some (de, lba, off)"
    using FindFileInDir_spec [OF assms(1,2), of nm] assms(3) by simp
  then obtain e where "find (\<lambda>e. same_name (fst e) nm) (dir_listing fs cs) = Some e" "snd e = (de, lba, off)"
    unfolding map_option_eq_Some by blast
  then have "(de, lba, off) \<in> set (dir_slots fs cs)"
    using listing_slots [of e "dir_slots fs cs" "lfn_start fs"] by (metis dir_listing_def find_Some_iff nth_mem)
  from slot_place [OF g assms(2) this] show "unat lba \<in> (\<Union>d \<in> set cs. cluster_region fs d)" "unat off < sec_bytes fs" by blast+
qed

text \<open>The clusters of a file whose entry is \<open>de\<close>.\<close>

definition entry_chain :: "fat \<Rightarrow> u8 list \<Rightarrow> u32 list \<Rightarrow> bool" where
  "entry_chain fs de fcs \<longleftrightarrow> (if de_cluster de < 2 then fcs = [] else fcs \<noteq> [] \<and> cluster_chain fs (de_cluster de) fcs)"

lemma free_entry_chain:
  assumes "wf_fat fs" and "entry_chain fs de fcs"
  shows "\<exists>ok fs'. (if 2 \<le> de_cluster de then FreeClusterChain (de_cluster de) fs else Some (True, fs)) = Some (ok, fs') \<and>
    changes {0 ..< data_base fs} fs fs' \<and> (\<forall>d. unat d < nclusters fs + 2 \<longrightarrow> fat_entry fs' d = (if d \<in> set fcs then 0 else fat_entry fs d))"
proof (cases "de_cluster de < 2")
  case True
  then show ?thesis using assms by (auto simp: entry_chain_def wf_fat_def not_le [symmetric] intro: changes_refl)
next
  case False
  then have "cluster_chain fs (de_cluster de) fcs" "fcs \<noteq> []" using assms(2) by (simp_all add: entry_chain_def)
  then obtain fs' where "FreeClusterChain (de_cluster de) fs = Some (True, fs')" "changes {0 ..< data_base fs} fs fs'"
    "\<forall>d. unat d < nclusters fs + 2 \<longrightarrow> fat_entry fs' d = (if d \<in> set fcs then 0 else fat_entry fs d)"
    by (rule FreeClusterChain_spec [OF assms(1)])
  then show ?thesis using False by (auto simp: not_less)
qed

lemma remove_file_spec:
  assumes "wf_fat fs" and "cluster_chain fs c cs" and "FindFileInDir nm c fs = Some (Some (de, lba, off))" and "\<not> de_is_dir de"
    and "entry_chain fs de fcs" and "set fcs \<inter> set cs = {}"
  shows "\<exists>fs'. remove_file c nm fs = Some (True, fs') \<and> keeps_setup fs fs' \<and> cluster_chain fs' c cs \<and>
    (\<forall>d. valid_cluster fs d \<longrightarrow> fat_entry fs' d = (if d \<in> set fcs then 0 else fat_entry fs d)) \<and>
    (\<forall>d. valid_cluster fs d \<and> d \<notin> set cs \<longrightarrow> cluster_data fs' d = cluster_data fs d) \<and> sector (part fs') (unat lba) ! unat off = 0xE5"
proof -
  have g: "geometry fs" using assms(1) by (simp add: wf_fat_def)
  let ?S = "\<Union>d \<in> set cs. cluster_region fs d"
  have v: "valid_cluster fs d" if "d \<in> set cs" for d using chain_valid [OF assms(2) that] .
  obtain ok f1 where f1: "(if 2 \<le> de_cluster de then FreeClusterChain (de_cluster de) fs else Some (True, fs)) = Some (ok, f1)"
    "changes {0 ..< data_base fs} fs f1" "\<forall>d. unat d < nclusters fs + 2 \<longrightarrow> fat_entry f1 d = (if d \<in> set fcs then 0 else fat_entry fs d)"
    using free_entry_chain [OF assms(1,5)] by blast
  note same = changes_frame [OF f1(2)] changes_derived [OF f1(2)]
  have wf1: "wf_fat f1" using changes_wf [OF f1(2) assms(1)] .
  then have g1: "geometry f1" by (simp add: wf_fat_def)
  have "fat_entry f1 d = fat_entry fs d" if "d \<in> set cs" for d
    using f1(3) v [OF that] assms(6) that by (auto simp: valid_cluster_def)
  then have chain1: "cluster_chain f1 c cs" using cluster_chain_cong [of f1 fs cs c] assms(2) same by simp
  note P = found_place [OF assms(1-3)]
  have P1: "unat lba \<in> (\<Union>d \<in> set cs. cluster_region f1 d)" "unat off < sec_bytes f1" using P same by simp_all
  obtain fs' where F: "RemoveDirectoryEntryAndLFNs c lba off f1 = Some (True, fs')" "changes ?S f1 fs'" "sector (part fs') (unat lba) ! unat off = 0xE5"
    using RemoveDirectoryEntryAndLFNs_spec [OF wf1 chain1 P1] same by auto
  note same' = changes_frame [OF F(2)] changes_derived [OF F(2)]
  have "?S \<inter> fat_region f1 = {}" using cluster_region_fat(1) [OF g v] same by auto
  then have E: "fat_entry fs' d = fat_entry f1 d" if "valid_cluster fs d" for d
    using changes_fat_entry [OF F(2) g1, of d] that same by (simp add: valid_cluster_def)
  have "cluster_chain fs' c cs" using cluster_chain_cong [of fs' f1 cs c] chain1 same' E v by simp
  moreover have "cluster_data fs' d = cluster_data fs d" if d: "valid_cluster fs d" "d \<notin> set cs" for d
  proof -
    have "cluster_region fs e \<inter> cluster_region fs d = {}" if "e \<in> set cs" for e
      using cluster_regions_disjoint [of e d fs] v [OF that] d that valid_clusterD(1) [OF g] by metis
    then have "cluster_data fs' d = cluster_data f1 d" using changes_cluster_data [OF F(2) g1, of d] d(1) same by auto
    also have "\<dots> = cluster_data fs d" using changes_cluster_data [OF f1(2) g d(1)] cluster_region_fat(2) [OF g d(1)] by (simp add: Int_commute)
    finally show ?thesis .
  qed
  moreover have "remove_file c nm fs = Some (True, fs')" using f1(1) F(1) assms(3,4) by (simp add: remove_file_def)
  moreover have "keeps_setup fs fs'" using same same' by (simp add: keeps_setup_def)
  moreover have "\<forall>d. valid_cluster fs d \<longrightarrow> fat_entry fs' d = (if d \<in> set fcs then 0 else fat_entry fs d)"
    using E f1(3) by (simp add: valid_cluster_def)
  ultimately show ?thesis using F(3) by blast
qed

section \<open>Properties\<close>

text \<open>C18. Creating a file in the root directory, under an ASCII name without slashes that is not there yet,
  returns; it fails only when the slots of the name do not fit in a sector or the volume is full. The
  node it returns is an empty file whose entry is in the directory, and looking the path up afterwards
  gives a node with the same contents, unless a slot before the entry is an end-of-directory mark:
  then the path is not found.\<close>

theorem CreateNode_Lookup:
  assumes "wf_fat fs" and "cluster_chain fs (RootDirCluster (m_BPB fs)) cs" and "cs \<noteq> []" and "ascii_name nm" and "0x2F \<notin> set nm"
    and "FindFileInDir nm (RootDirCluster (m_BPB fs)) fs = Some None" and "\<forall>V. new_at fs V \<noteq> 0"
  shows "\<exists>a fs' ext. CreateNode (0x2F # nm) fs = Some (a, fs') \<and> cluster_chain fs' (RootDirCluster (m_BPB fs)) (cs @ ext) \<and>
    (if a = 0 then sec_bytes fs < 32 * (parts nm + 1) \<or> free_clusters fs = {}
     else \<exists>node us vs. vnodes fs' a = Some node \<and> StartCluster node = 0 \<and> vn_FileSize node = 0 \<and> \<not> IsDirectory node \<and>
       dir_slots fs' (cs @ ext) = us @ (sfn_entry (MakeSFNFromName nm) 0 0, EntryLBA node, EntryOffset node) # vs \<and>
       Lookup (0x2F # nm) fs' =
         (let b = new_at fs' (vnodes fs') in Some (if ended us then (0, fs'\<lparr> vnodes := (vnodes fs')(b := None) \<rparr>) else (b, set_vnode b node fs'))))"
proof -
  let ?R = "RootDirCluster (m_BPB fs)" and ?e = "sfn_entry (MakeSFNFromName nm) 0 0"
  have nm: "nm \<noteq> []" "length nm < 511" using assms(4) by (auto simp: ascii_name_def)
  obtain r f1 ext where C: "CreateDirectoryEntry ?R nm 0 0 fs = Some (r, f1)" "cluster_chain f1 ?R (cs @ ext)" "keeps_setup fs f1" "wf_fat f1"
    "case r of
       None \<Rightarrow> FindFileInDir nm ?R f1 = Some None \<and> (sec_bytes fs < 32 * (parts nm + 1) \<or> f1 = fs \<and> free_clusters fs = {})
     | Some (lba, off) \<Rightarrow> \<exists>us vs. dir_slots f1 (cs @ ext) = us @ (?e, lba, off) # vs \<and>
         FindFileInDir nm ?R f1 = Some (if ended us then None else Some (?e, lba, off))"
    using create_entry [OF assms(1-4,6), of 0 0] by blast
  have K: "m_BPB f1 = m_BPB fs" "new_at f1 = new_at fs" using C(3) by (simp_all add: keeps_setup_def)
  have P: "parent_cluster (0x2F # nm) fs = Some (Some ?R, fs)" by (simp add: parent_cluster_def last_name_root [OF assms(5)])
  have N: "CreateNode (0x2F # nm) fs = Some (case r of None \<Rightarrow> (0, f1) | Some (lba, off) \<Rightarrow> (new_at f1 (vnodes f1), set_vnode (new_at f1 (vnodes f1)) (entry_node (?e, lba, off)) f1))"
    using nm new_entry_node [OF MakeSFN_fields(1) [OF assms(4)]] assms(7) K(2)
    by (auto simp: CreateNode_def P last_name_root [OF assms(5)] C(1) entry_node_def Let_def split: option.splits)
  show ?thesis
  proof (cases r)
    case None
    then show ?thesis using N C(2,5) by (intro exI [of _ 0] exI [of _ f1] exI [of _ ext]) auto
  next
    case (Some p)
    obtain lba off where p: "p = (lba, off)" by fastforce
    then obtain us vs where S: "dir_slots f1 (cs @ ext) = us @ (?e, lba, off) # vs"
      "FindFileInDir nm ?R f1 = Some (if ended us then None else Some (?e, lba, off))" using C(5) Some by auto
    let ?a = "new_at f1 (vnodes f1)" and ?n = "entry_node (?e, lba, off)"
    let ?f = "set_vnode ?a ?n f1"
    have F: "FindFileInDir nm (RootDirCluster (m_BPB ?f)) ?f = Some (if ended us then None else Some (?e, lba, off))"
      using S(2) FindFileInDir_vnodes [OF C(4,2)] K(1) by (simp add: set_vnode_def)
    have "new_at ?f (vnodes ?f) \<noteq> 0" "?a \<noteq> 0" using assms(7) K(2) by (simp_all add: set_vnode_def)
    moreover from Lookup_root_name [OF nm assms(5) F refl this(1)]
    have "Lookup (0x2F # nm) ?f = (let b = new_at ?f (vnodes ?f) in Some (if ended us then (0, ?f\<lparr> vnodes := (vnodes ?f)(b := None) \<rparr>) else (b, set_vnode b ?n ?f)))"
      by (simp add: Let_def)
    moreover have "vnodes ?f ?a = Some ?n" "dir_slots ?f (cs @ ext) = us @ (?e, EntryLBA ?n, EntryOffset ?n) # vs" "cluster_chain ?f ?R (cs @ ext)"
      using S(1) C(2) by (simp_all add: set_vnode_def entry_node_def)
    moreover have "StartCluster ?n = 0 \<and> vn_FileSize ?n = 0 \<and> \<not> IsDirectory ?n"
      using new_entry_node [OF MakeSFN_fields(1) [OF assms(4)]] by (simp add: entry_node_def)
    ultimately show ?thesis using N Some p by (intro exI [of _ ?a] exI [of _ ?f] exI [of _ ext]) auto
  qed
qed


text \<open>C20. When the heap lies above 4 GiB, no path operation that keeps its node in a 32-bit variable ever
  succeeds: status, deletion, creation and removal of directories and renaming report failure or fault.\<close>

theorem path_operations_cut_pointers:
  assumes "high_nodes fs"
  shows "(\<forall>r fs'. fat_Stat path fs = Some (r, fs') \<longrightarrow> r = None) \<and> (\<forall>ok fs'. fat_Delete path fs = Some (ok, fs') \<longrightarrow> \<not> ok) \<and>
    (\<forall>ok fs'. MKDir path fs = Some (ok, fs') \<longrightarrow> \<not> ok) \<and> (\<forall>ok fs'. RMDir path fs = Some (ok, fs') \<longrightarrow> \<not> ok) \<and>
    (\<forall>ok fs'. fat_Rename path newPath fs = Some (ok, fs') \<longrightarrow> \<not> ok)"
proof (intro conjI allI impI)
  show "r = None" if "fat_Stat path fs = Some (r, fs')" for r fs'
    using that high_node_id Lookup_high [OF assms] by (auto simp: fat_Stat_def Let_def split: if_splits bind_splits)
  show "\<not> ok" if "fat_Delete path fs = Some (ok, fs')" for ok fs'
    using that with_parent_high [OF assms] by (auto simp: fat_Delete_def split: if_splits)
  show "\<not> ok" if "MKDir path fs = Some (ok, fs')" for ok fs'
    using that with_parent_high Lookup_high [OF assms] by (fastforce simp: MKDir_def split: if_splits bind_splits)
  show "\<not> ok" if "RMDir path fs = Some (ok, fs')" for ok fs'
    using that with_parent_high [OF assms] by (auto simp: RMDir_def split: if_splits)
  show "\<not> ok" if "fat_Rename path newPath fs = Some (ok, fs')" for ok fs'
    using that with_parent_high [OF assms] by (auto simp: fat_Rename_def split: if_splits option.splits)
qed

text \<open>Listing a FAT32 directory fails: the driver starts at the inode's own start cluster, which
  filling the inode does not set, so that on a fresh inode the listing of a directory is refused.\<close>

theorem ReadDir_refused:
  assumes "m_Partition fs \<noteq> None" and "ino_StartCluster n = 0" and "PopulateInode num fs n = Some (True, n')"
    and "f_Node file = Some n'" and "f_IsDirectory file" and "bufferSize \<noteq> 0"
  shows "fat_ReadDir file bufferSize fs = Some (None, file\<lparr> f_pos := 0 \<rparr>)"
proof -
  have "ino_StartCluster n' = 0" using assms(2,3) by (auto simp: PopulateInode_def split: if_splits bind_splits)
  moreover have "dir_loop cb 0 l ctx fs = Some (False, ctx)" for cb :: "u8 list \<Rightarrow> u8 list \<Rightarrow> u64 \<Rightarrow> u32 \<Rightarrow> readdir_ctx \<Rightarrow> bool \<times> readdir_ctx" and l ctx
    by (subst dir_loop.simps) (simp add: ClusterToLBA_def)
  ultimately show ?thesis using assms by (simp add: fat_ReadDir_def ReadDirectory_def)
qed

section \<open>Witnesses\<close>

lemma demo_root_cluster: "RootDirCluster (m_BPB demo_vol) = 2" "\<forall>V. new_at demo_vol V = 0x2000"
  by (simp_all add: demo_vol_def)

theorem CreateNode_Lookup_witness:
  "\<exists>a fs' ext. CreateNode (0x2F # [0x61]) demo_vol = Some (a, fs') \<and> cluster_chain fs' (RootDirCluster (m_BPB demo_vol)) ([2] @ ext) \<and>
    (if a = 0 then sec_bytes demo_vol < 32 * (parts [0x61] + 1) \<or> free_clusters demo_vol = {}
     else \<exists>node us vs. vnodes fs' a = Some node \<and> StartCluster node = 0 \<and> vn_FileSize node = 0 \<and> \<not> IsDirectory node \<and>
       dir_slots fs' ([2] @ ext) = us @ (sfn_entry (MakeSFNFromName [0x61]) 0 0, EntryLBA node, EntryOffset node) # vs \<and>
       Lookup (0x2F # [0x61]) fs' =
         (let b = new_at fs' (vnodes fs') in Some (if ended us then (0, fs'\<lparr> vnodes := (vnodes fs')(b := None) \<rparr>) else (b, set_vnode b node fs'))))"
  by (rule CreateNode_Lookup [OF demo_wf _ _ demo_name(1)]) (use demo_root demo_root_empty demo_root_cluster in simp_all)

text \<open>The demonstration volume with an entry for its file in the root directory.\<close>

definition file_entry :: "u8 list" where
  "file_entry = [0x41] @ replicate 10 0x20 @ [0x20] @ replicate 8 0 @ [0, 0] @ replicate 4 0 @ [3, 0] @ [5, 0, 0, 0]"

definition filed_vol :: fat where
  "filed_vol = demo_vol\<lparr> m_Partition := Some (demo_part\<lparr> m_ParentDevice := (m_ParentDevice demo_part)\<lparr>
     sectors := (sectors (m_ParentDevice demo_part))(2 := file_entry @ replicate 480 0) \<rparr> \<rparr>) \<rparr>"

lemma file_entry_fields: "length file_entry = 32" "file_entry ! 0 = 0x41" "file_entry ! 11 = 0x20" "sfn_name file_entry = [0x41]"
    "de_cluster file_entry = 3" "\<not> de_is_dir file_entry"
  by (simp_all add: file_entry_def sfn_name_def de_cluster_def de_is_dir_def word16_def nth_append)

lemma filed_sector: "sector (part filed_vol) i = (if (of_nat i :: u64) = 2 then file_entry @ replicate 480 0 else sector demo_part i)"
  by (simp add: sector_def filed_vol_def demo_part_def)

lemma filed_wf: "wf_fat filed_vol"
proof -
  have "length (sector (part filed_vol) i) = 512" for i by (simp add: filed_sector file_entry_fields demo_sector demo_table_def hello_def)
  then show ?thesis by (simp add: wf_fat_def geometry_def wf_partition_def healthy_def) (simp add: filed_vol_def demo_vol_def demo_part_def)
qed

lemma filed_entry: "fat_entry filed_vol c = fat_entry demo_vol c" if "unat c < 128"
proof -
  have "4 * unat c div 512 = 0" using that by simp
  then show ?thesis by (simp add: fat_entry_def filed_sector) (simp add: filed_vol_def demo_vol_def)
qed

lemma filed_chains: "cluster_chain filed_vol 2 [2]" "cluster_chain filed_vol 3 [3]"
  using filed_entry [of 2] filed_entry [of 3] by (simp_all add: demo_entries) (simp_all add: valid_cluster_def filed_vol_def demo_vol_def)

lemma filed_found: "FindFileInDir [0x41] 2 filed_vol = Some (Some (file_entry, 2, 0))"
proof -
  have c: "cluster_sector filed_vol 2 = 2" "ClusterToLBA 2 filed_vol = 2" "clu_secs filed_vol = 1"
    by (simp_all add: cluster_sector_def ClusterToLBA_def filed_vol_def demo_vol_def)
  have ch: "chunks32 (file_entry @ replicate 480 0) = file_entry # chunks32 (replicate 480 0)"
    using chunks32_append [of file_entry "replicate 480 0"] file_entry_fields(1) by (simp add: chunks32_def)
  have "dir_slots filed_vol [2] = (file_entry, 2, 0) # slots_from 2 1 (chunks32 (replicate 480 0))"
    by (simp add: cluster_slots_def c sector_slots_def filed_sector ch)
  then have "dir_listing filed_vol [2] = ([0x41], file_entry, 2, 0) # listing (slots_from 2 1 (chunks32 (replicate 480 0))) (next_lfn file_entry (lfn_start filed_vol))"
    by (simp add: dir_listing_def file_entry_fields) (simp add: lfn_start_def)
  then show ?thesis using FindFileInDir_spec [OF filed_wf filed_chains(1), of "[0x41]"] by simp
qed


definition high_vol :: fat where
  "high_vol = demo_vol\<lparr> vnodes := Map.empty, new_at := (\<lambda>V. 0xFFFF800000100000) \<rparr>"

theorem path_operations_cut_pointers_witness:
  "high_nodes high_vol \<and> (\<exists>fs'. Lookup [0x2F] high_vol = Some (0xFFFF800000100000, fs')) \<and>
    \<not> (\<exists>i fs'. fat_Stat [0x2F] high_vol = Some (Some i, fs')) \<and>
    \<not> (\<exists>fs'. fat_Delete [0x2F, 0x61] high_vol = Some (True, fs')) \<and>
    \<not> (\<exists>fs'. MKDir [0x2F, 0x61] high_vol = Some (True, fs')) \<and>
    \<not> (\<exists>fs'. RMDir [0x2F, 0x61] high_vol = Some (True, fs')) \<and>
    \<not> (\<exists>fs'. fat_Rename [0x2F, 0x61] [0x2F, 0x62] high_vol = Some (True, fs'))"
proof -
  have h: "high_nodes high_vol" by (simp add: high_nodes_def high_vol_def)
  have l: "\<exists>fs'. Lookup [0x2F] high_vol = Some (0xFFFF800000100000, fs')" by (simp add: Lookup_def high_vol_def)
  show ?thesis
    using h l path_operations_cut_pointers [OF h, of "[0x2F]" "[]"] path_operations_cut_pointers [OF h, of "[0x2F, 0x61]" "[0x2F, 0x62]"]
    by auto
qed

definition dir_inode :: fat_node where
  "dir_inode = \<lparr> ino_ID = 0, ino_FileSize = 0, ino_IsDir = False, ino_StartCluster = 0 \<rparr>"

definition dir_file :: fat_handle where
  "dir_file = \<lparr> f_pos = 0, f_Node = Some (dir_inode\<lparr> ino_IsDir := False, ino_FileSize := 5, ino_ID := 0x1000 \<rparr>), f_IsDirectory = True \<rparr>"

theorem ReadDir_refused_witness: "fat_ReadDir dir_file 64 demo_vol = Some (None, dir_file\<lparr> f_pos := 0 \<rparr>)"
proof (rule ReadDir_refused)
  show "PopulateInode 0x1000 demo_vol dir_inode = Some (True, dir_inode\<lparr> ino_IsDir := False, ino_FileSize := 5, ino_ID := 0x1000 \<rparr>)"
    by (simp add: PopulateInode_def demo_vol_def demo_vnode_def)
qed (simp_all add: demo_vol_def dir_inode_def dir_file_def)

end
