(* ===== verification/Spec2Isabelle.thy ===== *)
theory Spec2Isabelle
  imports User_Copy Pipe_Fs C_Format Vfs_Files Task_Sync Kmalloc_Heap Net_Input Fat_Path
begin

text \<open>
  \<^bold>\<open>R-OS kernel: verification development\<close>

  R-OS is a 64-bit x86 kernel in C++. Physical frames are handed out by a bitmap allocator, kernel virtual
  ranges by a free list, and the page tables connect the two; copies to and from user space walk the
  tables by hand. Tasks are run by a fair scheduler whose ready queue is an intrusive red-black tree;
  sleeping tasks wait in a timer wheel, blocked ones in wait queues. The virtual file system resolves
  canonical paths to mounted drivers and counts the users of cached inodes; pipes and FAT32 are two of those
  drivers, and shared memory regions sit directly on the frame allocator. The network stack turns frames into
  datagrams and TCP streams and configures itself by DHCP and DNS. The paths below are relative to \<^verbatim>\<open>src/\<close>.

  \<^bold>\<open>How code becomes definitions.\<close> A pointer to a kernel object is its address or its index in a heap that
  is a map or a function; \<^verbatim>\<open>nullptr\<close> is 0 or \<^verbatim>\<open>None\<close>. Machine integers are words of their width, so that
  additions wrap as they do in C++; natural numbers stand for quantities the code bounds before it uses
  them. An access outside an object, a null dereference and a call to \<^verbatim>\<open>Printk::Panic\<close> are error values, so
  each statement that an operation returns \<^verbatim>\<open>Some\<close> or \<^verbatim>\<open>Inr\<close> is a statement of memory safety too. Loops that follow
  pointers are \<^verbatim>\<open>partial_function (option)\<close>: not returning is \<^verbatim>\<open>None\<close>, and that they do return is proved. No
  definition has fuel. The interrupt flag and the spinlocks that guard a whole operation do not appear,
  except where a property is about their order (the pipe's sleep, the global lock of the mount table).

  \<^bold>\<open>Memory.\<close>
  \<^item> \<^verbatim>\<open>Kernel_Prelude\<close>: integer types, page constants, the result type and its bind, the lemma collections.
  \<^item> \<^verbatim>\<open>Phys_Alloc\<close>, for \<^verbatim>\<open>kernel/mm/physicalalloc.cpp\<close>: the two frame bitmaps as byte lists. The locale
    \<^verbatim>\<open>slot_bitmap\<close> has the laws of the bit operations; allocation is sound, first fit and complete, freeing
    undoes it, and start-up frees exactly the usable frames of the firmware's map.
  \<^item> \<^verbatim>\<open>Frame_Source\<close>: the locale \<^verbatim>\<open>frame_source\<close>, what a client of the frame allocator relies on, interpreted
    by \<^verbatim>\<open>Phys_Alloc\<close> and used by \<^verbatim>\<open>Shm\<close>, for \<^verbatim>\<open>kernel/mm/shm/shm.cpp\<close>: regions stay disjoint.
  \<^item> \<^verbatim>\<open>Virt_Alloc\<close>, for \<^verbatim>\<open>kernel/mm/virtualalloc.cpp\<close>: the sorted free list with its pool of nodes.
  \<^item> \<^verbatim>\<open>Phys_Memory\<close> and \<^verbatim>\<open>Paging_Tables\<close>, for \<^verbatim>\<open>kernel/mm/mappage.cpp\<close>: a byte memory and the four-level tables
    in it, with frames from \<^verbatim>\<open>Phys_Alloc\<close> and virtual pages given back to \<^verbatim>\<open>Virt_Alloc\<close>. The abstraction is the
    partial translation of addresses; mapping and unmapping change exactly the pages they name.
  \<^item> \<^verbatim>\<open>User_Copy\<close>, for \<^verbatim>\<open>kernel/mm/usercopy.cpp\<close>: both copies succeed exactly on accessible ranges.
  \<^item> \<^verbatim>\<open>Kmalloc\<close>, \<^verbatim>\<open>Kmalloc_Safety\<close>, \<^verbatim>\<open>Kmalloc_Heap\<close>, for \<^verbatim>\<open>kernel/mm/kmalloc/kmalloc.cpp\<close>: the heap with its headers in
    byte memory, grown page by page through the two allocators and the page tables. In every run of
    allocations, frees and writes, live blocks are disjoint and keep their contents.

  \<^bold>\<open>Tasks.\<close>
  \<^item> \<^verbatim>\<open>Rb_Tree\<close>, \<^verbatim>\<open>Rb_Insert\<close>, \<^verbatim>\<open>Rb_Erase\<close>, \<^verbatim>\<open>Rb_Unlink\<close>, for \<^verbatim>\<open>kernel/task/rbt.cpp\<close>: the pointer operations on a heap
    of tasks, the representation of a tree in that heap, and the red-black invariant through both
    repairs, which end.
  \<^item> \<^verbatim>\<open>Ready_Queue\<close>: the locale \<^verbatim>\<open>ready_queue\<close>, a stable priority queue and what its clients conclude from it;
    \<^verbatim>\<open>Run_Queue\<close>, for the run queue of \<^verbatim>\<open>kernel/task/scheduler.cpp\<close>, interprets it on the tree.
  \<^item> \<^verbatim>\<open>Sleep_Wheel\<close>: the timer wheel of the same file; exactly the due sleepers are woken, also when ticks
    were skipped.
  \<^item> \<^verbatim>\<open>Scheduler\<close>: \<^verbatim>\<open>Schedule\<close>, \<^verbatim>\<open>SchedulerTick\<close>, \<^verbatim>\<open>Sleep\<close>; what a context switch saves and loads, the invariant
    of queue, wheel and running task, and that every ready task runs after a bounded number of ticks.
  \<^item> \<^verbatim>\<open>Task_Sync\<close>, for the wait queues, \<^verbatim>\<open>kernel/task/mutex.cpp\<close>, and the signals and process groups of
    \<^verbatim>\<open>kernel/task/task_main.cpp\<close>: the mutex refines a lock with a queue and is handed over in order.

  \<^bold>\<open>Files.\<close>
  \<^item> \<^verbatim>\<open>C_String\<close>, \<^verbatim>\<open>C_Format\<close>, for \<^verbatim>\<open>kernel/lib/string.cpp\<close>: block and string operations on byte lists, number
    formatting and the bounded formatter, which never leaves its buffer.
  \<^item> \<^verbatim>\<open>Vfs_Path\<close>, \<^verbatim>\<open>Vfs_Files\<close>, for \<^verbatim>\<open>kernel/filesys/vfs/vfs.cpp\<close>: paths and mounts, then open files. The drivers
    behind the virtual functions of \<^verbatim>\<open>FileSystem\<close> are a record of functions, a parameter of the operations.
    The step relation \<^verbatim>\<open>vfs_step\<close> runs any sequence of operations; the reference counts are its invariant.
  \<^item> \<^verbatim>\<open>Pipe_Fs\<close>, for \<^verbatim>\<open>kernel/filesys/pipefs/pipe.cpp\<close>: the ring buffer implements the byte queue of the
    locale \<^verbatim>\<open>byte_fifo\<close>; reads and writes end, and sleep exactly when they must.

  \<^item> \<^verbatim>\<open>Disk\<close>, for \<^verbatim>\<open>kernel/filesys/partition.hpp\<close>: sectors of a partition on a block device, a parameter that may
    refuse a transfer or store only a part of it.
  \<^item> \<^verbatim>\<open>Fat_Table\<close>, \<^verbatim>\<open>Fat_Alloc\<close>, \<^verbatim>\<open>Fat_File\<close>, \<^verbatim>\<open>Fat_Io\<close>, for \<^verbatim>\<open>kernel/filesys/fat32/\<close>: mounting, the allocation table with
    its copies, chains of clusters, and open files. A volume is abstracted to the entry and the bytes of each
    cluster; a file is an array of bytes, the locale \<^verbatim>\<open>byte_file\<close>, interpreted on reading, writing and seeking.
    The correctness theorems assume a device and allocators that serve every request.
  \<^item> \<^verbatim>\<open>Fat_Dir\<close>, \<^verbatim>\<open>Fat_Name\<close>, \<^verbatim>\<open>Fat_Create\<close>, \<^verbatim>\<open>Fat_Path\<close>: directories are sequences of slots, whose listing is what the driver
    reports; long names read back as they were written; a created entry is found again exactly when no
    end-of-directory mark precedes it; creating, deleting and looking up paths.

  \<^bold>\<open>Network.\<close>
  \<^item> \<^verbatim>\<open>Net_Bytes\<close>, for \<^verbatim>\<open>Include/network/\<close>: byte order, packed headers as byte lists, the internet checksum and
    that a packet that carries its own checksum sums to zero.
  \<^item> \<^verbatim>\<open>Net_Ring\<close>: the receive rings of all sockets; the locale \<^verbatim>\<open>window_queue\<close>, a queue that keeps the newest
    bytes, is interpreted on them, and the protocols use only its laws.
  \<^item> \<^verbatim>\<open>Net_Stack\<close>, \<^verbatim>\<open>Net_Input\<close>, for \<^verbatim>\<open>kernel/lib/network/ethernetstack.cpp\<close>: the state of the stack, the ARP cache, the
    sockets and senders; then the handlers of incoming frames. The properties are exchanges between two
    hosts: address resolution, a datagram, a ping.
  \<^item> \<^verbatim>\<open>Tcp\<close>, for \<^verbatim>\<open>kernel/lib/network/tcp.cpp\<close>; \<^verbatim>\<open>Tcp_Stream\<close>: reassembly in any order of arrival, by the step relation
    \<^verbatim>\<open>conn_step\<close>; \<^verbatim>\<open>Tcp_Safe\<close>: sockets stay well formed under \<^verbatim>\<open>stack_step\<close>, all operations of the stack, and then
    no handler is undefined; \<^verbatim>\<open>Tcp_Wire\<close>: frames read back as they were meant, retransmission, the handshake's numbers.
  \<^item> \<^verbatim>\<open>Dns\<close>, \<^verbatim>\<open>Dhcp\<close>, for \<^verbatim>\<open>kernel/lib/network/dns.cpp\<close> and \<^verbatim>\<open>dhcp.cpp\<close>: names and options read back as written.
    What uninitialized memory holds is a parameter of the operations that read it (\<^verbatim>\<open>uninit\<close>, \<^verbatim>\<open>stale\<close>).

  \<^bold>\<open>Not modelled.\<close> Device drivers, descriptor tables, interrupt stubs, firmware tables and the console
  access hardware registers and have no behaviour in memory to state. The root and device file systems,
  the partition table, the socket files and most system calls forward to modelled services after checks of
  their arguments; ext2 is a second format of the size of all of FAT32 and more; tasks are built by writing stacks
  and contexts that only the assembly stubs read. Output (\<^verbatim>\<open>Serial\<close>, \<^verbatim>\<open>Printk\<close> other than
  \<^verbatim>\<open>Panic\<close>) and TLB flushes are left out of modelled operations. Concurrency between processors is not
  modelled: the operations run one after the other, as under the locks that guard them, except for the
  interleavings that \<^verbatim>\<open>Pipe_Fs\<close> states.
\<close>

end
